(* ===== verification/Prelude.thy ===== *)
theory Prelude
  imports Main "HOL-Library.Word" "HOL-Library.Multiset" "HOL-Library.Sublist"
begin

text \<open>
  Shared material of the development: the machine types of the C++ sources, the faults a
  model can report, the collections of rewrite rules the component theories fill, and
  generic facts on words and lists.
\<close>

unbundle bit_operations_syntax

section \<open>Types\<close>

text \<open>
  A \<open>char\<close> of the sources is a byte, a \<open>Slice\<close> or \<open>std::string\<close> its contents. A pointer into
  a buffer is the suffix of the buffer it points to, so \<open>[p, limit)\<close> is a slice as well.
\<close>

type_synonym byte = "8 word"
type_synonym slice = "byte list"
type_synonym u32 = "32 word"
type_synonym u64 = "64 word"

text \<open>
  What a C++ operation does when it leaves its defined behaviour: an access outside an array
  or vector, a null pointer that is dereferenced, an assertion that fails. Operations that can
  do so return \<open>fault + 'a\<close>.
\<close>

datatype fault = OutOfBounds | NullDeref | AssertFailed

type_synonym 'a result = "fault + 'a"

definition and_then :: "'a result \<Rightarrow> ('a \<Rightarrow> 'b result) \<Rightarrow> 'b result" where
  "and_then r f = (case r of Inl e \<Rightarrow> Inl e | Inr x \<Rightarrow> f x)"

lemma and_then_simps [simp]: "and_then (Inr x) f = f x" "and_then (Inl e) f = Inl e"
  by (simp_all add: and_then_def)

lemma and_then_Inr: "and_then r f = Inr y \<longleftrightarrow> (\<exists>x. r = Inr x \<and> f x = Inr y)"
  by (cases r) simp_all

text \<open>
  A loop whose end is not evident from its text: the body gives the next state and whether the loop goes on.
  \<open>None\<close> is a loop that does not end.
\<close>

partial_function (option) run_loop :: "('s \<Rightarrow> (bool \<times> 's) result) \<Rightarrow> 's \<Rightarrow> 's result option" where
  [code]: "run_loop body s =
     (case body s of
        Inl e \<Rightarrow> Some (Inl e)
      | Inr (go, s') \<Rightarrow> if go then run_loop body s' else Some (Inr s'))"

lemma run_loop_invariant:
  assumes "run_loop body s = Some y" "I s"
    and step: "\<And>s. I s \<Longrightarrow> case body s of Inl e \<Rightarrow> Q (Inl e) | Inr (go, s') \<Rightarrow> if go then I s' else Q (Inr s')"
  shows "Q y"
proof -
  have "body = body \<longrightarrow> I s \<longrightarrow> Q y"
  proof (rule run_loop.raw_induct [where P = "\<lambda>b s y. b = body \<longrightarrow> I s \<longrightarrow> Q y", OF _ assms(1)], intro impI)
    fix rec b s y
    assume rec: "\<And>b s y. rec b s = Some y \<Longrightarrow> b = body \<longrightarrow> I s \<longrightarrow> Q y"
      and b: "(case b s of Inl e \<Rightarrow> Some (Inl e) | Inr (go, s') \<Rightarrow> if go then rec b s' else Some (Inr s')) = Some y"
      and "b = body" "I s"
    then show "Q y" using step [of s] by (auto split: sum.splits prod.splits if_splits)
  qed
  with assms(2) show ?thesis by simp
qed

text \<open>An operation that runs such a loop: \<open>None\<close> if it does not return, otherwise its result.\<close>

type_synonym 'a run = "'a result option"

abbreviation returns :: "'a \<Rightarrow> 'a run" where
  "returns x \<equiv> Some (Inr x)"

abbreviation fails :: "fault \<Rightarrow> 'a run" where
  "fails e \<equiv> Some (Inl e)"

definition run_then :: "'a run \<Rightarrow> ('a \<Rightarrow> 'b run) \<Rightarrow> 'b run" where
  "run_then m f = (case m of None \<Rightarrow> None | Some (Inl e) \<Rightarrow> Some (Inl e) | Some (Inr x) \<Rightarrow> f x)"

lemma run_then_simps [simp]: "run_then (returns x) f = f x" "run_then (fails e) f = fails e" "run_then None f = None"
  by (simp_all add: run_then_def)

text \<open>The outcomes of \<open>include/rocksdb/status.h\<close> that the modelled operations return; the text of an
  error is its first message.\<close>

datatype Status = OK | NotFound | Corruption string | NotSupported string | InvalidArgument string | IOError | MemoryLimit | TryAgain | Incomplete

section \<open>Collections of rewrite rules\<close>

named_theorems codec_simps \<open>round trips of the encoders: get (put v @ rest) = Some (v, rest)\<close>
named_theorems put_simps \<open>an append to a buffer as buffer @ encoding\<close>
named_theorems cmp_simps \<open>rules of three-way comparisons\<close>

section \<open>Words\<close>

lemma and_127_take_bit: "w AND 127 = take_bit 7 (w :: 'a::len word)"
  by (simp add: take_bit_eq_mask mask_eq_exp_minus_1)

lemma and_255_take_bit: "w AND 255 = take_bit 8 (w :: 'a::len word)"
  by (simp add: take_bit_eq_mask mask_eq_exp_minus_1)

lemma bit_128_word: "bit (128 :: 'a::len word) n \<longleftrightarrow> n = 7 \<and> n < LENGTH('a)"
proof -
  have "(128 :: 'a word) = 2 ^ 7" by simp
  then show ?thesis by (simp only: bit_exp_iff) auto
qed

lemma bit_128_nat: "bit (128 :: nat) n \<longleftrightarrow> n = 7"
proof -
  have "(128 :: nat) = 2 ^ 7" by simp
  then show ?thesis by (simp only: bit_exp_iff) auto
qed

lemma bit_128_int: "bit (128 :: int) n \<longleftrightarrow> n = 7"
proof -
  have "(128 :: int) = 2 ^ 7" by simp
  then show ?thesis by (simp only: bit_exp_iff) auto
qed

lemmas bit_128_iff = bit_128_word bit_128_nat bit_128_int

lemma unat_drop_bit_div: "unat (drop_bit n w) = unat (w :: 'a::len word) div 2 ^ n"
  by (simp only: unat_drop_bit_eq) (simp add: drop_bit_eq_div)

lemma unat_less_exp: "unat (w :: 'a::len word) < 2 ^ LENGTH('a)"
  by (rule unsigned_less)

lemma unat_pow2_word:
  assumes "k < LENGTH('a::len)"
  shows "unat (2 ^ k :: 'a word) = 2 ^ k"
proof -
  have "(2 ^ k :: 'a word) = of_nat (2 ^ k)" by simp
  moreover have "(2 :: nat) ^ k < 2 ^ LENGTH('a)" using assms by simp
  ultimately show ?thesis by (simp only: unsigned_of_nat take_bit_nat_eq_self of_nat_id)
qed

lemma unat_ucast_up:
  assumes "LENGTH('a::len) \<le> LENGTH('b::len)"
  shows "unat (ucast (w :: 'a word) :: 'b word) = unat w"
proof -
  have "(2 :: nat) ^ LENGTH('a) \<le> 2 ^ LENGTH('b)" using assms by (intro power_increasing) auto
  with unat_less_exp [of w] have "unat w < 2 ^ LENGTH('b)" by (rule less_le_trans)
  then show ?thesis by (simp only: unsigned_ucast_eq take_bit_nat_eq_self)
qed

lemma take_bit_word_self: "unat w < 2 ^ n \<Longrightarrow> take_bit n w = (w :: 'a::len word)"
  by (rule word_unat_eq_iff [THEN iffD2]) (simp add: unsigned_take_bit_eq take_bit_nat_eq_self)

lemma not_bit_small: "unat w < 2 ^ n \<Longrightarrow> n \<le> k \<Longrightarrow> \<not> bit (w :: 'a::len word) k"
  using take_bit_word_self [of w n] by (metis bit_take_bit_iff not_less)

lemma and_128_eq_0_iff: "w AND 128 = 0 \<longleftrightarrow> \<not> bit (w :: 'a::len word) 7"
proof -
  have "(128 :: 'a word) = 2 ^ 7" by simp
  then show ?thesis by (simp only: and_exp_eq_0_iff_not_bit)
qed

lemma bit_byte_less: "bit (b :: byte) n \<Longrightarrow> n < 8"
  using bit_imp_le_length [of b n] by simp

lemma push_take_or_drop:
  "push_bit s (take_bit k w) OR push_bit (s + k) (drop_bit k w) = push_bit s (w :: 'a::len word)"
proof (rule bit_eqI)
  fix n
  show "bit (push_bit s (take_bit k w) OR push_bit (s + k) (drop_bit k w)) n = bit (push_bit s w) n"
    by (cases "n < s + k") (auto simp: bit_simps)
qed

lemma unat_of_nat_u32: "n < 2 ^ 32 \<Longrightarrow> unat (of_nat n :: u32) = n"
  by (simp add: unsigned_of_nat take_bit_nat_eq_self)

lemma sint_small: "n < 2 ^ 31 \<Longrightarrow> sint (of_nat n :: u32) = int n"
  by (simp add: signed_of_nat signed_take_bit_int_eq_self)

lemma word_of_int_sint_u32 [simp]: "word_of_int (sint (w :: u32)) = w"
  by simp

section \<open>Lists\<close>

lemma take_append_length [simp]: "take (length xs) (xs @ ys) = xs"
  by simp

lemma upt_lists:
  "[0..<2] = [0, 1]" "[0..<4] = [0, 1, 2, 3]" "[0..<8] = [0, 1, 2, 3, 4, 5, 6, 7]"
  by (simp_all add: upt_conv_Cons eval_nat_numeral)

lemma nth_take_drop: "i < n \<Longrightarrow> a + n \<le> length xs \<Longrightarrow> take n (drop a xs) ! i = xs ! (a + i)"
  by simp

end
