(* ===== verification/Coding.thy ===== *)
theory Coding
  imports Prelude
begin

text \<open>
  The byte-level encodings of \<open>util/coding.h\<close> and \<open>util/coding.cc\<close>: fixed-width integers,
  varints, zigzag integers and length-prefixed slices. A \<open>Put\<close> function appends to its
  destination, a \<open>Get\<close> function returns the decoded value with the rest of its input, or
  \<open>None\<close> where the code returns \<open>false\<close> or a null pointer.
\<close>

section \<open>Fixed-width integers\<close>

text \<open>
  \<open>native_bytes le n v\<close> is what \<open>memcpy\<close> finds at the address of an n-byte integer: the least
  significant byte first on a little-endian machine, last on a big-endian one.
\<close>

definition native_bytes :: "bool \<Rightarrow> nat \<Rightarrow> 'a::len word \<Rightarrow> slice" where
  "native_bytes le n v =
     (let bs = map (\<lambda>i. ucast (drop_bit (8 * i) v)) [0..<n] in if le then bs else rev bs)"

definition native_load :: "bool \<Rightarrow> slice \<Rightarrow> 'a::len word" where
  "native_load le bs =
     foldr (\<lambda>b r. ucast b OR push_bit 8 r) (if le then bs else rev bs) 0"

definition kLittleEndian :: bool where
  "kLittleEndian = True"

definition EncodeFixed16 :: "bool \<Rightarrow> 16 word \<Rightarrow> slice" where
  "EncodeFixed16 le v =
     (if le then native_bytes le 2 v
      else [ucast (v AND 0xff), ucast (drop_bit 8 v AND 0xff)])"

definition EncodeFixed32 :: "bool \<Rightarrow> u32 \<Rightarrow> slice" where
  "EncodeFixed32 le v =
     (if le then native_bytes le 4 v
      else [ucast (v AND 0xff), ucast (drop_bit 8 v AND 0xff),
            ucast (drop_bit 16 v AND 0xff), ucast (drop_bit 24 v AND 0xff)])"

definition EncodeFixed64 :: "bool \<Rightarrow> u64 \<Rightarrow> slice" where
  "EncodeFixed64 le v =
     (if le then native_bytes le 8 v
      else [ucast (v AND 0xff), ucast (drop_bit 8 v AND 0xff),
            ucast (drop_bit 16 v AND 0xff), ucast (drop_bit 24 v AND 0xff),
            ucast (drop_bit 32 v AND 0xff), ucast (drop_bit 40 v AND 0xff),
            ucast (drop_bit 48 v AND 0xff), ucast (drop_bit 56 v AND 0xff)])"

text \<open>
  The \<open>Decode\<close> functions read their bytes without a bounds check; every caller of the model
  passes a buffer that has them, and a shorter list reads as padded by zero bytes.
\<close>

definition byte_at :: "slice \<Rightarrow> nat \<Rightarrow> byte" where
  "byte_at p i = (if i < length p then p ! i else 0)"

definition DecodeFixed16 :: "bool \<Rightarrow> slice \<Rightarrow> 16 word" where
  "DecodeFixed16 le p =
     (if le then native_load le (map (byte_at p) [0..<2])
      else ucast (byte_at p 0) OR push_bit 8 (ucast (byte_at p 1)))"

definition DecodeFixed32 :: "bool \<Rightarrow> slice \<Rightarrow> u32" where
  "DecodeFixed32 le p =
     (if le then native_load le (map (byte_at p) [0..<4])
      else ucast (byte_at p 0) OR push_bit 8 (ucast (byte_at p 1))
        OR push_bit 16 (ucast (byte_at p 2)) OR push_bit 24 (ucast (byte_at p 3)))"

definition DecodeFixed64 :: "bool \<Rightarrow> slice \<Rightarrow> u64" where
  "DecodeFixed64 le p =
     (if le then native_load le (map (byte_at p) [0..<8])
      else let lo = ucast (DecodeFixed32 le p); hi = ucast (DecodeFixed32 le (drop 4 p))
           in push_bit 32 hi OR lo)"

definition PutFixed16 :: "slice \<Rightarrow> 16 word \<Rightarrow> slice" where
  "PutFixed16 dst v =
     dst @ (if kLittleEndian then native_bytes True 2 v else EncodeFixed16 kLittleEndian v)"

definition PutFixed32 :: "slice \<Rightarrow> u32 \<Rightarrow> slice" where
  "PutFixed32 dst v =
     dst @ (if kLittleEndian then native_bytes True 4 v else EncodeFixed32 kLittleEndian v)"

definition PutFixed64 :: "slice \<Rightarrow> u64 \<Rightarrow> slice" where
  "PutFixed64 dst v =
     dst @ (if kLittleEndian then native_bytes True 8 v else EncodeFixed64 kLittleEndian v)"

definition GetFixed16 :: "slice \<Rightarrow> (16 word \<times> slice) option" where
  "GetFixed16 input =
     (if length input < 2 then None else Some (DecodeFixed16 kLittleEndian input, drop 2 input))"

definition GetFixed32 :: "slice \<Rightarrow> (u32 \<times> slice) option" where
  "GetFixed32 input =
     (if length input < 4 then None else Some (DecodeFixed32 kLittleEndian input, drop 4 input))"

definition GetFixed64 :: "slice \<Rightarrow> (u64 \<times> slice) option" where
  "GetFixed64 input =
     (if length input < 8 then None else Some (DecodeFixed64 kLittleEndian input, drop 8 input))"

section \<open>Varints\<close>

definition EncodeVarint32 :: "u32 \<Rightarrow> slice" where
  "EncodeVarint32 v =
     (if v < 2 ^ 7 then [ucast v]
      else if v < 2 ^ 14 then [ucast (v OR 128), ucast (drop_bit 7 v)]
      else if v < 2 ^ 21 then
        [ucast (v OR 128), ucast (drop_bit 7 v OR 128), ucast (drop_bit 14 v)]
      else if v < 2 ^ 28 then
        [ucast (v OR 128), ucast (drop_bit 7 v OR 128), ucast (drop_bit 14 v OR 128),
         ucast (drop_bit 21 v)]
      else
        [ucast (v OR 128), ucast (drop_bit 7 v OR 128), ucast (drop_bit 14 v OR 128),
         ucast (drop_bit 21 v OR 128), ucast (drop_bit 28 v)])"

lemma unat_drop_bit_less: "n > 0 \<Longrightarrow> w \<noteq> 0 \<Longrightarrow> unat (drop_bit n w) < unat (w :: 'a::len word)"
proof -
  assume "n > 0" and "w \<noteq> 0"
  have "1 < (2 :: nat) ^ n" using \<open>n > 0\<close> by (intro one_less_power) auto
  with \<open>w \<noteq> 0\<close> have "unat w div 2 ^ n < unat w"
    by (intro div_less_dividend) (auto simp: unat_gt_0)
  then show ?thesis by (simp only: unat_drop_bit_div)
qed

function EncodeVarint64 :: "u64 \<Rightarrow> slice" where
  "EncodeVarint64 v =
     (if 128 \<le> v then ucast ((v AND 127) OR 128) # EncodeVarint64 (drop_bit 7 v)
      else [ucast v])"
  by pat_completeness auto
termination
  by (relation "measure unat") (auto intro!: unat_drop_bit_less)

declare EncodeVarint64.simps [simp del]

function VarintLength :: "u64 \<Rightarrow> nat" where
  "VarintLength v = (if 128 \<le> v then Suc (VarintLength (drop_bit 7 v)) else 1)"
  by pat_completeness auto
termination
  by (relation "measure unat") (auto intro!: unat_drop_bit_less)

declare VarintLength.simps [simp del]

text \<open>
  \<open>GetVarint32PtrFallback\<close> and \<open>GetVarint64Ptr\<close> are the same loop at two widths: at most
  \<open>lim\<close> bits of shift (28 and 63), 7 bits of payload in each byte.
\<close>

fun GetVarintLoop :: "nat \<Rightarrow> nat \<Rightarrow> 'a::len word \<Rightarrow> slice \<Rightarrow> ('a word \<times> slice) option" where
  "GetVarintLoop lim shift res [] = None"
| "GetVarintLoop lim shift res (c # p) =
     (if shift \<le> lim then
        (let b = ucast c in
         if b AND 128 \<noteq> 0
         then GetVarintLoop lim (shift + 7) (res OR push_bit shift (b AND 127)) p
         else Some (res OR push_bit shift b, p))
      else None)"

definition GetVarint32PtrFallback :: "slice \<Rightarrow> (u32 \<times> slice) option" where
  "GetVarint32PtrFallback p = GetVarintLoop 28 0 0 p"

definition GetVarint32Ptr :: "slice \<Rightarrow> (u32 \<times> slice) option" where
  "GetVarint32Ptr p =
     (case p of
        [] \<Rightarrow> GetVarint32PtrFallback p
      | c # q \<Rightarrow>
          (let res = ucast c in
           if res AND 128 = 0 then Some (res, q) else GetVarint32PtrFallback p))"

definition GetVarint64Ptr :: "slice \<Rightarrow> (u64 \<times> slice) option" where
  "GetVarint64Ptr p = GetVarintLoop 63 0 0 p"

definition PutVarint32 :: "slice \<Rightarrow> u32 \<Rightarrow> slice" where
  "PutVarint32 dst v = dst @ EncodeVarint32 v"

definition PutVarint64 :: "slice \<Rightarrow> u64 \<Rightarrow> slice" where
  "PutVarint64 dst v = dst @ EncodeVarint64 v"

definition PutVarint32Varint32 :: "slice \<Rightarrow> u32 \<Rightarrow> u32 \<Rightarrow> slice" where
  "PutVarint32Varint32 dst v1 v2 = dst @ (EncodeVarint32 v1 @ EncodeVarint32 v2)"

definition PutVarint32Varint32Varint32 :: "slice \<Rightarrow> u32 \<Rightarrow> u32 \<Rightarrow> u32 \<Rightarrow> slice" where
  "PutVarint32Varint32Varint32 dst v1 v2 v3 =
     dst @ (EncodeVarint32 v1 @ EncodeVarint32 v2 @ EncodeVarint32 v3)"

definition PutVarint64Varint64 :: "slice \<Rightarrow> u64 \<Rightarrow> u64 \<Rightarrow> slice" where
  "PutVarint64Varint64 dst v1 v2 = dst @ (EncodeVarint64 v1 @ EncodeVarint64 v2)"

definition PutVarint32Varint64 :: "slice \<Rightarrow> u32 \<Rightarrow> u64 \<Rightarrow> slice" where
  "PutVarint32Varint64 dst v1 v2 = dst @ (EncodeVarint32 v1 @ EncodeVarint64 v2)"

definition PutVarint32Varint32Varint64 :: "slice \<Rightarrow> u32 \<Rightarrow> u32 \<Rightarrow> u64 \<Rightarrow> slice" where
  "PutVarint32Varint32Varint64 dst v1 v2 v3 =
     dst @ (EncodeVarint32 v1 @ EncodeVarint32 v2 @ EncodeVarint64 v3)"

definition GetVarint32 :: "slice \<Rightarrow> (u32 \<times> slice) option" where
  "GetVarint32 input = GetVarint32Ptr input"

definition GetVarint64 :: "slice \<Rightarrow> (u64 \<times> slice) option" where
  "GetVarint64 input = GetVarint64Ptr input"

text \<open>Zigzag: the signed right shift by 63 is all ones for a negative number, else 0.\<close>

definition i64ToZigzag :: "64 word \<Rightarrow> u64" where
  "i64ToZigzag l = push_bit 1 l XOR signed_drop_bit 63 l"

definition zigzagToI64 :: "u64 \<Rightarrow> 64 word" where
  "zigzagToI64 n = drop_bit 1 n XOR - (n AND 1)"

definition PutVarsignedint64 :: "slice \<Rightarrow> 64 word \<Rightarrow> slice" where
  "PutVarsignedint64 dst v = dst @ EncodeVarint64 (i64ToZigzag v)"

definition GetVarsignedint64Ptr :: "slice \<Rightarrow> (64 word \<times> slice) option" where
  "GetVarsignedint64Ptr p =
     (case GetVarint64Ptr p of None \<Rightarrow> None | Some (u, q) \<Rightarrow> Some (zigzagToI64 u, q))"

section \<open>Length-prefixed slices\<close>

definition PutLengthPrefixedSlice :: "slice \<Rightarrow> slice \<Rightarrow> slice" where
  "PutLengthPrefixedSlice dst v = PutVarint32 dst (of_nat (length v)) @ v"

definition PutLengthPrefixedSliceParts :: "slice \<Rightarrow> slice list \<Rightarrow> slice" where
  "PutLengthPrefixedSliceParts dst parts =
     (let total_bytes = fold (\<lambda>p t. t + length p) parts 0;
          dst1 = PutVarint32 dst (of_nat total_bytes)
      in fold (\<lambda>p d. d @ p) parts dst1)"

definition GetLengthPrefixedSlice :: "slice \<Rightarrow> (slice \<times> slice) option" where
  "GetLengthPrefixedSlice input =
     (case GetVarint32 input of
        None \<Rightarrow> None
      | Some (len, rest) \<Rightarrow>
          if unat len \<le> length rest then Some (take (unat len) rest, drop (unat len) rest)
          else None)"

fun slice_until :: "slice \<Rightarrow> byte \<Rightarrow> nat" where
  "slice_until [] d = 0"
| "slice_until (c # s) d = (if c \<noteq> d then Suc (slice_until s d) else 0)"

definition GetSliceUntil :: "slice \<Rightarrow> byte \<Rightarrow> slice \<times> slice" where
  "GetSliceUntil s d =
     (let len = slice_until s d
      in (take len s, drop (len + (if len < length s then 1 else 0)) s))"

section \<open>Fixed-width round trips\<close>

lemma ucast_and_255: "ucast (v AND 255) = (ucast (v :: 'a::len word) :: byte)"
  unfolding and_255_take_bit by (rule bit_eqI) (simp add: bit_simps)

lemmas EncodeFixed_unfold =
  EncodeFixed16_def EncodeFixed32_def EncodeFixed64_def native_bytes_def Let_def ucast_and_255

lemma EncodeFixed16_list:
  "EncodeFixed16 le v = [ucast v, ucast (drop_bit 8 v)]"
  by (simp add: EncodeFixed_unfold upt_lists)

lemma EncodeFixed32_list:
  "EncodeFixed32 le v =
     [ucast v, ucast (drop_bit 8 v), ucast (drop_bit 16 v), ucast (drop_bit 24 v)]"
  by (simp add: EncodeFixed_unfold upt_lists)

lemma EncodeFixed64_list:
  "EncodeFixed64 le v =
     [ucast v, ucast (drop_bit 8 v), ucast (drop_bit 16 v), ucast (drop_bit 24 v),
      ucast (drop_bit 32 v), ucast (drop_bit 40 v), ucast (drop_bit 48 v), ucast (drop_bit 56 v)]"
  by (simp add: EncodeFixed_unfold upt_lists)

lemma DecodeFixed16_or:
  "DecodeFixed16 le p = ucast (byte_at p 0) OR push_bit 8 (ucast (byte_at p 1))"
  by (simp add: DecodeFixed16_def native_load_def upt_lists)

lemma DecodeFixed32_or:
  "DecodeFixed32 le p = ucast (byte_at p 0) OR push_bit 8 (ucast (byte_at p 1))
     OR push_bit 16 (ucast (byte_at p 2)) OR push_bit 24 (ucast (byte_at p 3))"
  by (simp add: DecodeFixed32_def native_load_def upt_lists push_bit_or or.assoc)

lemma byte_at_drop: "byte_at (drop k p) i = byte_at p (k + i)"
  by (auto simp: byte_at_def)

lemma ucast_push_byte:
  "s \<le> 24 \<Longrightarrow> ucast (push_bit s (ucast (b :: byte)) :: u32) = (push_bit s (ucast b) :: u64)"
  by (rule bit_eqI) (auto simp: bit_simps dest: bit_byte_less)

lemma ucast_u32_byte: "ucast (ucast (b :: byte) :: u32) = (ucast b :: u64)"
  by (rule bit_eqI) (auto simp: bit_simps dest: bit_byte_less)

lemma DecodeFixed64_or:
  "DecodeFixed64 le p = ucast (byte_at p 0) OR push_bit 8 (ucast (byte_at p 1))
     OR push_bit 16 (ucast (byte_at p 2)) OR push_bit 24 (ucast (byte_at p 3))
     OR push_bit 32 (ucast (byte_at p 4)) OR push_bit 40 (ucast (byte_at p 5))
     OR push_bit 48 (ucast (byte_at p 6)) OR push_bit 56 (ucast (byte_at p 7))"
proof (cases le)
  case True
  then show ?thesis
    by (simp add: DecodeFixed64_def native_load_def upt_lists push_bit_or or.assoc)
next
  case False
  then show ?thesis
    by (simp add: DecodeFixed64_def DecodeFixed32_or byte_at_drop unsigned_or_eq
        ucast_push_byte ucast_u32_byte push_bit_or or.assoc or.commute or.left_commute)
qed

text \<open>Gluing a word back together from its bytes, most significant byte first.\<close>

lemma ucast_ucast_byte: "ucast (ucast w :: byte) = take_bit 8 (w :: 'a::len word)"
  by (rule bit_eqI) (auto simp: bit_simps)

lemma glue_byte:
  "push_bit s (take_bit 8 (drop_bit s v)) OR push_bit (s + 8) (drop_bit (s + 8) v) =
     push_bit s (drop_bit s (v :: 'a::len word))"
  using push_take_or_drop [of s 8 "drop_bit s v"] by (simp add: add.commute)

lemmas glue_bytes =
  glue_byte [of 8, simplified] glue_byte [of 16, simplified] glue_byte [of 24, simplified]
  glue_byte [of 32, simplified] glue_byte [of 40, simplified] glue_byte [of 48, simplified]
  push_take_or_drop [of 0 8, simplified]

lemma glue_top:
  "take_bit 8 (drop_bit 8 (v :: 16 word)) = drop_bit 8 v"
  "take_bit 8 (drop_bit 24 (w :: u32)) = drop_bit 24 w"
  "take_bit 8 (drop_bit 56 (x :: u64)) = drop_bit 56 x"
  by (rule bit_eqI, auto simp: bit_simps dest: bit_imp_le_length)+

lemma DecodeFixed16_EncodeFixed16 [simp]:
  "DecodeFixed16 le (EncodeFixed16 le' v @ rest) = v"
  by (simp add: DecodeFixed16_or EncodeFixed16_list byte_at_def ucast_ucast_byte glue_top glue_bytes)

lemma DecodeFixed32_EncodeFixed32 [simp]:
  "DecodeFixed32 le (EncodeFixed32 le' v @ rest) = v"
  by (simp add: DecodeFixed32_or EncodeFixed32_list byte_at_def ucast_ucast_byte glue_top
      or.assoc glue_bytes)

lemma DecodeFixed64_EncodeFixed64 [simp]:
  "DecodeFixed64 le (EncodeFixed64 le' v @ rest) = v"
  by (simp add: DecodeFixed64_or EncodeFixed64_list byte_at_def ucast_ucast_byte glue_top
      or.assoc glue_bytes)

section \<open>Varint round trips\<close>

lemma word_ge_128_iff: "128 \<le> (v :: u64) \<longleftrightarrow> 128 \<le> unat v"
  by (simp add: word_le_nat_alt)

lemma more_byte:
  fixes v :: u64
  defines "c \<equiv> ucast ((v AND 127) OR 128) :: byte"
  assumes "LENGTH('a::len) \<ge> 8"
  shows "(ucast c :: 'a word) AND 128 \<noteq> 0"
    and "(ucast c :: 'a word) AND 127 = take_bit 7 (ucast v)"
proof -
  have "bit c 7" by (simp add: c_def bit_simps bit_128_iff)
  then show "(ucast c :: 'a word) AND 128 \<noteq> 0"
    using assms(2) by (simp add: and_128_eq_0_iff bit_simps)
  show "(ucast c :: 'a word) AND 127 = take_bit 7 (ucast v)"
    unfolding and_127_take_bit c_def
    using assms(2) by (intro bit_eqI) (auto simp: bit_simps bit_128_iff)
qed

lemma last_byte:
  fixes v :: u64
  assumes "LENGTH('a::len) \<ge> 8" and "\<not> 128 \<le> v"
  shows "(ucast (ucast v :: byte) :: 'a word) AND 128 = 0"
    and "(ucast (ucast v :: byte) :: 'a word) = ucast v"
proof -
  have small: "n < 7" if "bit v n" for n
    using assms(2) not_bit_small [of v 7 n] that by (fastforce simp: word_le_nat_alt)
  show "(ucast (ucast v :: byte) :: 'a word) AND 128 = 0"
    by (auto simp: and_128_eq_0_iff bit_simps dest: small)
  show "(ucast (ucast v :: byte) :: 'a word) = ucast v"
    using assms(1) by (intro bit_eqI) (auto simp: bit_simps dest: small)
qed

lemma GetVarintLoop_EncodeVarint64:
  assumes "\<And>s. 7 dvd s \<Longrightarrow> s < LENGTH('a::len) \<Longrightarrow> s \<le> lim"
    and "LENGTH('a) \<ge> 8" and "7 dvd shift" and "shift < LENGTH('a)"
    and "unat v < 2 ^ (LENGTH('a) - shift)"
  shows "GetVarintLoop lim shift res (EncodeVarint64 v @ rest) =
    Some (res OR push_bit shift (ucast v :: 'a word), rest)"
  using assms(3-)
proof (induction v arbitrary: shift res rule: EncodeVarint64.induct)
  case (1 v)
  note more = more_byte [where 'a='a, OF assms(2), of v]
  have lim: "shift \<le> lim" using 1 assms(1) by blast
  show ?case
  proof (cases "128 \<le> v")
    case False
    then show ?thesis
      using last_byte [where 'a='a, OF assms(2) False] lim
      by (simp add: EncodeVarint64.simps [of v] Let_def)
  next
    case True
    have "(2 :: nat) ^ 7 < 2 ^ (LENGTH('a) - shift)"
      using True 1(4) by (simp add: word_le_nat_alt)
    then have "7 < LENGTH('a) - shift" by (rule power_less_imp_less_exp [rotated]) simp
    then have next_shift: "shift + 7 < LENGTH('a)" by simp
    have "unat (drop_bit 7 v) = unat v div 2 ^ 7"
      by (rule unat_drop_bit_div)
    also have "\<dots> < 2 ^ (LENGTH('a) - (shift + 7))"
    proof (rule less_mult_imp_div_less)
      have "(2 :: nat) ^ (LENGTH('a) - (shift + 7)) * 2 ^ 7 = 2 ^ (LENGTH('a) - shift)"
        using next_shift by (simp only: power_add [symmetric]) simp
      with 1(4) show "unat v < 2 ^ (LENGTH('a) - (shift + 7)) * 2 ^ 7" by simp
    qed
    finally have "unat (drop_bit 7 v) < 2 ^ (LENGTH('a) - (shift + 7))" .
    with 1 True next_shift
    have "GetVarintLoop lim (shift + 7) (res OR push_bit shift (take_bit 7 (ucast v)))
        (EncodeVarint64 (drop_bit 7 v) @ rest) =
      Some ((res OR push_bit shift (take_bit 7 (ucast v)))
          OR push_bit (shift + 7) (ucast (drop_bit 7 v) :: 'a word), rest)"
      by simp
    moreover have "push_bit (shift + 7) (ucast (drop_bit 7 v)) =
      (push_bit (shift + 7) (drop_bit 7 (ucast v)) :: 'a word)"
      by (rule bit_eqI) (auto simp: bit_simps)
    ultimately show ?thesis
      using True lim more
      by (simp add: EncodeVarint64.simps [of v] Let_def or.assoc push_take_or_drop)
  qed
qed

text \<open>The unrolled 32-bit encoder writes what the 64-bit loop writes.\<close>

lemma ucast_or_128: "ucast (w OR 128) = (ucast ((ucast w AND 127 :: u64) OR 128) :: byte)"
  for w :: u32
  unfolding and_127_take_bit by (rule bit_eqI) (auto simp: bit_simps bit_128_iff)

lemma drop_bit_ucast_u64: "drop_bit n (ucast (w :: u32) :: u64) = ucast (drop_bit n w)"
  by (rule bit_eqI) (auto simp: bit_simps dest: bit_imp_le_length)

lemma EncodeVarint64_ucast:
  "EncodeVarint64 (ucast (w :: u32)) =
     (if w < 2 ^ 7 then [ucast w]
      else ucast (w OR 128) # EncodeVarint64 (ucast (drop_bit 7 w)))"
proof -
  have "128 \<le> (ucast w :: u64) \<longleftrightarrow> \<not> w < 2 ^ 7"
    by (simp add: word_le_nat_alt word_less_nat_alt unat_ucast_up not_less)
  moreover have "ucast (ucast w :: u64) = (ucast w :: byte)"
    by (rule bit_eqI) (auto simp: bit_simps dest: bit_imp_le_length)
  ultimately show ?thesis
    by (simp add: EncodeVarint64.simps [of "ucast w"] ucast_or_128 drop_bit_ucast_u64)
qed

lemma drop_bit_less_iff:
  "drop_bit n w < 2 ^ 7 \<longleftrightarrow> w < 2 ^ (n + 7)" if "n + 7 < 32" for w :: u32
proof -
  have "unat (2 ^ (n + 7) :: u32) = 2 ^ (n + 7)"
    using that by (intro unat_pow2_word) simp
  then show ?thesis
    by (simp only: word_less_nat_alt unat_drop_bit_div) (simp add: div_less_iff_less_mult power_add mult.commute)
qed

lemma EncodeVarint32_eq_EncodeVarint64: "EncodeVarint32 v = EncodeVarint64 (ucast v)"
proof -
  have top: "drop_bit 28 v < 2 ^ 7"
  proof -
    have "unat v < 2 ^ 32" using unat_less_exp [of v] by simp
    then show ?thesis by (simp add: word_less_nat_alt unat_drop_bit_div)
  qed
  show ?thesis
    unfolding EncodeVarint32_def
    by (simp add: EncodeVarint64_ucast drop_bit_less_iff [of 7, simplified]
        drop_bit_less_iff [of 14, simplified] drop_bit_less_iff [of 21, simplified] top [simplified])
qed

section \<open>The contract of an encoder and its decoder\<close>

text \<open>
  A \<open>Get\<close> function consumes a nonempty prefix of its input whenever it succeeds (this is what
  makes decoding loops stop), and reads back what the matching encoder wrote, whatever follows.
  \<open>get_seq\<close> runs a decoder a given number of times.
\<close>

fun get_seq :: "(slice \<Rightarrow> ('a \<times> slice) option) \<Rightarrow> nat \<Rightarrow> slice \<Rightarrow> ('a list \<times> slice) option" where
  "get_seq get 0 p = Some ([], p)"
| "get_seq get (Suc n) p =
     (case get p of
        None \<Rightarrow> None
      | Some (v, q) \<Rightarrow>
          (case get_seq get n q of None \<Rightarrow> None | Some (vs, r) \<Rightarrow> Some (v # vs, r)))"

locale slice_parser =
  fixes get :: "slice \<Rightarrow> ('a \<times> slice) option"
  assumes get_suffix: "get p = Some (v, q) \<Longrightarrow> strict_suffix q p"
begin

lemma get_shorter: "get p = Some (v, q) \<Longrightarrow> length q < length p"
  by (drule get_suffix) (rule suffix_length_less)

lemma get_seq_suffix: "get_seq get n p = Some (vs, q) \<Longrightarrow> suffix q p \<and> length vs = n"
proof (induction n arbitrary: p vs)
  case (Suc n)
  then obtain v r ws where "get p = Some (v, r)" and "get_seq get n r = Some (ws, q)" and "vs = v # ws"
    by (auto split: option.splits)
  with Suc.IH [of r ws] get_suffix [of p v r] show ?case
    by (metis length_Cons suffix_order.less_imp_le suffix_order.order_trans)
qed simp

end

locale slice_codec = slice_parser get
  for get :: "slice \<Rightarrow> ('a \<times> slice) option" +
  fixes enc :: "'a \<Rightarrow> slice" and valid :: "'a \<Rightarrow> bool"
  assumes get_enc: "valid v \<Longrightarrow> get (enc v @ rest) = Some (v, rest)"
begin

lemma enc_nonempty:
  assumes "valid v"
  shows "enc v \<noteq> []"
proof -
  have "get (enc v) = Some (v, [])" using get_enc [OF assms, of "[]"] by simp
  from get_shorter [OF this] show ?thesis by auto
qed

lemma enc_prefix_free:
  assumes "valid v" and "valid w" and "enc v @ p = enc w @ q"
  shows "v = w \<and> p = q"
proof -
  have "Some (v, p) = get (enc v @ p)" by (rule get_enc [OF assms(1), symmetric])
  also have "\<dots> = get (enc w @ q)" by (simp only: assms(3))
  also have "\<dots> = Some (w, q)" by (rule get_enc [OF assms(2)])
  finally show ?thesis by simp
qed

lemma get_seq_enc:
  "list_all valid vs \<Longrightarrow>
     get_seq get (length vs) (concat (map enc vs) @ rest) = Some (vs, rest)"
  by (induction vs) (simp_all add: get_enc)

end

text \<open>The decoders of this theory meet the contract.\<close>

lemma drop_strict_suffix: "0 < n \<Longrightarrow> n \<le> length p \<Longrightarrow> strict_suffix (drop n p) p"
proof -
  assume "0 < n" and "n \<le> length p"
  then have "length (drop n p) \<noteq> length p" by simp
  then have "drop n p \<noteq> p" by metis
  then show ?thesis by (simp add: strict_suffix_def suffix_drop)
qed

lemma GetVarintLoop_suffix: "GetVarintLoop lim shift res p = Some (v, q) \<Longrightarrow> strict_suffix q p"
proof (induction lim shift res p rule: GetVarintLoop.induct)
  case (2 lim shift res c p)
  from 2(2) have "q = p \<or> strict_suffix q p"
    by (auto simp: Let_def split: if_splits intro: 2(1))
  moreover have "strict_suffix p (c # p)" by (simp add: strict_suffix_def suffix_ConsI)
  ultimately show ?case by (metis suffix_order.less_trans)
qed simp

lemma EncodeFixed_length [simp]:
  "length (EncodeFixed16 le u) = 2" "length (EncodeFixed32 le v) = 4" "length (EncodeFixed64 le w) = 8"
  by (simp_all add: EncodeFixed16_list EncodeFixed32_list EncodeFixed64_list)

interpretation fixed16: slice_codec GetFixed16 "EncodeFixed16 kLittleEndian" "\<lambda>_. True"
  by unfold_locales
    (auto simp: GetFixed16_def intro!: drop_strict_suffix split: if_splits)

interpretation fixed32: slice_codec GetFixed32 "EncodeFixed32 kLittleEndian" "\<lambda>_. True"
  by unfold_locales
    (auto simp: GetFixed32_def intro!: drop_strict_suffix split: if_splits)

interpretation fixed64: slice_codec GetFixed64 "EncodeFixed64 kLittleEndian" "\<lambda>_. True"
  by unfold_locales
    (auto simp: GetFixed64_def intro!: drop_strict_suffix split: if_splits)

lemma GetVarint32_EncodeVarint32: "GetVarint32 (EncodeVarint32 v @ rest) = Some (v, rest)"
proof -
  let ?w = "ucast v :: u64"
  have loop: "GetVarint32PtrFallback (EncodeVarint64 ?w @ rest) = Some (v, rest)"
  proof -
    have "s \<le> 28" if "7 dvd s" and "s < 32" for s :: nat
      using that by presburger
    moreover have "unat ?w < 2 ^ 32"
      using unat_less_exp [of v] by (simp add: unat_ucast_up)
    moreover have "(ucast ?w :: u32) = v"
      by (rule bit_eqI) (auto simp: bit_simps dest: bit_imp_le_length)
    ultimately show ?thesis
      using GetVarintLoop_EncodeVarint64 [where 'a=32, of 28 0 ?w 0 rest]
      by (simp add: GetVarint32PtrFallback_def)
  qed
  have "GetVarint32Ptr (EncodeVarint64 ?w @ rest) = Some (v, rest)"
  proof (cases "128 \<le> ?w")
    case True
    then show ?thesis
      using loop more_byte(1) [where 'a=32, of ?w]
      by (simp add: GetVarint32Ptr_def EncodeVarint64.simps [of ?w] Let_def)
  next
    case False
    moreover have "(ucast ?w :: u32) = v"
      by (rule bit_eqI) (auto simp: bit_simps dest: bit_imp_le_length)
    ultimately show ?thesis
      using last_byte [where 'a=32, OF _ False]
      by (simp add: GetVarint32Ptr_def EncodeVarint64.simps [of ?w] Let_def)
  qed
  then show ?thesis by (simp add: GetVarint32_def EncodeVarint32_eq_EncodeVarint64)
qed

lemma GetVarint64_EncodeVarint64: "GetVarint64 (EncodeVarint64 v @ rest) = Some (v, rest)"
proof -
  have "s \<le> 63" if "7 dvd s" and "s < 64" for s :: nat
    using that by presburger
  then show ?thesis
    using GetVarintLoop_EncodeVarint64 [where 'a=64, of 63 0 v 0 rest] unat_less_exp [of v]
    by (simp add: GetVarint64_def GetVarint64Ptr_def)
qed

lemma GetVarint32_suffix:
  assumes "GetVarint32 p = Some (v, q)"
  shows "strict_suffix q p"
proof -
  have "(\<exists>c. p = c # q) \<or> GetVarintLoop 28 0 0 p = Some (v, q)"
    using assms unfolding GetVarint32_def GetVarint32Ptr_def GetVarint32PtrFallback_def Let_def
    by (auto simp del: GetVarintLoop.simps split: list.splits if_splits)
  then show ?thesis
  proof
    assume "\<exists>c. p = c # q"
    then show ?thesis by (auto simp: strict_suffix_def suffix_ConsI)
  qed (rule GetVarintLoop_suffix)
qed

lemma GetVarint64_suffix: "GetVarint64 p = Some (v, q) \<Longrightarrow> strict_suffix q p"
  unfolding GetVarint64_def GetVarint64Ptr_def by (rule GetVarintLoop_suffix)

interpretation varint32: slice_codec GetVarint32 EncodeVarint32 "\<lambda>_. True"
  by unfold_locales (auto intro: GetVarint32_suffix GetVarint32_EncodeVarint32)

interpretation varint64: slice_codec GetVarint64 EncodeVarint64 "\<lambda>_. True"
  by unfold_locales
    (auto intro: GetVarint64_suffix GetVarint64_EncodeVarint64)

definition LengthPrefixed :: "slice \<Rightarrow> slice" where
  "LengthPrefixed v = EncodeVarint32 (of_nat (length v)) @ v"

interpretation lprefixed: slice_codec GetLengthPrefixedSlice LengthPrefixed "\<lambda>v. length v < 2 ^ 32"
proof
  fix p v q
  assume "GetLengthPrefixedSlice p = Some (v, q)"
  then obtain len r where "GetVarint32 p = Some (len, r)" and "q = drop (unat len) r"
    by (auto simp: GetLengthPrefixedSlice_def split: option.splits if_splits)
  then show "strict_suffix q p"
    using GetVarint32_suffix suffix_drop suffix_order.le_less_trans by blast
next
  fix v :: slice and rest
  assume "length v < 2 ^ 32"
  then have "unat (of_nat (length v) :: u32) = length v"
    by (simp add: unsigned_of_nat take_bit_nat_eq_self)
  then show "GetLengthPrefixedSlice (LengthPrefixed v @ rest) = Some (v, rest)"
    by (simp add: GetLengthPrefixedSlice_def LengthPrefixed_def GetVarint32_EncodeVarint32)
qed

lemmas [codec_simps] =
  fixed16.get_enc fixed32.get_enc fixed64.get_enc varint32.get_enc varint64.get_enc
  lprefixed.get_enc

lemma Put_append [put_simps]:
  "PutFixed16 dst u = dst @ EncodeFixed16 kLittleEndian u"
  "PutFixed32 dst v = dst @ EncodeFixed32 kLittleEndian v"
  "PutFixed64 dst w = dst @ EncodeFixed64 kLittleEndian w"
  "PutVarint32 dst v = dst @ EncodeVarint32 v"
  "PutVarint64 dst w = dst @ EncodeVarint64 w"
  "PutVarint32Varint32 dst v v' = dst @ EncodeVarint32 v @ EncodeVarint32 v'"
  "PutVarint32Varint32Varint32 dst v v' v'' =
     dst @ EncodeVarint32 v @ EncodeVarint32 v' @ EncodeVarint32 v''"
  "PutVarint64Varint64 dst w w' = dst @ EncodeVarint64 w @ EncodeVarint64 w'"
  "PutVarint32Varint64 dst v w = dst @ EncodeVarint32 v @ EncodeVarint64 w"
  "PutVarint32Varint32Varint64 dst v v' w =
     dst @ EncodeVarint32 v @ EncodeVarint32 v' @ EncodeVarint64 w"
  "PutLengthPrefixedSlice dst s = dst @ LengthPrefixed s"
  by (simp_all add: PutFixed16_def PutFixed32_def PutFixed64_def EncodeFixed16_def
      EncodeFixed32_def EncodeFixed64_def kLittleEndian_def PutVarint32_def PutVarint64_def
      PutVarint32Varint32_def PutVarint32Varint32Varint32_def PutVarint64Varint64_def
      PutVarint32Varint64_def PutVarint32Varint32Varint64_def PutLengthPrefixedSlice_def
      LengthPrefixed_def)

lemma PutLengthPrefixedSliceParts_concat:
  "PutLengthPrefixedSliceParts dst parts = PutLengthPrefixedSlice dst (concat parts)"
proof -
  have "fold (\<lambda>p t. t + length p) parts n = n + length (concat parts)" for n
    by (induction parts arbitrary: n) auto
  moreover have "fold (\<lambda>p d. d @ p) parts d = d @ concat parts" for d
    by (induction parts arbitrary: d) auto
  ultimately show ?thesis
    by (simp add: PutLengthPrefixedSliceParts_def PutLengthPrefixedSlice_def)
qed

section \<open>Sizes and signs\<close>

lemma VarintLength_length: "VarintLength v = length (EncodeVarint64 v)"
  by (induction v rule: EncodeVarint64.induct)
    (simp add: VarintLength.simps [of v for v] EncodeVarint64.simps [of v for v])

lemma length_EncodeVarint64_le:
  "unat v < 2 ^ (7 * n) \<Longrightarrow> 0 < n \<Longrightarrow> length (EncodeVarint64 v) \<le> n"
proof (induction v arbitrary: n rule: EncodeVarint64.induct)
  case (1 v)
  show ?case
  proof (cases "128 \<le> v")
    case False
    then show ?thesis using 1 by (simp add: EncodeVarint64.simps [of v])
  next
    case True
    then have "128 \<le> unat v" by (simp add: word_le_nat_alt)
    with 1(2) have "n \<noteq> 1" by auto
    with 1(3) obtain m where n: "n = Suc m" and "0 < m" by (cases n) auto
    have "unat (drop_bit 7 v) < 2 ^ (7 * m)"
      using 1(2) by (simp only: unat_drop_bit_div n)
        (simp add: less_mult_imp_div_less power_add)
    with 1(1) [OF True] \<open>0 < m\<close> True n show ?thesis
      by (simp add: EncodeVarint64.simps [of v])
  qed
qed

lemma length_EncodeVarint32_le: "length (EncodeVarint32 v) \<le> 5"
  by (simp add: EncodeVarint32_def)

lemma zigzag_sign: "drop_bit 1 (push_bit 1 w XOR signed_drop_bit 63 w) XOR
    - ((push_bit 1 w XOR signed_drop_bit 63 w) AND 1) = (w :: 64 word)"
proof -
  have s: "signed_drop_bit 63 w = (if bit w 63 then - 1 else 0)"
  proof (rule bit_word_eqI)
    fix n assume "n < LENGTH(64)"
    then show "bit (signed_drop_bit 63 w) n = bit (if bit w 63 then - 1 else 0 :: 64 word) n"
      by (cases "n = 0") (auto simp: bit_simps)
  qed
  have dbl: "bit (w * 2) (Suc n) \<longleftrightarrow> Suc n < 64 \<and> bit w n" for n
    using bit_double_iff [of w "Suc n"] by (simp add: mult.commute)
  have one: "(push_bit 1 w XOR x) AND 1 = x AND 1" for x :: "64 word"
    by (rule bit_eqI) (auto simp: bit_simps bit_0)
  show ?thesis
  proof (cases "bit w 63")
    case True
    have "drop_bit 1 (push_bit 1 w XOR - 1) XOR - 1 = w"
    proof (rule bit_word_eqI)
      fix n assume "n < LENGTH(64)"
      then show "bit (drop_bit 1 (push_bit 1 w XOR - 1) XOR - 1) n = bit w n"
        using True by (cases "n = 63") (auto simp: bit_simps dbl)
    qed
    moreover have "(- 1 AND 1 :: 64 word) = 1" by simp
    ultimately show ?thesis using True by (simp only: s one if_True)
  next
    case False
    have "drop_bit 1 (push_bit 1 w) = w"
    proof (rule bit_word_eqI)
      fix n assume "n < LENGTH(64)"
      then show "bit (drop_bit 1 (push_bit 1 w)) n = bit w n"
        using False by (cases "n = 63") (auto simp: bit_simps dbl dest: bit_imp_le_length)
    qed
    moreover have "(push_bit 1 w XOR 0) AND 1 = (0 :: 64 word)" by (simp only: one) simp
    ultimately show ?thesis using False by (simp only: s if_False) simp
  qed
qed

lemma zigzagToI64_i64ToZigzag: "zigzagToI64 (i64ToZigzag w) = w"
  unfolding zigzagToI64_def i64ToZigzag_def by (rule zigzag_sign)

lemma GetSliceUntil_split:
  assumes "GetSliceUntil s d = (tok, rest)"
  shows "d \<notin> set tok \<and> (s = tok \<and> rest = [] \<or> s = tok @ d # rest)"
proof -
  have "d \<notin> set (take (slice_until s d) s) \<and> slice_until s d \<le> length s \<and>
    (slice_until s d < length s \<longrightarrow> s ! slice_until s d = d)"
    by (induction s) auto
  moreover have "s = take n s @ s ! n # drop (Suc n) s" if "n < length s" for n
    using that by (rule id_take_nth_drop)
  ultimately show ?thesis
    using assms by (fastforce simp: GetSliceUntil_def Let_def split: if_splits)
qed

section \<open>Properties\<close>

text \<open>Fixed-width integers have one byte representation on every host. What a little-endian and
  a big-endian build write is the same, and either build reads back what any build wrote.\<close>

theorem fixed_width_portable:
  "EncodeFixed16 le u = EncodeFixed16 le' u \<and> EncodeFixed32 le v = EncodeFixed32 le' v
   \<and> EncodeFixed64 le w = EncodeFixed64 le' w
   \<and> DecodeFixed16 le (EncodeFixed16 le' u @ rest) = u
   \<and> DecodeFixed32 le (EncodeFixed32 le' v @ rest) = v
   \<and> DecodeFixed64 le (EncodeFixed64 le' w @ rest) = w"
  by (simp only: EncodeFixed16_list [of le] EncodeFixed16_list [of le']
      EncodeFixed32_list [of le] EncodeFixed32_list [of le'] EncodeFixed64_list [of le]
      EncodeFixed64_list [of le'] simp_thms)
    (simp flip: EncodeFixed16_list [of le'] EncodeFixed32_list [of le'] EncodeFixed64_list [of le'])

text \<open>Varints are read back with nothing of the following bytes touched, the unrolled 32 bit
  encoder writes what the 64 bit loop writes, \<open>VarintLength\<close> predicts the length, and the
  scratch buffers of 5 and 10 bytes in the Put functions are long enough.\<close>

theorem varint_roundtrip:
  "GetVarint32 (EncodeVarint32 v @ rest) = Some (v, rest)
   \<and> GetVarint64 (EncodeVarint64 w @ rest) = Some (w, rest)
   \<and> EncodeVarint32 v = EncodeVarint64 (ucast v)
   \<and> VarintLength w = length (EncodeVarint64 w)
   \<and> length (EncodeVarint32 v) \<le> 5 \<and> length (EncodeVarint64 w) \<le> 10"
proof -
  have "unat w < 2 ^ 64" using unat_less_exp [of w] by simp
  also have "(2 :: nat) ^ 64 \<le> 2 ^ (7 * 10)" by (rule power_increasing) simp_all
  finally have "length (EncodeVarint64 w) \<le> 10" by (rule length_EncodeVarint64_le) simp
  then show ?thesis
    using EncodeVarint32_eq_EncodeVarint64 [of v] length_EncodeVarint32_le [of v]
      VarintLength_length [of w] varint32.get_enc [of v rest] varint64.get_enc [of w rest]
    by simp
qed

text \<open>A varint-encoded signed integer is read back: zigzag coding is inverted, for every 64
  bit value.\<close>

theorem varsigned_roundtrip:
  "GetVarsignedint64Ptr (PutVarsignedint64 [] v @ rest) = Some (v, rest)"
  using varint64.get_enc [of "i64ToZigzag v" rest]
  by (simp add: GetVarsignedint64Ptr_def PutVarsignedint64_def GetVarint64_def
      zigzagToI64_i64ToZigzag)

text \<open>A sequence of length-prefixed slices is read back slice by slice, whether the slices were
  put whole or in parts.\<close>

theorem length_prefixed_roundtrip:
  "list_all (\<lambda>parts. length (concat parts) < 2 ^ 32) vs \<Longrightarrow>
     get_seq GetLengthPrefixedSlice (length vs)
       (fold (\<lambda>parts dst. PutLengthPrefixedSliceParts dst parts) vs [] @ rest) =
     Some (map concat vs, rest)"
proof -
  assume *: "list_all (\<lambda>parts. length (concat parts) < 2 ^ 32) vs"
  have "fold (\<lambda>parts dst. PutLengthPrefixedSliceParts dst parts) vs dst =
      dst @ concat (map LengthPrefixed (map concat vs))" for dst
    by (induction vs arbitrary: dst)
      (simp_all add: PutLengthPrefixedSliceParts_concat put_simps LengthPrefixed_def)
  moreover have "list_all (\<lambda>v. length v < 2 ^ 32) (map concat vs)"
    using * by (simp add: list.pred_map comp_def)
  ultimately show ?thesis
    using lprefixed.get_seq_enc [of "map concat vs" rest] by simp
qed

theorem length_prefixed_roundtrip_witness:
  "get_seq GetLengthPrefixedSlice (Suc (Suc 0))
     (fold (\<lambda>parts dst. PutLengthPrefixedSliceParts dst parts) [[[1, 2], [3]], [[]]] [] @ [9]) =
   Some ([[1, 2, 3], []], [9])"
  using length_prefixed_roundtrip [of "[[[1, 2], [3]], [[]]]" "[9]"] by simp

end
