(* ===== verification/Comparator.thy ===== *)
theory Comparator
  imports Prelude
begin

text \<open>
  Three-way comparison of keys: the contract of \<open>include/rocksdb/comparator.h\<close> as a locale,
  \<open>Slice::compare\<close> of \<open>include/rocksdb/slice.h\<close> and the two built-in comparators of
  \<open>util/comparator.cc\<close> as its providers.
\<close>

section \<open>The contract of a comparator\<close>

text \<open>
  \<open>Compare\<close> is a three-way comparison: its sign is that of a total preorder. Keys with
  different bytes may compare equal (\<open>CanKeysWithDifferentByteContentsBeEqual\<close>), so \<open>cmp a b = 0\<close>
  is an equivalence and not equality.
\<close>

locale three_way =
  fixes cmp :: "'k \<Rightarrow> 'k \<Rightarrow> int"
  assumes cmp_refl [simp]: "cmp a a = 0"
    and cmp_swap: "cmp a b < 0 \<longleftrightarrow> 0 < cmp b a"
    and cmp_le_trans: "cmp a b \<le> 0 \<Longrightarrow> cmp b c \<le> 0 \<Longrightarrow> cmp a c \<le> 0"
begin

lemma cmp_le_iff: "cmp a b \<le> 0 \<longleftrightarrow> 0 \<le> cmp b a"
  using cmp_swap [of b a] by linarith

lemma cmp_eq_sym: "cmp a b = 0 \<longleftrightarrow> cmp b a = 0"
  using cmp_swap [of a b] cmp_swap [of b a] by linarith

lemma cmp_less_le_trans: "cmp a b < 0 \<Longrightarrow> cmp b c \<le> 0 \<Longrightarrow> cmp a c < 0"
  using cmp_le_trans [of b c a] cmp_le_iff [of c a] cmp_swap [of a b] cmp_le_iff [of a c]
  by linarith

lemma cmp_le_less_trans: "cmp a b \<le> 0 \<Longrightarrow> cmp b c < 0 \<Longrightarrow> cmp a c < 0"
  using cmp_le_trans [of c a b] cmp_le_iff [of c a] cmp_swap [of b c] cmp_le_iff [of c b]
  by linarith

lemma cmp_less_trans: "cmp a b < 0 \<Longrightarrow> cmp b c < 0 \<Longrightarrow> cmp a c < 0"
  using cmp_less_le_trans [of a b c] by linarith

lemma cmp_eq_trans: "cmp a b = 0 \<Longrightarrow> cmp b c = 0 \<Longrightarrow> cmp a c = 0"
  using cmp_le_trans [of a b c] cmp_le_trans [of c b a] cmp_eq_sym [of a b] cmp_eq_sym [of b c]
    cmp_le_iff [of c a]
  by linarith

lemma cmp_eq_less: "cmp a b = 0 \<Longrightarrow> cmp a c < 0 \<longleftrightarrow> cmp b c < 0"
  using cmp_le_less_trans [of a b c] cmp_le_less_trans [of b a c] cmp_eq_sym [of a b] by linarith

lemma cmp_total: "cmp a b < 0 \<or> cmp a b = 0 \<or> cmp b a < 0"
  using cmp_swap [of b a] by linarith

text \<open>The same comparator read through a key function.\<close>

lemma three_way_vimage: "three_way (\<lambda>a b. cmp (f a) (f b))"
  using cmp_le_trans cmp_swap by unfold_locales auto

end

section \<open>Slices\<close>

text \<open>\<open>memcmp\<close> over as many bytes as the shorter argument has; only its sign is specified.\<close>

fun memcmp :: "slice \<Rightarrow> slice \<Rightarrow> int" where
  "memcmp (a # x) (b # y) = (if a < b then -1 else if b < a then 1 else memcmp x y)"
| "memcmp _ _ = 0"

definition Slice_compare :: "slice \<Rightarrow> slice \<Rightarrow> int" where
  "Slice_compare a b =
     (let min_len = (if length a < length b then length a else length b);
          r = memcmp (take min_len a) (take min_len b)
      in if r = 0 then
           (if length a < length b then -1 else if length a > length b then 1 else r)
         else r)"

fun difference_offset :: "slice \<Rightarrow> slice \<Rightarrow> nat" where
  "difference_offset (a # x) (b # y) = (if a \<noteq> b then 0 else Suc (difference_offset x y))"
| "difference_offset _ _ = 0"

section \<open>The built-in comparators\<close>

definition Bytewise_Compare :: "slice \<Rightarrow> slice \<Rightarrow> int" where
  "Bytewise_Compare a b = Slice_compare a b"

definition ReverseBytewise_Compare :: "slice \<Rightarrow> slice \<Rightarrow> int" where
  "ReverseBytewise_Compare a b = - Slice_compare a b"

text \<open>The second loop of \<open>FindShortestSeparator\<close>: increment the first byte from \<open>i\<close> on that is
  not \<open>0xff\<close> and cut the string after it.\<close>

function bump_from :: "slice \<Rightarrow> nat \<Rightarrow> slice" where
  "bump_from s i =
     (if i < length s then
        (if s ! i < 0xff then take (i + 1) (s[i := s ! i + 1]) else bump_from s (i + 1))
      else s)"
  by pat_completeness auto
termination
  by (relation "measure (\<lambda>(s, i). length s - i)") auto

declare bump_from.simps [simp del]

definition FindShortestSeparator :: "slice \<Rightarrow> slice \<Rightarrow> slice" where
  "FindShortestSeparator start limit =
     (let min_length = min (length start) (length limit);
          diff_index = difference_offset start limit
      in if diff_index \<ge> min_length then start
         else
           let start_byte = start ! diff_index; limit_byte = limit ! diff_index
           in if start_byte \<ge> limit_byte then start
              else if diff_index < length limit - 1 \<or> unat start_byte + 1 < unat limit_byte
              then take (diff_index + 1) (start[diff_index := start ! diff_index + 1])
              else bump_from start (diff_index + 1))"

definition FindShortSuccessor :: "slice \<Rightarrow> slice" where
  "FindShortSuccessor key = bump_from key 0"

fun ff_then_zero :: "slice \<Rightarrow> slice \<Rightarrow> bool" where
  "ff_then_zero (a # x) (b # y) = (if a \<noteq> 0xff \<or> b \<noteq> 0 then False else ff_then_zero x y)"
| "ff_then_zero _ _ = True"

definition IsSameLengthImmediateSuccessor :: "slice \<Rightarrow> slice \<Rightarrow> bool" where
  "IsSameLengthImmediateSuccessor s t =
     (if length s \<noteq> length t \<or> length s = 0 then False
      else
        let diff_ind = difference_offset s t
        in if diff_ind \<ge> length s then False
           else
             let byte_s = s ! diff_ind; byte_t = t ! diff_ind
             in if byte_s \<noteq> 0xff \<and> unat byte_s + 1 = unat byte_t
                then ff_then_zero (drop (diff_ind + 1) s) (drop (diff_ind + 1) t)
                else False)"

definition Reverse_FindShortestSeparator :: "slice \<Rightarrow> slice \<Rightarrow> slice" where
  "Reverse_FindShortestSeparator start limit =
     (let min_length = min (length start) (length limit);
          diff_index = difference_offset start limit
      in if diff_index = min_length then start
         else
           let start_byte = start ! diff_index; limit_byte = limit ! diff_index
           in if start_byte > limit_byte \<and> diff_index < length start - 1
              then take (diff_index + 1) start else start)"

section \<open>Slice comparison is a three-way comparison\<close>

lemma Slice_compare_rec [simp]:
  "Slice_compare [] [] = 0"
  "Slice_compare [] (b # y) = -1"
  "Slice_compare (a # x) [] = 1"
  "Slice_compare (a # x) (b # y) =
     (if a < b then -1 else if b < a then 1 else Slice_compare x y)"
  by (auto simp: Slice_compare_def Let_def)

lemma Slice_compare_eq_0: "Slice_compare a b = 0 \<longleftrightarrow> a = b"
  by (induction a b rule: difference_offset.induct)
    (auto simp: Slice_compare_def Let_def split: if_splits)

lemma Slice_compare_refl [simp]: "Slice_compare a a = 0"
  by (simp add: Slice_compare_eq_0)

lemma Slice_compare_swap: "Slice_compare b a = - Slice_compare a b"
proof (induction a arbitrary: b)
  case Nil
  then show ?case by (cases b) auto
next
  case (Cons x a)
  then show ?case by (cases b) auto
qed

lemma Slice_compare_le_trans:
  "Slice_compare a b \<le> 0 \<Longrightarrow> Slice_compare b c \<le> 0 \<Longrightarrow> Slice_compare a c \<le> 0"
proof (induction a arbitrary: b c)
  case Nil
  then show ?case by (cases c) auto
next
  case (Cons x a)
  then obtain y b' where b: "b = y # b'" by (cases b) auto
  with Cons.prems obtain z c' where c: "c = z # c'" by (cases c) auto
  from Cons b c show ?case by (auto split: if_splits)
qed

interpretation bytewise: three_way Bytewise_Compare
proof
  fix a b c
  show "Bytewise_Compare a a = 0" by (simp add: Bytewise_Compare_def)
  show "Bytewise_Compare a b < 0 \<longleftrightarrow> 0 < Bytewise_Compare b a"
    by (simp add: Bytewise_Compare_def Slice_compare_swap [of b a])
  assume "Bytewise_Compare a b \<le> 0" and "Bytewise_Compare b c \<le> 0"
  then show "Bytewise_Compare a c \<le> 0"
    using Slice_compare_le_trans unfolding Bytewise_Compare_def by blast
qed

interpretation reverse_bytewise: three_way ReverseBytewise_Compare
proof
  fix a b c
  show "ReverseBytewise_Compare a a = 0"
    by (simp add: ReverseBytewise_Compare_def Slice_compare_eq_0)
  show "ReverseBytewise_Compare a b < 0 \<longleftrightarrow> 0 < ReverseBytewise_Compare b a"
    by (simp add: ReverseBytewise_Compare_def Slice_compare_swap [of b a])
  assume "ReverseBytewise_Compare a b \<le> 0" and "ReverseBytewise_Compare b c \<le> 0"
  then show "ReverseBytewise_Compare a c \<le> 0"
    using Slice_compare_le_trans [of c b a]
    by (simp add: ReverseBytewise_Compare_def Slice_compare_swap [of c b]
        Slice_compare_swap [of b a] Slice_compare_swap [of c a])
qed

section \<open>Separators and successors\<close>

lemma Slice_compare_append: "Slice_compare (p @ x) (p @ y) = Slice_compare x y"
  by (induction p) auto

lemma difference_offset_split:
  assumes "difference_offset a b < min (length a) (length b)"
  obtains p x a' y b' where "a = p @ x # a'" and "b = p @ y # b'" and "x \<noteq> y"
    and "length p = difference_offset a b"
proof -
  let ?d = "difference_offset a b"
  have "take ?d a = take ?d b \<and> (?d < min (length a) (length b) \<longrightarrow> a ! ?d \<noteq> b ! ?d)"
    by (induction a b rule: difference_offset.induct) auto
  moreover have "a = take ?d a @ a ! ?d # drop (Suc ?d) a" "b = take ?d b @ b ! ?d # drop (Suc ?d) b"
    using assms by (simp_all add: id_take_nth_drop)
  moreover have "length (take ?d a) = ?d" using assms by simp
  ultimately show thesis using assms that by metis
qed

text \<open>\<open>bump_from\<close> never gets shorter than the index, keeps the prefix and grows the string.\<close>

lemma bump_from_append:
  "\<exists>t. bump_from (p @ s) (length p) = p @ t \<and> Slice_compare s t \<le> 0 \<and> length t \<le> length s"
proof (induction s arbitrary: p)
  case Nil
  then show ?case by (simp add: bump_from.simps)
next
  case (Cons c s)
  show ?case
  proof (cases "c < 0xff")
    case True
    then have "c < c + 1" by (simp add: word_less_nat_alt unat_arith_simps unat_word_ariths)
    moreover have "bump_from (p @ c # s) (length p) = p @ [c + 1]"
      using True by (simp add: bump_from.simps nth_append list_update_append)
    ultimately show ?thesis by auto
  next
    case False
    obtain t where t: "bump_from ((p @ [c]) @ s) (length (p @ [c])) = (p @ [c]) @ t"
      "Slice_compare s t \<le> 0" "length t \<le> length s"
      using Cons [of "p @ [c]"] by blast
    have "bump_from (p @ c # s) (length p) = bump_from ((p @ [c]) @ s) (length (p @ [c]))"
      using False by (subst bump_from.simps) (simp add: nth_append)
    with t have "bump_from (p @ c # s) (length p) = p @ (c # t)" by simp
    moreover have "Slice_compare (c # s) (c # t) \<le> 0" using t(2) by simp
    moreover have "length (c # t) \<le> length (c # s)" using t(3) by simp
    ultimately show ?thesis by blast
  qed
qed

lemma bump_index_append:
  "take (length p + 1) ((p @ x # a)[length p := (p @ x # a) ! length p + 1]) = p @ [x + 1]"
  by (simp add: nth_append list_update_append)

lemma difference_offset_append:
  "x \<noteq> y \<Longrightarrow> difference_offset (p @ x # a) (p @ y # b) = length p"
  by (induction p) auto

lemma FindShortestSeparator_split:
  assumes "x < y"
  shows "FindShortestSeparator (p @ x # a) (p @ y # b) =
    (if b \<noteq> [] \<or> unat x + 1 < unat y then p @ [x + 1]
     else bump_from ((p @ [x]) @ a) (length (p @ [x])))"
  using assms bump_index_append [of p x a] difference_offset_append [of x y p a b]
  by (auto simp: FindShortestSeparator_def Let_def min_def)

lemma Slice_compare_less_split:
  assumes "Slice_compare start limit < 0"
    and "difference_offset start limit < min (length start) (length limit)"
  obtains p x a y b where "start = p @ x # a" and "limit = p @ y # b" and "x < y"
    and "unat (x + 1) = unat x + 1"
proof -
  obtain p x a y b where s: "start = p @ x # a" and l: "limit = p @ y # b" and "x \<noteq> y"
    using assms(2) by (rule difference_offset_split)
  then have "x < y"
    using assms(1) by (auto simp: Slice_compare_append split: if_splits)
  then have "unat x < unat y" by (simp add: word_less_nat_alt)
  moreover have "unat y < 256" using unat_less_exp [of y] by simp
  ultimately have "unat (x + 1) = unat x + 1" by (simp add: unat_word_ariths)
  with s l \<open>x < y\<close> show thesis by (rule that)
qed

lemma FindShortestSeparator_bounds:
  assumes "Slice_compare start limit < 0"
  defines "r \<equiv> FindShortestSeparator start limit"
  shows "Slice_compare start r \<le> 0 \<and> Slice_compare r limit < 0 \<and> length r \<le> length start"
proof (cases "difference_offset start limit < min (length start) (length limit)")
  case False
  then have "r = start" unfolding r_def FindShortestSeparator_def Let_def not_less
    by (rule if_P)
  with assms show ?thesis by (simp add: Slice_compare_eq_0)
next
  case True
  with assms(1) obtain p x a y b where s: "start = p @ x # a" and l: "limit = p @ y # b"
    and "x < y" and x1: "unat (x + 1) = unat x + 1"
    by (rule Slice_compare_less_split)
  note r = r_def [unfolded s l FindShortestSeparator_split [OF \<open>x < y\<close>]]
  show ?thesis
  proof (cases "b \<noteq> [] \<or> unat x + 1 < unat y")
    case True
    have "x + 1 \<le> y" "x < x + 1"
      using \<open>x < y\<close> x1 by (simp_all add: word_less_nat_alt word_le_nat_alt)
    moreover have "Slice_compare [x + 1] (y # b) < 0"
      using True \<open>x + 1 \<le> y\<close> x1 by (cases b) (auto simp: word_less_nat_alt word_le_nat_alt)
    ultimately show ?thesis using True by (simp add: r s l Slice_compare_append)
  next
    case False
    obtain t where "bump_from ((p @ [x]) @ a) (length (p @ [x])) = (p @ [x]) @ t"
      "Slice_compare a t \<le> 0" "length t \<le> length a"
      using bump_from_append [of "p @ [x]" a] by blast
    with False \<open>x < y\<close> show ?thesis by (simp add: r s l Slice_compare_append)
  qed
qed

lemma ff_then_zero_between:
  "ff_then_zero s t \<Longrightarrow> length u = length s \<Longrightarrow> length t = length s \<Longrightarrow>
     Slice_compare u s \<le> 0 \<and> 0 \<le> Slice_compare u t"
proof (induction s t arbitrary: u rule: ff_then_zero.induct)
  case (1 a x b y)
  then obtain c v where u: "u = c # v" by (cases u) auto
  have "\<not> (255 :: byte) < c" "\<not> c < (0 :: byte)"
    using unat_less_exp [of c] by (simp_all add: word_less_nat_alt)
  with 1 u show ?case by (auto simp: word_gt_0 split: if_splits)
qed auto

lemma Slice_compare_append_left:
  assumes "length u = length p + n" "0 \<le> n"
  shows "Slice_compare (p @ x) u = (if take (length p) u = p then Slice_compare x (drop (length p) u)
    else Slice_compare p (take (length p) u))"
  using assms
proof (induction p arbitrary: u)
  case Nil
  then show ?case by simp
next
  case (Cons a p)
  then obtain c v where u: "u = c # v" by (cases u) auto
  with Cons show ?case by auto
qed

lemma IsSameLengthImmediateSuccessor_split:
  assumes "IsSameLengthImmediateSuccessor s t"
  obtains p x a y b where "s = p @ x # a" and "t = p @ y # b" and "length a = length b"
    and "unat y = unat x + 1" and "ff_then_zero a b"
proof -
  let ?d = "difference_offset s t"
  have len: "length s = length t" and d: "?d < min (length s) (length t)"
    using assms by (auto simp: IsSameLengthImmediateSuccessor_def Let_def split: if_splits)
  obtain p x a y b where s: "s = p @ x # a" and t: "t = p @ y # b" and "x \<noteq> y"
    using d by (rule difference_offset_split)
  with assms have "unat y = unat x + 1" "ff_then_zero a b"
    by (auto simp: IsSameLengthImmediateSuccessor_def Let_def difference_offset_append
        split: if_splits)
  moreover have "length a = length b" using len s t by simp
  ultimately show thesis using s t that by blast
qed

lemma IsSameLengthImmediateSuccessor_no_between:
  assumes "IsSameLengthImmediateSuccessor s t"
  shows "Slice_compare s t < 0"
    and "length u = length s \<Longrightarrow> Slice_compare u s \<le> 0 \<or> 0 \<le> Slice_compare u t"
proof -
  obtain p x a y b where s: "s = p @ x # a" and t: "t = p @ y # b" and l: "length a = length b"
    and y: "unat y = unat x + 1" and ff: "ff_then_zero a b"
    using assms by (rule IsSameLengthImmediateSuccessor_split)
  show "Slice_compare s t < 0"
    using y by (simp add: s t Slice_compare_append word_less_nat_alt)
  assume u: "length u = length s"
  then have "length u = length p + Suc (length a)" by (simp add: s)
  note ap = Slice_compare_append_left [OF this] Slice_compare_swap [of u]
  show "Slice_compare u s \<le> 0 \<or> 0 \<le> Slice_compare u t"
  proof (cases "take (length p) u = p")
    case False
    then show ?thesis by (auto simp: ap s t)
  next
    case True
    obtain c v where cv: "drop (length p) u = c # v" and "length v = length a"
      using u by (cases "drop (length p) u") (auto simp: s dest: arg_cong [where f = length])
    with ff l have v: "Slice_compare v a \<le> 0" "0 \<le> Slice_compare v b"
      using ff_then_zero_between by auto
    have "u = p @ c # v" using True cv by (metis append_take_drop_id)
    with v y show ?thesis
      by (auto simp: s t Slice_compare_append word_less_nat_alt)
  qed
qed

lemma FindShortSuccessor_ge:
  "Bytewise_Compare key (FindShortSuccessor key) \<le> 0 \<and> length (FindShortSuccessor key) \<le> length key"
  using bump_from_append [of "[]" key] by (auto simp: FindShortSuccessor_def Bytewise_Compare_def)

lemma Reverse_FindShortestSeparator_bounds:
  assumes "Slice_compare limit start < 0"
  defines "r \<equiv> Reverse_FindShortestSeparator start limit"
  shows "Slice_compare limit r < 0 \<and> Slice_compare r start \<le> 0 \<and> length r \<le> length start"
proof (cases "r = start")
  case True
  with assms show ?thesis by simp
next
  case False
  have "difference_offset start limit \<noteq> min (length start) (length limit)"
    using False by (auto simp: r_def Reverse_FindShortestSeparator_def Let_def)
  moreover have "difference_offset start limit \<le> min (length start) (length limit)"
    by (induction start limit rule: difference_offset.induct) auto
  ultimately have "difference_offset start limit < min (length start) (length limit)" by linarith
  then obtain p x a y b where s: "start = p @ x # a" and l: "limit = p @ y # b" and "x \<noteq> y"
    by (rule difference_offset_split)
  with False have "r = p @ [x]" "y < x"
    by (auto simp: r_def Reverse_FindShortestSeparator_def Let_def difference_offset_append
        split: if_splits)
  moreover have "Slice_compare [x] (x # a) \<le> 0" by (cases a) auto
  ultimately show ?thesis by (simp add: s l Slice_compare_append)
qed

section \<open>Properties\<close>

text \<open>Both built-in comparators meet the contract \<open>include/rocksdb/comparator.h\<close> asks of a user
  comparator: comparing is reflexive, antisymmetric in sign and transitive, and two keys compare
  equal only if they are the same bytes.\<close>

theorem builtin_comparators_total_order:
  "three_way Bytewise_Compare \<and> three_way ReverseBytewise_Compare
   \<and> (\<forall>a b. Bytewise_Compare a b = 0 \<longleftrightarrow> a = b)
   \<and> (\<forall>a b. ReverseBytewise_Compare a b = - Bytewise_Compare a b)"
  using bytewise.three_way_axioms reverse_bytewise.three_way_axioms
  by (simp add: Bytewise_Compare_def ReverseBytewise_Compare_def Slice_compare_eq_0)

text \<open>For keys with start before limit, the key \<open>FindShortestSeparator\<close> returns separates
  them, start \<open>\<le>\<close> separator \<open><\<close> limit, and is never longer than start; for the bytewise and, with
  the order reversed, for the reverse bytewise comparator.\<close>

theorem FindShortestSeparator_separates:
  "Bytewise_Compare start limit < 0 \<Longrightarrow>
     Bytewise_Compare start (FindShortestSeparator start limit) \<le> 0
     \<and> Bytewise_Compare (FindShortestSeparator start limit) limit < 0
     \<and> length (FindShortestSeparator start limit) \<le> length start
     \<and> ReverseBytewise_Compare limit (Reverse_FindShortestSeparator limit start) \<le> 0
     \<and> ReverseBytewise_Compare (Reverse_FindShortestSeparator limit start) start < 0
     \<and> length (Reverse_FindShortestSeparator limit start) \<le> length limit"
  using FindShortestSeparator_bounds [of start limit]
    Reverse_FindShortestSeparator_bounds [of start limit]
    Slice_compare_swap [of "Reverse_FindShortestSeparator limit start" limit]
    Slice_compare_swap [of start "Reverse_FindShortestSeparator limit start"]
  by (simp add: Bytewise_Compare_def ReverseBytewise_Compare_def)

theorem FindShortestSeparator_separates_witness:
  "FindShortestSeparator [1, 2, 0xff, 7] [1, 3] = [1, 2, 0xff, 8]
   \<and> Bytewise_Compare [1, 2, 0xff, 7] (FindShortestSeparator [1, 2, 0xff, 7] [1, 3]) \<le> 0
   \<and> Bytewise_Compare (FindShortestSeparator [1, 2, 0xff, 7] [1, 3]) [1, 3] < 0"
proof -
  have "Bytewise_Compare [1, 2, 0xff, 7] [1, 3] < 0" by (simp add: Bytewise_Compare_def)
  note FindShortestSeparator_separates [OF this]
  moreover have "FindShortestSeparator [1, 2, 0xff, 7] [1, 3] = [1, 2, 0xff, 8]" by code_simp
  ultimately show ?thesis by simp
qed

text \<open>\<open>IsSameLengthImmediateSuccessor s t\<close> is sound: \<open>s\<close> is before \<open>t\<close> and no key of the same
  length is strictly between them.\<close>

theorem IsSameLengthImmediateSuccessor_sound:
  "IsSameLengthImmediateSuccessor s t \<Longrightarrow>
     Bytewise_Compare s t < 0
     \<and> (\<forall>u. length u = length s \<longrightarrow>
          \<not> (Bytewise_Compare s u < 0 \<and> Bytewise_Compare u t < 0))"
  using IsSameLengthImmediateSuccessor_no_between [of s t]
  by (force simp: Bytewise_Compare_def Slice_compare_swap [of s])

theorem IsSameLengthImmediateSuccessor_sound_witness:
  "Bytewise_Compare [3, 0xff] [4, 0] < 0
   \<and> \<not> (Bytewise_Compare [3, 0xff] [3, 7] < 0 \<and> Bytewise_Compare [3, 7] [4, 0] < 0)"
proof -
  have "IsSameLengthImmediateSuccessor [3, 0xff] [4, 0]" by code_simp
  from IsSameLengthImmediateSuccessor_sound [OF this] show ?thesis by simp
qed

end
