(* ===== verification/DBFormat.thy ===== *)
theory DBFormat
  imports Coding Comparator
begin

text \<open>
  Internal keys (\<open>db/dbformat.h\<close>, \<open>db/dbformat.cc\<close>): a user key followed by an eight byte footer
  that packs the sequence number and the value type, the comparator that orders them, the
  lookup key of a point query and the key buffer of an iterator.

  The asserts of the source (a key has a footer, a sequence number fits 56 bits) are the
  preconditions of the lemmas; outside them the operations compute what the arithmetic on
  the slice gives, with a key shorter than its footer read as an empty user key.
\<close>

section \<open>Value types\<close>

text \<open>\<open>enum ValueType : unsigned char\<close> is read from disk by a cast, so every byte is a value of it.\<close>

type_synonym ValueType = byte

definition kTypeDeletion :: ValueType where "kTypeDeletion = 0x0"
definition kTypeValue :: ValueType where "kTypeValue = 0x1"
definition kTypeMerge :: ValueType where "kTypeMerge = 0x2"
definition kTypeSingleDeletion :: ValueType where "kTypeSingleDeletion = 0x7"
definition kTypeRangeDeletion :: ValueType where "kTypeRangeDeletion = 0xF"
definition kTypeBlobIndex :: ValueType where "kTypeBlobIndex = 0x11"

lemmas kType_defs =
  kTypeDeletion_def kTypeValue_def kTypeMerge_def kTypeSingleDeletion_def kTypeRangeDeletion_def
  kTypeBlobIndex_def

definition kValueTypeForSeek :: ValueType where "kValueTypeForSeek = kTypeBlobIndex"
definition kValueTypeForSeekForPrev :: ValueType where "kValueTypeForSeekForPrev = kTypeDeletion"

definition IsValueType :: "ValueType \<Rightarrow> bool" where
  "IsValueType t \<longleftrightarrow> t \<le> kTypeMerge \<or> t = kTypeSingleDeletion \<or> t = kTypeBlobIndex"

definition IsExtendedValueType :: "ValueType \<Rightarrow> bool" where
  "IsExtendedValueType t \<longleftrightarrow> IsValueType t \<or> t = kTypeRangeDeletion"

datatype EntryType = kEntryPut | kEntryDelete | kEntrySingleDelete | kEntryMerge
  | kEntryRangeDeletion | kEntryBlobIndex | kEntryOther

definition GetEntryType :: "ValueType \<Rightarrow> EntryType" where
  "GetEntryType t =
     (if t = kTypeValue then kEntryPut
      else if t = kTypeDeletion then kEntryDelete
      else if t = kTypeSingleDeletion then kEntrySingleDelete
      else if t = kTypeMerge then kEntryMerge
      else if t = kTypeRangeDeletion then kEntryRangeDeletion
      else if t = kTypeBlobIndex then kEntryBlobIndex
      else kEntryOther)"

section \<open>Internal keys\<close>

definition kMaxSequenceNumber :: u64 where
  "kMaxSequenceNumber = push_bit 56 1 - 1"

record ParsedInternalKey =
  pik_user_key :: slice
  pik_sequence :: u64
  pik_type :: ValueType

record FullKey =
  fk_user_key :: slice
  fk_sequence :: u64
  fk_type :: EntryType

definition InternalKeyEncodingLength :: "ParsedInternalKey \<Rightarrow> nat" where
  "InternalKeyEncodingLength key = length (pik_user_key key) + 8"

definition PackSequenceAndType :: "u64 \<Rightarrow> ValueType \<Rightarrow> u64" where
  "PackSequenceAndType seq t = push_bit 8 seq OR ucast t"

definition UnPackSequenceAndType :: "u64 \<Rightarrow> u64 \<times> ValueType" where
  "UnPackSequenceAndType packed = (drop_bit 8 packed, ucast (packed AND 0xff))"

definition AppendInternalKey :: "slice \<Rightarrow> ParsedInternalKey \<Rightarrow> slice" where
  "AppendInternalKey res key =
     PutFixed64 (res @ pik_user_key key) (PackSequenceAndType (pik_sequence key) (pik_type key))"

definition AppendInternalKeyFooter :: "slice \<Rightarrow> u64 \<Rightarrow> ValueType \<Rightarrow> slice" where
  "AppendInternalKeyFooter res s t = PutFixed64 res (PackSequenceAndType s t)"

definition ExtractUserKey :: "slice \<Rightarrow> slice" where
  "ExtractUserKey k = take (length k - 8) k"

definition ExtractInternalKeyFooter :: "slice \<Rightarrow> u64" where
  "ExtractInternalKeyFooter k = DecodeFixed64 kLittleEndian (drop (length k - 8) k)"

definition ExtractValueType :: "slice \<Rightarrow> ValueType" where
  "ExtractValueType k = ucast (ExtractInternalKeyFooter k AND 0xff)"

definition GetInternalKeySeqno :: "slice \<Rightarrow> u64" where
  "GetInternalKeySeqno k = drop_bit 8 (DecodeFixed64 kLittleEndian (drop (length k - 8) k))"

definition ParseInternalKey :: "slice \<Rightarrow> ParsedInternalKey option" where
  "ParseInternalKey k =
     (let n = length k
      in if n < 8 then None
         else
           let num = DecodeFixed64 kLittleEndian (drop (n - 8) k);
               t = ucast (num AND 0xff) :: ValueType
           in if IsExtendedValueType t
              then Some \<lparr>pik_user_key = take (n - 8) k, pik_sequence = drop_bit 8 num, pik_type = t\<rparr>
              else None)"

definition ParseFullKey :: "slice \<Rightarrow> FullKey option" where
  "ParseFullKey k =
     (case ParseInternalKey k of
        None \<Rightarrow> None
      | Some ikey \<Rightarrow>
          Some \<lparr>fk_user_key = pik_user_key ikey, fk_sequence = pik_sequence ikey,
                fk_type = GetEntryType (pik_type ikey)\<rparr>)"

definition UpdateInternalKey :: "slice \<Rightarrow> u64 \<Rightarrow> ValueType \<Rightarrow> slice" where
  "UpdateInternalKey k seq t =
     take (length k - 8) k @ EncodeFixed64 kLittleEndian (push_bit 8 seq OR ucast t)"

text \<open>The constructors of class \<open>InternalKey\<close>, by the representation they build.\<close>

definition InternalKey :: "slice \<Rightarrow> u64 \<Rightarrow> ValueType \<Rightarrow> slice" where
  "InternalKey u s t =
     AppendInternalKey [] \<lparr>pik_user_key = u, pik_sequence = s, pik_type = t\<rparr>"

definition SetMaxPossibleForUserKey :: "slice \<Rightarrow> slice \<Rightarrow> slice" where
  "SetMaxPossibleForUserKey rep u =
     AppendInternalKey rep \<lparr>pik_user_key = u, pik_sequence = 0, pik_type = 0\<rparr>"

definition SetMinPossibleForUserKey :: "slice \<Rightarrow> slice \<Rightarrow> slice" where
  "SetMinPossibleForUserKey rep u =
     AppendInternalKey rep
       \<lparr>pik_user_key = u, pik_sequence = kMaxSequenceNumber, pik_type = kValueTypeForSeek\<rparr>"

definition InternalKey_Valid :: "slice \<Rightarrow> bool" where
  "InternalKey_Valid rep \<longleftrightarrow> ParseInternalKey rep \<noteq> None"

section \<open>The internal key comparator\<close>

definition InternalKeyComparator_Compare ::
    "(slice \<Rightarrow> slice \<Rightarrow> int) \<Rightarrow> slice \<Rightarrow> slice \<Rightarrow> int" where
  "InternalKeyComparator_Compare ucmp akey bkey =
     (let r = ucmp (ExtractUserKey akey) (ExtractUserKey bkey)
      in if r = 0 then
           let anum = DecodeFixed64 kLittleEndian (drop (length akey - 8) akey);
               bnum = DecodeFixed64 kLittleEndian (drop (length bkey - 8) bkey)
           in if anum > bnum then -1 else if anum < bnum then 1 else r
         else r)"

definition CompareKeySeq :: "(slice \<Rightarrow> slice \<Rightarrow> int) \<Rightarrow> slice \<Rightarrow> slice \<Rightarrow> int" where
  "CompareKeySeq ucmp akey bkey =
     (let r = ucmp (ExtractUserKey akey) (ExtractUserKey bkey)
      in if r = 0 then
           let anum = drop_bit 8 (DecodeFixed64 kLittleEndian (drop (length akey - 8) akey));
               bnum = drop_bit 8 (DecodeFixed64 kLittleEndian (drop (length bkey - 8) bkey))
           in if anum > bnum then -1 else if anum < bnum then 1 else r
         else r)"

definition CompareParsed ::
    "(slice \<Rightarrow> slice \<Rightarrow> int) \<Rightarrow> ParsedInternalKey \<Rightarrow> ParsedInternalKey \<Rightarrow> int" where
  "CompareParsed ucmp a b =
     (let r = ucmp (pik_user_key a) (pik_user_key b)
      in if r = 0 then
           (if pik_sequence a > pik_sequence b then -1
            else if pik_sequence a < pik_sequence b then 1
            else if pik_type a > pik_type b then -1
            else if pik_type a < pik_type b then 1
            else r)
         else r)"

definition Internal_FindShortestSeparator ::
    "(slice \<Rightarrow> slice \<Rightarrow> int) \<Rightarrow> (slice \<Rightarrow> slice \<Rightarrow> slice) \<Rightarrow> slice \<Rightarrow> slice \<Rightarrow> slice" where
  "Internal_FindShortestSeparator ucmp usep start limit =
     (let user_start = ExtractUserKey start;
          user_limit = ExtractUserKey limit;
          tmp = usep user_start user_limit
      in if length tmp \<le> length user_start \<and> ucmp user_start tmp < 0
         then PutFixed64 tmp (PackSequenceAndType kMaxSequenceNumber kValueTypeForSeek)
         else start)"

definition Internal_FindShortSuccessor ::
    "(slice \<Rightarrow> slice \<Rightarrow> int) \<Rightarrow> (slice \<Rightarrow> slice) \<Rightarrow> slice \<Rightarrow> slice" where
  "Internal_FindShortSuccessor ucmp usucc key =
     (let user_key = ExtractUserKey key;
          tmp = usucc user_key
      in if length tmp \<le> length user_key \<and> ucmp user_key tmp < 0
         then PutFixed64 tmp (PackSequenceAndType kMaxSequenceNumber kValueTypeForSeek)
         else key)"

section \<open>Lookup keys and range tombstones\<close>

text \<open>
  The array \<open>LookupKey\<close> builds, and its three views: \<open>start_\<close>, \<open>kstart_\<close> and \<open>end_\<close> are
  positions in it.
\<close>

record LookupKey =
  lk_rep :: slice
  lk_kstart :: nat

definition LookupKey_init :: "slice \<Rightarrow> u64 \<Rightarrow> LookupKey" where
  "LookupKey_init u s =
     (let usize = length u;
          klen = EncodeVarint32 (of_nat (usize + 8))
      in \<lparr>lk_rep = klen @ u @ EncodeFixed64 kLittleEndian (PackSequenceAndType s kValueTypeForSeek),
          lk_kstart = length klen\<rparr>)"

definition LookupKey_memtable_key :: "LookupKey \<Rightarrow> slice" where
  "LookupKey_memtable_key k = lk_rep k"

definition LookupKey_internal_key :: "LookupKey \<Rightarrow> slice" where
  "LookupKey_internal_key k = drop (lk_kstart k) (lk_rep k)"

definition LookupKey_user_key :: "LookupKey \<Rightarrow> slice" where
  "LookupKey_user_key k = take (length (lk_rep k) - lk_kstart k - 8) (drop (lk_kstart k) (lk_rep k))"

record RangeTombstone =
  rt_start_key :: slice
  rt_end_key :: slice
  rt_seq :: u64

definition RangeTombstone_parsed :: "ParsedInternalKey \<Rightarrow> slice \<Rightarrow> RangeTombstone" where
  "RangeTombstone_parsed k v =
     \<lparr>rt_start_key = pik_user_key k, rt_end_key = v, rt_seq = pik_sequence k\<rparr>"

definition Serialize :: "RangeTombstone \<Rightarrow> slice \<times> slice" where
  "Serialize t = (InternalKey (rt_start_key t) (rt_seq t) kTypeRangeDeletion, rt_end_key t)"

definition SerializeKey :: "RangeTombstone \<Rightarrow> slice" where
  "SerializeKey t = InternalKey (rt_start_key t) (rt_seq t) kTypeRangeDeletion"

definition SerializeEndKey :: "RangeTombstone \<Rightarrow> slice" where
  "SerializeEndKey t = InternalKey (rt_end_key t) kMaxSequenceNumber kTypeRangeDeletion"

section \<open>Packing and parsing\<close>

lemma kMaxSequenceNumber_le_iff: "s \<le> kMaxSequenceNumber \<longleftrightarrow> unat s < 2 ^ 56"
proof -
  have "unat kMaxSequenceNumber = 2 ^ 56 - 1" by (simp add: kMaxSequenceNumber_def)
  then show ?thesis by (simp add: word_le_nat_alt less_eq_Suc_le [symmetric] less_Suc_eq_le [symmetric])
qed

lemma PackSequenceAndType_unat:
  assumes "s \<le> kMaxSequenceNumber"
  shows "unat (PackSequenceAndType s t) = unat s * 256 + unat t"
proof -
  have s: "unat s < 2 ^ 56" using assms by (simp add: kMaxSequenceNumber_le_iff)
  have t: "unat t < 256" using unat_less_exp [of t] by simp
  have ut: "unat (ucast t :: u64) = unat t" by (rule unat_ucast_up) simp
  have "push_bit 8 s AND (ucast t :: u64) = 0"
    by (rule bit_word_eqI) (auto simp: bit_simps dest: bit_imp_le_length)
  then have "PackSequenceAndType s t = push_bit 8 s + ucast t"
    by (simp add: PackSequenceAndType_def disjunctive_add_eq_or)
  moreover have "unat (push_bit 8 s) = unat s * 256"
    using s by (simp add: unsigned_push_bit_eq push_bit_nat_def take_bit_nat_eq_self)
  ultimately show ?thesis using s t ut by (simp add: unat_word_ariths)
qed

lemma UnPack_Pack:
  assumes "s \<le> kMaxSequenceNumber"
  shows "drop_bit 8 (PackSequenceAndType s t) = s"
    and "ucast (PackSequenceAndType s t AND 0xff) = t"
proof -
  have t: "unat t < 256" using unat_less_exp [of t] by simp
  have "unat (drop_bit 8 (PackSequenceAndType s t)) = unat s"
    using t by (simp add: unat_drop_bit_div PackSequenceAndType_unat [OF assms])
  then show "drop_bit 8 (PackSequenceAndType s t) = s" by (rule word_unat_eq_iff [THEN iffD2])
  show "ucast (PackSequenceAndType s t AND 0xff) = t"
    unfolding ucast_and_255 unfolding PackSequenceAndType_def
    by (rule bit_word_eqI) (simp add: bit_simps)
qed

lemma Pack_less_iff:
  assumes "s \<le> kMaxSequenceNumber" and "s' \<le> kMaxSequenceNumber"
  shows "PackSequenceAndType s t < PackSequenceAndType s' t' \<longleftrightarrow> s < s' \<or> s = s' \<and> t < t'"
proof -
  have "unat t < 256" "unat t' < 256" using unat_less_exp [of t] unat_less_exp [of t'] by simp_all
  then show ?thesis
    by (simp only: word_less_nat_alt word_unat_eq_iff PackSequenceAndType_unat [OF assms(1)]
        PackSequenceAndType_unat [OF assms(2)]) linarith
qed

lemma footer_of_append [simp]:
  "ExtractUserKey (u @ EncodeFixed64 le n) = u"
  "ExtractInternalKeyFooter (u @ EncodeFixed64 le n) = n"
  "DecodeFixed64 le' (EncodeFixed64 le n) = n"
  using DecodeFixed64_EncodeFixed64 [of _ le n "[]"]
  by (simp_all add: ExtractUserKey_def ExtractInternalKeyFooter_def)

lemma EncodeFixed64_DecodeFixed64:
  assumes "length p = 8"
  shows "EncodeFixed64 le (DecodeFixed64 le' p) = p"
proof -
  obtain a b c d e f g h where p: "p = [a, b, c, d, e, f, g, h]"
    using assms by (auto simp: numeral_eq_Suc length_Suc_conv)
  show ?thesis
    unfolding p EncodeFixed64_list DecodeFixed64_or byte_at_def
    by (simp, intro conjI; rule bit_word_eqI; simp add: bit_simps; auto dest: bit_byte_less)
qed

lemma internal_key_split:
  assumes "8 \<le> length k"
  shows "k = ExtractUserKey k @ EncodeFixed64 le (ExtractInternalKeyFooter k)"
  using assms
  by (simp add: ExtractUserKey_def ExtractInternalKeyFooter_def EncodeFixed64_DecodeFixed64)

lemma InternalKey_append:
  "InternalKey u s t = u @ EncodeFixed64 kLittleEndian (PackSequenceAndType s t)"
  by (simp add: InternalKey_def AppendInternalKey_def put_simps)

lemma ParseInternalKey_InternalKey:
  assumes "s \<le> kMaxSequenceNumber" and "IsExtendedValueType t"
  shows "ParseInternalKey (InternalKey u s t) =
    Some \<lparr>pik_user_key = u, pik_sequence = s, pik_type = t\<rparr>"
  using assms by (simp add: ParseInternalKey_def InternalKey_append Let_def UnPack_Pack)

section \<open>The order on internal keys\<close>

lemma InternalKeyComparator_Compare_footer:
  "InternalKeyComparator_Compare ucmp a b =
     (let r = ucmp (ExtractUserKey a) (ExtractUserKey b)
      in if r \<noteq> 0 then r
         else if ExtractInternalKeyFooter a > ExtractInternalKeyFooter b then -1
         else if ExtractInternalKeyFooter a < ExtractInternalKeyFooter b then 1 else 0)"
  by (simp add: InternalKeyComparator_Compare_def ExtractInternalKeyFooter_def Let_def)

lemma CompareKeySeq_footer:
  "CompareKeySeq ucmp a b =
     (let r = ucmp (ExtractUserKey a) (ExtractUserKey b)
      in if r \<noteq> 0 then r
         else if drop_bit 8 (ExtractInternalKeyFooter a) > drop_bit 8 (ExtractInternalKeyFooter b)
         then -1
         else if drop_bit 8 (ExtractInternalKeyFooter a) < drop_bit 8 (ExtractInternalKeyFooter b)
         then 1 else 0)"
  by (simp add: CompareKeySeq_def ExtractInternalKeyFooter_def Let_def)

text \<open>
  A user comparator gives a comparator on internal keys: ties of the user keys are broken by
  the footer, the larger one first.
\<close>

locale user_comparator = three_way ucmp
  for ucmp :: "slice \<Rightarrow> slice \<Rightarrow> int"
begin

lemma tie_break_three_way:
  fixes f :: "slice \<Rightarrow> u64"
  shows "three_way (\<lambda>a b. let r = ucmp (ExtractUserKey a) (ExtractUserKey b)
     in if r \<noteq> 0 then r else if f a > f b then -1 else if f a < f b then 1 else (0 :: int))"
proof
  fix a b c
  let ?u = "\<lambda>a b. ucmp (ExtractUserKey a) (ExtractUserKey b)"
  let ?c = "\<lambda>a b. let r = ?u a b
     in if r \<noteq> 0 then r else if f a > f b then -1 else if f a < f b then 1 else (0 :: int)"
  have le: "?c x y \<le> 0 \<longleftrightarrow> ?u x y < 0 \<or> ?u x y = 0 \<and> f y \<le> f x" for x y
    by (auto simp: Let_def not_less)
  show "?c a a = 0" by simp
  show "?c a b < 0 \<longleftrightarrow> 0 < ?c b a"
    using cmp_swap [of "ExtractUserKey a" "ExtractUserKey b"]
      cmp_eq_sym [of "ExtractUserKey a" "ExtractUserKey b"]
    by (auto simp: Let_def)
  assume "?c a b \<le> 0" "?c b c \<le> 0"
  then have ab: "?u a b < 0 \<or> ?u a b = 0 \<and> f b \<le> f a" and bc: "?u b c < 0 \<or> ?u b c = 0 \<and> f c \<le> f b"
    unfolding le by blast+
  consider "?u a b < 0" | "?u b c < 0" | "?u a b = 0" "?u b c = 0" "f c \<le> f a"
    using ab bc order_trans by blast
  then have "?u a c < 0 \<or> ?u a c = 0 \<and> f c \<le> f a"
  proof cases
    case 1
    moreover have "?u b c \<le> 0" using bc by auto
    ultimately show ?thesis using cmp_less_le_trans by blast
  next
    case 2
    moreover have "?u a b \<le> 0" using ab by auto
    ultimately show ?thesis using cmp_le_less_trans by blast
  next
    case 3
    then show ?thesis using cmp_eq_trans by blast
  qed
  then show "?c a c \<le> 0" unfolding le .
qed

end

sublocale user_comparator \<subseteq> ikc: three_way "InternalKeyComparator_Compare ucmp"
  using tie_break_three_way [of ExtractInternalKeyFooter]
  by (simp add: InternalKeyComparator_Compare_footer [abs_def])

sublocale user_comparator \<subseteq> keyseq: three_way "CompareKeySeq ucmp"
  using tie_break_three_way [of "\<lambda>k. drop_bit 8 (ExtractInternalKeyFooter k)"]
  by (simp add: CompareKeySeq_footer [abs_def])

interpretation bytewise_keys: user_comparator Bytewise_Compare
  by unfold_locales

interpretation reverse_bytewise_keys: user_comparator ReverseBytewise_Compare
  by unfold_locales

text \<open>
  What \<open>InternalKeyComparator\<close> relies on of the user comparator's key shortening: within the
  bounds \<open>comparator.h\<close> states, and no move when there is no room between the keys.
\<close>

locale key_shortener = user_comparator ucmp
  for ucmp :: "slice \<Rightarrow> slice \<Rightarrow> int" +
  fixes usep :: "slice \<Rightarrow> slice \<Rightarrow> slice" and usucc :: "slice \<Rightarrow> slice"
  assumes usep_less: "ucmp a b < 0 \<Longrightarrow> ucmp (usep a b) b < 0"
    and usep_same: "ucmp a b = 0 \<Longrightarrow> 0 \<le> ucmp a (usep a b)"
begin

lemma Internal_FindShortestSeparator_bounds:
  assumes "InternalKeyComparator_Compare ucmp start limit < 0"
  defines "s \<equiv> Internal_FindShortestSeparator ucmp usep start limit"
  shows "InternalKeyComparator_Compare ucmp start s \<le> 0
    \<and> InternalKeyComparator_Compare ucmp s limit < 0 \<and> (8 \<le> length start \<longrightarrow> length s \<le> length start)"
proof -
  let ?us = "ExtractUserKey start" and ?ul = "ExtractUserKey limit"
  have ule: "ucmp ?us ?ul \<le> 0"
    using assms(1) by (auto simp: InternalKeyComparator_Compare_footer Let_def split: if_splits)
  show ?thesis
  proof (cases "length (usep ?us ?ul) \<le> length ?us \<and> ucmp ?us (usep ?us ?ul) < 0")
    case False
    then have "s = start" by (auto simp: s_def Internal_FindShortestSeparator_def Let_def)
    with assms(1) show ?thesis by simp
  next
    case True
    then have s: "s = usep ?us ?ul @
        EncodeFixed64 kLittleEndian (PackSequenceAndType kMaxSequenceNumber kValueTypeForSeek)"
      by (simp add: s_def Internal_FindShortestSeparator_def Let_def put_simps)
    have "ucmp ?us ?ul < 0" using ule usep_same [of ?us ?ul] True by force
    then have "ucmp (usep ?us ?ul) ?ul < 0" by (rule usep_less)
    then have "InternalKeyComparator_Compare ucmp s limit < 0"
      by (simp add: s InternalKeyComparator_Compare_footer)
    moreover have "InternalKeyComparator_Compare ucmp start s < 0"
      using True by (simp add: s InternalKeyComparator_Compare_footer)
    moreover have "8 \<le> length start \<longrightarrow> length s \<le> length start"
      using True by (auto simp: s ExtractUserKey_def)
    ultimately show ?thesis by simp
  qed
qed

lemma Internal_FindShortSuccessor_ge:
  "InternalKeyComparator_Compare ucmp key (Internal_FindShortSuccessor ucmp usucc key) \<le> 0"
proof -
  let ?f = "PackSequenceAndType kMaxSequenceNumber kValueTypeForSeek"
  have "InternalKeyComparator_Compare ucmp key (usucc (ExtractUserKey key) @ EncodeFixed64 le ?f) < 0"
    if "ucmp (ExtractUserKey key) (usucc (ExtractUserKey key)) < 0" for le
    using that by (simp add: InternalKeyComparator_Compare_footer)
  then show ?thesis
    by (auto simp: Internal_FindShortSuccessor_def Let_def put_simps less_imp_le)
qed

end

lemma FindShortestSeparator_same: "FindShortestSeparator a a = a"
proof -
  have "difference_offset a a = length a" by (induction a) auto
  then show ?thesis by (simp add: FindShortestSeparator_def Let_def)
qed

lemma Reverse_FindShortestSeparator_same: "Reverse_FindShortestSeparator a a = a"
proof -
  have "difference_offset a a = length a" by (induction a) auto
  then show ?thesis by (simp add: Reverse_FindShortestSeparator_def Let_def)
qed

interpretation bytewise_shortener:
  key_shortener Bytewise_Compare FindShortestSeparator FindShortSuccessor
  using FindShortestSeparator_bounds
  by unfold_locales
    (auto simp: Bytewise_Compare_def Slice_compare_eq_0 FindShortestSeparator_same)

interpretation reverse_bytewise_shortener:
  key_shortener ReverseBytewise_Compare Reverse_FindShortestSeparator "\<lambda>key. key"
proof
  fix a b
  assume "ReverseBytewise_Compare a b < 0"
  then have "Slice_compare b a < 0"
    using Slice_compare_swap [of b a] by (simp add: ReverseBytewise_Compare_def)
  from Reverse_FindShortestSeparator_bounds [OF this]
  show "ReverseBytewise_Compare (Reverse_FindShortestSeparator a b) b < 0"
    using Slice_compare_swap [of b "Reverse_FindShortestSeparator a b"]
    by (simp add: ReverseBytewise_Compare_def)
next
  fix a b
  assume "ReverseBytewise_Compare a b = 0"
  then show "0 \<le> ReverseBytewise_Compare a (Reverse_FindShortestSeparator a b)"
    by (simp add: ReverseBytewise_Compare_def Slice_compare_eq_0 Reverse_FindShortestSeparator_same)
qed

lemma CompareParsed_InternalKey:
  assumes "s \<le> kMaxSequenceNumber" and "s' \<le> kMaxSequenceNumber"
  shows "InternalKeyComparator_Compare ucmp (InternalKey u s t) (InternalKey u' s' t') =
    CompareParsed ucmp \<lparr>pik_user_key = u, pik_sequence = s, pik_type = t\<rparr>
      \<lparr>pik_user_key = u', pik_sequence = s', pik_type = t'\<rparr>"
  using assms
  by (auto simp: InternalKeyComparator_Compare_footer CompareParsed_def InternalKey_append Let_def
      Pack_less_iff)

lemma LookupKey_internal_key_eq: "LookupKey_internal_key (LookupKey_init u s) = InternalKey u s kValueTypeForSeek"
  by (simp add: LookupKey_internal_key_def LookupKey_init_def Let_def InternalKey_append)

lemma IsExtendedValueType_le_seek: "IsExtendedValueType t \<Longrightarrow> t \<le> kValueTypeForSeek"
  by (auto simp: IsExtendedValueType_def IsValueType_def kValueTypeForSeek_def kType_defs
      elim: order_trans)

lemma ParseInternalKey_Some:
  assumes "ParseInternalKey k = Some p"
  shows "k = InternalKey (pik_user_key p) (pik_sequence p) (pik_type p)"
    and "pik_sequence p \<le> kMaxSequenceNumber" and "IsExtendedValueType (pik_type p)"
proof -
  let ?n = "ExtractInternalKeyFooter k"
  have len: "8 \<le> length k" and p: "pik_user_key p = ExtractUserKey k"
    "pik_sequence p = drop_bit 8 ?n" "pik_type p = ucast (?n AND 0xff)"
    and ty: "IsExtendedValueType (pik_type p)"
    using assms
    by (auto simp: ParseInternalKey_def Let_def ExtractUserKey_def ExtractInternalKeyFooter_def
        split: if_splits)
  have "PackSequenceAndType (drop_bit 8 ?n) (ucast (?n AND 0xff)) = ?n"
    unfolding ucast_and_255 unfolding PackSequenceAndType_def
    by (rule bit_word_eqI) (auto simp: bit_simps)
  with p show "k = InternalKey (pik_user_key p) (pik_sequence p) (pik_type p)"
    using internal_key_split [OF len, of kLittleEndian] by (simp add: InternalKey_append)
  show "pik_sequence p \<le> kMaxSequenceNumber"
    using unat_less_exp [of ?n] by (simp add: p kMaxSequenceNumber_le_iff unat_drop_bit_div)
  show "IsExtendedValueType (pik_type p)" by (rule ty)
qed

section \<open>Properties\<close>

text \<open>Parsing inverts building. A key built from a user key, a sequence number of at most 56
  bits and a stored value type parses back to them; conversely a key that parses is the key built
  from what it parses to.\<close>

theorem internal_key_roundtrip:
  "s \<le> kMaxSequenceNumber \<and> IsExtendedValueType t \<Longrightarrow>
     ParseInternalKey (InternalKey u s t) =
       Some \<lparr>pik_user_key = u, pik_sequence = s, pik_type = t\<rparr>
     \<and> ExtractUserKey (InternalKey u s t) = u
     \<and> GetInternalKeySeqno (InternalKey u s t) = s
     \<and> ExtractValueType (InternalKey u s t) = t
     \<and> (\<forall>k p. ParseInternalKey k = Some p \<longrightarrow> AppendInternalKey [] p = k)"
proof -
  assume *: "s \<le> kMaxSequenceNumber \<and> IsExtendedValueType t"
  have "AppendInternalKey [] p = k" if "ParseInternalKey k = Some p" for k p
    using ParseInternalKey_Some(1) [OF that] by (simp add: InternalKey_def AppendInternalKey_def)
  with * show ?thesis
    using ParseInternalKey_InternalKey [of s t u]
    by (simp add: InternalKey_append GetInternalKeySeqno_def ExtractValueType_def UnPack_Pack)
qed

theorem internal_key_roundtrip_witness:
  "ParseInternalKey (InternalKey [97] 5 kTypeValue) =
     Some \<lparr>pik_user_key = [97], pik_sequence = 5, pik_type = kTypeValue\<rparr>"
proof -
  have "(5 :: u64) \<le> kMaxSequenceNumber \<and> IsExtendedValueType kTypeValue" by code_simp
  from internal_key_roundtrip [OF this] show ?thesis by blast
qed

text \<open>C29: for any user comparator that meets its contract, the internal key comparator is a total
  preorder on internal keys, and comparing the packed footers as single integers is the same as
  comparing the parsed keys field by field: user key, then decreasing sequence, then decreasing
  type.\<close>

theorem internal_key_order:
  "three_way ucmp \<Longrightarrow>
     three_way (InternalKeyComparator_Compare ucmp)
     \<and> (\<forall>a b pa pb. ParseInternalKey a = Some pa \<and> ParseInternalKey b = Some pb \<longrightarrow>
          InternalKeyComparator_Compare ucmp a b = CompareParsed ucmp pa pb)"
proof -
  assume "three_way ucmp"
  then have uc: "user_comparator ucmp" by (rule user_comparator.intro)
  have "InternalKeyComparator_Compare ucmp a b = CompareParsed ucmp pa pb"
    if "ParseInternalKey a = Some pa" and "ParseInternalKey b = Some pb" for a b pa pb
  proof -
    have "a = InternalKey (pik_user_key pa) (pik_sequence pa) (pik_type pa)"
      and "b = InternalKey (pik_user_key pb) (pik_sequence pb) (pik_type pb)"
      using that by (simp_all add: ParseInternalKey_Some(1))
    with CompareParsed_InternalKey [OF ParseInternalKey_Some(2) [OF that(1)]
        ParseInternalKey_Some(2) [OF that(2)]] show ?thesis
      by (metis ParsedInternalKey.surjective old.unit.exhaust)
  qed
  then show ?thesis
    using user_comparator.tie_break_three_way [OF uc, of ExtractInternalKeyFooter]
    by (simp add: InternalKeyComparator_Compare_footer [abs_def])
qed

theorem internal_key_order_witness:
  "three_way (InternalKeyComparator_Compare ReverseBytewise_Compare)
   \<and> InternalKeyComparator_Compare Bytewise_Compare (InternalKey [97] 5 1) (InternalKey [97] 4 1) = -1"
proof -
  have "ParseInternalKey (InternalKey [97] 5 1) = Some \<lparr>pik_user_key = [97], pik_sequence = 5, pik_type = 1\<rparr>"
    "ParseInternalKey (InternalKey [97] 4 1) = Some \<lparr>pik_user_key = [97], pik_sequence = 4, pik_type = 1\<rparr>"
    by code_simp+
  with internal_key_order [OF bytewise.three_way_axioms]
  have "InternalKeyComparator_Compare Bytewise_Compare (InternalKey [97] 5 1) (InternalKey [97] 4 1) =
    CompareParsed Bytewise_Compare \<lparr>pik_user_key = [97], pik_sequence = 5, pik_type = 1\<rparr>
      \<lparr>pik_user_key = [97], pik_sequence = 4, pik_type = 1\<rparr>"
    by blast
  moreover have "\<dots> = -1" by code_simp
  ultimately show ?thesis
    using internal_key_order [OF reverse_bytewise.three_way_axioms] by simp
qed

text \<open>The lookup key of a point query at a snapshot sits exactly before the newest version it
  may see: among the versions of the user key, those not before it are those with a sequence number
  of at most the snapshot's. Its memtable form parses back to its internal key.\<close>

theorem LookupKey_seeks_visible_versions:
  "s \<le> kMaxSequenceNumber \<and> s' \<le> kMaxSequenceNumber \<and> IsExtendedValueType t' \<and> ucmp u u' = 0
     \<and> length u + 8 < 2 ^ 32 \<Longrightarrow>
     (InternalKeyComparator_Compare ucmp (LookupKey_internal_key (LookupKey_init u s))
        (InternalKey u' s' t') \<le> 0 \<longleftrightarrow> s' \<le> s)
     \<and> LookupKey_user_key (LookupKey_init u s) = u
     \<and> GetLengthPrefixedSlice (LookupKey_memtable_key (LookupKey_init u s)) =
         Some (LookupKey_internal_key (LookupKey_init u s), [])"
proof -
  assume *: "s \<le> kMaxSequenceNumber \<and> s' \<le> kMaxSequenceNumber \<and> IsExtendedValueType t' \<and> ucmp u u' = 0
     \<and> length u + 8 < 2 ^ 32"
  then have t: "\<not> kValueTypeForSeek < t'" using IsExtendedValueType_le_seek [of t'] by (simp add: not_less)
  have "InternalKeyComparator_Compare ucmp (LookupKey_internal_key (LookupKey_init u s))
        (InternalKey u' s' t') \<le> 0 \<longleftrightarrow> s' \<le> s"
    using * t unfolding LookupKey_internal_key_eq
    by (auto simp: CompareParsed_InternalKey CompareParsed_def Let_def not_less)
  moreover have "LookupKey_user_key (LookupKey_init u s) = u"
    by (simp add: LookupKey_user_key_def LookupKey_init_def Let_def)
  moreover have "GetLengthPrefixedSlice (LookupKey_memtable_key (LookupKey_init u s)) =
     Some (LookupKey_internal_key (LookupKey_init u s), [])"
  proof -
    let ?k = "InternalKey u s kValueTypeForSeek"
    have "LookupKey_memtable_key (LookupKey_init u s) = LengthPrefixed ?k @ []"
      by (simp add: LengthPrefixed_def LookupKey_memtable_key_def LookupKey_init_def Let_def
          InternalKey_append)
    moreover have "length ?k < 2 ^ 32" using * by (simp add: InternalKey_append)
    ultimately show ?thesis by (simp only: lprefixed.get_enc LookupKey_internal_key_eq)
  qed
  ultimately show ?thesis by blast
qed

theorem LookupKey_seeks_visible_versions_witness:
  "InternalKeyComparator_Compare Bytewise_Compare (LookupKey_internal_key (LookupKey_init [97] 7))
     (InternalKey [97] 7 kTypeValue) \<le> 0"
proof -
  have "(7 :: u64) \<le> kMaxSequenceNumber \<and> (7 :: u64) \<le> kMaxSequenceNumber
     \<and> IsExtendedValueType kTypeValue \<and> Bytewise_Compare [97] [97] = 0 \<and> length [97 :: byte] + 8 < 2 ^ 32"
    by (simp add: kMaxSequenceNumber_def IsExtendedValueType_def IsValueType_def kType_defs)
  from LookupKey_seeks_visible_versions [where ucmp = Bytewise_Compare, OF this] show ?thesis by simp
qed

text \<open>Shortening an internal key for an index entry stays within the bounds: for
  start before limit the separator is not before start, before limit and not longer than start, and
  the short successor of a key is not before it; for the built-in bytewise comparator.\<close>

theorem internal_separator_within_bounds:
  "InternalKeyComparator_Compare Bytewise_Compare start limit < 0 \<and> 8 \<le> length start \<Longrightarrow>
     let sep = Internal_FindShortestSeparator Bytewise_Compare FindShortestSeparator start limit
     in InternalKeyComparator_Compare Bytewise_Compare start sep \<le> 0
        \<and> InternalKeyComparator_Compare Bytewise_Compare sep limit < 0
        \<and> length sep \<le> length start
        \<and> InternalKeyComparator_Compare Bytewise_Compare start
            (Internal_FindShortSuccessor Bytewise_Compare FindShortSuccessor start) \<le> 0"
  using bytewise_shortener.Internal_FindShortestSeparator_bounds [of start limit]
    bytewise_shortener.Internal_FindShortSuccessor_ge [of start]
  by (simp add: Let_def)

theorem internal_separator_within_bounds_witness:
  "InternalKeyComparator_Compare Bytewise_Compare
     (Internal_FindShortestSeparator Bytewise_Compare FindShortestSeparator
        (InternalKey [97, 98, 99] 5 1) (InternalKey [97, 104] 9 1)) (InternalKey [97, 104] 9 1) < 0"
proof -
  have "InternalKeyComparator_Compare Bytewise_Compare (InternalKey [97, 98, 99] 5 1)
      (InternalKey [97, 104] 9 1) < 0 \<and> 8 \<le> length (InternalKey [97, 98, 99] 5 1)"
    by code_simp
  from internal_separator_within_bounds [OF this] show ?thesis by (simp add: Let_def)
qed

end
