(* ===== verification/SstableMeta.thy ===== *)
theory SstableMeta
  imports DBFormat
begin

text \<open>
  The metadata of the tables in the matrix container (\<open>utilities/nvm_mod/sstable_meta.h\<close>,
  \<open>sstable_meta.cc\<close>): the entry of a table with the metadata of its keys, the cross hints from the
  keys of a table to those of the next older one, the list of the live tables and the list of the
  tables under column compaction.

  A \<open>FileEntry*\<close> is modelled by the number of the file, which is unique among the live files. The
  array \<open>keys_meta\<close> and its length \<open>keys_num\<close> are one list. The mutex around each operation makes it
  one atomic step.
\<close>

section \<open>Data\<close>

record KeysMetadata =
  km_key :: slice
  km_next :: int
  km_offset :: u64
  km_size :: u64

definition KeysMetadata_init :: KeysMetadata where
  "KeysMetadata_init = \<lparr>km_key = [], km_next = -1, km_offset = 0, km_size = 0\<rparr>"

record FileEntry =
  filenum :: u64
  sstable_index :: int
  keys_meta :: "KeysMetadata list"
  key_point_filenum :: u64

definition FileEntry_init :: "u64 \<Rightarrow> int \<Rightarrow> FileEntry" where
  "FileEntry_init a b =
     \<lparr>filenum = a, sstable_index = b, keys_meta = [], key_point_filenum = 0\<rparr>"

definition keys_num :: "FileEntry \<Rightarrow> nat" where
  "keys_num f = length (keys_meta f)"

text \<open>\<open>files\<close> has the newest table first. What the operations read of a \<open>FileMetaData\<close> is the file
  number and the size.\<close>

record SstableMetadata =
  files :: "FileEntry list"
  compaction_files :: "u64 list"

section \<open>Operations\<close>

definition AddFile :: "SstableMetadata \<Rightarrow> u64 \<Rightarrow> int \<Rightarrow> SstableMetadata" where
  "AddFile m filenumber index = m\<lparr>files := FileEntry_init filenumber index # files m\<rparr>"

fun find_forward :: "FileEntry list \<Rightarrow> u64 \<Rightarrow> FileEntry option" where
  "find_forward [] n = None"
| "find_forward (f # fs) n = (if filenum f = n then Some f else find_forward fs n)"

definition FindFile :: "SstableMetadata \<Rightarrow> u64 \<Rightarrow> bool \<Rightarrow> FileEntry option" where
  "FindFile m filenumber forward =
     (if forward then find_forward (files m) filenumber
      else find_forward (rev (files m)) filenumber)"

text \<open>The cursor \<open>j\<close> of \<open>GetL0Files\<close> is the suffix of \<open>files_\<close> still to be searched; a file that is
  not found ends the walk.\<close>

fun GetL0Files :: "u64 list \<Rightarrow> FileEntry list \<Rightarrow> FileEntry list" where
  "GetL0Files [] fs = []"
| "GetL0Files (n # L0files) fs =
     (case dropWhile (\<lambda>f. n \<noteq> filenum f) fs of
        [] \<Rightarrow> []
      | f # fs' \<Rightarrow> f # GetL0Files L0files fs')"

fun erase_file :: "FileEntry list \<Rightarrow> u64 \<Rightarrow> FileEntry list" where
  "erase_file [] n = []"
| "erase_file (f # fs) n = (if filenum f = n then fs else f # erase_file fs n)"

definition DeteleFile :: "SstableMetadata \<Rightarrow> u64 \<Rightarrow> SstableMetadata \<times> bool" where
  "DeteleFile m filenumber = (m\<lparr>files := erase_file (files m) filenumber\<rparr>, True)"

text \<open>The merge loop of \<open>UpdateKeyNext\<close>.\<close>

function key_next_loop ::
    "(slice \<Rightarrow> slice \<Rightarrow> int) \<Rightarrow> KeysMetadata list \<Rightarrow> KeysMetadata list \<Rightarrow> nat \<Rightarrow> nat \<Rightarrow> KeysMetadata list" where
  "key_next_loop icmp new_keys old_keys new_index old_index =
     (if new_index < length new_keys \<and> old_index < length old_keys then
        if icmp (km_key (old_keys ! old_index)) (km_key (new_keys ! new_index)) \<ge> 0
        then key_next_loop icmp
               (new_keys[new_index := (new_keys ! new_index)\<lparr>km_next := int old_index\<rparr>])
               old_keys (new_index + 1) old_index
        else key_next_loop icmp new_keys old_keys new_index (old_index + 1)
      else new_keys)"
  by pat_completeness auto
termination
  by (relation "measure (\<lambda>(icmp, nk, ok, ni, oi). (length nk - ni) + (length ok - oi))") auto

declare key_next_loop.simps [simp del]

fun entry_after :: "FileEntry list \<Rightarrow> u64 \<Rightarrow> FileEntry option" where
  "entry_after [] n = None"
| "entry_after (f # fs) n =
     (if filenum f = n then (case fs of [] \<Rightarrow> None | g # _ \<Rightarrow> Some g) else entry_after fs n)"

definition UpdateKeyNext_file ::
    "(slice \<Rightarrow> slice \<Rightarrow> int) \<Rightarrow> FileEntry list \<Rightarrow> FileEntry \<Rightarrow> FileEntry" where
  "UpdateKeyNext_file icmp fs file =
     (if keys_num file = 0 then file
      else
        case entry_after fs (filenum file) of
          None \<Rightarrow> file
        | Some next_file \<Rightarrow>
            file\<lparr>keys_meta := key_next_loop icmp (keys_meta file) (keys_meta next_file) 0 0,
                 key_point_filenum := filenum next_file\<rparr>)"

text \<open>An update through a \<open>FileEntry*\<close>.\<close>

definition update_file :: "u64 \<Rightarrow> (FileEntry \<Rightarrow> FileEntry) \<Rightarrow> FileEntry list \<Rightarrow> FileEntry list" where
  "update_file n upd fs = map (\<lambda>f. if filenum f = n then upd f else f) fs"

definition UpdateKeyNext ::
    "(slice \<Rightarrow> slice \<Rightarrow> int) \<Rightarrow> SstableMetadata \<Rightarrow> u64 option \<Rightarrow> SstableMetadata" where
  "UpdateKeyNext icmp m file =
     (case file of
        None \<Rightarrow> m
      | Some n \<Rightarrow> m\<lparr>files := update_file n (UpdateKeyNext_file icmp (files m)) (files m)\<rparr>)"

text \<open>The comparison of \<open>compaction_files\<close> with \<open>L0files\<close> from the back, on the reversed lists;
  \<open>L0files[-1]\<close> is an access out of bounds.\<close>

fun consistent_from_back :: "u64 list \<Rightarrow> u64 list \<Rightarrow> bool result" where
  "consistent_from_back [] L0 = Inr True"
| "consistent_from_back (c # cs) [] = Inl OutOfBounds"
| "consistent_from_back (c # cs) (l # L0) =
     (if c = l then consistent_from_back cs L0 else Inr False)"

definition UpdateCompactionState :: "SstableMetadata \<Rightarrow> u64 list \<Rightarrow> SstableMetadata result" where
  "UpdateCompactionState m L0files =
     (let reselect = m\<lparr>compaction_files := fold (\<lambda>n cf. n # cf) (rev L0files) []\<rparr>
      in if compaction_files m \<noteq> [] then
           case consistent_from_back (rev (compaction_files m)) (rev L0files) of
             Inl e \<Rightarrow> Inl e
           | Inr consistency \<Rightarrow> if consistency then Inr m else Inr reselect
         else Inr reselect)"

definition DeleteCompactionFile :: "SstableMetadata \<Rightarrow> u64 \<Rightarrow> SstableMetadata" where
  "DeleteCompactionFile m filenumber =
     m\<lparr>compaction_files := remove1 filenumber (compaction_files m)\<rparr>"

definition GetFilesNumber :: "SstableMetadata \<Rightarrow> nat" where
  "GetFilesNumber m = length (files m)"

section \<open>Sorted keys and their cross hints\<close>

definition sorted_keys :: "(slice \<Rightarrow> slice \<Rightarrow> int) \<Rightarrow> slice list \<Rightarrow> bool" where
  "sorted_keys icmp ks \<longleftrightarrow> sorted_wrt (\<lambda>a b. icmp a b < 0) ks"

abbreviation keys_of :: "KeysMetadata list \<Rightarrow> slice list" where
  "keys_of ms \<equiv> map km_key ms"

text \<open>The reference for a cross hint: the first key of the older table that is not before the key.\<close>

definition lower_bound :: "(slice \<Rightarrow> slice \<Rightarrow> int) \<Rightarrow> slice list \<Rightarrow> slice \<Rightarrow> nat" where
  "lower_bound icmp ks k = length (takeWhile (\<lambda>x. icmp x k < 0) ks)"

definition hint_for :: "(slice \<Rightarrow> slice \<Rightarrow> int) \<Rightarrow> slice list \<Rightarrow> slice \<Rightarrow> int" where
  "hint_for icmp ks k =
     (let j = lower_bound icmp ks k in if j < length ks then int j else -1)"

lemma lower_bound_le: "lower_bound icmp ks k \<le> length ks"
  by (simp add: lower_bound_def length_takeWhile_le)

lemma lower_bound_before: "j < lower_bound icmp ks k \<Longrightarrow> icmp (ks ! j) k < 0"
  unfolding lower_bound_def using takeWhile_nth [of j "\<lambda>x. icmp x k < 0" ks]
    nth_mem [of j "takeWhile (\<lambda>x. icmp x k < 0) ks"] by (auto dest: set_takeWhileD)

lemma lower_bound_at: "lower_bound icmp ks k < length ks \<Longrightarrow> 0 \<le> icmp (ks ! lower_bound icmp ks k) k"
  unfolding lower_bound_def using nth_length_takeWhile [of "\<lambda>x. icmp x k < 0" ks] by simp

lemma lower_bound_eqI:
  assumes "j \<le> length ks" and "\<And>i. i < j \<Longrightarrow> icmp (ks ! i) k < 0" and "j < length ks \<Longrightarrow> 0 \<le> icmp (ks ! j) k"
  shows "lower_bound icmp ks k = j"
  using lower_bound_before [of j icmp ks k] lower_bound_at [of icmp ks k] lower_bound_le [of icmp ks k]
    assms(1,3) assms(2) [of "lower_bound icmp ks k"]
  by (cases "lower_bound icmp ks k" j rule: linorder_cases) auto

lemma sorted_keys_nth:
  "sorted_keys icmp ks \<Longrightarrow> i < j \<Longrightarrow> j < length ks \<Longrightarrow> icmp (ks ! i) (ks ! j) < 0"
  unfolding sorted_keys_def by (rule sorted_wrt_nth_less)

text \<open>The keys after a lower bound are not before the key either.\<close>

lemma sorted_keys_after:
  assumes "three_way icmp" and "sorted_keys icmp ks" and "0 \<le> icmp (ks ! i) k" and "i \<le> j" and "j < length ks"
  shows "0 \<le> icmp (ks ! j) k"
proof (cases "i = j")
  case False
  with assms(4,5) have "icmp (ks ! i) (ks ! j) < 0" by (intro sorted_keys_nth [OF assms(2)]) auto
  with assms(1,3) show ?thesis
    using three_way.cmp_less_le_trans [OF assms(1), of "ks ! i" "ks ! j" k] by linarith
qed (use assms(3) in simp)

lemma key_next_loop_nth:
  assumes "three_way icmp" and "sorted_keys icmp (keys_of nk)"
    and "ni < length nk \<Longrightarrow> \<forall>j < oi. icmp (km_key (old ! j)) (km_key (nk ! ni)) < 0" and "oi \<le> length old"
  shows "length (key_next_loop icmp nk old ni oi) = length nk \<and> (\<forall>i < length nk.
      key_next_loop icmp nk old ni oi ! i =
      (if i < ni \<or> lower_bound icmp (keys_of old) (km_key (nk ! i)) = length old then nk ! i
       else (nk ! i)\<lparr>km_next := int (lower_bound icmp (keys_of old) (km_key (nk ! i)))\<rparr>))"
  using assms
proof (induction icmp nk old ni oi rule: key_next_loop.induct)
  case (1 icmp nk old ni oi)
  let ?lb = "\<lambda>x. lower_bound icmp (keys_of old) (km_key x)"
  show ?case
  proof (cases "ni < length nk \<and> oi < length old")
    case False
    then show ?thesis
    proof (cases "ni < length nk")
      case True
      have "?lb (nk ! i) = length old" if i: "ni \<le> i" "i < length nk" for i
      proof -
        have "icmp (km_key (old ! j)) (km_key (nk ! i)) < 0" if "j < length old" for j
        proof -
          have "icmp (km_key (old ! j)) (km_key (nk ! ni)) < 0"
            using that False True 1(5,6) by auto
          moreover have "icmp (km_key (nk ! ni)) (km_key (nk ! i)) \<le> 0"
            using i sorted_keys_nth [OF 1(4), of ni i] three_way.cmp_refl [OF 1(3)]
            by (cases "ni = i") (auto simp: less_imp_le)
          ultimately show ?thesis by (rule three_way.cmp_less_le_trans [OF 1(3)])
        qed
        then show ?thesis
          using lower_bound_eqI [of "length old" "keys_of old" icmp "km_key (nk ! i)"] by simp
      qed
      then show ?thesis using False by (auto simp: key_next_loop.simps [of icmp nk old ni oi])
    qed (auto simp: key_next_loop.simps [of icmp nk old ni oi])
  next
    case True
    show ?thesis
    proof (cases "icmp (km_key (old ! oi)) (km_key (nk ! ni)) \<ge> 0")
      case ge: True
      let ?nk = "nk[ni := (nk ! ni)\<lparr>km_next := int oi\<rparr>]"
      have keys: "keys_of ?nk = keys_of nk"
        using True by (simp add: map_update list_update_same_conv)
      have lb: "?lb (nk ! ni) = oi"
        using True ge 1(5) by (intro lower_bound_eqI) auto
      have key_nth: "km_key (?nk ! i) = km_key (nk ! i)" if "i < length nk" for i
        using arg_cong [OF keys, of "\<lambda>l. l ! i"] that by simp
      have "\<forall>j < oi. icmp (km_key (old ! j)) (km_key (?nk ! (ni + 1))) < 0" if "ni + 1 < length ?nk"
        using that True 1(5) sorted_keys_nth [OF 1(4), of ni "ni + 1"] key_nth [of "ni + 1"]
          three_way.cmp_less_trans [OF 1(3)] by auto
      from 1(1) [OF True ge 1(3) 1(4) [folded keys] this] 1(6) True ge lb key_nth show ?thesis
        by (auto simp: key_next_loop.simps [of icmp nk old ni oi] nth_list_update less_Suc_eq)
    next
      case lt: False
      have "\<forall>j < oi + 1. icmp (km_key (old ! j)) (km_key (nk ! ni)) < 0"
        using lt True 1(5) by (auto simp: less_Suc_eq)
      with 1(2) [OF True lt 1(3,4)] True lt show ?thesis
        by (simp add: key_next_loop.simps [of icmp nk old ni oi])
    qed
  qed
qed

section \<open>The list of tables\<close>

definition metadata_ok :: "SstableMetadata \<Rightarrow> bool" where
  "metadata_ok m \<longleftrightarrow> distinct (map filenum (files m))"

lemma find_forward_Some:
  "find_forward fs n = Some f \<Longrightarrow> f \<in> set fs \<and> filenum f = n"
  by (induction fs) (auto split: if_splits)

lemma find_forward_distinct:
  assumes "distinct (map filenum fs)"
  shows "find_forward fs n = Some f \<longleftrightarrow> f \<in> set fs \<and> filenum f = n"
  using assms by (induction fs) auto

lemma find_forward_None: "find_forward fs n = None \<longleftrightarrow> n \<notin> set (map filenum fs)"
  by (induction fs) auto

lemma FindFile_direction:
  assumes "metadata_ok m"
  shows "FindFile m n fwd = find_forward (files m) n"
proof -
  have d: "distinct (map filenum (files m))" "distinct (map filenum (rev (files m)))"
    using assms by (simp_all add: metadata_ok_def flip: rev_map)
  have "find_forward (rev (files m)) n = Some f \<longleftrightarrow> find_forward (files m) n = Some f" for f
    by (simp add: find_forward_distinct d)
  then have "find_forward (rev (files m)) n = find_forward (files m) n"
    by (metis not_Some_eq)
  then show ?thesis by (simp add: FindFile_def)
qed

lemma erase_file_filter:
  "distinct (map filenum fs) \<Longrightarrow> erase_file fs n = filter (\<lambda>f. filenum f \<noteq> n) fs"
  by (induction fs) (auto simp: image_iff intro!: filter_True [symmetric])

lemma erase_file_set:
  assumes "distinct (map filenum fs)"
  shows "distinct (map filenum (erase_file fs n))"
    and "set (erase_file fs n) = {f \<in> set fs. filenum f \<noteq> n}"
  using assms by (simp_all add: erase_file_filter distinct_map_filter)

lemma AddFile_ok:
  "metadata_ok m \<Longrightarrow> n \<notin> set (map filenum (files m)) \<Longrightarrow> metadata_ok (AddFile m n i)"
  by (simp add: metadata_ok_def AddFile_def FileEntry_init_def)

lemma DeteleFile_ok: "metadata_ok m \<Longrightarrow> metadata_ok (fst (DeteleFile m n))"
  by (simp add: metadata_ok_def DeteleFile_def erase_file_set)

lemma subseq_dropWhile:
  "subseq (n # ns) (map g fs) \<Longrightarrow>
     \<exists>f fs'. dropWhile (\<lambda>f. n \<noteq> g f) fs = f # fs' \<and> g f = n \<and> subseq ns (map g fs')"
  by (induction fs) (auto simp: subseq_Cons2_neq)

lemma dropWhile_split:
  "dropWhile P fs = f # fs' \<Longrightarrow> \<not> P f \<and> (\<exists>p. fs = p @ f # fs')"
  by (metis dropWhile_eq_Cons_conv takeWhile_dropWhile_id)

lemma GetL0Files_prefix:
  "prefix (map filenum (GetL0Files ns fs)) ns \<and> subseq (GetL0Files ns fs) fs"
proof (induction ns fs rule: GetL0Files.induct)
  case (2 n ns fs)
  show ?case
  proof (cases "dropWhile (\<lambda>f. n \<noteq> filenum f) fs")
    case Nil
    then show ?thesis unfolding GetL0Files.simps Nil by simp
  next
    case (Cons f fs')
    then obtain p where "filenum f = n" "fs = p @ f # fs'" using dropWhile_split [OF Cons] by auto
    moreover have "subseq (f # GetL0Files ns fs') (f # fs')" using 2 [OF Cons] by simp
    ultimately show ?thesis using 2 [OF Cons] Cons by (auto intro: subseq_drop_many)
  qed
qed simp_all

lemma GetL0Files_complete:
  "subseq ns (map filenum fs) \<Longrightarrow> map filenum (GetL0Files ns fs) = ns"
proof (induction ns arbitrary: fs)
  case (Cons n ns)
  from subseq_dropWhile [OF Cons.prems] obtain f fs' where
    "dropWhile (\<lambda>f. n \<noteq> filenum f) fs = f # fs'" "filenum f = n" "subseq ns (map filenum fs')"
    by blast
  with Cons.IH [of fs'] show ?case by simp
qed simp

section \<open>Compaction state\<close>

lemma consistent_from_back_cases:
  "consistent_from_back cs ls =
     (if prefix cs ls then Inr True else if prefix ls cs then Inl OutOfBounds else Inr False)"
  by (induction cs ls rule: consistent_from_back.induct) auto

lemma suffix_rev_prefix: "suffix a b = prefix (rev a) (rev b)"
  by (rule suffix_to_prefix)

lemma UpdateCompactionState_cases:
  "UpdateCompactionState m ns =
     (if compaction_files m \<noteq> [] \<and> suffix (compaction_files m) ns then Inr m
      else if compaction_files m \<noteq> [] \<and> suffix ns (compaction_files m) then Inl OutOfBounds
      else Inr (m\<lparr>compaction_files := ns\<rparr>))"
proof -
  have "foldr (#) ns [] = ns" by (induction ns) auto
  then have "fold (\<lambda>n cf. n # cf) (rev ns) [] = ns" by (simp flip: foldr_conv_fold)
  then show ?thesis
    by (simp add: UpdateCompactionState_def Let_def consistent_from_back_cases suffix_rev_prefix)
qed

lemma update_file_split:
  assumes "distinct (map filenum (p @ f # q))"
  shows "update_file (filenum f) upd (p @ f # q) = p @ upd f # q"
proof -
  have "update_file (filenum f) upd xs = xs" if "filenum f \<notin> set (map filenum xs)" for xs
    using that by (induction xs) (auto simp: update_file_def)
  with assms show ?thesis by (simp add: update_file_def)
qed

lemma entry_after_split:
  "distinct (map filenum (p @ f # g # q)) \<Longrightarrow> entry_after (p @ f # g # q) (filenum f) = Some g"
  by (induction p) auto

lemma entry_after_last:
  "distinct (map filenum (p @ [f])) \<Longrightarrow> entry_after (p @ [f]) (filenum f) = None"
  by (induction p) auto

text \<open>The table \<open>f\<close> is linked to the next older table \<open>g\<close>: it names it and each of its keys carries
  the reference hint into it.\<close>

definition linked :: "(slice \<Rightarrow> slice \<Rightarrow> int) \<Rightarrow> FileEntry \<Rightarrow> FileEntry \<Rightarrow> bool" where
  "linked icmp f g \<longleftrightarrow>
     key_point_filenum f = filenum g
     \<and> (\<forall>k \<in> set (keys_meta f). km_next k = hint_for icmp (keys_of (keys_meta g)) (km_key k))"

lemma key_next_loop_linked:
  assumes "three_way icmp" and "sorted_keys icmp (keys_of nk)" and "\<forall>k \<in> set nk. km_next k = -1"
  shows "keys_of (key_next_loop icmp nk old 0 0) = keys_of nk"
    and "map (\<lambda>k. k\<lparr>km_next := -1\<rparr>) (key_next_loop icmp nk old 0 0) = nk"
    and "k \<in> set (key_next_loop icmp nk old 0 0) \<Longrightarrow> km_next k = hint_for icmp (keys_of old) (km_key k)"
proof -
  note loop = key_next_loop_nth [OF assms(1,2), of 0 0 old, simplified]
  let ?r = "key_next_loop icmp nk old 0 0"
  show "keys_of ?r = keys_of nk"
    using loop by (intro nth_equalityI) auto
  show "map (\<lambda>k. k\<lparr>km_next := -1\<rparr>) ?r = nk"
    using loop assms(3) by (intro nth_equalityI) auto
  show "km_next k = hint_for icmp (keys_of old) (km_key k)" if "k \<in> set ?r"
  proof -
    from that obtain i where i: "i < length ?r" "?r ! i = k" unfolding in_set_conv_nth by blast
    with loop have n: "i < length nk" "?r ! i = (if lower_bound icmp (keys_of old) (km_key (nk ! i)) = length old
        then nk ! i else (nk ! i)\<lparr>km_next := int (lower_bound icmp (keys_of old) (km_key (nk ! i)))\<rparr>)"
      by simp_all
    have "km_next (nk ! i) = -1" using assms(3) n(1) by simp
    then show ?thesis
      using lower_bound_le [of icmp "keys_of old" "km_key (nk ! i)"] n(2) i(2)
      by (cases "lower_bound icmp (keys_of old) (km_key (nk ! i)) = length old")
        (auto simp: hint_for_def Let_def)
  qed
qed

section \<open>Properties\<close>

text \<open>C20: \<open>UpdateKeyNext\<close>, one merge pass over two sorted tables, gives every key of the new table
  exactly the hint a search from scratch would give: the index of the first key of the next older
  table that is not before it, or -1 if there is none. Nothing else of any table changes.\<close>

theorem UpdateKeyNext_correct:
  "three_way icmp \<and> metadata_ok m \<and> files m = p @ f # g # q \<and> keys_meta f \<noteq> []
     \<and> sorted_keys icmp (keys_of (keys_meta f)) \<and> (\<forall>k \<in> set (keys_meta f). km_next k = -1) \<Longrightarrow>
     \<exists>f'. UpdateKeyNext icmp m (Some (filenum f)) = m\<lparr>files := p @ f' # g # q\<rparr>
       \<and> linked icmp f' g \<and> filenum f' = filenum f \<and> sstable_index f' = sstable_index f
       \<and> map (\<lambda>k. k\<lparr>km_next := -1\<rparr>) (keys_meta f') = keys_meta f"
proof -
  assume *: "three_way icmp \<and> metadata_ok m \<and> files m = p @ f # g # q \<and> keys_meta f \<noteq> []
     \<and> sorted_keys icmp (keys_of (keys_meta f)) \<and> (\<forall>k \<in> set (keys_meta f). km_next k = -1)"
  then have fs: "files m = p @ f # g # q" and ne: "keys_meta f \<noteq> []" by blast+
  from * have d: "distinct (map filenum (p @ f # g # q))" by (metis metadata_ok_def)
  define f' where "f' = f\<lparr>keys_meta := key_next_loop icmp (keys_meta f) (keys_meta g) 0 0,
              key_point_filenum := filenum g\<rparr>"
  have "UpdateKeyNext_file icmp (files m) f = f'"
    using ne by (simp add: fs UpdateKeyNext_file_def keys_num_def entry_after_split [OF d] f'_def)
  then have "UpdateKeyNext icmp m (Some (filenum f)) = m\<lparr>files := p @ f' # g # q\<rparr>"
    by (simp add: UpdateKeyNext_def) (simp add: fs update_file_split [OF d])
  moreover have "three_way icmp" "sorted_keys icmp (keys_of (keys_meta f))"
    "\<forall>k \<in> set (keys_meta f). km_next k = -1" using * by blast+
  note loop = key_next_loop_linked [OF this, where old = "keys_meta g"]
  have "linked icmp f' g" unfolding linked_def f'_def using loop(3) by simp
  ultimately show ?thesis using loop(2) by (intro exI [of _ f']) (simp add: f'_def)
qed

theorem UpdateKeyNext_correct_witness:
  "\<exists>f'. UpdateKeyNext Bytewise_Compare
       \<lparr>files = [\<lparr>filenum = 2, sstable_index = 1, keys_meta = [KeysMetadata_init\<lparr>km_key := [5]\<rparr>],
                 key_point_filenum = 0\<rparr>,
                \<lparr>filenum = 1, sstable_index = 0,
                 keys_meta = [KeysMetadata_init\<lparr>km_key := [3]\<rparr>, KeysMetadata_init\<lparr>km_key := [7]\<rparr>],
                 key_point_filenum = 0\<rparr>],
        compaction_files = []\<rparr> (Some 2) =
     \<lparr>files = [f', \<lparr>filenum = 1, sstable_index = 0,
                 keys_meta = [KeysMetadata_init\<lparr>km_key := [3]\<rparr>, KeysMetadata_init\<lparr>km_key := [7]\<rparr>],
                 key_point_filenum = 0\<rparr>],
        compaction_files = []\<rparr>
     \<and> linked Bytewise_Compare f' \<lparr>filenum = 1, sstable_index = 0,
                 keys_meta = [KeysMetadata_init\<lparr>km_key := [3]\<rparr>, KeysMetadata_init\<lparr>km_key := [7]\<rparr>],
                 key_point_filenum = 0\<rparr>"
  (is "\<exists>f'. UpdateKeyNext _ \<lparr>files = [?f, ?g], compaction_files = []\<rparr> _ = _ \<and> _")
  using UpdateKeyNext_correct [of Bytewise_Compare "\<lparr>files = [?f, ?g], compaction_files = []\<rparr>" "[]" ?f ?g "[]"]
    bytewise.three_way_axioms
  by (auto simp: metadata_ok_def sorted_keys_def KeysMetadata_init_def)

text \<open>The list of tables is a finite map from file numbers to entries. A lookup in either
  direction finds the entry of a live file and nothing else; adding a new file, deleting a file
  and looking up commute as they do for a map.\<close>

theorem SstableMetadata_is_map:
  "metadata_ok m \<and> n \<notin> set (map filenum (files m)) \<Longrightarrow>
     metadata_ok (AddFile m n i) \<and> metadata_ok (fst (DeteleFile m n'))
     \<and> FindFile m x True = FindFile m x False
     \<and> FindFile (AddFile m n i) x fwd =
         (if x = n then Some (FileEntry_init n i) else FindFile m x fwd)
     \<and> FindFile (fst (DeteleFile m n')) x fwd = (if x = n' then None else FindFile m x fwd)"
proof -
  assume *: "metadata_ok m \<and> n \<notin> set (map filenum (files m))"
  then have m: "metadata_ok m" and a: "metadata_ok (AddFile m n i)"
    and d: "metadata_ok (fst (DeteleFile m n'))"
    by (simp_all add: AddFile_ok DeteleFile_ok)
  have "find_forward (filter (\<lambda>f. filenum f \<noteq> n') fs) x = (if x = n' then None else find_forward fs x)" for fs
    by (induction fs) auto
  then have "find_forward (files (fst (DeteleFile m n'))) x = (if x = n' then None else find_forward (files m) x)"
    using m by (simp add: DeteleFile_def erase_file_filter metadata_ok_def)
  moreover have "find_forward (files (AddFile m n i)) x =
      (if x = n then Some (FileEntry_init n i) else find_forward (files m) x)"
    by (simp add: AddFile_def FileEntry_init_def)
  ultimately show ?thesis using m a d by (simp add: FindFile_direction)
qed

theorem SstableMetadata_is_map_witness:
  "FindFile (AddFile \<lparr>files = [FileEntry_init 3 0], compaction_files = []\<rparr> 4 1) 3 False =
     Some (FileEntry_init 3 0)"
  using SstableMetadata_is_map [of "\<lparr>files = [FileEntry_init 3 0], compaction_files = []\<rparr>" 4 1 3 3 False]
  by (simp add: metadata_ok_def FileEntry_init_def FindFile_def)

text \<open>\<open>GetL0Files\<close> returns the entries of the version's level-0 files, in order, whenever these
  are among the live files in the same order; in any case it returns live files only, for a prefix
  of what was asked.\<close>

theorem GetL0Files_correct:
  "subseq ns (map filenum (files m)) \<Longrightarrow>
     map filenum (GetL0Files ns (files m)) = ns \<and> subseq (GetL0Files ns (files m)) (files m)
     \<and> (\<forall>ns'. prefix (map filenum (GetL0Files ns' (files m))) ns')"
  using GetL0Files_complete GetL0Files_prefix by blast

theorem GetL0Files_correct_witness:
  "map filenum (GetL0Files [9, 7] [FileEntry_init 9 0, FileEntry_init 8 1, FileEntry_init 7 2]) = [9, 7]"
  using GetL0Files_correct [of "[9, 7]" "\<lparr>files = [FileEntry_init 9 0, FileEntry_init 8 1, FileEntry_init 7 2],
      compaction_files = []\<rparr>"]
  by (simp add: FileEntry_init_def)

text \<open>The tables under column compaction are always the oldest level-0 files. Whenever
  \<open>UpdateCompactionState\<close> returns, \<open>compaction_files\<close> is a suffix of the level-0 list, the same one as
  before if that was already the case; it reads outside \<open>L0files\<close> exactly when the level-0 list is a
  proper suffix of a non-empty \<open>compaction_files\<close>.\<close>

theorem UpdateCompactionState_oldest:
  "(UpdateCompactionState m ns = Inl OutOfBounds
      \<longleftrightarrow> compaction_files m \<noteq> [] \<and> strict_suffix ns (compaction_files m))
   \<and> (\<forall>m'. UpdateCompactionState m ns = Inr m' \<longrightarrow>
        suffix (compaction_files m') ns \<and> files m' = files m
        \<and> (compaction_files m \<noteq> [] \<and> suffix (compaction_files m) ns \<longrightarrow> m' = m)
        \<and> (ns \<noteq> [] \<longrightarrow> compaction_files m' \<noteq> []))"
  by (auto simp: UpdateCompactionState_cases strict_suffix_def suffix_order.antisym)

theorem UpdateCompactionState_oldest_witness:
  "suffix (compaction_files \<lparr>files = [], compaction_files = [2, 1]\<rparr>) [3, 2, 1]"
proof -
  have "UpdateCompactionState \<lparr>files = [], compaction_files = [2, 1]\<rparr> [3, 2, 1] =
      Inr \<lparr>files = [], compaction_files = [2, 1]\<rparr>"
    by code_simp
  then show ?thesis using UpdateCompactionState_oldest by blast
qed

end
