(* ===== verification/L0Table.thy ===== *)
theory L0Table
  imports SstableMeta
begin

text \<open>
  The row tables of the matrix container (\<open>utilities/nvm_mod/l0_table_builder.h\<close>,
  \<open>l0_table_builder.cc\<close>): the layout of a key-value record, the two builders and the serialised key
  metadata behind the records.

  A builder writes to the memory of its slot (\<open>raw_\<close>) or to a buffer of the size of a slot
  (\<open>buf_\<close>); either is the list of its bytes. Offsets are numbers, stored as 64 bit words in the
  metadata; a slot is smaller than \<open>2 ^ 64\<close> bytes.
\<close>

section \<open>Definitions\<close>

text \<open>The string \<open>key_value\<close> of \<open>Add\<close>: key size, key, value size, value.\<close>

definition key_value :: "slice \<Rightarrow> slice \<Rightarrow> slice" where
  "key_value key v =
     PutFixed64 (PutFixed64 [] (of_nat (length key)) @ key) (of_nat (length v)) @ v"

text \<open>\<open>memcpy(p + off, d, length d)\<close> within an array.\<close>

definition write_at :: "slice \<Rightarrow> nat \<Rightarrow> slice \<Rightarrow> slice" where
  "write_at mem off d = take off mem @ d @ drop (off + length d) mem"

record L0TableBuilder =
  lb_raw :: slice
  lb_keys :: "KeysMetadata list"
  lb_offset :: nat

definition L0TableBuilder_init :: "slice \<Rightarrow> L0TableBuilder" where
  "L0TableBuilder_init raw = \<lparr>lb_raw = raw, lb_keys = [], lb_offset = 0\<rparr>"

definition L0TableBuilder_Add :: "nat \<Rightarrow> slice \<Rightarrow> slice \<Rightarrow> L0TableBuilder \<Rightarrow> L0TableBuilder" where
  "L0TableBuilder_Add sstable_each_size key v b =
     (let total_size = length key + length v + 8 + 8
      in if lb_offset b + total_size > sstable_each_size then b
         else
           b\<lparr>lb_raw := write_at (lb_raw b) (lb_offset b) (key_value key v),
             lb_keys := lb_keys b @
               [KeysMetadata_init\<lparr>km_offset := of_nat (lb_offset b), km_size := of_nat total_size,
                                  km_key := key\<rparr>],
             lb_offset := lb_offset b + total_size\<rparr>)"

text \<open>\<open>file_->keys_meta = new KeysMetadata[n]\<close>, filled from \<open>keys_\<close>.\<close>

definition set_keys_meta :: "KeysMetadata list \<Rightarrow> FileEntry \<Rightarrow> FileEntry" where
  "set_keys_meta ks f =
     f\<lparr>keys_meta :=
         map (\<lambda>k. KeysMetadata_init\<lparr>km_key := km_key k, km_offset := km_offset k, km_size := km_size k\<rparr>) ks\<rparr>"

definition L0TableBuilder_Finish ::
    "(slice \<Rightarrow> slice \<Rightarrow> int) \<Rightarrow> SstableMetadata \<Rightarrow> u64 \<Rightarrow> L0TableBuilder \<Rightarrow> Status \<times> SstableMetadata" where
  "L0TableBuilder_Finish icmp m file b =
     (OK, UpdateKeyNext icmp (m\<lparr>files := update_file file (set_keys_meta (lb_keys b)) (files m)\<rparr>)
            (Some file))"

record L0TableBuilderWithBuffer =
  lw_raw :: slice
  lw_keys :: "KeysMetadata list"
  lw_offset :: nat
  lw_buf :: slice
  lw_keys_meta_size :: nat
  lw_max_size :: nat

text \<open>The buffer is fresh memory; \<open>buf\<close> is its unspecified contents.\<close>

definition L0TableBuilderWithBuffer_init :: "nat \<Rightarrow> slice \<Rightarrow> slice \<Rightarrow> L0TableBuilderWithBuffer" where
  "L0TableBuilderWithBuffer_init sstable_each_size buf raw =
     \<lparr>lw_raw = raw, lw_keys = [], lw_offset = 0, lw_buf = buf, lw_keys_meta_size = 0,
      lw_max_size = sstable_each_size\<rparr>"

definition WithBuffer_Add ::
    "slice \<Rightarrow> slice \<Rightarrow> L0TableBuilderWithBuffer \<Rightarrow> L0TableBuilderWithBuffer" where
  "WithBuffer_Add key v b =
     (let total_size = length key + length v + 8 + 8
      in if lw_offset b + total_size > lw_max_size b then b
         else
           b\<lparr>lw_buf := write_at (lw_buf b) (lw_offset b) (key_value key v),
             lw_keys := lw_keys b @
               [KeysMetadata_init\<lparr>km_offset := of_nat (lw_offset b), km_size := of_nat total_size,
                                  km_key := key\<rparr>],
             lw_offset := lw_offset b + total_size\<rparr>)"

text \<open>One entry of the string \<open>metadatas\<close>; \<open>next\<close> is written as the 32 bits of the \<open>int32_t\<close>.\<close>

definition put_key_meta :: "slice \<Rightarrow> KeysMetadata \<Rightarrow> slice" where
  "put_key_meta metadatas k =
     PutFixed64
       (PutFixed64
          (PutFixed32 (PutFixed64 metadatas (of_nat (length (km_key k))) @ km_key k)
             (word_of_int (km_next k)))
          (km_offset k))
       (km_size k)"

definition metadatas_of :: "KeysMetadata list \<Rightarrow> slice" where
  "metadatas_of ks = fold (\<lambda>k d. put_key_meta d k) ks []"

definition WithBuffer_Finish ::
    "(slice \<Rightarrow> slice \<Rightarrow> int) \<Rightarrow> SstableMetadata \<Rightarrow> u64 \<Rightarrow> L0TableBuilderWithBuffer \<Rightarrow>
     Status \<times> SstableMetadata \<times> L0TableBuilderWithBuffer" where
  "WithBuffer_Finish icmp m file b =
     (let m1 = m\<lparr>files := update_file file (set_keys_meta (lw_keys b)) (files m)\<rparr>;
          m2 = UpdateKeyNext icmp m1 (Some file);
          metadatas = (case find_forward (files m2) file of
                         None \<Rightarrow> [] | Some f \<Rightarrow> metadatas_of (keys_meta f))
      in if lw_offset b + length metadatas > lw_max_size b then (IOError, m2, b)
         else
           let buf = write_at (lw_buf b) (lw_offset b) metadatas;
               keys_meta_size = length metadatas
           in (OK, m2,
               b\<lparr>lw_buf := buf, lw_keys_meta_size := keys_meta_size,
                 lw_raw := write_at (lw_raw b) 0 (take (lw_offset b + keys_meta_size) buf)\<rparr>))"

section \<open>The layout of a table\<close>

lemma key_value_append:
  "key_value key v = EncodeFixed64 kLittleEndian (of_nat (length key)) @ key @
     EncodeFixed64 kLittleEndian (of_nat (length v)) @ v"
  by (simp add: key_value_def put_simps)

lemma key_value_length [simp]: "length (key_value key v) = length key + length v + 16"
  by (simp add: key_value_append)

lemma write_at_length [simp]: "off + length d \<le> length mem \<Longrightarrow> length (write_at mem off d) = length mem"
  by (simp add: write_at_def)

lemma take_write_at:
  "off + length d \<le> length mem \<Longrightarrow> take (off + length d) (write_at mem off d) = take off mem @ d"
  by (simp add: write_at_def)

definition records :: "(slice \<times> slice) list \<Rightarrow> slice" where
  "records kvs = concat (map (\<lambda>(k, v). key_value k v) kvs)"

fun metas_from :: "nat \<Rightarrow> (slice \<times> slice) list \<Rightarrow> KeysMetadata list" where
  "metas_from off [] = []"
| "metas_from off ((k, v) # kvs) =
     \<lparr>km_key = k, km_next = -1, km_offset = of_nat off, km_size = of_nat (length (key_value k v))\<rparr>
     # metas_from (off + length (key_value k v)) kvs"

lemma records_append [simp]: "records (a @ b) = records a @ records b"
  by (simp add: records_def)

lemma records_simps [simp]: "records [] = []" "records ((k, v) # kvs) = key_value k v @ records kvs"
  by (simp_all add: records_def)

lemma metas_from_append:
  "metas_from off (a @ b) = metas_from off a @ metas_from (off + length (records a)) b"
  by (induction a arbitrary: off) (auto simp: add_ac)

lemma metas_from_keys: "keys_of (metas_from off kvs) = map fst kvs"
  by (induction kvs arbitrary: off) auto

lemma metas_from_length [simp]: "length (metas_from off kvs) = length kvs"
  using metas_from_keys [of off kvs] length_map by metis

lemma metas_from_next: "k \<in> set (metas_from off kvs) \<Longrightarrow> km_next k = -1"
  by (induction kvs arbitrary: off) auto

lemma metas_from_offset:
  "i < length kvs \<Longrightarrow> km_offset (metas_from off kvs ! i) = of_nat (off + length (records (take i kvs)))"
proof (induction kvs arbitrary: off i)
  case (Cons kv kvs)
  then show ?case by (cases kv; cases i) (auto simp: add_ac)
qed simp

lemma metas_from_size:
  "i < length kvs \<Longrightarrow> km_size (metas_from off kvs ! i) = of_nat (length (key_value (fst (kvs ! i)) (snd (kvs ! i))))"
proof (induction kvs arbitrary: off i)
  case (Cons kv kvs)
  then show ?case by (cases kv; cases i) auto
qed simp

text \<open>What a builder has after some calls of \<open>Add\<close>: the records of the pairs it took, one after the
  other, and their metadata.\<close>

definition builder_ok :: "L0TableBuilderWithBuffer \<Rightarrow> (slice \<times> slice) list \<Rightarrow> bool" where
  "builder_ok b kvs \<longleftrightarrow>
     length (lw_buf b) = lw_max_size b \<and> length (lw_raw b) = lw_max_size b
     \<and> lw_offset b = length (records kvs) \<and> lw_offset b \<le> lw_max_size b
     \<and> take (lw_offset b) (lw_buf b) = records kvs \<and> lw_keys b = metas_from 0 kvs"

lemma WithBuffer_Add_fits:
  assumes "builder_ok b kvs" and "lw_offset b + length (key_value k v) \<le> lw_max_size b"
  shows "builder_ok (WithBuffer_Add k v b) (kvs @ [(k, v)])"
  using assms take_write_at [of "lw_offset b" "key_value k v" "lw_buf b"]
  by (auto simp: builder_ok_def WithBuffer_Add_def Let_def metas_from_append KeysMetadata_init_def
      add_ac)

lemma WithBuffer_Add_over:
  "lw_offset b + length (key_value k v) > lw_max_size b \<Longrightarrow> WithBuffer_Add k v b = b"
  by (simp add: WithBuffer_Add_def Let_def add_ac)

lemma WithBuffer_Adds_fit:
  "builder_ok b kvs \<Longrightarrow> length (records (kvs @ kvs')) \<le> lw_max_size b \<Longrightarrow>
     builder_ok (fold (\<lambda>(k, v). WithBuffer_Add k v) kvs' b) (kvs @ kvs')
     \<and> lw_max_size (fold (\<lambda>(k, v). WithBuffer_Add k v) kvs' b) = lw_max_size b"
proof (induction kvs' arbitrary: b kvs)
  case (Cons kv kvs')
  obtain k v where kv: "kv = (k, v)" by fastforce
  have "builder_ok (WithBuffer_Add k v b) (kvs @ [(k, v)])"
    using Cons.prems kv by (intro WithBuffer_Add_fits) (auto simp: builder_ok_def)
  moreover have "lw_max_size (WithBuffer_Add k v b) = lw_max_size b"
    by (simp add: WithBuffer_Add_def Let_def)
  ultimately show ?case
    using Cons.IH [of "WithBuffer_Add k v b" "kvs @ [(k, v)]"] Cons.prems kv by simp
qed simp

section \<open>The direct and the buffered builder\<close>

text \<open>The direct builder does to its slot what the buffered one does to its buffer.\<close>

definition same_table :: "L0TableBuilder \<Rightarrow> L0TableBuilderWithBuffer \<Rightarrow> bool" where
  "same_table a b \<longleftrightarrow> lb_raw a = lw_buf b \<and> lb_keys a = lw_keys b \<and> lb_offset a = lw_offset b"

lemma Add_same_table:
  "same_table a b \<Longrightarrow> same_table (L0TableBuilder_Add (lw_max_size b) k v a) (WithBuffer_Add k v b)
     \<and> lw_max_size (WithBuffer_Add k v b) = lw_max_size b"
  by (simp add: same_table_def L0TableBuilder_Add_def WithBuffer_Add_def Let_def)

lemma Adds_same_table:
  "same_table a b \<Longrightarrow>
     same_table (fold (\<lambda>(k, v). L0TableBuilder_Add (lw_max_size b) k v) kvs a)
       (fold (\<lambda>(k, v). WithBuffer_Add k v) kvs b)"
proof (induction kvs arbitrary: a b)
  case (Cons kv kvs)
  then show ?case
    using Add_same_table [of a b "fst kv" "snd kv"]
      Cons.IH [of "L0TableBuilder_Add (lw_max_size b) (fst kv) (snd kv) a" "WithBuffer_Add (fst kv) (snd kv) b"]
    by (simp add: case_prod_beta)
qed simp

section \<open>Finishing a table\<close>

definition key_meta_bytes :: "KeysMetadata \<Rightarrow> slice" where
  "key_meta_bytes k = EncodeFixed64 kLittleEndian (of_nat (length (km_key k))) @ km_key k @
     EncodeFixed32 kLittleEndian (word_of_int (km_next k)) @
     EncodeFixed64 kLittleEndian (km_offset k) @ EncodeFixed64 kLittleEndian (km_size k)"

lemma metadatas_of_concat: "metadatas_of ks = concat (map key_meta_bytes ks)"
proof -
  have "fold (\<lambda>k d. put_key_meta d k) ks d = d @ concat (map key_meta_bytes ks)" for d
    by (induction ks arbitrary: d) (simp_all add: put_key_meta_def key_meta_bytes_def put_simps)
  then show ?thesis by (simp add: metadatas_of_def)
qed

lemma set_keys_meta_metas_from:
  "set_keys_meta (metas_from 0 kvs) f = f\<lparr>keys_meta := metas_from 0 kvs\<rparr>"
proof -
  have "map (\<lambda>k. KeysMetadata_init\<lparr>km_key := km_key k, km_offset := km_offset k, km_size := km_size k\<rparr>)
      (metas_from off kvs) = metas_from off kvs" for off
    by (induction kvs arbitrary: off) (auto simp: KeysMetadata_init_def)
  then show ?thesis by (simp add: set_keys_meta_def)
qed

text \<open>The metadata after \<open>Finish\<close>: the new table has the keys of the builder, linked to the next older
  table when there is one.\<close>

lemma finish_metadata:
  assumes "three_way icmp" and "metadata_ok m" and "files m = p @ f # q" and "kvs \<noteq> []"
    and "sorted_keys icmp (map fst kvs)"
  obtains f' where "UpdateKeyNext icmp
      (m\<lparr>files := update_file (filenum f) (set_keys_meta (metas_from 0 kvs)) (files m)\<rparr>) (Some (filenum f)) =
      m\<lparr>files := p @ f' # q\<rparr>"
    and "filenum f' = filenum f" and "sstable_index f' = sstable_index f"
    and "map (\<lambda>k. k\<lparr>km_next := -1\<rparr>) (keys_meta f') = metas_from 0 kvs"
    and "\<forall>g q'. q = g # q' \<longrightarrow> linked icmp f' g"
    and "q = [] \<longrightarrow> keys_meta f' = metas_from 0 kvs"
proof -
  define f1 where "f1 = f\<lparr>keys_meta := metas_from 0 kvs\<rparr>"
  define m1 where "m1 = m\<lparr>files := p @ f1 # q\<rparr>"
  have d: "distinct (map filenum (p @ f # q))" using assms(2,3) by (metis metadata_ok_def)
  then have d1: "distinct (map filenum (p @ f1 # q))" by (simp add: f1_def)
  have m1: "m\<lparr>files := update_file (filenum f) (set_keys_meta (metas_from 0 kvs)) (files m)\<rparr> = m1"
    by (simp add: m1_def assms(3) update_file_split [OF d] set_keys_meta_metas_from f1_def)
  have next_none: "\<forall>k \<in> set (keys_meta f1). km_next k = -1" by (simp add: f1_def metas_from_next)
  have sorted: "sorted_keys icmp (keys_of (keys_meta f1))"
    using assms(5) by (simp add: f1_def metas_from_keys)
  have ne: "keys_meta f1 \<noteq> []"
    using assms(4) metas_from_length [of 0 kvs] by (auto simp: f1_def simp del: metas_from_length)
  define f' where "f' = UpdateKeyNext_file icmp (p @ f1 # q) f1"
  have upd: "UpdateKeyNext icmp m1 (Some (filenum f)) = m\<lparr>files := p @ f' # q\<rparr>"
    using update_file_split [OF d1, of "UpdateKeyNext_file icmp (p @ f1 # q)"]
    by (simp add: UpdateKeyNext_def m1_def f'_def) (simp add: f1_def)
  have same: "filenum f' = filenum f" "sstable_index f' = sstable_index f"
    by (simp_all add: f'_def UpdateKeyNext_file_def f1_def split: option.splits)
  show thesis
  proof (cases q)
    case Nil
    then have "f' = f1" using entry_after_last [of p f1] d1 by (simp add: f'_def UpdateKeyNext_file_def)
    moreover have "map (\<lambda>k. k\<lparr>km_next := -1\<rparr>) (metas_from 0 kvs) = metas_from 0 kvs"
      using metas_from_next [of _ 0 kvs] by (intro map_idI) simp
    ultimately show thesis using upd same Nil by (intro that [of f']) (simp_all add: m1 f1_def)
  next
    case (Cons g q')
    then have f': "f' = f1\<lparr>keys_meta := key_next_loop icmp (keys_meta f1) (keys_meta g) 0 0,
        key_point_filenum := filenum g\<rparr>"
      using entry_after_split [of p f1 g q'] d1 ne by (simp add: f'_def UpdateKeyNext_file_def keys_num_def)
    note loop = key_next_loop_linked [OF assms(1) sorted next_none, where old = "keys_meta g"]
    have "linked icmp f' g" unfolding linked_def f' using loop(3) by simp
    with Cons upd same loop(2) show thesis by (intro that [of f']) (simp_all add: m1 f' f1_def)
  qed
qed

lemma WithBuffer_Finish_layout:
  assumes b: "builder_ok b kvs" and m2: "UpdateKeyNext icmp
      (m\<lparr>files := update_file n (set_keys_meta (metas_from 0 kvs)) (files m)\<rparr>) (Some n) = m2"
    and "find_forward (files m2) n = Some f"
    and "length (records kvs) + length (metadatas_of (keys_meta f)) \<le> lw_max_size b"
  obtains b' where "WithBuffer_Finish icmp m n b = (OK, m2, b')"
    and "lw_offset b' = length (records kvs)" and "lw_keys_meta_size b' = length (metadatas_of (keys_meta f))"
    and "lw_raw b' = records kvs @ metadatas_of (keys_meta f) @
      drop (length (records kvs) + length (metadatas_of (keys_meta f))) (lw_raw b)"
proof -
  let ?md = "metadatas_of (keys_meta f)"
  have len: "lw_offset b + length ?md \<le> length (lw_buf b)" using assms(4) b by (simp add: builder_ok_def)
  have buf: "take (lw_offset b + length ?md) (write_at (lw_buf b) (lw_offset b) ?md) = records kvs @ ?md"
    using take_write_at [OF len] b by (auto simp: builder_ok_def)
  have kb: "lw_keys b = metas_from 0 kvs" "lw_offset b = length (records kvs)"
    using b by (simp_all add: builder_ok_def)
  let ?b = "b\<lparr>lw_buf := write_at (lw_buf b) (lw_offset b) ?md, lw_keys_meta_size := length ?md,
      lw_raw := write_at (lw_raw b) 0 (records kvs @ ?md)\<rparr>"
  have "WithBuffer_Finish icmp m n b = (OK, m2, ?b)"
    using assms(4) buf unfolding WithBuffer_Finish_def Let_def kb m2 assms(3) by simp
  then show thesis by (rule that) (simp_all add: kb write_at_def)
qed

lemma metadatas_of_length:
  "length (metadatas_of ks) = sum_list (map (\<lambda>k. length (km_key k) + 28) ks)"
  by (induction ks) (simp_all add: metadatas_of_concat key_meta_bytes_def)

definition table_size :: "(slice \<times> slice) list \<Rightarrow> nat" where
  "table_size kvs = length (records kvs) + sum_list (map (\<lambda>(k, v). length k + 28) kvs)"

lemma metadatas_of_table:
  assumes "map (\<lambda>k. k\<lparr>km_next := -1\<rparr>) ks = metas_from 0 kvs"
  shows "length (records kvs) + length (metadatas_of ks) = table_size kvs"
proof -
  have "keys_of ks = map fst kvs"
    using arg_cong [OF assms, of keys_of] by (simp add: metas_from_keys comp_def)
  then have "map (\<lambda>x. length x + 28) (keys_of ks) = map (\<lambda>x. length x + 28) (map fst kvs)" by simp
  then show ?thesis
    by (simp add: table_size_def metadatas_of_length comp_def case_prod_unfold)
qed

lemma builder_init_ok:
  "length buf = n \<Longrightarrow> length raw = n \<Longrightarrow> builder_ok (L0TableBuilderWithBuffer_init n buf raw) []"
  by (simp add: builder_ok_def L0TableBuilderWithBuffer_init_def)

lemma find_forward_middle:
  "distinct (map filenum (p @ f # q)) \<Longrightarrow> find_forward (p @ f # q) (filenum f) = Some f"
  by (subst find_forward_distinct) auto

section \<open>Properties\<close>



text \<open>The direct and the buffered builder agree: from equal memory, any sequence of \<open>Add\<close> calls
  leaves the same bytes, the same key metadata and the same size in both.\<close>

theorem builders_agree:
  "let a = fold (\<lambda>(k, v). L0TableBuilder_Add esize k v) kvs (L0TableBuilder_init mem);
       b = fold (\<lambda>(k, v). WithBuffer_Add k v) kvs (L0TableBuilderWithBuffer_init esize mem raw)
   in lb_raw a = lw_buf b \<and> lb_keys a = lw_keys b \<and> lb_offset a = lw_offset b"
  using Adds_same_table [of "L0TableBuilder_init mem" "L0TableBuilderWithBuffer_init esize mem raw" kvs]
  by (simp add: same_table_def L0TableBuilder_init_def L0TableBuilderWithBuffer_init_def Let_def)

text \<open>A pair that does not fit any more is dropped without a trace. \<open>Add\<close> leaves the builder as it
  was, and \<open>Finish\<close> reports success for the table without the pair exactly as if it had never been
  added.\<close>

theorem Add_drops_silently:
  "lw_offset b + length key + length v + 16 > lw_max_size b \<Longrightarrow>
     WithBuffer_Add key v b = b
     \<and> WithBuffer_Finish icmp m n (WithBuffer_Add key v b) = WithBuffer_Finish icmp m n b"
  using WithBuffer_Add_over [of b key v] by (simp add: add_ac)

theorem Add_drops_silently_witness:
  "WithBuffer_Add [1] [2, 3] (L0TableBuilderWithBuffer_init 10 (replicate 10 0) (replicate 10 0)) =
     L0TableBuilderWithBuffer_init 10 (replicate 10 0) (replicate 10 0)"
proof -
  let ?b = "L0TableBuilderWithBuffer_init 10 (replicate 10 0) (replicate 10 0)"
  have "lw_offset ?b + length [1 :: byte] + length [2, 3 :: byte] + 16 > lw_max_size ?b"
    by (simp add: L0TableBuilderWithBuffer_init_def)
  from Add_drops_silently [OF this] show ?thesis by blast
qed

end
