(* ===== verification/BitMap.thy ===== *)
theory BitMap
  imports Prelude
begin

text \<open>
  The bit map that tracks the used slots of the persistent memory pool
  (\<open>utilities/nvm_mod/bitmap.h\<close>, \<open>bitmap.cc\<close>).

  Accesses to the array \<open>bitmap\<close> are checked: outside \<open>[0, gsize)\<close> the model reports
  \<open>OutOfBounds\<close>. The guard of the source is \<open>cur > gsize\<close>, as written.
\<close>

section \<open>Definitions\<close>

record BitMap =
  bitmap :: "byte list"
  gsize :: int

definition BitMap_new :: "int \<Rightarrow> BitMap" where
  "BitMap_new n =
     (let g = drop_bit 3 n + 1 in \<lparr>bitmap = replicate (nat g) 0, gsize = g\<rparr>)"

definition BitMap_default :: BitMap where
  "BitMap_default =
     (let g = drop_bit 3 10000 + 1 in \<lparr>bitmap = replicate (nat g) 0, gsize = g\<rparr>)"

definition bitmap_load :: "BitMap \<Rightarrow> int \<Rightarrow> byte result" where
  "bitmap_load b cur =
     (if 0 \<le> cur \<and> nat cur < length (bitmap b) then Inr (bitmap b ! nat cur) else Inl OutOfBounds)"

definition bitmap_store :: "BitMap \<Rightarrow> int \<Rightarrow> byte \<Rightarrow> BitMap result" where
  "bitmap_store b cur v =
     (if 0 \<le> cur \<and> nat cur < length (bitmap b)
      then Inr (b\<lparr>bitmap := (bitmap b)[nat cur := v]\<rparr>) else Inl OutOfBounds)"

definition BitMap_get :: "BitMap \<Rightarrow> int \<Rightarrow> int result" where
  "BitMap_get b x =
     (let cur = drop_bit 3 x; remainder = x AND 7
      in if cur > gsize b then Inr (-1)
         else case bitmap_load b cur of
                Inl e \<Rightarrow> Inl e
              | Inr c \<Rightarrow> Inr (uint (drop_bit (nat remainder) c AND 1)))"

definition BitMap_set :: "BitMap \<Rightarrow> int \<Rightarrow> (BitMap \<times> int) result" where
  "BitMap_set b x =
     (let cur = drop_bit 3 x; remainder = x AND 7
      in if cur > gsize b then Inr (b, 0)
         else case bitmap_load b cur of
                Inl e \<Rightarrow> Inl e
              | Inr c \<Rightarrow>
                  (case bitmap_store b cur (c OR push_bit (nat remainder) 1) of
                     Inl e \<Rightarrow> Inl e | Inr b' \<Rightarrow> Inr (b', 1)))"

definition BitMap_clr :: "BitMap \<Rightarrow> int \<Rightarrow> (BitMap \<times> int) result" where
  "BitMap_clr b x =
     (let cur = drop_bit 3 x; remainder = x AND 7
      in if cur > gsize b then Inr (b, 0)
         else case bitmap_load b cur of
                Inl e \<Rightarrow> Inl e
              | Inr c \<Rightarrow>
                  (case bitmap_store b cur (c XOR push_bit (nat remainder) 1) of
                     Inl e \<Rightarrow> Inl e | Inr b' \<Rightarrow> Inr (b', 1)))"

definition BitMap_reset :: "BitMap \<Rightarrow> BitMap \<times> int" where
  "BitMap_reset b = (b\<lparr>bitmap := replicate (nat (gsize b)) 0\<rparr>, 1)"

section \<open>The set of bits\<close>

definition BitMap_ok :: "BitMap \<Rightarrow> bool" where
  "BitMap_ok b \<longleftrightarrow> gsize b = int (length (bitmap b))"

text \<open>The abstract value of a bit map: which of the bits it holds are set.\<close>

definition bit_of :: "BitMap \<Rightarrow> nat \<Rightarrow> bool" where
  "bit_of b x \<longleftrightarrow> x div 8 < length (bitmap b) \<and> bit (bitmap b ! (x div 8)) (x mod 8)"

lemma index_split:
  "drop_bit 3 (int x) = int (x div 8)" "nat (int x AND 7) = x mod 8"
proof -
  show "drop_bit 3 (int x) = int (x div 8)" by (simp add: drop_bit_eq_div zdiv_int)
  have "int x AND 7 = take_bit 3 (int x)" by (simp add: take_bit_eq_mask mask_eq_exp_minus_1)
  also have "\<dots> = int (x mod 8)" by (simp add: take_bit_eq_mod zmod_int)
  finally show "nat (int x AND 7) = x mod 8" by simp
qed

lemma byte_bit_and_1: "uint (drop_bit n c AND 1) = of_bool (bit (c :: byte) n)"
proof -
  have "drop_bit n c AND 1 = of_bool (bit c n)"
    by (rule bit_word_eqI) (auto simp: bit_simps)
  then show ?thesis by simp
qed

lemma BitMap_get_in_range:
  assumes "BitMap_ok b" and "x div 8 < length (bitmap b)"
  shows "BitMap_get b (int x) = Inr (of_bool (bit_of b x))"
  using assms
  by (simp add: BitMap_get_def Let_def index_split bitmap_load_def BitMap_ok_def byte_bit_and_1
      bit_of_def)

lemma nth_update_bit:
  assumes "x div 8 < length bs" and "\<And>n. n < 8 \<Longrightarrow> bit v n = (if n = x mod 8 then p else bit (bs ! (x div 8)) n)"
  shows "(y div 8 < length bs \<and> bit (bs[x div 8 := v] ! (y div 8)) (y mod 8)) =
    (if y = x then p else y div 8 < length bs \<and> bit (bs ! (y div 8 )) (y mod 8))"
proof (cases "y div 8 = x div 8")
  case True
  moreover have "y = x \<longleftrightarrow> y mod 8 = x mod 8" using True by (metis div_mult_mod_eq)
  ultimately show ?thesis using assms by auto
next
  case False
  then show ?thesis by auto
qed

lemma BitMap_set_in_range:
  assumes "BitMap_ok b" and "x div 8 < length (bitmap b)"
  obtains b' where "BitMap_set b (int x) = Inr (b', 1)" and "BitMap_ok b'"
    and "length (bitmap b') = length (bitmap b)" and "bit_of b' = (bit_of b)(x := True)"
proof -
  let ?v = "bitmap b ! (x div 8) OR push_bit (x mod 8) 1"
  let ?b = "b\<lparr>bitmap := (bitmap b)[x div 8 := ?v]\<rparr>"
  have "bit ?v n = (if n = x mod 8 then True else bit (bitmap b ! (x div 8)) n)" if "n < 8" for n
    using that by (auto simp: bit_simps)
  from nth_update_bit [OF assms(2) this] have "bit_of ?b = (bit_of b)(x := True)"
    by (auto simp: bit_of_def fun_eq_iff)
  with assms show thesis
    by (intro that [of ?b])
      (simp_all add: BitMap_set_def Let_def index_split bitmap_load_def bitmap_store_def BitMap_ok_def)
qed

lemma BitMap_clr_in_range:
  assumes "BitMap_ok b" and "x div 8 < length (bitmap b)"
  obtains b' where "BitMap_clr b (int x) = Inr (b', 1)" and "BitMap_ok b'"
    and "length (bitmap b') = length (bitmap b)" and "bit_of b' = (bit_of b)(x := \<not> bit_of b x)"
proof -
  let ?v = "bitmap b ! (x div 8) XOR push_bit (x mod 8) 1"
  let ?b = "b\<lparr>bitmap := (bitmap b)[x div 8 := ?v]\<rparr>"
  have "bit ?v n = (if n = x mod 8 then \<not> bit_of b x else bit (bitmap b ! (x div 8)) n)" if "n < 8" for n
    using that assms(2) by (auto simp: bit_simps bit_of_def)
  from nth_update_bit [OF assms(2) this] have "bit_of ?b = (bit_of b)(x := \<not> bit_of b x)"
    by (auto simp: bit_of_def fun_eq_iff)
  with assms show thesis
    by (intro that [of ?b])
      (simp_all add: BitMap_clr_def Let_def index_split bitmap_load_def bitmap_store_def BitMap_ok_def)
qed

lemma BitMap_new_ok:
  "BitMap_ok (BitMap_new (int n))" "length (bitmap (BitMap_new (int n))) = n div 8 + 1"
  "\<not> bit_of (BitMap_new (int n)) x"
  by (simp_all add: BitMap_ok_def BitMap_new_def Let_def index_split bit_of_def nat_add_distrib
      nth_Cons split: nat.splits)

lemma BitMap_reset_ok:
  "BitMap_ok b \<Longrightarrow> BitMap_ok (fst (BitMap_reset b)) \<and>
     length (bitmap (fst (BitMap_reset b))) = length (bitmap b) \<and> \<not> bit_of (fst (BitMap_reset b)) x"
  by (auto simp: BitMap_ok_def BitMap_reset_def bit_of_def)

section \<open>Properties\<close>

text \<open>Within the bits it holds, a bit map behaves as a set of indices. \<open>get\<close> reads membership,
  \<open>set\<close> adds the index and touches no other, \<open>clr\<close> of a set bit removes it and touches no other,
  and none of them leaves the array.\<close>

theorem BitMap_refines_set:
  "BitMap_ok b \<and> x div 8 < length (bitmap b) \<Longrightarrow>
     BitMap_get b (int x) = Inr (of_bool (bit_of b x))
     \<and> (\<exists>b'. BitMap_set b (int x) = Inr (b', 1) \<and> BitMap_ok b' \<and> bit_of b' = (bit_of b)(x := True))
     \<and> (\<exists>b'. BitMap_clr b (int x) = Inr (b', 1) \<and> BitMap_ok b'
          \<and> bit_of b' = (bit_of b)(x := \<not> bit_of b x))"
proof -
  assume "BitMap_ok b \<and> x div 8 < length (bitmap b)"
  then have b: "BitMap_ok b" "x div 8 < length (bitmap b)" by simp_all
  obtain s where "BitMap_set b (int x) = Inr (s, 1)" "BitMap_ok s" "bit_of s = (bit_of b)(x := True)"
    using b by (rule BitMap_set_in_range)
  moreover obtain c where "BitMap_clr b (int x) = Inr (c, 1)" "BitMap_ok c"
    "bit_of c = (bit_of b)(x := \<not> bit_of b x)"
    using b by (rule BitMap_clr_in_range)
  ultimately show ?thesis using BitMap_get_in_range [OF b] by simp
qed

theorem BitMap_refines_set_witness:
  "\<exists>b'. BitMap_set (BitMap_new 16) (int 9) = Inr (b', 1) \<and> bit_of b' 9 \<and> \<not> bit_of b' 8"
proof -
  have "BitMap_ok (BitMap_new (int 16)) \<and> 9 div 8 < length (bitmap (BitMap_new (int 16)))"
    by (simp only: BitMap_new_ok) simp
  from BitMap_refines_set [OF this] obtain b' where
    "BitMap_set (BitMap_new (int 16)) (int 9) = Inr (b', 1)"
    "bit_of b' = (bit_of (BitMap_new (int 16)))(9 := True)" by blast
  then show ?thesis using BitMap_new_ok(3) [of 16 8] by auto
qed

text \<open>The range guard of the bit map is off by one. For the eight indices just behind the array
  the guard \<open>cur > gsize\<close> lets the access through and it is out of bounds; only later ones are
  refused. \<open>clr\<close> is an exclusive or: clearing a clear bit sets it.\<close>

theorem BitMap_guard_off_by_one:
  "BitMap_ok b \<Longrightarrow>
     (\<forall>x. x div 8 = length (bitmap b) \<longrightarrow>
        BitMap_get b (int x) = Inl OutOfBounds \<and> BitMap_set b (int x) = Inl OutOfBounds
        \<and> BitMap_clr b (int x) = Inl OutOfBounds)
     \<and> (\<forall>x. x div 8 > length (bitmap b) \<longrightarrow>
          BitMap_get b (int x) = Inr (-1) \<and> BitMap_set b (int x) = Inr (b, 0)
          \<and> BitMap_clr b (int x) = Inr (b, 0))
     \<and> (\<forall>x. x div 8 < length (bitmap b) \<and> \<not> bit_of b x \<longrightarrow>
          (\<exists>b'. BitMap_clr b (int x) = Inr (b', 1) \<and> bit_of b' x))"
proof -
  assume ok: "BitMap_ok b"
  have "\<exists>b'. BitMap_clr b (int x) = Inr (b', 1) \<and> bit_of b' x"
    if x: "x div 8 < length (bitmap b)" "\<not> bit_of b x" for x
  proof -
    obtain c where "BitMap_clr b (int x) = Inr (c, 1)" "bit_of c = (bit_of b)(x := \<not> bit_of b x)"
      using ok x(1) by (rule BitMap_clr_in_range)
    with x(2) show ?thesis by simp
  qed
  with ok show ?thesis
    by (auto simp: BitMap_ok_def BitMap_get_def BitMap_set_def BitMap_clr_def bitmap_load_def
        index_split Let_def)
qed

theorem BitMap_guard_off_by_one_witness:
  "BitMap_get (BitMap_new 16) (int 24) = Inl OutOfBounds"
proof -
  have "BitMap_ok (BitMap_new (int 16))" by (rule BitMap_new_ok)
  moreover have "24 div 8 = length (bitmap (BitMap_new (int 16)))"
    by (simp only: BitMap_new_ok)
  ultimately have "BitMap_get (BitMap_new (int 16)) (int 24) = Inl OutOfBounds"
    using BitMap_guard_off_by_one by blast
  then show ?thesis by simp
qed

end
