(* ===== verification/PersistentPool.thy ===== *)
theory PersistentPool
  imports BitMap
begin

text \<open>
  The pool of equally sized table slots in persistent memory
  (\<open>class PersistentSstable\<close>, \<open>utilities/nvm_mod/persistent_sstable.h\<close>) and the slot allocator
  interface its clients rely on.

  A pointer into the mapped file is its offset from \<open>raw_\<close>. The mapping itself (\<open>pmem_map_file\<close>,
  \<open>pmem_persist\<close>) is the pmem library's; its success is asserted by the constructor.
\<close>

section \<open>Definitions\<close>

record PersistentSstable =
  ps_bitmap :: BitMap
  each_size :: nat
  ps_num :: nat
  use_num :: u64

definition PersistentSstable_open :: "nat \<Rightarrow> nat \<Rightarrow> PersistentSstable" where
  "PersistentSstable_open esize number =
     \<lparr>ps_bitmap = BitMap_new (int number), each_size = esize, ps_num = number, use_num = 0\<rparr>"

text \<open>The loop of \<open>AllocSstable\<close> from slot \<open>i\<close> on.\<close>

function alloc_from ::
    "PersistentSstable \<Rightarrow> nat \<Rightarrow> ((nat \<times> nat) option \<times> PersistentSstable) result" where
  "alloc_from p i =
     (if i < ps_num p then
        case BitMap_get (ps_bitmap p) (int i) of
          Inl e \<Rightarrow> Inl e
        | Inr g \<Rightarrow>
            if g = 0 then
              (case BitMap_set (ps_bitmap p) (int i) of
                 Inl e \<Rightarrow> Inl e
               | Inr (b, _) \<Rightarrow>
                   Inr (Some (i, i * each_size p), p\<lparr>ps_bitmap := b, use_num := use_num p + 1\<rparr>))
            else alloc_from p (i + 1)
      else Inr (None, p))"
  by pat_completeness auto
termination
  by (relation "measure (\<lambda>(p, i). ps_num p - i)") auto

declare alloc_from.simps [simp del]

text \<open>The slot index and the offset of the slot, or \<open>None\<close> for the null pointer.\<close>

definition AllocSstable ::
    "PersistentSstable \<Rightarrow> ((nat \<times> nat) option \<times> PersistentSstable) result" where
  "AllocSstable p = alloc_from p 0"

definition GetIndexPtr :: "PersistentSstable \<Rightarrow> int \<Rightarrow> nat result" where
  "GetIndexPtr p index =
     (if index \<ge> 0 \<and> nat index < ps_num p then Inr (nat index * each_size p) else Inl AssertFailed)"

definition DeleteSstable :: "PersistentSstable \<Rightarrow> int \<Rightarrow> PersistentSstable result" where
  "DeleteSstable p index =
     (case BitMap_clr (ps_bitmap p) index of
        Inl e \<Rightarrow> Inl e
      | Inr (b, _) \<Rightarrow> Inr (p\<lparr>ps_bitmap := b, use_num := use_num p - 1\<rparr>))"

definition RecoverAddSstable :: "PersistentSstable \<Rightarrow> int \<Rightarrow> PersistentSstable result" where
  "RecoverAddSstable p index =
     (if index < 0 \<or> nat index \<ge> ps_num p then Inr p
      else
        case BitMap_get (ps_bitmap p) index of
          Inl e \<Rightarrow> Inl e
        | Inr g \<Rightarrow>
            if g \<noteq> 0 then Inr p
            else
              (case BitMap_set (ps_bitmap p) index of
                 Inl e \<Rightarrow> Inl e
               | Inr (b, _) \<Rightarrow> Inr (p\<lparr>ps_bitmap := b, use_num := use_num p + 1\<rparr>)))"

definition PersistentSstable_Reset :: "PersistentSstable \<Rightarrow> PersistentSstable" where
  "PersistentSstable_Reset p = p\<lparr>ps_bitmap := fst (BitMap_reset (ps_bitmap p)), use_num := 0\<rparr>"

section \<open>Used slots\<close>

definition used :: "PersistentSstable \<Rightarrow> nat set" where
  "used p = {i. i < ps_num p \<and> bit_of (ps_bitmap p) i}"

definition pool_ok :: "PersistentSstable \<Rightarrow> bool" where
  "pool_ok p \<longleftrightarrow>
     BitMap_ok (ps_bitmap p) \<and> length (bitmap (ps_bitmap p)) = ps_num p div 8 + 1
     \<and> use_num p = of_nat (card (used p))"

lemma used_finite [simp]: "finite (used p)"
  by (simp add: used_def)

lemma pool_open_ok: "pool_ok (PersistentSstable_open n m) \<and> used (PersistentSstable_open n m) = {}"
  by (simp add: pool_ok_def PersistentSstable_open_def used_def BitMap_new_ok)

lemma pool_in_range: "pool_ok p \<Longrightarrow> i \<le> ps_num p \<Longrightarrow> i div 8 < length (bitmap (ps_bitmap p))"
  by (simp add: pool_ok_def div_le_mono le_imp_less_Suc)

lemma pool_get:
  "pool_ok p \<Longrightarrow> i < ps_num p \<Longrightarrow> BitMap_get (ps_bitmap p) (int i) = Inr (of_bool (i \<in> used p))"
  using BitMap_get_in_range [of "ps_bitmap p" i] pool_in_range [of p i]
  by (simp add: pool_ok_def used_def)

lemma pool_set:
  assumes "pool_ok p" and "i < ps_num p" and "i \<notin> used p"
  obtains b where "BitMap_set (ps_bitmap p) (int i) = Inr (b, 1)"
    and "pool_ok (p\<lparr>ps_bitmap := b, use_num := use_num p + 1\<rparr>)"
    and "used (p\<lparr>ps_bitmap := b, use_num := use_num p + 1\<rparr>) = insert i (used p)"
proof -
  have "BitMap_ok (ps_bitmap p)" "i div 8 < length (bitmap (ps_bitmap p))"
    using assms pool_in_range by (auto simp: pool_ok_def)
  then obtain b where b: "BitMap_set (ps_bitmap p) (int i) = Inr (b, 1)" "BitMap_ok b"
    "length (bitmap b) = length (bitmap (ps_bitmap p))" "bit_of b = (bit_of (ps_bitmap p))(i := True)"
    by (rule BitMap_set_in_range)
  let ?p = "p\<lparr>ps_bitmap := b, use_num := use_num p + 1\<rparr>"
  have u: "used ?p = insert i (used p)" using assms(2) b(4) by (auto simp: used_def)
  then have "pool_ok ?p" using assms b by (simp add: pool_ok_def)
  from b(1) this u show thesis by (rule that)
qed

lemma pool_clr:
  assumes "pool_ok p" and "i \<in> used p"
  obtains p' where "DeleteSstable p (int i) = Inr p'" and "pool_ok p'" and "used p' = used p - {i}"
    and "ps_num p' = ps_num p" and "each_size p' = each_size p"
proof -
  have "BitMap_ok (ps_bitmap p)" "i div 8 < length (bitmap (ps_bitmap p))"
    using assms pool_in_range [of p i] by (auto simp: pool_ok_def used_def)
  then obtain b where b: "BitMap_clr (ps_bitmap p) (int i) = Inr (b, 1)" "BitMap_ok b"
    "length (bitmap b) = length (bitmap (ps_bitmap p))"
    "bit_of b = (bit_of (ps_bitmap p))(i := \<not> bit_of (ps_bitmap p) i)"
    by (rule BitMap_clr_in_range)
  let ?p = "p\<lparr>ps_bitmap := b, use_num := use_num p - 1\<rparr>"
  have u: "used ?p = used p - {i}" using assms(2) b(4) by (auto simp: used_def)
  have "0 < card (used p)" using assms(2) card_gt_0_iff used_finite by blast
  then have "use_num p - 1 = of_nat (card (used p - {i}))"
    using assms by (simp add: pool_ok_def card_Diff_singleton of_nat_diff)
  then have "pool_ok ?p" using assms(1) b u by (simp add: pool_ok_def)
  with b(1) u show thesis by (intro that [of ?p]) (simp_all add: DeleteSstable_def)
qed

lemma alloc_from_spec:
  assumes "pool_ok p" and "\<forall>j < i. j \<in> used p" and "i \<le> ps_num p"
  shows "(alloc_from p i = Inr (None, p) \<and> used p = {..<ps_num p})
    \<or> (\<exists>j p'. alloc_from p i = Inr (Some (j, j * each_size p), p') \<and> j < ps_num p \<and> j \<notin> used p
        \<and> (\<forall>k < j. k \<in> used p) \<and> pool_ok p' \<and> used p' = insert j (used p)
        \<and> ps_num p' = ps_num p \<and> each_size p' = each_size p)"
  using assms
proof (induction "ps_num p - i" arbitrary: i)
  case 0
  then show ?case by (auto simp: alloc_from.simps [of p i] used_def)
next
  case (Suc n)
  then have i: "i < ps_num p" by simp
  show ?case
  proof (cases "i \<in> used p")
    case True
    then have "alloc_from p i = alloc_from p (i + 1)"
      using i pool_get [OF assms(1) i] by (simp add: alloc_from.simps [of p i])
    moreover have "\<forall>j < i + 1. j \<in> used p" using Suc.prems(2) True by (simp add: less_Suc_eq)
    ultimately show ?thesis using Suc.hyps(1) [of "i + 1"] Suc.hyps(2) i assms(1) by simp
  next
    case False
    obtain b where b: "BitMap_set (ps_bitmap p) (int i) = Inr (b, 1)"
      "pool_ok (p\<lparr>ps_bitmap := b, use_num := use_num p + 1\<rparr>)"
      "used (p\<lparr>ps_bitmap := b, use_num := use_num p + 1\<rparr>) = insert i (used p)"
      using assms(1) i False by (rule pool_set)
    then show ?thesis
      using i False pool_get [OF assms(1) i] Suc.prems(2) by (auto simp: alloc_from.simps [of p i])
  qed
qed

lemma RecoverAddSstable_spec:
  assumes "pool_ok p"
  shows "\<exists>p'. RecoverAddSstable p (int i) = Inr p' \<and> pool_ok p' \<and> ps_num p' = ps_num p
    \<and> each_size p' = each_size p \<and> used p' = (if i < ps_num p then insert i (used p) else used p)"
proof (cases "i < ps_num p \<and> i \<notin> used p")
  case True
  then obtain b where "BitMap_set (ps_bitmap p) (int i) = Inr (b, 1)"
    "pool_ok (p\<lparr>ps_bitmap := b, use_num := use_num p + 1\<rparr>)"
    "used (p\<lparr>ps_bitmap := b, use_num := use_num p + 1\<rparr>) = insert i (used p)"
    using assms pool_set by metis
  with True show ?thesis using pool_get [OF assms] by (simp add: RecoverAddSstable_def)
next
  case False
  then have "RecoverAddSstable p (int i) = Inr p"
    using pool_get [OF assms, of i] by (auto simp: RecoverAddSstable_def)
  with False assms show ?thesis by (auto simp: insert_absorb)
qed

lemma PersistentSstable_Reset_ok:
  "pool_ok p \<Longrightarrow> pool_ok (PersistentSstable_Reset p) \<and> used (PersistentSstable_Reset p) = {}"
  using BitMap_reset_ok [of "ps_bitmap p"]
  by (auto simp: pool_ok_def PersistentSstable_Reset_def used_def)

section \<open>The allocator interface\<close>

text \<open>
  What the matrix container relies on: an allocation returns a free slot or reports a full pool,
  freeing gives back exactly the slot freed. A client that records the slots of its tables in
  a list keeps an exact record.
\<close>

locale slot_allocator =
  fixes alloc :: "'s \<Rightarrow> ((nat \<times> nat) option \<times> 's) result"
    and free :: "'s \<Rightarrow> int \<Rightarrow> 's result"
    and ok :: "'s \<Rightarrow> bool" and slots :: "'s \<Rightarrow> nat set" and cap :: "'s \<Rightarrow> nat"
  assumes alloc_cases: "ok s \<Longrightarrow>
      alloc s = Inr (None, s) \<and> slots s = {..<cap s}
      \<or> (\<exists>j off s'. alloc s = Inr (Some (j, off), s') \<and> j < cap s \<and> j \<notin> slots s \<and> ok s'
           \<and> slots s' = insert j (slots s) \<and> cap s' = cap s)"
    and free_slot: "ok s \<Longrightarrow> j \<in> slots s \<Longrightarrow>
      \<exists>s'. free s (int j) = Inr s' \<and> ok s' \<and> slots s' = slots s - {j} \<and> cap s' = cap s"
begin

lemma alloc_recorded:
  assumes "ok s" and "distinct js" and "set js = slots s" and "alloc s = Inr (Some (j, off), s')"
  shows "ok s' \<and> distinct (j # js) \<and> set (j # js) = slots s' \<and> j < cap s \<and> cap s' = cap s"
  using alloc_cases [OF assms(1)] assms by auto

lemma alloc_total: "ok s \<Longrightarrow> \<exists>r s'. alloc s = Inr (r, s') \<and> (r = None \<longleftrightarrow> slots s = {..<cap s})"
  using alloc_cases [of s] by auto

lemma free_recorded:
  assumes "ok s" and "distinct js" and "set js = slots s" and "j \<in> set js"
  shows "\<exists>s'. free s (int j) = Inr s' \<and> ok s' \<and> distinct (remove1 j js)
    \<and> set (remove1 j js) = slots s' \<and> cap s' = cap s"
  using free_slot [of s j] assms by auto

end

interpretation pool: slot_allocator AllocSstable DeleteSstable pool_ok used ps_num
proof
  fix p
  assume "pool_ok p"
  then show "AllocSstable p = Inr (None, p) \<and> used p = {..<ps_num p}
      \<or> (\<exists>j off p'. AllocSstable p = Inr (Some (j, off), p') \<and> j < ps_num p \<and> j \<notin> used p
          \<and> pool_ok p' \<and> used p' = insert j (used p) \<and> ps_num p' = ps_num p)"
    using alloc_from_spec [of p 0] unfolding AllocSstable_def by auto
next
  fix p j
  assume "pool_ok p" "j \<in> used p"
  then obtain p' where "DeleteSstable p (int j) = Inr p'" "pool_ok p'" "used p' = used p - {j}"
    "ps_num p' = ps_num p"
    by (rule pool_clr)
  then show "\<exists>p'. DeleteSstable p (int j) = Inr p' \<and> pool_ok p' \<and> used p' = used p - {j}
      \<and> ps_num p' = ps_num p"
    by blast
qed

section \<open>Properties\<close>

text \<open>C21: \<open>AllocSstable\<close> reports failure exactly when every slot is used; otherwise it returns the
  lowest free slot, marks it and only it, and the memory of the slot lies within the mapped file and
  overlaps the memory of no slot in use.\<close>

theorem AllocSstable_correct:
  "pool_ok p \<Longrightarrow>
     (AllocSstable p = Inr (None, p) \<and> used p = {..<ps_num p})
     \<or> (\<exists>j p'. AllocSstable p = Inr (Some (j, j * each_size p), p')
          \<and> pool_ok p' \<and> used p' = insert j (used p) \<and> j \<notin> used p \<and> {..<j} \<subseteq> used p
          \<and> j * each_size p + each_size p \<le> ps_num p * each_size p
          \<and> (\<forall>k \<in> used p. {j * each_size p..<j * each_size p + each_size p}
                \<inter> {k * each_size p..<k * each_size p + each_size p} = {}))"
proof -
  assume ok: "pool_ok p"
  have disj: "{j * n..<j * n + n} \<inter> {k * n..<k * n + n} = {}" if "j \<noteq> k" for j k n :: nat
  proof -
    have "x div n = i" if "x \<in> {i * n..<i * n + n}" for x i
      using that by (intro div_nat_eqI) (auto simp: mult.commute)
    with that show ?thesis by blast
  qed
  have fits: "j * n + n \<le> m * n" if "j < m" for j m n :: nat
    using mult_le_mono1 [of "Suc j" m n] that by simp
  consider "AllocSstable p = Inr (None, p)" "used p = {..<ps_num p}"
    | j p' where "AllocSstable p = Inr (Some (j, j * each_size p), p')" "j < ps_num p" "j \<notin> used p"
      "\<forall>k < j. k \<in> used p" "pool_ok p'" "used p' = insert j (used p)"
    using alloc_from_spec [OF ok, of 0] unfolding AllocSstable_def by auto
  then show ?thesis
  proof cases
    case (2 j p')
    have "\<forall>k \<in> used p. {j * each_size p..<j * each_size p + each_size p}
        \<inter> {k * each_size p..<k * each_size p + each_size p} = {}"
      using 2(3) disj by metis
    moreover have "{..<j} \<subseteq> used p" using 2(4) by auto
    ultimately show ?thesis using 2 fits [of j "ps_num p" "each_size p"] by blast
  qed simp
qed

theorem AllocSstable_correct_witness:
  "\<exists>p'. AllocSstable (PersistentSstable_open 64 3) = Inr (Some (0, 0), p') \<and> used p' = {0}"
proof -
  have ok: "pool_ok (PersistentSstable_open 64 3)" and u: "used (PersistentSstable_open 64 3) = {}"
    using pool_open_ok by blast+
  have "0 \<in> {..<ps_num (PersistentSstable_open 64 3)}" by (simp add: PersistentSstable_open_def)
  with AllocSstable_correct [OF ok] u show ?thesis by auto
qed

text \<open>Freeing a used slot gives back that slot only and recovery re-marks the slots of the
  recovered tables, with the use count exact throughout; freeing a slot that is not in use would
  instead mark it used and take the counter below the number of used slots.\<close>

theorem DeleteSstable_correct:
  "pool_ok p \<Longrightarrow>
     (\<forall>i. i \<in> used p \<longrightarrow> (\<exists>p'. DeleteSstable p (int i) = Inr p' \<and> pool_ok p' \<and> used p' = used p - {i}))
     \<and> (\<forall>i. \<exists>p'. RecoverAddSstable p (int i) = Inr p' \<and> pool_ok p'
          \<and> used p' = (if i < ps_num p then insert i (used p) else used p))
     \<and> (\<forall>i. i < ps_num p \<and> i \<notin> used p \<longrightarrow>
          (\<exists>p'. DeleteSstable p (int i) = Inr p' \<and> used p' = insert i (used p)
             \<and> use_num p' = of_nat (card (used p)) - 1))"
proof -
  assume ok: "pool_ok p"
  have "\<exists>p'. DeleteSstable p (int i) = Inr p' \<and> used p' = insert i (used p)
      \<and> use_num p' = of_nat (card (used p)) - 1" if i: "i < ps_num p" "i \<notin> used p" for i
  proof -
    have "BitMap_ok (ps_bitmap p)" "i div 8 < length (bitmap (ps_bitmap p))"
      using ok i pool_in_range [of p i] by (auto simp: pool_ok_def)
    then obtain b where b: "BitMap_clr (ps_bitmap p) (int i) = Inr (b, 1)"
      "bit_of b = (bit_of (ps_bitmap p))(i := \<not> bit_of (ps_bitmap p) i)"
      by (rule BitMap_clr_in_range)
    with i ok show ?thesis by (auto simp: DeleteSstable_def used_def pool_ok_def)
  qed
  with ok show ?thesis
    using pool.free_slot RecoverAddSstable_spec by meson
qed

theorem DeleteSstable_correct_witness:
  "\<exists>p'. DeleteSstable (PersistentSstable_open 64 3) (int 1) = Inr p' \<and> used p' = {1}
     \<and> use_num p' = 0xFFFFFFFFFFFFFFFF"
proof -
  have ok: "pool_ok (PersistentSstable_open 64 3)" and u: "used (PersistentSstable_open 64 3) = {}"
    using pool_open_ok by blast+
  have "1 < ps_num (PersistentSstable_open 64 3)" by (simp add: PersistentSstable_open_def)
  with DeleteSstable_correct [OF ok] u obtain p' where
    "DeleteSstable (PersistentSstable_open 64 3) (int 1) = Inr p'" "used p' = {1}"
    "use_num p' = of_nat (card ({} :: nat set)) - 1" by auto
  then show ?thesis by simp
qed

end
