(* ===== verification/VersionEdits.thy ===== *)
theory VersionEdits
  imports DBFormat "HOL-Library.Product_Lexorder" "HOL-Library.Monad_Syntax"
begin

text \<open>
  File metadata and version edits (\<open>db/version_edit.h\<close>, \<open>db/version_edit.cc\<close>): the records the
  manifest logs, with the format of the level-0 files in non-volatile memory (\<open>kNewFile5\<close>), their
  encoder and decoder.

  The fields of \<open>FileMetaData\<close> that only live in memory (table reader handles, sampled statistics,
  reference counts) are left out. On an error the decoder's callers drop the edit, so the model
  returns the message only; likewise an encoder that returns false gives no record.
\<close>

section \<open>File metadata\<close>

definition kFileNumberMask :: u64 where
  "kFileNumberMask = 0x3FFFFFFFFFFFFFFF"

definition PackFileNumberAndPathId :: "u64 \<Rightarrow> u64 \<Rightarrow> u64" where
  "PackFileNumberAndPathId number path_id = number OR (path_id * (kFileNumberMask + 1))"

record FileDescriptor =
  packed_number_and_path_id :: u64
  fd_file_size :: u64
  fd_smallest_seqno :: u64
  fd_largest_seqno :: u64

definition FileDescriptor_new :: "u64 \<Rightarrow> u32 \<Rightarrow> u64 \<Rightarrow> u64 \<Rightarrow> u64 \<Rightarrow> FileDescriptor" where
  "FileDescriptor_new number path_id fsize smallest_seqno largest_seqno =
     \<lparr>packed_number_and_path_id = PackFileNumberAndPathId number (ucast path_id),
      fd_file_size = fsize, fd_smallest_seqno = smallest_seqno, fd_largest_seqno = largest_seqno\<rparr>"

definition GetNumber :: "FileDescriptor \<Rightarrow> u64" where
  "GetNumber fd = packed_number_and_path_id fd AND kFileNumberMask"

definition GetPathId :: "FileDescriptor \<Rightarrow> u32" where
  "GetPathId fd = ucast (packed_number_and_path_id fd div (kFileNumberMask + 1))"

record FileMetaData =
  fm_fd :: FileDescriptor
  fm_smallest :: slice
  fm_largest :: slice
  fm_is_nvm_level0 :: bool
  fm_first_key_index :: u64
  fm_nvm_sstable_index :: int
  fm_keys_num :: u64
  fm_key_point_filenum :: u64
  fm_raw_file_size :: u64
  fm_nvm_meta_size :: u64
  fm_marked_for_compaction :: bool

definition FileMetaData_init :: FileMetaData where
  "FileMetaData_init =
     \<lparr>fm_fd = FileDescriptor_new 0 0 0 kMaxSequenceNumber 0, fm_smallest = [], fm_largest = [],
      fm_is_nvm_level0 = False, fm_first_key_index = 0, fm_nvm_sstable_index = -1, fm_keys_num = 0,
      fm_key_point_filenum = 0, fm_raw_file_size = 0, fm_nvm_meta_size = 0,
      fm_marked_for_compaction = False\<rparr>"

definition UpdateBoundaries :: "slice \<Rightarrow> u64 \<Rightarrow> FileMetaData \<Rightarrow> FileMetaData" where
  "UpdateBoundaries key seqno f =
     f\<lparr>fm_smallest := (if length (fm_smallest f) = 0 then key else fm_smallest f),
       fm_largest := key,
       fm_fd := (fm_fd f)\<lparr>fd_smallest_seqno := min (fd_smallest_seqno (fm_fd f)) seqno,
                          fd_largest_seqno := max (fd_largest_seqno (fm_fd f)) seqno\<rparr>\<rparr>"

definition UpdateBoundariesForRange ::
    "(slice \<Rightarrow> slice \<Rightarrow> int) \<Rightarrow> slice \<Rightarrow> slice \<Rightarrow> u64 \<Rightarrow> FileMetaData \<Rightarrow> FileMetaData" where
  "UpdateBoundariesForRange icmp start end_key seqno f =
     f\<lparr>fm_smallest :=
         (if length (fm_smallest f) = 0 \<or> icmp start (fm_smallest f) < 0 then start else fm_smallest f),
       fm_largest :=
         (if length (fm_largest f) = 0 \<or> icmp (fm_largest f) end_key < 0 then end_key else fm_largest f),
       fm_fd := (fm_fd f)\<lparr>fd_smallest_seqno := min (fd_smallest_seqno (fm_fd f)) seqno,
                          fd_largest_seqno := max (fd_largest_seqno (fm_fd f)) seqno\<rparr>\<rparr>"

section \<open>Version edits\<close>

abbreviation kComparator :: u32 where "kComparator \<equiv> 1"
abbreviation kLogNumber :: u32 where "kLogNumber \<equiv> 2"
abbreviation kNextFileNumber :: u32 where "kNextFileNumber \<equiv> 3"
abbreviation kLastSequence :: u32 where "kLastSequence \<equiv> 4"
abbreviation kCompactPointer :: u32 where "kCompactPointer \<equiv> 5"
abbreviation kDeletedFile :: u32 where "kDeletedFile \<equiv> 6"
abbreviation kNewFile :: u32 where "kNewFile \<equiv> 7"
abbreviation kPrevLogNumber :: u32 where "kPrevLogNumber \<equiv> 9"
abbreviation kMinLogNumberToKeep :: u32 where "kMinLogNumberToKeep \<equiv> 10"
abbreviation kNewFile2 :: u32 where "kNewFile2 \<equiv> 100"
abbreviation kNewFile3 :: u32 where "kNewFile3 \<equiv> 102"
abbreviation kNewFile4 :: u32 where "kNewFile4 \<equiv> 103"
abbreviation kNewFile5 :: u32 where "kNewFile5 \<equiv> 104"
abbreviation kColumnFamily :: u32 where "kColumnFamily \<equiv> 200"
abbreviation kColumnFamilyAdd :: u32 where "kColumnFamilyAdd \<equiv> 201"
abbreviation kColumnFamilyDrop :: u32 where "kColumnFamilyDrop \<equiv> 202"
abbreviation kMaxColumnFamily :: u32 where "kMaxColumnFamily \<equiv> 203"
abbreviation kInAtomicGroup :: u32 where "kInAtomicGroup \<equiv> 300"

abbreviation kTerminate :: u32 where "kTerminate \<equiv> 1"
abbreviation kNeedCompaction :: u32 where "kNeedCompaction \<equiv> 2"
abbreviation kMinLogNumberToKeepHack :: u32 where "kMinLogNumberToKeepHack \<equiv> 3"
abbreviation kPathId :: u32 where "kPathId \<equiv> 65"

definition kCustomTagNonSafeIgnoreMask :: u32 where
  "kCustomTagNonSafeIgnoreMask = push_bit 6 1"

text \<open>\<open>deleted_files_\<close>, a \<open>std::set\<close> of pairs, is its elements in iteration order.\<close>

record VersionEdit =
  ve_max_level :: int
  ve_comparator :: slice
  ve_log_number :: u64
  ve_prev_log_number :: u64
  ve_next_file_number :: u64
  ve_max_column_family :: u32
  ve_min_log_number_to_keep :: u64
  ve_last_sequence :: u64
  ve_has_comparator :: bool
  ve_has_log_number :: bool
  ve_has_prev_log_number :: bool
  ve_has_next_file_number :: bool
  ve_has_last_sequence :: bool
  ve_has_max_column_family :: bool
  ve_has_min_log_number_to_keep :: bool
  ve_deleted_files :: "(int \<times> u64) list"
  ve_new_files :: "(int \<times> FileMetaData) list"
  ve_column_family :: u32
  ve_is_column_family_drop :: bool
  ve_is_column_family_add :: bool
  ve_column_family_name :: slice
  ve_is_in_atomic_group :: bool
  ve_remaining_entries :: u32

definition VersionEdit_Clear :: VersionEdit where
  "VersionEdit_Clear =
     \<lparr>ve_max_level = 0, ve_comparator = [], ve_log_number = 0, ve_prev_log_number = 0,
      ve_next_file_number = 0, ve_max_column_family = 0, ve_min_log_number_to_keep = 0,
      ve_last_sequence = 0, ve_has_comparator = False, ve_has_log_number = False,
      ve_has_prev_log_number = False, ve_has_next_file_number = False,
      ve_has_last_sequence = False, ve_has_max_column_family = False,
      ve_has_min_log_number_to_keep = False, ve_deleted_files = [], ve_new_files = [],
      ve_column_family = 0, ve_is_column_family_drop = False, ve_is_column_family_add = False,
      ve_column_family_name = [], ve_is_in_atomic_group = False, ve_remaining_entries = 0\<rparr>"

definition SetComparatorName :: "slice \<Rightarrow> VersionEdit \<Rightarrow> VersionEdit" where
  "SetComparatorName name e = e\<lparr>ve_has_comparator := True, ve_comparator := name\<rparr>"

definition SetLogNumber :: "u64 \<Rightarrow> VersionEdit \<Rightarrow> VersionEdit" where
  "SetLogNumber num e = e\<lparr>ve_has_log_number := True, ve_log_number := num\<rparr>"

definition SetPrevLogNumber :: "u64 \<Rightarrow> VersionEdit \<Rightarrow> VersionEdit" where
  "SetPrevLogNumber num e = e\<lparr>ve_has_prev_log_number := True, ve_prev_log_number := num\<rparr>"

definition SetNextFile :: "u64 \<Rightarrow> VersionEdit \<Rightarrow> VersionEdit" where
  "SetNextFile num e = e\<lparr>ve_has_next_file_number := True, ve_next_file_number := num\<rparr>"

definition SetLastSequence :: "u64 \<Rightarrow> VersionEdit \<Rightarrow> VersionEdit" where
  "SetLastSequence s e = e\<lparr>ve_has_last_sequence := True, ve_last_sequence := s\<rparr>"

definition SetMaxColumnFamily :: "u32 \<Rightarrow> VersionEdit \<Rightarrow> VersionEdit" where
  "SetMaxColumnFamily n e = e\<lparr>ve_has_max_column_family := True, ve_max_column_family := n\<rparr>"

definition SetMinLogNumberToKeep :: "u64 \<Rightarrow> VersionEdit \<Rightarrow> VersionEdit" where
  "SetMinLogNumberToKeep num e =
     e\<lparr>ve_has_min_log_number_to_keep := True, ve_min_log_number_to_keep := num\<rparr>"

text \<open>\<open>new_files_.emplace_back\<close>.\<close>

definition push_new_file :: "int \<Rightarrow> FileMetaData \<Rightarrow> VersionEdit \<Rightarrow> VersionEdit" where
  "push_new_file level f e = e\<lparr>ve_new_files := ve_new_files e @ [(level, f)]\<rparr>"

definition VersionEdit_AddFile :: "int \<Rightarrow> FileMetaData \<Rightarrow> VersionEdit \<Rightarrow> VersionEdit result" where
  "VersionEdit_AddFile level f e =
     (if fd_smallest_seqno (fm_fd f) > fd_largest_seqno (fm_fd f) then Inl AssertFailed
      else Inr (push_new_file level f e))"

definition VersionEdit_AddFile_fields ::
    "int \<Rightarrow> u64 \<Rightarrow> u32 \<Rightarrow> u64 \<Rightarrow> slice \<Rightarrow> slice \<Rightarrow> u64 \<Rightarrow> u64 \<Rightarrow> bool \<Rightarrow> bool \<Rightarrow> u64 \<Rightarrow> int \<Rightarrow> u64 \<Rightarrow>
     u64 \<Rightarrow> u64 \<Rightarrow> u64 \<Rightarrow> VersionEdit \<Rightarrow> VersionEdit result" where
  "VersionEdit_AddFile_fields level file file_path_id fsize smallest largest smallest_seqno
     largest_seqno marked nvm first_key nvm_index nkeys point raw_size meta_size e =
     (if smallest_seqno > largest_seqno then Inl AssertFailed
      else Inr (e\<lparr>ve_new_files := ve_new_files e @
        [(level,
          \<lparr>fm_fd = FileDescriptor_new file file_path_id fsize smallest_seqno largest_seqno,
           fm_smallest = smallest, fm_largest = largest, fm_is_nvm_level0 = nvm,
           fm_first_key_index = first_key, fm_nvm_sstable_index = nvm_index, fm_keys_num = nkeys,
           fm_key_point_filenum = point, fm_raw_file_size = raw_size, fm_nvm_meta_size = meta_size,
           fm_marked_for_compaction = marked\<rparr>)]\<rparr>))"

definition VersionEdit_DeleteFile :: "int \<Rightarrow> u64 \<Rightarrow> VersionEdit \<Rightarrow> VersionEdit" where
  "VersionEdit_DeleteFile level file e =
     e\<lparr>ve_deleted_files := insort_insert (level, file) (ve_deleted_files e)\<rparr>"

definition NumEntries :: "VersionEdit \<Rightarrow> nat" where
  "NumEntries e = length (ve_new_files e) + length (ve_deleted_files e)"

definition IsColumnFamilyManipulation :: "VersionEdit \<Rightarrow> bool" where
  "IsColumnFamilyManipulation e \<longleftrightarrow> ve_is_column_family_add e \<or> ve_is_column_family_drop e"

definition SetColumnFamily :: "u32 \<Rightarrow> VersionEdit \<Rightarrow> VersionEdit" where
  "SetColumnFamily n e = e\<lparr>ve_column_family := n\<rparr>"

definition AddColumnFamily :: "slice \<Rightarrow> VersionEdit \<Rightarrow> VersionEdit result" where
  "AddColumnFamily name e =
     (if ve_is_column_family_drop e \<or> ve_is_column_family_add e \<or> NumEntries e \<noteq> 0
      then Inl AssertFailed
      else Inr (e\<lparr>ve_is_column_family_add := True, ve_column_family_name := name\<rparr>))"

definition DropColumnFamily :: "VersionEdit \<Rightarrow> VersionEdit result" where
  "DropColumnFamily e =
     (if ve_is_column_family_drop e \<or> ve_is_column_family_add e \<or> NumEntries e \<noteq> 0
      then Inl AssertFailed
      else Inr (e\<lparr>ve_is_column_family_drop := True\<rparr>))"

definition MarkAtomicGroup :: "u32 \<Rightarrow> VersionEdit \<Rightarrow> VersionEdit" where
  "MarkAtomicGroup n e = e\<lparr>ve_is_in_atomic_group := True, ve_remaining_entries := n\<rparr>"

section \<open>Encoding\<close>

text \<open>The customized fields of a new file; \<open>written\<close> is \<open>min_log_num_written\<close>.\<close>

definition encode_custom_fields :: "VersionEdit \<Rightarrow> bool \<Rightarrow> FileMetaData \<Rightarrow> slice \<Rightarrow> slice \<times> bool" where
  "encode_custom_fields e written f dst =
     (let d1 = (if GetPathId (fm_fd f) \<noteq> 0 \<and> \<not> fm_is_nvm_level0 f
                then PutLengthPrefixedSlice (PutVarint32 dst kPathId) [ucast (GetPathId (fm_fd f))]
                else dst);
          d2 = (if fm_marked_for_compaction f
                then PutLengthPrefixedSlice (PutVarint32 d1 kNeedCompaction) [1] else d1);
          (d3, written') =
            (if ve_has_min_log_number_to_keep e \<and> \<not> written
             then (PutLengthPrefixedSlice (PutVarint32 d2 kMinLogNumberToKeepHack)
                     (PutFixed64 [] (ve_min_log_number_to_keep e)), True)
             else (d2, written))
      in (PutVarint32 d3 kTerminate, written'))"

definition encode_new_file ::
    "VersionEdit \<Rightarrow> bool \<Rightarrow> int \<times> FileMetaData \<Rightarrow> slice \<Rightarrow> (slice \<times> bool) option" where
  "encode_new_file e written lf dst =
     (let (level, f) = lf
      in if \<not> InternalKey_Valid (fm_smallest f) \<or> \<not> InternalKey_Valid (fm_largest f) then None
         else
           let customized = fm_marked_for_compaction f \<or> ve_has_min_log_number_to_keep e;
               d1 = (if fm_is_nvm_level0 f then
                       PutVarint32
                         (PutVarint32
                            (PutVarint64
                               (PutVarint64
                                  (PutVarint64Varint64
                                     (PutVarint32
                                        (PutVarint64 (PutVarint32 dst kNewFile5) (fm_first_key_index f))
                                        (word_of_int (fm_nvm_sstable_index f)))
                                     (fm_keys_num f) (fm_key_point_filenum f))
                                  (fm_raw_file_size f))
                               (fm_nvm_meta_size f))
                            (GetPathId (fm_fd f)))
                         (of_bool customized)
                     else if customized then PutVarint32 dst kNewFile4
                     else if GetPathId (fm_fd f) = 0 then PutVarint32 dst kNewFile2
                     else PutVarint32 dst kNewFile3);
               d2 = PutVarint32Varint64 d1 (word_of_int level) (GetNumber (fm_fd f));
               d3 = (if GetPathId (fm_fd f) \<noteq> 0 \<and> \<not> customized \<and> \<not> fm_is_nvm_level0 f
                     then PutVarint32 d2 (GetPathId (fm_fd f)) else d2);
               d4 = PutVarint64Varint64
                      (PutLengthPrefixedSlice
                         (PutLengthPrefixedSlice (PutVarint64 d3 (fd_file_size (fm_fd f))) (fm_smallest f))
                         (fm_largest f))
                      (fd_smallest_seqno (fm_fd f)) (fd_largest_seqno (fm_fd f))
           in if customized then Some (encode_custom_fields e written f d4) else Some (d4, written))"

fun encode_new_files ::
    "VersionEdit \<Rightarrow> bool \<Rightarrow> (int \<times> FileMetaData) list \<Rightarrow> slice \<Rightarrow> slice option" where
  "encode_new_files e written [] dst = Some dst"
| "encode_new_files e written (lf # lfs) dst =
     (case encode_new_file e written lf dst of
        None \<Rightarrow> None
      | Some (dst', written') \<Rightarrow> encode_new_files e written' lfs dst')"

text \<open>The parts of \<open>EncodeTo\<close> before and after the loop over the new files.\<close>

definition encode_head :: "VersionEdit \<Rightarrow> slice \<Rightarrow> slice" where
  "encode_head e dst =
     (let d1 = (if ve_has_comparator e
                then PutLengthPrefixedSlice (PutVarint32 dst kComparator) (ve_comparator e) else dst);
          d2 = (if ve_has_log_number e
                then PutVarint32Varint64 d1 kLogNumber (ve_log_number e) else d1);
          d3 = (if ve_has_prev_log_number e
                then PutVarint32Varint64 d2 kPrevLogNumber (ve_prev_log_number e) else d2);
          d4 = (if ve_has_next_file_number e
                then PutVarint32Varint64 d3 kNextFileNumber (ve_next_file_number e) else d3);
          d5 = (if ve_has_last_sequence e
                then PutVarint32Varint64 d4 kLastSequence (ve_last_sequence e) else d4);
          d6 = (if ve_has_max_column_family e
                then PutVarint32Varint32 d5 kMaxColumnFamily (ve_max_column_family e) else d5)
      in fold (\<lambda>(level, file) d. PutVarint32Varint32Varint64 d kDeletedFile (word_of_int level) file)
           (ve_deleted_files e) d6)"

definition encode_tail :: "VersionEdit \<Rightarrow> slice \<Rightarrow> slice" where
  "encode_tail e dst =
     (let d1 = (if ve_column_family e \<noteq> 0
                then PutVarint32Varint32 dst kColumnFamily (ve_column_family e) else dst);
          d2 = (if ve_is_column_family_add e
                then PutLengthPrefixedSlice (PutVarint32 d1 kColumnFamilyAdd) (ve_column_family_name e)
                else d1);
          d3 = (if ve_is_column_family_drop e then PutVarint32 d2 kColumnFamilyDrop else d2)
      in if ve_is_in_atomic_group e
         then PutVarint32 (PutVarint32 d3 kInAtomicGroup) (ve_remaining_entries e) else d3)"

definition VersionEdit_EncodeTo :: "VersionEdit \<Rightarrow> slice \<Rightarrow> slice option" where
  "VersionEdit_EncodeTo e dst =
     (case encode_new_files e False (ve_new_files e) (encode_head e dst) of
        None \<Rightarrow> None
      | Some d \<Rightarrow> Some (encode_tail e d))"

section \<open>Decoding\<close>

text \<open>
  A decoding step takes the rest of the input and gives either the message of the error or a
  value with the remaining input. \<open>need\<close> turns a failed read into a message.
\<close>

type_synonym 'a decoder = "slice \<Rightarrow> string + ('a \<times> slice)"

definition need :: "string \<Rightarrow> ('a \<times> slice) option \<Rightarrow> string + ('a \<times> slice)" where
  "need msg r = (case r of None \<Rightarrow> Inl msg | Some x \<Rightarrow> Inr x)"

definition GetInternalKey :: "slice \<Rightarrow> (slice \<times> slice) option" where
  "GetInternalKey input =
     (case GetLengthPrefixedSlice input of
        None \<Rightarrow> None
      | Some (str, rest) \<Rightarrow> if InternalKey_Valid str then Some (str, rest) else None)"

text \<open>The level, as an \<open>int\<close>; the caller also updates \<open>max_level_\<close>.\<close>

definition GetLevel :: "slice \<Rightarrow> (int \<times> slice) option" where
  "GetLevel input =
     (case GetVarint32 input of None \<Rightarrow> None | Some (v, rest) \<Rightarrow> Some (sint v, rest))"

definition note_level :: "int \<Rightarrow> VersionEdit \<Rightarrow> VersionEdit" where
  "note_level level e = (if ve_max_level e < level then e\<lparr>ve_max_level := level\<rparr> else e)"

text \<open>
  The loop over customized fields, of \<open>kNewFile4\<close> and, with \<open>nvm\<close>, of \<open>kNewFile5\<close> records. Its state
  is the path id, \<open>marked_for_compaction\<close> and the edit.
\<close>

function decode_custom_fields ::
    "bool \<Rightarrow> slice \<Rightarrow> u32 \<Rightarrow> bool \<Rightarrow> VersionEdit \<Rightarrow> string + ((u32 \<times> bool \<times> VersionEdit) \<times> slice)" where
  "decode_custom_fields nvm input path_id marked e =
     (case GetVarint32 input of
        None \<Rightarrow> Inl ''new-file4 custom field''
      | Some (custom_tag, input1) \<Rightarrow>
          if custom_tag = kTerminate then Inr ((path_id, marked, e), input1)
          else
            case GetLengthPrefixedSlice input1 of
              None \<Rightarrow> Inl ''new-file4 custom field lenth prefixed slice error''
            | Some (field, input2) \<Rightarrow>
                if custom_tag = kPathId then
                  (if nvm then Inl ''path_id field wrong ''
                   else if length field \<noteq> 1 then Inl ''path_id field wrong size''
                   else if (scast (hd field) :: u32) > 3 then Inl ''path_id wrong vaue''
                   else decode_custom_fields nvm input2 (scast (hd field)) marked e)
                else if custom_tag = kNeedCompaction then
                  (if length field \<noteq> 1 then Inl ''need_compaction field wrong size''
                   else decode_custom_fields nvm input2 path_id (hd field = 1) e)
                else if custom_tag = kMinLogNumberToKeepHack then
                  (case GetFixed64 field of
                     None \<Rightarrow> Inl ''deleted log number malformatted''
                   | Some (n, _) \<Rightarrow>
                       decode_custom_fields nvm input2 path_id marked (SetMinLogNumberToKeep n e))
                else if custom_tag AND kCustomTagNonSafeIgnoreMask \<noteq> 0
                then Inl ''new-file4 custom field not supported''
                else decode_custom_fields nvm input2 path_id marked e)"
  by pat_completeness auto
termination
proof (relation "measure (\<lambda>(nvm, input, path_id, marked, e). length input)")
qed (auto dest!: varint32.get_shorter lprefixed.get_shorter)

declare decode_custom_fields.simps [simp del]

text \<open>What all formats of a new file end with: file size, key range and sequence number range.\<close>

type_synonym file_bounds = "u64 \<times> slice \<times> slice \<times> u64 \<times> u64"

definition get_file_bounds :: "slice \<Rightarrow> (file_bounds \<times> slice) option" where
  "get_file_bounds input =
     do {
       (file_size, i1) \<leftarrow> GetVarint64 input;
       (smallest, i2) \<leftarrow> GetInternalKey i1;
       (largest, i3) \<leftarrow> GetInternalKey i2;
       (smallest_seqno, i4) \<leftarrow> GetVarint64 i3;
       (largest_seqno, i5) \<leftarrow> GetVarint64 i4;
       Some ((file_size, smallest, largest, smallest_seqno, largest_seqno), i5)
     }"

definition file_of_bounds :: "FileMetaData \<Rightarrow> u64 \<Rightarrow> u32 \<Rightarrow> file_bounds \<Rightarrow> FileMetaData" where
  "file_of_bounds f number path_id b =
     (let (file_size, smallest, largest, smallest_seqno, largest_seqno) = b
      in f\<lparr>fm_smallest := smallest, fm_largest := largest,
           fm_fd := FileDescriptor_new number path_id file_size smallest_seqno largest_seqno\<rparr>)"

definition DecodeNewFile4From :: "VersionEdit \<Rightarrow> VersionEdit decoder" where
  "DecodeNewFile4From e input =
     (case do { (level, i1) \<leftarrow> GetLevel input;
                (number, i2) \<leftarrow> GetVarint64 i1;
                (bounds, i3) \<leftarrow> get_file_bounds i2;
                Some ((level, number, bounds), i3) } of
        None \<Rightarrow> Inl ''new-file4 entry''
      | Some ((level, number, bounds), i3) \<Rightarrow>
          (case decode_custom_fields False i3 0 False (note_level level e) of
             Inl msg \<Rightarrow> Inl msg
           | Inr ((path_id, marked, e'), rest) \<Rightarrow>
               Inr (push_new_file level
                      (file_of_bounds (FileMetaData_init\<lparr>fm_marked_for_compaction := marked\<rparr>)
                         number path_id bounds) e', rest)))"

text \<open>
  \<open>has_customized_fields\<close> is a \<open>bool\<close> that is read through a \<open>uint32_t*\<close>: its byte is the lowest byte
  of the number. The other three bytes of the write hit memory behind it, which is not modelled.
\<close>

definition DecodeNewFile5From :: "VersionEdit \<Rightarrow> VersionEdit decoder" where
  "DecodeNewFile5From e input =
     (case do { (first_key_index, i1) \<leftarrow> GetVarint64 input;
                (nvm_sstable_index, i2) \<leftarrow> GetVarint32 i1;
                (keys_num, i3) \<leftarrow> GetVarint64 i2;
                (key_point_filenum, i4) \<leftarrow> GetVarint64 i3;
                (raw_file_size, i5) \<leftarrow> GetVarint64 i4;
                (nvm_meta_size, i6) \<leftarrow> GetVarint64 i5;
                (path_id, i7) \<leftarrow> GetVarint32 i6;
                (has_customized_fields, i8) \<leftarrow> GetVarint32 i7;
                (level, i9) \<leftarrow> GetLevel i8;
                (number, i10) \<leftarrow> GetVarint64 i9;
                (bounds, i11) \<leftarrow> get_file_bounds i10;
                Some ((FileMetaData_init\<lparr>fm_is_nvm_level0 := True,
                          fm_first_key_index := first_key_index,
                          fm_nvm_sstable_index := sint nvm_sstable_index, fm_keys_num := keys_num,
                          fm_key_point_filenum := key_point_filenum,
                          fm_raw_file_size := raw_file_size, fm_nvm_meta_size := nvm_meta_size\<rparr>,
                       path_id, (ucast has_customized_fields :: byte) \<noteq> 0, level, number, bounds), i11) } of
        None \<Rightarrow> Inl ''new-file5 entry''
      | Some ((f, path_id, customized, level, number, bounds), i11) \<Rightarrow>
          (case (if customized then decode_custom_fields True i11 path_id False (note_level level e)
                 else Inr ((path_id, False, note_level level e), i11)) of
             Inl msg \<Rightarrow> Inl msg
           | Inr ((path_id', marked, e'), rest) \<Rightarrow>
               Inr (push_new_file level
                      (file_of_bounds (f\<lparr>fm_marked_for_compaction := marked\<rparr>) number path_id' bounds)
                      e', rest)))"

text \<open>The body of the loop of \<open>DecodeFrom\<close>, for the tag just read.\<close>

definition decode_tag :: "u32 \<Rightarrow> VersionEdit \<Rightarrow> VersionEdit decoder" where
  "decode_tag tag e input =
     (if tag = kComparator then
        need ''comparator name''
          (do { (str, i) \<leftarrow> GetLengthPrefixedSlice input; Some (SetComparatorName str e, i) })
      else if tag = kLogNumber then
        need ''log number'' (do { (n, i) \<leftarrow> GetVarint64 input; Some (SetLogNumber n e, i) })
      else if tag = kPrevLogNumber then
        need ''previous log number''
          (do { (n, i) \<leftarrow> GetVarint64 input; Some (SetPrevLogNumber n e, i) })
      else if tag = kNextFileNumber then
        need ''next file number'' (do { (n, i) \<leftarrow> GetVarint64 input; Some (SetNextFile n e, i) })
      else if tag = kLastSequence then
        need ''last sequence number''
          (do { (n, i) \<leftarrow> GetVarint64 input; Some (SetLastSequence n e, i) })
      else if tag = kMaxColumnFamily then
        need ''max column family''
          (do { (n, i) \<leftarrow> GetVarint32 input; Some (SetMaxColumnFamily n e, i) })
      else if tag = kMinLogNumberToKeep then
        need ''min log number to kee''
          (do { (n, i) \<leftarrow> GetVarint64 input; Some (SetMinLogNumberToKeep n e, i) })
      else if tag = kCompactPointer then
        need ''compaction pointer''
          (do { (level, i1) \<leftarrow> GetLevel input;
                (key, i2) \<leftarrow> GetInternalKey i1;
                Some (note_level level e, i2) })
      else if tag = kDeletedFile then
        need ''deleted file''
          (do { (level, i1) \<leftarrow> GetLevel input;
                (number, i2) \<leftarrow> GetVarint64 i1;
                Some (VersionEdit_DeleteFile level number (note_level level e), i2) })
      else if tag = kNewFile then
        need ''new-file entry''
          (do { (level, i1) \<leftarrow> GetLevel input;
                (number, i2) \<leftarrow> GetVarint64 i1;
                (file_size, i3) \<leftarrow> GetVarint64 i2;
                (smallest, i4) \<leftarrow> GetInternalKey i3;
                (largest, i5) \<leftarrow> GetInternalKey i4;
                Some (push_new_file level
                        (file_of_bounds FileMetaData_init number 0
                           (file_size, smallest, largest, kMaxSequenceNumber, 0))
                        (note_level level e), i5) })
      else if tag = kNewFile2 then
        need ''new-file2 entry''
          (do { (level, i1) \<leftarrow> GetLevel input;
                (number, i2) \<leftarrow> GetVarint64 i1;
                (bounds, i3) \<leftarrow> get_file_bounds i2;
                Some (push_new_file level (file_of_bounds FileMetaData_init number 0 bounds)
                        (note_level level e), i3) })
      else if tag = kNewFile3 then
        need ''new-file3 entry''
          (do { (level, i1) \<leftarrow> GetLevel input;
                (number, i2) \<leftarrow> GetVarint64 i1;
                (path_id, i3) \<leftarrow> GetVarint32 i2;
                (bounds, i4) \<leftarrow> get_file_bounds i3;
                Some (push_new_file level
                        (file_of_bounds FileMetaData_init number path_id bounds)
                        (note_level level e), i4) })
      else if tag = kNewFile4 then DecodeNewFile4From e input
      else if tag = kNewFile5 then DecodeNewFile5From e input
      else if tag = kColumnFamily then
        need ''set column family id''
          (do { (n, i) \<leftarrow> GetVarint32 input; Some (SetColumnFamily n e, i) })
      else if tag = kColumnFamilyAdd then
        need ''column family add''
          (do { (str, i) \<leftarrow> GetLengthPrefixedSlice input;
                Some (e\<lparr>ve_is_column_family_add := True, ve_column_family_name := str\<rparr>, i) })
      else if tag = kColumnFamilyDrop then Inr (e\<lparr>ve_is_column_family_drop := True\<rparr>, input)
      else if tag = kInAtomicGroup then
        need ''remaining entries''
          (do { (n, i) \<leftarrow> GetVarint32 input; Some (MarkAtomicGroup n e, i) })
      else Inl ''unknown tag'')"

text \<open>Every decoding step consumes input, which is what makes the loop of \<open>DecodeFrom\<close> end.\<close>

lemma GetLevel_shorter: "GetLevel p = Some (v, q) \<Longrightarrow> length q < length p"
  by (auto simp: GetLevel_def dest: varint32.get_shorter split: option.splits)

lemma GetInternalKey_shorter: "GetInternalKey p = Some (v, q) \<Longrightarrow> length q < length p"
  by (auto simp: GetInternalKey_def dest: lprefixed.get_shorter split: option.splits if_splits)

lemmas shorter =
  varint32.get_shorter varint64.get_shorter lprefixed.get_shorter GetLevel_shorter GetInternalKey_shorter

lemma get_file_bounds_shorter: "get_file_bounds p = Some (v, q) \<Longrightarrow> length q < length p"
  by (auto simp: get_file_bounds_def dest!: shorter split: bind_splits)

lemma decode_custom_fields_shorter:
  "decode_custom_fields nvm p pid marked e = Inr (r, q) \<Longrightarrow> length q < length p"
proof (induction "length p" arbitrary: nvm p pid marked e rule: less_induct)
  case less
  obtain tag i1 where t: "GetVarint32 p = Some (tag, i1)"
    using less.prems by (subst (asm) decode_custom_fields.simps) (auto split: option.splits)
  show ?case
  proof (cases "tag = kTerminate")
    case True
    then show ?thesis
      using less.prems t by (subst (asm) decode_custom_fields.simps) (auto dest: varint32.get_shorter)
  next
    case False
    then obtain field i2 where f: "GetLengthPrefixedSlice i1 = Some (field, i2)"
      using less.prems t by (subst (asm) decode_custom_fields.simps) (auto split: option.splits)
    have l: "length i2 < length p"
      using varint32.get_shorter [OF t] lprefixed.get_shorter [OF f] by simp
    have "length q < length i2"
      using less.prems t f False
      by (subst (asm) decode_custom_fields.simps)
        (auto dest: less.hyps [OF l] split: option.splits if_splits)
    with l show ?thesis by simp
  qed
qed

lemma need_Inr: "need msg r = Inr x \<longleftrightarrow> r = Some x"
  by (simp add: need_def split: option.splits)

lemma DecodeNewFile4From_shorter: "DecodeNewFile4From e p = Inr (r, q) \<Longrightarrow> length q < length p"
  by (auto simp: DecodeNewFile4From_def
      dest!: shorter get_file_bounds_shorter decode_custom_fields_shorter
      split: bind_splits option.splits sum.splits)

lemma DecodeNewFile5From_shorter: "DecodeNewFile5From e p = Inr (r, q) \<Longrightarrow> length q < length p"
  by (auto simp: DecodeNewFile5From_def
      dest!: shorter get_file_bounds_shorter decode_custom_fields_shorter
      split: bind_splits option.splits sum.splits if_splits)

lemma decode_tag_shorter: "decode_tag tag e p = Inr (r, q) \<Longrightarrow> length q \<le> length p"
  unfolding decode_tag_def
  by (auto simp: need_Inr dest!: shorter get_file_bounds_shorter DecodeNewFile4From_shorter
      DecodeNewFile5From_shorter split: if_splits bind_splits)

function decode_loop :: "slice \<Rightarrow> VersionEdit \<Rightarrow> string + (VersionEdit \<times> slice)" where
  "decode_loop input e =
     (case GetVarint32 input of
        None \<Rightarrow> Inr (e, input)
      | Some (tag, input1) \<Rightarrow>
          (case decode_tag tag e input1 of
             Inl msg \<Rightarrow> Inl msg
           | Inr (e', input2) \<Rightarrow> decode_loop input2 e'))"
  by pat_completeness auto
termination
proof (relation "measure (\<lambda>(input, e). length input)")
qed (auto dest!: varint32.get_shorter decode_tag_shorter)

declare decode_loop.simps [simp del]

definition VersionEdit_DecodeFrom :: "slice \<Rightarrow> Status + VersionEdit" where
  "VersionEdit_DecodeFrom src =
     (case decode_loop src VersionEdit_Clear of
        Inl msg \<Rightarrow> Inl (Corruption msg)
      | Inr (e, input) \<Rightarrow> if input \<noteq> [] then Inl (Corruption ''invalid tag'') else Inr e)"

section \<open>Round trip\<close>

lemma sint_word_of_int_u32: "- (2 ^ 31) \<le> i \<Longrightarrow> i < 2 ^ 31 \<Longrightarrow> sint (word_of_int i :: u32) = i"
  by (simp add: signed_of_int signed_take_bit_int_eq_self)

lemma mask_plus_1: "kFileNumberMask + 1 = push_bit 62 1"
  by (simp add: kFileNumberMask_def)

lemma GetPathId_less: "unat (GetPathId fd) < 4"
proof -
  let ?p = "packed_number_and_path_id fd"
  have "unat (?p div (kFileNumberMask + 1)) = unat ?p div 2 ^ 62"
    by (simp add: mask_plus_1 unat_div)
  moreover have "unat ?p < 2 ^ 64" using unat_less_exp [of ?p] by simp
  ultimately have *: "unat (?p div (kFileNumberMask + 1)) < 4" by simp
  then have "unat (GetPathId fd) = unat (?p div (kFileNumberMask + 1)) mod 2 ^ 32"
    by (simp add: GetPathId_def unsigned_ucast_eq take_bit_eq_mod)
  with * show ?thesis by simp
qed

lemma path_id_cases: "GetPathId fd = 0 \<or> GetPathId fd = 1 \<or> GetPathId fd = 2 \<or> GetPathId fd = 3"
proof -
  have "unat (GetPathId fd) = 0 \<or> unat (GetPathId fd) = 1 \<or> unat (GetPathId fd) = 2 \<or> unat (GetPathId fd) = 3"
    using GetPathId_less [of fd] by linarith
  then show ?thesis by (simp add: word_unat_eq_iff)
qed

lemma path_id_byte:
  "(scast (ucast (GetPathId fd) :: byte) :: u32) = GetPathId fd"
  "\<not> 3 < GetPathId fd"
  using path_id_cases [of fd] by (elim disjE; simp)+

lemma FileDescriptor_roundtrip:
  "FileDescriptor_new (GetNumber fd) (GetPathId fd) (fd_file_size fd) (fd_smallest_seqno fd)
     (fd_largest_seqno fd) = fd"
proof -
  let ?p = "packed_number_and_path_id fd"
  have d: "?p div (kFileNumberMask + 1) = drop_bit 62 ?p"
    unfolding mask_plus_1 by (simp add: drop_bit_eq_div)
  have "ucast (ucast (drop_bit 62 ?p) :: u32) = drop_bit 62 ?p"
    by (rule bit_word_eqI) (auto simp: bit_simps dest: bit_imp_le_length)
  then have "ucast (GetPathId fd) * (kFileNumberMask + 1) = push_bit 62 (drop_bit 62 ?p)"
    unfolding GetPathId_def d unfolding mask_plus_1 by (simp add: push_bit_eq_mult)
  moreover have "GetNumber fd = take_bit 62 ?p"
    by (simp add: GetNumber_def kFileNumberMask_def take_bit_eq_mask mask_eq_exp_minus_1)
  moreover have "take_bit 62 ?p OR push_bit 62 (drop_bit 62 ?p) = ?p"
  proof (rule bit_word_eqI)
    fix n
    show "bit (take_bit 62 ?p OR push_bit 62 (drop_bit 62 ?p)) n = bit ?p n"
      by (cases "n < 62") (auto simp: bit_simps dest: bit_imp_le_length)
  qed
  ultimately show ?thesis by (simp add: FileDescriptor_new_def PackFileNumberAndPathId_def)
qed

lemma GetLevel_enc:
  "- (2 ^ 31) \<le> i \<Longrightarrow> i < 2 ^ 31 \<Longrightarrow> GetLevel (EncodeVarint32 (word_of_int i) @ rest) = Some (i, rest)"
  by (simp add: GetLevel_def codec_simps sint_word_of_int_u32)

lemma GetInternalKey_enc:
  "InternalKey_Valid k \<Longrightarrow> length k < 2 ^ 32 \<Longrightarrow> GetInternalKey (LengthPrefixed k @ rest) = Some (k, rest)"
  by (simp add: GetInternalKey_def codec_simps)

lemma decode_custom_fields_steps:
  "decode_custom_fields nvm (EncodeVarint32 kTerminate @ rest) pid marked c = Inr ((pid, marked, c), rest)"
  "decode_custom_fields False (EncodeVarint32 kPathId @ LengthPrefixed [ucast (GetPathId fd)] @ rest) pid marked c =
     decode_custom_fields False rest (GetPathId fd) marked c"
  "decode_custom_fields nvm (EncodeVarint32 kNeedCompaction @ LengthPrefixed [1] @ rest) pid marked c =
     decode_custom_fields nvm rest pid True c"
  "decode_custom_fields nvm
     (EncodeVarint32 kMinLogNumberToKeepHack @ LengthPrefixed (EncodeFixed64 kLittleEndian n) @ rest)
     pid marked c =
   decode_custom_fields nvm rest pid marked (SetMinLogNumberToKeep n c)"
  using fixed64.get_enc [of n "[]"]
  by (subst decode_custom_fields.simps; simp add: codec_simps path_id_byte)+

lemma decode_loop_tag:
  "decode_loop (EncodeVarint32 tag @ rest) c =
     (case decode_tag tag c rest of Inl msg \<Rightarrow> Inl msg | Inr (c', rest') \<Rightarrow> decode_loop rest' c')"
  by (subst decode_loop.simps) (simp add: codec_simps)

text \<open>
  What the setters establish of an edit: keys are valid internal keys, levels and slot indices are
  32 bit integers, a file that is not in non-volatile memory has none of its fields, and a field whose
  presence flag is off has its initial value.
\<close>

definition file_ok :: "int \<times> FileMetaData \<Rightarrow> bool" where
  "file_ok lf \<longleftrightarrow>
     (let (level, f) = lf
      in 0 \<le> level \<and> level < 2 ^ 31
         \<and> InternalKey_Valid (fm_smallest f) \<and> length (fm_smallest f) < 2 ^ 32
         \<and> InternalKey_Valid (fm_largest f) \<and> length (fm_largest f) < 2 ^ 32
         \<and> - (2 ^ 31) \<le> fm_nvm_sstable_index f \<and> fm_nvm_sstable_index f < 2 ^ 31
         \<and> (\<not> fm_is_nvm_level0 f \<longrightarrow>
              fm_first_key_index f = 0 \<and> fm_nvm_sstable_index f = -1 \<and> fm_keys_num f = 0
              \<and> fm_key_point_filenum f = 0 \<and> fm_raw_file_size f = 0 \<and> fm_nvm_meta_size f = 0))"

text \<open>The bytes a file adds to the record, and what they make of the edit when read.\<close>

definition custom_bytes :: "VersionEdit \<Rightarrow> bool \<Rightarrow> FileMetaData \<Rightarrow> slice" where
  "custom_bytes e written f =
     (if GetPathId (fm_fd f) \<noteq> 0 \<and> \<not> fm_is_nvm_level0 f
      then EncodeVarint32 kPathId @ LengthPrefixed [ucast (GetPathId (fm_fd f))] else []) @
     (if fm_marked_for_compaction f then EncodeVarint32 kNeedCompaction @ LengthPrefixed [1] else []) @
     (if ve_has_min_log_number_to_keep e \<and> \<not> written
      then EncodeVarint32 kMinLogNumberToKeepHack @
             LengthPrefixed (EncodeFixed64 kLittleEndian (ve_min_log_number_to_keep e)) else []) @
     EncodeVarint32 kTerminate"

definition see_min_log :: "VersionEdit \<Rightarrow> bool \<Rightarrow> VersionEdit \<Rightarrow> VersionEdit" where
  "see_min_log e written c =
     (if ve_has_min_log_number_to_keep e \<and> \<not> written
      then SetMinLogNumberToKeep (ve_min_log_number_to_keep e) c else c)"

lemma encode_custom_fields_append:
  "encode_custom_fields e written f dst =
     (dst @ custom_bytes e written f, written \<or> ve_has_min_log_number_to_keep e)"
  by (auto simp: encode_custom_fields_def custom_bytes_def put_simps Let_def)

lemma decode_custom_bytes:
  assumes "pid = (if fm_is_nvm_level0 f then GetPathId (fm_fd f) else 0)"
  shows "decode_custom_fields (fm_is_nvm_level0 f) (custom_bytes e written f @ rest) pid False c =
     Inr ((GetPathId (fm_fd f), fm_marked_for_compaction f, see_min_log e written c), rest)"
  using assms
  by (cases "fm_is_nvm_level0 f"; cases "GetPathId (fm_fd f) = 0"; cases "fm_marked_for_compaction f";
      cases "ve_has_min_log_number_to_keep e"; cases written)
    (simp_all add: custom_bytes_def see_min_log_def decode_custom_fields_steps)

definition bounds_bytes :: "FileMetaData \<Rightarrow> slice" where
  "bounds_bytes f = EncodeVarint64 (fd_file_size (fm_fd f)) @ LengthPrefixed (fm_smallest f) @
     LengthPrefixed (fm_largest f) @ EncodeVarint64 (fd_smallest_seqno (fm_fd f)) @
     EncodeVarint64 (fd_largest_seqno (fm_fd f))"

definition bounds_of :: "FileMetaData \<Rightarrow> file_bounds" where
  "bounds_of f = (fd_file_size (fm_fd f), fm_smallest f, fm_largest f, fd_smallest_seqno (fm_fd f),
     fd_largest_seqno (fm_fd f))"

lemma get_file_bounds_enc:
  "file_ok (l, f) \<Longrightarrow> get_file_bounds (bounds_bytes f @ rest) = Some (bounds_of f, rest)"
  by (simp add: get_file_bounds_def bounds_bytes_def bounds_of_def file_ok_def codec_simps
      GetInternalKey_enc)

lemma file_of_bounds_of:
  "file_of_bounds g (GetNumber (fm_fd f)) (GetPathId (fm_fd f)) (bounds_of f) =
     g\<lparr>fm_smallest := fm_smallest f, fm_largest := fm_largest f, fm_fd := fm_fd f\<rparr>"
  by (simp add: file_of_bounds_def bounds_of_def FileDescriptor_roundtrip)

definition new_file_bytes :: "VersionEdit \<Rightarrow> bool \<Rightarrow> int \<times> FileMetaData \<Rightarrow> slice" where
  "new_file_bytes e written lf =
     (let (level, f) = lf;
          customized = fm_marked_for_compaction f \<or> ve_has_min_log_number_to_keep e;
          pid = GetPathId (fm_fd f)
      in (if fm_is_nvm_level0 f then
            EncodeVarint32 kNewFile5 @ EncodeVarint64 (fm_first_key_index f) @
            EncodeVarint32 (word_of_int (fm_nvm_sstable_index f)) @ EncodeVarint64 (fm_keys_num f) @
            EncodeVarint64 (fm_key_point_filenum f) @ EncodeVarint64 (fm_raw_file_size f) @
            EncodeVarint64 (fm_nvm_meta_size f) @ EncodeVarint32 pid @ EncodeVarint32 (of_bool customized)
          else if customized then EncodeVarint32 kNewFile4
          else if pid = 0 then EncodeVarint32 kNewFile2 else EncodeVarint32 kNewFile3) @
         EncodeVarint32 (word_of_int level) @ EncodeVarint64 (GetNumber (fm_fd f)) @
         (if pid \<noteq> 0 \<and> \<not> customized \<and> \<not> fm_is_nvm_level0 f then EncodeVarint32 pid else []) @
         bounds_bytes f @ (if customized then custom_bytes e written f else []))"

lemma encode_new_file_append:
  "file_ok lf \<Longrightarrow> encode_new_file e written lf dst =
     Some (dst @ new_file_bytes e written lf, written \<or> ve_has_min_log_number_to_keep e)"
  by (cases lf; cases "fm_is_nvm_level0 (snd lf)"; cases "fm_marked_for_compaction (snd lf)";
      cases "ve_has_min_log_number_to_keep e"; cases "GetPathId (fm_fd (snd lf)) = 0")
    (simp_all add: encode_new_file_def new_file_bytes_def bounds_bytes_def put_simps Let_def file_ok_def
      encode_custom_fields_append)

text \<open>The edit after a file has been read.\<close>

definition read_file :: "VersionEdit \<Rightarrow> bool \<Rightarrow> int \<times> FileMetaData \<Rightarrow> VersionEdit \<Rightarrow> VersionEdit" where
  "read_file e written lf c =
     push_new_file (fst lf) (snd lf) (see_min_log e written (note_level (fst lf) c))"

lemma decode_new_file4:
  assumes ok: "file_ok (l, f)" and "\<not> fm_is_nvm_level0 f"
    and "fm_marked_for_compaction f \<or> ve_has_min_log_number_to_keep e"
  shows "decode_loop (new_file_bytes e written (l, f) @ rest) c = decode_loop rest (read_file e written (l, f) c)"
proof -
  have "decode_custom_fields False (custom_bytes e written f @ rest) 0 False c' =
      Inr ((GetPathId (fm_fd f), fm_marked_for_compaction f, see_min_log e written c'), rest)" for c'
    using decode_custom_bytes [of 0 f e written rest c'] assms(2) by simp
  moreover have "new_file_bytes e written (l, f) = EncodeVarint32 kNewFile4 @
      EncodeVarint32 (word_of_int l) @ EncodeVarint64 (GetNumber (fm_fd f)) @ bounds_bytes f @
      custom_bytes e written f"
    using assms(2,3) by (auto simp: new_file_bytes_def Let_def)
  moreover have "- (2 ^ 31) \<le> l" "l < 2 ^ 31" using ok by (simp_all add: file_ok_def)
  moreover have "file_of_bounds (FileMetaData_init\<lparr>fm_marked_for_compaction := fm_marked_for_compaction f\<rparr>)
      (GetNumber (fm_fd f)) (GetPathId (fm_fd f)) (bounds_of f) = f"
    using assms(2) ok by (simp add: file_of_bounds_of FileMetaData_init_def file_ok_def)
  ultimately show ?thesis
    by (simp add: decode_loop_tag decode_tag_def DecodeNewFile4From_def codec_simps GetLevel_enc
        get_file_bounds_enc [OF ok] read_file_def)
qed

lemma decode_new_file5:
  assumes ok: "file_ok (l, f)" and nvm: "fm_is_nvm_level0 f"
  shows "decode_loop (new_file_bytes e written (l, f) @ rest) c = decode_loop rest (read_file e written (l, f) c)"
proof -
  let ?c = "fm_marked_for_compaction f \<or> ve_has_min_log_number_to_keep e"
  have range: "- (2 ^ 31) \<le> l" "l < 2 ^ 31" "- (2 ^ 31) \<le> fm_nvm_sstable_index f" "fm_nvm_sstable_index f < 2 ^ 31"
    using ok by (simp_all add: file_ok_def)
  have "decode_custom_fields True (custom_bytes e written f @ rest) (GetPathId (fm_fd f)) False c' =
      Inr ((GetPathId (fm_fd f), fm_marked_for_compaction f, see_min_log e written c'), rest)" for c'
    using decode_custom_bytes [of "GetPathId (fm_fd f)" f e written rest c'] nvm by simp
  moreover have rebuild: "\<lparr>fm_fd = fm_fd f, fm_smallest = fm_smallest f, fm_largest = fm_largest f, fm_is_nvm_level0 = True,
      fm_first_key_index = fm_first_key_index f, fm_nvm_sstable_index = fm_nvm_sstable_index f,
      fm_keys_num = fm_keys_num f, fm_key_point_filenum = fm_key_point_filenum f,
      fm_raw_file_size = fm_raw_file_size f, fm_nvm_meta_size = fm_nvm_meta_size f,
      fm_marked_for_compaction = b\<rparr> = f" if "fm_marked_for_compaction f = b" for b
    using nvm that by simp
  ultimately show ?thesis
    using nvm range
    by (cases ?c)
      (simp_all add: new_file_bytes_def decode_loop_tag decode_tag_def DecodeNewFile5From_def Let_def
        codec_simps GetLevel_enc sint_word_of_int_u32 get_file_bounds_enc [OF ok]
        file_of_bounds_of read_file_def see_min_log_def FileMetaData_init_def rebuild)
qed

lemma decode_new_file23:
  assumes ok: "file_ok (l, f)" and "\<not> fm_is_nvm_level0 f"
    and "\<not> fm_marked_for_compaction f" and "\<not> ve_has_min_log_number_to_keep e"
  shows "decode_loop (new_file_bytes e written (l, f) @ rest) c = decode_loop rest (read_file e written (l, f) c)"
proof -
  have "file_of_bounds FileMetaData_init (GetNumber (fm_fd f)) (GetPathId (fm_fd f)) (bounds_of f) = f"
    using assms by (simp add: file_of_bounds_of FileMetaData_init_def file_ok_def)
  moreover have "- (2 ^ 31) \<le> l" "l < 2 ^ 31" using ok by (simp_all add: file_ok_def)
  ultimately show ?thesis
    using assms(2-4)
    by (cases "GetPathId (fm_fd f) = 0")
      (simp_all add: new_file_bytes_def decode_loop_tag decode_tag_def Let_def codec_simps GetLevel_enc
        get_file_bounds_enc [OF ok] need_def read_file_def see_min_log_def)
qed

lemma decode_new_file:
  "file_ok lf \<Longrightarrow>
     decode_loop (new_file_bytes e written lf @ rest) c = decode_loop rest (read_file e written lf c)"
  using decode_new_file4 [of "fst lf" "snd lf" e written rest c]
    decode_new_file5 [of "fst lf" "snd lf" e written rest c]
    decode_new_file23 [of "fst lf" "snd lf" e written rest c]
  by (cases "fm_is_nvm_level0 (snd lf)"; cases "fm_marked_for_compaction (snd lf)") auto

fun read_files :: "VersionEdit \<Rightarrow> bool \<Rightarrow> (int \<times> FileMetaData) list \<Rightarrow> VersionEdit \<Rightarrow> VersionEdit" where
  "read_files e written [] c = c"
| "read_files e written (lf # lfs) c =
     read_files e (written \<or> ve_has_min_log_number_to_keep e) lfs (read_file e written lf c)"

lemma new_files_roundtrip:
  "list_all file_ok lfs \<Longrightarrow> \<exists>bytes. encode_new_files e written lfs dst = Some (dst @ bytes)
     \<and> (\<forall>rest c. decode_loop (bytes @ rest) c = decode_loop rest (read_files e written lfs c))"
proof (induction lfs arbitrary: written dst)
  case (Cons lf lfs)
  let ?w = "written \<or> ve_has_min_log_number_to_keep e" and ?b = "new_file_bytes e written lf"
  have ok: "file_ok lf" "list_all file_ok lfs" using Cons.prems by simp_all
  obtain bytes where "encode_new_files e ?w lfs (dst @ ?b) = Some ((dst @ ?b) @ bytes)"
    and "\<forall>rest c. decode_loop (bytes @ rest) c = decode_loop rest (read_files e ?w lfs c)"
    using Cons.IH [OF ok(2)] by blast
  then show ?case
    using encode_new_file_append [OF ok(1)] decode_new_file [OF ok(1), of e written]
    by (intro exI [of _ "?b @ bytes"]) simp
qed simp

lemma deleted_files_roundtrip:
  "list_all (\<lambda>(l, n). 0 \<le> l \<and> l < 2 ^ 31) ds \<Longrightarrow> \<exists>bytes.
     fold (\<lambda>(level, file) d. PutVarint32Varint32Varint64 d kDeletedFile (word_of_int level) file) ds dst = dst @ bytes
     \<and> (\<forall>rest c. decode_loop (bytes @ rest) c =
          decode_loop rest (fold (\<lambda>(l, n) c. VersionEdit_DeleteFile l n (note_level l c)) ds c))"
proof (induction ds arbitrary: dst)
  case (Cons d ds)
  obtain l n where d: "d = (l, n)" by fastforce
  have l: "- (2 ^ 31) \<le> l" "l < 2 ^ 31" and ds: "list_all (\<lambda>(l, n). 0 \<le> l \<and> l < 2 ^ 31) ds"
    using Cons.prems d by simp_all
  let ?b = "EncodeVarint32 kDeletedFile @ EncodeVarint32 (word_of_int l) @ EncodeVarint64 n"
  obtain bytes where "fold (\<lambda>(level, file) d. PutVarint32Varint32Varint64 d kDeletedFile (word_of_int level) file) ds
      (dst @ ?b) = (dst @ ?b) @ bytes"
    and "\<forall>rest c. decode_loop (bytes @ rest) c =
      decode_loop rest (fold (\<lambda>(l, n) c. VersionEdit_DeleteFile l n (note_level l c)) ds c)"
    using Cons.IH [OF ds] by blast
  then show ?case
    using l by (intro exI [of _ "?b @ bytes"])
      (simp add: d put_simps decode_loop_tag decode_tag_def need_def codec_simps GetLevel_enc)
qed simp

text \<open>The optional items before and after the files.\<close>

lemma decode_items:
  "length s < 2 ^ 32 \<Longrightarrow> decode_loop (EncodeVarint32 kComparator @ LengthPrefixed s @ rest) c =
     decode_loop rest (SetComparatorName s c)"
  "decode_loop (EncodeVarint32 kLogNumber @ EncodeVarint64 n @ rest) c = decode_loop rest (SetLogNumber n c)"
  "decode_loop (EncodeVarint32 kPrevLogNumber @ EncodeVarint64 n @ rest) c =
     decode_loop rest (SetPrevLogNumber n c)"
  "decode_loop (EncodeVarint32 kNextFileNumber @ EncodeVarint64 n @ rest) c = decode_loop rest (SetNextFile n c)"
  "decode_loop (EncodeVarint32 kLastSequence @ EncodeVarint64 n @ rest) c = decode_loop rest (SetLastSequence n c)"
  "decode_loop (EncodeVarint32 kMaxColumnFamily @ EncodeVarint32 v @ rest) c =
     decode_loop rest (SetMaxColumnFamily v c)"
  "decode_loop (EncodeVarint32 kColumnFamily @ EncodeVarint32 v @ rest) c = decode_loop rest (SetColumnFamily v c)"
  "length s < 2 ^ 32 \<Longrightarrow> decode_loop (EncodeVarint32 kColumnFamilyAdd @ LengthPrefixed s @ rest) c =
     decode_loop rest (c\<lparr>ve_is_column_family_add := True, ve_column_family_name := s\<rparr>)"
  "decode_loop (EncodeVarint32 kColumnFamilyDrop @ rest) c =
     decode_loop rest (c\<lparr>ve_is_column_family_drop := True\<rparr>)"
  "decode_loop (EncodeVarint32 kInAtomicGroup @ EncodeVarint32 v @ rest) c = decode_loop rest (MarkAtomicGroup v c)"
  by (simp_all add: decode_loop_tag decode_tag_def need_def codec_simps)

lemma decode_opt_items:
  "length s < 2 ^ 32 \<Longrightarrow> decode_loop ((if P then EncodeVarint32 kComparator @ LengthPrefixed s else []) @ rest) c =
     decode_loop rest (if P then SetComparatorName s c else c)"
  "decode_loop ((if P then EncodeVarint32 kLogNumber @ EncodeVarint64 n else []) @ rest) c =
     decode_loop rest (if P then SetLogNumber n c else c)"
  "decode_loop ((if P then EncodeVarint32 kPrevLogNumber @ EncodeVarint64 n else []) @ rest) c =
     decode_loop rest (if P then SetPrevLogNumber n c else c)"
  "decode_loop ((if P then EncodeVarint32 kNextFileNumber @ EncodeVarint64 n else []) @ rest) c =
     decode_loop rest (if P then SetNextFile n c else c)"
  "decode_loop ((if P then EncodeVarint32 kLastSequence @ EncodeVarint64 n else []) @ rest) c =
     decode_loop rest (if P then SetLastSequence n c else c)"
  "decode_loop ((if P then EncodeVarint32 kMaxColumnFamily @ EncodeVarint32 v else []) @ rest) c =
     decode_loop rest (if P then SetMaxColumnFamily v c else c)"
  "decode_loop ((if P then EncodeVarint32 kColumnFamily @ EncodeVarint32 v else []) @ rest) c =
     decode_loop rest (if P then SetColumnFamily v c else c)"
  "length s < 2 ^ 32 \<Longrightarrow> decode_loop ((if P then EncodeVarint32 kColumnFamilyAdd @ LengthPrefixed s else []) @ rest) c =
     decode_loop rest (if P then c\<lparr>ve_is_column_family_add := True, ve_column_family_name := s\<rparr> else c)"
  "decode_loop ((if P then EncodeVarint32 kColumnFamilyDrop else []) @ rest) c =
     decode_loop rest (if P then c\<lparr>ve_is_column_family_drop := True\<rparr> else c)"
  "decode_loop ((if P then EncodeVarint32 kInAtomicGroup @ EncodeVarint32 v else []) @ rest) c =
     decode_loop rest (if P then MarkAtomicGroup v c else c)"
  by (simp_all add: decode_items)

definition head_bytes :: "VersionEdit \<Rightarrow> slice" where
  "head_bytes e =
     (if ve_has_comparator e then EncodeVarint32 kComparator @ LengthPrefixed (ve_comparator e) else []) @
     (if ve_has_log_number e then EncodeVarint32 kLogNumber @ EncodeVarint64 (ve_log_number e) else []) @
     (if ve_has_prev_log_number e
      then EncodeVarint32 kPrevLogNumber @ EncodeVarint64 (ve_prev_log_number e) else []) @
     (if ve_has_next_file_number e
      then EncodeVarint32 kNextFileNumber @ EncodeVarint64 (ve_next_file_number e) else []) @
     (if ve_has_last_sequence e then EncodeVarint32 kLastSequence @ EncodeVarint64 (ve_last_sequence e) else []) @
     (if ve_has_max_column_family e
      then EncodeVarint32 kMaxColumnFamily @ EncodeVarint32 (ve_max_column_family e) else [])"

definition tail_bytes :: "VersionEdit \<Rightarrow> slice" where
  "tail_bytes e =
     (if ve_column_family e \<noteq> 0 then EncodeVarint32 kColumnFamily @ EncodeVarint32 (ve_column_family e) else []) @
     (if ve_is_column_family_add e
      then EncodeVarint32 kColumnFamilyAdd @ LengthPrefixed (ve_column_family_name e) else []) @
     (if ve_is_column_family_drop e then EncodeVarint32 kColumnFamilyDrop else []) @
     (if ve_is_in_atomic_group e
      then EncodeVarint32 kInAtomicGroup @ EncodeVarint32 (ve_remaining_entries e) else [])"

lemma if_append: "(if P then x @ y else x) = x @ (if P then y else [])"
  by simp

lemma encode_head_append:
  "encode_head e dst =
     fold (\<lambda>(level, file) d. PutVarint32Varint32Varint64 d kDeletedFile (word_of_int level) file)
       (ve_deleted_files e) (dst @ head_bytes e)"
  by (simp only: encode_head_def Let_def put_simps append_assoc if_append head_bytes_def)

lemma encode_tail_append: "encode_tail e dst = dst @ tail_bytes e"
  by (simp only: encode_tail_def Let_def put_simps append_assoc if_append tail_bytes_def)

lemma note_level_max: "note_level l c = c\<lparr>ve_max_level := max (ve_max_level c) l\<rparr>"
  by (simp add: note_level_def max_def)

abbreviation max_level :: "int list \<Rightarrow> int \<Rightarrow> int" where
  "max_level ls m \<equiv> fold (\<lambda>l m. max m l) ls m"

lemma read_files_fields:
  "read_files e written lfs c =
     (if lfs = [] then c
      else see_min_log e written
        (c\<lparr>ve_new_files := ve_new_files c @ lfs, ve_max_level := max_level (map fst lfs) (ve_max_level c)\<rparr>))"
proof (induction lfs arbitrary: written c)
  case (Cons lf lfs)
  have "see_min_log e (written \<or> ve_has_min_log_number_to_keep e) c' = c'" for c'
    by (auto simp: see_min_log_def)
  then show ?case
    by (auto simp: Cons read_file_def note_level_max push_new_file_def see_min_log_def
        SetMinLogNumberToKeep_def)
qed simp

lemma delete_files_fields:
  "fold (\<lambda>(l, n) c. VersionEdit_DeleteFile l n (note_level l c)) ds c =
     c\<lparr>ve_deleted_files := fold insort_insert ds (ve_deleted_files c),
       ve_max_level := max_level (map fst ds) (ve_max_level c)\<rparr>"
  by (induction ds arbitrary: c) (auto simp: note_level_max VersionEdit_DeleteFile_def)

lemma insort_insert_last:
  "(\<forall>y \<in> set xs. y < x) \<Longrightarrow> insort_insert x xs = xs @ [x :: 'a::linorder]"
proof -
  assume *: "\<forall>y \<in> set xs. y < x"
  then have "x \<notin> set xs" by auto
  moreover have "insort x xs = xs @ [x]" using * by (induction xs) auto
  ultimately show ?thesis by (simp add: insort_insert_key_def)
qed

lemma fold_insort_insert_sorted:
  "sorted_wrt (<) (xs @ ds) \<Longrightarrow> fold insort_insert ds xs = xs @ (ds :: 'a::linorder list)"
proof (induction ds arbitrary: xs)
  case (Cons d ds)
  then have "insort_insert d xs = xs @ [d]"
    by (intro insort_insert_last) (simp add: sorted_wrt_append)
  with Cons show ?case by simp
qed simp

definition edit_ok :: "VersionEdit \<Rightarrow> bool" where
  "edit_ok e \<longleftrightarrow>
     list_all file_ok (ve_new_files e) \<and> list_all (\<lambda>(l, n). 0 \<le> l \<and> l < 2 ^ 31) (ve_deleted_files e)
     \<and> sorted_wrt (<) (ve_deleted_files e)
     \<and> length (ve_comparator e) < 2 ^ 32 \<and> length (ve_column_family_name e) < 2 ^ 32
     \<and> (\<not> ve_has_comparator e \<longrightarrow> ve_comparator e = [])
     \<and> (\<not> ve_has_log_number e \<longrightarrow> ve_log_number e = 0)
     \<and> (\<not> ve_has_prev_log_number e \<longrightarrow> ve_prev_log_number e = 0)
     \<and> (\<not> ve_has_next_file_number e \<longrightarrow> ve_next_file_number e = 0)
     \<and> (\<not> ve_has_last_sequence e \<longrightarrow> ve_last_sequence e = 0)
     \<and> (\<not> ve_has_max_column_family e \<longrightarrow> ve_max_column_family e = 0)
     \<and> (\<not> ve_has_min_log_number_to_keep e \<longrightarrow> ve_min_log_number_to_keep e = 0)
     \<and> (\<not> ve_is_column_family_add e \<longrightarrow> ve_column_family_name e = [])
     \<and> (\<not> ve_is_in_atomic_group e \<longrightarrow> ve_remaining_entries e = 0)"

lemma decode_head:
  assumes "edit_ok e"
  shows "decode_loop (head_bytes e @ rest) VersionEdit_Clear =
    decode_loop rest (VersionEdit_Clear\<lparr>ve_has_comparator := ve_has_comparator e, ve_comparator := ve_comparator e,
      ve_has_log_number := ve_has_log_number e, ve_log_number := ve_log_number e,
      ve_has_prev_log_number := ve_has_prev_log_number e, ve_prev_log_number := ve_prev_log_number e,
      ve_has_next_file_number := ve_has_next_file_number e, ve_next_file_number := ve_next_file_number e,
      ve_has_last_sequence := ve_has_last_sequence e, ve_last_sequence := ve_last_sequence e,
      ve_has_max_column_family := ve_has_max_column_family e, ve_max_column_family := ve_max_column_family e\<rparr>)"
    (is "_ = decode_loop rest ?c")
proof -
  have s: "length (ve_comparator e) < 2 ^ 32" using assms by (simp add: edit_ok_def)
  let ?c1 = "if ve_has_comparator e then SetComparatorName (ve_comparator e) VersionEdit_Clear else VersionEdit_Clear"
  let ?c2 = "if ve_has_log_number e then SetLogNumber (ve_log_number e) ?c1 else ?c1"
  let ?c3 = "if ve_has_prev_log_number e then SetPrevLogNumber (ve_prev_log_number e) ?c2 else ?c2"
  let ?c4 = "if ve_has_next_file_number e then SetNextFile (ve_next_file_number e) ?c3 else ?c3"
  let ?c5 = "if ve_has_last_sequence e then SetLastSequence (ve_last_sequence e) ?c4 else ?c4"
  let ?c6 = "if ve_has_max_column_family e then SetMaxColumnFamily (ve_max_column_family e) ?c5 else ?c5"
  have "decode_loop (head_bytes e @ rest) VersionEdit_Clear = decode_loop rest ?c6"
    unfolding head_bytes_def append_assoc decode_opt_items(1) [OF s] decode_opt_items(2-6) ..
  moreover have "?c6 = ?c"
    using assms
    by (auto simp: edit_ok_def VersionEdit_Clear_def SetComparatorName_def SetLogNumber_def
        SetPrevLogNumber_def SetNextFile_def SetLastSequence_def SetMaxColumnFamily_def)
  ultimately show ?thesis by simp
qed

lemma decode_tail:
  assumes "edit_ok e" and "ve_column_family c = 0" and "\<not> ve_is_column_family_add c"
    and "\<not> ve_is_column_family_drop c" and "ve_column_family_name c = []" and "\<not> ve_is_in_atomic_group c"
    and "ve_remaining_entries c = 0"
  shows "decode_loop (tail_bytes e @ rest) c =
    decode_loop rest (c\<lparr>ve_column_family := ve_column_family e, ve_is_column_family_add := ve_is_column_family_add e,
      ve_column_family_name := ve_column_family_name e, ve_is_column_family_drop := ve_is_column_family_drop e,
      ve_is_in_atomic_group := ve_is_in_atomic_group e, ve_remaining_entries := ve_remaining_entries e\<rparr>)"
    (is "_ = decode_loop rest ?c")
proof -
  have s: "length (ve_column_family_name e) < 2 ^ 32" using assms by (simp add: edit_ok_def)
  let ?c1 = "if ve_column_family e \<noteq> 0 then SetColumnFamily (ve_column_family e) c else c"
  let ?c2 = "if ve_is_column_family_add e
    then ?c1\<lparr>ve_is_column_family_add := True, ve_column_family_name := ve_column_family_name e\<rparr> else ?c1"
  let ?c3 = "if ve_is_column_family_drop e then ?c2\<lparr>ve_is_column_family_drop := True\<rparr> else ?c2"
  let ?c4 = "if ve_is_in_atomic_group e then MarkAtomicGroup (ve_remaining_entries e) ?c3 else ?c3"
  have "decode_loop (tail_bytes e @ rest) c = decode_loop rest ?c4"
    unfolding tail_bytes_def append_assoc decode_opt_items(7,9,10) decode_opt_items(8) [OF s] ..
  moreover have "?c4 = ?c"
    using assms by (cases c) (auto simp: edit_ok_def SetColumnFamily_def MarkAtomicGroup_def)
  ultimately show ?thesis by simp
qed

lemma encode_new_files_None:
  "encode_new_files e written lfs dst = None \<longleftrightarrow>
     (\<exists>lf \<in> set lfs. \<not> InternalKey_Valid (fm_smallest (snd lf)) \<or> \<not> InternalKey_Valid (fm_largest (snd lf)))"
proof (induction lfs arbitrary: written dst)
  case (Cons lf lfs)
  have "encode_new_file e written lf dst = None \<longleftrightarrow>
      \<not> InternalKey_Valid (fm_smallest (snd lf)) \<or> \<not> InternalKey_Valid (fm_largest (snd lf))"
    by (auto simp: encode_new_file_def Let_def split: prod.splits)
  with Cons show ?case
    by (cases "encode_new_file e written lf dst") auto
qed simp

lemma edit_ok_setters:
  assumes "edit_ok e"
  shows "length name < 2 ^ 32 \<Longrightarrow> edit_ok (SetComparatorName name e)"
    and "edit_ok (SetLogNumber n e)" and "edit_ok (SetPrevLogNumber n e)" and "edit_ok (SetNextFile n e)"
    and "edit_ok (SetLastSequence n e)" and "edit_ok (SetMaxColumnFamily v e)"
    and "edit_ok (SetMinLogNumberToKeep n e)" and "edit_ok (SetColumnFamily v e)"
    and "edit_ok (MarkAtomicGroup v e)"
  using assms
  by (simp_all add: edit_ok_def SetComparatorName_def SetLogNumber_def SetPrevLogNumber_def
      SetNextFile_def SetLastSequence_def SetMaxColumnFamily_def SetMinLogNumberToKeep_def
      SetColumnFamily_def MarkAtomicGroup_def)

lemma edit_ok_files:
  assumes "edit_ok e"
  shows "file_ok (l, f) \<Longrightarrow> edit_ok (push_new_file l f e)"
    and "0 \<le> l \<Longrightarrow> l < 2 ^ 31 \<Longrightarrow> edit_ok (VersionEdit_DeleteFile l n e)"
proof -
  show "file_ok (l, f) \<Longrightarrow> edit_ok (push_new_file l f e)"
    using assms by (simp add: edit_ok_def push_new_file_def)
  have "sorted_wrt (<) (insort_insert x xs)" if "sorted_wrt (<) xs" for x :: "int \<times> u64" and xs
    using that
    by (cases "x \<in> set xs") (simp_all add: insort_insert_key_def strict_sorted_iff sorted_insort distinct_insort)
  moreover have "set (insort_insert x xs) = insert x (set xs)" for x :: "int \<times> u64" and xs
    by (rule set_insort_insert)
  ultimately show "0 \<le> l \<Longrightarrow> l < 2 ^ 31 \<Longrightarrow> edit_ok (VersionEdit_DeleteFile l n e)"
    using assms by (auto simp: edit_ok_def VersionEdit_DeleteFile_def list_all_iff)
qed

section \<open>Properties\<close>

text \<open>C16: a version edit survives the manifest. Every edit built by the setters encodes, and decoding
  the record gives the edit back field by field, in all formats of a new file, with the maximal level
  recomputed; the number of the oldest log to keep travels with the first new file, so that it
  needs one.\<close>

theorem version_edit_roundtrip:
  "edit_ok e \<and> (ve_has_min_log_number_to_keep e \<longrightarrow> ve_new_files e \<noteq> []) \<Longrightarrow>
     \<exists>s. VersionEdit_EncodeTo e [] = Some s
       \<and> VersionEdit_DecodeFrom s =
           Inr (e\<lparr>ve_max_level := max_level (map fst (ve_deleted_files e) @ map fst (ve_new_files e)) 0\<rparr>)"
proof -
  assume *: "edit_ok e \<and> (ve_has_min_log_number_to_keep e \<longrightarrow> ve_new_files e \<noteq> [])"
  then have e: "edit_ok e" by blast
  have min: "ve_has_min_log_number_to_keep e \<longrightarrow> ve_new_files e \<noteq> []"
    "\<not> ve_has_min_log_number_to_keep e \<longrightarrow> ve_min_log_number_to_keep e = 0"
    using * by (simp_all add: edit_ok_def)
  have ds: "list_all (\<lambda>(l, n). 0 \<le> l \<and> l < 2 ^ 31) (ve_deleted_files e)"
    and fs: "list_all file_ok (ve_new_files e)" and sorted: "sorted_wrt (<) (ve_deleted_files e)"
    using e by (simp_all add: edit_ok_def)
  obtain db where db: "encode_head e [] = head_bytes e @ db"
    "\<And>rest c. decode_loop (db @ rest) c =
      decode_loop rest (fold (\<lambda>(l, n) c. VersionEdit_DeleteFile l n (note_level l c)) (ve_deleted_files e) c)"
    using deleted_files_roundtrip [OF ds, of "[] @ head_bytes e"] unfolding encode_head_append by auto
  obtain fb where fb: "encode_new_files e False (ve_new_files e) (encode_head e []) = Some (encode_head e [] @ fb)"
    "\<And>rest c. decode_loop (fb @ rest) c = decode_loop rest (read_files e False (ve_new_files e) c)"
    using new_files_roundtrip [OF fs] by blast
  let ?s = "head_bytes e @ db @ fb @ tail_bytes e @ []"
  have enc: "VersionEdit_EncodeTo e [] = Some ?s"
    unfolding VersionEdit_EncodeTo_def fb(1) by (simp add: encode_tail_append db(1))
  have ins: "fold insort_insert (ve_deleted_files e) [] = ve_deleted_files e"
    using fold_insort_insert_sorted [of "[]"] sorted by simp
  let ?m = "max_level (map fst (ve_deleted_files e) @ map fst (ve_new_files e)) 0"
  let ?c = "e\<lparr>ve_max_level := ?m, ve_column_family := 0, ve_is_column_family_add := False,
    ve_column_family_name := [], ve_is_column_family_drop := False, ve_is_in_atomic_group := False,
    ve_remaining_entries := 0\<rparr>"
  have files: "read_files e False (ve_new_files e)
      (fold (\<lambda>(l, n) c. VersionEdit_DeleteFile l n (note_level l c)) (ve_deleted_files e)
        (VersionEdit_Clear\<lparr>ve_has_comparator := ve_has_comparator e, ve_comparator := ve_comparator e,
      ve_has_log_number := ve_has_log_number e, ve_log_number := ve_log_number e,
      ve_has_prev_log_number := ve_has_prev_log_number e, ve_prev_log_number := ve_prev_log_number e,
      ve_has_next_file_number := ve_has_next_file_number e, ve_next_file_number := ve_next_file_number e,
      ve_has_last_sequence := ve_has_last_sequence e, ve_last_sequence := ve_last_sequence e,
      ve_has_max_column_family := ve_has_max_column_family e, ve_max_column_family := ve_max_column_family e\<rparr>)) = ?c"
    unfolding delete_files_fields read_files_fields see_min_log_def SetMinLogNumberToKeep_def VersionEdit_Clear_def
    using min by (cases "ve_new_files e = []"; cases "ve_has_min_log_number_to_keep e") (simp_all add: ins)
  have "decode_loop ?s VersionEdit_Clear = decode_loop (tail_bytes e @ []) ?c"
    by (simp only: decode_head [OF e] db(2) fb(2) files)
  also have "\<dots> = decode_loop [] (e\<lparr>ve_max_level := ?m\<rparr>)"
    by (subst decode_tail [OF e]) simp_all
  finally have "decode_loop ?s VersionEdit_Clear = decode_loop [] (e\<lparr>ve_max_level := ?m\<rparr>)" .
  then have "VersionEdit_DecodeFrom ?s =
      Inr (e\<lparr>ve_max_level := max_level (map fst (ve_deleted_files e) @ map fst (ve_new_files e)) 0\<rparr>)"
    by (simp add: VersionEdit_DecodeFrom_def decode_loop.simps [of "[]"] GetVarint32_def GetVarint32Ptr_def
        GetVarint32PtrFallback_def)
  with enc show ?thesis by blast
qed

theorem version_edit_roundtrip_witness:
  "\<exists>s. VersionEdit_EncodeTo
      (VersionEdit_DeleteFile 1 7 (push_new_file 0
         (FileMetaData_init\<lparr>fm_smallest := InternalKey [97] 1 1, fm_largest := InternalKey [98] 2 1,
            fm_is_nvm_level0 := True, fm_first_key_index := 3, fm_nvm_sstable_index := 5\<rparr>)
         (SetLogNumber 9 VersionEdit_Clear))) [] = Some s
     \<and> VersionEdit_DecodeFrom s = Inr
      (VersionEdit_DeleteFile 1 7 (push_new_file 0
         (FileMetaData_init\<lparr>fm_smallest := InternalKey [97] 1 1, fm_largest := InternalKey [98] 2 1,
            fm_is_nvm_level0 := True, fm_first_key_index := 3, fm_nvm_sstable_index := 5\<rparr>)
         (SetLogNumber 9 VersionEdit_Clear))\<lparr>ve_max_level := 1\<rparr>)"
proof -
  let ?f = "FileMetaData_init\<lparr>fm_smallest := InternalKey [97] 1 1, fm_largest := InternalKey [98] 2 1,
      fm_is_nvm_level0 := True, fm_first_key_index := 3, fm_nvm_sstable_index := 5\<rparr>"
  let ?e = "VersionEdit_DeleteFile 1 7 (push_new_file 0 ?f (SetLogNumber 9 VersionEdit_Clear))"
  have "InternalKey_Valid (InternalKey [97] 1 1)" "InternalKey_Valid (InternalKey [98] 2 1)"
    by code_simp+
  then have f: "file_ok (0, ?f)" by (simp add: file_ok_def InternalKey_append)
  have "edit_ok VersionEdit_Clear" by (simp add: edit_ok_def VersionEdit_Clear_def)
  then have "edit_ok ?e" by (intro edit_ok_files edit_ok_setters f) simp_all
  moreover have "ve_new_files ?e \<noteq> []" "map fst (ve_deleted_files ?e) = [1]" "map fst (ve_new_files ?e) = [0]"
    by (simp_all add: VersionEdit_DeleteFile_def push_new_file_def SetLogNumber_def VersionEdit_Clear_def
        insort_insert_key_def)
  ultimately show ?thesis using version_edit_roundtrip [of ?e] by simp
qed

text \<open>The setters keep the form of an edit that the round trip needs, and an edit is refused by
  \<open>EncodeTo\<close> exactly if a new file has an invalid smallest or largest key.\<close>

theorem version_edit_wellformed:
  "edit_ok e \<and> length name < 2 ^ 32 \<and> file_ok (l, f) \<Longrightarrow>
     edit_ok (SetComparatorName name e) \<and> edit_ok (SetLogNumber n e) \<and> edit_ok (SetPrevLogNumber n e)
     \<and> edit_ok (SetNextFile n e) \<and> edit_ok (SetLastSequence n e) \<and> edit_ok (SetMaxColumnFamily v e)
     \<and> edit_ok (SetMinLogNumberToKeep n e) \<and> edit_ok (SetColumnFamily v e) \<and> edit_ok (MarkAtomicGroup v e)
     \<and> (\<forall>e'. VersionEdit_AddFile l f e = Inr e' \<longrightarrow> edit_ok e') \<and> edit_ok (VersionEdit_DeleteFile l n e)
     \<and> edit_ok VersionEdit_Clear
     \<and> (\<forall>e dst. VersionEdit_EncodeTo e dst = None \<longleftrightarrow>
          (\<exists>lf \<in> set (ve_new_files e).
             \<not> InternalKey_Valid (fm_smallest (snd lf)) \<or> \<not> InternalKey_Valid (fm_largest (snd lf))))"
proof -
  assume *: "edit_ok e \<and> length name < 2 ^ 32 \<and> file_ok (l, f)"
  then have l: "0 \<le> l" "l < 2 ^ 31" by (simp_all add: file_ok_def)
  have "edit_ok VersionEdit_Clear" by (simp add: edit_ok_def VersionEdit_Clear_def)
  moreover have "VersionEdit_EncodeTo e dst = None \<longleftrightarrow>
      encode_new_files e False (ve_new_files e) (encode_head e dst) = None" for e dst
    by (auto simp: VersionEdit_EncodeTo_def split: option.splits)
  ultimately show ?thesis
    using * l by (simp add: edit_ok_setters edit_ok_files encode_new_files_None VersionEdit_AddFile_def)
qed

theorem version_edit_wellformed_witness:
  "edit_ok (SetMinLogNumberToKeep 4 VersionEdit_Clear)
   \<and> VersionEdit_EncodeTo (push_new_file 0 FileMetaData_init VersionEdit_Clear) [] = None"
proof -
  let ?f = "FileMetaData_init\<lparr>fm_smallest := InternalKey [97] 1 1, fm_largest := InternalKey [98] 2 1\<rparr>"
  have "InternalKey_Valid (InternalKey [97] 1 1)" "InternalKey_Valid (InternalKey [98] 2 1)"
    by code_simp+
  then have "edit_ok VersionEdit_Clear \<and> length ([] :: slice) < 2 ^ 32 \<and> file_ok (0, ?f)"
    by (simp add: edit_ok_def VersionEdit_Clear_def file_ok_def InternalKey_append FileMetaData_init_def)
  note w = version_edit_wellformed [OF this]
  have "\<not> InternalKey_Valid []" by code_simp
  then show ?thesis
    using w by (auto simp: push_new_file_def FileMetaData_init_def VersionEdit_Clear_def)
qed

end
