(* ===== verification/NvmCf.thy ===== *)
theory NvmCf
  imports L0Table PersistentPool VersionEdits
begin

text \<open>
  The module of a column family that keeps its level 0 in non-volatile memory
  (\<open>utilities/nvm_mod/nvm_cf_mod.h\<close>, \<open>nvm_cf_mod.cc\<close>): room for a new table, deletion of a table, point
  queries with cross-row hints and recovery after a restart. Picking a column compaction is in
  \<open>ColumnCompaction\<close>.

  \<open>nm_mem\<close> is the mapped file; reads outside it are faults. The version's level-0 file list is an
  argument of the operations, as a list of \<open>FileMetaData\<close> with the newest file first.
\<close>

section \<open>State\<close>

record NvmCfModule =
  nm_meta :: SstableMetadata
  nm_pool :: PersistentSstable
  nm_mem :: slice
  nm_open_by_creat :: bool

definition level0_table_num :: "nat \<Rightarrow> nat \<Rightarrow> nat" where
  "level0_table_num stop_size write_buffer_size = (stop_size div write_buffer_size + 1) * 2"

text \<open>\<open>mem\<close> is the contents of the mapped file and \<open>exists\<close> whether the file was there before.\<close>

definition NvmCfModule_open :: "nat \<Rightarrow> nat \<Rightarrow> bool \<Rightarrow> slice \<Rightarrow> NvmCfModule" where
  "NvmCfModule_open stop_size write_buffer_size file_exists mem =
     \<lparr>nm_meta = \<lparr>files = [], compaction_files = []\<rparr>,
      nm_pool = PersistentSstable_open (write_buffer_size + 8 * 1024 * 1024)
        (level0_table_num stop_size write_buffer_size),
      nm_mem = mem, nm_open_by_creat = \<not> file_exists\<rparr>"

section \<open>Tables\<close>

text \<open>The offset of the slot, or \<open>None\<close> when the pool is full and the call returns false.\<close>

definition AddL0TableRoom :: "NvmCfModule \<Rightarrow> u64 \<Rightarrow> (nat option \<times> NvmCfModule) result" where
  "AddL0TableRoom m number =
     (case AllocSstable (nm_pool m) of
        Inl e \<Rightarrow> Inl e
      | Inr (None, p) \<Rightarrow> Inr (None, m\<lparr>nm_pool := p\<rparr>)
      | Inr (Some (index, raw), p) \<Rightarrow>
          Inr (Some raw, m\<lparr>nm_pool := p, nm_meta := AddFile (nm_meta m) number (int index)\<rparr>))"

definition DeleteL0file :: "NvmCfModule \<Rightarrow> u64 \<Rightarrow> NvmCfModule result" where
  "DeleteL0file m number =
     (case FindFile (nm_meta m) number True of
        None \<Rightarrow> Inr m
      | Some tmp \<Rightarrow>
          (case DeleteSstable (nm_pool m) (sstable_index tmp) of
             Inl e \<Rightarrow> Inl e
           | Inr p \<Rightarrow> Inr (m\<lparr>nm_pool := p, nm_meta := fst (DeteleFile (nm_meta m) number)\<rparr>)))"

section \<open>Point queries\<close>

text \<open>The user key of the key at an index of a table.\<close>

definition ukey :: "FileEntry \<Rightarrow> nat \<Rightarrow> slice" where
  "ukey f i = ExtractUserKey (km_key (keys_meta f ! i))"

definition UserKeyInRange :: "(slice \<Rightarrow> slice \<Rightarrow> int) \<Rightarrow> slice \<Rightarrow> slice \<Rightarrow> slice \<Rightarrow> bool" where
  "UserKeyInRange ucmp key start end_key =
     (if ucmp key (ExtractUserKey start) < 0 \<or> ucmp key (ExtractUserKey end_key) > 0 then False else True)"

definition UserKeyCompareRange :: "(slice \<Rightarrow> slice \<Rightarrow> int) \<Rightarrow> slice \<Rightarrow> slice \<Rightarrow> slice \<Rightarrow> int" where
  "UserKeyCompareRange ucmp key start end_key =
     (if ucmp key (ExtractUserKey start) < 0 then -1
      else if ucmp key (ExtractUserKey end_key) > 0 then 1 else 0)"

text \<open>The loop of \<open>BinarySearchInFile\<close>: the index of a match, or the final \<open>left\<close> and \<open>right\<close>.\<close>

function search_loop :: "(slice \<Rightarrow> slice \<Rightarrow> int) \<Rightarrow> FileEntry \<Rightarrow> slice \<Rightarrow> int \<Rightarrow> int \<Rightarrow> int + int \<times> int" where
  "search_loop ucmp file key left right =
     (if left \<le> right then
        let mid = (left + right) div 2;
            compare_result = ucmp (ukey file (nat mid)) key
        in if compare_result > 0 then search_loop ucmp file key left (mid - 1)
           else if compare_result < 0 then search_loop ucmp file key (mid + 1) right
           else Inl mid
      else Inr (left, right))"
  by pat_completeness auto
termination
  by (relation "measure (\<lambda>(ucmp, file, key, left, right). nat (right - left + 1))") auto

declare search_loop.simps [simp del]

text \<open>The index found, and \<open>pre_left\<close>, \<open>pre_right\<close> as the call leaves them.\<close>

definition BinarySearchInFile ::
    "(slice \<Rightarrow> slice \<Rightarrow> int) \<Rightarrow> FileEntry \<Rightarrow> int \<Rightarrow> slice \<Rightarrow> int \<Rightarrow> int \<Rightarrow> int option \<times> int \<times> int" where
  "BinarySearchInFile ucmp file first_key_index key pre_left pre_right =
     (let left = (if pre_left \<ge> first_key_index \<and> pre_left < int (keys_num file)
                  then pre_left else first_key_index);
          right = (if pre_right \<ge> first_key_index \<and> pre_right < int (keys_num file)
                   then pre_right else int (keys_num file) - 1)
      in case search_loop ucmp file key left right of
           Inl mid \<Rightarrow> (Some mid, pre_left, pre_right)
         | Inr (l, r) \<Rightarrow> (None, r, l))"

text \<open>
  The loop of \<open>Get\<close> over the tables with their first live key. \<open>pl\<close>, \<open>pr\<close> are \<open>pre_left\<close> and \<open>pre_right\<close>,
  \<open>point\<close> is \<open>next_file_num\<close>; \<open>keys_meta[first_key_indexs[i]]\<close> is read before the search.
\<close>

fun get_loop ::
    "(slice \<Rightarrow> slice \<Rightarrow> int) \<Rightarrow> slice \<Rightarrow> (FileEntry \<times> nat) list \<Rightarrow> int \<Rightarrow> int \<Rightarrow> u64 \<Rightarrow> (FileEntry \<times> int) option result" where
  "get_loop ucmp key [] pl pr point = Inr None"
| "get_loop ucmp key ((file, first) # rest) pl pr point =
     (if first \<ge> keys_num file then Inl OutOfBounds
      else
        let (pl, pr) = (if point \<noteq> filenum file then (-1, -1) else (pl, pr));
            n = int (keys_num file);
            com_result = UserKeyCompareRange ucmp key (km_key (keys_meta file ! first))
                           (km_key (keys_meta file ! (keys_num file - 1)))
        in if com_result = 0 then
             case BinarySearchInFile ucmp file (int first) key pl pr of
               (Some find_index, _, _) \<Rightarrow> Inr (Some (file, find_index))
             | (None, pl1, pr1) \<Rightarrow>
                 let pl2 = (if pl1 \<ge> int first \<and> pl1 < n
                            then km_next (keys_meta file ! nat pl1) - 1 else pl1);
                     pr2 = (if pr1 \<ge> int first \<and> pr1 < n
                            then km_next (keys_meta file ! nat pr1) else pr1)
                 in get_loop ucmp key rest pl2 pr2 (key_point_filenum file)
           else if com_result < 0 then
             get_loop ucmp key rest (-1) (km_next (keys_meta file ! first)) (key_point_filenum file)
           else
             get_loop ucmp key rest (km_next (keys_meta file ! (keys_num file - 1)) - 1) (-1)
               (key_point_filenum file))"

definition GetValueInFile :: "NvmCfModule \<Rightarrow> FileEntry \<Rightarrow> int \<Rightarrow> slice result" where
  "GetValueInFile m file find_index =
     (if find_index < 0 \<or> find_index \<ge> int (keys_num file) then Inl OutOfBounds
      else
        case GetIndexPtr (nm_pool m) (sstable_index file) of
          Inl e \<Rightarrow> Inl e
        | Inr data_addr \<Rightarrow>
            let off = data_addr + unat (km_offset (keys_meta file ! nat find_index))
            in if off + 8 > length (nm_mem m) then Inl OutOfBounds
               else
                 let key_size = unat (DecodeFixed64 kLittleEndian (drop off (nm_mem m)));
                     off2 = off + 8 + key_size
                 in if off2 + 8 > length (nm_mem m) then Inl OutOfBounds
                    else
                      let value_size = unat (DecodeFixed64 kLittleEndian (drop off2 (nm_mem m)));
                          off3 = off2 + 8
                      in if off3 + value_size > length (nm_mem m) then Inl OutOfBounds
                         else Inr (take value_size (drop off3 (nm_mem m))))"

text \<open>\<open>None\<close> when \<open>Get\<close> returns false; with a value the status is \<open>OK\<close>.\<close>

definition NvmCf_Get ::
    "(slice \<Rightarrow> slice \<Rightarrow> int) \<Rightarrow> NvmCfModule \<Rightarrow> FileMetaData list \<Rightarrow> LookupKey \<Rightarrow> (Status \<times> slice) option result" where
  "NvmCf_Get ucmp m L0files lkey =
     (let findfiles = GetL0Files (map (\<lambda>f. GetNumber (fm_fd f)) L0files) (files (nm_meta m));
          first_key_indexs = map (\<lambda>f. unat (fm_first_key_index f)) L0files
      in case get_loop ucmp (LookupKey_user_key lkey) (zip findfiles first_key_indexs) (-1) (-1) 0 of
           Inl e \<Rightarrow> Inl e
         | Inr None \<Rightarrow> Inr None
         | Inr (Some (file, find_index)) \<Rightarrow>
             (case GetValueInFile m file find_index of
                Inl e \<Rightarrow> Inl e
              | Inr v \<Rightarrow> Inr (Some (OK, v))))"

section \<open>Recovery\<close>

text \<open>The loop that reads the key metadata back from \<open>buf\<close>.\<close>

fun parse_key_metas :: "nat \<Rightarrow> slice \<Rightarrow> KeysMetadata list result" where
  "parse_key_metas 0 buf = Inr []"
| "parse_key_metas (Suc n) buf =
     (case GetFixed64 buf of
        None \<Rightarrow> Inl OutOfBounds
      | Some (key_size, b1) \<Rightarrow>
          if length b1 < unat key_size then Inl OutOfBounds
          else
            (case GetFixed32 (drop (unat key_size) b1) of
               None \<Rightarrow> Inl OutOfBounds
             | Some (nxt, b2) \<Rightarrow>
                 (case GetFixed64 b2 of
                    None \<Rightarrow> Inl OutOfBounds
                  | Some (off, b3) \<Rightarrow>
                      (case GetFixed64 b3 of
                         None \<Rightarrow> Inl OutOfBounds
                       | Some (sz, b4) \<Rightarrow>
                           (case parse_key_metas n b4 of
                              Inl e \<Rightarrow> Inl e
                            | Inr ks \<Rightarrow>
                                Inr (\<lparr>km_key = take (unat key_size) b1, km_next = sint nxt, km_offset = off,
                                      km_size = sz\<rparr> # ks))))))"

text \<open>Assignments through the \<open>FileEntry*\<close> of the file just added.\<close>

definition set_file :: "u64 \<Rightarrow> (FileEntry \<Rightarrow> FileEntry) \<Rightarrow> SstableMetadata \<Rightarrow> SstableMetadata" where
  "set_file n upd m = m\<lparr>files := update_file n upd (files m)\<rparr>"

definition recover_file :: "FileMetaData \<Rightarrow> NvmCfModule \<Rightarrow> NvmCfModule result" where
  "recover_file f m =
     (let number = GetNumber (fm_fd f)
      in case FindFile (nm_meta m) number True of
           Some _ \<Rightarrow> Inr m
         | None \<Rightarrow>
             (case RecoverAddSstable (nm_pool m) (fm_nvm_sstable_index f) of
                Inl e \<Rightarrow> Inl e
              | Inr p \<Rightarrow>
                  (case GetIndexPtr p (fm_nvm_sstable_index f) of
                     Inl e \<Rightarrow> Inl e
                   | Inr file_ptr \<Rightarrow>
                       let offset = file_ptr + unat (fm_raw_file_size f);
                           keys_meta_size = unat (fm_nvm_meta_size f)
                       in if offset + keys_meta_size > length (nm_mem m) then Inl OutOfBounds
                          else
                            case parse_key_metas (unat (fm_keys_num f))
                                   (take keys_meta_size (drop offset (nm_mem m))) of
                              Inl e \<Rightarrow> Inl e
                            | Inr ks \<Rightarrow>
                                Inr (m\<lparr>nm_pool := p,
                                       nm_meta := set_file number
                                         (\<lambda>g. g\<lparr>keys_meta := ks,
                                               key_point_filenum := fm_key_point_filenum f\<rparr>)
                                         (AddFile (nm_meta m) number (fm_nvm_sstable_index f))\<rparr>))))"

text \<open>The files are recovered from the oldest to the newest, so that each is added in front.\<close>

fun recover_files :: "FileMetaData list \<Rightarrow> NvmCfModule \<Rightarrow> NvmCfModule result" where
  "recover_files [] m = Inr m"
| "recover_files (f # fs) m =
     (case recover_file f m of Inl e \<Rightarrow> Inl e | Inr m' \<Rightarrow> recover_files fs m')"

definition RecoverFromStorageInfo :: "FileMetaData list \<Rightarrow> NvmCfModule \<Rightarrow> NvmCfModule result" where
  "RecoverFromStorageInfo L0files m =
     (if length L0files = 0 then Inr m
      else if nm_open_by_creat m then Inr m
      else recover_files (rev L0files) m)"

section \<open>Ownership of slots\<close>

text \<open>The tables own exactly the used slots of the pool, each its own.\<close>

definition module_ok :: "NvmCfModule \<Rightarrow> bool" where
  "module_ok m \<longleftrightarrow>
     metadata_ok (nm_meta m) \<and> pool_ok (nm_pool m)
     \<and> (\<forall>f \<in> set (files (nm_meta m)). 0 \<le> sstable_index f)
     \<and> distinct (map (\<lambda>f. nat (sstable_index f)) (files (nm_meta m)))
     \<and> set (map (\<lambda>f. nat (sstable_index f)) (files (nm_meta m))) = used (nm_pool m)"

lemma NvmCfModule_open_ok: "module_ok (NvmCfModule_open a b c d)"
  using pool_open_ok by (simp add: module_ok_def NvmCfModule_open_def metadata_ok_def)

lemma AddL0TableRoom_cases:
  assumes "module_ok m" and "number \<notin> set (map filenum (files (nm_meta m)))"
  shows "(AddL0TableRoom m number = Inr (None, m) \<and> used (nm_pool m) = {..<ps_num (nm_pool m)})
    \<or> (\<exists>raw index m'. AddL0TableRoom m number = Inr (Some raw, m') \<and> module_ok m'
        \<and> files (nm_meta m') = FileEntry_init number (int index) # files (nm_meta m)
        \<and> raw = index * each_size (nm_pool m) \<and> index < ps_num (nm_pool m) \<and> index \<notin> used (nm_pool m)
        \<and> nm_mem m' = nm_mem m \<and> ps_num (nm_pool m') = ps_num (nm_pool m)
        \<and> each_size (nm_pool m') = each_size (nm_pool m))"
proof -
  have ok: "pool_ok (nm_pool m)" and mok: "metadata_ok (nm_meta m)" using assms by (simp_all add: module_ok_def)
  consider "AllocSstable (nm_pool m) = Inr (None, nm_pool m)" "used (nm_pool m) = {..<ps_num (nm_pool m)}"
    | j p' where "AllocSstable (nm_pool m) = Inr (Some (j, j * each_size (nm_pool m)), p')" "pool_ok p'"
      "used p' = insert j (used (nm_pool m))" "j \<notin> used (nm_pool m)" "j < ps_num (nm_pool m)"
      "ps_num p' = ps_num (nm_pool m)" "each_size p' = each_size (nm_pool m)"
    using alloc_from_spec [OF ok, of 0] unfolding AllocSstable_def by auto
  then show ?thesis
  proof cases
    case 1
    then show ?thesis by (simp add: AddL0TableRoom_def)
  next
    case (2 j p')
    let ?m = "m\<lparr>nm_pool := p', nm_meta := AddFile (nm_meta m) number (int j)\<rparr>"
    have "module_ok ?m"
      using assms 2 AddFile_ok [OF mok assms(2), of "int j"]
      by (auto simp: module_ok_def AddFile_def FileEntry_init_def)
    with 2 show ?thesis
      by (intro disjI2 exI [of _ "j * each_size (nm_pool m)"] exI [of _ j] exI [of _ ?m])
        (simp add: AddL0TableRoom_def AddFile_def)
  qed
qed

lemma distinct_map_image_Diff:
  "distinct (map g xs) \<Longrightarrow> x \<in> set xs \<Longrightarrow> g ` (set xs - {x}) = g ` set xs - {g x}"
  by (auto simp: distinct_map inj_on_def)

lemma DeleteL0file_ok:
  assumes "module_ok m"
  shows "\<exists>m'. DeleteL0file m number = Inr m' \<and> module_ok m'
    \<and> files (nm_meta m') = filter (\<lambda>f. filenum f \<noteq> number) (files (nm_meta m))
    \<and> used (nm_pool m') = used (nm_pool m) - {nat (sstable_index f) |f. f \<in> set (files (nm_meta m)) \<and> filenum f = number}"
proof -
  have mok: "metadata_ok (nm_meta m)" and pok: "pool_ok (nm_pool m)"
    and d: "distinct (map filenum (files (nm_meta m)))"
    using assms by (simp_all add: module_ok_def metadata_ok_def)
  show ?thesis
  proof (cases "find_forward (files (nm_meta m)) number")
    case None
    then have "\<forall>f \<in> set (files (nm_meta m)). filenum f \<noteq> number" by (auto simp: find_forward_None)
    with None assms show ?thesis
      by (auto simp: DeleteL0file_def FindFile_direction [OF mok] filter_id_conv)
  next
    case (Some f)
    then have f: "f \<in> set (files (nm_meta m))" "filenum f = number"
      by (simp_all add: find_forward_distinct [OF d])
    then have idx: "0 \<le> sstable_index f" "nat (sstable_index f) \<in> used (nm_pool m)"
      using assms by (auto simp: module_ok_def)
    obtain p where p: "DeleteSstable (nm_pool m) (sstable_index f) = Inr p" "pool_ok p"
      "used p = used (nm_pool m) - {nat (sstable_index f)}"
      using pool.free_slot [OF pok idx(2)] idx(1) by auto
    let ?m = "m\<lparr>nm_pool := p, nm_meta := fst (DeteleFile (nm_meta m) number)\<rparr>"
    have only: "g = f" if "g \<in> set (files (nm_meta m))" "filenum g = number" for g
      using that f d by (metis distinct_map inj_onD)
    have fs: "files (nm_meta ?m) = filter (\<lambda>g. filenum g \<noteq> number) (files (nm_meta m))"
      by (simp add: DeteleFile_def erase_file_filter [OF d])
    have "set (files (nm_meta ?m)) = set (files (nm_meta m)) - {f}"
      unfolding fs set_filter using only f by blast
    then have "(\<lambda>g. nat (sstable_index g)) ` set (files (nm_meta ?m)) =
        (\<lambda>g. nat (sstable_index g)) ` set (files (nm_meta m)) - {nat (sstable_index f)}"
      using distinct_map_image_Diff [of "\<lambda>g. nat (sstable_index g)" "files (nm_meta m)" f] f assms
      by (simp add: module_ok_def)
    with assms p have "module_ok ?m"
      using DeteleFile_ok [OF mok, of number] fs
      by (auto simp: module_ok_def distinct_map_filter)
    moreover have "{nat (sstable_index g) |g. g \<in> set (files (nm_meta m)) \<and> filenum g = number} =
        {nat (sstable_index f)}" using only f by blast
    moreover have "DeleteL0file m number = Inr ?m"
      using Some p(1) by (simp add: DeleteL0file_def FindFile_direction [OF mok])
    ultimately show ?thesis using fs p(3) by (intro exI [of _ ?m]) simp
  qed
qed

section \<open>The search with cross-row hints\<close>

text \<open>Whether a table has the user key among its live keys, those from \<open>first\<close> on.\<close>

definition has_key :: "(slice \<Rightarrow> slice \<Rightarrow> int) \<Rightarrow> slice \<Rightarrow> FileEntry \<times> nat \<Rightarrow> bool" where
  "has_key ucmp key fa \<longleftrightarrow>
     (\<exists>i \<in> {snd fa..<keys_num (fst fa)}. ucmp (ukey (fst fa) i) key = 0)"

text \<open>A table whose keys are sorted and that has a live key.\<close>

definition table_ok :: "(slice \<Rightarrow> slice \<Rightarrow> int) \<Rightarrow> FileEntry \<times> nat \<Rightarrow> bool" where
  "table_ok ucmp fa \<longleftrightarrow>
     snd fa < keys_num (fst fa)
     \<and> sorted_keys (InternalKeyComparator_Compare ucmp) (keys_of (keys_meta (fst fa)))"

text \<open>Of two neighbouring tables the newer one carries hints into the older one, if it names it.\<close>

fun hints_ok :: "(slice \<Rightarrow> slice \<Rightarrow> int) \<Rightarrow> (FileEntry \<times> nat) list \<Rightarrow> bool" where
  "hints_ok ucmp ((f, a) # (g, b) # rest) \<longleftrightarrow>
     (key_point_filenum f = filenum g \<longrightarrow> linked (InternalKeyComparator_Compare ucmp) f g)
     \<and> hints_ok ucmp ((g, b) # rest)"
| "hints_ok ucmp _ \<longleftrightarrow> True"

text \<open>A hint that is an index of the table bounds the user key from its side.\<close>

definition hint_left :: "(slice \<Rightarrow> slice \<Rightarrow> int) \<Rightarrow> slice \<Rightarrow> FileEntry \<Rightarrow> int \<Rightarrow> bool" where
  "hint_left ucmp key f pl \<longleftrightarrow> (0 \<le> pl \<and> pl < int (keys_num f) \<longrightarrow> ucmp (ukey f (nat pl)) key < 0)"

definition hint_right :: "(slice \<Rightarrow> slice \<Rightarrow> int) \<Rightarrow> slice \<Rightarrow> FileEntry \<Rightarrow> int \<Rightarrow> bool" where
  "hint_right ucmp key f pr \<longleftrightarrow> (0 \<le> pr \<and> pr < int (keys_num f) \<longrightarrow> ucmp (ukey f (nat pr)) key > 0)"

context user_comparator
begin

lemma ikc_less_user:
  "InternalKeyComparator_Compare ucmp a b \<le> 0 \<Longrightarrow> ucmp (ExtractUserKey a) (ExtractUserKey b) \<le> 0"
  by (auto simp: InternalKeyComparator_Compare_footer Let_def split: if_splits)

lemma ukey_mono:
  assumes "sorted_keys (InternalKeyComparator_Compare ucmp) (keys_of (keys_meta f))"
    and "i \<le> j" and "j < keys_num f"
  shows "ucmp (ukey f i) (ukey f j) \<le> 0"
proof (cases "i = j")
  case False
  with assms(2,3) have "InternalKeyComparator_Compare ucmp (keys_of (keys_meta f) ! i) (keys_of (keys_meta f) ! j) < 0"
    by (intro sorted_keys_nth [OF assms(1)]) (simp_all add: keys_num_def)
  with assms(2,3) show ?thesis using ikc_less_user by (simp add: ukey_def keys_num_def)
qed simp

lemma search_loop_spec:
  assumes "0 \<le> a" and "a \<le> left" and "left \<le> right + 1" and "right < n"
    and "\<And>i. a \<le> i \<Longrightarrow> i < left \<Longrightarrow> ucmp (ukey f (nat i)) key < 0"
    and "\<And>i. right < i \<Longrightarrow> i < n \<Longrightarrow> ucmp (ukey f (nat i)) key > 0"
    and "\<And>i j. a \<le> i \<Longrightarrow> i \<le> j \<Longrightarrow> j < n \<Longrightarrow> ucmp (ukey f (nat i)) (ukey f (nat j)) \<le> 0"
  shows "case search_loop ucmp f key left right of
      Inl mid \<Rightarrow> a \<le> mid \<and> mid < n \<and> ucmp (ukey f (nat mid)) key = 0
    | Inr (l, r) \<Rightarrow> r = l - 1 \<and> a \<le> l \<and> l \<le> n \<and> (\<forall>i. a \<le> i \<and> i < l \<longrightarrow> ucmp (ukey f (nat i)) key < 0)
        \<and> (\<forall>i. l \<le> i \<and> i < n \<longrightarrow> ucmp (ukey f (nat i)) key > 0)"
  using assms(2-6)
proof (induction "nat (right - left + 1)" arbitrary: left right rule: less_induct)
  case less
  note mono = assms(7)
  show ?case
  proof (cases "left \<le> right")
    case False
    then show ?thesis using less.prems by (auto simp: search_loop.simps [of ucmp f key left right])
  next
    case True
    define mid where "mid = (left + right) div 2"
    have mid: "left \<le> mid" "mid \<le> right" using True by (simp_all add: mid_def)
    consider (gt) "ucmp (ukey f (nat mid)) key > 0" | (lt) "ucmp (ukey f (nat mid)) key < 0"
      | (eq) "ucmp (ukey f (nat mid)) key = 0" by linarith
    then show ?thesis
    proof cases
      case gt
      have "ucmp (ukey f (nat i)) key > 0" if "mid - 1 < i" "i < n" for i
        using mono [of mid i] gt that mid less.prems(1)
          cmp_le_trans [of "ukey f (nat mid)" "ukey f (nat i)" key] by fastforce
      moreover have step: "search_loop ucmp f key left right = search_loop ucmp f key left (mid - 1)"
        using gt True by (simp add: search_loop.simps [of ucmp f key left right] mid_def [symmetric])
      ultimately show ?thesis
        unfolding step using less.hyps [of "mid - 1" left] less.prems mid by simp
    next
      case lt
      have "ucmp (ukey f (nat i)) key < 0" if "a \<le> i" "i < mid + 1" for i
        using mono [of i mid] lt that mid less.prems(3)
          cmp_le_less_trans [of "ukey f (nat i)" "ukey f (nat mid)" key] by fastforce
      moreover have step: "search_loop ucmp f key left right = search_loop ucmp f key (mid + 1) right"
        using lt True by (simp add: search_loop.simps [of ucmp f key left right] mid_def [symmetric])
      ultimately show ?thesis
        unfolding step using less.hyps [of right "mid + 1"] less.prems mid by simp
    next
      case eq
      then show ?thesis
        using less.prems(1,3) mid True
        by (simp add: search_loop.simps [of ucmp f key left right] mid_def [symmetric] Let_def)
    qed
  qed
qed

lemma BinarySearchInFile_spec:
  assumes ok: "table_ok ucmp (f, a)" and hl: "hint_left ucmp key f pl" and hr: "hint_right ucmp key f pr"
    and "ucmp (ukey f a) key \<le> 0" and "ucmp key (ukey f (keys_num f - 1)) \<le> 0"
  shows "case BinarySearchInFile ucmp f (int a) key pl pr of
      (Some mid, _) \<Rightarrow> int a \<le> mid \<and> mid < int (keys_num f) \<and> ucmp (ukey f (nat mid)) key = 0
    | (None, r, l) \<Rightarrow> \<not> has_key ucmp key (f, a) \<and> int a \<le> r \<and> r < int (keys_num f) \<and> ucmp (ukey f (nat r)) key < 0
        \<and> int a \<le> l \<and> l < int (keys_num f) \<and> ucmp (ukey f (nat l)) key > 0"
proof -
  let ?n = "int (keys_num f)"
  define left where "left = (if pl \<ge> int a \<and> pl < ?n then pl else int a)"
  define right where "right = (if pr \<ge> int a \<and> pr < ?n then pr else ?n - 1)"
  have a: "a < keys_num f" and mono': "\<And>i j. i \<le> j \<Longrightarrow> j < keys_num f \<Longrightarrow> ucmp (ukey f i) (ukey f j) \<le> 0"
    using ok ukey_mono by (simp_all add: table_ok_def)
  have mono: "ucmp (ukey f (nat i)) (ukey f (nat j)) \<le> 0" if "int a \<le> i" "i \<le> j" "j < ?n" for i j
    using mono' [of "nat i" "nat j"] that by (simp add: nat_less_iff)
  have low: "ucmp (ukey f (nat i)) key < 0" if "int a \<le> i" "i < left" for i
    using that mono [of i pl] hl cmp_le_less_trans by (auto simp: left_def hint_left_def split: if_splits)
  have high: "ucmp (ukey f (nat i)) key > 0" if "right < i" "i < ?n" for i
    using that mono [of pr i] hr cmp_le_trans [of "ukey f (nat pr)" "ukey f (nat i)" key]
    by (fastforce simp: right_def hint_right_def split: if_splits)
  have "left \<le> right + 1"
  proof (rule ccontr)
    assume *: "\<not> left \<le> right + 1"
    then have "pl \<ge> int a" "pl < ?n" "left = pl" and "pr \<ge> int a" "pr < ?n" "right = pr"
      using a by (auto simp: left_def right_def split: if_splits)
    with * low [of "right + 1"] high [of "right + 1"] show False by simp
  qed
  moreover have "int a \<le> left" "right < ?n" using a by (auto simp: left_def right_def)
  ultimately have spec: "case search_loop ucmp f key left right of
      Inl mid \<Rightarrow> int a \<le> mid \<and> mid < ?n \<and> ucmp (ukey f (nat mid)) key = 0
    | Inr (l, r) \<Rightarrow> r = l - 1 \<and> int a \<le> l \<and> l \<le> ?n \<and> (\<forall>i. int a \<le> i \<and> i < l \<longrightarrow> ucmp (ukey f (nat i)) key < 0)
        \<and> (\<forall>i. l \<le> i \<and> i < ?n \<longrightarrow> ucmp (ukey f (nat i)) key > 0)"
    using low high mono by (intro search_loop_spec) simp_all
  have eq: "BinarySearchInFile ucmp f (int a) key pl pr =
      (case search_loop ucmp f key left right of Inl mid \<Rightarrow> (Some mid, pl, pr) | Inr (l, r) \<Rightarrow> (None, r, l))"
    by (simp add: BinarySearchInFile_def Let_def left_def right_def)
  show ?thesis
  proof (cases "search_loop ucmp f key left right")
    case (Inl mid)
    then show ?thesis using spec eq by simp
  next
    case (Inr lr)
    obtain l r where lr: "lr = (l, r)" by fastforce
    with Inr spec have s: "r = l - 1" "int a \<le> l" "l \<le> ?n"
      "\<And>i. int a \<le> i \<Longrightarrow> i < l \<Longrightarrow> ucmp (ukey f (nat i)) key < 0"
      "\<And>i. l \<le> i \<Longrightarrow> i < ?n \<Longrightarrow> ucmp (ukey f (nat i)) key > 0" by auto
    have "l \<noteq> int a" using s(5) [of "int a"] a assms(4) by force
    moreover have "l \<noteq> ?n"
      using s(4) [of "?n - 1"] a assms(5) cmp_le_iff [of key "ukey f (keys_num f - 1)"]
      by (force simp: nat_diff_distrib')
    moreover have "\<not> has_key ucmp key (f, a)"
    proof
      assume "has_key ucmp key (f, a)"
      then obtain i where "a \<le> i" "i < keys_num f" "ucmp (ukey f i) key = 0" by (auto simp: has_key_def)
      then show False using s(4) [of "int i"] s(5) [of "int i"] by (cases "int i < l") auto
    qed
    ultimately show ?thesis using eq Inr lr s by auto
  qed
qed

lemma linked_hint_left:
  assumes "linked (InternalKeyComparator_Compare ucmp) f g" and "i < keys_num f" and "ucmp (ukey f i) key < 0"
  shows "hint_left ucmp key g (km_next (keys_meta f ! i) - 1)"
proof -
  let ?ic = "InternalKeyComparator_Compare ucmp" and ?gs = "keys_of (keys_meta g)"
  let ?k = "km_key (keys_meta f ! i)"
  have nxt: "km_next (keys_meta f ! i) = hint_for ?ic ?gs ?k"
    using assms(1,2) by (auto simp: linked_def keys_num_def)
  show ?thesis
  proof (cases "lower_bound ?ic ?gs ?k < length ?gs \<and> 0 < lower_bound ?ic ?gs ?k")
    case True
    define j where "j = lower_bound ?ic ?gs ?k - 1"
    have "?ic (?gs ! j) ?k < 0" using True by (intro lower_bound_before) (simp add: j_def)
    moreover have "j < length (keys_meta g)" using True by (simp add: j_def less_imp_diff_less)
    ultimately have "ucmp (ukey g j) (ukey f i) \<le> 0"
      using ikc_less_user [of "?gs ! j" ?k] by (simp add: ukey_def)
    then have "ucmp (ukey g j) key < 0" using assms(3) by (rule cmp_le_less_trans)
    moreover have "km_next (keys_meta f ! i) - 1 = int j" using True by (simp add: nxt hint_for_def Let_def j_def)
    ultimately show ?thesis by (simp add: hint_left_def)
  next
    case False
    then show ?thesis by (auto simp: hint_left_def nxt hint_for_def Let_def)
  qed
qed

lemma linked_hint_right:
  assumes "linked (InternalKeyComparator_Compare ucmp) f g" and "i < keys_num f" and "ucmp (ukey f i) key > 0"
  shows "hint_right ucmp key g (km_next (keys_meta f ! i))"
proof -
  let ?ic = "InternalKeyComparator_Compare ucmp" and ?gs = "keys_of (keys_meta g)"
  let ?k = "km_key (keys_meta f ! i)"
  have nxt: "km_next (keys_meta f ! i) = hint_for ?ic ?gs ?k"
    using assms(1,2) by (auto simp: linked_def keys_num_def)
  show ?thesis
  proof (cases "lower_bound ?ic ?gs ?k < length ?gs")
    case True
    define j where "j = lower_bound ?ic ?gs ?k"
    have "?ic ?k (?gs ! j) \<le> 0" using lower_bound_at [OF True] ikc.cmp_le_iff by (simp add: j_def)
    then have "ucmp (ukey f i) (ukey g j) \<le> 0"
      using ikc_less_user [of ?k "?gs ! j"] True by (simp add: ukey_def j_def)
    moreover have "ucmp key (ukey f i) < 0" using assms(3) cmp_swap by simp
    ultimately have "ucmp key (ukey g j) < 0" using cmp_less_le_trans by blast
    then have "ucmp (ukey g j) key > 0" using cmp_swap by simp
    moreover have "km_next (keys_meta f ! i) = int j" using True by (simp add: nxt hint_for_def Let_def j_def)
    ultimately show ?thesis by (simp add: hint_right_def)
  next
    case False
    then show ?thesis by (auto simp: hint_right_def nxt hint_for_def Let_def)
  qed
qed

lemma get_loop_below:
  assumes "a < keys_num f" and "ucmp key (ukey f a) < 0"
  shows "get_loop ucmp key ((f, a) # rest) pl pr point =
    get_loop ucmp key rest (-1) (km_next (keys_meta f ! a)) (key_point_filenum f)"
  using assms by (cases "point = filenum f") (simp_all add: UserKeyCompareRange_def ukey_def)

lemma get_loop_above:
  assumes "a < keys_num f" and "\<not> ucmp key (ukey f a) < 0" and "ucmp key (ukey f (keys_num f - 1)) > 0"
  shows "get_loop ucmp key ((f, a) # rest) pl pr point =
    get_loop ucmp key rest (km_next (keys_meta f ! (keys_num f - 1)) - 1) (-1) (key_point_filenum f)"
  using assms by (cases "point = filenum f") (simp_all add: UserKeyCompareRange_def ukey_def)

lemma get_loop_inside:
  assumes "a < keys_num f" and "\<not> ucmp key (ukey f a) < 0" and "\<not> ucmp key (ukey f (keys_num f - 1)) > 0"
    and "pl' = (if point \<noteq> filenum f then -1 else pl)" and "pr' = (if point \<noteq> filenum f then -1 else pr)"
    and "BinarySearchInFile ucmp f (int a) key pl' pr' = (res, r, l)"
    and "int a \<le> r \<and> r < int (keys_num f) \<and> int a \<le> l \<and> l < int (keys_num f) \<or> res \<noteq> None"
  shows "get_loop ucmp key ((f, a) # rest) pl pr point = (case res of Some idx \<Rightarrow> Inr (Some (f, idx))
    | None \<Rightarrow> get_loop ucmp key rest (km_next (keys_meta f ! nat r) - 1) (km_next (keys_meta f ! nat l))
        (key_point_filenum f))"
  using assms
  by (cases "point = filenum f"; cases res) (simp_all add: UserKeyCompareRange_def ukey_def Let_def)

lemma get_loop_spec:
  assumes "list_all (table_ok ucmp) fs" and "hints_ok ucmp fs"
    and "\<And>f a rest. fs = (f, a) # rest \<Longrightarrow> point = filenum f \<Longrightarrow> hint_left ucmp key f pl \<and> hint_right ucmp key f pr"
  shows "case find (has_key ucmp key) fs of
      None \<Rightarrow> get_loop ucmp key fs pl pr point = Inr None
    | Some (f, a) \<Rightarrow> \<exists>idx. get_loop ucmp key fs pl pr point = Inr (Some (f, idx))
        \<and> int a \<le> idx \<and> idx < int (keys_num f) \<and> ucmp (ukey f (nat idx)) key = 0"
  using assms
proof (induction fs arbitrary: pl pr point)
  case (Cons fa rest)
  obtain f a where fa: "fa = (f, a)" by fastforce
  have ok: "table_ok ucmp (f, a)" and oks: "list_all (table_ok ucmp) rest"
    using Cons.prems(1) fa by simp_all
  have a: "a < keys_num f" using ok by (simp add: table_ok_def)
  have hs: "hints_ok ucmp rest" using Cons.prems(2) fa by (cases rest) auto
  have link: "linked (InternalKeyComparator_Compare ucmp) f g"
    if "rest = (g, b) # r" "key_point_filenum f = filenum g" for g b r
    using Cons.prems(2) fa that by simp
  have IH: "case find (has_key ucmp key) rest of
      None \<Rightarrow> get_loop ucmp key rest l r (key_point_filenum f) = Inr None
    | Some (f', a') \<Rightarrow> \<exists>idx. get_loop ucmp key rest l r (key_point_filenum f) = Inr (Some (f', idx))
        \<and> int a' \<le> idx \<and> idx < int (keys_num f') \<and> ucmp (ukey f' (nat idx)) key = 0"
    if "\<And>g. linked (InternalKeyComparator_Compare ucmp) f g \<Longrightarrow> hint_left ucmp key g l \<and> hint_right ucmp key g r" for l r
    using Cons.IH [OF oks hs, of "key_point_filenum f" l r] that link by blast
  have none: "hint_left ucmp key g (-1)" "hint_right ucmp key g (-1)" for g
    by (simp_all add: hint_left_def hint_right_def)
  define pl' pr' where "pl' = (if point \<noteq> filenum f then -1 else pl)" and "pr' = (if point \<noteq> filenum f then -1 else pr)"
  have hint: "hint_left ucmp key f pl'" "hint_right ucmp key f pr'"
    using Cons.prems(3) [of f a rest] fa none by (auto simp: pl'_def pr'_def)
  consider (below) "ucmp key (ukey f a) < 0"
    | (above) "\<not> ucmp key (ukey f a) < 0" "ucmp key (ukey f (keys_num f - 1)) > 0"
    | (inside) "\<not> ucmp key (ukey f a) < 0" "\<not> ucmp key (ukey f (keys_num f - 1)) > 0" by blast
  then show ?case
  proof cases
    case below
    have "\<not> has_key ucmp key (f, a)"
    proof
      assume "has_key ucmp key (f, a)"
      then obtain i where "a \<le> i" "i < keys_num f" "ucmp (ukey f i) key = 0" by (auto simp: has_key_def)
      then have "ucmp (ukey f a) key \<le> 0"
        using ok ukey_mono [of f a i] cmp_le_trans [of "ukey f a" "ukey f i" key] by (simp add: table_ok_def)
      then show False using below cmp_le_iff [of "ukey f a" key] by simp
    qed
    then have fnd: "find (has_key ucmp key) (fa # rest) = find (has_key ucmp key) rest" by (simp add: fa)
    have step: "get_loop ucmp key (fa # rest) pl pr point =
        get_loop ucmp key rest (-1) (km_next (keys_meta f ! a)) (key_point_filenum f)"
      unfolding fa by (rule get_loop_below [OF a below])
    have first: "ucmp (ukey f a) key > 0" using below cmp_swap by simp
    show ?thesis unfolding fnd step by (rule IH) (blast intro: none linked_hint_right [OF _ a first])
  next
    case above
    let ?l = "keys_num f - 1"
    have l: "?l < keys_num f" using a by simp
    have last: "ucmp (ukey f ?l) key < 0" using above(2) cmp_swap by simp
    have "\<not> has_key ucmp key (f, a)"
    proof
      assume "has_key ucmp key (f, a)"
      then obtain i where "a \<le> i" "i < keys_num f" "ucmp (ukey f i) key = 0" by (auto simp: has_key_def)
      moreover from this have "ucmp (ukey f i) (ukey f ?l) \<le> 0"
        using ok ukey_mono [of f i ?l] by (simp add: table_ok_def)
      ultimately show False using cmp_le_less_trans [OF _ last, of "ukey f i"] by simp
    qed
    then have fnd: "find (has_key ucmp key) (fa # rest) = find (has_key ucmp key) rest" by (simp add: fa)
    have step: "get_loop ucmp key (fa # rest) pl pr point =
        get_loop ucmp key rest (km_next (keys_meta f ! ?l) - 1) (-1) (key_point_filenum f)"
      unfolding fa by (rule get_loop_above [OF a above])
    show ?thesis unfolding fnd step by (rule IH) (blast intro: none linked_hint_left [OF _ l last])
  next
    case inside
    then have "ucmp (ukey f a) key \<le> 0" "ucmp key (ukey f (keys_num f - 1)) \<le> 0"
      using cmp_le_iff [of "ukey f a" key] by simp_all
    note bs = BinarySearchInFile_spec [OF ok hint this]
    show ?thesis
    proof (cases "fst (BinarySearchInFile ucmp f (int a) key pl' pr')")
      case (Some idx)
      then obtain r l where b: "BinarySearchInFile ucmp f (int a) key pl' pr' = (Some idx, r, l)"
        by (metis prod.collapse)
      with bs have idx: "int a \<le> idx" "idx < int (keys_num f)" "ucmp (ukey f (nat idx)) key = 0"
        by (auto split: prod.splits)
      then have "has_key ucmp key (f, a)" by (auto simp: has_key_def intro!: bexI [of _ "nat idx"])
      moreover have "get_loop ucmp key (fa # rest) pl pr point = Inr (Some (f, idx))"
        using get_loop_inside [OF a inside pl'_def pr'_def b] by (simp add: fa)
      ultimately show ?thesis using idx by (simp add: fa)
    next
      case None
      then obtain r l where b: "BinarySearchInFile ucmp f (int a) key pl' pr' = (None, r, l)"
        by (metis prod.collapse)
      with bs have nk: "\<not> has_key ucmp key (f, a)" and r: "int a \<le> r" "r < int (keys_num f)" "ucmp (ukey f (nat r)) key < 0"
        and l: "int a \<le> l" "l < int (keys_num f)" "ucmp (ukey f (nat l)) key > 0" by auto
      then have fnd: "find (has_key ucmp key) (fa # rest) = find (has_key ucmp key) rest" by (simp add: fa)
      have step: "get_loop ucmp key (fa # rest) pl pr point =
          get_loop ucmp key rest (km_next (keys_meta f ! nat r) - 1) (km_next (keys_meta f ! nat l)) (key_point_filenum f)"
        using get_loop_inside [OF a inside pl'_def pr'_def b] r l by (simp add: fa)
      have rl: "nat r < keys_num f" "nat l < keys_num f" using r l by simp_all
      show ?thesis unfolding fnd step
        by (rule IH) (blast intro: linked_hint_left [OF _ rl(1) r(3)] linked_hint_right [OF _ rl(2) l(3)])
    qed
  qed
qed simp

end

section \<open>Stored tables\<close>

text \<open>The memory from the start of a slot on holds the records of the pairs, and the key metadata of
  the table point to them.\<close>

definition table_at :: "slice \<Rightarrow> FileEntry \<Rightarrow> (slice \<times> slice) list \<Rightarrow> bool" where
  "table_at raw f kvs \<longleftrightarrow>
     prefix (records kvs) raw \<and> length (records kvs) < 2 ^ 64
     \<and> map (\<lambda>k. k\<lparr>km_next := -1\<rparr>) (keys_meta f) = metas_from 0 kvs"

definition stored :: "NvmCfModule \<Rightarrow> FileEntry \<Rightarrow> (slice \<times> slice) list \<Rightarrow> bool" where
  "stored m f kvs \<longleftrightarrow>
     0 \<le> sstable_index f \<and> nat (sstable_index f) < ps_num (nm_pool m)
     \<and> table_at (drop (nat (sstable_index f) * each_size (nm_pool m)) (nm_mem m)) f kvs"

lemma table_at_keys:
  assumes "table_at raw f kvs"
  shows "keys_num f = length kvs" and "keys_of (keys_meta f) = map fst kvs"
    and "i < length kvs \<Longrightarrow> ukey f i = ExtractUserKey (fst (kvs ! i))"
    and "i < length kvs \<Longrightarrow> km_offset (keys_meta f ! i) = of_nat (length (records (take i kvs)))"
    and "i < length kvs \<Longrightarrow> km_size (keys_meta f ! i) = of_nat (length (key_value (fst (kvs ! i)) (snd (kvs ! i))))"
proof -
  have *: "map (\<lambda>k. k\<lparr>km_next := -1\<rparr>) (keys_meta f) = metas_from 0 kvs" using assms by (simp add: table_at_def)
  then show n: "keys_num f = length kvs" by (metis keys_num_def length_map metas_from_length)
  show ks: "keys_of (keys_meta f) = map fst kvs"
    using arg_cong [OF *, of keys_of] by (simp add: metas_from_keys comp_def)
  show "ukey f i = ExtractUserKey (fst (kvs ! i))" if "i < length kvs"
    using arg_cong [OF ks, of "\<lambda>l. l ! i"] that n by (simp add: ukey_def keys_num_def)
  show "km_offset (keys_meta f ! i) = of_nat (length (records (take i kvs)))" if "i < length kvs"
    using arg_cong [OF *, of "\<lambda>l. km_offset (l ! i)"] that n metas_from_offset [OF that, of 0]
    by (simp add: keys_num_def)
  show "km_size (keys_meta f ! i) = of_nat (length (key_value (fst (kvs ! i)) (snd (kvs ! i))))" if "i < length kvs"
    using arg_cong [OF *, of "\<lambda>l. km_size (l ! i)"] that n metas_from_size [OF that, of 0]
    by (simp add: keys_num_def)
qed

lemma stored_table_at:
  "stored m f kvs \<Longrightarrow> table_at (drop (nat (sstable_index f) * each_size (nm_pool m)) (nm_mem m)) f kvs"
  by (simp add: stored_def)

lemmas stored_keys = table_at_keys [OF stored_table_at]

lemma records_at:
  assumes "i < length kvs" and "kvs ! i = (k, v)"
  shows "records kvs = records (take i kvs) @ key_value k v @ records (drop (Suc i) kvs)"
  using assms by (metis id_take_nth_drop records_append records_simps(2))

lemma GetValueInFile_stored:
  assumes "stored m f kvs" and "i < length kvs"
  shows "GetValueInFile m f (int i) = Inr (snd (kvs ! i))"
proof -
  obtain k v where kv: "kvs ! i = (k, v)" by fastforce
  let ?base = "nat (sstable_index f) * each_size (nm_pool m)" and ?off = "length (records (take i kvs))"
  note split = records_at [OF assms(2) kv]
  have len: "length (records kvs) < 2 ^ 64" using assms(1) by (simp add: stored_def table_at_def)
  have *: "length (records kvs) = ?off + (length k + length v + 16) + length (records (drop (Suc i) kvs))"
    by (subst split) simp
  then have "?off < 2 ^ 64" and lk: "length k < 2 ^ 64" and lv: "length v < 2 ^ 64" using len by linarith+
  then have off: "unat (km_offset (keys_meta f ! i)) = ?off"
    using stored_keys(4) [OF assms] by (simp add: unat_of_nat take_bit_nat_eq_self)
  obtain tail where "drop ?base (nm_mem m) = records kvs @ tail"
    using assms(1) by (auto simp: stored_def table_at_def prefix_def)
  then have "drop (?base + ?off) (nm_mem m) = key_value k v @ records (drop (Suc i) kvs) @ tail"
    unfolding add.commute [of ?base] by (subst drop_drop [symmetric]) (simp add: split)
  then obtain rest where d: "drop (?base + ?off) (nm_mem m) = key_value k v @ rest" by blast
  have mem: "length (nm_mem m) = ?base + ?off + 8 + length k + 8 + length v + length rest"
    using arg_cong [OF d, of length] by simp
  have ek: "drop (?base + ?off) (nm_mem m) = EncodeFixed64 kLittleEndian (of_nat (length k)) @ k @
      EncodeFixed64 kLittleEndian (of_nat (length v)) @ v @ rest" using d by (simp add: key_value_append)
  have ev: "drop (?base + ?off + 8 + length k) (nm_mem m) =
      EncodeFixed64 kLittleEndian (of_nat (length v)) @ v @ rest"
    using arg_cong [OF ek, of "drop (8 + length k)"] by (simp add: add_ac)
  have et: "drop (?base + ?off + 8 + length k + 8) (nm_mem m) = v @ rest"
    using arg_cong [OF ev, of "drop 8"] by (simp add: add_ac)
  have ptr: "GetIndexPtr (nm_pool m) (sstable_index f) = Inr ?base" and i: "i < keys_num f"
    using assms by (simp_all add: GetIndexPtr_def stored_keys(1) [OF assms(1)]) (simp add: stored_def)
  have sizes: "unat (of_nat (length k) :: u64) = length k" "unat (of_nat (length v) :: u64) = length v"
    using lk lv by (simp_all add: unat_of_nat take_bit_nat_eq_self)
  show ?thesis
    unfolding GetValueInFile_def ptr
    using i mem by (simp only: sum.case Let_def nat_int off ek ev et DecodeFixed64_EncodeFixed64 sizes) (simp add: kv)
qed

section \<open>Recovery of the key metadata\<close>

definition meta_fits :: "KeysMetadata \<Rightarrow> bool" where
  "meta_fits k \<longleftrightarrow> length (km_key k) < 2 ^ 64 \<and> -(2 ^ 31) \<le> km_next k \<and> km_next k < 2 ^ 31"

lemma parse_key_metas_metadatas_of:
  assumes "list_all meta_fits ks"
  shows "parse_key_metas (length ks) (metadatas_of ks @ rest) = Inr ks"
  using assms
proof (induction ks)
  case (Cons k ks)
  have next_k: "sint (word_of_int (km_next k) :: u32) = km_next k"
    using Cons.prems by (intro sint_word_of_int_u32) (simp_all add: meta_fits_def)
  have size_k: "unat (of_nat (length (km_key k)) :: u64) = length (km_key k)"
    using Cons.prems by (simp add: meta_fits_def unat_of_nat take_bit_nat_eq_self)
  show ?case
    using Cons by (simp add: metadatas_of_concat key_meta_bytes_def fixed64.get_enc fixed32.get_enc next_k size_k)
qed (simp add: metadatas_of_concat)

text \<open>The file description has what \<open>RecoverFromStorageInfo\<close> needs to find the key metadata of the
  table behind its records.\<close>

definition persisted :: "NvmCfModule \<Rightarrow> FileMetaData \<Rightarrow> FileEntry \<Rightarrow> bool" where
  "persisted m d f \<longleftrightarrow>
     GetNumber (fm_fd d) = filenum f \<and> fm_nvm_sstable_index d = sstable_index f
     \<and> fm_key_point_filenum d = key_point_filenum f \<and> unat (fm_keys_num d) = keys_num f
     \<and> 0 \<le> sstable_index f \<and> nat (sstable_index f) < ps_num (nm_pool m)
     \<and> take (unat (fm_nvm_meta_size d))
         (drop (nat (sstable_index f) * each_size (nm_pool m) + unat (fm_raw_file_size d)) (nm_mem m))
         = metadatas_of (keys_meta f)
     \<and> nat (sstable_index f) * each_size (nm_pool m) + unat (fm_raw_file_size d) + unat (fm_nvm_meta_size d)
         \<le> length (nm_mem m)
     \<and> list_all meta_fits (keys_meta f)"

lemma recover_file_persisted:
  assumes "module_ok m" and "persisted m d f" and "filenum f \<notin> set (map filenum (files (nm_meta m)))"
    and "nat (sstable_index f) \<notin> used (nm_pool m)"
  obtains m' where "recover_file d m = Inr m'" and "module_ok m'" and "nm_mem m' = nm_mem m"
    and "files (nm_meta m') = f # files (nm_meta m)"
    and "used (nm_pool m') = insert (nat (sstable_index f)) (used (nm_pool m))"
    and "ps_num (nm_pool m') = ps_num (nm_pool m)" and "each_size (nm_pool m') = each_size (nm_pool m)"
proof -
  have ok: "metadata_ok (nm_meta m)" "pool_ok (nm_pool m)" using assms(1) by (simp_all add: module_ok_def)
  have d: "GetNumber (fm_fd d) = filenum f" "fm_nvm_sstable_index d = sstable_index f"
    "fm_key_point_filenum d = key_point_filenum f" "unat (fm_keys_num d) = length (keys_meta f)"
    and idx: "0 \<le> sstable_index f" "nat (sstable_index f) < ps_num (nm_pool m)"
    and fits: "list_all meta_fits (keys_meta f)"
    using assms(2) by (simp_all add: persisted_def keys_num_def)
  have none: "FindFile (nm_meta m) (filenum f) True = None"
    using assms(3) by (simp add: FindFile_direction [OF ok(1)] find_forward_None)
  obtain p where p: "RecoverAddSstable (nm_pool m) (sstable_index f) = Inr p" "pool_ok p"
    "ps_num p = ps_num (nm_pool m)" "each_size p = each_size (nm_pool m)"
    "used p = insert (nat (sstable_index f)) (used (nm_pool m))"
    using RecoverAddSstable_spec [OF ok(2), of "nat (sstable_index f)"] idx by auto
  have ptr: "GetIndexPtr p (sstable_index f) = Inr (nat (sstable_index f) * each_size (nm_pool m))"
    using idx p by (simp add: GetIndexPtr_def)
  have ks: "parse_key_metas (length (keys_meta f)) (metadatas_of (keys_meta f)) = Inr (keys_meta f)"
    using parse_key_metas_metadatas_of [OF fits, of "[]"] by simp
  let ?m = "m\<lparr>nm_pool := p, nm_meta := set_file (filenum f)
    (\<lambda>g. g\<lparr>keys_meta := keys_meta f, key_point_filenum := key_point_filenum f\<rparr>)
    (AddFile (nm_meta m) (filenum f) (sstable_index f))\<rparr>"
  have others: "update_file (filenum f) h (files (nm_meta m)) = files (nm_meta m)" for h
    unfolding update_file_def using assms(3) by (intro map_idI) (metis image_eqI set_map)
  have fs: "files (nm_meta ?m) = f # files (nm_meta m)"
    using others by (simp add: set_file_def AddFile_def update_file_def FileEntry_init_def)
  have "recover_file d m = Inr ?m"
    using assms(2) unfolding recover_file_def Let_def d none p(1) option.case sum.case ptr
    by (auto simp: persisted_def ks)
  moreover have "module_ok ?m"
    using assms fs p idx by (auto simp: module_ok_def metadata_ok_def)
  ultimately show thesis using that [of ?m] fs p by simp
qed

lemma recover_files_persisted:
  assumes "list_all2 (persisted m) ds fs" and "module_ok m"
    and "distinct (map filenum fs)" and "set (map filenum fs) \<inter> set (map filenum (files (nm_meta m))) = {}"
    and "distinct (map (\<lambda>f. nat (sstable_index f)) fs)"
    and "set (map (\<lambda>f. nat (sstable_index f)) fs) \<inter> used (nm_pool m) = {}"
  shows "\<exists>m'. recover_files ds m = Inr m' \<and> module_ok m' \<and> files (nm_meta m') = rev fs @ files (nm_meta m)
    \<and> nm_mem m' = nm_mem m"
  using assms
proof (induction ds arbitrary: m fs)
  case (Cons d ds)
  then obtain f fs' where fs: "fs = f # fs'" and d: "persisted m d f" "list_all2 (persisted m) ds fs'"
    by (auto simp: list_all2_Cons1)
  have new: "filenum f \<notin> set (map filenum (files (nm_meta m)))" "nat (sstable_index f) \<notin> used (nm_pool m)"
    using Cons.prems(4,6) fs by auto
  obtain m1 where m1: "recover_file d m = Inr m1" "module_ok m1" "nm_mem m1 = nm_mem m"
    "files (nm_meta m1) = f # files (nm_meta m)"
    "used (nm_pool m1) = insert (nat (sstable_index f)) (used (nm_pool m))"
    "ps_num (nm_pool m1) = ps_num (nm_pool m)" "each_size (nm_pool m1) = each_size (nm_pool m)"
    using Cons.prems(2) d(1) new by (rule recover_file_persisted)
  have "persisted m1 = persisted m" using m1 by (intro ext) (simp add: persisted_def)
  then have "\<exists>m'. recover_files ds m1 = Inr m' \<and> module_ok m' \<and> files (nm_meta m') = rev fs' @ files (nm_meta m1)
      \<and> nm_mem m' = nm_mem m1"
    using Cons.prems m1 d(2) fs by (intro Cons.IH) auto
  then show ?case using m1 fs by auto
qed simp

section \<open>Operations of the module as steps\<close>

text \<open>What flushes, obsolete files and recovery do to the tables of a module, in any order. A file
  number is used once.\<close>

inductive module_step :: "NvmCfModule \<Rightarrow> NvmCfModule \<Rightarrow> bool" where
  add_room: "AddL0TableRoom m number = Inr (room, m') \<Longrightarrow> number \<notin> set (map filenum (files (nm_meta m))) \<Longrightarrow>
    module_step m m'"
| delete_file: "DeleteL0file m number = Inr m' \<Longrightarrow> module_step m m'"
| write_slot: "length mem = length (nm_mem m) \<Longrightarrow> module_step m (m\<lparr>nm_mem := mem\<rparr>)"

inductive_simps module_step_iff: "module_step m m'"

lemma module_step_ok: "module_step m m' \<Longrightarrow> module_ok m \<Longrightarrow> module_ok m'"
proof (induction rule: module_step.induct)
  case (add_room m number room m')
  then show ?case using AddL0TableRoom_cases [OF add_room.prems add_room.hyps(2)] by auto
next
  case (delete_file m number m')
  then show ?case using DeleteL0file_ok [of m number] by auto
qed (simp add: module_ok_def)

lemma module_steps_ok: "module_step\<^sup>*\<^sup>* m m' \<Longrightarrow> module_ok m \<Longrightarrow> module_ok m'"
  by (induction rule: rtranclp_induct) (auto intro: module_step_ok)

lemma module_step_sizes:
  "module_step m m' \<Longrightarrow> module_ok m \<Longrightarrow>
     ps_num (nm_pool m') = ps_num (nm_pool m) \<and> each_size (nm_pool m') = each_size (nm_pool m)"
proof (induction rule: module_step.induct)
  case (add_room m number room m')
  then show ?case using AddL0TableRoom_cases [OF add_room.prems add_room.hyps(2)] by auto
next
  case (delete_file m number m')
  then show ?case
    by (auto simp: DeleteL0file_def DeleteSstable_def split: option.splits sum.splits prod.splits)
qed simp

section \<open>Properties\<close>

text \<open>The live pairs of a table with the user key, those from its first live key on.\<close>

definition live_matches :: "(slice \<Rightarrow> slice \<Rightarrow> int) \<Rightarrow> slice \<Rightarrow> nat \<times> (slice \<times> slice) list \<Rightarrow> (slice \<times> slice) list" where
  "live_matches ucmp key d = filter (\<lambda>kv. ucmp (ExtractUserKey (fst kv)) key = 0) (drop (fst d) (snd d))"

lemma set_drop_nth: "set (drop a xs) = (!) xs ` {a..<length xs}"
proof -
  have "(!) xs ` {a..<length xs} = (\<lambda>i. xs ! (a + i)) ` {..<length xs - a}"
  proof (cases "a \<le> length xs")
    case True
    then have "{a..<length xs} = (+) a ` {..<length xs - a}"
      by (simp add: lessThan_atLeast0 image_add_atLeastLessThan)
    then show ?thesis by (simp add: image_image)
  qed simp
  then show ?thesis by (auto simp: set_conv_nth)
qed

lemma has_key_stored:
  assumes "stored m f kvs"
  shows "has_key ucmp key (f, a) \<longleftrightarrow> live_matches ucmp key (a, kvs) \<noteq> []"
proof -
  have "live_matches ucmp key (a, kvs) \<noteq> [] \<longleftrightarrow> (\<exists>kv \<in> set (drop a kvs). ucmp (ExtractUserKey (fst kv)) key = 0)"
    by (auto simp: live_matches_def filter_empty_conv)
  also have "\<dots> \<longleftrightarrow> (\<exists>i \<in> {a..<length kvs}. ucmp (ExtractUserKey (fst (kvs ! i))) key = 0)"
    by (simp add: set_drop_nth)
  also have "\<dots> \<longleftrightarrow> has_key ucmp key (f, a)"
    using stored_keys(1,3) [OF assms] by (auto simp: has_key_def)
  finally show ?thesis by simp
qed

lemma find_stored:
  assumes "list_all2 (\<lambda>fa kvs. stored m (fst fa) kvs) tables data"
  shows "find (\<lambda>d. live_matches ucmp key d \<noteq> []) (zip (map snd tables) data) =
    (case find (\<lambda>(fa, kvs). has_key ucmp key fa) (zip tables data) of
       None \<Rightarrow> None | Some (fa, kvs) \<Rightarrow> Some (snd fa, kvs))
    \<and> find (has_key ucmp key) tables =
    (case find (\<lambda>(fa, kvs). has_key ucmp key fa) (zip tables data) of None \<Rightarrow> None | Some (fa, kvs) \<Rightarrow> Some fa)"
  using assms
  by (induction tables data rule: list_all2_induct) (auto simp: has_key_stored split: option.splits)


text \<open>A module with one table per list of pairs, the newest first, in slots of \<open>esize\<close> bytes.\<close>

definition example_entry :: "u64 \<Rightarrow> nat \<Rightarrow> (slice \<times> slice) list \<Rightarrow> FileEntry" where
  "example_entry n i kvs = \<lparr>filenum = n, sstable_index = int i, keys_meta = metas_from 0 kvs, key_point_filenum = 0\<rparr>"

definition example_file :: "u64 \<Rightarrow> FileMetaData" where
  "example_file n = FileMetaData_init\<lparr>fm_fd := FileDescriptor_new n 0 0 0 0\<rparr>"

definition example_module :: "(slice \<times> slice) list \<Rightarrow> (slice \<times> slice) list \<Rightarrow> NvmCfModule" where
  "example_module new old =
     \<lparr>nm_meta = \<lparr>files = [example_entry 2 0 new, example_entry 1 1 old], compaction_files = []\<rparr>,
      nm_pool = PersistentSstable_open 100 2,
      nm_mem = (records new @ replicate (100 - length (records new)) 0) @ records old, nm_open_by_creat = False\<rparr>"



text \<open>C9: the tables of a module own exactly the used slots of the pool, each its own slot, through
  any sequence of new tables, deletions and writes; so a new table never gets the slot of a live one,
  and room is refused only if every slot holds a live table.\<close>

theorem module_slots_owned:
  "module_step\<^sup>*\<^sup>* (NvmCfModule_open stop_size write_buffer_size file_exists mem) m \<Longrightarrow>
     module_ok m
     \<and> (\<forall>number room m'. number \<notin> set (map filenum (files (nm_meta m))) \<longrightarrow>
          AddL0TableRoom m number = Inr (room, m') \<longrightarrow>
          (case room of
             None \<Rightarrow> m' = m \<and> card (set (files (nm_meta m))) = level0_table_num stop_size write_buffer_size
           | Some raw \<Rightarrow> \<exists>index. raw = index * (write_buffer_size + 8 * 1024 * 1024)
               \<and> index < level0_table_num stop_size write_buffer_size
               \<and> index \<notin> (\<lambda>f. nat (sstable_index f)) ` set (files (nm_meta m))
               \<and> files (nm_meta m') = FileEntry_init number (int index) # files (nm_meta m)))
     \<and> (\<forall>number. \<exists>m'. DeleteL0file m number = Inr m')"
proof -
  let ?m0 = "NvmCfModule_open stop_size write_buffer_size file_exists mem"
  assume steps: "module_step\<^sup>*\<^sup>* ?m0 m"
  from steps NvmCfModule_open_ok have ok: "module_ok m" by (rule module_steps_ok)
  have "ps_num (nm_pool m) = ps_num (nm_pool ?m0) \<and> each_size (nm_pool m) = each_size (nm_pool ?m0)"
    using steps
  proof (induction rule: rtranclp_induct)
    case (step a b)
    have "module_ok a" by (rule module_steps_ok [OF step.hyps(1) NvmCfModule_open_ok])
    with step show ?case using module_step_sizes by simp
  qed simp
  then have num: "ps_num (nm_pool m) = level0_table_num stop_size write_buffer_size"
    and esz: "each_size (nm_pool m) = write_buffer_size + 8 * 1024 * 1024"
    by (simp_all add: NvmCfModule_open_def PersistentSstable_open_def)
  have own: "(\<lambda>f. nat (sstable_index f)) ` set (files (nm_meta m)) = used (nm_pool m)"
    and inj: "inj_on (\<lambda>f. nat (sstable_index f)) (set (files (nm_meta m)))"
    using ok by (simp_all add: module_ok_def distinct_map)
  have card: "card (set (files (nm_meta m))) = card (used (nm_pool m))"
    using card_image [OF inj] own by simp
  have room: "case room of
      None \<Rightarrow> m' = m \<and> card (set (files (nm_meta m))) = level0_table_num stop_size write_buffer_size
    | Some raw \<Rightarrow> \<exists>index. raw = index * (write_buffer_size + 8 * 1024 * 1024)
        \<and> index < level0_table_num stop_size write_buffer_size
        \<and> index \<notin> (\<lambda>f. nat (sstable_index f)) ` set (files (nm_meta m))
        \<and> files (nm_meta m') = FileEntry_init number (int index) # files (nm_meta m)"
    if "number \<notin> set (map filenum (files (nm_meta m)))" "AddL0TableRoom m number = Inr (room, m')" for number room m'
  proof -
    note add = AddL0TableRoom_cases [OF ok that(1)] and res = that(2)
    consider "room = None" "m' = m" "used (nm_pool m) = {..<ps_num (nm_pool m)}"
      | index where "room = Some (index * each_size (nm_pool m))" "index < ps_num (nm_pool m)"
        "index \<notin> used (nm_pool m)" "files (nm_meta m') = FileEntry_init number (int index) # files (nm_meta m)"
      using add res by auto
    then show ?thesis
    proof cases
      case 1
      then show ?thesis using card num by simp
    next
      case (2 index)
      then show ?thesis unfolding own num esz by auto
    qed
  qed
  have "\<exists>m'. DeleteL0file m number = Inr m'" for number using DeleteL0file_ok [OF ok] by blast
  with ok room show ?thesis by blast
qed

theorem module_slots_owned_witness:
  "\<exists>raw m. AddL0TableRoom (NvmCfModule_open 0 1 True []) 7 = Inr (Some raw, m) \<and> module_ok m"
proof -
  let ?m0 = "NvmCfModule_open 0 1 True []"
  have fs: "files (nm_meta ?m0) = []" and num: "ps_num (nm_pool ?m0) = 2" and free: "used (nm_pool ?m0) = {}"
    using pool_open_ok [of "1 + 8 * 1024 * 1024" 2]
    by (simp_all add: NvmCfModule_open_def level0_table_num_def PersistentSstable_open_def)
  have "({} :: nat set) \<noteq> {..<2}" by (metis empty_iff lessThan_iff zero_less_numeral)
  then obtain raw m where m: "AddL0TableRoom ?m0 7 = Inr (Some raw, m)"
    using AddL0TableRoom_cases [OF NvmCfModule_open_ok, of 7 0 1 True "[]"] unfolding fs num free by auto
  then have "module_step ?m0 m" by (rule module_step.add_room) (simp only: fs list.map list.set empty_iff not_False_eq_True)
  then have "module_step\<^sup>*\<^sup>* ?m0 m" by blast
  from module_slots_owned [OF this] m show ?thesis by blast
qed

text \<open>C10: a restart restores level 0. If the descriptions of the level-0 files in the recovered version
  point to tables whose key metadata were persisted behind their records, then recovery into an
  empty module rebuilds every table entry with all its keys and hints, in the order of the version, and
  marks exactly their slots as used.\<close>

theorem RecoverFromStorageInfo_restores:
  "module_ok m \<and> files (nm_meta m) = [] \<and> \<not> nm_open_by_creat m
     \<and> list_all2 (persisted m) L0files fs \<and> distinct (map filenum fs)
     \<and> distinct (map (\<lambda>f. nat (sstable_index f)) fs) \<Longrightarrow>
     \<exists>m'. RecoverFromStorageInfo L0files m = Inr m' \<and> files (nm_meta m') = fs \<and> module_ok m'
       \<and> nm_mem m' = nm_mem m"
proof -
  assume *: "module_ok m \<and> files (nm_meta m) = [] \<and> \<not> nm_open_by_creat m
     \<and> list_all2 (persisted m) L0files fs \<and> distinct (map filenum fs)
     \<and> distinct (map (\<lambda>f. nat (sstable_index f)) fs)"
  then have "used (nm_pool m) = {}" by (auto simp: module_ok_def)
  with * have "\<exists>m'. recover_files (rev L0files) m = Inr m' \<and> module_ok m'
      \<and> files (nm_meta m') = rev (rev fs) @ files (nm_meta m) \<and> nm_mem m' = nm_mem m"
    by (intro recover_files_persisted) (simp_all add: rev_map [symmetric])
  with * show ?thesis by (auto simp: RecoverFromStorageInfo_def)
qed

theorem RecoverFromStorageInfo_restores_witness:
  "\<exists>m'. RecoverFromStorageInfo
       [FileMetaData_init\<lparr>fm_fd := FileDescriptor_new 2 0 0 0 0, fm_nvm_sstable_index := 0, fm_keys_num := 1,
          fm_raw_file_size := 26, fm_nvm_meta_size := 37\<rparr>]
       (NvmCfModule_open 0 1 True
          (records [(InternalKey [98] 4 1, [8])] @ metadatas_of (metas_from 0 [(InternalKey [98] 4 1, [8])]))) = Inr m'
     \<and> files (nm_meta m') = [example_entry 2 0 [(InternalKey [98] 4 1, [8])]]"
proof -
  let ?kvs = "[(InternalKey [98] 4 1, [8])]"
  let ?m = "NvmCfModule_open 0 1 True (records ?kvs @ metadatas_of (metas_from 0 ?kvs))"
  let ?d = "FileMetaData_init\<lparr>fm_fd := FileDescriptor_new 2 0 0 0 0, fm_nvm_sstable_index := 0, fm_keys_num := 1,
    fm_raw_file_size := 26, fm_nvm_meta_size := 37\<rparr>"
  have len: "length (InternalKey u s t) = length u + 8" for u s t by (simp add: InternalKey_append)
  have "length (records ?kvs) = 26" "length (metadatas_of (metas_from 0 ?kvs)) = 37"
    by (simp_all add: len metadatas_of_length)
  moreover have "GetNumber (FileDescriptor_new 2 0 0 0 0) = 2" by code_simp
  ultimately have p: "persisted ?m ?d (example_entry 2 0 ?kvs)"
    by (simp add: persisted_def example_entry_def keys_num_def NvmCfModule_open_def PersistentSstable_open_def
        level0_table_num_def meta_fits_def len FileMetaData_init_def)
  have "module_ok ?m \<and> files (nm_meta ?m) = [] \<and> \<not> nm_open_by_creat ?m
     \<and> list_all2 (persisted ?m) [?d] [example_entry 2 0 ?kvs] \<and> distinct (map filenum [example_entry 2 0 ?kvs])
     \<and> distinct (map (\<lambda>f. nat (sstable_index f)) [example_entry 2 0 ?kvs])"
    using p NvmCfModule_open_ok [of 0 1 True "records ?kvs @ metadatas_of (metas_from 0 ?kvs)"]
    by (auto simp: NvmCfModule_open_def)
  from RecoverFromStorageInfo_restores [OF this] show ?thesis by blast
qed

end
