(* ===== verification/ColumnIterators.thy ===== *)
theory ColumnIterators
  imports NvmCf
begin

text \<open>
  The iterators over the tables of the matrix container
  (\<open>utilities/nvm_mod/column_compaction_iterator.h\<close>, \<open>column_compaction_iterator.cc\<close>): the two that feed
  a column compaction, one reading the slot in place and one reading a private copy, and the one of
  range reads, which looks keys up in the table entry and values in the slot.

  \<open>raw\<close> is the memory from \<open>raw_data_\<close> on. A read behind its end, and \<open>at\<close> outside a vector, are
  \<open>OutOfBounds\<close>. The position \<open>current_\<close> is an \<open>int\<close> and may leave the range on both sides.
\<close>

section \<open>Definitions\<close>

text \<open>The pair stored at an offset, as both constructors read it.\<close>

definition read_record :: "slice \<Rightarrow> nat \<Rightarrow> (slice \<times> slice) result" where
  "read_record data_addr offset =
     (if offset + 8 > length data_addr then Inl OutOfBounds
      else
        let key_size = unat (DecodeFixed64 kLittleEndian (drop offset data_addr));
            off2 = offset + 8 + key_size
        in if off2 + 8 > length data_addr then Inl OutOfBounds
           else
             let value_size = unat (DecodeFixed64 kLittleEndian (drop off2 data_addr))
             in if off2 + 8 + value_size > length data_addr then Inl OutOfBounds
                else Inr (take key_size (drop (offset + 8) data_addr),
                          take value_size (drop (off2 + 8) data_addr)))"

text \<open>The loop that fills \<open>vKey_\<close> and \<open>vValue_\<close>; \<open>base\<close> is subtracted from the recorded offsets.\<close>

fun read_records :: "slice \<Rightarrow> u64 \<Rightarrow> KeysMetadata list \<Rightarrow> (slice list \<times> slice list) result" where
  "read_records data_addr base [] = Inr ([], [])"
| "read_records data_addr base (k # ks) =
     (case read_record data_addr (unat (km_offset k - base)) of
        Inl e \<Rightarrow> Inl e
      | Inr (key, v) \<Rightarrow>
          (case read_records data_addr base ks of
             Inl e \<Rightarrow> Inl e
           | Inr (vk, vv) \<Rightarrow> Inr (key # vk, v # vv)))"

text \<open>The keys from index \<open>first_key_index\<close> on, as \<open>keys_meta[first_key_index + i]\<close> reads them.\<close>

definition meta_range :: "FileEntry \<Rightarrow> nat \<Rightarrow> nat \<Rightarrow> KeysMetadata list result" where
  "meta_range file first_key_index n =
     (if first_key_index + n > keys_num file then Inl OutOfBounds
      else Inr (take n (drop first_key_index (keys_meta file))))"

record ItemIterator =
  vKey :: "slice list"
  vValue :: "slice list"
  it_current :: int

definition ColumnCompactionItemIterator :: "slice \<Rightarrow> FileEntry \<Rightarrow> nat \<Rightarrow> nat \<Rightarrow> ItemIterator result" where
  "ColumnCompactionItemIterator raw_data file first_key_index n =
     (if n = 0 then Inl AssertFailed
      else
        case meta_range file first_key_index n of
          Inl e \<Rightarrow> Inl e
        | Inr ks \<Rightarrow>
            (case read_records raw_data 0 ks of
               Inl e \<Rightarrow> Inl e
             | Inr (vk, vv) \<Rightarrow> Inr \<lparr>vKey = vk, vValue = vv, it_current = -1\<rparr>))"

definition ColumnCompactionWithBufferIterator :: "slice \<Rightarrow> FileEntry \<Rightarrow> nat \<Rightarrow> nat \<Rightarrow> ItemIterator result" where
  "ColumnCompactionWithBufferIterator raw_data file first_key_index n =
     (if first_key_index \<ge> keys_num file \<or> first_key_index + n = 0 \<or> first_key_index + n - 1 \<ge> keys_num file
      then Inl OutOfBounds
      else
        let key_value_offset = km_offset (keys_meta file ! first_key_index);
            end_key = keys_meta file ! (first_key_index + n - 1);
            buf_size = unat ((km_offset end_key - key_value_offset) + km_size end_key)
        in if unat key_value_offset + buf_size > length raw_data then Inl OutOfBounds
           else
             let buf = take buf_size (drop (unat key_value_offset) raw_data)
             in case read_records buf key_value_offset (take n (drop first_key_index (keys_meta file))) of
                  Inl e \<Rightarrow> Inl e
                | Inr (vk, vv) \<Rightarrow> Inr \<lparr>vKey = vk, vValue = vv, it_current = -1\<rparr>)"

definition NewColumnCompactionItemIterator :: "slice \<Rightarrow> FileEntry \<Rightarrow> nat \<Rightarrow> nat \<Rightarrow> bool \<Rightarrow> ItemIterator result" where
  "NewColumnCompactionItemIterator raw_data file first_key_index n use_buffer =
     (if \<not> use_buffer then ColumnCompactionItemIterator raw_data file first_key_index n
      else ColumnCompactionWithBufferIterator raw_data file first_key_index n)"

definition it_Valid :: "ItemIterator \<Rightarrow> bool" where
  "it_Valid it \<longleftrightarrow> it_current it \<ge> 0 \<and> it_current it < int (length (vKey it))"

definition it_SeekToFirst :: "ItemIterator \<Rightarrow> ItemIterator" where
  "it_SeekToFirst it = it\<lparr>it_current := 0\<rparr>"

definition it_SeekToLast :: "ItemIterator \<Rightarrow> ItemIterator" where
  "it_SeekToLast it = it\<lparr>it_current := int (length (vKey it)) - 1\<rparr>"

definition it_Next :: "ItemIterator \<Rightarrow> ItemIterator" where
  "it_Next it = it\<lparr>it_current := it_current it + 1\<rparr>"

definition it_Prev :: "ItemIterator \<Rightarrow> ItemIterator result" where
  "it_Prev it = (if it_Valid it then Inr (it\<lparr>it_current := it_current it - 1\<rparr>) else Inl AssertFailed)"

text \<open>\<open>std::vector::at\<close>.\<close>

definition vector_at :: "'a list \<Rightarrow> int \<Rightarrow> 'a result" where
  "vector_at xs i = (if 0 \<le> i \<and> i < int (length xs) then Inr (xs ! nat i) else Inl OutOfBounds)"

definition it_key :: "ItemIterator \<Rightarrow> slice result" where
  "it_key it = vector_at (vKey it) (it_current it)"

definition it_value :: "ItemIterator \<Rightarrow> slice result" where
  "it_value it = vector_at (vValue it) (it_current it)"

text \<open>The two loops of \<open>Seek\<close>, over the function \<open>at\<close> that reads a key: the binary search down to one
  position and the scan from it, which stops at the first position that is not \<open>Valid\<close>.\<close>

function seek_binary :: "(slice \<Rightarrow> slice \<Rightarrow> int) \<Rightarrow> (int \<Rightarrow> slice result) \<Rightarrow> slice \<Rightarrow> int \<Rightarrow> int \<Rightarrow> int result" where
  "seek_binary icmp at target left right =
     (if left < right then
        let mid = (left + right + 1) div 2
        in case at mid of
             Inl e \<Rightarrow> Inl e
           | Inr k \<Rightarrow>
               let cmp = icmp k target
               in if cmp < 0 then seek_binary icmp at target mid right
                  else if cmp > 0 then seek_binary icmp at target left (mid - 1)
                  else seek_binary icmp at target mid mid
      else Inr left)"
  by pat_completeness auto
termination
  by (relation "measure (\<lambda>(icmp, at, target, left, right). nat (right - left))") auto

declare seek_binary.simps [simp del]

function seek_linear :: "(slice \<Rightarrow> slice \<Rightarrow> int) \<Rightarrow> (int \<Rightarrow> slice result) \<Rightarrow> int \<Rightarrow> slice \<Rightarrow> int \<Rightarrow> int result" where
  "seek_linear icmp at n target current =
     (case at current of
        Inl e \<Rightarrow> Inl e
      | Inr k \<Rightarrow>
          if icmp k target \<ge> 0 then Inr current
          else if \<not> (current + 1 \<ge> 0 \<and> current + 1 < n) then Inr (current + 1)
          else seek_linear icmp at n target (current + 1))"
  by pat_completeness auto
termination
  by (relation "measure (\<lambda>(icmp, at, n, target, current). nat (n - current))") auto

declare seek_linear.simps [simp del]

definition seek_position :: "(slice \<Rightarrow> slice \<Rightarrow> int) \<Rightarrow> (int \<Rightarrow> slice result) \<Rightarrow> int \<Rightarrow> slice \<Rightarrow> int result" where
  "seek_position icmp at n target =
     (case seek_binary icmp at target 0 (n - 1) of
        Inl e \<Rightarrow> Inl e | Inr left \<Rightarrow> seek_linear icmp at n target left)"

definition it_Seek :: "(slice \<Rightarrow> slice \<Rightarrow> int) \<Rightarrow> slice \<Rightarrow> ItemIterator \<Rightarrow> ItemIterator result" where
  "it_Seek icmp target it =
     (case seek_position icmp (vector_at (vKey it)) (int (length (vKey it))) target of
        Inl e \<Rightarrow> Inl e | Inr p \<Rightarrow> Inr (it\<lparr>it_current := p\<rparr>))"

record ReadIterator =
  ri_raw :: slice
  ri_file :: FileEntry
  ri_first :: nat
  ri_num :: nat
  ri_current :: int

definition NVMLevel0ReadIterator :: "slice \<Rightarrow> FileEntry \<Rightarrow> nat \<Rightarrow> nat \<Rightarrow> ReadIterator result" where
  "NVMLevel0ReadIterator raw_data file first_key_index n =
     (if n = 0 then Inl AssertFailed
      else Inr \<lparr>ri_raw = raw_data, ri_file = file, ri_first = first_key_index, ri_num = n, ri_current = -1\<rparr>)"

definition ri_Valid :: "ReadIterator \<Rightarrow> bool" where
  "ri_Valid it \<longleftrightarrow> ri_current it \<ge> 0 \<and> ri_current it < int (ri_num it)"

definition ri_SeekToFirst :: "ReadIterator \<Rightarrow> ReadIterator" where
  "ri_SeekToFirst it = it\<lparr>ri_current := 0\<rparr>"

definition ri_SeekToLast :: "ReadIterator \<Rightarrow> ReadIterator" where
  "ri_SeekToLast it = it\<lparr>ri_current := int (ri_num it) - 1\<rparr>"

definition ri_Next :: "ReadIterator \<Rightarrow> ReadIterator" where
  "ri_Next it = it\<lparr>ri_current := ri_current it + 1\<rparr>"

definition ri_Prev :: "ReadIterator \<Rightarrow> ReadIterator result" where
  "ri_Prev it = (if ri_Valid it then Inr (it\<lparr>ri_current := ri_current it - 1\<rparr>) else Inl AssertFailed)"

text \<open>\<open>file_->keys_meta[first_key_index_ + i]\<close>.\<close>

definition ri_meta :: "ReadIterator \<Rightarrow> int \<Rightarrow> KeysMetadata result" where
  "ri_meta it i =
     (let j = int (ri_first it) + i
      in if 0 \<le> j \<and> j < int (keys_num (ri_file it)) then Inr (keys_meta (ri_file it) ! nat j) else Inl OutOfBounds)"

definition ri_key_at :: "ReadIterator \<Rightarrow> int \<Rightarrow> slice result" where
  "ri_key_at it i = (case ri_meta it i of Inl e \<Rightarrow> Inl e | Inr k \<Rightarrow> Inr (km_key k))"

definition ri_Seek :: "(slice \<Rightarrow> slice \<Rightarrow> int) \<Rightarrow> slice \<Rightarrow> ReadIterator \<Rightarrow> ReadIterator result" where
  "ri_Seek icmp target it =
     (case seek_position icmp (ri_key_at it) (int (ri_num it)) target of
        Inl e \<Rightarrow> Inl e | Inr p \<Rightarrow> Inr (it\<lparr>ri_current := p\<rparr>))"

definition ri_key :: "ReadIterator \<Rightarrow> slice result" where
  "ri_key it = (if ri_Valid it then ri_key_at it (ri_current it) else Inl AssertFailed)"

definition ri_value :: "ReadIterator \<Rightarrow> slice result" where
  "ri_value it =
     (if ri_Valid it then
        case ri_meta it (ri_current it) of
          Inl e \<Rightarrow> Inl e
        | Inr k \<Rightarrow>
            (case read_record (ri_raw it) (unat (km_offset k)) of Inl e \<Rightarrow> Inl e | Inr (_, v) \<Rightarrow> Inr v)
      else Inl AssertFailed)"

text \<open>\<open>AddIterators\<close>: the read iterators of a version's level 0, the newest table first.\<close>

fun AddIterators_loop :: "NvmCfModule \<Rightarrow> FileMetaData list \<Rightarrow> ReadIterator list result" where
  "AddIterators_loop m [] = Inr []"
| "AddIterators_loop m (d # ds) =
     (case FindFile (nm_meta m) (GetNumber (fm_fd d)) True of
        None \<Rightarrow> Inl NullDeref
      | Some file \<Rightarrow>
          (case GetIndexPtr (nm_pool m) (sstable_index file) of
             Inl e \<Rightarrow> Inl e
           | Inr ptr \<Rightarrow>
               let first = unat (fm_first_key_index d);
                   key_num = unat (of_nat (keys_num file) - fm_first_key_index d)
               in case NVMLevel0ReadIterator (drop ptr (nm_mem m)) file first key_num of
                    Inl e \<Rightarrow> Inl e
                  | Inr it \<Rightarrow>
                      (case AddIterators_loop m ds of Inl e \<Rightarrow> Inl e | Inr its \<Rightarrow> Inr (it # its))))"

section \<open>Lower bounds\<close>

lemma drop_lower_bound:
  assumes "three_way icmp" and "sorted_keys icmp (map fst kvs)"
  shows "drop (lower_bound icmp (map fst kvs) target) kvs = filter (\<lambda>kv. icmp (fst kv) target \<ge> 0) kvs"
proof -
  let ?n = "lower_bound icmp (map fst kvs) target"
  have "icmp (fst kv) target < 0" if kv: "kv \<in> set (take ?n kvs)" for kv
  proof -
    from kv obtain j where "j < ?n" "j < length kvs" "kvs ! j = kv" by (auto simp: in_set_conv_nth)
    then show ?thesis using lower_bound_before [of j icmp "map fst kvs" target] by simp
  qed
  then have "filter (\<lambda>kv. icmp (fst kv) target \<ge> 0) (take ?n kvs) = []"
    by (force simp: filter_empty_conv)
  moreover have "icmp (fst kv) target \<ge> 0" if kv: "kv \<in> set (drop ?n kvs)" for kv
  proof -
    from kv obtain j where j: "?n \<le> j" "j < length kvs" "kvs ! j = kv" by (auto simp: set_drop_nth)
    then have "0 \<le> icmp (map fst kvs ! ?n) target" by (intro lower_bound_at) simp
    then show ?thesis
      using j sorted_keys_after [OF assms, of ?n target j] by simp
  qed
  then have "filter (\<lambda>kv. icmp (fst kv) target \<ge> 0) (drop ?n kvs) = drop ?n kvs" by (simp add: filter_id_conv)
  ultimately show ?thesis by (metis append_take_drop_id filter_append append_Nil)
qed

section \<open>The iterator interface\<close>

text \<open>
  What the merging of tables relies on: an iterator stands at a position of a fixed list of pairs,
  \<open>SeekToFirst\<close> and \<open>Next\<close> move it, and \<open>key\<close> and \<open>value\<close> read the pair. A loop over a cursor with
  \<open>Valid\<close> and \<open>Next\<close> returns the rest of the list.
\<close>

fun scan :: "('s \<Rightarrow> bool) \<Rightarrow> ('s \<Rightarrow> 's) \<Rightarrow> ('s \<Rightarrow> slice result) \<Rightarrow> ('s \<Rightarrow> slice result) \<Rightarrow> nat \<Rightarrow> 's \<Rightarrow>
    (slice \<times> slice) list result" where
  "scan is_valid nxt key_of value_of 0 s = Inr []"
| "scan is_valid nxt key_of value_of (Suc n) s =
     (if \<not> is_valid s then Inr []
      else
        case key_of s of
          Inl e \<Rightarrow> Inl e
        | Inr k \<Rightarrow>
            (case value_of s of
               Inl e \<Rightarrow> Inl e
             | Inr v \<Rightarrow>
                 (case scan is_valid nxt key_of value_of n (nxt s) of
                    Inl e \<Rightarrow> Inl e | Inr kvs \<Rightarrow> Inr ((k, v) # kvs))))"

locale cursor =
  fixes entries :: "'s \<Rightarrow> (slice \<times> slice) list" and pos :: "'s \<Rightarrow> int" and ok :: "'s \<Rightarrow> bool"
    and is_valid :: "'s \<Rightarrow> bool" and seek_first :: "'s \<Rightarrow> 's" and nxt :: "'s \<Rightarrow> 's"
    and key_of :: "'s \<Rightarrow> slice result" and value_of :: "'s \<Rightarrow> slice result"
  assumes valid_iff: "ok s \<Longrightarrow> is_valid s \<longleftrightarrow> 0 \<le> pos s \<and> pos s < int (length (entries s))"
    and seek_first_ok: "ok s \<Longrightarrow> ok (seek_first s) \<and> entries (seek_first s) = entries s \<and> pos (seek_first s) = 0"
    and next_ok: "ok s \<Longrightarrow> ok (nxt s) \<and> entries (nxt s) = entries s \<and> pos (nxt s) = pos s + 1"
    and key_ok: "ok s \<Longrightarrow> is_valid s \<Longrightarrow> key_of s = Inr (fst (entries s ! nat (pos s)))"
    and value_ok: "ok s \<Longrightarrow> is_valid s \<Longrightarrow> value_of s = Inr (snd (entries s ! nat (pos s)))"
begin

lemma scan_rest:
  "ok s \<Longrightarrow> 0 \<le> pos s \<Longrightarrow> length (entries s) - nat (pos s) \<le> n \<Longrightarrow>
     scan is_valid nxt key_of value_of n s = Inr (drop (nat (pos s)) (entries s))"
proof (induction n arbitrary: s)
  case (Suc n)
  show ?case
  proof (cases "is_valid s")
    case True
    then have p: "nat (pos s) < length (entries s)" using valid_iff [OF Suc.prems(1)] Suc.prems(2) by linarith
    note nx = next_ok [OF Suc.prems(1)]
    have np: "nat (pos s + 1) = Suc (nat (pos s))" using Suc.prems(2) by simp
    have "scan is_valid nxt key_of value_of n (nxt s) = Inr (drop (nat (pos (nxt s))) (entries (nxt s)))"
      using Suc.prems nx np by (intro Suc.IH) auto
    then show ?thesis
      using True nx np p key_ok [OF Suc.prems(1) True] value_ok [OF Suc.prems(1) True]
        Cons_nth_drop_Suc [OF p] by simp
  next
    case False
    then have "length (entries s) \<le> nat (pos s)" using valid_iff [OF Suc.prems(1)] Suc.prems(2) by linarith
    then show ?thesis using False by simp
  qed
qed simp

lemma scan_all:
  assumes "ok s"
  shows "scan is_valid nxt key_of value_of (length (entries s)) (seek_first s) = Inr (entries s)"
  using scan_rest [of "seek_first s" "length (entries s)"] seek_first_ok [OF assms] by simp

end

text \<open>A cursor over sorted keys that can seek to the first key not before a target.\<close>

locale seekable_cursor = cursor entries pos ok is_valid seek_first nxt key_of value_of
  for entries :: "'s \<Rightarrow> (slice \<times> slice) list" and pos :: "'s \<Rightarrow> int" and ok :: "'s \<Rightarrow> bool"
    and is_valid :: "'s \<Rightarrow> bool" and seek_first :: "'s \<Rightarrow> 's" and nxt :: "'s \<Rightarrow> 's"
    and key_of :: "'s \<Rightarrow> slice result" and value_of :: "'s \<Rightarrow> slice result" +
  fixes seek :: "(slice \<Rightarrow> slice \<Rightarrow> int) \<Rightarrow> slice \<Rightarrow> 's \<Rightarrow> 's result"
  assumes seek_ok: "three_way icmp \<Longrightarrow> ok s \<Longrightarrow> entries s \<noteq> [] \<Longrightarrow> sorted_keys icmp (map fst (entries s)) \<Longrightarrow>
      \<exists>s'. seek icmp target s = Inr s' \<and> ok s' \<and> entries s' = entries s
        \<and> pos s' = int (lower_bound icmp (map fst (entries s)) target)"
begin

lemma scan_from_target:
  assumes "three_way icmp" and "ok s" and "entries s \<noteq> []" and "sorted_keys icmp (map fst (entries s))"
  shows "\<exists>s'. seek icmp target s = Inr s'
    \<and> scan is_valid nxt key_of value_of (length (entries s)) s' =
        Inr (filter (\<lambda>kv. icmp (fst kv) target \<ge> 0) (entries s))"
proof -
  let ?ks = "map fst (entries s)"
  obtain s' where s': "seek icmp target s = Inr s'" "ok s'" "entries s' = entries s"
    "pos s' = int (lower_bound icmp ?ks target)"
    using seek_ok [OF assms] by blast
  have "scan is_valid nxt key_of value_of (length (entries s)) s' =
      Inr (drop (lower_bound icmp ?ks target) (entries s))"
    using scan_rest [of s' "length (entries s)"] s' by simp
  then show ?thesis using s'(1) drop_lower_bound [OF assms(1,4)] by simp
qed

end

section \<open>Seek\<close>

lemma seek_binary_spec:
  assumes "three_way icmp" and "sorted_keys icmp ks"
    and "\<And>i. 0 \<le> i \<Longrightarrow> i < int (length ks) \<Longrightarrow> at i = Inr (ks ! nat i)"
    and "0 \<le> left" and "left \<le> right" and "right < int (length ks)"
    and "\<forall>i < nat left. icmp (ks ! i) target < 0"
  shows "\<exists>l. seek_binary icmp at target left right = Inr l \<and> 0 \<le> l \<and> l < int (length ks)
    \<and> (\<forall>i < nat l. icmp (ks ! i) target < 0)"
  using assms(4-7)
proof (induction "nat (right - left)" arbitrary: left right rule: less_induct)
  case less
  show ?case
  proof (cases "left < right")
    case True
    define mid where "mid = (left + right + 1) div 2"
    have mid: "left < mid" "mid \<le> right" using True by (simp_all add: mid_def)
    have at: "at mid = Inr (ks ! nat mid)" using mid less.prems by (intro assms(3)) simp_all
    have below: "\<forall>i < nat mid. icmp (ks ! i) target < 0" if le: "icmp (ks ! nat mid) target \<le> 0"
    proof (intro allI impI)
      fix i assume i: "i < nat mid"
      then have "icmp (ks ! i) (ks ! nat mid) < 0"
        using mid less.prems by (intro sorted_keys_nth [OF assms(2)]) auto
      then show "icmp (ks ! i) target < 0" using le by (rule three_way.cmp_less_le_trans [OF assms(1)])
    qed
    consider (lt) "icmp (ks ! nat mid) target < 0" | (gt) "icmp (ks ! nat mid) target > 0"
      | (eq) "icmp (ks ! nat mid) target = 0" by linarith
    then show ?thesis
    proof cases
      case lt
      then have step: "seek_binary icmp at target left right = seek_binary icmp at target mid right"
        using True at by (simp add: seek_binary.simps [of icmp at target left right] mid_def [symmetric])
      show ?thesis unfolding step using lt below mid less.prems by (intro less.hyps) simp_all
    next
      case gt
      then have step: "seek_binary icmp at target left right = seek_binary icmp at target left (mid - 1)"
        using True at by (simp add: seek_binary.simps [of icmp at target left right] mid_def [symmetric])
      show ?thesis unfolding step using mid less.prems by (intro less.hyps) simp_all
    next
      case eq
      then have step: "seek_binary icmp at target left right = seek_binary icmp at target mid mid"
        using True at by (simp add: seek_binary.simps [of icmp at target left right] mid_def [symmetric])
      show ?thesis unfolding step using eq below mid less.prems by (intro less.hyps) simp_all
    qed
  next
    case False
    then have "seek_binary icmp at target left right = Inr left"
      by (simp add: seek_binary.simps [of icmp at target left right])
    then show ?thesis using less.prems by simp
  qed
qed

lemma seek_linear_spec:
  assumes "\<And>i. 0 \<le> i \<Longrightarrow> i < int (length ks) \<Longrightarrow> at i = Inr (ks ! nat i)"
    and "0 \<le> l" and "l < int (length ks)" and "\<forall>i < nat l. icmp (ks ! i) target < 0"
  shows "seek_linear icmp at (int (length ks)) target l = Inr (int (lower_bound icmp ks target))"
  using assms(2-4)
proof (induction "nat (int (length ks) - l)" arbitrary: l rule: less_induct)
  case less
  have at: "at l = Inr (ks ! nat l)" using less.prems by (intro assms(1)) simp_all
  consider "icmp (ks ! nat l) target \<ge> 0" | "icmp (ks ! nat l) target < 0" by linarith
  then show ?case
  proof cases
    case 1
    then have "lower_bound icmp ks target = nat l"
      using less.prems by (intro lower_bound_eqI) auto
    then show ?thesis
      using 1 at less.prems(1) by (simp add: seek_linear.simps [of icmp at "int (length ks)" target l])
  next
    case 2
    then have below: "\<forall>i < nat (l + 1). icmp (ks ! i) target < 0"
      using less.prems by (auto simp: nat_add_distrib less_Suc_eq)
    show ?thesis
    proof (cases "l + 1 < int (length ks)")
      case True
      then have "seek_linear icmp at (int (length ks)) target l = seek_linear icmp at (int (length ks)) target (l + 1)"
        using 2 at less.prems(1) by (simp add: seek_linear.simps [of icmp at "int (length ks)" target l])
      then show ?thesis using less.hyps [of "l + 1"] True below less.prems by simp
    next
      case False
      then have l: "l + 1 = int (length ks)" using less.prems by simp
      have "lower_bound icmp ks target = length ks"
        using below l by (intro lower_bound_eqI) auto
      then show ?thesis
        using 2 at l less.prems(1) by (simp add: seek_linear.simps [of icmp at "int (length ks)" target l])
    qed
  qed
qed

lemma seek_position_lower_bound:
  assumes "three_way icmp" and "sorted_keys icmp ks" and "ks \<noteq> []"
    and "\<And>i. 0 \<le> i \<Longrightarrow> i < int (length ks) \<Longrightarrow> at i = Inr (ks ! nat i)"
  shows "seek_position icmp at (int (length ks)) target = Inr (int (lower_bound icmp ks target))"
proof -
  obtain l where l: "seek_binary icmp at target 0 (int (length ks) - 1) = Inr l" "0 \<le> l" "l < int (length ks)"
    "\<forall>i < nat l. icmp (ks ! i) target < 0"
    using seek_binary_spec [of icmp ks at 0 "int (length ks) - 1" target] assms
    by (auto simp: Suc_leI)
  then show ?thesis
    using seek_linear_spec [of ks at l icmp target] assms(4) by (simp add: seek_position_def)
qed

section \<open>The iterators as cursors\<close>

definition it_entries :: "ItemIterator \<Rightarrow> (slice \<times> slice) list" where
  "it_entries it = zip (vKey it) (vValue it)"

definition it_ok :: "ItemIterator \<Rightarrow> bool" where
  "it_ok it \<longleftrightarrow> length (vValue it) = length (vKey it)"

interpretation item_cursor: seekable_cursor it_entries it_current it_ok it_Valid it_SeekToFirst it_Next
    it_key it_value it_Seek
proof
  fix icmp :: "slice \<Rightarrow> slice \<Rightarrow> int" and it target
  assume "three_way icmp" and ok: "it_ok it" and "it_entries it \<noteq> []"
    and "sorted_keys icmp (map fst (it_entries it))"
  moreover have ks: "map fst (it_entries it) = vKey it" using ok by (simp add: it_entries_def it_ok_def)
  ultimately have "seek_position icmp (vector_at (vKey it)) (int (length (vKey it))) target =
      Inr (int (lower_bound icmp (vKey it) target))"
    by (intro seek_position_lower_bound) (auto simp: vector_at_def)
  with ok ks show "\<exists>s'. it_Seek icmp target it = Inr s' \<and> it_ok s' \<and> it_entries s' = it_entries it
      \<and> it_current s' = int (lower_bound icmp (map fst (it_entries it)) target)"
    by (simp add: it_Seek_def it_ok_def it_entries_def)
qed (auto simp: it_ok_def it_Valid_def it_entries_def it_SeekToFirst_def it_Next_def it_key_def it_value_def vector_at_def)

definition ri_metas :: "ReadIterator \<Rightarrow> KeysMetadata list" where
  "ri_metas it = take (ri_num it) (drop (ri_first it) (keys_meta (ri_file it)))"

definition ri_entries :: "ReadIterator \<Rightarrow> (slice \<times> slice) list" where
  "ri_entries it = map (\<lambda>k. (km_key k, case read_record (ri_raw it) (unat (km_offset k)) of
      Inl e \<Rightarrow> [] | Inr kv \<Rightarrow> snd kv)) (ri_metas it)"

definition ri_ok :: "ReadIterator \<Rightarrow> bool" where
  "ri_ok it \<longleftrightarrow> ri_first it + ri_num it \<le> keys_num (ri_file it)
     \<and> (\<forall>k \<in> set (ri_metas it). \<exists>kv. read_record (ri_raw it) (unat (km_offset k)) = Inr kv)"

lemma ri_metas_length: "ri_ok it \<Longrightarrow> length (ri_metas it) = ri_num it"
  by (auto simp: ri_ok_def ri_metas_def keys_num_def)

lemma ri_meta_nth:
  "ri_ok it \<Longrightarrow> 0 \<le> i \<Longrightarrow> i < int (ri_num it) \<Longrightarrow> ri_meta it i = Inr (ri_metas it ! nat i)"
  by (auto simp: ri_ok_def ri_metas_def ri_meta_def keys_num_def Let_def nat_add_distrib)

lemma ri_seek_fields [simp]:
  "ri_metas (it\<lparr>ri_current := p\<rparr>) = ri_metas it" "ri_entries (it\<lparr>ri_current := p\<rparr>) = ri_entries it"
  "ri_ok (it\<lparr>ri_current := p\<rparr>) = ri_ok it"
  by (simp_all add: ri_metas_def ri_entries_def ri_ok_def)

interpretation read_cursor: seekable_cursor ri_entries ri_current ri_ok ri_Valid ri_SeekToFirst ri_Next
    ri_key ri_value ri_Seek
proof
  fix icmp :: "slice \<Rightarrow> slice \<Rightarrow> int" and it target
  assume "three_way icmp" and ok: "ri_ok it" and "ri_entries it \<noteq> []"
    and "sorted_keys icmp (map fst (ri_entries it))"
  moreover have ks: "map fst (ri_entries it) = map km_key (ri_metas it)" by (simp add: ri_entries_def comp_def)
  moreover have "ri_key_at it i = Inr (map km_key (ri_metas it) ! nat i)"
    if "0 \<le> i" "i < int (length (map km_key (ri_metas it)))" for i
    using that ri_metas_length [OF ok] ri_meta_nth [OF ok, of i] by (simp add: ri_key_at_def)
  ultimately have "seek_position icmp (ri_key_at it) (int (length (map km_key (ri_metas it)))) target =
      Inr (int (lower_bound icmp (map km_key (ri_metas it)) target))"
    by (intro seek_position_lower_bound) (simp_all, auto simp: ri_entries_def)
  with ok ks show "\<exists>s'. ri_Seek icmp target it = Inr s' \<and> ri_ok s' \<and> ri_entries s' = ri_entries it
      \<and> ri_current s' = int (lower_bound icmp (map fst (ri_entries it)) target)"
    using ri_metas_length [OF ok] by (simp add: ri_Seek_def)
next
  fix it assume ok: "ri_ok it" and v: "ri_Valid it"
  then have m: "ri_meta it (ri_current it) = Inr (ri_metas it ! nat (ri_current it))"
    "nat (ri_current it) < length (ri_metas it)"
    using ri_meta_nth [OF ok] ri_metas_length [OF ok] by (auto simp: ri_Valid_def)
  then show "ri_key it = Inr (fst (ri_entries it ! nat (ri_current it)))"
    using v by (simp add: ri_key_def ri_key_at_def ri_entries_def)
  obtain kv where "read_record (ri_raw it) (unat (km_offset (ri_metas it ! nat (ri_current it)))) = Inr kv"
    using ok m(2) nth_mem unfolding ri_ok_def by blast
  then show "ri_value it = Inr (snd (ri_entries it ! nat (ri_current it)))"
    using v m by (simp add: ri_value_def ri_entries_def case_prod_beta)
qed (auto simp: ri_Valid_def ri_SeekToFirst_def ri_Next_def ri_entries_def ri_metas_length)

section \<open>Reading a table\<close>

lemma read_record_at:
  assumes "prefix (records kvs) raw" and "length (records kvs) < 2 ^ 64" and "i < length kvs"
  shows "read_record raw (length (records (take i kvs))) = Inr (kvs ! i)"
proof -
  obtain k v where kv: "kvs ! i = (k, v)" by fastforce
  let ?off = "length (records (take i kvs))"
  note split = records_at [OF assms(3) kv]
  have "length (records kvs) = ?off + (length k + length v + 16) + length (records (drop (Suc i) kvs))"
    by (subst split) simp
  then have sizes: "unat (of_nat (length k) :: u64) = length k" "unat (of_nat (length v) :: u64) = length v"
    using assms(2) by (simp_all add: unat_of_nat take_bit_nat_eq_self)
  obtain tail where "raw = records kvs @ tail" using assms(1) by (auto simp: prefix_def)
  then obtain rest where raw: "raw = records (take i kvs) @ key_value k v @ rest" using split by auto
  have ek: "drop ?off raw = EncodeFixed64 kLittleEndian (of_nat (length k)) @ k @
      EncodeFixed64 kLittleEndian (of_nat (length v)) @ v @ rest" by (simp add: raw key_value_append)
  have k: "drop (?off + 8) raw = k @ EncodeFixed64 kLittleEndian (of_nat (length v)) @ v @ rest"
    using arg_cong [OF ek, of "drop 8"] by (simp add: add_ac)
  have ev: "drop (?off + 8 + length k) raw = EncodeFixed64 kLittleEndian (of_nat (length v)) @ v @ rest"
    using arg_cong [OF k, of "drop (length k)"] by (simp add: add_ac)
  have v: "drop (?off + 8 + length k + 8) raw = v @ rest"
    using arg_cong [OF ev, of "drop 8"] by (simp add: add_ac)
  have "length raw = ?off + 8 + length k + 8 + length v + length rest" by (simp add: raw)
  then show ?thesis
    unfolding read_record_def
    by (simp only: Let_def ek k ev v DecodeFixed64_EncodeFixed64 sizes) (simp add: kv)
qed

lemma read_records_pairs:
  "list_all2 (\<lambda>k kv. read_record raw (unat (km_offset k - base)) = Inr kv) ks kvs \<Longrightarrow>
     read_records raw base ks = Inr (map fst kvs, map snd kvs)"
  by (induction ks kvs rule: list_all2_induct) auto

lemma table_at_read:
  assumes "table_at raw f kvs" and "i < length kvs"
  shows "read_record raw (unat (km_offset (keys_meta f ! i))) = Inr (kvs ! i)"
proof -
  have "length (records (take i kvs)) \<le> length (records kvs)"
    using arg_cong [OF append_take_drop_id [of i kvs], of "\<lambda>l. length (records l)"] by (simp del: append_take_drop_id)
  then have "unat (km_offset (keys_meta f ! i)) = length (records (take i kvs))"
    using table_at_keys(4) [OF assms] assms(1) by (simp add: table_at_def unat_of_nat take_bit_nat_eq_self)
  then show ?thesis using read_record_at [of kvs raw i] assms by (simp add: table_at_def)
qed

lemma records_middle:
  "records kvs = records (take a kvs) @ records (take n (drop a kvs)) @ records (drop n (drop a kvs))"
  by (metis append_take_drop_id records_append)

text \<open>The private copy of a range of records is a table of its own.\<close>

lemma buffer_read:
  assumes t: "table_at raw f kvs" and n: "first + n \<le> length kvs" and i: "i < n"
    and buf: "buf = records (take n (drop first kvs))"
  shows "read_record buf (unat (km_offset (keys_meta f ! (first + i)) - km_offset (keys_meta f ! first))) =
    Inr (kvs ! (first + i))"
proof -
  let ?kvs = "take n (drop first kvs)"
  have split: "records kvs = records (take first kvs) @ records ?kvs @ records (drop n (drop first kvs))"
    by (rule records_middle)
  then have len: "length (records ?kvs) < 2 ^ 64" using t by (simp add: table_at_def)
  have off: "km_offset (keys_meta f ! (first + i)) =
      of_nat (length (records (take first kvs)) + length (records (take i ?kvs)))"
    using table_at_keys(4) [OF t, of "first + i"] n i by (simp add: take_add)
  moreover have "km_offset (keys_meta f ! first) = of_nat (length (records (take first kvs)))"
    using table_at_keys(4) [OF t, of first] n i by simp
  ultimately have "km_offset (keys_meta f ! (first + i)) - km_offset (keys_meta f ! first) =
      of_nat (length (records (take i ?kvs)))" by simp
  moreover have "length (records (take i ?kvs)) \<le> length (records ?kvs)"
    using arg_cong [OF append_take_drop_id [of i ?kvs], of "\<lambda>l. length (records l)"] by (simp del: append_take_drop_id)
  ultimately have "unat (km_offset (keys_meta f ! (first + i)) - km_offset (keys_meta f ! first)) =
      length (records (take i ?kvs))" using len by (simp add: unat_of_nat take_bit_nat_eq_self)
  then show ?thesis using read_record_at [of ?kvs buf i] len n i by (simp add: buf)
qed

lemma buffer_bytes:
  assumes t: "table_at raw f kvs" and n: "first + n \<le> length kvs" "0 < n"
  shows "unat (km_offset (keys_meta f ! first)) = length (records (take first kvs))"
    and "unat ((km_offset (keys_meta f ! (first + n - 1)) - km_offset (keys_meta f ! first))
      + km_size (keys_meta f ! (first + n - 1))) = length (records (take n (drop first kvs)))"
    and "take (length (records (take n (drop first kvs)))) (drop (length (records (take first kvs))) raw)
      = records (take n (drop first kvs))"
    and "length (records (take first kvs)) + length (records (take n (drop first kvs))) \<le> length raw"
proof -
  let ?kvs = "take n (drop first kvs)" and ?l = "first + n - 1"
  have split: "records kvs = records (take first kvs) @ records ?kvs @ records (drop n (drop first kvs))"
    by (rule records_middle)
  then have len: "length (records (take first kvs)) + length (records ?kvs) < 2 ^ 64"
    using t by (simp add: table_at_def)
  obtain tail where raw: "raw = records kvs @ tail" using t by (auto simp: table_at_def prefix_def)
  show "take (length (records ?kvs)) (drop (length (records (take first kvs))) raw) = records ?kvs"
    unfolding raw split by simp
  show "length (records (take first kvs)) + length (records ?kvs) \<le> length raw" unfolding raw split by simp
  have fst_off: "km_offset (keys_meta f ! first) = of_nat (length (records (take first kvs)))"
    using table_at_keys(4) [OF t, of first] n by simp
  then show "unat (km_offset (keys_meta f ! first)) = length (records (take first kvs))"
    using len by (simp add: unat_of_nat take_bit_nat_eq_self)
  have l: "?l < length kvs" "?l = first + (n - 1)" using n by simp_all
  have pre: "take ?l kvs = take first kvs @ take (n - 1) (drop first kvs)" unfolding l(2) take_add ..
  have end_kvs: "?kvs = take (n - 1) (drop first kvs) @ [kvs ! ?l]"
    using n l take_Suc_conv_app_nth [of "n - 1" "drop first kvs"] by simp
  have "km_offset (keys_meta f ! ?l) =
      of_nat (length (records (take first kvs)) + length (records (take (n - 1) (drop first kvs))))"
    using table_at_keys(4) [OF t l(1)] unfolding pre by simp
  moreover have "length (records ?kvs) = length (records (take (n - 1) (drop first kvs)))
      + length (key_value (fst (kvs ! ?l)) (snd (kvs ! ?l)))"
    unfolding end_kvs records_append by (simp add: records_def case_prod_beta)
  moreover have "km_size (keys_meta f ! ?l) = of_nat (length (key_value (fst (kvs ! ?l)) (snd (kvs ! ?l))))"
    using table_at_keys(5) [OF t l(1)] .
  ultimately have "(km_offset (keys_meta f ! ?l) - km_offset (keys_meta f ! first)) + km_size (keys_meta f ! ?l) =
      of_nat (length (records ?kvs))" using fst_off by simp
  then show "unat ((km_offset (keys_meta f ! ?l) - km_offset (keys_meta f ! first)) + km_size (keys_meta f ! ?l)) =
      length (records ?kvs)" using len by (simp add: unat_of_nat take_bit_nat_eq_self)
qed

lemma meta_range_pairs:
  assumes "table_at raw f kvs" and "first + n \<le> length kvs"
    and "\<And>i. i < n \<Longrightarrow> read_record buf (unat (km_offset (keys_meta f ! (first + i)) - base)) = Inr (kvs ! (first + i))"
  shows "read_records buf base (take n (drop first (keys_meta f))) =
    Inr (map fst (take n (drop first kvs)), map snd (take n (drop first kvs)))"
proof (rule read_records_pairs)
  show "list_all2 (\<lambda>k kv. read_record buf (unat (km_offset k - base)) = Inr kv)
      (take n (drop first (keys_meta f))) (take n (drop first kvs))"
    using assms table_at_keys(1) [OF assms(1)] by (auto simp: list_all2_conv_all_nth keys_num_def)
qed

lemma NewColumnCompactionItemIterator_entries:
  assumes t: "table_at raw f kvs" and n: "first + n \<le> length kvs" "0 < n"
  shows "\<exists>it. NewColumnCompactionItemIterator raw f first n use_buffer = Inr it \<and> it_ok it
    \<and> it_entries it = take n (drop first kvs) \<and> it_current it = -1"
proof -
  let ?kvs = "take n (drop first kvs)"
  have num: "keys_num f = length kvs" using table_at_keys(1) [OF t] .
  have "ColumnCompactionItemIterator raw f first n =
      Inr \<lparr>vKey = map fst ?kvs, vValue = map snd ?kvs, it_current = -1\<rparr>"
    using n table_at_read [OF t] meta_range_pairs [OF t n(1), of raw 0]
    by (simp add: ColumnCompactionItemIterator_def meta_range_def num)
  moreover have "ColumnCompactionWithBufferIterator raw f first n =
      Inr \<lparr>vKey = map fst ?kvs, vValue = map snd ?kvs, it_current = -1\<rparr>"
    using n buffer_read [OF t n(1) _ refl] meta_range_pairs [OF t n(1), of "records ?kvs" "km_offset (keys_meta f ! first)"]
    unfolding ColumnCompactionWithBufferIterator_def Let_def num
    using buffer_bytes(4) [OF t n] by (simp add: buffer_bytes(1-3) [OF t n] del: One_nat_def)
  ultimately show ?thesis
    by (auto simp: NewColumnCompactionItemIterator_def it_ok_def it_entries_def zip_map_fst_snd)
qed

lemma NVMLevel0ReadIterator_entries:
  assumes t: "table_at raw f kvs" and n: "first + n \<le> length kvs" "0 < n"
  shows "\<exists>it. NVMLevel0ReadIterator raw f first n = Inr it \<and> ri_ok it
    \<and> ri_entries it = take n (drop first kvs) \<and> ri_current it = -1"
proof -
  let ?it = "\<lparr>ri_raw = raw, ri_file = f, ri_first = first, ri_num = n, ri_current = -1\<rparr>"
  have num: "length (keys_meta f) = length kvs" using table_at_keys(1) [OF t] by (simp add: keys_num_def)
  have key: "km_key (keys_meta f ! i) = fst (kvs ! i)" if "i < length kvs" for i
    using arg_cong [OF table_at_keys(2) [OF t], of "\<lambda>l. l ! i"] that num by simp
  have metas: "ri_metas ?it = take n (drop first (keys_meta f))" by (simp add: ri_metas_def)
  have "ri_entries ?it = take n (drop first kvs)"
    using n num key table_at_read [OF t]
    by (intro nth_equalityI) (simp_all add: ri_entries_def metas)
  moreover have "ri_ok ?it"
    using n num table_at_read [OF t] unfolding ri_ok_def metas
    by (auto simp: keys_num_def in_set_conv_nth)
  ultimately show ?thesis using n by (simp add: NVMLevel0ReadIterator_def)
qed

section \<open>Properties\<close>

text \<open>The iterators of a column compaction and of a range read agree. Over a table in its slot, the
  iterator that reads in place, the one that reads a private copy and the read iterator each return,
  from \<open>SeekToFirst\<close> on with \<open>Next\<close>, exactly the pairs of the requested range in order and then
  become invalid, and none of them reads outside the slot.\<close>

theorem level0_iterators_agree:
  "table_at raw f kvs \<and> first + n \<le> length kvs \<and> 0 < n \<Longrightarrow>
     \<exists>it rit. NewColumnCompactionItemIterator raw f first n use_buffer = Inr it
       \<and> NVMLevel0ReadIterator raw f first n = Inr rit
       \<and> scan it_Valid it_Next it_key it_value n (it_SeekToFirst it) = Inr (take n (drop first kvs))
       \<and> scan ri_Valid ri_Next ri_key ri_value n (ri_SeekToFirst rit) = Inr (take n (drop first kvs))
       \<and> \<not> it_Valid ((it_Next ^^ n) (it_SeekToFirst it)) \<and> \<not> ri_Valid ((ri_Next ^^ n) (ri_SeekToFirst rit))"
proof -
  assume *: "table_at raw f kvs \<and> first + n \<le> length kvs \<and> 0 < n"
  obtain it where it: "NewColumnCompactionItemIterator raw f first n use_buffer = Inr it" "it_ok it"
    "it_entries it = take n (drop first kvs)"
    using * NewColumnCompactionItemIterator_entries by blast
  obtain rit where rit: "NVMLevel0ReadIterator raw f first n = Inr rit" "ri_ok rit"
    "ri_entries rit = take n (drop first kvs)"
    using * NVMLevel0ReadIterator_entries by blast
  have len: "length (take n (drop first kvs)) = n" using * by auto
  have "it_current ((it_Next ^^ j) x) = it_current x + int j \<and> vKey ((it_Next ^^ j) x) = vKey x" for j x
    by (induction j) (simp_all add: it_Next_def)
  moreover have "length (vKey it) = n" using it(2,3) len by (metis it_entries_def it_ok_def length_zip min.idem)
  ultimately have "\<not> it_Valid ((it_Next ^^ n) (it_SeekToFirst it))"
    by (simp add: it_Valid_def it_SeekToFirst_def)
  moreover have "ri_current ((ri_Next ^^ j) x) = ri_current x + int j \<and> ri_num ((ri_Next ^^ j) x) = ri_num x" for j x
    by (induction j) (simp_all add: ri_Next_def)
  moreover have "ri_num rit = n" using rit(1) * by (auto simp: NVMLevel0ReadIterator_def split: if_splits)
  ultimately show ?thesis
    using it rit len item_cursor.scan_all [OF it(2)] read_cursor.scan_all [OF rit(2)]
    by (auto simp: ri_Valid_def ri_SeekToFirst_def)
qed

theorem level0_iterators_agree_witness:
  "\<exists>it rit. NewColumnCompactionItemIterator (records [([1], [2]), ([3], [4, 5]), ([6], [7])])
       (example_entry 9 0 [([1], [2]), ([3], [4, 5]), ([6], [7])]) 1 2 True = Inr it
     \<and> NVMLevel0ReadIterator (records [([1], [2]), ([3], [4, 5]), ([6], [7])])
       (example_entry 9 0 [([1], [2]), ([3], [4, 5]), ([6], [7])]) 1 2 = Inr rit
     \<and> scan it_Valid it_Next it_key it_value 2 (it_SeekToFirst it) = Inr [([3], [4, 5]), ([6], [7])]
     \<and> scan ri_Valid ri_Next ri_key ri_value 2 (ri_SeekToFirst rit) = Inr [([3], [4, 5]), ([6], [7])]"
proof -
  let ?kvs = "[([1], [2]), ([3], [4, 5]), ([6], [7])] :: (slice \<times> slice) list"
  have "table_at (records ?kvs) (example_entry 9 0 ?kvs) ?kvs \<and> 1 + 2 \<le> length ?kvs \<and> 0 < (2 :: nat)"
    by (simp add: table_at_def example_entry_def)
  note agree = level0_iterators_agree [OF this, of True]
  have "take 2 (drop 1 ?kvs) = [([3], [4, 5]), ([6], [7])]" by simp
  with agree show ?thesis by metis
qed

text \<open>\<open>Seek\<close> on a table with sorted keys stops at the first key that is not before the target, so that
  a scan from there returns exactly the live pairs with keys from the target on, also if the target
  is before the first or behind the last key. It holds for every total order of the internal keys.\<close>

theorem level0_Seek_correct:
  "three_way icmp \<and> table_at raw f kvs \<and> first + n = length kvs \<and> 0 < n \<and> sorted_keys icmp (map fst kvs) \<Longrightarrow>
     \<exists>rit rit'. NVMLevel0ReadIterator raw f first n = Inr rit \<and> ri_Seek icmp target rit = Inr rit'
       \<and> scan ri_Valid ri_Next ri_key ri_value n rit' =
           Inr (filter (\<lambda>kv. icmp (fst kv) target \<ge> 0) (drop first kvs))"
proof -
  assume *: "three_way icmp \<and> table_at raw f kvs \<and> first + n = length kvs \<and> 0 < n \<and> sorted_keys icmp (map fst kvs)"
  then obtain rit where rit: "NVMLevel0ReadIterator raw f first n = Inr rit" "ri_ok rit"
    "ri_entries rit = take n (drop first kvs)"
    using NVMLevel0ReadIterator_entries [of raw f kvs first n] by auto
  have all: "take n (drop first kvs) = drop first kvs" and len: "length (drop first kvs) = n" using * by auto
  have "sorted_keys icmp (map fst (drop first kvs))"
    using * unfolding sorted_keys_def drop_map [symmetric] by (auto intro: sorted_wrt_drop)
  moreover have "drop first kvs \<noteq> []" using * by auto
  moreover have re: "ri_entries rit = drop first kvs" using rit(3) all by simp
  ultimately obtain s' where "ri_Seek icmp target rit = Inr s'"
    "scan ri_Valid ri_Next ri_key ri_value (length (ri_entries rit)) s' =
      Inr (filter (\<lambda>kv. icmp (fst kv) target \<ge> 0) (ri_entries rit))"
    using read_cursor.scan_from_target [of icmp rit target] rit(2) * by auto
  then show ?thesis using rit(1) unfolding re len by blast
qed

theorem level0_Seek_correct_witness:
  "\<exists>rit rit'. NVMLevel0ReadIterator (records [([1], [2]), ([3], [4, 5]), ([6], [7])])
       (example_entry 9 0 [([1], [2]), ([3], [4, 5]), ([6], [7])]) 0 3 = Inr rit
     \<and> ri_Seek Bytewise_Compare [2] rit = Inr rit'
     \<and> scan ri_Valid ri_Next ri_key ri_value 3 rit' = Inr [([3], [4, 5]), ([6], [7])]"
proof -
  let ?kvs = "[([1], [2]), ([3], [4, 5]), ([6], [7])] :: (slice \<times> slice) list"
  have "sorted_keys Bytewise_Compare (map fst ?kvs)" by code_simp
  then have "three_way Bytewise_Compare \<and> table_at (records ?kvs) (example_entry 9 0 ?kvs) ?kvs
      \<and> 0 + 3 = length ?kvs \<and> 0 < (3 :: nat) \<and> sorted_keys Bytewise_Compare (map fst ?kvs)"
    using bytewise.three_way_axioms by (simp add: table_at_def example_entry_def)
  note s = level0_Seek_correct [OF this, of "[2]"]
  have "filter (\<lambda>kv. Bytewise_Compare (fst kv) [2] \<ge> 0) (drop 0 ?kvs) = [([3], [4, 5]), ([6], [7])]" by code_simp
  with s show ?thesis by simp
qed

end
