(* ===== verification/KeysMerge.thy ===== *)
theory KeysMerge
  imports ColumnIterators
begin

text \<open>
  The merge of the keys of several tables by user key (\<open>utilities/nvm_mod/keys_merge_iterator.h\<close>), with
  which a column compaction walks over the tables under compaction. The child positions are kept in an
  array, with -1 for an exhausted table; the current table is found by a scan over all of them.
\<close>

section \<open>Definitions\<close>

record KeysMergeIterator =
  mi_files :: "FileEntry list"
  mi_firsts :: "nat list"
  child_current :: "int list"
  mi_current :: int

definition KeysMergeIterator_new :: "FileEntry list \<Rightarrow> nat list \<Rightarrow> KeysMergeIterator" where
  "KeysMergeIterator_new fs first_key_indexs =
     \<lparr>mi_files = fs, mi_firsts = first_key_indexs, child_current = replicate (length fs) (-1), mi_current = -1\<rparr>"

text \<open>\<open>ExtractUserKey(files_->at(i)->keys_meta[child_current_[i]].key.Encode())\<close>.\<close>

definition child_key :: "KeysMergeIterator \<Rightarrow> nat \<Rightarrow> slice result" where
  "child_key it i =
     (if i \<ge> length (mi_files it) \<or> child_current it ! i < 0
         \<or> child_current it ! i \<ge> int (keys_num (mi_files it ! i)) then Inl OutOfBounds
      else Inr (ukey (mi_files it ! i) (nat (child_current it ! i))))"

text \<open>The loop of \<open>FindSmallest\<close> and \<open>FindLargest\<close> over the tables in the order of the list; \<open>better\<close> is the test
  on the result of the comparison.\<close>

fun find_child :: "(slice \<Rightarrow> slice \<Rightarrow> int) \<Rightarrow> (int \<Rightarrow> bool) \<Rightarrow> KeysMergeIterator \<Rightarrow> nat list \<Rightarrow> int \<Rightarrow> int result" where
  "find_child ucmp better it [] best = Inr best"
| "find_child ucmp better it (i # is) best =
     (if child_current it ! i \<noteq> -1 then
        if best = -1 then find_child ucmp better it is (int i)
        else
          case child_key it i of
            Inl e \<Rightarrow> Inl e
          | Inr a \<Rightarrow>
              (case child_key it (nat best) of
                 Inl e \<Rightarrow> Inl e
               | Inr b \<Rightarrow>
                   if better (ucmp a b) then find_child ucmp better it is (int i)
                   else find_child ucmp better it is best)
      else find_child ucmp better it is best)"

definition FindSmallest :: "(slice \<Rightarrow> slice \<Rightarrow> int) \<Rightarrow> KeysMergeIterator \<Rightarrow> KeysMergeIterator result" where
  "FindSmallest ucmp it =
     (case find_child ucmp (\<lambda>c. c < 0) it [0..<length (mi_files it)] (-1) of
        Inl e \<Rightarrow> Inl e | Inr smallest \<Rightarrow> Inr (it\<lparr>mi_current := smallest\<rparr>))"

definition FindLargest :: "(slice \<Rightarrow> slice \<Rightarrow> int) \<Rightarrow> KeysMergeIterator \<Rightarrow> KeysMergeIterator result" where
  "FindLargest ucmp it =
     (case find_child ucmp (\<lambda>c. c > 0) it (rev [0..<length (mi_files it)]) (-1) of
        Inl e \<Rightarrow> Inl e | Inr largest \<Rightarrow> Inr (it\<lparr>mi_current := largest\<rparr>))"

definition Merge_SeekToFirst :: "(slice \<Rightarrow> slice \<Rightarrow> int) \<Rightarrow> KeysMergeIterator \<Rightarrow> KeysMergeIterator result" where
  "Merge_SeekToFirst ucmp it =
     (if length (mi_firsts it) < length (mi_files it) then Inl OutOfBounds
      else FindSmallest ucmp
        (it\<lparr>child_current := map int (take (length (mi_files it)) (mi_firsts it))\<rparr>))"

definition Merge_SeekToLast :: "(slice \<Rightarrow> slice \<Rightarrow> int) \<Rightarrow> KeysMergeIterator \<Rightarrow> KeysMergeIterator result" where
  "Merge_SeekToLast ucmp it =
     FindLargest ucmp (it\<lparr>child_current := map (\<lambda>f. int (keys_num f) - 1) (mi_files it)\<rparr>)"

definition Merge_Valid :: "KeysMergeIterator \<Rightarrow> bool" where
  "Merge_Valid it \<longleftrightarrow> mi_current it \<noteq> -1"

definition Merge_Next :: "(slice \<Rightarrow> slice \<Rightarrow> int) \<Rightarrow> KeysMergeIterator \<Rightarrow> KeysMergeIterator result" where
  "Merge_Next ucmp it =
     (if \<not> Merge_Valid it then Inl AssertFailed
      else
        let c = nat (mi_current it);
            j = child_current it ! c + 1;
            j' = (if j \<ge> int (keys_num (mi_files it ! c)) then -1 else j)
        in FindSmallest ucmp (it\<lparr>child_current := (child_current it)[c := j']\<rparr>))"

definition GetCurret :: "KeysMergeIterator \<Rightarrow> (nat \<times> nat) result" where
  "GetCurret it =
     (if mi_current it < 0 \<or> nat (mi_current it) \<ge> length (child_current it) then Inl OutOfBounds
      else Inr (nat (mi_current it), nat (child_current it ! nat (mi_current it))))"

text \<open>A loop over the iterator that collects \<open>GetCurret\<close>.\<close>

fun merge_scan :: "(slice \<Rightarrow> slice \<Rightarrow> int) \<Rightarrow> nat \<Rightarrow> KeysMergeIterator \<Rightarrow> (nat \<times> nat) list result" where
  "merge_scan ucmp 0 it = Inr []"
| "merge_scan ucmp (Suc n) it =
     (if \<not> Merge_Valid it then Inr []
      else
        case GetCurret it of
          Inl e \<Rightarrow> Inl e
        | Inr p \<Rightarrow>
            (case Merge_Next ucmp it of
               Inl e \<Rightarrow> Inl e
             | Inr it' \<Rightarrow> (case merge_scan ucmp n it' of Inl e \<Rightarrow> Inl e | Inr ps \<Rightarrow> Inr (p # ps))))"

section \<open>Positions\<close>

definition pkey :: "FileEntry list \<Rightarrow> nat \<times> nat \<Rightarrow> slice" where
  "pkey fs p = ukey (fs ! fst p) (snd p)"

definition positions :: "FileEntry list \<Rightarrow> nat list \<Rightarrow> (nat \<times> nat) set" where
  "positions fs firsts = {(i, j). i < length fs \<and> firsts ! i \<le> j \<and> j < keys_num (fs ! i)}"

text \<open>The order of the merge: by user key, then the table earlier in the list, then the index.\<close>

definition before :: "(slice \<Rightarrow> slice \<Rightarrow> int) \<Rightarrow> FileEntry list \<Rightarrow> nat \<times> nat \<Rightarrow> nat \<times> nat \<Rightarrow> bool" where
  "before ucmp fs p q \<longleftrightarrow>
     ucmp (pkey fs p) (pkey fs q) < 0
     \<or> ucmp (pkey fs p) (pkey fs q) = 0 \<and> (fst p < fst q \<or> fst p = fst q \<and> snd p < snd q)"

definition user_sorted :: "(slice \<Rightarrow> slice \<Rightarrow> int) \<Rightarrow> FileEntry \<Rightarrow> bool" where
  "user_sorted ucmp f \<longleftrightarrow> (\<forall>i j. i \<le> j \<and> j < keys_num f \<longrightarrow> ucmp (ukey f i) (ukey f j) \<le> 0)"

definition remaining :: "KeysMergeIterator \<Rightarrow> (nat \<times> nat) set" where
  "remaining it = {(i, j). i < length (mi_files it) \<and> child_current it ! i \<noteq> -1
     \<and> child_current it ! i \<le> int j \<and> j < keys_num (mi_files it ! i)}"

definition children_ok :: "KeysMergeIterator \<Rightarrow> bool" where
  "children_ok it \<longleftrightarrow> length (child_current it) = length (mi_files it)
     \<and> (\<forall>i < length (mi_files it). child_current it ! i = -1
          \<or> 0 \<le> child_current it ! i \<and> child_current it ! i < int (keys_num (mi_files it ! i)))"

lemma positions_finite [simp]: "finite (positions fs firsts)"
proof (rule finite_subset)
  show "positions fs firsts \<subseteq> (\<Union>i \<in> {..<length fs}. Pair i ` {..<keys_num (fs ! i)})"
    by (auto simp: positions_def)
qed simp

lemma remaining_finite [simp]: "finite (remaining it)"
proof (rule finite_subset)
  show "remaining it \<subseteq> (\<Union>i \<in> {..<length (mi_files it)}. Pair i ` {..<keys_num (mi_files it ! i)})"
    by (auto simp: remaining_def)
qed simp

abbreviation live :: "KeysMergeIterator \<Rightarrow> nat \<Rightarrow> bool" where
  "live it i \<equiv> child_current it ! i \<noteq> -1"

abbreviation ckey :: "KeysMergeIterator \<Rightarrow> nat \<Rightarrow> slice" where
  "ckey it i \<equiv> ukey (mi_files it ! i) (nat (child_current it ! i))"

lemma child_key_live:
  "children_ok it \<Longrightarrow> i < length (mi_files it) \<Longrightarrow> live it i \<Longrightarrow> child_key it i = Inr (ckey it i)"
  by (auto simp: children_ok_def child_key_def)

context three_way
begin

lemma cmp_total: "\<not> cmp a b < 0 \<Longrightarrow> cmp b a \<le> 0"
  using cmp_le_iff [of b a] by simp

end

lemma find_child_spec:
  assumes "three_way ucmp" and "children_ok it" and "\<forall>i \<in> set is. i < length (mi_files it)"
    and "best = -1 \<or> 0 \<le> best \<and> nat best < length (mi_files it) \<and> live it (nat best)"
    and "sorted_wrt (<) is" and "best \<noteq> -1 \<longrightarrow> (\<forall>i \<in> set is. nat best < i)"
  shows "\<exists>r. find_child ucmp (\<lambda>c. c < 0) it is best = Inr r
    \<and> (r = -1 \<longleftrightarrow> best = -1 \<and> (\<forall>i \<in> set is. \<not> live it i))
    \<and> (r \<noteq> -1 \<longrightarrow> 0 \<le> r \<and> nat r < length (mi_files it) \<and> live it (nat r)
        \<and> (\<forall>i \<in> set is \<union> (if best = -1 then {} else {nat best}). live it i \<longrightarrow>
             ucmp (ckey it (nat r)) (ckey it i) \<le> 0 \<and> (i < nat r \<longrightarrow> ucmp (ckey it (nat r)) (ckey it i) < 0)))"
  using assms(3-6)
proof (induction "is" arbitrary: best)
  case Nil
  then show ?case using three_way.cmp_refl [OF assms(1)] by auto
next
  case (Cons i "is")
  have i: "i < length (mi_files it)" and lt: "\<forall>j \<in> set is. i < j" using Cons.prems by auto
  show ?case
  proof (cases "live it i")
    case False
    then show ?thesis using Cons.IH [of best] Cons.prems by auto
  next
    case True
    note ki = child_key_live [OF assms(2) i True]
    obtain r where r: "find_child ucmp (\<lambda>c. c < 0) it is (int i) = Inr r" "0 \<le> r" "nat r < length (mi_files it)"
      "live it (nat r)" "\<forall>j \<in> set is \<union> {i}. live it j \<longrightarrow>
         ucmp (ckey it (nat r)) (ckey it j) \<le> 0 \<and> (j < nat r \<longrightarrow> ucmp (ckey it (nat r)) (ckey it j) < 0)"
      using Cons.IH [of "int i"] Cons.prems lt i True by auto
    show ?thesis
    proof (cases "best = -1")
      case True
      then show ?thesis using r \<open>live it i\<close> by auto
    next
      case False
      then have b: "0 \<le> best" "nat best < length (mi_files it)" "live it (nat best)" "nat best < i"
        using Cons.prems by auto
      note kb = child_key_live [OF assms(2) b(2,3)]
      show ?thesis
      proof (cases "ucmp (ckey it i) (ckey it (nat best)) < 0")
        case True
        have "ucmp (ckey it (nat r)) (ckey it (nat best)) < 0"
          using r(5) \<open>live it i\<close> True three_way.cmp_le_less_trans [OF assms(1)] by blast
        with r True ki kb False \<open>live it i\<close> show ?thesis by auto
      next
        case nb: False
        obtain r' where r': "find_child ucmp (\<lambda>c. c < 0) it is best = Inr r'" "0 \<le> r'" "nat r' < length (mi_files it)"
          "live it (nat r')" "\<forall>j \<in> set is \<union> {nat best}. live it j \<longrightarrow>
             ucmp (ckey it (nat r')) (ckey it j) \<le> 0 \<and> (j < nat r' \<longrightarrow> ucmp (ckey it (nat r')) (ckey it j) < 0)"
          using Cons.IH [of best] Cons.prems b False by auto
        have bi: "ucmp (ckey it (nat best)) (ckey it i) \<le> 0" using three_way.cmp_total [OF assms(1) nb] .
        have rb: "ucmp (ckey it (nat r')) (ckey it (nat best)) \<le> 0"
          "nat best < nat r' \<longrightarrow> ucmp (ckey it (nat r')) (ckey it (nat best)) < 0" using r'(5) b(3) by auto
        have "ucmp (ckey it (nat r')) (ckey it i) \<le> 0" using rb(1) bi three_way.cmp_le_trans [OF assms(1)] by blast
        moreover have "i < nat r' \<longrightarrow> ucmp (ckey it (nat r')) (ckey it i) < 0"
          using rb(2) bi b(4) three_way.cmp_less_le_trans [OF assms(1)] by (meson less_trans)
        ultimately show ?thesis using r' nb ki kb False \<open>live it i\<close> by auto
      qed
    qed
  qed
qed

lemma find_child_largest:
  assumes "three_way ucmp" and "children_ok it" and "\<forall>i \<in> set is. i < length (mi_files it)"
    and "best = -1 \<or> 0 \<le> best \<and> nat best < length (mi_files it) \<and> live it (nat best)"
  shows "\<exists>r. find_child ucmp (\<lambda>c. c > 0) it is best = Inr r
    \<and> (r = -1 \<longleftrightarrow> best = -1 \<and> (\<forall>i \<in> set is. \<not> live it i))
    \<and> (r \<noteq> -1 \<longrightarrow> 0 \<le> r \<and> nat r < length (mi_files it) \<and> live it (nat r)
        \<and> (\<forall>i \<in> set is \<union> (if best = -1 then {} else {nat best}). live it i \<longrightarrow>
             ucmp (ckey it i) (ckey it (nat r)) \<le> 0))"
  using assms(3,4)
proof (induction "is" arbitrary: best)
  case Nil
  then show ?case using three_way.cmp_refl [OF assms(1)] by auto
next
  case (Cons i "is")
  have i: "i < length (mi_files it)" using Cons.prems by auto
  show ?case
  proof (cases "live it i")
    case False
    then show ?thesis using Cons.IH [of best] Cons.prems by auto
  next
    case True
    note ki = child_key_live [OF assms(2) i True]
    obtain r where r: "find_child ucmp (\<lambda>c. c > 0) it is (int i) = Inr r" "0 \<le> r" "nat r < length (mi_files it)"
      "live it (nat r)" "\<forall>j \<in> set is \<union> {i}. live it j \<longrightarrow> ucmp (ckey it j) (ckey it (nat r)) \<le> 0"
      using Cons.IH [of "int i"] Cons.prems i True by auto
    show ?thesis
    proof (cases "best = -1")
      case True
      then show ?thesis using r \<open>live it i\<close> by auto
    next
      case False
      then have b: "0 \<le> best" "nat best < length (mi_files it)" "live it (nat best)" using Cons.prems by auto
      note kb = child_key_live [OF assms(2) b(2,3)]
      obtain r' where r': "find_child ucmp (\<lambda>c. c > 0) it is best = Inr r'" "0 \<le> r'" "nat r' < length (mi_files it)"
        "live it (nat r')" "\<forall>j \<in> set is \<union> {nat best}. live it j \<longrightarrow> ucmp (ckey it j) (ckey it (nat r')) \<le> 0"
        using Cons.IH [of best] Cons.prems b False by auto
      show ?thesis
      proof (cases "ucmp (ckey it i) (ckey it (nat best)) > 0")
        case True
        then have "ucmp (ckey it (nat best)) (ckey it i) \<le> 0"
          using three_way.cmp_le_iff [OF assms(1)] by simp
        then have "ucmp (ckey it (nat best)) (ckey it (nat r)) \<le> 0"
          using r(5) \<open>live it i\<close> three_way.cmp_le_trans [OF assms(1)] by blast
        with r True ki kb False \<open>live it i\<close> show ?thesis by auto
      next
        case nb: False
        then have "ucmp (ckey it i) (ckey it (nat r')) \<le> 0"
          using r'(5) b(3) three_way.cmp_le_trans [OF assms(1)] by (meson UnI2 not_less singletonI)
        then show ?thesis using r' nb ki kb False \<open>live it i\<close> by auto
      qed
    qed
  qed
qed

section \<open>Steps of the merge\<close>

text \<open>The iterator stands at the least position that remains.\<close>

definition at_least :: "(slice \<Rightarrow> slice \<Rightarrow> int) \<Rightarrow> KeysMergeIterator \<Rightarrow> bool" where
  "at_least ucmp it \<longleftrightarrow>
     (if mi_current it = -1 then remaining it = {}
      else 0 \<le> mi_current it \<and> nat (mi_current it) < length (mi_files it)
        \<and> live it (nat (mi_current it))
        \<and> (\<forall>p \<in> remaining it. p \<noteq> (nat (mi_current it), nat (child_current it ! nat (mi_current it))) \<longrightarrow>
             before ucmp (mi_files it) (nat (mi_current it), nat (child_current it ! nat (mi_current it))) p))"

lemma FindSmallest_at_least:
  assumes "three_way ucmp" and "children_ok it" and "list_all (user_sorted ucmp) (mi_files it)"
  shows "\<exists>it'. FindSmallest ucmp it = Inr it' \<and> it' = it\<lparr>mi_current := mi_current it'\<rparr> \<and> at_least ucmp it'"
proof -
  have "\<exists>r. find_child ucmp (\<lambda>c. c < 0) it [0..<length (mi_files it)] (-1) = Inr r
    \<and> (r = -1 \<longleftrightarrow> (\<forall>i \<in> {0..<length (mi_files it)}. \<not> live it i))
    \<and> (r \<noteq> -1 \<longrightarrow> 0 \<le> r \<and> nat r < length (mi_files it) \<and> live it (nat r)
       \<and> (\<forall>i \<in> {0..<length (mi_files it)}. live it i \<longrightarrow> ucmp (ckey it (nat r)) (ckey it i) \<le> 0
            \<and> (i < nat r \<longrightarrow> ucmp (ckey it (nat r)) (ckey it i) < 0)))"
    using find_child_spec [OF assms(1,2), of "[0..<length (mi_files it)]" "-1"] by simp
  then obtain r where r: "find_child ucmp (\<lambda>c. c < 0) it [0..<length (mi_files it)] (-1) = Inr r"
    "r = -1 \<longleftrightarrow> (\<forall>i \<in> {0..<length (mi_files it)}. \<not> live it i)"
    "r \<noteq> -1 \<longrightarrow> 0 \<le> r \<and> nat r < length (mi_files it) \<and> live it (nat r)
       \<and> (\<forall>i \<in> {0..<length (mi_files it)}. live it i \<longrightarrow> ucmp (ckey it (nat r)) (ckey it i) \<le> 0
            \<and> (i < nat r \<longrightarrow> ucmp (ckey it (nat r)) (ckey it i) < 0))"
    by blast
  let ?it = "it\<lparr>mi_current := r\<rparr>"
  have "at_least ucmp ?it"
  proof (cases "r = -1")
    case True
    then show ?thesis using r(2) by (auto simp: at_least_def remaining_def)
  next
    case False
    have m: "0 \<le> r" "nat r < length (mi_files it)" "live it (nat r)"
      "\<And>i. i < length (mi_files it) \<Longrightarrow> live it i \<Longrightarrow> ucmp (ckey it (nat r)) (ckey it i) \<le> 0"
      "\<And>i. i < length (mi_files it) \<Longrightarrow> live it i \<Longrightarrow> i < nat r \<Longrightarrow> ucmp (ckey it (nat r)) (ckey it i) < 0"
      using r(3) False by simp_all
    have "before ucmp (mi_files it) (nat r, nat (child_current it ! nat r)) (i, j)"
      if p: "(i, j) \<in> remaining it" "(i, j) \<noteq> (nat r, nat (child_current it ! nat r))" for i j
    proof -
      have i: "i < length (mi_files it)" "live it i" "child_current it ! i \<le> int j" "j < keys_num (mi_files it ! i)"
        using p(1) by (auto simp: remaining_def)
      then have c: "nat (child_current it ! i) \<le> j" by simp
      then have le: "ucmp (ckey it i) (ukey (mi_files it ! i) j) \<le> 0"
        using assms(3) i by (auto simp: list_all_length user_sorted_def)
      have "ucmp (ckey it (nat r)) (ckey it i) \<le> 0" by (rule m(4) [OF i(1,2)])
      then have le': "ucmp (ckey it (nat r)) (ukey (mi_files it ! i) j) \<le> 0"
        using le three_way.cmp_le_trans [OF assms(1)] by blast
      show ?thesis
      proof (cases "i < nat r")
        case True
        have "ucmp (ckey it (nat r)) (ckey it i) < 0" by (rule m(5) [OF i(1,2) True])
        then show ?thesis using le three_way.cmp_less_le_trans [OF assms(1)] by (auto simp: before_def pkey_def)
      next
        case False
        then show ?thesis using le' p(2) c by (auto simp: before_def pkey_def)
      qed
    qed
    moreover have "remaining ?it = remaining it" by (simp add: remaining_def)
    ultimately show ?thesis using False m(1-3) by (simp add: at_least_def) fast
  qed
  with r(1) show ?thesis by (auto simp: FindSmallest_def)
qed

lemma Merge_Next_step:
  assumes "three_way ucmp" and "children_ok it" and "list_all (user_sorted ucmp) (mi_files it)"
    and "at_least ucmp it" and "Merge_Valid it"
  shows "\<exists>p it'. GetCurret it = Inr p \<and> Merge_Next ucmp it = Inr it' \<and> p \<in> remaining it
    \<and> remaining it' = remaining it - {p} \<and> (\<forall>q \<in> remaining it'. before ucmp (mi_files it) p q)
    \<and> children_ok it' \<and> mi_files it' = mi_files it \<and> at_least ucmp it'"
proof -
  let ?c = "nat (mi_current it)"
  let ?p = "(?c, nat (child_current it ! ?c))"
  have c: "mi_current it \<noteq> -1" "0 \<le> mi_current it" "?c < length (mi_files it)" "live it ?c"
    "\<forall>p \<in> remaining it. p \<noteq> ?p \<longrightarrow> before ucmp (mi_files it) ?p p"
    using assms(4,5) by (auto simp: at_least_def Merge_Valid_def)
  have ok: "length (child_current it) = length (mi_files it)"
    "0 \<le> child_current it ! ?c" "child_current it ! ?c < int (keys_num (mi_files it ! ?c))"
    using assms(2) c(3,4) by (auto simp: children_ok_def)
  define j where "j = (if child_current it ! ?c + 1 \<ge> int (keys_num (mi_files it ! ?c)) then -1
    else child_current it ! ?c + 1)"
  define it1 where "it1 = it\<lparr>child_current := (child_current it)[?c := j]\<rparr>"
  have fs: "mi_files it1 = mi_files it" by (simp add: it1_def)
  have ok1: "children_ok it1"
    using assms(2) ok c(3) by (auto simp: children_ok_def it1_def nth_list_update j_def)
  have rem: "remaining it1 = remaining it - {?p}"
    using ok c(3,4) by (auto simp: remaining_def it1_def nth_list_update j_def split: if_splits)
  obtain it' where it': "FindSmallest ucmp it1 = Inr it'" "it' = it1\<lparr>mi_current := mi_current it'\<rparr>" "at_least ucmp it'"
    using FindSmallest_at_least [OF assms(1) ok1] assms(3) fs by auto
  have same: "remaining it' = remaining it1" "children_ok it' = children_ok it1" "mi_files it' = mi_files it1"
    by (subst it'(2), simp add: remaining_def children_ok_def)+
  have "Merge_Next ucmp it = Inr it'"
    using it'(1) assms(5) by (simp add: Merge_Next_def Let_def it1_def j_def)
  moreover have "GetCurret it = Inr ?p" using c ok by (simp add: GetCurret_def)
  moreover have "?p \<in> remaining it" using c ok by (auto simp: remaining_def)
  ultimately show ?thesis using it'(3) same ok1 rem fs c(5) by auto
qed

text \<open>The positions an iterator will stand at, from the current one on.\<close>

fun enumerates :: "(slice \<Rightarrow> slice \<Rightarrow> int) \<Rightarrow> KeysMergeIterator \<Rightarrow> (nat \<times> nat) list \<Rightarrow> bool" where
  "enumerates ucmp it [] \<longleftrightarrow> \<not> Merge_Valid it"
| "enumerates ucmp it (p # ps) \<longleftrightarrow>
     Merge_Valid it \<and> GetCurret it = Inr p \<and> (\<exists>it'. Merge_Next ucmp it = Inr it' \<and> enumerates ucmp it' ps)"

lemma enumerates_order:
  assumes "three_way ucmp"
  shows "children_ok it \<Longrightarrow> list_all (user_sorted ucmp) (mi_files it) \<Longrightarrow> at_least ucmp it \<Longrightarrow>
    \<exists>ps. enumerates ucmp it ps \<and> set ps = remaining it \<and> distinct ps
      \<and> sorted_wrt (before ucmp (mi_files it)) ps"
proof (induction "card (remaining it)" arbitrary: it rule: less_induct)
  case less
  show ?case
  proof (cases "Merge_Valid it")
    case False
    then show ?thesis using less.prems(3) by (intro exI [of _ "[]"]) (simp add: at_least_def Merge_Valid_def)
  next
    case True
    obtain p it' where s: "GetCurret it = Inr p" "Merge_Next ucmp it = Inr it'" "p \<in> remaining it"
      "remaining it' = remaining it - {p}" "\<forall>q \<in> remaining it'. before ucmp (mi_files it) p q"
      "children_ok it'" "mi_files it' = mi_files it" "at_least ucmp it'"
      using Merge_Next_step [OF assms less.prems True] by blast
    have "card (remaining it') < card (remaining it)"
      unfolding s(4) by (rule card_Diff1_less [OF remaining_finite s(3)])
    moreover have "list_all (user_sorted ucmp) (mi_files it')" unfolding s(7) by (rule less.prems(2))
    ultimately obtain ps where ps: "enumerates ucmp it' ps" "set ps = remaining it'" "distinct ps"
      "sorted_wrt (before ucmp (mi_files it')) ps"
      using less.hyps [OF _ s(6) _ s(8)] by blast
    have "enumerates ucmp it (p # ps)" using True s(1,2) ps(1) by auto
    moreover have "set (p # ps) = remaining it" using ps(2) s(3,4) by auto
    moreover have "distinct (p # ps)" using ps(2,3) s(4) by simp
    moreover have "sorted_wrt (before ucmp (mi_files it)) (p # ps)" using ps(2,4) s(5,7) by simp
    ultimately show ?thesis by blast
  qed
qed

lemma enumerates_scan:
  "enumerates ucmp it ps \<Longrightarrow> length ps \<le> n \<Longrightarrow> merge_scan ucmp n it = Inr ps"
proof (induction ps arbitrary: it n)
  case Nil
  then show ?case by (cases n) simp_all
next
  case (Cons p ps)
  then show ?case by (cases n) auto
qed

definition merge_input_ok :: "(slice \<Rightarrow> slice \<Rightarrow> int) \<Rightarrow> FileEntry list \<Rightarrow> nat list \<Rightarrow> bool" where
  "merge_input_ok ucmp fs firsts \<longleftrightarrow> length firsts = length fs \<and> list_all (user_sorted ucmp) fs
     \<and> list_all2 (\<lambda>f a. a < keys_num f) fs firsts"

lemma merge_input_okD:
  assumes "merge_input_ok ucmp fs firsts"
  shows "length firsts = length fs" and "list_all (user_sorted ucmp) fs"
    and "i < length fs \<Longrightarrow> firsts ! i < keys_num (fs ! i)"
    and "i < length fs \<Longrightarrow> user_sorted ucmp (fs ! i)"
  using assms list_all2_nthD [of "\<lambda>f a. a < keys_num f" fs firsts i]
  by (simp_all add: merge_input_ok_def list_all_length)

lemma SeekToFirst_enumerates:
  assumes "three_way ucmp" and "merge_input_ok ucmp fs firsts" and "mi_files it0 = fs" and "mi_firsts it0 = firsts"
  shows "\<exists>it ps. Merge_SeekToFirst ucmp it0 = Inr it
    \<and> enumerates ucmp it ps \<and> set ps = positions fs firsts \<and> distinct ps \<and> sorted_wrt (before ucmp fs) ps"
proof -
  let ?it = "it0\<lparr>child_current := map int (take (length (mi_files it0)) (mi_firsts it0))\<rparr>"
  note input = merge_input_okD [OF assms(2)]
  have ok: "children_ok ?it" using input(1,3) assms(3,4) by (auto simp: children_ok_def)
  have rem: "remaining ?it = positions fs firsts"
    using input(1) assms(3,4) by (auto simp: remaining_def positions_def)
  have fs: "mi_files ?it = fs" "list_all (user_sorted ucmp) fs" "length firsts = length fs"
    using input(1,2) assms(3) by simp_all
  obtain it where it: "FindSmallest ucmp ?it = Inr it" "it = ?it\<lparr>mi_current := mi_current it\<rparr>" "at_least ucmp it"
    using FindSmallest_at_least [OF assms(1) ok] fs by auto
  have same: "remaining it = remaining ?it" "children_ok it = children_ok ?it" "mi_files it = fs"
    by (subst it(2), simp add: remaining_def children_ok_def assms(3))+
  obtain ps where "enumerates ucmp it ps" "set ps = remaining it" "distinct ps"
      "sorted_wrt (before ucmp (mi_files it)) ps"
    using enumerates_order [OF assms(1), of it] it(3) same ok fs by auto
  moreover have "Merge_SeekToFirst ucmp it0 = Inr it"
    using it(1) fs(3) assms(3,4) by (simp add: Merge_SeekToFirst_def)
  ultimately show ?thesis using same rem by auto
qed

lemma SeekToLast_largest:
  assumes "three_way ucmp" and "merge_input_ok ucmp fs firsts" and "mi_files it0 = fs" and "fs \<noteq> []"
  shows "\<exists>it p. Merge_SeekToLast ucmp it0 = Inr it \<and> Merge_Valid it \<and> GetCurret it = Inr p
    \<and> mi_files it = fs \<and> mi_firsts it = mi_firsts it0 \<and> p \<in> positions fs firsts
    \<and> (\<forall>q \<in> positions fs firsts. ucmp (pkey fs q) (pkey fs p) \<le> 0)"
proof -
  let ?it = "it0\<lparr>child_current := map (\<lambda>f. int (keys_num f) - 1) (mi_files it0)\<rparr>"
  note first = merge_input_okD(3) [OF assms(2)]
  have ok: "children_ok ?it" and live: "i < length fs \<Longrightarrow> live ?it i" for i
    using first assms(3) by (fastforce simp: children_ok_def)+
  have "\<exists>r. find_child ucmp (\<lambda>c. c > 0) ?it (rev [0..<length fs]) (-1) = Inr r
    \<and> (r = -1 \<longleftrightarrow> (\<forall>i \<in> {0..<length fs}. \<not> live ?it i))
    \<and> (r \<noteq> -1 \<longrightarrow> 0 \<le> r \<and> nat r < length fs \<and> live ?it (nat r)
        \<and> (\<forall>i \<in> {0..<length fs}. live ?it i \<longrightarrow> ucmp (ckey ?it i) (ckey ?it (nat r)) \<le> 0))"
    using find_child_largest [OF assms(1) ok, of "rev [0..<length fs]" "-1"] assms(3) by simp
  then obtain r where r: "find_child ucmp (\<lambda>c. c > 0) ?it (rev [0..<length fs]) (-1) = Inr r"
    "r = -1 \<longleftrightarrow> (\<forall>i \<in> {0..<length fs}. \<not> live ?it i)"
    "r \<noteq> -1 \<longrightarrow> 0 \<le> r \<and> nat r < length fs \<and> live ?it (nat r)
        \<and> (\<forall>i \<in> {0..<length fs}. live ?it i \<longrightarrow> ucmp (ckey ?it i) (ckey ?it (nat r)) \<le> 0)" by blast
  have "live ?it 0" "0 \<in> {0..<length fs}" using live assms(4) by simp_all
  then have r1: "r \<noteq> -1" using r(2) by blast
  then have r': "0 \<le> r" "nat r < length fs"
    "\<And>i. i < length fs \<Longrightarrow> ucmp (ckey ?it i) (ckey ?it (nat r)) \<le> 0"
    using r(3) live by simp_all
  let ?p = "(nat r, keys_num (fs ! nat r) - 1)"
  have ck: "ckey ?it i = ukey (fs ! i) (keys_num (fs ! i) - 1)" if "i < length fs" for i
    using that first [OF that] assms(3) by (simp add: nat_diff_distrib)
  have "ucmp (pkey fs q) (pkey fs ?p) \<le> 0" if q: "q \<in> positions fs firsts" for q
  proof -
    obtain i j where q': "q = (i, j)" "i < length fs" "j < keys_num (fs ! i)" using q by (auto simp: positions_def)
    then have "ucmp (ukey (fs ! i) j) (ukey (fs ! i) (keys_num (fs ! i) - 1)) \<le> 0"
      using merge_input_okD(4) [OF assms(2)] by (simp add: user_sorted_def)
    moreover have "ucmp (ukey (fs ! i) (keys_num (fs ! i) - 1)) (pkey fs ?p) \<le> 0"
      using r'(3) [OF q'(2)] unfolding ck [OF q'(2)] ck [OF r'(2)] by (simp add: pkey_def)
    ultimately have "ucmp (ukey (fs ! i) j) (pkey fs ?p) \<le> 0" by (rule three_way.cmp_le_trans [OF assms(1)])
    then show ?thesis by (simp add: q'(1) pkey_def)
  qed
  moreover have "?p \<in> positions fs firsts" using r'(2) first [OF r'(2)] by (auto simp: positions_def)
  ultimately show ?thesis
    using r(1) r1 r'(1,2) assms(3) first [OF r'(2)]
    by (intro exI [of _ "?it\<lparr>mi_current := r\<rparr>"] exI [of _ ?p])
      (simp add: Merge_SeekToLast_def FindLargest_def Merge_Valid_def GetCurret_def nat_diff_distrib)
qed

section \<open>Properties\<close>

text \<open>C6: the merge visits the keys in order. From \<open>SeekToFirst\<close> on, \<open>Next\<close> visits every live key of every
  table exactly once and then becomes invalid. The user keys come in ascending order, and of equal
  user keys those of the table earlier in the list come first, which is the newer one. \<open>SeekToLast\<close> finds
  a key with the greatest user key.\<close>

theorem keys_merge_in_order:
  "three_way ucmp \<and> merge_input_ok ucmp fs firsts \<and> fs \<noteq> [] \<Longrightarrow>
     \<exists>it ps l p. Merge_SeekToFirst ucmp (KeysMergeIterator_new fs firsts) = Inr it
       \<and> merge_scan ucmp (length ps) it = Inr ps \<and> merge_scan ucmp (Suc (length ps)) it = Inr ps
       \<and> distinct ps \<and> set ps = positions fs firsts \<and> sorted_wrt (before ucmp fs) ps
       \<and> Merge_SeekToLast ucmp (KeysMergeIterator_new fs firsts) = Inr l \<and> GetCurret l = Inr p
       \<and> p \<in> positions fs firsts \<and> (\<forall>q \<in> positions fs firsts. ucmp (pkey fs q) (pkey fs p) \<le> 0)"
proof -
  assume *: "three_way ucmp \<and> merge_input_ok ucmp fs firsts \<and> fs \<noteq> []"
  let ?it = "KeysMergeIterator_new fs firsts"
  have new: "mi_files ?it = fs" "mi_firsts ?it = firsts" by (simp_all add: KeysMergeIterator_new_def)
  obtain it ps where "Merge_SeekToFirst ucmp ?it = Inr it" "enumerates ucmp it ps"
    "set ps = positions fs firsts" "distinct ps" "sorted_wrt (before ucmp fs) ps"
    using SeekToFirst_enumerates [of ucmp fs firsts ?it] * new by blast
  moreover obtain l p where "Merge_SeekToLast ucmp ?it = Inr l" "GetCurret l = Inr p"
    "p \<in> positions fs firsts" "\<forall>q \<in> positions fs firsts. ucmp (pkey fs q) (pkey fs p) \<le> 0"
    using SeekToLast_largest [of ucmp fs firsts ?it] * new by blast
  ultimately show ?thesis
    using enumerates_scan [of ucmp it ps "length ps"] enumerates_scan [of ucmp it ps "Suc (length ps)"]
    by (intro exI [of _ it] exI [of _ ps] exI [of _ l] exI [of _ p]) (simp del: merge_scan.simps)
qed

theorem keys_merge_in_order_witness:
  "\<exists>it. Merge_SeekToFirst Bytewise_Compare
       (KeysMergeIterator_new [example_entry 2 0 [(InternalKey [98] 9 1, [])],
          example_entry 1 1 [(InternalKey [97] 1 1, []), (InternalKey [98] 2 1, [])]] [0, 0]) = Inr it
     \<and> merge_scan Bytewise_Compare 3 it = Inr [(1, 0), (0, 0), (1, 1)]
     \<and> sorted_wrt (before Bytewise_Compare [example_entry 2 0 [(InternalKey [98] 9 1, [])],
          example_entry 1 1 [(InternalKey [97] 1 1, []), (InternalKey [98] 2 1, [])]]) [(1, 0), (0, 0), (1, 1)]"
proof -
  let ?fs = "[example_entry 2 0 [(InternalKey [98] 9 1, [])],
    example_entry 1 1 [(InternalKey [97] 1 1, []), (InternalKey [98] 2 1, [])]]"
  have "merge_input_ok Bytewise_Compare ?fs [0, 0]"
  proof -
    have "keys_num (?fs ! 0) = 1" "keys_num (?fs ! 1) = 2"
      "Bytewise_Compare (ukey (?fs ! 1) 0) (ukey (?fs ! 1) 1) \<le> 0" by code_simp+
    then show ?thesis
      by (auto simp: merge_input_ok_def user_sorted_def less_Suc_eq numeral_2_eq_2 le_Suc_eq)
  qed
  then obtain it ps where s: "Merge_SeekToFirst Bytewise_Compare (KeysMergeIterator_new ?fs [0, 0]) = Inr it"
    "merge_scan Bytewise_Compare (length ps) it = Inr ps" "set ps = positions ?fs [0, 0]" "distinct ps"
    "sorted_wrt (before Bytewise_Compare ?fs) ps"
    using keys_merge_in_order [of Bytewise_Compare ?fs "[0, 0]"] bytewise.three_way_axioms by auto
  have "(case Merge_SeekToFirst Bytewise_Compare (KeysMergeIterator_new ?fs [0, 0]) of Inl e \<Rightarrow> Inl e
      | Inr it \<Rightarrow> merge_scan Bytewise_Compare 3 it) = Inr [(1, 0), (0, 0), (1, 1)]"
    by code_simp
  then have scan: "merge_scan Bytewise_Compare 3 it = Inr [(1, 0), (0, 0), (1, 1)]" unfolding s(1) by simp
  have "positions ?fs [0, 0] = {(1, 0), (0, 0), (1, 1)}"
    by (auto simp: positions_def less_Suc_eq example_entry_def keys_num_def)
  then have "card (set ps) = 3" using s(3) by simp
  then have "length ps = 3" using distinct_card [OF s(4)] by simp
  with s(2) scan have "ps = [(1, 0), (0, 0), (1, 1)]" by simp
  with s(1,5) scan show ?thesis by blast
qed

end
