(* ===== verification/VersionStorage.thy ===== *)
theory VersionStorage
  imports VersionEdits
begin

text \<open>
  The files of a version by level (\<open>VersionStorageInfo\<close> in \<open>db/version_set.h\<close>, \<open>version_set.cc\<close>) and the
  searches for files that overlap a range of keys, with \<open>sstableKeyCompare\<close> and \<open>TotalFileSize\<close> of
  \<open>db/compaction.cc\<close>.

  \<open>level_files_brief_\<close> repeats the boundary keys of \<open>files_\<close> in one block of memory; both are the lists
  \<open>vs_files\<close> of the model. A null pointer for a bound is \<open>None\<close>. The assertions of debug builds are
  modelled, as \<open>AssertFailed\<close>.
\<close>

section \<open>Definitions\<close>

definition kRangeTombstoneSentinel :: u64 where
  "kRangeTombstoneSentinel = push_bit 8 kMaxSequenceNumber OR ucast kTypeRangeDeletion"

definition sstableKeyCompare :: "(slice \<Rightarrow> slice \<Rightarrow> int) \<Rightarrow> slice \<Rightarrow> slice \<Rightarrow> int" where
  "sstableKeyCompare ucmp a b =
     (let c = ucmp (ExtractUserKey a) (ExtractUserKey b)
      in if c \<noteq> 0 then c
         else
           let a_footer = ExtractInternalKeyFooter a; b_footer = ExtractInternalKeyFooter b
           in if a_footer = kRangeTombstoneSentinel then
                (if b_footer \<noteq> kRangeTombstoneSentinel then -1 else 0)
              else if b_footer = kRangeTombstoneSentinel then 1 else 0)"

definition sstableKeyCompare_begin :: "(slice \<Rightarrow> slice \<Rightarrow> int) \<Rightarrow> slice option \<Rightarrow> slice \<Rightarrow> int" where
  "sstableKeyCompare_begin ucmp a b = (case a of None \<Rightarrow> -1 | Some a \<Rightarrow> sstableKeyCompare ucmp a b)"

definition sstableKeyCompare_end :: "(slice \<Rightarrow> slice \<Rightarrow> int) \<Rightarrow> slice \<Rightarrow> slice option \<Rightarrow> int" where
  "sstableKeyCompare_end ucmp a b = (case b of None \<Rightarrow> -1 | Some b \<Rightarrow> sstableKeyCompare ucmp a b)"

definition TotalFileSize :: "FileMetaData list \<Rightarrow> u64" where
  "TotalFileSize fs = sum_list (map (\<lambda>f. fd_file_size (fm_fd f)) fs)"

record VersionStorageInfo =
  vs_files :: "FileMetaData list list"
  num_non_empty_levels :: nat
  is_nvmcf :: bool

definition num_levels :: "VersionStorageInfo \<Rightarrow> nat" where
  "num_levels v = length (vs_files v)"

definition LevelFiles :: "VersionStorageInfo \<Rightarrow> nat \<Rightarrow> FileMetaData list" where
  "LevelFiles v level = vs_files v ! level"

definition VersionStorage_AddFile ::
    "(slice \<Rightarrow> slice \<Rightarrow> int) \<Rightarrow> nat \<Rightarrow> FileMetaData \<Rightarrow> VersionStorageInfo \<Rightarrow> VersionStorageInfo result" where
  "VersionStorage_AddFile ucmp level f v =
     (let level_files = LevelFiles v level
      in if level > 0 \<and> level_files \<noteq> []
            \<and> InternalKeyComparator_Compare ucmp (fm_largest (last level_files)) (fm_smallest f) \<ge> 0
         then Inl AssertFailed
         else Inr (v\<lparr>vs_files := (vs_files v)[level := level_files @ [f]]\<rparr>))"

fun non_empty_levels :: "FileMetaData list list \<Rightarrow> nat \<Rightarrow> nat" where
  "non_empty_levels fs 0 = 0"
| "non_empty_levels fs (Suc i) = (if fs ! i \<noteq> [] then Suc i else non_empty_levels fs i)"

definition UpdateNumNonEmptyLevels :: "VersionStorageInfo \<Rightarrow> VersionStorageInfo" where
  "UpdateNumNonEmptyLevels v = v\<lparr>num_non_empty_levels := non_empty_levels (vs_files v) (num_levels v)\<rparr>"

definition NumLevelBytes :: "VersionStorageInfo \<Rightarrow> nat \<Rightarrow> u64 result" where
  "NumLevelBytes v level =
     (if level < num_levels v then Inr (TotalFileSize (LevelFiles v level)) else Inl AssertFailed)"

abbreviation file_number :: "FileMetaData \<Rightarrow> u64" where
  "file_number f \<equiv> GetNumber (fm_fd f)"

subsection \<open>One file of a level\<close>

text \<open>\<open>std::lower_bound\<close> over \<open>[first, first + len)\<close>, with the test that an element is before the value.\<close>

function std_lower_bound :: "(nat \<Rightarrow> bool) \<Rightarrow> nat \<Rightarrow> nat \<Rightarrow> nat" where
  "std_lower_bound is_before first len =
     (if len > 0 then
        let half = len div 2; middle = first + half
        in if is_before middle then std_lower_bound is_before (middle + 1) (len - half - 1)
           else std_lower_bound is_before first half
      else first)"
  by pat_completeness auto
termination
  by (relation "measure (\<lambda>(is_before, first, len). len)") auto

declare std_lower_bound.simps [simp del]

definition FindFileInRange ::
    "(slice \<Rightarrow> slice \<Rightarrow> int) \<Rightarrow> FileMetaData list \<Rightarrow> slice \<Rightarrow> nat \<Rightarrow> nat \<Rightarrow> nat" where
  "FindFileInRange ucmp file_level key left right =
     std_lower_bound (\<lambda>i. InternalKeyComparator_Compare ucmp (fm_largest (file_level ! i)) key < 0)
       left (right - left)"

definition FindFile_level :: "(slice \<Rightarrow> slice \<Rightarrow> int) \<Rightarrow> FileMetaData list \<Rightarrow> slice \<Rightarrow> nat" where
  "FindFile_level ucmp file_level key = FindFileInRange ucmp file_level key 0 (length file_level)"

definition AfterFile :: "(slice \<Rightarrow> slice \<Rightarrow> int) \<Rightarrow> slice option \<Rightarrow> FileMetaData \<Rightarrow> bool" where
  "AfterFile ucmp user_key f \<longleftrightarrow>
     (case user_key of None \<Rightarrow> False | Some u \<Rightarrow> ucmp u (ExtractUserKey (fm_largest f)) > 0)"

definition BeforeFile :: "(slice \<Rightarrow> slice \<Rightarrow> int) \<Rightarrow> slice option \<Rightarrow> FileMetaData \<Rightarrow> bool" where
  "BeforeFile ucmp user_key f \<longleftrightarrow>
     (case user_key of None \<Rightarrow> False | Some u \<Rightarrow> ucmp u (ExtractUserKey (fm_smallest f)) < 0)"

fun any_file_overlaps ::
    "(slice \<Rightarrow> slice \<Rightarrow> int) \<Rightarrow> FileMetaData list \<Rightarrow> slice option \<Rightarrow> slice option \<Rightarrow> bool" where
  "any_file_overlaps ucmp [] smallest largest \<longleftrightarrow> False"
| "any_file_overlaps ucmp (f # fs) smallest largest \<longleftrightarrow>
     (if AfterFile ucmp smallest f \<or> BeforeFile ucmp largest f then any_file_overlaps ucmp fs smallest largest
      else True)"

definition SomeFileOverlapsRange ::
    "(slice \<Rightarrow> slice \<Rightarrow> int) \<Rightarrow> bool \<Rightarrow> FileMetaData list \<Rightarrow> slice option \<Rightarrow> slice option \<Rightarrow> bool" where
  "SomeFileOverlapsRange ucmp disjoint_sorted_files file_level smallest_user_key largest_user_key =
     (if \<not> disjoint_sorted_files then any_file_overlaps ucmp file_level smallest_user_key largest_user_key
      else
        let index = (case smallest_user_key of
                       None \<Rightarrow> 0
                     | Some u \<Rightarrow> FindFile_level ucmp file_level (SetMinPossibleForUserKey [] u))
        in if index \<ge> length file_level then False
           else \<not> BeforeFile ucmp largest_user_key (file_level ! index))"

definition OverlapInLevel ::
    "(slice \<Rightarrow> slice \<Rightarrow> int) \<Rightarrow> VersionStorageInfo \<Rightarrow> nat \<Rightarrow> slice option \<Rightarrow> slice option \<Rightarrow> bool" where
  "OverlapInLevel ucmp v level smallest_user_key largest_user_key =
     (if level \<ge> num_non_empty_levels v then False
      else SomeFileOverlapsRange ucmp (level > 0) (LevelFiles v level) smallest_user_key largest_user_key)"

subsection \<open>All files of a sorted level\<close>

text \<open>The binary search for one file of the range: its index, if there is one.\<close>

function overlap_search ::
    "(slice \<Rightarrow> slice \<Rightarrow> int) \<Rightarrow> FileMetaData list \<Rightarrow> slice option \<Rightarrow> slice option \<Rightarrow> bool \<Rightarrow> int \<Rightarrow> int \<Rightarrow> int option" where
  "overlap_search ucmp fs start limit within_interval lo hi =
     (if lo \<le> hi then
        let mid = (lo + hi) div 2; f = fs ! nat mid
        in if \<not> within_interval \<and> sstableKeyCompare_begin ucmp start (fm_largest f) > 0
              \<or> within_interval \<and> sstableKeyCompare_begin ucmp start (fm_smallest f) > 0
           then overlap_search ucmp fs start limit within_interval (mid + 1) hi
           else if \<not> within_interval \<and> sstableKeyCompare_end ucmp (fm_smallest f) limit > 0
                   \<or> within_interval \<and> sstableKeyCompare_end ucmp (fm_largest f) limit > 0
           then overlap_search ucmp fs start limit within_interval lo (mid - 1)
           else Some mid
      else None)"
  by pat_completeness auto
termination
  by (relation "measure (\<lambda>(ucmp, fs, start, limit, w, lo, hi). nat (hi - lo + 1))") auto

declare overlap_search.simps [simp del]

fun extend_back :: "(slice \<Rightarrow> slice \<Rightarrow> int) \<Rightarrow> FileMetaData list \<Rightarrow> slice option \<Rightarrow> nat \<Rightarrow> int \<Rightarrow> int" where
  "extend_back ucmp fs start i start_index =
     (if sstableKeyCompare_begin ucmp start (fm_largest (fs ! i)) \<le> 0
      then (case i of 0 \<Rightarrow> 0 | Suc i' \<Rightarrow> extend_back ucmp fs start i' (int i))
      else start_index)"

declare extend_back.simps [simp del]

function extend_forward :: "(slice \<Rightarrow> slice \<Rightarrow> int) \<Rightarrow> FileMetaData list \<Rightarrow> slice option \<Rightarrow> nat \<Rightarrow> int \<Rightarrow> int" where
  "extend_forward ucmp fs limit i end_index =
     (if i < length fs \<and> sstableKeyCompare_end ucmp (fm_smallest (fs ! i)) limit \<le> 0
      then extend_forward ucmp fs limit (i + 1) (int i)
      else end_index)"
  by pat_completeness auto
termination
  by (relation "measure (\<lambda>(ucmp, fs, limit, i, e). length fs - i)") auto

declare extend_forward.simps [simp del]

definition ExtendFileRangeOverlappingInterval ::
    "(slice \<Rightarrow> slice \<Rightarrow> int) \<Rightarrow> FileMetaData list \<Rightarrow> slice option \<Rightarrow> slice option \<Rightarrow> nat \<Rightarrow> (int \<times> int) result" where
  "ExtendFileRangeOverlappingInterval ucmp fs start limit mid_index =
     (if mid_index \<ge> length fs then Inl AssertFailed
      else
        let f = fs ! mid_index
        in if (if sstableKeyCompare_begin ucmp start (fm_smallest f) \<le> 0
               then \<not> sstableKeyCompare_end ucmp (fm_smallest f) limit \<le> 0
               else \<not> sstableKeyCompare_begin ucmp start (fm_largest f) \<le> 0)
           then Inl AssertFailed
           else Inr (extend_back ucmp fs start mid_index (int mid_index + 1),
                     extend_forward ucmp fs limit (mid_index + 1) (int mid_index)))"

function shrink_left ::
    "(slice \<Rightarrow> slice \<Rightarrow> int) \<Rightarrow> FileMetaData list \<Rightarrow> slice option \<Rightarrow> int \<Rightarrow> int \<Rightarrow> int" where
  "shrink_left ucmp fs start left right =
     (if left \<le> right then
        let smallest = fm_smallest (fs ! nat left)
        in if sstableKeyCompare_begin ucmp start smallest > 0 then shrink_left ucmp fs start (left + 1) right
           else if left > 0 \<and> sstableKeyCompare ucmp smallest (fm_largest (fs ! nat (left - 1))) = 0
           then shrink_left ucmp fs start (left + 1) right
           else left
      else left)"
  by pat_completeness auto
termination
  by (relation "measure (\<lambda>(ucmp, fs, start, left, right). nat (right - left + 1))") auto

declare shrink_left.simps [simp del]

function shrink_right ::
    "(slice \<Rightarrow> slice \<Rightarrow> int) \<Rightarrow> FileMetaData list \<Rightarrow> slice option \<Rightarrow> int \<Rightarrow> int \<Rightarrow> int" where
  "shrink_right ucmp fs limit left right =
     (if left \<le> right then
        let largest = fm_largest (fs ! nat right)
        in if sstableKeyCompare_end ucmp largest limit > 0 then shrink_right ucmp fs limit left (right - 1)
           else if right < int (length fs) - 1
                   \<and> sstableKeyCompare ucmp (fm_smallest (fs ! nat (right + 1))) largest = 0
           then shrink_right ucmp fs limit left (right - 1)
           else right
      else right)"
  by pat_completeness auto
termination
  by (relation "measure (\<lambda>(ucmp, fs, limit, left, right). nat (right - left + 1))") auto

declare shrink_right.simps [simp del]

definition ExtendFileRangeWithinInterval ::
    "(slice \<Rightarrow> slice \<Rightarrow> int) \<Rightarrow> FileMetaData list \<Rightarrow> slice option \<Rightarrow> slice option \<Rightarrow> nat \<Rightarrow> (int \<times> int) result" where
  "ExtendFileRangeWithinInterval ucmp fs start limit mid_index =
     (if mid_index \<ge> length fs then Inl AssertFailed
      else if \<not> (sstableKeyCompare_begin ucmp start (fm_smallest (fs ! mid_index)) \<le> 0
                 \<and> sstableKeyCompare_end ucmp (fm_largest (fs ! mid_index)) limit \<le> 0)
      then Inl AssertFailed
      else
        case ExtendFileRangeOverlappingInterval ucmp fs start limit mid_index of
          Inl e \<Rightarrow> Inl e
        | Inr (start_index, end_index) \<Rightarrow>
            let left = shrink_left ucmp fs start start_index end_index;
                right = shrink_right ucmp fs limit left end_index
            in Inr (left, right))"

text \<open>What happens to \<open>**next_smallest\<close>: nothing, a key is written, or the pointer is set to null.\<close>

datatype next_smallest = Untouched | WriteKey slice | SetNull

record Overlapping =
  ov_inputs :: "FileMetaData list"
  ov_file_index :: int
  ov_next :: next_smallest

text \<open>\<open>inputs\<close> and \<open>*file_index\<close> are as the caller has cleared them.\<close>

definition GetOverlappingInputsRangeBinarySearch ::
    "(slice \<Rightarrow> slice \<Rightarrow> int) \<Rightarrow> FileMetaData list \<Rightarrow> slice option \<Rightarrow> slice option \<Rightarrow> int \<Rightarrow> bool \<Rightarrow> Overlapping result" where
  "GetOverlappingInputsRangeBinarySearch ucmp fs start limit hint_index within_interval =
     (let found = (if hint_index \<noteq> -1 then Some hint_index
                   else overlap_search ucmp fs start limit within_interval 0 (int (length fs) - 1))
      in case found of
           None \<Rightarrow> Inr \<lparr>ov_inputs = [], ov_file_index = -1, ov_next = Untouched\<rparr>
         | Some mid \<Rightarrow>
             (case (if within_interval then ExtendFileRangeWithinInterval ucmp fs start limit (nat mid)
                    else ExtendFileRangeOverlappingInterval ucmp fs start limit (nat mid)) of
                Inl e \<Rightarrow> Inl e
              | Inr (start_index, end_index) \<Rightarrow>
                  if \<not> within_interval \<and> \<not> end_index \<ge> start_index then Inl AssertFailed
                  else Inr \<lparr>ov_inputs = map (\<lambda>i. fs ! nat i) [start_index..end_index], ov_file_index = mid,
                            ov_next = (if end_index + 1 < int (length fs)
                                       then WriteKey (fm_smallest (fs ! nat (end_index + 1))) else SetNull)\<rparr>))"

subsection \<open>All files of level 0\<close>

text \<open>One pass over the files that are left: those that do not overlap, those that do, and the range, widened
  if \<open>expand_range\<close> is set.\<close>

fun overlap_pass ::
    "(slice \<Rightarrow> slice \<Rightarrow> int) \<Rightarrow> FileMetaData list \<Rightarrow> bool \<Rightarrow> nat list \<Rightarrow> slice option \<Rightarrow> slice option \<Rightarrow>
     nat list \<times> nat list \<times> slice option \<times> slice option" where
  "overlap_pass ucmp fs expand_range [] user_begin user_end = ([], [], user_begin, user_end)"
| "overlap_pass ucmp fs expand_range (i # is) user_begin user_end =
     (let file_start = ExtractUserKey (fm_smallest (fs ! i));
          file_limit = ExtractUserKey (fm_largest (fs ! i))
      in if (case user_begin of None \<Rightarrow> False | Some b \<Rightarrow> ucmp file_limit b < 0)
            \<or> (case user_end of None \<Rightarrow> False | Some e \<Rightarrow> ucmp file_start e > 0)
         then
           let (rest, found, b', e') = overlap_pass ucmp fs expand_range is user_begin user_end
           in (i # rest, found, b', e')
         else
           let b1 = (case user_begin of
                       None \<Rightarrow> None
                     | Some b \<Rightarrow> Some (if expand_range \<and> ucmp file_start b < 0 then file_start else b));
               e1 = (case user_end of
                       None \<Rightarrow> None
                     | Some e \<Rightarrow> Some (if expand_range \<and> ucmp file_limit e > 0 then file_limit else e));
               (rest, found, b', e') = overlap_pass ucmp fs expand_range is b1 e1
           in (rest, i # found, b', e'))"

lemma overlap_pass_split:
  "overlap_pass ucmp fs x is b e = (rest, found, b', e') \<Longrightarrow> length is = length rest + length found"
  by (induction ucmp fs x "is" b e arbitrary: rest found b' e' rule: overlap_pass.induct)
    (auto simp: Let_def split: prod.splits if_splits)

function overlap_rounds ::
    "(slice \<Rightarrow> slice \<Rightarrow> int) \<Rightarrow> FileMetaData list \<Rightarrow> bool \<Rightarrow> nat list \<Rightarrow> slice option \<Rightarrow> slice option \<Rightarrow> nat list" where
  "overlap_rounds ucmp fs expand_range is user_begin user_end =
     (if is = [] then []
      else
        case overlap_pass ucmp fs expand_range is user_begin user_end of
          (rest, found, b', e') \<Rightarrow>
            if found = [] then [] else found @ overlap_rounds ucmp fs expand_range rest b' e')"
  by pat_completeness auto
termination
  by (relation "measure (\<lambda>(ucmp, fs, x, is, b, e). length is)") (auto dest: overlap_pass_split [OF sym] overlap_pass_split)

declare overlap_rounds.simps [simp del]

definition GetOverlappingInputs ::
    "(slice \<Rightarrow> slice \<Rightarrow> int) \<Rightarrow> VersionStorageInfo \<Rightarrow> nat \<Rightarrow> slice option \<Rightarrow> slice option \<Rightarrow> FileMetaData list \<Rightarrow>
     int \<Rightarrow> bool \<Rightarrow> Overlapping result" where
  "GetOverlappingInputs ucmp v level start limit inputs hint_index expand_range =
     (if level \<ge> num_non_empty_levels v
      then Inr \<lparr>ov_inputs = inputs, ov_file_index = -1, ov_next = Untouched\<rparr>
      else if level > 0
      then GetOverlappingInputsRangeBinarySearch ucmp (LevelFiles v level) start limit hint_index False
      else
        let fs = LevelFiles v level;
            found = overlap_rounds ucmp fs expand_range [0..<length fs]
                      (map_option ExtractUserKey start) (map_option ExtractUserKey limit)
        in Inr \<lparr>ov_inputs = map ((!) fs) found,
                ov_file_index = (case found of [] \<Rightarrow> -1 | i # _ \<Rightarrow> int i), ov_next = SetNull\<rparr>)"

definition GetCleanInputsWithinInterval ::
    "(slice \<Rightarrow> slice \<Rightarrow> int) \<Rightarrow> VersionStorageInfo \<Rightarrow> nat \<Rightarrow> slice option \<Rightarrow> slice option \<Rightarrow> int \<Rightarrow> Overlapping result" where
  "GetCleanInputsWithinInterval ucmp v level start limit hint_index =
     (if level \<ge> num_non_empty_levels v \<or> level = 0 \<or> LevelFiles v level = []
      then Inr \<lparr>ov_inputs = [], ov_file_index = -1, ov_next = Untouched\<rparr>
      else
        let fs = LevelFiles v level;
            start' = (case start of None \<Rightarrow> Some (fm_smallest (hd fs)) | Some _ \<Rightarrow> start);
            limit' = (case limit of None \<Rightarrow> Some (fm_largest (last fs)) | Some _ \<Rightarrow> limit)
        in GetOverlappingInputsRangeBinarySearch ucmp fs start' limit' hint_index True)"

section \<open>Searches\<close>

lemma std_lower_bound_ge: "first \<le> std_lower_bound P first len"
proof (induction P first len rule: std_lower_bound.induct)
  case (1 P first len)
  let ?r = "std_lower_bound P (first + len div 2 + 1) (len - len div 2 - 1)"
  have "first \<le> ?r" if "len > 0" "P (first + len div 2)"
    using "1.IH"(1) [OF that(1) refl refl that(2)] by simp
  then show ?case
    using "1.IH"(2) by (subst std_lower_bound.simps) (simp add: Let_def)
qed

lemma std_lower_bound_spec:
  assumes "\<And>i j. first \<le> i \<Longrightarrow> i < j \<Longrightarrow> j < first + len \<Longrightarrow> P j \<Longrightarrow> P i"
  shows "std_lower_bound P first len \<le> first + len
    \<and> (\<forall>i. first \<le> i \<and> i < first + len \<longrightarrow> (P i \<longleftrightarrow> i < std_lower_bound P first len))"
  using assms
proof (induction len arbitrary: first rule: less_induct)
  case (less len)
  show ?case
  proof (cases "len = 0")
    case True
    then show ?thesis by (auto simp: std_lower_bound.simps [of _ _ 0])
  next
    case False
    define m where "m = first + len div 2"
    have m: "first \<le> m" "m < first + len" using False by (simp_all add: m_def)
    show ?thesis
    proof (cases "P m")
      case True
      let ?r = "std_lower_bound P (m + 1) (len - len div 2 - 1)"
      have len: "len - len div 2 - 1 < len" "m + 1 + (len - len div 2 - 1) = first + len"
        using False by (simp_all add: m_def)
      have step: "std_lower_bound P first len = ?r"
        using True False by (simp add: std_lower_bound.simps [of P first len] m_def Let_def)
      have lo: "m + 1 \<le> ?r" by (rule std_lower_bound_ge)
      have IH: "?r \<le> m + 1 + (len - len div 2 - 1)
        \<and> (\<forall>i. m + 1 \<le> i \<and> i < m + 1 + (len - len div 2 - 1) \<longrightarrow> (P i \<longleftrightarrow> i < ?r))"
        using less.prems m len by (intro less.IH) auto
      have "P i \<longleftrightarrow> i < ?r" if i: "first \<le> i" "i < first + len" for i
      proof (cases "m + 1 \<le> i")
        case True
        then show ?thesis using IH i unfolding len(2) by blast
      next
        case False
        then have "P i" using \<open>P m\<close> less.prems [of i m] m i by (cases "i = m") auto
        then show ?thesis using False lo by auto
      qed
      then show ?thesis using IH unfolding step len(2) by blast
    next
      case nP: False
      let ?r = "std_lower_bound P first (len div 2)"
      have step: "std_lower_bound P first len = ?r"
        using nP False by (simp add: std_lower_bound.simps [of P first len] m_def)
      have IH: "?r \<le> m \<and> (\<forall>i. first \<le> i \<and> i < m \<longrightarrow> (P i \<longleftrightarrow> i < ?r))"
        unfolding m_def using less.prems False by (intro less.IH) auto
      have "P i \<longleftrightarrow> i < ?r" if i: "first \<le> i" "i < first + len" for i
      proof (cases "i < m")
        case True
        then show ?thesis using IH i by blast
      next
        case False
        then have "\<not> P i" using nP less.prems [of m i] m i by (cases "i = m") auto
        then show ?thesis using False IH by auto
      qed
      then show ?thesis using IH m unfolding step by auto
    qed
  qed
qed

lemma any_file_overlaps_iff:
  "any_file_overlaps ucmp fs a b \<longleftrightarrow> (\<exists>f \<in> set fs. \<not> AfterFile ucmp a f \<and> \<not> BeforeFile ucmp b f)"
  by (induction fs) auto

lemma upto_upt:
  assumes "0 \<le> s"
  shows "[s..t] = map int [nat s..<nat (t + 1)]"
  using assms by (intro nth_equalityI) auto

lemma filter_upt:
  assumes "s \<le> t" and "t \<le> length fs" and "\<And>i. i < length fs \<Longrightarrow> P (fs ! i) \<longleftrightarrow> s \<le> i \<and> i < t"
  shows "filter P fs = map ((!) fs) [s..<t]"
proof -
  have "[0..<length fs] = [0..<s] @ [s..<t] @ [t..<length fs]"
    using upt_add_eq_append [of 0 s "t - s"] upt_add_eq_append [of 0 t "length fs - t"] assms(1,2) by simp
  moreover have "filter (P \<circ> (!) fs) [0..<s] = []" "filter (P \<circ> (!) fs) [t..<length fs] = []"
    "filter (P \<circ> (!) fs) [s..<t] = [s..<t]"
    using assms by (auto simp: filter_empty_conv filter_id_conv)
  ultimately have "filter (P \<circ> (!) fs) [0..<length fs] = [s..<t]" by (simp only: filter_append append_Nil append_Nil2)
  then show ?thesis using filter_map [of P "(!) fs" "[0..<length fs]"] by (simp add: map_nth)
qed

text \<open>
  The files of a level above 0: valid boundary keys, sorted by key and disjoint. Only a largest key may carry
  the range tombstone sentinel, whose sequence number is above that of every entry.
\<close>

definition level_ok :: "(slice \<Rightarrow> slice \<Rightarrow> int) \<Rightarrow> FileMetaData list \<Rightarrow> bool" where
  "level_ok ucmp fs \<longleftrightarrow>
     list_all (\<lambda>f. InternalKey_Valid (fm_largest f)
        \<and> ExtractInternalKeyFooter (fm_smallest f) < kRangeTombstoneSentinel
        \<and> InternalKeyComparator_Compare ucmp (fm_smallest f) (fm_largest f) \<le> 0) fs
     \<and> sorted_wrt (\<lambda>f g. InternalKeyComparator_Compare ucmp (fm_largest f) (fm_smallest g) < 0) fs"

lemma level_okD:
  assumes "level_ok ucmp fs" and "i < length fs"
  shows "InternalKey_Valid (fm_largest (fs ! i))"
    and "ExtractInternalKeyFooter (fm_smallest (fs ! i)) < kRangeTombstoneSentinel"
    and "InternalKeyComparator_Compare ucmp (fm_smallest (fs ! i)) (fm_largest (fs ! i)) \<le> 0"
    and "j < i \<Longrightarrow> InternalKeyComparator_Compare ucmp (fm_largest (fs ! j)) (fm_smallest (fs ! i)) < 0"
  using assms by (simp_all add: level_ok_def list_all_length sorted_wrt_iff_nth_less)

definition overlaps :: "(slice \<Rightarrow> slice \<Rightarrow> int) \<Rightarrow> slice option \<Rightarrow> slice option \<Rightarrow> FileMetaData \<Rightarrow> bool" where
  "overlaps ucmp start limit f \<longleftrightarrow>
     sstableKeyCompare_begin ucmp start (fm_largest f) \<le> 0 \<and> sstableKeyCompare_end ucmp (fm_smallest f) limit \<le> 0"

definition within :: "(slice \<Rightarrow> slice \<Rightarrow> int) \<Rightarrow> slice option \<Rightarrow> slice option \<Rightarrow> FileMetaData \<Rightarrow> bool" where
  "within ucmp start limit f \<longleftrightarrow>
     sstableKeyCompare_begin ucmp start (fm_smallest f) \<le> 0 \<and> sstableKeyCompare_end ucmp (fm_largest f) limit \<le> 0"

text \<open>Ranges of user keys: the files that meet one, the files inside one, and a range that contains another.\<close>

definition meets :: "(slice \<Rightarrow> slice \<Rightarrow> int) \<Rightarrow> slice option \<Rightarrow> slice option \<Rightarrow> FileMetaData \<Rightarrow> bool" where
  "meets ucmp b e f \<longleftrightarrow> \<not> AfterFile ucmp b f \<and> \<not> BeforeFile ucmp e f"

definition covers :: "(slice \<Rightarrow> slice \<Rightarrow> int) \<Rightarrow> slice option \<Rightarrow> slice option \<Rightarrow> FileMetaData \<Rightarrow> bool" where
  "covers ucmp b e f \<longleftrightarrow>
     pred_option (\<lambda>b. ucmp b (ExtractUserKey (fm_smallest f)) \<le> 0) b
     \<and> pred_option (\<lambda>e. ucmp (ExtractUserKey (fm_largest f)) e \<le> 0) e"

definition widens :: "(slice \<Rightarrow> slice \<Rightarrow> int) \<Rightarrow> slice option \<times> slice option \<Rightarrow> slice option \<times> slice option \<Rightarrow> bool" where
  "widens ucmp r r' \<longleftrightarrow>
     rel_option (\<lambda>b b'. ucmp b' b \<le> 0) (fst r) (fst r') \<and> rel_option (\<lambda>e e'. ucmp e e' \<le> 0) (snd r) (snd r')"

definition disjoint_files :: "(slice \<Rightarrow> slice \<Rightarrow> int) \<Rightarrow> FileMetaData \<Rightarrow> FileMetaData \<Rightarrow> bool" where
  "disjoint_files ucmp f g \<longleftrightarrow>
     ucmp (ExtractUserKey (fm_largest f)) (ExtractUserKey (fm_smallest g)) < 0
     \<or> ucmp (ExtractUserKey (fm_largest g)) (ExtractUserKey (fm_smallest f)) < 0"

text \<open>The binary search finds a file of the range, if there is one.\<close>

definition search_ok :: "(slice \<Rightarrow> slice \<Rightarrow> int) \<Rightarrow> FileMetaData list \<Rightarrow> slice option \<Rightarrow> slice option \<Rightarrow> bool \<Rightarrow> int option \<Rightarrow> bool" where
  "search_ok ucmp fs b e w r =
     (case r of
        None \<Rightarrow> list_all (\<lambda>f. \<not> (if w then within ucmp b e f else overlaps ucmp b e f)) fs
      | Some m \<Rightarrow> 0 \<le> m \<and> nat m < length fs
          \<and> (if w then within ucmp b e (fs ! nat m) else overlaps ucmp b e (fs ! nat m)))"

text \<open>A range of files that lies within an interval and shares no user key with its neighbours.\<close>

definition clean_start :: "(slice \<Rightarrow> slice \<Rightarrow> int) \<Rightarrow> FileMetaData list \<Rightarrow> int \<Rightarrow> bool" where
  "clean_start ucmp fs l \<longleftrightarrow> l = 0 \<or> sstableKeyCompare ucmp (fm_smallest (fs ! nat l)) (fm_largest (fs ! nat (l - 1))) \<noteq> 0"

definition clean_limit :: "(slice \<Rightarrow> slice \<Rightarrow> int) \<Rightarrow> FileMetaData list \<Rightarrow> int \<Rightarrow> bool" where
  "clean_limit ucmp fs r \<longleftrightarrow>
     r + 1 = int (length fs) \<or> sstableKeyCompare ucmp (fm_smallest (fs ! nat (r + 1))) (fm_largest (fs ! nat r)) \<noteq> 0"

definition clean_range :: "(slice \<Rightarrow> slice \<Rightarrow> int) \<Rightarrow> FileMetaData list \<Rightarrow> slice option \<Rightarrow> slice option \<Rightarrow> int \<Rightarrow> int \<Rightarrow> bool" where
  "clean_range ucmp fs b e l r \<longleftrightarrow>
     0 \<le> l \<and> l \<le> r \<and> r < int (length fs) \<and> clean_start ucmp fs l \<and> clean_limit ucmp fs r
     \<and> (\<forall>i. l \<le> i \<and> i \<le> r \<longrightarrow> within ucmp b e (fs ! nat i))"

lemma sentinel_tie:
  "sstableKeyCompare ucmp a b =
     (let r = ucmp (ExtractUserKey a) (ExtractUserKey b);
          f = (\<lambda>k. if ExtractInternalKeyFooter k = kRangeTombstoneSentinel then 1 else (0 :: u64))
      in if r \<noteq> 0 then r else if f a > f b then -1 else if f a < f b then 1 else 0)"
  by (simp add: sstableKeyCompare_def Let_def)

sublocale user_comparator \<subseteq> sk: three_way "sstableKeyCompare ucmp"
  using tie_break_three_way [of "\<lambda>k. if ExtractInternalKeyFooter k = kRangeTombstoneSentinel then 1 else 0"]
  by (simp add: sentinel_tie [abs_def] Let_def cong: if_cong)

context user_comparator
begin

text \<open>The smallest possible key of a user key is after exactly the keys of smaller user keys.\<close>

lemma before_min_possible:
  assumes "InternalKey_Valid k"
  shows "InternalKeyComparator_Compare ucmp k (SetMinPossibleForUserKey [] u) < 0 \<longleftrightarrow> ucmp (ExtractUserKey k) u < 0"
proof -
  obtain pk where pk: "ParseInternalKey k = Some pk" using assms by (auto simp: InternalKey_Valid_def)
  have min: "SetMinPossibleForUserKey [] u = InternalKey u kMaxSequenceNumber kValueTypeForSeek"
    by (simp add: SetMinPossibleForUserKey_def InternalKey_def)
  note p = ParseInternalKey_Some [OF pk]
  have "\<not> PackSequenceAndType kMaxSequenceNumber kValueTypeForSeek < PackSequenceAndType (pik_sequence pk) (pik_type pk)"
    using p(2) IsExtendedValueType_le_seek [OF p(3)] by (auto simp: Pack_less_iff)
  then show ?thesis
    unfolding min by (subst (1 2) p(1)) (simp add: InternalKeyComparator_Compare_footer InternalKey_append Let_def)
qed

lemma file_sk:
  assumes "level_ok ucmp fs" and "i < length fs"
  shows "sstableKeyCompare ucmp (fm_smallest (fs ! i)) (fm_largest (fs ! i)) \<le> 0"
    and "j < i \<Longrightarrow> sstableKeyCompare ucmp (fm_largest (fs ! j)) (fm_smallest (fs ! i)) \<le> 0"
proof -
  note ok = level_okD [OF assms]
  show "sstableKeyCompare ucmp (fm_smallest (fs ! i)) (fm_largest (fs ! i)) \<le> 0"
    using ok(2,3) by (auto simp: sstableKeyCompare_def InternalKeyComparator_Compare_footer Let_def split: if_splits)
  show "sstableKeyCompare ucmp (fm_largest (fs ! j)) (fm_smallest (fs ! i)) \<le> 0" if j: "j < i"
    using ok(2) ok(4) [OF j]
    by (auto simp: sstableKeyCompare_def InternalKeyComparator_Compare_footer Let_def split: if_splits)
qed

lemma file_sk_mono:
  assumes ok: "level_ok ucmp fs" and i: "i \<le> j" and j: "j < length fs"
  shows "sstableKeyCompare ucmp (fm_smallest (fs ! i)) (fm_smallest (fs ! j)) \<le> 0"
    and "sstableKeyCompare ucmp (fm_largest (fs ! i)) (fm_largest (fs ! j)) \<le> 0"
    and "sstableKeyCompare ucmp (fm_smallest (fs ! i)) (fm_largest (fs ! j)) \<le> 0"
proof -
  have *: "i = j \<or> i < j \<and> i < length fs" using i j by auto
  note s = file_sk [OF ok]
  show "sstableKeyCompare ucmp (fm_smallest (fs ! i)) (fm_smallest (fs ! j)) \<le> 0"
    using * s(1) [of i] s(2) [OF j, of i] sk.cmp_le_trans sk.cmp_refl by (metis order_refl)
  then show "sstableKeyCompare ucmp (fm_smallest (fs ! i)) (fm_largest (fs ! j)) \<le> 0"
    using s(1) [OF j] sk.cmp_le_trans by blast
  show "sstableKeyCompare ucmp (fm_largest (fs ! i)) (fm_largest (fs ! j)) \<le> 0"
    using * s(1) [OF j] s(2) [OF j, of i] sk.cmp_le_trans sk.cmp_refl by (metis order_refl)
qed

lemma begin_mono:
  "sstableKeyCompare_begin ucmp b x \<le> 0 \<Longrightarrow> sstableKeyCompare ucmp x y \<le> 0 \<Longrightarrow> sstableKeyCompare_begin ucmp b y \<le> 0"
  using sk.cmp_le_trans by (auto simp: sstableKeyCompare_begin_def split: option.splits)

lemma end_mono:
  "sstableKeyCompare_end ucmp y e \<le> 0 \<Longrightarrow> sstableKeyCompare ucmp x y \<le> 0 \<Longrightarrow> sstableKeyCompare_end ucmp x e \<le> 0"
  using sk.cmp_le_trans by (auto simp: sstableKeyCompare_end_def split: option.splits)

lemma begin_file_mono:
  assumes "level_ok ucmp fs" and "i \<le> j" and "j < length fs"
  shows "sstableKeyCompare_begin ucmp b (fm_smallest (fs ! i)) \<le> 0 \<Longrightarrow> sstableKeyCompare_begin ucmp b (fm_smallest (fs ! j)) \<le> 0"
    and "sstableKeyCompare_begin ucmp b (fm_largest (fs ! i)) \<le> 0 \<Longrightarrow> sstableKeyCompare_begin ucmp b (fm_largest (fs ! j)) \<le> 0"
    and "sstableKeyCompare_begin ucmp b (fm_smallest (fs ! i)) \<le> 0 \<Longrightarrow> sstableKeyCompare_begin ucmp b (fm_largest (fs ! j)) \<le> 0"
    and "sstableKeyCompare_end ucmp (fm_smallest (fs ! j)) e \<le> 0 \<Longrightarrow> sstableKeyCompare_end ucmp (fm_smallest (fs ! i)) e \<le> 0"
    and "sstableKeyCompare_end ucmp (fm_largest (fs ! j)) e \<le> 0 \<Longrightarrow> sstableKeyCompare_end ucmp (fm_largest (fs ! i)) e \<le> 0"
    and "sstableKeyCompare_end ucmp (fm_largest (fs ! j)) e \<le> 0 \<Longrightarrow> sstableKeyCompare_end ucmp (fm_smallest (fs ! i)) e \<le> 0"
  by (blast intro: begin_mono end_mono file_sk_mono [OF assms])+

lemma FindFile_level_spec:
  assumes ok: "level_ok ucmp fs"
  shows "FindFile_level ucmp fs (SetMinPossibleForUserKey [] u) \<le> length fs"
    and "i < length fs \<Longrightarrow>
      i < FindFile_level ucmp fs (SetMinPossibleForUserKey [] u) \<longleftrightarrow> ucmp (ExtractUserKey (fm_largest (fs ! i))) u < 0"
proof -
  let ?k = "SetMinPossibleForUserKey [] u"
  let ?P = "\<lambda>i. InternalKeyComparator_Compare ucmp (fm_largest (fs ! i)) ?k < 0"
  have mono: "?P i" if j: "i < j" "j < length fs" "?P j" for i j
  proof -
    note o = level_okD [OF ok j(2)]
    show ?thesis using o(3) o(4) [OF j(1)] j(3) ikc.cmp_less_le_trans ikc.cmp_le_less_trans by (meson order_less_imp_le)
  qed
  have "FindFile_level ucmp fs ?k \<le> 0 + length fs
      \<and> (\<forall>i. 0 \<le> i \<and> i < 0 + length fs \<longrightarrow> (?P i \<longleftrightarrow> i < FindFile_level ucmp fs ?k))"
    unfolding FindFile_level_def FindFileInRange_def diff_zero
    by (rule std_lower_bound_spec) (use mono in auto)
  then show "FindFile_level ucmp fs ?k \<le> length fs"
    and "i < length fs \<Longrightarrow> i < FindFile_level ucmp fs ?k \<longleftrightarrow> ucmp (ExtractUserKey (fm_largest (fs ! i))) u < 0"
    using before_min_possible [OF level_okD(1) [OF ok]] by auto
qed

lemma user_key_mono:
  assumes ok: "level_ok ucmp fs" and i: "i \<le> j" and j: "j < length fs"
  shows "ucmp (ExtractUserKey (fm_smallest (fs ! i))) (ExtractUserKey (fm_smallest (fs ! j))) \<le> 0"
  using file_sk_mono(1) [OF assms] by (auto simp: sstableKeyCompare_def Let_def split: if_splits)

lemma SomeFileOverlapsRange_iff:
  assumes "disjoint \<longrightarrow> level_ok ucmp fs"
  shows "SomeFileOverlapsRange ucmp disjoint fs a b \<longleftrightarrow>
    (\<exists>f \<in> set fs. \<not> AfterFile ucmp a f \<and> \<not> BeforeFile ucmp b f)"
proof (cases disjoint)
  case True
  then have ok: "level_ok ucmp fs" using assms by simp
  define index where "index = (case a of None \<Rightarrow> 0 | Some u \<Rightarrow> FindFile_level ucmp fs (SetMinPossibleForUserKey [] u))"
  have idx: "AfterFile ucmp a (fs ! i) \<longleftrightarrow> i < index" if "i < length fs" for i
    using FindFile_level_spec(2) [OF ok that] cmp_swap
    by (auto simp: AfterFile_def index_def split: option.splits)
  have bef: "BeforeFile ucmp b (fs ! j)" if "BeforeFile ucmp b (fs ! i)" "i \<le> j" "j < length fs" for i j
    using that user_key_mono [OF ok that(2,3)] cmp_less_le_trans by (auto simp: BeforeFile_def split: option.splits)
  have "SomeFileOverlapsRange ucmp disjoint fs a b \<longleftrightarrow> index < length fs \<and> \<not> BeforeFile ucmp b (fs ! index)"
    using True by (simp add: SomeFileOverlapsRange_def index_def Let_def not_le)
  also have "\<dots> \<longleftrightarrow> (\<exists>i < length fs. index \<le> i \<and> \<not> BeforeFile ucmp b (fs ! i))"
    using bef by (meson le_less_trans order_refl)
  also have "\<dots> \<longleftrightarrow> (\<exists>i < length fs. \<not> AfterFile ucmp a (fs ! i) \<and> \<not> BeforeFile ucmp b (fs ! i))"
    using idx by (metis not_le)
  finally show ?thesis by (metis in_set_conv_nth)
qed (simp add: SomeFileOverlapsRange_def any_file_overlaps_iff)

lemma overlap_search_spec:
  assumes ok: "level_ok ucmp fs"
    and "0 \<le> lo" and "hi < int (length fs)"
    and "\<And>i. i < length fs \<Longrightarrow> int i < lo \<Longrightarrow> sstableKeyCompare_begin ucmp b (if w then fm_smallest (fs ! i) else fm_largest (fs ! i)) > 0"
    and "\<And>i. i < length fs \<Longrightarrow> hi < int i \<Longrightarrow> sstableKeyCompare_end ucmp (if w then fm_largest (fs ! i) else fm_smallest (fs ! i)) e > 0"
  shows "search_ok ucmp fs b e w (overlap_search ucmp fs b e w lo hi)"
  using assms(2-)
proof (induction "nat (hi - lo + 1)" arbitrary: lo hi rule: less_induct)
  case less
  let ?low = "\<lambda>i. sstableKeyCompare_begin ucmp b (if w then fm_smallest (fs ! i) else fm_largest (fs ! i)) > 0"
  let ?high = "\<lambda>i. sstableKeyCompare_end ucmp (if w then fm_largest (fs ! i) else fm_smallest (fs ! i)) e > 0"
  show ?case
  proof (cases "lo \<le> hi")
    case False
    then have "?low i \<or> ?high i" if "i < length fs" for i
      using less.prems(3,4) [OF that] by fastforce
    then show ?thesis
      using False by (subst overlap_search.simps) (fastforce simp: search_ok_def list_all_length within_def overlaps_def not_le)
  next
    case True
    define m where "m = (lo + hi) div 2"
    have m: "lo \<le> m" "m \<le> hi" "0 \<le> m" "nat m < length fs" using True less.prems(1,2) by (auto simp: m_def)
    have low: "?low i" if "?low (nat m)" "int i \<le> m" for i
      using that begin_file_mono(1,2) [OF ok _ m(4), of i b] le_nat_iff [OF m(3), of i] by (cases "?low i") (auto simp: not_less split: if_splits)
    have high: "?high i" if "?high (nat m)" "m \<le> int i" "i < length fs" for i
      using that begin_file_mono(4,5) [OF ok _ that(3), of "nat m" e] nat_le_iff [of m i] by (cases "?high i") (auto simp: not_less split: if_splits)
    have step: "overlap_search ucmp fs b e w lo hi =
        (if ?low (nat m) then overlap_search ucmp fs b e w (m + 1) hi
         else if ?high (nat m) then overlap_search ucmp fs b e w lo (m - 1) else Some m)"
      using True by (subst overlap_search.simps) (simp add: m_def Let_def)
    consider "?low (nat m)" | "\<not> ?low (nat m)" "?high (nat m)" | "\<not> ?low (nat m)" "\<not> ?high (nat m)" by blast
    then show ?thesis
    proof cases
      case 1
      have "search_ok ucmp fs b e w (overlap_search ucmp fs b e w (m + 1) hi)"
        using 1 m less.prems low by (intro less.hyps) auto
      then show ?thesis unfolding step using 1 by simp
    next
      case 2
      have "search_ok ucmp fs b e w (overlap_search ucmp fs b e w lo (m - 1))"
        using 2 m less.prems high by (intro less.hyps) auto
      then show ?thesis unfolding step using 2 by simp
    next
      case 3
      then show ?thesis unfolding step using m by (auto simp: search_ok_def within_def overlaps_def)
    qed
  qed
qed

lemma extend_back_spec:
  assumes ok: "level_ok ucmp fs" and "i < length fs"
    and "\<And>j. j < length fs \<Longrightarrow> i < j \<Longrightarrow> sstableKeyCompare_begin ucmp b (fm_largest (fs ! j)) \<le> 0"
  shows "0 \<le> extend_back ucmp fs b i (int i + 1) \<and> extend_back ucmp fs b i (int i + 1) \<le> int i + 1
    \<and> (\<forall>j < length fs. sstableKeyCompare_begin ucmp b (fm_largest (fs ! j)) \<le> 0
          \<longleftrightarrow> extend_back ucmp fs b i (int i + 1) \<le> int j)"
  using assms(2-)
proof (induction i)
  case 0
  have "sstableKeyCompare_begin ucmp b (fm_largest (fs ! j)) \<le> 0 \<longleftrightarrow>
      0 < j \<or> sstableKeyCompare_begin ucmp b (fm_largest (fs ! 0)) \<le> 0" if "j < length fs" for j
    using 0 that by (cases j) auto
  then show ?case by (cases "sstableKeyCompare_begin ucmp b (fm_largest (fs ! 0)) \<le> 0")
    (auto simp: extend_back.simps [of _ _ _ 0])
next
  case (Suc i)
  show ?case
  proof (cases "sstableKeyCompare_begin ucmp b (fm_largest (fs ! Suc i)) \<le> 0")
    case True
    have step: "extend_back ucmp fs b (Suc i) (int (Suc i) + 1) = extend_back ucmp fs b i (int i + 1)"
      using True by (simp add: extend_back.simps [of _ _ _ "Suc i"] add.commute)
    have *: "sstableKeyCompare_begin ucmp b (fm_largest (fs ! j)) \<le> 0" if "j < length fs" "i < j" for j
      using begin_file_mono(2) [OF ok _ that(1) True] that(2) by simp
    have "i < length fs" using Suc.prems(1) by simp
    from Suc.IH [OF this *] show ?thesis unfolding step by auto
  next
    case False
    have step: "extend_back ucmp fs b (Suc i) (int (Suc i) + 1) = int (Suc i) + 1"
      using False by (simp add: extend_back.simps [of _ _ _ "Suc i"])
    have "\<not> sstableKeyCompare_begin ucmp b (fm_largest (fs ! j)) \<le> 0" if "j \<le> Suc i" for j
      using begin_file_mono(2) [OF ok that, of b] Suc.prems(1) False by blast
    then have "sstableKeyCompare_begin ucmp b (fm_largest (fs ! j)) \<le> 0 \<longleftrightarrow> Suc i < j" if "j < length fs" for j
      using Suc.prems(2) [OF that] by (meson not_le)
    then show ?thesis unfolding step by auto
  qed
qed

lemma extend_forward_spec:
  assumes ok: "level_ok ucmp fs"
    and "i \<le> length fs" and "e' = int i - 1"
    and "\<And>j. j < i \<Longrightarrow> sstableKeyCompare_end ucmp (fm_smallest (fs ! j)) e \<le> 0"
  shows "e' \<le> extend_forward ucmp fs e i e' \<and> extend_forward ucmp fs e i e' < int (length fs)
    \<and> (\<forall>j < length fs. sstableKeyCompare_end ucmp (fm_smallest (fs ! j)) e \<le> 0 \<longleftrightarrow> int j \<le> extend_forward ucmp fs e i e')"
  using assms(2-)
proof (induction "length fs - i" arbitrary: i e' rule: less_induct)
  case less
  show ?case
  proof (cases "i < length fs \<and> sstableKeyCompare_end ucmp (fm_smallest (fs ! i)) e \<le> 0")
    case True
    have "int i \<le> extend_forward ucmp fs e (i + 1) (int i) \<and> extend_forward ucmp fs e (i + 1) (int i) < int (length fs)
      \<and> (\<forall>j < length fs. sstableKeyCompare_end ucmp (fm_smallest (fs ! j)) e \<le> 0 \<longleftrightarrow> int j \<le> extend_forward ucmp fs e (i + 1) (int i))"
      using less.prems True by (intro less.hyps) (auto simp: less_Suc_eq)
    moreover have "extend_forward ucmp fs e i e' = extend_forward ucmp fs e (i + 1) (int i)"
      using True by (simp add: extend_forward.simps [of _ _ _ i])
    ultimately show ?thesis using less.prems(2) by auto
  next
    case False
    have "\<not> sstableKeyCompare_end ucmp (fm_smallest (fs ! j)) e \<le> 0" if "i \<le> j" "j < length fs" for j
      using begin_file_mono(4) [OF ok that, of e] that False by auto
    then have *: "sstableKeyCompare_end ucmp (fm_smallest (fs ! j)) e \<le> 0 \<longleftrightarrow> j < i" if "j < length fs" for j
      using less.prems(3) that by (meson not_le)
    have step: "extend_forward ucmp fs e i e' = e'" 
      unfolding extend_forward.simps [of ucmp fs e i e'] by (rule if_not_P [OF False])
    show ?thesis unfolding step using * less.prems(1,2) by auto
  qed
qed

lemma ExtendFileRangeOverlapping_spec:
  assumes ok: "level_ok ucmp fs" and m: "m < length fs" and ov: "overlaps ucmp b e (fs ! m)"
  obtains s t where "ExtendFileRangeOverlappingInterval ucmp fs b e m = Inr (s, t)"
    and "0 \<le> s" and "s \<le> int m" and "int m \<le> t" and "t < int (length fs)"
    and "\<And>i. i < length fs \<Longrightarrow> overlaps ucmp b e (fs ! i) \<longleftrightarrow> s \<le> int i \<and> int i \<le> t"
proof -
  let ?s = "extend_back ucmp fs b m (int m + 1)" and ?t = "extend_forward ucmp fs e (m + 1) (int m)"
  have ov': "sstableKeyCompare_begin ucmp b (fm_largest (fs ! m)) \<le> 0" "sstableKeyCompare_end ucmp (fm_smallest (fs ! m)) e \<le> 0"
    using ov by (simp_all add: overlaps_def)
  have s: "0 \<le> ?s \<and> ?s \<le> int m + 1 \<and> (\<forall>j < length fs. sstableKeyCompare_begin ucmp b (fm_largest (fs ! j)) \<le> 0 \<longleftrightarrow> ?s \<le> int j)"
    by (rule extend_back_spec [OF ok m]) (rule begin_file_mono(2) [OF ok _ _ ov'(1)], auto)
  have t: "int m \<le> ?t \<and> ?t < int (length fs)
      \<and> (\<forall>j < length fs. sstableKeyCompare_end ucmp (fm_smallest (fs ! j)) e \<le> 0 \<longleftrightarrow> int j \<le> ?t)"
    using m begin_file_mono(4) [OF ok _ m ov'(2)] by (intro extend_forward_spec [OF ok]) auto
  have "ExtendFileRangeOverlappingInterval ucmp fs b e m = Inr (?s, ?t)"
    using m ov' by (simp add: ExtendFileRangeOverlappingInterval_def Let_def)
  moreover have "?s \<le> int m" using s m ov'(1) by blast
  moreover have "overlaps ucmp b e (fs ! i) \<longleftrightarrow> ?s \<le> int i \<and> int i \<le> ?t" if "i < length fs" for i
    using s t that by (simp add: overlaps_def)
  ultimately show thesis using that s t by blast
qed

lemma overlapping_search_exact:
  assumes ok: "level_ok ucmp fs"
  obtains r where "GetOverlappingInputsRangeBinarySearch ucmp fs b e (- 1) False = Inr r"
    and "ov_inputs r = filter (overlaps ucmp b e) fs"
proof (cases "overlap_search ucmp fs b e False 0 (int (length fs) - 1)")
  case None
  then have "list_all (\<lambda>f. \<not> overlaps ucmp b e f) fs"
    using overlap_search_spec [OF ok, of 0 "int (length fs) - 1" b False e] by (simp add: search_ok_def)
  then show thesis
    using None that by (simp add: GetOverlappingInputsRangeBinarySearch_def filter_empty_conv list_all_iff)
next
  case (Some m)
  then have "0 \<le> m \<and> nat m < length fs \<and> overlaps ucmp b e (fs ! nat m)"
    using overlap_search_spec [OF ok, of 0 "int (length fs) - 1" b False e] by (simp add: search_ok_def)
  then obtain s t where x: "ExtendFileRangeOverlappingInterval ucmp fs b e (nat m) = Inr (s, t)"
    and st: "0 \<le> s" "s \<le> int (nat m)" "int (nat m) \<le> t" "t < int (length fs)"
    and iff: "\<And>i. i < length fs \<Longrightarrow> overlaps ucmp b e (fs ! i) \<longleftrightarrow> s \<le> int i \<and> int i \<le> t"
    using ExtendFileRangeOverlapping_spec [OF ok] by metis
  have "filter (overlaps ucmp b e) fs = map ((!) fs) [nat s..<nat (t + 1)]"
    using st iff by (intro filter_upt) auto
  then show thesis
    using that Some x st by (simp add: GetOverlappingInputsRangeBinarySearch_def upto_upt [OF st(1)] comp_def)
qed

lemma shrink_left_spec:
  assumes "0 \<le> l"
  shows "l \<le> shrink_left ucmp fs b l r
    \<and> (shrink_left ucmp fs b l r \<le> r \<longrightarrow> sstableKeyCompare_begin ucmp b (fm_smallest (fs ! nat (shrink_left ucmp fs b l r))) \<le> 0
         \<and> clean_start ucmp fs (shrink_left ucmp fs b l r))
    \<and> (\<forall>i. l \<le> i \<and> i \<le> r \<and> i < shrink_left ucmp fs b l r \<longrightarrow>
         \<not> (sstableKeyCompare_begin ucmp b (fm_smallest (fs ! nat i)) \<le> 0 \<and> clean_start ucmp fs i))"
  using assms
proof (induction "nat (r - l + 1)" arbitrary: l rule: less_induct)
  case less
  define go where "go \<longleftrightarrow> l \<le> r \<and> \<not> (sstableKeyCompare_begin ucmp b (fm_smallest (fs ! nat l)) \<le> 0 \<and> clean_start ucmp fs l)"
  have step: "shrink_left ucmp fs b l r = (if go then shrink_left ucmp fs b (l + 1) r else l)"
    using less.prems by (subst shrink_left.simps) (auto simp: go_def clean_start_def Let_def)
  show ?case
  proof (cases go)
    case True
    let ?x = "shrink_left ucmp fs b (l + 1) r"
    have "l + 1 \<le> ?x \<and> (?x \<le> r \<longrightarrow> sstableKeyCompare_begin ucmp b (fm_smallest (fs ! nat ?x)) \<le> 0 \<and> clean_start ucmp fs ?x)
      \<and> (\<forall>i. l + 1 \<le> i \<and> i \<le> r \<and> i < ?x \<longrightarrow>
           \<not> (sstableKeyCompare_begin ucmp b (fm_smallest (fs ! nat i)) \<le> 0 \<and> clean_start ucmp fs i))"
      using True less.prems by (intro less.hyps) (auto simp: go_def)
    moreover have "shrink_left ucmp fs b l r = ?x" using step True by simp
    moreover have "i = l \<or> l + 1 \<le> i" if "l \<le> i" for i using that by auto
    moreover have "l \<le> x" if "l + 1 \<le> x" for x using that by auto
    ultimately show ?thesis using True unfolding go_def by metis
  qed (use step in \<open>auto simp: go_def\<close>)
qed

lemma shrink_right_spec:
  assumes "r < int (length fs)" and "0 \<le> l"
  shows "shrink_right ucmp fs e l r \<le> r
    \<and> (l \<le> shrink_right ucmp fs e l r \<longrightarrow> sstableKeyCompare_end ucmp (fm_largest (fs ! nat (shrink_right ucmp fs e l r))) e \<le> 0
         \<and> clean_limit ucmp fs (shrink_right ucmp fs e l r))
    \<and> (\<forall>i. l \<le> i \<and> i \<le> r \<and> shrink_right ucmp fs e l r < i \<longrightarrow>
         \<not> (sstableKeyCompare_end ucmp (fm_largest (fs ! nat i)) e \<le> 0 \<and> clean_limit ucmp fs i))"
  using assms(1)
proof (induction "nat (r - l + 1)" arbitrary: r rule: less_induct)
  case less
  define go where "go \<longleftrightarrow> l \<le> r \<and> \<not> (sstableKeyCompare_end ucmp (fm_largest (fs ! nat r)) e \<le> 0 \<and> clean_limit ucmp fs r)"
  have step: "shrink_right ucmp fs e l r = (if go then shrink_right ucmp fs e l (r - 1) else r)"
    using less.prems by (subst shrink_right.simps) (auto simp: go_def clean_limit_def Let_def)
  show ?case
  proof (cases go)
    case True
    let ?x = "shrink_right ucmp fs e l (r - 1)"
    have "?x \<le> r - 1 \<and> (l \<le> ?x \<longrightarrow> sstableKeyCompare_end ucmp (fm_largest (fs ! nat ?x)) e \<le> 0 \<and> clean_limit ucmp fs ?x)
      \<and> (\<forall>i. l \<le> i \<and> i \<le> r - 1 \<and> ?x < i \<longrightarrow>
           \<not> (sstableKeyCompare_end ucmp (fm_largest (fs ! nat i)) e \<le> 0 \<and> clean_limit ucmp fs i))"
      using True less.prems by (intro less.hyps) (auto simp: go_def)
    moreover have "shrink_right ucmp fs e l r = ?x" using step True by simp
    moreover have "i = r \<or> i \<le> r - 1" if "i \<le> r" for i using that by auto
    moreover have "x \<le> r" if "x \<le> r - 1" for x using that by auto
    ultimately show ?thesis using True unfolding go_def by metis
  qed (use step in \<open>auto simp: go_def\<close>)
qed

lemma within_overlaps:
  assumes "level_ok ucmp fs" and "i < length fs" and "within ucmp b e (fs ! i)"
  shows "overlaps ucmp b e (fs ! i)"
  using assms(3) begin_file_mono(3,6) [OF assms(1) order_refl assms(2)] by (simp add: within_def overlaps_def)

lemma clean_search:
  assumes ok: "level_ok ucmp fs"
  obtains x l r where "GetOverlappingInputsRangeBinarySearch ucmp fs b e (- 1) True = Inr x"
    and "ov_inputs x = map (\<lambda>i. fs ! nat i) [l..r]" and "l \<le> r \<longrightarrow> clean_range ucmp fs b e l r"
    and "\<And>l' r'. clean_range ucmp fs b e l' r' \<Longrightarrow> l \<le> l' \<and> r' \<le> r"
proof (cases "overlap_search ucmp fs b e True 0 (int (length fs) - 1)")
  case None
  then have "list_all (\<lambda>f. \<not> within ucmp b e f) fs"
    using overlap_search_spec [OF ok, of 0 "int (length fs) - 1" b True e] by (simp add: search_ok_def)
  then have "\<not> clean_range ucmp fs b e l' r'" for l' r'
    unfolding clean_range_def list_all_length by (metis nat_less_iff order_le_less_trans order_refl)
  then show thesis
    using None that [of "\<lparr>ov_inputs = [], ov_file_index = -1, ov_next = Untouched\<rparr>" 1 0]
    by (simp add: GetOverlappingInputsRangeBinarySearch_def)
next
  case (Some m)
  then have m: "0 \<le> m" "nat m < length fs" "within ucmp b e (fs ! nat m)"
    using overlap_search_spec [OF ok, of 0 "int (length fs) - 1" b True e] by (simp_all add: search_ok_def)
  obtain s t where x: "ExtendFileRangeOverlappingInterval ucmp fs b e (nat m) = Inr (s, t)"
    and st: "0 \<le> s" "s \<le> int (nat m)" "int (nat m) \<le> t" "t < int (length fs)"
    and iff: "\<And>i. i < length fs \<Longrightarrow> overlaps ucmp b e (fs ! i) \<longleftrightarrow> s \<le> int i \<and> int i \<le> t"
    using ExtendFileRangeOverlapping_spec [OF ok m(2) within_overlaps [OF ok m(2,3)]] by metis
  define l where "l = shrink_left ucmp fs b s t"
  define r where "r = shrink_right ucmp fs e l t"
  note sl = shrink_left_spec [OF st(1), of fs b t, folded l_def]
  have l0: "0 \<le> l" using sl st(1) by linarith
  note sr = shrink_right_spec [OF st(4) l0, of e, folded r_def]
  have max: "l \<le> l' \<and> r' \<le> r" if c: "clean_range ucmp fs b e l' r'" for l' r'
  proof -
    have c': "0 \<le> l'" "l' \<le> r'" "r' < int (length fs)" using c by (simp_all add: clean_range_def)
    have w: "within ucmp b e (fs ! nat l')" "within ucmp b e (fs ! nat r')" using c c' by (simp_all add: clean_range_def)
    have "s \<le> l' \<and> l' \<le> t" "s \<le> r' \<and> r' \<le> t"
      using iff [of "nat l'"] iff [of "nat r'"] within_overlaps [OF ok _ w(1)] within_overlaps [OF ok _ w(2)] c' by simp_all
    then show ?thesis
      using sl sr c w c' unfolding clean_range_def within_def by (meson not_le order_trans)
  qed
  have clean: "clean_range ucmp fs b e l r" if "l \<le> r"
  proof -
    have lt: "l \<le> t" "r < int (length fs)" using that sr st by auto
    have "within ucmp b e (fs ! nat i)" if i: "l \<le> i" "i \<le> r" for i
      unfolding within_def
    proof
      show "sstableKeyCompare_begin ucmp b (fm_smallest (fs ! nat i)) \<le> 0"
        using begin_file_mono(1) [OF ok, of "nat l" "nat i" b] sl lt i l0 by auto
      show "sstableKeyCompare_end ucmp (fm_largest (fs ! nat i)) e \<le> 0"
        using begin_file_mono(5) [OF ok, of "nat i" "nat r" e] sr lt i l0 by auto
    qed
    then show ?thesis using sl sr lt that l0 by (simp add: clean_range_def)
  qed
  have "ExtendFileRangeWithinInterval ucmp fs b e (nat m) = Inr (l, r)"
    using m x by (simp add: ExtendFileRangeWithinInterval_def within_def Let_def l_def r_def)
  then show thesis
    using that [OF _ _ _ max] clean Some by (simp add: GetOverlappingInputsRangeBinarySearch_def)
qed

lemma widens_refl: "widens ucmp r r"
  by (simp add: widens_def rel_option_iff split: option.splits)

lemma widens_trans: "widens ucmp r r' \<Longrightarrow> widens ucmp r' r'' \<Longrightarrow> widens ucmp r r''"
  using cmp_le_trans by (auto simp: widens_def rel_option_iff split: option.splits)

lemma covers_widens: "covers ucmp b e f \<Longrightarrow> widens ucmp (b, e) (b', e') \<Longrightarrow> covers ucmp b' e' f"
  using cmp_le_trans by (auto simp: covers_def widens_def rel_option_iff split: option.splits)

lemma meets_widens: "meets ucmp b e f \<Longrightarrow> widens ucmp (b, e) (b', e') \<Longrightarrow> meets ucmp b' e' f"
  using cmp_le_less_trans cmp_less_le_trans cmp_swap
  by (auto simp: meets_def AfterFile_def BeforeFile_def widens_def rel_option_iff split: option.splits)

lemma meets_covers_disjoint:
  "\<not> meets ucmp b e f \<Longrightarrow> covers ucmp b e g \<Longrightarrow> disjoint_files ucmp f g"
  using cmp_le_less_trans cmp_less_le_trans cmp_swap
  by (auto simp: meets_def AfterFile_def BeforeFile_def covers_def disjoint_files_def split: option.splits)

lemma overlap_pass_Cons:
  "overlap_pass ucmp fs x (i # is) b e =
     (if meets ucmp b e (fs ! i) then
        let b1 = map_option (\<lambda>b. if x \<and> ucmp (ExtractUserKey (fm_smallest (fs ! i))) b < 0
                    then ExtractUserKey (fm_smallest (fs ! i)) else b) b;
            e1 = map_option (\<lambda>e. if x \<and> ucmp (ExtractUserKey (fm_largest (fs ! i))) e > 0
                    then ExtractUserKey (fm_largest (fs ! i)) else e) e;
            (rest, found, b', e') = overlap_pass ucmp fs x is b1 e1
        in (rest, i # found, b', e')
      else
        let (rest, found, b', e') = overlap_pass ucmp fs x is b e in (i # rest, found, b', e'))"
  using cmp_swap by (auto simp: meets_def AfterFile_def BeforeFile_def Let_def split: option.splits)

declare overlap_pass.simps(2) [simp del]

lemma widen_file:
  assumes "b1 = map_option (\<lambda>b. if x \<and> ucmp (ExtractUserKey (fm_smallest f)) b < 0 then ExtractUserKey (fm_smallest f) else b) b"
    and "e1 = map_option (\<lambda>e. if x \<and> ucmp (ExtractUserKey (fm_largest f)) e > 0 then ExtractUserKey (fm_largest f) else e) e"
  shows "widens ucmp (b, e) (b1, e1)" and "x \<Longrightarrow> covers ucmp b1 e1 f" and "\<not> x \<Longrightarrow> b1 = b \<and> e1 = e"
proof -
  have s: "ucmp a b \<le> 0" if "0 < ucmp b a" for a b using that cmp_swap [of a b] by simp
  show "widens ucmp (b, e) (b1, e1)"
    using assms s cmp_swap by (cases b; cases e) (auto simp: widens_def)
  show "covers ucmp b1 e1 f" if x
    using assms that s cmp_swap by (cases b; cases e) (auto simp: covers_def not_less)
  show "b1 = b \<and> e1 = e" if "\<not> x" using assms that by (cases b; cases e) auto
qed

lemma overlap_pass_none:
  "overlap_pass ucmp fs x is b e = (rest, found, b', e') \<Longrightarrow> found = [] \<Longrightarrow> b' = b \<and> e' = e"
  by (induction "is" arbitrary: rest) (auto simp: overlap_pass_Cons Let_def split: prod.splits if_splits)

lemma overlap_pass_spec:
  assumes "overlap_pass ucmp fs x is b e = (rest, found, b', e')" and "distinct is"
  shows "widens ucmp (b, e) (b', e') \<and> set is = set rest \<union> set found \<and> distinct rest \<and> distinct found
    \<and> set rest \<inter> set found = {} \<and> (x \<longrightarrow> (\<forall>i \<in> set found. covers ucmp b' e' (fs ! i)))
    \<and> (found = [] \<longrightarrow> (\<forall>i \<in> set rest. \<not> meets ucmp b' e' (fs ! i)))
    \<and> (\<forall>i \<in> set rest. \<not> meets ucmp b e (fs ! i))"
  using assms
proof (induction "is" arbitrary: b e rest found)
  case Nil
  then show ?case by (simp add: widens_refl)
next
  case (Cons i "is")
  show ?case
  proof (cases "meets ucmp b e (fs ! i)")
    case True
    let ?b1 = "map_option (\<lambda>b. if x \<and> ucmp (ExtractUserKey (fm_smallest (fs ! i))) b < 0
                    then ExtractUserKey (fm_smallest (fs ! i)) else b) b"
    let ?e1 = "map_option (\<lambda>e. if x \<and> ucmp (ExtractUserKey (fm_largest (fs ! i))) e > 0
                    then ExtractUserKey (fm_largest (fs ! i)) else e) e"
    obtain found' where p: "overlap_pass ucmp fs x is ?b1 ?e1 = (rest, found', b', e')" "found = i # found'"
      using Cons.prems(1) True by (auto simp: overlap_pass_Cons Let_def split: prod.splits)
    note w = widen_file [of ?b1 x "fs ! i" b ?e1 e, OF refl refl]
    have d: "distinct is" "i \<notin> set is" using Cons.prems(2) by simp_all
    note IH = Cons.IH [OF p(1) d(1)]
    have "covers ucmp b' e' (fs ! i)" if x using covers_widens [OF w(2) [OF that]] IH by blast
    moreover have "\<not> meets ucmp b e (fs ! j)" if "j \<in> set rest" for j
      using meets_widens [OF _ w(1)] IH that by blast
    ultimately show ?thesis using IH d widens_trans [OF w(1)] unfolding p(2) by auto
  next
    case False
    obtain rest' where p: "overlap_pass ucmp fs x is b e = (rest', found, b', e')" "rest = i # rest'"
      using Cons.prems(1) False by (auto simp: overlap_pass_Cons Let_def split: prod.splits)
    have d: "distinct is" "i \<notin> set is" using Cons.prems(2) by simp_all
    note IH = Cons.IH [OF p(1) d(1)]
    have "\<not> meets ucmp b' e' (fs ! i)" if "found = []"
      using overlap_pass_none [OF p(1) that] False by simp
    then show ?thesis using IH d False unfolding p(2) by auto
  qed
qed

lemma overlap_rounds_spec:
  assumes "distinct is"
  shows "\<exists>b' e'. widens ucmp (b, e) (b', e') \<and> distinct (overlap_rounds ucmp fs True is b e)
    \<and> set (overlap_rounds ucmp fs True is b e) \<subseteq> set is
    \<and> (\<forall>i \<in> set (overlap_rounds ucmp fs True is b e). covers ucmp b' e' (fs ! i))
    \<and> (\<forall>i \<in> set is - set (overlap_rounds ucmp fs True is b e). \<not> meets ucmp b' e' (fs ! i))"
  using assms
proof (induction "length is" arbitrary: "is" b e rule: less_induct)
  case less
  obtain rest found b1 e1 where p: "overlap_pass ucmp fs True is b e = (rest, found, b1, e1)"
    by (metis prod_cases4)
  note ps = overlap_pass_spec [OF p less.prems]
  have step: "overlap_rounds ucmp fs True is b e =
      (if is = [] \<or> found = [] then [] else found @ overlap_rounds ucmp fs True rest b1 e1)"
    by (subst overlap_rounds.simps) (simp add: p)
  show ?case
  proof (cases "is = [] \<or> found = []")
    case True
    then have "overlap_rounds ucmp fs True is b e = []" using step by simp
    then show ?thesis using True ps widens_refl by (intro exI [of _ b1] exI [of _ e1]) auto
  next
    case False
    let ?r = "overlap_rounds ucmp fs True rest b1 e1"
    have len: "length rest < length is" using False overlap_pass_split [OF p] by (cases found) auto
    have "distinct rest" using ps by blast
    from less.hyps [OF len this, of b1 e1] obtain b2 e2
      where r: "widens ucmp (b1, e1) (b2, e2)" "distinct ?r" "set ?r \<subseteq> set rest"
        "\<forall>i \<in> set ?r. covers ucmp b2 e2 (fs ! i)" "\<forall>i \<in> set rest - set ?r. \<not> meets ucmp b2 e2 (fs ! i)" by blast
    have c: "\<forall>i \<in> set found. covers ucmp b2 e2 (fs ! i)" using ps covers_widens [OF _ r(1)] by blast
    have w: "widens ucmp (b, e) (b2, e2)" using ps widens_trans [OF _ r(1)] by blast
    have "overlap_rounds ucmp fs True is b e = found @ ?r" using step False by simp
    then show ?thesis using ps r c w by (intro exI [of _ b2] exI [of _ e2]) auto
  qed
qed

lemma overlap_pass_plain:
  "overlap_pass ucmp fs False is b e =
     (filter (\<lambda>i. \<not> meets ucmp b e (fs ! i)) is, filter (\<lambda>i. meets ucmp b e (fs ! i)) is, b, e)"
  by (induction "is") (auto simp: overlap_pass_Cons Let_def option.map_ident)

lemma overlap_rounds_plain:
  "overlap_rounds ucmp fs False is b e = filter (\<lambda>i. meets ucmp b e (fs ! i)) is"
proof -
  have again: "overlap_rounds ucmp fs False (filter (\<lambda>i. \<not> meets ucmp b e (fs ! i)) is) b e = []"
    by (subst overlap_rounds.simps) (simp add: overlap_pass_plain)
  show ?thesis by (subst overlap_rounds.simps) (simp add: overlap_pass_plain again)
qed

end

text \<open>A version with three overlapping files in level 0 and four sorted ones in level 1.\<close>

definition range_file :: "u64 \<Rightarrow> slice \<Rightarrow> slice \<Rightarrow> FileMetaData" where
  "range_file n small large =
     FileMetaData_init\<lparr>fm_fd := FileDescriptor_new n 0 0 0 0, fm_smallest := small, fm_largest := large\<rparr>"

definition example_version :: VersionStorageInfo where
  "example_version =
     \<lparr>vs_files =
        [[range_file 1 (InternalKey [9] 3 1) (InternalKey [12] 3 1),
          range_file 2 (InternalKey [2] 4 1) (InternalKey [5] 4 1),
          range_file 3 (InternalKey [5] 5 1) (InternalKey [7] 5 1)],
         [range_file 4 (InternalKey [1] 2 1) (InternalKey [3] 9 1),
          range_file 5 (InternalKey [3] 2 1) (InternalKey [5] 2 1),
          range_file 6 (InternalKey [6] 2 1) (InternalKey [8] 2 1),
          range_file 7 (InternalKey [10] 2 1) (InternalKey [12] 2 1)]],
      num_non_empty_levels = 2, is_nvmcf = False\<rparr>"

section \<open>Properties\<close>

text \<open>C28: The files a compaction takes from a level (\<open>GetOverlappingInputs\<close>, no hint). Of a level above 0, whose
  files are sorted and disjoint, the binary search and the walks in both directions give exactly the files that
  overlap the range, in order, and no assertion fails; of level 0, when the range is not to be expanded, exactly
  the files that meet the range of user keys.\<close>

theorem GetOverlappingInputs_exact:
  assumes "user_comparator ucmp \<and> level < num_non_empty_levels v \<and> (if level = 0 then \<not> expand else level_ok ucmp (LevelFiles v level))"
  shows "\<exists>r. GetOverlappingInputs ucmp v level start limit inputs (- 1) expand = Inr r
    \<and> ov_inputs r =
        (if level > 0 then filter (overlaps ucmp start limit) (LevelFiles v level)
         else filter (meets ucmp (map_option ExtractUserKey start) (map_option ExtractUserKey limit)) (LevelFiles v level))"
proof (cases "level > 0")
  case True
  then obtain r where "GetOverlappingInputsRangeBinarySearch ucmp (LevelFiles v level) start limit (- 1) False = Inr r"
      "ov_inputs r = filter (overlaps ucmp start limit) (LevelFiles v level)"
    using assms user_comparator.overlapping_search_exact by (metis less_not_refl)
  then show ?thesis using True assms by (simp add: GetOverlappingInputs_def)
next
  case False
  have "map ((!) fs) (filter (\<lambda>i. meets ucmp b e (fs ! i)) [0..<length fs]) = filter (meets ucmp b e) fs" for fs b e
    using filter_map [of "meets ucmp b e" "(!) fs" "[0..<length fs]"] by (simp add: map_nth comp_def)
  then show ?thesis
    using False assms by (simp add: GetOverlappingInputs_def Let_def user_comparator.overlap_rounds_plain)
qed

theorem GetOverlappingInputs_exact_witness:
  "\<exists>r. GetOverlappingInputs Bytewise_Compare example_version 1 (Some (InternalKey [4] 7 1)) (Some (InternalKey [9] 7 1)) []
        (- 1) True = Inr r
    \<and> ov_inputs r = [range_file 5 (InternalKey [3] 2 1) (InternalKey [5] 2 1),
                     range_file 6 (InternalKey [6] 2 1) (InternalKey [8] 2 1)]"
proof -
  have "level_ok Bytewise_Compare (LevelFiles example_version 1)" by code_simp
  then have "user_comparator Bytewise_Compare \<and> 1 < num_non_empty_levels example_version
      \<and> (if 1 = (0 :: nat) then \<not> True else level_ok Bytewise_Compare (LevelFiles example_version 1))"
    using bytewise_keys.user_comparator_axioms by (simp add: example_version_def)
  note g = GetOverlappingInputs_exact [OF this, of "Some (InternalKey [4] 7 1)" "Some (InternalKey [9] 7 1)" "[]"]
  have "filter (overlaps Bytewise_Compare (Some (InternalKey [4] 7 1)) (Some (InternalKey [9] 7 1))) (LevelFiles example_version 1) =
      [range_file 5 (InternalKey [3] 2 1) (InternalKey [5] 2 1), range_file 6 (InternalKey [6] 2 1) (InternalKey [8] 2 1)]"
    by code_simp
  with g show ?thesis by simp
qed

text \<open>When a compaction of level 0 expands its range, the files it leaves behind share no user key with the
  range or with a file it takes, so no version of a key is left above a newer one; every file is taken at most once,
  and the rounds end.\<close>

theorem GetOverlappingInputs_level0_closed:
  assumes "user_comparator ucmp \<and> 0 < num_non_empty_levels v"
  shows "\<exists>r found. GetOverlappingInputs ucmp v 0 start limit inputs hint True = Inr r
    \<and> ov_inputs r = map ((!) (LevelFiles v 0)) found \<and> distinct found \<and> set found \<subseteq> {..<length (LevelFiles v 0)}
    \<and> (\<forall>i < length (LevelFiles v 0). i \<notin> set found \<longrightarrow>
         \<not> meets ucmp (map_option ExtractUserKey start) (map_option ExtractUserKey limit) (LevelFiles v 0 ! i)
         \<and> (\<forall>j \<in> set found. disjoint_files ucmp (LevelFiles v 0 ! i) (LevelFiles v 0 ! j)))"
proof -
  let ?fs = "LevelFiles v 0" and ?b = "map_option ExtractUserKey start" and ?e = "map_option ExtractUserKey limit"
  let ?r = "overlap_rounds ucmp ?fs True [0..<length ?fs] ?b ?e"
  have uc: "user_comparator ucmp" using assms by simp
  obtain b' e' where r: "widens ucmp (?b, ?e) (b', e')" "distinct ?r" "set ?r \<subseteq> set [0..<length ?fs]"
      "\<forall>i \<in> set ?r. covers ucmp b' e' (?fs ! i)" "\<forall>i \<in> set [0..<length ?fs] - set ?r. \<not> meets ucmp b' e' (?fs ! i)"
    using user_comparator.overlap_rounds_spec [OF uc distinct_upt] by blast
  have "\<not> meets ucmp ?b ?e (?fs ! i) \<and> (\<forall>j \<in> set ?r. disjoint_files ucmp (?fs ! i) (?fs ! j))"
    if "i < length ?fs" "i \<notin> set ?r" for i
    using that r user_comparator.meets_widens [OF uc _ r(1)] user_comparator.meets_covers_disjoint [OF uc] by fastforce
  then show ?thesis using assms r(2,3) by (auto simp: GetOverlappingInputs_def Let_def lessThan_atLeast0)
qed

theorem GetOverlappingInputs_level0_closed_witness:
  "\<exists>r found. GetOverlappingInputs Bytewise_Compare example_version 0 (Some (InternalKey [6] 7 1)) (Some (InternalKey [6] 7 1)) []
        (- 1) True = Inr r
    \<and> ov_inputs r = map ((!) (LevelFiles example_version 0)) found \<and> distinct found
    \<and> (0 \<notin> set found \<longrightarrow>
         (\<forall>j \<in> set found. disjoint_files Bytewise_Compare (LevelFiles example_version 0 ! 0) (LevelFiles example_version 0 ! j)))"
proof -
  have "user_comparator Bytewise_Compare \<and> 0 < num_non_empty_levels example_version"
    using bytewise_keys.user_comparator_axioms by (simp add: example_version_def)
  note g = GetOverlappingInputs_level0_closed [OF this, of "Some (InternalKey [6] 7 1)" "Some (InternalKey [6] 7 1)" "[]" "- 1"]
  have "0 < length (LevelFiles example_version 0)" by (simp add: example_version_def LevelFiles_def)
  with g show ?thesis by blast
qed

text \<open>\<open>GetCleanInputsWithinInterval\<close> of a sorted level above 0: the files it stores are a contiguous range within the
  interval that shares no user key with the files around it, and that range contains every other such range, so
  it is the largest clean cut, as the comment on the function promises; if nothing is stored, there is none.\<close>

theorem GetCleanInputs_maximal:
  assumes "user_comparator ucmp \<and> 0 < level \<and> level < num_non_empty_levels v \<and> level_ok ucmp (LevelFiles v level)"
  shows "\<exists>r lo hi. GetCleanInputsWithinInterval ucmp v level (Some start) (Some limit) (- 1) = Inr r
    \<and> ov_inputs r = map (\<lambda>i. LevelFiles v level ! nat i) [lo..hi]
    \<and> (lo \<le> hi \<longrightarrow> clean_range ucmp (LevelFiles v level) (Some start) (Some limit) lo hi)
    \<and> (\<forall>lo' hi'. clean_range ucmp (LevelFiles v level) (Some start) (Some limit) lo' hi' \<longrightarrow> lo \<le> lo' \<and> hi' \<le> hi)"
proof (cases "LevelFiles v level = []")
  case True
  then show ?thesis
    by (intro exI [of _ "\<lparr>ov_inputs = [], ov_file_index = -1, ov_next = Untouched\<rparr>"] exI [of _ 1] exI [of _ 0])
      (simp add: GetCleanInputsWithinInterval_def clean_range_def)
next
  case False
  have uc: "user_comparator ucmp" and ok: "level_ok ucmp (LevelFiles v level)" using assms by simp_all
  obtain r lo hi where "GetOverlappingInputsRangeBinarySearch ucmp (LevelFiles v level) (Some start) (Some limit) (- 1) True = Inr r"
    and "ov_inputs r = map (\<lambda>i. LevelFiles v level ! nat i) [lo..hi]"
    and "lo \<le> hi \<longrightarrow> clean_range ucmp (LevelFiles v level) (Some start) (Some limit) lo hi"
    and "\<And>lo' hi'. clean_range ucmp (LevelFiles v level) (Some start) (Some limit) lo' hi' \<Longrightarrow> lo \<le> lo' \<and> hi' \<le> hi"
    using user_comparator.clean_search [OF uc ok] by metis
  then show ?thesis using False assms by (auto simp: GetCleanInputsWithinInterval_def Let_def)
qed

theorem GetCleanInputs_maximal_witness:
  "\<exists>r lo hi. GetCleanInputsWithinInterval Bytewise_Compare example_version 1 (Some (InternalKey [2] 7 1)) (Some (InternalKey [9] 7 1)) (- 1) = Inr r
    \<and> ov_inputs r = map (\<lambda>i. LevelFiles example_version 1 ! nat i) [lo..hi] \<and> lo \<le> 2 \<and> 2 \<le> hi"
proof -
  have ok: "level_ok Bytewise_Compare (LevelFiles example_version 1)" by code_simp
  then have "user_comparator Bytewise_Compare \<and> 0 < (1 :: nat) \<and> 1 < num_non_empty_levels example_version
      \<and> level_ok Bytewise_Compare (LevelFiles example_version 1)"
    using bytewise_keys.user_comparator_axioms by (simp add: example_version_def)
  note g = GetCleanInputs_maximal [OF this, of "InternalKey [2] 7 1" "InternalKey [9] 7 1"]
  have "within Bytewise_Compare (Some (InternalKey [2] 7 1)) (Some (InternalKey [9] 7 1)) (LevelFiles example_version 1 ! nat 2)
      \<and> clean_start Bytewise_Compare (LevelFiles example_version 1) 2 \<and> clean_limit Bytewise_Compare (LevelFiles example_version 1) 2
      \<and> 2 < int (length (LevelFiles example_version 1))" by code_simp
  then have "clean_range Bytewise_Compare (LevelFiles example_version 1) (Some (InternalKey [2] 7 1)) (Some (InternalKey [9] 7 1)) 2 2"
    by (auto simp: clean_range_def dest: order_antisym)
  with g show ?thesis by blast
qed

text \<open>\<open>OverlapInLevel\<close> answers whether some file of the level has a key in the range of user keys: by a scan of
  level 0, and by one binary search for the smallest possible internal key of a sorted level.\<close>

theorem OverlapInLevel_iff:
  assumes "user_comparator ucmp \<and> level < num_non_empty_levels v \<and> (level > 0 \<longrightarrow> level_ok ucmp (LevelFiles v level))"
  shows "OverlapInLevel ucmp v level b e \<longleftrightarrow> (\<exists>f \<in> set (LevelFiles v level). meets ucmp b e f)"
  using assms user_comparator.SomeFileOverlapsRange_iff [of ucmp "level > 0" "LevelFiles v level" b e]
  by (simp add: OverlapInLevel_def meets_def)

theorem OverlapInLevel_iff_witness:
  "OverlapInLevel Bytewise_Compare example_version 1 (Some [4]) (Some [4])
   \<and> \<not> OverlapInLevel Bytewise_Compare example_version 1 (Some [9]) (Some [9])"
proof -
  have "level_ok Bytewise_Compare (LevelFiles example_version 1)" by code_simp
  then have "user_comparator Bytewise_Compare \<and> 1 < num_non_empty_levels example_version
      \<and> (1 > (0 :: nat) \<longrightarrow> level_ok Bytewise_Compare (LevelFiles example_version 1))"
    using bytewise_keys.user_comparator_axioms by (simp add: example_version_def)
  note o = OverlapInLevel_iff [OF this]
  have "\<exists>f \<in> set (LevelFiles example_version 1). meets Bytewise_Compare (Some [4]) (Some [4]) f" by code_simp
  moreover have "\<not> (\<exists>f \<in> set (LevelFiles example_version 1). meets Bytewise_Compare (Some [9]) (Some [9]) f)" by code_simp
  ultimately show ?thesis using o [of "Some [4]" "Some [4]"] o [of "Some [9]" "Some [9]"] by blast
qed

end
