(* ===== verification/ColumnCompaction.thy ===== *)
theory ColumnCompaction
  imports KeysMerge VersionStorage
begin

text \<open>
  Column compaction: the selection of a range of keys across the tables of level 0 and of the files of level 1
  it goes to (\<open>PickColumnCompaction\<close> in \<open>utilities/nvm_mod/nvm_cf_mod.cc\<close>, \<open>column_compaction.h\<close>), its setup
  (\<open>SetupColumnCompactionInputs\<close> and \<open>GetRange\<close> in \<open>db/compaction_picker.cc\<close>), the edit that records it
  (\<open>AddInputDeletions\<close> and \<open>InstallColumnCompactionItem\<close> in \<open>db/compaction.cc\<close>) and the options that steer it
  (\<open>include/rocksdb/nvm_option.h\<close>, \<open>utilities/nvm_mod/nvm_option.cc\<close>).

  The selection loops are \<open>run_loop\<close>s. \<open>files_index\<close> and \<open>keys_index\<close> are a pair, \<open>None\<close> for the initial \<open>-1\<close>. The
  sizes are 64-bit words that wrap around, as in the code.
\<close>

section \<open>Definitions\<close>

record NvmSetup =
  su_use_nvm_module :: bool
  su_pmem_path :: string
  su_trigger_size :: u64
  su_slowdown_size :: u64
  su_stop_size :: u64
  su_no_L1_select :: int
  su_have_L1_select :: int

definition NvmSetup_init :: NvmSetup where
  "NvmSetup_init =
     \<lparr>su_use_nvm_module = False, su_pmem_path = [],
      su_trigger_size = 7 * 1024 * 1024 * 1024,
      su_slowdown_size = 7 * 1024 * 1024 * 1024 + 512 * 1024 * 1024,
      su_stop_size = 8 * 1024 * 1024 * 1024,
      su_no_L1_select = 4, su_have_L1_select = 2\<rparr>"

record NvmCfOptions =
  use_nvm_module :: bool
  pmem_path :: string
  Level0_column_compaction_trigger_size :: u64
  Level0_column_compaction_slowdown_size :: u64
  Level0_column_compaction_stop_size :: u64
  Column_compaction_no_L1_select_L0 :: int
  Column_compaction_have_L1_select_L0 :: int
  write_buffer_size :: u64
  max_write_buffer_number :: int
  level0_stop_writes_trigger :: int
  target_file_size_base :: u64

definition NvmCfOptions_new :: "NvmSetup \<Rightarrow> u64 \<Rightarrow> int \<Rightarrow> int \<Rightarrow> u64 \<Rightarrow> NvmCfOptions" where
  "NvmCfOptions_new setup s_write_buffer_size s_max_write_buffer_number s_level0_stop_writes_trigger
     s_target_file_size_base =
     \<lparr>use_nvm_module = su_use_nvm_module setup, pmem_path = su_pmem_path setup,
      Level0_column_compaction_trigger_size = su_trigger_size setup,
      Level0_column_compaction_slowdown_size = su_slowdown_size setup,
      Level0_column_compaction_stop_size = su_stop_size setup,
      Column_compaction_no_L1_select_L0 = su_no_L1_select setup,
      Column_compaction_have_L1_select_L0 = su_have_L1_select setup,
      write_buffer_size = s_write_buffer_size, max_write_buffer_number = s_max_write_buffer_number,
      level0_stop_writes_trigger = s_level0_stop_writes_trigger,
      target_file_size_base = s_target_file_size_base\<rparr>"

record ColumnCompactionItem =
  cc_files :: "FileEntry list"
  cc_keys_num :: "u64 list"
  cc_keys_size :: "u64 list"
  L0select_size :: u64
  L0compactionfiles :: "FileMetaData list"
  L1compactionfiles :: "FileMetaData list"
  L0smallest :: slice
  L0largest :: slice

subsection \<open>The tables under compaction\<close>

text \<open>The tables of \<open>compaction_files\<close> with the index of their first live key, which their metadata in level 0 has;
  the cursor \<open>j\<close> is the suffix of \<open>L0files\<close> still to be searched. \<open>None\<close>: a file is missing in level 0.\<close>

fun compaction_tables ::
    "SstableMetadata \<Rightarrow> u64 list \<Rightarrow> FileMetaData list \<Rightarrow> (FileEntry list \<times> nat list) option result" where
  "compaction_tables m [] L0files = Inr (Some ([], []))"
| "compaction_tables m (n # ns) L0files =
     (case FindFile m n True of
        None \<Rightarrow> Inl NullDeref
      | Some tmp \<Rightarrow>
          (case dropWhile (\<lambda>f. GetNumber (fm_fd f) \<noteq> filenum tmp) L0files of
             [] \<Rightarrow> Inr None
           | f # rest \<Rightarrow>
               and_then (compaction_tables m ns rest)
                 (\<lambda>r. Inr (map_option (\<lambda>(comfiles, firsts).
                    (tmp # comfiles, unat (fm_first_key_index f) # firsts)) r))))"

definition compaction_size_stop :: "int \<Rightarrow> u64 \<Rightarrow> u64" where
  "compaction_size_stop select target =
     word_of_int select * target - 6 * 1024 * 1024 * word_of_int select"

subsection \<open>The selection loops\<close>

record PickState =
  ps_iter :: KeysMergeIterator
  ps_at :: "(nat \<times> nat) option"
  ps_num :: "u64 list"
  ps_size :: "u64 list"
  all_comption_size :: u64
  L1Range_index :: nat
  ps_largest :: slice

definition meta_at :: "FileEntry list \<Rightarrow> (nat \<times> nat) option \<Rightarrow> KeysMetadata result" where
  "meta_at comfiles at =
     (case at of
        None \<Rightarrow> Inl OutOfBounds
      | Some (i, j) \<Rightarrow>
          if i < length comfiles \<and> j < keys_num (comfiles ! i) then Inr (keys_meta (comfiles ! i) ! j)
          else Inl OutOfBounds)"

text \<open>The key at \<open>p\<close> joins the compaction.\<close>

definition add_item :: "FileEntry list \<Rightarrow> nat \<times> nat \<Rightarrow> PickState \<Rightarrow> PickState result" where
  "add_item comfiles p st =
     and_then (meta_at comfiles (Some p)) (\<lambda>k.
       let i = fst p; itemsize = km_size k
       in Inr (st\<lparr>ps_at := Some p, ps_num := (ps_num st)[i := ps_num st ! i + 1],
                  ps_size := (ps_size st)[i := ps_size st ! i + itemsize],
                  all_comption_size := all_comption_size st + itemsize\<rparr>))"

definition advance :: "(slice \<Rightarrow> slice \<Rightarrow> int) \<Rightarrow> PickState \<Rightarrow> (bool \<times> PickState) result" where
  "advance ucmp st = and_then (Merge_Next ucmp (ps_iter st)) (\<lambda>it. Inr (True, st\<lparr>ps_iter := it\<rparr>))"

text \<open>One round of the loop for a level 1 that does not meet level 0.\<close>

definition no_L1_step ::
    "(slice \<Rightarrow> slice \<Rightarrow> int) \<Rightarrow> FileEntry list \<Rightarrow> u64 \<Rightarrow> PickState \<Rightarrow> (bool \<times> PickState) result" where
  "no_L1_step ucmp comfiles stop st =
     (if \<not> Merge_Valid (ps_iter st) then Inr (False, st)
      else
        and_then (GetCurret (ps_iter st)) (\<lambda>next.
          if all_comption_size st \<ge> stop then
            and_then (meta_at comfiles (ps_at st)) (\<lambda>a.
            and_then (meta_at comfiles (Some next)) (\<lambda>b.
              if ucmp (ExtractUserKey (km_key a)) (ExtractUserKey (km_key b)) = 0
              then and_then (add_item comfiles next st) (advance ucmp)
              else Inr (False, st\<lparr>ps_largest := km_key a\<rparr>)))
          else and_then (add_item comfiles next st) (advance ucmp)))"

text \<open>Whether the key is past the boundary \<open>i\<close> of the files of level 1: at an even one, where a file starts, the key
  is in the file or after it; at an odd one, where the file ends, it is after the file.\<close>

definition past_boundary :: "(slice \<Rightarrow> slice \<Rightarrow> int) \<Rightarrow> slice list \<Rightarrow> nat \<Rightarrow> slice \<Rightarrow> bool result" where
  "past_boundary ucmp L1Ranges i key =
     (if i \<noteq> length L1Ranges \<and> i mod 2 = 0
      then and_then (vector_at L1Ranges (int i)) (\<lambda>r. Inr (ucmp (ExtractUserKey key) (ExtractUserKey r) \<ge> 0))
      else if i mod 2 = 1
      then and_then (vector_at L1Ranges (int i)) (\<lambda>r. Inr (ucmp (ExtractUserKey key) (ExtractUserKey r) > 0))
      else Inr False)"

text \<open>One round of the loop that follows the boundaries of the files of level 1.\<close>

definition have_L1_step ::
    "(slice \<Rightarrow> slice \<Rightarrow> int) \<Rightarrow> FileEntry list \<Rightarrow> slice list \<Rightarrow> u64 \<Rightarrow> PickState \<Rightarrow> (bool \<times> PickState) result" where
  "have_L1_step ucmp comfiles L1Ranges stop st =
     (if \<not> Merge_Valid (ps_iter st) then Inr (False, st)
      else
        and_then (GetCurret (ps_iter st)) (\<lambda>p.
        and_then (meta_at comfiles (Some p)) (\<lambda>k.
        and_then (past_boundary ucmp L1Ranges (L1Range_index st) (km_key k)) (\<lambda>past.
          if past then
            if L1Range_index st mod 2 = 1 \<and> all_comption_size st \<ge> stop
            then Inr (False, st\<lparr>ps_at := Some p, ps_largest := km_key k\<rparr>)
            else Inr (True, st\<lparr>ps_at := Some p, L1Range_index := L1Range_index st + 1\<rparr>)
          else
            and_then (add_item comfiles p st) (\<lambda>st'.
              if L1Range_index st' mod 2 = 0 \<and> all_comption_size st' \<ge> stop
              then Inr (False, st'\<lparr>ps_largest := km_key k\<rparr>)
              else advance ucmp st')))))"

text \<open>\<open>L0largest\<close> when the loop has used up all keys.\<close>

definition note_largest :: "FileEntry list \<Rightarrow> PickState \<Rightarrow> PickState result" where
  "note_largest comfiles st =
     (if all_comption_size st > 0 \<and> \<not> Merge_Valid (ps_iter st)
      then and_then (meta_at comfiles (ps_at st)) (\<lambda>k. Inr (st\<lparr>ps_largest := km_key k\<rparr>))
      else Inr st)"

subsection \<open>The item\<close>

definition chosen :: "u64 list \<Rightarrow> 'a list \<Rightarrow> 'a list" where
  "chosen num xs = map snd (filter (\<lambda>(n, x). n \<noteq> 0) (zip num xs))"

definition find_metas :: "FileMetaData list \<Rightarrow> FileEntry list \<Rightarrow> FileMetaData list" where
  "find_metas L0files fs =
     List.map_filter (\<lambda>f. find (\<lambda>g. GetNumber (fm_fd g) = filenum f) L0files) fs"

definition make_item ::
    "FileEntry list \<Rightarrow> FileMetaData list \<Rightarrow> FileMetaData list \<Rightarrow> slice \<Rightarrow> PickState \<Rightarrow> ColumnCompactionItem" where
  "make_item comfiles L0files L1files smallest st =
     (let fs = chosen (ps_num st) comfiles
      in \<lparr>cc_files = fs, cc_keys_num = chosen (ps_num st) (ps_num st),
          cc_keys_size = chosen (ps_num st) (ps_size st), L0select_size = all_comption_size st,
          L0compactionfiles = find_metas L0files fs, L1compactionfiles = L1files,
          L0smallest = smallest, L0largest = ps_largest st\<rparr>)"

definition L1_boundaries :: "FileMetaData list \<Rightarrow> slice list" where
  "L1_boundaries fs = concat (map (\<lambda>f. [fm_smallest f, fm_largest f]) fs)"

text \<open>The selection, from the iterator at its first key and the files of level 1 that meet level 0.\<close>

definition pick_keys ::
    "NvmCfOptions \<Rightarrow> (slice \<Rightarrow> slice \<Rightarrow> int) \<Rightarrow> FileEntry list \<Rightarrow> FileMetaData list \<Rightarrow> FileMetaData list \<Rightarrow> slice \<Rightarrow>
     PickState \<Rightarrow> ColumnCompactionItem result option" where
  "pick_keys opts ucmp comfiles L0files L1overlapfiles smallest st =
     (let body =
        (if L1overlapfiles = []
         then no_L1_step ucmp comfiles
                (compaction_size_stop (Column_compaction_no_L1_select_L0 opts) (target_file_size_base opts))
         else have_L1_step ucmp comfiles (L1_boundaries L1overlapfiles)
                (compaction_size_stop (Column_compaction_have_L1_select_L0 opts) (target_file_size_base opts)))
      in map_option (\<lambda>r. and_then r (\<lambda>st. and_then (note_largest comfiles st) (\<lambda>st.
           Inr (make_item comfiles L0files (take ((L1Range_index st + 1) div 2) L1overlapfiles) smallest st))))
         (run_loop body st))"

text \<open>The keys \<open>minsmallest\<close> and \<open>maxlargest\<close> are empty if the iterator is not valid.\<close>

definition key_at_valid :: "FileEntry list \<Rightarrow> KeysMergeIterator \<Rightarrow> ((nat \<times> nat) option \<times> slice) result" where
  "key_at_valid comfiles it =
     (if Merge_Valid it
      then and_then (GetCurret it) (\<lambda>p. and_then (meta_at comfiles (Some p)) (\<lambda>k. Inr (Some p, km_key k)))
      else Inr (None, []))"

definition PickColumnCompaction ::
    "NvmCfOptions \<Rightarrow> (slice \<Rightarrow> slice \<Rightarrow> int) \<Rightarrow> NvmCfModule \<Rightarrow> VersionStorageInfo \<Rightarrow>
     (NvmCfModule \<times> ColumnCompactionItem option) result option" where
  "PickColumnCompaction opts ucmp nvmcf vstorage =
     (let L0files = LevelFiles vstorage 0
      in case UpdateCompactionState (nm_meta nvmcf) (map (\<lambda>f. GetNumber (fm_fd f)) L0files) of
           Inl e \<Rightarrow> Some (Inl e)
         | Inr meta \<Rightarrow>
             let nvmcf' = nvmcf\<lparr>nm_meta := meta\<rparr>
             in if compaction_files meta = [] then Some (Inr (nvmcf', None))
                else
                  case compaction_tables meta (compaction_files meta) L0files of
                    Inl e \<Rightarrow> Some (Inl e)
                  | Inr None \<Rightarrow> Some (Inr (nvmcf', None))
                  | Inr (Some (comfiles, firsts)) \<Rightarrow>
                      (case and_then (Merge_SeekToLast ucmp (KeysMergeIterator_new comfiles firsts)) (\<lambda>last_it.
                             and_then (key_at_valid comfiles last_it) (\<lambda>(_, maxlargest).
                             and_then (Merge_SeekToFirst ucmp last_it) (\<lambda>it.
                             and_then (key_at_valid comfiles it) (\<lambda>(at, minsmallest).
                             and_then (GetOverlappingInputs ucmp vstorage 1 (Some minsmallest) (Some maxlargest) [] (-1) True)
                               (\<lambda>o1. Inr (it, at, minsmallest, ov_inputs o1)))))) of
                         Inl e \<Rightarrow> Some (Inl e)
                       | Inr (it, at, minsmallest, L1overlapfiles) \<Rightarrow>
                           map_option (\<lambda>r. and_then r (\<lambda>c. Inr (nvmcf', Some c)))
                             (pick_keys opts ucmp comfiles L0files L1overlapfiles minsmallest
                                \<lparr>ps_iter = it, ps_at = at, ps_num = replicate (length comfiles) 0,
                                 ps_size = replicate (length comfiles) 0, all_comption_size = 0,
                                 L1Range_index = 0, ps_largest = []\<rparr>)))"

subsection \<open>The setup of the compaction\<close>

definition GetRange_level :: "(slice \<Rightarrow> slice \<Rightarrow> int) \<Rightarrow> nat \<Rightarrow> FileMetaData list \<Rightarrow> (slice \<times> slice) result" where
  "GetRange_level ucmp level inputs =
     (case inputs of
        [] \<Rightarrow> Inl AssertFailed
      | f # fs \<Rightarrow>
          if level = 0
          then Inr (fold (\<lambda>f (smallest, largest).
                 (if InternalKeyComparator_Compare ucmp (fm_smallest f) smallest < 0 then fm_smallest f else smallest,
                  if InternalKeyComparator_Compare ucmp (fm_largest f) largest > 0 then fm_largest f else largest))
                 fs (fm_smallest f, fm_largest f))
          else Inr (fm_smallest f, fm_largest (last inputs)))"

definition GetRange_keys :: "(slice \<Rightarrow> slice \<Rightarrow> int) \<Rightarrow> slice \<times> slice \<Rightarrow> slice \<times> slice \<Rightarrow> slice \<times> slice" where
  "GetRange_keys ucmp r1 r2 =
     (if InternalKeyComparator_Compare ucmp (fst r1) (fst r2) < 0 then fst r1 else fst r2,
      if InternalKeyComparator_Compare ucmp (snd r1) (snd r2) < 0 then snd r2 else snd r1)"

record ColumnInputs =
  ci_item :: ColumnCompactionItem
  ci_compaction_inputs :: "(nat \<times> FileMetaData list) list"
  ci_output_level :: nat
  ci_grandparents :: "FileMetaData list"

text \<open>\<open>base_level\<close> is \<open>vstorage_->base_level()\<close>; \<open>being_compacted\<close> the flag of the files. The result \<open>None\<close> is the
  code's \<open>false\<close>.\<close>

definition SetupColumnCompactionInputs ::
    "NvmCfOptions \<Rightarrow> (slice \<Rightarrow> slice \<Rightarrow> int) \<Rightarrow> nat \<Rightarrow> (FileMetaData \<Rightarrow> bool) \<Rightarrow> NvmCfModule \<Rightarrow> VersionStorageInfo \<Rightarrow>
     (NvmCfModule \<times> ColumnInputs option) result option" where
  "SetupColumnCompactionInputs opts ucmp base_level being_compacted nvmcf vstorage =
     map_option (\<lambda>r. and_then r (\<lambda>(nvmcf', ccitem).
       case ccitem of
         None \<Rightarrow> Inr (nvmcf', None)
       | Some c \<Rightarrow>
           if list_ex being_compacted (L1compactionfiles c) then Inr (nvmcf', None)
           else
             and_then
               (if L1compactionfiles c \<noteq> []
                then and_then (GetRange_level ucmp base_level (L1compactionfiles c))
                       (\<lambda>r2. Inr (GetRange_keys ucmp (L0smallest c, L0largest c) r2))
                else Inr (L0smallest c, L0largest c)) (\<lambda>(start, limit).
             and_then (GetOverlappingInputs ucmp vstorage (base_level + 1) (Some start) (Some limit) [] (-1) True) (\<lambda>gp.
               Inr (nvmcf', Some
                 \<lparr>ci_item = c,
                  ci_compaction_inputs = (0, L0compactionfiles c) #
                    (if L1compactionfiles c \<noteq> [] then [(base_level, L1compactionfiles c)] else []),
                  ci_output_level = base_level, ci_grandparents = ov_inputs gp\<rparr>)))))
       (PickColumnCompaction opts ucmp nvmcf vstorage)"

subsection \<open>The edit of the compaction\<close>

text \<open>The deletion of a table of level 0, or its replacement by the rest of its keys: the edit and
  \<open>column_compaction_delete_file_\<close>.\<close>

definition item_deletion ::
    "ColumnCompactionItem \<Rightarrow> nat \<Rightarrow> VersionEdit \<times> u64 list \<Rightarrow> (VersionEdit \<times> u64 list) result" where
  "item_deletion c i s =
     and_then (vector_at (cc_files c) (int i)) (\<lambda>file.
     and_then (vector_at (L0compactionfiles c) (int i)) (\<lambda>filemeta.
     and_then (vector_at (cc_keys_num c) (int i)) (\<lambda>num.
       let first_key_index = fm_first_key_index filemeta + num;
           edit = VersionEdit_DeleteFile 0 (filenum file) (fst s)
       in if first_key_index = of_nat (keys_num file) then Inr (edit, snd s @ [filenum file])
          else
            and_then (vector_at (cc_keys_size c) (int i)) (\<lambda>ksize.
            and_then (vector_at (keys_meta file) (int (unat first_key_index))) (\<lambda>k.
            and_then (VersionEdit_AddFile_fields 0 (GetNumber (fm_fd filemeta)) (GetPathId (fm_fd filemeta))
                (fd_file_size (fm_fd filemeta) - ksize) (km_key k) (fm_largest filemeta)
                (fd_smallest_seqno (fm_fd filemeta)) (fd_largest_seqno (fm_fd filemeta))
                (fm_marked_for_compaction filemeta) (fm_is_nvm_level0 filemeta) first_key_index
                (fm_nvm_sstable_index filemeta) (fm_keys_num filemeta) (fm_key_point_filenum filemeta)
                (fm_raw_file_size filemeta) (fm_nvm_meta_size filemeta) edit)
              (\<lambda>edit'. Inr (edit', snd s)))))))"

fun item_deletions ::
    "ColumnCompactionItem \<Rightarrow> nat list \<Rightarrow> VersionEdit \<times> u64 list \<Rightarrow> (VersionEdit \<times> u64 list) result" where
  "item_deletions c [] s = Inr s"
| "item_deletions c (i # is) s = and_then (item_deletion c i s) (item_deletions c is)"

definition input_deletions :: "bool \<Rightarrow> (nat \<times> FileMetaData list) list \<Rightarrow> VersionEdit \<Rightarrow> VersionEdit" where
  "input_deletions column inputs edit =
     fold (\<lambda>(level, fs) e.
       if column \<and> level = 0 then e
       else fold (\<lambda>f. VersionEdit_DeleteFile (int level) (GetNumber (fm_fd f))) fs e) inputs edit"

definition AddInputDeletions ::
    "(nat \<times> FileMetaData list) list \<Rightarrow> ColumnCompactionItem option \<Rightarrow> VersionEdit \<Rightarrow> (VersionEdit \<times> u64 list) result" where
  "AddInputDeletions inputs ccitem edit =
     (let edit' = input_deletions (ccitem \<noteq> None) inputs edit
      in case ccitem of
           None \<Rightarrow> Inr (edit', [])
         | Some c \<Rightarrow> item_deletions c [0..<length (cc_files c)] (edit', []))"

definition InstallColumnCompactionItem :: "u64 list \<Rightarrow> NvmCfModule \<Rightarrow> NvmCfModule" where
  "InstallColumnCompactionItem deleted nvmcf =
     nvmcf\<lparr>nm_meta := fold (\<lambda>n m. DeleteCompactionFile m n) deleted (nm_meta nvmcf)\<rparr>"

section \<open>The selection loops\<close>

text \<open>\<open>counts cs ps n st\<close>: the first \<open>n\<close> positions of the merge order \<open>ps\<close> have joined the compaction.\<close>

definition item_size :: "FileEntry list \<Rightarrow> nat \<times> nat \<Rightarrow> u64" where
  "item_size cs p = km_size (keys_meta (cs ! fst p) ! snd p)"

definition counts :: "FileEntry list \<Rightarrow> (nat \<times> nat) list \<Rightarrow> nat \<Rightarrow> PickState \<Rightarrow> bool" where
  "counts cs ps n st \<longleftrightarrow>
     length (ps_num st) = length cs \<and> length (ps_size st) = length cs
     \<and> (\<forall>i < length cs. ps_num st ! i = of_nat (length (filter (\<lambda>p. fst p = i) (take n ps)))
          \<and> ps_size st ! i = sum_list (map (item_size cs) (filter (\<lambda>p. fst p = i) (take n ps))))
     \<and> all_comption_size st = sum_list (map (item_size cs) (take n ps))"

definition in_tables :: "FileEntry list \<Rightarrow> (nat \<times> nat) list \<Rightarrow> bool" where
  "in_tables cs ps \<longleftrightarrow> list_all (\<lambda>p. fst p < length cs \<and> snd p < keys_num (cs ! fst p)) ps"

lemma meta_at_in_tables:
  assumes "in_tables cs ps" and "n < length ps"
  shows "meta_at cs (Some (ps ! n)) = Inr (keys_meta (cs ! fst (ps ! n)) ! snd (ps ! n))"
  using assms by (auto simp: meta_at_def in_tables_def list_all_length split: prod.splits)

lemma ukey_pkey: "ExtractUserKey (km_key (keys_meta (cs ! fst p) ! snd p)) = pkey cs p"
  by (simp add: pkey_def ukey_def)

lemma add_item_counts:
  assumes "in_tables cs ps" and "n < length ps" and "counts cs ps n st"
  obtains st' where "add_item cs (ps ! n) st = Inr st'" and "counts cs ps (Suc n) st'"
    and "ps_at st' = Some (ps ! n)" and "ps_iter st' = ps_iter st" and "L1Range_index st' = L1Range_index st"
    and "ps_largest st' = ps_largest st"
proof -
  have "fst (ps ! n) < length cs" using assms(1,2) by (simp add: in_tables_def list_all_length)
  then show thesis
    using that assms(3)
    by (simp add: add_item_def meta_at_in_tables [OF assms(1,2)] counts_def take_Suc_conv_app_nth [OF assms(2)]
        nth_list_update item_size_def Let_def)
qed

lemma enumerates_drop:
  assumes "enumerates ucmp it (drop n ps)" and "n < length ps"
  obtains it' where "Merge_Valid it" and "GetCurret it = Inr (ps ! n)" and "Merge_Next ucmp it = Inr it'"
    and "enumerates ucmp it' (drop (Suc n) ps)"
  using assms by (auto simp flip: Cons_nth_drop_Suc)

lemma no_L1_loop:
  assumes "in_tables cs ps" and "ps \<noteq> []" and "three_way ucmp"
  shows "n \<le> length ps \<Longrightarrow> enumerates ucmp (ps_iter st) (drop n ps) \<Longrightarrow> ps_at st = Some (ps ! (n - 1)) \<Longrightarrow>
    counts cs ps n st \<Longrightarrow>
    \<exists>n' st'. run_loop (no_L1_step ucmp cs stop) st = Some (Inr st') \<and> 0 < n' \<and> n' \<le> length ps \<and> counts cs ps n' st'
      \<and> ps_at st' = Some (ps ! (n' - 1)) \<and> L1Range_index st' = L1Range_index st
      \<and> (n' < length ps \<longrightarrow> ucmp (pkey cs (ps ! (n' - 1))) (pkey cs (ps ! n')) \<noteq> 0)"
proof (induction "length ps - n" arbitrary: n st rule: less_induct)
  case less
  show ?case
  proof (cases "n = length ps")
    case True
    then have "no_L1_step ucmp cs stop st = Inr (False, st)" using less.prems(2) by (simp add: no_L1_step_def)
    then have "run_loop (no_L1_step ucmp cs stop) st = Some (Inr st)" by (subst run_loop.simps) simp
    then show ?thesis using True less.prems assms(2) by blast
  next
    case False
    then have n: "n < length ps" using less.prems(1) by simp
    obtain it where it: "Merge_Valid (ps_iter st)" "GetCurret (ps_iter st) = Inr (ps ! n)"
        "Merge_Next ucmp (ps_iter st) = Inr it" "enumerates ucmp it (drop (Suc n) ps)"
      using enumerates_drop [OF less.prems(2) n] by blast
    obtain st1 where st1: "add_item cs (ps ! n) st = Inr st1" "counts cs ps (Suc n) st1"
        "ps_at st1 = Some (ps ! n)" "ps_iter st1 = ps_iter st" "L1Range_index st1 = L1Range_index st"
      using add_item_counts [OF assms(1) n less.prems(4)] by blast
    define l where "l = n - 1"
    have n1: "l < length ps" using n by (simp add: l_def)
    define go where "go \<longleftrightarrow> \<not> all_comption_size st \<ge> stop \<or> ucmp (pkey cs (ps ! l)) (pkey cs (ps ! n)) = 0"
    have step: "no_L1_step ucmp cs stop st =
        (if go then Inr (True, st1\<lparr>ps_iter := it\<rparr>)
         else Inr (False, st\<lparr>ps_largest := km_key (keys_meta (cs ! fst (ps ! l)) ! snd (ps ! l))\<rparr>))"
      using it st1 less.prems(3) [folded l_def]
      by (simp add: no_L1_step_def meta_at_in_tables [OF assms(1) n] meta_at_in_tables [OF assms(1) n1] ukey_pkey
          go_def advance_def)
    show ?thesis
    proof (cases go)
      case True
      then have "run_loop (no_L1_step ucmp cs stop) st = run_loop (no_L1_step ucmp cs stop) (st1\<lparr>ps_iter := it\<rparr>)"
        by (subst run_loop.simps) (simp add: step)
      moreover have "counts cs ps (Suc n) (st1\<lparr>ps_iter := it\<rparr>)" using st1(2) by (simp add: counts_def)
      ultimately show ?thesis
        using less.hyps [of "Suc n" "st1\<lparr>ps_iter := it\<rparr>"] n it(4) st1(3,5) by simp
    next
      case False
      then have n0: "0 < n" using three_way.cmp_refl [OF assms(3)] by (cases n) (auto simp: go_def l_def)
      have "run_loop (no_L1_step ucmp cs stop) st =
          Some (Inr (st\<lparr>ps_largest := km_key (keys_meta (cs ! fst (ps ! l)) ! snd (ps ! l))\<rparr>))"
        by (subst run_loop.simps) (simp add: step False)
      moreover have "counts cs ps n (st\<lparr>ps_largest := k\<rparr>)" for k using less.prems(4) by (simp add: counts_def)
      ultimately show ?thesis using n0 n less.prems(3) False by (auto simp: go_def l_def)
    qed
  qed
qed

text \<open>The boundaries of the files of level 1 in order; a key is \<open>bounded\<close> by one if it is not past it.\<close>

definition boundaries_ok :: "(slice \<Rightarrow> slice \<Rightarrow> int) \<Rightarrow> slice list \<Rightarrow> bool" where
  "boundaries_ok ucmp rs \<longleftrightarrow> even (length rs)
     \<and> (\<forall>i. Suc i < length rs \<longrightarrow>
          (if even i then ucmp (ExtractUserKey (rs ! i)) (ExtractUserKey (rs ! Suc i)) \<le> 0
           else ucmp (ExtractUserKey (rs ! i)) (ExtractUserKey (rs ! Suc i)) < 0))"

definition bounded :: "(slice \<Rightarrow> slice \<Rightarrow> int) \<Rightarrow> slice list \<Rightarrow> nat \<Rightarrow> slice \<Rightarrow> bool" where
  "bounded ucmp rs i u \<longleftrightarrow>
     (i < length rs \<longrightarrow> (if even i then ucmp u (ExtractUserKey (rs ! i)) < 0 else ucmp u (ExtractUserKey (rs ! i)) \<le> 0))"

lemma bounded_Suc:
  assumes "three_way ucmp" and "boundaries_ok ucmp rs" and "bounded ucmp rs i u"
  shows "bounded ucmp rs (Suc i) u"
proof (cases "Suc i < length rs")
  case True
  have r: "if even i then ucmp (ExtractUserKey (rs ! i)) (ExtractUserKey (rs ! Suc i)) \<le> 0
           else ucmp (ExtractUserKey (rs ! i)) (ExtractUserKey (rs ! Suc i)) < 0"
    using True assms(2) by (simp add: boundaries_ok_def)
  show ?thesis
  proof (cases "even i")
    case True
    then show ?thesis using r assms(3) \<open>Suc i < length rs\<close> three_way.cmp_less_le_trans [OF assms(1)]
      by (auto simp: bounded_def intro: less_imp_le)
  next
    case False
    then show ?thesis using r assms(3) \<open>Suc i < length rs\<close> three_way.cmp_le_less_trans [OF assms(1)]
      by (auto simp: bounded_def)
  qed
qed (simp add: bounded_def)

lemma bounded_mono:
  assumes "three_way ucmp" and "boundaries_ok ucmp rs" and "bounded ucmp rs i u" and "i \<le> j"
  shows "bounded ucmp rs j u"
  using assms(4) by (induction rule: dec_induct) (auto intro: assms(3) bounded_Suc [OF assms(1,2)])

lemma past_boundary_bounded:
  assumes "even (length rs)" and "i \<le> length rs"
  shows "past_boundary ucmp rs i k = Inr (\<not> bounded ucmp rs i (ExtractUserKey k))"
proof (cases "i = length rs")
  case True
  then show ?thesis using assms(1) by (simp add: past_boundary_def bounded_def)
next
  case False
  then have "i < length rs" using assms(2) by simp
  then show ?thesis
    by (auto simp: past_boundary_def bounded_def vector_at_def not_less not_le odd_iff_mod_2_eq_one even_iff_mod_2_eq_zero)
qed

lemma have_L1_loop:
  assumes "in_tables cs ps" and tw: "three_way ucmp" and rs: "boundaries_ok ucmp rs" and "2 \<le> length rs"
    and first: "ucmp (pkey cs (ps ! 0)) (ExtractUserKey (rs ! 1)) \<le> 0" and "ps \<noteq> []"
  shows "n \<le> length ps \<Longrightarrow> L1Range_index st \<le> length rs \<Longrightarrow> enumerates ucmp (ps_iter st) (drop n ps) \<Longrightarrow>
    counts cs ps n st \<Longrightarrow> list_all (\<lambda>p. bounded ucmp rs (L1Range_index st) (pkey cs p)) (take n ps) \<Longrightarrow>
    (n = 0 \<longrightarrow> L1Range_index st \<le> 1) \<Longrightarrow> (n = length ps \<longrightarrow> ps_at st = Some (last ps)) \<Longrightarrow>
    \<exists>n' st'. run_loop (have_L1_step ucmp cs rs stop) st = Some (Inr st') \<and> 0 < n' \<and> n' \<le> length ps
      \<and> counts cs ps n' st' \<and> L1Range_index st' \<le> length rs
      \<and> list_all (\<lambda>p. bounded ucmp rs (L1Range_index st') (pkey cs p)) (take n' ps)
      \<and> (Merge_Valid (ps_iter st') \<or> n' = length ps \<and> ps_at st' = Some (last ps))"
proof (induction "length ps - n + (length rs - L1Range_index st)" arbitrary: n st rule: less_induct)
  case less
  have ev: "even (length rs)" using rs by (simp add: boundaries_ok_def)
  show ?case
  proof (cases "n = length ps")
    case True
    then have "have_L1_step ucmp cs rs stop st = Inr (False, st)" using less.prems(3) by (simp add: have_L1_step_def)
    then have "run_loop (have_L1_step ucmp cs rs stop) st = Some (Inr st)" by (subst run_loop.simps) simp
    then show ?thesis using True less.prems assms(6) by blast
  next
    case False
    then have n: "n < length ps" using less.prems(1) by simp
    let ?i = "L1Range_index st" and ?key = "km_key (keys_meta (cs ! fst (ps ! n)) ! snd (ps ! n))"
    obtain it where it: "Merge_Valid (ps_iter st)" "GetCurret (ps_iter st) = Inr (ps ! n)"
        "Merge_Next ucmp (ps_iter st) = Inr it" "enumerates ucmp it (drop (Suc n) ps)"
      using enumerates_drop [OF less.prems(3) n] by blast
    obtain st1 where st1: "add_item cs (ps ! n) st = Inr st1" "counts cs ps (Suc n) st1"
        "ps_at st1 = Some (ps ! n)" "ps_iter st1 = ps_iter st" "L1Range_index st1 = ?i"
      using add_item_counts [OF assms(1) n less.prems(4)] by blast
    have b: "list_all (\<lambda>p. bounded ucmp rs (Suc ?i) (pkey cs p)) (take n ps)"
      using less.prems(5) bounded_Suc [OF tw rs] by (auto simp: list_all_iff)
    have step: "have_L1_step ucmp cs rs stop st =
        (if \<not> bounded ucmp rs ?i (pkey cs (ps ! n)) then
           if ?i mod 2 = 1 \<and> all_comption_size st \<ge> stop then Inr (False, st\<lparr>ps_at := Some (ps ! n), ps_largest := ?key\<rparr>)
           else Inr (True, st\<lparr>ps_at := Some (ps ! n), L1Range_index := ?i + 1\<rparr>)
         else if ?i mod 2 = 0 \<and> all_comption_size st1 \<ge> stop then Inr (False, st1\<lparr>ps_largest := ?key\<rparr>)
         else Inr (True, st1\<lparr>ps_iter := it\<rparr>))"
      using it st1 by (simp add: have_L1_step_def meta_at_in_tables [OF assms(1) n]
          past_boundary_bounded [OF ev less.prems(2)] ukey_pkey advance_def)
    have same: "counts cs ps k (s\<lparr>ps_largest := x\<rparr>) = counts cs ps k s" "counts cs ps k (s\<lparr>ps_at := a\<rparr>) = counts cs ps k s"
        "counts cs ps k (s\<lparr>ps_iter := it\<rparr>) = counts cs ps k s" "counts cs ps k (s\<lparr>L1Range_index := r\<rparr>) = counts cs ps k s"
      for k s x a r by (simp_all add: counts_def)
    show ?thesis
    proof (cases "bounded ucmp rs ?i (pkey cs (ps ! n))")
      case bd: True
      have all: "list_all (\<lambda>p. bounded ucmp rs ?i (pkey cs p)) (take (Suc n) ps)"
        using less.prems(5) bd by (simp add: take_Suc_conv_app_nth [OF n])
      show ?thesis
      proof (cases "?i mod 2 = 0 \<and> all_comption_size st1 \<ge> stop")
        case True
        then have "run_loop (have_L1_step ucmp cs rs stop) st = Some (Inr (st1\<lparr>ps_largest := ?key\<rparr>))"
          using bd by (subst run_loop.simps) (simp add: step)
        then show ?thesis using n st1 all less.prems(2) same it(1)
          by (intro exI [of _ "Suc n"] exI [of _ "st1\<lparr>ps_largest := ?key\<rparr>"]) simp
      next
        case False
        then have "run_loop (have_L1_step ucmp cs rs stop) st = run_loop (have_L1_step ucmp cs rs stop) (st1\<lparr>ps_iter := it\<rparr>)"
          using bd by (subst run_loop.simps) (auto simp: step)
        moreover have "length ps - Suc n + (length rs - L1Range_index (st1\<lparr>ps_iter := it\<rparr>)) <
            length ps - n + (length rs - ?i)" using n st1(5) by simp
        moreover have "Suc n = length ps \<longrightarrow> ps_at (st1\<lparr>ps_iter := it\<rparr>) = Some (last ps)"
          using st1(3) assms(6) by (auto simp: last_conv_nth dest: sym)
        ultimately show ?thesis
          using less.hyps [of "Suc n" "st1\<lparr>ps_iter := it\<rparr>"] n it(4) st1(2,5) all less.prems(2) same(3) by simp
      qed
    next
      case nb: False
      have lt: "?i < length rs" using nb by (simp add: bounded_def)
      show ?thesis
      proof (cases "?i mod 2 = 1 \<and> all_comption_size st \<ge> stop")
        case True
        have "n \<noteq> 0"
        proof
          assume "n = 0"
          then have "?i = 1" using True less.prems(6) by (cases ?i) auto
          then show False using nb first \<open>n = 0\<close> by (simp add: bounded_def)
        qed
        moreover have "run_loop (have_L1_step ucmp cs rs stop) st = Some (Inr (st\<lparr>ps_at := Some (ps ! n), ps_largest := ?key\<rparr>))"
          using True nb by (subst run_loop.simps) (simp add: step)
        ultimately show ?thesis using n less.prems same it(1)
          by (intro exI [of _ n] exI [of _ "st\<lparr>ps_at := Some (ps ! n), ps_largest := ?key\<rparr>"]) simp
      next
        case False
        have "n = 0 \<longrightarrow> ?i = 0"
        proof
          assume "n = 0"
          then have "?i \<noteq> 1" using nb first by (auto simp: bounded_def)
          then show "?i = 0" using less.prems(6) \<open>n = 0\<close> by auto
        qed
        moreover have "run_loop (have_L1_step ucmp cs rs stop) st =
            run_loop (have_L1_step ucmp cs rs stop) (st\<lparr>ps_at := Some (ps ! n), L1Range_index := ?i + 1\<rparr>)"
          using False nb by (subst run_loop.simps) (auto simp: step)
        ultimately show ?thesis
          using less.hyps [of n "st\<lparr>ps_at := Some (ps ! n), L1Range_index := ?i + 1\<rparr>"] n less.prems b lt same by simp
      qed
    qed
  qed
qed

section \<open>The selected keys\<close>

text \<open>The positions of one table come in the merge order by their index, so a prefix of the merge order has a prefix of the
  live keys of every table.\<close>

lemma filter_fst_positions:
  assumes "set ps = positions cs firsts" and "distinct ps" and "sorted_wrt (before ucmp cs) ps"
    and "\<And>k. ucmp k k = 0" and us: "\<And>i. i < length cs \<Longrightarrow> user_sorted ucmp (cs ! i)" and i: "i < length cs"
    and tw: "three_way ucmp"
  shows "filter (\<lambda>p. fst p = i) ps = map (Pair i) [firsts ! i..<keys_num (cs ! i)]"
proof -
  let ?f = "filter (\<lambda>p. fst p = i) ps"
  have srt: "sorted_wrt (<) (map snd ?f)"
  proof -
    have "snd p < snd q" if pq: "p \<in> set ?f" "q \<in> set ?f" "before ucmp cs p q" for p q
    proof (rule ccontr)
      assume "\<not> snd p < snd q"
      then have le: "snd q \<le> snd p" by simp
      have fst: "fst p = i" "fst q = i" and "p \<in> positions cs firsts" using pq(1,2) assms(1) by simp_all
      then have p: "fst p = i" "fst q = i" "snd p < keys_num (cs ! i)" by (simp_all add: positions_def split: prod.splits)
      then have "ucmp (pkey cs q) (pkey cs p) \<le> 0" using us [OF i] le by (simp add: user_sorted_def pkey_def)
      then show False using pq(3) p le three_way.cmp_swap [OF tw, of "pkey cs p" "pkey cs q"]
        by (auto simp: before_def)
    qed
    moreover have "sorted_wrt (before ucmp cs) ?f" using assms(3) by (rule sorted_wrt_filter)
    ultimately have "sorted_wrt (\<lambda>p q. snd p < snd q) ?f" by (rule sorted_wrt_mono_rel)
    then show ?thesis by (simp add: sorted_wrt_map)
  qed
  have set: "set (map snd ?f) = {firsts ! i..<keys_num (cs ! i)}"
    using assms(1) i by (force simp: positions_def)
  have "map snd ?f = [firsts ! i..<keys_num (cs ! i)]"
    by (rule strict_sorted_equal [OF sorted_wrt_upt srt]) (simp only: set set_upt)
  moreover have "filter (\<lambda>p. fst p = i) qs = map (Pair i) (map snd (filter (\<lambda>p. fst p = i) qs))" for qs :: "(nat \<times> nat) list"
    by (induction qs) auto
  ultimately show ?thesis by metis
qed

lemma filter_take_prefix: "filter P (take n xs) = take (length (filter P (take n xs))) (filter P xs)"
  by (metis append_eq_conv_conj append_take_drop_id filter_append)

lemma prefix_positions:
  assumes "filter (\<lambda>p. fst p = i) ps = map (Pair i) [a..<b]"
  shows "(i, j) \<in> set (take n ps) \<longleftrightarrow>
    a \<le> j \<and> j < a + length (filter (\<lambda>p. fst p = i) (take n ps))"
    and "length (filter (\<lambda>p. fst p = i) (take n ps)) \<le> b - a"
proof -
  define l where "l = length (filter (\<lambda>p. fst p = i) (take n ps))"
  have f: "filter (\<lambda>p. fst p = i) (take n ps) = map (Pair i) (take l [a..<b])"
    using filter_take_prefix [of "\<lambda>p. fst p = i" n ps] assms by (simp add: take_map l_def)
  have "l = length (map (Pair i) (take l [a..<b]))" using f by (simp only: l_def)
  then have le: "l \<le> b - a" by simp
  then show "length (filter (\<lambda>p. fst p = i) (take n ps)) \<le> b - a" by (simp add: l_def)
  have "(i, j) \<in> set (take n ps) \<longleftrightarrow> (i, j) \<in> set (filter (\<lambda>p. fst p = i) (take n ps))" by simp
  also have "\<dots> \<longleftrightarrow> j \<in> set (take l [a..<b])" unfolding f by auto
  also have "take l [a..<b] = [a..<a + l]" using le by (cases "l = 0") simp_all
  finally show "(i, j) \<in> set (take n ps) \<longleftrightarrow> a \<le> j \<and> j < a + length (filter (\<lambda>p. fst p = i) (take n ps))"
    by (simp add: l_def)
qed

text \<open>The live keys of tables, and the keys an item takes: pairs of a table and an index.\<close>

definition live_keys :: "FileEntry list \<Rightarrow> nat list \<Rightarrow> (FileEntry \<times> nat) set" where
  "live_keys cs firsts = {(f, j). \<exists>i < length cs. f = cs ! i \<and> firsts ! i \<le> j \<and> j < keys_num f}"

definition selected :: "ColumnCompactionItem \<Rightarrow> (FileEntry \<times> nat) set" where
  "selected c = {(f, j). \<exists>i < length (cc_files c). f = cc_files c ! i
     \<and> unat (fm_first_key_index (L0compactionfiles c ! i)) \<le> j
     \<and> j < unat (fm_first_key_index (L0compactionfiles c ! i)) + unat (cc_keys_num c ! i)}"

lemma live_keys_positions: "live_keys cs firsts = (\<lambda>(i, j). (cs ! i, j)) ` positions cs firsts"
  by (auto simp: live_keys_def positions_def image_iff)

text \<open>Tables with their metadata: \<open>L0files\<close> has for every table a file of its number with the index of its first live key.\<close>

definition tables_in_L0 :: "FileMetaData list \<Rightarrow> FileEntry list \<Rightarrow> nat list \<Rightarrow> bool" where
  "tables_in_L0 L0files cs firsts \<longleftrightarrow> length firsts = length cs
     \<and> (\<forall>i < length cs. \<exists>g. find (\<lambda>g. GetNumber (fm_fd g) = filenum (cs ! i)) L0files = Some g
          \<and> unat (fm_first_key_index g) = firsts ! i)"

lemma chosen_map: "chosen num (map F xs) = map F (chosen num xs)"
  by (simp add: chosen_def zip_map2 filter_map comp_def case_prod_beta')

lemma chosen_zip:
  "length num = length xs \<Longrightarrow> length num = length ys \<Longrightarrow> chosen num (zip xs ys) = zip (chosen num xs) (chosen num ys)"
proof (induction num arbitrary: xs ys)
  case (Cons n num)
  then show ?case by (cases xs; cases ys) (auto simp: chosen_def)
qed (simp add: chosen_def)

lemma length_chosen: "length num = length xs \<Longrightarrow> length (chosen num xs) = length (filter (\<lambda>n. n \<noteq> 0) num)"
proof (induction num arbitrary: xs)
  case (Cons n num)
  then show ?case by (cases xs) (auto simp: chosen_def)
qed (simp add: chosen_def)

lemma set_chosen:
  "length num = length xs \<Longrightarrow> set (chosen num xs) = {xs ! i | i. i < length xs \<and> num ! i \<noteq> 0}"
  by (force simp: chosen_def set_zip image_iff)

lemma find_metas_chosen:
  assumes "tables_in_L0 L0files cs firsts" and "length num = length cs"
  shows "length (find_metas L0files (chosen num cs)) = length (chosen num cs)"
    and "map (\<lambda>g. unat (fm_first_key_index g)) (find_metas L0files (chosen num cs)) = chosen num firsts"
proof -
  let ?h = "\<lambda>f. find (\<lambda>g. GetNumber (fm_fd g) = filenum f) L0files"
  have h: "\<exists>g. ?h (cs ! i) = Some g \<and> unat (fm_first_key_index g) = firsts ! i" if "i < length cs" for i
    using assms(1) that by (simp add: tables_in_L0_def)
  have "\<exists>g. ?h f = Some g" if "f \<in> set (chosen num cs)" for f
    using that h assms(2) by (auto simp: set_chosen)
  then have m: "find_metas L0files (chosen num cs) = map (\<lambda>f. the (?h f)) (chosen num cs)"
    unfolding find_metas_def by (induction "chosen num cs" arbitrary: num cs) (auto simp: List.map_filter_def)
  then show "length (find_metas L0files (chosen num cs)) = length (chosen num cs)" by simp
  have "map (\<lambda>f. unat (fm_first_key_index (the (?h f)))) cs = firsts"
  proof (rule nth_equalityI)
    show "length (map (\<lambda>f. unat (fm_first_key_index (the (?h f)))) cs) = length firsts"
      using assms(1) by (simp add: tables_in_L0_def)
    show "map (\<lambda>f. unat (fm_first_key_index (the (?h f)))) cs ! i = firsts ! i"
      if "i < length (map (\<lambda>f. unat (fm_first_key_index (the (?h f)))) cs)" for i
      using h [of i] that by auto
  qed
  then show "map (\<lambda>g. unat (fm_first_key_index g)) (find_metas L0files (chosen num cs)) = chosen num firsts"
    unfolding m by (metis (no_types, lifting) chosen_map list.map_comp comp_def map_eq_conv)
qed

lemma in_chosen_zip:
  "length n = length cs \<Longrightarrow> length firsts = length cs \<Longrightarrow> (f, a, m) \<in> set (chosen n (zip cs (zip firsts n))) \<longleftrightarrow>
     (\<exists>i < length cs. n ! i \<noteq> 0 \<and> f = cs ! i \<and> a = firsts ! i \<and> m = n ! i)"
  by (force simp: set_chosen)

lemma selected_make_item:
  assumes "tables_in_L0 L0files cs firsts" and "length (ps_num st) = length cs"
  shows "selected (make_item cs L0files l1 k st) =
    {(cs ! i, j) | i j. i < length cs \<and> firsts ! i \<le> j \<and> j < firsts ! i + unat (ps_num st ! i)}"
proof -
  let ?c = "make_item cs L0files l1 k st" and ?n = "ps_num st"
  have len: "length firsts = length cs" using assms(1) by (simp add: tables_in_L0_def)
  note fm = find_metas_chosen [OF assms]
  have c: "cc_files ?c = chosen ?n cs" "cc_keys_num ?c = chosen ?n ?n" "L0compactionfiles ?c = find_metas L0files (chosen ?n cs)"
    by (simp_all add: make_item_def Let_def)
  have l: "length (chosen ?n cs) = length (filter (\<lambda>n. n \<noteq> 0) ?n)" "length (chosen ?n firsts) = length (filter (\<lambda>n. n \<noteq> 0) ?n)"
    "length (chosen ?n ?n) = length (filter (\<lambda>n. n \<noteq> 0) ?n)"
    using assms(2) len by (simp_all add: length_chosen)
  have sel: "(f, j) \<in> selected ?c \<longleftrightarrow>
      (\<exists>a m. (f, a, m) \<in> set (chosen ?n (zip cs (zip firsts ?n))) \<and> a \<le> j \<and> j < a + unat m)" for f j
  proof -
    have "unat (fm_first_key_index (L0compactionfiles ?c ! i)) = chosen ?n firsts ! i" if "i < length (chosen ?n cs)" for i
      using arg_cong [OF fm(2), of "\<lambda>xs. xs ! i"] fm(1) that by (simp add: c)
    then have "(f, j) \<in> selected ?c \<longleftrightarrow> (\<exists>i < length (chosen ?n cs). f = chosen ?n cs ! i \<and> chosen ?n firsts ! i \<le> j
        \<and> j < chosen ?n firsts ! i + unat (chosen ?n ?n ! i))"
      unfolding selected_def by (auto simp: c)
    also have "\<dots> \<longleftrightarrow> (\<exists>i < length (chosen ?n (zip cs (zip firsts ?n))).
        \<exists>a m. chosen ?n (zip cs (zip firsts ?n)) ! i = (f, a, m) \<and> a \<le> j \<and> j < a + unat m)"
      using l assms(2) len by (auto simp: chosen_zip cong: conj_cong)
    finally show ?thesis by (metis in_set_conv_nth)
  qed
  have "(f, j) \<in> selected ?c \<longleftrightarrow> (\<exists>i < length cs. ?n ! i \<noteq> 0 \<and> f = cs ! i \<and> firsts ! i \<le> j \<and> j < firsts ! i + unat (?n ! i))"
    for f j
    unfolding sel using assms(2) len by (auto simp: in_chosen_zip)
  moreover have "?n ! i \<noteq> 0" if "firsts ! i \<le> j" "j < firsts ! i + unat (?n ! i)" for i j using that by (auto simp: unat_eq_0)
  ultimately have "(f, j) \<in> selected ?c \<longleftrightarrow> (\<exists>i < length cs. f = cs ! i \<and> firsts ! i \<le> j \<and> j < firsts ! i + unat (?n ! i))"
    for f j by blast
  then show ?thesis by (intro set_eqI) (simp only: split_paired_all mem_Collect_eq prod.inject, blast)
qed

lemma note_largest_ok:
  assumes "Merge_Valid (ps_iter st) \<or> (\<exists>k. meta_at cs (ps_at st) = Inr k)"
  obtains st' where "note_largest cs st = Inr st'" and "ps_num st' = ps_num st" and "L1Range_index st' = L1Range_index st"
    and "counts cs ps n st' = counts cs ps n st"
proof (cases "all_comption_size st > 0 \<and> \<not> Merge_Valid (ps_iter st)")
  case True
  then obtain k where "meta_at cs (ps_at st) = Inr k" using assms by blast
  then show thesis using that True by (simp add: note_largest_def counts_def)
next
  case False
  then have "note_largest cs st = Inr st" unfolding note_largest_def by (rule if_not_P)
  then show thesis using that by blast
qed

definition merge_order :: "(slice \<Rightarrow> slice \<Rightarrow> int) \<Rightarrow> FileEntry list \<Rightarrow> nat list \<Rightarrow> (nat \<times> nat) list \<Rightarrow> bool" where
  "merge_order ucmp cs firsts ps \<longleftrightarrow>
     set ps = positions cs firsts \<and> distinct ps \<and> sorted_wrt (before ucmp cs) ps"

lemma counts_num:
  assumes tw: "three_way ucmp" and mi: "merge_input_ok ucmp cs firsts" and mo: "merge_order ucmp cs firsts ps"
    and small: "list_all (\<lambda>f. keys_num f < 2 ^ 64) cs" and c: "counts cs ps n st" and i: "i < length cs"
  shows "firsts ! i \<le> j \<and> j < firsts ! i + unat (ps_num st ! i) \<longleftrightarrow> (i, j) \<in> set (take n ps)"
    and "firsts ! i + unat (ps_num st ! i) \<le> keys_num (cs ! i)"
proof -
  let ?l = "length (filter (\<lambda>p. fst p = i) (take n ps))"
  have f: "filter (\<lambda>p. fst p = i) ps = map (Pair i) [firsts ! i..<keys_num (cs ! i)]"
    using filter_fst_positions [of ps cs firsts ucmp i] mo i merge_input_okD(4) [OF mi] tw three_way.cmp_refl [OF tw]
    by (simp add: merge_order_def)
  have le: "?l \<le> keys_num (cs ! i) - firsts ! i" by (rule prefix_positions(2) [OF f])
  also have "\<dots> < 2 ^ 64" using small i by (simp add: list_all_length less_imp_diff_less)
  finally have num: "unat (ps_num st ! i) = ?l"
    using c i by (simp add: counts_def unsigned_of_nat take_bit_nat_eq_self)
  show "firsts ! i \<le> j \<and> j < firsts ! i + unat (ps_num st ! i) \<longleftrightarrow> (i, j) \<in> set (take n ps)"
    unfolding num using prefix_positions(1) [OF f] by simp
  show "firsts ! i + unat (ps_num st ! i) \<le> keys_num (cs ! i)"
    unfolding num using le merge_input_okD(3) [OF mi i] by linarith
qed

lemma counts_selected:
  assumes tw: "three_way ucmp" and mi: "merge_input_ok ucmp cs firsts" and mo: "merge_order ucmp cs firsts ps"
    and small: "list_all (\<lambda>f. keys_num f < 2 ^ 64) cs" and L0: "tables_in_L0 L0files cs firsts"
    and c: "counts cs ps n st"
  shows "selected (make_item cs L0files l1 k st) = (\<lambda>(i, j). (cs ! i, j)) ` set (take n ps)"
proof -
  note eq = counts_num(1) [OF tw mi mo small c]
  have in_cs: "fst p < length cs" if "p \<in> set (take n ps)" for p
    using in_set_takeD [OF that] mo by (auto simp: merge_order_def positions_def)
  have "selected (make_item cs L0files l1 k st) =
      {(cs ! i, j) | i j. i < length cs \<and> firsts ! i \<le> j \<and> j < firsts ! i + unat (ps_num st ! i)}"
    using selected_make_item [OF L0] c by (simp add: counts_def)
  also have "\<dots> = {(cs ! i, j) | i j. i < length cs \<and> (i, j) \<in> set (take n ps)}"
    by (intro Collect_cong ex_cong1 conj_cong refl) (use eq in blast)
  also have "\<dots> = (\<lambda>(i, j). (cs ! i, j)) ` set (take n ps)" using in_cs by force
  finally show ?thesis .
qed

lemma pick_keys_spec:
  assumes tw: "three_way ucmp" and mi: "merge_input_ok ucmp cs firsts" and mo: "merge_order ucmp cs firsts ps" and ne: "ps \<noteq> []"
    and small: "list_all (\<lambda>f. keys_num f < 2 ^ 64) cs" and L0: "tables_in_L0 L0files cs firsts"
    and en: "enumerates ucmp it ps"
    and L1: "L1 \<noteq> [] \<Longrightarrow> boundaries_ok ucmp (L1_boundaries L1)
      \<and> ucmp (pkey cs (ps ! 0)) (ExtractUserKey (L1_boundaries L1 ! 1)) \<le> 0"
  obtains c n i l1 st' where "pick_keys opts ucmp cs L0files L1 k
      \<lparr>ps_iter = it, ps_at = Some (ps ! 0), ps_num = replicate (length cs) 0, ps_size = replicate (length cs) 0,
       all_comption_size = 0, L1Range_index = 0, ps_largest = []\<rparr> = Some (Inr c)"
    and "0 < n" and "n \<le> length ps" and "selected c = (\<lambda>(i, j). (cs ! i, j)) ` set (take n ps)"
    and "L1 = [] \<and> n < length ps \<longrightarrow> ucmp (pkey cs (ps ! (n - 1))) (pkey cs (ps ! n)) \<noteq> 0"
    and "L1compactionfiles c = take ((i + 1) div 2) L1" and "c = make_item cs L0files l1 k st'" and "counts cs ps n st'"
    and "L1 \<noteq> [] \<longrightarrow> list_all (\<lambda>p. bounded ucmp (L1_boundaries L1) i (pkey cs p)) (take n ps)"
proof -
  let ?st = "\<lparr>ps_iter = it, ps_at = Some (ps ! 0), ps_num = replicate (length cs) 0, ps_size = replicate (length cs) 0,
       all_comption_size = 0, L1Range_index = 0, ps_largest = []\<rparr>"
  have it: "in_tables cs ps" using mo by (auto simp: in_tables_def list_all_iff merge_order_def positions_def)
  have c0: "counts cs ps 0 ?st" by (simp add: counts_def)
  show thesis
  proof (cases "L1 = []")
    case True
    let ?body = "no_L1_step ucmp cs (compaction_size_stop (Column_compaction_no_L1_select_L0 opts) (target_file_size_base opts))"
    obtain n st where r: "run_loop ?body ?st = Some (Inr st)" "0 < n" "n \<le> length ps" "counts cs ps n st"
        "ps_at st = Some (ps ! (n - 1))" "n < length ps \<longrightarrow> ucmp (pkey cs (ps ! (n - 1))) (pkey cs (ps ! n)) \<noteq> 0"
      using no_L1_loop [OF it ne tw, where n = 0 and st = ?st and stop =
          "compaction_size_stop (Column_compaction_no_L1_select_L0 opts) (target_file_size_base opts)"] en c0 by auto
    have "n - 1 < length ps" using r(2,3) by simp
    then obtain st' where st': "note_largest cs st = Inr st'" "ps_num st' = ps_num st" "counts cs ps n st'"
      using note_largest_ok [of st cs ps n] r(4) meta_at_in_tables [OF it] r(5) by auto
    have "selected (make_item cs L0files l1 k st') = (\<lambda>(i, j). (cs ! i, j)) ` set (take n ps)" for l1
      using counts_selected [OF tw mi mo small L0 r(4)] selected_make_item [OF L0] st'(2) r(4) by (simp add: counts_def)
    then show thesis
      using that [of "make_item cs L0files [] k st'" n 0 "[]" st'] r True st'(1,3)
      by (simp add: pick_keys_def make_item_def Let_def)
  next
    case False
    let ?rs = "L1_boundaries L1"
    let ?body = "have_L1_step ucmp cs ?rs (compaction_size_stop (Column_compaction_have_L1_select_L0 opts) (target_file_size_base opts))"
    have "2 \<le> length ?rs" using False by (cases L1) (simp_all add: L1_boundaries_def)
    then obtain n st where r: "run_loop ?body ?st = Some (Inr st)" "0 < n" "n \<le> length ps" "counts cs ps n st"
        "list_all (\<lambda>p. bounded ucmp ?rs (L1Range_index st) (pkey cs p)) (take n ps)"
        "Merge_Valid (ps_iter st) \<or> n = length ps \<and> ps_at st = Some (last ps)"
      using have_L1_loop [OF it tw _ _ _ ne, where rs = ?rs and n = 0 and st = ?st and stop =
          "compaction_size_stop (Column_compaction_have_L1_select_L0 opts) (target_file_size_base opts)"] ne en c0 L1 [OF False]
      by auto
    have "meta_at cs (Some (last ps)) = Inr (keys_meta (cs ! fst (last ps)) ! snd (last ps))"
      using meta_at_in_tables [OF it, of "length ps - 1"] ne by (simp add: last_conv_nth)
    then obtain st' where st': "note_largest cs st = Inr st'" "ps_num st' = ps_num st" "L1Range_index st' = L1Range_index st" "counts cs ps n st'"
      using note_largest_ok [of st cs ps n] r(4,6) by metis
    have "selected (make_item cs L0files l1 k st') = (\<lambda>(i, j). (cs ! i, j)) ` set (take n ps)" for l1
      using counts_selected [OF tw mi mo small L0 r(4)] selected_make_item [OF L0] st'(2) r(4) by (simp add: counts_def)
    then show thesis
      using that [of "make_item cs L0files (take ((L1Range_index st + 1) div 2) L1) k st'" n "L1Range_index st"
          "take ((L1Range_index st + 1) div 2) L1" st'] r False st'(1,3,4)
      by (simp add: pick_keys_def make_item_def Let_def)
  qed
qed

section \<open>The whole selection\<close>

lemma find_distinct_number:
  "distinct (map num L) \<Longrightarrow> g \<in> set L \<Longrightarrow> find (\<lambda>h. num h = num g) L = Some g"
  by (induction L) auto

lemma find_forward_filenum: "find_forward fs n = Some f \<Longrightarrow> filenum f = n"
  by (induction fs) (auto split: if_splits)

lemma FindFile_filenum: "FindFile m n fwd = Some f \<Longrightarrow> filenum f = n"
  by (auto simp: FindFile_def dest: find_forward_filenum split: if_splits)

lemma compaction_tables_spec:
  assumes "distinct (map file_number L)" and "subseq ns (map file_number L)"
    and "\<And>n. n \<in> set ns \<Longrightarrow> FindFile m n True \<noteq> None"
  shows "\<exists>cs firsts. compaction_tables m ns L = Inr (Some (cs, firsts)) \<and> length cs = length ns \<and> length firsts = length ns
    \<and> (\<forall>i < length ns. FindFile m (ns ! i) True = Some (cs ! i)
         \<and> (\<exists>g \<in> set L. file_number g = ns ! i \<and> firsts ! i = unat (fm_first_key_index g)))"
  using assms
proof (induction ns arbitrary: L)
  case (Cons n ns)
  obtain f where f: "FindFile m n True = Some f" using Cons.prems(3) by force
  obtain L1 g L2 where L: "L = L1 @ g # L2" "file_number g = n" "subseq ns (map file_number L2)"
    using list_emb_ConsD [OF Cons.prems(2)] by (auto simp: map_eq_append_conv map_eq_Cons_conv)
  have d: "distinct (map file_number L2)" "n \<notin> set (map file_number L1)" using Cons.prems(1) L(1,2) by auto
  obtain cs firsts where IH: "compaction_tables m ns L2 = Inr (Some (cs, firsts))" "length cs = length ns" "length firsts = length ns"
      "\<forall>i < length ns. FindFile m (ns ! i) True = Some (cs ! i)
         \<and> (\<exists>g \<in> set L2. file_number g = ns ! i \<and> firsts ! i = unat (fm_first_key_index g))"
    using Cons.IH [OF d(1) L(3)] Cons.prems(3) by auto
  have "dropWhile (\<lambda>g. file_number g \<noteq> filenum f) L = g # L2"
    using d(2) L(2) FindFile_filenum [OF f] unfolding L(1) by (subst dropWhile_append2) (auto simp: image_iff)
  then have "compaction_tables m (n # ns) L = Inr (Some (f # cs, unat (fm_first_key_index g) # firsts))"
    using f IH(1) by simp
  then show ?case using IH(2-4) f L by (auto simp: nth_Cons split: nat.splits)
qed simp

definition column_input_ok :: "(slice \<Rightarrow> slice \<Rightarrow> int) \<Rightarrow> NvmCfModule \<Rightarrow> VersionStorageInfo \<Rightarrow> bool" where
  "column_input_ok ucmp m v \<longleftrightarrow>
     LevelFiles v 0 \<noteq> [] \<and> distinct (map file_number (LevelFiles v 0))
     \<and> suffix (compaction_files (nm_meta m)) (map file_number (LevelFiles v 0))
     \<and> (\<forall>g \<in> set (LevelFiles v 0).
          case FindFile (nm_meta m) (file_number g) True of
            None \<Rightarrow> False
          | Some f \<Rightarrow> user_sorted ucmp f \<and> unat (fm_first_key_index g) < keys_num f \<and> int (keys_num f) < 2 ^ 64
              \<and> list_all (\<lambda>k. ExtractInternalKeyFooter (km_key k) < kRangeTombstoneSentinel) (keys_meta f))
     \<and> (if num_non_empty_levels v \<le> 1 then LevelFiles v 1 = [] else level_ok ucmp (LevelFiles v 1))
     \<and> sorted_wrt (\<lambda>f g. ucmp (ExtractUserKey (fm_largest f)) (ExtractUserKey (fm_smallest g)) < 0) (LevelFiles v 1)"

text \<open>The tables that are found, as the merge and the item need them.\<close>

lemma column_tables:
  assumes "column_input_ok ucmp m v"
  obtains m' cs firsts where
    "UpdateCompactionState (nm_meta m) (map file_number (LevelFiles v 0)) = Inr m'"
    and "compaction_files m' \<noteq> []"
    and "compaction_tables m' (compaction_files m') (LevelFiles v 0) = Inr (Some (cs, firsts))"
    and "cs \<noteq> []" and "merge_input_ok ucmp cs firsts" and "tables_in_L0 (LevelFiles v 0) cs firsts"
    and "list_all (\<lambda>f. keys_num f < 2 ^ 64) cs"
    and "list_all (\<lambda>f. list_all (\<lambda>k. ExtractInternalKeyFooter (km_key k) < kRangeTombstoneSentinel) (keys_meta f)) cs"
    and "distinct (map filenum cs)" and "list_all (\<lambda>f. FindFile (nm_meta m) (filenum f) True = Some f) cs"
proof -
  let ?L = "LevelFiles v 0" and ?ns = "map file_number (LevelFiles v 0)"
  note ok = assms [unfolded column_input_ok_def]
  obtain m' where m': "UpdateCompactionState (nm_meta m) ?ns = Inr m'" "suffix (compaction_files m') ?ns"
      "compaction_files m' \<noteq> []" "files m' = files (nm_meta m)"
    using ok by (cases "compaction_files (nm_meta m) = []") (auto simp: UpdateCompactionState_cases)
  let ?cf = "compaction_files m'"
  have find: "FindFile m' n True = FindFile (nm_meta m) n True" for n using m'(4) by (simp add: FindFile_def)
  have sub: "set ?cf \<subseteq> set ?ns" by (rule set_mono_suffix [OF m'(2)])
  have some: "FindFile m' n True \<noteq> None" if "n \<in> set ?cf" for n
    using that sub ok by (auto simp: find split: option.splits)
  obtain cs firsts where c: "compaction_tables m' ?cf ?L = Inr (Some (cs, firsts))" "length cs = length ?cf" "length firsts = length ?cf"
      "\<forall>i < length ?cf. FindFile m' (?cf ! i) True = Some (cs ! i)
         \<and> (\<exists>g \<in> set ?L. file_number g = ?cf ! i \<and> firsts ! i = unat (fm_first_key_index g))"
    using compaction_tables_spec [of ?L ?cf m'] ok m'(2) some by (auto dest: suffix_imp_subseq)
  have each: "user_sorted ucmp (cs ! i) \<and> firsts ! i < keys_num (cs ! i) \<and> keys_num (cs ! i) < 2 ^ 64
      \<and> list_all (\<lambda>k. ExtractInternalKeyFooter (km_key k) < kRangeTombstoneSentinel) (keys_meta (cs ! i))
      \<and> (\<exists>g. find (\<lambda>g. file_number g = filenum (cs ! i)) ?L = Some g \<and> unat (fm_first_key_index g) = firsts ! i)"
    if i: "i < length cs" for i
  proof -
    obtain g where g: "FindFile m' (?cf ! i) True = Some (cs ! i)" "g \<in> set ?L" "file_number g = ?cf ! i"
        "firsts ! i = unat (fm_first_key_index g)" using c i by auto
    have "find (\<lambda>g. file_number g = filenum (cs ! i)) ?L = Some g"
      using find_distinct_number [of file_number ?L g] ok g FindFile_filenum [OF g(1)] by simp
    moreover have "case FindFile (nm_meta m) (file_number g) True of
            None \<Rightarrow> False
          | Some f \<Rightarrow> user_sorted ucmp f \<and> unat (fm_first_key_index g) < keys_num f \<and> int (keys_num f) < 2 ^ 64
              \<and> list_all (\<lambda>k. ExtractInternalKeyFooter (km_key k) < kRangeTombstoneSentinel) (keys_meta f)"
      using ok g(2) by blast
    ultimately show ?thesis using g by (simp add: find)
  qed
  have tab: "FindFile (nm_meta m) (filenum (cs ! i)) True = Some (cs ! i)" "filenum (cs ! i) = ?cf ! i" if "i < length cs" for i
    using c(2,4) that FindFile_filenum by (auto simp: find)
  have "map filenum cs = ?cf" using tab(2) c(2) by (intro nth_equalityI) auto
  moreover have "distinct ?cf" using ok m'(2) by (metis distinct_append suffix_def)
  ultimately have dist: "distinct (map filenum cs)" by simp
  show thesis
    by (rule that [OF m'(1,3) c(1) _ _ _ _ _ dist])
      (use each tab(1) c(2,3) m'(3) in \<open>auto simp: merge_input_ok_def tables_in_L0_def list_all_length list_all2_conv_all_nth\<close>)
qed

lemma L1_boundaries_nth:
  "length (L1_boundaries fs) = 2 * length fs"
  "i < length fs \<Longrightarrow> L1_boundaries fs ! (2 * i) = fm_smallest (fs ! i)"
  "i < length fs \<Longrightarrow> L1_boundaries fs ! Suc (2 * i) = fm_largest (fs ! i)"
proof -
  show len: "length (L1_boundaries fs) = 2 * length fs" by (induction fs) (simp_all add: L1_boundaries_def)
  show "i < length fs \<Longrightarrow> L1_boundaries fs ! (2 * i) = fm_smallest (fs ! i)"
  proof (induction fs arbitrary: i)
    case (Cons f fs)
    then show ?case by (cases i) (simp_all add: L1_boundaries_def)
  qed simp
  show "i < length fs \<Longrightarrow> L1_boundaries fs ! Suc (2 * i) = fm_largest (fs ! i)"
  proof (induction fs arbitrary: i)
    case (Cons f fs)
    then show ?case by (cases i) (simp_all add: L1_boundaries_def)
  qed simp
qed

lemma L1_boundaries_ok:
  assumes "sorted_wrt (\<lambda>f g. ucmp (ExtractUserKey (fm_largest f)) (ExtractUserKey (fm_smallest g)) < 0) fs"
    and "list_all (\<lambda>f. ucmp (ExtractUserKey (fm_smallest f)) (ExtractUserKey (fm_largest f)) \<le> 0) fs"
  shows "boundaries_ok ucmp (L1_boundaries fs)"
  unfolding boundaries_ok_def
proof (intro conjI allI impI)
  show "even (length (L1_boundaries fs))" by (simp add: L1_boundaries_nth)
  fix i assume i: "Suc i < length (L1_boundaries fs)"
  show "if even i then ucmp (ExtractUserKey (L1_boundaries fs ! i)) (ExtractUserKey (L1_boundaries fs ! Suc i)) \<le> 0
        else ucmp (ExtractUserKey (L1_boundaries fs ! i)) (ExtractUserKey (L1_boundaries fs ! Suc i)) < 0"
  proof (cases "even i")
    case True
    then obtain k where k: "i = 2 * k" by blast
    then have "k < length fs" using i by (simp add: L1_boundaries_nth)
    then show ?thesis using k assms(2) by (simp add: L1_boundaries_nth list_all_length)
  next
    case False
    then obtain k where k: "i = Suc (2 * k)" using oddE by (metis Suc_eq_plus1)
    then have "Suc k < length fs" "Suc i = 2 * Suc k" using i by (simp_all add: L1_boundaries_nth)
    then show ?thesis using k assms(1) L1_boundaries_nth(2) [of "Suc k" fs] by (simp add: L1_boundaries_nth sorted_wrt_iff_nth_less)
  qed
qed

text \<open>A file of level 1 is apart from a set of keys: before all of them or after all of them.\<close>

definition apart :: "(slice \<Rightarrow> slice \<Rightarrow> int) \<Rightarrow> FileMetaData \<Rightarrow> (FileEntry \<times> nat) set \<Rightarrow> bool" where
  "apart ucmp h S \<longleftrightarrow>
     (\<forall>(f, j) \<in> S. sstableKeyCompare ucmp (km_key (keys_meta f ! j)) (fm_smallest h) < 0)
     \<or> (\<forall>(f, j) \<in> S. sstableKeyCompare ucmp (fm_largest h) (km_key (keys_meta f ! j)) < 0)"

text \<open>What a run of the picker comes to: the item \<open>c\<close> takes the first \<open>n\<close> keys of the merge order \<open>ps\<close> of the tables \<open>cs\<close>.\<close>

definition picked where
  "picked ucmp opts m v m' c cs firsts ps n \<longleftrightarrow>
     PickColumnCompaction opts ucmp m v = Some (Inr (m', Some c))
     \<and> compaction_tables (nm_meta m') (compaction_files (nm_meta m')) (LevelFiles v 0) = Inr (Some (cs, firsts))
     \<and> merge_order ucmp cs firsts ps \<and> 0 < n \<and> n \<le> length ps
     \<and> selected c = (\<lambda>(i, j). (cs ! i, j)) ` set (take n ps)
     \<and> (LevelFiles v 1 = [] \<and> n < length ps \<longrightarrow> ucmp (pkey cs (ps ! (n - 1))) (pkey cs (ps ! n)) \<noteq> 0)
     \<and> set (L1compactionfiles c) \<subseteq> set (LevelFiles v 1) \<and> distinct (L1compactionfiles c)
     \<and> (\<forall>h \<in> set (LevelFiles v 1) - set (L1compactionfiles c). apart ucmp h (selected c))
     \<and> (\<exists>l1 k st. c = make_item cs (LevelFiles v 0) l1 k st \<and> counts cs ps n st)
     \<and> tables_in_L0 (LevelFiles v 0) cs firsts \<and> merge_input_ok ucmp cs firsts
     \<and> list_all (\<lambda>f. keys_num f < 2 ^ 64) cs \<and> distinct (map filenum cs)
     \<and> list_all (\<lambda>f. FindFile (nm_meta m) (filenum f) True = Some f) cs"

context user_comparator
begin

lemma sk_of_ucmp:
  "ucmp (ExtractUserKey a) (ExtractUserKey b) < 0 \<Longrightarrow> sstableKeyCompare ucmp a b < 0"
  by (simp add: sstableKeyCompare_def Let_def)

lemma sk_table_keys:
  assumes "ucmp (ExtractUserKey a) (ExtractUserKey b) \<le> 0"
    and "ExtractInternalKeyFooter a < kRangeTombstoneSentinel" and "ExtractInternalKeyFooter b < kRangeTombstoneSentinel"
  shows "sstableKeyCompare ucmp a b \<le> 0"
  using assms by (auto simp: sstableKeyCompare_def Let_def)

lemma ucmp_of_sk: "sstableKeyCompare ucmp a b \<le> 0 \<Longrightarrow> ucmp (ExtractUserKey a) (ExtractUserKey b) \<le> 0"
  by (auto simp: sstableKeyCompare_def Let_def split: if_splits)

text \<open>The files of level 1 behind the last boundary that was passed.\<close>

lemma apart_unchosen:
  assumes rs: "boundaries_ok ucmp (L1_boundaries fs)"
    and b: "list_all (\<lambda>p. bounded ucmp (L1_boundaries fs) i (pkey cs p)) qs"
    and h: "h \<in> set fs" "h \<notin> set (take ((i + 1) div 2) fs)"
  shows "apart ucmp h ((\<lambda>(i, j). (cs ! i, j)) ` set qs)"
proof -
  obtain k where k: "k < length fs" "h = fs ! k" using h(1) by (auto simp: in_set_conv_nth)
  then have "(i + 1) div 2 \<le> k" using h(2) by (metis in_set_conv_nth length_take min_less_iff_conj not_le nth_take)
  then have ik: "i \<le> 2 * k" by linarith
  have "ucmp (pkey cs p) (ExtractUserKey (fm_smallest h)) < 0" if "p \<in> set qs" for p
    using bounded_mono [OF three_way_axioms rs _ ik, of "pkey cs p"] b that k
    by (simp add: list_all_iff bounded_def L1_boundaries_nth)
  then have "sstableKeyCompare ucmp (km_key (keys_meta (cs ! fst p) ! snd p)) (fm_smallest h) < 0" if "p \<in> set qs" for p
    using that by (intro sk_of_ucmp) (simp add: ukey_pkey)
  then show ?thesis by (auto simp: apart_def)
qed

text \<open>The files of level 1 outside the range of the keys.\<close>

lemma apart_outside:
  assumes "\<not> overlaps ucmp (Some (tkey a)) (Some (tkey z)) h"
    and "\<And>p. p \<in> set qs \<Longrightarrow> ucmp (pkey cs a) (pkey cs p) \<le> 0 \<and> ucmp (pkey cs p) (pkey cs z) \<le> 0"
    and "\<And>p. p \<in> insert a (insert z (set qs)) \<Longrightarrow> ExtractInternalKeyFooter (tkey p) < kRangeTombstoneSentinel"
    and tkey: "tkey = (\<lambda>p. km_key (keys_meta (cs ! fst p) ! snd p))"
  shows "apart ucmp h ((\<lambda>(i, j). (cs ! i, j)) ` set qs)"
proof -
  have sk: "sstableKeyCompare ucmp (tkey a) (tkey p) \<le> 0 \<and> sstableKeyCompare ucmp (tkey p) (tkey z) \<le> 0" if "p \<in> set qs" for p
    using assms(2) [OF that] assms(3) that by (intro conjI sk_table_keys) (auto simp: tkey ukey_pkey)
  consider "sstableKeyCompare ucmp (tkey a) (fm_largest h) > 0" | "sstableKeyCompare ucmp (fm_smallest h) (tkey z) > 0"
    using assms(1) by (force simp: overlaps_def sstableKeyCompare_begin_def sstableKeyCompare_end_def)
  then show ?thesis
  proof cases
    case 1
    then have "sstableKeyCompare ucmp (fm_largest h) (tkey a) < 0" using sk.cmp_swap by blast
    then have "sstableKeyCompare ucmp (fm_largest h) (tkey p) < 0" if "p \<in> set qs" for p
      using sk [OF that] sk.cmp_less_le_trans by blast
    then show ?thesis by (auto simp: apart_def tkey)
  next
    case 2
    then have "sstableKeyCompare ucmp (tkey z) (fm_smallest h) < 0" using sk.cmp_swap by blast
    then have "sstableKeyCompare ucmp (tkey p) (fm_smallest h) < 0" if "p \<in> set qs" for p
      using sk [OF that] sk.cmp_le_less_trans by blast
    then show ?thesis by (auto simp: apart_def tkey)
  qed
qed

lemma L1_overlap_files:
  assumes "if num_non_empty_levels v \<le> 1 then LevelFiles v 1 = [] else level_ok ucmp (LevelFiles v 1)"
  obtains r where "GetOverlappingInputs ucmp v 1 b e [] (-1) True = Inr r"
    and "ov_inputs r = filter (overlaps ucmp b e) (LevelFiles v 1)"
proof (cases "num_non_empty_levels v \<le> 1")
  case True
  then show thesis using that assms by (simp add: GetOverlappingInputs_def)
next
  case False
  then show thesis
    using that assms overlapping_search_exact [of "LevelFiles v 1" b e] by (auto simp: GetOverlappingInputs_def)
qed

lemma L1_overlap_boundaries:
  assumes "column_input_ok ucmp m v" and fs: "fs = filter (overlaps ucmp (Some k) e) (LevelFiles v 1)" and "fs \<noteq> []"
  shows "boundaries_ok ucmp (L1_boundaries fs) \<and> ucmp (ExtractUserKey k) (ExtractUserKey (L1_boundaries fs ! 1)) \<le> 0"
proof
  have ok: "level_ok ucmp (LevelFiles v 1)" and
    srt: "sorted_wrt (\<lambda>f g. ucmp (ExtractUserKey (fm_largest f)) (ExtractUserKey (fm_smallest g)) < 0) (LevelFiles v 1)"
    using assms by (auto simp: column_input_ok_def split: if_splits)
  have "ucmp (ExtractUserKey (fm_smallest f)) (ExtractUserKey (fm_largest f)) \<le> 0" if "f \<in> set (LevelFiles v 1)" for f
    using file_sk(1) [OF ok] that ucmp_of_sk by (metis in_set_conv_nth)
  then show "boundaries_ok ucmp (L1_boundaries fs)"
    using srt by (intro L1_boundaries_ok) (simp_all add: fs list_all_iff sorted_wrt_filter)
  have "fs ! 0 \<in> set fs" using assms(3) by simp
  then have "overlaps ucmp (Some k) e (fs ! 0)" by (simp add: fs)
  then show "ucmp (ExtractUserKey k) (ExtractUserKey (L1_boundaries fs ! 1)) \<le> 0"
    using ucmp_of_sk [of k "fm_largest (fs ! 0)"] L1_boundaries_nth(3) [of 0 fs] assms(3)
    by (simp add: overlaps_def sstableKeyCompare_begin_def)
qed

lemma disjoint_files_distinct:
  assumes "sorted_wrt (\<lambda>f g. InternalKeyComparator_Compare ucmp (fm_largest f) (fm_smallest g) < 0) fs"
    and "list_all (\<lambda>f. InternalKey_Valid (fm_largest f) \<and> ExtractInternalKeyFooter (fm_smallest f) < kRangeTombstoneSentinel
        \<and> InternalKeyComparator_Compare ucmp (fm_smallest f) (fm_largest f) \<le> 0) fs"
  shows "distinct fs"
  using assms
proof (induction fs)
  case (Cons f fs)
  have "f \<notin> set fs"
  proof
    assume "f \<in> set fs"
    then have "InternalKeyComparator_Compare ucmp (fm_largest f) (fm_smallest f) < 0"
      and "InternalKeyComparator_Compare ucmp (fm_smallest f) (fm_largest f) \<le> 0" using Cons.prems by auto
    then show False using ikc.cmp_swap [of "fm_largest f" "fm_smallest f"] by simp
  qed
  then show ?case using Cons by simp
qed simp

lemma pick_column_spec:
  assumes ok: "column_input_ok ucmp m v"
  shows "\<exists>m' c cs firsts ps n. picked ucmp opts m v m' c cs firsts ps n"
proof -
  let ?L0 = "LevelFiles v 0"
  note tw = three_way_axioms
  obtain m0 cs firsts where t: "UpdateCompactionState (nm_meta m) (map file_number ?L0) = Inr m0" "compaction_files m0 \<noteq> []"
      "compaction_tables m0 (compaction_files m0) ?L0 = Inr (Some (cs, firsts))" "cs \<noteq> []" and mi: "merge_input_ok ucmp cs firsts"
      and L0: "tables_in_L0 ?L0 cs firsts" and small: "list_all (\<lambda>f. keys_num f < 2 ^ 64) cs"
      and foot: "list_all (\<lambda>f. list_all (\<lambda>k. ExtractInternalKeyFooter (km_key k) < kRangeTombstoneSentinel) (keys_meta f)) cs"
      and dist: "distinct (map filenum cs)" and fnd: "list_all (\<lambda>f. FindFile (nm_meta m) (filenum f) True = Some f) cs"
    by (rule column_tables [OF ok])
  define tkey where "tkey = (\<lambda>p. km_key (keys_meta (cs ! fst p) ! snd p))"
  have meta: "meta_at cs (Some p) = Inr (keys_meta (cs ! fst p) ! snd p)"
      "ExtractInternalKeyFooter (tkey p) < kRangeTombstoneSentinel" if "p \<in> positions cs firsts" for p
    using that foot by (auto simp: positions_def meta_at_def tkey_def list_all_length keys_num_def)
  let ?it0 = "KeysMergeIterator_new cs firsts"
  obtain l z where l: "Merge_SeekToLast ucmp ?it0 = Inr l" "Merge_Valid l" "GetCurret l = Inr z" "mi_files l = cs" "mi_firsts l = firsts"
      "z \<in> positions cs firsts" "\<forall>q \<in> positions cs firsts. ucmp (pkey cs q) (pkey cs z) \<le> 0"
    using SeekToLast_largest [OF tw mi _ t(4), of ?it0] by (auto simp: KeysMergeIterator_new_def)
  obtain it ps where p: "Merge_SeekToFirst ucmp l = Inr it" "enumerates ucmp it ps" and mo: "merge_order ucmp cs firsts ps"
    using SeekToFirst_enumerates [OF tw mi l(4,5)] by (auto simp: merge_order_def)
  have ps: "set ps = positions cs firsts" "ps \<noteq> []" using mo l(6) by (auto simp: merge_order_def)
  then have a: "ps ! 0 \<in> positions cs firsts" by (metis length_greater_0_conv nth_mem)
  have it: "Merge_Valid it" "GetCurret it = Inr (ps ! 0)" using p(2) ps(2) by (cases ps; simp)+
  have first: "ucmp (pkey cs (ps ! 0)) (pkey cs q) \<le> 0" if "q \<in> set ps" for q
  proof (cases ps)
    case (Cons p0 ps')
    then have "q = p0 \<or> before ucmp cs p0 q" using mo that by (auto simp: merge_order_def)
    then show ?thesis using Cons by (auto simp: before_def)
  qed (use ps(2) in simp)
  define L1 where "L1 = filter (overlaps ucmp (Some (tkey (ps ! 0))) (Some (tkey z))) (LevelFiles v 1)"
  obtain r where r: "GetOverlappingInputs ucmp v 1 (Some (tkey (ps ! 0))) (Some (tkey z)) [] (-1) True = Inr r" "ov_inputs r = L1"
    using L1_overlap_files [of v] ok unfolding L1_def column_input_ok_def by blast
  have L1: "L1 \<noteq> [] \<Longrightarrow> boundaries_ok ucmp (L1_boundaries L1)
      \<and> ucmp (pkey cs (ps ! 0)) (ExtractUserKey (L1_boundaries L1 ! 1)) \<le> 0"
    using L1_overlap_boundaries [OF ok L1_def] by (simp add: tkey_def ukey_pkey)
  obtain c n i l1 st' where k: "pick_keys opts ucmp cs ?L0 L1 (tkey (ps ! 0))
      \<lparr>ps_iter = it, ps_at = Some (ps ! 0), ps_num = replicate (length cs) 0, ps_size = replicate (length cs) 0,
       all_comption_size = 0, L1Range_index = 0, ps_largest = []\<rparr> = Some (Inr c)"
    and n: "0 < n" "n \<le> length ps" and sel: "selected c = (\<lambda>(i, j). (cs ! i, j)) ` set (take n ps)"
    and cut: "L1 = [] \<and> n < length ps \<longrightarrow> ucmp (pkey cs (ps ! (n - 1))) (pkey cs (ps ! n)) \<noteq> 0"
    and L1c: "L1compactionfiles c = take ((i + 1) div 2) L1" and mk: "c = make_item cs ?L0 l1 (tkey (ps ! 0)) st'"
    and cn: "counts cs ps n st'"
    and b: "L1 \<noteq> [] \<longrightarrow> list_all (\<lambda>p. bounded ucmp (L1_boundaries L1) i (pkey cs p)) (take n ps)"
    by (rule pick_keys_spec [OF tw mi mo ps(2) small L0 p(2) L1, where opts = opts and k = "tkey (ps ! 0)"])
  have pick: "PickColumnCompaction opts ucmp m v = Some (Inr (m\<lparr>nm_meta := m0\<rparr>, Some c))"
    using t l(1-3) p(1) it r k meta(1) [OF l(6)] meta(1) [OF a]
    by (simp add: PickColumnCompaction_def Let_def key_at_valid_def tkey_def)
  have sub: "set (take n ps) \<subseteq> positions cs firsts" using ps(1) by (auto dest: in_set_takeD)
  have ap: "apart ucmp h (selected c)" if h: "h \<in> set (LevelFiles v 1)" "h \<notin> set (L1compactionfiles c)" for h
  proof (cases "h \<in> set L1")
    case True
    then have "L1 \<noteq> []" by auto
    then show ?thesis using apart_unchosen L1 b h(2) True unfolding sel L1c by blast
  next
    case False
    then have "\<not> overlaps ucmp (Some (tkey (ps ! 0))) (Some (tkey z)) h" using h(1) by (simp add: L1_def)
    then show ?thesis unfolding sel
      by (rule apart_outside [OF _ _ _ tkey_def]) (use first l(7) ps(1) sub meta(2) meta(2) [OF a] meta(2) [OF l(6)] in \<open>auto\<close>)
  qed
  have "distinct (LevelFiles v 1)"
    using ok by (auto simp: column_input_ok_def level_ok_def split: if_splits intro: disjoint_files_distinct)
  then have "distinct (L1compactionfiles c)" by (simp add: L1c L1_def)
  moreover have "LevelFiles v 1 = [] \<and> n < length ps \<longrightarrow> ucmp (pkey cs (ps ! (n - 1))) (pkey cs (ps ! n)) \<noteq> 0"
    using cut by (simp add: L1_def)
  moreover have "set (L1compactionfiles c) \<subseteq> set (LevelFiles v 1)" by (auto simp: L1c L1_def dest: in_set_takeD)
  moreover have "\<forall>h \<in> set (LevelFiles v 1) - set (L1compactionfiles c). apart ucmp h (selected c)" using ap by blast
  moreover have "compaction_tables (nm_meta (m\<lparr>nm_meta := m0\<rparr>)) (compaction_files (nm_meta (m\<lparr>nm_meta := m0\<rparr>))) ?L0 =
      Inr (Some (cs, firsts))" using t(3) by simp
  moreover have "\<exists>l1 k st. c = make_item cs ?L0 l1 k st \<and> counts cs ps n st" using mk cn by blast
  ultimately have "picked ucmp opts m v (m\<lparr>nm_meta := m0\<rparr>) c cs firsts ps n"
    unfolding picked_def by (intro conjI pick mo n sel L0 mi small dist fnd)
  then show ?thesis by blast
qed

end

section \<open>The edit\<close>

lemma chosen_index:
  assumes "length num = length xs"
  shows "chosen num xs = map ((!) xs) (filter (\<lambda>i. num ! i \<noteq> 0) [0..<length xs])"
proof -
  have "zip num xs = map (\<lambda>i. (num ! i, xs ! i)) [0..<length xs]"
    using assms by (intro nth_equalityI) auto
  then show ?thesis by (simp add: chosen_def filter_map comp_def)
qed

text \<open>The item fits the tables: its lists run in parallel, and it takes live keys.\<close>

definition item_ok :: "SstableMetadata \<Rightarrow> FileMetaData list \<Rightarrow> ColumnCompactionItem \<Rightarrow> bool" where
  "item_ok m L0files c \<longleftrightarrow>
     length (cc_keys_num c) = length (cc_files c) \<and> length (cc_keys_size c) = length (cc_files c)
     \<and> length (L0compactionfiles c) = length (cc_files c) \<and> distinct (map filenum (cc_files c))
     \<and> (\<forall>i < length (cc_files c).
          find (\<lambda>g. file_number g = filenum (cc_files c ! i)) L0files = Some (L0compactionfiles c ! i)
          \<and> FindFile m (filenum (cc_files c ! i)) True = Some (cc_files c ! i)
          \<and> unat (fm_first_key_index (L0compactionfiles c ! i)) + unat (cc_keys_num c ! i) \<le> keys_num (cc_files c ! i)
          \<and> keys_num (cc_files c ! i) < 2 ^ 64)"

lemma make_item_ok:
  assumes L0: "tables_in_L0 L0files cs firsts" and fnd: "list_all (\<lambda>f. FindFile m (filenum f) True = Some f) cs"
    and d: "distinct (map filenum cs)" and small: "list_all (\<lambda>f. keys_num f < 2 ^ 64) cs"
    and len: "length (ps_num st) = length cs" "length (ps_size st) = length cs"
    and num: "\<And>i. i < length cs \<Longrightarrow> firsts ! i + unat (ps_num st ! i) \<le> keys_num (cs ! i)"
  shows "item_ok m L0files (make_item cs L0files l1 k st)"
proof -
  let ?c = "make_item cs L0files l1 k st"
  define J where "J = filter (\<lambda>i. ps_num st ! i \<noteq> 0) [0..<length cs]"
  define g where "g i = the (find (\<lambda>g. file_number g = filenum (cs ! i)) L0files)" for i
  have J: "i < length cs" if "i \<in> set J" for i using that by (simp add: J_def)
  have g: "find (\<lambda>g. file_number g = filenum (cs ! i)) L0files = Some (g i)" "unat (fm_first_key_index (g i)) = firsts ! i"
    if "i < length cs" for i using L0 that by (auto simp: tables_in_L0_def g_def)
  have lists: "cc_files ?c = map ((!) cs) J" "cc_keys_num ?c = map ((!) (ps_num st)) J" "cc_keys_size ?c = map ((!) (ps_size st)) J"
    using len by (simp_all add: make_item_def Let_def chosen_index J_def)
  have "find_metas L0files (map ((!) cs) I) = map g I" if "set I \<subseteq> {..<length cs}" for I
    using that g(1) by (induction I) (simp_all add: find_metas_def List.map_filter_def)
  then have meta: "L0compactionfiles ?c = map g J"
    using lists(1) J by (auto simp: make_item_def Let_def)
  have "inj_on ((!) (map filenum cs)) {..<length cs}" by (rule inj_on_nth [OF d]) simp
  then have "inj_on (\<lambda>i. filenum (cs ! i)) {..<length cs}"
    using inj_on_cong [of "{..<length cs}" "(!) (map filenum cs)" "\<lambda>i. filenum (cs ! i)"] by simp
  then have "distinct (map filenum (cc_files ?c))"
    using J by (auto simp: lists distinct_map comp_def J_def intro: inj_on_subset)
  then show ?thesis
    using fnd small g num J nth_mem [of _ J] by (simp add: item_ok_def lists meta list_all_length)
qed

lemma picked_item_ok:
  assumes "three_way ucmp" and "picked ucmp opts m v m' c cs firsts ps n"
  shows "item_ok (nm_meta m) (LevelFiles v 0) c"
proof -
  note p = assms(2) [unfolded picked_def]
  obtain l1 k st where c: "c = make_item cs (LevelFiles v 0) l1 k st" "counts cs ps n st" using p by blast
  show ?thesis
    unfolding c(1) using p c(2) counts_num(2) [OF assms(1) _ _ _ c(2)]
    by (intro make_item_ok) (auto simp: counts_def)
qed

text \<open>The file that stands for the rest of a table.\<close>

definition rest_meta :: "ColumnCompactionItem \<Rightarrow> nat \<Rightarrow> FileMetaData" where
  "rest_meta c i =
     (let g = L0compactionfiles c ! i; first = fm_first_key_index g + cc_keys_num c ! i
      in g\<lparr>fm_fd := (fm_fd g)\<lparr>fd_file_size := fd_file_size (fm_fd g) - cc_keys_size c ! i\<rparr>,
            fm_smallest := km_key (keys_meta (cc_files c ! i) ! unat first), fm_first_key_index := first\<rparr>)"

definition used_up :: "ColumnCompactionItem \<Rightarrow> nat \<Rightarrow> bool" where
  "used_up c i \<longleftrightarrow>
     unat (fm_first_key_index (L0compactionfiles c ! i)) + unat (cc_keys_num c ! i) = keys_num (cc_files c ! i)"

lemma FileDescriptor_resized:
  "FileDescriptor_new (GetNumber fd) (GetPathId fd) s (fd_smallest_seqno fd) (fd_largest_seqno fd) = fd\<lparr>fd_file_size := s\<rparr>"
  using FileDescriptor_roundtrip [of fd] by (simp add: FileDescriptor_new_def) (metis FileDescriptor.update_convs(2))

lemma item_deletion_step:
  assumes "item_ok m L0files c" and i: "i < length (cc_files c)"
    and "fd_smallest_seqno (fm_fd (L0compactionfiles c ! i)) \<le> fd_largest_seqno (fm_fd (L0compactionfiles c ! i))"
  shows "item_deletion c i (e, d) = Inr
    (let e' = VersionEdit_DeleteFile 0 (filenum (cc_files c ! i)) e
     in if used_up c i then (e', d @ [filenum (cc_files c ! i)]) else (push_new_file 0 (rest_meta c i) e', d))"
proof -
  let ?g = "L0compactionfiles c ! i" and ?n = "cc_keys_num c ! i" and ?f = "cc_files c ! i"
  have len: "length (cc_keys_num c) = length (cc_files c)" "length (cc_keys_size c) = length (cc_files c)"
    "length (L0compactionfiles c) = length (cc_files c)"
    and le: "unat (fm_first_key_index ?g) + unat ?n \<le> keys_num ?f" and small: "keys_num ?f < 2 ^ 64"
    using assms(1) i by (simp_all add: item_ok_def)
  have u: "unat (fm_first_key_index ?g + ?n) = unat (fm_first_key_index ?g) + unat ?n"
    using le small by (subst unat_add_lem [symmetric]) simp
  have "fm_first_key_index ?g + ?n = of_nat (keys_num ?f) \<longleftrightarrow> used_up c i"
    unfolding word_unat_eq_iff u used_up_def using small by (simp add: unsigned_of_nat take_bit_nat_eq_self)
  moreover have "int (unat (fm_first_key_index ?g + ?n)) < int (length (keys_meta ?f))" if "\<not> used_up c i"
    unfolding of_nat_less_iff u using that le by (simp add: used_up_def keys_num_def)
  ultimately show ?thesis
    using i len assms(3) [folded not_less]
    by (simp add: item_deletion_def vector_at_def Let_def VersionEdit_AddFile_fields_def FileDescriptor_resized
        rest_meta_def push_new_file_def)
qed

lemma item_deletions_spec:
  assumes "item_ok m L0files c" and "set is \<subseteq> {..<length (cc_files c)}"
    and "list_all (\<lambda>g. fd_smallest_seqno (fm_fd g) \<le> fd_largest_seqno (fm_fd g)) (L0compactionfiles c)"
  shows "item_deletions c is (e, d) = Inr
    (e\<lparr>ve_deleted_files := fold (\<lambda>i. insort_insert (0, filenum (cc_files c ! i))) is (ve_deleted_files e),
       ve_new_files := ve_new_files e @ map (\<lambda>i. (0, rest_meta c i)) (filter (\<lambda>i. \<not> used_up c i) is)\<rparr>,
     d @ map (\<lambda>i. filenum (cc_files c ! i)) (filter (used_up c) is))"
  using assms(2)
proof (induction "is" arbitrary: e d)
  case (Cons i "is")
  have i: "i < length (cc_files c)" using Cons.prems by simp
  have "fd_smallest_seqno (fm_fd (L0compactionfiles c ! i)) \<le> fd_largest_seqno (fm_fd (L0compactionfiles c ! i))"
    using assms(1,3) i by (auto simp: list_all_length item_ok_def)
  note step = item_deletion_step [OF assms(1) i this]
  have "set is \<subseteq> {..<length (cc_files c)}" using Cons.prems by simp
  then show ?case
    by (simp add: step Let_def Cons.IH VersionEdit_DeleteFile_def push_new_file_def)
qed simp

lemma fold_insort_insert:
  "set (fold (\<lambda>x. insort_insert (h x)) xs ys) = h ` set xs \<union> set ys"
  "distinct ys \<Longrightarrow> distinct (fold (\<lambda>x. insort_insert (h x)) xs ys)"
  by (induction xs arbitrary: ys) (auto simp: set_insort_insert distinct_insort_insert)

text \<open>The edit of a column compaction: its deletions and its new files.\<close>

lemma AddInputDeletions_spec:
  assumes "item_ok m L0files c"
    and "list_all (\<lambda>g. fd_smallest_seqno (fm_fd g) \<le> fd_largest_seqno (fm_fd g)) (L0compactionfiles c)"
    and "ve_deleted_files e = []" and "ve_new_files e = []" and "l > 0"
  obtains e' where "AddInputDeletions [(0, L0compactionfiles c), (l, L1compactionfiles c)] (Some c) e = Inr
      (e', map (\<lambda>i. filenum (cc_files c ! i)) (filter (used_up c) [0..<length (cc_files c)]))"
    and "set (ve_deleted_files e') = (\<lambda>f. (0, filenum f)) ` set (cc_files c)
      \<union> (\<lambda>g. (int l, file_number g)) ` set (L1compactionfiles c)"
    and "distinct (ve_deleted_files e')"
    and "ve_new_files e' = map (\<lambda>i. (0, rest_meta c i)) (filter (\<lambda>i. \<not> used_up c i) [0..<length (cc_files c)])"
proof -
  let ?is = "[0..<length (cc_files c)]"
  define ds where "ds = fold (\<lambda>g. insort_insert (int l, file_number g)) (L1compactionfiles c) []"
  have del: "fold (\<lambda>f. VersionEdit_DeleteFile (int l) (file_number f)) fs x =
      x\<lparr>ve_deleted_files := fold (\<lambda>g. insort_insert (int l, file_number g)) fs (ve_deleted_files x)\<rparr>" for fs x
    by (induction fs arbitrary: x) (simp_all add: VersionEdit_DeleteFile_def)
  have "input_deletions True [(0, L0compactionfiles c), (l, L1compactionfiles c)] e = e\<lparr>ve_deleted_files := ds\<rparr>"
    using assms(3,5) by (simp add: input_deletions_def del ds_def)
  then have "AddInputDeletions [(0, L0compactionfiles c), (l, L1compactionfiles c)] (Some c) e =
      item_deletions c ?is (e\<lparr>ve_deleted_files := ds\<rparr>, [])"
    by (simp add: AddInputDeletions_def)
  also have "\<dots> = Inr (e\<lparr>ve_deleted_files := fold (\<lambda>i. insort_insert (0, filenum (cc_files c ! i))) ?is ds,
       ve_new_files := map (\<lambda>i. (0, rest_meta c i)) (filter (\<lambda>i. \<not> used_up c i) ?is)\<rparr>,
     map (\<lambda>i. filenum (cc_files c ! i)) (filter (used_up c) ?is))"
    using assms(4) by (subst item_deletions_spec [OF assms(1) _ assms(2)]) auto
  finally show thesis
  proof (rule that)
    have "(\<lambda>i. (0 :: int, filenum (cc_files c ! i))) ` set ?is = (\<lambda>f. (0, filenum f)) ` set (cc_files c)"
      by (force simp: set_conv_nth)
    then show "set (ve_deleted_files (e\<lparr>ve_deleted_files := fold (\<lambda>i. insort_insert (0, filenum (cc_files c ! i))) ?is ds,
       ve_new_files := map (\<lambda>i. (0, rest_meta c i)) (filter (\<lambda>i. \<not> used_up c i) ?is)\<rparr>)) =
      (\<lambda>f. (0, filenum f)) ` set (cc_files c) \<union> (\<lambda>g. (int l, file_number g)) ` set (L1compactionfiles c)"
      by (simp add: fold_insort_insert ds_def)
  qed (simp_all add: fold_insort_insert ds_def)
qed

text \<open>A version over the tables 2 and 1 of \<^const>\<open>example_module\<close>, with the given files in level 1.\<close>

definition column_version :: "FileMetaData list \<Rightarrow> VersionStorageInfo" where
  "column_version L1 =
     \<lparr>vs_files = [[example_file 2, example_file 1], L1], num_non_empty_levels = (if L1 = [] then 1 else 2), is_nvmcf = True\<rparr>"

definition column_options :: NvmCfOptions where
  "column_options = NvmCfOptions_new NvmSetup_init 0 0 0 (6 * 1024 * 1024 + 1)"

lemma user_sorted_code [code]:
  "user_sorted ucmp f \<longleftrightarrow>
     list_all (\<lambda>j. list_all (\<lambda>i. ucmp (ukey f i) (ukey f j) \<le> 0) [0..<Suc j]) [0..<keys_num f]"
  by (auto simp: user_sorted_def list_all_iff less_Suc_eq_le simp del: upt_Suc)

section \<open>Properties\<close>

text \<open>C7: the choice of keys of a column compaction. The picker always returns an item, the loops end, and the item takes
  at least one key. What it takes is downward closed: every live key of the tables under compaction that stays behind is
  not before any key that is taken. If level 1 is empty, it is after all of them, so all versions of a user key move
  together.\<close>

theorem PickColumnCompaction_downward_closed:
  assumes "user_comparator ucmp \<and> column_input_ok ucmp m v"
  shows "\<exists>m' c cs firsts. PickColumnCompaction opts ucmp m v = Some (Inr (m', Some c))
    \<and> compaction_tables (nm_meta m') (compaction_files (nm_meta m')) (LevelFiles v 0) = Inr (Some (cs, firsts))
    \<and> selected c \<noteq> {} \<and> selected c \<subseteq> live_keys cs firsts
    \<and> (\<forall>f i g j. (f, i) \<in> selected c \<and> (g, j) \<in> live_keys cs firsts - selected c \<longrightarrow>
         ucmp (ukey f i) (ukey g j) \<le> 0 \<and> (LevelFiles v 1 = [] \<longrightarrow> ucmp (ukey f i) (ukey g j) < 0))"
proof -
  have uc: "user_comparator ucmp" and tw: "three_way ucmp" using assms by (simp_all add: user_comparator_def)
  obtain m' c cs firsts ps n where pk: "picked ucmp opts m v m' c cs firsts ps n"
    using user_comparator.pick_column_spec [OF uc conjunct2 [OF assms]] by blast
  then have k: "PickColumnCompaction opts ucmp m v = Some (Inr (m', Some c))"
      "compaction_tables (nm_meta m') (compaction_files (nm_meta m')) (LevelFiles v 0) = Inr (Some (cs, firsts))"
    and mo: "merge_order ucmp cs firsts ps" and n: "0 < n" "n \<le> length ps"
    and sel: "selected c = (\<lambda>(i, j). (cs ! i, j)) ` set (take n ps)"
    and cut: "LevelFiles v 1 = [] \<and> n < length ps \<longrightarrow> ucmp (pkey cs (ps ! (n - 1))) (pkey cs (ps ! n)) \<noteq> 0"
    by (simp_all add: picked_def)
  have live: "live_keys cs firsts = (\<lambda>(i, j). (cs ! i, j)) ` set ps"
    using mo by (simp add: live_keys_positions merge_order_def)
  have le: "ucmp (pkey cs (ps ! a)) (pkey cs (ps ! b)) \<le> 0" if "a \<le> b" "b < length ps" for a b
  proof (cases "a = b")
    case False
    then have "before ucmp cs (ps ! a) (ps ! b)" using mo that by (simp add: merge_order_def sorted_wrt_iff_nth_less)
    then show ?thesis by (auto simp: before_def)
  qed (simp add: three_way.cmp_refl [OF tw])
  have "ucmp (pkey cs (ps ! a)) (pkey cs (ps ! b)) \<le> 0
      \<and> (LevelFiles v 1 = [] \<longrightarrow> ucmp (pkey cs (ps ! a)) (pkey cs (ps ! b)) < 0)" if ab: "a < n" "n \<le> b" "b < length ps" for a b
  proof -
    have "ucmp (pkey cs (ps ! (n - 1))) (pkey cs (ps ! n)) \<le> 0" using le [of "n - 1" n] ab by simp
    then have "LevelFiles v 1 = [] \<Longrightarrow> ucmp (pkey cs (ps ! (n - 1))) (pkey cs (ps ! n)) < 0"
      using cut ab by force
    moreover have "ucmp (pkey cs (ps ! a)) (pkey cs (ps ! (n - 1))) \<le> 0" "ucmp (pkey cs (ps ! n)) (pkey cs (ps ! b)) \<le> 0"
      using le ab by simp_all
    ultimately show ?thesis
      using le [of a b] ab three_way.cmp_le_less_trans [OF tw] three_way.cmp_less_le_trans [OF tw] by (meson less_imp_le less_le_trans)
  qed
  note order = this
  have "ucmp (ukey f i) (ukey g j) \<le> 0 \<and> (LevelFiles v 1 = [] \<longrightarrow> ucmp (ukey f i) (ukey g j) < 0)"
    if fi: "(f, i) \<in> selected c" and gj: "(g, j) \<in> live_keys cs firsts - selected c" for f i g j
  proof -
    obtain a where a: "a < n" "f = cs ! fst (ps ! a)" "i = snd (ps ! a)"
      using fi n(2) unfolding sel by (auto simp: in_set_conv_nth)
    obtain b where b: "b < length ps" "g = cs ! fst (ps ! b)" "j = snd (ps ! b)"
      using gj unfolding live by (auto simp: in_set_conv_nth)
    have "\<not> b < n"
    proof
      assume "b < n"
      then have "ps ! b \<in> set (take n ps)" using b(1) by (auto simp: in_set_conv_nth)
      then have "(g, j) \<in> selected c" unfolding sel b(2,3) by force
      then show False using gj by simp
    qed
    then show ?thesis using order [OF a(1) _ b(1)] a b by (simp add: pkey_def)
  qed
  moreover have "selected c \<noteq> {}" using n unfolding sel by (cases ps) auto
  moreover have "selected c \<subseteq> live_keys cs firsts" unfolding sel live by (auto dest: in_set_takeD)
  ultimately show ?thesis using k by blast
qed

theorem PickColumnCompaction_downward_closed_witness:
  "\<exists>m' c cs firsts. PickColumnCompaction column_options Bytewise_Compare
       (example_module [(InternalKey [98] 9 1, [7])] [(InternalKey [97] 1 1, [8]), (InternalKey [98] 2 1, [9])])
       (column_version []) = Some (Inr (m', Some c))
     \<and> selected c \<noteq> {} \<and> selected c \<subseteq> live_keys cs firsts
     \<and> (\<forall>f i g j. (f, i) \<in> selected c \<and> (g, j) \<in> live_keys cs firsts - selected c \<longrightarrow>
          Bytewise_Compare (ukey f i) (ukey g j) < 0)"
proof -
  let ?m = "example_module [(InternalKey [98] 9 1, [7])] [(InternalKey [97] 1 1, [8]), (InternalKey [98] 2 1, [9])]"
  have "column_input_ok Bytewise_Compare ?m (column_version [])" by code_simp
  then have *: "user_comparator Bytewise_Compare \<and> column_input_ok Bytewise_Compare ?m (column_version [])"
    using bytewise_keys.user_comparator_axioms by blast
  have "LevelFiles (column_version []) 1 = []" by code_simp
  then show ?thesis using PickColumnCompaction_downward_closed [OF *, of column_options] by blast
qed

text \<open>C8: the choice of files of level 1. A file of level 1 that the column compaction leaves alone lies before all the
  keys it takes or after all of them, so its output can join level 1 without an overlap. The comparison is the one of
  file boundaries; the user keys of two files of level 1 are assumed to be apart.\<close>

theorem PickColumnCompaction_level1_apart:
  assumes "user_comparator ucmp \<and> column_input_ok ucmp m v"
  shows "\<exists>m' c. PickColumnCompaction opts ucmp m v = Some (Inr (m', Some c))
    \<and> set (L1compactionfiles c) \<subseteq> set (LevelFiles v 1)
    \<and> (\<forall>h \<in> set (LevelFiles v 1) - set (L1compactionfiles c). apart ucmp h (selected c))"
  using user_comparator.pick_column_spec [OF conjunct1 [OF assms] conjunct2 [OF assms], of opts]
  unfolding picked_def by blast

theorem PickColumnCompaction_level1_apart_witness:
  "\<exists>m' c. PickColumnCompaction column_options Bytewise_Compare
       (example_module [(InternalKey [98] 9 1, [7])] [(InternalKey [97] 1 1, [8]), (InternalKey [98] 2 1, [9])])
       (column_version [range_file 7 (InternalKey [98] 1 1) (InternalKey [99] 1 1),
                        range_file 8 (InternalKey [120] 1 1) (InternalKey [121] 1 1)]) = Some (Inr (m', Some c))
     \<and> (\<forall>h \<in> set [range_file 7 (InternalKey [98] 1 1) (InternalKey [99] 1 1),
                 range_file 8 (InternalKey [120] 1 1) (InternalKey [121] 1 1)] - set (L1compactionfiles c).
          apart Bytewise_Compare h (selected c))"
proof -
  let ?m = "example_module [(InternalKey [98] 9 1, [7])] [(InternalKey [97] 1 1, [8]), (InternalKey [98] 2 1, [9])]"
  let ?L1 = "[range_file 7 (InternalKey [98] 1 1) (InternalKey [99] 1 1), range_file 8 (InternalKey [120] 1 1) (InternalKey [121] 1 1)]"
  have "column_input_ok Bytewise_Compare ?m (column_version ?L1)" by code_simp
  then have *: "user_comparator Bytewise_Compare \<and> column_input_ok Bytewise_Compare ?m (column_version ?L1)"
    using bytewise_keys.user_comparator_axioms by blast
  have "LevelFiles (column_version ?L1) 1 = ?L1" by (simp add: column_version_def LevelFiles_def)
  then show ?thesis using PickColumnCompaction_level1_apart [OF *, of column_options] by metis
qed


end
