(* ===== verification/VersionBuilders.thy ===== *)
theory VersionBuilders
  imports VersionStorage
begin

text \<open>
  The builder that applies version edits to a version and saves the result (\<open>VersionBuilder::Rep\<close> in
  \<open>db/version_builder.cc\<close>).

  \<open>added_files\<close>, a map from the number of a file to the file, is the list of the files. The checks of debug builds
  are modelled; an \<open>abort()\<close> is \<open>AssertFailed\<close>. Reference counts, table handles and statistics are not modelled.
\<close>

section \<open>Definitions\<close>

definition NewestFirstBySeqNo :: "FileMetaData \<Rightarrow> FileMetaData \<Rightarrow> bool" where
  "NewestFirstBySeqNo a b =
     (if fd_largest_seqno (fm_fd a) \<noteq> fd_largest_seqno (fm_fd b)
      then fd_largest_seqno (fm_fd a) > fd_largest_seqno (fm_fd b)
      else if fd_smallest_seqno (fm_fd a) \<noteq> fd_smallest_seqno (fm_fd b)
      then fd_smallest_seqno (fm_fd a) > fd_smallest_seqno (fm_fd b)
      else file_number a > file_number b)"

definition BySmallestKey :: "(slice \<Rightarrow> slice \<Rightarrow> int) \<Rightarrow> FileMetaData \<Rightarrow> FileMetaData \<Rightarrow> bool" where
  "BySmallestKey ucmp a b =
     (let r = InternalKeyComparator_Compare ucmp (fm_smallest a) (fm_smallest b)
      in if r \<noteq> 0 then r < 0 else file_number a < file_number b)"

definition FileComparator :: "(slice \<Rightarrow> slice \<Rightarrow> int) \<Rightarrow> nat \<Rightarrow> FileMetaData \<Rightarrow> FileMetaData \<Rightarrow> bool" where
  "FileComparator ucmp level = (if level = 0 then NewestFirstBySeqNo else BySmallestKey ucmp)"

record LevelState =
  deleted_files :: "u64 set"
  added_files :: "FileMetaData list"

record VersionBuilder =
  base_vstorage :: VersionStorageInfo
  rb_levels :: "LevelState list"
  invalid_levels :: "(int \<times> u64) set"
  has_invalid_levels :: bool

definition VersionBuilder_new :: "VersionStorageInfo \<Rightarrow> VersionBuilder" where
  "VersionBuilder_new v =
     \<lparr>base_vstorage = v, rb_levels = replicate (num_levels v) \<lparr>deleted_files = {}, added_files = []\<rparr>,
      invalid_levels = {}, has_invalid_levels = False\<rparr>"

subsection \<open>The consistency checks\<close>

definition neighbours_ok ::
    "(slice \<Rightarrow> slice \<Rightarrow> int) \<Rightarrow> nat \<Rightarrow> FileMetaData \<Rightarrow> FileMetaData \<Rightarrow> bool" where
  "neighbours_ok ucmp level f1 f2 =
     (FileComparator ucmp level f1 f2
      \<and> (if level = 0 then
           if fd_smallest_seqno (fm_fd f2) = fd_largest_seqno (fm_fd f2)
           then fd_smallest_seqno (fm_fd f2) < fd_largest_seqno (fm_fd f1) \<or> fd_smallest_seqno (fm_fd f2) = 0
           else \<not> fd_smallest_seqno (fm_fd f1) \<le> fd_smallest_seqno (fm_fd f2)
         else InternalKeyComparator_Compare ucmp (fm_largest f1) (fm_smallest f2) < 0))"

definition CheckConsistency :: "(slice \<Rightarrow> slice \<Rightarrow> int) \<Rightarrow> VersionStorageInfo \<Rightarrow> unit result" where
  "CheckConsistency ucmp v =
     (if list_all (\<lambda>level. is_nvmcf v \<and> level = 0 \<or>
            list_all (\<lambda>i. neighbours_ok ucmp level (LevelFiles v level ! (i - 1)) (LevelFiles v level ! i))
              [1..<length (LevelFiles v level)]) [0..<num_levels v]
      then Inr () else Inl AssertFailed)"

definition find_no :: "u64 \<Rightarrow> FileMetaData list \<Rightarrow> FileMetaData option" where
  "find_no number fs = find (\<lambda>f. file_number f = number) fs"

definition CheckConsistencyForDeletes :: "u64 \<Rightarrow> nat \<Rightarrow> VersionBuilder \<Rightarrow> unit result" where
  "CheckConsistencyForDeletes number level b =
     (if list_ex (\<lambda>fs. find_no number fs \<noteq> None) (vs_files (base_vstorage b))
         \<or> list_ex (\<lambda>ls. find_no number (added_files ls) \<noteq> None) (drop (level + 1) (rb_levels b))
         \<or> find_no number (added_files (rb_levels b ! level)) \<noteq> None
      then Inr () else Inl AssertFailed)"

definition CheckConsistencyForNumLevels :: "VersionBuilder \<Rightarrow> bool" where
  "CheckConsistencyForNumLevels b = (\<not> has_invalid_levels b \<and> invalid_levels b = {})"

subsection \<open>Apply\<close>

definition upd_level :: "nat \<Rightarrow> (LevelState \<Rightarrow> LevelState) \<Rightarrow> VersionBuilder \<Rightarrow> VersionBuilder" where
  "upd_level level f b = b\<lparr>rb_levels := (rb_levels b)[level := f (rb_levels b ! level)]\<rparr>"

definition apply_delete :: "int \<times> u64 \<Rightarrow> VersionBuilder \<Rightarrow> VersionBuilder result" where
  "apply_delete del_file b =
     (let (level, number) = del_file
      in if level < int (num_levels (base_vstorage b)) then
           if level < 0 then Inl OutOfBounds
           else
             let b1 = upd_level (nat level) (\<lambda>ls. ls\<lparr>deleted_files := insert number (deleted_files ls)\<rparr>) b
             in and_then (CheckConsistencyForDeletes number (nat level) b1) (\<lambda>_.
                  Inr (upd_level (nat level)
                         (\<lambda>ls. ls\<lparr>added_files := filter (\<lambda>f. file_number f \<noteq> number) (added_files ls)\<rparr>) b1))
         else if (level, number) \<in> invalid_levels b
         then Inr (b\<lparr>invalid_levels := invalid_levels b - {(level, number)}\<rparr>)
         else Inr (b\<lparr>has_invalid_levels := True\<rparr>))"

definition apply_new :: "int \<times> FileMetaData \<Rightarrow> VersionBuilder \<Rightarrow> VersionBuilder result" where
  "apply_new new_file b =
     (let (level, f) = new_file; number = file_number f
      in if level < int (num_levels (base_vstorage b)) then
           if level < 0 then Inl OutOfBounds
           else if find_no number (added_files (rb_levels b ! nat level)) \<noteq> None then Inl AssertFailed
           else Inr (upd_level (nat level)
                  (\<lambda>ls. \<lparr>deleted_files = (if fm_is_nvm_level0 f then deleted_files ls else deleted_files ls - {number}),
                         added_files = f # added_files ls\<rparr>) b)
         else if (level, number) \<notin> invalid_levels b
         then Inr (b\<lparr>invalid_levels := insert (level, number) (invalid_levels b)\<rparr>)
         else Inr (b\<lparr>has_invalid_levels := True\<rparr>))"

fun apply_all :: "('x \<Rightarrow> 's \<Rightarrow> 's result) \<Rightarrow> 'x list \<Rightarrow> 's \<Rightarrow> 's result" where
  "apply_all f [] s = Inr s"
| "apply_all f (x # xs) s = and_then (f x s) (apply_all f xs)"

definition Builder_Apply :: "(slice \<Rightarrow> slice \<Rightarrow> int) \<Rightarrow> VersionEdit \<Rightarrow> VersionBuilder \<Rightarrow> VersionBuilder result" where
  "Builder_Apply ucmp edit b =
     and_then (CheckConsistency ucmp (base_vstorage b)) (\<lambda>_.
     and_then (apply_all apply_delete (ve_deleted_files edit) b) (\<lambda>b1.
       apply_all apply_new (ve_new_files edit) b1))"

subsection \<open>SaveTo\<close>

text \<open>\<open>std::sort\<close> by a comparator that is a strict total order on the files of a level.\<close>

fun insert_by :: "('a \<Rightarrow> 'a \<Rightarrow> bool) \<Rightarrow> 'a \<Rightarrow> 'a list \<Rightarrow> 'a list" where
  "insert_by cmp x [] = [x]"
| "insert_by cmp x (y # ys) = (if cmp y x then y # insert_by cmp x ys else x # y # ys)"

definition sort_by :: "('a \<Rightarrow> 'a \<Rightarrow> bool) \<Rightarrow> 'a list \<Rightarrow> 'a list" where
  "sort_by cmp xs = foldr (insert_by cmp) xs []"

definition MaybeAddFile ::
    "(slice \<Rightarrow> slice \<Rightarrow> int) \<Rightarrow> LevelState \<Rightarrow> nat \<Rightarrow> FileMetaData \<Rightarrow> bool \<Rightarrow> VersionStorageInfo \<Rightarrow> VersionStorageInfo result" where
  "MaybeAddFile ucmp ls level f is_nvmcf_added_iter v =
     (if \<not> is_nvmcf_added_iter then
        if file_number f \<in> deleted_files ls then Inr v else VersionStorage_AddFile ucmp level f v
      else if file_number f \<in> deleted_files ls \<and> \<not> fm_is_nvm_level0 f then Inr v
      else VersionStorage_AddFile ucmp level f v)"

fun save_loop ::
    "(slice \<Rightarrow> slice \<Rightarrow> int) \<Rightarrow> LevelState \<Rightarrow> nat \<Rightarrow> FileMetaData list \<Rightarrow> FileMetaData list \<Rightarrow>
     VersionStorageInfo \<Rightarrow> VersionStorageInfo result" where
  "save_loop ucmp ls level [] [] v = Inr v"
| "save_loop ucmp ls level [] (a # added) v =
     and_then (MaybeAddFile ucmp ls level a (is_nvmcf v) v) (save_loop ucmp ls level [] added)"
| "save_loop ucmp ls level (f # base) [] v =
     and_then (MaybeAddFile ucmp ls level f False v) (save_loop ucmp ls level base [])"
| "save_loop ucmp ls level (f # base) (a # added) v =
     (if FileComparator ucmp level a f
      then and_then (MaybeAddFile ucmp ls level a (is_nvmcf v) v) (save_loop ucmp ls level (f # base) added)
      else and_then (MaybeAddFile ucmp ls level f False v) (save_loop ucmp ls level base (a # added)))"

definition save_level ::
    "(slice \<Rightarrow> slice \<Rightarrow> int) \<Rightarrow> VersionBuilder \<Rightarrow> nat \<Rightarrow> VersionStorageInfo \<Rightarrow> VersionStorageInfo result" where
  "save_level ucmp b level v =
     (let ls = rb_levels b ! level;
          added = sort_by (FileComparator ucmp level) (added_files ls)
      in if level > 0 \<and> \<not> list_all (\<lambda>i. InternalKeyComparator_Compare ucmp (fm_smallest (added ! (i - 1)))
              (fm_smallest (added ! i)) \<le> 0) [1..<length added]
         then Inl AssertFailed
         else save_loop ucmp ls level (LevelFiles (base_vstorage b) level) added v)"

definition SaveTo :: "(slice \<Rightarrow> slice \<Rightarrow> int) \<Rightarrow> VersionBuilder \<Rightarrow> VersionStorageInfo \<Rightarrow> VersionStorageInfo result" where
  "SaveTo ucmp b v =
     and_then (CheckConsistency ucmp (base_vstorage b)) (\<lambda>_.
     and_then (CheckConsistency ucmp v) (\<lambda>_.
     and_then (apply_all (save_level ucmp b) [0..<num_levels (base_vstorage b)] v) (\<lambda>v'.
     and_then (CheckConsistency ucmp v') (\<lambda>_. Inr v'))))"

section \<open>The abstract state\<close>

text \<open>A level is a map from the number of a file to the file. The builder stands for the base version with its
  changes applied.\<close>

definition level_map :: "VersionBuilder \<Rightarrow> nat \<Rightarrow> u64 \<rightharpoonup> FileMetaData" where
  "level_map b l n =
     (case find_no n (added_files (rb_levels b ! l)) of
        Some f \<Rightarrow> Some f
      | None \<Rightarrow> if n \<in> deleted_files (rb_levels b ! l) then None else find_no n (LevelFiles (base_vstorage b) l))"

definition new_on :: "VersionEdit \<Rightarrow> nat \<Rightarrow> FileMetaData list" where
  "new_on e l = map snd (filter (\<lambda>nf. fst nf = int l) (ve_new_files e))"

definition edit_map :: "VersionEdit \<Rightarrow> nat \<Rightarrow> (u64 \<rightharpoonup> FileMetaData) \<Rightarrow> u64 \<rightharpoonup> FileMetaData" where
  "edit_map e l m n =
     (case find_no n (new_on e l) of
        Some f \<Rightarrow> Some f
      | None \<Rightarrow> if (int l, n) \<in> set (ve_deleted_files e) then None else m n)"

text \<open>What the builder keeps: a file that was added is not there twice. Only a table of level 0 may be added under
  the number of a deleted file.\<close>

definition level_state_ok :: "FileMetaData list \<Rightarrow> LevelState \<Rightarrow> bool" where
  "level_state_ok base ls \<longleftrightarrow>
     distinct (map file_number (added_files ls))
     \<and> (\<forall>f \<in> set (added_files ls).
          if fm_is_nvm_level0 f then find_no (file_number f) base = None \<or> file_number f \<in> deleted_files ls
          else find_no (file_number f) base = None \<and> file_number f \<notin> deleted_files ls)"

definition builder_ok :: "VersionBuilder \<Rightarrow> bool" where
  "builder_ok b \<longleftrightarrow> length (rb_levels b) = num_levels (base_vstorage b)
     \<and> (\<forall>l < num_levels (base_vstorage b). level_state_ok (LevelFiles (base_vstorage b) l) (rb_levels b ! l))"

definition edit_ok :: "VersionBuilder \<Rightarrow> VersionEdit \<Rightarrow> bool" where
  "edit_ok b e \<longleftrightarrow>
     distinct (ve_deleted_files e)
     \<and> (\<forall>(l, n) \<in> set (ve_deleted_files e). 0 \<le> l \<and> l < int (num_levels (base_vstorage b)) \<and> level_map b (nat l) n \<noteq> None)
     \<and> (\<forall>(l, f) \<in> set (ve_new_files e). 0 \<le> l \<and> l < int (num_levels (base_vstorage b))
          \<and> (level_map b (nat l) (file_number f) = None \<or> (l, file_number f) \<in> set (ve_deleted_files e))
          \<and> (\<not> fm_is_nvm_level0 f \<longrightarrow> find_no (file_number f) (LevelFiles (base_vstorage b) (nat l)) = None))
     \<and> distinct (map (\<lambda>(l, f). (l, file_number f)) (ve_new_files e))"

lemma find_no_None: "find_no n fs = None \<longleftrightarrow> n \<notin> file_number ` set fs"
  by (auto simp: find_no_def find_None_iff)

lemma find_no_Cons [simp]: "find_no n (f # fs) = (if file_number f = n then Some f else find_no n fs)"
  by (simp add: find_no_def)

lemma find_no_Nil [simp]: "find_no n [] = None"
  by (simp add: find_no_def)

lemma find_no_filter: "find_no n (filter (\<lambda>f. file_number f \<noteq> k) fs) = (if n = k then None else find_no n fs)"
  by (induction fs) auto

lemma find_no_SomeD: "find_no n fs = Some f \<Longrightarrow> f \<in> set fs \<and> file_number f = n"
  by (auto simp: find_no_def find_Some_iff)

lemma find_no_distinct: "distinct (map file_number fs) \<Longrightarrow> find_no n fs = Some f \<longleftrightarrow> f \<in> set fs \<and> file_number f = n"
  by (induction fs) auto

section \<open>Apply\<close>

lemma upd_level_simps [simp]:
  "base_vstorage (upd_level l g b) = base_vstorage b"
  "length (rb_levels (upd_level l g b)) = length (rb_levels b)"
  "k < length (rb_levels b) \<Longrightarrow> rb_levels (upd_level l g b) ! k = (if k = l then g (rb_levels b ! l) else rb_levels b ! k)"
  by (auto simp: upd_level_def nth_list_update)

text \<open>A file is deleted: it is gone from the map of its level.\<close>

lemma apply_delete_ok:
  assumes "builder_ok b" and "l < num_levels (base_vstorage b)" and "find_no n (added_files (rb_levels b ! l)) \<noteq> None
      \<or> (\<exists>k < num_levels (base_vstorage b). find_no n (LevelFiles (base_vstorage b) k) \<noteq> None)"
  obtains b' where "apply_delete (int l, n) b = Inr b'" and "builder_ok b'" and "base_vstorage b' = base_vstorage b"
    and "\<And>k. k < num_levels (base_vstorage b) \<Longrightarrow> added_files (rb_levels b' ! k) =
      (if k = l then filter (\<lambda>f. file_number f \<noteq> n) (added_files (rb_levels b ! k)) else added_files (rb_levels b ! k))"
    and "\<And>k. k < num_levels (base_vstorage b) \<Longrightarrow> level_map b' k = (if k = l then (level_map b k)(n := None) else level_map b k)"
    and "\<And>k. k < num_levels (base_vstorage b) \<Longrightarrow> deleted_files (rb_levels b' ! k) =
      (if k = l then insert n (deleted_files (rb_levels b ! k)) else deleted_files (rb_levels b ! k))"
proof -
  define b1 where "b1 = upd_level l (\<lambda>ls. ls\<lparr>deleted_files := insert n (deleted_files ls)\<rparr>) b"
  define b2 where "b2 = upd_level l (\<lambda>ls. ls\<lparr>added_files := filter (\<lambda>f. file_number f \<noteq> n) (added_files ls)\<rparr>) b1"
  have len: "length (rb_levels b) = num_levels (base_vstorage b)" using assms(1) by (simp add: builder_ok_def)
  have "CheckConsistencyForDeletes n l b1 = Inr ()"
    using assms(2,3) len by (auto simp: CheckConsistencyForDeletes_def b1_def list_ex_length num_levels_def LevelFiles_def)
  then have 1: "apply_delete (int l, n) b = Inr b2"
    using assms(2) by (simp add: apply_delete_def Let_def b1_def b2_def)
  have added: "added_files (rb_levels b2 ! k) =
      (if k = l then filter (\<lambda>f. file_number f \<noteq> n) (added_files (rb_levels b ! k)) else added_files (rb_levels b ! k))"
    and del: "deleted_files (rb_levels b2 ! k) = (if k = l then insert n (deleted_files (rb_levels b ! k)) else deleted_files (rb_levels b ! k))"
    if "k < num_levels (base_vstorage b)" for k
    using that len assms(2) by (simp_all add: b2_def b1_def)
  have base: "base_vstorage b2 = base_vstorage b" by (simp add: b2_def b1_def)
  have "builder_ok b2"
    using assms(1,2) added del len
    by (auto simp: builder_ok_def level_state_ok_def base b2_def b1_def distinct_map_filter split: if_splits)
  moreover have "level_map b2 k = (if k = l then (level_map b k)(n := None) else level_map b k)"
    if "k < num_levels (base_vstorage b)" for k
    using that added del by (auto simp: level_map_def base find_no_filter fun_eq_iff split: option.splits)
  ultimately show thesis using that 1 base added del by blast
qed

definition deletable :: "VersionBuilder \<Rightarrow> int \<times> u64 \<Rightarrow> bool" where
  "deletable b d \<longleftrightarrow> 0 \<le> fst d \<and> fst d < int (num_levels (base_vstorage b))
     \<and> (find_no (snd d) (added_files (rb_levels b ! nat (fst d))) \<noteq> None
         \<or> (\<exists>k < num_levels (base_vstorage b). find_no (snd d) (LevelFiles (base_vstorage b) k) \<noteq> None))"

lemma deletableE:
  assumes "deletable b d"
  obtains l n where "d = (int l, n)" and "l < num_levels (base_vstorage b)"
    and "find_no n (added_files (rb_levels b ! l)) \<noteq> None
      \<or> (\<exists>k < num_levels (base_vstorage b). find_no n (LevelFiles (base_vstorage b) k) \<noteq> None)"
  using assms that [of "nat (fst d)" "snd d"] by (auto simp: deletable_def nat_less_iff)

lemma apply_deletes_ok:
  assumes "builder_ok b" and "distinct ds" and "list_all (deletable b) ds"
  shows "\<exists>b'. apply_all apply_delete ds b = Inr b' \<and> builder_ok b' \<and> base_vstorage b' = base_vstorage b
    \<and> (\<forall>k < num_levels (base_vstorage b).
         added_files (rb_levels b' ! k) = filter (\<lambda>f. (int k, file_number f) \<notin> set ds) (added_files (rb_levels b ! k))
         \<and> deleted_files (rb_levels b' ! k) = deleted_files (rb_levels b ! k) \<union> {n. (int k, n) \<in> set ds}
         \<and> level_map b' k = (\<lambda>n. if (int k, n) \<in> set ds then None else level_map b k n))"
  using assms
proof (induction ds arbitrary: b)
  case (Cons d ds)
  have "deletable b d" using Cons.prems(3) by simp
  then obtain l n where d: "d = (int l, n)" "l < num_levels (base_vstorage b)"
    and "find_no n (added_files (rb_levels b ! l)) \<noteq> None
      \<or> (\<exists>k < num_levels (base_vstorage b). find_no n (LevelFiles (base_vstorage b) k) \<noteq> None)"
    by (rule deletableE)
  then obtain b1 where b1: "apply_delete (int l, n) b = Inr b1" "builder_ok b1" "base_vstorage b1 = base_vstorage b"
    and added: "\<And>k. k < num_levels (base_vstorage b) \<Longrightarrow> added_files (rb_levels b1 ! k) =
      (if k = l then filter (\<lambda>f. file_number f \<noteq> n) (added_files (rb_levels b ! k)) else added_files (rb_levels b ! k))"
    and lm: "\<And>k. k < num_levels (base_vstorage b) \<Longrightarrow> level_map b1 k = (if k = l then (level_map b k)(n := None) else level_map b k)"
    and del: "\<And>k. k < num_levels (base_vstorage b) \<Longrightarrow> deleted_files (rb_levels b1 ! k) =
      (if k = l then insert n (deleted_files (rb_levels b ! k)) else deleted_files (rb_levels b ! k))"
    using apply_delete_ok [OF Cons.prems(1) d(2)] by blast
  have "deletable b1 x" if x: "x \<in> set ds" for x
  proof -
    have dx: "deletable b x" using x Cons.prems(3) by (simp add: list_all_iff)
    then obtain k i where k: "x = (int k, i)" "k < num_levels (base_vstorage b)" by (rule deletableE)
    have "\<not> (k = l \<and> i = n)" using x k(1) d(1) Cons.prems(2) by auto
    then have "find_no i (added_files (rb_levels b1 ! k)) = find_no i (added_files (rb_levels b ! k))"
      using added [OF k(2)] by (auto simp: find_no_filter)
    then show ?thesis using dx b1(3) k by (simp add: deletable_def)
  qed
  then have "list_all (deletable b1) ds" by (simp add: list_all_iff)
  then obtain b2 where b2: "apply_all apply_delete ds b1 = Inr b2" "builder_ok b2" "base_vstorage b2 = base_vstorage b"
      "\<forall>k < num_levels (base_vstorage b).
         added_files (rb_levels b2 ! k) = filter (\<lambda>f. (int k, file_number f) \<notin> set ds) (added_files (rb_levels b1 ! k))
         \<and> deleted_files (rb_levels b2 ! k) = deleted_files (rb_levels b1 ! k) \<union> {n. (int k, n) \<in> set ds}
         \<and> level_map b2 k = (\<lambda>n. if (int k, n) \<in> set ds then None else level_map b1 k n)"
    using Cons.IH [OF b1(2)] Cons.prems(2) b1(3) by auto
  show ?case
  proof (intro exI [of _ b2] conjI allI impI)
    fix k assume k: "k < num_levels (base_vstorage b)"
    note b2k = b2(4) [rule_format, OF k]
    show "added_files (rb_levels b2 ! k) = filter (\<lambda>f. (int k, file_number f) \<notin> set (d # ds)) (added_files (rb_levels b ! k))"
      using b2k added [OF k] d(1) by (auto intro!: filter_cong)
    show "deleted_files (rb_levels b2 ! k) = deleted_files (rb_levels b ! k) \<union> {n. (int k, n) \<in> set (d # ds)}"
      using b2k del [OF k] d(1) by auto
    show "level_map b2 k = (\<lambda>n. if (int k, n) \<in> set (d # ds) then None else level_map b k n)"
      using b2k lm [OF k] d(1) by (auto simp: fun_eq_iff)
  qed (use b1 b2 d(1) in simp_all)
qed simp

lemma apply_new_ok:
  assumes "builder_ok b" and l: "l < num_levels (base_vstorage b)" and "find_no (file_number f) (added_files (rb_levels b ! l)) = None"
    and "find_no (file_number f) (LevelFiles (base_vstorage b) l) = None
      \<or> fm_is_nvm_level0 f \<and> file_number f \<in> deleted_files (rb_levels b ! l)"
  obtains b' where "apply_new (int l, f) b = Inr b'" and "builder_ok b'" and "base_vstorage b' = base_vstorage b"
    and "\<And>k. k < num_levels (base_vstorage b) \<Longrightarrow>
      level_map b' k = (if k = l then (level_map b k)(file_number f \<mapsto> f) else level_map b k)"
    and "\<And>k. k < num_levels (base_vstorage b) \<Longrightarrow> added_files (rb_levels b' ! k) =
      (if k = l then f # added_files (rb_levels b ! k) else added_files (rb_levels b ! k))"
    and "\<And>k n. k < num_levels (base_vstorage b) \<Longrightarrow> (k, n) \<noteq> (l, file_number f) \<Longrightarrow>
      n \<in> deleted_files (rb_levels b' ! k) \<longleftrightarrow> n \<in> deleted_files (rb_levels b ! k)"
proof -
  define b' where "b' = upd_level l (\<lambda>ls. \<lparr>deleted_files = (if fm_is_nvm_level0 f then deleted_files ls else deleted_files ls - {file_number f}),
                         added_files = f # added_files ls\<rparr>) b"
  have len: "length (rb_levels b) = num_levels (base_vstorage b)" using assms(1) by (simp add: builder_ok_def)
  have 1: "apply_new (int l, f) b = Inr b'" using l assms(3) by (simp add: apply_new_def Let_def b'_def)
  have lv: "rb_levels b' ! k = (if k = l then \<lparr>deleted_files = (if fm_is_nvm_level0 f then deleted_files (rb_levels b ! k)
        else deleted_files (rb_levels b ! k) - {file_number f}), added_files = f # added_files (rb_levels b ! k)\<rparr> else rb_levels b ! k)"
    if "k < num_levels (base_vstorage b)" for k using that len by (simp add: b'_def)
  have base: "base_vstorage b' = base_vstorage b" by (simp add: b'_def)
  have ne: "file_number g \<noteq> file_number f" if "g \<in> set (added_files (rb_levels b ! l))" for g
    using that assms(3) by (metis find_no_None imageI)
  have nin: "file_number f \<notin> file_number ` set (added_files (rb_levels b ! l))" using assms(3) by (simp add: find_no_None)
  have old: "level_state_ok (LevelFiles (base_vstorage b) k) (rb_levels b ! k)" if "k < num_levels (base_vstorage b)" for k
    using assms(1) that by (simp add: builder_ok_def)
  have "level_state_ok (LevelFiles (base_vstorage b) k) (rb_levels b' ! k)" if k: "k < num_levels (base_vstorage b)" for k
  proof (cases "k = l")
    case True
    then show ?thesis using old [OF l] ne nin assms(4) unfolding lv [OF k] by (auto simp: level_state_ok_def)
  qed (use old [OF k] lv [OF k] in simp)
  then have "builder_ok b'" using len by (simp add: builder_ok_def base) (simp add: b'_def)
  moreover have "level_map b' k = (if k = l then (level_map b k)(file_number f \<mapsto> f) else level_map b k)"
    if "k < num_levels (base_vstorage b)" for k
    using lv [OF that] by (auto simp: level_map_def base fun_eq_iff split: option.splits if_splits)
  ultimately show thesis using that [of b'] 1 base lv by auto
qed

definition addable :: "VersionBuilder \<Rightarrow> int \<times> FileMetaData \<Rightarrow> bool" where
  "addable b nf \<longleftrightarrow> 0 \<le> fst nf \<and> fst nf < int (num_levels (base_vstorage b))
     \<and> find_no (file_number (snd nf)) (added_files (rb_levels b ! nat (fst nf))) = None
     \<and> (find_no (file_number (snd nf)) (LevelFiles (base_vstorage b) (nat (fst nf))) = None
        \<or> fm_is_nvm_level0 (snd nf) \<and> file_number (snd nf) \<in> deleted_files (rb_levels b ! nat (fst nf)))"

lemma addableE:
  assumes "addable b nf"
  obtains l f where "nf = (int l, f)" and "l < num_levels (base_vstorage b)"
    and "find_no (file_number f) (added_files (rb_levels b ! l)) = None"
    and "find_no (file_number f) (LevelFiles (base_vstorage b) l) = None
      \<or> fm_is_nvm_level0 f \<and> file_number f \<in> deleted_files (rb_levels b ! l)"
  using assms that [of "nat (fst nf)" "snd nf"] by (auto simp: addable_def nat_less_iff)

lemma apply_news_ok:
  assumes "builder_ok b" and "distinct (map (\<lambda>(l, f). (l, file_number f)) ns)" and "list_all (addable b) ns"
  shows "\<exists>b'. apply_all apply_new ns b = Inr b' \<and> builder_ok b' \<and> base_vstorage b' = base_vstorage b
    \<and> (\<forall>k < num_levels (base_vstorage b). level_map b' k = (\<lambda>n.
         case find_no n (map snd (filter (\<lambda>nf. fst nf = int k) ns)) of Some f \<Rightarrow> Some f | None \<Rightarrow> level_map b k n))"
  using assms
proof (induction ns arbitrary: b)
  case (Cons nf ns)
  have "addable b nf" using Cons.prems(3) by simp
  then obtain l f where nf: "nf = (int l, f)" "l < num_levels (base_vstorage b)"
    and f: "find_no (file_number f) (added_files (rb_levels b ! l)) = None"
      "find_no (file_number f) (LevelFiles (base_vstorage b) l) = None
        \<or> fm_is_nvm_level0 f \<and> file_number f \<in> deleted_files (rb_levels b ! l)" by (rule addableE)
  obtain b1 where b1: "apply_new (int l, f) b = Inr b1" "builder_ok b1" "base_vstorage b1 = base_vstorage b"
    and lm: "\<And>k. k < num_levels (base_vstorage b) \<Longrightarrow>
      level_map b1 k = (if k = l then (level_map b k)(file_number f \<mapsto> f) else level_map b k)"
    and added: "\<And>k. k < num_levels (base_vstorage b) \<Longrightarrow> added_files (rb_levels b1 ! k) =
      (if k = l then f # added_files (rb_levels b ! k) else added_files (rb_levels b ! k))"
    and del: "\<And>k n. k < num_levels (base_vstorage b) \<Longrightarrow> (k, n) \<noteq> (l, file_number f) \<Longrightarrow>
      n \<in> deleted_files (rb_levels b1 ! k) \<longleftrightarrow> n \<in> deleted_files (rb_levels b ! k)"
    using apply_new_ok [OF Cons.prems(1) nf(2) f] by blast
  have "addable b1 x" if x: "x \<in> set ns" for x
  proof -
    have "addable b x" using x Cons.prems(3) by (simp add: list_all_iff)
    then obtain k g where k: "x = (int k, g)" "k < num_levels (base_vstorage b)"
        "find_no (file_number g) (added_files (rb_levels b ! k)) = None"
        "find_no (file_number g) (LevelFiles (base_vstorage b) k) = None
          \<or> fm_is_nvm_level0 g \<and> file_number g \<in> deleted_files (rb_levels b ! k)" by (rule addableE)
    have ne: "(k, file_number g) \<noteq> (l, file_number f)" using x k(1) nf(1) Cons.prems(2) by force
    then show ?thesis using k b1(3) added [OF k(2)] del [OF k(2) ne] by (auto simp: addable_def)
  qed
  then have "list_all (addable b1) ns" by (simp add: list_all_iff)
  then obtain b2 where b2: "apply_all apply_new ns b1 = Inr b2" "builder_ok b2" "base_vstorage b2 = base_vstorage b"
      "\<forall>k < num_levels (base_vstorage b). level_map b2 k = (\<lambda>n.
         case find_no n (map snd (filter (\<lambda>nf. fst nf = int k) ns)) of Some f \<Rightarrow> Some f | None \<Rightarrow> level_map b1 k n)"
    using Cons.IH [OF b1(2)] Cons.prems(2) b1(3) by auto
  have "find_no (file_number f) (map snd (filter (\<lambda>nf. fst nf = int l) ns)) = None"
    using Cons.prems(2) nf(1) by (force simp: find_no_None)
  then have "level_map b2 k = (\<lambda>n. case find_no n (map snd (filter (\<lambda>nf. fst nf = int k) (nf # ns))) of
      Some f \<Rightarrow> Some f | None \<Rightarrow> level_map b k n)" if "k < num_levels (base_vstorage b)" for k
    using b2(4) lm [OF that] that nf(1) by (auto simp: fun_eq_iff split: option.splits)
  then show ?case using b1(1) b2(1-3) nf(1) by auto
qed simp

lemma edit_deletable:
  assumes "edit_ok b e"
  shows "list_all (deletable b) (ve_deleted_files e)"
proof -
  have "deletable b (l, n)" if ln: "(l, n) \<in> set (ve_deleted_files e)" for l n
  proof -
    have *: "0 \<le> l" "l < int (num_levels (base_vstorage b))" "level_map b (nat l) n \<noteq> None"
      using assms ln by (auto simp: edit_ok_def)
    have "nat l < num_levels (base_vstorage b)" using * by linarith
    then show ?thesis using * by (auto simp: deletable_def level_map_def split: option.splits if_splits)
  qed
  then show ?thesis by (auto simp: list_all_iff)
qed

lemma Builder_Apply_ok:
  assumes ok: "builder_ok b" and e: "edit_ok b e" and cc: "CheckConsistency ucmp (base_vstorage b) = Inr ()"
  shows "\<exists>b'. Builder_Apply ucmp e b = Inr b' \<and> builder_ok b' \<and> base_vstorage b' = base_vstorage b
    \<and> (\<forall>l < num_levels (base_vstorage b). level_map b' l = edit_map e l (level_map b l))"
proof -
  let ?ds = "ve_deleted_files e" and ?n = "num_levels (base_vstorage b)"
  obtain b1 where b1: "apply_all apply_delete ?ds b = Inr b1" "builder_ok b1" "base_vstorage b1 = base_vstorage b"
    and k1: "\<forall>k < ?n.
         added_files (rb_levels b1 ! k) = filter (\<lambda>f. (int k, file_number f) \<notin> set ?ds) (added_files (rb_levels b ! k))
         \<and> deleted_files (rb_levels b1 ! k) = deleted_files (rb_levels b ! k) \<union> {n. (int k, n) \<in> set ?ds}
         \<and> level_map b1 k = (\<lambda>n. if (int k, n) \<in> set ?ds then None else level_map b k n)"
    using apply_deletes_ok [OF ok _ edit_deletable [OF e]] e unfolding edit_ok_def by blast
  have "addable b1 (l, f)" if lf: "(l, f) \<in> set (ve_new_files e)" for l f
  proof -
    have *: "0 \<le> l" "l < int ?n" "level_map b (nat l) (file_number f) = None \<or> (l, file_number f) \<in> set ?ds"
        "\<not> fm_is_nvm_level0 f \<longrightarrow> find_no (file_number f) (LevelFiles (base_vstorage b) (nat l)) = None"
      using e lf by (auto simp: edit_ok_def)
    have l: "nat l < ?n" "int (nat l) = l" using * by linarith+
    have ls: "level_map b1 (nat l) (file_number f) = None" using k1 l * by auto
    then have a: "find_no (file_number f) (added_files (rb_levels b1 ! nat l)) = None"
      and "file_number f \<in> deleted_files (rb_levels b1 ! nat l) \<or> find_no (file_number f) (LevelFiles (base_vstorage b) (nat l)) = None"
      using b1(3) by (auto simp: level_map_def split: option.splits if_splits)
    then show ?thesis using * b1(3) by (auto simp: addable_def)
  qed
  then have ad: "list_all (addable b1) (ve_new_files e)" by (auto simp: list_all_iff)
  have dn: "distinct (map (\<lambda>(l, f). (l, file_number f)) (ve_new_files e))" using e by (simp add: edit_ok_def)
  obtain b2 where b2: "apply_all apply_new (ve_new_files e) b1 = Inr b2" "builder_ok b2" "base_vstorage b2 = base_vstorage b"
    and k2: "\<forall>k < ?n. level_map b2 k = (\<lambda>n.
         case find_no n (map snd (filter (\<lambda>nf. fst nf = int k) (ve_new_files e))) of Some f \<Rightarrow> Some f | None \<Rightarrow> level_map b1 k n)"
    using apply_news_ok [OF b1(2) dn ad] unfolding b1(3) by blast
  have "level_map b2 l = edit_map e l (level_map b l)" if "l < ?n" for l
    using k1 k2 that by (simp add: edit_map_def new_on_def fun_eq_iff split: option.splits)
  then show ?thesis using b1 b2 cc by (auto simp: Builder_Apply_def)
qed

section \<open>SaveTo\<close>

text \<open>The files that the merge of the base files and the added files keeps: all added ones, and the base files with \<open>keep\<close>.\<close>

fun merged :: "(FileMetaData \<Rightarrow> FileMetaData \<Rightarrow> bool) \<Rightarrow> (FileMetaData \<Rightarrow> bool) \<Rightarrow> FileMetaData list \<Rightarrow> FileMetaData list \<Rightarrow>
    FileMetaData list" where
  "merged cmp keep [] added = added"
| "merged cmp keep (f # base) [] = (if keep f then [f] else []) @ merged cmp keep base []"
| "merged cmp keep (f # base) (a # added) =
     (if cmp a f then a # merged cmp keep (f # base) added
      else (if keep f then [f] else []) @ merged cmp keep base (a # added))"

lemma merged_set:
  "set (merged cmp keep base added) = {f \<in> set base. keep f} \<union> set added"
  by (induction cmp keep base added rule: merged.induct) auto

text \<open>The order of the files of a level: strict, and total on files of different numbers.\<close>

locale file_order =
  fixes cmp :: "FileMetaData \<Rightarrow> FileMetaData \<Rightarrow> bool"
  assumes cmp_trans: "cmp a b \<Longrightarrow> cmp b c \<Longrightarrow> cmp a c"
    and cmp_irrefl: "\<not> cmp a a"
    and cmp_total: "file_number a \<noteq> file_number b \<Longrightarrow> cmp a b \<or> cmp b a"
begin

lemma insert_by_set: "set (insert_by cmp x ys) = insert x (set ys)"
  by (induction ys) auto

lemma insert_by_sorted:
  "sorted_wrt cmp ys \<Longrightarrow> file_number x \<notin> file_number ` set ys \<Longrightarrow> sorted_wrt cmp (insert_by cmp x ys)"
proof (induction ys)
  case (Cons y ys)
  then show ?case
    using cmp_total [of x y] cmp_trans by (auto simp: insert_by_set intro: cmp_trans)
qed simp

lemma sort_by_set: "set (sort_by cmp xs) = set xs"
  by (induction xs) (simp_all add: sort_by_def insert_by_set)

lemma sort_by_sorted: "distinct (map file_number xs) \<Longrightarrow> sorted_wrt cmp (sort_by cmp xs)"
proof (induction xs)
  case (Cons x xs)
  then have "file_number x \<notin> file_number ` set (sort_by cmp xs)" by (simp add: sort_by_set)
  then show ?case using Cons insert_by_sorted by (simp add: sort_by_def)
qed (simp add: sort_by_def)

lemma sorted_distinct_numbers:
  "sorted_wrt cmp xs \<Longrightarrow> (\<And>a b. a \<in> set xs \<Longrightarrow> b \<in> set xs \<Longrightarrow> file_number a = file_number b \<Longrightarrow> a = b) \<Longrightarrow>
   distinct (map file_number xs)"
proof (induction xs)
  case (Cons x xs)
  have "file_number y \<noteq> file_number x" if y: "y \<in> set xs" for y
  proof
    assume "file_number y = file_number x"
    then have "y = x" using Cons.prems(2) [of y x] y by simp
    then show False using Cons.prems(1) y cmp_irrefl by auto
  qed
  then show ?case using Cons by force
qed simp

lemma merged_sorted:
  assumes "sorted_wrt cmp base" and "sorted_wrt cmp added"
    and "\<And>f a. f \<in> set base \<Longrightarrow> keep f \<Longrightarrow> a \<in> set added \<Longrightarrow> file_number f \<noteq> file_number a"
  shows "sorted_wrt cmp (merged cmp keep base added)"
  using assms
proof (induction base arbitrary: added)
  case (Cons f base)
  note outer = Cons.IH
  show ?case
    using Cons.prems
  proof (induction added)
    case Nil
    have "sorted_wrt cmp (merged cmp keep base [])" using outer [of "[]"] Nil.prems by simp
    then show ?case using Nil.prems by (auto simp: merged_set)
  next
    case (Cons a added)
    show ?case
    proof (cases "cmp a f")
      case True
      have "sorted_wrt cmp (merged cmp keep (f # base) added)" using Cons by simp
      moreover have "cmp a x" if "x \<in> set (merged cmp keep (f # base) added)" for x
        using that True Cons.prems(1,2) cmp_trans [of a f x] by (auto simp: merged_set)
      ultimately show ?thesis using True by simp
    next
      case False
      have "sorted_wrt cmp (merged cmp keep base (a # added))" using outer [of "a # added"] Cons.prems by simp
      moreover have "cmp f x" if "x \<in> set (merged cmp keep base (a # added))" "keep f" for x
      proof -
        have "cmp f a" using False cmp_total [of f a] Cons.prems(3) [of f a] that(2) by simp
        then show ?thesis using that(1) Cons.prems(1,2) cmp_trans [of f a x] by (auto simp: merged_set)
      qed
      ultimately show ?thesis using False by simp
    qed
  qed
qed simp

end

interpretation newest_first: file_order NewestFirstBySeqNo
  by unfold_locales (auto simp: NewestFirstBySeqNo_def split: if_splits)

context user_comparator
begin

lemma BySmallestKey_iff:
  "BySmallestKey ucmp a b \<longleftrightarrow>
     InternalKeyComparator_Compare ucmp (fm_smallest a) (fm_smallest b) < 0
     \<or> InternalKeyComparator_Compare ucmp (fm_smallest a) (fm_smallest b) = 0 \<and> file_number a < file_number b"
  by (auto simp: BySmallestKey_def Let_def)

end

sublocale user_comparator \<subseteq> by_smallest: file_order "BySmallestKey ucmp"
proof
  fix a b c
  let ?c = "InternalKeyComparator_Compare ucmp"
  show "\<not> BySmallestKey ucmp a a" by (simp add: BySmallestKey_iff)
  show "BySmallestKey ucmp a b \<or> BySmallestKey ucmp b a" if "file_number a \<noteq> file_number b"
    using that ikc.cmp_swap [of "fm_smallest a" "fm_smallest b"] ikc.cmp_eq_sym [of "fm_smallest a" "fm_smallest b"]
    by (auto simp: BySmallestKey_iff)
  assume ab: "BySmallestKey ucmp a b" and bc: "BySmallestKey ucmp b c"
  have le: "?c (fm_smallest a) (fm_smallest b) \<le> 0" "?c (fm_smallest b) (fm_smallest c) \<le> 0"
    using ab bc by (auto simp: BySmallestKey_iff)
  have ac: "?c (fm_smallest a) (fm_smallest c) \<le> 0" using le by (rule ikc.cmp_le_trans)
  show "BySmallestKey ucmp a c"
  proof (cases "?c (fm_smallest a) (fm_smallest c) = 0")
    case True
    then have "?c (fm_smallest a) (fm_smallest b) = 0" "?c (fm_smallest b) (fm_smallest c) = 0"
      using le ikc.cmp_less_le_trans [of "fm_smallest a" "fm_smallest b" "fm_smallest c"]
        ikc.cmp_le_less_trans [of "fm_smallest a" "fm_smallest b" "fm_smallest c"] by fastforce+
    then show ?thesis using ab bc True by (auto simp: BySmallestKey_iff)
  qed (use ac in \<open>simp add: BySmallestKey_iff\<close>)
qed

sublocale user_comparator \<subseteq> level_order: file_order "FileComparator ucmp level"
  using newest_first.file_order_axioms by_smallest.file_order_axioms by (simp add: FileComparator_def)

lemma AddFile_storage [simp]:
  "VersionStorage_AddFile ucmp l f v = Inr v' \<Longrightarrow> is_nvmcf v' = is_nvmcf v"
  by (auto simp: VersionStorage_AddFile_def Let_def split: if_splits)

lemma MaybeAddFile_added:
  "file_number a \<notin> deleted_files ls \<or> is_nvmcf v \<and> fm_is_nvm_level0 a \<Longrightarrow>
   MaybeAddFile ucmp ls l a (is_nvmcf v) v = VersionStorage_AddFile ucmp l a v"
  by (auto simp: MaybeAddFile_def)

lemma AddFile_cong:
  assumes "\<And>v'. is_nvmcf v' = is_nvmcf v \<Longrightarrow> g v' = h v'"
  shows "and_then (VersionStorage_AddFile ucmp l f v) g = and_then (VersionStorage_AddFile ucmp l f v) h"
  using assms by (cases "VersionStorage_AddFile ucmp l f v") auto

lemma save_loop_merged:
  assumes "list_all (\<lambda>a. file_number a \<notin> deleted_files ls \<or> is_nvmcf v \<and> fm_is_nvm_level0 a) added"
  shows "save_loop ucmp ls l base added v =
    apply_all (VersionStorage_AddFile ucmp l) (merged (FileComparator ucmp l) (\<lambda>f. file_number f \<notin> deleted_files ls) base added) v"
  using assms
proof (induction ucmp ls l base added v rule: save_loop.induct)
  case (2 ucmp ls l a added v)
  then show ?case by (auto simp: MaybeAddFile_added intro!: AddFile_cong)
next
  case (3 ucmp ls l f base v)
  then show ?case by (auto simp: MaybeAddFile_def intro!: AddFile_cong)
next
  case (4 ucmp ls l f base a added v)
  show ?case
  proof (cases "FileComparator ucmp l a f")
    case True
    then show ?thesis using 4 by (auto simp: MaybeAddFile_added intro!: AddFile_cong)
  next
    case False
    then show ?thesis using 4 by (auto simp: MaybeAddFile_def intro!: AddFile_cong)
  qed
qed simp

lemma add_files:
  assumes "l < num_levels v"
    and "l = 0 \<or> sorted_wrt (\<lambda>f g. InternalKeyComparator_Compare ucmp (fm_largest f) (fm_smallest g) < 0) (LevelFiles v l @ fs)"
  shows "apply_all (VersionStorage_AddFile ucmp l) fs v = Inr (v\<lparr>vs_files := (vs_files v)[l := LevelFiles v l @ fs]\<rparr>)"
  using assms
proof (induction fs arbitrary: v)
  case Nil
  then show ?case by (simp add: LevelFiles_def num_levels_def)
next
  case (Cons f fs)
  let ?v = "v\<lparr>vs_files := (vs_files v)[l := LevelFiles v l @ [f]]\<rparr>"
  have "l > 0 \<Longrightarrow> x \<in> set (LevelFiles v l) \<Longrightarrow> InternalKeyComparator_Compare ucmp (fm_largest x) (fm_smallest f) < 0" for x
    using Cons.prems(2) by (auto simp: sorted_wrt_append)
  then have "\<not> (l > 0 \<and> LevelFiles v l \<noteq> [] \<and> InternalKeyComparator_Compare ucmp (fm_largest (last (LevelFiles v l))) (fm_smallest f) \<ge> 0)"
    by (meson last_in_set not_le)
  then have "VersionStorage_AddFile ucmp l f v = Inr ?v" by (simp add: VersionStorage_AddFile_def Let_def)
  moreover have "apply_all (VersionStorage_AddFile ucmp l) fs ?v = Inr (?v\<lparr>vs_files := (vs_files ?v)[l := LevelFiles ?v l @ fs]\<rparr>)"
    using Cons.prems by (intro Cons.IH) (auto simp: LevelFiles_def num_levels_def)
  ultimately show ?case using Cons.prems(1) by (simp add: LevelFiles_def num_levels_def)
qed

lemma apply_all_append: "apply_all f (xs @ ys) s = and_then (apply_all f xs s) (apply_all f ys)"
  by (induction xs arbitrary: s) (auto simp: and_then_def split: sum.splits)

text \<open>The files of the levels of the saved version.\<close>

definition saved :: "(slice \<Rightarrow> slice \<Rightarrow> int) \<Rightarrow> VersionBuilder \<Rightarrow> nat \<Rightarrow> FileMetaData list" where
  "saved ucmp b l =
     merged (FileComparator ucmp l) (\<lambda>f. file_number f \<notin> deleted_files (rb_levels b ! l))
       (LevelFiles (base_vstorage b) l) (sort_by (FileComparator ucmp l) (added_files (rb_levels b ! l)))"

definition kept :: "VersionBuilder \<Rightarrow> nat \<Rightarrow> FileMetaData list" where
  "kept b l = filter (\<lambda>f. file_number f \<notin> deleted_files (rb_levels b ! l)) (LevelFiles (base_vstorage b) l)
     @ added_files (rb_levels b ! l)"

definition save_ok :: "(slice \<Rightarrow> slice \<Rightarrow> int) \<Rightarrow> VersionBuilder \<Rightarrow> bool" where
  "save_ok ucmp b \<longleftrightarrow> builder_ok b \<and> CheckConsistency ucmp (base_vstorage b) = Inr ()
     \<and> (\<forall>l < num_levels (base_vstorage b).
          sorted_wrt (FileComparator ucmp l) (LevelFiles (base_vstorage b) l)
          \<and> distinct (map file_number (LevelFiles (base_vstorage b) l))
          \<and> (l > 0 \<longrightarrow> (\<forall>f \<in> set (kept b l).
               InternalKeyComparator_Compare ucmp (fm_smallest f) (fm_largest f) \<le> 0
               \<and> (\<forall>g \<in> set (kept b l). f \<noteq> g \<longrightarrow>
                    InternalKeyComparator_Compare ucmp (fm_largest f) (fm_smallest g) < 0
                    \<or> InternalKeyComparator_Compare ucmp (fm_largest g) (fm_smallest f) < 0))))"

context user_comparator
begin

lemma saved_level:
  assumes "save_ok ucmp b" and l: "l < num_levels (base_vstorage b)"
  shows "sorted_wrt (FileComparator ucmp l) (saved ucmp b l)" and "distinct (map file_number (saved ucmp b l))"
    and "(\<lambda>n. find_no n (saved ucmp b l)) = level_map b l" and "set (saved ucmp b l) = set (kept b l)"
proof -
  let ?ls = "rb_levels b ! l" and ?base = "LevelFiles (base_vstorage b) l"
  have ok: "level_state_ok ?base ?ls" and srt: "sorted_wrt (FileComparator ucmp l) ?base" and d: "distinct (map file_number ?base)"
    using assms by (simp_all add: save_ok_def builder_ok_def)
  have da: "distinct (map file_number (added_files ?ls))" using ok by (simp add: level_state_ok_def)
  have set: "set (saved ucmp b l) = {f \<in> set ?base. file_number f \<notin> deleted_files ?ls} \<union> set (added_files ?ls)"
    by (simp add: saved_def merged_set level_order.sort_by_set)
  have apart: "file_number f \<noteq> file_number a"
    if "f \<in> set ?base" "file_number f \<notin> deleted_files ?ls" "a \<in> set (added_files ?ls)" for f a
  proof
    assume eq: "file_number f = file_number a"
    then have "find_no (file_number a) ?base \<noteq> None" using that(1) by (metis find_no_None imageI)
    then show False using ok that eq by (auto simp: level_state_ok_def split: if_splits)
  qed
  show srt': "sorted_wrt (FileComparator ucmp l) (saved ucmp b l)"
    unfolding saved_def
    by (rule level_order.merged_sorted [OF srt level_order.sort_by_sorted [OF da]])
      (use apart in \<open>simp add: level_order.sort_by_set\<close>)
  have inj: "f = g" if "f \<in> set (saved ucmp b l)" "g \<in> set (saved ucmp b l)" "file_number f = file_number g" for f g
    using that apart [of f g] apart [of g f] d da unfolding set by (auto simp: distinct_map inj_on_def)
  show dist: "distinct (map file_number (saved ucmp b l))"
    by (rule level_order.sorted_distinct_numbers [OF srt' inj])
  have "find_no n (saved ucmp b l) = Some f \<longleftrightarrow> level_map b l n = Some f" for n f
  proof (cases "find_no n (added_files ?ls)")
    case None
    then have "a \<notin> set (added_files ?ls)" if "file_number a = n" for a using that by (auto simp: find_no_None)
    then show ?thesis
      unfolding find_no_distinct [OF dist] set using None by (auto simp: level_map_def find_no_distinct [OF d])
  next
    case (Some a)
    then have "a \<in> set (saved ucmp b l)" "file_number a = n" unfolding set by (auto dest: find_no_SomeD)
    then have "find_no n (saved ucmp b l) = Some a" by (simp add: find_no_distinct [OF dist])
    then show ?thesis using Some by (simp add: level_map_def)
  qed
  then show lm: "(\<lambda>n. find_no n (saved ucmp b l)) = level_map b l" by (metis ext not_Some_eq)
  show "set (saved ucmp b l) = set (kept b l)" unfolding set by (auto simp: kept_def)
qed

lemma saved_disjoint:
  assumes "save_ok ucmp b" and l: "l < num_levels (base_vstorage b)" "l > 0"
  shows "sorted_wrt (\<lambda>f g. InternalKeyComparator_Compare ucmp (fm_largest f) (fm_smallest g) < 0) (saved ucmp b l)"
proof -
  let ?c = "InternalKeyComparator_Compare ucmp"
  note sv = saved_level [OF assms(1) l(1)]
  have "?c (fm_largest f) (fm_smallest g) < 0"
    if fg: "f \<in> set (saved ucmp b l)" "g \<in> set (saved ucmp b l)" "FileComparator ucmp l f g" for f g
  proof -
    have le: "?c (fm_smallest f) (fm_smallest g) \<le> 0" using fg(3) l(2) by (auto simp: FileComparator_def BySmallestKey_iff)
    have "f \<noteq> g" using fg(3) level_order.cmp_irrefl by blast
    then have *: "?c (fm_smallest g) (fm_largest g) \<le> 0"
        "?c (fm_largest f) (fm_smallest g) < 0 \<or> ?c (fm_largest g) (fm_smallest f) < 0"
      using assms fg(1,2) unfolding sv(4) save_ok_def by blast+
    have "?c (fm_smallest f) (fm_largest g) \<le> 0" using le *(1) by (rule ikc.cmp_le_trans)
    then show ?thesis using *(2) ikc.cmp_swap [of "fm_largest g" "fm_smallest f"] by auto
  qed
  then show ?thesis using sv(1) by (rule sorted_wrt_mono_rel)
qed

lemma neighbours_saved:
  assumes "save_ok ucmp b" and "l < num_levels (base_vstorage b)" and "l > 0" and i: "i \<in> {1..<length (saved ucmp b l)}"
  shows "neighbours_ok ucmp l (saved ucmp b l ! (i - 1)) (saved ucmp b l ! i)"
proof -
  have "i - 1 < i" "i < length (saved ucmp b l)" using i by auto
  then show ?thesis
    using saved_level(1) [OF assms(1,2)] saved_disjoint [OF assms(1-3)] assms(3)
    by (simp add: neighbours_ok_def sorted_wrt_iff_nth_less)
qed

lemma save_level_step:
  assumes ok: "save_ok ucmp b" and l: "l < num_levels (base_vstorage b)" and v: "is_nvmcf v" "l < num_levels v" "LevelFiles v l = []"
  shows "save_level ucmp b l v = Inr (v\<lparr>vs_files := (vs_files v)[l := saved ucmp b l]\<rparr>)"
proof -
  let ?ls = "rb_levels b ! l"
  let ?added = "sort_by (FileComparator ucmp l) (added_files ?ls)"
  have lok: "level_state_ok (LevelFiles (base_vstorage b) l) ?ls" using ok l by (simp add: save_ok_def builder_ok_def)
  have "sorted_wrt (FileComparator ucmp l) ?added"
    using lok by (intro level_order.sort_by_sorted) (simp add: level_state_ok_def)
  then have "InternalKeyComparator_Compare ucmp (fm_smallest (?added ! (i - 1))) (fm_smallest (?added ! i)) \<le> 0"
    if "l > 0" "i \<in> {1..<length ?added}" for i
    using that sorted_wrt_nth_less [of "FileComparator ucmp l" ?added "i - 1" i] by (auto simp: FileComparator_def BySmallestKey_iff)
  then have 1: "save_level ucmp b l v = save_loop ucmp ?ls l (LevelFiles (base_vstorage b) l) ?added v"
    by (auto simp: save_level_def Let_def list_all_iff)
  have "list_all (\<lambda>a. file_number a \<notin> deleted_files ?ls \<or> is_nvmcf v \<and> fm_is_nvm_level0 a) ?added"
    using lok v(1) by (auto simp: list_all_iff level_order.sort_by_set level_state_ok_def split: if_splits)
  then have "save_level ucmp b l v = apply_all (VersionStorage_AddFile ucmp l) (saved ucmp b l) v"
    unfolding 1 saved_def by (rule save_loop_merged)
  also have "\<dots> = Inr (v\<lparr>vs_files := (vs_files v)[l := LevelFiles v l @ saved ucmp b l]\<rparr>)"
    using saved_disjoint [OF ok l] v(3) by (intro add_files [OF v(2)]) auto
  finally show ?thesis using v(3) by simp
qed

lemma SaveTo_ok:
  assumes ok: "save_ok ucmp b" and v: "is_nvmcf v" "vs_files v = replicate (num_levels (base_vstorage b)) []"
  shows "SaveTo ucmp b v = Inr (v\<lparr>vs_files := map (saved ucmp b) [0..<num_levels (base_vstorage b)]\<rparr>)"
proof -
  let ?n = "num_levels (base_vstorage b)"
  have "apply_all (save_level ucmp b) [0..<k] v = Inr (v\<lparr>vs_files := map (saved ucmp b) [0..<k] @ replicate (?n - k) []\<rparr>)"
    if "k \<le> ?n" for k
    using that
  proof (induction k)
    case 0
    then show ?case using v(2) by simp
  next
    case (Suc k)
    let ?v = "v\<lparr>vs_files := map (saved ucmp b) [0..<k] @ replicate (?n - k) []\<rparr>"
    have "save_level ucmp b k ?v = Inr (?v\<lparr>vs_files := (vs_files ?v)[k := saved ucmp b k]\<rparr>)"
      using Suc.prems v(1) by (intro save_level_step [OF ok]) (simp_all add: num_levels_def LevelFiles_def nth_append)
    moreover have "replicate (?n - k) ([] :: FileMetaData list) = [] # replicate (?n - Suc k) []" using Suc.prems by (simp flip: replicate_Suc add: Suc_diff_Suc)
    then have "(vs_files ?v)[k := saved ucmp b k] = map (saved ucmp b) [0..<Suc k] @ replicate (?n - Suc k) []"
      by (simp add: list_update_append)
    ultimately show ?case using Suc by (simp add: apply_all_append)
  qed
  then have 1: "apply_all (save_level ucmp b) [0..<?n] v = Inr (v\<lparr>vs_files := map (saved ucmp b) [0..<?n]\<rparr>)" by simp
  have 2: "CheckConsistency ucmp v = Inr ()"
    using v(2) by (auto simp: CheckConsistency_def list_all_iff num_levels_def LevelFiles_def)
  have 3: "CheckConsistency ucmp (v\<lparr>vs_files := map (saved ucmp b) [0..<?n]\<rparr>) = Inr ()"
    using v(1) neighbours_saved [OF ok] by (auto simp: CheckConsistency_def list_all_iff num_levels_def LevelFiles_def)
  show ?thesis using 1 2 3 ok by (simp add: SaveTo_def save_ok_def)
qed

end

text \<open>A level 0 with two tables, and the edit of a column compaction that takes 3 keys of table 2 and all of table 1.\<close>

definition level0_file :: "u64 \<Rightarrow> u64 \<Rightarrow> u64 \<Rightarrow> FileMetaData" where
  "level0_file n seqno first =
     FileMetaData_init\<lparr>fm_fd := FileDescriptor_new n 0 100 seqno seqno, fm_is_nvm_level0 := True, fm_first_key_index := first\<rparr>"

definition example_builder :: VersionBuilder where
  "example_builder = VersionBuilder_new
     \<lparr>vs_files = [[level0_file 2 9 0, level0_file 1 5 0], [range_file 7 (InternalKey [3] 2 1) (InternalKey [5] 2 1)]],
      num_non_empty_levels = 2, is_nvmcf = True\<rparr>"

definition example_edit :: VersionEdit where
  "example_edit = VersionEdit_Clear
     \<lparr>ve_deleted_files := [(0, 1), (0, 2)],
      ve_new_files := [(0, level0_file 2 9 3), (1, range_file 8 (InternalKey [6] 4 1) (InternalKey [8] 4 1))]\<rparr>"

section \<open>Properties\<close>

text \<open>C17: applying an edit refines the update of the maps from file numbers to files: deleted files leave the map of their
  level, new files enter it. A table of level 0 that is deleted and added again under its number in one edit, as a column
  compaction does, ends up as added. The invariant of the builder is kept and no check fails.\<close>

theorem Builder_Apply_refines:
  assumes "builder_ok b \<and> edit_ok b e \<and> CheckConsistency ucmp (base_vstorage b) = Inr ()"
  shows "\<exists>b'. Builder_Apply ucmp e b = Inr b' \<and> builder_ok b' \<and> base_vstorage b' = base_vstorage b
    \<and> (\<forall>l < num_levels (base_vstorage b). level_map b' l = edit_map e l (level_map b l))"
  using Builder_Apply_ok assms by blast

theorem Builder_Apply_refines_witness:
  "\<exists>b'. Builder_Apply Bytewise_Compare example_edit example_builder = Inr b' \<and> builder_ok b'
    \<and> level_map b' 0 1 = None \<and> level_map b' 0 2 = Some (level0_file 2 9 3)"
proof -
  have "builder_ok example_builder" by code_simp
  moreover have "edit_ok example_builder example_edit" by code_simp
  moreover have "CheckConsistency Bytewise_Compare (base_vstorage example_builder) = Inr ()" by code_simp
  ultimately have "\<exists>b'. Builder_Apply Bytewise_Compare example_edit example_builder = Inr b' \<and> builder_ok b'
      \<and> base_vstorage b' = base_vstorage example_builder
      \<and> (\<forall>l < num_levels (base_vstorage example_builder). level_map b' l = edit_map example_edit l (level_map example_builder l))"
    by (intro Builder_Apply_refines conjI)
  moreover have "0 < num_levels (base_vstorage example_builder)" by code_simp
  moreover have "edit_map example_edit 0 (level_map example_builder 0) 1 = None" by code_simp
  moreover have "edit_map example_edit 0 (level_map example_builder 0) 2 = Some (level0_file 2 9 3)" by code_simp
  ultimately show ?thesis by auto
qed

text \<open>C18: \<open>SaveTo\<close> writes the state of the builder to a new version of an NVM column family: every level has exactly the
  files of its map, each once, in the order of its comparator, and the files of a level above 0 are disjoint. No check
  fails if the files that are to be saved are disjoint.\<close>

theorem SaveTo_correct:
  assumes "user_comparator ucmp \<and> save_ok ucmp b \<and> is_nvmcf v \<and> vs_files v = replicate (num_levels (base_vstorage b)) []"
  shows "\<exists>v'. SaveTo ucmp b v = Inr v' \<and> num_levels v' = num_levels (base_vstorage b)
    \<and> (\<forall>l < num_levels (base_vstorage b).
         (\<lambda>n. find_no n (LevelFiles v' l)) = level_map b l \<and> distinct (map file_number (LevelFiles v' l))
         \<and> sorted_wrt (FileComparator ucmp l) (LevelFiles v' l)
         \<and> (l > 0 \<longrightarrow> sorted_wrt (\<lambda>f g. InternalKeyComparator_Compare ucmp (fm_largest f) (fm_smallest g) < 0) (LevelFiles v' l)))"
proof -
  have uc: "user_comparator ucmp" and ok: "save_ok ucmp b" using assms by simp_all
  show ?thesis
    using user_comparator.SaveTo_ok [OF uc ok, of v] user_comparator.saved_level [OF uc ok]
      user_comparator.saved_disjoint [OF uc ok] assms
    by (auto simp: num_levels_def LevelFiles_def)
qed

theorem SaveTo_correct_witness:
  "\<exists>v'. SaveTo Bytewise_Compare example_builder \<lparr>vs_files = [[], []], num_non_empty_levels = 0, is_nvmcf = True\<rparr> = Inr v'
    \<and> (\<lambda>n. find_no n (LevelFiles v' 0)) = level_map example_builder 0"
proof -
  let ?v = "\<lparr>vs_files = [[], []], num_non_empty_levels = 0, is_nvmcf = True\<rparr>"
  have "save_ok Bytewise_Compare example_builder" by code_simp
  moreover have "is_nvmcf ?v \<and> vs_files ?v = replicate (num_levels (base_vstorage example_builder)) []" by code_simp
  moreover have "0 < num_levels (base_vstorage example_builder)" by code_simp
  ultimately show ?thesis
    using SaveTo_correct [of Bytewise_Compare example_builder ?v] bytewise_keys.user_comparator_axioms by blast
qed

end
