(* ===== verification/IterKeys.thy ===== *)
theory IterKeys
  imports DBFormat
begin

text \<open>
  Class \<open>IterKey\<close> of \<open>db/dbformat.h\<close>: the key an iterator stands on, either copied into a buffer
  it owns (a 32 byte inline array, or a heap array once a key was longer) or pinned in memory
  owned by someone else. Writes to the buffer are bounds-checked in the model, and a buffer that
  was reallocated under the key leaves a dangling pointer, so that memory safety is a theorem.
\<close>

section \<open>State\<close>

text \<open>
  \<open>key_\<close> points to \<open>buf_\<close>, to memory outside (with its contents), or to a buffer that has been
  freed. \<open>heap\<close> is the array \<open>buf_\<close> points to when it is not \<open>space_\<close>.
\<close>

datatype KeyLoc = InBuf | Pinned slice | Dangling

record IterKey =
  ik_space :: slice
  ik_heap :: "slice option"
  ik_buf_size :: nat
  ik_key :: KeyLoc
  ik_key_size :: nat
  ik_is_user_key :: bool

definition kSpaceSize :: nat where "kSpaceSize = 32"

text \<open>Fresh memory holds unspecified bytes; no result below depends on the zeros chosen here.\<close>

definition new_bytes :: "nat \<Rightarrow> slice" where
  "new_bytes n = replicate n 0"

definition IterKey_init :: IterKey where
  "IterKey_init =
     \<lparr>ik_space = new_bytes kSpaceSize, ik_heap = None, ik_buf_size = kSpaceSize, ik_key = InBuf,
      ik_key_size = 0, ik_is_user_key = True\<rparr>"

definition ik_buf :: "IterKey \<Rightarrow> slice" where
  "ik_buf k = (case ik_heap k of None \<Rightarrow> ik_space k | Some b \<Rightarrow> b)"

definition set_buf :: "slice \<Rightarrow> IterKey \<Rightarrow> IterKey" where
  "set_buf b k =
     (case ik_heap k of None \<Rightarrow> k\<lparr>ik_space := b\<rparr> | Some _ \<Rightarrow> k\<lparr>ik_heap := Some b\<rparr>)"

text \<open>\<open>memcpy(buf_ + off, data, n)\<close>\<close>

definition memcpy_buf :: "nat \<Rightarrow> slice \<Rightarrow> IterKey \<Rightarrow> IterKey result" where
  "memcpy_buf off d k =
     (if off + length d \<le> length (ik_buf k)
      then Inr (set_buf (take off (ik_buf k) @ d @ drop (off + length d) (ik_buf k)) k)
      else Inl OutOfBounds)"

text \<open>\<open>n\<close> bytes from \<open>key_\<close> on.\<close>

definition read_key :: "nat \<Rightarrow> IterKey \<Rightarrow> slice result" where
  "read_key n k =
     (case ik_key k of
        InBuf \<Rightarrow> if n \<le> length (ik_buf k) then Inr (take n (ik_buf k)) else Inl OutOfBounds
      | Pinned p \<Rightarrow> if n \<le> length p then Inr (take n p) else Inl OutOfBounds
      | Dangling \<Rightarrow> Inl OutOfBounds)"

section \<open>Operations\<close>

definition IsKeyPinned :: "IterKey \<Rightarrow> bool" where
  "IsKeyPinned k = (ik_key k \<noteq> InBuf)"

definition SetIsUserKey :: "bool \<Rightarrow> IterKey \<Rightarrow> IterKey" where
  "SetIsUserKey b k = k\<lparr>ik_is_user_key := b\<rparr>"

definition GetKey :: "IterKey \<Rightarrow> slice result" where
  "GetKey k = read_key (ik_key_size k) k"

definition GetUserKey :: "IterKey \<Rightarrow> slice result" where
  "GetUserKey k =
     (if ik_is_user_key k then read_key (ik_key_size k) k
      else if ik_key_size k \<ge> 8 then read_key (ik_key_size k - 8) k
      else Inl AssertFailed)"

definition IterKey_Clear :: "IterKey \<Rightarrow> IterKey" where
  "IterKey_Clear k = k\<lparr>ik_key_size := 0\<rparr>"

text \<open>A key in a heap buffer dangles once the buffer is deleted, and a key in \<open>space_\<close> is outside
  \<open>buf_\<close> once \<open>buf_\<close> is a new array; the latter still reads what \<open>space_\<close> holds.\<close>

definition ResetBuffer :: "IterKey \<Rightarrow> IterKey" where
  "ResetBuffer k =
     (case ik_heap k of
        None \<Rightarrow> k\<lparr>ik_buf_size := kSpaceSize, ik_key_size := 0\<rparr>
      | Some _ \<Rightarrow>
          k\<lparr>ik_heap := None, ik_buf_size := kSpaceSize, ik_key_size := 0,
             ik_key := (if ik_key k = InBuf then Dangling else ik_key k)\<rparr>)"

definition EnlargeBuffer :: "nat \<Rightarrow> IterKey \<Rightarrow> IterKey" where
  "EnlargeBuffer n k =
     (let k = ResetBuffer k
      in k\<lparr>ik_heap := Some (new_bytes n), ik_buf_size := n,
           ik_key := (if ik_key k = InBuf then Pinned (ik_space k) else ik_key k)\<rparr>)"

definition EnlargeBufferIfNeeded :: "nat \<Rightarrow> IterKey \<Rightarrow> IterKey" where
  "EnlargeBufferIfNeeded n k = (if n > ik_buf_size k then EnlargeBuffer n k else k)"

definition Reserve :: "nat \<Rightarrow> IterKey \<Rightarrow> IterKey" where
  "Reserve n k = (EnlargeBufferIfNeeded n k)\<lparr>ik_key_size := n\<rparr>"

definition SetKeyImpl :: "slice \<Rightarrow> bool \<Rightarrow> IterKey \<Rightarrow> IterKey result" where
  "SetKeyImpl key copy k =
     (if copy then
        case memcpy_buf 0 key (EnlargeBufferIfNeeded (length key) k) of
          Inl e \<Rightarrow> Inl e
        | Inr k' \<Rightarrow> Inr (k'\<lparr>ik_key := InBuf, ik_key_size := length key\<rparr>)
      else Inr (k\<lparr>ik_key := Pinned key, ik_key_size := length key\<rparr>))"

definition SetKey :: "slice \<Rightarrow> bool \<Rightarrow> IterKey \<Rightarrow> IterKey result" where
  "SetKey key copy k = SetKeyImpl key copy k"

definition SetUserKey :: "slice \<Rightarrow> bool \<Rightarrow> IterKey \<Rightarrow> IterKey result" where
  "SetUserKey key copy k = SetKeyImpl key copy (k\<lparr>ik_is_user_key := True\<rparr>)"

definition SetInternalKey :: "slice \<Rightarrow> bool \<Rightarrow> IterKey \<Rightarrow> IterKey result" where
  "SetInternalKey key copy k = SetKeyImpl key copy (k\<lparr>ik_is_user_key := False\<rparr>)"

definition SetInternalKey_parts ::
    "slice \<Rightarrow> slice \<Rightarrow> u64 \<Rightarrow> ValueType \<Rightarrow> IterKey \<Rightarrow> IterKey result" where
  "SetInternalKey_parts key_prefix ukey s t k =
     (let psize = length key_prefix; usize = length ukey;
          k1 = EnlargeBufferIfNeeded (psize + usize + 8) k
      in case (if psize > 0 then memcpy_buf 0 key_prefix k1 else Inr k1) of
           Inl e \<Rightarrow> Inl e
         | Inr k2 \<Rightarrow>
             (case memcpy_buf psize ukey k2 of
                Inl e \<Rightarrow> Inl e
              | Inr k3 \<Rightarrow>
                  (case memcpy_buf (usize + psize)
                          (EncodeFixed64 kLittleEndian (PackSequenceAndType s t)) k3 of
                     Inl e \<Rightarrow> Inl e
                   | Inr k4 \<Rightarrow>
                       Inr (k4\<lparr>ik_key := InBuf, ik_key_size := psize + usize + 8,
                               ik_is_user_key := False\<rparr>))))"

definition OwnKey :: "IterKey \<Rightarrow> IterKey result" where
  "OwnKey k =
     (if \<not> IsKeyPinned k then Inl AssertFailed
      else
        let k1 = Reserve (ik_key_size k) k
        in case read_key (ik_key_size k1) k1 of
             Inl e \<Rightarrow> Inl e
           | Inr d \<Rightarrow>
               (case memcpy_buf 0 d k1 of
                  Inl e \<Rightarrow> Inl e
                | Inr k2 \<Rightarrow> Inr (k2\<lparr>ik_key := InBuf\<rparr>)))"

definition IterKey_UpdateInternalKey :: "u64 \<Rightarrow> ValueType \<Rightarrow> IterKey \<Rightarrow> IterKey result" where
  "IterKey_UpdateInternalKey s t k =
     (if IsKeyPinned k \<or> ik_key_size k < 8 then Inl AssertFailed
      else memcpy_buf (ik_key_size k - 8)
             (EncodeFixed64 kLittleEndian (push_bit 8 s OR ucast t)) k)"

definition TrimAppend :: "nat \<Rightarrow> slice \<Rightarrow> nat \<Rightarrow> IterKey \<Rightarrow> IterKey result" where
  "TrimAppend shared_len non_shared_data non_shared_len k =
     (if shared_len > ik_key_size k then Inl AssertFailed
      else if non_shared_len > length non_shared_data then Inl OutOfBounds
      else
        let total_size = shared_len + non_shared_len
        in case (if IsKeyPinned k then
                   (let k1 = EnlargeBufferIfNeeded total_size k
                    in case read_key shared_len k1 of
                         Inl e \<Rightarrow> Inl e | Inr d \<Rightarrow> memcpy_buf 0 d k1)
                 else if total_size > ik_buf_size k then
                   (case read_key shared_len k of
                      Inl e \<Rightarrow> Inl e
                    | Inr d \<Rightarrow>
                        Inr (k\<lparr>ik_heap := Some (d @ new_bytes (total_size - shared_len)),
                               ik_buf_size := total_size\<rparr>))
                 else Inr k) of
             Inl e \<Rightarrow> Inl e
           | Inr k2 \<Rightarrow>
               (case memcpy_buf shared_len (take non_shared_len non_shared_data) k2 of
                  Inl e \<Rightarrow> Inl e
                | Inr k3 \<Rightarrow> Inr (k3\<lparr>ik_key := InBuf, ik_key_size := total_size\<rparr>)))"

definition EncodeLengthPrefixedKey :: "slice \<Rightarrow> IterKey \<Rightarrow> IterKey result" where
  "EncodeLengthPrefixedKey key k =
     (let size = length key;
          k1 = EnlargeBufferIfNeeded (size + VarintLength (of_nat size)) k;
          klen = EncodeVarint32 (of_nat size)
      in case memcpy_buf 0 klen k1 of
           Inl e \<Rightarrow> Inl e
         | Inr k2 \<Rightarrow>
             (case memcpy_buf (length klen) key k2 of
                Inl e \<Rightarrow> Inl e
              | Inr k3 \<Rightarrow> Inr (k3\<lparr>ik_key := InBuf, ik_is_user_key := True\<rparr>)))"

section \<open>Invariant\<close>

text \<open>The buffer has the size recorded for it, and the key lies within the memory it points to.\<close>

definition buf_ok :: "IterKey \<Rightarrow> bool" where
  "buf_ok k \<longleftrightarrow> length (ik_space k) = kSpaceSize \<and> ik_buf_size k = length (ik_buf k)"

definition IterKey_ok :: "IterKey \<Rightarrow> bool" where
  "IterKey_ok k \<longleftrightarrow> buf_ok k \<and> (\<exists>key. GetKey k = Inr key)"

lemma ik_buf_update [simp]:
  "ik_buf (k\<lparr>ik_key := l\<rparr>) = ik_buf k" "ik_buf (k\<lparr>ik_key_size := n\<rparr>) = ik_buf k"
  "ik_buf (k\<lparr>ik_is_user_key := u\<rparr>) = ik_buf k"
  by (simp_all add: ik_buf_def split: option.splits)

lemma read_key_update [simp]:
  "read_key m (k\<lparr>ik_key_size := n\<rparr>) = read_key m k"
  by (simp add: read_key_def split: KeyLoc.split)

lemma buf_ok_update [simp]:
  "buf_ok (k\<lparr>ik_key := l\<rparr>) = buf_ok k" "buf_ok (k\<lparr>ik_key_size := n\<rparr>) = buf_ok k"
  "buf_ok (k\<lparr>ik_is_user_key := u\<rparr>) = buf_ok k"
  by (simp_all add: buf_ok_def)

lemma memcpy_buf_ok:
  assumes "buf_ok k" and "off + length d \<le> ik_buf_size k"
  obtains k' where "memcpy_buf off d k = Inr k'" and "buf_ok k'"
    and "ik_buf k' = take off (ik_buf k) @ d @ drop (off + length d) (ik_buf k)"
    and "ik_buf_size k' = ik_buf_size k" and "ik_key k' = ik_key k"
    and "ik_key_size k' = ik_key_size k" and "ik_is_user_key k' = ik_is_user_key k"
proof -
  show thesis
    by (rule that [of "set_buf (take off (ik_buf k) @ d @ drop (off + length d) (ik_buf k)) k"])
      (use assms in \<open>auto simp: memcpy_buf_def set_buf_def ik_buf_def buf_ok_def split: option.splits\<close>)
qed

lemma EnlargeBufferIfNeeded_ok:
  assumes "buf_ok k"
  shows "buf_ok (EnlargeBufferIfNeeded n k)" and "n \<le> ik_buf_size (EnlargeBufferIfNeeded n k)"
    and "ik_is_user_key (EnlargeBufferIfNeeded n k) = ik_is_user_key k"
  using assms
  by (auto simp: EnlargeBufferIfNeeded_def EnlargeBuffer_def ResetBuffer_def buf_ok_def ik_buf_def
      new_bytes_def kSpaceSize_def Let_def split: option.splits)

text \<open>A key outside the buffer survives the buffer being reallocated.\<close>

lemma read_key_enlarge:
  "IsKeyPinned k \<Longrightarrow> read_key n (EnlargeBufferIfNeeded m k) = read_key n k"
  by (auto simp: EnlargeBufferIfNeeded_def EnlargeBuffer_def ResetBuffer_def IsKeyPinned_def
      read_key_def Let_def split: option.splits KeyLoc.splits)

lemma read_key_take:
  "read_key n k = Inr key \<Longrightarrow> m \<le> n \<Longrightarrow> read_key m k = Inr (take m key) \<and> length key = n"
  by (auto simp: read_key_def split: KeyLoc.splits if_splits)

lemma GetKey_in_buf:
  assumes "buf_ok k'" and "ik_buf k' = key @ rest" and "r = k'\<lparr>ik_key := InBuf, ik_key_size := length key\<rparr>"
  shows "GetKey r = Inr key \<and> IterKey_ok r \<and> \<not> IsKeyPinned r"
  using assms
  by (auto simp: GetKey_def read_key_def IterKey_ok_def IsKeyPinned_def)

lemma IterKey_init_ok: "IterKey_ok IterKey_init \<and> GetKey IterKey_init = Inr []"
  by (simp add: IterKey_ok_def IterKey_init_def GetKey_def read_key_def buf_ok_def ik_buf_def
      new_bytes_def)

lemma SetKeyImpl_ok:
  assumes "buf_ok k"
  shows "\<exists>k'. SetKeyImpl key copy k = Inr k' \<and> IterKey_ok k' \<and> GetKey k' = Inr key
    \<and> IsKeyPinned k' = (\<not> copy) \<and> ik_is_user_key k' = ik_is_user_key k"
proof (cases copy)
  case True
  let ?k = "EnlargeBufferIfNeeded (length key) k"
  obtain k' where k': "memcpy_buf 0 key ?k = Inr k'" "buf_ok k'"
    "ik_buf k' = take 0 (ik_buf ?k) @ key @ drop (0 + length key) (ik_buf ?k)"
    "ik_is_user_key k' = ik_is_user_key ?k"
    using EnlargeBufferIfNeeded_ok(1,2) [OF assms, of "length key"]
      memcpy_buf_ok [of ?k 0 key thesis] by auto
  then have "ik_buf k' = key @ drop (length key) (ik_buf ?k)" by simp
  with k'(1,4) True show ?thesis
    using GetKey_in_buf [OF k'(2) _ refl, of key] EnlargeBufferIfNeeded_ok(3) [OF assms]
    by (simp add: SetKeyImpl_def)
next
  case False
  with assms show ?thesis
    by (simp add: SetKeyImpl_def IterKey_ok_def GetKey_def read_key_def IsKeyPinned_def)
qed

lemma TrimAppend_prefix:
  assumes "IterKey_ok k" and "GetKey k = Inr old" and "shared \<le> length old"
  obtains k2 where "buf_ok k2" and "(shared + n) \<le> ik_buf_size k2" and "take shared (ik_buf k2) = take shared old"
    and "TrimAppend shared d n k =
      (if n > length d then Inl OutOfBounds
       else case memcpy_buf shared (take n d) k2 of
              Inl e \<Rightarrow> Inl e
            | Inr k3 \<Rightarrow> Inr (k3\<lparr>ik_key := InBuf, ik_key_size := (shared + n)\<rparr>))"
proof -
  have buf: "buf_ok k" using assms(1) by (simp add: IterKey_ok_def)
  have key: "read_key shared k = Inr (take shared old)" and len: "ik_key_size k = length old"
    using read_key_take [OF assms(2) [unfolded GetKey_def], of shared] assms(3)
      read_key_take [OF assms(2) [unfolded GetKey_def] order_refl] by auto
  consider (pinned) "IsKeyPinned k" | (grow) "\<not> IsKeyPinned k" "(shared + n) > ik_buf_size k"
    | (fits) "\<not> IsKeyPinned k" "(shared + n) \<le> ik_buf_size k" by linarith
  then show thesis
  proof cases
    case pinned
    let ?k = "EnlargeBufferIfNeeded (shared + n) k"
    have "0 + length (take shared old) \<le> ik_buf_size ?k"
      using EnlargeBufferIfNeeded_ok(2) [OF buf, of "shared + n"] by (simp add: min_def)
    with EnlargeBufferIfNeeded_ok(1) [OF buf, of "shared + n"] obtain k2 where k2:
      "memcpy_buf 0 (take shared old) ?k = Inr k2" "buf_ok k2" "ik_buf_size k2 = ik_buf_size ?k"
      "ik_buf k2 = take 0 (ik_buf ?k) @ take shared old @ drop (0 + length (take shared old)) (ik_buf ?k)"
      by (rule memcpy_buf_ok)
    with pinned key len assms(3) EnlargeBufferIfNeeded_ok(2) [OF buf, of "shared + n"] that [of k2]
    show thesis by (auto simp: TrimAppend_def Let_def read_key_enlarge cong: if_cong)
  next
    case grow
    with key len assms(3) buf that
      [of "k\<lparr>ik_heap := Some (take shared old @ new_bytes ((shared + n) - shared)), ik_buf_size := (shared + n)\<rparr>"]
    show thesis by (auto simp: TrimAppend_def Let_def buf_ok_def ik_buf_def new_bytes_def
        cong: if_cong)
  next
    case fits
    with key len assms(3) buf that [of k] show thesis
      by (auto simp: TrimAppend_def Let_def read_key_def IsKeyPinned_def split: if_splits
        cong: if_cong)
  qed
qed

lemma TrimAppend_ok:
  assumes "IterKey_ok k" and "GetKey k = Inr old" and "shared \<le> length old" and "n \<le> length d"
  shows "\<exists>k'. TrimAppend shared d n k = Inr k' \<and> IterKey_ok k'
    \<and> GetKey k' = Inr (take shared old @ take n d) \<and> \<not> IsKeyPinned k'"
proof -
  obtain k2 where k2: "buf_ok k2" "shared + n \<le> ik_buf_size k2"
    "take shared (ik_buf k2) = take shared old"
    and trim: "TrimAppend shared d n k =
      (if n > length d then Inl OutOfBounds
       else case memcpy_buf shared (take n d) k2 of
              Inl e \<Rightarrow> Inl e
            | Inr k3 \<Rightarrow> Inr (k3\<lparr>ik_key := InBuf, ik_key_size := shared + n\<rparr>))"
    using assms(1-3) by (rule TrimAppend_prefix)
  have "shared + length (take n d) \<le> ik_buf_size k2" using k2(2) by simp
  with k2(1) obtain k3 where k3: "memcpy_buf shared (take n d) k2 = Inr k3" "buf_ok k3"
    "ik_buf k3 = take shared (ik_buf k2) @ take n d @ drop (shared + length (take n d)) (ik_buf k2)"
    by (rule memcpy_buf_ok)
  from k3(3) have buf: "ik_buf k3 =
      (take shared old @ take n d) @ drop (shared + length (take n d)) (ik_buf k2)"
    by (simp add: k2(3))
  have "length (take shared old @ take n d) = shared + n" using assms by simp
  with GetKey_in_buf [OF k3(2) buf refl] k3(1) trim assms(4) show ?thesis by simp
qed

lemma SetInternalKey_parts_ok:
  assumes "buf_ok k"
  shows "\<exists>k'. SetInternalKey_parts pre u s t k = Inr k' \<and> IterKey_ok k'
    \<and> GetKey k' = Inr (pre @ InternalKey u s t) \<and> GetUserKey k' = Inr (pre @ u)"
proof -
  let ?n = "length pre + length u + 8" and ?f = "EncodeFixed64 kLittleEndian (PackSequenceAndType s t)"
  let ?k1 = "EnlargeBufferIfNeeded ?n k"
  have k1: "buf_ok ?k1" "?n \<le> ik_buf_size ?k1" by (simp_all add: EnlargeBufferIfNeeded_ok assms)
  obtain k2 where k2: "(if length pre > 0 then memcpy_buf 0 pre ?k1 else Inr ?k1) = Inr k2"
    "buf_ok k2" "?n \<le> ik_buf_size k2" "take (length pre) (ik_buf k2) = pre"
  proof (cases "pre = []")
    case True
    with k1 show thesis by (intro that [of ?k1]) simp_all
  next
    case False
    have "0 + length pre \<le> ik_buf_size ?k1" using k1(2) by simp
    with k1(1) obtain k2 where "memcpy_buf 0 pre ?k1 = Inr k2" "buf_ok k2"
      "ik_buf k2 = take 0 (ik_buf ?k1) @ pre @ drop (0 + length pre) (ik_buf ?k1)"
      "ik_buf_size k2 = ik_buf_size ?k1" by (rule memcpy_buf_ok)
    with False k1 show thesis by (intro that [of k2]) simp_all
  qed
  have "length pre + length u \<le> ik_buf_size k2" using k2(3) by simp
  with k2(2) obtain k3 where k3: "memcpy_buf (length pre) u k2 = Inr k3" "buf_ok k3"
    "ik_buf k3 = take (length pre) (ik_buf k2) @ u @ drop (length pre + length u) (ik_buf k2)"
    "ik_buf_size k3 = ik_buf_size k2" by (rule memcpy_buf_ok)
  have "length u + length pre + length ?f \<le> ik_buf_size k3" using k2(3) k3(4) by simp
  with k3(2) obtain k4 where k4: "memcpy_buf (length u + length pre) ?f k3 = Inr k4" "buf_ok k4"
    "ik_buf k4 = take (length u + length pre) (ik_buf k3) @ ?f @
      drop (length u + length pre + length ?f) (ik_buf k3)"
    by (rule memcpy_buf_ok)
  have buf4: "ik_buf k4 = pre @ u @ ?f @ drop (length u + length pre + length ?f) (ik_buf k3)"
    by (simp only: k4(3) k3(3) k2(4)) simp
  let ?r = "k4\<lparr>ik_key := InBuf, ik_key_size := ?n, ik_is_user_key := False\<rparr>"
  have "SetInternalKey_parts pre u s t k = Inr ?r"
    using k2(1) k3(1) k4(1) by (simp add: SetInternalKey_parts_def Let_def)
  moreover have "GetKey ?r = Inr (pre @ u @ ?f)"
    using buf4 by (simp add: GetKey_def read_key_def)
  moreover have "GetUserKey ?r = Inr (pre @ u)"
    using buf4 by (simp add: GetUserKey_def read_key_def)
  ultimately show ?thesis using k4(2) by (simp add: IterKey_ok_def InternalKey_append)
qed

lemma OwnKey_ok:
  assumes "IterKey_ok k" and "GetKey k = Inr key" and "IsKeyPinned k"
  shows "\<exists>k'. OwnKey k = Inr k' \<and> IterKey_ok k' \<and> GetKey k' = Inr key \<and> \<not> IsKeyPinned k'"
proof -
  let ?n = "ik_key_size k" and ?k1 = "Reserve (ik_key_size k) k"
  have len: "length key = ?n" using read_key_take assms(2) unfolding GetKey_def by blast
  have buf: "buf_ok k" using assms(1) by (simp add: IterKey_ok_def)
  have k1: "buf_ok ?k1" "?n \<le> ik_buf_size ?k1" "ik_key_size ?k1 = ?n"
    using EnlargeBufferIfNeeded_ok(1,2) [OF buf, of ?n] by (simp_all add: Reserve_def)
  have read: "read_key ?n ?k1 = Inr key"
    using assms(2) read_key_enlarge [OF assms(3), of ?n ?n]
    by (simp add: Reserve_def GetKey_def)
  have "0 + length key \<le> ik_buf_size ?k1" using k1(2) len by simp
  with k1(1) obtain k2 where k2: "memcpy_buf 0 key ?k1 = Inr k2" "buf_ok k2"
    "ik_buf k2 = take 0 (ik_buf ?k1) @ key @ drop (0 + length key) (ik_buf ?k1)"
    "ik_key_size k2 = ik_key_size ?k1" by (rule memcpy_buf_ok)
  then have buf2: "ik_buf k2 = key @ drop (length key) (ik_buf ?k1)" by simp
  have "k2\<lparr>ik_key := InBuf\<rparr> = k2\<lparr>ik_key := InBuf, ik_key_size := length key\<rparr>"
    using k2(4) k1(3) by (simp add: len)
  with GetKey_in_buf [OF k2(2) buf2 refl] k2(1) read k1(3) assms(3) show ?thesis
    by (simp add: OwnKey_def Let_def)
qed

lemma IterKey_UpdateInternalKey_ok:
  assumes "IterKey_ok k" and "GetKey k = Inr key" and "\<not> IsKeyPinned k" and "8 \<le> length key"
  shows "\<exists>k'. IterKey_UpdateInternalKey s t k = Inr k' \<and> IterKey_ok k'
    \<and> GetKey k' = Inr (UpdateInternalKey key s t)"
proof -
  let ?f = "EncodeFixed64 kLittleEndian (push_bit 8 s OR ucast t)"
  have len: "ik_key_size k = length key" and key: "key = take (length key) (ik_buf k)"
    and le: "length key \<le> length (ik_buf k)"
    using assms(2,3) by (auto simp: GetKey_def read_key_def IsKeyPinned_def split: if_splits)
  have buf: "buf_ok k" "length (ik_buf k) = ik_buf_size k"
    using assms(1) by (simp_all add: IterKey_ok_def buf_ok_def)
  have "length key - 8 + length ?f \<le> ik_buf_size k" using buf(2) le assms(4) by simp
  with buf(1) obtain k' where k': "memcpy_buf (length key - 8) ?f k = Inr k'" "buf_ok k'"
    "ik_buf k' = take (length key - 8) (ik_buf k) @ ?f @ drop (length key - 8 + length ?f) (ik_buf k)"
    "ik_key k' = ik_key k" "ik_key_size k' = ik_key_size k"
    by (rule memcpy_buf_ok)
  have "take (length key - 8) (ik_buf k) = take (length key - 8) key"
    by (subst key) (simp add: min_def)
  with k' assms(3,4) have "GetKey k' = Inr (UpdateInternalKey key s t)"
    by (auto simp: GetKey_def read_key_def IsKeyPinned_def len UpdateInternalKey_def)
  with k' assms(3,4) show ?thesis
    by (simp add: IterKey_UpdateInternalKey_def len IterKey_ok_def)
qed

section \<open>Refinement of the key it holds\<close>

text \<open>The calls a client makes, what the asserts of each demand, and what each does to the key.\<close>

datatype IterKeyOp =
    OpSetKey slice bool
  | OpSetUserKey slice bool
  | OpSetInternalKey slice bool
  | OpSetInternalKeyParts slice slice u64 ValueType
  | OpTrimAppend nat slice nat
  | OpOwnKey
  | OpUpdateInternalKey u64 ValueType
  | OpClear

fun op_pre :: "IterKeyOp \<Rightarrow> bool \<Rightarrow> slice \<Rightarrow> bool" where
  "op_pre (OpTrimAppend shared d n) pinned key \<longleftrightarrow> shared \<le> length key \<and> n \<le> length d"
| "op_pre OpOwnKey pinned key \<longleftrightarrow> pinned"
| "op_pre (OpUpdateInternalKey s t) pinned key \<longleftrightarrow> \<not> pinned \<and> 8 \<le> length key"
| "op_pre _ pinned key \<longleftrightarrow> True"

fun op_spec :: "IterKeyOp \<Rightarrow> slice \<Rightarrow> slice" where
  "op_spec (OpSetKey k c) key = k"
| "op_spec (OpSetUserKey k c) key = k"
| "op_spec (OpSetInternalKey k c) key = k"
| "op_spec (OpSetInternalKeyParts p u s t) key = p @ InternalKey u s t"
| "op_spec (OpTrimAppend shared d n) key = take shared key @ take n d"
| "op_spec OpOwnKey key = key"
| "op_spec (OpUpdateInternalKey s t) key = UpdateInternalKey key s t"
| "op_spec OpClear key = []"

fun op_exec :: "IterKeyOp \<Rightarrow> IterKey \<Rightarrow> IterKey result" where
  "op_exec (OpSetKey key c) k = SetKey key c k"
| "op_exec (OpSetUserKey key c) k = SetUserKey key c k"
| "op_exec (OpSetInternalKey key c) k = SetInternalKey key c k"
| "op_exec (OpSetInternalKeyParts p u s t) k = SetInternalKey_parts p u s t k"
| "op_exec (OpTrimAppend shared d n) k = TrimAppend shared d n k"
| "op_exec OpOwnKey k = OwnKey k"
| "op_exec (OpUpdateInternalKey s t) k = IterKey_UpdateInternalKey s t k"
| "op_exec OpClear k = Inr (IterKey_Clear k)"

lemma IterKey_Clear_ok:
  "IterKey_ok k \<Longrightarrow> IterKey_ok (IterKey_Clear k) \<and> GetKey (IterKey_Clear k) = Inr []"
  by (auto simp: IterKey_ok_def IterKey_Clear_def GetKey_def read_key_def
      split: KeyLoc.splits if_splits)

text \<open>An \<open>IterKey\<close> refines the bytes of the key it stands on. In a state where the key lies
  within its memory, every operation whose asserts hold writes only inside its buffer, succeeds,
  leaves such a state again and has exactly the effect on the key that its contract names:
  in particular \<open>TrimAppend\<close> keeps the shared prefix also when the buffer is reallocated.\<close>

theorem IterKey_refines_key:
  "IterKey_ok k \<and> GetKey k = Inr key \<and> op_pre op (IsKeyPinned k) key \<Longrightarrow>
     \<exists>k'. op_exec op k = Inr k' \<and> IterKey_ok k' \<and> GetKey k' = Inr (op_spec op key)"
proof -
  assume *: "IterKey_ok k \<and> GetKey k = Inr key \<and> op_pre op (IsKeyPinned k) key"
  then have buf: "buf_ok k" by (simp add: IterKey_ok_def)
  show ?thesis
  proof (cases op)
    case (OpSetKey key' c)
    then show ?thesis using SetKeyImpl_ok [OF buf, of key' c] by (auto simp: SetKey_def)
  next
    case (OpSetUserKey key' c)
    then show ?thesis
      using SetKeyImpl_ok [of "k\<lparr>ik_is_user_key := True\<rparr>" key' c] buf by (auto simp: SetUserKey_def)
  next
    case (OpSetInternalKey key' c)
    then show ?thesis
      using SetKeyImpl_ok [of "k\<lparr>ik_is_user_key := False\<rparr>" key' c] buf
      by (auto simp: SetInternalKey_def)
  next
    case (OpSetInternalKeyParts p u s t)
    then show ?thesis using SetInternalKey_parts_ok [OF buf, of p u s t] by auto
  next
    case (OpTrimAppend shared d n)
    then show ?thesis using * TrimAppend_ok [of k key shared n d] by auto
  next
    case OpOwnKey
    then show ?thesis using * OwnKey_ok [of k key] by auto
  next
    case (OpUpdateInternalKey s t)
    then show ?thesis using * IterKey_UpdateInternalKey_ok [of k key s t] by auto
  next
    case OpClear
    then show ?thesis using * IterKey_Clear_ok by auto
  qed
qed

theorem IterKey_refines_key_witness:
  "\<exists>k'. op_exec (OpTrimAppend 0 [1, 2, 3] 2) IterKey_init = Inr k' \<and> IterKey_ok k'
     \<and> GetKey k' = Inr [1, 2]"
  using IterKey_refines_key [of IterKey_init "[]" "OpTrimAppend 0 [1, 2, 3] 2"] IterKey_init_ok
  by simp

text \<open>\<open>EncodeLengthPrefixedKey\<close> does not update \<open>key_size_\<close>: on a fresh \<open>IterKey\<close> the key then
  reads as empty, whatever was encoded, and after a longer pinned key it reads outside the
  buffer.\<close>

theorem EncodeLengthPrefixedKey_stale_size:
  "\<exists>k1 k2 k3. EncodeLengthPrefixedKey [7, 8] IterKey_init = Inr k1 \<and> GetKey k1 = Inr []
     \<and> take 3 (ik_buf k1) = [2, 7, 8]
     \<and> SetKey (replicate 40 1) False IterKey_init = Inr k2
     \<and> EncodeLengthPrefixedKey [7, 8] k2 = Inr k3 \<and> GetKey k3 = Inl OutOfBounds"
proof -
  have v: "VarintLength 2 = 1" "EncodeVarint32 2 = [2]" by code_simp+
  show ?thesis
    by (simp add: EncodeLengthPrefixedKey_def IterKey_init_def SetKey_def SetKeyImpl_def
        EnlargeBufferIfNeeded_def memcpy_buf_def set_buf_def ik_buf_def GetKey_def read_key_def
        new_bytes_def kSpaceSize_def Let_def v)
qed

end
