(* ===== verification/BinaryHeap.thy ===== *)
theory BinaryHeap
  imports Prelude
begin

text \<open>
  The binary heap of \<open>util/heap.h\<close>, an array heap for merges. It keeps in \<open>root_cmp_cache_\<close> which child of the root
  won the last comparison, to save that comparison when the top is replaced again. The comparison is the "less than" of
  the template, and \<open>top\<close> is a largest element. Indices are natural numbers; \<open>kMaxSizet\<close> is the largest \<open>size_t\<close>, and a
  heap has at most that many elements.

  \<open>push\<close>, \<open>pop\<close> and \<open>replace_top\<close> refine a priority queue on the multiset of the elements. The comparison is an argument of
  every operation, because the elements of a merge are iterators whose keys change while they are in the heap.
\<close>

section \<open>Definitions\<close>

definition kMaxSizet :: nat where
  "kMaxSizet = 2 ^ 64 - 1"

record 'a BinaryHeap =
  hp_data :: "'a list"
  root_cmp_cache :: nat

definition BinaryHeap_new :: "'a BinaryHeap" where
  "BinaryHeap_new = \<lparr>hp_data = [], root_cmp_cache = kMaxSizet\<rparr>"

definition get_parent :: "nat \<Rightarrow> nat" where
  "get_parent index = (index - 1) div 2"

definition get_left :: "nat \<Rightarrow> nat" where
  "get_left index = 2 * index + 1"

definition get_right :: "nat \<Rightarrow> nat" where
  "get_right index = 2 * index + 2"

text \<open>The loop of \<open>upheap\<close> with the final store of \<open>v\<close>.\<close>

function upheap_loop :: "('a \<Rightarrow> 'a \<Rightarrow> bool) \<Rightarrow> 'a list \<Rightarrow> 'a \<Rightarrow> nat \<Rightarrow> 'a list" where
  "upheap_loop lt data v index =
     (if index > 0 \<and> lt (data ! get_parent index) v
      then upheap_loop lt (data[index := data ! get_parent index]) v (get_parent index)
      else data[index := v])"
  by pat_completeness auto
termination
  by (relation "measure (\<lambda>(lt, data, v, index). index)") (auto simp: get_parent_def)

declare upheap_loop.simps [simp del]

definition upheap :: "('a \<Rightarrow> 'a \<Rightarrow> bool) \<Rightarrow> nat \<Rightarrow> 'a BinaryHeap \<Rightarrow> 'a BinaryHeap" where
  "upheap lt index h =
     h\<lparr>hp_data := upheap_loop lt (hp_data h) (hp_data h ! index) index, root_cmp_cache := kMaxSizet\<rparr>"

text \<open>The child the loop of \<open>downheap\<close> looks at.\<close>

definition pick_child :: "('a \<Rightarrow> 'a \<Rightarrow> bool) \<Rightarrow> 'a list \<Rightarrow> nat \<Rightarrow> nat \<Rightarrow> nat" where
  "pick_child lt data cache index =
     (let left_child = get_left index; right_child = left_child + 1
      in if index = 0 \<and> cache < length data then cache
         else if right_child < length data \<and> lt (data ! left_child) (data ! right_child) then right_child
         else left_child)"

text \<open>The loop of \<open>downheap\<close>; its end depends on the cached child. It gives the array, the index of the hole and
  \<open>picked_child\<close>.\<close>

partial_function (option) downheap_loop ::
    "('a \<Rightarrow> 'a \<Rightarrow> bool) \<Rightarrow> nat \<Rightarrow> 'a \<Rightarrow> 'a list \<Rightarrow> nat \<Rightarrow> nat \<Rightarrow> ('a list \<times> nat \<times> nat) option" where
  [code]: "downheap_loop lt cache v data index picked_child =
     (if get_left index \<ge> length data then Some (data, index, picked_child)
      else
        let picked = pick_child lt data cache index
        in if \<not> lt v (data ! picked) then Some (data, index, picked)
           else downheap_loop lt cache v (data[index := data ! picked]) picked picked)"

definition downheap :: "('a \<Rightarrow> 'a \<Rightarrow> bool) \<Rightarrow> nat \<Rightarrow> 'a BinaryHeap \<Rightarrow> 'a BinaryHeap run" where
  "downheap lt index h =
     (let v = hp_data h ! index
      in case downheap_loop lt (root_cmp_cache h) v (hp_data h) index kMaxSizet of
           None \<Rightarrow> None
         | Some (data, i, picked_child) \<Rightarrow>
             returns \<lparr>hp_data = data[i := v], root_cmp_cache = (if i = 0 then picked_child else kMaxSizet)\<rparr>)"

definition heap_push :: "('a \<Rightarrow> 'a \<Rightarrow> bool) \<Rightarrow> 'a \<Rightarrow> 'a BinaryHeap \<Rightarrow> 'a BinaryHeap" where
  "heap_push lt x h = upheap lt (length (hp_data h)) (h\<lparr>hp_data := hp_data h @ [x]\<rparr>)"

definition heap_empty :: "'a BinaryHeap \<Rightarrow> bool" where
  "heap_empty h \<longleftrightarrow> hp_data h = []"

definition heap_top :: "'a BinaryHeap \<Rightarrow> 'a result" where
  "heap_top h = (case hp_data h of [] \<Rightarrow> Inl AssertFailed | x # _ \<Rightarrow> Inr x)"

definition replace_top :: "('a \<Rightarrow> 'a \<Rightarrow> bool) \<Rightarrow> 'a \<Rightarrow> 'a BinaryHeap \<Rightarrow> 'a BinaryHeap run" where
  "replace_top lt x h =
     (if heap_empty h then fails AssertFailed else downheap lt 0 (h\<lparr>hp_data := (hp_data h)[0 := x]\<rparr>))"

definition heap_pop :: "('a \<Rightarrow> 'a \<Rightarrow> bool) \<Rightarrow> 'a BinaryHeap \<Rightarrow> 'a BinaryHeap run" where
  "heap_pop lt h =
     (if heap_empty h then fails AssertFailed
      else
        let h' = h\<lparr>hp_data := butlast ((hp_data h)[0 := last (hp_data h)])\<rparr>
        in if \<not> heap_empty h' then downheap lt 0 h' else returns (h'\<lparr>root_cmp_cache := kMaxSizet\<rparr>))"

definition heap_clear :: "'a BinaryHeap \<Rightarrow> 'a BinaryHeap" where
  "heap_clear h = h\<lparr>hp_data := [], root_cmp_cache := kMaxSizet\<rparr>"

section \<open>The order of the elements\<close>

text \<open>What the comparison of the template has to be: a strict weak order.\<close>

locale weak_order =
  fixes lt :: "'a \<Rightarrow> 'a \<Rightarrow> bool"
  assumes lt_asym: "lt a b \<Longrightarrow> \<not> lt b a"
    and not_lt_trans: "\<not> lt a b \<Longrightarrow> \<not> lt b c \<Longrightarrow> \<not> lt a c"
begin

lemma lt_irrefl [simp]: "\<not> lt a a"
  using lt_asym by blast

lemma lt_not_lt_trans: "lt a b \<Longrightarrow> \<not> lt c b \<Longrightarrow> lt a c"
  using not_lt_trans by blast

end

text \<open>The order at all edges of the tree that do not touch index \<open>i\<close>, and across \<open>i\<close>.\<close>

definition edges_ok :: "('a \<Rightarrow> 'a \<Rightarrow> bool) \<Rightarrow> 'a list \<Rightarrow> nat \<Rightarrow> bool" where
  "edges_ok lt data i \<longleftrightarrow>
     (\<forall>c < length data. 0 < c \<longrightarrow> c \<noteq> i \<longrightarrow> get_parent c \<noteq> i \<longrightarrow> \<not> lt (data ! get_parent c) (data ! c))
     \<and> (\<forall>c < length data. 0 < c \<longrightarrow> get_parent c = i \<longrightarrow> 0 < i \<longrightarrow> \<not> lt (data ! get_parent i) (data ! c))"

definition is_heap :: "('a \<Rightarrow> 'a \<Rightarrow> bool) \<Rightarrow> 'a list \<Rightarrow> bool" where
  "is_heap lt data \<longleftrightarrow> (\<forall>c < length data. 0 < c \<longrightarrow> \<not> lt (data ! get_parent c) (data ! c))"

definition cache_ok :: "('a \<Rightarrow> 'a \<Rightarrow> bool) \<Rightarrow> 'a list \<Rightarrow> nat \<Rightarrow> bool" where
  "cache_ok lt data k \<longleftrightarrow>
     (k < length data \<longrightarrow> (k = 1 \<or> k = 2) \<and> (\<forall>c < length data. c = 1 \<or> c = 2 \<longrightarrow> \<not> lt (data ! k) (data ! c)))"

text \<open>The root may be out of order, as it is while the top is being replaced.\<close>

definition heap_below_root :: "('a \<Rightarrow> 'a \<Rightarrow> bool) \<Rightarrow> 'a BinaryHeap \<Rightarrow> bool" where
  "heap_below_root lt h \<longleftrightarrow>
     (\<forall>c < length (hp_data h). 0 < get_parent c \<longrightarrow> \<not> lt (hp_data h ! get_parent c) (hp_data h ! c))
     \<and> cache_ok lt (hp_data h) (root_cmp_cache h) \<and> length (hp_data h) \<le> kMaxSizet"

definition heap_ok :: "('a \<Rightarrow> 'a \<Rightarrow> bool) \<Rightarrow> 'a BinaryHeap \<Rightarrow> bool" where
  "heap_ok lt h \<longleftrightarrow>
     is_heap lt (hp_data h) \<and> cache_ok lt (hp_data h) (root_cmp_cache h) \<and> length (hp_data h) \<le> kMaxSizet"

section \<open>Sifting\<close>

lemma parent_less: "0 < c \<Longrightarrow> get_parent c < c"
  by (simp add: get_parent_def)

lemma parent_iff: "0 < c \<Longrightarrow> get_parent c = i \<longleftrightarrow> c = 2 * i + 1 \<or> c = 2 * i + 2"
  by (auto simp: get_parent_def)

lemma mset_move_hole:
  assumes "i < length xs" and "j < length xs" and "i \<noteq> j"
  shows "mset (xs[i := xs ! j, j := v]) = mset (xs[i := v])"
proof -
  have "xs[i := xs ! j, j := v] = (xs[i := v])[j := xs[i := v] ! i, i := xs[i := v] ! j]"
    using assms by (auto intro!: nth_equalityI simp: nth_list_update)
  also have "mset \<dots> = mset (xs[i := v])" using assms by (intro mset_swap) simp_all
  finally show ?thesis .
qed

context weak_order
begin

lemma edges_heap:
  assumes e: "edges_ok lt data i" and i: "i < length data"
    and up: "0 < i \<Longrightarrow> \<not> lt (data ! get_parent i) v"
    and down: "\<And>c. c < length data \<Longrightarrow> 0 < c \<Longrightarrow> get_parent c = i \<Longrightarrow> \<not> lt v (data ! c)"
  shows "is_heap lt (data[i := v])"
  unfolding is_heap_def
proof (intro allI impI)
  fix c assume c: "c < length (data[i := v])" "0 < c"
  consider "c = i" | "c \<noteq> i" "get_parent c = i" | "c \<noteq> i" "get_parent c \<noteq> i" by blast
  then show "\<not> lt (data[i := v] ! get_parent c) (data[i := v] ! c)"
  proof cases
    case 1
    then show ?thesis using up c i parent_less [of c] by simp
  next
    case 2
    then show ?thesis using down c i by simp
  next
    case 3
    then show ?thesis using e c by (simp add: edges_ok_def)
  qed
qed

lemma edges_up:
  assumes e: "edges_ok lt data i" and i: "i < length data" "0 < i" and lt: "lt (data ! get_parent i) v"
  shows "edges_ok lt (data[i := data ! get_parent i]) (get_parent i)"
    and "c < length data \<Longrightarrow> 0 < c \<Longrightarrow> get_parent c = get_parent i \<Longrightarrow> \<not> lt v (data[i := data ! get_parent i] ! c)"
proof -
  let ?p = "get_parent i" and ?d = "data[i := data ! get_parent i]"
  have p: "?p < i" using i by (simp add: parent_less)
  have edge: "\<not> lt (data ! get_parent c) (data ! c)"
    if "c < length data" "0 < c" "c \<noteq> i" "get_parent c \<noteq> i" for c
    using e that by (simp add: edges_ok_def)
  have over: "\<not> lt (data ! ?p) (data ! c)" if "c < length data" "0 < c" "get_parent c = i" for c
    using e that i by (simp add: edges_ok_def)
  have top: "\<not> lt (data ! get_parent ?p) (data ! ?p)" if "0 < ?p"
    using edge [of ?p] p i that parent_less [of ?p] by simp
  show "edges_ok lt ?d ?p"
    unfolding edges_ok_def
  proof (intro conjI allI impI)
    fix c assume c: "c < length ?d" "0 < c" "c \<noteq> ?p" "get_parent c \<noteq> ?p"
    then show "\<not> lt (?d ! get_parent c) (?d ! c)"
      using edge [of c] over [of c] i parent_less [of c] by (cases "c = i"; cases "get_parent c = i") auto
  next
    fix c assume c: "c < length ?d" "0 < c" "get_parent c = ?p" "0 < ?p"
    then show "\<not> lt (?d ! get_parent ?p) (?d ! c)"
      using top edge [of c] p not_lt_trans [of "data ! get_parent ?p" "data ! ?p" "data ! c"] i parent_less [of ?p]
      by (cases "c = i") auto
  qed
  show "\<not> lt v (?d ! c)" if "c < length data" "0 < c" "get_parent c = ?p"
    using that i p edge [of c] lt_asym [OF lt] not_lt_trans [of v "data ! ?p" "data ! c"] by (cases "c = i") auto
qed

lemma upheap_loop_heap:
  assumes "edges_ok lt data i" and "i < length data"
    and "\<And>c. c < length data \<Longrightarrow> 0 < c \<Longrightarrow> get_parent c = i \<Longrightarrow> \<not> lt v (data ! c)"
  shows "is_heap lt (upheap_loop lt data v i) \<and> mset (upheap_loop lt data v i) = mset (data[i := v])
    \<and> length (upheap_loop lt data v i) = length data"
  using assms
proof (induction i arbitrary: data rule: less_induct)
  case (less i)
  let ?p = "get_parent i" and ?d = "data[i := data ! get_parent i]"
  show ?case
  proof (cases "i > 0 \<and> lt (data ! ?p) v")
    case True
    then have p: "?p < i" by (simp add: parent_less)
    have "is_heap lt (upheap_loop lt ?d v ?p) \<and> mset (upheap_loop lt ?d v ?p) = mset (?d[?p := v])
        \<and> length (upheap_loop lt ?d v ?p) = length ?d"
      using edges_up [OF less.prems(1,2)] True less.prems(2) p by (intro less.IH) simp_all
    moreover have "mset (?d[?p := v]) = mset (data[i := v])" using p less.prems(2) by (intro mset_move_hole) simp_all
    moreover have "upheap_loop lt data v i = upheap_loop lt ?d v ?p" using True by (subst upheap_loop.simps) simp
    ultimately show ?thesis by simp
  next
    case False
    then have "is_heap lt (data[i := v])" using less.prems by (intro edges_heap) auto
    moreover have "upheap_loop lt data v i = data[i := v]" using False by (subst upheap_loop.simps) auto
    ultimately show ?thesis by simp
  qed
qed

lemma pick_child_best:
  assumes "get_left i < length data" and "i = 0 \<Longrightarrow> cache_ok lt data cache"
  shows "pick_child lt data cache i < length data" and "0 < pick_child lt data cache i"
    and "get_parent (pick_child lt data cache i) = i"
    and "c < length data \<Longrightarrow> 0 < c \<Longrightarrow> get_parent c = i \<Longrightarrow> \<not> lt (data ! pick_child lt data cache i) (data ! c)"
proof -
  let ?p = "pick_child lt data cache i"
  have ch: "get_parent c = i \<longleftrightarrow> c = 2 * i + 1 \<or> c = 2 * i + 2" if "0 < c" for c
    using parent_iff [OF that] .
  have "?p < length data \<and> 0 < ?p \<and> (?p = 2 * i + 1 \<or> ?p = 2 * i + 2)
    \<and> (\<forall>c < length data. c = 2 * i + 1 \<or> c = 2 * i + 2 \<longrightarrow> \<not> lt (data ! ?p) (data ! c))"
  proof (cases "i = 0 \<and> cache < length data")
    case True
    then show ?thesis using assms(2) by (auto simp: pick_child_def cache_ok_def numeral_2_eq_2)
  next
    case False
    then have "?p = (if 2 * i + 2 < length data \<and> lt (data ! (2 * i + 1)) (data ! (2 * i + 2)) then 2 * i + 2 else 2 * i + 1)"
      by (auto simp: pick_child_def Let_def get_left_def)
    moreover have "2 * i + 1 < length data" using assms(1) by (simp add: get_left_def)
    ultimately show ?thesis using lt_asym [of "data ! (2 * i + 1)" "data ! (2 * i + 2)"] by auto
  qed
  then show "?p < length data" "0 < ?p" "get_parent ?p = i"
    and "c < length data \<Longrightarrow> 0 < c \<Longrightarrow> get_parent c = i \<Longrightarrow> \<not> lt (data ! ?p) (data ! c)"
    using ch by blast+
qed

lemma edges_down:
  assumes e: "edges_ok lt data i" and p: "p < length data" "0 < p" "get_parent p = i"
    and best: "\<And>c. c < length data \<Longrightarrow> 0 < c \<Longrightarrow> get_parent c = i \<Longrightarrow> \<not> lt (data ! p) (data ! c)"
  shows "edges_ok lt (data[i := data ! p]) p"
proof -
  let ?d = "data[i := data ! p]"
  have i: "i < p" using p by (metis parent_less)
  have edge: "\<not> lt (data ! get_parent c) (data ! c)"
    if "c < length data" "0 < c" "c \<noteq> i" "get_parent c \<noteq> i" for c
    using e that by (simp add: edges_ok_def)
  have over: "\<not> lt (data ! get_parent i) (data ! p)" if "0 < i"
    using e that p by (auto simp: edges_ok_def)
  show ?thesis
    unfolding edges_ok_def
  proof (intro conjI allI impI)
    fix c assume c: "c < length ?d" "0 < c" "c \<noteq> p" "get_parent c \<noteq> p"
    consider "get_parent c = i" "c \<noteq> i" | "c = i" "get_parent c \<noteq> i" | "get_parent c \<noteq> i" "c \<noteq> i"
      using parent_less [OF c(2)] by fastforce
    then show "\<not> lt (?d ! get_parent c) (?d ! c)"
      using best [of c] over edge [of c] c i p(1) by cases auto
  next
    fix c assume c: "c < length ?d" "0 < c" "get_parent c = p" "0 < p"
    then have "c \<noteq> i" using i parent_less [OF c(2)] by simp
    then show "\<not> lt (?d ! get_parent p) (?d ! c)" using edge [of c] c i p by simp
  qed
qed

text \<open>The loop of \<open>downheap\<close> ends, with a place for \<open>v\<close>. If the hole stays at the root, \<open>picked_child\<close> is the better child.\<close>

lemma downheap_loop_heap:
  assumes "edges_ok lt data i" and "i < length data" and "0 < i \<Longrightarrow> \<not> lt (data ! get_parent i) v"
    and "i = 0 \<Longrightarrow> cache_ok lt data cache \<and> length data \<le> pk"
  shows "\<exists>d j pc. downheap_loop lt cache v data i pk = Some (d, j, pc) \<and> j < length d \<and> is_heap lt (d[j := v])
    \<and> mset (d[j := v]) = mset (data[i := v]) \<and> length d = length data \<and> (j = 0 \<longrightarrow> cache_ok lt (d[j := v]) pc)"
  using assms
proof (induction "length data - i" arbitrary: data i pk rule: less_induct)
  case less
  let ?p = "pick_child lt data cache i"
  note best = pick_child_best [of i data cache]
  consider "length data \<le> get_left i" | "get_left i < length data" "\<not> lt v (data ! ?p)" | "get_left i < length data" "lt v (data ! ?p)"
    by linarith
  then show ?case
  proof cases
    case 1
    have "\<not> (c < length data \<and> 0 < c \<and> get_parent c = i)" for c
      using 1 parent_iff [of c i] by (auto simp: get_left_def)
    then have "is_heap lt (data[i := v])" using less.prems by (intro edges_heap) auto
    moreover have "cache_ok lt (data[i := v]) pk" if "i = 0" using less.prems(4) that by (simp add: cache_ok_def)
    ultimately show ?thesis using 1 less.prems(2) by (subst downheap_loop.simps) simp
  next
    case 2
    have "is_heap lt (data[i := v])"
    proof (rule edges_heap [OF less.prems(1,2,3)])
      show "\<not> lt v (data ! c)" if "c < length data" "0 < c" "get_parent c = i" for c
        using best(4) [OF 2(1) _ that] less.prems(4) not_lt_trans [OF 2(2)] by blast
    qed
    moreover have "cache_ok lt (data[i := v]) ?p" if "i = 0"
    proof -
      note b = best [OF 2(1) conjunct1 [OF less.prems(4)], unfolded that]
      have "?p = 1 \<or> ?p = 2" using b(2,3) that parent_iff [of ?p 0] by (simp add: numeral_2_eq_2)
      then show ?thesis using b(1,4) that parent_iff [of 1 0] parent_iff [of 2 0] by (auto simp: cache_ok_def)
    qed
    ultimately show ?thesis using 2 less.prems(2) by (subst downheap_loop.simps) simp
  next
    case 3
    note b = best [OF 3(1) conjunct1 [OF less.prems(4)]]
    have ip: "i < ?p" using b(2,3) parent_less by metis
    let ?d = "data[i := data ! ?p]"
    have "\<exists>d j pc. downheap_loop lt cache v ?d ?p ?p = Some (d, j, pc) \<and> j < length d \<and> is_heap lt (d[j := v])
        \<and> mset (d[j := v]) = mset (?d[?p := v]) \<and> length d = length ?d \<and> (j = 0 \<longrightarrow> cache_ok lt (d[j := v]) pc)"
    proof (rule less.hyps)
      show "length ?d - ?p < length data - i" using ip b(1) by simp
      show "edges_ok lt ?d ?p" by (rule edges_down [OF less.prems(1) b(1-3) b(4)])
      show "\<not> lt (?d ! get_parent ?p) v" using b(3) less.prems(2) lt_asym [OF 3(2)] by simp
    qed (use b in simp_all)
    moreover have "mset (?d[?p := v]) = mset (data[i := v])" using ip b(1) by (intro mset_move_hole) simp_all
    ultimately show ?thesis using 3 by (subst downheap_loop.simps) (simp add: Let_def)
  qed
qed

end

section \<open>The operations\<close>

context weak_order
begin

lemma heap_ok_new: "heap_ok lt BinaryHeap_new"
  by (simp add: heap_ok_def BinaryHeap_new_def is_heap_def cache_ok_def)

lemma heap_ok_clear: "heap_ok lt (heap_clear h)"
  by (simp add: heap_ok_def heap_clear_def is_heap_def cache_ok_def)

lemma heap_ok_below: "heap_ok lt h \<Longrightarrow> heap_below_root lt h"
  by (auto simp: heap_ok_def heap_below_root_def is_heap_def get_parent_def)

lemma heap_push_ok:
  assumes "heap_ok lt h" and "length (hp_data h) < kMaxSizet"
  shows "heap_ok lt (heap_push lt x h)" and "mset (hp_data (heap_push lt x h)) = add_mset x (mset (hp_data h))"
proof -
  let ?n = "length (hp_data h)" and ?d = "hp_data h @ [x]"
  have "edges_ok lt ?d ?n"
    unfolding edges_ok_def
  proof (intro conjI allI impI)
    fix c assume "c < length ?d" "0 < c" "c \<noteq> ?n"
    then show "\<not> lt (?d ! get_parent c) (?d ! c)"
      using assms(1) parent_less [of c] by (simp add: heap_ok_def is_heap_def nth_append)
  next
    fix c assume "c < length ?d" "0 < c" "get_parent c = ?n"
    then show "\<not> lt (?d ! get_parent ?n) (?d ! c)" using parent_less [of c] by simp
  qed
  moreover have "\<not> (c < length ?d \<and> 0 < c \<and> get_parent c = ?n)" for c using parent_less [of c] by auto
  ultimately have u: "is_heap lt (upheap_loop lt ?d x ?n) \<and> mset (upheap_loop lt ?d x ?n) = mset (?d[?n := x])
      \<and> length (upheap_loop lt ?d x ?n) = length ?d"
    by (intro upheap_loop_heap) auto
  then show "heap_ok lt (heap_push lt x h)" using assms(2)
    by (simp add: heap_push_def upheap_def heap_ok_def cache_ok_def)
  show "mset (hp_data (heap_push lt x h)) = add_mset x (mset (hp_data h))"
    using u by (simp add: heap_push_def upheap_def)
qed

lemma downheap_root_ok:
  assumes "heap_below_root lt h" and "hp_data h \<noteq> []"
  shows "\<exists>h'. downheap lt 0 h = returns h' \<and> heap_ok lt h' \<and> mset (hp_data h') = mset (hp_data h)"
proof -
  let ?d = "hp_data h"
  have "edges_ok lt ?d 0" and c: "cache_ok lt ?d (root_cmp_cache h)" "length ?d \<le> kMaxSizet"
    using assms(1) by (auto simp: edges_ok_def heap_below_root_def)
  then obtain d j pc where *: "downheap_loop lt (root_cmp_cache h) (?d ! 0) ?d 0 kMaxSizet = Some (d, j, pc)" "j < length d"
      "is_heap lt (d[j := ?d ! 0])" "mset (d[j := ?d ! 0]) = mset (?d[0 := ?d ! 0])" "length d = length ?d"
      "j = 0 \<longrightarrow> cache_ok lt (d[j := ?d ! 0]) pc"
    using downheap_loop_heap [of ?d 0 "?d ! 0" "root_cmp_cache h" kMaxSizet] assms(2) by auto
  then show ?thesis using c(2) by (auto simp: downheap_def heap_ok_def cache_ok_def)
qed

text \<open>\<open>replace_top\<close> and \<open>pop\<close> only need the order below the root.\<close>

lemma replace_top_ok:
  assumes "heap_below_root lt h" and ne: "hp_data h \<noteq> []"
  shows "\<exists>h'. replace_top lt x h = returns h' \<and> heap_ok lt h'
    \<and> mset (hp_data h') = add_mset x (mset (tl (hp_data h)))"
proof -
  let ?h = "h\<lparr>hp_data := (hp_data h)[0 := x]\<rparr>"
  have "heap_below_root lt ?h"
    using assms by (auto simp: heap_below_root_def cache_ok_def get_parent_def)
  moreover have "mset (hp_data ?h) = add_mset x (mset (tl (hp_data h)))" using ne by (cases "hp_data h") simp_all
  ultimately show ?thesis using ne downheap_root_ok [of ?h] by (simp add: replace_top_def heap_empty_def)
qed

lemma heap_pop_ok:
  assumes "heap_below_root lt h" and ne: "hp_data h \<noteq> []"
  shows "\<exists>h'. heap_pop lt h = returns h' \<and> heap_ok lt h' \<and> mset (hp_data h') = mset (tl (hp_data h))"
proof -
  let ?d = "butlast ((hp_data h)[0 := last (hp_data h)])"
  let ?h = "h\<lparr>hp_data := ?d\<rparr>"
  have at: "?d ! c = hp_data h ! c" if "0 < c" "c < length ?d" for c using that by (simp add: nth_butlast)
  have "heap_below_root lt ?h"
    using assms(1) at unfolding heap_below_root_def cache_ok_def by (auto simp: get_parent_def)
  moreover have "mset ?d = mset (tl (hp_data h))"
  proof (cases "hp_data h" rule: rev_cases)
    case (snoc ys y)
    then show ?thesis by (cases ys) (simp_all add: butlast_append)
  qed (use ne in simp)
  ultimately show ?thesis
    using ne downheap_root_ok [of ?h]
    by (cases "?d = []") (simp_all add: heap_pop_def Let_def heap_empty_def heap_ok_def is_heap_def cache_ok_def)
qed

lemma heap_top_max:
  assumes "heap_ok lt h" and "hp_data h \<noteq> []"
  shows "heap_top h = Inr (hd (hp_data h))" and "x \<in> set (hp_data h) \<Longrightarrow> \<not> lt (hd (hp_data h)) x"
proof -
  show "heap_top h = Inr (hd (hp_data h))" using assms(2) by (simp add: heap_top_def split: list.split)
  have "\<not> lt (hp_data h ! 0) (hp_data h ! i)" if "i < length (hp_data h)" for i
    using that
  proof (induction i rule: less_induct)
    case (less i)
    show ?case
    proof (cases "i = 0")
      case False
      then have "\<not> lt (hp_data h ! 0) (hp_data h ! get_parent i)" using less parent_less [of i] by simp
      then show ?thesis using False less.prems assms(1) not_lt_trans by (metis heap_ok_def is_heap_def neq0_conv)
    qed simp
  qed
  then show "x \<in> set (hp_data h) \<Longrightarrow> \<not> lt (hd (hp_data h)) x" using assms(2) by (auto simp: in_set_conv_nth hd_conv_nth)
qed

end

section \<open>Properties\<close>

text \<open>C25: the heap refines a priority queue. For a comparison that is a strict weak order, \<open>push\<close> adds an element, \<open>top\<close> is
  an element that is not less than any other, \<open>pop\<close> removes it and \<open>replace_top\<close> exchanges it; the loops end, and the
  array stays a heap with a cached child that is the better child of the root.\<close>

theorem BinaryHeap_refines_queue:
  assumes "weak_order lt \<and> heap_ok lt h"
  shows "(length (hp_data h) < kMaxSizet \<longrightarrow>
      heap_ok lt (heap_push lt x h) \<and> mset (hp_data (heap_push lt x h)) = add_mset x (mset (hp_data h)))
    \<and> (\<not> heap_empty h \<longrightarrow> (\<exists>t p r. heap_top h = Inr t \<and> t \<in># mset (hp_data h) \<and> (\<forall>y. y \<in># mset (hp_data h) \<longrightarrow> \<not> lt t y)
        \<and> heap_pop lt h = returns p \<and> heap_ok lt p \<and> mset (hp_data p) = mset (hp_data h) - {#t#}
        \<and> replace_top lt x h = returns r \<and> heap_ok lt r \<and> mset (hp_data r) = add_mset x (mset (hp_data h) - {#t#})))"
proof -
  have w: "weak_order lt" and ok: "heap_ok lt h" using assms by simp_all
  note below = weak_order.heap_ok_below [OF w ok]
  have "\<exists>t p r. heap_top h = Inr t \<and> t \<in># mset (hp_data h) \<and> (\<forall>y. y \<in># mset (hp_data h) \<longrightarrow> \<not> lt t y)
      \<and> heap_pop lt h = returns p \<and> heap_ok lt p \<and> mset (hp_data p) = mset (hp_data h) - {#t#}
      \<and> replace_top lt x h = returns r \<and> heap_ok lt r \<and> mset (hp_data r) = add_mset x (mset (hp_data h) - {#t#})"
    if "\<not> heap_empty h"
  proof -
    have ne: "hp_data h \<noteq> []" using that by (simp add: heap_empty_def)
    then have "mset (tl (hp_data h)) = mset (hp_data h) - {#hd (hp_data h)#}" by (cases "hp_data h") simp_all
    then show ?thesis
      using weak_order.heap_top_max [OF w ok ne] weak_order.heap_pop_ok [OF w below ne]
        weak_order.replace_top_ok [OF w below ne, of x] hd_in_set [OF ne] by auto
  qed
  then show ?thesis using weak_order.heap_push_ok [OF w ok] by blast
qed

theorem BinaryHeap_refines_queue_witness:
  "\<exists>r. replace_top (<) (2 :: nat) \<lparr>hp_data = [9, 4, 7], root_cmp_cache = 2\<rparr> = returns r \<and> mset (hp_data r) = {#2, 4, 7#}"
proof -
  let ?h = "\<lparr>hp_data = [9, 4, 7 :: nat], root_cmp_cache = 2\<rparr>"
  have "weak_order ((<) :: nat \<Rightarrow> nat \<Rightarrow> bool)" by unfold_locales simp_all
  moreover have "heap_ok (<) ?h"
  proof -
    have "is_heap (<) (hp_data ?h)" by (auto simp: is_heap_def get_parent_def less_Suc_eq)
    moreover have "cache_ok (<) (hp_data ?h) (root_cmp_cache ?h)" by (auto simp: cache_ok_def less_Suc_eq numeral_2_eq_2)
    moreover have "length (hp_data ?h) \<le> kMaxSizet" by (simp add: kMaxSizet_def)
    ultimately show ?thesis by (simp add: heap_ok_def)
  qed
  moreover have "\<not> heap_empty ?h" by (simp add: heap_empty_def)
  ultimately obtain t r where "heap_top ?h = Inr t" "replace_top (<) 2 ?h = returns r" "mset (hp_data r) = add_mset 2 (mset (hp_data ?h) - {#t#})"
    using BinaryHeap_refines_queue [of "(<)" ?h 2] by blast
  then show ?thesis by (simp add: heap_top_def)
qed

end
