(* ===== verification/MergingIterators.thy ===== *)
theory MergingIterators
  imports ColumnIterators BinaryHeap
begin

text \<open>
  The merging iterator of \<open>table/merging_iterator.cc\<close>, which a scan of the database reads level 0 with, over the binary heap
  of \<open>util/heap.h\<close>; with it the iterator interface (\<open>table/internal_iterator.h\<close>), the wrapper that caches the key of a child
  (\<open>table/iterator_wrapper.h\<close>) and the comparators of the heaps (\<open>table/iter_heap.h\<close>).

  The virtual functions of an iterator are a record of functions on its state. A pointer to a child is its index in
  \<open>children_\<close>. The comparators read the cached keys. Pinning and the arena are left out.
\<close>

section \<open>Definitions\<close>

record 's InternalIterator =
  io_Valid :: "'s \<Rightarrow> bool"
  io_SeekToFirst :: "'s \<Rightarrow> 's run"
  io_SeekToLast :: "'s \<Rightarrow> 's run"
  io_Seek :: "slice \<Rightarrow> 's \<Rightarrow> 's run"
  io_SeekForPrev :: "slice \<Rightarrow> 's \<Rightarrow> 's run"
  io_Next :: "'s \<Rightarrow> 's run"
  io_Prev :: "'s \<Rightarrow> 's run"
  io_key :: "'s \<Rightarrow> slice result"
  io_value :: "'s \<Rightarrow> slice result"
  io_status :: "'s \<Rightarrow> Status"
  io_IsOutOfBound :: "'s \<Rightarrow> bool"

text \<open>The fallback that an iterator may use for \<open>SeekForPrev\<close>.\<close>

definition SeekForPrev_step ::
    "(slice \<Rightarrow> slice \<Rightarrow> int) \<Rightarrow> 's InternalIterator \<Rightarrow> slice \<Rightarrow> 's \<Rightarrow> bool result" where
  "SeekForPrev_step cmp ops target s =
     (if io_Valid ops s then and_then (io_key ops s) (\<lambda>k. Inr (cmp target k < 0)) else Inr False)"

partial_function (option) SeekForPrev_loop ::
    "(slice \<Rightarrow> slice \<Rightarrow> int) \<Rightarrow> 's InternalIterator \<Rightarrow> slice \<Rightarrow> 's \<Rightarrow> 's run" where
  [code]: "SeekForPrev_loop cmp ops target s =
     (case SeekForPrev_step cmp ops target s of
        Inl e \<Rightarrow> fails e
      | Inr go \<Rightarrow>
          if \<not> go then returns s
          else
            case io_Prev ops s of
              None \<Rightarrow> None
            | Some (Inl e) \<Rightarrow> fails e
            | Some (Inr s') \<Rightarrow> SeekForPrev_loop cmp ops target s')"

definition SeekForPrevImpl ::
    "(slice \<Rightarrow> slice \<Rightarrow> int) \<Rightarrow> 's InternalIterator \<Rightarrow> slice \<Rightarrow> 's \<Rightarrow> 's run" where
  "SeekForPrevImpl cmp ops target s =
     run_then (io_Seek ops target s) (\<lambda>s.
     run_then (if \<not> io_Valid ops s then io_SeekToLast ops s else returns s)
       (SeekForPrev_loop cmp ops target))"

subsection \<open>The wrapper of a child\<close>

record 's IteratorWrapper =
  iw_iter :: 's
  iw_valid :: bool
  iw_key :: slice

definition iw_Update :: "'s InternalIterator \<Rightarrow> 's IteratorWrapper \<Rightarrow> 's IteratorWrapper run" where
  "iw_Update ops w =
     (if io_Valid ops (iw_iter w)
      then run_then (Some (io_key ops (iw_iter w))) (\<lambda>k.
             if io_status ops (iw_iter w) = OK then returns (w\<lparr>iw_valid := True, iw_key := k\<rparr>)
             else fails AssertFailed)
      else returns (w\<lparr>iw_valid := False\<rparr>))"

definition iw_Set :: "'s InternalIterator \<Rightarrow> 's \<Rightarrow> 's IteratorWrapper run" where
  "iw_Set ops it = iw_Update ops \<lparr>iw_iter = it, iw_valid = False, iw_key = []\<rparr>"

text \<open>\<open>Next\<close>, \<open>Prev\<close> and the seeks of the wrapper move the iterator and update the cache.\<close>

definition iw_move ::
    "'s InternalIterator \<Rightarrow> ('s \<Rightarrow> 's run) \<Rightarrow> 's IteratorWrapper \<Rightarrow> 's IteratorWrapper run" where
  "iw_move ops f w = run_then (f (iw_iter w)) (\<lambda>it. iw_Update ops (w\<lparr>iw_iter := it\<rparr>))"

subsection \<open>The merging iterator\<close>

datatype Direction = kForward | kReverse

record 's MergingIterator =
  mi_children :: "'s IteratorWrapper list"
  mi_current :: "nat option"
  mi_status :: Status
  mi_direction :: Direction
  minHeap :: "nat BinaryHeap"
  prefix_seek_mode :: bool
  maxHeap :: "nat BinaryHeap option"

definition MaxIteratorComparator ::
    "(slice \<Rightarrow> slice \<Rightarrow> int) \<Rightarrow> 's IteratorWrapper list \<Rightarrow> nat \<Rightarrow> nat \<Rightarrow> bool" where
  "MaxIteratorComparator icmp children a b \<longleftrightarrow> icmp (iw_key (children ! a)) (iw_key (children ! b)) < 0"

definition MinIteratorComparator ::
    "(slice \<Rightarrow> slice \<Rightarrow> int) \<Rightarrow> 's IteratorWrapper list \<Rightarrow> nat \<Rightarrow> nat \<Rightarrow> bool" where
  "MinIteratorComparator icmp children a b \<longleftrightarrow> icmp (iw_key (children ! a)) (iw_key (children ! b)) > 0"

definition considerStatus :: "Status \<Rightarrow> 's MergingIterator \<Rightarrow> 's MergingIterator" where
  "considerStatus s m = (if s \<noteq> OK \<and> mi_status m = OK then m\<lparr>mi_status := s\<rparr> else m)"

definition push_min :: "(slice \<Rightarrow> slice \<Rightarrow> int) \<Rightarrow> nat \<Rightarrow> 's MergingIterator \<Rightarrow> 's MergingIterator run" where
  "push_min icmp i m =
     returns (m\<lparr>minHeap := heap_push (MinIteratorComparator icmp (mi_children m)) i (minHeap m)\<rparr>)"

definition push_max :: "(slice \<Rightarrow> slice \<Rightarrow> int) \<Rightarrow> nat \<Rightarrow> 's MergingIterator \<Rightarrow> 's MergingIterator run" where
  "push_max icmp i m =
     (case maxHeap m of
        None \<Rightarrow> fails NullDeref
      | Some h \<Rightarrow> returns (m\<lparr>maxHeap := Some (heap_push (MaxIteratorComparator icmp (mi_children m)) i h)\<rparr>))"

definition CurrentForward :: "'s MergingIterator \<Rightarrow> nat option result" where
  "CurrentForward m =
     (if mi_direction m \<noteq> kForward then Inl AssertFailed
      else if heap_empty (minHeap m) then Inr None else and_then (heap_top (minHeap m)) (\<lambda>i. Inr (Some i)))"

definition CurrentReverse :: "'s MergingIterator \<Rightarrow> nat option result" where
  "CurrentReverse m =
     (if mi_direction m \<noteq> kReverse then Inl AssertFailed
      else
        case maxHeap m of
          None \<Rightarrow> Inl AssertFailed
        | Some h \<Rightarrow> if heap_empty h then Inr None else and_then (heap_top h) (\<lambda>i. Inr (Some i)))"

definition set_current ::
    "('s MergingIterator \<Rightarrow> nat option result) \<Rightarrow> 's MergingIterator \<Rightarrow> 's MergingIterator run" where
  "set_current cur m = run_then (Some (cur m)) (\<lambda>c. returns (m\<lparr>mi_current := c\<rparr>))"

definition ClearHeaps :: "'s MergingIterator \<Rightarrow> 's MergingIterator" where
  "ClearHeaps m = m\<lparr>minHeap := heap_clear (minHeap m), maxHeap := map_option heap_clear (maxHeap m)\<rparr>"

definition InitMaxHeap :: "'s MergingIterator \<Rightarrow> 's MergingIterator" where
  "InitMaxHeap m = (case maxHeap m of None \<Rightarrow> m\<lparr>maxHeap := Some BinaryHeap_new\<rparr> | Some _ \<Rightarrow> m)"

text \<open>The loops over \<open>children_\<close>.\<close>

fun each_child :: "(nat \<Rightarrow> 'm \<Rightarrow> 'm run) \<Rightarrow> nat list \<Rightarrow> 'm \<Rightarrow> 'm run" where
  "each_child f [] m = returns m"
| "each_child f (i # is) m = run_then (f i m) (each_child f is)"

text \<open>A valid child joins the heap, the status of another one is considered.\<close>

definition add_child ::
    "'s InternalIterator \<Rightarrow> (nat \<Rightarrow> 's MergingIterator \<Rightarrow> 's MergingIterator run) \<Rightarrow> nat \<Rightarrow> 's MergingIterator \<Rightarrow>
     's MergingIterator run" where
  "add_child ops push i m =
     (let w = mi_children m ! i
      in if iw_valid w then if io_status ops (iw_iter w) = OK then push i m else fails AssertFailed
         else returns (considerStatus (io_status ops (iw_iter w)) m))"

definition move_child ::
    "'s InternalIterator \<Rightarrow> ('s \<Rightarrow> 's run) \<Rightarrow> nat \<Rightarrow> 's MergingIterator \<Rightarrow> 's MergingIterator run" where
  "move_child ops f i m =
     run_then (iw_move ops f (mi_children m ! i)) (\<lambda>w. returns (m\<lparr>mi_children := (mi_children m)[i := w]\<rparr>))"

fun set_all :: "'s InternalIterator \<Rightarrow> 's list \<Rightarrow> 's IteratorWrapper list run" where
  "set_all ops [] = returns []"
| "set_all ops (it # its) = run_then (iw_Set ops it) (\<lambda>w. run_then (set_all ops its) (\<lambda>ws. returns (w # ws)))"

definition MergingIterator_new ::
    "(slice \<Rightarrow> slice \<Rightarrow> int) \<Rightarrow> 's InternalIterator \<Rightarrow> 's list \<Rightarrow> bool \<Rightarrow> 's MergingIterator run" where
  "MergingIterator_new icmp ops children prefix_mode =
     run_then (set_all ops children) (\<lambda>ws.
     run_then (each_child (add_child ops (push_min icmp)) [0..<length ws]
       \<lparr>mi_children = ws, mi_current = None, mi_status = OK, mi_direction = kForward, minHeap = BinaryHeap_new,
        prefix_seek_mode = prefix_mode, maxHeap = None\<rparr>)
     (set_current CurrentForward))"

text \<open>\<open>AddIterator\<close> pushes the address of a local copy of the wrapper; with a valid child the heap is left with a pointer
  that dangles, and any later use of it is a fault.\<close>

definition AddIterator :: "'s InternalIterator \<Rightarrow> 's \<Rightarrow> 's MergingIterator \<Rightarrow> 's MergingIterator run" where
  "AddIterator ops it m =
     (if mi_direction m \<noteq> kForward then fails AssertFailed
      else
        run_then (iw_Set ops it) (\<lambda>w.
          if iw_valid w then fails OutOfBounds
          else returns (considerStatus (io_status ops (iw_iter w)) (m\<lparr>mi_children := mi_children m @ [w]\<rparr>))))"

definition mi_Valid :: "'s MergingIterator \<Rightarrow> bool" where
  "mi_Valid m \<longleftrightarrow> mi_current m \<noteq> None \<and> mi_status m = OK"

definition mi_key :: "'s MergingIterator \<Rightarrow> slice result" where
  "mi_key m =
     (if \<not> mi_Valid m then Inl AssertFailed
      else let w = mi_children m ! the (mi_current m) in if iw_valid w then Inr (iw_key w) else Inl AssertFailed)"

definition mi_value :: "'s InternalIterator \<Rightarrow> 's MergingIterator \<Rightarrow> slice result" where
  "mi_value ops m =
     (if \<not> mi_Valid m then Inl AssertFailed
      else
        let w = mi_children m ! the (mi_current m)
        in if iw_valid w then io_value ops (iw_iter w) else Inl AssertFailed)"

text \<open>The four seeks: every child seeks, the valid ones join the heap of the direction.\<close>

definition seek_children ::
    "'s InternalIterator \<Rightarrow> ('s \<Rightarrow> 's run) \<Rightarrow> (nat \<Rightarrow> 's MergingIterator \<Rightarrow> 's MergingIterator run) \<Rightarrow>
     's MergingIterator \<Rightarrow> 's MergingIterator run" where
  "seek_children ops f push m =
     each_child (\<lambda>i m. run_then (move_child ops f i m) (add_child ops push i)) [0..<length (mi_children m)]
       (m\<lparr>mi_status := OK\<rparr>)"

definition seek_forward ::
    "(slice \<Rightarrow> slice \<Rightarrow> int) \<Rightarrow> 's InternalIterator \<Rightarrow> ('s \<Rightarrow> 's run) \<Rightarrow> 's MergingIterator \<Rightarrow> 's MergingIterator run" where
  "seek_forward icmp ops f m =
     run_then (seek_children ops f (push_min icmp) (ClearHeaps m)) (\<lambda>m.
       set_current CurrentForward (m\<lparr>mi_direction := kForward\<rparr>))"

definition seek_reverse ::
    "(slice \<Rightarrow> slice \<Rightarrow> int) \<Rightarrow> 's InternalIterator \<Rightarrow> ('s \<Rightarrow> 's run) \<Rightarrow> 's MergingIterator \<Rightarrow> 's MergingIterator run" where
  "seek_reverse icmp ops f m =
     run_then (seek_children ops f (push_max icmp) (InitMaxHeap (ClearHeaps m))) (\<lambda>m.
       set_current CurrentReverse (m\<lparr>mi_direction := kReverse\<rparr>))"

definition mi_SeekToFirst ::
    "(slice \<Rightarrow> slice \<Rightarrow> int) \<Rightarrow> 's InternalIterator \<Rightarrow> 's MergingIterator \<Rightarrow> 's MergingIterator run" where
  "mi_SeekToFirst icmp ops = seek_forward icmp ops (io_SeekToFirst ops)"

definition mi_Seek ::
    "(slice \<Rightarrow> slice \<Rightarrow> int) \<Rightarrow> 's InternalIterator \<Rightarrow> slice \<Rightarrow> 's MergingIterator \<Rightarrow> 's MergingIterator run" where
  "mi_Seek icmp ops target = seek_forward icmp ops (io_Seek ops target)"

definition mi_SeekToLast ::
    "(slice \<Rightarrow> slice \<Rightarrow> int) \<Rightarrow> 's InternalIterator \<Rightarrow> 's MergingIterator \<Rightarrow> 's MergingIterator run" where
  "mi_SeekToLast icmp ops = seek_reverse icmp ops (io_SeekToLast ops)"

definition mi_SeekForPrev ::
    "(slice \<Rightarrow> slice \<Rightarrow> int) \<Rightarrow> 's InternalIterator \<Rightarrow> slice \<Rightarrow> 's MergingIterator \<Rightarrow> 's MergingIterator run" where
  "mi_SeekForPrev icmp ops target = seek_reverse icmp ops (io_SeekForPrev ops target)"

text \<open>The change of direction: all children but the current one seek to the current key, and step over it.\<close>

definition switch_child ::
    "(slice \<Rightarrow> slice \<Rightarrow> int) \<Rightarrow> 's InternalIterator \<Rightarrow> (slice \<Rightarrow> 's \<Rightarrow> 's run) \<Rightarrow> ('s \<Rightarrow> 's run) \<Rightarrow>
     (nat \<Rightarrow> 's MergingIterator \<Rightarrow> 's MergingIterator run) \<Rightarrow> slice \<Rightarrow> nat \<Rightarrow> 's MergingIterator \<Rightarrow> 's MergingIterator run" where
  "switch_child icmp ops seek step push target i m =
     run_then
       (if mi_current m = Some i then returns m
        else
          run_then (move_child ops (seek target) i m) (\<lambda>m.
            let m = considerStatus (io_status ops (iw_iter (mi_children m ! i))) m
            in if iw_valid (mi_children m ! i) \<and> icmp target (iw_key (mi_children m ! i)) = 0
               then run_then (move_child ops step i m) (\<lambda>m.
                      returns (considerStatus (io_status ops (iw_iter (mi_children m ! i))) m))
               else returns m))
       (\<lambda>m. if iw_valid (mi_children m ! i) then push i m else returns m)"

definition SwitchToForward ::
    "(slice \<Rightarrow> slice \<Rightarrow> int) \<Rightarrow> 's InternalIterator \<Rightarrow> 's MergingIterator \<Rightarrow> 's MergingIterator run" where
  "SwitchToForward icmp ops m =
     run_then (Some (mi_key (ClearHeaps m))) (\<lambda>target.
     run_then (each_child (switch_child icmp ops (io_Seek ops) (io_Next ops) (push_min icmp) target)
         [0..<length (mi_children m)] (ClearHeaps m)) (\<lambda>m.
       returns (m\<lparr>mi_direction := kForward\<rparr>)))"

definition assert_current ::
    "('s MergingIterator \<Rightarrow> nat option result) \<Rightarrow> 's MergingIterator \<Rightarrow> 's MergingIterator run" where
  "assert_current cur m =
     run_then (Some (cur m)) (\<lambda>c. if mi_current m = c then returns m else fails AssertFailed)"

definition mi_Next ::
    "(slice \<Rightarrow> slice \<Rightarrow> int) \<Rightarrow> 's InternalIterator \<Rightarrow> 's MergingIterator \<Rightarrow> 's MergingIterator run" where
  "mi_Next icmp ops m =
     (if \<not> mi_Valid m then fails AssertFailed
      else
        run_then
          (if mi_direction m \<noteq> kForward
           then run_then (SwitchToForward icmp ops m) (assert_current CurrentForward) else returns m) (\<lambda>m.
        run_then (assert_current CurrentForward m) (\<lambda>m.
        let i = the (mi_current m)
        in run_then (move_child ops (io_Next ops) i m) (\<lambda>m.
           let w = mi_children m ! i; lt = MinIteratorComparator icmp (mi_children m)
           in run_then
                (if iw_valid w then
                   if io_status ops (iw_iter w) = OK
                   then run_then (replace_top lt i (minHeap m)) (\<lambda>h. returns (m\<lparr>minHeap := h\<rparr>))
                   else fails AssertFailed
                 else
                   let m = considerStatus (io_status ops (iw_iter w)) m
                   in run_then (heap_pop lt (minHeap m)) (\<lambda>h. returns (m\<lparr>minHeap := h\<rparr>)))
                (set_current CurrentForward)))))"

definition SwitchToReverse ::
    "(slice \<Rightarrow> slice \<Rightarrow> int) \<Rightarrow> 's InternalIterator \<Rightarrow> 's MergingIterator \<Rightarrow> 's MergingIterator run" where
  "SwitchToReverse icmp ops m =
     (let m0 = InitMaxHeap (ClearHeaps m)
      in run_then (Some (mi_key m0)) (\<lambda>target.
         run_then (each_child (switch_child icmp ops (io_SeekForPrev ops) (io_Prev ops)
               (\<lambda>i m. if io_status ops (iw_iter (mi_children m ! i)) = OK then push_max icmp i m else fails AssertFailed) target)
             [0..<length (mi_children m)] m0) (\<lambda>m.
         let m = m\<lparr>mi_direction := kReverse\<rparr>
         in run_then (if prefix_seek_mode m then returns m else set_current CurrentReverse m)
              (assert_current CurrentReverse))))"

definition mi_Prev ::
    "(slice \<Rightarrow> slice \<Rightarrow> int) \<Rightarrow> 's InternalIterator \<Rightarrow> 's MergingIterator \<Rightarrow> 's MergingIterator run" where
  "mi_Prev icmp ops m =
     (if \<not> mi_Valid m then fails AssertFailed
      else
        run_then (if mi_direction m \<noteq> kReverse then SwitchToReverse icmp ops m else returns m) (\<lambda>m.
        run_then (assert_current CurrentReverse m) (\<lambda>m.
        let i = the (mi_current m)
        in run_then (move_child ops (io_Prev ops) i m) (\<lambda>m.
           let w = mi_children m ! i; lt = MaxIteratorComparator icmp (mi_children m)
           in case maxHeap m of
                None \<Rightarrow> fails NullDeref
              | Some hp \<Rightarrow>
                  run_then
                    (if iw_valid w then
                       if io_status ops (iw_iter w) = OK
                       then run_then (replace_top lt i hp) (\<lambda>h. returns (m\<lparr>maxHeap := Some h\<rparr>))
                       else fails AssertFailed
                     else
                       let m = considerStatus (io_status ops (iw_iter w)) m
                       in run_then (heap_pop lt hp) (\<lambda>h. returns (m\<lparr>maxHeap := Some h\<rparr>)))
                    (set_current CurrentReverse)))))"

text \<open>\<open>NewMergingIterator\<close> and the builder, which a version adds its iterators to one by one.\<close>

datatype 's BuiltIterator = NullIterator | EmptyIterator | ChildIterator 's | MergedIterator "'s MergingIterator"

definition NewMergingIterator ::
    "(slice \<Rightarrow> slice \<Rightarrow> int) \<Rightarrow> 's InternalIterator \<Rightarrow> 's list \<Rightarrow> bool \<Rightarrow> 's BuiltIterator run" where
  "NewMergingIterator icmp ops its prefix_mode =
     (case its of
        [] \<Rightarrow> returns EmptyIterator
      | [it] \<Rightarrow> returns (ChildIterator it)
      | _ \<Rightarrow> run_then (MergingIterator_new icmp ops its prefix_mode) (\<lambda>m. returns (MergedIterator m)))"

record 's MergeIteratorBuilder =
  first_iter :: "'s option"
  use_merging_iter :: bool
  merge_iter :: "'s MergingIterator"

definition MergeIteratorBuilder_new ::
    "(slice \<Rightarrow> slice \<Rightarrow> int) \<Rightarrow> 's InternalIterator \<Rightarrow> bool \<Rightarrow> 's MergeIteratorBuilder run" where
  "MergeIteratorBuilder_new icmp ops prefix_mode =
     run_then (MergingIterator_new icmp ops [] prefix_mode) (\<lambda>m.
       returns \<lparr>first_iter = None, use_merging_iter = False, merge_iter = m\<rparr>)"

definition mib_AddIterator :: "'s InternalIterator \<Rightarrow> 's \<Rightarrow> 's MergeIteratorBuilder \<Rightarrow> 's MergeIteratorBuilder run" where
  "mib_AddIterator ops it b =
     run_then
       (case first_iter b of
          Some it0 \<Rightarrow>
            if \<not> use_merging_iter b
            then run_then (AddIterator ops it0 (merge_iter b)) (\<lambda>m.
                   returns (b\<lparr>merge_iter := m, use_merging_iter := True, first_iter := None\<rparr>))
            else returns b
        | None \<Rightarrow> returns b)
       (\<lambda>b. if use_merging_iter b
            then run_then (AddIterator ops it (merge_iter b)) (\<lambda>m. returns (b\<lparr>merge_iter := m\<rparr>))
            else returns (b\<lparr>first_iter := Some it\<rparr>))"

definition mib_Finish :: "'s MergeIteratorBuilder \<Rightarrow> 's BuiltIterator" where
  "mib_Finish b =
     (if \<not> use_merging_iter b
      then case first_iter b of None \<Rightarrow> NullIterator | Some it \<Rightarrow> ChildIterator it
      else MergedIterator (merge_iter b))"

fun mib_AddAll :: "'s InternalIterator \<Rightarrow> 's list \<Rightarrow> 's MergeIteratorBuilder \<Rightarrow> 's MergeIteratorBuilder run" where
  "mib_AddAll ops [] b = returns b"
| "mib_AddAll ops (it # its) b = run_then (mib_AddIterator ops it b) (mib_AddAll ops its)"

section \<open>The iterator contract\<close>

text \<open>
  What \<open>table/internal_iterator.h\<close> asks of an iterator over sorted entries: it stands at a position of a fixed list, the
  moves change the position and \<open>Seek\<close> finds the first key that is not before the target. \<open>SeekForPrev\<close> comes with the
  extension below, because the iterators of level 0 do not implement it.
\<close>

definition upper_bound :: "(slice \<Rightarrow> slice \<Rightarrow> int) \<Rightarrow> slice list \<Rightarrow> slice \<Rightarrow> nat" where
  "upper_bound icmp ks k = length (takeWhile (\<lambda>x. icmp x k \<le> 0) ks)"

text \<open>An iterator that is not on an entry need not know whether it is before the first or behind the last one.\<close>

definition same_place :: "'a list \<Rightarrow> int \<Rightarrow> int \<Rightarrow> bool" where
  "same_place xs p q \<longleftrightarrow> p = q \<or> \<not> (0 \<le> p \<and> p < int (length xs)) \<and> \<not> (0 \<le> q \<and> q < int (length xs))"

lemma same_place_refl [simp]: "same_place xs p p"
  by (simp add: same_place_def)

locale internal_iterator = three_way icmp
  for icmp :: "slice \<Rightarrow> slice \<Rightarrow> int" +
  fixes ops :: "'s InternalIterator" and entries :: "'s \<Rightarrow> (slice \<times> slice) list" and pos :: "'s \<Rightarrow> int" and ok :: "'s \<Rightarrow> bool"
  assumes valid_iff: "ok s \<Longrightarrow> io_Valid ops s \<longleftrightarrow> 0 \<le> pos s \<and> pos s < int (length (entries s))"
    and status_ok: "ok s \<Longrightarrow> io_status ops s = OK"
    and key_ok: "ok s \<Longrightarrow> io_Valid ops s \<Longrightarrow> io_key ops s = Inr (fst (entries s ! nat (pos s)))"
    and value_ok: "ok s \<Longrightarrow> io_Valid ops s \<Longrightarrow> io_value ops s = Inr (snd (entries s ! nat (pos s)))"
    and first_ok: "ok s \<Longrightarrow> \<exists>s'. io_SeekToFirst ops s = returns s' \<and> ok s' \<and> entries s' = entries s \<and> same_place (entries s) (pos s') 0"
    and last_ok: "ok s \<Longrightarrow>
      \<exists>s'. io_SeekToLast ops s = returns s' \<and> ok s' \<and> entries s' = entries s \<and> same_place (entries s) (pos s') (int (length (entries s)) - 1)"
    and next_ok: "ok s \<Longrightarrow> io_Valid ops s \<Longrightarrow>
      \<exists>s'. io_Next ops s = returns s' \<and> ok s' \<and> entries s' = entries s \<and> same_place (entries s) (pos s') (pos s + 1)"
    and prev_ok: "ok s \<Longrightarrow> io_Valid ops s \<Longrightarrow>
      \<exists>s'. io_Prev ops s = returns s' \<and> ok s' \<and> entries s' = entries s \<and> same_place (entries s) (pos s') (pos s - 1)"
    and seek_ok: "ok s \<Longrightarrow> sorted_keys icmp (map fst (entries s)) \<Longrightarrow>
      \<exists>s'. io_Seek ops target s = returns s' \<and> ok s' \<and> entries s' = entries s
        \<and> same_place (entries s) (pos s') (int (lower_bound icmp (map fst (entries s)) target))"

locale reversible_iterator = internal_iterator icmp ops entries pos ok
  for icmp :: "slice \<Rightarrow> slice \<Rightarrow> int" and ops :: "'s InternalIterator" and entries :: "'s \<Rightarrow> (slice \<times> slice) list"
    and pos :: "'s \<Rightarrow> int" and ok :: "'s \<Rightarrow> bool" +
  assumes seek_for_prev_ok: "ok s \<Longrightarrow> sorted_keys icmp (map fst (entries s)) \<Longrightarrow>
      \<exists>s'. io_SeekForPrev ops target s = returns s' \<and> ok s' \<and> entries s' = entries s
        \<and> same_place (entries s) (pos s') (int (upper_bound icmp (map fst (entries s)) target) - 1)"

section \<open>The merged sequence\<close>

text \<open>\<open>ms\<close> is the merge of the lists \<open>es\<close> of entries: their entries in strictly increasing order of the keys.\<close>

definition merge_of :: "(slice \<Rightarrow> slice \<Rightarrow> int) \<Rightarrow> (slice \<times> slice) list list \<Rightarrow> (slice \<times> slice) list \<Rightarrow> bool" where
  "merge_of icmp es ms \<longleftrightarrow> sorted_wrt (\<lambda>a b. icmp (fst a) (fst b) < 0) ms
     \<and> list_all (\<lambda>e. sorted_wrt (\<lambda>a b. icmp (fst a) (fst b) < 0) e) es \<and> mset ms = mset (concat es)"

text \<open>Where child \<open>i\<close> stands when the first \<open>p\<close> entries of the merge are behind.\<close>

definition passed :: "(slice \<times> slice) list \<Rightarrow> (slice \<times> slice) list \<Rightarrow> nat \<Rightarrow> nat" where
  "passed ms e p = length (filter (\<lambda>x. x \<in> set e) (take p ms))"

lemma sorted_wrt_unique:
  assumes asym: "\<And>x y. R x y \<Longrightarrow> \<not> R y x" and "sorted_wrt R xs" and "sorted_wrt R ys" and "set xs = set ys"
  shows "xs = ys"
  using assms(2-)
proof (induction xs arbitrary: ys)
  case (Cons x xs)
  then obtain y ys' where ys: "ys = y # ys'" by (cases ys) auto
  have "x = y"
  proof (rule ccontr)
    assume "x \<noteq> y"
    then have "R x y" "R y x" using Cons.prems ys by (auto dest: equalityD1 equalityD2)
    then show False using asym by blast
  qed
  moreover have "x \<notin> set xs" "y \<notin> set ys'" using Cons.prems(1,2) ys asym [of x x] asym [of y y] by auto
  ultimately have "set xs = set ys'" using Cons.prems(3) ys by auto
  then show ?case using Cons ys \<open>x = y\<close> by simp
qed simp

lemma distinct_concat_index:
  assumes "distinct (concat es)" and "i < length es" and "j < length es" and "x \<in> set (es ! i)" and "x \<in> set (es ! j)"
  shows "i = j"
proof (rule ccontr)
  assume "i \<noteq> j"
  have *: False if ij: "i < j" "j < length es" "x \<in> set (es ! i)" "x \<in> set (es ! j)" for i j
  proof -
    have "es = take i es @ es ! i # drop (Suc i) es" using ij by (simp add: id_take_nth_drop)
    then have "distinct (concat (take i es @ es ! i # drop (Suc i) es))" using assms(1) by simp
    then have "set (es ! i) \<inter> set (concat (drop (Suc i) es)) = {}" by auto
    moreover have "es ! j \<in> set (drop (Suc i) es)" using ij by (auto simp: set_drop_nth)
    ultimately show False using ij by auto
  qed
  show False using * [of i j] * [of j i] assms \<open>i \<noteq> j\<close> by linarith
qed

lemma takeWhile_sorted_filter:
  assumes "sorted_wrt R xs" and "\<And>x y. R x y \<Longrightarrow> P y \<Longrightarrow> P x"
  shows "takeWhile P xs = filter P xs"
  using assms(1)
proof (induction xs)
  case (Cons x xs)
  have "filter P xs = []" if "\<not> P x" using that assms(2) Cons.prems by (auto simp: filter_empty_conv)
  then show ?case using Cons by simp
qed simp

lemma merge_of_asym: "three_way icmp \<Longrightarrow> icmp (fst a) (fst b) < 0 \<Longrightarrow> \<not> icmp (fst b) (fst a) < 0"
  using three_way.cmp_swap by fastforce

lemma merge_of_part:
  assumes tw: "three_way icmp" and mg: "merge_of icmp es ms" and i: "i < length es"
  shows "filter (\<lambda>x. x \<in> set (es ! i)) ms = es ! i"
proof (rule sorted_wrt_unique [where R = "\<lambda>a b. icmp (fst a) (fst b) < 0"])
  show "sorted_wrt (\<lambda>a b. icmp (fst a) (fst b) < 0) (filter (\<lambda>x. x \<in> set (es ! i)) ms)"
    using mg by (simp add: merge_of_def sorted_wrt_filter)
  show "sorted_wrt (\<lambda>a b. icmp (fst a) (fst b) < 0) (es ! i)" using mg i by (simp add: merge_of_def list_all_length)
  have "set ms = set (concat es)" using mg unfolding merge_of_def by (metis set_mset_mset)
  then show "set (filter (\<lambda>x. x \<in> set (es ! i)) ms) = set (es ! i)" using i by auto
qed (rule merge_of_asym [OF tw])

lemma merge_of_distinct:
  assumes tw: "three_way icmp" and mg: "merge_of icmp es ms"
  shows "distinct ms" and "distinct (concat es)"
proof -
  have "ms ! i \<noteq> ms ! j" if "i < j" "j < length ms" for i j
    using that mg three_way.cmp_refl [OF tw] sorted_wrt_nth_less [of _ ms i j] unfolding merge_of_def by fastforce
  then show d: "distinct ms" unfolding distinct_conv_nth by (metis linorder_neqE_nat)
  show "distinct (concat es)" using mg d unfolding merge_of_def by (metis mset_eq_imp_distinct_iff)
qed

text \<open>Every entry of the merge belongs to one child.\<close>

lemma merge_of_owner:
  assumes tw: "three_way icmp" and mg: "merge_of icmp es ms" and p: "p < length ms"
  obtains i where "i < length es" and "ms ! p \<in> set (es ! i)"
    and "\<forall>j < length es. ms ! p \<in> set (es ! j) \<longrightarrow> j = i"
proof -
  have "set ms = set (concat es)" using mg unfolding merge_of_def by (metis set_mset_mset)
  then have "ms ! p \<in> set (concat es)" using p by (metis nth_mem)
  then obtain e where "e \<in> set es" "ms ! p \<in> set e" by auto
  then obtain i where "i < length es" "ms ! p \<in> set (es ! i)" by (metis in_set_conv_nth)
  then show thesis using that distinct_concat_index [OF merge_of_distinct(2) [OF tw mg]] by blast
qed

lemma passed_Suc: "p < length ms \<Longrightarrow> passed ms e (Suc p) = passed ms e p + (if ms ! p \<in> set e then 1 else 0)"
  by (simp add: passed_def take_Suc_conv_app_nth)

lemma passed_other:
  assumes "three_way icmp" and "merge_of icmp es ms" and "p < length ms"
    and "i < length es" and "ms ! p \<in> set (es ! i)" and "j < length es" and "j \<noteq> i"
  shows "passed ms (es ! j) (Suc p) = passed ms (es ! j) p"
  using passed_Suc [OF assms(3)] distinct_concat_index [OF merge_of_distinct(2) [OF assms(1,2)] assms(6,4) _ assms(5)] assms(7) by auto

lemma merge_of_split:
  assumes "three_way icmp" and "merge_of icmp es ms" and "i < length es"
  shows "take (passed ms (es ! i) p) (es ! i) = filter (\<lambda>x. x \<in> set (es ! i)) (take p ms)"
    and "drop (passed ms (es ! i) p) (es ! i) = filter (\<lambda>x. x \<in> set (es ! i)) (drop p ms)"
proof -
  let ?P = "\<lambda>x. x \<in> set (es ! i)"
  have "es ! i = filter ?P (take p ms) @ filter ?P (drop p ms)"
    using merge_of_part [OF assms] by (metis append_take_drop_id filter_append)
  then show "take (passed ms (es ! i) p) (es ! i) = filter ?P (take p ms)"
      "drop (passed ms (es ! i) p) (es ! i) = filter ?P (drop p ms)"
    unfolding passed_def by (metis append_eq_conv_conj)+
qed

lemma passed_le:
  assumes "three_way icmp" and "merge_of icmp es ms" and "i < length es"
  shows "passed ms (es ! i) p \<le> length (es ! i)"
proof -
  have "passed ms (es ! i) p = length (take (passed ms (es ! i) p) (es ! i))"
    by (subst merge_of_split(1) [OF assms]) (simp add: passed_def)
  then show ?thesis by simp
qed

lemma passed_all:
  assumes "three_way icmp" and "merge_of icmp es ms" and "i < length es"
  shows "passed ms (es ! i) (length ms) = length (es ! i)"
  using merge_of_part [OF assms] by (simp add: passed_def)

text \<open>The key a child stands at, when the merge is at \<open>p\<close>: not before the entry \<open>p\<close>, and equal to it only for its owner.\<close>

lemma merge_of_ahead:
  assumes tw: "three_way icmp" and mg: "merge_of icmp es ms" and i: "i < length es" and p: "p < length ms"
    and v: "passed ms (es ! i) p < length (es ! i)"
  shows "ms ! p \<in> set (es ! i) \<and> es ! i ! passed ms (es ! i) p = ms ! p \<or>
    ms ! p \<notin> set (es ! i) \<and> icmp (fst (ms ! p)) (fst (es ! i ! passed ms (es ! i) p)) < 0"
proof -
  let ?x = "es ! i ! passed ms (es ! i) p"
  have d: "drop (passed ms (es ! i) p) (es ! i) = filter (\<lambda>x. x \<in> set (es ! i)) (ms ! p # drop (Suc p) ms)"
    using merge_of_split(2) [OF tw mg i, of p] p by (simp add: Cons_nth_drop_Suc)
  have x: "?x = hd (drop (passed ms (es ! i) p) (es ! i))" using v by (simp add: hd_drop_conv_nth)
  show ?thesis
  proof (cases "ms ! p \<in> set (es ! i)")
    case True
    then show ?thesis using x d by simp
  next
    case False
    then have "?x \<in> set (drop (Suc p) ms)" using x d v by (metis (no_types, lifting) drop_eq_Nil filter.simps(2) filter_is_subset hd_in_set leD subsetD)
    then obtain k where "k < length ms" "p < k" "?x = ms ! k" by (auto simp: set_drop_nth)
    then show ?thesis using False mg by (simp add: merge_of_def sorted_wrt_iff_nth_less)
  qed
qed

lemma merge_of_behind:
  assumes tw: "three_way icmp" and mg: "merge_of icmp es ms" and i: "i < length es" and p: "p < length ms"
    and v: "0 < passed ms (es ! i) (Suc p)"
  shows "ms ! p \<in> set (es ! i) \<and> es ! i ! (passed ms (es ! i) (Suc p) - 1) = ms ! p \<or>
    ms ! p \<notin> set (es ! i) \<and> icmp (fst (es ! i ! (passed ms (es ! i) (Suc p) - 1))) (fst (ms ! p)) < 0"
proof -
  let ?k = "passed ms (es ! i) (Suc p)"
  let ?x = "es ! i ! (?k - 1)"
  have t: "take ?k (es ! i) = filter (\<lambda>x. x \<in> set (es ! i)) (take p ms @ [ms ! p])"
    using merge_of_split(1) [OF tw mg i, of "Suc p"] p by (simp add: take_Suc_conv_app_nth)
  have ne: "take ?k (es ! i) \<noteq> []" and len: "length (take ?k (es ! i)) = ?k"
    using v passed_le [OF tw mg i, of "Suc p"] by auto
  have x: "?x = last (take ?k (es ! i))" using ne len v by (simp add: last_conv_nth)
  show ?thesis
  proof (cases "ms ! p \<in> set (es ! i)")
    case True
    then show ?thesis using x t by simp
  next
    case False
    then have "?x \<in> set (take p ms)" using x t ne by (metis (no_types, lifting) append_Nil2 filter.simps filter_append filter_is_subset last_in_set subsetD)
    then obtain k where "k < length ms" "k < p" "?x = ms ! k" by (auto simp: in_set_conv_nth)
    then show ?thesis using False mg p by (simp add: merge_of_def sorted_wrt_iff_nth_less)
  qed
qed

lemma bound_counts:
  assumes tw: "three_way icmp" and srt: "sorted_wrt (\<lambda>a b. icmp (fst a) (fst b) < 0) xs"
  shows "lower_bound icmp (map fst xs) t = length (filter (\<lambda>x. icmp (fst x) t < 0) xs)"
    and "take (lower_bound icmp (map fst xs) t) xs = filter (\<lambda>x. icmp (fst x) t < 0) xs"
    and "upper_bound icmp (map fst xs) t = length (filter (\<lambda>x. icmp (fst x) t \<le> 0) xs)"
    and "take (upper_bound icmp (map fst xs) t) xs = filter (\<lambda>x. icmp (fst x) t \<le> 0) xs"
proof -
  have l: "takeWhile (\<lambda>x. icmp (fst x) t < 0) xs = filter (\<lambda>x. icmp (fst x) t < 0) xs"
    by (rule takeWhile_sorted_filter [OF srt]) (rule three_way.cmp_less_trans [OF tw])
  have u: "takeWhile (\<lambda>x. icmp (fst x) t \<le> 0) xs = filter (\<lambda>x. icmp (fst x) t \<le> 0) xs"
    by (rule takeWhile_sorted_filter [OF srt]) (meson three_way.cmp_le_trans [OF tw] less_imp_le)
  show "lower_bound icmp (map fst xs) t = length (filter (\<lambda>x. icmp (fst x) t < 0) xs)"
      "upper_bound icmp (map fst xs) t = length (filter (\<lambda>x. icmp (fst x) t \<le> 0) xs)"
    by (simp_all add: lower_bound_def upper_bound_def takeWhile_map comp_def l u)
  then show "take (lower_bound icmp (map fst xs) t) xs = filter (\<lambda>x. icmp (fst x) t < 0) xs"
      "take (upper_bound icmp (map fst xs) t) xs = filter (\<lambda>x. icmp (fst x) t \<le> 0) xs"
    by (metis l takeWhile_eq_take, metis u takeWhile_eq_take)
qed

text \<open>The bounds of a target in a child are those in the merge, counted in the child.\<close>

lemma merge_of_bounds:
  assumes tw: "three_way icmp" and mg: "merge_of icmp es ms" and i: "i < length es"
  shows "lower_bound icmp (map fst (es ! i)) t = passed ms (es ! i) (lower_bound icmp (map fst ms) t)"
    and "upper_bound icmp (map fst (es ! i)) t = passed ms (es ! i) (upper_bound icmp (map fst ms) t)"
proof -
  have srt: "sorted_wrt (\<lambda>a b. icmp (fst a) (fst b) < 0) ms" "sorted_wrt (\<lambda>a b. icmp (fst a) (fst b) < 0) (es ! i)"
    using mg i by (simp_all add: merge_of_def list_all_length)
  have "filter P (es ! i) = filter (\<lambda>x. x \<in> set (es ! i)) (filter P ms)" for P
    using arg_cong [OF merge_of_part [OF assms], of "filter P"] by (simp add: conj_commute)
  then show "lower_bound icmp (map fst (es ! i)) t = passed ms (es ! i) (lower_bound icmp (map fst ms) t)"
      "upper_bound icmp (map fst (es ! i)) t = passed ms (es ! i) (upper_bound icmp (map fst ms) t)"
    unfolding passed_def bound_counts(2,4) [OF tw srt(1)] bound_counts(1,3) [OF tw srt(2)] by simp_all
qed

lemma merge_of_bounds_at:
  assumes tw: "three_way icmp" and mg: "merge_of icmp es ms" and p: "p < length ms"
  shows "lower_bound icmp (map fst ms) (fst (ms ! p)) = p" and "upper_bound icmp (map fst ms) (fst (ms ! p)) = Suc p"
proof -
  have srt: "\<And>j k. j < k \<Longrightarrow> k < length ms \<Longrightarrow> icmp (fst (ms ! j)) (fst (ms ! k)) < 0"
    using mg by (simp add: merge_of_def sorted_wrt_iff_nth_less)
  show "lower_bound icmp (map fst ms) (fst (ms ! p)) = p"
    using p srt three_way.cmp_refl [OF tw] by (intro lower_bound_eqI) simp_all
  have "takeWhile (\<lambda>x. icmp (fst x) (fst (ms ! p)) \<le> 0) ms = take (Suc p) ms"
  proof (rule takeWhile_eq_take_P_nth)
    show "icmp (fst (ms ! j)) (fst (ms ! p)) \<le> 0" if "j < Suc p" "j < length ms" for j
      using that srt [of j p] p three_way.cmp_refl [OF tw] by (cases "j = p") simp_all
    show "\<not> icmp (fst (ms ! Suc p)) (fst (ms ! p)) \<le> 0" if "Suc p < length ms"
    proof -
      have "0 < icmp (fst (ms ! Suc p)) (fst (ms ! p))"
        using srt [OF lessI that] unfolding three_way.cmp_swap [OF tw, of "fst (ms ! p)"] .
      then show ?thesis by simp
    qed
  qed
  then show "upper_bound icmp (map fst ms) (fst (ms ! p)) = Suc p"
    using p by (simp add: upper_bound_def takeWhile_map comp_def)
qed

section \<open>The children and their heap\<close>

text \<open>Child with entries \<open>e\<close> stands at \<open>q\<close>, and its wrapper knows.\<close>

definition child_at ::
    "('s \<Rightarrow> (slice \<times> slice) list) \<Rightarrow> ('s \<Rightarrow> int) \<Rightarrow> ('s \<Rightarrow> bool) \<Rightarrow> (slice \<times> slice) list \<Rightarrow> int \<Rightarrow> 's IteratorWrapper \<Rightarrow> bool" where
  "child_at entries pos ok e q w \<longleftrightarrow> ok (iw_iter w) \<and> entries (iw_iter w) = e \<and> same_place e (pos (iw_iter w)) q
     \<and> (iw_valid w \<longleftrightarrow> 0 \<le> q \<and> q < int (length e)) \<and> (iw_valid w \<longrightarrow> iw_key w = fst (e ! nat q))"

text \<open>The valid ones of the first \<open>k\<close> children are in the heap.\<close>

definition in_heap :: "('s IteratorWrapper list \<Rightarrow> nat \<Rightarrow> nat \<Rightarrow> bool) \<Rightarrow> nat \<Rightarrow> 's IteratorWrapper list \<Rightarrow> nat BinaryHeap \<Rightarrow> bool" where
  "in_heap lt k ws h \<longleftrightarrow> heap_ok (lt ws) h \<and> mset (hp_data h) = mset (filter (\<lambda>i. iw_valid (ws ! i)) [0..<k])
     \<and> k \<le> length ws \<and> length ws < kMaxSizet"

text \<open>What the two heaps share: the order compares the cached keys.\<close>

locale merge_side =
  fixes lt :: "'s IteratorWrapper list \<Rightarrow> nat \<Rightarrow> nat \<Rightarrow> bool"
  assumes lt_order: "weak_order (lt ws)"
    and lt_cong: "iw_key (ws ! a) = iw_key (ws' ! a) \<Longrightarrow> iw_key (ws ! b) = iw_key (ws' ! b) \<Longrightarrow> lt ws a b = lt ws' a b"
begin

lemma lt_agree: "a \<noteq> i \<Longrightarrow> b \<noteq> i \<Longrightarrow> lt (ws[i := w]) a b = lt ws a b"
  by (rule lt_cong) simp_all

lemma in_heap_set: "in_heap lt k ws h \<Longrightarrow> set (hp_data h) = {i. i < k \<and> iw_valid (ws ! i)}"
  unfolding in_heap_def by (metis (no_types, lifting) atLeastLessThan_iff mem_Collect_eq set_filter set_mset_mset set_upt
      zero_le Collect_cong)

lemma in_heap_distinct: "in_heap lt k ws h \<Longrightarrow> distinct (hp_data h)"
  unfolding in_heap_def by (metis distinct_filter distinct_upt mset_eq_imp_distinct_iff)

lemma in_heap_length: "in_heap lt k ws h \<Longrightarrow> length (hp_data h) \<le> k"
  unfolding in_heap_def by (metis diff_zero length_filter_le length_upt size_mset)

lemma in_heap_empty: "in_heap lt 0 ws h \<longleftrightarrow> hp_data h = [] \<and> heap_ok (lt ws) h \<and> length ws < kMaxSizet"
  by (auto simp: in_heap_def)

text \<open>The heap does not look at a child that is not in it.\<close>

lemma heap_ok_agree:
  assumes "heap_ok (lt ws) h" and "i \<notin> set (hp_data h)"
  shows "heap_ok (lt (ws[i := w])) h"
proof -
  have at: "lt (ws[i := w]) (hp_data h ! a) (hp_data h ! b) = lt ws (hp_data h ! a) (hp_data h ! b)"
    if "a < length (hp_data h)" "b < length (hp_data h)" for a b
    using that assms(2) by (intro lt_agree) (metis nth_mem)+
  have "get_parent c < length (hp_data h)" if "c < length (hp_data h)" for c
    using that by (simp add: get_parent_def)
  then show ?thesis using assms(1) at by (auto simp: heap_ok_def is_heap_def cache_ok_def)
qed

lemma heap_below_root_agree:
  assumes ok: "heap_ok (lt ws) h" and d: "distinct (hp_data h)" and ne: "hp_data h \<noteq> []"
  shows "heap_below_root (lt (ws[hd (hp_data h) := w])) h"
proof -
  let ?i = "hd (hp_data h)"
  have off: "hp_data h ! a \<noteq> ?i" if "0 < a" "a < length (hp_data h)" for a
    using that d ne by (simp add: hd_conv_nth nth_eq_iff_index_eq)
  have at: "lt (ws[?i := w]) (hp_data h ! a) (hp_data h ! b) = lt ws (hp_data h ! a) (hp_data h ! b)"
    if "0 < a" "0 < b" "a < length (hp_data h)" "b < length (hp_data h)" for a b
    using that off by (intro lt_agree) auto
  have pc: "get_parent c < length (hp_data h) \<and> 0 < c" if "c < length (hp_data h)" "0 < get_parent c" for c
    using that by (auto simp: get_parent_def)
  show ?thesis
    unfolding heap_below_root_def cache_ok_def
  proof (intro conjI allI impI)
    fix c assume c: "c < length (hp_data h)" "0 < get_parent c"
    then show "\<not> lt (ws[?i := w]) (hp_data h ! get_parent c) (hp_data h ! c)"
      using ok pc [OF c] at [of "get_parent c" c] by (simp add: heap_ok_def is_heap_def)
  next
    assume k: "root_cmp_cache h < length (hp_data h)"
    then show kk: "root_cmp_cache h = 1 \<or> root_cmp_cache h = 2" using ok by (simp add: heap_ok_def cache_ok_def)
    fix c assume "c < length (hp_data h)" "c = 1 \<or> c = 2"
    then show "\<not> lt (ws[?i := w]) (hp_data h ! root_cmp_cache h) (hp_data h ! c)"
      using ok k kk at [of "root_cmp_cache h" c] by (auto simp: heap_ok_def cache_ok_def)
  next
    show "length (hp_data h) \<le> kMaxSizet" using ok by (simp add: heap_ok_def)
  qed
qed

text \<open>The next child joins the heap if it is valid.\<close>

lemma in_heap_join:
  assumes h: "in_heap lt k ws h" and k: "k < length ws"
  shows "iw_valid w \<Longrightarrow> in_heap lt (Suc k) (ws[k := w]) (heap_push (lt (ws[k := w])) k h)"
    and "\<not> iw_valid w \<Longrightarrow> in_heap lt (Suc k) (ws[k := w]) h"
proof -
  have "k \<notin> set (hp_data h)" using in_heap_set [OF h] by simp
  then have ok: "heap_ok (lt (ws[k := w])) h" using h by (intro heap_ok_agree) (simp_all add: in_heap_def)
  have valid: "filter (\<lambda>i. iw_valid (ws[k := w] ! i)) [0..<Suc k] =
      filter (\<lambda>i. iw_valid (ws ! i)) [0..<k] @ (if iw_valid w then [k] else [])"
    using k by (auto intro: filter_cong)
  show "in_heap lt (Suc k) (ws[k := w]) h" if "\<not> iw_valid w"
    using that h k ok unfolding in_heap_def valid by simp
  show "in_heap lt (Suc k) (ws[k := w]) (heap_push (lt (ws[k := w])) k h)" if "iw_valid w"
  proof -
    have "length (hp_data h) < kMaxSizet" using in_heap_length [OF h] h by (simp add: in_heap_def)
    note p = weak_order.heap_push_ok [OF lt_order ok this, of k]
    then show ?thesis using that h k unfolding in_heap_def valid by simp
  qed
qed

text \<open>The top of the heap moves.\<close>

lemma in_heap_advance:
  assumes h: "in_heap lt (length ws) ws h" and ne: "hp_data h \<noteq> []" and i: "i = hd (hp_data h)"
  shows "iw_valid w \<Longrightarrow> \<exists>h'. replace_top (lt (ws[i := w])) i h = returns h' \<and> in_heap lt (length ws) (ws[i := w]) h'"
    and "\<not> iw_valid w \<Longrightarrow> \<exists>h'. heap_pop (lt (ws[i := w])) h = returns h' \<and> in_heap lt (length ws) (ws[i := w]) h'"
proof -
  have ok: "heap_ok (lt ws) h" using h by (simp add: in_heap_def)
  note below = heap_below_root_agree [OF ok in_heap_distinct [OF h] ne, of w, folded i]
  have mem: "i < length ws" "iw_valid (ws ! i)" using in_heap_set [OF h] hd_in_set [OF ne] i by auto
  have hd: "mset (hp_data h) = add_mset i (mset (tl (hp_data h)))" using ne i by (cases "hp_data h") simp_all
  then have tl: "mset (tl (hp_data h)) = mset (filter (\<lambda>i. iw_valid (ws ! i)) [0..<length ws]) - {#i#}"
    using h unfolding in_heap_def by (metis add_mset_remove_trivial)
  have split: "[0..<length ws] = [0..<i] @ i # [Suc i..<length ws]"
    using mem(1) upt_add_eq_append [of 0 i "length ws - i"] by (simp add: upt_conv_Cons)
  have rest: "filter (\<lambda>j. iw_valid (ws[i := w] ! j)) [0..<i] = filter (\<lambda>j. iw_valid (ws ! j)) [0..<i]"
      "filter (\<lambda>j. iw_valid (ws[i := w] ! j)) [Suc i..<length ws] = filter (\<lambda>j. iw_valid (ws ! j)) [Suc i..<length ws]"
    by (auto intro: filter_cong)
  have valid: "mset (filter (\<lambda>j. iw_valid (ws[i := w] ! j)) [0..<length ws]) =
      mset (tl (hp_data h)) + (if iw_valid w then {#i#} else {#})"
    unfolding tl unfolding split using mem rest by simp
  show "\<exists>h'. replace_top (lt (ws[i := w])) i h = returns h' \<and> in_heap lt (length ws) (ws[i := w]) h'" if "iw_valid w"
  proof -
    obtain h' where "replace_top (lt (ws[i := w])) i h = returns h'" "heap_ok (lt (ws[i := w])) h'"
        "mset (hp_data h') = add_mset i (mset (tl (hp_data h)))"
      using weak_order.replace_top_ok [OF lt_order below ne, of i] by blast
    then show ?thesis using h valid that by (simp add: in_heap_def)
  qed
  show "\<exists>h'. heap_pop (lt (ws[i := w])) h = returns h' \<and> in_heap lt (length ws) (ws[i := w]) h'" if "\<not> iw_valid w"
  proof -
    obtain h' where "heap_pop (lt (ws[i := w])) h = returns h'" "heap_ok (lt (ws[i := w])) h'"
        "mset (hp_data h') = mset (tl (hp_data h))"
      using weak_order.heap_pop_ok [OF lt_order below ne] by blast
    then show ?thesis using h valid that by (simp add: in_heap_def)
  qed
qed

text \<open>The top is a child that no other child of the heap beats.\<close>

lemma in_heap_top:
  assumes h: "in_heap lt k ws h" and i: "i < k" "iw_valid (ws ! i)"
  shows "hp_data h \<noteq> []" and "heap_top h = Inr (hd (hp_data h))" and "hd (hp_data h) < k" and "iw_valid (ws ! hd (hp_data h))"
    and "\<not> lt ws (hd (hp_data h)) i"
proof -
  have i: "i \<in> set (hp_data h)" using in_heap_set [OF h] i by simp
  then show ne: "hp_data h \<noteq> []" by auto
  have ok: "heap_ok (lt ws) h" using h by (simp add: in_heap_def)
  show "heap_top h = Inr (hd (hp_data h))" "\<not> lt ws (hd (hp_data h)) i"
    using weak_order.heap_top_max [OF lt_order ok ne] i by simp_all
  show "hd (hp_data h) < k" "iw_valid (ws ! hd (hp_data h))" using in_heap_set [OF h] hd_in_set [OF ne] by auto
qed

end

section \<open>The loops over the children\<close>

lemma each_child_append: "each_child f (is @ js) m = run_then (each_child f is m) (each_child f js)"
proof (induction "is" arbitrary: m)
  case (Cons i "is")
  show ?case
  proof (cases "f i m")
    case (Some r)
    then show ?thesis using Cons by (cases r) simp_all
  qed simp
qed simp

lemma each_child_inv:
  assumes "I 0 m" and "\<forall>k < n. \<forall>m. I k m \<longrightarrow> (\<exists>m'. body k m = returns m' \<and> I (Suc k) m')"
  shows "\<exists>m'. each_child body [0..<n] m = returns m' \<and> I n m'"
  using assms(2)
proof (induction n)
  case (Suc n)
  then obtain m' where m': "each_child body [0..<n] m = returns m'" "I n m'" by auto
  moreover obtain m'' where "body n m' = returns m''" "I (Suc n) m''" using Suc.prems m'(2) by blast
  ultimately show ?case by (simp add: each_child_append)
qed (use assms(1) in simp)

text \<open>The state of a loop over the children before child \<open>k\<close>: the first \<open>k\<close> stand at their places \<open>Q\<close> and are in the
  heap, the others are as \<open>rest\<close> says.\<close>

definition loop_inv ::
    "('s \<Rightarrow> (slice \<times> slice) list) \<Rightarrow> ('s \<Rightarrow> int) \<Rightarrow> ('s \<Rightarrow> bool) \<Rightarrow> (slice \<times> slice) list list \<Rightarrow>
     ('s IteratorWrapper list \<Rightarrow> nat \<Rightarrow> nat \<Rightarrow> bool) \<Rightarrow> ('s MergingIterator \<Rightarrow> nat BinaryHeap option) \<Rightarrow> (nat \<Rightarrow> int) \<Rightarrow>
     (nat \<Rightarrow> 's IteratorWrapper \<Rightarrow> bool) \<Rightarrow> nat option \<Rightarrow> nat \<Rightarrow> 's MergingIterator \<Rightarrow> bool" where
  "loop_inv entries pos ok es lt hp Q rest c k m \<longleftrightarrow>
     length (mi_children m) = length es
     \<and> (\<forall>i < length es. if i < k then child_at entries pos ok (es ! i) (Q i) (mi_children m ! i) else rest i (mi_children m ! i))
     \<and> (\<exists>h. hp m = Some h \<and> in_heap lt k (mi_children m) h) \<and> mi_status m = OK \<and> mi_current m = c"

abbreviation min_of :: "'s MergingIterator \<Rightarrow> nat BinaryHeap option" where
  "min_of m \<equiv> Some (minHeap m)"

text \<open>The iterator stands at entry \<open>p\<close> of the merge \<open>ms\<close>; it is past the end or before the start if there is no such
  entry.\<close>

definition stands ::
    "(slice \<Rightarrow> slice \<Rightarrow> int) \<Rightarrow> ('s \<Rightarrow> (slice \<times> slice) list) \<Rightarrow> ('s \<Rightarrow> int) \<Rightarrow> ('s \<Rightarrow> bool) \<Rightarrow> (slice \<times> slice) list list \<Rightarrow>
     (slice \<times> slice) list \<Rightarrow> 's MergingIterator \<Rightarrow> int \<Rightarrow> bool" where
  "stands icmp entries pos ok es ms m p \<longleftrightarrow>
     (case mi_direction m of
        kForward \<Rightarrow>
          0 \<le> p \<and> p \<le> int (length ms) \<and> CurrentForward m = Inr (mi_current m)
          \<and> loop_inv entries pos ok es (MinIteratorComparator icmp) min_of (\<lambda>i. int (passed ms (es ! i) (nat p)))
              (\<lambda>_ _. True) (mi_current m) (length es) m
      | kReverse \<Rightarrow>
          -1 \<le> p \<and> p < int (length ms) \<and> CurrentReverse m = Inr (mi_current m)
          \<and> loop_inv entries pos ok es (MaxIteratorComparator icmp) maxHeap (\<lambda>i. int (passed ms (es ! i) (nat (p + 1))) - 1)
              (\<lambda>_ _. True) (mi_current m) (length es) m)"

text \<open>All that a seek needs: the children are iterators over \<open>es\<close>.\<close>

definition attached ::
    "('s \<Rightarrow> (slice \<times> slice) list) \<Rightarrow> ('s \<Rightarrow> bool) \<Rightarrow> (slice \<times> slice) list list \<Rightarrow> 's MergingIterator \<Rightarrow> bool" where
  "attached entries ok es m \<longleftrightarrow> length (mi_children m) = length es \<and> length es < kMaxSizet
     \<and> (\<forall>i < length es. ok (iw_iter (mi_children m ! i)) \<and> entries (iw_iter (mi_children m ! i)) = es ! i)"

text \<open>The children a change of direction has not come to: the current one stands where it is, the others anywhere.\<close>

definition switch_rest ::
    "('s \<Rightarrow> (slice \<times> slice) list) \<Rightarrow> ('s \<Rightarrow> int) \<Rightarrow> ('s \<Rightarrow> bool) \<Rightarrow> (slice \<times> slice) list list \<Rightarrow> (nat \<Rightarrow> int) \<Rightarrow> nat \<Rightarrow>
     nat \<Rightarrow> 's IteratorWrapper \<Rightarrow> bool" where
  "switch_rest entries pos ok es Q c i w \<longleftrightarrow>
     (if i = c then child_at entries pos ok (es ! i) (Q i) w else ok (iw_iter w) \<and> entries (iw_iter w) = es ! i)"

lemma merge_side_comparators:
  assumes "three_way icmp"
  shows "merge_side (MinIteratorComparator icmp)" and "merge_side (MaxIteratorComparator icmp)"
proof -
  have sw: "icmp a b < 0 \<longleftrightarrow> 0 < icmp b a" and tr: "icmp a b \<le> 0 \<Longrightarrow> icmp b c \<le> 0 \<Longrightarrow> icmp a c \<le> 0"
    and le: "icmp a b \<le> 0 \<longleftrightarrow> 0 \<le> icmp b a" for a b c
    using three_way.cmp_swap [OF assms] three_way.cmp_le_trans [OF assms] three_way.cmp_le_iff [OF assms] by blast+
  have gt: "weak_order (\<lambda>a b. icmp (key a) (key b) > 0)" for key :: "nat \<Rightarrow> slice"
  proof
    show "\<not> icmp (key b) (key a) > 0" if "icmp (key a) (key b) > 0" for a b
      using sw [of "key b" "key a"] that by linarith
    show "\<not> icmp (key a) (key c) > 0" if "\<not> icmp (key a) (key b) > 0" "\<not> icmp (key b) (key c) > 0" for a b c
      using tr [of "key a" "key b" "key c"] that by linarith
  qed
  have lt: "weak_order (\<lambda>a b. icmp (key a) (key b) < 0)" for key :: "nat \<Rightarrow> slice"
  proof
    show "\<not> icmp (key b) (key a) < 0" if "icmp (key a) (key b) < 0" for a b
      using sw [of "key a" "key b"] that by linarith
    show "\<not> icmp (key a) (key c) < 0" if "\<not> icmp (key a) (key b) < 0" "\<not> icmp (key b) (key c) < 0" for a b c
      using tr [of "key c" "key b" "key a"] le [of "key b" "key a"] le [of "key c" "key b"] le [of "key c" "key a"] that by linarith
  qed
  show "merge_side (MinIteratorComparator icmp)"
    by (rule merge_side.intro) (use gt in \<open>simp_all add: MinIteratorComparator_def [abs_def]\<close>)
  show "merge_side (MaxIteratorComparator icmp)"
    by (rule merge_side.intro) (use lt in \<open>simp_all add: MaxIteratorComparator_def [abs_def]\<close>)
qed

sublocale internal_iterator \<subseteq> mins: merge_side "MinIteratorComparator icmp"
  by (rule merge_side_comparators [OF three_way_axioms])

sublocale internal_iterator \<subseteq> maxs: merge_side "MaxIteratorComparator icmp"
  by (rule merge_side_comparators [OF three_way_axioms])

context internal_iterator
begin

lemma move_to:
  assumes "f (iw_iter w) = returns s'" and "ok s'" and "entries s' = e" and "same_place e (pos s') q"
  shows "\<exists>w'. iw_move ops f w = returns w' \<and> child_at entries pos ok e q w'"
  using assms valid_iff [OF assms(2)] key_ok [OF assms(2)] status_ok [OF assms(2)]
  by (auto simp: iw_move_def iw_Update_def child_at_def same_place_def)

lemma join_min:
  assumes inv: "loop_inv entries pos ok es (MinIteratorComparator icmp) min_of Q rest c k m" and k: "k < length es"
    and w: "child_at entries pos ok (es ! k) (Q k) w"
  shows "iw_valid w \<Longrightarrow> \<exists>m'. push_min icmp k (m\<lparr>mi_children := (mi_children m)[k := w]\<rparr>) = returns m'
      \<and> loop_inv entries pos ok es (MinIteratorComparator icmp) min_of Q rest c (Suc k) m'"
    and "\<not> iw_valid w \<Longrightarrow> loop_inv entries pos ok es (MinIteratorComparator icmp) min_of Q rest c (Suc k)
      (m\<lparr>mi_children := (mi_children m)[k := w]\<rparr>)"
  using inv k w mins.in_heap_join [of k "mi_children m" "minHeap m" w]
  by (auto simp: loop_inv_def push_min_def nth_list_update less_Suc_eq)

lemma join_max:
  assumes inv: "loop_inv entries pos ok es (MaxIteratorComparator icmp) maxHeap Q rest c k m" and k: "k < length es"
    and w: "child_at entries pos ok (es ! k) (Q k) w"
  shows "iw_valid w \<Longrightarrow> \<exists>m'. push_max icmp k (m\<lparr>mi_children := (mi_children m)[k := w]\<rparr>) = returns m'
      \<and> loop_inv entries pos ok es (MaxIteratorComparator icmp) maxHeap Q rest c (Suc k) m'"
    and "\<not> iw_valid w \<Longrightarrow> loop_inv entries pos ok es (MaxIteratorComparator icmp) maxHeap Q rest c (Suc k)
      (m\<lparr>mi_children := (mi_children m)[k := w]\<rparr>)"
  using inv k w maxs.in_heap_join [of k "mi_children m" _ w]
  by (auto simp: loop_inv_def push_max_def nth_list_update less_Suc_eq)

lemma join_checked:
  assumes inv: "loop_inv entries pos ok es (MaxIteratorComparator icmp) maxHeap Q rest c k m" and k: "k < length es"
    and w: "child_at entries pos ok (es ! k) (Q k) w" and v: "iw_valid w"
  shows "\<exists>m'. (\<lambda>i m. if io_status ops (iw_iter (mi_children m ! i)) = OK then push_max icmp i m else fails AssertFailed) k
      (m\<lparr>mi_children := (mi_children m)[k := w]\<rparr>) = returns m'
    \<and> loop_inv entries pos ok es (MaxIteratorComparator icmp) maxHeap Q rest c (Suc k) m'"
proof -
  have "length (mi_children m) = length es" "io_status ops (iw_iter w) = OK"
    using inv w status_ok by (simp_all add: loop_inv_def child_at_def)
  then show ?thesis using join_max(1) [OF inv k w v] k by simp
qed

lemma max_cleared:
  assumes "attached entries ok es m"
  shows "\<exists>h. maxHeap (InitMaxHeap (ClearHeaps m)) = Some h \<and> in_heap (MaxIteratorComparator icmp) 0 (mi_children m) h"
  using assms weak_order.heap_ok_clear [OF maxs.lt_order] weak_order.heap_ok_new [OF maxs.lt_order]
  by (cases "maxHeap m") (auto simp: maxs.in_heap_empty attached_def InitMaxHeap_def ClearHeaps_def heap_clear_def BinaryHeap_new_def)

text \<open>The loop of a seek puts every child at its place.\<close>

lemma seek_children_ok:
  assumes inv: "loop_inv entries pos ok es lt hp Q (\<lambda>i w. ok (iw_iter w) \<and> entries (iw_iter w) = es ! i) c 0 (m\<lparr>mi_status := OK\<rparr>)"
    and f: "\<forall>i < length es. \<forall>s. ok s \<and> entries s = es ! i \<longrightarrow> (\<exists>s'. f s = returns s' \<and> ok s' \<and> entries s' = es ! i \<and> same_place (es ! i) (pos s') (Q i))"
    and join: "\<And>k m w. loop_inv entries pos ok es lt hp Q (\<lambda>i w. ok (iw_iter w) \<and> entries (iw_iter w) = es ! i) c k m \<Longrightarrow>
      k < length es \<Longrightarrow> child_at entries pos ok (es ! k) (Q k) w \<Longrightarrow> iw_valid w \<Longrightarrow>
      \<exists>m'. push k (m\<lparr>mi_children := (mi_children m)[k := w]\<rparr>) = returns m'
        \<and> loop_inv entries pos ok es lt hp Q (\<lambda>i w. ok (iw_iter w) \<and> entries (iw_iter w) = es ! i) c (Suc k) m'"
    and skip: "\<And>k m w. loop_inv entries pos ok es lt hp Q (\<lambda>i w. ok (iw_iter w) \<and> entries (iw_iter w) = es ! i) c k m \<Longrightarrow>
      k < length es \<Longrightarrow> child_at entries pos ok (es ! k) (Q k) w \<Longrightarrow> \<not> iw_valid w \<Longrightarrow>
      loop_inv entries pos ok es lt hp Q (\<lambda>i w. ok (iw_iter w) \<and> entries (iw_iter w) = es ! i) c (Suc k)
        (m\<lparr>mi_children := (mi_children m)[k := w]\<rparr>)"
  shows "\<exists>m'. seek_children ops f push m = returns m' \<and> loop_inv entries pos ok es lt hp Q (\<lambda>_ _. True) c (length es) m'"
proof -
  let ?I = "loop_inv entries pos ok es lt hp Q (\<lambda>i w. ok (iw_iter w) \<and> entries (iw_iter w) = es ! i) c"
  let ?body = "\<lambda>i m. run_then (move_child ops f i m) (add_child ops push i)"
  have "\<exists>m'. ?body k m = returns m' \<and> ?I (Suc k) m'" if k: "k < length es" and I: "?I k m" for k m
  proof -
    let ?w = "mi_children m ! k"
    have "ok (iw_iter ?w) \<and> entries (iw_iter ?w) = es ! k" and len: "length (mi_children m) = length es"
      using I k by (auto simp: loop_inv_def)
    then obtain w where w: "iw_move ops f ?w = returns w" "child_at entries pos ok (es ! k) (Q k) w"
      using f k move_to by blast
    have st: "io_status ops (iw_iter w) = OK" using w(2) status_ok by (simp add: child_at_def)
    show ?thesis
      using join [OF I k w(2)] skip [OF I k w(2)] w(1) k len st
      by (cases "iw_valid w") (auto simp: move_child_def add_child_def Let_def considerStatus_def)
  qed
  then obtain m' where m': "each_child ?body [0..<length es] (m\<lparr>mi_status := OK\<rparr>) = returns m'" "?I (length es) m'"
    using each_child_inv [of ?I "m\<lparr>mi_status := OK\<rparr>" "length es" ?body] inv by blast
  have "length (mi_children m) = length es" using inv by (simp add: loop_inv_def)
  then show ?thesis using m' by (auto simp: seek_children_def loop_inv_def)
qed

lemma CurrentForward_some:
  assumes "in_heap lt k ws (minHeap m)" and "mi_direction m = kForward"
  shows "CurrentForward m = Inr (if hp_data (minHeap m) = [] then None else Some (hd (hp_data (minHeap m))))"
  using assms(2) by (simp add: CurrentForward_def heap_empty_def heap_top_def split: list.split)

lemma CurrentReverse_some:
  assumes "maxHeap m = Some h" and "mi_direction m = kReverse"
  shows "CurrentReverse m = Inr (if hp_data h = [] then None else Some (hd (hp_data h)))"
  using assms by (simp add: CurrentReverse_def heap_empty_def heap_top_def split: list.split)

lemma seek_forward_ok:
  assumes "attached entries ok es m" and p: "p \<le> length ms"
    and f: "\<forall>i < length es. \<forall>s. ok s \<and> entries s = es ! i \<longrightarrow>
      (\<exists>s'. f s = returns s' \<and> ok s' \<and> entries s' = es ! i \<and> same_place (es ! i) (pos s') (int (passed ms (es ! i) p)))"
  shows "\<exists>m'. seek_forward icmp ops f m = returns m' \<and> stands icmp entries pos ok es ms m' (int p)"
proof -
  let ?m = "(ClearHeaps m)\<lparr>mi_status := OK\<rparr>" and ?lt = "MinIteratorComparator icmp"
  have "in_heap ?lt 0 (mi_children m) (heap_clear (minHeap m))"
    using assms(1) weak_order.heap_ok_clear [OF mins.lt_order] by (simp add: mins.in_heap_empty attached_def) (simp add: heap_clear_def)
  then have "loop_inv entries pos ok es ?lt min_of (\<lambda>i. int (passed ms (es ! i) p))
      (\<lambda>i w. ok (iw_iter w) \<and> entries (iw_iter w) = es ! i) (mi_current m) 0 ?m"
    using assms(1) by (simp add: loop_inv_def attached_def ClearHeaps_def)
  then have "\<exists>m'. seek_children ops f (push_min icmp) (ClearHeaps m) = returns m'
      \<and> loop_inv entries pos ok es ?lt min_of (\<lambda>i. int (passed ms (es ! i) p)) (\<lambda>_ _. True) (mi_current m) (length es) m'"
    by (rule seek_children_ok [OF _ f]) (rule join_min; assumption)+
  then obtain m' where m': "seek_children ops f (push_min icmp) (ClearHeaps m) = returns m'"
      "loop_inv entries pos ok es ?lt min_of (\<lambda>i. int (passed ms (es ! i) p)) (\<lambda>_ _. True) (mi_current m) (length es) m'"
    by blast
  then show ?thesis using p CurrentForward_some [of ?lt "length es" "mi_children m'" "m'\<lparr>mi_direction := kForward\<rparr>"]
    by (auto simp: seek_forward_def set_current_def stands_def loop_inv_def CurrentForward_def)
qed

lemma seek_reverse_ok:
  assumes "attached entries ok es m" and p: "p \<le> length ms"
    and f: "\<forall>i < length es. \<forall>s. ok s \<and> entries s = es ! i \<longrightarrow>
      (\<exists>s'. f s = returns s' \<and> ok s' \<and> entries s' = es ! i \<and> same_place (es ! i) (pos s') (int (passed ms (es ! i) p) - 1))"
  shows "\<exists>m'. seek_reverse icmp ops f m = returns m' \<and> stands icmp entries pos ok es ms m' (int p - 1)"
proof -
  let ?m = "(InitMaxHeap (ClearHeaps m))\<lparr>mi_status := OK\<rparr>" and ?lt = "MaxIteratorComparator icmp"
  have "\<exists>h. maxHeap ?m = Some h \<and> in_heap ?lt 0 (mi_children m) h" using max_cleared [OF assms(1)] by simp
  then have "loop_inv entries pos ok es ?lt maxHeap (\<lambda>i. int (passed ms (es ! i) p) - 1)
      (\<lambda>i w. ok (iw_iter w) \<and> entries (iw_iter w) = es ! i) (mi_current m) 0 ?m"
    using assms(1) by (cases "maxHeap m") (simp_all add: loop_inv_def attached_def ClearHeaps_def InitMaxHeap_def)
  then have "\<exists>m'. seek_children ops f (push_max icmp) (InitMaxHeap (ClearHeaps m)) = returns m'
      \<and> loop_inv entries pos ok es ?lt maxHeap (\<lambda>i. int (passed ms (es ! i) p) - 1) (\<lambda>_ _. True) (mi_current m) (length es) m'"
    by (rule seek_children_ok [OF _ f]) (rule join_max; assumption)+
  then obtain m' where m': "seek_children ops f (push_max icmp) (InitMaxHeap (ClearHeaps m)) = returns m'"
      "loop_inv entries pos ok es ?lt maxHeap (\<lambda>i. int (passed ms (es ! i) p) - 1) (\<lambda>_ _. True) (mi_current m) (length es) m'"
    by blast
  then obtain h where h: "maxHeap m' = Some h" by (auto simp: loop_inv_def)
  then show ?thesis using m' p CurrentReverse_some [of "m'\<lparr>mi_direction := kReverse\<rparr>" h]
    by (auto simp: seek_reverse_def set_current_def stands_def loop_inv_def CurrentReverse_def)
qed

subsection \<open>The current child\<close>

lemma forward_top:
  assumes mg: "merge_of icmp es ms" and p: "p < length ms"
    and inv: "loop_inv entries pos ok es (MinIteratorComparator icmp) min_of (\<lambda>i. int (passed ms (es ! i) p)) rest c (length es) m"
  shows "\<exists>i < length es. ms ! p \<in> set (es ! i) \<and> hp_data (minHeap m) \<noteq> [] \<and> hd (hp_data (minHeap m)) = i
    \<and> iw_valid (mi_children m ! i) \<and> iw_key (mi_children m ! i) = fst (ms ! p) \<and> es ! i ! passed ms (es ! i) p = ms ! p"
proof -
  note tw = three_way_axioms
  let ?ws = "mi_children m"
  obtain i where i: "i < length es" "ms ! p \<in> set (es ! i)" and only: "\<forall>j < length es. ms ! p \<in> set (es ! j) \<longrightarrow> j = i"
    using merge_of_owner [OF tw mg p] by blast
  have at: "child_at entries pos ok (es ! j) (int (passed ms (es ! j) p)) (?ws ! j)" if "j < length es" for j
    using inv that by (simp add: loop_inv_def)
  have heap: "in_heap (MinIteratorComparator icmp) (length es) ?ws (minHeap m)" using inv by (simp add: loop_inv_def)
  have "passed ms (es ! i) (Suc p) = passed ms (es ! i) p + 1" using passed_Suc [OF p] i(2) by simp
  then have pi: "passed ms (es ! i) p < length (es ! i)" using passed_le [OF tw mg i(1), of "Suc p"] by simp
  then have vi: "iw_valid (?ws ! i)" using at [OF i(1)] by (simp add: child_at_def)
  have ei: "es ! i ! passed ms (es ! i) p = ms ! p" using merge_of_ahead [OF tw mg i(1) p pi] i(2) by blast
  then have ki: "iw_key (?ws ! i) = fst (ms ! p)" using at [OF i(1)] vi by (simp add: child_at_def)
  let ?t = "hd (hp_data (minHeap m))"
  note top = mins.in_heap_top [OF heap i(1) vi]
  have "?t = i"
  proof (rule ccontr)
    assume "?t \<noteq> i"
    then have "ms ! p \<notin> set (es ! ?t)" using only top(3) by blast
    moreover have pt: "passed ms (es ! ?t) p < length (es ! ?t)" using at [OF top(3)] top(4) by (simp add: child_at_def)
    ultimately have "icmp (fst (ms ! p)) (fst (es ! ?t ! passed ms (es ! ?t) p)) < 0"
      using merge_of_ahead [OF tw mg top(3) p pt] by blast
    moreover have "iw_key (?ws ! ?t) = fst (es ! ?t ! passed ms (es ! ?t) p)" using at [OF top(3)] top(4) by (simp add: child_at_def)
    ultimately have "MinIteratorComparator icmp ?ws ?t i"
      using ki cmp_swap [of "fst (ms ! p)"] by (simp add: MinIteratorComparator_def)
    then show False using top(5) by blast
  qed
  then show ?thesis using i top(1) vi ki ei by blast
qed

lemma reverse_top:
  assumes mg: "merge_of icmp es ms" and p: "p < length ms"
    and inv: "loop_inv entries pos ok es (MaxIteratorComparator icmp) maxHeap (\<lambda>i. int (passed ms (es ! i) (Suc p)) - 1) rest c (length es) m"
  shows "\<exists>i < length es. \<exists>h. ms ! p \<in> set (es ! i) \<and> maxHeap m = Some h \<and> hp_data h \<noteq> [] \<and> hd (hp_data h) = i
    \<and> iw_valid (mi_children m ! i) \<and> iw_key (mi_children m ! i) = fst (ms ! p) \<and> es ! i ! passed ms (es ! i) p = ms ! p"
proof -
  note tw = three_way_axioms
  let ?ws = "mi_children m"
  obtain i where i: "i < length es" "ms ! p \<in> set (es ! i)" and only: "\<forall>j < length es. ms ! p \<in> set (es ! j) \<longrightarrow> j = i"
    using merge_of_owner [OF tw mg p] by blast
  have at: "child_at entries pos ok (es ! j) (int (passed ms (es ! j) (Suc p)) - 1) (?ws ! j)" if "j < length es" for j
    using inv that by (simp add: loop_inv_def)
  have key: "iw_key (?ws ! j) = fst (es ! j ! (passed ms (es ! j) (Suc p) - 1))" "0 < passed ms (es ! j) (Suc p)"
    if "j < length es" "iw_valid (?ws ! j)" for j
    using at [OF that(1)] that(2) by (auto simp: child_at_def nat_diff_distrib')
  obtain h where h: "maxHeap m = Some h" and heap: "in_heap (MaxIteratorComparator icmp) (length es) ?ws h"
    using inv by (auto simp: loop_inv_def)
  have pi: "passed ms (es ! i) (Suc p) = passed ms (es ! i) p + 1" using passed_Suc [OF p] i(2) by simp
  then have vi: "iw_valid (?ws ! i)" using at [OF i(1)] passed_le [OF tw mg i(1), of "Suc p"] by (simp add: child_at_def)
  have ei: "es ! i ! passed ms (es ! i) p = ms ! p" using merge_of_behind [OF tw mg i(1) p] i(2) pi by auto
  then have ki: "iw_key (?ws ! i) = fst (ms ! p)" using key(1) [OF i(1) vi] pi by simp
  let ?t = "hd (hp_data h)"
  note top = maxs.in_heap_top [OF heap i(1) vi]
  have "?t = i"
  proof (rule ccontr)
    assume "?t \<noteq> i"
    then have "ms ! p \<notin> set (es ! ?t)" using only top(3) by blast
    then have "icmp (fst (es ! ?t ! (passed ms (es ! ?t) (Suc p) - 1))) (fst (ms ! p)) < 0"
      using merge_of_behind [OF tw mg top(3) p key(2) [OF top(3,4)]] by blast
    then have "MaxIteratorComparator icmp ?ws ?t i"
      using ki key(1) [OF top(3,4)] by (simp add: MaxIteratorComparator_def)
    then show False using top(5) by blast
  qed
  then show ?thesis using i h top(1) vi ki ei by blast
qed

lemma forward_end:
  assumes mg: "merge_of icmp es ms"
    and inv: "loop_inv entries pos ok es (MinIteratorComparator icmp) min_of (\<lambda>i. int (passed ms (es ! i) (length ms))) rest c (length es) m"
  shows "hp_data (minHeap m) = []"
proof -
  have "\<not> iw_valid (mi_children m ! i)" if "i < length es" for i
    using inv that passed_all [OF three_way_axioms mg that] by (auto simp: loop_inv_def child_at_def)
  then have "set (hp_data (minHeap m)) = {}"
    using inv mins.in_heap_set [of "length es" "mi_children m" "minHeap m"] by (auto simp: loop_inv_def)
  then show ?thesis by simp
qed

lemma reverse_end:
  assumes "loop_inv entries pos ok es (MaxIteratorComparator icmp) maxHeap (\<lambda>i. int (passed ms (es ! i) 0) - 1) rest c (length es) m"
    and "maxHeap m = Some h"
  shows "hp_data h = []"
proof -
  have "\<not> iw_valid (mi_children m ! i)" if "i < length es" for i
    using assms(1) that by (auto simp: loop_inv_def child_at_def passed_def)
  then have "set (hp_data h) = {}"
    using assms maxs.in_heap_set [of "length es" "mi_children m" h] by (auto simp: loop_inv_def)
  then show ?thesis by simp
qed

text \<open>What a reader sees.\<close>

lemma stands_reads:
  assumes mg: "merge_of icmp es ms" and st: "stands icmp entries pos ok es ms m p"
  shows "mi_status m = OK" and "mi_Valid m \<longleftrightarrow> 0 \<le> p \<and> p < int (length ms)"
    and "0 \<le> p \<Longrightarrow> p < int (length ms) \<Longrightarrow> mi_key m = Inr (fst (ms ! nat p)) \<and> mi_value ops m = Inr (snd (ms ! nat p))"
proof -
  show s: "mi_status m = OK" using st by (auto simp: stands_def loop_inv_def split: Direction.splits)
  have cur: "(\<exists>i < length es. mi_current m = Some i \<and> iw_valid (mi_children m ! i) \<and> iw_key (mi_children m ! i) = fst (ms ! nat p)
      \<and> es ! i ! passed ms (es ! i) (nat p) = ms ! nat p
      \<and> child_at entries pos ok (es ! i) (int (passed ms (es ! i) (nat p))) (mi_children m ! i))"
    if p: "0 \<le> p" "p < int (length ms)"
  proof (cases "mi_direction m")
    case kForward
    then have inv: "loop_inv entries pos ok es (MinIteratorComparator icmp) min_of (\<lambda>i. int (passed ms (es ! i) (nat p)))
          (\<lambda>_ _. True) (mi_current m) (length es) m" and c: "CurrentForward m = Inr (mi_current m)"
      using st by (simp_all add: stands_def)
    have "nat p < length ms" using p by simp
    from forward_top [OF mg this inv] show ?thesis
      using c kForward CurrentForward_some [of "MinIteratorComparator icmp" "length es" "mi_children m" m] inv
      by (auto simp: loop_inv_def)
  next
    case kReverse
    have np: "nat (p + 1) = Suc (nat p)" "nat p < length ms" using p by simp_all
    then have inv: "loop_inv entries pos ok es (MaxIteratorComparator icmp) maxHeap (\<lambda>i. int (passed ms (es ! i) (Suc (nat p))) - 1)
          (\<lambda>_ _. True) (mi_current m) (length es) m" and c: "CurrentReverse m = Inr (mi_current m)"
      using st kReverse by (simp_all add: stands_def)
    from reverse_top [OF mg np(2) inv] show ?thesis
      using c kReverse CurrentReverse_some [of m] inv passed_Suc [OF np(2)] by (auto simp: loop_inv_def)
  qed
  have none: "mi_current m = None" if "\<not> (0 \<le> p \<and> p < int (length ms))"
  proof (cases "mi_direction m")
    case kForward
    then have "p = int (length ms)" using st that by (auto simp: stands_def)
    then show ?thesis using st kForward forward_end [OF mg] CurrentForward_some [of _ _ _ m]
      by (auto simp: stands_def loop_inv_def)
  next
    case kReverse
    then have "p = -1" using st that by (auto simp: stands_def)
    then show ?thesis using st kReverse reverse_end [of es ms _ _ m] CurrentReverse_some [of m]
      by (auto simp: stands_def loop_inv_def)
  qed
  show v: "mi_Valid m \<longleftrightarrow> 0 \<le> p \<and> p < int (length ms)"
    using cur none s by (cases "0 \<le> p \<and> p < int (length ms)") (force simp: mi_Valid_def)+
  show "mi_key m = Inr (fst (ms ! nat p)) \<and> mi_value ops m = Inr (snd (ms ! nat p))" if p: "0 \<le> p" "p < int (length ms)"
  proof -
    obtain i where i: "mi_current m = Some i" "iw_valid (mi_children m ! i)" "iw_key (mi_children m ! i) = fst (ms ! nat p)"
        "es ! i ! passed ms (es ! i) (nat p) = ms ! nat p"
        "child_at entries pos ok (es ! i) (int (passed ms (es ! i) (nat p))) (mi_children m ! i)"
      using cur [OF p] by blast
    let ?s = "iw_iter (mi_children m ! i)"
    have "ok ?s" "entries ?s = es ! i" "pos ?s = int (passed ms (es ! i) (nat p))" using i(5) i(2) by (auto simp: child_at_def same_place_def)
    then have "io_value ops ?s = Inr (snd (ms ! nat p))"
      using valid_iff [of ?s] value_ok [of ?s] i(2,4,5) by (simp add: child_at_def)
    then show ?thesis using v p i by (simp add: mi_key_def mi_value_def)
  qed
qed

subsection \<open>Moving on\<close>

lemma next_forward:
  assumes mg: "merge_of icmp es ms" and st: "stands icmp entries pos ok es ms m p" and d: "mi_direction m = kForward"
    and p: "p < int (length ms)"
  shows "\<exists>m'. mi_Next icmp ops m = returns m' \<and> stands icmp entries pos ok es ms m' (p + 1)"
proof -
  let ?lt = "MinIteratorComparator icmp" and ?ws = "mi_children m" and ?p = "nat p"
  have p0: "0 \<le> p" and cf: "CurrentForward m = Inr (mi_current m)"
    and inv: "loop_inv entries pos ok es ?lt min_of (\<lambda>i. int (passed ms (es ! i) ?p)) (\<lambda>_ _. True) (mi_current m) (length es) m"
    using st d by (simp_all add: stands_def)
  have v: "mi_Valid m" using stands_reads(2) [OF mg st] p0 p by simp
  have pl: "?p < length ms" "nat (p + 1) = Suc ?p" using p p0 by simp_all
  obtain i where i: "i < length es" "ms ! ?p \<in> set (es ! i)" "hp_data (minHeap m) \<noteq> []" "hd (hp_data (minHeap m)) = i" "iw_valid (?ws ! i)"
    using forward_top [OF mg pl(1) inv] by blast
  have heap: "in_heap ?lt (length ?ws) ?ws (minHeap m)" and len: "length ?ws = length es" using inv by (auto simp: loop_inv_def)
  have cur: "mi_current m = Some i" using cf i(3,4) CurrentForward_some [OF heap d] by simp
  have at: "child_at entries pos ok (es ! j) (int (passed ms (es ! j) ?p)) (?ws ! j)" if "j < length es" for j
    using inv that by (simp add: loop_inv_def)
  let ?s = "iw_iter (?ws ! i)"
  have s: "ok ?s" "entries ?s = es ! i" "pos ?s = int (passed ms (es ! i) ?p)" "io_Valid ops ?s"
    using at [OF i(1)] i(5) valid_iff [of ?s] by (auto simp: child_at_def same_place_def)
  then obtain w where w: "iw_move ops (io_Next ops) (?ws ! i) = returns w"
      "child_at entries pos ok (es ! i) (int (passed ms (es ! i) (Suc ?p))) w"
  proof -
    obtain s' where "io_Next ops ?s = returns s'" "ok s'" "entries s' = es ! i" "same_place (es ! i) (pos s') (int (passed ms (es ! i) (Suc ?p)))"
      using next_ok [OF s(1,4)] s(2,3) passed_Suc [OF pl(1), of "es ! i"] i(2) by (auto simp: add.commute)
    then show thesis using that move_to by blast
  qed
  have "io_status ops (iw_iter w) = OK" using w(2) status_ok by (simp add: child_at_def)
  moreover have "\<exists>h'. (if iw_valid w then replace_top (?lt (?ws[i := w])) i (minHeap m) else heap_pop (?lt (?ws[i := w])) (minHeap m)) = returns h'
      \<and> in_heap ?lt (length ?ws) (?ws[i := w]) h'"
    using mins.in_heap_advance [OF heap i(3) i(4) [symmetric], of w] by simp
  ultimately obtain h' where h': "mi_Next icmp ops m = set_current CurrentForward (m\<lparr>mi_children := ?ws[i := w], minHeap := h'\<rparr>)"
      "in_heap ?lt (length ?ws) (?ws[i := w]) h'"
    using v cf cur w(1) d i(1) len
    by (auto simp: mi_Next_def assert_current_def move_child_def Let_def considerStatus_def split: if_splits)
  let ?m = "m\<lparr>mi_children := ?ws[i := w], minHeap := h'\<rparr>"
  have others: "passed ms (es ! j) (Suc ?p) = passed ms (es ! j) ?p" if "j < length es" "j \<noteq> i" for j
    by (rule passed_other [OF three_way_axioms mg pl(1) i(1,2) that])
  have inv': "loop_inv entries pos ok es ?lt min_of (\<lambda>j. int (passed ms (es ! j) (Suc ?p))) (\<lambda>_ _. True) c (length es) (?m\<lparr>mi_current := c\<rparr>)" for c
    using inv h'(2) w(2) others len i(1) by (auto simp: loop_inv_def nth_list_update)
  have cf': "CurrentForward ?m = Inr (if hp_data h' = [] then None else Some (hd (hp_data h')))"
    using CurrentForward_some [of ?lt "length ?ws" "?ws[i := w]" ?m] h'(2) d by simp
  moreover have "CurrentForward (?m\<lparr>mi_current := c\<rparr>) = CurrentForward ?m" for c by (simp add: CurrentForward_def)
  ultimately show ?thesis
    using h'(1) inv' pl d p p0 by (auto simp: set_current_def stands_def)
qed

lemma prev_reverse:
  assumes mg: "merge_of icmp es ms" and st: "stands icmp entries pos ok es ms m p" and d: "mi_direction m = kReverse" and p: "0 \<le> p"
  shows "\<exists>m'. mi_Prev icmp ops m = returns m' \<and> stands icmp entries pos ok es ms m' (p - 1)"
proof -
  let ?lt = "MaxIteratorComparator icmp" and ?ws = "mi_children m" and ?p = "nat p"
  have pn: "p < int (length ms)" and cr: "CurrentReverse m = Inr (mi_current m)" using st d by (simp_all add: stands_def)
  have pl: "?p < length ms" "nat (p + 1) = Suc ?p" using pn p by simp_all
  have inv: "loop_inv entries pos ok es ?lt maxHeap (\<lambda>i. int (passed ms (es ! i) (Suc ?p)) - 1) (\<lambda>_ _. True) (mi_current m) (length es) m"
    using st d pl by (simp add: stands_def)
  have v: "mi_Valid m" using stands_reads(2) [OF mg st] pn p by simp
  obtain i h where i: "i < length es" "ms ! ?p \<in> set (es ! i)" "maxHeap m = Some h" "hp_data h \<noteq> []" "hd (hp_data h) = i" "iw_valid (?ws ! i)"
    using reverse_top [OF mg pl(1) inv] by blast
  have heap: "in_heap ?lt (length ?ws) ?ws h" and len: "length ?ws = length es" using inv i(3) by (auto simp: loop_inv_def)
  have cur: "mi_current m = Some i" using cr i(4,5) CurrentReverse_some [OF i(3) d] by simp
  have at: "child_at entries pos ok (es ! j) (int (passed ms (es ! j) (Suc ?p)) - 1) (?ws ! j)" if "j < length es" for j
    using inv that by (simp add: loop_inv_def)
  let ?s = "iw_iter (?ws ! i)"
  have s: "ok ?s" "entries ?s = es ! i" "pos ?s = int (passed ms (es ! i) (Suc ?p)) - 1" "io_Valid ops ?s"
    using at [OF i(1)] i(6) valid_iff [of ?s] by (auto simp: child_at_def same_place_def)
  then obtain w where w: "iw_move ops (io_Prev ops) (?ws ! i) = returns w"
      "child_at entries pos ok (es ! i) (int (passed ms (es ! i) ?p) - 1) w"
  proof -
    obtain s' where "io_Prev ops ?s = returns s'" "ok s'" "entries s' = es ! i" "same_place (es ! i) (pos s') (int (passed ms (es ! i) ?p) - 1)"
      using prev_ok [OF s(1,4)] s(2,3) passed_Suc [OF pl(1), of "es ! i"] i(2) by auto
    then show thesis using that move_to by blast
  qed
  have "io_status ops (iw_iter w) = OK" using w(2) status_ok by (simp add: child_at_def)
  moreover have "\<exists>h'. (if iw_valid w then replace_top (?lt (?ws[i := w])) i h else heap_pop (?lt (?ws[i := w])) h) = returns h'
      \<and> in_heap ?lt (length ?ws) (?ws[i := w]) h'"
    using maxs.in_heap_advance [OF heap i(4) i(5) [symmetric], of w] by simp
  ultimately obtain h' where h': "mi_Prev icmp ops m = set_current CurrentReverse (m\<lparr>mi_children := ?ws[i := w], maxHeap := Some h'\<rparr>)"
      "in_heap ?lt (length ?ws) (?ws[i := w]) h'"
    using v cr cur w(1) d i(1,3) len
    by (auto simp: mi_Prev_def assert_current_def move_child_def Let_def considerStatus_def split: if_splits)
  let ?m = "m\<lparr>mi_children := ?ws[i := w], maxHeap := Some h'\<rparr>"
  have others: "passed ms (es ! j) (Suc ?p) = passed ms (es ! j) ?p" if "j < length es" "j \<noteq> i" for j
    by (rule passed_other [OF three_way_axioms mg pl(1) i(1,2) that])
  have inv': "loop_inv entries pos ok es ?lt maxHeap (\<lambda>j. int (passed ms (es ! j) ?p) - 1) (\<lambda>_ _. True) c (length es) (?m\<lparr>mi_current := c\<rparr>)" for c
    using inv h'(2) w(2) others len i(1) by (auto simp: loop_inv_def nth_list_update)
  have "CurrentReverse ?m = Inr (if hp_data h' = [] then None else Some (hd (hp_data h')))"
    using CurrentReverse_some [of ?m h'] d by simp
  moreover have "CurrentReverse (?m\<lparr>mi_current := c\<rparr>) = CurrentReverse ?m" for c by (simp add: CurrentReverse_def)
  ultimately show ?thesis
    using h'(1) inv' pl d p pn by (auto simp: set_current_def stands_def)
qed

subsection \<open>The change of direction\<close>

lemma switch_children_ok:
  fixes es Q c0
  defines "rest \<equiv> switch_rest entries pos ok es Q c0"
  assumes inv: "loop_inv entries pos ok es lt hp Q rest (Some c0) 0 m"
    and seek: "\<forall>i < length es. \<forall>s. ok s \<and> entries s = es ! i \<longrightarrow>
      (\<exists>s'. seek target s = returns s' \<and> ok s' \<and> entries s' = es ! i \<and> same_place (es ! i) (pos s') (Q i))"
    and neq: "\<forall>i < length es. \<forall>w. i \<noteq> c0 \<longrightarrow> child_at entries pos ok (es ! i) (Q i) w \<longrightarrow> iw_valid w \<longrightarrow> icmp target (iw_key w) \<noteq> 0"
    and join: "\<And>k m w. loop_inv entries pos ok es lt hp Q rest (Some c0) k m \<Longrightarrow>
      k < length es \<Longrightarrow> child_at entries pos ok (es ! k) (Q k) w \<Longrightarrow> iw_valid w \<Longrightarrow>
      \<exists>m'. push k (m\<lparr>mi_children := (mi_children m)[k := w]\<rparr>) = returns m'
        \<and> loop_inv entries pos ok es lt hp Q rest (Some c0) (Suc k) m'"
    and skip: "\<And>k m w. loop_inv entries pos ok es lt hp Q rest (Some c0) k m \<Longrightarrow>
      k < length es \<Longrightarrow> child_at entries pos ok (es ! k) (Q k) w \<Longrightarrow> \<not> iw_valid w \<Longrightarrow>
      loop_inv entries pos ok es lt hp Q rest (Some c0) (Suc k) (m\<lparr>mi_children := (mi_children m)[k := w]\<rparr>)"
  shows "\<exists>m'. each_child (switch_child icmp ops seek step push target) [0..<length es] m = returns m'
    \<and> loop_inv entries pos ok es lt hp Q (\<lambda>_ _. True) (Some c0) (length es) m'"
proof -
  let ?I = "loop_inv entries pos ok es lt hp Q rest (Some c0)" and ?body = "switch_child icmp ops seek step push target"
  have "\<exists>m'. ?body k m = returns m' \<and> ?I (Suc k) m'" if k: "k < length es" and I: "?I k m" for k m
  proof (cases "k = c0")
    case True
    then have w: "child_at entries pos ok (es ! k) (Q k) (mi_children m ! k)" and c: "mi_current m = Some c0"
      using I k by (auto simp: loop_inv_def rest_def switch_rest_def)
    have "m\<lparr>mi_children := (mi_children m)[k := mi_children m ! k]\<rparr> = m" by simp
    then show ?thesis using join [OF I k w] skip [OF I k w] True c
      by (cases "iw_valid (mi_children m ! k)") (simp_all add: switch_child_def)
  next
    case False
    let ?w = "mi_children m ! k"
    have "ok (iw_iter ?w) \<and> entries (iw_iter ?w) = es ! k" and len: "length (mi_children m) = length es" and c: "mi_current m = Some c0"
      using I k False by (auto simp: loop_inv_def rest_def switch_rest_def)
    then obtain w where w: "iw_move ops (seek target) ?w = returns w" "child_at entries pos ok (es ! k) (Q k) w"
      using seek k move_to by blast
    have "io_status ops (iw_iter w) = OK" using w(2) status_ok by (simp add: child_at_def)
    moreover have "iw_valid w \<Longrightarrow> icmp target (iw_key w) \<noteq> 0" using neq k False w(2) by blast
    ultimately show ?thesis
      using join [OF I k w(2)] skip [OF I k w(2)] w(1) k len c False
      by (cases "iw_valid w") (simp_all add: switch_child_def move_child_def Let_def considerStatus_def)
  qed
  then obtain m' where "each_child ?body [0..<length es] m = returns m'" "?I (length es) m'"
    using each_child_inv [of ?I m "length es" ?body] inv by blast
  then show ?thesis by (auto simp: loop_inv_def)
qed

lemma stands_attached:
  "stands icmp entries pos ok es ms m p \<Longrightarrow> attached entries ok es m"
  by (auto simp: stands_def attached_def loop_inv_def child_at_def in_heap_def split: Direction.splits)

lemma merge_sorted:
  assumes "merge_of icmp es ms" and "i < length es"
  shows "sorted_keys icmp (map fst (es ! i))"
  using assms by (simp add: merge_of_def list_all_length sorted_keys_def sorted_wrt_map)

lemma ClearHeaps_key: "mi_key (ClearHeaps m) = mi_key m" "mi_key (InitMaxHeap m) = mi_key m"
  by (cases "maxHeap m"; simp add: mi_key_def mi_Valid_def ClearHeaps_def InitMaxHeap_def)+

lemma SwitchToForward_ok:
  assumes mg: "merge_of icmp es ms" and st: "stands icmp entries pos ok es ms m p" and d: "mi_direction m = kReverse" and p: "0 \<le> p"
  shows "\<exists>m'. SwitchToForward icmp ops m = returns m' \<and> mi_direction m' = kForward \<and> stands icmp entries pos ok es ms m' p"
proof -
  note tw = three_way_axioms
  let ?p = "nat p" and ?m = "ClearHeaps m" and ?lt = "MinIteratorComparator icmp"
  let ?Q = "\<lambda>i. int (passed ms (es ! i) ?p)"
  have pn: "p < int (length ms)" and cr: "CurrentReverse m = Inr (mi_current m)" using st d by (simp_all add: stands_def)
  have pl: "?p < length ms" "nat (p + 1) = Suc ?p" using pn p by simp_all
  have inv: "loop_inv entries pos ok es (MaxIteratorComparator icmp) maxHeap (\<lambda>i. int (passed ms (es ! i) (Suc ?p)) - 1)
      (\<lambda>_ _. True) (mi_current m) (length es) m"
    using st d pl by (simp add: stands_def)
  obtain i h where i: "i < length es" "ms ! ?p \<in> set (es ! i)" "maxHeap m = Some h" "hp_data h \<noteq> []" "hd (hp_data h) = i"
    using reverse_top [OF mg pl(1) inv] by blast
  have cur: "mi_current m = Some i" using cr i(4,5) CurrentReverse_some [OF i(3) d] by simp
  have key: "mi_key ?m = Inr (fst (ms ! ?p))"
    using stands_reads(3) [OF mg st p pn] by (simp add: ClearHeaps_key)
  note att = stands_attached [OF st]
  have "in_heap ?lt 0 (mi_children m) (heap_clear (minHeap m))"
    using att weak_order.heap_ok_clear [OF mins.lt_order] by (simp add: mins.in_heap_empty attached_def) (simp add: heap_clear_def)
  moreover have "child_at entries pos ok (es ! i) (?Q i) (mi_children m ! i)"
    using inv i(1,2) passed_Suc [OF pl(1), of "es ! i"] by (auto simp: loop_inv_def)
  ultimately have start: "loop_inv entries pos ok es ?lt min_of ?Q (switch_rest entries pos ok es ?Q i) (Some i) 0 ?m"
    using att cur stands_reads(1) [OF mg st] by (simp add: loop_inv_def attached_def ClearHeaps_def switch_rest_def)
  have seek: "\<forall>j < length es. \<forall>s. ok s \<and> entries s = es ! j \<longrightarrow>
      (\<exists>s'. io_Seek ops (fst (ms ! ?p)) s = returns s' \<and> ok s' \<and> entries s' = es ! j \<and> same_place (es ! j) (pos s') (?Q j))"
    using seek_ok merge_sorted [OF mg] merge_of_bounds(1) [OF tw mg] merge_of_bounds_at(1) [OF tw mg pl(1)] by metis
  have neq: "icmp (fst (ms ! ?p)) (iw_key w) \<noteq> 0"
    if "j < length es" "j \<noteq> i" "child_at entries pos ok (es ! j) (?Q j) w" "iw_valid w" for j w
  proof -
    have "ms ! ?p \<notin> set (es ! j)"
      using distinct_concat_index [OF merge_of_distinct(2) [OF tw mg] that(1) i(1) _ i(2)] that(2) by blast
    moreover have "passed ms (es ! j) ?p < length (es ! j)" "iw_key w = fst (es ! j ! passed ms (es ! j) ?p)"
      using that(3,4) by (simp_all add: child_at_def)
    ultimately show ?thesis using merge_of_ahead [OF tw mg that(1) pl(1)] by auto
  qed
  have "\<exists>m'. each_child (switch_child icmp ops (io_Seek ops) (io_Next ops) (push_min icmp) (fst (ms ! ?p))) [0..<length es] ?m = returns m'
      \<and> loop_inv entries pos ok es ?lt min_of ?Q (\<lambda>_ _. True) (Some i) (length es) m'"
    by (rule switch_children_ok [where seek = "io_Seek ops", OF start seek]) (use neq in blast, (rule join_min; assumption)+)
  then obtain m' where m': "SwitchToForward icmp ops m = returns (m'\<lparr>mi_direction := kForward\<rparr>)"
      "loop_inv entries pos ok es ?lt min_of ?Q (\<lambda>_ _. True) (Some i) (length es) m'"
    using key att by (auto simp: SwitchToForward_def attached_def)
  obtain i' where i': "i' < length es" "ms ! ?p \<in> set (es ! i')" "hp_data (minHeap m') \<noteq> []" "hd (hp_data (minHeap m')) = i'"
    using forward_top [OF mg pl(1) m'(2)] by blast
  then have "i' = i" using distinct_concat_index [OF merge_of_distinct(2) [OF tw mg] i'(1) i(1) i'(2) i(2)] by simp
  then show ?thesis
    using m' i' p pn CurrentForward_some [of ?lt "length es" "mi_children m'" "m'\<lparr>mi_direction := kForward\<rparr>"]
    by (auto simp: stands_def loop_inv_def)
qed

lemma mi_Next_ok:
  assumes mg: "merge_of icmp es ms" and st: "stands icmp entries pos ok es ms m p" and p: "0 \<le> p" "p < int (length ms)"
  shows "\<exists>m'. mi_Next icmp ops m = returns m' \<and> stands icmp entries pos ok es ms m' (p + 1)"
proof (cases "mi_direction m")
  case kForward
  then show ?thesis using next_forward [OF mg st _ p(2)] by blast
next
  case kReverse
  then obtain m1 where m1: "SwitchToForward icmp ops m = returns m1" "mi_direction m1 = kForward" "stands icmp entries pos ok es ms m1 p"
    using SwitchToForward_ok [OF mg st _ p(1)] by blast
  have "mi_Valid m" "mi_Valid m1" using stands_reads(2) [OF mg] st m1(3) p by simp_all
  moreover have "CurrentForward m1 = Inr (mi_current m1)" using m1(2,3) by (simp add: stands_def)
  ultimately have "mi_Next icmp ops m = mi_Next icmp ops m1"
    using kReverse m1(1,2) by (simp add: mi_Next_def assert_current_def)
  then show ?thesis using next_forward [OF mg m1(3,2) p(2)] by simp
qed

subsection \<open>The seeks\<close>

lemma mi_SeekToFirst_ok:
  assumes "merge_of icmp es ms" and att: "attached entries ok es m"
  shows "\<exists>m'. mi_SeekToFirst icmp ops m = returns m' \<and> stands icmp entries pos ok es ms m' 0"
proof -
  have "\<forall>i < length es. \<forall>s. ok s \<and> entries s = es ! i \<longrightarrow>
      (\<exists>s'. io_SeekToFirst ops s = returns s' \<and> ok s' \<and> entries s' = es ! i \<and> same_place (es ! i) (pos s') (int (passed ms (es ! i) 0)))"
    using first_ok by (fastforce simp: passed_def)
  from seek_forward_ok [OF att _ this] show ?thesis by (simp add: mi_SeekToFirst_def)
qed

lemma mi_SeekToLast_ok:
  assumes mg: "merge_of icmp es ms" and att: "attached entries ok es m"
  shows "\<exists>m'. mi_SeekToLast icmp ops m = returns m' \<and> stands icmp entries pos ok es ms m' (int (length ms) - 1)"
proof -
  have "\<forall>i < length es. \<forall>s. ok s \<and> entries s = es ! i \<longrightarrow>
      (\<exists>s'. io_SeekToLast ops s = returns s' \<and> ok s' \<and> entries s' = es ! i \<and> same_place (es ! i) (pos s') (int (passed ms (es ! i) (length ms)) - 1))"
    using last_ok passed_all [OF three_way_axioms mg] by fastforce
  from seek_reverse_ok [OF att _ this] show ?thesis by (simp add: mi_SeekToLast_def)
qed

lemma mi_Seek_ok:
  assumes mg: "merge_of icmp es ms" and att: "attached entries ok es m"
  shows "\<exists>m'. mi_Seek icmp ops target m = returns m' \<and> stands icmp entries pos ok es ms m' (int (lower_bound icmp (map fst ms) target))"
proof -
  let ?p = "lower_bound icmp (map fst ms) target"
  have "\<forall>i < length es. \<forall>s. ok s \<and> entries s = es ! i \<longrightarrow>
      (\<exists>s'. io_Seek ops target s = returns s' \<and> ok s' \<and> entries s' = es ! i \<and> same_place (es ! i) (pos s') (int (passed ms (es ! i) ?p)))"
    using seek_ok merge_sorted [OF mg] merge_of_bounds(1) [OF three_way_axioms mg] by metis
  moreover have "?p \<le> length ms" using length_takeWhile_le [of _ "map fst ms"] by (simp add: lower_bound_def)
  ultimately show ?thesis using seek_forward_ok [OF att, of ?p ms] by (simp add: mi_Seek_def)
qed

end

context reversible_iterator
begin

lemma mi_SeekForPrev_ok:
  assumes mg: "merge_of icmp es ms" and att: "attached entries ok es m"
  shows "\<exists>m'. mi_SeekForPrev icmp ops target m = returns m'
    \<and> stands icmp entries pos ok es ms m' (int (upper_bound icmp (map fst ms) target) - 1)"
proof -
  let ?p = "upper_bound icmp (map fst ms) target"
  have "\<forall>i < length es. \<forall>s. ok s \<and> entries s = es ! i \<longrightarrow>
      (\<exists>s'. io_SeekForPrev ops target s = returns s' \<and> ok s' \<and> entries s' = es ! i \<and> same_place (es ! i) (pos s') (int (passed ms (es ! i) ?p) - 1))"
    using seek_for_prev_ok merge_sorted [OF mg] merge_of_bounds(2) [OF three_way_axioms mg] by metis
  moreover have "?p \<le> length ms" using length_takeWhile_le [of _ "map fst ms"] by (simp add: upper_bound_def)
  ultimately show ?thesis using seek_reverse_ok [OF att, of ?p ms] by (simp add: mi_SeekForPrev_def)
qed

lemma SwitchToReverse_ok:
  assumes mg: "merge_of icmp es ms" and st: "stands icmp entries pos ok es ms m p" and d: "mi_direction m = kForward" and pn: "p < int (length ms)"
  shows "\<exists>m'. SwitchToReverse icmp ops m = returns m' \<and> mi_direction m' = kReverse \<and> stands icmp entries pos ok es ms m' p"
proof -
  note tw = three_way_axioms
  let ?p = "nat p" and ?m = "InitMaxHeap (ClearHeaps m)" and ?lt = "MaxIteratorComparator icmp"
  let ?Q = "\<lambda>i. int (passed ms (es ! i) (Suc ?p)) - 1"
  let ?push = "\<lambda>i m. if io_status ops (iw_iter (mi_children m ! i)) = OK then push_max icmp i m else fails AssertFailed"
  have p: "0 \<le> p" and cf: "CurrentForward m = Inr (mi_current m)"
    and inv: "loop_inv entries pos ok es (MinIteratorComparator icmp) min_of (\<lambda>i. int (passed ms (es ! i) ?p)) (\<lambda>_ _. True) (mi_current m) (length es) m"
    using st d by (simp_all add: stands_def)
  have pl: "?p < length ms" "nat (p + 1) = Suc ?p" using pn p by simp_all
  obtain i where i: "i < length es" "ms ! ?p \<in> set (es ! i)" "hp_data (minHeap m) \<noteq> []" "hd (hp_data (minHeap m)) = i"
    using forward_top [OF mg pl(1) inv] by blast
  have "in_heap (MinIteratorComparator icmp) (length es) (mi_children m) (minHeap m)" using inv by (simp add: loop_inv_def)
  then have cur: "mi_current m = Some i" using cf i(3,4) CurrentForward_some [OF _ d] by simp
  have key: "mi_key ?m = Inr (fst (ms ! ?p))" using stands_reads(3) [OF mg st p pn] by (simp add: ClearHeaps_key)
  note att = stands_attached [OF st]
  have "\<exists>h. maxHeap ?m = Some h \<and> in_heap ?lt 0 (mi_children m) h" by (rule max_cleared [OF att])
  moreover have "child_at entries pos ok (es ! i) (?Q i) (mi_children m ! i)"
    using inv i(1,2) passed_Suc [OF pl(1), of "es ! i"] by (auto simp: loop_inv_def)
  ultimately have start: "loop_inv entries pos ok es ?lt maxHeap ?Q (switch_rest entries pos ok es ?Q i) (Some i) 0 ?m"
    using att cur stands_reads(1) [OF mg st]
    by (cases "maxHeap m") (simp_all add: loop_inv_def attached_def ClearHeaps_def InitMaxHeap_def switch_rest_def)
  have seek: "\<forall>j < length es. \<forall>s. ok s \<and> entries s = es ! j \<longrightarrow>
      (\<exists>s'. io_SeekForPrev ops (fst (ms ! ?p)) s = returns s' \<and> ok s' \<and> entries s' = es ! j \<and> same_place (es ! j) (pos s') (?Q j))"
    using seek_for_prev_ok merge_sorted [OF mg] merge_of_bounds(2) [OF tw mg] merge_of_bounds_at(2) [OF tw mg pl(1)] by metis
  have neq: "icmp (fst (ms ! ?p)) (iw_key w) \<noteq> 0"
    if "j < length es" "j \<noteq> i" "child_at entries pos ok (es ! j) (?Q j) w" "iw_valid w" for j w
  proof -
    have "ms ! ?p \<notin> set (es ! j)"
      using distinct_concat_index [OF merge_of_distinct(2) [OF tw mg] that(1) i(1) _ i(2)] that(2) by blast
    moreover have "0 < passed ms (es ! j) (Suc ?p)" "iw_key w = fst (es ! j ! (passed ms (es ! j) (Suc ?p) - 1))"
      using that(3,4) by (auto simp: child_at_def nat_diff_distrib')
    ultimately have "icmp (iw_key w) (fst (ms ! ?p)) < 0" using merge_of_behind [OF tw mg that(1) pl(1)] by simp
    then show ?thesis using cmp_swap [of "iw_key w"] by auto
  qed
  have "\<exists>m'. each_child (switch_child icmp ops (io_SeekForPrev ops) (io_Prev ops) ?push (fst (ms ! ?p))) [0..<length es] ?m = returns m'
      \<and> loop_inv entries pos ok es ?lt maxHeap ?Q (\<lambda>_ _. True) (Some i) (length es) m'"
    by (rule switch_children_ok [where seek = "io_SeekForPrev ops", OF start seek]) (use neq in blast, (rule join_checked join_max; assumption)+)
  then obtain m' where m': "each_child (switch_child icmp ops (io_SeekForPrev ops) (io_Prev ops) ?push (fst (ms ! ?p))) [0..<length (mi_children m)] ?m = returns m'"
      "loop_inv entries pos ok es ?lt maxHeap ?Q (\<lambda>_ _. True) (Some i) (length es) m'"
    using att by (auto simp: attached_def)
  obtain i' h where i': "i' < length es" "ms ! ?p \<in> set (es ! i')" "maxHeap m' = Some h" "hp_data h \<noteq> []" "hd (hp_data h) = i'"
    using reverse_top [OF mg pl(1) m'(2)] by blast
  then have "i' = i" using distinct_concat_index [OF merge_of_distinct(2) [OF tw mg] i'(1) i(1) i'(2) i(2)] by simp
  then have "CurrentReverse (m'\<lparr>mi_direction := kReverse\<rparr>) = Inr (Some i)" "mi_current m' = Some i"
    using i' m'(2) CurrentReverse_some [of "m'\<lparr>mi_direction := kReverse\<rparr>"] by (simp_all add: loop_inv_def)
  then show ?thesis
    using m' key pl p pn
    by (auto simp: SwitchToReverse_def stands_def loop_inv_def set_current_def assert_current_def Let_def CurrentReverse_def)
qed

lemma mi_Prev_ok:
  assumes mg: "merge_of icmp es ms" and st: "stands icmp entries pos ok es ms m p" and p: "0 \<le> p" "p < int (length ms)"
  shows "\<exists>m'. mi_Prev icmp ops m = returns m' \<and> stands icmp entries pos ok es ms m' (p - 1)"
proof (cases "mi_direction m")
  case kReverse
  then show ?thesis using prev_reverse [OF mg st _ p(1)] by blast
next
  case kForward
  then obtain m1 where m1: "SwitchToReverse icmp ops m = returns m1" "mi_direction m1 = kReverse" "stands icmp entries pos ok es ms m1 p"
    using SwitchToReverse_ok [OF mg st _ p(2)] by blast
  have "mi_Valid m" "mi_Valid m1" using stands_reads(2) [OF mg] st m1(3) p by simp_all
  then have "mi_Prev icmp ops m = mi_Prev icmp ops m1" using kForward m1(1,2) by (simp add: mi_Prev_def)
  then show ?thesis using prev_reverse [OF mg m1(3,2) p(1)] by simp
qed

end

subsection \<open>A new iterator\<close>

text \<open>An iterator over children that have not been positioned.\<close>

definition unpositioned ::
    "('s \<Rightarrow> (slice \<times> slice) list) \<Rightarrow> ('s \<Rightarrow> bool) \<Rightarrow> (slice \<times> slice) list list \<Rightarrow> 's MergingIterator \<Rightarrow> bool" where
  "unpositioned entries ok es m \<longleftrightarrow> attached entries ok es m \<and> mi_current m = None \<and> mi_status m = OK \<and> mi_direction m = kForward
     \<and> hp_data (minHeap m) = []"

context internal_iterator
begin

lemma set_all_fresh:
  "\<forall>it \<in> set its. ok it \<and> \<not> io_Valid ops it \<Longrightarrow>
     set_all ops its = returns (map (\<lambda>it. \<lparr>iw_iter = it, iw_valid = False, iw_key = []\<rparr>) its)"
  by (induction its) (simp_all add: iw_Set_def iw_Update_def)

lemma add_children_fresh:
  assumes "\<forall>i \<in> set is. \<not> iw_valid (mi_children m ! i) \<and> ok (iw_iter (mi_children m ! i))"
  shows "each_child (add_child ops push) is m = returns m"
  using assms status_ok by (induction "is") (simp_all add: add_child_def considerStatus_def)

lemma MergingIterator_new_fresh:
  assumes f: "\<forall>it \<in> set its. ok it \<and> \<not> io_Valid ops it" and n: "length its < kMaxSizet"
  shows "\<exists>m. MergingIterator_new icmp ops its prefix_mode = returns m \<and> unpositioned entries ok (map entries its) m"
proof -
  let ?ws = "map (\<lambda>it. \<lparr>iw_iter = it, iw_valid = False, iw_key = []\<rparr>) its"
  let ?m = "\<lparr>mi_children = ?ws, mi_current = None, mi_status = OK, mi_direction = kForward, minHeap = BinaryHeap_new,
        prefix_seek_mode = prefix_mode, maxHeap = None\<rparr>"
  have "each_child (add_child ops (push_min icmp)) [0..<length ?ws] ?m = returns ?m"
    using f by (intro add_children_fresh) auto
  moreover have "attached entries ok (map entries its) ?m" using f n by (simp add: attached_def)
  ultimately show ?thesis
    using set_all_fresh [OF f]
    by (simp add: MergingIterator_new_def set_current_def CurrentForward_def heap_empty_def BinaryHeap_new_def unpositioned_def attached_def)
qed

lemma AddIterator_fresh:
  assumes "unpositioned entries ok es m" and "ok it" and "\<not> io_Valid ops it" and "Suc (length es) < kMaxSizet"
  shows "\<exists>m'. AddIterator ops it m = returns m' \<and> unpositioned entries ok (es @ [entries it]) m'"
  using assms status_ok [of it]
  by (auto simp: AddIterator_def iw_Set_def iw_Update_def unpositioned_def attached_def considerStatus_def nth_append less_Suc_eq)

lemma mib_AddAll_merging:
  assumes "use_merging_iter b" and "first_iter b = None" and "unpositioned entries ok es (merge_iter b)"
    and "\<forall>it \<in> set its. ok it \<and> \<not> io_Valid ops it" and "length es + length its < kMaxSizet"
  shows "\<exists>b'. mib_AddAll ops its b = returns b' \<and> use_merging_iter b' \<and> unpositioned entries ok (es @ map entries its) (merge_iter b')"
  using assms
proof (induction its arbitrary: es b)
  case (Cons it its)
  obtain m' where m': "AddIterator ops it (merge_iter b) = returns m'" "unpositioned entries ok (es @ [entries it]) m'"
    using AddIterator_fresh [OF Cons.prems(3), of it] Cons.prems(4,5) by auto
  then have "mib_AddIterator ops it b = returns (b\<lparr>merge_iter := m'\<rparr>)" using Cons.prems(1,2) by (simp add: mib_AddIterator_def)
  then show ?case using Cons.IH [of "b\<lparr>merge_iter := m'\<rparr>" "es @ [entries it]"] Cons.prems m'(2) by auto
qed simp

lemma mib_built:
  assumes f: "\<forall>it \<in> set its. ok it \<and> \<not> io_Valid ops it" and n: "length its < kMaxSizet" "2 \<le> length its"
  shows "\<exists>b m. run_then (MergeIteratorBuilder_new icmp ops prefix_mode) (mib_AddAll ops its) = returns b
    \<and> mib_Finish b = MergedIterator m \<and> unpositioned entries ok (map entries its) m"
proof -
  obtain x y zs where its: "its = x # y # zs" using n(2) by (cases its; cases "tl its") auto
  obtain m0 where m0: "MergingIterator_new icmp ops [] prefix_mode = returns m0" "unpositioned entries ok [] m0"
    using MergingIterator_new_fresh [of "[]" prefix_mode] n by auto
  obtain m1 where m1: "AddIterator ops x m0 = returns m1" "unpositioned entries ok [entries x] m1"
    using AddIterator_fresh [OF m0(2), of x] f n its by auto
  obtain m2 where m2: "AddIterator ops y m1 = returns m2" "unpositioned entries ok [entries x, entries y] m2"
    using AddIterator_fresh [OF m1(2), of y] f n its by auto
  let ?b = "\<lparr>first_iter = None, use_merging_iter = True, merge_iter = m2\<rparr>"
  have "run_then (MergeIteratorBuilder_new icmp ops prefix_mode) (mib_AddAll ops its) = mib_AddAll ops zs ?b"
    using m0(1) m1(1) m2(1) its by (simp add: MergeIteratorBuilder_new_def mib_AddIterator_def)
  then show ?thesis using mib_AddAll_merging [of ?b "[entries x, entries y]" zs] m2(2) f n its
    by (auto simp: mib_Finish_def)
qed

end

section \<open>Sequences of operations\<close>

text \<open>The operations of a user of the iterator, and the specification: a cursor on the merged sequence, \<open>None\<close> before the
  first seek. \<open>Next\<close> and \<open>Prev\<close> of a cursor that is not valid fail the assertion.\<close>

datatype merge_op = OpSeekToFirst | OpSeekToLast | OpSeek slice | OpSeekForPrev slice | OpNext | OpPrev

fun mi_step :: "(slice \<Rightarrow> slice \<Rightarrow> int) \<Rightarrow> 's InternalIterator \<Rightarrow> merge_op \<Rightarrow> 's MergingIterator \<Rightarrow> 's MergingIterator run" where
  "mi_step icmp ops OpSeekToFirst m = mi_SeekToFirst icmp ops m"
| "mi_step icmp ops OpSeekToLast m = mi_SeekToLast icmp ops m"
| "mi_step icmp ops (OpSeek t) m = mi_Seek icmp ops t m"
| "mi_step icmp ops (OpSeekForPrev t) m = mi_SeekForPrev icmp ops t m"
| "mi_step icmp ops OpNext m = mi_Next icmp ops m"
| "mi_step icmp ops OpPrev m = mi_Prev icmp ops m"

fun mi_run :: "(slice \<Rightarrow> slice \<Rightarrow> int) \<Rightarrow> 's InternalIterator \<Rightarrow> merge_op list \<Rightarrow> 's MergingIterator \<Rightarrow> 's MergingIterator run" where
  "mi_run icmp ops [] m = returns m"
| "mi_run icmp ops (x # xs) m = run_then (mi_step icmp ops x m) (mi_run icmp ops xs)"

definition cursor_valid :: "(slice \<times> slice) list \<Rightarrow> int option \<Rightarrow> bool" where
  "cursor_valid ms q \<longleftrightarrow> (case q of None \<Rightarrow> False | Some p \<Rightarrow> 0 \<le> p \<and> p < int (length ms))"

definition cursor_at :: "(slice \<times> slice) list \<Rightarrow> int option \<Rightarrow> slice \<times> slice" where
  "cursor_at ms q = ms ! nat (the q)"

fun cursor_step :: "(slice \<Rightarrow> slice \<Rightarrow> int) \<Rightarrow> (slice \<times> slice) list \<Rightarrow> merge_op \<Rightarrow> int option \<Rightarrow> int option result" where
  "cursor_step icmp ms OpSeekToFirst q = Inr (Some 0)"
| "cursor_step icmp ms OpSeekToLast q = Inr (Some (int (length ms) - 1))"
| "cursor_step icmp ms (OpSeek t) q = Inr (Some (int (lower_bound icmp (map fst ms) t)))"
| "cursor_step icmp ms (OpSeekForPrev t) q = Inr (Some (int (upper_bound icmp (map fst ms) t) - 1))"
| "cursor_step icmp ms OpNext q = (if cursor_valid ms q then Inr (Some (the q + 1)) else Inl AssertFailed)"
| "cursor_step icmp ms OpPrev q = (if cursor_valid ms q then Inr (Some (the q - 1)) else Inl AssertFailed)"

fun cursor_run :: "(slice \<Rightarrow> slice \<Rightarrow> int) \<Rightarrow> (slice \<times> slice) list \<Rightarrow> merge_op list \<Rightarrow> int option \<Rightarrow> int option result" where
  "cursor_run icmp ms [] q = Inr q"
| "cursor_run icmp ms (x # xs) q = and_then (cursor_step icmp ms x q) (cursor_run icmp ms xs)"

definition stands_at ::
    "(slice \<Rightarrow> slice \<Rightarrow> int) \<Rightarrow> ('s \<Rightarrow> (slice \<times> slice) list) \<Rightarrow> ('s \<Rightarrow> int) \<Rightarrow> ('s \<Rightarrow> bool) \<Rightarrow> (slice \<times> slice) list list \<Rightarrow>
     (slice \<times> slice) list \<Rightarrow> 's MergingIterator \<Rightarrow> int option \<Rightarrow> bool" where
  "stands_at icmp entries pos ok es ms m q \<longleftrightarrow>
     (case q of None \<Rightarrow> unpositioned entries ok es m | Some p \<Rightarrow> stands icmp entries pos ok es ms m p)"

text \<open>What a user reads of the iterator is what the cursor stands at.\<close>

definition reads_as :: "'s InternalIterator \<Rightarrow> (slice \<times> slice) list \<Rightarrow> 's MergingIterator \<Rightarrow> int option \<Rightarrow> bool" where
  "reads_as ops ms m q \<longleftrightarrow> mi_status m = OK \<and> mi_Valid m = cursor_valid ms q
     \<and> (if cursor_valid ms q then mi_key m = Inr (fst (cursor_at ms q)) \<and> mi_value ops m = Inr (snd (cursor_at ms q))
        else mi_key m = Inl AssertFailed \<and> mi_value ops m = Inl AssertFailed)"

definition forward_op :: "merge_op \<Rightarrow> bool" where
  "forward_op x \<longleftrightarrow> (case x of OpSeekForPrev _ \<Rightarrow> False | OpPrev \<Rightarrow> False | _ \<Rightarrow> True)"

context internal_iterator
begin

lemma stands_at_attached: "stands_at icmp entries pos ok es ms m q \<Longrightarrow> attached entries ok es m"
  using stands_attached by (auto simp: stands_at_def unpositioned_def split: option.splits)

lemma stands_at_reads:
  assumes "merge_of icmp es ms" and "stands_at icmp entries pos ok es ms m q"
  shows "reads_as ops ms m q"
proof (cases q)
  case None
  then show ?thesis using assms(2)
    by (simp add: stands_at_def reads_as_def unpositioned_def cursor_valid_def mi_Valid_def mi_key_def mi_value_def)
next
  case (Some p)
  then show ?thesis using stands_reads [OF assms(1), of m p] assms(2)
    by (auto simp: stands_at_def reads_as_def cursor_valid_def cursor_at_def mi_key_def mi_value_def)
qed

lemma forward_step_ok:
  assumes mg: "merge_of icmp es ms" and st: "stands_at icmp entries pos ok es ms m q" and x: "forward_op x"
  shows "case cursor_step icmp ms x q of
      Inl e \<Rightarrow> mi_step icmp ops x m = fails e
    | Inr q' \<Rightarrow> \<exists>m'. mi_step icmp ops x m = returns m' \<and> stands_at icmp entries pos ok es ms m' q'"
proof -
  note att = stands_at_attached [OF st]
  have v: "mi_Valid m \<longleftrightarrow> cursor_valid ms q" using stands_at_reads [OF mg st] by (simp add: reads_as_def)
  show ?thesis
  proof (cases x)
    case OpNext
    then show ?thesis
    proof (cases "cursor_valid ms q")
      case True
      then obtain p where "q = Some p" "0 \<le> p" "p < int (length ms)" by (auto simp: cursor_valid_def split: option.splits)
      then show ?thesis using mi_Next_ok [OF mg, of m p] OpNext st True by (auto simp: stands_at_def)
    next
      case False
      then show ?thesis using OpNext v by (simp add: mi_Next_def)
    qed
  qed (use x mi_SeekToFirst_ok [OF mg att] mi_SeekToLast_ok [OF mg att] mi_Seek_ok [OF mg att] in
      \<open>auto simp: stands_at_def forward_op_def\<close>)
qed

end

context reversible_iterator
begin

lemma step_ok:
  assumes mg: "merge_of icmp es ms" and st: "stands_at icmp entries pos ok es ms m q"
  shows "case cursor_step icmp ms x q of
      Inl e \<Rightarrow> mi_step icmp ops x m = fails e
    | Inr q' \<Rightarrow> \<exists>m'. mi_step icmp ops x m = returns m' \<and> stands_at icmp entries pos ok es ms m' q'"
proof (cases "forward_op x")
  case True
  then show ?thesis by (rule forward_step_ok [OF mg st])
next
  case False
  have v: "mi_Valid m \<longleftrightarrow> cursor_valid ms q" using stands_at_reads [OF mg st] by (simp add: reads_as_def)
  from False consider t where "x = OpSeekForPrev t" | "x = OpPrev" by (auto simp: forward_op_def split: merge_op.splits)
  then show ?thesis
  proof cases
    case 1
    then show ?thesis using mi_SeekForPrev_ok [OF mg stands_at_attached [OF st]] by (auto simp: stands_at_def)
  next
    case 2
    then show ?thesis
    proof (cases "cursor_valid ms q")
      case True
      then obtain p where "q = Some p" "0 \<le> p" "p < int (length ms)" by (auto simp: cursor_valid_def split: option.splits)
      then show ?thesis using mi_Prev_ok [OF mg, of m p] 2 st True by (auto simp: stands_at_def)
    next
      case False
      then show ?thesis using 2 v by (simp add: mi_Prev_def)
    qed
  qed
qed

end

text \<open>A simulation of the steps is one of their sequences.\<close>

lemma mi_run_simulates:
  assumes "stands_at icmp entries pos ok es ms m q" and "list_all P xs"
    and "\<And>x m q. P x \<Longrightarrow> stands_at icmp entries pos ok es ms m q \<Longrightarrow>
      case cursor_step icmp ms x q of
        Inl e \<Rightarrow> mi_step icmp ops x m = fails e
      | Inr q' \<Rightarrow> \<exists>m'. mi_step icmp ops x m = returns m' \<and> stands_at icmp entries pos ok es ms m' q'"
  shows "case cursor_run icmp ms xs q of
      Inl e \<Rightarrow> mi_run icmp ops xs m = fails e
    | Inr q' \<Rightarrow> \<exists>m'. mi_run icmp ops xs m = returns m' \<and> stands_at icmp entries pos ok es ms m' q'"
  using assms(1,2)
proof (induction xs arbitrary: m q)
  case (Cons x xs)
  show ?case
  proof (cases "cursor_step icmp ms x q")
    case (Inl e)
    then show ?thesis using assms(3) [OF _ Cons.prems(1), of x] Cons.prems(2) by simp
  next
    case (Inr q')
    then obtain m' where "mi_step icmp ops x m = returns m'" "stands_at icmp entries pos ok es ms m' q'"
      using assms(3) [OF _ Cons.prems(1), of x] Cons.prems(2) by auto
    then show ?thesis using Cons.IH [of m' q'] Cons.prems(2) Inr by (auto split: sum.splits)
  qed
qed simp

text \<open>The same operations on an iterator itself. One that asserts \<open>Valid\<close> before a step or a read fails where the cursor does.\<close>

fun io_step :: "'s InternalIterator \<Rightarrow> merge_op \<Rightarrow> 's \<Rightarrow> 's run" where
  "io_step ops OpSeekToFirst s = io_SeekToFirst ops s"
| "io_step ops OpSeekToLast s = io_SeekToLast ops s"
| "io_step ops (OpSeek t) s = io_Seek ops t s"
| "io_step ops (OpSeekForPrev t) s = io_SeekForPrev ops t s"
| "io_step ops OpNext s = io_Next ops s"
| "io_step ops OpPrev s = io_Prev ops s"

fun io_run :: "'s InternalIterator \<Rightarrow> merge_op list \<Rightarrow> 's \<Rightarrow> 's run" where
  "io_run ops [] s = returns s"
| "io_run ops (x # xs) s = run_then (io_step ops x s) (io_run ops xs)"

definition io_reads :: "'s InternalIterator \<Rightarrow> (slice \<times> slice) list \<Rightarrow> 's \<Rightarrow> int option \<Rightarrow> bool" where
  "io_reads ops es s q \<longleftrightarrow> io_status ops s = OK \<and> io_Valid ops s = cursor_valid es q
     \<and> (if cursor_valid es q then io_key ops s = Inr (fst (cursor_at es q)) \<and> io_value ops s = Inr (snd (cursor_at es q))
        else io_key ops s = Inl AssertFailed \<and> io_value ops s = Inl AssertFailed)"

definition follows ::
    "'s InternalIterator \<Rightarrow> ('s \<Rightarrow> (slice \<times> slice) list) \<Rightarrow> ('s \<Rightarrow> int) \<Rightarrow> ('s \<Rightarrow> bool) \<Rightarrow> (slice \<times> slice) list \<Rightarrow> 's \<Rightarrow> int option \<Rightarrow> bool" where
  "follows ops entries pos ok es s q \<longleftrightarrow> ok s \<and> entries s = es
     \<and> (case q of None \<Rightarrow> \<not> io_Valid ops s | Some p \<Rightarrow> same_place es (pos s) p)"

locale guarded_iterator = reversible_iterator icmp ops entries pos ok
  for icmp :: "slice \<Rightarrow> slice \<Rightarrow> int" and ops :: "'s InternalIterator" and entries :: "'s \<Rightarrow> (slice \<times> slice) list"
    and pos :: "'s \<Rightarrow> int" and ok :: "'s \<Rightarrow> bool" +
  assumes step_guard: "ok s \<Longrightarrow> \<not> io_Valid ops s \<Longrightarrow> io_Next ops s = fails AssertFailed \<and> io_Prev ops s = fails AssertFailed"
    and read_guard: "ok s \<Longrightarrow> \<not> io_Valid ops s \<Longrightarrow> io_key ops s = Inl AssertFailed \<and> io_value ops s = Inl AssertFailed"
begin

lemma follows_valid: "follows ops entries pos ok es s q \<Longrightarrow> io_Valid ops s = cursor_valid es q \<and> (cursor_valid es q \<longrightarrow> pos s = the q)"
  using valid_iff [of s] by (auto simp: follows_def cursor_valid_def same_place_def split: option.splits)

lemma follows_reads: "follows ops entries pos ok es s q \<Longrightarrow> io_reads ops es s q"
  using follows_valid [of es s q] key_ok [of s] value_ok [of s] read_guard [of s] status_ok [of s]
  by (auto simp: io_reads_def follows_def cursor_at_def)

lemma step_follows:
  assumes srt: "sorted_keys icmp (map fst es)" and f: "follows ops entries pos ok es s q"
  shows "case cursor_step icmp es x q of
      Inl e \<Rightarrow> io_step ops x s = fails e
    | Inr q' \<Rightarrow> \<exists>s'. io_step ops x s = returns s' \<and> follows ops entries pos ok es s' q'"
proof -
  have s: "ok s" "entries s = es" using f by (simp_all add: follows_def)
  note v = follows_valid [OF f]
  show ?thesis
  proof (cases x)
    case OpNext
    then show ?thesis using next_ok [OF s(1)] step_guard [OF s(1)] v s by (auto simp: follows_def)
  next
    case OpPrev
    then show ?thesis using prev_ok [OF s(1)] step_guard [OF s(1)] v s by (auto simp: follows_def)
  qed (use first_ok [OF s(1)] last_ok [OF s(1)] seek_ok [OF s(1)] seek_for_prev_ok [OF s(1)] s srt in \<open>auto simp: follows_def\<close>)
qed

lemma io_run_follows:
  assumes srt: "sorted_keys icmp (map fst es)" and "follows ops entries pos ok es s q"
  shows "case cursor_run icmp es xs q of
      Inl e \<Rightarrow> io_run ops xs s = fails e
    | Inr q' \<Rightarrow> \<exists>s'. io_run ops xs s = returns s' \<and> io_reads ops es s' q'"
  using assms(2)
proof (induction xs arbitrary: s q)
  case Nil
  then show ?case using follows_reads by simp
next
  case (Cons x xs)
  show ?case
  proof (cases "cursor_step icmp es x q")
    case (Inl e)
    then show ?thesis using step_follows [OF srt Cons.prems, of x] by simp
  next
    case (Inr q')
    then obtain s' where "io_step ops x s = returns s'" "follows ops entries pos ok es s' q'" using step_follows [OF srt Cons.prems, of x] by auto
    then show ?thesis using Cons.IH [of s' q'] Inr by (auto split: sum.splits)
  qed
qed

end

section \<open>The fallback for \<open>SeekForPrev\<close>\<close>

lemma upper_bound_at:
  assumes "three_way icmp" and "sorted_keys icmp ks"
  shows "j < upper_bound icmp ks k \<Longrightarrow> icmp (ks ! j) k \<le> 0"
    and "upper_bound icmp ks k \<le> j \<Longrightarrow> j < length ks \<Longrightarrow> icmp (ks ! j) k > 0"
    and "upper_bound icmp ks k \<le> length ks"
    and "upper_bound icmp ks k \<le> Suc (lower_bound icmp ks k)"
proof -
  let ?u = "upper_bound icmp ks k" and ?l = "lower_bound icmp ks k"
  show below: "icmp (ks ! j) k \<le> 0" if "j < ?u" for j
    using that takeWhile_nth [of j "\<lambda>x. icmp x k \<le> 0" ks] nth_mem [of j "takeWhile (\<lambda>x. icmp x k \<le> 0) ks"] set_takeWhileD
    unfolding upper_bound_def by metis
  show le: "?u \<le> length ks" by (simp add: upper_bound_def length_takeWhile_le)
  show "icmp (ks ! j) k > 0" if "?u \<le> j" "j < length ks" for j
  proof -
    have u: "\<not> icmp (ks ! ?u) k \<le> 0"
      using that nth_length_takeWhile [of "\<lambda>x. icmp x k \<le> 0" ks] unfolding upper_bound_def by simp
    have "icmp (ks ! ?u) (ks ! j) \<le> 0"
      using that assms(2) sorted_wrt_nth_less [of "\<lambda>a b. icmp a b < 0" ks ?u j] three_way.cmp_refl [OF assms(1)]
      unfolding sorted_keys_def by (cases "?u = j") auto
    then show ?thesis using u three_way.cmp_le_trans [OF assms(1), of "ks ! ?u" "ks ! j" k] by linarith
  qed
  show "?u \<le> Suc ?l"
  proof (rule ccontr)
    assume "\<not> ?u \<le> Suc ?l"
    then have l: "Suc ?l < ?u" by simp
    then have "0 \<le> icmp (ks ! ?l) k" "icmp (ks ! ?l) (ks ! Suc ?l) < 0" "icmp (ks ! Suc ?l) k \<le> 0"
      using le below [OF l] lower_bound_at [of icmp ks k] sorted_wrt_nth_less [of "\<lambda>a b. icmp a b < 0" ks ?l "Suc ?l"] assms(2)
      unfolding sorted_keys_def by auto
    then show False
      using three_way.cmp_le_trans [OF assms(1), of "ks ! Suc ?l" k "ks ! ?l"] three_way.cmp_le_iff [OF assms(1), of k "ks ! ?l"]
        three_way.cmp_swap [OF assms(1), of "ks ! ?l" "ks ! Suc ?l"] by linarith
  qed
qed

context internal_iterator
begin

lemma SeekForPrev_loop_ok:
  assumes "ok s" and "sorted_keys icmp (map fst (entries s))" and "same_place (entries s) (pos s) q"
    and "int (upper_bound icmp (map fst (entries s)) target) \<le> q + 1" and "q < int (length (entries s))"
  shows "\<exists>s'. SeekForPrev_loop icmp ops target s = returns s' \<and> ok s' \<and> entries s' = entries s
    \<and> same_place (entries s) (pos s') (int (upper_bound icmp (map fst (entries s)) target) - 1)"
  using assms
proof (induction "nat (q + 1)" arbitrary: q s rule: less_induct)
  case less
  let ?ks = "map fst (entries s)"
  let ?u = "upper_bound icmp ?ks target"
  note ub = upper_bound_at [OF three_way_axioms less.prems(2), where k = target]
  have vq: "io_Valid ops s \<longleftrightarrow> 0 \<le> q" and pq: "0 \<le> q \<Longrightarrow> pos s = q"
    using valid_iff [OF less.prems(1)] less.prems(3,5) by (auto simp: same_place_def)
  show ?case
  proof (cases "q + 1 = int ?u")
    case True
    have "SeekForPrev_step icmp ops target s = Inr False"
    proof (cases "io_Valid ops s")
      case v: True
      then have q: "nat (pos s) < length ?ks" "nat (pos s) < ?u" using vq pq True less.prems(5) by auto
      then have "icmp (?ks ! nat (pos s)) target \<le> 0" using ub(1) by blast
      then show ?thesis using v q(1) key_ok [OF less.prems(1) v] cmp_le_iff [of "?ks ! nat (pos s)" target]
        by (simp add: SeekForPrev_step_def)
    qed (simp add: SeekForPrev_step_def)
    moreover have "q = int ?u - 1" using True by simp
    ultimately show ?thesis using less.prems(1,3) by (simp add: SeekForPrev_loop.simps)
  next
    case False
    then have v: "io_Valid ops s" and q: "nat (pos s) < length ?ks" "?u \<le> nat (pos s)" "0 \<le> q"
      using vq pq less.prems(4,5) by auto
    then have "icmp (?ks ! nat (pos s)) target > 0" using ub(2) by blast
    then have go: "SeekForPrev_step icmp ops target s = Inr True"
      using v q(1) key_ok [OF less.prems(1) v] cmp_swap [of target "?ks ! nat (pos s)"] by (simp add: SeekForPrev_step_def)
    obtain s1 where s1: "io_Prev ops s = returns s1" "ok s1" "entries s1 = entries s" "same_place (entries s) (pos s1) (q - 1)"
      using prev_ok [OF less.prems(1) v] pq q(3) by auto
    have "nat (q - 1 + 1) < nat (q + 1)" using q(3) by simp
    then obtain s' where "SeekForPrev_loop icmp ops target s1 = returns s'" "ok s'" "entries s' = entries s"
        "same_place (entries s) (pos s') (int ?u - 1)"
      using less.hyps [of "q - 1" s1] s1 less.prems False by auto
    then show ?thesis using go s1(1) by (simp add: SeekForPrev_loop.simps [of _ _ _ s])
  qed
qed

lemma SeekForPrevImpl_ok:
  assumes ok: "ok s" and srt: "sorted_keys icmp (map fst (entries s))"
  shows "\<exists>s'. SeekForPrevImpl icmp ops target s = returns s' \<and> ok s' \<and> entries s' = entries s
    \<and> same_place (entries s) (pos s') (int (upper_bound icmp (map fst (entries s)) target) - 1)"
proof -
  let ?u = "upper_bound icmp (map fst (entries s)) target" and ?l = "lower_bound icmp (map fst (entries s)) target"
  note ub = upper_bound_at [OF three_way_axioms srt, where k = target]
  obtain s1 where s1: "io_Seek ops target s = returns s1" "ok s1" "entries s1 = entries s" "same_place (entries s) (pos s1) (int ?l)"
    using seek_ok [OF ok srt] by blast
  have "\<exists>s2 q. (if \<not> io_Valid ops s1 then io_SeekToLast ops s1 else returns s1) = returns s2 \<and> ok s2 \<and> entries s2 = entries s
      \<and> same_place (entries s) (pos s2) q \<and> int ?u \<le> q + 1 \<and> q < int (length (entries s))"
  proof (cases "io_Valid ops s1")
    case True
    then show ?thesis using s1 ub(4) valid_iff [OF s1(2)] by (intro exI [of _ s1] exI [of _ "int ?l"]) (auto simp: same_place_def)
  next
    case False
    obtain s2 where "io_SeekToLast ops s1 = returns s2" "ok s2" "entries s2 = entries s" "same_place (entries s) (pos s2) (int (length (entries s)) - 1)"
      using last_ok [OF s1(2)] s1(3) by auto
    then show ?thesis using False ub(3) by (intro exI [of _ s2] exI [of _ "int (length (entries s)) - 1"]) auto
  qed
  then obtain s2 q where s2: "(if \<not> io_Valid ops s1 then io_SeekToLast ops s1 else returns s1) = returns s2" "ok s2" "entries s2 = entries s"
      "same_place (entries s) (pos s2) q" "int ?u \<le> q + 1" "q < int (length (entries s))"
    by blast
  have "SeekForPrevImpl icmp ops target s = SeekForPrev_loop icmp ops target s2"
    unfolding SeekForPrevImpl_def s1(1) run_then_simps s2(1) ..
  then show ?thesis using SeekForPrev_loop_ok [OF s2(2), of q target] s2 srt by simp
qed

lemma fallback: "reversible_iterator icmp (ops\<lparr>io_SeekForPrev := SeekForPrevImpl icmp ops\<rparr>) entries pos ok"
  by unfold_locales
    (simp_all add: valid_iff status_ok key_ok value_ok first_ok last_ok next_ok prev_ok seek_ok SeekForPrevImpl_ok)

end

section \<open>The iterators of level 0\<close>

text \<open>\<open>SeekForPrev\<close> of the read iterator prints a message and does not move.\<close>

definition level0_ops :: "(slice \<Rightarrow> slice \<Rightarrow> int) \<Rightarrow> ReadIterator InternalIterator" where
  "level0_ops icmp =
     \<lparr>io_Valid = ri_Valid, io_SeekToFirst = (\<lambda>s. returns (ri_SeekToFirst s)), io_SeekToLast = (\<lambda>s. returns (ri_SeekToLast s)),
      io_Seek = (\<lambda>t s. Some (ri_Seek icmp t s)), io_SeekForPrev = (\<lambda>t s. returns s), io_Next = (\<lambda>s. returns (ri_Next s)),
      io_Prev = (\<lambda>s. Some (ri_Prev s)), io_key = ri_key, io_value = ri_value, io_status = (\<lambda>s. OK),
      io_IsOutOfBound = (\<lambda>s. False)\<rparr>"

definition level0_ok :: "ReadIterator \<Rightarrow> bool" where
  "level0_ok it \<longleftrightarrow> ri_ok it \<and> 0 < ri_num it"

lemma level0_internal_iterator:
  assumes "three_way icmp"
  shows "internal_iterator icmp (level0_ops icmp) ri_entries ri_current level0_ok"
proof (rule internal_iterator.intro [OF assms], unfold_locales)
  fix s target assume "level0_ok s" "sorted_keys icmp (map fst (ri_entries s))"
  moreover have "ri_entries s \<noteq> []" using ri_metas_length [of s] calculation by (auto simp: level0_ok_def ri_entries_def)
  ultimately show "\<exists>s'. io_Seek (level0_ops icmp) target s = returns s' \<and> level0_ok s' \<and> ri_entries s' = ri_entries s
      \<and> same_place (ri_entries s) (ri_current s') (int (lower_bound icmp (map fst (ri_entries s)) target))"
    using read_cursor.seek_ok [OF assms, of s target] by (auto simp: level0_ops_def level0_ok_def ri_Seek_def split: sum.splits)
qed (auto simp: level0_ops_def level0_ok_def read_cursor.key_ok read_cursor.value_ok read_cursor.valid_iff ri_SeekToFirst_def
      ri_SeekToLast_def ri_Next_def ri_Prev_def ri_entries_def ri_metas_length)

context user_comparator
begin

lemma level0_iterator:
  "internal_iterator (InternalKeyComparator_Compare ucmp) (level0_ops (InternalKeyComparator_Compare ucmp)) ri_entries ri_current level0_ok"
  by (rule level0_internal_iterator [OF ikc.three_way_axioms])

end

interpretation level0: internal_iterator "InternalKeyComparator_Compare Bytewise_Compare"
    "level0_ops (InternalKeyComparator_Compare Bytewise_Compare)" ri_entries ri_current level0_ok
  by (rule bytewise_keys.level0_iterator)

interpretation level0_reversible: reversible_iterator "InternalKeyComparator_Compare Bytewise_Compare"
    "(level0_ops (InternalKeyComparator_Compare Bytewise_Compare))
      \<lparr>io_SeekForPrev := SeekForPrevImpl (InternalKeyComparator_Compare Bytewise_Compare)
        (level0_ops (InternalKeyComparator_Compare Bytewise_Compare))\<rparr>" ri_entries ri_current level0_ok
  by (rule level0.fallback)

text \<open>The files of level 0 and the live pairs of each.\<close>

definition level0_holds :: "NvmCfModule \<Rightarrow> FileMetaData \<Rightarrow> (slice \<times> slice) list \<Rightarrow> bool" where
  "level0_holds m d live \<longleftrightarrow> live \<noteq> [] \<and> (\<exists>f kvs. FindFile (nm_meta m) (GetNumber (fm_fd d)) True = Some f \<and> stored m f kvs
     \<and> length kvs < 2 ^ 64 \<and> live = drop (unat (fm_first_key_index d)) kvs)"

lemma AddIterators_loop_entries:
  assumes "list_all2 (level0_holds m) ds data"
  shows "\<exists>its. AddIterators_loop m ds = Inr its \<and> map ri_entries its = data \<and> list_all (\<lambda>it. level0_ok it \<and> \<not> ri_Valid it) its"
  using assms
proof (induction ds data rule: list_all2_induct)
  case (Cons d ds live data)
  then obtain its where its: "AddIterators_loop m ds = Inr its" "map ri_entries its = data" "list_all (\<lambda>it. level0_ok it \<and> \<not> ri_Valid it) its"
    by blast
  obtain f kvs where f: "FindFile (nm_meta m) (GetNumber (fm_fd d)) True = Some f" "stored m f kvs" "length kvs < 2 ^ 64"
      "live = drop (unat (fm_first_key_index d)) kvs" "live \<noteq> []"
    using Cons(1) by (auto simp: level0_holds_def)
  let ?first = "unat (fm_first_key_index d)" and ?raw = "drop (nat (sstable_index f) * each_size (nm_pool m)) (nm_mem m)"
  have t: "table_at ?raw f kvs" and slot: "GetIndexPtr (nm_pool m) (sstable_index f) = Inr (nat (sstable_index f) * each_size (nm_pool m))"
    using f(2) by (simp_all add: stored_def GetIndexPtr_def)
  have first: "?first < length kvs" using f(4,5) by simp
  have "unat (of_nat (keys_num f) - fm_first_key_index d) = length kvs - ?first"
    using table_at_keys(1) [OF t] first f(3) by (simp add: unat_sub word_le_nat_alt unat_of_nat)
  then obtain it where it: "NVMLevel0ReadIterator ?raw f ?first (unat (of_nat (keys_num f) - fm_first_key_index d)) = Inr it" "ri_ok it"
      "ri_entries it = live" "ri_current it = -1"
    using NVMLevel0ReadIterator_entries [OF t, of ?first "length kvs - ?first"] first f(4) by auto
  have "0 < ri_num it" using ri_metas_length [OF it(2)] it(3) f(5) by (auto simp: ri_entries_def)
  then show ?case using its it f(1) slot by (auto simp: level0_ok_def ri_Valid_def Let_def)
qed simp

text \<open>Two tables, with the keys 1 and 5 and with the key 3.\<close>

definition example_children :: "ReadIterator list" where
  "example_children =
     [\<lparr>ri_raw = records [([1], [2]), ([5], [6])], ri_file = example_entry 2 0 [([1], [2]), ([5], [6])], ri_first = 0, ri_num = 2,
        ri_current = -1\<rparr>,
      \<lparr>ri_raw = records [([3], [4])], ri_file = example_entry 1 1 [([3], [4])], ri_first = 0, ri_num = 1, ri_current = -1\<rparr>]"

lemma example_children_ok:
  "list_all (\<lambda>it. level0_ok it \<and> \<not> ri_Valid it) example_children"
  "map ri_entries example_children = [[([1], [2]), ([5], [6])], [([3], [4])]]"
proof -
  let ?new = "[([1], [2]), ([5], [6])] :: (slice \<times> slice) list" and ?old = "[([3], [4])] :: (slice \<times> slice) list"
  have "table_at (records ?new) (example_entry 2 0 ?new) ?new" "table_at (records ?old) (example_entry 1 1 ?old) ?old"
    by (simp_all add: table_at_def example_entry_def)
  from NVMLevel0ReadIterator_entries [OF this(1), of 0 2] NVMLevel0ReadIterator_entries [OF this(2), of 0 1]
  show "list_all (\<lambda>it. level0_ok it \<and> \<not> ri_Valid it) example_children"
      "map ri_entries example_children = [?new, ?old]"
    by (simp_all add: example_children_def level0_ok_def ri_Valid_def NVMLevel0ReadIterator_def)
qed

text \<open>What a user reads after a sequence of operations on the merge of the two.\<close>

definition merge_and_read :: "ReadIterator InternalIterator \<Rightarrow> bool \<Rightarrow> merge_op list \<Rightarrow> (bool \<times> slice result) run" where
  "merge_and_read ops prefix_mode xs =
     run_then (MergingIterator_new Bytewise_Compare ops example_children prefix_mode) (\<lambda>m.
     run_then (mi_run Bytewise_Compare ops xs m) (\<lambda>m'. returns (mi_Valid m', mi_key m')))"

lemma kMaxSizet_large: "\<not> kMaxSizet < Suc 0" "\<not> kMaxSizet < Suc (Suc 0)" "\<not> kMaxSizet < 2" "kMaxSizet \<noteq> 0"
  by (simp_all add: kMaxSizet_def)

lemma example_compare:
  "Bytewise_Compare [1] [3] = -1" "Bytewise_Compare [3] [1] = 1" "Bytewise_Compare [1] [5] = -1" "Bytewise_Compare [5] [1] = 1"
  "Bytewise_Compare [3] [5] = -1" "Bytewise_Compare [5] [3] = 1"
  by code_simp+

lemmas merge_evaluation =
  kMaxSizet_large   merge_and_read_def MergingIterator_new_def iw_Set_def iw_Update_def level0_ops_def add_child_def set_current_def CurrentForward_def
  CurrentReverse_def heap_empty_def heap_top_def BinaryHeap_new_def considerStatus_def mi_SeekToFirst_def seek_forward_def
  seek_children_def ClearHeaps_def heap_clear_def move_child_def iw_move_def push_min_def heap_push_def upheap_def get_parent_def
  get_left_def pick_child_def downheap_def downheap_loop.simps upheap_loop.simps MinIteratorComparator_def MaxIteratorComparator_def
  ri_Valid_def ri_SeekToFirst_def ri_Next_def ri_Prev_def ri_key_def ri_key_at_def ri_meta_def mi_Valid_def mi_key_def
  mi_Next_def assert_current_def replace_top_def heap_pop_def mi_Prev_def SwitchToReverse_def InitMaxHeap_def switch_child_def push_max_def
  mi_SeekForPrev_def seek_reverse_def example_children_def example_entry_def keys_num_def example_compare numeral_2_eq_2 Let_def

section \<open>Properties\<close>

text \<open>C5: the merging iterator is a cursor on the merged sequence. Over children that keep the iterator contract, with sorted
  entries and no key twice, every sequence of seeks, \<open>Next\<close> and \<open>Prev\<close>, with any changes of direction, leaves it where the
  cursor stands: it returns, its status is ok, it is valid iff the cursor is on an entry and it reads that entry; \<open>Next\<close> and
  \<open>Prev\<close> of an iterator that is not valid fail the assertion.\<close>

theorem MergingIterator_refines_cursor:
  "reversible_iterator icmp ops entries pos ok \<and> list_all (\<lambda>it. ok it \<and> \<not> io_Valid ops it) its \<and> length its < kMaxSizet
     \<and> merge_of icmp (map entries its) ms \<Longrightarrow>
   \<exists>m. MergingIterator_new icmp ops its prefix_mode = returns m
     \<and> (case cursor_run icmp ms xs None of
          Inl e \<Rightarrow> mi_run icmp ops xs m = fails e
        | Inr q \<Rightarrow> \<exists>m'. mi_run icmp ops xs m = returns m' \<and> reads_as ops ms m' q)"
proof -
  assume *: "reversible_iterator icmp ops entries pos ok \<and> list_all (\<lambda>it. ok it \<and> \<not> io_Valid ops it) its \<and> length its < kMaxSizet
     \<and> merge_of icmp (map entries its) ms"
  then have r: "reversible_iterator icmp ops entries pos ok" and mg: "merge_of icmp (map entries its) ms" by simp_all
  note i = reversible_iterator.axioms(1) [OF r]
  obtain m where m: "MergingIterator_new icmp ops its prefix_mode = returns m" "unpositioned entries ok (map entries its) m"
    using internal_iterator.MergingIterator_new_fresh [OF i, of its prefix_mode] * by (auto simp: list_all_iff)
  have "case cursor_run icmp ms xs None of
      Inl e \<Rightarrow> mi_run icmp ops xs m = fails e
    | Inr q \<Rightarrow> \<exists>m'. mi_run icmp ops xs m = returns m' \<and> stands_at icmp entries pos ok (map entries its) ms m' q"
    by (rule mi_run_simulates [where P = "\<lambda>_. True"])
      (use m(2) reversible_iterator.step_ok [OF r mg] in \<open>simp_all add: stands_at_def list_all_iff\<close>)
  then show ?thesis using m(1) internal_iterator.stands_at_reads [OF i mg] by (auto split: sum.splits)
qed

theorem MergingIterator_refines_cursor_witness:
  "merge_and_read ((level0_ops Bytewise_Compare)\<lparr>io_SeekForPrev := SeekForPrevImpl Bytewise_Compare (level0_ops Bytewise_Compare)\<rparr>)
     False [OpSeekToFirst, OpNext, OpPrev] = returns (True, Inr [1])"
proof -
  let ?ops = "(level0_ops Bytewise_Compare)\<lparr>io_SeekForPrev := SeekForPrevImpl Bytewise_Compare (level0_ops Bytewise_Compare)\<rparr>"
  let ?ms = "[([1], [2]), ([3], [4]), ([5], [6])] :: (slice \<times> slice) list" and ?xs = "[OpSeekToFirst, OpNext, OpPrev]"
  have "reversible_iterator Bytewise_Compare ?ops ri_entries ri_current level0_ok"
    by (rule internal_iterator.fallback) (rule level0_internal_iterator [OF bytewise.three_way_axioms])
  moreover have "list_all (\<lambda>it. level0_ok it \<and> \<not> io_Valid ?ops it) example_children"
    using example_children_ok(1) by (simp add: list_all_iff level0_ops_def)
  moreover have "length example_children < kMaxSizet" by (simp add: example_children_def kMaxSizet_def)
  moreover have "merge_of Bytewise_Compare (map ri_entries example_children) ?ms"
    unfolding example_children_ok(2) by (simp add: merge_of_def) code_simp
  ultimately obtain m where m: "MergingIterator_new Bytewise_Compare ?ops example_children False = returns m"
      "case cursor_run Bytewise_Compare ?ms ?xs None of
         Inl e \<Rightarrow> mi_run Bytewise_Compare ?ops ?xs m = fails e
       | Inr q \<Rightarrow> \<exists>m'. mi_run Bytewise_Compare ?ops ?xs m = returns m' \<and> reads_as ?ops ?ms m' q"
    using MergingIterator_refines_cursor [of Bytewise_Compare ?ops ri_entries ri_current level0_ok example_children ?ms False ?xs] by blast
  have "cursor_run Bytewise_Compare ?ms ?xs None = Inr (Some 0)" by code_simp
  then show ?thesis using m by (auto simp: merge_and_read_def reads_as_def cursor_valid_def cursor_at_def)
qed

text \<open>C3: a forward scan of level 0 returns its live records in order. The iterators that \<open>AddIterators\<close> makes for two or more
  tables, merged by the builder, answer every sequence of \<open>SeekToFirst\<close>, \<open>SeekToLast\<close>, \<open>Seek\<close> and \<open>Next\<close> as a cursor on
  the sorted sequence of the live pairs of all tables.\<close>

theorem level0_scan_in_order:
  "user_comparator ucmp \<and> list_all2 (level0_holds m) L0files data \<and> 2 \<le> length L0files \<and> length L0files < kMaxSizet
     \<and> merge_of (InternalKeyComparator_Compare ucmp) data ms \<and> list_all forward_op xs \<Longrightarrow>
   \<exists>its b mi. AddIterators_loop m L0files = Inr its
     \<and> run_then (MergeIteratorBuilder_new (InternalKeyComparator_Compare ucmp) (level0_ops (InternalKeyComparator_Compare ucmp)) prefix_mode)
         (mib_AddAll (level0_ops (InternalKeyComparator_Compare ucmp)) its) = returns b
     \<and> mib_Finish b = MergedIterator mi
     \<and> (case cursor_run (InternalKeyComparator_Compare ucmp) ms xs None of
          Inl e \<Rightarrow> mi_run (InternalKeyComparator_Compare ucmp) (level0_ops (InternalKeyComparator_Compare ucmp)) xs mi = fails e
        | Inr q \<Rightarrow> \<exists>mi'. mi_run (InternalKeyComparator_Compare ucmp) (level0_ops (InternalKeyComparator_Compare ucmp)) xs mi = returns mi'
            \<and> reads_as (level0_ops (InternalKeyComparator_Compare ucmp)) ms mi' q)"
proof -
  let ?icmp = "InternalKeyComparator_Compare ucmp"
  let ?ops = "level0_ops ?icmp"
  assume *: "user_comparator ucmp \<and> list_all2 (level0_holds m) L0files data \<and> 2 \<le> length L0files \<and> length L0files < kMaxSizet
     \<and> merge_of ?icmp data ms \<and> list_all forward_op xs"
  then have mg: "merge_of ?icmp data ms" and xs: "list_all forward_op xs" by simp_all
  obtain its where its: "AddIterators_loop m L0files = Inr its" "map ri_entries its = data" "list_all (\<lambda>it. level0_ok it \<and> \<not> ri_Valid it) its"
    using AddIterators_loop_entries * by blast
  have len: "length its = length L0files" using its(2) * list_all2_lengthD by (metis length_map)
  have i: "internal_iterator ?icmp ?ops ri_entries ri_current level0_ok"
    using * user_comparator.level0_iterator by blast
  have "\<forall>it \<in> set its. level0_ok it \<and> \<not> io_Valid ?ops it" using its(3) by (simp add: list_all_iff level0_ops_def)
  then obtain b mi where b: "run_then (MergeIteratorBuilder_new ?icmp ?ops prefix_mode) (mib_AddAll ?ops its) = returns b"
      "mib_Finish b = MergedIterator mi" "unpositioned ri_entries level0_ok data mi"
    using internal_iterator.mib_built [OF i, of its prefix_mode] * len its(2) by auto
  have "case cursor_run ?icmp ms xs None of
      Inl e \<Rightarrow> mi_run ?icmp ?ops xs mi = fails e
    | Inr q \<Rightarrow> \<exists>m'. mi_run ?icmp ?ops xs mi = returns m' \<and> stands_at ?icmp ri_entries ri_current level0_ok data ms m' q"
    by (rule mi_run_simulates [where P = forward_op])
      (use b(3) xs internal_iterator.forward_step_ok [OF i mg] in \<open>simp_all add: stands_at_def\<close>)
  then show ?thesis using its(1) b(1,2) internal_iterator.stands_at_reads [OF i mg] by (auto split: sum.splits)
qed

theorem level0_scan_in_order_witness:
  "\<exists>its b mi mi'. AddIterators_loop (example_module [(InternalKey [98] 4 1, [8])] [(InternalKey [97] 5 1, [7])])
       [example_file 2, example_file 1] = Inr its
     \<and> run_then (MergeIteratorBuilder_new (InternalKeyComparator_Compare Bytewise_Compare)
           (level0_ops (InternalKeyComparator_Compare Bytewise_Compare)) False)
         (mib_AddAll (level0_ops (InternalKeyComparator_Compare Bytewise_Compare)) its) = returns b
     \<and> mib_Finish b = MergedIterator mi
     \<and> mi_run (InternalKeyComparator_Compare Bytewise_Compare) (level0_ops (InternalKeyComparator_Compare Bytewise_Compare))
         [OpSeek (InternalKey [97] 9 1), OpNext] mi = returns mi'
     \<and> mi_key mi' = Inr (InternalKey [98] 4 1) \<and> mi_Valid mi'"
proof -
  let ?icmp = "InternalKeyComparator_Compare Bytewise_Compare"
  let ?ops = "level0_ops ?icmp" and ?xs = "[OpSeek (InternalKey [97] 9 1), OpNext]"
  let ?new = "[(InternalKey [98] 4 1, [8])]" and ?old = "[(InternalKey [97] 5 1, [7])]"
  let ?m = "example_module ?new ?old" and ?ms = "[(InternalKey [97] 5 1, [7]), (InternalKey [98] 4 1, [8])] :: (slice \<times> slice) list"
  have len: "length (InternalKey u s t) = length u + 8" for u s t by (simp add: InternalKey_append)
  have "length (records ?new) = 26" "length (records ?old) = 26" by (simp_all add: len)
  then have "stored ?m (example_entry 2 0 ?new) ?new" "stored ?m (example_entry 1 1 ?old) ?old"
    by (auto simp: stored_def table_at_def example_module_def example_entry_def PersistentSstable_open_def KeysMetadata.defs len)
  moreover have num: "GetNumber (fm_fd (example_file 2)) = 2" "GetNumber (fm_fd (example_file 1)) = 1" by code_simp+
  have "FindFile (nm_meta ?m) (GetNumber (fm_fd (example_file 2))) True = Some (example_entry 2 0 ?new)"
      "FindFile (nm_meta ?m) (GetNumber (fm_fd (example_file 1))) True = Some (example_entry 1 1 ?old)"
    by (simp_all add: FindFile_def example_module_def num) (simp_all add: example_entry_def)
  moreover have "unat (fm_first_key_index (example_file n)) = 0" for n by (simp add: example_file_def FileMetaData_init_def)
  ultimately have "list_all2 (level0_holds ?m) [example_file 2, example_file 1] [?new, ?old]"
    by (simp add: level0_holds_def)
  moreover have "merge_of ?icmp [?new, ?old] ?ms" by (simp add: merge_of_def) code_simp
  moreover have "length [example_file 2, example_file 1] < kMaxSizet" by (simp add: kMaxSizet_def)
  moreover have "list_all forward_op ?xs" by (simp add: forward_op_def)
  ultimately obtain its b mi where b: "AddIterators_loop ?m [example_file 2, example_file 1] = Inr its"
      "run_then (MergeIteratorBuilder_new ?icmp ?ops False) (mib_AddAll ?ops its) = returns b" "mib_Finish b = MergedIterator mi"
    and m: "case cursor_run ?icmp ?ms ?xs None of
      Inl e \<Rightarrow> mi_run ?icmp ?ops ?xs mi = fails e
    | Inr q \<Rightarrow> \<exists>mi'. mi_run ?icmp ?ops ?xs mi = returns mi' \<and> reads_as ?ops ?ms mi' q"
    using level0_scan_in_order [of Bytewise_Compare ?m "[example_file 2, example_file 1]" "[?new, ?old]" ?ms ?xs False]
      bytewise_keys.user_comparator_axioms by auto
  have "cursor_run ?icmp ?ms ?xs None = Inr (Some 1)" by code_simp
  then obtain mi' where "mi_run ?icmp ?ops ?xs mi = returns mi'" "reads_as ?ops ?ms mi' (Some 1)" using m by auto
  then show ?thesis using b by (intro exI conjI) (assumption | simp add: reads_as_def cursor_valid_def cursor_at_def)+
qed


end
