(* ===== verification/WriteAheadLog.thy ===== *)
theory WriteAheadLog
  imports Crc32c
begin

text \<open>
  The record format of the write-ahead log and the manifest: \<open>db/log_format.h\<close>, the writer of \<open>db/log_writer.cc\<close> and the
  reader of \<open>db/log_reader.cc\<close>. A log is a sequence of blocks of 32 KB; a record is cut into fragments that do not cross
  blocks, and every fragment has a header with checksum, length and type, and with the log number if log files are
  recycled.

  A file to be written is the list of its bytes with the outcomes of the coming calls: a call with no outcome listed
  succeeds, a failing one may write a part of the data. A file to be read is the list of the bytes ahead with the status of
  a read. Lengths and offsets are natural numbers. The reporter is the list of what was reported to it. A loop that does
  not end is the value \<open>None\<close>.
\<close>

section \<open>The format\<close>

definition kZeroType :: u32 where "kZeroType = 0"
definition kFullType :: u32 where "kFullType = 1"
definition kFirstType :: u32 where "kFirstType = 2"
definition kMiddleType :: u32 where "kMiddleType = 3"
definition kLastType :: u32 where "kLastType = 4"
definition kRecyclableFullType :: u32 where "kRecyclableFullType = 5"
definition kRecyclableFirstType :: u32 where "kRecyclableFirstType = 6"
definition kRecyclableMiddleType :: u32 where "kRecyclableMiddleType = 7"
definition kRecyclableLastType :: u32 where "kRecyclableLastType = 8"
definition kMaxRecordType :: u32 where "kMaxRecordType = kRecyclableLastType"

definition kBlockSize :: nat where "kBlockSize = 32768"
definition kHeaderSize :: nat where "kHeaderSize = 4 + 2 + 1"
definition kRecyclableHeaderSize :: nat where "kRecyclableHeaderSize = 4 + 2 + 1 + 4"

lemmas record_types =
  kZeroType_def kFullType_def kFirstType_def kMiddleType_def kLastType_def kRecyclableFullType_def kRecyclableFirstType_def
  kRecyclableMiddleType_def kRecyclableLastType_def kMaxRecordType_def

lemmas log_sizes = kBlockSize_def kHeaderSize_def kRecyclableHeaderSize_def

section \<open>The writer\<close>

record WritableFile =
  wf_data :: slice
  wf_outcomes :: "(Status \<times> nat) list"

definition wf_Append :: "slice \<Rightarrow> WritableFile \<Rightarrow> Status \<times> WritableFile" where
  "wf_Append x f =
     (case wf_outcomes f of
        [] \<Rightarrow> (OK, f\<lparr>wf_data := wf_data f @ x\<rparr>)
      | (s, n) # outcomes \<Rightarrow>
          (s, f\<lparr>wf_data := wf_data f @ (if s = OK then x else take n x), wf_outcomes := outcomes\<rparr>))"

definition wf_Flush :: "WritableFile \<Rightarrow> Status \<times> WritableFile" where
  "wf_Flush f = (case wf_outcomes f of [] \<Rightarrow> (OK, f) | (s, n) # outcomes \<Rightarrow> (s, f\<lparr>wf_outcomes := outcomes\<rparr>))"

record LogWriter =
  lw_dest :: WritableFile
  block_offset :: nat
  lw_log_number :: u64
  recycle_log_files :: bool
  manual_flush :: bool
  type_crc :: "u32 list"

definition LogWriter_new :: "WritableFile \<Rightarrow> u64 \<Rightarrow> bool \<Rightarrow> bool \<Rightarrow> LogWriter" where
  "LogWriter_new dest log_num recycle manual =
     \<lparr>lw_dest = dest, block_offset = 0, lw_log_number = log_num, recycle_log_files = recycle, manual_flush = manual,
      type_crc = map (\<lambda>i. Crc_Value [of_nat i]) [0..<9]\<rparr>"

definition WriteBuffer :: "LogWriter \<Rightarrow> Status \<times> LogWriter" where
  "WriteBuffer w = (let (s, f) = wf_Flush (lw_dest w) in (s, w\<lparr>lw_dest := f\<rparr>))"

definition lw_header_size :: "LogWriter \<Rightarrow> nat" where
  "lw_header_size w = (if recycle_log_files w then kRecyclableHeaderSize else kHeaderSize)"

text \<open>The header of a fragment: the masked checksum of type, log number and payload, the length, the type and, for a recyclable
  type, the low half of the log number.\<close>

definition format_header :: "LogWriter \<Rightarrow> u32 \<Rightarrow> slice \<Rightarrow> slice" where
  "format_header w t ptr =
     (let n = of_nat (length ptr) :: u64;
          rec = (if t < kRecyclableFullType then [] else EncodeFixed32 kLittleEndian (ucast (lw_log_number w)));
          crc0 = type_crc w ! unat t;
          crc1 = (if t < kRecyclableFullType then crc0 else Extend crc0 rec);
          crc = Mask (Extend crc1 ptr)
      in EncodeFixed32 kLittleEndian crc @ [ucast (n AND 0xff), ucast (drop_bit 8 n), ucast t] @ rec)"

definition EmitPhysicalRecord :: "u32 \<Rightarrow> slice \<Rightarrow> LogWriter \<Rightarrow> (Status \<times> LogWriter) result" where
  "EmitPhysicalRecord t ptr w =
     (let n = length ptr; header_size = (if t < kRecyclableFullType then kHeaderSize else kRecyclableHeaderSize)
      in if n > 0xffff then Inl AssertFailed
         else if block_offset w + header_size + n > kBlockSize then Inl AssertFailed
         else
           let (s1, f1) = wf_Append (format_header w t ptr) (lw_dest w);
               (s2, f2) = (if s1 = OK then wf_Append ptr f1 else (s1, f1));
               (s3, f3) = (if s2 = OK \<and> \<not> manual_flush w then wf_Flush f2 else (s2, f2))
           in Inr (s3, w\<lparr>lw_dest := f3, block_offset := block_offset w + (header_size + n)\<rparr>))"

text \<open>The start of an iteration: a block with no room for a header is filled with zeros.\<close>

definition switch_block :: "LogWriter \<Rightarrow> Status \<times> LogWriter" where
  "switch_block w =
     (let leftover = kBlockSize - block_offset w
      in if leftover < lw_header_size w then
           if leftover > 0 then
             let (s, f) = wf_Append (replicate leftover 0) (lw_dest w)
             in if s \<noteq> OK then (s, w\<lparr>lw_dest := f\<rparr>) else (OK, w\<lparr>lw_dest := f, block_offset := 0\<rparr>)
           else (OK, w\<lparr>block_offset := 0\<rparr>)
         else (OK, w))"

definition fragment_type :: "bool \<Rightarrow> bool \<Rightarrow> bool \<Rightarrow> u32" where
  "fragment_type recycle is_begin is_end =
     (if is_begin \<and> is_end then if recycle then kRecyclableFullType else kFullType
      else if is_begin then if recycle then kRecyclableFirstType else kFirstType
      else if is_end then if recycle then kRecyclableLastType else kLastType
      else if recycle then kRecyclableMiddleType else kMiddleType)"

partial_function (option) AddRecord_loop :: "bool \<Rightarrow> slice \<Rightarrow> LogWriter \<Rightarrow> (Status \<times> LogWriter) run" where
  [code]: "AddRecord_loop is_begin left w =
     (if block_offset w > kBlockSize then fails AssertFailed
      else
        case switch_block w of
          (s, w) \<Rightarrow>
            if s \<noteq> OK then returns (s, w)
            else if kBlockSize - block_offset w < lw_header_size w then fails AssertFailed
            else
              let avail = kBlockSize - block_offset w - lw_header_size w;
                  fragment_length = (if length left < avail then length left else avail);
                  is_end = (length left = fragment_length)
              in case EmitPhysicalRecord (fragment_type (recycle_log_files w) is_begin is_end) (take fragment_length left) w of
                   Inl e \<Rightarrow> fails e
                 | Inr (s, w) \<Rightarrow>
                     if s = OK \<and> drop fragment_length left \<noteq> [] then AddRecord_loop False (drop fragment_length left) w
                     else returns (s, w))"

definition AddRecord :: "slice \<Rightarrow> LogWriter \<Rightarrow> (Status \<times> LogWriter) run" where
  "AddRecord data w = AddRecord_loop True data w"

section \<open>The reader\<close>

record SequentialFile =
  sf_rest :: slice
  sf_status :: Status

definition sf_Read :: "nat \<Rightarrow> SequentialFile \<Rightarrow> Status \<times> slice \<times> SequentialFile" where
  "sf_Read n f =
     (if sf_status f = OK then (OK, take n (sf_rest f), f\<lparr>sf_rest := drop n (sf_rest f)\<rparr>) else (sf_status f, [], f))"

datatype WALRecoveryMode =
  kTolerateCorruptedTailRecords | kAbsoluteConsistency | kPointInTimeRecovery | kSkipAnyCorruptedRecords

text \<open>The values that extend the record types.\<close>

definition kEof :: u32 where "kEof = kMaxRecordType + 1"
definition kBadRecord :: u32 where "kBadRecord = kMaxRecordType + 2"
definition kBadHeader :: u32 where "kBadHeader = kMaxRecordType + 3"
definition kOldRecord :: u32 where "kOldRecord = kMaxRecordType + 4"
definition kBadRecordLen :: u32 where "kBadRecordLen = kMaxRecordType + 5"
definition kBadRecordChecksum :: u32 where "kBadRecordChecksum = kMaxRecordType + 6"

lemmas read_codes = kEof_def kBadRecord_def kBadHeader_def kOldRecord_def kBadRecordLen_def kBadRecordChecksum_def

record LogReader =
  lr_file :: SequentialFile
  lr_reports :: "(nat \<times> Status) list"
  lr_checksum :: bool
  lr_buffer :: slice
  lr_eof :: bool
  read_error :: bool
  eof_offset :: nat
  last_record_offset :: nat
  end_of_buffer_offset :: nat
  lr_log_number :: u64
  lr_recycled :: bool
  retry_after_eof :: bool

definition LogReader_new :: "SequentialFile \<Rightarrow> bool \<Rightarrow> u64 \<Rightarrow> bool \<Rightarrow> LogReader" where
  "LogReader_new file checksum log_num retry =
     \<lparr>lr_file = file, lr_reports = [], lr_checksum = checksum, lr_buffer = [], lr_eof = False, read_error = False,
      eof_offset = 0, last_record_offset = 0, end_of_buffer_offset = 0, lr_log_number = log_num, lr_recycled = False,
      retry_after_eof = retry\<rparr>"

definition ReportDrop :: "nat \<Rightarrow> Status \<Rightarrow> LogReader \<Rightarrow> LogReader" where
  "ReportDrop bytes reason r = r\<lparr>lr_reports := lr_reports r @ [(bytes, reason)]\<rparr>"

definition ReportCorruption :: "nat \<Rightarrow> string \<Rightarrow> LogReader \<Rightarrow> LogReader" where
  "ReportCorruption bytes reason r = ReportDrop bytes (Corruption reason) r"

definition UnmarkEOF :: "LogReader \<Rightarrow> LogReader" where
  "UnmarkEOF r =
     (if read_error r then r
      else
        let r = r\<lparr>lr_eof := False\<rparr>
        in if \<not> retry_after_eof r \<and> eof_offset r = 0 then r
           else
             let remaining = kBlockSize - eof_offset r; (s, read_buffer, f) = sf_Read remaining (lr_file r);
                 added = length read_buffer;
                 r = r\<lparr>lr_file := f, end_of_buffer_offset := end_of_buffer_offset r + added\<rparr>
             in if s \<noteq> OK then (if added > 0 then ReportDrop added s r else r)\<lparr>read_error := True\<rparr>
                else
                  let r = r\<lparr>lr_buffer := lr_buffer r @ read_buffer\<rparr>
                  in if added < remaining then r\<lparr>lr_eof := True, eof_offset := eof_offset r + added\<rparr>
                     else r\<lparr>eof_offset := 0\<rparr>)"

text \<open>The result of \<open>ReadMore\<close> with the values it stores in \<open>drop_size\<close> and \<open>error\<close>.\<close>

definition ReadMore :: "LogReader \<Rightarrow> bool \<times> nat \<times> u32 \<times> LogReader" where
  "ReadMore r =
     (if \<not> lr_eof r \<and> \<not> read_error r then
        let (s, buf, f) = sf_Read kBlockSize (lr_file r);
            r = r\<lparr>lr_file := f, lr_buffer := buf, end_of_buffer_offset := end_of_buffer_offset r + length buf\<rparr>
        in if s \<noteq> OK then (False, 0, kEof, (ReportDrop kBlockSize s (r\<lparr>lr_buffer := []\<rparr>))\<lparr>read_error := True\<rparr>)
           else if length buf < kBlockSize then (True, 0, kEof, r\<lparr>lr_eof := True, eof_offset := length buf\<rparr>)
           else (True, 0, kEof, r)
      else if retry_after_eof r \<and> \<not> read_error r then
        let r = UnmarkEOF r in (\<not> read_error r, 0, kEof, r)
      else if lr_buffer r \<noteq> [] then (False, length (lr_buffer r), kBadHeader, r\<lparr>lr_buffer := []\<rparr>)
      else (False, 0, kEof, r))"

definition header_length :: "slice \<Rightarrow> nat" where
  "header_length header = unat (ucast (header ! 4) OR push_bit 8 (ucast (header ! 5)) :: u32)"

definition header_type :: "slice \<Rightarrow> u32" where
  "header_type header = scast (header ! 6)"

text \<open>A header is complete: the length, the zero record, the checksum, and the payload.\<close>

definition finish_record :: "LogReader \<Rightarrow> nat \<Rightarrow> u32 \<times> slice \<times> nat \<times> LogReader" where
  "finish_record r header_size =
     (let header = lr_buffer r; n = header_length header; t = header_type header
      in if t = kZeroType \<and> n = 0 then (kBadRecord, [], 0, r\<lparr>lr_buffer := []\<rparr>)
         else if lr_checksum r \<and> Crc_Value (take (n + header_size - 6) (drop 6 header)) \<noteq> Unmask (DecodeFixed32 kLittleEndian header)
         then (kBadRecordChecksum, [], length header, r\<lparr>lr_buffer := []\<rparr>)
         else (t, take n (drop header_size header), 0, r\<lparr>lr_buffer := drop (header_size + n) header\<rparr>))"

partial_function (option) ReadPhysicalRecord :: "LogReader \<Rightarrow> (u32 \<times> slice \<times> nat \<times> LogReader) option" where
  [code]: "ReadPhysicalRecord r =
     (if length (lr_buffer r) < kHeaderSize then
        case ReadMore r of (ok, drop_size, error, r) \<Rightarrow>
          if ok then ReadPhysicalRecord r else Some (error, [], drop_size, r)
      else
        let t = header_type (lr_buffer r); recyclable = (t \<ge> kRecyclableFullType \<and> t \<le> kRecyclableLastType);
            r = (if recyclable \<and> end_of_buffer_offset r - length (lr_buffer r) = 0 then r\<lparr>lr_recycled := True\<rparr> else r);
            header_size = (if recyclable then kRecyclableHeaderSize else kHeaderSize)
        in if recyclable \<and> length (lr_buffer r) < kRecyclableHeaderSize then
             case ReadMore r of (ok, drop_size, error, r) \<Rightarrow>
               if ok then ReadPhysicalRecord r else Some (error, [], drop_size, r)
           else if recyclable \<and> ucast (DecodeFixed32 kLittleEndian (drop 7 (lr_buffer r))) \<noteq> lr_log_number r
           then Some (kOldRecord, [], 0, r)
           else if header_size + header_length (lr_buffer r) > length (lr_buffer r) then
             if \<not> retry_after_eof r then
               let drop_size = length (lr_buffer r); r' = r\<lparr>lr_buffer := []\<rparr>
               in Some (if \<not> lr_eof r then kBadRecordLen else if drop_size \<noteq> 0 then kBadHeader else kEof, [], drop_size, r')
             else
               case ReadMore r of (ok, drop_size, error, r) \<Rightarrow>
                 if ok then ReadPhysicalRecord r else Some (error, [], drop_size, r)
           else Some (finish_record r header_size))"

fun decimal_rev :: "nat \<Rightarrow> nat \<Rightarrow> string" where
  "decimal_rev 0 n = []"
| "decimal_rev (Suc k) n = char_of (48 + n mod 10) # (if n < 10 then [] else decimal_rev k (n div 10))"

definition decimal :: "nat \<Rightarrow> string" where
  "decimal n = rev (decimal_rev 10 n)"

text \<open>The loop of \<open>ReadRecord\<close>: whether there is a record, the record, and the reader.\<close>

partial_function (option) ReadRecord_loop ::
    "WALRecoveryMode \<Rightarrow> bool \<Rightarrow> slice \<Rightarrow> nat \<Rightarrow> LogReader \<Rightarrow> (bool \<times> slice \<times> LogReader) option" where
  [code]: "ReadRecord_loop mode in_fragmented scratch prospective r =
     (let physical_record_offset = end_of_buffer_offset r - length (lr_buffer r)
      in case ReadPhysicalRecord r of
           None \<Rightarrow> None
         | Some (t, fragment, drop_size, r) \<Rightarrow>
             if t = kFullType \<or> t = kRecyclableFullType then
               let r = (if in_fragmented \<and> scratch \<noteq> [] then ReportCorruption (length scratch) ''partial record without end(1)'' r else r)
               in Some (True, fragment, r\<lparr>last_record_offset := physical_record_offset\<rparr>)
             else if t = kFirstType \<or> t = kRecyclableFirstType then
               let r = (if in_fragmented \<and> scratch \<noteq> [] then ReportCorruption (length scratch) ''partial record without end(2)'' r else r)
               in ReadRecord_loop mode True fragment physical_record_offset r
             else if t = kMiddleType \<or> t = kRecyclableMiddleType then
               if \<not> in_fragmented then
                 ReadRecord_loop mode in_fragmented scratch prospective
                   (ReportCorruption (length fragment) ''missing start of fragmented record(1)'' r)
               else ReadRecord_loop mode in_fragmented (scratch @ fragment) prospective r
             else if t = kLastType \<or> t = kRecyclableLastType then
               if \<not> in_fragmented then
                 ReadRecord_loop mode in_fragmented scratch prospective
                   (ReportCorruption (length fragment) ''missing start of fragmented record(2)'' r)
               else Some (True, scratch @ fragment, r\<lparr>last_record_offset := prospective\<rparr>)
             else if t = kBadHeader \<or> t = kEof then
               let r = (if t = kBadHeader \<and> mode = kAbsoluteConsistency then ReportCorruption drop_size ''truncated header'' r else r);
                   r = (if in_fragmented \<and> mode = kAbsoluteConsistency
                        then ReportCorruption (length scratch) ''error reading trailing data'' r else r)
               in Some (False, [], r)
             else if t = kOldRecord \<and> mode \<noteq> kSkipAnyCorruptedRecords then
               Some (False, [], if in_fragmented \<and> mode = kAbsoluteConsistency
                                then ReportCorruption (length scratch) ''error reading trailing data'' r else r)
             else if t = kOldRecord \<or> t = kBadRecord then
               if in_fragmented then ReadRecord_loop mode False [] prospective (ReportCorruption (length scratch) ''error in middle of record'' r)
               else ReadRecord_loop mode in_fragmented scratch prospective r
             else if t = kBadRecordLen \<or> t = kBadRecordChecksum then
               if lr_recycled r \<and> mode = kTolerateCorruptedTailRecords then Some (False, [], r)
               else
                 let r = ReportCorruption drop_size (if t = kBadRecordLen then ''bad record length'' else ''checksum mismatch'') r
                 in if in_fragmented then ReadRecord_loop mode False [] prospective (ReportCorruption (length scratch) ''error in middle of record'' r)
                    else ReadRecord_loop mode in_fragmented scratch prospective r
             else
               ReadRecord_loop mode False [] prospective
                 (ReportCorruption (length fragment + (if in_fragmented then length scratch else 0)) (''unknown record type '' @ decimal (unat t)) r))"

definition ReadRecord :: "WALRecoveryMode \<Rightarrow> LogReader \<Rightarrow> (bool \<times> slice \<times> LogReader) option" where
  "ReadRecord mode r = ReadRecord_loop mode False [] 0 r"

section \<open>The layout of a log\<close>

text \<open>The bytes of a fragment and of the items between two positions of the log.\<close>

definition record_tag :: "u64 \<Rightarrow> u32 \<Rightarrow> slice" where
  "record_tag log t = (if t < kRecyclableFullType then [] else EncodeFixed32 kLittleEndian (ucast log))"

definition physical_record :: "u64 \<Rightarrow> u32 \<Rightarrow> slice \<Rightarrow> slice" where
  "physical_record log t payload =
     EncodeFixed32 kLittleEndian (Mask (Crc_Value (ucast t # record_tag log t @ payload)))
     @ [ucast (of_nat (length payload) AND 0xff :: u64), ucast (drop_bit 8 (of_nat (length payload) :: u64)), ucast t]
     @ record_tag log t @ payload"

definition header_size_of :: "bool \<Rightarrow> nat" where
  "header_size_of recycle = (if recycle then kRecyclableHeaderSize else kHeaderSize)"

datatype log_item = Pad nat | Fragment u32 slice

fun item_bytes :: "u64 \<Rightarrow> log_item \<Rightarrow> slice" where
  "item_bytes log (Pad k) = replicate k 0"
| "item_bytes log (Fragment t p) = physical_record log t p"

definition log_bytes :: "u64 \<Rightarrow> log_item list \<Rightarrow> slice" where
  "log_bytes log items = concat (map (item_bytes log) items)"

lemma log_bytes_simps [simp]:
  "log_bytes log [] = []" "log_bytes log (x # xs) = item_bytes log x @ log_bytes log xs"
  "log_bytes log (xs @ ys) = log_bytes log xs @ log_bytes log ys"
  by (simp_all add: log_bytes_def)

text \<open>The items of a record that starts at an offset of a block.\<close>

definition start_offset :: "bool \<Rightarrow> nat \<Rightarrow> nat" where
  "start_offset recycle off = (if kBlockSize - off < header_size_of recycle then 0 else off)"

definition fragment_room :: "bool \<Rightarrow> nat \<Rightarrow> nat" where
  "fragment_room recycle off = kBlockSize - start_offset recycle off - header_size_of recycle"

lemma fragment_room_next:
  "fragment_room recycle off = 0 \<Longrightarrow> fragment_room recycle (start_offset recycle off + header_size_of recycle) \<noteq> 0"
  by (auto simp: fragment_room_def start_offset_def header_size_of_def log_sizes)

function record_items :: "bool \<Rightarrow> nat \<Rightarrow> bool \<Rightarrow> slice \<Rightarrow> log_item list" where
  "record_items recycle off is_begin data =
     (let n = min (length data) (fragment_room recycle off);
          pad = (if kBlockSize - off < header_size_of recycle then [Pad (kBlockSize - off)] else [])
      in pad @ Fragment (fragment_type recycle is_begin (length data = n)) (take n data)
           # (if n < length data
              then record_items recycle (start_offset recycle off + header_size_of recycle + n) False (drop n data) else []))"
  by pat_completeness auto
termination
proof (relation "measure (\<lambda>(recycle, off, is_begin, data). 2 * length data + (if fragment_room recycle off = 0 then 1 else 0))")
  fix recycle off is_begin data x xa
  assume "x = min (length data) (fragment_room recycle off)" "xa = (if kBlockSize - off < header_size_of recycle then [Pad (kBlockSize - off)] else [])"
    "x < length (data :: slice)"
  then show "((recycle, start_offset recycle off + header_size_of recycle + x, False, drop x data), recycle, off, is_begin, data)
      \<in> measure (\<lambda>(recycle, off, is_begin, data). 2 * length data + (if fragment_room recycle off = 0 then 1 else 0))"
    using fragment_room_next [of recycle off] by (cases "fragment_room recycle off = 0") (auto simp: min_def)
qed simp

declare record_items.simps [simp del]

lemma header_size_bounds: "7 \<le> header_size_of recycle" "header_size_of recycle \<le> 11"
  by (auto simp: header_size_of_def log_sizes)

lemma fragment_type_cases:
  "fragment_type recycle b e \<in> (if recycle then {5, 6, 7, 8} else {1, 2, 3, 4})"
  by (auto simp: fragment_type_def record_types)

lemma fragment_type_recyclable:
  "(fragment_type recycle b e \<ge> kRecyclableFullType \<and> fragment_type recycle b e \<le> kRecyclableLastType) = recycle"
  by (auto simp: fragment_type_def record_types word_le_nat_alt)

lemma record_tag_length: "length (record_tag log (fragment_type recycle b e)) = (if recycle then 4 else 0)"
  by (auto simp: record_tag_def fragment_type_def record_types)

lemma physical_record_length:
  "length (physical_record log (fragment_type recycle b e) p) = header_size_of recycle + length p"
  by (simp add: physical_record_def record_tag_length header_size_of_def log_sizes)

section \<open>The writer writes the layout\<close>

definition writer_ok :: "LogWriter \<Rightarrow> bool" where
  "writer_ok w \<longleftrightarrow> type_crc w = map (\<lambda>i. Crc_Value [of_nat i]) [0..<9] \<and> block_offset w \<le> kBlockSize
     \<and> length (wf_data (lw_dest w)) mod kBlockSize = block_offset w mod kBlockSize"

lemma format_header_physical:
  assumes "writer_ok w"
  shows "format_header w (fragment_type recycle b e) p @ p = physical_record (lw_log_number w) (fragment_type recycle b e) p"
proof -
  let ?t = "fragment_type recycle b e"
  have "unat ?t < 9" by (auto simp: fragment_type_def record_types)
  moreover have "of_nat (unat ?t) = (ucast ?t :: byte)" by (simp add: unsigned_of_nat)
  ultimately have "type_crc w ! unat ?t = Crc_Value [ucast ?t]" using assms by (simp add: writer_ok_def)
  moreover have "Extend (Crc_Value xs) ys = Crc_Value (xs @ ys)" for xs ys
    by (simp add: Crc_Value_def Extend_append)
  ultimately show ?thesis by (simp add: format_header_def physical_record_def record_tag_def Let_def)
qed

lemma EmitPhysicalRecord_ok:
  assumes "writer_ok w" and "wf_outcomes (lw_dest w) = []" and "block_offset w + header_size_of (recycle_log_files w) + length p \<le> kBlockSize"
  shows "\<exists>w'. EmitPhysicalRecord (fragment_type (recycle_log_files w) b e) p w = Inr (OK, w') \<and> writer_ok w'
    \<and> wf_outcomes (lw_dest w') = [] \<and> lw_log_number w' = lw_log_number w \<and> recycle_log_files w' = recycle_log_files w
    \<and> block_offset w' = block_offset w + header_size_of (recycle_log_files w) + length p
    \<and> wf_data (lw_dest w') = wf_data (lw_dest w) @ physical_record (lw_log_number w) (fragment_type (recycle_log_files w) b e) p"
proof -
  let ?t = "fragment_type (recycle_log_files w) b e"
  have hs: "(if ?t < kRecyclableFullType then kHeaderSize else kRecyclableHeaderSize) = header_size_of (recycle_log_files w)"
    by (auto simp: fragment_type_def record_types header_size_of_def)
  have "\<not> length p > 0xffff" using assms(3) by (simp add: log_sizes)
  then have "EmitPhysicalRecord ?t p w = Inr (OK, w\<lparr>lw_dest := (lw_dest w)\<lparr>wf_data := (wf_data (lw_dest w) @ format_header w ?t p) @ p\<rparr>,
      block_offset := block_offset w + (header_size_of (recycle_log_files w) + length p)\<rparr>)"
    using assms(2,3) unfolding EmitPhysicalRecord_def Let_def hs by (simp add: wf_Append_def wf_Flush_def)
  moreover have "length (format_header w ?t p) = header_size_of (recycle_log_files w)"
    using arg_cong [OF format_header_physical [OF assms(1), of "recycle_log_files w" b e p], of length] by (simp add: physical_record_length)
  ultimately show ?thesis using assms format_header_physical [OF assms(1), of "recycle_log_files w" b e p]
    by (auto simp: writer_ok_def physical_record_length add.assoc intro: mod_add_cong)
qed

lemma switch_block_ok:
  assumes "writer_ok w" and "wf_outcomes (lw_dest w) = []"
  shows "\<exists>w'. switch_block w = (OK, w') \<and> writer_ok w' \<and> wf_outcomes (lw_dest w') = [] \<and> lw_log_number w' = lw_log_number w
    \<and> recycle_log_files w' = recycle_log_files w \<and> block_offset w' = start_offset (recycle_log_files w) (block_offset w)
    \<and> wf_data (lw_dest w') = wf_data (lw_dest w) @ replicate (if kBlockSize - block_offset w < header_size_of (recycle_log_files w)
        then kBlockSize - block_offset w else 0) 0"
proof -
  have hs: "lw_header_size w = header_size_of (recycle_log_files w)" by (simp add: lw_header_size_def header_size_of_def)
  have "(length (wf_data (lw_dest w)) + (kBlockSize - block_offset w)) mod kBlockSize = 0"
    using assms(1) mod_add_left_eq [of "length (wf_data (lw_dest w))" kBlockSize "kBlockSize - block_offset w"]
      mod_add_left_eq [of "block_offset w" kBlockSize "kBlockSize - block_offset w"] by (simp add: writer_ok_def)
  then show ?thesis using assms hs
    by (auto simp: switch_block_def wf_Append_def Let_def start_offset_def writer_ok_def)
qed

lemma AddRecord_loop_ok:
  assumes "writer_ok w" and "wf_outcomes (lw_dest w) = []"
  shows "\<exists>w'. AddRecord_loop b data w = returns (OK, w') \<and> writer_ok w' \<and> wf_outcomes (lw_dest w') = []
    \<and> lw_log_number w' = lw_log_number w \<and> recycle_log_files w' = recycle_log_files w
    \<and> wf_data (lw_dest w') = wf_data (lw_dest w) @ log_bytes (lw_log_number w) (record_items (recycle_log_files w) (block_offset w) b data)"
  using assms
proof (induction "recycle_log_files w" "block_offset w" b data arbitrary: w rule: record_items.induct)
  case (1 b data)
  let ?rc = "recycle_log_files w" and ?off = "block_offset w"
  let ?n = "min (length data) (fragment_room ?rc ?off)"
  obtain w1 where w1: "switch_block w = (OK, w1)" "writer_ok w1" "wf_outcomes (lw_dest w1) = []" "lw_log_number w1 = lw_log_number w"
      "recycle_log_files w1 = ?rc" "block_offset w1 = start_offset ?rc ?off"
      "wf_data (lw_dest w1) = wf_data (lw_dest w) @ replicate (if kBlockSize - ?off < header_size_of ?rc then kBlockSize - ?off else 0) 0"
    using switch_block_ok [OF 1(2,3)] by blast
  have room: "start_offset ?rc ?off + header_size_of ?rc \<le> kBlockSize" "lw_header_size w1 = header_size_of ?rc"
    using w1(5) by (auto simp: start_offset_def header_size_of_def lw_header_size_def log_sizes)
  have guard: "\<not> kBlockSize - block_offset w1 < lw_header_size w1" using room w1(6) by simp
  have n: "(if length data < kBlockSize - block_offset w1 - lw_header_size w1 then length data
      else kBlockSize - block_offset w1 - lw_header_size w1) = ?n"
    using w1(6) room(2) by (simp add: fragment_room_def min_def)
  have fits: "block_offset w1 + header_size_of (recycle_log_files w1) + length (take ?n data) \<le> kBlockSize"
    using room(1) w1(5,6) by (simp add: fragment_room_def)
  let ?t = "fragment_type ?rc b (length data = ?n)"
  obtain w2 where w2: "EmitPhysicalRecord ?t (take ?n data) w1 = Inr (OK, w2)" "writer_ok w2" "wf_outcomes (lw_dest w2) = []"
      "lw_log_number w2 = lw_log_number w" "recycle_log_files w2 = ?rc" "block_offset w2 = start_offset ?rc ?off + header_size_of ?rc + ?n"
      "wf_data (lw_dest w2) = wf_data (lw_dest w1) @ physical_record (lw_log_number w) ?t (take ?n data)"
    using EmitPhysicalRecord_ok [OF w1(2,3) fits, of b "length data = ?n"] w1(4-6) by auto
  have off: "\<not> block_offset w > kBlockSize" using 1(2) by (simp add: writer_ok_def)
  have step: "AddRecord_loop b data w = (if drop ?n data \<noteq> [] then AddRecord_loop False (drop ?n data) w2 else returns (OK, w2))"
    unfolding AddRecord_loop.simps [of b data w] w1(1) case_prod_conv Let_def n w1(5) w2(1) sum.case
    using off guard by simp
  have items: "record_items ?rc ?off b data = (if kBlockSize - ?off < header_size_of ?rc then [Pad (kBlockSize - ?off)] else [])
      @ Fragment ?t (take ?n data) # (if ?n < length data then record_items ?rc (block_offset w2) False (drop ?n data) else [])"
    by (subst record_items.simps) (simp add: Let_def w2(6))
  show ?case
  proof (cases "?n < length data")
    case True
    then have "drop ?n data \<noteq> []" by simp
    moreover obtain w' where "AddRecord_loop False (drop ?n data) w2 = returns (OK, w')" "writer_ok w'" "wf_outcomes (lw_dest w') = []"
        "lw_log_number w' = lw_log_number w" "recycle_log_files w' = ?rc"
        "wf_data (lw_dest w') = wf_data (lw_dest w2) @ log_bytes (lw_log_number w) (record_items ?rc (block_offset w2) False (drop ?n data))"
      using 1(1) [OF refl refl True, of w2] w2(2-6) by auto
    ultimately show ?thesis using step True w1(7) w2(7) items by simp
  next
    case False
    then show ?thesis using step w1(7) w2 items by simp
  qed
qed

section \<open>A fragment as the reader sees it\<close>

lemma record_header:
  fixes log p q
  assumes t: "t = fragment_type recycle b e" and n: "length p < 2 ^ 16"
  defines "buf \<equiv> physical_record log t p @ q"
  shows "header_length buf = length p" and "header_type buf = t"
    and "DecodeFixed32 kLittleEndian buf = Mask (Crc_Value (ucast t # record_tag log t @ p))"
    and "drop 7 buf = record_tag log t @ p @ q"
    and "take (length p + header_size_of recycle - 6) (drop 6 buf) = ucast t # record_tag log t @ p"
proof -
  let ?n = "of_nat (length p) :: u64"
  obtain c0 c1 c2 c3 where c: "EncodeFixed32 kLittleEndian (Mask (Crc_Value (ucast t # record_tag log t @ p))) = [c0, c1, c2, c3]"
    by (simp add: EncodeFixed32_list)
  have buf: "buf = [c0, c1, c2, c3, ucast (?n AND 0xff), ucast (drop_bit 8 ?n), ucast t] @ record_tag log t @ p @ q"
    by (simp add: buf_def physical_record_def c)
  show "drop 7 buf = record_tag log t @ p @ q" by (simp add: buf numeral_eq_Suc)
  show "DecodeFixed32 kLittleEndian buf = Mask (Crc_Value (ucast t # record_tag log t @ p))"
    by (simp add: buf_def physical_record_def)
  have "length (record_tag log t) = header_size_of recycle - 7" unfolding t record_tag_length by (simp add: header_size_of_def log_sizes)
  then have "length p + header_size_of recycle - 6 = length (ucast t # record_tag log t @ p :: slice)"
    using header_size_bounds [of recycle] by simp
  moreover have "drop 6 buf = (ucast t # record_tag log t @ p) @ q" by (simp add: buf numeral_eq_Suc)
  ultimately show "take (length p + header_size_of recycle - 6) (drop 6 buf) = ucast t # record_tag log t @ p"
    by (metis append_eq_conv_conj)
  have "scast (ucast t :: byte) = t" unfolding t by (auto simp: fragment_type_def record_types)
  then show "header_type buf = t" by (simp add: header_type_def buf numeral_eq_Suc)
  have m: "bit (length p) i \<Longrightarrow> i < 16" for i
    using n by (metis bit_take_bit_iff take_bit_nat_eq_self)
  have "ucast (ucast (?n AND 0xff) :: byte) OR push_bit 8 (ucast (ucast (drop_bit 8 ?n) :: byte)) = (of_nat (length p) :: u32)"
    (is "?l = _")
  proof (rule bit_word_eqI)
    fix i assume "i < LENGTH(32)"
    moreover have "i < 8 \<or> 8 \<le> i \<and> i < 16 \<or> 16 \<le> i" by auto
    ultimately show "bit ?l i = bit (of_nat (length p) :: u32) i"
      using m [of i] by (auto simp: and_255_take_bit bit_or_iff bit_push_bit_iff bit_ucast_iff bit_take_bit_iff bit_drop_bit_eq bit_of_nat_iff)
  qed
  moreover have "buf ! 4 = ucast (?n AND 0xff)" "buf ! 5 = ucast (drop_bit 8 ?n)" by (simp_all add: buf numeral_eq_Suc)
  moreover have "unat (of_nat (length p) :: u32) = length p" using n by (simp add: unat_of_nat)
  ultimately show "header_length buf = length p" by (simp add: header_length_def)
qed

text \<open>The reader stands at position \<open>pos\<close> of a file with the bytes \<open>S\<close> ahead: the buffer holds the rest of a block.\<close>

definition reader_at :: "LogReader \<Rightarrow> nat \<Rightarrow> slice \<Rightarrow> bool" where
  "reader_at r pos S \<longleftrightarrow> \<not> read_error r \<and> sf_status (lr_file r) = OK \<and> \<not> retry_after_eof r
     \<and> lr_buffer r @ sf_rest (lr_file r) = S \<and> end_of_buffer_offset r = pos + length (lr_buffer r)
     \<and> (if lr_eof r then sf_rest (lr_file r) = [] \<and> pos mod kBlockSize + length (lr_buffer r) < kBlockSize
        else (pos + length (lr_buffer r)) mod kBlockSize = 0 \<and> length (lr_buffer r) \<le> kBlockSize)"

definition same_setup :: "LogReader \<Rightarrow> LogReader \<Rightarrow> bool" where
  "same_setup r r' \<longleftrightarrow> lr_checksum r' = lr_checksum r \<and> lr_log_number r' = lr_log_number r \<and> lr_reports r' = lr_reports r"

lemma same_setup_refl [simp]: "same_setup r r"
  by (simp add: same_setup_def)

lemma same_setup_trans: "same_setup r r' \<Longrightarrow> same_setup r' r'' \<Longrightarrow> same_setup r r''"
  by (simp add: same_setup_def)

text \<open>The part of the stream that is in the current block.\<close>

definition in_block :: "nat \<Rightarrow> slice \<Rightarrow> slice" where
  "in_block pos S = take (kBlockSize - pos mod kBlockSize) S"

definition loaded :: "LogReader \<Rightarrow> nat \<Rightarrow> slice \<Rightarrow> bool" where
  "loaded r pos S \<longleftrightarrow> reader_at r pos S \<and> lr_buffer r = in_block pos S \<and> (lr_eof r \<longleftrightarrow> length S < kBlockSize - pos mod kBlockSize)"

lemma ReadMore_block:
  assumes r: "reader_at r pos S" and e: "\<not> lr_eof r"
  shows "\<exists>r'. ReadMore r = (True, 0, kEof, r') \<and> loaded r' (pos + length (lr_buffer r)) (sf_rest (lr_file r)) \<and> same_setup r r'"
proof -
  let ?rest = "sf_rest (lr_file r)" and ?pos = "pos + length (lr_buffer r)"
  have m: "?pos mod kBlockSize = 0" using r e by (simp add: reader_at_def)
  let ?r = "r\<lparr>lr_file := (lr_file r)\<lparr>sf_rest := drop kBlockSize ?rest\<rparr>, lr_buffer := take kBlockSize ?rest,
      end_of_buffer_offset := end_of_buffer_offset r + length (take kBlockSize ?rest)\<rparr>"
  let ?r' = "if length ?rest < kBlockSize then ?r\<lparr>lr_eof := True, eof_offset := length ?rest\<rparr> else ?r"
  have "ReadMore r = (True, 0, kEof, ?r')"
    using r e by (simp add: ReadMore_def sf_Read_def Let_def reader_at_def)
  moreover have "(?pos + kBlockSize) mod kBlockSize = 0" using m by simp
  then have "loaded ?r' ?pos ?rest"
    using r e m by (simp add: loaded_def reader_at_def in_block_def)
  moreover have "same_setup r ?r'" by (simp add: same_setup_def)
  ultimately show ?thesis by blast
qed

lemma loaded_start:
  assumes r: "reader_at r pos S"
  shows "\<exists>r'. ReadPhysicalRecord r = ReadPhysicalRecord r' \<and> loaded r' pos S \<and> same_setup r r'"
proof (cases "lr_buffer r = [] \<and> \<not> lr_eof r")
  case True
  then obtain r' where r': "ReadMore r = (True, 0, kEof, r')" "loaded r' pos S" "same_setup r r'"
    using ReadMore_block [OF r] r by (auto simp: reader_at_def)
  moreover have "ReadPhysicalRecord r = ReadPhysicalRecord r'"
    using True r'(1) by (subst ReadPhysicalRecord.simps) (simp add: kHeaderSize_def)
  ultimately show ?thesis by blast
next
  case False
  have "loaded r pos S"
  proof (cases "lr_eof r")
    case True
    then show ?thesis using r by (auto simp: loaded_def reader_at_def in_block_def)
  next
    case e: False
    let ?n = "length (lr_buffer r)"
    have n: "0 < ?n" "?n \<le> kBlockSize" "(pos + ?n) mod kBlockSize = 0" using False e r by (auto simp: reader_at_def)
    then have "(pos mod kBlockSize + ?n) mod kBlockSize = 0" by (simp add: mod_add_left_eq)
    moreover have "pos mod kBlockSize < kBlockSize" by (simp add: kBlockSize_def)
    ultimately have "pos mod kBlockSize + ?n = kBlockSize" using n
      by (cases "pos mod kBlockSize + ?n < kBlockSize") (auto simp: not_less le_mod_geq)
    then have "?n = kBlockSize - pos mod kBlockSize" by simp
    then show ?thesis using r e by (auto simp: loaded_def reader_at_def in_block_def)
  qed
  then show ?thesis by auto
qed

lemma mod_within: "pos mod kBlockSize + n < kBlockSize \<Longrightarrow> (pos + n) mod kBlockSize = pos mod kBlockSize + n"
  by (metis mod_add_left_eq mod_less)

lemma low_half: "log < 2 ^ 32 \<Longrightarrow> ucast (ucast (log :: u64) :: u32) = log"
proof -
  assume "log < 2 ^ 32"
  then have "unat (take_bit 32 log) = unat log" by (simp add: unsigned_take_bit_eq word_less_nat_alt take_bit_nat_eq_self)
  then have "take_bit 32 log = log" by (rule iffD2 [OF word_unat_eq_iff])
  moreover have "ucast (ucast log :: u32) = take_bit 32 log" by (rule bit_word_eqI) (auto simp: bit_ucast_iff bit_take_bit_iff)
  ultimately show ?thesis by simp
qed

definition mark_recycled :: "bool \<Rightarrow> LogReader \<Rightarrow> LogReader" where
  "mark_recycled recycle r =
     (if recycle \<and> end_of_buffer_offset r - length (lr_buffer r) = 0 then r\<lparr>lr_recycled := True\<rparr> else r)"

lemma mark_recycled_simps [simp]:
  "lr_buffer (mark_recycled recycle r) = lr_buffer r" "lr_file (mark_recycled recycle r) = lr_file r"
  "lr_eof (mark_recycled recycle r) = lr_eof r" "lr_log_number (mark_recycled recycle r) = lr_log_number r"
  "retry_after_eof (mark_recycled recycle r) = retry_after_eof r" "read_error (mark_recycled recycle r) = read_error r"
  "end_of_buffer_offset (mark_recycled recycle r) = end_of_buffer_offset r" "lr_checksum (mark_recycled recycle r) = lr_checksum r"
  "lr_reports (mark_recycled recycle r) = lr_reports r"
  by (simp_all add: mark_recycled_def)

text \<open>A reader with a header in its buffer, by the branches of the code.\<close>

lemma ReadPhysicalRecord_header:
  assumes "kHeaderSize \<le> length (lr_buffer r)"
    and rec: "recycle \<longleftrightarrow> header_type (lr_buffer r) \<ge> kRecyclableFullType \<and> header_type (lr_buffer r) \<le> kRecyclableLastType"
  shows "ReadPhysicalRecord r =
     (let r = mark_recycled recycle r
      in if recycle \<and> length (lr_buffer r) < kRecyclableHeaderSize then
           case ReadMore r of (ok, drop_size, error, r) \<Rightarrow> if ok then ReadPhysicalRecord r else Some (error, [], drop_size, r)
         else if recycle \<and> ucast (DecodeFixed32 kLittleEndian (drop 7 (lr_buffer r))) \<noteq> lr_log_number r then Some (kOldRecord, [], 0, r)
         else if header_size_of recycle + header_length (lr_buffer r) > length (lr_buffer r) then
           if \<not> retry_after_eof r
           then Some (if \<not> lr_eof r then kBadRecordLen else if length (lr_buffer r) \<noteq> 0 then kBadHeader else kEof, [],
                      length (lr_buffer r), r\<lparr>lr_buffer := []\<rparr>)
           else case ReadMore r of (ok, drop_size, error, r) \<Rightarrow> if ok then ReadPhysicalRecord r else Some (error, [], drop_size, r)
         else Some (finish_record r (header_size_of recycle)))"
  using assms(1) unfolding ReadPhysicalRecord.simps [of r] Let_def rec [symmetric] mark_recycled_def [symmetric] header_size_of_def [symmetric]
  by simp

text \<open>A whole fragment.\<close>

lemma read_fragment:
  assumes r: "reader_at r pos (physical_record log t p @ S)" and t: "t = fragment_type recycle b e"
    and fits: "pos mod kBlockSize + header_size_of recycle + length p \<le> kBlockSize"
    and log: "recycle \<longrightarrow> lr_log_number r = log \<and> log < 2 ^ 32"
  shows "\<exists>r'. ReadPhysicalRecord r = Some (t, p, 0, r') \<and> reader_at r' (pos + header_size_of recycle + length p) S \<and> same_setup r r'"
proof -
  let ?P = "physical_record log t p" and ?h = "header_size_of recycle"
  obtain r1 where r1: "ReadPhysicalRecord r = ReadPhysicalRecord r1" "loaded r1 pos (?P @ S)" "same_setup r r1"
    using loaded_start [OF r] by blast
  have plen: "length ?P = ?h + length p" unfolding t by (rule physical_record_length)
  obtain q where q: "lr_buffer r1 = ?P @ q" "q @ sf_rest (lr_file r1) = S"
    using r1(2) plen fits by (auto simp: loaded_def reader_at_def in_block_def)
  have n: "length p < 2 ^ 16" using fits by (simp add: kBlockSize_def)
  note hd = record_header [OF t n, of log q]
  have rec: "(t \<ge> kRecyclableFullType \<and> t \<le> kRecyclableLastType) = recycle"
    unfolding t by (rule fragment_type_recyclable)
  have tag: "ucast (DecodeFixed32 kLittleEndian (drop 7 (?P @ q))) = lr_log_number r1" if recycle
  proof -
    have "ucast (ucast log :: u32) = log" using log that by (intro low_half) simp
    moreover have "\<not> t < kRecyclableFullType" using rec that by auto
    ultimately show ?thesis unfolding hd(4) using log that r1(3) by (simp add: record_tag_def same_setup_def)
  qed
  let ?r2 = "mark_recycled recycle r1"
  have b2: "lr_buffer ?r2 = ?P @ q" by (simp add: q(1))
  have "t \<noteq> kZeroType" unfolding t by (auto simp: fragment_type_def record_types)
  moreover have "drop ?h (?P @ q) = p @ q"
  proof -
    have "length (record_tag log t) = ?h - 7" unfolding t record_tag_length by (simp add: header_size_of_def log_sizes)
    moreover have "drop ?h (?P @ q) = drop (?h - 7) (drop 7 (?P @ q))" using header_size_bounds [of recycle] by (simp del: drop_append)
    ultimately show ?thesis unfolding hd(4) by simp
  qed
  ultimately have fin: "finish_record ?r2 ?h = (t, p, 0, ?r2\<lparr>lr_buffer := q\<rparr>)"
    unfolding finish_record_def Let_def b2 hd(1-3,5) Unmask_Mask using plen by simp
  have len: "kHeaderSize \<le> length (lr_buffer r1)" "\<not> (recycle \<and> length (lr_buffer r1) < kRecyclableHeaderSize)"
      "\<not> ?h + length p > length (lr_buffer r1)"
    using q(1) plen header_size_bounds [of recycle] by (simp_all add: header_size_of_def log_sizes)
  have "recycle \<longleftrightarrow> header_type (lr_buffer r1) \<ge> kRecyclableFullType \<and> header_type (lr_buffer r1) \<le> kRecyclableLastType"
    unfolding q(1) hd(2) rec ..
  note parse = ReadPhysicalRecord_header [OF len(1) this, unfolded Let_def mark_recycled_simps]
  have "\<not> (recycle \<and> ucast (DecodeFixed32 kLittleEndian (drop 7 (lr_buffer r1))) \<noteq> lr_log_number r1)"
      "\<not> ?h + header_length (lr_buffer r1) > length (lr_buffer r1)"
    using tag len(3) unfolding q(1) hd(1) by blast+
  then have "ReadPhysicalRecord r1 = Some (finish_record ?r2 ?h)"
    unfolding parse using len(2) by (simp only: if_False)
  moreover have "reader_at (?r2\<lparr>lr_buffer := q\<rparr>) (pos + ?h + length p) S"
  proof (cases "lr_eof r1")
    case True
    then have "pos mod kBlockSize + (?h + length p + length q) < kBlockSize" using r1(2) q(1) plen by (simp add: loaded_def reader_at_def)
    then show ?thesis using True r1(2) q plen mod_within [of pos "?h + length p"] by (simp add: loaded_def reader_at_def add.assoc)
  next
    case False
    then show ?thesis using r1(2) q plen by (simp add: loaded_def reader_at_def add.assoc)
  qed
  ultimately show ?thesis using r1(1,3) fin by (auto simp: same_setup_def)
qed

text \<open>The end of the file, and a fragment that is cut off.\<close>

definition ends_log :: "LogReader \<Rightarrow> bool" where
  "ends_log r \<longleftrightarrow> (\<exists>t drop_size r'. ReadPhysicalRecord r = Some (t, [], drop_size, r') \<and> t \<in> {kEof, kBadHeader} \<and> same_setup r r')"

lemma read_short:
  assumes r: "loaded r pos S" and "lr_eof r" and "length S < kHeaderSize"
  shows "ends_log r"
proof -
  have "lr_buffer r = S" "\<not> retry_after_eof r" using assms by (auto simp: loaded_def in_block_def reader_at_def)
  then show ?thesis using assms(2,3)
    by (cases "S = []") (auto simp: ends_log_def ReadPhysicalRecord.simps [of r] ReadMore_def same_setup_def)
qed

lemma read_truncated:
  assumes r: "reader_at r pos (take j (physical_record log t p))" and t: "t = fragment_type recycle b e"
    and fits: "pos mod kBlockSize + header_size_of recycle + length p \<le> kBlockSize" and j: "j < header_size_of recycle + length p"
    and log: "recycle \<longrightarrow> lr_log_number r = log \<and> log < 2 ^ 32"
  shows "ends_log r"
proof -
  let ?P = "physical_record log t p" and ?h = "header_size_of recycle"
  let ?S = "take j ?P"
  obtain r1 where r1: "ReadPhysicalRecord r = ReadPhysicalRecord r1" "loaded r1 pos ?S" "same_setup r r1"
    using loaded_start [OF r] by blast
  have plen: "length ?P = ?h + length p" unfolding t by (rule physical_record_length)
  have S: "length ?S = j" using plen j by simp
  then have eof: "lr_eof r1" "lr_buffer r1 = ?S" "\<not> retry_after_eof r1" "\<not> read_error r1"
    using r1(2) fits j by (auto simp: loaded_def in_block_def reader_at_def)
  have "ends_log r1"
  proof (cases "j < kHeaderSize")
    case True
    then show ?thesis using read_short [OF r1(2) eof(1)] S by simp
  next
    case False
    have n: "length p < 2 ^ 16" using fits by (simp add: kBlockSize_def)
    note hd = record_header [OF t n, of log "[]", unfolded append_Nil2]
    have ge: "7 \<le> j" using False by (simp add: kHeaderSize_def)
    have same: "header_type ?S = t" "header_length ?S = length p"
      using ge hd(1,2) unfolding header_type_def header_length_def by simp_all
    have rec: "recycle \<longleftrightarrow> header_type (lr_buffer r1) \<ge> kRecyclableFullType \<and> header_type (lr_buffer r1) \<le> kRecyclableLastType"
      unfolding eof(2) same unfolding t fragment_type_recyclable ..
    have len: "kHeaderSize \<le> length (lr_buffer r1)" using False eof(2) S by simp
    note parse = ReadPhysicalRecord_header [OF len rec, unfolded Let_def mark_recycled_simps eof(2) S same]
    show ?thesis
    proof (cases "recycle \<and> j < kRecyclableHeaderSize")
      case True
      have "ReadMore (mark_recycled recycle r1) = (False, j, kBadHeader, (mark_recycled recycle r1)\<lparr>lr_buffer := []\<rparr>)"
        using eof ge S by (auto simp: ReadMore_def)
      then show ?thesis unfolding ends_log_def parse using True by (simp add: same_setup_def)
    next
      case False
      have "ucast (DecodeFixed32 kLittleEndian (drop 7 ?S)) = lr_log_number r1" if recycle
      proof -
        have "\<not> t < kRecyclableFullType" using rec that unfolding eof(2) same by auto
        then have "drop 7 ?P = EncodeFixed32 kLittleEndian (ucast log) @ p" unfolding hd(4) by (simp add: record_tag_def)
        then have "drop 7 ?S = EncodeFixed32 kLittleEndian (ucast log) @ take (j - 11) p"
          using False that by (simp add: drop_take kRecyclableHeaderSize_def)
        then show ?thesis using log that r1(3) low_half [of log] by (simp add: same_setup_def)
      qed
      moreover have "?h + length p > j" "j \<noteq> 0" using j ge by simp_all
      ultimately have "ReadPhysicalRecord r1 = Some (kBadHeader, [], j, (mark_recycled recycle r1)\<lparr>lr_buffer := []\<rparr>)"
        unfolding parse using False eof(1,3) by (cases recycle) simp_all
      then show ?thesis by (simp add: ends_log_def same_setup_def)
    qed
  qed
  then show ?thesis using r1(1) same_setup_trans [OF r1(3)] by (auto simp: ends_log_def)
qed

text \<open>The zeros at the end of a block.\<close>

lemma read_pad:
  assumes r: "reader_at r pos (replicate k 0 @ S)" and k: "0 < k" "k < 11" "pos mod kBlockSize + k = kBlockSize"
  shows "\<exists>r'. reader_at r' (pos + k) S \<and> same_setup r r'
    \<and> (ReadPhysicalRecord r = ReadPhysicalRecord r' \<or> ReadPhysicalRecord r = Some (kBadRecord, [], 0, r'))"
proof -
  let ?Z = "replicate k 0 :: slice"
  obtain r1 where r1: "ReadPhysicalRecord r = ReadPhysicalRecord r1" "loaded r1 pos (?Z @ S)" "same_setup r r1"
    using loaded_start [OF r] by blast
  have "kBlockSize - pos mod kBlockSize = k" using k(3) by simp
  then have b: "\<not> lr_eof r1" "lr_buffer r1 = ?Z" "sf_rest (lr_file r1) = S" "reader_at r1 pos (?Z @ S)"
    using r1(2) by (auto simp: loaded_def in_block_def reader_at_def)
  show ?thesis
  proof (cases "k < 7")
    case True
    obtain r2 where r2: "ReadMore r1 = (True, 0, kEof, r2)" "loaded r2 (pos + k) S" "same_setup r1 r2"
      using ReadMore_block [OF b(4,1)] b(2,3) by auto
    have "ReadPhysicalRecord r1 = ReadPhysicalRecord r2"
      using True b(2) r2(1) by (subst ReadPhysicalRecord.simps) (simp add: kHeaderSize_def)
    then show ?thesis using r1(1,3) r2(2,3) same_setup_trans unfolding loaded_def by metis
  next
    case False
    have z: "header_type ?Z = 0" "header_length ?Z = 0" using False by (simp_all add: header_type_def header_length_def)
    have len: "kHeaderSize \<le> length (lr_buffer r1)" using False b(2) by (simp add: kHeaderSize_def)
    have "False \<longleftrightarrow> header_type (lr_buffer r1) \<ge> kRecyclableFullType \<and> header_type (lr_buffer r1) \<le> kRecyclableLastType"
      unfolding b(2) z by (simp add: record_types)
    from ReadPhysicalRecord_header [OF len this]
    have "ReadPhysicalRecord r1 = Some (kBadRecord, [], 0, (mark_recycled False r1)\<lparr>lr_buffer := []\<rparr>)"
      using False by (simp add: b(2) z finish_record_def Let_def header_size_of_def kHeaderSize_def kZeroType_def)
    moreover have "reader_at ((mark_recycled False r1)\<lparr>lr_buffer := []\<rparr>) (pos + k) S"
      using b by (auto simp: reader_at_def)
    ultimately show ?thesis using r1(1,3) by (auto simp: same_setup_def)
  qed
qed

section \<open>Reading a record\<close>

text \<open>A pad comes only before the first fragment of a record.\<close>

lemma record_bytes:
  fixes recycle off b data
  defines "n \<equiv> min (length data) (fragment_room recycle off)"
  defines "t \<equiv> fragment_type recycle b (length data = n)"
  defines "k \<equiv> if kBlockSize - off < header_size_of recycle then kBlockSize - off else 0"
  shows "log_bytes log (record_items recycle off b data) = replicate k 0 @ physical_record log t (take n data)
    @ (if n < length data then log_bytes log (record_items recycle (start_offset recycle off + header_size_of recycle + n) False (drop n data)) else [])"
  by (subst record_items.simps) (simp add: Let_def n_def t_def k_def)

lemma last_record_offset_irrelevant [simp]:
  "reader_at (r\<lparr>last_record_offset := x\<rparr>) pos S = reader_at r pos S"
  "same_setup r0 (r\<lparr>last_record_offset := x\<rparr>) = same_setup r0 r"
  by (simp_all add: reader_at_def same_setup_def)

lemma ReadRecord_loop_fragment:
  assumes rd: "ReadPhysicalRecord r = Some (fragment_type recycle b e, p, d, r')" and acc: "b \<longrightarrow> acc = []"
  shows "\<exists>x. ReadRecord_loop mode (\<not> b) acc prospective r =
    (if e then Some (True, acc @ p, r'\<lparr>last_record_offset := x\<rparr>) else ReadRecord_loop mode True (acc @ p) x r')"
proof -
  define x where "x = (if b then end_of_buffer_offset r - length (lr_buffer r) else prospective)"
  have "ReadRecord_loop mode (\<not> b) acc prospective r =
      (if e then Some (True, acc @ p, r'\<lparr>last_record_offset := x\<rparr>) else ReadRecord_loop mode True (acc @ p) x r')"
    unfolding ReadRecord_loop.simps [of mode "\<not> b" acc prospective r] Let_def rd option.case case_prod_conv
    using acc by (cases recycle; cases b; cases e; simp add: fragment_type_def record_types x_def)
  then show ?thesis by blast
qed

lemma ReadRecord_loop_bad_record:
  assumes "ReadPhysicalRecord r = Some (kBadRecord, p, d, r')"
  shows "ReadRecord_loop mode False acc prospective r = ReadRecord_loop mode False acc prospective r'"
  unfolding ReadRecord_loop.simps [of mode False acc prospective r] Let_def assms option.case case_prod_conv
  by (simp add: record_types read_codes)

lemma ReadRecord_loop_ends:
  assumes "ends_log r" and "mode \<noteq> kAbsoluteConsistency"
  shows "\<exists>r'. ReadRecord_loop mode f acc prospective r = Some (False, [], r') \<and> same_setup r r'"
proof -
  obtain t d r' where rd: "ReadPhysicalRecord r = Some (t, [], d, r')" "t \<in> {kEof, kBadHeader}" "same_setup r r'"
    using assms(1) by (auto simp: ends_log_def)
  then show ?thesis
    unfolding ReadRecord_loop.simps [of mode f acc prospective r] Let_def rd option.case case_prod_conv
    using assms(2) by (auto simp: record_types read_codes)
qed

text \<open>A full pad is passed on the way to the next fragment.\<close>

definition pad_before :: "bool \<Rightarrow> nat \<Rightarrow> nat" where
  "pad_before recycle off = (if kBlockSize - off < header_size_of recycle then kBlockSize - off else 0)"

lemma pad_positions:
  assumes "off \<le> kBlockSize" and "pos mod kBlockSize = off mod kBlockSize"
  shows "pad_before recycle off > 0 \<Longrightarrow> pos mod kBlockSize + pad_before recycle off = kBlockSize \<and> pad_before recycle off < 11"
    and "(pos + pad_before recycle off) mod kBlockSize = start_offset recycle off"
    and "start_offset recycle off + header_size_of recycle \<le> kBlockSize"
proof -
  have h: "7 \<le> header_size_of recycle" "header_size_of recycle \<le> 11" by (rule header_size_bounds)+
  show p: "pos mod kBlockSize + pad_before recycle off = kBlockSize \<and> pad_before recycle off < 11" if "pad_before recycle off > 0"
    using that assms h by (auto simp: pad_before_def split: if_splits)
  show "start_offset recycle off + header_size_of recycle \<le> kBlockSize"
    using h by (auto simp: start_offset_def kBlockSize_def)
  show "(pos + pad_before recycle off) mod kBlockSize = start_offset recycle off"
  proof (cases "kBlockSize - off < header_size_of recycle")
    case True
    show ?thesis
    proof (cases "pad_before recycle off = 0")
      case pb: True
      then have "off = kBlockSize" using True assms(1) by (simp add: pad_before_def)
      then show ?thesis using assms(2) pb True by (simp add: start_offset_def)
    next
      case False
      then have "(pos mod kBlockSize + pad_before recycle off) mod kBlockSize = 0" using p by simp
      then show ?thesis using True by (simp add: mod_add_left_eq start_offset_def)
    qed
  next
    case False
    then have "off < kBlockSize" using h by (simp add: kBlockSize_def)
    then show ?thesis using False assms(2) by (simp add: pad_before_def start_offset_def)
  qed
qed

lemma pass_pad:
  assumes r: "reader_at r pos (replicate (pad_before recycle off) 0 @ S)" and off: "off \<le> kBlockSize" "pos mod kBlockSize = off mod kBlockSize"
    and b: "b \<or> off = kBlockSize"
  shows "\<exists>r'. reader_at r' (pos + pad_before recycle off) S \<and> same_setup r r' \<and>
    (ReadPhysicalRecord r = ReadPhysicalRecord r'
     \<or> b \<and> (\<forall>mode acc x. ReadRecord_loop mode False acc x r = ReadRecord_loop mode False acc x r'))"
proof (cases "pad_before recycle off = 0")
  case True
  then show ?thesis using r by (auto intro: exI [of _ r])
next
  case False
  note k = pad_positions(1) [OF off, of recycle]
  have "b" using b False by (auto simp: pad_before_def split: if_splits)
  then show ?thesis using read_pad [OF r] k False ReadRecord_loop_bad_record by blast
qed

lemma ReadRecord_loop_next:
  assumes "ReadPhysicalRecord r = ReadPhysicalRecord r1
      \<or> b \<and> (\<forall>mode acc x. ReadRecord_loop mode False acc x r = ReadRecord_loop mode False acc x r1)"
    and rd: "ReadPhysicalRecord r1 = Some (fragment_type recycle b e, p, d, r2)" and acc: "b \<longrightarrow> acc = []"
  shows "\<exists>y. ReadRecord_loop mode (\<not> b) acc x r =
    (if e then Some (True, acc @ p, r2\<lparr>last_record_offset := y\<rparr>) else ReadRecord_loop mode True (acc @ p) y r2)"
  using assms(1)
proof
  assume "ReadPhysicalRecord r = ReadPhysicalRecord r1"
  then show ?thesis using ReadRecord_loop_fragment [of r, OF _ acc] rd by simp
next
  assume "b \<and> (\<forall>mode acc x. ReadRecord_loop mode False acc x r = ReadRecord_loop mode False acc x r1)"
  then show ?thesis using ReadRecord_loop_fragment [OF rd acc, of mode x] by simp
qed

lemma ReadRecord_loop_record:
  assumes "reader_at r pos (log_bytes log (record_items recycle off b data) @ S)" and "off \<le> kBlockSize"
    and "pos mod kBlockSize = off mod kBlockSize" and "b \<or> off = kBlockSize" and "b \<longrightarrow> acc = []"
    and "recycle \<longrightarrow> lr_log_number r = log \<and> log < 2 ^ 32"
  shows "\<exists>r'. ReadRecord_loop mode (\<not> b) acc x r = Some (True, acc @ data, r')
    \<and> reader_at r' (pos + length (log_bytes log (record_items recycle off b data))) S \<and> same_setup r r'"
  using assms
proof (induction recycle off b data arbitrary: r pos acc x rule: record_items.induct)
  case (1 recycle off b data)
  let ?h = "header_size_of recycle" and ?k = "pad_before recycle off" and ?n = "min (length data) (fragment_room recycle off)"
  let ?t = "fragment_type recycle b (length data = ?n)" and ?off = "start_offset recycle off + header_size_of recycle + min (length data) (fragment_room recycle off)"
  let ?more = "if ?n < length data then log_bytes log (record_items recycle ?off False (drop ?n data)) else []"
  have bytes: "log_bytes log (record_items recycle off b data) = replicate ?k 0 @ physical_record log ?t (take ?n data) @ ?more"
    by (subst record_bytes) (simp add: pad_before_def)
  note places = pad_positions [OF 1(3,4), of recycle]
  obtain r1 where r1: "reader_at r1 (pos + ?k) (physical_record log ?t (take ?n data) @ ?more @ S)" "same_setup r r1"
      "ReadPhysicalRecord r = ReadPhysicalRecord r1 \<or> b \<and> (\<forall>mode acc x. ReadRecord_loop mode False acc x r = ReadRecord_loop mode False acc x r1)"
    using pass_pad [OF _ 1(3-5), of r recycle "physical_record log ?t (take ?n data) @ ?more @ S"] 1(2) bytes by auto
  have log: "recycle \<longrightarrow> lr_log_number r1 = log \<and> log < 2 ^ 32" using 1(7) r1(2) by (simp add: same_setup_def)
  have room: "(pos + ?k) mod kBlockSize + ?h + length (take ?n data) \<le> kBlockSize"
    using places(2,3) by (simp add: fragment_room_def)
  obtain r2 where r2: "ReadPhysicalRecord r1 = Some (?t, take ?n data, 0, r2)"
      "reader_at r2 (pos + ?k + ?h + length (take ?n data)) (?more @ S)" "same_setup r1 r2"
    using read_fragment [OF r1(1) refl room log] by blast
  obtain y where y: "ReadRecord_loop mode (\<not> b) acc x r =
      (if length data = ?n then Some (True, acc @ take ?n data, r2\<lparr>last_record_offset := y\<rparr>) else ReadRecord_loop mode True (acc @ take ?n data) y r2)"
    using ReadRecord_loop_next [OF r1(3) r2(1) 1(6)] by blast
  have len: "length (physical_record log ?t (take ?n data)) = ?h + ?n" by (simp add: physical_record_length)
  note same = same_setup_trans [OF r1(2) r2(3)]
  show ?case
  proof (cases "?n < length data")
    case False
    then show ?thesis using y r2(2) bytes len same by (simp add: add.assoc)
  next
    case True
    then have off: "?off = kBlockSize" using places(3) by (simp add: fragment_room_def min_def split: if_splits)
    have "(pos + ?k + ?h + length (take ?n data)) mod kBlockSize = (start_offset recycle off + ?h + ?n) mod kBlockSize"
      using places(2) by (metis (no_types, lifting) add.assoc length_take min.assoc min.idem min.commute mod_add_left_eq)
    then have pos: "(pos + ?k + ?h + length (take ?n data)) mod kBlockSize = ?off mod kBlockSize" by simp
    have r2': "reader_at r2 (pos + ?k + ?h + length (take ?n data)) (log_bytes log (record_items recycle ?off False (drop ?n data)) @ S)"
      using r2(2) by (simp only: True if_True)
    have "\<exists>r'. ReadRecord_loop mode (\<not> False) (acc @ take ?n data) y r2 = Some (True, (acc @ take ?n data) @ drop ?n data, r')
        \<and> reader_at r' (pos + ?k + ?h + length (take ?n data) + length (log_bytes log (record_items recycle ?off False (drop ?n data)))) S
        \<and> same_setup r2 r'"
      by (rule 1(1) [OF refl refl True r2' _ pos]) (use off log r2(3) in \<open>simp_all add: same_setup_def\<close>)
    then show ?thesis using y True bytes len same_setup_trans [OF same] by (auto simp: add.assoc)
  qed
qed

section \<open>Reading a record that is cut off\<close>

lemma read_partial_pad:
  assumes r: "reader_at r pos (replicate j 0)" and k: "j < k" "k < 11" "pos mod kBlockSize + k = kBlockSize" and mode: "mode \<noteq> kAbsoluteConsistency"
  shows "\<exists>r'. ReadRecord_loop mode False acc x r = Some (False, [], r') \<and> same_setup r r'"
proof -
  let ?Z = "replicate j 0 :: slice"
  obtain r1 where r1: "ReadPhysicalRecord r = ReadPhysicalRecord r1" "loaded r1 pos ?Z" "same_setup r r1"
    using loaded_start [OF r] by blast
  have b: "lr_eof r1" "lr_buffer r1 = ?Z" "reader_at r1 pos ?Z"
    using r1(2) k by (auto simp: loaded_def in_block_def reader_at_def)
  show ?thesis
  proof (cases "j < kHeaderSize")
    case True
    then have "ends_log r1" using read_short [OF r1(2) b(1)] by simp
    then have "ends_log r" using r1(1) same_setup_trans [OF r1(3)] by (auto simp: ends_log_def)
    then show ?thesis using ReadRecord_loop_ends [OF _ mode] by blast
  next
    case False
    let ?r2 = "(mark_recycled False r1)\<lparr>lr_buffer := []\<rparr>"
    have z: "header_type ?Z = 0" "header_length ?Z = 0" using False by (simp_all add: header_type_def header_length_def kHeaderSize_def)
    have len: "kHeaderSize \<le> length (lr_buffer r1)" using False b(2) by simp
    have "False \<longleftrightarrow> header_type (lr_buffer r1) \<ge> kRecyclableFullType \<and> header_type (lr_buffer r1) \<le> kRecyclableLastType"
      unfolding b(2) z by (simp add: record_types)
    from ReadPhysicalRecord_header [OF len this]
    have "ReadPhysicalRecord r1 = Some (kBadRecord, [], 0, ?r2)"
      using False by (simp add: b(2) z finish_record_def Let_def header_size_of_def kHeaderSize_def kZeroType_def)
    moreover have "ends_log ?r2"
      using b by (auto simp: ends_log_def ReadPhysicalRecord.simps [of ?r2] ReadMore_def reader_at_def kHeaderSize_def)
    moreover have "same_setup r ?r2" using r1(3) by (simp add: same_setup_def)
    ultimately show ?thesis using ReadRecord_loop_bad_record [of r] r1(1) ReadRecord_loop_ends [OF _ mode] same_setup_trans by metis
  qed
qed

lemma ReadRecord_loop_truncated:
  assumes "reader_at r pos (take m (log_bytes log (record_items recycle off b data)))" and "off \<le> kBlockSize"
    and "pos mod kBlockSize = off mod kBlockSize" and "b \<or> off = kBlockSize" and "b \<longrightarrow> acc = []"
    and "recycle \<longrightarrow> lr_log_number r = log \<and> log < 2 ^ 32" and "m < length (log_bytes log (record_items recycle off b data))"
    and mode: "mode \<noteq> kAbsoluteConsistency"
  shows "\<exists>r'. ReadRecord_loop mode (\<not> b) acc x r = Some (False, [], r') \<and> same_setup r r'"
  using assms(1-7)
proof (induction recycle off b data arbitrary: r pos acc x m rule: record_items.induct)
  case (1 recycle off b data)
  let ?h = "header_size_of recycle" and ?k = "pad_before recycle off" and ?n = "min (length data) (fragment_room recycle off)"
  let ?t = "fragment_type recycle b (length data = ?n)" and ?off = "start_offset recycle off + header_size_of recycle + min (length data) (fragment_room recycle off)"
  let ?P = "physical_record log ?t (take ?n data)"
  let ?more = "if ?n < length data then log_bytes log (record_items recycle ?off False (drop ?n data)) else []"
  have bytes: "log_bytes log (record_items recycle off b data) = replicate ?k 0 @ ?P @ ?more"
    by (subst record_bytes) (simp add: pad_before_def)
  note places = pad_positions [OF 1(3,4), of recycle]
  have len: "length ?P = ?h + ?n" by (simp add: physical_record_length)
  show ?case
  proof (cases "m < ?k")
    case True
    then have "b" using 1(5) by (auto simp: pad_before_def split: if_splits)
    moreover have "reader_at r pos (replicate m 0)" using 1(2) bytes True by (simp add: min_absorb1)
    ultimately show ?thesis using read_partial_pad [OF _ True _ _ mode] places(1) True by simp
  next
    case False
    then have "reader_at r pos (replicate ?k 0 @ take (m - ?k) (?P @ ?more))" using 1(2) bytes by simp
    then obtain r1 where r1: "reader_at r1 (pos + ?k) (take (m - ?k) (?P @ ?more))" "same_setup r r1"
        "ReadPhysicalRecord r = ReadPhysicalRecord r1 \<or> b \<and> (\<forall>mode acc x. ReadRecord_loop mode False acc x r = ReadRecord_loop mode False acc x r1)"
      using pass_pad [OF _ 1(3-5)] by blast
    have log: "recycle \<longrightarrow> lr_log_number r1 = log \<and> log < 2 ^ 32" using 1(7) r1(2) by (simp add: same_setup_def)
    have room: "(pos + ?k) mod kBlockSize + ?h + length (take ?n data) \<le> kBlockSize"
      using places(2,3) by (simp add: fragment_room_def)
    show ?thesis
    proof (cases "m - ?k < ?h + ?n")
      case True
      then have "reader_at r1 (pos + ?k) (take (m - ?k) ?P)" using r1(1) len by simp
      then have ends: "ends_log r1" using read_truncated [OF _ refl room _ log] True by simp
      from r1(3) show ?thesis
      proof
        assume "ReadPhysicalRecord r = ReadPhysicalRecord r1"
        then have "ends_log r" using ends same_setup_trans [OF r1(2)] by (auto simp: ends_log_def)
        then show ?thesis by (rule ReadRecord_loop_ends [OF _ mode])
      next
        assume "b \<and> (\<forall>mode acc x. ReadRecord_loop mode False acc x r = ReadRecord_loop mode False acc x r1)"
        then show ?thesis using ReadRecord_loop_ends [OF ends mode, of False acc x] same_setup_trans [OF r1(2)] by auto
      qed
    next
      case False
      let ?m = "m - ?k - (?h + ?n)"
      have more: "?n < length data" using False 1(8) bytes len \<open>\<not> m < ?k\<close> by (auto split: if_splits)
      then have neq: "length data \<noteq> ?n" by simp
      have "reader_at r1 (pos + ?k) (?P @ take ?m ?more)" using r1(1) len False by simp
      then obtain r2 where r2: "ReadPhysicalRecord r1 = Some (?t, take ?n data, 0, r2)"
          "reader_at r2 (pos + ?k + ?h + length (take ?n data)) (take ?m ?more)" "same_setup r1 r2"
        using read_fragment [OF _ refl room log] by blast
      obtain y where y: "ReadRecord_loop mode (\<not> b) acc x r = ReadRecord_loop mode True (acc @ take ?n data) y r2"
        using ReadRecord_loop_next [OF r1(3) r2(1) 1(6), of mode x] neq by (metis (no_types))
      have off: "?off = kBlockSize" using places(3) more by (simp add: fragment_room_def min_def split: if_splits)
      have "(pos + ?k + ?h + length (take ?n data)) mod kBlockSize = (start_offset recycle off + ?h + ?n) mod kBlockSize"
        using places(2) by (metis (no_types, lifting) add.assoc length_take min.assoc min.idem min.commute mod_add_left_eq)
      then have pos: "(pos + ?k + ?h + length (take ?n data)) mod kBlockSize = ?off mod kBlockSize" by simp
      have r2': "reader_at r2 (pos + ?k + ?h + length (take ?n data)) (take ?m (log_bytes log (record_items recycle ?off False (drop ?n data))))"
        using r2(2) by (simp only: more if_True)
      have "?m < length (log_bytes log (record_items recycle ?off False (drop ?n data)))"
        using 1(8) bytes len False more \<open>\<not> m < ?k\<close> by (simp only: if_True length_append length_replicate) linarith
      then have "\<exists>r'. ReadRecord_loop mode (\<not> False) (acc @ take ?n data) y r2 = Some (False, [], r') \<and> same_setup r2 r'"
        by (intro 1(1) [OF refl refl more r2' _ pos]) (use off log r2(3) in \<open>simp_all add: same_setup_def\<close>)
      then show ?thesis using y same_setup_trans [OF same_setup_trans [OF r1(2) r2(3)]] by auto
    qed
  qed
qed

section \<open>Whole logs\<close>

fun AddRecords :: "slice list \<Rightarrow> LogWriter \<Rightarrow> (Status \<times> LogWriter) run" where
  "AddRecords [] w = returns (OK, w)"
| "AddRecords (x # xs) w = run_then (AddRecord x w) (\<lambda>(s, w). if s = OK then AddRecords xs w else returns (s, w))"

text \<open>The loop of a recovery: it reads until \<open>ReadRecord\<close> returns false.\<close>

partial_function (option) ReadAll :: "WALRecoveryMode \<Rightarrow> LogReader \<Rightarrow> (slice list \<times> LogReader) option" where
  [code]: "ReadAll mode r =
     (case ReadRecord mode r of
        None \<Rightarrow> None
      | Some (ok, rec, r) \<Rightarrow>
          if \<not> ok then Some ([], r)
          else Option.bind (ReadAll mode r) (\<lambda>(recs, r). Some (rec # recs, r)))"

definition log_after :: "bool \<Rightarrow> bool \<Rightarrow> u64 \<Rightarrow> slice list \<Rightarrow> slice" where
  "log_after recycle manual log recs =
     (case AddRecords recs (LogWriter_new \<lparr>wf_data = [], wf_outcomes = []\<rparr> log recycle manual) of
        Some (Inr (OK, w)) \<Rightarrow> wf_data (lw_dest w) | _ \<Rightarrow> [])"

abbreviation written :: "LogWriter \<Rightarrow> slice" where
  "written w \<equiv> wf_data (lw_dest w)"

lemma AddRecord_ok:
  assumes "writer_ok w" and "wf_outcomes (lw_dest w) = []"
  shows "\<exists>w'. AddRecord x w = returns (OK, w') \<and> writer_ok w' \<and> wf_outcomes (lw_dest w') = []
    \<and> lw_log_number w' = lw_log_number w \<and> recycle_log_files w' = recycle_log_files w
    \<and> written w' = written w @ log_bytes (lw_log_number w) (record_items (recycle_log_files w) (block_offset w) True x)"
  using AddRecord_loop_ok [OF assms] by (simp add: AddRecord_def)

lemma AddRecords_ok:
  assumes "writer_ok w" and "wf_outcomes (lw_dest w) = []"
  shows "\<exists>w' T. AddRecords xs w = returns (OK, w') \<and> written w' = written w @ T"
  using assms
proof (induction xs arbitrary: w)
  case (Cons x xs)
  obtain w1 where w1: "AddRecord x w = returns (OK, w1)" "writer_ok w1" "wf_outcomes (lw_dest w1) = []"
      "written w1 = written w @ log_bytes (lw_log_number w) (record_items (recycle_log_files w) (block_offset w) True x)"
    using AddRecord_ok [OF Cons.prems] by blast
  then show ?case using Cons.IH [OF w1(2,3)] by auto
qed simp

lemma reader_end: "reader_at r pos [] \<Longrightarrow> ends_log r"
proof -
  assume "reader_at r pos []"
  then obtain r1 where r1: "ReadPhysicalRecord r = ReadPhysicalRecord r1" "loaded r1 pos []" "same_setup r r1"
    using loaded_start by blast
  moreover have "pos mod kBlockSize < kBlockSize" by (simp add: kBlockSize_def)
  ultimately have "ends_log r1" using read_short [OF r1(2)] by (simp add: loaded_def kHeaderSize_def)
  then show ?thesis using r1(1) same_setup_trans [OF r1(3)] by (auto simp: ends_log_def)
qed

text \<open>The records a recovery reads one after the other, with nothing reported on the way.\<close>

inductive log_reads :: "WALRecoveryMode \<Rightarrow> LogReader \<Rightarrow> slice list \<Rightarrow> LogReader \<Rightarrow> bool" for mode where
  log_reads_end: "ReadRecord mode r = Some (False, x, r') \<Longrightarrow> same_setup r r' \<Longrightarrow> log_reads mode r [] r'"
| log_reads_record: "ReadRecord mode r = Some (True, x, r1) \<Longrightarrow> same_setup r r1 \<Longrightarrow> log_reads mode r1 xs r' \<Longrightarrow> log_reads mode r (x # xs) r'"

lemma log_reads_ReadAll: "log_reads mode r xs r' \<Longrightarrow> ReadAll mode r = Some (xs, r') \<and> same_setup r r'"
proof (induction rule: log_reads.induct)
  case (log_reads_end r x r')
  then show ?case by (simp add: ReadAll.simps [of mode r])
next
  case (log_reads_record r x r1 xs r')
  then show ?case using same_setup_trans by (auto simp: ReadAll.simps [of mode r])
qed

lemma log_reads_none:
  assumes "ends_log r" and "mode \<noteq> kAbsoluteConsistency"
  shows "\<exists>r'. log_reads mode r [] r'"
  using ReadRecord_loop_ends [OF assms, of False "[]" 0] unfolding ReadRecord_def [symmetric] by (blast intro: log_reads_end)

lemma log_reads_written:
  assumes "writer_ok w" and "wf_outcomes (lw_dest w) = []" and "AddRecords xs w = returns (OK, w')"
    and "reader_at r (length (written w)) (take n (drop (length (written w)) (written w')))"
    and "recycle_log_files w \<longrightarrow> lr_log_number r = lw_log_number w \<and> lw_log_number w < 2 ^ 32" and mode: "mode \<noteq> kAbsoluteConsistency"
  shows "\<exists>k r'. log_reads mode r (take k xs) r' \<and> k \<le> length xs
    \<and> (\<forall>i \<le> length xs. \<forall>wi. AddRecords (take i xs) w = returns (OK, wi) \<longrightarrow> (i \<le> k \<longleftrightarrow> length (written wi) \<le> length (written w) + n))"
  using assms(1-5)
proof (induction xs arbitrary: w r n)
  case Nil
  then have "ends_log r" using reader_end by simp
  then show ?case using log_reads_none [OF _ mode] by force
next
  case (Cons x xs)
  let ?items = "record_items (recycle_log_files w) (block_offset w) True x"
  let ?B = "log_bytes (lw_log_number w) ?items"
  obtain w1 where w1: "AddRecord x w = returns (OK, w1)" "writer_ok w1" "wf_outcomes (lw_dest w1) = []"
      "lw_log_number w1 = lw_log_number w" "recycle_log_files w1 = recycle_log_files w" "written w1 = written w @ ?B"
    using AddRecord_ok [OF Cons.prems(1,2)] by blast
  have rest: "AddRecords (x # ys) w = AddRecords ys w1" for ys using w1(1) by simp
  obtain T where T: "written w' = written w1 @ T" using AddRecords_ok [OF w1(2,3), of xs] Cons.prems(3) rest by auto
  have off: "block_offset w \<le> kBlockSize" "length (written w) mod kBlockSize = block_offset w mod kBlockSize"
    using Cons.prems(1) by (simp_all add: writer_ok_def)
  have S: "reader_at r (length (written w)) (take n (?B @ T))" using Cons.prems(4) T w1(6) by simp
  show ?case
  proof (cases "n < length ?B")
    case True
    then have "\<exists>r'. ReadRecord_loop mode (\<not> True) [] 0 r = Some (False, [], r') \<and> same_setup r r'"
      by (intro ReadRecord_loop_truncated [OF _ off _ _ Cons.prems(5) True mode]) (use S in simp_all)
    then have "\<exists>r'. log_reads mode r (take 0 (x # xs)) r'" by (simp flip: ReadRecord_def) (blast intro: log_reads_end)
    moreover have "i \<le> 0 \<longleftrightarrow> length (written wi) \<le> length (written w) + n" if ai: "AddRecords (take i (x # xs)) w = returns (OK, wi)" for i wi
    proof (cases i)
      case (Suc j)
      then obtain T' where "written wi = written w1 @ T'" using ai rest AddRecords_ok [OF w1(2,3), of "take j xs"] by auto
      then show ?thesis using Suc True w1(6) by simp
    qed (use ai in simp)
    ultimately show ?thesis by blast
  next
    case False
    then have S: "reader_at r (length (written w)) (?B @ take (n - length ?B) T)" using S by simp
    have "\<exists>r1. ReadRecord_loop mode (\<not> True) [] 0 r = Some (True, [] @ x, r1)
        \<and> reader_at r1 (length (written w) + length ?B) (take (n - length ?B) T) \<and> same_setup r r1"
      by (rule ReadRecord_loop_record [OF S off _ _ Cons.prems(5)]) simp_all
    then obtain r1 where r1: "ReadRecord mode r = Some (True, x, r1)" "reader_at r1 (length (written w1)) (take (n - length ?B) T)" "same_setup r r1"
      using w1(6) by (auto simp: ReadRecord_def)
    obtain k r' where k: "log_reads mode r1 (take k xs) r'" "k \<le> length xs"
        "\<forall>i \<le> length xs. \<forall>wi. AddRecords (take i xs) w1 = returns (OK, wi) \<longrightarrow> (i \<le> k \<longleftrightarrow> length (written wi) \<le> length (written w1) + (n - length ?B))"
      using Cons.IH [OF w1(2,3), of r1 "n - length ?B"] Cons.prems(3,5) rest r1(2,3) T w1(4,5) by (auto simp: same_setup_def)
    have "log_reads mode r (take (Suc k) (x # xs)) r'" using log_reads_record [OF r1(1,3) k(1)] by simp
    moreover have "i \<le> Suc k \<longleftrightarrow> length (written wi) \<le> length (written w) + n"
      if "i \<le> length (x # xs)" "AddRecords (take i (x # xs)) w = returns (OK, wi)" for i wi
    proof (cases i)
      case (Suc j)
      then have "j \<le> k \<longleftrightarrow> length (written wi) \<le> length (written w1) + (n - length ?B)" using that k(3) rest by simp
      then show ?thesis using Suc False w1(6) by simp
    qed (use that in simp)
    ultimately show ?thesis using k(2) by (intro exI [of _ "Suc k"] exI [of _ r']) auto
  qed
qed

section \<open>Termination\<close>

text \<open>What is ahead of a reader, and how many reads of the file can still succeed.\<close>

definition bytes_ahead :: "LogReader \<Rightarrow> nat" where
  "bytes_ahead r = length (lr_buffer r) + length (sf_rest (lr_file r))"

definition reads_left :: "LogReader \<Rightarrow> nat" where
  "reads_left r = length (sf_rest (lr_file r)) + (if lr_eof r \<or> read_error r then 0 else 1)"

lemma ReadMore_progress:
  assumes "\<not> retry_after_eof r" and "ReadMore r = (ok, d, t, r')"
  shows "\<not> retry_after_eof r'" and "if ok then reads_left r' < reads_left r \<and> bytes_ahead r' \<le> bytes_ahead r else t \<in> {kEof, kBadHeader}"
proof -
  have "kBlockSize > 0" by (simp add: kBlockSize_def)
  then show "\<not> retry_after_eof r'"
      "if ok then reads_left r' < reads_left r \<and> bytes_ahead r' \<le> bytes_ahead r else t \<in> {kEof, kBadHeader}"
    using assms by (auto simp: ReadMore_def sf_Read_def Let_def ReportDrop_def reads_left_def bytes_ahead_def split: if_splits)
qed

definition stops_reading :: "u32 \<Rightarrow> bool" where
  "stops_reading t \<longleftrightarrow> t \<in> {kEof, kBadHeader, kOldRecord}"

text \<open>A call of \<open>ReadPhysicalRecord\<close> on \<open>r\<close> returns, and either stops the reading or consumes bytes.\<close>

definition progresses :: "LogReader \<Rightarrow> (u32 \<times> slice \<times> nat \<times> LogReader) option \<Rightarrow> bool" where
  "progresses r m \<longleftrightarrow> (\<exists>t p d r'. m = Some (t, p, d, r') \<and> \<not> retry_after_eof r' \<and> (stops_reading t \<or> bytes_ahead r' < bytes_ahead r))"

lemma progresses_if: "progresses r a \<Longrightarrow> progresses r b \<Longrightarrow> progresses r (if c then a else b)"
  by simp

lemma progresses_mono: "progresses r' m \<Longrightarrow> bytes_ahead r' \<le> bytes_ahead r \<Longrightarrow> progresses r m"
  by (auto simp: progresses_def)

lemma finish_record_progresses:
  assumes "lr_buffer r \<noteq> []" and "\<not> retry_after_eof r" and "0 < h"
  shows "progresses r (Some (finish_record r h))"
  using assms by (auto simp: progresses_def finish_record_def Let_def bytes_ahead_def)

lemma ReadPhysicalRecord_returns: "\<not> retry_after_eof r \<Longrightarrow> progresses r (ReadPhysicalRecord r)"
proof (induction "reads_left r" arbitrary: r rule: less_induct)
  case less
  have more: "progresses r (case ReadMore r0 of (ok, d, t, r1) \<Rightarrow> if ok then ReadPhysicalRecord r1 else Some (t, [], d, r1))"
    if r0: "\<not> retry_after_eof r0" "reads_left r0 = reads_left r" "bytes_ahead r0 = bytes_ahead r" for r0
  proof -
    obtain ok d t r1 where m: "ReadMore r0 = (ok, d, t, r1)" by (metis prod.exhaust)
    note pr = ReadMore_progress [OF r0(1) m]
    show ?thesis
    proof (cases ok)
      case True
      then show ?thesis using less.hyps [of r1] pr r0(2,3) m by (auto intro: progresses_mono)
    next
      case False
      then show ?thesis using pr m by (auto simp: stops_reading_def progresses_def)
    qed
  qed
  show ?case
  proof (cases "length (lr_buffer r) < kHeaderSize")
    case True
    then show ?thesis using more [of r] less.prems by (subst ReadPhysicalRecord.simps) simp
  next
    case False
    then have ge: "kHeaderSize \<le> length (lr_buffer r)" and ne: "lr_buffer r \<noteq> []" by (auto simp: kHeaderSize_def)
    define rc where "rc \<longleftrightarrow> header_type (lr_buffer r) \<ge> kRecyclableFullType \<and> header_type (lr_buffer r) \<le> kRecyclableLastType"
    note parse = ReadPhysicalRecord_header [OF ge rc_def]
    let ?r = "mark_recycled rc r"
    have same: "reads_left ?r = reads_left r" "bytes_ahead ?r = bytes_ahead r" "\<not> retry_after_eof ?r"
      using less.prems by (simp_all add: reads_left_def bytes_ahead_def)
    have "0 < header_size_of rc" by (simp add: header_size_of_def log_sizes)
    then have "progresses r (Some (finish_record ?r (header_size_of rc)))"
      using finish_record_progresses [of ?r] progresses_mono [of ?r] ne same by simp
    moreover have "progresses r (Some (t, p, d, ?r\<lparr>lr_buffer := []\<rparr>))" "progresses r (Some (kOldRecord, p, d, ?r))" for t p d
      using ne less.prems by (auto simp: progresses_def bytes_ahead_def stops_reading_def)
    ultimately show ?thesis unfolding parse Let_def using more [OF same(3,1,2)] by (intro progresses_if)
  qed
qed

lemma bytes_ahead_report [simp]: "bytes_ahead (ReportCorruption n s r) = bytes_ahead r" "retry_after_eof (ReportCorruption n s r) = retry_after_eof r"
  by (simp_all add: bytes_ahead_def ReportCorruption_def ReportDrop_def)

lemma some_if: "\<exists>y. a = Some y \<Longrightarrow> \<exists>y. b = Some y \<Longrightarrow> \<exists>y. (if c then a else b) = Some y"
  by simp

lemma some_value: "\<exists>y. Some x = Some y"
  by simp

lemma ReadRecord_loop_returns:
  assumes "\<not> retry_after_eof r" and mode: "mode \<noteq> kSkipAnyCorruptedRecords"
  shows "\<exists>y. ReadRecord_loop mode f acc x r = Some y"
  using assms(1)
proof (induction "bytes_ahead r" arbitrary: f acc x r rule: less_induct)
  case less
  obtain t p d r1 where r1: "ReadPhysicalRecord r = Some (t, p, d, r1)" "\<not> retry_after_eof r1" "stops_reading t \<or> bytes_ahead r1 < bytes_ahead r"
    using ReadPhysicalRecord_returns [OF less.prems] unfolding progresses_def by blast
  have again: "\<exists>y. ReadRecord_loop mode f' acc' x' r' = Some y"
    if "bytes_ahead r' = bytes_ahead r1" "retry_after_eof r' = retry_after_eof r1" "\<not> stops_reading t" for f' acc' x' r'
    using less.hyps [of r'] that r1(2,3) by simp
  show ?case
  proof (cases "stops_reading t")
    case True
    then show ?thesis
      unfolding ReadRecord_loop.simps [of mode f acc x r] Let_def r1(1) option.case case_prod_conv
      using mode by (auto simp: stops_reading_def record_types read_codes)
  next
    case False
    then show ?thesis
      unfolding ReadRecord_loop.simps [of mode f acc x r] Let_def r1(1) option.case case_prod_conv
      by (intro some_if some_value again) simp_all
  qed
qed

section \<open>Records of another log\<close>

text \<open>The buffer starts with a recyclable fragment whose tag is not the number of the reader.\<close>

definition at_old_record :: "LogReader \<Rightarrow> bool" where
  "at_old_record r \<longleftrightarrow> kRecyclableHeaderSize \<le> length (lr_buffer r)
     \<and> header_type (lr_buffer r) \<ge> kRecyclableFullType \<and> header_type (lr_buffer r) \<le> kRecyclableLastType
     \<and> ucast (DecodeFixed32 kLittleEndian (drop 7 (lr_buffer r))) \<noteq> lr_log_number r"

lemma ReadPhysicalRecord_old:
  assumes "at_old_record r"
  shows "ReadPhysicalRecord r = Some (kOldRecord, [], 0, mark_recycled True r)" and "at_old_record (mark_recycled True r)"
proof -
  have "kHeaderSize \<le> length (lr_buffer r)" using assms by (simp add: at_old_record_def log_sizes)
  moreover have "True \<longleftrightarrow> header_type (lr_buffer r) \<ge> kRecyclableFullType \<and> header_type (lr_buffer r) \<le> kRecyclableLastType"
    using assms by (simp add: at_old_record_def)
  ultimately show "ReadPhysicalRecord r = Some (kOldRecord, [], 0, mark_recycled True r)"
    using ReadPhysicalRecord_header [of r True] assms by (simp add: at_old_record_def)
  show "at_old_record (mark_recycled True r)" using assms by (simp add: at_old_record_def)
qed

lemma at_old_record_report: "at_old_record (ReportCorruption n s r) = at_old_record r"
  by (simp add: at_old_record_def ReportCorruption_def ReportDrop_def)

text \<open>In the mode that skips corrupted records the loop does not move on from such a fragment.\<close>

lemma ReadRecord_loop_stuck:
  assumes "ReadRecord_loop mode f acc x r = Some y"
  shows "\<not> (mode = kSkipAnyCorruptedRecords \<and> at_old_record r)"
  using assms
proof (induction rule: ReadRecord_loop.raw_induct [rotated, consumes 1])
  case (1 loop mode f acc x r y)
  show ?case
  proof
    assume a: "mode = kSkipAnyCorruptedRecords \<and> at_old_record r"
    note old = ReadPhysicalRecord_old [OF conjunct2 [OF a]]
    have "loop mode f' acc' x' r' \<noteq> Some y" if "at_old_record r'" for f' acc' x' r'
      using 1(1) [of mode f' acc' x' r'] a that by (cases y) blast
    then show False
      using 1(2) old a at_old_record_report by (auto simp: Let_def record_types read_codes split: if_splits)
  qed
qed

text \<open>Records that fit the current block take their header and their bytes.\<close>

lemma AddRecords_short:
  assumes "writer_ok w" and "wf_outcomes (lw_dest w) = []"
    and "block_offset w + sum_list (map (\<lambda>x. header_size_of (recycle_log_files w) + length x) xs) < kBlockSize"
  shows "\<exists>w'. AddRecords xs w = returns (OK, w')
    \<and> length (written w') = length (written w) + sum_list (map (\<lambda>x. header_size_of (recycle_log_files w) + length x) xs)"
  using assms
proof (induction xs arbitrary: w)
  case (Cons x xs)
  let ?rc = "recycle_log_files w"
  obtain w1 where w1: "AddRecord x w = returns (OK, w1)" "writer_ok w1" "wf_outcomes (lw_dest w1) = []" "recycle_log_files w1 = ?rc"
      "written w1 = written w @ log_bytes (lw_log_number w) (record_items ?rc (block_offset w) True x)"
    using AddRecord_ok [OF Cons.prems(1,2)] by blast
  have "record_items ?rc (block_offset w) True x = [Fragment (fragment_type ?rc True True) x]"
    using Cons.prems(3) by (subst record_items.simps) (simp add: fragment_room_def start_offset_def)
  then have len: "length (written w1) = length (written w) + header_size_of ?rc + length x"
    using w1(5) by (simp add: physical_record_length)
  have "block_offset w1 mod kBlockSize = (block_offset w + header_size_of ?rc + length x) mod kBlockSize"
    using len w1(2) Cons.prems(1) by (metis (no_types, opaque_lifting) add.assoc mod_add_left_eq writer_ok_def)
  then have "block_offset w1 mod kBlockSize = block_offset w + header_size_of ?rc + length x" using Cons.prems(3) by simp
  moreover have "block_offset w1 \<le> kBlockSize" using w1(2) by (simp add: writer_ok_def)
  moreover have "0 < header_size_of ?rc" using header_size_bounds(1) [of ?rc] by simp
  ultimately have "block_offset w1 = block_offset w + header_size_of ?rc + length x" by (cases "block_offset w1 = kBlockSize") auto
  then show ?case using Cons.IH [OF w1(2,3)] w1(1,4) len Cons.prems(3) by auto
qed simp

lemma log_after_short:
  assumes "sum_list (map (\<lambda>x. header_size_of recycle + length x) recs) < kBlockSize"
  shows "length (log_after recycle manual log recs) = sum_list (map (\<lambda>x. header_size_of recycle + length x) recs)"
  using AddRecords_short [of "LogWriter_new \<lparr>wf_data = [], wf_outcomes = []\<rparr> log recycle manual" recs] assms
  by (auto simp: log_after_def LogWriter_new_def writer_ok_def)

section \<open>Properties\<close>

text \<open>C12: a log survives a crash at any point. Whatever records are written, in whatever mode of the writer, if the file is cut off
  after any number of bytes then a recovery returns exactly the records that were completely written before, in order,
  and reports nothing; with the whole file it returns all records. The log number has to fit its 32 bits if log files
  are recycled, and the recovery does not ask for absolute consistency.\<close>

theorem log_survives_truncation:
  "mode \<noteq> kAbsoluteConsistency \<and> (recycle \<longrightarrow> log < 2 ^ 32) \<Longrightarrow>
   (\<exists>w. AddRecords recs (LogWriter_new \<lparr>wf_data = [], wf_outcomes = []\<rparr> log recycle manual) = returns (OK, w)
      \<and> wf_data (lw_dest w) = log_after recycle manual log recs) \<and>
   (\<exists>k r. ReadAll mode (LogReader_new \<lparr>sf_rest = take n (log_after recycle manual log recs), sf_status = OK\<rparr> check log False) = Some (take k recs, r)
     \<and> lr_reports r = [] \<and> k \<le> length recs
     \<and> (\<forall>i \<le> length recs. i \<le> k \<longleftrightarrow> length (log_after recycle manual log (take i recs)) \<le> n))"
proof -
  let ?w = "LogWriter_new \<lparr>wf_data = [], wf_outcomes = []\<rparr> log recycle manual"
  let ?r = "LogReader_new \<lparr>sf_rest = take n (log_after recycle manual log recs), sf_status = OK\<rparr> check log False"
  assume *: "mode \<noteq> kAbsoluteConsistency \<and> (recycle \<longrightarrow> log < 2 ^ 32)"
  have w: "writer_ok ?w" "wf_outcomes (lw_dest ?w) = []" "written ?w = []" by (simp_all add: writer_ok_def LogWriter_new_def)
  have after: "\<exists>w'. AddRecords xs ?w = returns (OK, w') \<and> log_after recycle manual log xs = written w'" for xs
    using AddRecords_ok [OF w(1,2), of xs] by (auto simp: log_after_def)
  obtain w' where w': "AddRecords recs ?w = returns (OK, w')" "log_after recycle manual log recs = written w'" using after by blast
  have "reader_at ?r (length (written ?w)) (take n (drop (length (written ?w)) (written w')))"
    using w'(2) w(3) by (simp add: reader_at_def LogReader_new_def)
  moreover have "recycle_log_files ?w \<longrightarrow> lr_log_number ?r = lw_log_number ?w \<and> lw_log_number ?w < 2 ^ 32"
    using * by (simp add: LogWriter_new_def LogReader_new_def)
  ultimately obtain k r where r: "log_reads mode ?r (take k recs) r" and k: "k \<le> length recs"
      "\<forall>i \<le> length recs. \<forall>wi. AddRecords (take i recs) ?w = returns (OK, wi) \<longrightarrow> (i \<le> k \<longleftrightarrow> length (written wi) \<le> length (written ?w) + n)"
    using log_reads_written [OF w(1,2) w'(1)] * by blast
  have "\<forall>i \<le> length recs. i \<le> k \<longleftrightarrow> length (log_after recycle manual log (take i recs)) \<le> n"
    using k(2) after w(3) by (metis add_0 list.size(3))
  moreover have "ReadAll mode ?r = Some (take k recs, r)" "lr_reports r = []"
    using log_reads_ReadAll [OF r] by (simp_all add: same_setup_def LogReader_new_def)
  ultimately show ?thesis using k(1) w' by metis
qed

theorem log_survives_truncation_witness:
  "\<exists>r. ReadAll kTolerateCorruptedTailRecords
     (LogReader_new \<lparr>sf_rest = take 20 (log_after True False 7 [[1, 2, 3], [4]]), sf_status = OK\<rparr> True 7 False) = Some ([[1, 2, 3]], r)"
proof -
  have l: "length (log_after True False 7 [[1, 2, 3], [4]]) = 26" "length (log_after True False 7 [[1, 2, 3]]) = 14"
    by (subst log_after_short; simp add: header_size_of_def log_sizes)+
  obtain k r where k: "ReadAll kTolerateCorruptedTailRecords
      (LogReader_new \<lparr>sf_rest = take 20 (log_after True False 7 [[1, 2, 3], [4]]), sf_status = OK\<rparr> True 7 False) = Some (take k [[1, 2, 3], [4]], r)"
    "\<forall>i \<le> length [[1, 2, 3], [4 :: byte]]. i \<le> k \<longleftrightarrow> length (log_after True False 7 (take i [[1, 2, 3], [4]])) \<le> 20"
    using log_survives_truncation [of kTolerateCorruptedTailRecords True 7 "[[1, 2, 3], [4]]" False 20 True] by auto
  have "k = 1" using spec [OF k(2), of 1] spec [OF k(2), of 2] l by (simp add: numeral_2_eq_2)
  then show ?thesis using k(1) by auto
qed

text \<open>C22: reading a record ends. On a file with any contents, in every mode but the one that skips corrupted records,
  \<open>ReadRecord\<close> returns, whether checksums are checked or not, unless the reader was told to wait at the end of the file.\<close>

theorem ReadRecord_returns:
  "\<not> retry_after_eof r \<and> mode \<noteq> kSkipAnyCorruptedRecords \<Longrightarrow> \<exists>ok record r'. ReadRecord mode r = Some (ok, record, r')"
  using ReadRecord_loop_returns [of r mode False "[]" 0] unfolding ReadRecord_def by auto

theorem ReadRecord_returns_witness:
  "\<exists>ok record r'. ReadRecord kPointInTimeRecovery (LogReader_new \<lparr>sf_rest = [0, 0, 0, 0, 200, 0, 13, 1, 2], sf_status = OK\<rparr> True 3 False) = Some (ok, record, r')"
  using ReadRecord_returns [of "LogReader_new \<lparr>sf_rest = [0, 0, 0, 0, 200, 0, 13, 1, 2], sf_status = OK\<rparr> True 3 False" kPointInTimeRecovery]
  by (simp add: LogReader_new_def)

text \<open>C37: a fragment of another log ends the reading or hangs it. If the next fragment is recyclable and its 32-bit tag differs from the
  64-bit log number of the reader, \<open>ReadRecord\<close> returns false in every mode but one, and in the mode that skips corrupted
  records it does not return. The tag also differs for the reader's own log if its number does not fit 32 bits.\<close>

theorem old_record_stops_or_hangs:
  "reader_at r pos (physical_record log (fragment_type True b e) p @ S) \<and> pos mod kBlockSize + 11 + length p \<le> kBlockSize
     \<and> (lr_log_number r \<noteq> ucast (ucast log :: u32) \<or> lr_log_number r = log \<and> 2 ^ 32 \<le> log) \<Longrightarrow>
   (if mode = kSkipAnyCorruptedRecords then ReadRecord mode r = None
    else \<exists>r'. ReadRecord mode r = Some (False, [], r') \<and> lr_reports r' = lr_reports r)"
proof -
  let ?t = "fragment_type True b e"
  let ?P = "physical_record log ?t p"
  assume *: "reader_at r pos (?P @ S) \<and> pos mod kBlockSize + 11 + length p \<le> kBlockSize
     \<and> (lr_log_number r \<noteq> ucast (ucast log :: u32) \<or> lr_log_number r = log \<and> 2 ^ 32 \<le> log)"
  obtain r1 where r1: "ReadPhysicalRecord r = ReadPhysicalRecord r1" "loaded r1 pos (?P @ S)" "same_setup r r1"
    using loaded_start * by blast
  have plen: "length ?P = 11 + length p" by (simp add: physical_record_length header_size_of_def log_sizes)
  obtain q where q: "lr_buffer r1 = ?P @ q"
    using r1(2) plen * by (auto simp: loaded_def reader_at_def in_block_def)
  have n: "length p < 2 ^ 16" using * by (simp add: kBlockSize_def)
  note hd = record_header [where recycle = True and b = b and e = e and log = log and q = q, OF refl n]
  have "ucast (ucast log :: u32) < (2 ^ 32 :: u64)" 
    using take_bit_nat_less_exp [of 32 "unat log"] by (simp add: word_less_nat_alt unsigned_ucast_eq unsigned_take_bit_eq)
  then have "lr_log_number r \<noteq> ucast (ucast log :: u32)" using * by auto
  moreover have "\<not> ?t < kRecyclableFullType" using fragment_type_recyclable [of True b e] by auto
  ultimately have "at_old_record r1"
    using r1(3) fragment_type_recyclable [of True b e] plen unfolding at_old_record_def q hd(2,4)
    by (simp add: record_tag_def same_setup_def kRecyclableHeaderSize_def)
  note old = ReadPhysicalRecord_old [OF this]
  show ?thesis
  proof (cases "mode = kSkipAnyCorruptedRecords")
    case True
    have "ReadRecord_loop mode False [] 0 r = ReadRecord_loop mode False [] 0 (mark_recycled True r1)"
      unfolding ReadRecord_loop.simps [of mode False "[]" 0 r] Let_def r1(1) old(1) option.case case_prod_conv
      using True by (simp add: record_types read_codes)
    then have "ReadRecord_loop mode False [] 0 r = None"
      using ReadRecord_loop_stuck [of mode False "[]" 0 "mark_recycled True r1"] old(2) True by (metis not_None_eq)
    then show ?thesis using True by (simp add: ReadRecord_def)
  next
    case False
    have "ReadRecord_loop mode False [] 0 r = Some (False, [], mark_recycled True r1)"
      unfolding ReadRecord_loop.simps [of mode False "[]" 0 r] Let_def r1(1) old(1) option.case case_prod_conv
      using False by (simp add: record_types read_codes)
    then show ?thesis using False r1(3) by (simp add: ReadRecord_def same_setup_def)
  qed
qed

theorem old_record_stops_or_hangs_witness:
  "ReadRecord kSkipAnyCorruptedRecords
     (LogReader_new \<lparr>sf_rest = physical_record 5 (fragment_type True True True) [1, 2], sf_status = OK\<rparr> True 6 False) = None"
  using old_record_stops_or_hangs [of "LogReader_new \<lparr>sf_rest = physical_record 5 (fragment_type True True True) [1, 2], sf_status = OK\<rparr> True 6 False"
      0 5 True True "[1, 2]" "[]" kSkipAnyCorruptedRecords]
  by (simp add: reader_at_def LogReader_new_def kBlockSize_def)

end
