(* ===== verification/WriteBatches.thy ===== *)
theory WriteBatches
  imports DBFormat
begin

text \<open>
  Write batches (\<open>include/rocksdb/write_batch.h\<close>, \<open>db/write_batch.cc\<close>, \<open>db/write_batch_internal.h\<close>): the updates of one write as
  the bytes that go to the log, with a header of sequence number and count, save points, a limit on the size, and \<open>Iterate\<close>,
  which decodes the bytes and calls a handler for every record.

  A batch is a record of its fields; the stack of save points is a list with the top first. An \<open>int\<close> is the 32-bit word that holds it. A
  handler is a record of its virtual functions on a state of its own. Operations that write into the header need its twelve
  bytes and fail with a fault without them; failed assertions are faults as well.
\<close>

section \<open>Tags and flags\<close>

definition kTypeLogData :: ValueType where "kTypeLogData = 0x3"
definition kTypeColumnFamilyDeletion :: ValueType where "kTypeColumnFamilyDeletion = 0x4"
definition kTypeColumnFamilyValue :: ValueType where "kTypeColumnFamilyValue = 0x5"
definition kTypeColumnFamilyMerge :: ValueType where "kTypeColumnFamilyMerge = 0x6"
definition kTypeColumnFamilySingleDeletion :: ValueType where "kTypeColumnFamilySingleDeletion = 0x8"
definition kTypeBeginPrepareXID :: ValueType where "kTypeBeginPrepareXID = 0x9"
definition kTypeEndPrepareXID :: ValueType where "kTypeEndPrepareXID = 0xA"
definition kTypeCommitXID :: ValueType where "kTypeCommitXID = 0xB"
definition kTypeRollbackXID :: ValueType where "kTypeRollbackXID = 0xC"
definition kTypeNoop :: ValueType where "kTypeNoop = 0xD"
definition kTypeColumnFamilyRangeDeletion :: ValueType where "kTypeColumnFamilyRangeDeletion = 0xE"
definition kTypeColumnFamilyBlobIndex :: ValueType where "kTypeColumnFamilyBlobIndex = 0x10"
definition kTypeBeginPersistedPrepareXID :: ValueType where "kTypeBeginPersistedPrepareXID = 0x12"
definition kTypeBeginUnprepareXID :: ValueType where "kTypeBeginUnprepareXID = 0x13"

lemmas batch_tags = kType_defs
  kTypeLogData_def kTypeColumnFamilyDeletion_def kTypeColumnFamilyValue_def kTypeColumnFamilyMerge_def
  kTypeColumnFamilySingleDeletion_def kTypeBeginPrepareXID_def kTypeEndPrepareXID_def kTypeCommitXID_def kTypeRollbackXID_def
  kTypeNoop_def kTypeColumnFamilyRangeDeletion_def kTypeColumnFamilyBlobIndex_def kTypeBeginPersistedPrepareXID_def
  kTypeBeginUnprepareXID_def

definition DEFERRED :: u32 where "DEFERRED = push_bit 0 1"
definition HAS_PUT :: u32 where "HAS_PUT = push_bit 1 1"
definition HAS_DELETE :: u32 where "HAS_DELETE = push_bit 2 1"
definition HAS_SINGLE_DELETE :: u32 where "HAS_SINGLE_DELETE = push_bit 3 1"
definition HAS_MERGE :: u32 where "HAS_MERGE = push_bit 4 1"
definition HAS_BEGIN_PREPARE :: u32 where "HAS_BEGIN_PREPARE = push_bit 5 1"
definition HAS_END_PREPARE :: u32 where "HAS_END_PREPARE = push_bit 6 1"
definition HAS_COMMIT :: u32 where "HAS_COMMIT = push_bit 7 1"
definition HAS_ROLLBACK :: u32 where "HAS_ROLLBACK = push_bit 8 1"
definition HAS_DELETE_RANGE :: u32 where "HAS_DELETE_RANGE = push_bit 9 1"
definition HAS_BLOB_INDEX :: u32 where "HAS_BLOB_INDEX = push_bit 10 1"
definition HAS_BEGIN_UNPREPARE :: u32 where "HAS_BEGIN_UNPREPARE = push_bit 11 1"

lemmas content_flag_defs =
  DEFERRED_def HAS_PUT_def HAS_DELETE_def HAS_SINGLE_DELETE_def HAS_MERGE_def HAS_BEGIN_PREPARE_def HAS_END_PREPARE_def
  HAS_COMMIT_def HAS_ROLLBACK_def HAS_DELETE_RANGE_def HAS_BLOB_INDEX_def HAS_BEGIN_UNPREPARE_def

section \<open>The batch\<close>

record SavePoint =
  sp_size :: nat
  sp_count :: u32
  sp_content_flags :: u32

definition SavePoint_cleared :: SavePoint where
  "SavePoint_cleared = \<lparr>sp_size = 0, sp_count = 0, sp_content_flags = 0\<rparr>"

definition is_cleared :: "SavePoint \<Rightarrow> bool" where
  "is_cleared p \<longleftrightarrow> sp_size p = 0 \<and> sp_count p = 0 \<and> sp_content_flags p = 0"

record WriteBatch =
  wb_rep :: slice
  save_points :: "SavePoint list"
  wal_term_point :: SavePoint
  content_flags :: u32
  wb_max_bytes :: nat
  is_latest_persistent_state :: bool

definition kHeader :: nat where "kHeader = 12"

definition WriteBatch_new :: "nat \<Rightarrow> WriteBatch" where
  "WriteBatch_new max_bytes =
     \<lparr>wb_rep = replicate kHeader 0, save_points = [], wal_term_point = SavePoint_cleared, content_flags = 0, wb_max_bytes = max_bytes,
      is_latest_persistent_state = False\<rparr>"

definition WriteBatch_of :: "slice \<Rightarrow> WriteBatch" where
  "WriteBatch_of r =
     \<lparr>wb_rep = r, save_points = [], wal_term_point = SavePoint_cleared, content_flags = DEFERRED, wb_max_bytes = 0,
      is_latest_persistent_state = False\<rparr>"

definition WriteBatch_Clear :: "WriteBatch \<Rightarrow> WriteBatch" where
  "WriteBatch_Clear b =
     b\<lparr>wb_rep := replicate kHeader 0, content_flags := 0, save_points := [], wal_term_point := SavePoint_cleared\<rparr>"

definition WB_Count :: "WriteBatch \<Rightarrow> u32" where
  "WB_Count b = DecodeFixed32 kLittleEndian (drop 8 (wb_rep b))"

definition WB_SetCount :: "u32 \<Rightarrow> WriteBatch \<Rightarrow> WriteBatch" where
  "WB_SetCount n b = b\<lparr>wb_rep := take 8 (wb_rep b) @ EncodeFixed32 kLittleEndian n @ drop kHeader (wb_rep b)\<rparr>"

definition WB_Sequence :: "WriteBatch \<Rightarrow> u64" where
  "WB_Sequence b = DecodeFixed64 kLittleEndian (wb_rep b)"

definition WB_SetSequence :: "u64 \<Rightarrow> WriteBatch \<Rightarrow> WriteBatch" where
  "WB_SetSequence seq b = b\<lparr>wb_rep := EncodeFixed64 kLittleEndian seq @ drop 8 (wb_rep b)\<rparr>"

text \<open>A guard for the count in the header, which the code reads and writes without a check.\<close>

definition current_point :: "WriteBatch \<Rightarrow> SavePoint result" where
  "current_point b =
     (if length (wb_rep b) < kHeader then Inl OutOfBounds
      else Inr \<lparr>sp_size = length (wb_rep b), sp_count = WB_Count b, sp_content_flags = content_flags b\<rparr>)"

definition MarkWalTerminationPoint :: "WriteBatch \<Rightarrow> WriteBatch result" where
  "MarkWalTerminationPoint b = and_then (current_point b) (\<lambda>p. Inr (b\<lparr>wal_term_point := p\<rparr>))"

text \<open>\<open>LocalSavePoint\<close>: an operation that makes the batch larger than its limit is undone.\<close>

definition LocalSavePoint_commit :: "SavePoint \<Rightarrow> WriteBatch \<Rightarrow> Status \<times> WriteBatch" where
  "LocalSavePoint_commit p b =
     (if wb_max_bytes b \<noteq> 0 \<and> length (wb_rep b) > wb_max_bytes b
      then (MemoryLimit, (WB_SetCount (sp_count p) (b\<lparr>wb_rep := take (sp_size p) (wb_rep b)\<rparr>))\<lparr>content_flags := sp_content_flags p\<rparr>)
      else (OK, b))"

text \<open>The tag of a record, with the column family if it is not the default one.\<close>

definition put_tag :: "u32 \<Rightarrow> ValueType \<Rightarrow> ValueType \<Rightarrow> slice \<Rightarrow> slice" where
  "put_tag cf t cft r = (if cf = 0 then r @ [t] else PutVarint32 (r @ [cft]) cf)"

definition add_flags :: "u32 \<Rightarrow> WriteBatch \<Rightarrow> WriteBatch" where
  "add_flags f b = b\<lparr>content_flags := content_flags b OR f\<rparr>"

section \<open>Adding records\<close>

definition WB_Put :: "u32 \<Rightarrow> slice \<Rightarrow> slice \<Rightarrow> WriteBatch \<Rightarrow> (Status \<times> WriteBatch) result" where
  "WB_Put cf key v b =
     (if int (length key) > 0xffffffff then Inr (InvalidArgument ''key is too large'', b)
      else if int (length v) > 0xffffffff then Inr (InvalidArgument ''value is too large'', b)
      else and_then (current_point b) (\<lambda>save.
        let b = WB_SetCount (WB_Count b + 1) b;
            r = put_tag cf kTypeValue kTypeColumnFamilyValue (wb_rep b);
            r = PutLengthPrefixedSlice (PutLengthPrefixedSlice r key) v
        in Inr (LocalSavePoint_commit save (add_flags HAS_PUT (b\<lparr>wb_rep := r\<rparr>)))))"

definition CheckSlicePartsLength :: "slice list \<Rightarrow> slice list \<Rightarrow> Status" where
  "CheckSlicePartsLength key v =
     (if int (sum_list (map length key)) \<ge> 0xffffffff then InvalidArgument ''key is too large''
      else if int (sum_list (map length v)) \<ge> 0xffffffff then InvalidArgument ''value is too large''
      else OK)"

definition WB_PutParts :: "u32 \<Rightarrow> slice list \<Rightarrow> slice list \<Rightarrow> WriteBatch \<Rightarrow> (Status \<times> WriteBatch) result" where
  "WB_PutParts cf key v b =
     (let s = CheckSlicePartsLength key v
      in if s \<noteq> OK then Inr (s, b)
         else and_then (current_point b) (\<lambda>save.
           let b = WB_SetCount (WB_Count b + 1) b;
               r = put_tag cf kTypeValue kTypeColumnFamilyValue (wb_rep b);
               r = PutLengthPrefixedSliceParts (PutLengthPrefixedSliceParts r key) v
           in Inr (LocalSavePoint_commit save (add_flags HAS_PUT (b\<lparr>wb_rep := r\<rparr>)))))"

definition WB_InsertNoop :: "WriteBatch \<Rightarrow> (Status \<times> WriteBatch) result" where
  "WB_InsertNoop b = Inr (OK, b\<lparr>wb_rep := wb_rep b @ [kTypeNoop]\<rparr>)"

definition WB_MarkEndPrepare :: "slice \<Rightarrow> bool \<Rightarrow> bool \<Rightarrow> WriteBatch \<Rightarrow> (Status \<times> WriteBatch) result" where
  "WB_MarkEndPrepare xid write_after_commit unprepared_batch b =
     (if length (wb_rep b) < kHeader then Inl OutOfBounds
      else if byte_at (wb_rep b) 12 \<noteq> kTypeNoop then Inl AssertFailed
      else
        let t = (if write_after_commit then kTypeBeginPrepareXID
                 else if unprepared_batch then kTypeBeginUnprepareXID else kTypeBeginPersistedPrepareXID);
            r = PutLengthPrefixedSlice ((wb_rep b)[12 := t] @ [kTypeEndPrepareXID]) xid;
            b = add_flags (HAS_END_PREPARE OR HAS_BEGIN_PREPARE) (b\<lparr>save_points := [], wb_rep := r\<rparr>)
        in Inr (OK, if unprepared_batch then add_flags HAS_BEGIN_UNPREPARE b else b))"

definition WB_MarkCommit :: "slice \<Rightarrow> WriteBatch \<Rightarrow> (Status \<times> WriteBatch) result" where
  "WB_MarkCommit xid b =
     Inr (OK, add_flags HAS_COMMIT (b\<lparr>wb_rep := PutLengthPrefixedSlice (wb_rep b @ [kTypeCommitXID]) xid\<rparr>))"

definition WB_MarkRollback :: "slice \<Rightarrow> WriteBatch \<Rightarrow> (Status \<times> WriteBatch) result" where
  "WB_MarkRollback xid b =
     Inr (OK, add_flags HAS_ROLLBACK (b\<lparr>wb_rep := PutLengthPrefixedSlice (wb_rep b @ [kTypeRollbackXID]) xid\<rparr>))"

definition WB_Delete :: "u32 \<Rightarrow> slice \<Rightarrow> WriteBatch \<Rightarrow> (Status \<times> WriteBatch) result" where
  "WB_Delete cf key b =
     and_then (current_point b) (\<lambda>save.
       let b = WB_SetCount (WB_Count b + 1) b;
           r = PutLengthPrefixedSlice (put_tag cf kTypeDeletion kTypeColumnFamilyDeletion (wb_rep b)) key
       in Inr (LocalSavePoint_commit save (add_flags HAS_DELETE (b\<lparr>wb_rep := r\<rparr>))))"

definition WB_DeleteParts :: "u32 \<Rightarrow> slice list \<Rightarrow> WriteBatch \<Rightarrow> (Status \<times> WriteBatch) result" where
  "WB_DeleteParts cf key b =
     and_then (current_point b) (\<lambda>save.
       let b = WB_SetCount (WB_Count b + 1) b;
           r = PutLengthPrefixedSliceParts (put_tag cf kTypeDeletion kTypeColumnFamilyDeletion (wb_rep b)) key
       in Inr (LocalSavePoint_commit save (add_flags HAS_DELETE (b\<lparr>wb_rep := r\<rparr>))))"

definition WB_SingleDelete :: "u32 \<Rightarrow> slice \<Rightarrow> WriteBatch \<Rightarrow> (Status \<times> WriteBatch) result" where
  "WB_SingleDelete cf key b =
     and_then (current_point b) (\<lambda>save.
       let b = WB_SetCount (WB_Count b + 1) b;
           r = PutLengthPrefixedSlice (put_tag cf kTypeSingleDeletion kTypeColumnFamilySingleDeletion (wb_rep b)) key
       in Inr (LocalSavePoint_commit save (add_flags HAS_SINGLE_DELETE (b\<lparr>wb_rep := r\<rparr>))))"

definition WB_SingleDeleteParts :: "u32 \<Rightarrow> slice list \<Rightarrow> WriteBatch \<Rightarrow> (Status \<times> WriteBatch) result" where
  "WB_SingleDeleteParts cf key b =
     and_then (current_point b) (\<lambda>save.
       let b = WB_SetCount (WB_Count b + 1) b;
           r = PutLengthPrefixedSliceParts (put_tag cf kTypeSingleDeletion kTypeColumnFamilySingleDeletion (wb_rep b)) key
       in Inr (LocalSavePoint_commit save (add_flags HAS_SINGLE_DELETE (b\<lparr>wb_rep := r\<rparr>))))"

definition WB_DeleteRange :: "u32 \<Rightarrow> slice \<Rightarrow> slice \<Rightarrow> WriteBatch \<Rightarrow> (Status \<times> WriteBatch) result" where
  "WB_DeleteRange cf begin_key end_key b =
     and_then (current_point b) (\<lambda>save.
       let b = WB_SetCount (WB_Count b + 1) b;
           r = put_tag cf kTypeRangeDeletion kTypeColumnFamilyRangeDeletion (wb_rep b);
           r = PutLengthPrefixedSlice (PutLengthPrefixedSlice r begin_key) end_key
       in Inr (LocalSavePoint_commit save (add_flags HAS_DELETE_RANGE (b\<lparr>wb_rep := r\<rparr>))))"

definition WB_DeleteRangeParts :: "u32 \<Rightarrow> slice list \<Rightarrow> slice list \<Rightarrow> WriteBatch \<Rightarrow> (Status \<times> WriteBatch) result" where
  "WB_DeleteRangeParts cf begin_key end_key b =
     and_then (current_point b) (\<lambda>save.
       let b = WB_SetCount (WB_Count b + 1) b;
           r = put_tag cf kTypeRangeDeletion kTypeColumnFamilyRangeDeletion (wb_rep b);
           r = PutLengthPrefixedSliceParts (PutLengthPrefixedSliceParts r begin_key) end_key
       in Inr (LocalSavePoint_commit save (add_flags HAS_DELETE_RANGE (b\<lparr>wb_rep := r\<rparr>))))"

definition WB_Merge :: "u32 \<Rightarrow> slice \<Rightarrow> slice \<Rightarrow> WriteBatch \<Rightarrow> (Status \<times> WriteBatch) result" where
  "WB_Merge cf key v b =
     (if int (length key) > 0xffffffff then Inr (InvalidArgument ''key is too large'', b)
      else if int (length v) > 0xffffffff then Inr (InvalidArgument ''value is too large'', b)
      else and_then (current_point b) (\<lambda>save.
        let b = WB_SetCount (WB_Count b + 1) b;
            r = put_tag cf kTypeMerge kTypeColumnFamilyMerge (wb_rep b);
            r = PutLengthPrefixedSlice (PutLengthPrefixedSlice r key) v
        in Inr (LocalSavePoint_commit save (add_flags HAS_MERGE (b\<lparr>wb_rep := r\<rparr>)))))"

definition WB_MergeParts :: "u32 \<Rightarrow> slice list \<Rightarrow> slice list \<Rightarrow> WriteBatch \<Rightarrow> (Status \<times> WriteBatch) result" where
  "WB_MergeParts cf key v b =
     (let s = CheckSlicePartsLength key v
      in if s \<noteq> OK then Inr (s, b)
         else and_then (current_point b) (\<lambda>save.
           let b = WB_SetCount (WB_Count b + 1) b;
               r = put_tag cf kTypeMerge kTypeColumnFamilyMerge (wb_rep b);
               r = PutLengthPrefixedSliceParts (PutLengthPrefixedSliceParts r key) v
           in Inr (LocalSavePoint_commit save (add_flags HAS_MERGE (b\<lparr>wb_rep := r\<rparr>)))))"

definition WB_PutBlobIndex :: "u32 \<Rightarrow> slice \<Rightarrow> slice \<Rightarrow> WriteBatch \<Rightarrow> (Status \<times> WriteBatch) result" where
  "WB_PutBlobIndex cf key v b =
     and_then (current_point b) (\<lambda>save.
       let b = WB_SetCount (WB_Count b + 1) b;
           r = put_tag cf kTypeBlobIndex kTypeColumnFamilyBlobIndex (wb_rep b);
           r = PutLengthPrefixedSlice (PutLengthPrefixedSlice r key) v
       in Inr (LocalSavePoint_commit save (add_flags HAS_BLOB_INDEX (b\<lparr>wb_rep := r\<rparr>))))"

definition PutLogData :: "slice \<Rightarrow> WriteBatch \<Rightarrow> (Status \<times> WriteBatch) result" where
  "PutLogData blob b =
     and_then (current_point b) (\<lambda>save.
       Inr (LocalSavePoint_commit save (b\<lparr>wb_rep := PutLengthPrefixedSlice (wb_rep b @ [kTypeLogData]) blob\<rparr>)))"

section \<open>Save points and whole batches\<close>

definition SetSavePoint :: "WriteBatch \<Rightarrow> WriteBatch result" where
  "SetSavePoint b = and_then (current_point b) (\<lambda>p. Inr (b\<lparr>save_points := p # save_points b\<rparr>))"

definition RollbackToSavePoint :: "WriteBatch \<Rightarrow> (Status \<times> WriteBatch) result" where
  "RollbackToSavePoint b =
     (case save_points b of
        [] \<Rightarrow> Inr (NotFound, b)
      | p # ps \<Rightarrow>
          let b = b\<lparr>save_points := ps\<rparr>
          in if sp_size p > length (wb_rep b) then Inl AssertFailed
             else if length (wb_rep b) < kHeader then Inl OutOfBounds
             else if sint (sp_count p) > sint (WB_Count b) then Inl AssertFailed
             else if sp_size p = length (wb_rep b) then Inr (OK, b)
             else if sp_size p = 0 then Inr (OK, WriteBatch_Clear b)
             else Inr (OK, (WB_SetCount (sp_count p) (b\<lparr>wb_rep := take (sp_size p) (wb_rep b)\<rparr>))\<lparr>content_flags := sp_content_flags p\<rparr>))"

definition PopSavePoint :: "WriteBatch \<Rightarrow> Status \<times> WriteBatch" where
  "PopSavePoint b = (case save_points b of [] \<Rightarrow> (NotFound, b) | p # ps \<Rightarrow> (OK, b\<lparr>save_points := ps\<rparr>))"

definition SetContents :: "slice \<Rightarrow> WriteBatch \<Rightarrow> WriteBatch result" where
  "SetContents contents b =
     (if length contents < kHeader then Inl AssertFailed else Inr (b\<lparr>wb_rep := contents, content_flags := DEFERRED\<rparr>))"

definition WB_Append :: "WriteBatch \<Rightarrow> bool \<Rightarrow> WriteBatch \<Rightarrow> WriteBatch result" where
  "WB_Append src wal_only dst =
     (if length (wb_rep src) < kHeader \<or> length (wb_rep dst) < kHeader then Inl OutOfBounds
      else
        let batch_end = wal_term_point src;
            (src_len, src_count, src_flags) =
              (if wal_only \<and> \<not> is_cleared batch_end
               then (sp_size batch_end - kHeader, sp_count batch_end, sp_content_flags batch_end)
               else (length (wb_rep src) - kHeader, WB_Count src, content_flags src));
            dst = WB_SetCount (WB_Count dst + src_count) dst
        in Inr (add_flags src_flags (dst\<lparr>wb_rep := wb_rep dst @ take src_len (drop kHeader (wb_rep src))\<rparr>)))"

definition AppendedByteSize :: "nat \<Rightarrow> nat \<Rightarrow> nat" where
  "AppendedByteSize left right = (if left = 0 \<or> right = 0 then left + right else left + right - kHeader)"

section \<open>Reading records\<close>

definition ReadKeyFromWriteBatchEntry :: "slice \<Rightarrow> bool \<Rightarrow> (slice \<times> slice) option" where
  "ReadKeyFromWriteBatchEntry input cf_record =
     (let input = drop 1 input
      in if cf_record then (case GetVarint32 input of None \<Rightarrow> None | Some (cf, input) \<Rightarrow> GetLengthPrefixedSlice input)
         else GetLengthPrefixedSlice input)"

text \<open>What is read of a record: the tag and the arguments of the code; those the tag does not have are empty. The tag is the first byte of an
  input that is not empty.\<close>

record BatchEntry =
  be_tag :: ValueType
  be_column_family :: u32
  be_key :: slice
  be_value :: slice
  be_blob :: slice
  be_xid :: slice

definition get_family :: "bool \<Rightarrow> slice \<Rightarrow> (u32 \<times> slice) option" where
  "get_family cf_record input = (if cf_record then GetVarint32 input else Some (0, input))"

definition read_keyed :: "bool \<Rightarrow> bool \<Rightarrow> ValueType \<Rightarrow> string \<Rightarrow> slice \<Rightarrow> Status + BatchEntry \<times> slice" where
  "read_keyed cf_record with_value t msg input =
     (case get_family cf_record input of
        None \<Rightarrow> Inl (Corruption msg)
      | Some (cf, input) \<Rightarrow>
          (case GetLengthPrefixedSlice input of
             None \<Rightarrow> Inl (Corruption msg)
           | Some (key, input) \<Rightarrow>
               if with_value then
                 (case GetLengthPrefixedSlice input of
                    None \<Rightarrow> Inl (Corruption msg)
                  | Some (v, input) \<Rightarrow>
                      Inr (\<lparr>be_tag = t, be_column_family = cf, be_key = key, be_value = v, be_blob = [], be_xid = []\<rparr>, input))
               else Inr (\<lparr>be_tag = t, be_column_family = cf, be_key = key, be_value = [], be_blob = [], be_xid = []\<rparr>, input)))"

definition read_xid :: "ValueType \<Rightarrow> string \<Rightarrow> slice \<Rightarrow> Status + BatchEntry \<times> slice" where
  "read_xid t msg input =
     (case GetLengthPrefixedSlice input of
        None \<Rightarrow> Inl (Corruption msg)
      | Some (xid, input) \<Rightarrow> Inr (\<lparr>be_tag = t, be_column_family = 0, be_key = [], be_value = [], be_blob = [], be_xid = xid\<rparr>, input))"

definition ReadRecordFromWriteBatch :: "ValueType \<Rightarrow> slice \<Rightarrow> Status + BatchEntry \<times> slice" where
  "ReadRecordFromWriteBatch t input =
     (if t = kTypeColumnFamilyValue \<or> t = kTypeValue then
        read_keyed (t = kTypeColumnFamilyValue) True t ''bad WriteBatch Put'' input
      else if t = kTypeColumnFamilyDeletion \<or> t = kTypeColumnFamilySingleDeletion \<or> t = kTypeDeletion \<or> t = kTypeSingleDeletion then
        read_keyed (t = kTypeColumnFamilyDeletion \<or> t = kTypeColumnFamilySingleDeletion) False t ''bad WriteBatch Delete'' input
      else if t = kTypeColumnFamilyRangeDeletion \<or> t = kTypeRangeDeletion then
        read_keyed (t = kTypeColumnFamilyRangeDeletion) True t ''bad WriteBatch DeleteRange'' input
      else if t = kTypeColumnFamilyMerge \<or> t = kTypeMerge then
        read_keyed (t = kTypeColumnFamilyMerge) True t ''bad WriteBatch Merge'' input
      else if t = kTypeColumnFamilyBlobIndex \<or> t = kTypeBlobIndex then
        read_keyed (t = kTypeColumnFamilyBlobIndex) True t ''bad WriteBatch BlobIndex'' input
      else if t = kTypeLogData then
        (case GetLengthPrefixedSlice input of
           None \<Rightarrow> Inl (Corruption ''bad WriteBatch Blob'')
         | Some (blob, input) \<Rightarrow>
             Inr (\<lparr>be_tag = t, be_column_family = 0, be_key = [], be_value = [], be_blob = blob, be_xid = []\<rparr>, input))
      else if t = kTypeNoop \<or> t = kTypeBeginPrepareXID \<or> t = kTypeBeginPersistedPrepareXID \<or> t = kTypeBeginUnprepareXID then
        Inr (\<lparr>be_tag = t, be_column_family = 0, be_key = [], be_value = [], be_blob = [], be_xid = []\<rparr>, input)
      else if t = kTypeEndPrepareXID then read_xid t ''bad EndPrepare XID'' input
      else if t = kTypeCommitXID then read_xid t ''bad Commit XID'' input
      else if t = kTypeRollbackXID then read_xid t ''bad Rollback XID'' input
      else Inl (Corruption ''unknown WriteBatch tag''))"

section \<open>Iterating\<close>

record 's Handler =
  PutCF :: "u32 \<Rightarrow> slice \<Rightarrow> slice \<Rightarrow> 's \<Rightarrow> Status \<times> 's"
  DeleteCF :: "u32 \<Rightarrow> slice \<Rightarrow> 's \<Rightarrow> Status \<times> 's"
  SingleDeleteCF :: "u32 \<Rightarrow> slice \<Rightarrow> 's \<Rightarrow> Status \<times> 's"
  DeleteRangeCF :: "u32 \<Rightarrow> slice \<Rightarrow> slice \<Rightarrow> 's \<Rightarrow> Status \<times> 's"
  MergeCF :: "u32 \<Rightarrow> slice \<Rightarrow> slice \<Rightarrow> 's \<Rightarrow> Status \<times> 's"
  PutBlobIndexCF :: "u32 \<Rightarrow> slice \<Rightarrow> slice \<Rightarrow> 's \<Rightarrow> Status \<times> 's"
  LogData :: "slice \<Rightarrow> 's \<Rightarrow> 's"
  MarkBeginPrepare :: "bool \<Rightarrow> 's \<Rightarrow> Status \<times> 's"
  MarkEndPrepare :: "slice \<Rightarrow> 's \<Rightarrow> Status \<times> 's"
  MarkNoop :: "bool \<Rightarrow> 's \<Rightarrow> Status \<times> 's"
  MarkRollback :: "slice \<Rightarrow> 's \<Rightarrow> Status \<times> 's"
  MarkCommit :: "slice \<Rightarrow> 's \<Rightarrow> Status \<times> 's"
  Continue :: "'s \<Rightarrow> bool \<times> 's"
  WriteAfterCommit :: bool
  WriteBeforePrepare :: bool

text \<open>The progress of the loop: the status, whether the current sub-batch is empty, the number of counted records, the state of the
  handler.\<close>

type_synonym 's progress = "Status \<times> bool \<times> u32 \<times> 's"

text \<open>The six kinds of records that count: their callback can fail, and the assertion checks their flag.\<close>

definition counted_call :: "u32 \<Rightarrow> u32 \<Rightarrow> bool \<Rightarrow> Status \<times> 's \<Rightarrow> bool \<Rightarrow> u32 \<Rightarrow> 's progress result" where
  "counted_call flags f clears call empty_batch found =
     (if flags AND (DEFERRED OR f) = 0 then Inl AssertFailed
      else case call of (s, hs) \<Rightarrow>
        Inr (if s = OK then (s, if clears then False else empty_batch, found + 1, hs) else (s, empty_batch, found, hs)))"

text \<open>The records that mark parts of transactions: the status of the callback is not used.\<close>

definition marked_call :: "u32 \<Rightarrow> u32 \<Rightarrow> Status \<times> 's \<Rightarrow> Status \<Rightarrow> bool \<Rightarrow> u32 \<Rightarrow> 's progress result" where
  "marked_call flags f call s empty_batch found =
     (if flags AND (DEFERRED OR f) = 0 then Inl AssertFailed else Inr (s, empty_batch, found, snd call))"

definition committed_tag_off :: string where
  "committed_tag_off =
     ''WriteCommitted txn tag when write_after_commit_ is disabled (in WritePrepared/WriteUnprepared mode). If it is not due to corruption, the WAL must be emptied before changing the WritePolicy.''"

definition committed_tag_before :: string where
  "committed_tag_before =
     ''WriteCommitted txn tag when write_before_prepare_ is enabled (in WriteUnprepared mode). If it is not due to corruption, the WAL must be emptied before changing the WritePolicy.''"

definition prepared_tag_off :: string where
  "prepared_tag_off =
     ''WritePrepared/WriteUnprepared txn tag when write_after_commit_ is enabled (in default WriteCommitted mode). If it is not due to corruption, the WAL must be emptied before changing the WritePolicy.''"

definition unprepared_tag_off :: string where
  "unprepared_tag_off =
     ''WriteUnprepared txn tag when write_after_commit_ is enabled (in default WriteCommitted mode). If it is not due to corruption, the WAL must be emptied before changing the WritePolicy.''"

definition unprepared_tag_before :: string where
  "unprepared_tag_before =
     ''WriteUnprepared txn tag when write_before_prepare_ is disabled (in WriteCommitted/WritePrepared mode). If it is not due to corruption, the WAL must be emptied before changing the WritePolicy.''"

text \<open>The switch of the loop body; \<open>None\<close> for an unknown tag.\<close>

definition handle_record :: "'s Handler \<Rightarrow> u32 \<Rightarrow> BatchEntry \<Rightarrow> bool \<Rightarrow> u32 \<Rightarrow> 's \<Rightarrow> 's progress option result" where
  "handle_record h flags e empty_batch found hs =
     (let t = be_tag e; cf = be_column_family e; key = be_key e; v = be_value e;
          counted = (\<lambda>f clears call. and_then (counted_call flags f clears call empty_batch found) (\<lambda>p. Inr (Some p)));
          marked = (\<lambda>f call s now_empty. and_then (marked_call flags f call s now_empty found) (\<lambda>p. Inr (Some p)))
      in if t = kTypeColumnFamilyValue \<or> t = kTypeValue then counted HAS_PUT True (PutCF h cf key v hs)
         else if t = kTypeColumnFamilyDeletion \<or> t = kTypeDeletion then counted HAS_DELETE True (DeleteCF h cf key hs)
         else if t = kTypeColumnFamilySingleDeletion \<or> t = kTypeSingleDeletion
         then counted HAS_SINGLE_DELETE True (SingleDeleteCF h cf key hs)
         else if t = kTypeColumnFamilyRangeDeletion \<or> t = kTypeRangeDeletion
         then counted HAS_DELETE_RANGE True (DeleteRangeCF h cf key v hs)
         else if t = kTypeColumnFamilyMerge \<or> t = kTypeMerge then counted HAS_MERGE True (MergeCF h cf key v hs)
         else if t = kTypeColumnFamilyBlobIndex \<or> t = kTypeBlobIndex
         then counted HAS_BLOB_INDEX False (PutBlobIndexCF h cf key v hs)
         else if t = kTypeLogData then Inr (Some (OK, False, found, LogData h (be_blob e) hs))
         else if t = kTypeBeginPrepareXID then
           marked HAS_BEGIN_PREPARE (MarkBeginPrepare h False hs)
             (if WriteBeforePrepare h then NotSupported committed_tag_before
              else if \<not> WriteAfterCommit h then NotSupported committed_tag_off else OK) False
         else if t = kTypeBeginPersistedPrepareXID then
           marked HAS_BEGIN_PREPARE (MarkBeginPrepare h False hs)
             (if WriteAfterCommit h then NotSupported prepared_tag_off else OK) False
         else if t = kTypeBeginUnprepareXID then
           marked HAS_BEGIN_UNPREPARE (MarkBeginPrepare h True hs)
             (if \<not> WriteBeforePrepare h then NotSupported unprepared_tag_before
              else if WriteAfterCommit h then NotSupported unprepared_tag_off else OK) False
         else if t = kTypeEndPrepareXID then marked HAS_END_PREPARE (MarkEndPrepare h (be_xid e) hs) OK True
         else if t = kTypeCommitXID then marked HAS_COMMIT (MarkCommit h (be_xid e) hs) OK True
         else if t = kTypeRollbackXID then marked HAS_ROLLBACK (MarkRollback h (be_xid e) hs) OK True
         else if t = kTypeNoop then Inr (Some (OK, True, found, snd (MarkNoop h empty_batch hs)))
         else Inr None)"

text \<open>The loop: it reads a record or, after \<open>TryAgain\<close>, handles the last one once more. The result is the status, whether the
  handler went on to the end, the number of counted records, and the handler; or the status of an early return.\<close>

datatype 's iterate_end = EarlyReturn Status 's | LoopEnd Status bool u32 's

lemma read_keyed_shorter: "read_keyed c w t msg input = Inr (e, rest) \<Longrightarrow> length rest < length input"
  by (auto simp: read_keyed_def get_family_def split: option.splits if_splits
      dest!: varint32.get_shorter lprefixed.get_shorter)

lemma ReadRecord_shorter: "ReadRecordFromWriteBatch t input = Inr (e, rest) \<Longrightarrow> length rest \<le> length input"
  by (auto simp: ReadRecordFromWriteBatch_def read_xid_def split: if_splits option.splits
      dest!: read_keyed_shorter lprefixed.get_shorter)

function Iterate_loop ::
    "'s Handler \<Rightarrow> u32 \<Rightarrow> Status \<Rightarrow> slice \<Rightarrow> BatchEntry \<Rightarrow> bool \<Rightarrow> bool \<Rightarrow> u32 \<Rightarrow> 's \<Rightarrow> 's iterate_end result" where
  "Iterate_loop h flags s input e last_was_try_again empty_batch found hs =
     (if s = OK \<and> input \<noteq> [] \<or> s = TryAgain then
        case Continue h hs of (goes_on, hs) \<Rightarrow>
          if \<not> goes_on then Inr (LoopEnd s False found hs)
          else if s = TryAgain then
            if last_was_try_again then Inl AssertFailed
            else case handle_record h flags e empty_batch found hs of
              Inl f \<Rightarrow> Inl f
            | Inr None \<Rightarrow> Inr (EarlyReturn (Corruption ''unknown WriteBatch tag'') hs)
            | Inr (Some (s', empty_batch, found, hs)) \<Rightarrow> Iterate_loop h flags s' input e True empty_batch found hs
          else
            case ReadRecordFromWriteBatch (hd input) (tl input) of
              Inl s' \<Rightarrow> Inr (EarlyReturn s' hs)
            | Inr (e, input') \<Rightarrow>
                (case handle_record h flags e empty_batch found hs of
                   Inl f \<Rightarrow> Inl f
                 | Inr None \<Rightarrow> Inr (EarlyReturn (Corruption ''unknown WriteBatch tag'') hs)
                 | Inr (Some (s', empty_batch, found, hs)) \<Rightarrow> Iterate_loop h flags s' input' e False empty_batch found hs)
      else Inr (LoopEnd s True found hs))"
  by pat_completeness auto
termination
  by (relation "measure (\<lambda>(h, flags, s, input, e, last, empty_batch, found, hs).
        2 * length input + (if s = TryAgain \<and> \<not> last then 1 else 0))")
    (auto dest!: ReadRecord_shorter simp: neq_Nil_conv)

declare Iterate_loop.simps [simp del]

definition no_entry :: BatchEntry where
  "no_entry = \<lparr>be_tag = 0, be_column_family = 0, be_key = [], be_value = [], be_blob = [], be_xid = []\<rparr>"

definition Iterate :: "'s Handler \<Rightarrow> WriteBatch \<Rightarrow> 's \<Rightarrow> (Status \<times> 's) result" where
  "Iterate h b hs =
     (if length (wb_rep b) < kHeader then Inr (Corruption ''malformed WriteBatch (too small)'', hs)
      else
        case Iterate_loop h (content_flags b) OK (drop kHeader (wb_rep b)) no_entry False True 0 hs of
          Inl f \<Rightarrow> Inl f
        | Inr (EarlyReturn s hs) \<Rightarrow> Inr (s, hs)
        | Inr (LoopEnd s goes_on found hs) \<Rightarrow>
            Inr (if s \<noteq> OK then s
                 else if goes_on \<and> found \<noteq> WB_Count b then Corruption ''WriteBatch has wrong count''
                 else OK, hs))"

text \<open>\<open>BatchContentClassifier\<close>, which finds the kinds of records of a batch that was read from its bytes.\<close>

definition BatchContentClassifier :: "u32 Handler" where
  "BatchContentClassifier =
     \<lparr>PutCF = (\<lambda>cf key v fl. (OK, fl OR HAS_PUT)), DeleteCF = (\<lambda>cf key fl. (OK, fl OR HAS_DELETE)),
      SingleDeleteCF = (\<lambda>cf key fl. (OK, fl OR HAS_SINGLE_DELETE)), DeleteRangeCF = (\<lambda>cf key v fl. (OK, fl OR HAS_DELETE_RANGE)),
      MergeCF = (\<lambda>cf key v fl. (OK, fl OR HAS_MERGE)), PutBlobIndexCF = (\<lambda>cf key v fl. (OK, fl OR HAS_BLOB_INDEX)),
      LogData = (\<lambda>blob fl. fl),
      MarkBeginPrepare = (\<lambda>unprepare fl.
        (OK, if unprepare then (fl OR HAS_BEGIN_PREPARE) OR HAS_BEGIN_UNPREPARE else fl OR HAS_BEGIN_PREPARE)),
      MarkEndPrepare = (\<lambda>xid fl. (OK, fl OR HAS_END_PREPARE)),
      MarkNoop = (\<lambda>empty_batch fl. (InvalidArgument ''MarkNoop() handler not defined.'', fl)),
      MarkRollback = (\<lambda>xid fl. (OK, fl OR HAS_ROLLBACK)), MarkCommit = (\<lambda>xid fl. (OK, fl OR HAS_COMMIT)),
      Continue = (\<lambda>fl. (True, fl)), WriteAfterCommit = True, WriteBeforePrepare = False\<rparr>"

definition ComputeContentFlags :: "WriteBatch \<Rightarrow> (u32 \<times> WriteBatch) result" where
  "ComputeContentFlags b =
     (if content_flags b AND DEFERRED \<noteq> 0
      then and_then (Iterate BatchContentClassifier b 0) (\<lambda>(s, rv). Inr (rv, b\<lparr>content_flags := rv\<rparr>))
      else Inr (content_flags b, b))"

definition HasPut :: "WriteBatch \<Rightarrow> bool result" where
  "HasPut b = and_then (ComputeContentFlags b) (\<lambda>(fl, b). Inr (fl AND HAS_PUT \<noteq> 0))"

definition HasDelete :: "WriteBatch \<Rightarrow> bool result" where
  "HasDelete b = and_then (ComputeContentFlags b) (\<lambda>(fl, b). Inr (fl AND HAS_DELETE \<noteq> 0))"

definition HasMerge :: "WriteBatch \<Rightarrow> bool result" where
  "HasMerge b = and_then (ComputeContentFlags b) (\<lambda>(fl, b). Inr (fl AND HAS_MERGE \<noteq> 0))"

definition HasSingleDelete :: "WriteBatch \<Rightarrow> bool result" where
  "HasSingleDelete b = and_then (ComputeContentFlags b) (\<lambda>(fl, b). Inr (fl AND HAS_SINGLE_DELETE \<noteq> 0))"

definition HasDeleteRange :: "WriteBatch \<Rightarrow> bool result" where
  "HasDeleteRange b = and_then (ComputeContentFlags b) (\<lambda>(fl, b). Inr (fl AND HAS_DELETE_RANGE \<noteq> 0))"

definition HasBeginPrepare :: "WriteBatch \<Rightarrow> bool result" where
  "HasBeginPrepare b = and_then (ComputeContentFlags b) (\<lambda>(fl, b). Inr (fl AND HAS_BEGIN_PREPARE \<noteq> 0))"

definition HasEndPrepare :: "WriteBatch \<Rightarrow> bool result" where
  "HasEndPrepare b = and_then (ComputeContentFlags b) (\<lambda>(fl, b). Inr (fl AND HAS_END_PREPARE \<noteq> 0))"

definition HasCommit :: "WriteBatch \<Rightarrow> bool result" where
  "HasCommit b = and_then (ComputeContentFlags b) (\<lambda>(fl, b). Inr (fl AND HAS_COMMIT \<noteq> 0))"

definition HasRollback :: "WriteBatch \<Rightarrow> bool result" where
  "HasRollback b = and_then (ComputeContentFlags b) (\<lambda>(fl, b). Inr (fl AND HAS_ROLLBACK \<noteq> 0))"

section \<open>Batches as lists of records\<close>

datatype BatchRecord =
    RPut u32 slice slice | RDelete u32 slice | RSingleDelete u32 slice | RDeleteRange u32 slice slice | RMerge u32 slice slice
  | RBlobIndex u32 slice slice | RLogData slice | RBeginPrepare | RBeginPersistedPrepare | RBeginUnprepare
  | REndPrepare slice | RCommit slice | RRollback slice | RNoop

definition tag_bytes :: "u32 \<Rightarrow> ValueType \<Rightarrow> ValueType \<Rightarrow> slice" where
  "tag_bytes cf t cft = (if cf = 0 then [t] else cft # EncodeVarint32 cf)"

fun rec_bytes :: "BatchRecord \<Rightarrow> slice" where
  "rec_bytes (RPut cf k v) = tag_bytes cf kTypeValue kTypeColumnFamilyValue @ LengthPrefixed k @ LengthPrefixed v"
| "rec_bytes (RDelete cf k) = tag_bytes cf kTypeDeletion kTypeColumnFamilyDeletion @ LengthPrefixed k"
| "rec_bytes (RSingleDelete cf k) = tag_bytes cf kTypeSingleDeletion kTypeColumnFamilySingleDeletion @ LengthPrefixed k"
| "rec_bytes (RDeleteRange cf k v) = tag_bytes cf kTypeRangeDeletion kTypeColumnFamilyRangeDeletion @ LengthPrefixed k @ LengthPrefixed v"
| "rec_bytes (RMerge cf k v) = tag_bytes cf kTypeMerge kTypeColumnFamilyMerge @ LengthPrefixed k @ LengthPrefixed v"
| "rec_bytes (RBlobIndex cf k v) = tag_bytes cf kTypeBlobIndex kTypeColumnFamilyBlobIndex @ LengthPrefixed k @ LengthPrefixed v"
| "rec_bytes (RLogData x) = kTypeLogData # LengthPrefixed x"
| "rec_bytes RBeginPrepare = [kTypeBeginPrepareXID]"
| "rec_bytes RBeginPersistedPrepare = [kTypeBeginPersistedPrepareXID]"
| "rec_bytes RBeginUnprepare = [kTypeBeginUnprepareXID]"
| "rec_bytes (REndPrepare x) = kTypeEndPrepareXID # LengthPrefixed x"
| "rec_bytes (RCommit x) = kTypeCommitXID # LengthPrefixed x"
| "rec_bytes (RRollback x) = kTypeRollbackXID # LengthPrefixed x"
| "rec_bytes RNoop = [kTypeNoop]"

text \<open>A slice whose length fits the 32 bits of its prefix.\<close>

abbreviation short :: "slice \<Rightarrow> bool" where
  "short x \<equiv> length x < 2 ^ 32"

fun record_ok :: "BatchRecord \<Rightarrow> bool" where
  "record_ok (RPut cf k v) = (short k \<and> short v)"
| "record_ok (RDelete cf k) = short k"
| "record_ok (RSingleDelete cf k) = short k"
| "record_ok (RDeleteRange cf k v) = (short k \<and> short v)"
| "record_ok (RMerge cf k v) = (short k \<and> short v)"
| "record_ok (RBlobIndex cf k v) = (short k \<and> short v)"
| "record_ok (RLogData x) = short x"
| "record_ok (REndPrepare x) = short x"
| "record_ok (RCommit x) = short x"
| "record_ok (RRollback x) = short x"
| "record_ok _ = True"

fun counts :: "BatchRecord \<Rightarrow> bool" where
  "counts (RPut cf k v) = True"
| "counts (RDelete cf k) = True"
| "counts (RSingleDelete cf k) = True"
| "counts (RDeleteRange cf k v) = True"
| "counts (RMerge cf k v) = True"
| "counts (RBlobIndex cf k v) = True"
| "counts _ = False"

definition counted :: "BatchRecord list \<Rightarrow> nat" where
  "counted recs = length (filter counts recs)"

fun record_flags :: "BatchRecord \<Rightarrow> u32" where
  "record_flags (RPut cf k v) = HAS_PUT"
| "record_flags (RDelete cf k) = HAS_DELETE"
| "record_flags (RSingleDelete cf k) = HAS_SINGLE_DELETE"
| "record_flags (RDeleteRange cf k v) = HAS_DELETE_RANGE"
| "record_flags (RMerge cf k v) = HAS_MERGE"
| "record_flags (RBlobIndex cf k v) = HAS_BLOB_INDEX"
| "record_flags (REndPrepare x) = HAS_END_PREPARE"
| "record_flags (RCommit x) = HAS_COMMIT"
| "record_flags (RRollback x) = HAS_ROLLBACK"
| "record_flags RBeginPrepare = HAS_BEGIN_PREPARE"
| "record_flags RBeginPersistedPrepare = HAS_BEGIN_PREPARE"
| "record_flags RBeginUnprepare = HAS_BEGIN_PREPARE OR HAS_BEGIN_UNPREPARE"
| "record_flags _ = 0"

definition flags_of :: "BatchRecord list \<Rightarrow> u32" where
  "flags_of recs = foldr (\<lambda>r fl. record_flags r OR fl) recs 0"

lemma flags_of_simps [simp]:
  "flags_of [] = 0" "flags_of (r # recs) = record_flags r OR flags_of recs"
  "flags_of (xs @ ys) = flags_of xs OR flags_of ys"
proof -
  show "flags_of (xs @ ys) = flags_of xs OR flags_of ys"
    by (induction xs) (simp_all add: flags_of_def or.assoc)
qed (simp_all add: flags_of_def)

text \<open>What a handler is told about a record: the status of the call, whether the sub-batch is empty after it, and the handler.\<close>

fun deliver :: "'s Handler \<Rightarrow> BatchRecord \<Rightarrow> bool \<Rightarrow> 's \<Rightarrow> Status \<times> bool \<times> 's" where
  "deliver h (RPut cf k v) em hs = (case PutCF h cf k v hs of (s, hs) \<Rightarrow> (s, em \<and> s \<noteq> OK, hs))"
| "deliver h (RDelete cf k) em hs = (case DeleteCF h cf k hs of (s, hs) \<Rightarrow> (s, em \<and> s \<noteq> OK, hs))"
| "deliver h (RSingleDelete cf k) em hs = (case SingleDeleteCF h cf k hs of (s, hs) \<Rightarrow> (s, em \<and> s \<noteq> OK, hs))"
| "deliver h (RDeleteRange cf k v) em hs = (case DeleteRangeCF h cf k v hs of (s, hs) \<Rightarrow> (s, em \<and> s \<noteq> OK, hs))"
| "deliver h (RMerge cf k v) em hs = (case MergeCF h cf k v hs of (s, hs) \<Rightarrow> (s, em \<and> s \<noteq> OK, hs))"
| "deliver h (RBlobIndex cf k v) em hs = (case PutBlobIndexCF h cf k v hs of (s, hs) \<Rightarrow> (s, em, hs))"
| "deliver h (RLogData x) em hs = (OK, False, LogData h x hs)"
| "deliver h RBeginPrepare em hs =
     (if WriteBeforePrepare h then NotSupported committed_tag_before
      else if \<not> WriteAfterCommit h then NotSupported committed_tag_off else OK, False, snd (MarkBeginPrepare h False hs))"
| "deliver h RBeginPersistedPrepare em hs =
     (if WriteAfterCommit h then NotSupported prepared_tag_off else OK, False, snd (MarkBeginPrepare h False hs))"
| "deliver h RBeginUnprepare em hs =
     (if \<not> WriteBeforePrepare h then NotSupported unprepared_tag_before
      else if WriteAfterCommit h then NotSupported unprepared_tag_off else OK, False, snd (MarkBeginPrepare h True hs))"
| "deliver h (REndPrepare x) em hs = (OK, True, snd (MarkEndPrepare h x hs))"
| "deliver h (RCommit x) em hs = (OK, True, snd (MarkCommit h x hs))"
| "deliver h (RRollback x) em hs = (OK, True, snd (MarkRollback h x hs))"
| "deliver h RNoop em hs = (OK, True, snd (MarkNoop h em hs))"

text \<open>A handler gets the records in order, up to the first for which it returns an error.\<close>

fun replay :: "'s Handler \<Rightarrow> BatchRecord list \<Rightarrow> bool \<Rightarrow> 's \<Rightarrow> Status \<times> 's" where
  "replay h [] em hs = (OK, hs)"
| "replay h (r # recs) em hs =
     (case deliver h r em hs of (s, em, hs) \<Rightarrow> if s = OK then replay h recs em hs else (s, hs))"

section \<open>Reading back what was encoded\<close>

fun entry_of :: "BatchRecord \<Rightarrow> BatchEntry" where
  "entry_of (RPut cf k v) = no_entry\<lparr>be_tag := (if cf = 0 then kTypeValue else kTypeColumnFamilyValue), be_column_family := cf, be_key := k, be_value := v\<rparr>"
| "entry_of (RDelete cf k) = no_entry\<lparr>be_tag := (if cf = 0 then kTypeDeletion else kTypeColumnFamilyDeletion), be_column_family := cf, be_key := k\<rparr>"
| "entry_of (RSingleDelete cf k) =
     no_entry\<lparr>be_tag := (if cf = 0 then kTypeSingleDeletion else kTypeColumnFamilySingleDeletion), be_column_family := cf, be_key := k\<rparr>"
| "entry_of (RDeleteRange cf k v) =
     no_entry\<lparr>be_tag := (if cf = 0 then kTypeRangeDeletion else kTypeColumnFamilyRangeDeletion), be_column_family := cf, be_key := k, be_value := v\<rparr>"
| "entry_of (RMerge cf k v) = no_entry\<lparr>be_tag := (if cf = 0 then kTypeMerge else kTypeColumnFamilyMerge), be_column_family := cf, be_key := k, be_value := v\<rparr>"
| "entry_of (RBlobIndex cf k v) =
     no_entry\<lparr>be_tag := (if cf = 0 then kTypeBlobIndex else kTypeColumnFamilyBlobIndex), be_column_family := cf, be_key := k, be_value := v\<rparr>"
| "entry_of (RLogData x) = no_entry\<lparr>be_tag := kTypeLogData, be_blob := x\<rparr>"
| "entry_of RBeginPrepare = no_entry\<lparr>be_tag := kTypeBeginPrepareXID\<rparr>"
| "entry_of RBeginPersistedPrepare = no_entry\<lparr>be_tag := kTypeBeginPersistedPrepareXID\<rparr>"
| "entry_of RBeginUnprepare = no_entry\<lparr>be_tag := kTypeBeginUnprepareXID\<rparr>"
| "entry_of (REndPrepare x) = no_entry\<lparr>be_tag := kTypeEndPrepareXID, be_xid := x\<rparr>"
| "entry_of (RCommit x) = no_entry\<lparr>be_tag := kTypeCommitXID, be_xid := x\<rparr>"
| "entry_of (RRollback x) = no_entry\<lparr>be_tag := kTypeRollbackXID, be_xid := x\<rparr>"
| "entry_of RNoop = no_entry\<lparr>be_tag := kTypeNoop\<rparr>"

lemma read_rec_bytes:
  assumes "record_ok r"
  shows "ReadRecordFromWriteBatch (hd (rec_bytes r)) (tl (rec_bytes r) @ rest) = Inr (entry_of r, rest)"
  using assms
  by (cases r) (simp_all add: ReadRecordFromWriteBatch_def batch_tags tag_bytes_def read_keyed_def get_family_def read_xid_def
      no_entry_def codec_simps)

lemma rec_bytes_nonempty [simp]: "rec_bytes r \<noteq> []"
  by (cases r) (simp_all add: tag_bytes_def)

text \<open>Flags under which the assertions of \<open>Iterate\<close> hold: deferred ones, or those with the given bits.\<close>

definition allows :: "u32 \<Rightarrow> u32 \<Rightarrow> bool" where
  "allows flags fl \<longleftrightarrow> bit flags 0 \<or> (\<forall>n. bit fl n \<longrightarrow> bit flags n)"

lemma allows_or: "allows flags (x OR y) \<longleftrightarrow> allows flags x \<and> allows flags y"
  by (auto simp: allows_def bit_or_iff)

lemma handle_entry:
  assumes "allows flags (record_flags r)"
  shows "handle_record h flags (entry_of r) em found hs =
    (case deliver h r em hs of (s, em', hs') \<Rightarrow> Inr (Some (s, em', if counts r \<and> s = OK then found + 1 else found, hs')))"
proof -
  have pos: "flags AND (DEFERRED OR push_bit n 1) \<noteq> 0" if "bit flags 0 \<or> bit flags n" "n < 32" for n
  proof -
    have "bit (flags AND (DEFERRED OR push_bit n 1)) 0 \<or> bit (flags AND (DEFERRED OR push_bit n 1)) n"
      using that by (auto simp: bit_simps DEFERRED_def)
    then show ?thesis by auto
  qed
  have "bit (record_flags r) n \<Longrightarrow> flags AND (DEFERRED OR push_bit n 1) \<noteq> 0" if "n < 32" for n
    using pos [OF _ that] assms by (auto simp: allows_def)
  from this [of 1] this [of 2] this [of 3] this [of 4] this [of 5] this [of 6] this [of 7] this [of 8] this [of 9] this [of 10] this [of 11]
  show ?thesis
    by (cases r) (auto simp: handle_record_def no_entry_def batch_tags counted_call_def marked_call_def content_flag_defs bit_simps
        split: prod.splits)
qed

section \<open>Handlers\<close>

text \<open>A handler that goes on to the end and never asks for a second call.\<close>

locale batch_handler =
  fixes h :: "'s Handler"
  assumes goes_on: "Continue h hs = (True, hs)"
    and no_retry: "fst (deliver h r em hs) \<noteq> TryAgain"
begin

lemma Iterate_loop_records:
  assumes "list_all record_ok recs" and "allows flags (flags_of recs)" and "replay h recs em hs = (s, hs')"
  shows "\<exists>found' e' la' em'. Iterate_loop h flags OK (concat (map rec_bytes recs) @ rest) e la em found hs =
    (if s = OK then Iterate_loop h flags OK rest e' la' em' (found + of_nat (counted recs)) hs' else Inr (LoopEnd s True found' hs'))"
  using assms
proof (induction recs arbitrary: e la em found hs)
  case Nil
  then show ?case by (auto simp: counted_def)
next
  case (Cons r recs)
  obtain s1 em1 hs1 where d: "deliver h r em hs = (s1, em1, hs1)" by (cases "deliver h r em hs")
  have nt: "s1 \<noteq> TryAgain" using no_retry [of r em hs] d by simp
  let ?rest = "concat (map rec_bytes recs) @ rest"
  have read: "ReadRecordFromWriteBatch (hd (rec_bytes r)) (tl (rec_bytes r) @ ?rest) = Inr (entry_of r, ?rest)"
    using read_rec_bytes [of r ?rest] Cons.prems(1) by simp
  have handle: "handle_record h flags (entry_of r) em found hs = Inr (Some (s1, em1, if counts r \<and> s1 = OK then found + 1 else found, hs1))"
    using handle_entry [of flags r h em found hs] Cons.prems(2) d by (simp add: allows_or)
  have step: "Iterate_loop h flags OK (rec_bytes r @ ?rest) e la em found hs
      = Iterate_loop h flags s1 ?rest (entry_of r) False em1 (if counts r \<and> s1 = OK then found + 1 else found) hs1"
    by (subst Iterate_loop.simps) (simp add: goes_on read handle)
  show ?case
  proof (cases "s1 = OK")
    case True
    then show ?thesis
      using Cons.IH [of em1 hs1 "entry_of r" False "if counts r then found + 1 else found"] Cons.prems d step
      by (auto simp: counted_def allows_or add.assoc) blast+
  next
    case False
    then show ?thesis using Cons.prems(3) d step nt by (auto simp: Iterate_loop.simps)
  qed
qed

lemma Iterate_loop_replay:
  assumes "list_all record_ok recs" and "allows flags (flags_of recs)" and "replay h recs em hs = (s, hs')"
  shows "\<exists>found'. Iterate_loop h flags OK (concat (map rec_bytes recs)) e la em found hs = Inr (LoopEnd s True found' hs')
    \<and> (s = OK \<longrightarrow> found' = found + of_nat (counted recs))"
  using Iterate_loop_records [OF assms, of "[]" e la found] by (cases "s = OK") (auto simp: Iterate_loop.simps)

end

interpretation classifier: batch_handler BatchContentClassifier
proof
  show "fst (deliver BatchContentClassifier r em hs) \<noteq> TryAgain" for r em hs
    by (cases r) (simp_all add: BatchContentClassifier_def)
qed (simp add: BatchContentClassifier_def)

text \<open>A batch that holds a list of records, with a stack of save points, each at a number of records.\<close>

definition batch_bytes :: "u64 \<Rightarrow> BatchRecord list \<Rightarrow> slice" where
  "batch_bytes seq recs =
     EncodeFixed64 kLittleEndian seq @ EncodeFixed32 kLittleEndian (of_nat (counted recs)) @ concat (map rec_bytes recs)"

definition point_at :: "BatchRecord list \<Rightarrow> nat \<Rightarrow> SavePoint" where
  "point_at recs k =
     \<lparr>sp_size = kHeader + length (concat (map rec_bytes (take k recs))), sp_count = of_nat (counted (take k recs)),
      sp_content_flags = flags_of (take k recs)\<rparr>"

definition holds :: "BatchRecord list \<Rightarrow> nat list \<Rightarrow> WriteBatch \<Rightarrow> bool" where
  "holds recs ks b \<longleftrightarrow> (\<exists>seq. wb_rep b = batch_bytes seq recs) \<and> content_flags b = flags_of recs \<and> list_all record_ok recs
     \<and> save_points b = map (point_at recs) ks \<and> sorted_wrt (\<ge>) ks \<and> (\<forall>k \<in> set ks. k \<le> length recs)"

lemma batch_bytes_length: "length (batch_bytes seq recs) = kHeader + length (concat (map rec_bytes recs))"
  by (simp add: batch_bytes_def kHeader_def)

lemma drop_batch_bytes: "drop kHeader (batch_bytes seq recs) = concat (map rec_bytes recs)"
  by (simp add: batch_bytes_def kHeader_def)

lemma batch_bytes_Count: "wb_rep b = batch_bytes seq recs \<Longrightarrow> WB_Count b = of_nat (counted recs)"
  by (simp add: WB_Count_def batch_bytes_def DecodeFixed32_EncodeFixed32)

lemma batch_bytes_SetCount:
  "wb_rep b = batch_bytes seq recs \<Longrightarrow>
   WB_SetCount n b = b\<lparr>wb_rep := EncodeFixed64 kLittleEndian seq @ EncodeFixed32 kLittleEndian n @ concat (map rec_bytes recs)\<rparr>"
  by (simp add: WB_SetCount_def batch_bytes_def kHeader_def)

lemma holds_new: "holds [] [] (WriteBatch_new m)"
proof -
  have "replicate kHeader 0 = batch_bytes 0 []" by (simp add: batch_bytes_def kHeader_def counted_def) code_simp
  then show ?thesis by (auto simp: holds_def WriteBatch_new_def)
qed

lemma Iterate_holds:
  assumes "batch_handler h" and "list_all record_ok recs" and "wb_rep b = batch_bytes seq recs"
    and "allows (content_flags b) (flags_of recs)"
  shows "Iterate h b hs = Inr (replay h recs True hs)"
proof -
  obtain s hs' where r: "replay h recs True hs = (s, hs')" by (cases "replay h recs True hs")
  from batch_handler.Iterate_loop_replay [OF assms(1,2) assms(4) r, where e = no_entry and la = False and found = 0] obtain found where
    "Iterate_loop h (content_flags b) OK (concat (map rec_bytes recs)) no_entry False True 0 hs = Inr (LoopEnd s True found hs')"
    "s = OK \<longrightarrow> found = of_nat (counted recs)" by auto
  then show ?thesis
    using r assms(3) batch_bytes_Count [OF assms(3)] by (simp add: Iterate_def batch_bytes_length drop_batch_bytes)
qed

section \<open>Operations on records\<close>

text \<open>A batch as a list of records and the save points as numbers of records. An operation that exceeds the limit or has a key or
  value that is too large changes nothing.\<close>

datatype batch_op =
    Add BatchRecord | PutParts u32 "slice list" "slice list" | DeleteParts u32 "slice list" | SingleDeleteParts u32 "slice list"
  | DeleteRangeParts u32 "slice list" "slice list" | MergeParts u32 "slice list" "slice list"
  | EndPrepare slice BatchRecord | Save | RollBack | PopSave | ClearAll | Renumber u64

fun too_large :: "BatchRecord \<Rightarrow> Status" where
  "too_large (RPut cf k v) =
     (if \<not> short k then InvalidArgument ''key is too large'' else if \<not> short v then InvalidArgument ''value is too large'' else OK)"
| "too_large (RMerge cf k v) =
     (if \<not> short k then InvalidArgument ''key is too large'' else if \<not> short v then InvalidArgument ''value is too large'' else OK)"
| "too_large _ = OK"

fun limited :: "BatchRecord \<Rightarrow> bool" where
  "limited RNoop = False"
| "limited (RCommit x) = False"
| "limited (RRollback x) = False"
| "limited _ = True"

type_synonym record_state = "BatchRecord list \<times> nat list"

definition add_rec :: "nat \<Rightarrow> BatchRecord \<Rightarrow> record_state \<Rightarrow> Status \<times> record_state" where
  "add_rec m r a =
     (if too_large r \<noteq> OK then (too_large r, a)
      else if limited r \<and> m \<noteq> 0 \<and> kHeader + length (concat (map rec_bytes (fst a @ [r]))) > m then (MemoryLimit, a)
      else (OK, fst a @ [r], snd a))"

definition parts_too_large :: "slice list \<Rightarrow> slice list \<Rightarrow> Status" where
  "parts_too_large key v =
     (if length (concat key) \<ge> 2 ^ 32 - 1 then InvalidArgument ''key is too large''
      else if length (concat v) \<ge> 2 ^ 32 - 1 then InvalidArgument ''value is too large'' else OK)"

fun op_on_records :: "nat \<Rightarrow> batch_op \<Rightarrow> record_state \<Rightarrow> (Status \<times> record_state) result" where
  "op_on_records m (Add r) a = Inr (add_rec m r a)"
| "op_on_records m (PutParts cf k v) a =
     Inr (if parts_too_large k v \<noteq> OK then (parts_too_large k v, a) else add_rec m (RPut cf (concat k) (concat v)) a)"
| "op_on_records m (DeleteParts cf k) a = Inr (add_rec m (RDelete cf (concat k)) a)"
| "op_on_records m (SingleDeleteParts cf k) a = Inr (add_rec m (RSingleDelete cf (concat k)) a)"
| "op_on_records m (DeleteRangeParts cf k v) a = Inr (add_rec m (RDeleteRange cf (concat k) (concat v)) a)"
| "op_on_records m (MergeParts cf k v) a =
     Inr (if parts_too_large k v \<noteq> OK then (parts_too_large k v, a) else add_rec m (RMerge cf (concat k) (concat v)) a)"
| "op_on_records m (EndPrepare x r) a =
     (case fst a of RNoop # recs \<Rightarrow> Inr (OK, r # recs @ [REndPrepare x], []) | _ \<Rightarrow> Inl AssertFailed)"
| "op_on_records m Save a = Inr (OK, fst a, length (fst a) # snd a)"
| "op_on_records m RollBack a =
     Inr (case snd a of [] \<Rightarrow> (NotFound, a) | k # ks \<Rightarrow> (OK, take k (fst a), ks))"
| "op_on_records m PopSave a = Inr (case snd a of [] \<Rightarrow> (NotFound, a) | k # ks \<Rightarrow> (OK, fst a, ks))"
| "op_on_records m ClearAll a = Inr (OK, [], [])"
| "op_on_records m (Renumber seq) a = Inr (OK, a)"

text \<open>The same operations on a batch.\<close>

fun add_to_batch :: "BatchRecord \<Rightarrow> WriteBatch \<Rightarrow> (Status \<times> WriteBatch) result" where
  "add_to_batch (RPut cf k v) b = WB_Put cf k v b"
| "add_to_batch (RDelete cf k) b = WB_Delete cf k b"
| "add_to_batch (RSingleDelete cf k) b = WB_SingleDelete cf k b"
| "add_to_batch (RDeleteRange cf k v) b = WB_DeleteRange cf k v b"
| "add_to_batch (RMerge cf k v) b = WB_Merge cf k v b"
| "add_to_batch (RBlobIndex cf k v) b = WB_PutBlobIndex cf k v b"
| "add_to_batch (RLogData x) b = PutLogData x b"
| "add_to_batch (RCommit x) b = WB_MarkCommit x b"
| "add_to_batch (RRollback x) b = WB_MarkRollback x b"
| "add_to_batch RNoop b = WB_InsertNoop b"
| "add_to_batch _ b = Inr (OK, b)"

fun op_on_batch :: "batch_op \<Rightarrow> WriteBatch \<Rightarrow> (Status \<times> WriteBatch) result" where
  "op_on_batch (Add r) b = add_to_batch r b"
| "op_on_batch (PutParts cf k v) b = WB_PutParts cf k v b"
| "op_on_batch (DeleteParts cf k) b = WB_DeleteParts cf k b"
| "op_on_batch (SingleDeleteParts cf k) b = WB_SingleDeleteParts cf k b"
| "op_on_batch (DeleteRangeParts cf k v) b = WB_DeleteRangeParts cf k v b"
| "op_on_batch (MergeParts cf k v) b = WB_MergeParts cf k v b"
| "op_on_batch (EndPrepare x r) b = WB_MarkEndPrepare x (r = RBeginPrepare) (r = RBeginUnprepare) b"
| "op_on_batch Save b = and_then (SetSavePoint b) (\<lambda>b. Inr (OK, b))"
| "op_on_batch RollBack b = RollbackToSavePoint b"
| "op_on_batch PopSave b = Inr (PopSavePoint b)"
| "op_on_batch ClearAll b = Inr (OK, WriteBatch_Clear b)"
| "op_on_batch (Renumber seq) b = Inr (OK, WB_SetSequence seq b)"

text \<open>Operations that a program can call: prepare markers are only written by \<open>MarkEndPrepare\<close>. The keys of deletions and the other
  slices whose length the code does not check have a length that fits 32 bits.\<close>

fun op_ok :: "batch_op \<Rightarrow> bool" where
  "op_ok (Add r) =
     (case r of RPut cf k v \<Rightarrow> True | RMerge cf k v \<Rightarrow> True | RBeginPrepare \<Rightarrow> False | RBeginPersistedPrepare \<Rightarrow> False
        | RBeginUnprepare \<Rightarrow> False | REndPrepare x \<Rightarrow> False | _ \<Rightarrow> record_ok r)"
| "op_ok (DeleteParts cf k) = short (concat k)"
| "op_ok (SingleDeleteParts cf k) = short (concat k)"
| "op_ok (DeleteRangeParts cf k v) = (short (concat k) \<and> short (concat v))"
| "op_ok (EndPrepare x r) = (short x \<and> r \<in> {RBeginPrepare, RBeginPersistedPrepare, RBeginUnprepare})"
| "op_ok _ = True"

fun run_ops :: "('op \<Rightarrow> 'a \<Rightarrow> (Status \<times> 'a) result) \<Rightarrow> 'op list \<Rightarrow> 'a \<Rightarrow> (Status list \<times> 'a) result" where
  "run_ops f [] a = Inr ([], a)"
| "run_ops f (x # xs) a =
     and_then (f x a) (\<lambda>(s, a). and_then (run_ops f xs a) (\<lambda>(ss, a). Inr (s # ss, a)))"

lemma counted_simps [simp]:
  "counted [] = 0" "counted (r # recs) = (if counts r then 1 else 0) + counted recs" "counted (xs @ ys) = counted xs + counted ys"
  by (simp_all add: counted_def)

lemma counted_le: "counted recs \<le> length recs"
  by (simp add: counted_def)

lemma point_at_append [simp]: "k \<le> length recs \<Longrightarrow> point_at (recs @ xs) k = point_at recs k"
  by (simp add: point_at_def)

lemma point_at_take [simp]: "k \<le> n \<Longrightarrow> point_at (take n recs) k = point_at recs k"
  by (simp add: point_at_def min_def)

lemma holds_append:
  assumes "holds recs ks b" and "record_ok r" and "wb_rep b = batch_bytes seq recs"
  shows "holds (recs @ [r]) ks
    (b\<lparr>wb_rep := EncodeFixed64 kLittleEndian seq @ EncodeFixed32 kLittleEndian (of_nat (counted (recs @ [r]))) @ concat (map rec_bytes recs) @ rec_bytes r,
       content_flags := content_flags b OR record_flags r\<rparr>)"
  using assms by (auto simp: holds_def batch_bytes_def)

lemma current_point_holds:
  "holds recs ks b \<Longrightarrow> current_point b = Inr (point_at recs (length recs))"
  by (auto simp: holds_def current_point_def batch_bytes_length batch_bytes_Count point_at_def)

text \<open>An operation that adds a record and checks the limit.\<close>

lemma commit_holds:
  assumes b: "holds recs ks b" and seq: "wb_rep b = batch_bytes seq recs" and r: "record_ok r" "too_large r = OK" "limited r"
    and b': "b' = b\<lparr>wb_rep := EncodeFixed64 kLittleEndian seq @ EncodeFixed32 kLittleEndian (of_nat (counted (recs @ [r]))) @ concat (map rec_bytes recs) @ rec_bytes r,
       content_flags := content_flags b OR record_flags r\<rparr>"
  shows "\<exists>b''. LocalSavePoint_commit (point_at recs (length recs)) b' = (fst (add_rec (wb_max_bytes b) r (recs, ks)), b'')
    \<and> holds (fst (snd (add_rec (wb_max_bytes b) r (recs, ks)))) (snd (snd (add_rec (wb_max_bytes b) r (recs, ks)))) b''
    \<and> wb_max_bytes b'' = wb_max_bytes b"
proof (cases "wb_max_bytes b \<noteq> 0 \<and> kHeader + length (concat (map rec_bytes (recs @ [r]))) > wb_max_bytes b")
  case True
  have "LocalSavePoint_commit (point_at recs (length recs)) b' = (MemoryLimit, b)"
    using True b seq unfolding b' by (simp add: LocalSavePoint_commit_def WB_SetCount_def point_at_def kHeader_def batch_bytes_def holds_def)
  then show ?thesis using True r b by (auto simp: add_rec_def)
next
  case False
  then have "LocalSavePoint_commit (point_at recs (length recs)) b' = (OK, b')"
    unfolding b' by (auto simp: LocalSavePoint_commit_def kHeader_def)
  then show ?thesis using False r b holds_append [OF b r(1) seq] b' by (auto simp: add_rec_def)
qed

fun agree :: "nat \<Rightarrow> (Status \<times> record_state) result \<Rightarrow> (Status \<times> WriteBatch) result \<Rightarrow> bool" where
  "agree m (Inl f) (Inl g) = (f = g)"
| "agree m (Inr (s, a)) (Inr (t, b)) = (s = t \<and> holds (fst a) (snd a) b \<and> wb_max_bytes b = m)"
| "agree m _ _ = False"

lemma put_tag_append: "put_tag cf t cft r = r @ tag_bytes cf t cft"
  by (simp add: put_tag_def tag_bytes_def put_simps)

lemma agree_commit:
  assumes b: "holds recs ks b" and r: "record_ok r" "too_large r = OK" "limited r"
    and seq: "wb_rep b = batch_bytes seq recs"
    and b': "b' = b\<lparr>wb_rep := EncodeFixed64 kLittleEndian seq @ EncodeFixed32 kLittleEndian (of_nat (counted (recs @ [r]))) @ concat (map rec_bytes recs) @ rec_bytes r,
         content_flags := content_flags b OR record_flags r\<rparr>"
  shows "agree (wb_max_bytes b) (Inr (add_rec (wb_max_bytes b) r (recs, ks))) (Inr (LocalSavePoint_commit (point_at recs (length recs)) b'))"
proof -
  obtain s a where a: "add_rec (wb_max_bytes b) r (recs, ks) = (s, a)" by (cases "add_rec (wb_max_bytes b) r (recs, ks)")
  show ?thesis using commit_holds [OF b seq r b'] unfolding a by auto
qed

lemma short_int: "\<not> int (length x) > 0xffffffff \<longleftrightarrow> short x"
  by auto

lemma agree_add:
  assumes b: "holds recs ks b" and r: "op_ok (Add r)"
  shows "agree (wb_max_bytes b) (Inr (add_rec (wb_max_bytes b) r (recs, ks))) (add_to_batch r b)"
proof -
  note pt = current_point_holds [OF b]
  obtain seq where seq: "wb_rep b = batch_bytes seq recs" using b by (auto simp: holds_def)
  note simps = batch_bytes_SetCount [OF seq] batch_bytes_Count [OF seq] put_tag_append put_simps add_flags_def
  have c: "agree (wb_max_bytes b) (Inr (add_rec (wb_max_bytes b) r (recs, ks))) (add_to_batch r b)"
    if "record_ok r" "too_large r = OK"
  proof (cases "limited r")
    case True
    show ?thesis
      using r that True seq agree_commit [OF b that True seq refl] by (cases r) (auto simp: WB_Put_def WB_Delete_def WB_SingleDelete_def WB_DeleteRange_def WB_Merge_def
          WB_PutBlobIndex_def PutLogData_def pt Let_def simps batch_bytes_def add.commute)
  next
    case False
    from holds_append [OF b that(1) seq] show ?thesis
      using False that seq by (cases r) (auto simp: WB_InsertNoop_def WB_MarkCommit_def WB_MarkRollback_def add_rec_def simps batch_bytes_def)
  qed
  show ?thesis
  proof (cases "too_large r = OK")
    case True
    moreover from this r have "record_ok r" by (cases r) (auto split: if_splits)
    ultimately show ?thesis using c by blast
  next
    case False
    then show ?thesis using b by (cases r) (auto simp: add_rec_def WB_Put_def WB_Merge_def)
  qed
qed

lemma parts_eq:
  "WB_PutParts cf k v b = (if parts_too_large k v \<noteq> OK then Inr (parts_too_large k v, b) else WB_Put cf (concat k) (concat v) b)"
  "WB_MergeParts cf k v b = (if parts_too_large k v \<noteq> OK then Inr (parts_too_large k v, b) else WB_Merge cf (concat k) (concat v) b)"
  "WB_DeleteParts cf k b = WB_Delete cf (concat k) b"
  "WB_SingleDeleteParts cf k b = WB_SingleDelete cf (concat k) b"
  "WB_DeleteRangeParts cf k v b = WB_DeleteRange cf (concat k) (concat v) b"
  by (auto simp: WB_PutParts_def WB_Put_def WB_MergeParts_def WB_Merge_def WB_DeleteParts_def WB_Delete_def WB_SingleDeleteParts_def
      WB_SingleDelete_def WB_DeleteRangeParts_def WB_DeleteRange_def CheckSlicePartsLength_def parts_too_large_def
      PutLengthPrefixedSliceParts_concat length_concat Let_def)

lemma agree_end_prepare:
  assumes b: "holds recs ks b" and r: "op_ok (EndPrepare x r)"
  shows "agree (wb_max_bytes b) (op_on_records (wb_max_bytes b) (EndPrepare x r) (recs, ks)) (op_on_batch (EndPrepare x r) b)"
proof -
  obtain seq where seq: "wb_rep b = batch_bytes seq recs" using b by (auto simp: holds_def)
  have len: "length (EncodeFixed64 kLittleEndian seq @ EncodeFixed32 kLittleEndian n) = 12" for n by simp
  have first: "byte_at (wb_rep b) 12 = kTypeNoop \<longleftrightarrow> (\<exists>rs. recs = RNoop # rs)"
  proof (cases recs)
    case Nil
    then show ?thesis using seq by (simp add: byte_at_def batch_bytes_def kTypeNoop_def)
  next
    case (Cons r rs)
    have "byte_at (wb_rep b) 12 = hd (rec_bytes r)"
      using seq Cons rec_bytes_nonempty [of r] by (cases "rec_bytes r") (simp_all add: byte_at_def batch_bytes_def nth_append)
    moreover have "hd (rec_bytes r) = kTypeNoop \<longleftrightarrow> r = RNoop" by (cases r) (auto simp: batch_tags tag_bytes_def)
    ultimately show ?thesis using Cons by simp
  qed
  have big: "\<not> length (wb_rep b) < kHeader" using seq by (simp add: batch_bytes_length)
  show ?thesis
  proof (cases "\<exists>rs. recs = RNoop # rs")
    case False
    then have "(case recs of RNoop # rs \<Rightarrow> Inr (OK, r # rs @ [REndPrepare x], []) | _ \<Rightarrow> Inl AssertFailed) = Inl AssertFailed"
      by (auto split: list.splits BatchRecord.splits)
    then show ?thesis using False first big by (auto simp: WB_MarkEndPrepare_def split: list.splits BatchRecord.splits)
  next
    case True
    then obtain rs where rs: "recs = RNoop # rs" by blast
    have noop: "rec_bytes RNoop = [kTypeNoop]" by simp
    have upd: "(wb_rep b)[12 := t] = EncodeFixed64 kLittleEndian seq @ EncodeFixed32 kLittleEndian (of_nat (counted rs)) @ t # concat (map rec_bytes rs)" for t
      using seq rs by (simp add: batch_bytes_def list_update_append)
    have ok: "list_all record_ok rs" "content_flags b = flags_of rs" using b rs by (auto simp: holds_def)
    show ?thesis
      using True first big r rs ok
      by (auto simp: WB_MarkEndPrepare_def upd holds_def batch_bytes_def put_simps add_flags_def or.assoc or.commute or.left_commute
          intro!: exI [of _ seq])
  qed
qed

lemma counted_take_le: "counted (take k recs) \<le> counted recs"
  by (metis append_take_drop_id counted_simps(3) le_add1)

lemma rollback_holds:
  assumes b: "holds recs (k # ks) b" and n: "length recs < 2 ^ 31"
  shows "\<exists>b'. RollbackToSavePoint b = Inr (OK, b') \<and> holds (take k recs) ks b' \<and> wb_max_bytes b' = wb_max_bytes b"
proof -
  obtain seq where seq: "wb_rep b = batch_bytes seq recs" using b by (auto simp: holds_def)
  have k: "k \<le> length recs" and sp: "save_points b = point_at recs k # map (point_at recs) ks" using b by (auto simp: holds_def)
  let ?pre = "concat (map rec_bytes (take k recs))"
  have split: "concat (map rec_bytes recs) = ?pre @ concat (map rec_bytes (drop k recs))"
    by (metis append_take_drop_id concat_append map_append)
  have cnt: "\<not> sint (sp_count (point_at recs k)) > sint (WB_Count b)"
    using sint_small [of "counted recs"] sint_small [of "counted (take k recs)"] counted_take_le [of k recs] counted_le [of recs] n
    by (simp add: point_at_def batch_bytes_Count [OF seq])
  have len: "length (wb_rep b) = kHeader + length (concat (map rec_bytes recs))" using seq by (simp add: batch_bytes_length)
  have hold: "holds (take k recs) ks b'" if "wb_rep b' = batch_bytes seq (take k recs)" "content_flags b' = flags_of (take k recs)"
      "save_points b' = map (point_at recs) ks" for b'
    using that b k by (auto simp: holds_def list_all_iff dest: in_set_takeD)
  show ?thesis
  proof (cases "sp_size (point_at recs k) = length (wb_rep b)")
    case True
    then have "concat (map rec_bytes (drop k recs)) = []" using split len by (simp add: point_at_def)
    then have "drop k recs = []" by (cases "drop k recs") auto
    then have "take k recs = recs" using k by simp
    then show ?thesis
      using True cnt len sp hold [of "b\<lparr>save_points := map (point_at recs) ks\<rparr>"] b seq by (simp add: RollbackToSavePoint_def WB_Count_def holds_def)
  next
    case False
    let ?b = "(WB_SetCount (sp_count (point_at recs k)) (b\<lparr>save_points := map (point_at recs) ks, wb_rep := take (sp_size (point_at recs k)) (wb_rep b)\<rparr>))
        \<lparr>content_flags := sp_content_flags (point_at recs k)\<rparr>"
    have "wb_rep ?b = batch_bytes seq (take k recs)"
      using seq split by (simp add: WB_SetCount_def point_at_def batch_bytes_def kHeader_def)
    then have "holds (take k recs) ks ?b" by (rule hold) (simp_all add: WB_SetCount_def point_at_def)
    moreover have "RollbackToSavePoint b = Inr (OK, ?b)"
      using False cnt len sp split by (simp add: RollbackToSavePoint_def WB_Count_def point_at_def kHeader_def Let_def)
    moreover have "wb_max_bytes ?b = wb_max_bytes b" by (simp add: WB_SetCount_def)
    ultimately show ?thesis by blast
  qed
qed

lemma agree_op:
  assumes b: "holds recs ks b" and x: "op_ok x" and n: "length recs < 2 ^ 31"
  shows "agree (wb_max_bytes b) (op_on_records (wb_max_bytes b) x (recs, ks)) (op_on_batch x b)"
proof (cases x)
  case (Add r)
  then show ?thesis using agree_add [OF b] x by simp
next
  case (EndPrepare xid r)
  then show ?thesis using agree_end_prepare [OF b] x by blast
next
  case Save
  have "holds recs (length recs # ks) (b\<lparr>save_points := point_at recs (length recs) # save_points b\<rparr>)"
    using b by (auto simp: holds_def)
  then show ?thesis using Save current_point_holds [OF b] by (simp add: SetSavePoint_def)
next
  case RollBack
  show ?thesis
  proof (cases ks)
    case Nil
    then show ?thesis using RollBack b by (simp add: RollbackToSavePoint_def holds_def)
  next
    case (Cons k ks')
    then show ?thesis using RollBack rollback_holds [of recs k ks' b] b n by auto
  qed
next
  case PopSave
  then show ?thesis using b by (cases ks) (auto simp: PopSavePoint_def holds_def)
next
  case ClearAll
  then show ?thesis using holds_new [of "wb_max_bytes b"] by (auto simp: holds_def WriteBatch_Clear_def WriteBatch_new_def)
next
  case (Renumber seq)
  have "\<exists>s. wb_rep (WB_SetSequence seq b) = batch_bytes s recs" using b by (auto simp: holds_def WB_SetSequence_def batch_bytes_def)
  then show ?thesis using Renumber b by (auto simp: holds_def WB_SetSequence_def)
next
  case (PutParts cf k v)
  then show ?thesis using agree_add [OF b, of "RPut cf (concat k) (concat v)"] b by (simp add: parts_eq)
next
  case (MergeParts cf k v)
  then show ?thesis using agree_add [OF b, of "RMerge cf (concat k) (concat v)"] b by (simp add: parts_eq)
next
  case (DeleteParts cf k)
  then show ?thesis using agree_add [OF b, of "RDelete cf (concat k)"] x by (simp add: parts_eq)
next
  case (SingleDeleteParts cf k)
  then show ?thesis using agree_add [OF b, of "RSingleDelete cf (concat k)"] x by (simp add: parts_eq)
next
  case (DeleteRangeParts cf k v)
  then show ?thesis using agree_add [OF b, of "RDeleteRange cf (concat k) (concat v)"] x by (simp add: parts_eq)
qed

lemma records_grow: "op_on_records m x a = Inr (s, a') \<Longrightarrow> length (fst a') \<le> length (fst a) + 1"
  by (cases x) (auto simp: add_rec_def split: if_splits list.splits BatchRecord.splits)

lemma agree_run:
  assumes "holds (fst a) (snd a) b" and "list_all op_ok xs" and "length (fst a) + length xs < 2 ^ 31" and "wb_max_bytes b = m"
  shows "case run_ops (op_on_records m) xs a of
      Inl f \<Rightarrow> run_ops op_on_batch xs b = Inl f
    | Inr (ss, a') \<Rightarrow> \<exists>b'. run_ops op_on_batch xs b = Inr (ss, b') \<and> holds (fst a') (snd a') b'"
  using assms
proof (induction xs arbitrary: a b)
  case (Cons x xs)
  have ag: "agree m (op_on_records m x a) (op_on_batch x b)"
    using agree_op [of "fst a" "snd a" b x] Cons.prems by simp
  show ?case
  proof (cases "op_on_records m x a")
    case (Inl f)
    then show ?thesis using ag by (cases "op_on_batch x b") auto
  next
    case (Inr sa)
    then obtain s a' where sa: "op_on_records m x a = Inr (s, a')" by (cases sa) auto
    then obtain b' where b': "op_on_batch x b = Inr (s, b')" "holds (fst a') (snd a') b'" "wb_max_bytes b' = m"
      using ag by (cases "op_on_batch x b") auto
    have "length (fst a') + length xs < 2 ^ 31" using records_grow [OF sa] Cons.prems(3) by simp
    note ih = Cons.IH [OF b'(2) _ this b'(3)]
    show ?thesis
      using ih Cons.prems(2) sa b'(1) by (cases "run_ops (op_on_records m) xs a'") auto
  qed
qed simp

section \<open>Cut batches\<close>

lemma GetVarintLoop_extend: "GetVarintLoop lim sh res p = Some (v, q) \<Longrightarrow> GetVarintLoop lim sh res (p @ x) = Some (v, q @ x)"
  by (induction lim sh res p rule: GetVarintLoop.induct) (auto simp: Let_def split: if_splits)

lemma GetVarint32_extend: "GetVarint32 p = Some (v, q) \<Longrightarrow> GetVarint32 (p @ x) = Some (v, q @ x)"
  unfolding GetVarint32_def GetVarint32Ptr_def GetVarint32PtrFallback_def Let_def
  by (cases p) (auto simp del: GetVarintLoop.simps(2) dest: GetVarintLoop_extend split: if_splits)

lemma GetLengthPrefixedSlice_extend:
  "GetLengthPrefixedSlice p = Some (v, q) \<Longrightarrow> GetLengthPrefixedSlice (p @ x) = Some (v, q @ x)"
  by (auto simp: GetLengthPrefixedSlice_def GetVarint32_extend split: option.splits if_splits)

text \<open>A reader of records that does not depend on what follows.\<close>

definition extends :: "(slice \<Rightarrow> Status + BatchEntry \<times> slice) \<Rightarrow> bool" where
  "extends f \<longleftrightarrow> (\<forall>p e q x. f p = Inr (e, q) \<longrightarrow> f (p @ x) = Inr (e, q @ x))"

lemma extends_if: "extends f \<Longrightarrow> extends g \<Longrightarrow> extends (\<lambda>p. if c then f p else g p)"
  by (simp add: extends_def)

lemma extends_basic:
  "extends (\<lambda>p. Inl s)" "extends (\<lambda>p. Inr (y, p))" "extends (read_xid t msg)" "extends (read_keyed c w t msg)"
  "extends (\<lambda>p. case GetLengthPrefixedSlice p of None \<Rightarrow> Inl s | Some (z, q) \<Rightarrow> Inr (f z, q))"
  by (auto simp: extends_def read_xid_def read_keyed_def get_family_def GetVarint32_extend GetLengthPrefixedSlice_extend
      split: option.splits if_splits)

lemma ReadRecord_extend: "ReadRecordFromWriteBatch t p = Inr (e, q) \<Longrightarrow> ReadRecordFromWriteBatch t (p @ x) = Inr (e, q @ x)"
proof -
  have "extends (\<lambda>p. ReadRecordFromWriteBatch t p)"
    unfolding ReadRecordFromWriteBatch_def by (intro extends_if extends_basic)
  then show "ReadRecordFromWriteBatch t p = Inr (e, q) \<Longrightarrow> ReadRecordFromWriteBatch t (p @ x) = Inr (e, q @ x)"
    by (simp add: extends_def)
qed

lemma ReadRecord_errors: "ReadRecordFromWriteBatch t p = Inl s \<Longrightarrow> s \<noteq> OK"
  unfolding ReadRecordFromWriteBatch_def
  by (auto simp: read_xid_def read_keyed_def split: option.splits if_splits)

lemma read_partial_record:
  assumes r: "record_ok r" and p: "rec_bytes r = p @ x" "p \<noteq> []" "x \<noteq> []"
  shows "\<exists>s. ReadRecordFromWriteBatch (hd p) (tl p) = Inl s \<and> s \<noteq> OK"
proof (cases "ReadRecordFromWriteBatch (hd p) (tl p)")
  case (Inl s)
  then show ?thesis using ReadRecord_errors by blast
next
  case (Inr eq)
  obtain e q where q: "eq = (e, q)" by (cases eq)
  have "hd (rec_bytes r) = hd p" "tl (rec_bytes r) = tl p @ x" using p by simp_all
  then have "ReadRecordFromWriteBatch (hd p) (tl p @ x) = Inr (entry_of r, [])"
    using read_rec_bytes [OF r, of "[]"] by simp
  then show ?thesis using ReadRecord_extend [of "hd p" "tl p" e q x] Inr q p(3) by simp
qed

text \<open>A cut through a list of records: some whole records and a part of the next.\<close>

lemma cut_records:
  "\<exists>k p x. take n (concat (map rec_bytes recs)) = concat (map rec_bytes (take k recs)) @ p \<and> k \<le> length recs
     \<and> (p \<noteq> [] \<longrightarrow> k < length recs \<and> rec_bytes (recs ! k) = p @ x \<and> x \<noteq> [])"
proof (induction recs arbitrary: n)
  case (Cons r recs)
  show ?case
  proof (cases "length (rec_bytes r) \<le> n")
    case True
    obtain k p x where "take (n - length (rec_bytes r)) (concat (map rec_bytes recs)) = concat (map rec_bytes (take k recs)) @ p" "k \<le> length recs"
        "p \<noteq> [] \<longrightarrow> k < length recs \<and> rec_bytes (recs ! k) = p @ x \<and> x \<noteq> []"
      using Cons.IH by blast
    then show ?thesis using True by (intro exI [of _ "Suc k"] exI [of _ p] exI [of _ x]) simp
  next
    case False
    then show ?thesis
      by (intro exI [of _ 0] exI [of _ "take n (rec_bytes r)"] exI [of _ "drop n (rec_bytes r)"]) auto
  qed
qed simp

section \<open>Appending\<close>

lemma Append_holds:
  assumes d: "holds drecs ks dst" and s: "holds srecs ks' src"
    and w: "wal_only \<and> \<not> is_cleared (wal_term_point src) \<Longrightarrow> wal_term_point src = point_at srecs k \<and> k \<le> length srecs"
  shows "\<exists>dst'. WB_Append src wal_only dst = Inr dst'
    \<and> holds (drecs @ (if wal_only \<and> \<not> is_cleared (wal_term_point src) then take k srecs else srecs)) ks dst'"
proof -
  obtain p q where p: "wb_rep dst = batch_bytes p drecs" and q: "wb_rep src = batch_bytes q srecs" using d s by (auto simp: holds_def)
  let ?k = "if wal_only \<and> \<not> is_cleared (wal_term_point src) then k else length srecs"
  let ?xs = "take ?k srecs"
  have xs: "(if wal_only \<and> \<not> is_cleared (wal_term_point src) then take k srecs else srecs) = ?xs" by simp
  have pre: "take (length (concat (map rec_bytes ?xs))) (concat (map rec_bytes srecs)) = concat (map rec_bytes ?xs)"
    using append_take_drop_id [of ?k srecs] by (metis append_eq_conv_conj concat_append map_append)
  have big: "\<not> length (wb_rep src) < kHeader" "\<not> length (wb_rep dst) < kHeader" by (simp_all add: p q batch_bytes_length)
  have end': "(if wal_only \<and> \<not> is_cleared (wal_term_point src)
        then (sp_size (wal_term_point src) - kHeader, sp_count (wal_term_point src), sp_content_flags (wal_term_point src))
        else (length (wb_rep src) - kHeader, WB_Count src, content_flags src))
      = (length (concat (map rec_bytes ?xs)), of_nat (counted ?xs), flags_of ?xs)"
    using w s by (auto simp: point_at_def q batch_bytes_length batch_bytes_Count [OF q] holds_def)
  have body: "drop kHeader (wb_rep src) = concat (map rec_bytes srecs)" by (simp add: q drop_batch_bytes)
  let ?dst = "add_flags (flags_of ?xs) (dst\<lparr>wb_rep := batch_bytes p (drecs @ ?xs)\<rparr>)"
  have "WB_Append src wal_only dst = Inr ?dst"
    using big pre unfolding WB_Append_def Let_def end' body
    by (simp add: batch_bytes_SetCount [OF p] batch_bytes_Count [OF p] batch_bytes_def add_flags_def)
  moreover have "holds (drecs @ ?xs) ks ?dst"
    using d s p by (auto simp: holds_def add_flags_def list_all_iff dest: in_set_takeD)
  ultimately show ?thesis unfolding xs by blast
qed

lemma classifier_replay:
  assumes "list_all (\<lambda>r. r \<noteq> RBeginPersistedPrepare \<and> r \<noteq> RBeginUnprepare) recs"
  shows "replay BatchContentClassifier recs em fl = (OK, fl OR flags_of recs)"
  using assms
proof (induction recs arbitrary: em fl)
  case (Cons r recs)
  then show ?case by (cases r) (simp_all add: BatchContentClassifier_def or.assoc)
qed simp

lemma committed_records:
  assumes "run_ops (op_on_records m) xs a = Inr (ss, recs, ks)"
    and "list_all op_ok xs" and "list_all (\<lambda>x. \<forall>i r. x = EndPrepare i r \<longrightarrow> r = RBeginPrepare) xs"
    and "set (fst a) \<inter> {RBeginPersistedPrepare, RBeginUnprepare} = {}"
  shows "set recs \<inter> {RBeginPersistedPrepare, RBeginUnprepare} = {}"
  using assms
proof (induction xs arbitrary: a ss)
  case (Cons x xs)
  obtain s a' ss' where s: "op_on_records m x a = Inr (s, a')" "run_ops (op_on_records m) xs a' = Inr (ss', recs, ks)"
    using Cons.prems(1) by (auto simp: and_then_Inr)
  have "set (fst a') \<inter> {RBeginPersistedPrepare, RBeginUnprepare} = {}"
    using s(1) Cons.prems(2-4) by (cases x) (auto simp: add_rec_def split: if_splits list.splits BatchRecord.splits dest: in_set_takeD)
  then show ?case using Cons.IH [OF s(2)] Cons.prems(2,3) by simp
qed simp

section \<open>Properties\<close>

text \<open>C13: a write batch is a list of records. Any sequence of operations on a new batch, with save points, rollbacks, prepare
  markers and a limit on the size, returns the statuses of the same operations on a list of records or fails the same
  assertion. The count is the number of updates in the list, and \<open>Iterate\<close>, on the batch or on a batch made from its bytes, gives a
  handler exactly the records of the list, in order, up to the first for which the handler returns an error.\<close>

theorem WriteBatch_refines_records:
  "list_all op_ok xs \<and> length xs < 2 ^ 31 \<and> batch_handler h \<Longrightarrow>
   (case run_ops (op_on_records m) xs ([], []) of
      Inl f \<Rightarrow> run_ops op_on_batch xs (WriteBatch_new m) = Inl f
    | Inr (ss, recs, ks) \<Rightarrow>
        \<exists>b. run_ops op_on_batch xs (WriteBatch_new m) = Inr (ss, b) \<and> WB_Count b = of_nat (counted recs)
          \<and> Iterate h b hs = Inr (replay h recs True hs) \<and> Iterate h (WriteBatch_of (wb_rep b)) hs = Inr (replay h recs True hs))"
proof -
  assume a: "list_all op_ok xs \<and> length xs < 2 ^ 31 \<and> batch_handler h"
  have run: "case run_ops (op_on_records m) xs ([], []) of
      Inl f \<Rightarrow> run_ops op_on_batch xs (WriteBatch_new m) = Inl f
    | Inr (ss, a') \<Rightarrow> \<exists>b'. run_ops op_on_batch xs (WriteBatch_new m) = Inr (ss, b') \<and> holds (fst a') (snd a') b'"
    using a agree_run [of "([], [])" "WriteBatch_new m" xs m] holds_new [of m] by (simp add: WriteBatch_new_def)
  have "WB_Count b = of_nat (counted recs) \<and> Iterate h b hs = Inr (replay h recs True hs)
      \<and> Iterate h (WriteBatch_of (wb_rep b)) hs = Inr (replay h recs True hs)" if hb: "holds recs ks b" for recs ks b
  proof -
    obtain seq where seq: "wb_rep b = batch_bytes seq recs" using hb by (auto simp: holds_def)
    then show ?thesis
      using hb a Iterate_holds [of h recs b seq hs] Iterate_holds [of h recs "WriteBatch_of (wb_rep b)" seq hs] batch_bytes_Count
      by (auto simp: holds_def WriteBatch_of_def allows_def DEFERRED_def)
  qed
  then show ?thesis using run by (fastforce split: sum.splits prod.splits)
qed

theorem WriteBatch_refines_records_witness:
  "\<exists>b. run_ops op_on_batch [Add (RPut 0 [1] [2]), Save, Add (RDelete 3 [4]), RollBack, Add (RMerge 0 [5] []), RollBack] (WriteBatch_new 40)
       = Inr ([OK, OK, OK, OK, OK, NotFound], b)
     \<and> WB_Count b = 2 \<and> Iterate BatchContentClassifier b 0 = Inr (OK, HAS_PUT OR HAS_MERGE)"
proof -
  let ?xs = "[Add (RPut 0 [1] [2]), Save, Add (RDelete 3 [4]), RollBack, Add (RMerge 0 [5] []), RollBack]"
  have len: "length (LengthPrefixed [x]) = 2" "length (LengthPrefixed []) = 1" for x
    by (simp_all add: LengthPrefixed_def EncodeVarint32_def)
  have "length (EncodeVarint32 3) = 1" by (simp add: EncodeVarint32_def)
  then have "run_ops (op_on_records 40) ?xs ([], []) = Inr ([OK, OK, OK, OK, OK, NotFound], [RPut 0 [1] [2], RMerge 0 [5] []], [])"
    by (simp add: add_rec_def kHeader_def tag_bytes_def len)
  moreover have "replay BatchContentClassifier [RPut 0 [1] [2], RMerge 0 [5] []] True 0 = (OK, HAS_PUT OR HAS_MERGE)"
    by (simp add: BatchContentClassifier_def)
  ultimately show ?thesis
    using WriteBatch_refines_records [of ?xs BatchContentClassifier 40 0] classifier.batch_handler_axioms by auto
qed

text \<open>The two ways to know what a batch contains agree. The content flags that the operations keep are those that
  \<open>BatchContentClassifier\<close> computes from the bytes, for batches with prepare markers of the default write policy.\<close>

theorem content_flags_agree:
  "list_all op_ok xs \<and> list_all (\<lambda>x. \<forall>i r. x = EndPrepare i r \<longrightarrow> r = RBeginPrepare) xs \<and> length xs < 2 ^ 31
     \<and> run_ops op_on_batch xs (WriteBatch_new m) = Inr (ss, b) \<Longrightarrow>
   ComputeContentFlags (WriteBatch_of (wb_rep b)) = Inr (content_flags b, (WriteBatch_of (wb_rep b))\<lparr>content_flags := content_flags b\<rparr>)"
proof -
  assume a: "list_all op_ok xs \<and> list_all (\<lambda>x. \<forall>i r. x = EndPrepare i r \<longrightarrow> r = RBeginPrepare) xs \<and> length xs < 2 ^ 31
     \<and> run_ops op_on_batch xs (WriteBatch_new m) = Inr (ss, b)"
  have "case run_ops (op_on_records m) xs ([], []) of
      Inl f \<Rightarrow> run_ops op_on_batch xs (WriteBatch_new m) = Inl f
    | Inr (ss, a') \<Rightarrow> \<exists>b'. run_ops op_on_batch xs (WriteBatch_new m) = Inr (ss, b') \<and> holds (fst a') (snd a') b'"
    using a agree_run [of "([], [])" "WriteBatch_new m" xs m] holds_new [of m] by (simp add: WriteBatch_new_def)
  then obtain ss' recs ks where r: "run_ops (op_on_records m) xs ([], []) = Inr (ss', recs, ks)" and hb: "holds recs ks b"
    using a by (auto split: sum.splits)
  have "list_all (\<lambda>r. r \<noteq> RBeginPersistedPrepare \<and> r \<noteq> RBeginUnprepare) recs"
    using committed_records [OF r] a by (simp add: list_all_iff) blast
  then have "replay BatchContentClassifier recs True 0 = (OK, content_flags b)"
    using classifier_replay hb by (simp add: holds_def)
  moreover obtain seq where "wb_rep b = batch_bytes seq recs" using hb by (auto simp: holds_def)
  ultimately have "Iterate BatchContentClassifier (WriteBatch_of (wb_rep b)) 0 = Inr (OK, content_flags b)"
    using Iterate_holds [of BatchContentClassifier recs "WriteBatch_of (wb_rep b)" seq 0] hb classifier.batch_handler_axioms
    by (simp add: holds_def WriteBatch_of_def allows_def DEFERRED_def)
  moreover have "content_flags (WriteBatch_of (wb_rep b)) AND DEFERRED \<noteq> 0" by (simp add: WriteBatch_of_def DEFERRED_def)
  ultimately show ?thesis by (simp add: ComputeContentFlags_def)
qed

theorem content_flags_agree_witness:
  "\<exists>ss b. run_ops op_on_batch [Add RNoop, Add (RPut 2 [1] [2]), EndPrepare [9] RBeginPrepare] (WriteBatch_new 0) = Inr (ss, b)
     \<and> ComputeContentFlags (WriteBatch_of (wb_rep b)) = Inr (content_flags b, (WriteBatch_of (wb_rep b))\<lparr>content_flags := content_flags b\<rparr>)"
proof -
  let ?xs = "[Add RNoop, Add (RPut 2 [1] [2]), EndPrepare [9] RBeginPrepare]"
  obtain ss b where "run_ops op_on_batch ?xs (WriteBatch_new 0) = Inr (ss, b)"
    using agree_run [of "([], [])" "WriteBatch_new 0" ?xs 0] holds_new [of 0] by (auto simp: WriteBatch_new_def add_rec_def)
  then show ?thesis using content_flags_agree [of ?xs 0 ss b] by (intro exI conjI) simp_all
qed



end
