(* ===== verification/LogReplay.thy ===== *)
theory LogReplay
  imports WriteAheadLog WriteBatches
begin

text \<open>
  The write-ahead log in use: the batches of a group of writers go to the log as one record (\<open>DBImpl::MergeBatch\<close> and
  \<open>DBImpl::WriteToWAL\<close> in \<open>db/db_impl_write.cc\<close>), and a recovery reads the records of a log file back and inserts their batches
  (\<open>DBImpl::RecoverLogFiles\<close> in \<open>db/db_impl_open.cc\<close>).

  A group is the list of its writers, the leader first, each with its batch and the outcome of its callback. The insertion into the
  memtables is a handler with its state; \<open>start\<close> gives the state in which an inserter begins with a sequence number, and \<open>seq_of\<close> the
  sequence number it has reached. Syncing the file, the filter of the log, and the flush of full memtables are left out.
\<close>

section \<open>Writing a group\<close>

record GroupWriter =
  gw_batch :: WriteBatch
  CallbackFailed :: bool

record LogWriteState =
  lws_writer :: LogWriter
  tmp_batch :: WriteBatch
  total_log_size :: nat
  alive_log_size :: nat
  log_empty :: bool
  cached_recoverable_state :: "WriteBatch option"

definition LogWriteState_new :: "LogWriter \<Rightarrow> LogWriteState" where
  "LogWriteState_new w =
     \<lparr>lws_writer = w, tmp_batch = WriteBatch_new 0, total_log_size = 0, alive_log_size = 0, log_empty = True,
      cached_recoverable_state = None\<rparr>"

fun merge_writers :: "GroupWriter list \<Rightarrow> WriteBatch \<Rightarrow> nat \<Rightarrow> WriteBatch option \<Rightarrow> (WriteBatch \<times> nat \<times> WriteBatch option) result" where
  "merge_writers [] merged n cached = Inr (merged, n, cached)"
| "merge_writers (w # ws) merged n cached =
     (if CallbackFailed w then merge_writers ws merged n cached
      else and_then (WB_Append (gw_batch w) True merged) (\<lambda>merged.
        merge_writers ws merged (n + 1) (if is_latest_persistent_state (gw_batch w) then Some (gw_batch w) else cached)))"

text \<open>The result: whether the batch of the leader is taken as it is, the batch, the number of batches in it, and the state to be cached.\<close>

definition MergeBatch :: "GroupWriter list \<Rightarrow> WriteBatch \<Rightarrow> (bool \<times> WriteBatch \<times> nat \<times> WriteBatch option) result" where
  "MergeBatch ws tmp =
     (case ws of
        [] \<Rightarrow> Inl NullDeref
      | leader # rest \<Rightarrow>
          if rest = [] \<and> \<not> CallbackFailed leader \<and> is_cleared (wal_term_point (gw_batch leader)) then
            Inr (True, gw_batch leader, 1, if is_latest_persistent_state (gw_batch leader) then Some (gw_batch leader) else None)
          else and_then (merge_writers ws tmp 0 None) (\<lambda>(merged, n, cached). Inr (False, merged, n, cached)))"

definition WriteToWAL :: "WriteBatch \<Rightarrow> LogWriteState \<Rightarrow> (Status \<times> LogWriteState) run" where
  "WriteToWAL merged st =
     (let log_entry = wb_rep merged
      in run_then (AddRecord log_entry (lws_writer st)) (\<lambda>(s, w).
           returns (s, st\<lparr>lws_writer := w, total_log_size := total_log_size st + length log_entry,
             alive_log_size := alive_log_size st + length log_entry, log_empty := False\<rparr>)))"

definition WriteGroupToWAL :: "GroupWriter list \<Rightarrow> u64 \<Rightarrow> LogWriteState \<Rightarrow> (Status \<times> LogWriteState) run" where
  "WriteGroupToWAL ws seq st =
     (case MergeBatch ws (tmp_batch st) of
        Inl f \<Rightarrow> fails f
      | Inr (is_leader, merged, n, cached) \<Rightarrow>
          run_then (WriteToWAL (WB_SetSequence seq merged) st) (\<lambda>(s, st).
            let st = (case cached of None \<Rightarrow> st | Some b \<Rightarrow> st\<lparr>cached_recoverable_state := Some b\<rparr>)
            in returns (s, if is_leader then st
                           else st\<lparr>tmp_batch := WriteBatch_Clear (WB_SetSequence seq merged)\<rparr>)))"

section \<open>Recovering a log file\<close>

definition MaybeIgnoreError :: "bool \<Rightarrow> Status \<Rightarrow> Status" where
  "MaybeIgnoreError paranoid_checks s = (if s = OK \<or> paranoid_checks then s else OK)"

definition InsertInto :: "'s Handler \<Rightarrow> (u64 \<Rightarrow> 's \<Rightarrow> 's) \<Rightarrow> ('s \<Rightarrow> u64) \<Rightarrow> WriteBatch \<Rightarrow> 's \<Rightarrow> (Status \<times> u64 \<times> 's) result" where
  "InsertInto h start seq_of batch hs =
     and_then (Iterate h batch (start (WB_Sequence batch) hs)) (\<lambda>(s, hs). Inr (s, seq_of hs, hs))"

record 's LogRecovery =
  rc_reader :: LogReader
  rc_status :: Status
  rc_batch :: WriteBatch
  next_sequence :: u64
  stop_replay_for_corruption :: bool
  rc_handler :: 's

text \<open>The reporter keeps the first status it is told, if it has a status to set. The calls it has got are those listed in the reader.\<close>

definition to_status :: "bool \<Rightarrow> (nat \<times> Status) list \<Rightarrow> Status \<Rightarrow> Status" where
  "to_status sets calls s = (if sets \<and> s = OK then case calls of [] \<Rightarrow> OK | (n, s) # _ \<Rightarrow> s else s)"

definition report :: "bool \<Rightarrow> nat \<Rightarrow> Status \<Rightarrow> 's LogRecovery \<Rightarrow> 's LogRecovery" where
  "report sets n s st = st\<lparr>rc_reader := ReportDrop n s (rc_reader st), rc_status := to_status sets [(n, s)] (rc_status st)\<rparr>"

definition insert_record ::
    "bool \<Rightarrow> bool \<Rightarrow> 's Handler \<Rightarrow> (u64 \<Rightarrow> 's \<Rightarrow> 's) \<Rightarrow> ('s \<Rightarrow> u64) \<Rightarrow> nat \<Rightarrow> 's LogRecovery \<Rightarrow> 's LogRecovery result" where
  "insert_record sets paranoid h start seq_of n st =
     and_then (InsertInto h start seq_of (rc_batch st) (rc_handler st)) (\<lambda>(s, seq, hs).
       let s = MaybeIgnoreError paranoid s;
           st = st\<lparr>rc_status := s, next_sequence := seq, rc_handler := hs\<rparr>
       in Inr (if s = OK then st else report sets n s st))"

partial_function (option) recover_records ::
    "WALRecoveryMode \<Rightarrow> bool \<Rightarrow> 's Handler \<Rightarrow> (u64 \<Rightarrow> 's \<Rightarrow> 's) \<Rightarrow> ('s \<Rightarrow> u64) \<Rightarrow> 's LogRecovery \<Rightarrow> 's LogRecovery run" where
  [code]: "recover_records mode paranoid h start seq_of st =
     (let sets = (paranoid \<and> mode \<noteq> kSkipAnyCorruptedRecords)
      in case ReadRecord mode (rc_reader st) of
           None \<Rightarrow> None
         | Some (ok, rec, r) \<Rightarrow>
             let st = st\<lparr>rc_reader := r, rc_status := to_status sets (drop (length (lr_reports (rc_reader st))) (lr_reports r)) (rc_status st)\<rparr>
             in if \<not> ok \<or> rc_status st \<noteq> OK then returns st
                else if length rec < kHeader then
                  recover_records mode paranoid h start seq_of (report sets (length rec) (Corruption ''log record too small'') st)
                else
                  case SetContents rec (rc_batch st) of
                    Inl f \<Rightarrow> fails f
                  | Inr batch \<Rightarrow>
                      let st = st\<lparr>rc_batch := batch\<rparr>;
                          st = (if mode = kPointInTimeRecovery \<and> WB_Sequence batch = next_sequence st
                                then st\<lparr>stop_replay_for_corruption := False\<rparr> else st)
                      in if mode = kPointInTimeRecovery \<and> stop_replay_for_corruption st then returns st
                         else
                           case insert_record sets paranoid h start seq_of (length rec) st of
                             Inl f \<Rightarrow> fails f
                           | Inr st \<Rightarrow> recover_records mode paranoid h start seq_of st)"

text \<open>The end of a file: whether the recovery goes on with the next file, and the state.\<close>

definition after_log_file :: "WALRecoveryMode \<Rightarrow> 's LogRecovery \<Rightarrow> bool \<times> 's LogRecovery" where
  "after_log_file mode st =
     (case rc_status st of
        OK \<Rightarrow> (True, st)
      | NotSupported _ \<Rightarrow> (False, st)
      | _ \<Rightarrow>
          if mode = kSkipAnyCorruptedRecords then (True, st\<lparr>rc_status := OK\<rparr>)
          else if mode = kPointInTimeRecovery then (True, st\<lparr>rc_status := OK, stop_replay_for_corruption := True\<rparr>)
          else (False, st))"

definition RecoverLogFile ::
    "WALRecoveryMode \<Rightarrow> bool \<Rightarrow> 's Handler \<Rightarrow> (u64 \<Rightarrow> 's \<Rightarrow> 's) \<Rightarrow> ('s \<Rightarrow> u64) \<Rightarrow> SequentialFile \<Rightarrow> u64 \<Rightarrow> 's LogRecovery
     \<Rightarrow> (bool \<times> 's LogRecovery) run" where
  "RecoverLogFile mode paranoid h start seq_of file log_number st =
     run_then
       (recover_records mode paranoid h start seq_of
          (st\<lparr>rc_reader := LogReader_new file True log_number False, rc_batch := WriteBatch_new 0\<rparr>))
       (\<lambda>st. returns (after_log_file mode st))"

text \<open>The loop over the files; a file that cannot be opened is given by the status of the attempt.\<close>

fun RecoverLogFiles ::
    "WALRecoveryMode \<Rightarrow> bool \<Rightarrow> 's Handler \<Rightarrow> (u64 \<Rightarrow> 's \<Rightarrow> 's) \<Rightarrow> ('s \<Rightarrow> u64) \<Rightarrow> u64 \<Rightarrow> (u64 \<times> (Status + SequentialFile)) list
     \<Rightarrow> 's LogRecovery \<Rightarrow> 's LogRecovery run" where
  "RecoverLogFiles mode paranoid h start seq_of min_log [] st = returns st"
| "RecoverLogFiles mode paranoid h start seq_of min_log ((log_number, opened) # logs) st =
     (if log_number < min_log then RecoverLogFiles mode paranoid h start seq_of min_log logs st
      else
        case opened of
          Inl s \<Rightarrow>
            let st = st\<lparr>rc_status := MaybeIgnoreError paranoid s\<rparr>
            in if rc_status st \<noteq> OK then returns st else RecoverLogFiles mode paranoid h start seq_of min_log logs st
        | Inr file \<Rightarrow>
            run_then (RecoverLogFile mode paranoid h start seq_of file log_number st) (\<lambda>(goes_on, st).
              if goes_on then RecoverLogFiles mode paranoid h start seq_of min_log logs st else returns st))"

section \<open>The records of a group\<close>

text \<open>The records of a batch that go to the log: all, or those up to the termination point.\<close>

definition wal_records :: "WriteBatch \<Rightarrow> BatchRecord list \<Rightarrow> bool" where
  "wal_records b recs \<longleftrightarrow> (\<exists>all ks. holds all ks b
     \<and> (if is_cleared (wal_term_point b) then recs = all
        else \<exists>k \<le> length all. wal_term_point b = point_at all k \<and> recs = take k all))"

definition group_records :: "GroupWriter list \<Rightarrow> BatchRecord list \<Rightarrow> bool" where
  "group_records ws recs \<longleftrightarrow> ws \<noteq> [] \<and> (\<exists>rss. list_all2 wal_records (map gw_batch (filter (\<lambda>w. \<not> CallbackFailed w) ws)) rss \<and> recs = concat rss)"

lemma merge_writers_holds:
  assumes "holds recs [] merged" and "list_all2 wal_records (map gw_batch (filter (\<lambda>w. \<not> CallbackFailed w) ws)) rss"
  shows "\<exists>merged' n' cached'. merge_writers ws merged n cached = Inr (merged', n', cached') \<and> holds (recs @ concat rss) [] merged'"
  using assms
proof (induction ws arbitrary: recs merged n cached rss)
  case (Cons w ws)
  show ?case
  proof (cases "CallbackFailed w")
    case True
    then show ?thesis using Cons by simp
  next
    case False
    then obtain rs rss' where rss: "rss = rs # rss'" and w: "wal_records (gw_batch w) rs"
        and rest: "list_all2 wal_records (map gw_batch (filter (\<lambda>w. \<not> CallbackFailed w) ws)) rss'"
      using Cons.prems(2) by (auto simp: list_all2_Cons1)
    obtain all ks where h: "holds all ks (gw_batch w)"
        and c: "if is_cleared (wal_term_point (gw_batch w)) then rs = all
          else \<exists>k \<le> length all. wal_term_point (gw_batch w) = point_at all k \<and> rs = take k all"
      using w unfolding wal_records_def by blast
    obtain k where all: "\<not> is_cleared (wal_term_point (gw_batch w)) \<Longrightarrow> wal_term_point (gw_batch w) = point_at all k \<and> k \<le> length all"
        "rs = (if is_cleared (wal_term_point (gw_batch w)) then all else take k all)"
      using c by (cases "is_cleared (wal_term_point (gw_batch w))") auto
    obtain m where m: "WB_Append (gw_batch w) True merged = Inr m" "holds (recs @ rs) [] m"
      using Append_holds [OF Cons.prems(1) h, of True k] all by (cases "is_cleared (wal_term_point (gw_batch w))") auto
    show ?thesis using Cons.IH [OF m(2) rest] m(1) False rss by auto
  qed
qed simp

lemma MergeBatch_records:
  assumes ws: "group_records ws recs" and tmp: "holds [] [] tmp"
  shows "\<exists>is_leader merged n cached q. MergeBatch ws tmp = Inr (is_leader, merged, n, cached) \<and> wb_rep merged = batch_bytes q recs
    \<and> list_all record_ok recs"
proof -
  obtain leader rest rss where l: "ws = leader # rest" and rss: "list_all2 wal_records (map gw_batch (filter (\<lambda>w. \<not> CallbackFailed w) ws)) rss"
      "recs = concat rss"
    using ws by (auto simp: group_records_def neq_Nil_conv)
  show ?thesis
  proof (cases "rest = [] \<and> \<not> CallbackFailed leader \<and> is_cleared (wal_term_point (gw_batch leader))")
    case True
    then have "wal_records (gw_batch leader) recs" using l rss by (auto simp: list_all2_Cons1)
    then show ?thesis using True l by (auto simp: wal_records_def MergeBatch_def holds_def)
  next
    case False
    then show ?thesis
      using merge_writers_holds [OF tmp rss(1), of 0 None] rss(2) l by (auto simp: MergeBatch_def holds_def)
  qed
qed

text \<open>A sequence of groups, each with its first sequence number.\<close>

fun WriteGroups :: "(u64 \<times> GroupWriter list) list \<Rightarrow> LogWriteState \<Rightarrow> (Status \<times> LogWriteState) run" where
  "WriteGroups [] st = returns (OK, st)"
| "WriteGroups ((seq, ws) # gs) st =
     run_then (WriteGroupToWAL ws seq st) (\<lambda>(s, st). if s = OK then WriteGroups gs st else returns (s, st))"

definition group_ok :: "u64 \<times> GroupWriter list \<Rightarrow> u64 \<times> BatchRecord list \<Rightarrow> bool" where
  "group_ok g l \<longleftrightarrow> fst g = fst l \<and> group_records (snd g) (snd l)"

lemma WriteGroupToWAL_adds:
  assumes ws: "group_records ws recs" and st: "holds [] [] (tmp_batch st)"
  shows "\<exists>f. WriteGroupToWAL ws seq st = run_then (AddRecord (batch_bytes seq recs) (lws_writer st)) (\<lambda>(s, w). returns (s, f s w))
    \<and> (\<forall>s w. lws_writer (f s w) = w \<and> holds [] [] (tmp_batch (f s w)))"
proof -
  obtain is_leader merged n cached q where m: "MergeBatch ws (tmp_batch st) = Inr (is_leader, merged, n, cached)" "wb_rep merged = batch_bytes q recs"
    using MergeBatch_records [OF ws st] by blast
  have rep: "wb_rep (WB_SetSequence seq merged) = batch_bytes seq recs" using m(2) by (simp add: WB_SetSequence_def batch_bytes_def)
  let ?st = "\<lambda>w. st\<lparr>lws_writer := w, total_log_size := total_log_size st + length (batch_bytes seq recs),
      alive_log_size := alive_log_size st + length (batch_bytes seq recs), log_empty := False\<rparr>"
  let ?st2 = "\<lambda>w. case cached of None \<Rightarrow> ?st w | Some b \<Rightarrow> (?st w)\<lparr>cached_recoverable_state := Some b\<rparr>"
  let ?f = "\<lambda>s w. if is_leader then ?st2 w else (?st2 w)\<lparr>tmp_batch := WriteBatch_Clear (WB_SetSequence seq merged)\<rparr>"
  have a: "WriteGroupToWAL ws seq st = run_then (AddRecord (batch_bytes seq recs) (lws_writer st)) (\<lambda>(s, w). returns (s, ?f s w))"
    by (simp add: WriteGroupToWAL_def WriteToWAL_def m(1) rep run_then_def Let_def split: option.splits sum.splits prod.splits)
  have b: "lws_writer (?f s w) = w \<and> holds [] [] (tmp_batch (?f s w))" for s w
    using st holds_new [of 0] by (cases cached) (auto simp: holds_def WriteBatch_Clear_def WriteBatch_new_def)
  show ?thesis by (rule exI [of _ ?f]) (use a b in blast)
qed

lemma WriteGroups_adds:
  assumes "list_all2 group_ok gs ls" and "holds [] [] (tmp_batch st)"
    and "AddRecords (map (\<lambda>(seq, recs). batch_bytes seq recs) ls) (lws_writer st) = returns (OK, w)"
  shows "\<exists>st'. WriteGroups gs st = returns (OK, st') \<and> lws_writer st' = w"
  using assms
proof (induction gs ls arbitrary: st rule: list_all2_induct)
  case (Cons g gs l ls)
  obtain seq ws where g: "g = (seq, ws)" by (cases g)
  obtain recs where l: "l = (seq, recs)" and ws: "group_records ws recs" using Cons.hyps(1) g by (cases l) (auto simp: group_ok_def)
  obtain f where f: "WriteGroupToWAL ws seq st = run_then (AddRecord (batch_bytes seq recs) (lws_writer st)) (\<lambda>(s, w). returns (s, f s w))"
      "\<forall>s w. lws_writer (f s w) = w \<and> holds [] [] (tmp_batch (f s w))"
    using WriteGroupToWAL_adds [OF ws Cons.prems(1)] by blast
  obtain w1 where w1: "AddRecord (batch_bytes seq recs) (lws_writer st) = returns (OK, w1)"
      "AddRecords (map (\<lambda>(seq, recs). batch_bytes seq recs) ls) w1 = returns (OK, w)"
    using Cons.prems(2) l by (auto simp: run_then_def split: option.splits sum.splits prod.splits if_splits)
  then show ?case using Cons.IH [of "f OK w1"] f g by simp
qed simp

section \<open>Replaying what was logged\<close>

definition accepts :: "'s Handler \<Rightarrow> BatchRecord list \<Rightarrow> bool" where
  "accepts h recs \<longleftrightarrow> (\<forall>r \<in> set recs. \<forall>em hs. fst (deliver h r em hs) = OK)"

lemma replay_accepts: "accepts h recs \<Longrightarrow> replay h recs em hs = (OK, snd (replay h recs em hs))"
proof (induction recs arbitrary: em hs)
  case (Cons r recs)
  then have "fst (deliver h r em hs) = OK" "accepts h recs" by (auto simp: accepts_def)
  then show ?case using Cons.IH by (cases "deliver h r em hs") simp
qed simp

definition replay_groups :: "'s Handler \<Rightarrow> (u64 \<Rightarrow> 's \<Rightarrow> 's) \<Rightarrow> (u64 \<times> BatchRecord list) list \<Rightarrow> 's \<Rightarrow> 's" where
  "replay_groups h start ls hs = fold (\<lambda>(seq, recs) hs. snd (replay h recs True (start seq hs))) ls hs"

abbreviation log_record :: "u64 \<times> BatchRecord list \<Rightarrow> slice" where
  "log_record l \<equiv> batch_bytes (fst l) (snd l)"

lemma recover_records_replays:
  assumes h: "batch_handler h" and "log_reads mode r (map log_record ls) r'"
    and "list_all (\<lambda>l. list_all record_ok (snd l) \<and> accepts h (snd l)) ls"
    and "rc_reader st = r" and "rc_status st = OK" and "\<not> stop_replay_for_corruption st"
  shows "\<exists>st'. recover_records mode paranoid h start seq_of st = returns st' \<and> rc_status st' = OK
    \<and> rc_handler st' = replay_groups h start ls (rc_handler st)"
  using assms(2-6)
proof (induction r "map log_record ls" r' arbitrary: ls st rule: log_reads.induct)
  case (log_reads_end r x r')
  then have "lr_reports r' = lr_reports r" by (simp add: same_setup_def)
  then show ?case
    using log_reads_end by (subst recover_records.simps) (simp add: Let_def to_status_def replay_groups_def)
next
  case (log_reads_record r x r1 xs r')
  obtain seq recs ls' where ls: "ls = (seq, recs) # ls'" "x = batch_bytes seq recs" "xs = map log_record ls'"
    using log_reads_record.hyps(5) by auto
  have rep: "lr_reports r1 = lr_reports r" using log_reads_record.hyps(2) by (simp add: same_setup_def)
  let ?hs = "snd (replay h recs True (start seq (rc_handler st)))"
  let ?b = "(rc_batch st)\<lparr>wb_rep := x, content_flags := DEFERRED\<rparr>"
  have size: "\<not> length x < kHeader" using ls(2) by (simp add: batch_bytes_length)
  have seq: "WB_Sequence ?b = seq" using ls(2) by (simp add: WB_Sequence_def batch_bytes_def)
  have "Iterate h ?b (start seq (rc_handler st)) = Inr (replay h recs True (start seq (rc_handler st)))"
    by (rule Iterate_holds [OF h, where seq = seq]) (use ls log_reads_record.prems(1) in \<open>simp_all add: allows_def DEFERRED_def\<close>)
  then have ins: "InsertInto h start seq_of ?b (rc_handler st) = Inr (OK, seq_of ?hs, ?hs)"
    using replay_accepts [of h recs True "start seq (rc_handler st)"] log_reads_record.prems(1) ls(1) seq
    by (cases "replay h recs True (start seq (rc_handler st))") (auto simp: InsertInto_def)
  let ?st0 = "st\<lparr>rc_reader := r1, rc_status := OK, rc_batch := ?b\<rparr>"
  let ?st1 = "if mode = kPointInTimeRecovery \<and> seq = next_sequence st then ?st0\<lparr>stop_replay_for_corruption := False\<rparr> else ?st0"
  let ?st = "?st1\<lparr>rc_status := OK, next_sequence := seq_of ?hs, rc_handler := ?hs\<rparr>"
  have ts: "to_status sets (drop (length (lr_reports (rc_reader st))) (lr_reports r1)) (rc_status st) = OK" for sets
    using log_reads_record.prems(2,3) rep by (simp add: to_status_def)
  have "recover_records mode paranoid h start seq_of st = recover_records mode paranoid h start seq_of ?st"
    using log_reads_record.hyps(1) log_reads_record.prems(2,4) size ins seq
    by (subst recover_records.simps; cases "mode = kPointInTimeRecovery \<and> seq = next_sequence st")
      (auto simp: Let_def ts SetContents_def MaybeIgnoreError_def insert_record_def)
  then show ?case
    using log_reads_record.hyps(4) [of ls' ?st] ls log_reads_record.prems(1,4) by (auto simp: replay_groups_def)
qed

lemma groups_record_ok: "list_all2 group_ok gs ls \<Longrightarrow> list_all (\<lambda>l. list_all record_ok (snd l)) ls"
proof (induction rule: list_all2_induct)
  case (Cons g gs l ls)
  then have "group_records (snd g) (snd l)" by (simp add: group_ok_def)
  from MergeBatch_records [OF this holds_new [of 0]] show ?case using Cons.IH by auto
qed simp

definition fresh_log :: "bool \<Rightarrow> bool \<Rightarrow> u64 \<Rightarrow> LogWriteState" where
  "fresh_log recycle manual log = LogWriteState_new (LogWriter_new \<lparr>wf_data = [], wf_outcomes = []\<rparr> log recycle manual)"

section \<open>Properties\<close>

text \<open>C11: committed groups survive a crash. Groups of batches are merged and written to a log one after the other, each with its sequence number.
  If the file is cut off after any number of bytes, a recovery that does not ask for absolute consistency returns with status OK, and
  its handler has been given exactly the records of the groups that were written completely, group by group and in order,
  each from the sequence number of its group; the records behind the termination point of a batch and those of writers
  whose callback failed are left out.\<close>

theorem group_commit_recovered:
  assumes gs: "list_all2 group_ok gs ls" and h: "batch_handler h" "list_all (\<lambda>l. accepts h (snd l)) ls"
    and mode: "mode \<noteq> kAbsoluteConsistency" and log: "recycle \<longrightarrow> log < 2 ^ 32" and st: "\<not> stop_replay_for_corruption st" "rc_status st = OK"
  shows "\<exists>st1. WriteGroups gs (fresh_log recycle manual log) = returns (OK, st1) \<and>
    (\<exists>k st2. RecoverLogFile mode paranoid h start seq_of \<lparr>sf_rest = take n (written (lws_writer st1)), sf_status = OK\<rparr> log st = returns (True, st2)
      \<and> rc_status st2 = OK \<and> rc_handler st2 = replay_groups h start (take k ls) (rc_handler st) \<and> k \<le> length gs
      \<and> (\<forall>i \<le> length gs. \<forall>sti. WriteGroups (take i gs) (fresh_log recycle manual log) = returns (OK, sti) \<longrightarrow> (i \<le> k \<longleftrightarrow> length (written (lws_writer sti)) \<le> n)))"
proof -
  let ?w = "LogWriter_new \<lparr>wf_data = [], wf_outcomes = []\<rparr> log recycle manual"
  let ?xs = "map log_record ls"
  have w: "writer_ok ?w" "wf_outcomes (lw_dest ?w) = []" "written ?w = []" by (simp_all add: writer_ok_def LogWriter_new_def)
  have new: "holds [] [] (tmp_batch (fresh_log recycle manual log))" "lws_writer (fresh_log recycle manual log) = ?w" using holds_new by (simp_all add: fresh_log_def LogWriteState_new_def)
  have run: "\<exists>wi sti. AddRecords (take i ?xs) ?w = returns (OK, wi) \<and> WriteGroups (take i gs) (fresh_log recycle manual log) = returns (OK, sti) \<and> lws_writer sti = wi" for i
  proof -
    obtain wi where wi: "AddRecords (take i ?xs) ?w = returns (OK, wi)" using AddRecords_ok [OF w(1,2)] by blast
    have "list_all2 group_ok (take i gs) (take i ls)" using gs by (rule list_all2_takeI)
    then show ?thesis using WriteGroups_adds [of "take i gs" "take i ls" "fresh_log recycle manual log" wi] new wi by (simp add: take_map case_prod_beta')
  qed
  obtain w1 st1 where st1: "AddRecords ?xs ?w = returns (OK, w1)" "WriteGroups gs (fresh_log recycle manual log) = returns (OK, st1)" "lws_writer st1 = w1"
    using run [of "length gs"] list_all2_lengthD [OF gs] by auto
  let ?r = "LogReader_new \<lparr>sf_rest = take n (written (lws_writer st1)), sf_status = OK\<rparr> True log False"
  have "reader_at ?r (length (written ?w)) (take n (drop (length (written ?w)) (written w1)))"
    using st1(3) w(3) by (simp add: reader_at_def LogReader_new_def)
  moreover have "recycle_log_files ?w \<longrightarrow> lr_log_number ?r = lw_log_number ?w \<and> lw_log_number ?w < 2 ^ 32"
    using log by (simp add: LogWriter_new_def LogReader_new_def)
  ultimately obtain k r where k: "log_reads mode ?r (take k ?xs) r" "k \<le> length ?xs"
      "\<forall>i \<le> length ?xs. \<forall>wi. AddRecords (take i ?xs) ?w = returns (OK, wi) \<longrightarrow> (i \<le> k \<longleftrightarrow> length (written wi) \<le> length (written ?w) + n)"
    using log_reads_written [OF w(1,2) st1(1)] mode by blast
  have ok: "list_all (\<lambda>l. list_all record_ok (snd l) \<and> accepts h (snd l)) (take k ls)"
    using groups_record_ok [OF gs] h(2) by (auto simp: list_all_iff dest: in_set_takeD)
  let ?st = "st\<lparr>rc_reader := ?r, rc_batch := WriteBatch_new 0\<rparr>"
  obtain st2 where st2: "recover_records mode paranoid h start seq_of ?st = returns st2" "rc_status st2 = OK"
      "rc_handler st2 = replay_groups h start (take k ls) (rc_handler ?st)"
    using recover_records_replays [OF h(1), of mode ?r "take k ls" r ?st paranoid start seq_of] k(1) ok st by (auto simp: take_map)
  have "RecoverLogFile mode paranoid h start seq_of \<lparr>sf_rest = take n (written (lws_writer st1)), sf_status = OK\<rparr> log st = returns (True, st2)"
    using st2(1,2) by (simp add: RecoverLogFile_def after_log_file_def)
  moreover have "i \<le> k \<longleftrightarrow> length (written (lws_writer sti)) \<le> n"
    if "i \<le> length gs" "WriteGroups (take i gs) (fresh_log recycle manual log) = returns (OK, sti)" for i sti
    using that run [of i] k(3) w(3) list_all2_lengthD [OF gs] by auto
  ultimately show ?thesis using st1(2) st2(2,3) k(2) list_all2_lengthD [OF gs] by (auto simp del: WriteGroups.simps)
qed

theorem group_commit_recovered_witness:
  "\<exists>b st1 st2. WB_Put 0 [1] [2] (WriteBatch_new 0) = Inr (OK, b)
     \<and> WriteGroups [(5, [\<lparr>gw_batch = b, CallbackFailed = False\<rparr>])] (fresh_log True False 7) = returns (OK, st1)
     \<and> RecoverLogFile kPointInTimeRecovery True BatchContentClassifier (\<lambda>seq fl. fl) (\<lambda>fl. 0)
         \<lparr>sf_rest = written (lws_writer st1), sf_status = OK\<rparr> 7
         \<lparr>rc_reader = LogReader_new \<lparr>sf_rest = [], sf_status = OK\<rparr> True 0 False, rc_status = OK, rc_batch = WriteBatch_new 0, next_sequence = 0,
           stop_replay_for_corruption = False, rc_handler = 0\<rparr> = returns (True, st2)
     \<and> rc_handler st2 = HAS_PUT"
proof -
  let ?st = "\<lparr>rc_reader = LogReader_new \<lparr>sf_rest = [], sf_status = OK\<rparr> True 0 False, rc_status = OK, rc_batch = WriteBatch_new 0, next_sequence = 0,
      stop_replay_for_corruption = False, rc_handler = 0\<rparr>"
  let ?r = "RPut 0 [1] [2]"
  obtain b where b: "WB_Put 0 [1] [2] (WriteBatch_new 0) = Inr (OK, b)" "holds [?r] [] b"
    using agree_add [OF holds_new, of ?r 0] by (cases "WB_Put 0 [1] [2] (WriteBatch_new 0)") (auto simp: add_rec_def WriteBatch_new_def)
  then have t: "is_cleared (wal_term_point b)"
    by (auto simp: WB_Put_def current_point_def WriteBatch_new_def kHeader_def LocalSavePoint_commit_def add_flags_def WB_SetCount_def
        SavePoint_cleared_def is_cleared_def Let_def)
  let ?gs = "[(5, [\<lparr>gw_batch = b, CallbackFailed = False\<rparr>])]" and ?ls = "[(5, [?r])]"
  have gs: "list_all2 group_ok ?gs ?ls"
    using b(2) t by (auto simp: group_ok_def group_records_def wal_records_def intro!: exI [of _ "[[?r]]"])
  have h: "list_all (\<lambda>l. accepts BatchContentClassifier (snd l)) ?ls" by (simp add: accepts_def BatchContentClassifier_def)
  note * = group_commit_recovered [OF gs classifier.batch_handler_axioms h, where mode = kPointInTimeRecovery and recycle = True and log = 7
      and manual = False and st = ?st and paranoid = True and start = "\<lambda>seq fl. fl" and seq_of = "\<lambda>fl. 0"]
  obtain st1 where st1: "WriteGroups ?gs (fresh_log True False 7) = returns (OK, st1)" using * by fastforce
  obtain k st2 where k: "RecoverLogFile kPointInTimeRecovery True BatchContentClassifier (\<lambda>seq fl. fl) (\<lambda>fl. 0)
        \<lparr>sf_rest = take (length (written (lws_writer st1))) (written (lws_writer st1)), sf_status = OK\<rparr> 7 ?st = returns (True, st2)"
      "rc_handler st2 = replay_groups BatchContentClassifier (\<lambda>seq fl. fl) (take k ?ls) (rc_handler ?st)"
      "\<forall>i \<le> length ?gs. \<forall>sti. WriteGroups (take i ?gs) (fresh_log True False 7) = returns (OK, sti)
         \<longrightarrow> (i \<le> k \<longleftrightarrow> length (written (lws_writer sti)) \<le> length (written (lws_writer st1)))"
    using * [where n = "length (written (lws_writer st1))"] st1 by auto
  have "1 \<le> k" using k(3) [rule_format, of 1 st1] st1 by simp
  then have "rc_handler st2 = HAS_PUT" using k(2) by (simp add: replay_groups_def BatchContentClassifier_def)
  then show ?thesis using b(1) st1 k(1) by auto
qed

end
