(* ===== verification/BloomFilters.thy ===== *)
theory BloomFilters
  imports Coding
begin

text \<open>
  The hash function (\<open>util/hash.cc\<close>), the filters of tables (\<open>util/bloom.cc\<close>: the filter of a whole table with its builder and its
  reader, and the filter of one block), and the filter of a memtable (\<open>util/dynamic_bloom.h\<close>), which several threads may fill.

  A filter is its bytes. \<open>char\<close> is signed, as on x86. \<open>CACHE_LINE_SIZE\<close> depends on the machine (\<open>port/port_posix.h\<close>); a filter
  written on one machine can be read on another.
\<close>

section \<open>Hash\<close>

definition hash_m :: u32 where
  "hash_m = 0xc6a4a793"

fun hash_words :: "slice \<Rightarrow> u32 \<Rightarrow> slice \<times> u32" where
  "hash_words (a # b # c # d # rest) h =
     (let w = DecodeFixed32 kLittleEndian [a, b, c, d]; h = (h + w) * hash_m
      in hash_words rest (h XOR drop_bit 16 h))"
| "hash_words rest h = (rest, h)"

definition hash_rest :: "slice \<Rightarrow> u32 \<Rightarrow> u32" where
  "hash_rest p h =
     (let h = (if length p \<ge> 3 then h + push_bit 16 (scast (byte_at p 2)) else h);
          h = (if length p \<ge> 2 then h + push_bit 8 (scast (byte_at p 1)) else h)
      in if length p \<ge> 1 then (let h = (h + scast (byte_at p 0)) * hash_m in h XOR drop_bit 24 h) else h)"

definition Hash :: "slice \<Rightarrow> u32 \<Rightarrow> u32" where
  "Hash p seed = (let (rest, h) = hash_words p (seed XOR (of_nat (length p) * hash_m)) in hash_rest rest h)"

definition BloomHash :: "slice \<Rightarrow> u32" where
  "BloomHash key = Hash key 0xbc9f1d34"

definition GetSliceHash :: "slice \<Rightarrow> u32" where
  "GetSliceHash s = Hash s 397"

section \<open>Probes\<close>

text \<open>
  The loops of the filters: \<open>data[bitpos / 8] |= 1 << (bitpos % 8)\<close>, and its test, at \<open>n\<close> positions that come from one hash value
  \<open>h\<close>: the position of a probe is \<open>pos h\<close>, and \<open>nx h\<close> is the value for the next probe.
\<close>

definition or_bit :: "slice \<Rightarrow> u32 \<Rightarrow> slice result" where
  "or_bit d bitpos =
     (let i = unat (bitpos div 8)
      in if i < length d then Inr (d[i := d ! i OR push_bit (unat (bitpos mod 8)) 1]) else Inl OutOfBounds)"

definition bit_at :: "slice \<Rightarrow> u32 \<Rightarrow> bool result" where
  "bit_at d bitpos =
     (let i = unat (bitpos div 8)
      in if i < length d then Inr (d ! i AND push_bit (unat (bitpos mod 8)) 1 \<noteq> 0) else Inl OutOfBounds)"

fun set_probes :: "(u32 \<Rightarrow> u32) \<Rightarrow> (u32 \<Rightarrow> u32) \<Rightarrow> nat \<Rightarrow> u32 \<Rightarrow> slice \<Rightarrow> slice result" where
  "set_probes pos nx 0 h d = Inr d"
| "set_probes pos nx (Suc n) h d = and_then (or_bit d (pos h)) (\<lambda>d. set_probes pos nx n (nx h) d)"

fun test_probes :: "(u32 \<Rightarrow> u32) \<Rightarrow> (u32 \<Rightarrow> u32) \<Rightarrow> nat \<Rightarrow> u32 \<Rightarrow> slice \<Rightarrow> bool result" where
  "test_probes pos nx 0 h d = Inr True"
| "test_probes pos nx (Suc n) h d =
     and_then (bit_at d (pos h)) (\<lambda>b. if b then test_probes pos nx n (nx h) d else Inr False)"

definition probe_delta :: "u32 \<Rightarrow> u32" where
  "probe_delta h = drop_bit 17 h OR push_bit 15 h"

section \<open>The filter of a table\<close>

datatype Machine = S390 | PowerPC_AArch64 | OtherMachine

fun CACHE_LINE_SIZE :: "Machine \<Rightarrow> u32" where
  "CACHE_LINE_SIZE S390 = 256"
| "CACHE_LINE_SIZE PowerPC_AArch64 = 128"
| "CACHE_LINE_SIZE OtherMachine = 64"

record FullFilterBitsBuilder =
  fb_bits_per_key :: u64
  fb_num_probes :: u64
  hash_entries :: "u32 list"

definition FullFilterBitsBuilder_new :: "u64 \<Rightarrow> u64 \<Rightarrow> FullFilterBitsBuilder result" where
  "FullFilterBitsBuilder_new bits_per_key num_probes =
     (if bits_per_key = 0 then Inl AssertFailed
      else Inr \<lparr>fb_bits_per_key = bits_per_key, fb_num_probes = num_probes, hash_entries = []\<rparr>)"

definition FullFilter_AddKey :: "slice \<Rightarrow> FullFilterBitsBuilder \<Rightarrow> FullFilterBitsBuilder" where
  "FullFilter_AddKey key b =
     (let h = BloomHash key
      in if hash_entries b = [] \<or> h \<noteq> last (hash_entries b) then b\<lparr>hash_entries := hash_entries b @ [h]\<rparr> else b)"

definition GetTotalBitsForLocality :: "Machine \<Rightarrow> u32 \<Rightarrow> u32" where
  "GetTotalBitsForLocality m total_bits =
     (let num_lines = (total_bits + CACHE_LINE_SIZE m * 8 - 1) div (CACHE_LINE_SIZE m * 8);
          num_lines = (if num_lines mod 2 = 0 then num_lines + 1 else num_lines)
      in num_lines * (CACHE_LINE_SIZE m * 8))"

text \<open>The result: the size in bytes, \<open>total_bits\<close> and \<open>num_lines\<close>. The number of entries is an \<open>int\<close>.\<close>

definition CalculateSpace :: "Machine \<Rightarrow> FullFilterBitsBuilder \<Rightarrow> u32 \<Rightarrow> (u32 \<times> u32 \<times> u32) result" where
  "CalculateSpace m b num_entry =
     (if fb_bits_per_key b = 0 then Inl AssertFailed
      else if num_entry \<noteq> 0 then
        (let total_bits_tmp = num_entry * ucast (fb_bits_per_key b);
             total_bits = GetTotalBitsForLocality m total_bits_tmp;
             num_lines = total_bits div (CACHE_LINE_SIZE m * 8)
         in if total_bits > 0 \<and> total_bits mod 8 = 0 then Inr (total_bits div 8 + 5, total_bits, num_lines)
            else Inl AssertFailed)
      else Inr (5, 0, 0))"

definition ReserveSpace :: "Machine \<Rightarrow> FullFilterBitsBuilder \<Rightarrow> u32 \<Rightarrow> (slice \<times> u32 \<times> u32) result" where
  "ReserveSpace m b num_entry =
     and_then (CalculateSpace m b num_entry) (\<lambda>(sz, total_bits, num_lines).
       Inr (replicate (unat sz) 0, total_bits, num_lines))"

text \<open>The counter of the loop is 32 bits wide: with \<open>2 ^ 32\<close> probes or more it would not end. The policy gives at most 30.\<close>

definition FullFilter_AddHash :: "Machine \<Rightarrow> u64 \<Rightarrow> u32 \<Rightarrow> u32 \<Rightarrow> u32 \<Rightarrow> slice \<Rightarrow> slice result" where
  "FullFilter_AddHash m num_probes num_lines total_bits h d =
     (if num_lines > 0 \<and> total_bits > 0 then
        (let b = (h mod num_lines) * (CACHE_LINE_SIZE m * 8)
         in set_probes (\<lambda>h. b + h mod (CACHE_LINE_SIZE m * 8)) (\<lambda>x. x + probe_delta h) (unat num_probes) h d)
      else Inl AssertFailed)"

fun add_each :: "('h \<Rightarrow> 's \<Rightarrow> 's result) \<Rightarrow> 'h list \<Rightarrow> 's \<Rightarrow> 's result" where
  "add_each add [] s = Inr s"
| "add_each add (h # hs) s = and_then (add h s) (add_each add hs)"

definition put_at :: "slice \<Rightarrow> nat \<Rightarrow> slice \<Rightarrow> slice result" where
  "put_at d i bs = (if i + length bs \<le> length d then Inr (take i d @ bs @ drop (i + length bs) d) else Inl OutOfBounds)"

definition FullFilter_Finish :: "Machine \<Rightarrow> FullFilterBitsBuilder \<Rightarrow> (slice \<times> FullFilterBitsBuilder) result" where
  "FullFilter_Finish m b =
     and_then (ReserveSpace m b (of_nat (length (hash_entries b)))) (\<lambda>(d, total_bits, num_lines).
     and_then (if total_bits \<noteq> 0 \<and> num_lines \<noteq> 0
               then add_each (FullFilter_AddHash m (fb_num_probes b) num_lines total_bits) (hash_entries b) d
               else Inr d) (\<lambda>d.
     and_then (put_at d (unat (total_bits div 8)) [ucast (fb_num_probes b)]) (\<lambda>d.
     and_then (put_at d (unat (total_bits div 8 + 1)) (EncodeFixed32 kLittleEndian num_lines)) (\<lambda>d.
       Inr (take (unat (total_bits div 8 + 5)) d, b\<lparr>hash_entries := []\<rparr>)))))"

text \<open>\<open>CalculateNumEntry\<close> looks for the largest number of entries that fit, downwards from an estimate.\<close>

fun num_entry_loop :: "(nat \<Rightarrow> u32 result) \<Rightarrow> u32 \<Rightarrow> nat \<Rightarrow> nat result" where
  "num_entry_loop sz space 0 = Inr 0"
| "num_entry_loop sz space (Suc n) =
     and_then (sz (Suc n)) (\<lambda>s. if s \<le> space then Inr (Suc n) else num_entry_loop sz space n)"

definition CalculateNumEntry :: "Machine \<Rightarrow> FullFilterBitsBuilder \<Rightarrow> u32 \<Rightarrow> nat result" where
  "CalculateNumEntry m b space =
     (if fb_bits_per_key b = 0 \<or> space = 0 then Inl AssertFailed
      else let high = sint (ucast (ucast (space * 8) div fb_bits_per_key b + 1) :: u32)
           in if high < 1 then Inl AssertFailed
              else and_then (num_entry_loop (\<lambda>n. and_then (CalculateSpace m b (of_nat n)) (\<lambda>(s, _, _). Inr s)) space (nat high)) (\<lambda>n.
                if int n < high then Inr n else Inl AssertFailed))"

subsection \<open>The reader\<close>

record FullFilterBitsReader =
  fr_data :: slice
  data_len :: u32
  fr_num_probes :: u64
  fr_num_lines :: u32
  log2_cache_line_size :: nat

definition GetFilterMeta :: "slice \<Rightarrow> u64 \<times> u32" where
  "GetFilterMeta filt =
     (let len = (of_nat (length filt) :: u32)
      in if len \<le> 5 then (0, 0)
         else (scast (byte_at filt (unat (len - 5))), DecodeFixed32 kLittleEndian (drop (unat (len - 4)) filt)))"

text \<open>The search for the size of a cache line: \<open>None\<close> if no power of two gives the number of lines.\<close>

function find_log2 :: "u32 \<Rightarrow> u32 \<Rightarrow> nat \<Rightarrow> nat option" where
  "find_log2 len num_lines k =
     (let lines = drop_bit k len
      in if lines = 0 then None else if lines = num_lines then Some k else find_log2 len num_lines (k + 1))"
  by auto

lemma drop_bit_u32_pos: "drop_bit k (w :: u32) \<noteq> 0 \<Longrightarrow> k < 32"
  by (rule ccontr) (simp add: bit_word_eqI bit_drop_bit_eq bit_imp_le_length)

termination find_log2
  by (relation "measure (\<lambda>(_, _, k). 32 - k)") (auto dest: drop_bit_u32_pos intro: diff_less_mono2)

declare find_log2.simps [simp del]

text \<open>\<open>ndebug\<close>: assertions are compiled out.\<close>

definition FullFilterBitsReader_new :: "bool \<Rightarrow> slice \<Rightarrow> FullFilterBitsReader result" where
  "FullFilterBitsReader_new ndebug contents =
     (let len = (of_nat (length contents) :: u32);
          (num_probes, num_lines) = GetFilterMeta contents;
          disabled = \<lparr>fr_data = contents, data_len = len, fr_num_probes = 0, fr_num_lines = 0, log2_cache_line_size = 0\<rparr>
      in if num_lines \<noteq> 0 \<and> (len - 5) mod num_lines \<noteq> 0 then Inr disabled
         else if num_lines \<noteq> 0 then
           (case find_log2 (len - 5) num_lines 0 of
              None \<Rightarrow> if ndebug then Inr disabled else Inl AssertFailed
            | Some k \<Rightarrow> Inr \<lparr>fr_data = contents, data_len = len, fr_num_probes = num_probes, fr_num_lines = num_lines,
                            log2_cache_line_size = k\<rparr>)
         else Inr (disabled\<lparr>fr_num_probes := num_probes\<rparr>))"

text \<open>One turn of the loop of \<open>HashMayMatch\<close>, with the counter, the value of the probe and the result.\<close>

definition probe_turn :: "(u32 \<Rightarrow> u32) \<Rightarrow> (u32 \<Rightarrow> u32) \<Rightarrow> u64 \<Rightarrow> slice \<Rightarrow> u32 \<times> u32 \<times> bool \<Rightarrow> (bool \<times> u32 \<times> u32 \<times> bool) result" where
  "probe_turn pos nx num_probes d = (\<lambda>(i, h, res).
     if ucast i < num_probes then
       and_then (bit_at d (pos h)) (\<lambda>b. if b then Inr (True, i + 1, nx h, True) else Inr (False, i, h, False))
     else Inr (False, i, h, True))"

definition HashMayMatch :: "FullFilterBitsReader \<Rightarrow> u32 \<Rightarrow> bool run" where
  "HashMayMatch r h =
     (let len = data_len r; num_lines = fr_num_lines r; k = log2_cache_line_size r
      in if len \<le> 5 then returns False
         else if fr_num_probes r = 0 \<or> num_lines = 0 \<or> (len - 5) mod num_lines \<noteq> 0 then fails AssertFailed
         else
           (let b = push_bit (k + 3) (h mod num_lines)
            in run_then (run_loop (probe_turn (\<lambda>h. b + (h AND (push_bit (k + 3) 1 - 1))) (\<lambda>x. x + probe_delta h) (fr_num_probes r) (fr_data r))
                   (0, h, True)) (\<lambda>(_, _, res). returns res)))"

definition FullFilter_MayMatch :: "FullFilterBitsReader \<Rightarrow> slice \<Rightarrow> bool run" where
  "FullFilter_MayMatch r entry =
     (if data_len r \<le> 5 then returns False
      else if fr_num_probes r = 0 \<or> fr_num_lines r = 0 then returns True
      else HashMayMatch r (BloomHash entry))"

section \<open>The policy, and the filter of a block\<close>

record BloomFilterPolicy =
  bp_bits_per_key :: u64
  bp_num_probes :: u64
  use_block_based_builder :: bool

text \<open>
  \<open>bits_per_key_ * 0.69\<close> is computed in floating point and rounded down. Below 44 bits the product is not close to an integer unless
  it is 0, so this is the integer division; from 44 bits on it is at least 30, the limit.
\<close>

definition policy_probes :: "u64 \<Rightarrow> u64" where
  "policy_probes bits_per_key =
     (let n = unat bits_per_key * 69 div 100
      in if n < 1 then 1 else if n > 30 then 30 else of_nat n)"

definition BloomFilterPolicy_new :: "u32 \<Rightarrow> bool \<Rightarrow> BloomFilterPolicy" where
  "BloomFilterPolicy_new bits_per_key use_block_based =
     \<lparr>bp_bits_per_key = scast bits_per_key, bp_num_probes = policy_probes (scast bits_per_key),
      use_block_based_builder = use_block_based\<rparr>"

definition block_add :: "u64 \<Rightarrow> u64 \<Rightarrow> slice \<Rightarrow> slice \<Rightarrow> slice result" where
  "block_add bits num_probes key array =
     (let h = BloomHash key
      in set_probes (\<lambda>h. ucast (ucast h mod bits)) (\<lambda>x. x + probe_delta h) (unat num_probes) h array)"

definition CreateFilter :: "BloomFilterPolicy \<Rightarrow> slice list \<Rightarrow> slice \<Rightarrow> slice result" where
  "CreateFilter p keys dst =
     (let bits = of_nat (length keys) * bp_bits_per_key p;
          bits = (if bits < 64 then 64 else bits);
          bytes = (bits + 7) div 8;
          bits = bytes * 8
      in and_then (add_each (block_add bits (bp_num_probes p)) keys (replicate (unat bytes) 0 @ [ucast (bp_num_probes p)]))
           (\<lambda>array. Inr (dst @ array)))"

definition KeyMayMatch :: "slice \<Rightarrow> slice \<Rightarrow> bool result" where
  "KeyMayMatch key bloom_filter =
     (let len = length bloom_filter
      in if len < 2 then Inr False
         else let bits = of_nat ((len - 1) * 8) :: u64;
                  k = scast (bloom_filter ! (len - 1)) :: u64
              in if k > 30 then Inr True
                 else let h = BloomHash key
                      in test_probes (\<lambda>h. ucast (ucast h mod bits)) (\<lambda>x. x + probe_delta h) (unat k) h bloom_filter)"

definition GetFilterBitsBuilder :: "BloomFilterPolicy \<Rightarrow> FullFilterBitsBuilder option result" where
  "GetFilterBitsBuilder p =
     (if use_block_based_builder p then Inr None
      else and_then (FullFilterBitsBuilder_new (bp_bits_per_key p) (bp_num_probes p)) (\<lambda>b. Inr (Some b)))"

section \<open>The filter of a memtable\<close>

record DynamicBloom =
  kTotalBits :: u32
  kNumBlocks :: u32
  kNumProbes :: u32
  hash_func :: "slice \<Rightarrow> u32"
  db_data :: "slice option"

definition DynamicBloom_init :: "u32 \<Rightarrow> (slice \<Rightarrow> u32) option \<Rightarrow> DynamicBloom" where
  "DynamicBloom_init num_probes f =
     \<lparr>kTotalBits = 0, kNumBlocks = 0, kNumProbes = num_probes,
      hash_func = (case f of None \<Rightarrow> BloomHash | Some f \<Rightarrow> f), db_data = None\<rparr>"

definition IsInitialized :: "DynamicBloom \<Rightarrow> bool" where
  "IsInitialized b \<longleftrightarrow> kNumBlocks b > 0 \<or> kTotalBits b > 0"

text \<open>\<open>raw\<close> is the address of the memory the allocator gives; the data begin at the next cache line.\<close>

definition SetTotalBits :: "Machine \<Rightarrow> u64 \<Rightarrow> u32 \<Rightarrow> u32 \<Rightarrow> DynamicBloom \<Rightarrow> DynamicBloom result" where
  "SetTotalBits m raw total_bits locality b =
     (let total = (if locality > 0 then GetTotalBitsForLocality m total_bits else (total_bits + 7) div 8 * 8);
          blocks = (if locality > 0 then total div (CACHE_LINE_SIZE m * 8) else 0)
      in if \<not> (blocks > 0 \<or> total > 0) \<or> kNumProbes b = 0 then Inl AssertFailed
         else let sz = (if blocks > 0 then total div 8 + (CACHE_LINE_SIZE m - 1) else total div 8);
                  cache_line_offset = raw mod ucast (CACHE_LINE_SIZE m);
                  skipped = (if blocks > 0 \<and> cache_line_offset > 0 then unat (CACHE_LINE_SIZE m) - unat cache_line_offset else 0)
              in Inr (b\<lparr>kTotalBits := total, kNumBlocks := blocks, db_data := Some (replicate (unat sz - skipped) 0)\<rparr>))"

definition SetRawData :: "slice \<Rightarrow> u32 \<Rightarrow> u32 \<Rightarrow> DynamicBloom \<Rightarrow> DynamicBloom" where
  "SetRawData raw_data total_bits num_blocks b = b\<lparr>db_data := Some raw_data, kTotalBits := total_bits, kNumBlocks := num_blocks\<rparr>"

definition dynamic_pos :: "Machine \<Rightarrow> DynamicBloom \<Rightarrow> u32 \<Rightarrow> u32 \<Rightarrow> u32" where
  "dynamic_pos m b h0 =
     (if kNumBlocks b \<noteq> 0 then
        (let base = ((drop_bit 11 h0 OR push_bit 21 h0) mod kNumBlocks b) * (CACHE_LINE_SIZE m * 8)
         in (\<lambda>h. base + h mod (CACHE_LINE_SIZE m * 8)))
      else (\<lambda>h. h mod kTotalBits b))"

definition dynamic_next :: "Machine \<Rightarrow> DynamicBloom \<Rightarrow> u32 \<Rightarrow> u32 \<Rightarrow> u32" where
  "dynamic_next m b h0 =
     (if kNumBlocks b \<noteq> 0 then
        (\<lambda>h. h div (CACHE_LINE_SIZE m * 8) + (h mod (CACHE_LINE_SIZE m * 8)) * (0x20000000 div CACHE_LINE_SIZE m) + probe_delta h0)
      else (\<lambda>h. h + probe_delta h0))"

definition MayContainHash :: "Machine \<Rightarrow> u32 \<Rightarrow> DynamicBloom \<Rightarrow> bool result" where
  "MayContainHash m h b =
     (if \<not> IsInitialized b then Inl AssertFailed
      else case db_data b of
        None \<Rightarrow> Inl NullDeref
      | Some d \<Rightarrow> test_probes (dynamic_pos m b h) (dynamic_next m b h) (unat (kNumProbes b)) h d)"

definition MayContain :: "Machine \<Rightarrow> slice \<Rightarrow> DynamicBloom \<Rightarrow> bool result" where
  "MayContain m key b = MayContainHash m (hash_func b key) b"

definition dynamic_AddHash :: "Machine \<Rightarrow> u32 \<Rightarrow> DynamicBloom \<Rightarrow> DynamicBloom result" where
  "dynamic_AddHash m h b =
     (if \<not> IsInitialized b then Inl AssertFailed
      else case db_data b of
        None \<Rightarrow> Inl NullDeref
      | Some d \<Rightarrow> and_then (set_probes (dynamic_pos m b h) (dynamic_next m b h) (unat (kNumProbes b)) h d) (\<lambda>d.
          Inr (b\<lparr>db_data := Some d\<rparr>)))"

definition dynamic_Add :: "Machine \<Rightarrow> slice \<Rightarrow> DynamicBloom \<Rightarrow> DynamicBloom result" where
  "dynamic_Add m key b = dynamic_AddHash m (hash_func b key) b"

text \<open>
  \<open>AddHashConcurrently\<close> sets each bit by an atomic load and, if the bit is missing, an atomic \<open>fetch_or\<close>. A thread that runs it is the
  list of the positions it has yet to set, with a mark for a load that found the bit of the first position missing. The
  threads take turns at any point between two atomic operations.
\<close>

fun probe_positions :: "(u32 \<Rightarrow> u32) \<Rightarrow> (u32 \<Rightarrow> u32) \<Rightarrow> nat \<Rightarrow> u32 \<Rightarrow> u32 list" where
  "probe_positions pos nx 0 h = []"
| "probe_positions pos nx (Suc n) h = pos h # probe_positions pos nx n (nx h)"

type_synonym AddThread = "u32 list \<times> bool"

definition AddHashConcurrently :: "Machine \<Rightarrow> DynamicBloom \<Rightarrow> u32 \<Rightarrow> AddThread" where
  "AddHashConcurrently m b h =
     (probe_positions (dynamic_pos m b h) (dynamic_next m b h) (unat (kNumProbes b)) h, False)"

inductive add_step :: "slice \<times> AddThread list \<Rightarrow> slice \<times> AddThread list \<Rightarrow> bool" where
  load_present: "i < length ts \<Longrightarrow> ts ! i = (p # ps, False) \<Longrightarrow> bit_at d p = Inr True \<Longrightarrow>
    add_step (d, ts) (d, ts[i := (ps, False)])"
| load_missing: "i < length ts \<Longrightarrow> ts ! i = (p # ps, False) \<Longrightarrow> bit_at d p = Inr False \<Longrightarrow>
    add_step (d, ts) (d, ts[i := (p # ps, True)])"
| fetch_or: "i < length ts \<Longrightarrow> ts ! i = (p # ps, True) \<Longrightarrow> or_bit d p = Inr d' \<Longrightarrow>
    add_step (d, ts) (d', ts[i := (ps, False)])"

section \<open>Bits\<close>

definition in_bits :: "slice \<Rightarrow> u32 \<Rightarrow> bool" where
  "in_bits d p \<longleftrightarrow> unat p < 8 * length d"

definition has_bit :: "slice \<Rightarrow> u32 \<Rightarrow> bool" where
  "has_bit d p \<longleftrightarrow> in_bits d p \<and> bit (d ! (unat p div 8)) (unat p mod 8)"

definition grows :: "slice \<Rightarrow> slice \<Rightarrow> bool" where
  "grows d d' \<longleftrightarrow> length d' = length d \<and> (\<forall>p. has_bit d p \<longrightarrow> has_bit d' p)"

lemma grows_refl [simp]: "grows d d"
  by (simp add: grows_def)

lemma grows_trans: "grows d e \<Longrightarrow> grows e f \<Longrightarrow> grows d f"
  by (simp add: grows_def)

lemma grows_has_bit: "grows d d' \<Longrightarrow> has_bit d p \<Longrightarrow> has_bit d' p"
  by (simp add: grows_def)

lemma grows_in_bits: "grows d d' \<Longrightarrow> in_bits d' p = in_bits d p"
  by (simp add: grows_def in_bits_def)

lemma unat_bitpos: "unat (p div 8 :: u32) = unat p div 8" "unat (p mod 8 :: u32) = unat p mod 8"
  by (simp_all add: unat_div_distrib unat_mod_distrib)

lemma bit_at_in: "in_bits d p \<Longrightarrow> bit_at d p = Inr (has_bit d p)"
  by (simp add: bit_at_def unat_bitpos in_bits_def has_bit_def and_exp_eq_0_iff_not_bit push_bit_of_1 less_mult_imp_div_less mult.commute)

lemma or_bit_in:
  assumes "in_bits d p"
  obtains d' where "or_bit d p = Inr d'" "grows d d'" "has_bit d' p"
proof -
  have i: "unat p div 8 < length d" using assms by (simp add: in_bits_def less_mult_imp_div_less mult.commute)
  let ?d = "d[unat p div 8 := d ! (unat p div 8) OR push_bit (unat p mod 8) 1]"
  have "or_bit d p = Inr ?d" using i by (simp add: or_bit_def unat_bitpos Let_def)
  moreover have "grows d ?d" using i
    by (auto simp: grows_def has_bit_def in_bits_def nth_list_update bit_or_iff)
  moreover have "has_bit ?d p" using i assms
    by (simp add: has_bit_def in_bits_def bit_or_iff push_bit_of_1 bit_exp_iff)
  ultimately show thesis by (rule that)
qed

lemma set_probes_in:
  assumes "\<forall>x. in_bits d (pos x)"
  shows "\<exists>d'. set_probes pos nx n h d = Inr d' \<and> grows d d' \<and> (\<forall>p\<in>set (probe_positions pos nx n h). has_bit d' p)"
  using assms
proof (induction n arbitrary: h d)
  case (Suc n)
  obtain e where e: "or_bit d (pos h) = Inr e" "grows d e" "has_bit e (pos h)" using Suc.prems or_bit_in by metis
  then have "\<forall>x. in_bits e (pos x)" using Suc.prems by (simp add: grows_in_bits)
  from Suc.IH [OF this, of "nx h"] obtain d' where
    d': "set_probes pos nx n (nx h) e = Inr d'" "grows e d'" "\<forall>p\<in>set (probe_positions pos nx n (nx h)). has_bit d' p" by blast
  then have "grows d d'" "has_bit d' (pos h)" using e by (auto intro: grows_trans grows_has_bit)
  with e d' show ?case by simp
qed simp

lemma test_probes_in:
  "\<forall>x. in_bits d (pos x) \<Longrightarrow> test_probes pos nx n h d = Inr (\<forall>p\<in>set (probe_positions pos nx n h). has_bit d p)"
  by (induction n arbitrary: h) (simp_all add: bit_at_in)

lemma probe_positions_pos: "p \<in> set (probe_positions pos nx n h) \<Longrightarrow> \<exists>x. p = pos x"
  by (induction n arbitrary: h) auto

lemma length_probe_positions [simp]: "length (probe_positions pos nx n h) = n"
  by (induction n arbitrary: h) simp_all

section \<open>No false negatives\<close>

text \<open>What a filter promises: adding works, an added value is found, and stays found.\<close>

locale member_filter =
  fixes wf :: "'s \<Rightarrow> bool" and add :: "'h \<Rightarrow> 's \<Rightarrow> 's result" and test :: "'h \<Rightarrow> 's \<Rightarrow> bool result"
  assumes add_wf: "wf s \<Longrightarrow> \<exists>s'. add h s = Inr s' \<and> wf s'"
    and test_added: "wf s \<Longrightarrow> add h s = Inr s' \<Longrightarrow> test h s' = Inr True"
    and test_kept: "wf s \<Longrightarrow> add h s = Inr s' \<Longrightarrow> test g s = Inr True \<Longrightarrow> test g s' = Inr True"
begin

lemma add_each_finds:
  assumes "wf s"
  shows "\<exists>s'. add_each add hs s = Inr s' \<and> wf s' \<and> (\<forall>h. h \<in> set hs \<or> test h s = Inr True \<longrightarrow> test h s' = Inr True)"
  using assms
proof (induction hs arbitrary: s)
  case (Cons h hs)
  obtain t where t: "add h s = Inr t" "wf t" using add_wf [OF Cons.prems] by blast
  from Cons.IH [OF t(2)] obtain s' where
    s': "add_each add hs t = Inr s'" "wf s'" "\<forall>h. h \<in> set hs \<or> test h t = Inr True \<longrightarrow> test h s' = Inr True" by blast
  moreover have "test h t = Inr True" using Cons.prems t(1) by (rule test_added)
  moreover have "test g t = Inr True" if "test g s = Inr True" for g using Cons.prems t(1) that by (rule test_kept)
  ultimately show ?case using t by auto
qed simp

end

text \<open>A filter whose positions are always inside its bytes.\<close>

lemma probes_filter:
  assumes "\<And>h. \<forall>x. in_bits d (pos h x)"
  shows "\<exists>d'. set_probes (pos h) (nx h) n h d = Inr d' \<and> length d' = length d"
    and "set_probes (pos h) (nx h) n h d = Inr d' \<Longrightarrow> test_probes (pos h) (nx h) n h d' = Inr True"
    and "set_probes (pos h) (nx h) n h d = Inr d' \<Longrightarrow> test_probes (pos g) (nx g) n g d = Inr True \<Longrightarrow>
      test_probes (pos g) (nx g) n g d' = Inr True"
proof -
  obtain e where e: "set_probes (pos h) (nx h) n h d = Inr e" "grows d e"
      "\<forall>p\<in>set (probe_positions (pos h) (nx h) n h). has_bit e p"
    using set_probes_in [OF assms] by blast
  have i: "\<forall>x. in_bits e (pos g x)" for g using e(2) assms by (simp add: grows_in_bits)
  show "\<exists>d'. set_probes (pos h) (nx h) n h d = Inr d' \<and> length d' = length d" using e by (simp add: grows_def)
  show "test_probes (pos h) (nx h) n h d' = Inr True" if "set_probes (pos h) (nx h) n h d = Inr d'"
    using that e test_probes_in [OF i] by simp
  show "test_probes (pos g) (nx g) n g d' = Inr True" if "set_probes (pos h) (nx h) n h d = Inr d'" "test_probes (pos g) (nx g) n g d = Inr True"
    using that e test_probes_in [OF i] test_probes_in [OF assms] by (auto intro: grows_has_bit)
qed

subsection \<open>The lines of a table filter\<close>

fun line_log2 :: "Machine \<Rightarrow> nat" where
  "line_log2 S390 = 8"
| "line_log2 PowerPC_AArch64 = 7"
| "line_log2 OtherMachine = 6"

lemma line_log2_bounds: "6 \<le> line_log2 m" "line_log2 m \<le> 8"
  by (cases m, simp_all)+

lemma unat_CACHE_LINE_SIZE: "unat (CACHE_LINE_SIZE m) = 2 ^ line_log2 m" "unat (CACHE_LINE_SIZE m * 8) = 2 ^ (line_log2 m + 3)"
  by (cases m, simp_all)+

lemma CACHE_LINE_SIZE_bits: "CACHE_LINE_SIZE m * 8 = 2 ^ (line_log2 m + 3)"
  by (cases m) simp_all

definition line_pos :: "Machine \<Rightarrow> u32 \<Rightarrow> u32 \<Rightarrow> u32 \<Rightarrow> u32" where
  "line_pos m num_lines h x = (h mod num_lines) * (CACHE_LINE_SIZE m * 8) + x mod (CACHE_LINE_SIZE m * 8)"

lemma unat_line:
  assumes "0 < num_lines" "unat num_lines * 2 ^ k < 2 ^ 32"
  shows "unat ((h mod num_lines) * 2 ^ k + x mod 2 ^ k :: u32) < unat num_lines * 2 ^ k"
proof -
  have n: "0 < unat num_lines" using assms(1) by (simp add: word_less_nat_alt)
  have k: "k < 32"
  proof (rule ccontr)
    assume "\<not> k < 32"
    then have "(2 :: nat) ^ 32 \<le> 2 ^ k" by (intro power_increasing) auto
    also have "\<dots> \<le> unat num_lines * 2 ^ k" using n by simp
    finally show False using assms(2) by simp
  qed
  let ?a = "unat (h mod num_lines)" and ?r = "unat (x mod 2 ^ k :: u32)"
  have a: "?a + 1 \<le> unat num_lines" using n by (simp add: unat_mod_distrib Suc_le_eq)
  have p: "unat (2 ^ k :: u32) = 2 ^ k" using k by (intro unat_pow2_word) simp
  have r: "?r < 2 ^ k" by (simp add: unat_mod_distrib p)
  have sum: "?a * 2 ^ k + ?r < unat num_lines * 2 ^ k"
    using r mult_right_mono [OF a, of "2 ^ k"] by simp
  have "unat ((h mod num_lines) * 2 ^ k + x mod 2 ^ k :: u32) = (?a * 2 ^ k + ?r) mod 2 ^ 32"
    by (simp add: unat_word_ariths p mod_add_left_eq)
  with sum assms(2) show ?thesis by simp
qed

lemma line_pos_in:
  assumes "0 < num_lines" "unat num_lines * 2 ^ (line_log2 m + 3) < 2 ^ 32" "unat num_lines * 2 ^ line_log2 m \<le> length d"
  shows "in_bits d (line_pos m num_lines h x)"
proof -
  have "unat (line_pos m num_lines h x) < unat num_lines * 2 ^ (line_log2 m + 3)"
    unfolding line_pos_def CACHE_LINE_SIZE_bits using assms(1,2) by (rule unat_line)
  also have "\<dots> \<le> 8 * length d" using assms(3) by (simp add: power_add)
  finally show ?thesis by (simp add: in_bits_def)
qed

definition lines_ok :: "Machine \<Rightarrow> u32 \<Rightarrow> u32 \<Rightarrow> nat \<Rightarrow> slice \<Rightarrow> bool" where
  "lines_ok m num_lines total_bits len d \<longleftrightarrow> length d = len \<and> 0 < num_lines \<and> 0 < total_bits
     \<and> unat num_lines * 2 ^ (line_log2 m + 3) < 2 ^ 32 \<and> unat num_lines * 2 ^ line_log2 m \<le> length d"

definition lines_test :: "Machine \<Rightarrow> u64 \<Rightarrow> u32 \<Rightarrow> u32 \<Rightarrow> slice \<Rightarrow> bool result" where
  "lines_test m num_probes num_lines h = test_probes (line_pos m num_lines h) (\<lambda>x. x + probe_delta h) (unat num_probes) h"

lemma FullFilter_AddHash_probes:
  "lines_ok m nl tb len d \<Longrightarrow>
     FullFilter_AddHash m np nl tb h d = set_probes (line_pos m nl h) (\<lambda>x. x + probe_delta h) (unat np) h d"
  by (simp add: FullFilter_AddHash_def lines_ok_def line_pos_def [abs_def])

lemma lines_ok_in: "lines_ok m nl tb len d \<Longrightarrow> \<forall>x. in_bits d (line_pos m nl h x)"
  by (simp add: lines_ok_def line_pos_in)

interpretation table_bits: member_filter "lines_ok m nl tb len" "FullFilter_AddHash m np nl tb" "lines_test m np nl" for m np nl tb len
proof (unfold_locales, goal_cases)
  case (1 d h)
  then show ?case using probes_filter(1) [of d "line_pos m nl" h "\<lambda>h x. x + probe_delta h" "unat np"] lines_ok_in [OF 1]
    by (auto simp: FullFilter_AddHash_probes lines_ok_def)
next
  case (2 d h d')
  then show ?case using probes_filter(2) [of d "line_pos m nl" h "\<lambda>h x. x + probe_delta h" "unat np"] lines_ok_in [OF 2(1)]
    by (auto simp: FullFilter_AddHash_probes lines_test_def)
next
  case (3 d h d' g)
  then show ?case using probes_filter(3) [of d "line_pos m nl" h "\<lambda>h x. x + probe_delta h" "unat np" d' g] lines_ok_in [OF 3(1)]
    by (auto simp: FullFilter_AddHash_probes lines_test_def)
qed

definition lines_of :: "Machine \<Rightarrow> u32 \<Rightarrow> nat" where
  "lines_of m t =
     (let q = unat (t + 2 ^ (line_log2 m + 3) - 1) div 2 ^ (line_log2 m + 3) in if even q then q + 1 else q)"

lemma GetTotalBitsForLocality_lines:
  obtains n where "n = lines_of m t" "0 < n" "n * 2 ^ (line_log2 m + 3) < 2 ^ 32"
    "GetTotalBitsForLocality m t = of_nat (n * 2 ^ (line_log2 m + 3))"
proof -
  let ?L = "2 ^ (line_log2 m + 3) :: u32" and ?k = "line_log2 m + 3"
  let ?q = "(t + ?L - 1) div ?L"
  have k: "?k \<le> 11" using line_log2_bounds [of m] by simp
  have L: "unat ?L = 2 ^ ?k" using k by (intro unat_pow2_word) simp
  have split: "(2 :: nat) ^ 32 = 2 ^ (32 - ?k) * 2 ^ ?k" using k by (simp flip: power_add)
  have q_eq: "unat ?q = unat (t + ?L - 1) div 2 ^ ?k" by (simp only: unat_div_distrib L)
  also have "\<dots> < 2 ^ (32 - ?k)" using unat_less_exp [of "t + ?L - 1"] split by (simp add: less_mult_imp_div_less)
  finally have q: "unat ?q < 2 ^ (32 - ?k)" .
  define n where "n = (if even (unat ?q) then unat ?q + 1 else unat ?q)"
  have "odd n" by (simp add: n_def)
  moreover have "even ((2 :: nat) ^ (32 - ?k))" using k by simp
  ultimately have "n \<noteq> 2 ^ (32 - ?k)" by auto
  then have n: "0 < n" "n < 2 ^ (32 - ?k)" using q by (auto simp: n_def odd_pos split: if_splits)
  then have b: "n * 2 ^ ?k < 2 ^ 32" unfolding split by (intro mult_strict_right_mono) simp_all
  have "?q mod 2 = 0 \<longleftrightarrow> even (unat ?q)"
    by (simp only: word_unat_eq_iff unat_mod_distrib even_iff_mod_2_eq_zero) simp
  then have "(if ?q mod 2 = 0 then ?q + 1 else ?q) = of_nat n" by (simp add: n_def add.commute)
  then have "GetTotalBitsForLocality m t = of_nat (n * 2 ^ ?k)"
    by (simp only: GetTotalBitsForLocality_def CACHE_LINE_SIZE_bits Let_def) simp
  moreover have "n = lines_of m t" by (simp only: n_def lines_of_def q_eq Let_def)
  ultimately show thesis using n(1) b that by simp
qed

lemma total_bits_words:
  assumes "n * 2 ^ (line_log2 m + 3) < 2 ^ 32"
  defines "t \<equiv> of_nat (n * 2 ^ (line_log2 m + 3)) :: u32"
  shows "unat t = n * 2 ^ (line_log2 m + 3)" "unat (of_nat n :: u32) = n" "t div 8 = of_nat (n * 2 ^ line_log2 m)"
    "unat (t div 8) = n * 2 ^ line_log2 m" "t div (CACHE_LINE_SIZE m * 8) = of_nat n"
proof -
  have small: "n * 2 ^ line_log2 m < 2 ^ 32" "n < 2 ^ 32"
    using assms(1) by (auto simp: power_add intro: le_less_trans [of _ "n * 2 ^ line_log2 m"])
  show t: "unat t = n * 2 ^ (line_log2 m + 3)" unfolding t_def using assms(1) by (rule unat_of_nat_u32)
  show n: "unat (of_nat n :: u32) = n" using small(2) by (rule unat_of_nat_u32)
  show d: "t div 8 = of_nat (n * 2 ^ line_log2 m)"
    by (simp only: word_unat_eq_iff unat_div_distrib t unat_of_nat_u32 [OF small(1)]) (simp add: power_add)
  show "unat (t div 8) = n * 2 ^ line_log2 m" unfolding d using small(1) by (rule unat_of_nat_u32)
  show "t div (CACHE_LINE_SIZE m * 8) = of_nat n"
    by (simp only: word_unat_eq_iff unat_div_distrib t unat_CACHE_LINE_SIZE n) simp
qed

lemma CalculateSpace_lines:
  assumes "fb_bits_per_key b \<noteq> 0" "e \<noteq> 0"
  obtains n where "n = lines_of m (e * ucast (fb_bits_per_key b))" "0 < n" "n * 2 ^ (line_log2 m + 3) < 2 ^ 32"
    "CalculateSpace m b e = Inr (of_nat (n * 2 ^ line_log2 m + 5), of_nat (n * 2 ^ (line_log2 m + 3)), of_nat n)"
proof -
  obtain n where l: "n = lines_of m (e * ucast (fb_bits_per_key b))" and n: "0 < n" "n * 2 ^ (line_log2 m + 3) < 2 ^ 32"
    "GetTotalBitsForLocality m (e * ucast (fb_bits_per_key b)) = of_nat (n * 2 ^ (line_log2 m + 3))"
    by (rule GetTotalBitsForLocality_lines)
  let ?t = "of_nat (n * 2 ^ (line_log2 m + 3)) :: u32"
  note t = total_bits_words [OF n(2)]
  have "?t > 0" using n(1) by (simp only: word_less_nat_alt t) simp
  moreover have "?t mod 8 = 0" by (simp only: word_unat_eq_iff unat_mod_distrib t) (simp add: power_add)
  ultimately have "CalculateSpace m b e = Inr (of_nat (n * 2 ^ line_log2 m) + 5, ?t, of_nat n)"
    using assms by (simp only: CalculateSpace_def n(3) Let_def t) simp
  then show thesis using l n(1,2) that by simp
qed

lemma put_at_tail: "i = length xs \<Longrightarrow> length bs = length ys \<Longrightarrow> put_at (xs @ ys @ zs) i bs = Inr (xs @ bs @ zs)"
  by (simp add: put_at_def)

lemma has_bit_append: "unat p < 8 * length d \<Longrightarrow> has_bit (d @ e) p = has_bit d p"
  by (simp add: has_bit_def in_bits_def nth_append less_mult_imp_div_less mult.commute)

lemma lines_test_append:
  assumes "lines_ok m nl tb len d"
  shows "lines_test m np nl h (d @ e) = lines_test m np nl h d"
proof -
  have i: "\<forall>x. in_bits d (line_pos m nl h x)" using assms by (rule lines_ok_in)
  then have j: "\<forall>x. in_bits (d @ e) (line_pos m nl h x)" by (simp add: in_bits_def trans_less_add1)
  have "has_bit (d @ e) p = has_bit d p" if "p \<in> set (probe_positions (line_pos m nl h) nx n y)" for p nx n y
    using i probe_positions_pos [OF that] by (metis has_bit_append in_bits_def)
  then show ?thesis by (simp add: lines_test_def test_probes_in [OF i] test_probes_in [OF j])
qed

text \<open>A finished filter: its lines, the number of probes, the number of lines.\<close>

definition filter_bytes :: "slice \<Rightarrow> u64 \<Rightarrow> u32 \<Rightarrow> slice" where
  "filter_bytes d np nl = d @ [ucast np] @ EncodeFixed32 kLittleEndian nl"

lemma FullFilter_Finish_contents:
  assumes "fb_bits_per_key b \<noteq> 0" "hash_entries b \<noteq> []" "length (hash_entries b) < 2 ^ 32"
  obtains n d where "0 < n" "n * 2 ^ (line_log2 m + 3) < 2 ^ 32" "length d = n * 2 ^ line_log2 m"
    "FullFilter_Finish m b = Inr (filter_bytes d (fb_num_probes b) (of_nat n), b\<lparr>hash_entries := []\<rparr>)"
    "\<forall>h\<in>set (hash_entries b). lines_test m (fb_num_probes b) (of_nat n) h d = Inr True"
proof -
  let ?e = "of_nat (length (hash_entries b)) :: u32" and ?k = "line_log2 m" and ?np = "fb_num_probes b"
  have "?e \<noteq> 0" using assms(2,3) unat_of_nat_u32 [OF assms(3)] by auto
  then obtain n where n: "0 < n" "n * 2 ^ (?k + 3) < 2 ^ 32"
    and sp: "CalculateSpace m b ?e = Inr (of_nat (n * 2 ^ ?k + 5), of_nat (n * 2 ^ (?k + 3)), of_nat n)"
    using CalculateSpace_lines assms(1) by metis
  let ?N = "n * 2 ^ ?k" and ?tb = "of_nat (n * 2 ^ (?k + 3)) :: u32" and ?nl = "of_nat n :: u32"
  have N: "8 * ?N < 2 ^ 32" using n(2) by (simp add: power_add)
  have u: "unat (of_nat (?N + 5) :: u32) = ?N + 5" "unat ?tb = n * 2 ^ (?k + 3)" "unat ?nl = n"
    "unat (?tb div 8) = ?N"
    using total_bits_words [OF n(2)] unat_of_nat_u32 [of "?N + 5"] N by auto
  have u1: "unat (?tb div 8 + 1) = ?N + 1" "unat (?tb div 8 + 5) = ?N + 5"
    using N by (simp_all add: unat_word_ariths(1) u(4) del: of_nat_mult)
  have pos: "?tb > 0" "?nl > 0" using n(1) by (simp_all only: word_less_nat_alt u) simp_all
  let ?d0 = "replicate (?N + 5) 0 :: slice"
  have "lines_ok m ?nl ?tb (?N + 5) ?d0" using pos n(2) by (simp add: lines_ok_def u del: of_nat_mult)
  from table_bits.add_each_finds [OF this, of ?np "hash_entries b"] obtain d1 where
    d1: "add_each (FullFilter_AddHash m ?np ?nl ?tb) (hash_entries b) ?d0 = Inr d1" "lines_ok m ?nl ?tb (?N + 5) d1"
      "\<forall>h\<in>set (hash_entries b). lines_test m ?np ?nl h d1 = Inr True" by blast
  define d where "d = take ?N d1"
  have len: "length d1 = ?N + 5" using d1(2) by (simp add: lines_ok_def)
  then have "length (drop ?N d1) = 5" by simp
  then obtain x ys where tail: "drop ?N d1 = x # ys" "length ys = 4" by (cases "drop ?N d1") auto
  then have split: "d1 = d @ [x] @ ys" by (metis append_Cons append_Nil append_take_drop_id d_def)
  have dl: "length d = ?N" using len by (simp add: d_def)
  have "lines_ok m ?nl ?tb ?N d" using d1(2) dl u(3) by (simp add: lines_ok_def)
  then have found: "\<forall>h\<in>set (hash_entries b). lines_test m ?np ?nl h d = Inr True"
    using d1(3) by (simp add: split lines_test_append)
  have p1: "put_at d1 ?N [ucast ?np] = Inr (d @ [ucast ?np] @ ys)"
    unfolding split using dl by (intro put_at_tail) simp_all
  have p2: "put_at (d @ [ucast ?np] @ ys) (?N + 1) (EncodeFixed32 kLittleEndian ?nl) = Inr (filter_bytes d ?np ?nl)"
    using put_at_tail [of "?N + 1" "d @ [ucast ?np]" "EncodeFixed32 kLittleEndian ?nl" ys "[]"] dl tail(2)
    by (simp add: filter_bytes_def)
  have rs: "ReserveSpace m b ?e = Inr (?d0, ?tb, ?nl)" by (simp only: ReserveSpace_def sp and_then_simps prod.case u)
  have "take (?N + 5) (filter_bytes d ?np ?nl) = filter_bytes d ?np ?nl" using dl by (simp add: filter_bytes_def)
  then have "FullFilter_Finish m b = Inr (filter_bytes d ?np ?nl, b\<lparr>hash_entries := []\<rparr>)"
    using pos by (simp only: FullFilter_Finish_def rs and_then_simps prod.case d1(1) p1 p2 u u1 if_P word_neq_0_conv simp_thms)
  with n dl found show thesis by (intro that)
qed

subsection \<open>Reading a table filter\<close>

text \<open>The sign of a machine integer is its top bit.\<close>

lemma unat_no_sign: "LENGTH('a::len) = Suc n \<Longrightarrow> \<not> bit w n \<Longrightarrow> unat (w :: 'a word) < 2 ^ n"
proof -
  assume n: "LENGTH('a) = Suc n" "\<not> bit w n"
  then have "take_bit n w = w"
    by (intro bit_word_eqI) (metis bit_take_bit_iff less_SucE)
  then have "unat w = take_bit n (unat w)" by (metis unsigned_take_bit_eq)
  then show ?thesis by (metis take_bit_nat_less_exp)
qed

lemma scast_no_sign: "LENGTH('a::len) = Suc n \<Longrightarrow> \<not> bit w n \<Longrightarrow> scast (w :: 'a word) = (ucast w :: u64)"
proof -
  assume n: "LENGTH('a) = Suc n" "\<not> bit w n"
  have "\<not> bit w k" if "n \<le> k" for k
    using n that bit_imp_le_length [of w k] by (cases "k = n") auto
  then show ?thesis using n(1) by (intro bit_word_eqI) (auto simp: bit_simps bit_signed_iff min_def dest: bit_imp_le_length)
qed

lemma small_byte_signed: "unat (np :: u64) < 128 \<Longrightarrow> scast (ucast np :: byte) = np"
proof -
  assume np: "unat np < 128"
  then have "\<not> bit (ucast np :: byte) 7" using not_bit_small [of np 7 7] by (simp add: bit_ucast_iff)
  then have "scast (ucast np :: byte) = (ucast (ucast np :: byte) :: u64)" by (intro scast_no_sign) simp_all
  also have "\<dots> = take_bit 8 np" by (rule ucast_ucast_byte)
  also have "\<dots> = np" using np by (intro take_bit_word_self) simp
  finally show ?thesis .
qed

lemma GetFilterMeta_filter_bytes:
  assumes "length d + 5 < 2 ^ 32" "d \<noteq> []"
  shows "GetFilterMeta (filter_bytes d np nl) = (scast (ucast np :: byte), nl)"
proof -
  let ?f = "filter_bytes d np nl"
  have len: "length ?f = length d + 5" by (simp add: filter_bytes_def)
  have u: "unat (of_nat (length ?f) :: u32) = length d + 5" using assms(1) len by (simp only: unat_of_nat_u32)
  have big: "\<not> (of_nat (length ?f) :: u32) \<le> 5" using assms(2) by (simp only: word_le_nat_alt u) simp
  have "of_nat (length ?f) - 5 = (of_nat (length d) :: u32)" "of_nat (length ?f) - 4 = (of_nat (length d + 1) :: u32)"
    by (simp_all add: len)
  then have s: "unat (of_nat (length ?f) - 5 :: u32) = length d" "unat (of_nat (length ?f) - 4 :: u32) = length d + 1"
    using unat_of_nat_u32 [of "length d"] unat_of_nat_u32 [of "length d + 1"] assms(1) by simp_all
  have "byte_at ?f (length d) = ucast np" by (simp add: byte_at_def filter_bytes_def)
  moreover have "drop (length d + 1) ?f = EncodeFixed32 kLittleEndian nl" by (simp add: filter_bytes_def)
  moreover have "DecodeFixed32 kLittleEndian (EncodeFixed32 kLittleEndian nl) = nl"
    using DecodeFixed32_EncodeFixed32 [of kLittleEndian _ nl "[]"] by simp
  ultimately show ?thesis using big by (simp only: GetFilterMeta_def Let_def s if_False)
qed

lemma find_log2_power:
  assumes "0 < n" "n * 2 ^ k < 2 ^ 32" "j \<le> k"
  shows "find_log2 (of_nat (n * 2 ^ k)) (of_nat n) j = Some k"
proof -
  have "n \<le> n * 2 ^ k" by simp
  then have "n < 2 ^ 32" using assms(2) by (rule le_less_trans)
  then have nn: "unat (of_nat n :: u32) = n" by (rule unat_of_nat_u32)
  then have n0: "(of_nat n :: u32) \<noteq> 0" using assms(1) by auto
  show ?thesis using assms(3)
  proof (induction "k - j" arbitrary: j)
    case (0 j)
    then have "drop_bit j (of_nat (n * 2 ^ k)) = (of_nat n :: u32)"
      using assms(2) by (simp only: word_unat_eq_iff unat_drop_bit_div) (simp add: unat_of_nat_u32 nn del: of_nat_mult of_nat_power)
    then show ?case using 0 assms n0 by (subst find_log2.simps) simp
  next
    case (Suc i j)
    have "n * 2 ^ k div 2 ^ j = n * 2 ^ (k - j)" using Suc.prems by (simp add: power_diff div_mult_swap le_imp_power_dvd)
    moreover have "1 < (2 :: nat) ^ (k - j)" using Suc.hyps(2) by (intro one_less_power) auto
    then have "n < n * 2 ^ (k - j)" using assms(1) by simp
    ultimately have "unat (drop_bit j (of_nat (n * 2 ^ k)) :: u32) > n"
      using assms(2) by (simp only: unat_drop_bit_div unat_of_nat_u32)
    then have "drop_bit j (of_nat (n * 2 ^ k)) \<noteq> (of_nat n :: u32)" "drop_bit j (of_nat (n * 2 ^ k)) \<noteq> (0 :: u32)"
      using nn by auto
    moreover have "find_log2 (of_nat (n * 2 ^ k)) (of_nat n) (j + 1) = Some k" using Suc by simp
    ultimately show ?case by (subst find_log2.simps) (simp only: Let_def if_False)
  qed
qed

lemma probe_turn_loop:
  assumes "unat i + n = unat np" "unat np < 2 ^ 32" "\<forall>x. in_bits d (pos x)"
  shows "\<exists>i' h'. run_loop (probe_turn pos nx np d) (i, h, True) = returns (i', h', \<forall>p\<in>set (probe_positions pos nx n h). has_bit d p)"
  using assms(1)
proof (induction n arbitrary: i h)
  case 0
  then have "\<not> ucast i < np" by (simp add: word_less_nat_alt unat_ucast_up)
  then show ?case by (subst run_loop.simps) (simp add: probe_turn_def)
next
  case (Suc n)
  then have lt: "ucast i < np" by (simp add: word_less_nat_alt unat_ucast_up)
  show ?case
  proof (cases "has_bit d (pos h)")
    case True
    have "unat (i + 1) = unat i + 1" using Suc.prems assms(2) by (simp add: unat_word_ariths)
    then have "unat (i + 1) + n = unat np" using Suc.prems by simp
    then show ?thesis using lt True assms(3) Suc.IH [of "i + 1" "nx h"]
      by (subst run_loop.simps) (simp add: probe_turn_def bit_at_in)
  next
    case False
    then show ?thesis using lt assms(3) by (subst run_loop.simps) (simp add: probe_turn_def bit_at_in)
  qed
qed

lemma reader_pos_line:
  "push_bit (line_log2 m + 3) (h mod nl) + (x AND (push_bit (line_log2 m + 3) 1 - 1)) = line_pos m nl h x"
proof -
  let ?k = "line_log2 m + 3"
  have "x AND (push_bit ?k 1 - 1) = take_bit ?k x" by (simp add: take_bit_eq_mask mask_eq_exp_minus_1 push_bit_of_1)
  also have "\<dots> = x mod 2 ^ ?k" by (rule take_bit_eq_mod)
  finally show ?thesis by (simp add: line_pos_def CACHE_LINE_SIZE_bits push_bit_eq_mult)
qed

lemma HashMayMatch_loop:
  assumes "fr_num_probes r \<noteq> 0" "\<not> data_len r \<le> 5" "(data_len r - 5) mod fr_num_lines r = 0" "fr_num_lines r \<noteq> 0"
    "log2_cache_line_size r = line_log2 m"
  shows "HashMayMatch r h = run_then
      (run_loop (probe_turn (line_pos m (fr_num_lines r) h) (\<lambda>x. x + probe_delta h) (fr_num_probes r) (fr_data r)) (0, h, True))
      (\<lambda>(_, _, res). returns res)"
proof -
  have "(\<lambda>x. push_bit (line_log2 m + 3) (h mod fr_num_lines r) + (x AND (push_bit (line_log2 m + 3) 1 - 1))) = line_pos m (fr_num_lines r) h"
    by (rule ext) (rule reader_pos_line)
  then show ?thesis using assms(1-4) by (simp only: HashMayMatch_def Let_def assms(5)) simp
qed

lemma HashMayMatch_lines:
  assumes "unat (fr_num_probes r) < 2 ^ 32" "fr_num_probes r \<noteq> 0" "\<not> data_len r \<le> 5" "(data_len r - 5) mod fr_num_lines r = 0"
    "log2_cache_line_size r = line_log2 m" "lines_ok m (fr_num_lines r) tb len (fr_data r)"
  shows "HashMayMatch r h = Some (lines_test m (fr_num_probes r) (fr_num_lines r) h (fr_data r))"
proof -
  have i: "\<forall>x. in_bits (fr_data r) (line_pos m (fr_num_lines r) h x)" using assms(6) by (rule lines_ok_in)
  have nl: "fr_num_lines r \<noteq> 0" using assms(6) by (auto simp: lines_ok_def)
  show ?thesis
    using probe_turn_loop [of 0 "unat (fr_num_probes r)" "fr_num_probes r" _ _ "\<lambda>x. x + probe_delta h" h, OF _ assms(1) i]
    by (auto simp: HashMayMatch_loop [OF assms(2-4) nl assms(5)] lines_test_def test_probes_in [OF i])
qed

lemma reader_new_filter_bytes:
  fixes np :: u64
  assumes "0 < n" "n * 2 ^ (line_log2 m + 3) < 2 ^ 32" "length d = n * 2 ^ line_log2 m"
  defines "f \<equiv> filter_bytes d np (of_nat n)" and "len \<equiv> of_nat (length d + 5) :: u32"
  shows "FullFilterBitsReader_new ndebug f =
      Inr \<lparr>fr_data = f, data_len = len, fr_num_probes = scast (ucast np :: byte), fr_num_lines = of_nat n, log2_cache_line_size = line_log2 m\<rparr>"
    and "\<not> len \<le> 5" and "(len - 5) mod of_nat n = 0" and "lines_ok m (of_nat n) 1 (length d) d" and "lines_ok m (of_nat n) 1 (length f) f"
proof -
  let ?nl = "of_nat n :: u32"
  have d: "8 * length d < 2 ^ 32" using assms(2,3) by (simp add: power_add)
  have nl: "unat ?nl = n" using assms(2) by (rule total_bits_words)
  have nl0: "0 < ?nl" "?nl \<noteq> 0" using assms(1) nl by (auto simp: word_less_nat_alt)
  have ld: "length f = length d + 5" by (simp add: f_def filter_bytes_def)
  have "d \<noteq> []" using assms(1,3) by auto
  then have meta: "GetFilterMeta f = (scast (ucast np :: byte), ?nl)"
    unfolding f_def using d by (intro GetFilterMeta_filter_bytes) simp_all
  have l5: "len - 5 = of_nat (n * 2 ^ line_log2 m)" by (simp add: len_def assms(3))
  show md: "(len - 5) mod ?nl = 0"
    unfolding l5 using d assms(3) nl by (simp only: word_unat_eq_iff unat_mod_distrib unat_of_nat_u32) simp
  have "unat len = length d + 5" unfolding len_def using d by (intro unat_of_nat_u32) simp
  then show "\<not> len \<le> 5" using assms(1,3) by (simp only: word_le_nat_alt) simp
  have lg: "find_log2 (len - 5) ?nl 0 = Some (line_log2 m)"
    unfolding l5 using assms(1) d by (intro find_log2_power) (simp_all add: assms(3))
  show "FullFilterBitsReader_new ndebug f =
      Inr \<lparr>fr_data = f, data_len = len, fr_num_probes = scast (ucast np :: byte), fr_num_lines = ?nl, log2_cache_line_size = line_log2 m\<rparr>"
    using nl0 md lg by (simp only: FullFilterBitsReader_new_def meta ld Let_def flip: len_def) simp
  show "lines_ok m ?nl 1 (length d) d" "lines_ok m ?nl 1 (length f) f"
    using assms(2,3) nl nl0 ld by (simp_all add: lines_ok_def)
qed

lemma reader_of_filter_bytes:
  assumes "0 < n" "n * 2 ^ (line_log2 m + 3) < 2 ^ 32" "length d = n * 2 ^ line_log2 m" "0 < unat np" "unat np < 128"
  shows "\<exists>r. FullFilterBitsReader_new ndebug (filter_bytes d np (of_nat n)) = Inr r
    \<and> FullFilter_MayMatch r key = Some (lines_test m np (of_nat n) (BloomHash key) d)"
proof -
  let ?f = "filter_bytes d np (of_nat n)"
  note new = reader_new_filter_bytes(1) [OF assms(1-3), where np = np] reader_new_filter_bytes(2-4) [OF assms(1-3)]
    reader_new_filter_bytes(5) [OF assms(1-3), where np = np]
  have np: "np \<noteq> 0" "scast (ucast np :: byte) = np" using assms(4,5) small_byte_signed by auto
  have "(of_nat n :: u32) \<noteq> 0" using new(4) by (auto simp: lines_ok_def)
  with HashMayMatch_lines [where tb = 1 and len = "length ?f" and m = m and h = "BloomHash key",
      of "\<lparr>fr_data = ?f, data_len = of_nat (length d + 5), fr_num_probes = np, fr_num_lines = of_nat n, log2_cache_line_size = line_log2 m\<rparr>"]
  show ?thesis using new np assms(5) lines_test_append [OF new(4), of np "BloomHash key"]
    by (simp add: FullFilter_MayMatch_def filter_bytes_def)
qed

lemma FullFilter_AddKey_entries:
  "set (hash_entries (FullFilter_AddKey key b)) = insert (BloomHash key) (set (hash_entries b))"
  "length (hash_entries (FullFilter_AddKey key b)) \<le> Suc (length (hash_entries b))"
  "fb_bits_per_key (FullFilter_AddKey key b) = fb_bits_per_key b"
  "fb_num_probes (FullFilter_AddKey key b) = fb_num_probes b"
  by (auto simp: FullFilter_AddKey_def Let_def)

lemma FullFilter_AddKeys:
  "set (hash_entries (fold FullFilter_AddKey keys b)) = set (hash_entries b) \<union> BloomHash ` set keys"
  "length (hash_entries (fold FullFilter_AddKey keys b)) \<le> length (hash_entries b) + length keys"
  "fb_bits_per_key (fold FullFilter_AddKey keys b) = fb_bits_per_key b"
  "fb_num_probes (fold FullFilter_AddKey keys b) = fb_num_probes b"
proof (induction keys arbitrary: b)
  case (Cons key keys)
  { case 2 show ?case using Cons.IH(2) [of "FullFilter_AddKey key b"] FullFilter_AddKey_entries(2) [of key b] by simp }
qed (auto simp: FullFilter_AddKey_entries)

lemma policy_probes_range: "0 < unat (policy_probes w)" "unat (policy_probes w) \<le> 30"
proof -
  have "unat (of_nat n :: u64) = n" if "n \<le> 30" for n using that by (simp add: unsigned_of_nat take_bit_nat_eq_self)
  then show "0 < unat (policy_probes w)" "unat (policy_probes w) \<le> 30" by (auto simp: policy_probes_def Let_def not_less)
qed

lemma full_filter_finds:
  assumes "fb_bits_per_key b \<noteq> 0" "0 < unat (fb_num_probes b)" "unat (fb_num_probes b) < 128" "hash_entries b = []"
    "length keys < 2 ^ 32" "key \<in> set keys"
  shows "\<exists>contents r. FullFilter_Finish m (fold FullFilter_AddKey keys b) = Inr (contents, b)
    \<and> FullFilterBitsReader_new ndebug contents = Inr r \<and> FullFilter_MayMatch r key = returns True"
proof -
  let ?b = "fold FullFilter_AddKey keys b"
  note adds = FullFilter_AddKeys [of keys b]
  have "BloomHash key \<in> set (hash_entries ?b)" using assms(6) adds(1) by simp
  moreover from this have "hash_entries ?b \<noteq> []" by auto
  moreover have "length (hash_entries ?b) < 2 ^ 32" using adds(2) assms(4,5) by simp
  ultimately obtain n d where n: "0 < n" "n * 2 ^ (line_log2 m + 3) < 2 ^ 32" "length d = n * 2 ^ line_log2 m"
    and f: "FullFilter_Finish m ?b = Inr (filter_bytes d (fb_num_probes ?b) (of_nat n), ?b\<lparr>hash_entries := []\<rparr>)"
    and t: "lines_test m (fb_num_probes ?b) (of_nat n) (BloomHash key) d = Inr True"
    using FullFilter_Finish_contents [of ?b m] assms(1) adds(3) by (metis (no_types))
  have "?b\<lparr>hash_entries := []\<rparr> = b" using adds(3,4) assms(4) by simp
  moreover obtain r where "FullFilterBitsReader_new ndebug (filter_bytes d (fb_num_probes ?b) (of_nat n)) = Inr r"
      "FullFilter_MayMatch r key = Some (lines_test m (fb_num_probes ?b) (of_nat n) (BloomHash key) d)"
    using reader_of_filter_bytes [OF n, of "fb_num_probes ?b"] adds(4) assms(2,3) by metis
  ultimately show ?thesis using f t by auto
qed

subsection \<open>The filter of a block\<close>

definition block_pos :: "u64 \<Rightarrow> u32 \<Rightarrow> u32" where
  "block_pos bits x = ucast (ucast x mod bits)"

lemma unat_block_pos: "0 < unat bits \<Longrightarrow> unat (block_pos bits x) < unat bits"
proof -
  assume b: "0 < unat bits"
  have "unat (ucast x mod bits) = unat x mod unat bits" by (simp add: unat_mod_distrib unat_ucast_up)
  moreover have "unat x mod unat bits < 2 ^ 32" using unat_less_exp [of x] by (intro le_less_trans [OF mod_less_eq_dividend]) simp
  ultimately have "unat (block_pos bits x) = unat x mod unat bits"
    by (simp add: block_pos_def unsigned_ucast_eq take_bit_nat_eq_self)
  with b show ?thesis by simp
qed

lemma or_bit_append: "in_bits d p \<Longrightarrow> or_bit d p = Inr d' \<Longrightarrow> or_bit (d @ e) p = Inr (d' @ e)"
  by (auto simp: or_bit_def Let_def in_bits_def unat_bitpos nth_append list_update_append trans_less_add1 split: if_splits)

lemma set_probes_append:
  "\<forall>x. in_bits d (pos x) \<Longrightarrow> set_probes pos nx n h d = Inr d' \<Longrightarrow> set_probes pos nx n h (d @ e) = Inr (d' @ e)"
proof (induction n arbitrary: h d)
  case (Suc n)
  then obtain d1 where d1: "or_bit d (pos h) = Inr d1" "grows d d1" using or_bit_in by metis
  then have "\<forall>x. in_bits d1 (pos x)" using Suc.prems(1) by (simp add: grows_in_bits)
  then show ?case using Suc d1(1) or_bit_append [of d "pos h" d1 e] by simp
qed simp

definition block_ok :: "u64 \<Rightarrow> byte \<Rightarrow> slice \<Rightarrow> bool" where
  "block_ok bits c array \<longleftrightarrow> (\<exists>d. array = d @ [c] \<and> d \<noteq> [] \<and> unat bits = 8 * length d)"

definition block_test :: "u64 \<Rightarrow> u64 \<Rightarrow> slice \<Rightarrow> slice \<Rightarrow> bool result" where
  "block_test bits np key = test_probes (block_pos bits) (\<lambda>x. x + probe_delta (BloomHash key)) (unat np) (BloomHash key)"

lemma block_add_probes:
  "block_add bits np key = set_probes (block_pos bits) (\<lambda>x. x + probe_delta (BloomHash key)) (unat np) (BloomHash key)"
  by (simp add: block_add_def [abs_def] block_pos_def [abs_def] Let_def)

lemma block_ok_in: "block_ok bits c d \<Longrightarrow> \<forall>x. in_bits d (block_pos bits x)"
  using unat_block_pos [of bits] by (fastforce simp: block_ok_def in_bits_def intro: less_trans)

interpretation block_bits: member_filter "block_ok bits c" "block_add bits np" "block_test bits np" for bits c np
proof (unfold_locales, goal_cases)
  case (1 d key)
  then obtain e where e: "d = e @ [c]" "e \<noteq> []" "unat bits = 8 * length e" by (auto simp: block_ok_def)
  then have i: "\<forall>x. in_bits e (block_pos bits x)" using unat_block_pos [of bits] by (simp add: in_bits_def)
  obtain e' where "block_add bits np key e = Inr e'" "grows e e'" unfolding block_add_probes using set_probes_in [OF i] by blast
  then show ?case using e i set_probes_append [OF i]
    by (auto simp: block_add_probes block_ok_def grows_def)
next
  case (2 d key d')
  then show ?case using probes_filter(2) [of d "\<lambda>_. block_pos bits" "BloomHash key" "\<lambda>h x. x + probe_delta h" "unat np"] block_ok_in [OF 2(1)]
    by (simp add: block_add_probes block_test_def)
next
  case (3 d key d' g)
  then show ?case
    using probes_filter(3) [of d "\<lambda>_. block_pos bits" "BloomHash key" "\<lambda>h x. x + probe_delta h" "unat np" d' "BloomHash g"] block_ok_in [OF 3(1)]
    by (simp add: block_add_probes block_test_def)
qed

lemma block_filter_finds:
  assumes "unat (bp_bits_per_key p) < 2 ^ 31" "length keys < 2 ^ 31" "unat (bp_num_probes p) \<le> 30" "key \<in> set keys"
  shows "\<exists>f. CreateFilter p keys dst = Inr (dst @ f) \<and> KeyMayMatch key f = Inr True"
proof -
  let ?b = "of_nat (length keys) * bp_bits_per_key p" and ?np = "bp_num_probes p"
  define bits where "bits = (if ?b < 64 then 64 else ?b)"
  define bytes where "bytes = (bits + 7) div 8"
  have "length keys * unat (bp_bits_per_key p) < 2 ^ 31 * 2 ^ 31" using assms(2,1) by (rule mult_strict_mono) simp_all
  moreover have "unat (of_nat (length keys) :: u64) = length keys" using assms(2) by (simp add: unsigned_of_nat take_bit_nat_eq_self)
  ultimately have "unat ?b < 2 ^ 62" by (simp add: unat_word_ariths)
  then have bits: "unat bits < 2 ^ 62" "64 \<le> unat bits" by (auto simp: bits_def word_less_nat_alt not_less)
  have "unat (bits + 7) = unat bits + 7" using bits(1) by (simp add: unat_word_ariths)
  then have bb: "unat bytes = (unat bits + 7) div 8" by (simp add: bytes_def unat_div_distrib)
  then have b8: "unat (bytes * 8) = unat bytes * 8" "0 < unat bytes" using bits by (simp_all add: unat_word_ariths)
  let ?a = "replicate (unat bytes) 0 @ [ucast ?np :: byte]"
  have "block_ok (bytes * 8) (ucast ?np) ?a" using b8 by (auto simp: block_ok_def)
  from block_bits.add_each_finds [OF this, of ?np keys] obtain f where
    f: "add_each (block_add (bytes * 8) ?np) keys ?a = Inr f" "block_ok (bytes * 8) (ucast ?np) f" "block_test (bytes * 8) ?np key f = Inr True"
    using assms(4) by blast
  from f(2) obtain d where d: "f = d @ [ucast ?np]" "d \<noteq> []" "unat (bytes * 8) = 8 * length d" by (auto simp: block_ok_def)
  have k: "scast (ucast ?np :: byte) = ?np" using assms(3) by (intro small_byte_signed) simp
  have "(length f - 1) * 8 = unat (bytes * 8)" using d by simp
  then have "of_nat ((length f - 1) * 8) = bytes * 8" by (simp only: of_nat_unat ucast_id)
  then have "KeyMayMatch key f = block_test (bytes * 8) ?np key f"
    using assms(3) d k by (auto simp: KeyMayMatch_def block_test_def block_pos_def [abs_def] Let_def word_less_nat_alt)
  moreover have "CreateFilter p keys dst = Inr (dst @ f)"
    using f(1) by (simp add: CreateFilter_def Let_def flip: bits_def) (simp add: bytes_def)
  ultimately show ?thesis using f(3) by auto
qed

subsection \<open>The filter of a memtable\<close>

definition dynamic_ok :: "Machine \<Rightarrow> DynamicBloom \<Rightarrow> bool" where
  "dynamic_ok m b \<longleftrightarrow>
     (\<exists>d. db_data b = Some d \<and>
        (if kNumBlocks b \<noteq> 0 then unat (kNumBlocks b) * 2 ^ (line_log2 m + 3) < 2 ^ 32 \<and> unat (kNumBlocks b) * 2 ^ line_log2 m \<le> length d
         else 0 < kTotalBits b \<and> unat (kTotalBits b) \<le> 8 * length d))"

lemma dynamic_update [simp]:
  "dynamic_pos m (b\<lparr>db_data := x\<rparr>) = dynamic_pos m b" "dynamic_next m (b\<lparr>db_data := x\<rparr>) = dynamic_next m b"
  "IsInitialized (b\<lparr>db_data := x\<rparr>) = IsInitialized b"
  by (auto simp: fun_eq_iff dynamic_pos_def dynamic_next_def IsInitialized_def)

lemma dynamic_pos_in:
  assumes "dynamic_ok m b" "db_data b = Some d"
  shows "\<forall>x. in_bits d (dynamic_pos m b h x)"
proof (cases "kNumBlocks b = 0")
  case True
  then show ?thesis using assms
    by (auto simp: dynamic_ok_def dynamic_pos_def in_bits_def unat_mod_distrib word_less_nat_alt intro: less_le_trans [OF mod_less_divisor])
next
  case False
  have "dynamic_pos m b h x = line_pos m (kNumBlocks b) (drop_bit 11 h OR push_bit 21 h) x" for x
    using False by (simp add: dynamic_pos_def line_pos_def)
  moreover have "in_bits d (line_pos m (kNumBlocks b) g x)" for g x
    using assms False by (intro line_pos_in) (auto simp: dynamic_ok_def word_neq_0_conv)
  ultimately show ?thesis by simp
qed

lemma dynamic_ok_initialized: "dynamic_ok m b \<Longrightarrow> IsInitialized b"
  by (auto simp: dynamic_ok_def IsInitialized_def word_neq_0_conv split: if_splits)

lemma dynamic_ok_update: "dynamic_ok m b \<Longrightarrow> db_data b = Some d \<Longrightarrow> length d' = length d \<Longrightarrow> dynamic_ok m (b\<lparr>db_data := Some d'\<rparr>)"
  by (auto simp: dynamic_ok_def)

interpretation memtable_bits: member_filter "dynamic_ok m" "dynamic_AddHash m" "MayContainHash m" for m
proof (unfold_locales, goal_cases)
  case (1 b h)
  then obtain d where d: "db_data b = Some d" by (auto simp: dynamic_ok_def)
  from probes_filter(1) [where pos = "dynamic_pos m b", OF dynamic_pos_in [OF 1 d], where h = h and nx = "dynamic_next m b" and n = "unat (kNumProbes b)"] show ?case
    using dynamic_ok_initialized [OF 1] d 1 by (auto simp: dynamic_AddHash_def intro: dynamic_ok_update)
next
  case (2 b h b')
  then obtain d where d: "db_data b = Some d" by (auto simp: dynamic_ok_def)
  from probes_filter(2) [where pos = "dynamic_pos m b", OF dynamic_pos_in [OF 2(1) d], where h = h and nx = "dynamic_next m b" and n = "unat (kNumProbes b)"] show ?case
    using dynamic_ok_initialized [OF 2(1)] d 2(2) by (auto simp: dynamic_AddHash_def MayContainHash_def and_then_Inr)
next
  case (3 b h b' g)
  then obtain d where d: "db_data b = Some d" by (auto simp: dynamic_ok_def)
  from probes_filter(3) [where pos = "dynamic_pos m b", OF dynamic_pos_in [OF 3(1) d], where h = h and nx = "dynamic_next m b" and n = "unat (kNumProbes b)"] show ?case
    using dynamic_ok_initialized [OF 3(1)] d 3(2,3) by (auto simp: dynamic_AddHash_def MayContainHash_def and_then_Inr)
qed

lemma SetTotalBits_ok:
  assumes "SetTotalBits m raw total_bits locality b = Inr b'"
  shows "dynamic_ok m b' \<and> hash_func b' = hash_func b"
proof (cases "locality > 0")
  case False
  let ?t = "(total_bits + 7) div 8 * 8"
  have "?t > 0" and b': "b' = b\<lparr>kTotalBits := ?t, kNumBlocks := 0, db_data := Some (replicate (unat (?t div 8)) 0)\<rparr>"
    using assms False by (auto simp: SetTotalBits_def Let_def split: if_splits)
  moreover have "unat ((total_bits + 7) div 8) * 8 < 2 ^ 32"
    using unat_less_exp [of "total_bits + 7"] by (simp add: unat_div_distrib)
  then have "unat ?t = unat ((total_bits + 7) div 8) * 8" by (simp add: unat_word_ariths)
  then have "unat ?t \<le> 8 * unat (?t div 8)" by (simp add: unat_div_distrib)
  ultimately show ?thesis by (simp add: dynamic_ok_def)
next
  case True
  obtain n where n: "0 < n" "n * 2 ^ (line_log2 m + 3) < 2 ^ 32"
      "GetTotalBitsForLocality m total_bits = of_nat (n * 2 ^ (line_log2 m + 3))"
    by (rule GetTotalBitsForLocality_lines)
  let ?t = "of_nat (n * 2 ^ (line_log2 m + 3)) :: u32" and ?nl = "of_nat n :: u32" and ?CL = "CACHE_LINE_SIZE m"
  note t = total_bits_words [OF n(2)]
  have nl: "?nl > 0" "?nl \<noteq> 0" using n(1) t(2) by (auto simp: word_less_nat_alt)
  have "unat (?CL - 1) = unat ?CL - 1" "unat ?CL \<le> 256" by (cases m, simp_all)+
  moreover have "n * 2 ^ line_log2 m < 2 ^ 29" using n(2) by (simp add: power_add)
  ultimately have sz: "unat (?t div 8 + (?CL - 1)) = n * 2 ^ line_log2 m + (unat ?CL - 1)"
    by (simp only: unat_word_ariths(1) t(4)) simp
  define off where "off = (if raw mod ucast ?CL > 0 then unat ?CL - unat (raw mod ucast ?CL) else 0)"
  have off: "off \<le> unat ?CL - 1" by (auto simp: off_def word_less_nat_alt)
  have "b' = b\<lparr>kTotalBits := ?t, kNumBlocks := ?nl, db_data := Some (replicate (unat (?t div 8 + (?CL - 1)) - off) 0)\<rparr>"
    using assms True nl by (simp add: SetTotalBits_def n(3) Let_def t(5) off_def del: of_nat_mult split: if_splits)
  then show ?thesis using off nl n(2) by (simp add: dynamic_ok_def sz t(2) del: of_nat_mult)
qed

lemma dynamic_Adds:
  "add_each (dynamic_Add m) keys b = add_each (dynamic_AddHash m) (map (hash_func b) keys) b"
proof (induction keys arbitrary: b)
  case (Cons key keys)
  show ?case
  proof (cases "dynamic_AddHash m (hash_func b key) b")
    case (Inr b')
    then have "hash_func b' = hash_func b" by (auto simp: dynamic_AddHash_def and_then_Inr split: if_splits option.splits)
    with Inr Cons.IH show ?thesis by (simp add: dynamic_Add_def)
  qed (simp add: dynamic_Add_def)
qed simp

text \<open>
  The threads at work: every thread has set the bits of the positions it has passed. \<open>adds_work\<close> counts the atomic operations that
  are left.
\<close>

definition adding :: "slice \<Rightarrow> u32 list list \<Rightarrow> slice \<times> AddThread list \<Rightarrow> bool" where
  "adding d jobs = (\<lambda>(d', ts). grows d d' \<and> length ts = length jobs \<and>
     (\<forall>i<length jobs. \<exists>passed. jobs ! i = passed @ fst (ts ! i) \<and> (\<forall>p\<in>set passed. has_bit d' p) \<and> (snd (ts ! i) \<longrightarrow> fst (ts ! i) \<noteq> [])))"

fun thread_work :: "AddThread \<Rightarrow> nat" where
  "thread_work (ps, found_missing) = 2 * length ps - of_bool found_missing"

definition adds_work :: "AddThread list \<Rightarrow> nat" where
  "adds_work ts = sum_list (map thread_work ts)"

lemma adding_update:
  assumes "adding d jobs (d', ts)" "i < length ts" "ts ! i = (p # ps, f)" "grows d' d''"
    "t = (ps, False) \<and> has_bit d'' p \<or> t = (p # ps, True)"
  shows "adding d jobs (d'', ts[i := t])"
proof -
  have "\<exists>passed. jobs ! j = passed @ fst (ts[i := t] ! j) \<and> (\<forall>p\<in>set passed. has_bit d'' p) \<and> (snd (ts[i := t] ! j) \<longrightarrow> fst (ts[i := t] ! j) \<noteq> [])"
    if j: "j < length jobs" for j
  proof -
    obtain passed where c: "jobs ! j = passed @ fst (ts ! j)" "\<forall>p\<in>set passed. has_bit d' p" "snd (ts ! j) \<longrightarrow> fst (ts ! j) \<noteq> []"
      using assms(1) j by (auto simp: adding_def)
    then have g: "\<forall>p\<in>set passed. has_bit d'' p" using assms(4) by (auto intro: grows_has_bit)
    show ?thesis
    proof (cases "j = i")
      case True
      then show ?thesis using assms(5) c(1) g assms(2,3)
        by (auto intro: exI [of _ "passed @ [p]"] exI [of _ passed])
    next
      case False
      then show ?thesis using c g by auto
    qed
  qed
  then show ?thesis using assms(1,4) by (auto simp: adding_def intro: grows_trans)
qed

lemma adding_in:
  assumes "adding d jobs (d', ts)" "\<forall>ps\<in>set jobs. \<forall>p\<in>set ps. in_bits d p" "i < length ts" "ts ! i = (p # ps, f)"
  shows "in_bits d' p"
proof -
  obtain passed where "jobs ! i = passed @ p # ps" using assms(1,3,4) by (auto simp: adding_def)
  moreover have "jobs ! i \<in> set jobs" using assms(1,3) by (simp add: adding_def)
  ultimately have "in_bits d p" using assms(2) by (metis in_set_conv_decomp)
  moreover have "grows d d'" using assms(1) by (simp add: adding_def)
  ultimately show ?thesis by (simp add: grows_in_bits)
qed

lemma add_step_adding:
  assumes "add_step s s'" "adding d jobs s" "\<forall>ps\<in>set jobs. \<forall>p\<in>set ps. in_bits d p"
  shows "adding d jobs s'"
  using assms
proof (cases rule: add_step.cases)
  case (load_present i ts p ps e)
  then show ?thesis using assms adding_update [of d jobs e ts i p ps False e] adding_in [of d jobs e ts i p ps False] by (simp add: bit_at_in)
next
  case (load_missing i ts p ps e)
  then show ?thesis using assms adding_update [of d jobs e ts i p ps False e] by simp
next
  case (fetch_or i ts p ps e e')
  then have "in_bits e p" using assms adding_in by blast
  then have "grows e e'" "has_bit e' p" using fetch_or by (metis or_bit_in sum.inject(2))+
  then show ?thesis using fetch_or assms adding_update [of d jobs e ts i p ps True e'] by simp
qed

lemma adds_work_update: "i < length ts \<Longrightarrow> thread_work t < thread_work (ts ! i) \<Longrightarrow> adds_work (ts[i := t]) < adds_work ts"
proof -
  assume i: "i < length ts" and t: "thread_work t < thread_work (ts ! i)"
  have "adds_work ts = sum_list (map thread_work (take i ts)) + thread_work (ts ! i) + sum_list (map thread_work (drop (Suc i) ts))"
    unfolding adds_work_def by (subst id_take_nth_drop [OF i]) simp
  moreover have "adds_work (ts[i := t]) = sum_list (map thread_work (take i ts)) + thread_work t + sum_list (map thread_work (drop (Suc i) ts))"
    unfolding adds_work_def using i by (simp add: upd_conv_take_nth_drop)
  ultimately show ?thesis using t by simp
qed

lemma add_step_work: "add_step s s' \<Longrightarrow> adds_work (snd s') < adds_work (snd s)"
  by (induction rule: add_step.induct) (auto intro: adds_work_update)

lemma add_steps_adding:
  assumes "(add_step ^^ n) s s'" "adding d jobs s" "\<forall>ps\<in>set jobs. \<forall>p\<in>set ps. in_bits d p"
  shows "adding d jobs s' \<and> n + adds_work (snd s') \<le> adds_work (snd s)"
  using assms(1)
proof (induction n arbitrary: s')
  case (Suc n)
  then obtain u where u: "(add_step ^^ n) s u" "add_step u s'" by auto
  then show ?case using Suc.IH [OF u(1)] add_step_adding [OF u(2) _ assms(3)] add_step_work [OF u(2)] by auto
qed (simp add: assms(2))

lemma add_step_exists:
  assumes "adding d jobs (d', ts)" "\<forall>ps\<in>set jobs. \<forall>p\<in>set ps. in_bits d p" "i < length ts" "ts ! i \<noteq> ([], False)"
  shows "\<exists>s. add_step (d', ts) s"
proof -
  obtain p ps f where t: "ts ! i = (p # ps, f)"
    using assms by (cases "ts ! i"; cases "fst (ts ! i)") (force simp: adding_def)+
  then have "in_bits d' p" using adding_in assms by blast
  then show ?thesis using t assms(3) bit_at_in [of d' p] or_bit_in [of d' p]
    by (cases f; cases "has_bit d' p") (metis add_step.intros)+
qed

subsection \<open>Arbitrary contents\<close>

lemma find_log2_Some: "find_log2 len nl j = Some k \<Longrightarrow> drop_bit k len = nl"
proof (induction len nl j rule: find_log2.induct)
  case (1 len nl j)
  then show ?case by (subst (asm) (2) find_log2.simps) (auto simp: Let_def split: if_splits)
qed

lemma probe_turn_no_fault:
  assumes "\<forall>x. in_bits d (pos x)" "run_loop (probe_turn pos nx np d) s = Some y"
  shows "\<exists>s'. y = Inr s'"
  using assms(2)
  by (rule run_loop_invariant [where I = "\<lambda>_. True"]) (use assms(1) in \<open>auto simp: probe_turn_def bit_at_in split: prod.splits\<close>)

lemma probe_turn_endless:
  assumes "\<forall>x. in_bits d (pos x) \<and> has_bit d (pos x)" "\<forall>i :: u32. ucast i < np"
  shows "run_loop (probe_turn pos nx np d) s = None"
proof -
  have "False" if "run_loop (probe_turn pos nx np d) s = Some y" for y
    using that by (rule run_loop_invariant [where I = "\<lambda>_. True"]) (use assms in \<open>auto simp: probe_turn_def bit_at_in split: prod.splits\<close>)
  then show ?thesis by (cases "run_loop (probe_turn pos nx np d) s") auto
qed

lemma reader_pos_in:
  assumes "drop_bit k len = nl" "nl \<noteq> 0" "unat len \<le> length d" "length d < 2 ^ 28"
  shows "in_bits d (push_bit (k + 3) (h mod nl) + (x AND (push_bit (k + 3) 1 - 1)))"
proof -
  have "unat nl = unat len div 2 ^ k" using assms(1) unat_drop_bit_div by blast
  then have nk: "unat nl * 2 ^ k \<le> length d" using assms(3) by (metis div_times_less_eq_dividend le_trans)
  then have n: "unat nl * 2 ^ (k + 3) < 2 ^ 32" using assms(4) by (simp add: power_add)
  have "x AND (push_bit (k + 3) 1 - 1) = x mod 2 ^ (k + 3)"
    by (simp add: push_bit_of_1 flip: take_bit_eq_mod) (simp add: take_bit_eq_mask mask_eq_exp_minus_1)
  then have "unat (push_bit (k + 3) (h mod nl) + (x AND (push_bit (k + 3) 1 - 1))) < unat nl * 2 ^ (k + 3)"
    using unat_line [OF _ n] assms(2) by (simp add: push_bit_eq_mult word_neq_0_conv)
  then show ?thesis using nk by (simp add: in_bits_def power_add)
qed

lemma reader_new_cases:
  assumes "FullFilterBitsReader_new ndebug contents = Inr r"
  shows "fr_data r = contents \<and> data_len r = of_nat (length contents) \<and>
    (fr_num_lines r = 0 \<or> fr_num_probes r = fst (GetFilterMeta contents) \<and> (data_len r - 5) mod fr_num_lines r = 0
      \<and> drop_bit (log2_cache_line_size r) (data_len r - 5) = fr_num_lines r)"
  using assms find_log2_Some
  by (auto simp: FullFilterBitsReader_new_def Let_def split: prod.splits if_splits option.splits del: mod_0_imp_dvd)

lemma HashMayMatch_in_bounds:
  assumes "FullFilterBitsReader_new ndebug contents = Inr r" "length contents < 2 ^ 28"
    "\<not> data_len r \<le> 5" "fr_num_probes r \<noteq> 0" "fr_num_lines r \<noteq> 0"
  shows "HashMayMatch r h = None \<or> (\<exists>b. HashMayMatch r h = returns b)"
    and "unat (fr_num_probes r) < 2 ^ 32 \<Longrightarrow> \<exists>b. HashMayMatch r h = returns b"
proof -
  note r = reader_new_cases [OF assms(1)]
  let ?pos = "\<lambda>x. push_bit (log2_cache_line_size r + 3) (h mod fr_num_lines r) + (x AND (push_bit (log2_cache_line_size r + 3) 1 - 1))"
  let ?loop = "run_loop (probe_turn ?pos (\<lambda>x. x + probe_delta h) (fr_num_probes r) (fr_data r)) (0, h, True)"
  have "unat (data_len r) = length contents" using r assms(2) by (simp add: unat_of_nat_u32)
  moreover have "unat (data_len r - 5) = unat (data_len r) - 5" using assms(3) by (simp add: unat_sub word_le_nat_alt)
  ultimately have "unat (data_len r - 5) \<le> length contents" by simp
  then have i: "\<forall>x. in_bits (fr_data r) (?pos x)" using r assms(2,5) reader_pos_in by blast
  have "(data_len r - 5) mod fr_num_lines r = 0" using r assms(5) by blast
  then have eq: "HashMayMatch r h = run_then ?loop (\<lambda>(_, _, res). returns res)"
    using assms(3-5) by (simp only: HashMayMatch_def Let_def) simp
  show "HashMayMatch r h = None \<or> (\<exists>b. HashMayMatch r h = returns b)"
    using probe_turn_no_fault [OF i, of "\<lambda>x. x + probe_delta h" "fr_num_probes r" "(0, h, True)"]
    by (cases ?loop) (auto simp: eq)
  show "\<exists>b. HashMayMatch r h = returns b" if np: "unat (fr_num_probes r) < 2 ^ 32"
    using probe_turn_loop [of 0 "unat (fr_num_probes r)" "fr_num_probes r" _ _ "\<lambda>x. x + probe_delta h" h, OF _ np i]
    by (auto simp: eq)
qed

lemma signed_byte:
  "128 \<le> c \<Longrightarrow> 2 ^ 32 \<le> unat (scast (c :: byte) :: u64)"
  "c < 128 \<Longrightarrow> unat (scast (c :: byte) :: u64) < 2 ^ 32"
proof -
  have "\<not> bit c 7" if "\<not> 2 ^ 32 \<le> unat (scast c :: u64)"
    using not_bit_small [of "scast c :: u64" 32 63] that by (simp add: bit_signed_iff)
  then show "2 ^ 32 \<le> unat (scast c :: u64)" if "128 \<le> c"
    using that unat_no_sign [of 7 c] by (force simp: word_le_nat_alt)
  assume "c < 128"
  then have c: "unat c < 2 ^ 7" by (simp add: word_less_nat_alt)
  then have "scast c = (ucast c :: u64)" using not_bit_small [of c 7 7] by (intro scast_no_sign) simp_all
  then show "unat (scast c :: u64) < 2 ^ 32" using c by (simp add: unat_ucast_up)
qed

lemma reader_new_exists:
  "\<exists>r. FullFilterBitsReader_new True contents = Inr r \<and> FullFilterBitsReader_new False contents \<in> {Inr r, Inl AssertFailed}"
  by (cases "GetFilterMeta contents"; cases "find_log2 (of_nat (length contents) - 5) (snd (GetFilterMeta contents)) 0")
    (auto simp: FullFilterBitsReader_new_def Let_def)

lemma dynamic_Adds_fields:
  "add_each (dynamic_AddHash m) hs b = Inr b' \<Longrightarrow> hash_func b' = hash_func b \<and> kNumProbes b' = kNumProbes b"
proof (induction hs arbitrary: b)
  case (Cons h hs)
  then obtain c where "dynamic_AddHash m h b = Inr c" "add_each (dynamic_AddHash m) hs c = Inr b'" by (auto simp: and_then_Inr)
  moreover from this(1) have "hash_func c = hash_func b \<and> kNumProbes c = kNumProbes b"
    by (auto simp: dynamic_AddHash_def and_then_Inr split: if_splits option.splits)
  ultimately show ?case using Cons.IH [of c] by simp
qed simp

lemma adding_start: "adding d jobs (d, map (\<lambda>ps. (ps, False)) jobs)"
  by (simp add: adding_def)

lemma adds_work_start: "\<forall>ps\<in>set jobs. length ps = n \<Longrightarrow> adds_work (map (\<lambda>ps. (ps, False)) jobs) = 2 * n * length jobs"
  by (induction jobs) (simp_all add: adds_work_def)

lemma MayContainHash_bits:
  assumes "dynamic_ok m b" "db_data b = Some d" "grows d d'"
  shows "MayContainHash m h (b\<lparr>db_data := Some d'\<rparr>) = Inr (\<forall>p\<in>set (fst (AddHashConcurrently m b h)). has_bit d' p)"
proof -
  have "\<forall>x. in_bits d' (dynamic_pos m b h x)" using dynamic_pos_in [OF assms(1,2)] assms(3) by (simp add: grows_in_bits)
  then show ?thesis using dynamic_ok_initialized [OF assms(1)] by (simp add: MayContainHash_def AddHashConcurrently_def test_probes_in)
qed

subsection \<open>Sizes\<close>

text \<open>The size of a filter of \<open>t\<close> bits when no computation wraps around.\<close>

definition filter_size :: "Machine \<Rightarrow> nat \<Rightarrow> nat" where
  "filter_size m t =
     (let q = (t + 2 ^ (line_log2 m + 3) - 1) div 2 ^ (line_log2 m + 3) in (if even q then q + 1 else q) * 2 ^ line_log2 m + 5)"

lemma filter_size_mono: "s \<le> t \<Longrightarrow> filter_size m s \<le> filter_size m t"
proof -
  assume "s \<le> t"
  then have "(s + 2 ^ (line_log2 m + 3) - 1) div 2 ^ (line_log2 m + 3) \<le> (t + 2 ^ (line_log2 m + 3) - 1) div 2 ^ (line_log2 m + 3)"
    by (intro div_le_mono) simp
  moreover have "(if even q then q + 1 else q) \<le> (if even r then r + 1 else r)" if "q \<le> r" for q r :: nat
    using that by (cases "q = r") auto
  ultimately show ?thesis by (simp only: filter_size_def Let_def add_le_mono1 mult_le_mono1)
qed

lemma filter_size_large: "t < 8 * filter_size m t"
proof -
  let ?L = "2 ^ (line_log2 m + 3) :: nat"
  let ?q = "(t + ?L - 1) div ?L"
  have "t + ?L - 1 = ?q * ?L + (t + ?L - 1) mod ?L" by (rule div_mod_decomp)
  moreover have "(t + ?L - 1) mod ?L < ?L" by simp
  ultimately have "t \<le> ?q * ?L" by linarith
  also have "\<dots> \<le> (if even ?q then ?q + 1 else ?q) * ?L" by simp
  also have "\<dots> < 8 * filter_size m t" by (simp add: filter_size_def Let_def power_add)
  finally show ?thesis .
qed

lemma lines_of_size:
  assumes "t + 2048 \<le> 2 ^ 32"
  shows "lines_of m (of_nat t) * 2 ^ line_log2 m + 5 = filter_size m t"
proof -
  let ?k = "line_log2 m + 3"
  have "(2 :: nat) ^ ?k \<le> 2 ^ 11" using line_log2_bounds [of m] by (intro power_increasing) simp_all
  then have L: "(2 :: nat) ^ ?k \<le> 2048" "(1 :: nat) \<le> 2 ^ ?k" by simp_all
  have "1 \<le> t + 2 ^ ?k" using L(2) by (rule trans_le_add2)
  then have "(of_nat t + 2 ^ ?k - 1 :: u32) = of_nat (t + 2 ^ ?k - 1)" by (subst of_nat_diff) simp_all
  moreover have "unat (of_nat (t + 2 ^ ?k - 1) :: u32) = t + 2 ^ ?k - 1" using assms L by (intro unat_of_nat_u32) linarith
  ultimately show ?thesis by (simp only: lines_of_def filter_size_def)  (simp add: Let_def)
qed

lemma CalculateSpace_size:
  assumes "fb_bits_per_key b \<noteq> 0" "0 < k" "k * unat (fb_bits_per_key b) + 2048 \<le> 2 ^ 32"
  shows "\<exists>total num_lines. CalculateSpace m b (of_nat k) = Inr (of_nat (filter_size m (k * unat (fb_bits_per_key b))), total, num_lines)"
    and "filter_size m (k * unat (fb_bits_per_key b)) < 2 ^ 32"
proof -
  let ?b = "fb_bits_per_key b"
  have "0 < unat ?b" using assms(1) by (simp add: unat_gt_0)
  then have "k \<le> k * unat ?b" by simp
  then have "unat (of_nat k :: u32) = k" using assms(3) by (intro unat_of_nat_u32) linarith
  then have k: "(of_nat k :: u32) \<noteq> 0" using assms(2) by auto
  have e: "of_nat k * ucast ?b = (of_nat (k * unat ?b) :: u32)" by (simp add: of_nat_unat)
  obtain n where n: "n = lines_of m (of_nat (k * unat ?b))" "n * 2 ^ (line_log2 m + 3) < 2 ^ 32"
    "CalculateSpace m b (of_nat k) = Inr (of_nat (n * 2 ^ line_log2 m + 5), of_nat (n * 2 ^ (line_log2 m + 3)), of_nat n)"
    using CalculateSpace_lines [OF assms(1) k, of m thesis] unfolding e by blast
  have fs: "filter_size m (k * unat ?b) = n * 2 ^ line_log2 m + 5" using lines_of_size [OF assms(3), of m] by (simp only: n(1))
  show "\<exists>total num_lines. CalculateSpace m b (of_nat k) = Inr (of_nat (filter_size m (k * unat ?b)), total, num_lines)"
    unfolding fs using n(3) by blast
  have "8 * (n * 2 ^ line_log2 m) < 2 ^ 32" using n(2) by (simp add: power_add)
  then show "filter_size m (k * unat ?b) < 2 ^ 32" unfolding fs by simp
qed

lemma num_entry_loop_greatest:
  assumes "\<And>k. 0 < k \<Longrightarrow> k \<le> n \<Longrightarrow> sz k = Inr (of_nat (f k))" "\<And>k. 0 < k \<Longrightarrow> k \<le> n \<Longrightarrow> f k < 2 ^ 32" "\<And>j k. j \<le> k \<Longrightarrow> f j \<le> f k"
  shows "\<exists>r\<le>n. num_entry_loop sz space n = Inr r \<and> (\<forall>k. 0 < k \<and> k \<le> n \<longrightarrow> (f k \<le> unat space \<longleftrightarrow> k \<le> r))"
  using assms(1,2)
proof (induction n)
  case (Suc n)
  have eq: "sz (Suc n) = Inr (of_nat (f (Suc n)))" "unat (of_nat (f (Suc n)) :: u32) = f (Suc n)"
    using Suc.prems by (simp_all add: unat_of_nat_u32)
  show ?case
  proof (cases "f (Suc n) \<le> unat space")
    case True
    then have "\<forall>k. 0 < k \<and> k \<le> Suc n \<longrightarrow> f k \<le> unat space" using assms(3) le_trans by blast
    then show ?thesis using eq True by (auto simp: word_le_nat_alt)
  next
    case False
    then show ?thesis using Suc eq by (auto simp: word_le_nat_alt le_Suc_eq)
  qed
qed simp

section \<open>Properties\<close>

text \<open>C23: The filters of the built-in policy have no false negatives. With the block-based builder, the filter that \<open>CreateFilter\<close>
  appends for a list of keys matches every key of the list. Otherwise the filter that \<open>FullFilterBitsBuilder\<close> makes on a machine with
  any cache line size is accepted by the reader, which finds the size by itself, and matches every key that was added, also when the
  32-bit computation of the number of bits wraps around.\<close>

theorem bloom_policy_no_false_negatives:
  assumes "0 < sint bits_per_key" "length keys < 2 ^ 31" "key \<in> set keys"
  shows "(\<exists>f. CreateFilter (BloomFilterPolicy_new bits_per_key True) keys dst = Inr (dst @ f) \<and> KeyMayMatch key f = Inr True) \<and>
    (\<exists>b contents r. GetFilterBitsBuilder (BloomFilterPolicy_new bits_per_key False) = Inr (Some b)
       \<and> FullFilter_Finish m (fold FullFilter_AddKey keys b) = Inr (contents, b)
       \<and> FullFilterBitsReader_new ndebug contents = Inr r \<and> FullFilter_MayMatch r key = returns True)"
proof -
  let ?w = "scast bits_per_key :: u64"
  have w: "unat ?w = unat bits_per_key" "unat bits_per_key < 2 ^ 31" "0 < unat bits_per_key"
  proof -
    have s: "\<not> bit bits_per_key 31" using assms(1) bit_last_iff [of bits_per_key] by simp
    then show "unat bits_per_key < 2 ^ 31" by (intro unat_no_sign) simp_all
    have "?w = ucast bits_per_key" using s by (intro scast_no_sign) simp_all
    then show "unat ?w = unat bits_per_key" by (simp add: unat_ucast_up)
    show "0 < unat bits_per_key" using assms(1) by (cases "bits_per_key = 0") (simp_all add: unat_gt_0)
  qed
  then have w0: "?w \<noteq> 0" by auto
  note np = policy_probes_range [of ?w]
  have "\<exists>f. CreateFilter (BloomFilterPolicy_new bits_per_key True) keys dst = Inr (dst @ f) \<and> KeyMayMatch key f = Inr True"
    using assms(2,3) w np by (intro block_filter_finds) (simp_all add: BloomFilterPolicy_new_def)
  moreover have "length keys < 2 ^ 32" using assms(2) by simp
  then have "\<exists>contents r. FullFilter_Finish m (fold FullFilter_AddKey keys \<lparr>fb_bits_per_key = ?w, fb_num_probes = policy_probes ?w, hash_entries = []\<rparr>)
        = Inr (contents, \<lparr>fb_bits_per_key = ?w, fb_num_probes = policy_probes ?w, hash_entries = []\<rparr>)
      \<and> FullFilterBitsReader_new ndebug contents = Inr r \<and> FullFilter_MayMatch r key = returns True"
    using w0 np assms(3) by (intro full_filter_finds) simp_all
  ultimately show ?thesis using w0
    by (simp add: GetFilterBitsBuilder_def FullFilterBitsBuilder_new_def BloomFilterPolicy_new_def)
qed

theorem bloom_policy_no_false_negatives_witness:
  "0 < sint (10 :: u32) \<and> [2, 3] \<in> set [[1], [2, 3 :: byte]] \<and>
    (\<exists>f. CreateFilter (BloomFilterPolicy_new 10 True) [[1], [2, 3]] [7] = Inr ([7] @ f) \<and> KeyMayMatch [2, 3] f = Inr True) \<and>
    (\<exists>b contents r. GetFilterBitsBuilder (BloomFilterPolicy_new 10 False) = Inr (Some b)
       \<and> FullFilter_Finish S390 (fold FullFilter_AddKey [[1], [2, 3]] b) = Inr (contents, b)
       \<and> FullFilterBitsReader_new False contents = Inr r \<and> FullFilter_MayMatch r [2, 3] = returns True)"
proof -
  have h: "0 < sint (10 :: u32)" "length [[1], [2, 3 :: byte]] < 2 ^ 31" "[2, 3] \<in> set [[1], [2, 3 :: byte]]" by simp_all
  show ?thesis using h bloom_policy_no_false_negatives [OF h, of "[7]" S390 False] by blast
qed

text \<open>C31: A reader of a table filter stays inside the filter whatever bytes it is given (below \<open>2 ^ 28\<close> bytes, beyond which the mask
  \<open>1 << (log2_cache_line_size_ + 3)\<close> leaves the \<open>int\<close>). Without assertions every contents is accepted, and a query meets no fault;
  it returns if the byte with the number of probes is not negative as a \<open>char\<close>. With assertions the reader is the same or stops
  at the assertion of the constructor.\<close>

theorem filter_reader_in_bounds:
  assumes "length contents < 2 ^ 28"
  shows "\<exists>r. FullFilterBitsReader_new True contents = Inr r \<and> FullFilterBitsReader_new False contents \<in> {Inr r, Inl AssertFailed}
    \<and> (FullFilter_MayMatch r key = None \<or> (\<exists>b. FullFilter_MayMatch r key = returns b))
    \<and> (byte_at contents (length contents - 5) < 128 \<longrightarrow> (\<exists>b. FullFilter_MayMatch r key = returns b))"
proof -
  obtain r where r: "FullFilterBitsReader_new True contents = Inr r" "FullFilterBitsReader_new False contents \<in> {Inr r, Inl AssertFailed}"
    using reader_new_exists by blast
  note c = reader_new_cases [OF r(1)]
  have small: "unat (fr_num_probes r) < 2 ^ 32"
    if "byte_at contents (length contents - 5) < 128" "\<not> data_len r \<le> 5" "fr_num_lines r \<noteq> 0"
  proof -
    have "unat (data_len r) = length contents" using c assms by (simp add: unat_of_nat_u32)
    then have "unat (data_len r - 5) = length contents - 5" using that(2) by (simp add: unat_sub word_le_nat_alt)
    then have "fr_num_probes r = scast (byte_at contents (length contents - 5))" using c that(2,3) by (auto simp: GetFilterMeta_def Let_def)
    then show ?thesis using signed_byte(2) [OF that(1)] by simp
  qed
  show ?thesis
    using r HashMayMatch_in_bounds [OF r(1) assms] small by (auto simp: FullFilter_MayMatch_def intro!: exI [of _ r])
qed

theorem filter_reader_in_bounds_witness:
  "\<exists>r b. FullFilterBitsReader_new True [1, 2, 3, 200, 9, 6, 1, 0, 0, 0] = Inr r \<and> FullFilter_MayMatch r [4] = returns b"
proof -
  let ?c = "[1, 2, 3, 200, 9, 6, 1, 0, 0, 0] :: slice"
  have "length ?c < 2 ^ 28" "byte_at ?c (length ?c - 5) < 128" by (simp_all add: byte_at_def)
  then show ?thesis using filter_reader_in_bounds [of ?c "[4]"] by blast
qed

text \<open>C36: The number of probes in a table filter is not checked, unlike that of a block filter: a filter with full lines whose byte for
  the number of probes is negative as a \<open>char\<close> is accepted, and no query on it returns, because the 32-bit counter of the loop never
  reaches the number of probes.\<close>

theorem filter_reader_hangs:
  assumes "128 \<le> probes" "0 < n" "n * 2 ^ (line_log2 m + 3) < 2 ^ 32"
  shows "\<exists>r. FullFilterBitsReader_new ndebug (replicate (n * 2 ^ line_log2 m) 255 @ [probes] @ EncodeFixed32 kLittleEndian (of_nat n)) = Inr r
    \<and> FullFilter_MayMatch r key = None"
proof -
  let ?d = "replicate (n * 2 ^ line_log2 m) 255 :: slice" and ?np = "ucast probes :: u64"
  have f: "?d @ [probes] @ EncodeFixed32 kLittleEndian (of_nat n) = filter_bytes ?d ?np (of_nat n)"
    by (simp add: filter_bytes_def) (rule bit_word_eqI, simp add: bit_simps)
  have len: "length ?d = n * 2 ^ line_log2 m" by simp
  let ?f = "filter_bytes ?d ?np (of_nat n)" and ?p = "scast (ucast ?np :: byte) :: u64"
  note new = reader_new_filter_bytes(1) [OF assms(2,3) len, where np = ?np] reader_new_filter_bytes(2-4) [OF assms(2,3) len]
    reader_new_filter_bytes(5) [OF assms(2,3) len, where np = ?np]
  have "2 ^ 32 \<le> unat ?p" using signed_byte(1) [OF assms(1)] f by (simp add: filter_bytes_def)
  then have p: "\<forall>i :: u32. ucast i < ?p" "?p \<noteq> 0"
    using unat_less_exp [where 'a = 32] by (auto simp: word_less_nat_alt unat_ucast_up intro: less_le_trans)
  have "(255 :: byte) = - 1" by simp
  then have "bit (255 :: byte) k" if "k < 8" for k using that by (simp only: bit_minus_1_iff possible_bit_word) simp
  then have "has_bit ?d x" if "in_bits ?d x" for x
    using that by (simp add: has_bit_def in_bits_def less_mult_imp_div_less mult.commute)
  then have "\<forall>x. in_bits ?f (line_pos m (of_nat n) h x) \<and> has_bit ?f (line_pos m (of_nat n) h x)" for h
    using lines_ok_in [OF new(4)] lines_ok_in [OF new(5)] by (auto simp: filter_bytes_def has_bit_append in_bits_def)
  then have "run_loop (probe_turn (line_pos m (of_nat n) h) (\<lambda>x. x + probe_delta h) ?p ?f) (0, h, True) = None" for h
    using p(1) by (rule probe_turn_endless)
  moreover have "(of_nat n :: u32) \<noteq> 0" using new(4) by (auto simp: lines_ok_def)
  ultimately have "FullFilter_MayMatch \<lparr>fr_data = ?f, data_len = of_nat (length ?d + 5), fr_num_probes = ?p, fr_num_lines = of_nat n,
      log2_cache_line_size = line_log2 m\<rparr> key = None"
    using new(2,3) p(2) by (simp add: FullFilter_MayMatch_def HashMayMatch_loop [where m = m])
  then show ?thesis unfolding f using new(1) by blast
qed

theorem filter_reader_hangs_witness:
  "\<exists>r. FullFilterBitsReader_new True (replicate 64 255 @ [200] @ EncodeFixed32 kLittleEndian 1) = Inr r \<and> FullFilter_MayMatch r [1, 2] = None"
  using filter_reader_hangs [of 200 1 OtherMachine True "[1, 2]"] by simp

text \<open>C24: A memtable filter that several threads fill keeps every bit. After \<open>SetTotalBits\<close> and any sequence of \<open>Add\<close>, let threads
  run \<open>AddHashConcurrently\<close>, one for each of the keys \<open>news\<close>, and interleave their atomic operations in any way. At every moment the
  filter contains the keys added before and every key whose thread has finished, a thread that has not finished can go on, and the
  threads do at most two atomic operations for each probe.\<close>

theorem concurrent_adds_found:
  assumes "SetTotalBits m raw total_bits locality (DynamicBloom_init num_probes f) = Inr b0"
    "add_each (dynamic_Add m) olds b0 = Inr b" "db_data b = Some d"
    "(add_step ^^ n) (d, map (\<lambda>key. AddHashConcurrently m b (hash_func b key)) news) (d', ts)"
  shows "(\<forall>key\<in>set olds. MayContain m key (b\<lparr>db_data := Some d'\<rparr>) = Inr True)
    \<and> (\<forall>i<length news. ts ! i = ([], False) \<longrightarrow> MayContain m (news ! i) (b\<lparr>db_data := Some d'\<rparr>) = Inr True)
    \<and> (\<forall>i<length news. ts ! i \<noteq> ([], False) \<longrightarrow> (\<exists>s. add_step (d', ts) s))
    \<and> n \<le> 2 * unat num_probes * length news"
proof -
  have ok0: "dynamic_ok m b0" "kNumProbes b0 = num_probes"
    using assms(1) SetTotalBits_ok [OF assms(1)] by (auto simp: SetTotalBits_def DynamicBloom_init_def Let_def split: if_splits)
  have adds: "add_each (dynamic_AddHash m) (map (hash_func b0) olds) b0 = Inr b" using assms(2) by (simp add: dynamic_Adds)
  note fields = dynamic_Adds_fields [OF adds]
  have ok: "dynamic_ok m b" and olds: "\<forall>key\<in>set olds. MayContainHash m (hash_func b key) b = Inr True"
    using memtable_bits.add_each_finds [OF ok0(1), of "map (hash_func b0) olds"] adds fields by auto
  let ?jobs = "map (\<lambda>key. fst (AddHashConcurrently m b (hash_func b key))) news"
  have start: "map (\<lambda>key. AddHashConcurrently m b (hash_func b key)) news = map (\<lambda>ps. (ps, False)) ?jobs"
    by (simp add: AddHashConcurrently_def)
  have i: "\<forall>ps\<in>set ?jobs. \<forall>p\<in>set ps. in_bits d p"
    using dynamic_pos_in [OF ok assms(3)] by (auto simp: AddHashConcurrently_def dest!: probe_positions_pos)
  have "adds_work (map (\<lambda>ps. (ps, False)) ?jobs) = 2 * unat num_probes * length news"
    using adds_work_start [of ?jobs "unat num_probes"] ok0(2) fields by (simp add: AddHashConcurrently_def)
  with add_steps_adding [OF assms(4) [unfolded start] adding_start i]
  have ad: "adding d ?jobs (d', ts)" and n: "n \<le> 2 * unat num_probes * length news" by simp_all
  then have g: "grows d d'" "length ts = length news" by (simp_all add: adding_def)
  note bits = MayContainHash_bits [OF ok assms(3)]
  have "b\<lparr>db_data := Some d\<rparr> = b" using assms(3) by simp
  then have "\<forall>key\<in>set olds. MayContain m key (b\<lparr>db_data := Some d'\<rparr>) = Inr True"
    using olds bits [OF grows_refl] bits [OF g(1)] g(1) by (auto simp: MayContain_def intro: grows_has_bit)
  moreover have "MayContain m (news ! j) (b\<lparr>db_data := Some d'\<rparr>) = Inr True" if "j < length news" "ts ! j = ([], False)" for j
    using ad that by (force simp: adding_def MayContain_def bits [OF g(1)])
  moreover have "\<exists>s. add_step (d', ts) s" if "j < length news" "ts ! j \<noteq> ([], False)" for j
    using add_step_exists [OF ad i] that g(2) by metis
  ultimately show ?thesis using n by blast
qed

definition example_filter :: "slice \<Rightarrow> DynamicBloom" where
  "example_filter d =
     \<lparr>kTotalBits = 8, kNumBlocks = 0, kNumProbes = 1, hash_func = (\<lambda>key. of_nat (length key)), db_data = Some d\<rparr>"

lemma example_interleaving:
  "(add_step ^^ 4) ([2], [([2], False), ([3], False)]) ([14], [([], False), ([], False)])"
proof -
  have 1: "add_step ([2], [([2], False), ([3], False)]) ([2], [([2], True), ([3], False)])"
    using load_missing [of 0 "[([2], False), ([3], False)]" 2 "[]" "[2]"] by (simp add: bit_at_def Let_def)
  have 2: "add_step ([2], [([2], True), ([3], False)]) ([2], [([2], True), ([3], True)])"
    using load_missing [of 1 "[([2], True), ([3], False)]" 3 "[]" "[2]"] by (simp add: bit_at_def Let_def)
  have 3: "add_step ([2], [([2], True), ([3], True)]) ([10], [([2], True), ([], False)])"
    using fetch_or [of 1 "[([2], True), ([3], True)]" 3 "[]" "[2]" "[10]"] by (simp add: or_bit_def Let_def)
  have 4: "add_step ([10], [([2], True), ([], False)]) ([14], [([], False), ([], False)])"
    using fetch_or [of 0 "[([2], True), ([], False)]" 2 "[]" "[10]" "[14]"] by (simp add: or_bit_def Let_def)
  show ?thesis using 1 2 3 4 by (auto simp: numeral_eq_Suc intro!: relcomppI)
qed

theorem concurrent_adds_found_witness:
  "MayContain OtherMachine [1] (example_filter [14]) = Inr True \<and> MayContain OtherMachine [1, 1] (example_filter [14]) = Inr True"
proof -
  let ?f = "\<lambda>key :: slice. of_nat (length key) :: u32" and ?ts = "[([], False), ([], False)]"
  have 1: "SetTotalBits OtherMachine 0 8 0 (DynamicBloom_init 1 (Some ?f)) = Inr (example_filter [0])"
    by (simp add: SetTotalBits_def DynamicBloom_init_def example_filter_def)
  have 2: "add_each (dynamic_Add OtherMachine) [[1]] (example_filter [0]) = Inr (example_filter [2])"
    by (simp add: dynamic_Add_def dynamic_AddHash_def example_filter_def IsInitialized_def dynamic_pos_def or_bit_def)
  have 3: "db_data (example_filter [2]) = Some [2]" by (simp add: example_filter_def)
  have "map (\<lambda>key. AddHashConcurrently OtherMachine (example_filter [2]) (hash_func (example_filter [2]) key)) [[1, 1], [1, 1, 1]] =
      [([2], False), ([3], False)]"
    by (simp add: AddHashConcurrently_def example_filter_def dynamic_pos_def)
  then have 4: "(add_step ^^ 4) ([2], map (\<lambda>key. AddHashConcurrently OtherMachine (example_filter [2]) (hash_func (example_filter [2]) key))
      [[1, 1], [1, 1, 1]]) ([14], ?ts)"
    using example_interleaving by simp
  have "(example_filter [2])\<lparr>db_data := Some [14]\<rparr> = example_filter [14]" by (simp add: example_filter_def)
  then show ?thesis using concurrent_adds_found [OF 1 2 3 4] by auto
qed

text \<open>\<open>CalculateNumEntry\<close> is the inverse of \<open>CalculateSpace\<close>: it returns the largest number of entries whose filter fits into the
  space. The bounds on the space (\<open>2 ^ 28\<close> bytes) and on the bits per key keep its 32-bit products from wrapping around.\<close>

theorem CalculateNumEntry_greatest:
  assumes "0 < unat (fb_bits_per_key b)" "unat (fb_bits_per_key b) < 2 ^ 30" "0 < unat space" "unat space < 2 ^ 28"
  shows "\<exists>n. CalculateNumEntry m b space = Inr n \<and>
    (\<forall>k. 0 < k \<and> k * unat (fb_bits_per_key b) + 2048 \<le> 2 ^ 32 \<longrightarrow>
       (\<exists>sz total num_lines. CalculateSpace m b (of_nat k) = Inr (sz, total, num_lines) \<and> (sz \<le> space \<longleftrightarrow> k \<le> n)))"
proof -
  let ?b = "unat (fb_bits_per_key b)" and ?s = "unat space"
  let ?f = "\<lambda>k. filter_size m (k * ?b)"
  define high where "high = 8 * ?s div ?b + 1"
  have hb: "high * ?b \<le> 8 * ?s + ?b" "8 * ?s < high * ?b"
    using div_times_less_eq_dividend [of "8 * ?s" ?b] dividend_less_div_times [OF assms(1), of "8 * ?s"] by (simp_all add: high_def algebra_simps)
  have b0: "fb_bits_per_key b \<noteq> 0" "space \<noteq> 0" using assms by auto
  have "high \<le> 8 * ?s + 1" by (simp add: high_def)
  then have h31: "high < 2 ^ 31" using assms(4) by simp
  have hi: "sint (ucast (ucast (space * 8) div fb_bits_per_key b + 1 :: u64) :: u32) = int high"
  proof -
    have "unat (space * 8) = 8 * ?s" using assms(4) by (simp add: unat_word_ariths)
    then have "unat (ucast (space * 8) div fb_bits_per_key b :: u64) = 8 * ?s div ?b" by (simp add: unat_div_distrib unat_ucast_up)
    then have u: "unat (ucast (space * 8) div fb_bits_per_key b + 1 :: u64) = high" using h31 by (simp add: unat_word_ariths high_def)
    have "(ucast (ucast (space * 8) div fb_bits_per_key b + 1 :: u64) :: u32) = of_nat high" by (simp add: of_nat_unat flip: u)
    then show ?thesis using h31 by (simp only: sint_small)
  qed
  let ?sz = "\<lambda>n. and_then (CalculateSpace m b (of_nat n)) (\<lambda>(s, _, _). Inr s)"
  have fits: "k * ?b + 2048 \<le> 2 ^ 32" if "k \<le> high" for k
    using le_trans [OF mult_le_mono1 [OF that, of ?b] hb(1)] assms(2,4) by simp
  have "?sz k = Inr (of_nat (?f k))" if "0 < k" "k \<le> high" for k
    using CalculateSpace_size(1) [OF b0(1) that(1) fits [OF that(2)], of m] by auto
  moreover have "?f k < 2 ^ 32" if "0 < k" "k \<le> high" for k
    by (rule CalculateSpace_size(2) [OF b0(1) that(1) fits [OF that(2)]])
  moreover have mono: "?f j \<le> ?f k" if "j \<le> k" for j k using that by (intro filter_size_mono mult_le_mono1)
  ultimately obtain r where r: "r \<le> high" "num_entry_loop ?sz space high = Inr r"
      "\<forall>k. 0 < k \<and> k \<le> high \<longrightarrow> (?f k \<le> ?s \<longleftrightarrow> k \<le> r)"
    using num_entry_loop_greatest [of high ?sz ?f space] by blast
  have over: "?s < ?f high" using filter_size_large [of "high * ?b" m] hb(2) by linarith
  have h0: "0 < high" by (simp add: high_def)
  then have "r < high" using r(1,3) over by (metis leD le_neq_implies_less order_refl)
  then have "CalculateNumEntry m b space = Inr r" using b0 r(2) h0 by (simp add: CalculateNumEntry_def Let_def hi)
  moreover have "\<exists>sz total num_lines. CalculateSpace m b (of_nat k) = Inr (sz, total, num_lines) \<and> (sz \<le> space \<longleftrightarrow> k \<le> r)"
    if "0 < k" "k * ?b + 2048 \<le> 2 ^ 32" for k
  proof -
    have "?f k \<le> ?s \<longleftrightarrow> k \<le> r"
      using r(3) that(1) \<open>r < high\<close> mono [of high k] over by (cases "k \<le> high") auto
    moreover have "unat (of_nat (?f k) :: u32) = ?f k" using CalculateSpace_size(2) [OF b0(1) that] by (rule unat_of_nat_u32)
    ultimately show ?thesis using CalculateSpace_size(1) [OF b0(1) that, of m] by (auto simp: word_le_nat_alt)
  qed
  ultimately show ?thesis by blast
qed

theorem CalculateNumEntry_greatest_witness:
  "\<exists>n. CalculateNumEntry OtherMachine \<lparr>fb_bits_per_key = 10, fb_num_probes = 6, hash_entries = []\<rparr> 4096 = Inr n"
  using CalculateNumEntry_greatest [of "\<lparr>fb_bits_per_key = 10, fb_num_probes = 6, hash_entries = []\<rparr>" 4096 OtherMachine] by auto

end
