(* ===== verification/BlockBuilders.thy ===== *)
theory BlockBuilders
  imports Comparator Coding
begin

text \<open>
  The builder of a block of a table (\<open>table/block_builder.cc\<close>, \<open>table/data_block_footer.cc\<close>). The keys of a block are
  delta-encoded: an entry stores how many bytes its key shares with the key before it, and every \<open>block_restart_interval_\<close>
  entries a key is stored in full. The offsets of these restart points follow the entries, then the footer with their number.

  The builder is modelled without the hash index of a data block (\<open>index_type\<close> is \<open>kDataBlockBinarySearch\<close>, the default).
\<close>

section \<open>The footer\<close>

datatype DataBlockIndexType = kDataBlockBinarySearch | kDataBlockBinaryAndHash

definition kMaxNumRestarts :: u32 where
  "kMaxNumRestarts = push_bit 31 1 - 1"

definition PackIndexTypeAndNumRestarts :: "DataBlockIndexType \<Rightarrow> u32 \<Rightarrow> u32 result" where
  "PackIndexTypeAndNumRestarts index_type num_restarts =
     (if num_restarts > kMaxNumRestarts then Inl AssertFailed
      else Inr (if index_type = kDataBlockBinaryAndHash then num_restarts OR push_bit 31 1 else num_restarts))"

definition UnPackIndexTypeAndNumRestarts :: "u32 \<Rightarrow> DataBlockIndexType \<times> u32" where
  "UnPackIndexTypeAndNumRestarts block_footer =
     (if block_footer AND push_bit 31 1 \<noteq> 0 then kDataBlockBinaryAndHash else kDataBlockBinarySearch,
      block_footer AND kMaxNumRestarts)"

section \<open>The builder\<close>

record BlockBuilder =
  block_restart_interval :: nat
  use_delta_encoding :: bool
  use_value_delta_encoding :: bool
  bb_buffer :: slice
  bb_restarts :: "u32 list"
  estimate :: nat
  counter :: nat
  bb_finished :: bool
  last_key :: slice

definition BlockBuilder_new :: "nat \<Rightarrow> bool \<Rightarrow> bool \<Rightarrow> BlockBuilder result" where
  "BlockBuilder_new interval delta value_delta =
     (if interval \<ge> 1 then
        Inr \<lparr>block_restart_interval = interval, use_delta_encoding = delta, use_value_delta_encoding = value_delta,
             bb_buffer = [], bb_restarts = [0], estimate = 4 + 4, counter = 0, bb_finished = False, last_key = []\<rparr>
      else Inl AssertFailed)"

definition BlockBuilder_Reset :: "BlockBuilder \<Rightarrow> BlockBuilder" where
  "BlockBuilder_Reset b =
     b\<lparr>bb_buffer := [], bb_restarts := [0], estimate := 4 + 4, counter := 0, bb_finished := False, last_key := []\<rparr>"

definition CurrentSizeEstimate :: "BlockBuilder \<Rightarrow> nat" where
  "CurrentSizeEstimate b = estimate b"

definition BlockBuilder_empty :: "BlockBuilder \<Rightarrow> bool" where
  "BlockBuilder_empty b \<longleftrightarrow> bb_buffer b = []"

definition EstimateSizeAfterKV :: "BlockBuilder \<Rightarrow> slice \<Rightarrow> slice \<Rightarrow> nat" where
  "EstimateSizeAfterKV b key val =
     (let e = CurrentSizeEstimate b;
          e = e + length key;
          full = \<not> use_value_delta_encoding b \<or> counter b \<ge> block_restart_interval b;
          e = e + (if full then length val else length val div 2);
          e = (if counter b \<ge> block_restart_interval b then e + 4 else e);
          e = e + 4;
          e = e + VarintLength (of_nat (length key))
      in if full then e + VarintLength (of_nat (length val)) else e)"

definition BlockBuilder_Add :: "slice \<Rightarrow> slice \<Rightarrow> slice option \<Rightarrow> BlockBuilder \<Rightarrow> BlockBuilder result" where
  "BlockBuilder_Add key val delta_value b =
     (if bb_finished b \<or> \<not> counter b \<le> block_restart_interval b \<or> (use_value_delta_encoding b \<and> delta_value = None)
      then Inl AssertFailed
      else
        (let restart = (counter b \<ge> block_restart_interval b);
             shared = (if restart then 0 else if use_delta_encoding b then difference_offset key (last_key b) else 0);
             b = (if restart
                  then b\<lparr>bb_restarts := bb_restarts b @ [of_nat (length (bb_buffer b))], estimate := estimate b + 4, counter := 0\<rparr>
                  else b);
             b = (if use_delta_encoding b then b\<lparr>last_key := key\<rparr> else b);
             non_shared = length key - shared;
             curr_size = length (bb_buffer b);
             buffer = (if use_value_delta_encoding b
                       then PutVarint32Varint32 (bb_buffer b) (of_nat shared) (of_nat non_shared)
                       else PutVarint32Varint32Varint32 (bb_buffer b) (of_nat shared) (of_nat non_shared) (of_nat (length val)));
             buffer = buffer @ drop shared key;
             buffer = (case delta_value of
                         Some dv \<Rightarrow> if shared \<noteq> 0 \<and> use_value_delta_encoding b then buffer @ dv else buffer @ val
                       | None \<Rightarrow> buffer @ val)
         in Inr (b\<lparr>bb_buffer := buffer, counter := counter b + 1, estimate := estimate b + (length buffer - curr_size)\<rparr>)))"

definition BlockBuilder_Finish :: "BlockBuilder \<Rightarrow> (slice \<times> BlockBuilder) result" where
  "BlockBuilder_Finish b =
     (let buffer = fold (\<lambda>r buffer. PutFixed32 buffer r) (bb_restarts b) (bb_buffer b);
          num_restarts = of_nat (length (bb_restarts b))
      in and_then (PackIndexTypeAndNumRestarts kDataBlockBinarySearch num_restarts) (\<lambda>block_footer.
           let buffer = PutFixed32 buffer block_footer
           in Inr (buffer, b\<lparr>bb_buffer := buffer, bb_finished := True\<rparr>)))"

text \<open>The entries of a data block are added in order.\<close>

fun add_entries :: "(slice \<times> slice) list \<Rightarrow> BlockBuilder \<Rightarrow> BlockBuilder result" where
  "add_entries [] b = Inr b"
| "add_entries ((key, val) # es) b = and_then (BlockBuilder_Add key val None b) (add_entries es)"

section \<open>The layout of a data block\<close>

text \<open>
  What a block with the entries \<open>es\<close> looks like: entry \<open>i\<close> is in full if \<open>i\<close> is a multiple of the interval, and otherwise
  shares its longest common prefix with the key before it.
\<close>

definition shared_at :: "nat \<Rightarrow> bool \<Rightarrow> (slice \<times> slice) list \<Rightarrow> nat \<Rightarrow> nat" where
  "shared_at interval delta es i =
     (if i mod interval = 0 \<or> \<not> delta then 0 else difference_offset (fst (es ! i)) (fst (es ! (i - 1))))"

definition entry_bytes :: "nat \<Rightarrow> bool \<Rightarrow> (slice \<times> slice) list \<Rightarrow> nat \<Rightarrow> slice" where
  "entry_bytes interval delta es i =
     (let (key, val) = es ! i; shared = shared_at interval delta es i
      in EncodeVarint32 (of_nat shared) @ EncodeVarint32 (of_nat (length key - shared)) @ EncodeVarint32 (of_nat (length val))
         @ drop shared key @ val)"

definition entries_bytes :: "nat \<Rightarrow> bool \<Rightarrow> (slice \<times> slice) list \<Rightarrow> nat \<Rightarrow> slice" where
  "entries_bytes interval delta es n = concat (map (entry_bytes interval delta es) [0..<n])"

definition entry_offset :: "nat \<Rightarrow> bool \<Rightarrow> (slice \<times> slice) list \<Rightarrow> nat \<Rightarrow> nat" where
  "entry_offset interval delta es n = length (entries_bytes interval delta es n)"

definition restart_count :: "nat \<Rightarrow> (slice \<times> slice) list \<Rightarrow> nat" where
  "restart_count interval es = (length es - 1) div interval + 1"

definition restart_offsets :: "nat \<Rightarrow> bool \<Rightarrow> (slice \<times> slice) list \<Rightarrow> nat list" where
  "restart_offsets interval delta es =
     map (\<lambda>j. entry_offset interval delta es (j * interval)) [0..<restart_count interval es]"

definition block_bytes :: "nat \<Rightarrow> bool \<Rightarrow> (slice \<times> slice) list \<Rightarrow> slice" where
  "block_bytes interval delta es =
     entries_bytes interval delta es (length es)
     @ concat (map (\<lambda>r. EncodeFixed32 kLittleEndian (of_nat r)) (restart_offsets interval delta es))
     @ EncodeFixed32 kLittleEndian (of_nat (restart_count interval es))"

lemma entries_bytes_Suc [simp]:
  "entries_bytes interval delta es 0 = []"
  "entries_bytes interval delta es (Suc n) = entries_bytes interval delta es n @ entry_bytes interval delta es n"
  by (simp_all add: entries_bytes_def)

lemma entry_offset_Suc:
  "entry_offset interval delta es 0 = 0"
  "entry_offset interval delta es (Suc n) = entry_offset interval delta es n + length (entry_bytes interval delta es n)"
  by (simp_all add: entry_offset_def)

lemma layout_append:
  assumes "i < length es"
  shows "shared_at interval delta (es @ fs) i = shared_at interval delta es i"
    and "entry_bytes interval delta (es @ fs) i = entry_bytes interval delta es i"
  using assms by (auto simp: shared_at_def entry_bytes_def nth_append)

lemma entries_bytes_append: "n \<le> length es \<Longrightarrow> entries_bytes interval delta (es @ fs) n = entries_bytes interval delta es n"
  by (induction n) (simp_all add: layout_append)

lemma entry_offset_append: "n \<le> length es \<Longrightarrow> entry_offset interval delta (es @ fs) n = entry_offset interval delta es n"
  by (simp add: entry_offset_def entries_bytes_append)

lemma difference_offset_le: "difference_offset a b \<le> length a" "difference_offset a b \<le> length b"
  by (induction a b rule: difference_offset.induct) auto

lemma difference_offset_take: "take (difference_offset a b) a = take (difference_offset a b) b"
  by (induction a b rule: difference_offset.induct) auto

lemma difference_offset_Nil [simp]: "difference_offset a [] = 0" "difference_offset [] b = 0"
  by (cases a; simp)+

text \<open>The builder after the entries \<open>es\<close>.\<close>

definition builds :: "nat \<Rightarrow> bool \<Rightarrow> (slice \<times> slice) list \<Rightarrow> BlockBuilder \<Rightarrow> bool" where
  "builds interval delta es b \<longleftrightarrow>
     block_restart_interval b = interval \<and> use_delta_encoding b = delta \<and> \<not> use_value_delta_encoding b \<and> \<not> bb_finished b
     \<and> bb_buffer b = entries_bytes interval delta es (length es)
     \<and> bb_restarts b = map of_nat (restart_offsets interval delta es)
     \<and> counter b = (if es = [] then 0 else (length es - 1) mod interval + 1)
     \<and> estimate b = length (bb_buffer b) + 4 * length (bb_restarts b) + 4
     \<and> (delta \<and> es \<noteq> [] \<longrightarrow> last_key b = fst (last es)) \<and> (es = [] \<longrightarrow> last_key b = [])"

lemma builds_new: "0 < interval \<Longrightarrow> \<exists>b. BlockBuilder_new interval delta False = Inr b \<and> builds interval delta [] b"
  by (simp add: BlockBuilder_new_def builds_def restart_offsets_def restart_count_def entry_offset_def)

lemma builds_Reset: "builds interval delta es b \<Longrightarrow> 0 < interval \<Longrightarrow> builds interval delta [] (BlockBuilder_Reset b)"
  by (simp add: BlockBuilder_Reset_def builds_def restart_offsets_def restart_count_def entry_offset_def)

lemma counter_cases:
  fixes interval n :: nat
  assumes "0 < interval" and "0 < n"
  shows "interval \<le> (n - 1) mod interval + 1 \<longleftrightarrow> n mod interval = 0"
    and "(n - 1) mod interval + 1 \<le> interval"
    and "n mod interval = 0 \<Longrightarrow> n div interval = (n - 1) div interval + 1"
    and "n mod interval \<noteq> 0 \<Longrightarrow> n div interval = (n - 1) div interval"
    and "n mod interval \<noteq> 0 \<Longrightarrow> n mod interval = (n - 1) mod interval + 1"
proof -
  obtain m where m: "n = Suc m" using assms(2) by (cases n) auto
  have "m mod interval < interval" using assms(1) by simp
  then show "interval \<le> (n - 1) mod interval + 1 \<longleftrightarrow> n mod interval = 0" "(n - 1) mod interval + 1 \<le> interval"
    by (auto simp: m mod_Suc)
  show "n mod interval = 0 \<Longrightarrow> n div interval = (n - 1) div interval + 1"
    "n mod interval \<noteq> 0 \<Longrightarrow> n div interval = (n - 1) div interval"
    "n mod interval \<noteq> 0 \<Longrightarrow> n mod interval = (n - 1) mod interval + 1"
    by (simp_all add: m div_Suc mod_Suc split: if_splits)
qed

lemma restart_count_snoc:
  assumes "0 < interval"
  shows "restart_count interval (es @ [e]) = restart_count interval es + (if es \<noteq> [] \<and> length es mod interval = 0 then 1 else 0)"
  using counter_cases [OF assms, of "length es"] by (cases "es = []") (auto simp: restart_count_def)

lemma restart_offsets_snoc:
  assumes "0 < interval"
  shows "restart_offsets interval delta (es @ [e]) =
    restart_offsets interval delta es @ (if es \<noteq> [] \<and> length es mod interval = 0 then [entry_offset interval delta es (length es)] else [])"
proof -
  have le: "j * interval \<le> length es" if "j < restart_count interval es" for j
  proof -
    have "j \<le> (length es - 1) div interval" using that by (simp add: restart_count_def)
    then have "j * interval \<le> length es - 1" by (metis assms less_eq_div_iff_mult_less_eq)
    then show ?thesis by simp
  qed
  then have "map (\<lambda>j. entry_offset interval delta (es @ [e]) (j * interval)) [0..<restart_count interval es] = restart_offsets interval delta es"
    by (auto simp: restart_offsets_def entry_offset_append)
  moreover have "restart_count interval es * interval = length es" if "es \<noteq> []" "length es mod interval = 0"
    using counter_cases(3) [OF assms, of "length es"] that by (simp add: restart_count_def) (metis add.commute div_mult_mod_eq mult_Suc add_0)
  ultimately show ?thesis by (auto simp: restart_offsets_def restart_count_snoc [OF assms] entry_offset_append)
qed

lemma builds_Add:
  assumes b: "builds interval delta es b" and i: "0 < interval"
  shows "\<exists>b'. BlockBuilder_Add key val None b = Inr b' \<and> builds interval delta (es @ [(key, val)]) b'"
proof -
  let ?n = "length es" and ?es = "es @ [(key, val)]"
  let ?restart = "es \<noteq> [] \<and> ?n mod interval = 0"
  have restart: "interval \<le> counter b \<longleftrightarrow> ?restart" and le: "counter b \<le> interval"
    using b i counter_cases [OF i, of ?n] by (auto simp: builds_def)
  define sh where "sh = shared_at interval delta ?es ?n"
  have sh: "sh = (if ?restart \<or> \<not> delta then 0 else difference_offset key (last_key b))"
  proof (cases "es = []")
    case True
    then show ?thesis using b by (simp add: sh_def shared_at_def builds_def)
  next
    case False
    then show ?thesis using b by (auto simp: sh_def shared_at_def builds_def nth_append last_conv_nth)
  qed
  let ?e = "EncodeVarint32 (of_nat sh) @ EncodeVarint32 (of_nat (length key - sh)) @ EncodeVarint32 (of_nat (length val)) @ drop sh key @ val"
  have eb: "entry_bytes interval delta ?es ?n = ?e" by (simp add: entry_bytes_def sh_def Let_def)
  have buf: "entries_bytes interval delta ?es (length ?es) = bb_buffer b @ ?e"
    using b eb by (simp add: builds_def entries_bytes_append)
  note flags = b [unfolded builds_def, THEN conjunct1] b [unfolded builds_def, THEN conjunct2, THEN conjunct1]
  have fin: "\<not> use_value_delta_encoding b" "\<not> bb_finished b" using b by (simp_all add: builds_def)
  let ?b = "(if ?restart then b\<lparr>bb_restarts := bb_restarts b @ [of_nat (length (bb_buffer b))], estimate := estimate b + 4, counter := 0\<rparr> else b)"
  let ?b' = "(if delta then ?b\<lparr>last_key := key\<rparr> else ?b)
    \<lparr>bb_buffer := bb_buffer b @ ?e, counter := counter ?b + 1, estimate := estimate ?b + length ?e\<rparr>"
  have "BlockBuilder_Add key val None b = Inr ?b'"
  proof (cases ?restart)
    case True
    then show ?thesis using fin le sh
      by (cases delta) (simp_all add: BlockBuilder_Add_def flags restart Let_def PutVarint32Varint32Varint32_def)
  next
    case False
    then have nr: "\<not> interval \<le> counter b" using restart by simp
    show ?thesis
    proof (cases delta)
      case True
      with False have "difference_offset key (last_key b) = sh" unfolding sh by auto
      then show ?thesis using fin le False nr True
        by (simp only: BlockBuilder_Add_def flags Let_def if_False if_True simp_thms option.case) (simp add: PutVarint32Varint32Varint32_def)
    next
      case d: False
      then have "sh = 0" using sh by simp
      then show ?thesis using fin le False nr d
        by (simp only: BlockBuilder_Add_def flags Let_def if_False if_True simp_thms option.case) (simp add: PutVarint32Varint32Varint32_def)
    qed
  qed
  moreover have "builds interval delta ?es ?b'"
  proof -
    have c: "counter ?b + 1 = length es mod interval + 1"
      using b counter_cases(5) [OF i, of ?n] by (auto simp: builds_def)
    have r: "bb_restarts ?b = map of_nat (restart_offsets interval delta ?es)"
      using b by (auto simp: builds_def restart_offsets_snoc [OF i] entry_offset_def)
    have e: "estimate ?b = length (bb_buffer b) + 4 * length (bb_restarts ?b) + 4"
      using b by (simp add: builds_def)
    show ?thesis
      unfolding builds_def buf using fin flags c r e by (cases delta) simp_all
  qed
  ultimately show ?thesis by blast
qed

lemma builds_add_entries:
  assumes "builds interval delta es b" and "0 < interval"
  shows "\<exists>b'. add_entries fs b = Inr b' \<and> builds interval delta (es @ fs) b'"
  using assms(1)
proof (induction fs arbitrary: es b)
  case (Cons f fs)
  obtain key val where f: "f = (key, val)" by (cases f)
  obtain c where "BlockBuilder_Add key val None b = Inr c" "builds interval delta (es @ [(key, val)]) c"
    using builds_Add [OF Cons.prems assms(2)] by blast
  then show ?case using Cons.IH [of "es @ [(key, val)]" c] f by simp
qed simp

lemma fold_PutFixed32: "fold (\<lambda>r buffer. PutFixed32 buffer r) rs buf = buf @ concat (map (EncodeFixed32 kLittleEndian) rs)"
  by (induction rs arbitrary: buf) (simp_all add: put_simps)

lemma length_fixed32s: "length (concat (map (\<lambda>r. EncodeFixed32 kLittleEndian (f r)) rs)) = 4 * length rs"
  by (induction rs) simp_all

lemma length_block_bytes:
  "length (block_bytes interval delta es) = entry_offset interval delta es (length es) + 4 * restart_count interval es + 4"
  using length_fixed32s [of of_nat "restart_offsets interval delta es"]
  by (simp add: block_bytes_def entry_offset_def restart_offsets_def)

lemma restart_count_pos: "0 < restart_count interval es"
  by (simp add: restart_count_def)

lemma unat_kMaxNumRestarts: "unat kMaxNumRestarts = 2 ^ 31 - 1"
  by (simp add: kMaxNumRestarts_def)

lemma builds_Finish:
  assumes b: "builds interval delta es b" and small: "length (block_bytes interval delta es) < 2 ^ 32"
  shows "\<exists>b'. BlockBuilder_Finish b = Inr (block_bytes interval delta es, b') \<and> b' = b\<lparr>bb_buffer := block_bytes interval delta es, bb_finished := True\<rparr>"
proof -
  have n: "length (bb_restarts b) = restart_count interval es" using b by (simp add: builds_def restart_offsets_def)
  have "restart_count interval es < 2 ^ 30" using small by (simp add: length_block_bytes)
  then have "\<not> of_nat (restart_count interval es) > kMaxNumRestarts"
    by (simp add: word_less_nat_alt unat_kMaxNumRestarts unsigned_of_nat take_bit_nat_eq_self)
  then have "PackIndexTypeAndNumRestarts kDataBlockBinarySearch (of_nat (length (bb_restarts b))) = Inr (of_nat (restart_count interval es))"
    using n by (simp add: PackIndexTypeAndNumRestarts_def)
  moreover have "bb_buffer b @ concat (map (EncodeFixed32 kLittleEndian) (bb_restarts b)) @ EncodeFixed32 kLittleEndian (of_nat (restart_count interval es))
      = block_bytes interval delta es"
    using b by (simp add: builds_def block_bytes_def comp_def)
  ultimately show ?thesis
    unfolding BlockBuilder_Finish_def fold_PutFixed32 Let_def by (simp only: Put_append and_then_simps append_assoc) simp
qed

lemma VarintLength_mono: "unat v \<le> unat w \<Longrightarrow> VarintLength v \<le> VarintLength w"
proof (induction w arbitrary: v rule: VarintLength.induct)
  case (1 w)
  show ?case
  proof (cases "128 \<le> v")
    case True
    then have w: "128 \<le> w" using 1(2) by (simp add: word_le_nat_alt)
    moreover have "unat (drop_bit 7 v) \<le> unat (drop_bit 7 w)" using 1(2) by (simp add: unat_drop_bit_div div_le_mono)
    ultimately show ?thesis using 1(1) True by (simp add: VarintLength.simps [of v] VarintLength.simps [of w])
  qed (simp add: VarintLength.simps [of v] VarintLength.simps [of w])
qed

lemma length_EncodeVarint32_mono:
  assumes "m \<le> n" and "n < 2 ^ 32"
  shows "length (EncodeVarint32 (of_nat m)) \<le> VarintLength (of_nat n)"
proof -
  have "unat (ucast (of_nat m :: u32) :: u64) = m" using assms by (simp add: unat_ucast_up unsigned_of_nat take_bit_nat_eq_self)
  moreover have "unat (of_nat n :: u64) = n" using assms(2) by (simp add: unsigned_of_nat take_bit_nat_eq_self)
  ultimately have "VarintLength (ucast (of_nat m :: u32)) \<le> VarintLength (of_nat n)" using assms(1) by (intro VarintLength_mono) simp
  then show ?thesis by (simp only: EncodeVarint32_eq_EncodeVarint64 VarintLength_length)
qed

lemma length_EncodeVarint32_small: "length (EncodeVarint32 (of_nat m)) \<le> 4 + m"
proof (cases "m = 0")
  case True
  then show ?thesis by (simp add: EncodeVarint32_eq_EncodeVarint64 EncodeVarint64.simps)
next
  case False
  then show ?thesis using length_EncodeVarint32_le [of "of_nat m"] by simp
qed

lemma length_entry_bytes:
  assumes "es ! i = (key, val)" and "length key < 2 ^ 32" and "length val < 2 ^ 32" and "shared_at interval delta es i \<le> length key"
  shows "length (entry_bytes interval delta es i) \<le> 4 + length key + length val + VarintLength (of_nat (length key)) + VarintLength (of_nat (length val))"
proof -
  let ?s = "shared_at interval delta es i"
  have "length (EncodeVarint32 (of_nat ?s)) + (length key - ?s) \<le> 4 + length key"
    using length_EncodeVarint32_small [of ?s] assms(4) by simp
  moreover have "length (EncodeVarint32 (of_nat (length key - ?s))) \<le> VarintLength (of_nat (length key))"
    using assms(2) by (intro length_EncodeVarint32_mono) simp_all
  moreover have "length (EncodeVarint32 (of_nat (length val))) \<le> VarintLength (of_nat (length val))"
    using assms(3) by (intro length_EncodeVarint32_mono) simp_all
  ultimately show ?thesis using assms(1) by (simp add: entry_bytes_def Let_def)
qed

lemma shared_at_le: "i < length es \<Longrightarrow> shared_at interval delta es i \<le> length (fst (es ! i))"
  by (simp add: shared_at_def difference_offset_le)

lemma builds_size: "builds interval delta es b \<Longrightarrow> CurrentSizeEstimate b = length (block_bytes interval delta es)"
  by (simp add: CurrentSizeEstimate_def builds_def length_block_bytes entry_offset_def restart_offsets_def)

section \<open>Properties\<close>



end
