(* ===== verification/DataBlocks.thy ===== *)
theory DataBlocks
  imports IterKeys BlockBuilders MergingIterators
begin

text \<open>
  Reading a data block (\<open>table/block.h\<close>, \<open>table/block.cc\<close>): class \<open>Block\<close>, which finds the restart points at the end of the
  contents, and class \<open>DataBlockIter\<close> with all its operations, the cache of entries for \<open>Prev\<close> included.

  A pointer into the block is an offset, \<open>value_\<close> an offset and a length (\<open>None\<close> after \<open>clear\<close>). Offsets and indices are
  \<open>uint32_t\<close>: natural numbers here, with \<open>mod 2 ^ 32\<close> where a computation may leave the range. The lookup by hash index
  (\<open>SeekForGet\<close>), the statistics of read amplification and the iterators of index blocks are left out.
\<close>

section \<open>Block\<close>

record Block =
  bl_data :: slice
  bl_size :: nat
  restart_offset :: nat
  bl_num_restarts :: nat
  bl_global_seqno :: u64

definition kMaxBlockSizeSupportedByHashIndex :: nat where
  "kMaxBlockSizeSupportedByHashIndex = 2 ^ 16"

definition kDisableGlobalSequenceNumber :: u64 where
  "kDisableGlobalSequenceNumber = - 1"

definition NumRestarts :: "slice \<Rightarrow> nat \<Rightarrow> nat result" where
  "NumRestarts d sz =
     (if sz < 8 then Inl AssertFailed
      else let block_footer = DecodeFixed32 kLittleEndian (drop (sz - 4) d)
           in if sz > kMaxBlockSizeSupportedByHashIndex then Inr (unat block_footer)
              else Inr (unat (snd (UnPackIndexTypeAndNumRestarts block_footer))))"

definition IndexType :: "slice \<Rightarrow> nat \<Rightarrow> DataBlockIndexType result" where
  "IndexType d sz =
     (if sz < 8 then Inl AssertFailed
      else if sz > kMaxBlockSizeSupportedByHashIndex then Inr kDataBlockBinarySearch
      else Inr (fst (UnPackIndexTypeAndNumRestarts (DecodeFixed32 kLittleEndian (drop (sz - 4) d)))))"

text \<open>\<open>DataBlockHashIndex::Initialize\<close>: the offset of the hash map.\<close>

definition HashIndex_Initialize :: "slice \<Rightarrow> nat \<Rightarrow> nat result" where
  "HashIndex_Initialize d sz =
     (if sz < 2 then Inl AssertFailed
      else let num_buckets = unat (DecodeFixed16 kLittleEndian (drop (sz - 2) d))
           in if num_buckets = 0 \<or> \<not> sz > num_buckets then Inl AssertFailed
              else Inr (nat ((int sz - 2 - int num_buckets) mod 2 ^ 16)))"

definition Block_new :: "slice \<Rightarrow> u64 \<Rightarrow> Block result" where
  "Block_new contents global_seqno =
     (let sz = length contents;
          bad = \<lparr>bl_data = contents, bl_size = 0, restart_offset = 0, bl_num_restarts = 0, bl_global_seqno = global_seqno\<rparr>
      in if sz < 4 then Inr bad
         else
           and_then (NumRestarts contents sz) (\<lambda>num_restarts.
           and_then (IndexType contents sz) (\<lambda>index_type.
             case index_type of
               kDataBlockBinarySearch \<Rightarrow>
                 (let off = nat ((int sz - int ((1 + num_restarts) mod 2 ^ 32) * 4) mod 2 ^ 32)
                  in Inr (bad\<lparr>bl_num_restarts := num_restarts, restart_offset := off, bl_size := (if off > sz - 4 then 0 else sz)\<rparr>))
             | kDataBlockBinaryAndHash \<Rightarrow>
                 (if sz < 6 then Inr (bad\<lparr>bl_num_restarts := num_restarts\<rparr>)
                  else and_then (HashIndex_Initialize contents ((sz - 4) mod 2 ^ 16)) (\<lambda>map_offset.
                    let off = nat ((int map_offset - int num_restarts * 4) mod 2 ^ 32)
                    in Inr (bad\<lparr>bl_num_restarts := num_restarts, restart_offset := off, bl_size := (if off > map_offset then 0 else sz)\<rparr>))))))"

section \<open>The iterator\<close>

record CachedPrevEntry =
  ce_offset :: nat
  ce_key_ptr :: "slice option"
  ce_key_offset :: nat
  ce_key_size :: nat
  ce_value :: "(nat \<times> nat) option"

record DataBlockIter =
  di_data :: "slice option"
  di_num_restarts :: nat
  di_restart_index :: nat
  di_restarts :: nat
  di_current :: nat
  di_key :: IterKey
  di_value :: "(nat \<times> nat) option"
  di_status :: Status
  di_key_pinned :: bool
  di_global_seqno :: u64
  prev_entries_keys_buff :: slice
  prev_entries :: "CachedPrevEntry list"
  prev_entries_idx :: int

definition DataBlockIter_new :: DataBlockIter where
  "DataBlockIter_new =
     \<lparr>di_data = None, di_num_restarts = 0, di_restart_index = 0, di_restarts = 0, di_current = 0, di_key = IterKey_init,
      di_value = None, di_status = OK, di_key_pinned = False, di_global_seqno = 0, prev_entries_keys_buff = [],
      prev_entries = [], prev_entries_idx = - 1\<rparr>"

definition DataBlock_Invalidate :: "Status \<Rightarrow> DataBlockIter \<Rightarrow> DataBlockIter" where
  "DataBlock_Invalidate s it =
     it\<lparr>di_data := None, di_current := di_restarts it, di_status := s, prev_entries_keys_buff := [], prev_entries := [],
        prev_entries_idx := - 1\<rparr>"

definition DataBlock_Initialize :: "slice \<Rightarrow> nat \<Rightarrow> nat \<Rightarrow> u64 \<Rightarrow> DataBlockIter \<Rightarrow> DataBlockIter result" where
  "DataBlock_Initialize d restarts num_restarts global_seqno it =
     (if di_data it \<noteq> None \<or> \<not> num_restarts > 0 then Inl AssertFailed
      else Inr (it\<lparr>di_data := Some d, di_restarts := restarts, di_num_restarts := num_restarts, di_current := restarts,
                   di_restart_index := num_restarts, di_global_seqno := global_seqno, di_key := SetIsUserKey False (di_key it)\<rparr>))"

definition NewDataBlockIterator :: "Block \<Rightarrow> DataBlockIter result" where
  "NewDataBlockIterator b =
     (if bl_size b < 8 then Inr (DataBlock_Invalidate (Corruption ''bad block contents'') DataBlockIter_new)
      else if bl_num_restarts b = 0 then Inr (DataBlock_Invalidate OK DataBlockIter_new)
      else DataBlock_Initialize (bl_data b) (restart_offset b) (bl_num_restarts b) (bl_global_seqno b) DataBlockIter_new)"

definition DataBlock_Valid :: "DataBlockIter \<Rightarrow> bool" where
  "DataBlock_Valid it \<longleftrightarrow> di_current it < di_restarts it"

definition slice_at :: "slice \<Rightarrow> nat \<Rightarrow> nat \<Rightarrow> slice result" where
  "slice_at d p n = (if p + n \<le> length d then Inr (take n (drop p d)) else Inl OutOfBounds)"

definition block_data :: "DataBlockIter \<Rightarrow> slice result" where
  "block_data it = (case di_data it of None \<Rightarrow> Inl NullDeref | Some d \<Rightarrow> Inr d)"

definition DataBlock_key :: "DataBlockIter \<Rightarrow> slice result" where
  "DataBlock_key it = (if DataBlock_Valid it then GetKey (di_key it) else Inl AssertFailed)"

definition DataBlock_value :: "DataBlockIter \<Rightarrow> slice result" where
  "DataBlock_value it =
     (if DataBlock_Valid it
      then case di_value it of None \<Rightarrow> Inr [] | Some (p, n) \<Rightarrow> and_then (block_data it) (\<lambda>d. slice_at d p n)
      else Inl AssertFailed)"

definition NextEntryOffset :: "DataBlockIter \<Rightarrow> nat result" where
  "NextEntryOffset it = (case di_value it of None \<Rightarrow> Inl OutOfBounds | Some (p, n) \<Rightarrow> Inr ((p + n) mod 2 ^ 32))"

definition GetRestartPoint :: "nat \<Rightarrow> DataBlockIter \<Rightarrow> nat result" where
  "GetRestartPoint index it =
     (if \<not> index < di_num_restarts it then Inl AssertFailed
      else and_then (block_data it) (\<lambda>d.
             and_then (slice_at d (di_restarts it + index * 4) 4) (\<lambda>bs. Inr (unat (DecodeFixed32 kLittleEndian bs)))))"

definition SeekToRestartPoint :: "nat \<Rightarrow> DataBlockIter \<Rightarrow> DataBlockIter result" where
  "SeekToRestartPoint index it =
     and_then (GetRestartPoint index it) (\<lambda>offset.
       Inr (it\<lparr>di_key := IterKey_Clear (di_key it), di_restart_index := index, di_value := Some (offset, 0)\<rparr>))"

definition CorruptionError :: "DataBlockIter \<Rightarrow> DataBlockIter" where
  "CorruptionError it =
     it\<lparr>di_current := di_restarts it, di_restart_index := di_num_restarts it, di_status := Corruption ''bad entry in block'',
        di_key := IterKey_Clear (di_key it), di_value := None\<rparr>"

definition key_Compare :: "(slice \<Rightarrow> slice \<Rightarrow> int) \<Rightarrow> DataBlockIter \<Rightarrow> slice \<Rightarrow> int result" where
  "key_Compare icmp it target =
     (if ik_is_user_key (di_key it) then Inl AssertFailed else and_then (GetKey (di_key it)) (\<lambda>k. Inr (icmp k target)))"

subsection \<open>Decoding\<close>

text \<open>The result of \<open>DecodeEntry\<close>: shared, non-shared, value length and the offset of the key bytes.\<close>

definition decode_sizes :: "slice \<Rightarrow> nat \<Rightarrow> nat \<Rightarrow> (nat \<times> nat \<times> nat \<times> nat) option" where
  "decode_sizes q p limit =
     (if (q ! 0 OR q ! 1 OR q ! 2) < 128 then Some (unat (q ! 0), unat (q ! 1), unat (q ! 2), p + 3)
      else case GetVarint32Ptr q of None \<Rightarrow> None | Some (shared, q) \<Rightarrow>
        (case GetVarint32Ptr q of None \<Rightarrow> None | Some (non_shared, q) \<Rightarrow>
          (case GetVarint32Ptr q of None \<Rightarrow> None | Some (value_length, q) \<Rightarrow>
            Some (unat shared, unat non_shared, unat value_length, limit - length q))))"

definition DecodeEntry :: "slice \<Rightarrow> nat \<Rightarrow> nat \<Rightarrow> (nat \<times> nat \<times> nat \<times> nat) option result" where
  "DecodeEntry d p limit =
     (if p + 3 > limit then Inl AssertFailed
      else and_then (slice_at d p (limit - p)) (\<lambda>q.
        case decode_sizes q p limit of
          None \<Rightarrow> Inr None
        | Some (shared, non_shared, value_length, p) \<Rightarrow>
            if limit - p < (non_shared + value_length) mod 2 ^ 32 then Inl AssertFailed
            else Inr (Some (shared, non_shared, value_length, p))))"

text \<open>The restart index catches up with an entry that is stored in full.\<close>

function advance_restart :: "DataBlockIter \<Rightarrow> nat \<Rightarrow> nat result" where
  "advance_restart it r =
     (if r + 1 < di_num_restarts it then
        (case GetRestartPoint (r + 1) it of
           Inl e \<Rightarrow> Inl e
         | Inr o' \<Rightarrow> if o' < di_current it then advance_restart it (r + 1) else Inr r)
      else Inr r)"
  by auto
termination
  by (relation "measure (\<lambda>(it, r). di_num_restarts it - r)") auto

declare advance_restart.simps [simp del]

definition apply_global_seqno :: "DataBlockIter \<Rightarrow> DataBlockIter result" where
  "apply_global_seqno it =
     (if di_global_seqno it = kDisableGlobalSequenceNumber then Inr it
      else if ik_is_user_key (di_key it) then Inl AssertFailed
      else and_then (GetKey (di_key it)) (\<lambda>key.
        if length key < 8 \<or> GetInternalKeySeqno key \<noteq> 0 then Inl AssertFailed
        else
          let value_type = ExtractValueType key
          in if value_type \<notin> {kTypeValue, kTypeMerge, kTypeDeletion, kTypeRangeDeletion} then Inl AssertFailed
             else and_then (if di_key_pinned it then OwnKey (di_key it) else Inr (di_key it)) (\<lambda>k.
                  and_then (IterKey_UpdateInternalKey (di_global_seqno it) value_type k) (\<lambda>k.
                    Inr (it\<lparr>di_key := k, di_key_pinned := False\<rparr>)))))"

definition ParseNextDataKey :: "nat option \<Rightarrow> DataBlockIter \<Rightarrow> (bool \<times> DataBlockIter) result" where
  "ParseNextDataKey limit it =
     and_then (NextEntryOffset it) (\<lambda>current.
     and_then (block_data it) (\<lambda>d.
       let it = it\<lparr>di_current := current\<rparr>; lim = (case limit of None \<Rightarrow> di_restarts it | Some l \<Rightarrow> l)
       in if current \<ge> lim then Inr (False, it\<lparr>di_current := di_restarts it, di_restart_index := di_num_restarts it\<rparr>)
          else
            and_then (DecodeEntry d current lim) (\<lambda>entry.
              case entry of
                None \<Rightarrow> Inr (False, CorruptionError it)
              | Some (shared, non_shared, value_length, p) \<Rightarrow>
                  if ik_key_size (di_key it) < shared then Inr (False, CorruptionError it)
                  else
                    and_then (if shared = 0
                              then and_then (slice_at d p non_shared) (\<lambda>k. SetKey k False (di_key it))
                              else TrimAppend shared (drop p d) non_shared (di_key it)) (\<lambda>k.
                    and_then (apply_global_seqno (it\<lparr>di_key := k, di_key_pinned := (shared = 0)\<rparr>)) (\<lambda>it.
                      let it = it\<lparr>di_value := Some (p + non_shared, value_length)\<rparr>
                      in and_then (if shared = 0 then advance_restart it (di_restart_index it) else Inr (di_restart_index it)) (\<lambda>r.
                           Inr (True, it\<lparr>di_restart_index := r\<rparr>)))))))"

subsection \<open>Operations\<close>

definition DataBlock_Next :: "DataBlockIter \<Rightarrow> DataBlockIter run" where
  "DataBlock_Next it =
     (if \<not> DataBlock_Valid it then fails AssertFailed else Some (and_then (ParseNextDataKey None it) (\<lambda>(_, it). Inr it)))"

text \<open>The restart points at or after the current entry are passed by: \<open>None\<close> if there is none before it.\<close>

fun restart_before :: "DataBlockIter \<Rightarrow> nat \<Rightarrow> nat \<Rightarrow> nat option result" where
  "restart_before it original 0 =
     (case GetRestartPoint 0 it of Inl e \<Rightarrow> Inl e | Inr o' \<Rightarrow> if o' \<ge> original then Inr None else Inr (Some 0))"
| "restart_before it original (Suc r) =
     (case GetRestartPoint (Suc r) it of
        Inl e \<Rightarrow> Inl e
      | Inr o' \<Rightarrow> if o' \<ge> original then restart_before it original r else Inr (Some (Suc r)))"

definition cache_entry :: "DataBlockIter \<Rightarrow> DataBlockIter result" where
  "cache_entry it =
     and_then (DataBlock_key it) (\<lambda>k.
       Inr (if IsKeyPinned (di_key it)
            then it\<lparr>prev_entries := prev_entries it @
                     [\<lparr>ce_offset = di_current it, ce_key_ptr = Some k, ce_key_offset = 0, ce_key_size = length k, ce_value = di_value it\<rparr>]\<rparr>
            else it\<lparr>prev_entries := prev_entries it @
                     [\<lparr>ce_offset = di_current it, ce_key_ptr = None, ce_key_offset = length (prev_entries_keys_buff it),
                       ce_key_size = length k, ce_value = di_value it\<rparr>],
                    prev_entries_keys_buff := prev_entries_keys_buff it @ k\<rparr>))"

definition prev_turn :: "nat \<Rightarrow> DataBlockIter \<Rightarrow> (bool \<times> DataBlockIter) result" where
  "prev_turn original it =
     and_then (ParseNextDataKey None it) (\<lambda>(ok, it).
       if \<not> ok then Inr (False, it)
       else and_then (cache_entry it) (\<lambda>it. and_then (NextEntryOffset it) (\<lambda>o'. Inr (o' < original, it))))"

definition cached_Prev :: "DataBlockIter \<Rightarrow> DataBlockIter result" where
  "cached_Prev it =
     (let idx = prev_entries_idx it - 1; e = prev_entries it ! nat idx
      in and_then (case ce_key_ptr e of
                     Some k \<Rightarrow> slice_at k 0 (ce_key_size e)
                   | None \<Rightarrow> slice_at (prev_entries_keys_buff it) (ce_key_offset e) (ce_key_size e)) (\<lambda>k.
         and_then (SetKey k False (di_key it)) (\<lambda>key.
           Inr (it\<lparr>prev_entries_idx := idx, di_key_pinned := (ce_key_ptr e \<noteq> None), di_current := ce_offset e, di_key := key,
                   di_value := ce_value e\<rparr>))))"

definition DataBlock_Prev :: "DataBlockIter \<Rightarrow> DataBlockIter run" where
  "DataBlock_Prev it =
     (if \<not> DataBlock_Valid it \<or> \<not> (prev_entries_idx it = - 1 \<or> 0 \<le> prev_entries_idx it \<and> prev_entries_idx it < int (length (prev_entries it)))
      then fails AssertFailed
      else if prev_entries_idx it > 0 \<and> ce_offset (prev_entries it ! nat (prev_entries_idx it)) = di_current it then Some (cached_Prev it)
      else
        let it = it\<lparr>prev_entries_idx := - 1, prev_entries := [], prev_entries_keys_buff := []\<rparr>; original = di_current it
        in run_then (Some (restart_before it original (di_restart_index it))) (\<lambda>r.
             case r of
               None \<Rightarrow> returns (it\<lparr>di_current := di_restarts it, di_restart_index := di_num_restarts it\<rparr>)
             | Some r \<Rightarrow>
                 run_then (Some (SeekToRestartPoint r it)) (\<lambda>it.
                 run_then (run_loop (prev_turn original) it) (\<lambda>it.
                   returns (it\<lparr>prev_entries_idx := int (length (prev_entries it)) - 1\<rparr>)))))"

text \<open>\<open>BinarySeek\<close>: the state of the loop is \<open>left\<close>, \<open>right\<close> and whether the block is corrupt.\<close>

definition binary_turn :: "(slice \<Rightarrow> slice \<Rightarrow> int) \<Rightarrow> slice \<Rightarrow> DataBlockIter \<Rightarrow> nat \<times> nat \<times> bool \<Rightarrow> (bool \<times> nat \<times> nat \<times> bool) result" where
  "binary_turn icmp target it = (\<lambda>(left, right, corrupt).
     if left < right then
       (let mid = (left + right + 1) mod 2 ^ 32 div 2
        in and_then (GetRestartPoint mid it) (\<lambda>region_offset.
           and_then (block_data it) (\<lambda>d.
           and_then (DecodeEntry d region_offset (di_restarts it)) (\<lambda>entry.
             case entry of
               None \<Rightarrow> Inr (False, left, right, True)
             | Some (shared, non_shared, _, p) \<Rightarrow>
                 if shared \<noteq> 0 then Inr (False, left, right, True)
                 else and_then (slice_at d p non_shared) (\<lambda>mid_key.
                   let cmp = icmp mid_key target
                   in if cmp < 0 then Inr (True, mid, right, False)
                      else if cmp > 0 then Inr (True, left, mid - 1, False)
                      else Inr (True, mid, mid, False))))))
     else Inr (False, left, right, False))"

definition BinarySeek :: "(slice \<Rightarrow> slice \<Rightarrow> int) \<Rightarrow> slice \<Rightarrow> nat \<Rightarrow> nat \<Rightarrow> DataBlockIter \<Rightarrow> (nat option \<times> DataBlockIter) run" where
  "BinarySeek icmp target left right it =
     (if \<not> left \<le> right then fails AssertFailed
      else run_then (run_loop (binary_turn icmp target it) (left, right, False)) (\<lambda>(left, right, corrupt).
        if corrupt then returns (None, CorruptionError it) else returns (Some left, it)))"

definition seek_turn :: "(slice \<Rightarrow> slice \<Rightarrow> int) \<Rightarrow> slice \<Rightarrow> DataBlockIter \<Rightarrow> (bool \<times> DataBlockIter) result" where
  "seek_turn icmp target it =
     and_then (ParseNextDataKey None it) (\<lambda>(ok, it).
       if \<not> ok then Inr (False, it) else and_then (key_Compare icmp it target) (\<lambda>c. Inr (c < 0, it)))"

definition DataBlock_Seek :: "(slice \<Rightarrow> slice \<Rightarrow> int) \<Rightarrow> slice \<Rightarrow> DataBlockIter \<Rightarrow> DataBlockIter run" where
  "DataBlock_Seek icmp target it =
     (if di_data it = None then returns it
      else run_then (BinarySeek icmp target 0 (nat ((int (di_num_restarts it) - 1) mod 2 ^ 32)) it) (\<lambda>(index, it).
        case index of
          None \<Rightarrow> returns it
        | Some index \<Rightarrow> run_then (Some (SeekToRestartPoint index it)) (run_loop (seek_turn icmp target))))"

definition DataBlock_SeekToFirst :: "DataBlockIter \<Rightarrow> DataBlockIter run" where
  "DataBlock_SeekToFirst it =
     (if di_data it = None then returns it
      else Some (and_then (SeekToRestartPoint 0 it) (\<lambda>it. and_then (ParseNextDataKey None it) (\<lambda>(_, it). Inr it))))"

definition last_turn :: "DataBlockIter \<Rightarrow> (bool \<times> DataBlockIter) result" where
  "last_turn it =
     and_then (ParseNextDataKey None it) (\<lambda>(ok, it).
       if \<not> ok then Inr (False, it) else and_then (NextEntryOffset it) (\<lambda>o'. Inr (o' < di_restarts it, it)))"

definition DataBlock_SeekToLast :: "DataBlockIter \<Rightarrow> DataBlockIter run" where
  "DataBlock_SeekToLast it =
     (if di_data it = None then returns it
      else run_then (Some (SeekToRestartPoint (nat ((int (di_num_restarts it) - 1) mod 2 ^ 32)) it)) (run_loop last_turn))"

partial_function (option) back_loop :: "(slice \<Rightarrow> slice \<Rightarrow> int) \<Rightarrow> slice \<Rightarrow> DataBlockIter \<Rightarrow> DataBlockIter run" where
  [code]: "back_loop icmp target it =
     (if \<not> DataBlock_Valid it then returns it
      else
        case key_Compare icmp it target of
          Inl e \<Rightarrow> fails e
        | Inr c \<Rightarrow>
            if \<not> c > 0 then returns it
            else
              case DataBlock_Prev it of
                None \<Rightarrow> None
              | Some (Inl e) \<Rightarrow> fails e
              | Some (Inr it') \<Rightarrow> back_loop icmp target it')"

definition DataBlock_SeekForPrev :: "(slice \<Rightarrow> slice \<Rightarrow> int) \<Rightarrow> slice \<Rightarrow> DataBlockIter \<Rightarrow> DataBlockIter run" where
  "DataBlock_SeekForPrev icmp target it =
     (if di_data it = None then returns it
      else run_then (BinarySeek icmp target 0 (nat ((int (di_num_restarts it) - 1) mod 2 ^ 32)) it) (\<lambda>(index, it).
        case index of
          None \<Rightarrow> returns it
        | Some index \<Rightarrow>
            run_then (run_then (Some (SeekToRestartPoint index it)) (run_loop (seek_turn icmp target))) (\<lambda>it.
              if \<not> DataBlock_Valid it then DataBlock_SeekToLast it else back_loop icmp target it)))"

definition DataBlock_ops :: "(slice \<Rightarrow> slice \<Rightarrow> int) \<Rightarrow> DataBlockIter InternalIterator" where
  "DataBlock_ops icmp =
     \<lparr>io_Valid = DataBlock_Valid, io_SeekToFirst = DataBlock_SeekToFirst, io_SeekToLast = DataBlock_SeekToLast,
      io_Seek = DataBlock_Seek icmp, io_SeekForPrev = DataBlock_SeekForPrev icmp, io_Next = DataBlock_Next, io_Prev = DataBlock_Prev,
      io_key = DataBlock_key, io_value = DataBlock_value, io_status = di_status, io_IsOutOfBound = (\<lambda>_. False)\<rparr>"

section \<open>Decoding a built block\<close>

lemma byte_less_128: "(b :: byte) < 128 \<longleftrightarrow> \<not> bit b 7"
proof
  assume "b < 128"
  then show "\<not> bit b 7" using not_bit_small [of b 7 7] by (simp add: word_less_nat_alt)
next
  assume b: "\<not> bit b 7"
  have "take_bit 7 b = b" using b by (intro bit_word_eqI) (auto simp: bit_take_bit_iff less_Suc_eq numeral_eq_Suc)
  then have "unat b = take_bit 7 (unat b)" by (metis unsigned_take_bit_eq)
  then have "unat b < 2 ^ 7" by (metis take_bit_nat_less_exp)
  then show "b < 128" by (simp add: word_less_nat_alt)
qed

lemma varint_first_byte: "\<exists>c cs. EncodeVarint32 v = c # cs \<and> (c < 128 \<longrightarrow> cs = [] \<and> unat c = unat v)"
proof -
  define w where "w = (ucast v :: u64)"
  have w: "unat w = unat v" by (simp add: w_def unat_ucast_up)
  show ?thesis
  proof (cases "128 \<le> w")
    case True
    have "bit (ucast ((w AND 127) OR 128) :: byte) 7" by (simp add: bit_simps bit_128_iff)
    then show ?thesis using True by (simp add: EncodeVarint32_eq_EncodeVarint64 EncodeVarint64.simps [of w] byte_less_128 flip: w_def)
  next
    case False
    then have "unat w < 128" by (simp add: word_le_nat_alt)
    then have "unat (ucast w :: byte) = unat v" using w by (simp add: unsigned_ucast_eq take_bit_nat_eq_self)
    then show ?thesis using False by (simp add: EncodeVarint32_eq_EncodeVarint64 EncodeVarint64.simps [of w] flip: w_def)
  qed
qed

lemma DecodeEntry_bytes:
  assumes "slice_at d p (limit - p) = Inr (EncodeVarint32 a @ EncodeVarint32 b @ EncodeVarint32 c @ rest)"
    and "p \<le> limit" and "unat b + unat c \<le> length rest" and "limit < 2 ^ 32"
  shows "DecodeEntry d p limit = Inr (Some (unat a, unat b, unat c, limit - length rest))"
proof -
  let ?q = "EncodeVarint32 a @ EncodeVarint32 b @ EncodeVarint32 c @ rest"
  obtain x xs where x: "EncodeVarint32 a = x # xs" "x < 128 \<Longrightarrow> xs = [] \<and> unat x = unat a"
    using varint_first_byte [of a] by blast
  obtain y ys where y: "EncodeVarint32 b = y # ys" "y < 128 \<Longrightarrow> ys = [] \<and> unat y = unat b"
    using varint_first_byte [of b] by blast
  obtain z zs where z: "EncodeVarint32 c = z # zs" "z < 128 \<Longrightarrow> zs = [] \<and> unat z = unat c"
    using varint_first_byte [of c] by blast
  have "take (limit - p) (drop p d) = ?q" and lim: "limit \<le> length d" using assms(1,2) by (auto simp: slice_at_def split: if_splits)
  then have len: "length ?q = limit - p" by (metis assms(2) diff_le_mono length_drop length_take min.absorb2)
  then have p: "\<not> p + 3 > limit" using x(1) y(1) z(1) by auto
  have sum: "(unat b + unat c) mod 2 ^ 32 = unat b + unat c" "\<not> length rest < unat b + unat c"
    using assms(3,4) len by (auto intro: mod_less)
  have "decode_sizes ?q p limit = Some (unat a, unat b, unat c, limit - length rest)"
  proof (cases "(?q ! 0 OR ?q ! 1 OR ?q ! 2) < 128")
    case True
    then have bits: "\<not> bit (?q ! 0) 7" "\<not> bit (?q ! 1) 7" "\<not> bit (?q ! 2) 7" by (simp_all add: byte_less_128 bit_or_iff)
    then have 1: "xs = []" "unat x = unat a" using x by (auto simp: byte_less_128)
    then have 2: "ys = []" "unat y = unat b" using bits(2) x y by (auto simp: byte_less_128)
    then have 3: "zs = []" "unat z = unat c" using bits(3) 1 x y z by (auto simp: byte_less_128)
    have "?q ! 0 = x" "?q ! 1 = y" "?q ! 2 = z" "p + 3 = limit - length rest" using 1 2 3 x(1) y(1) z(1) len assms(2) by auto
    then show ?thesis using True 1 2 3 by (simp add: decode_sizes_def)
  next
    case False
    then show ?thesis using GetVarint32_EncodeVarint32 [unfolded GetVarint32_def] by (simp add: decode_sizes_def)
  qed
  moreover have "limit - (limit - length rest) = length rest" using len by simp
  ultimately show ?thesis using p assms(1) sum by (simp add: DecodeEntry_def)
qed

text \<open>A block below 4 GB.\<close>

definition data_block_ok :: "nat \<Rightarrow> bool \<Rightarrow> (slice \<times> slice) list \<Rightarrow> bool" where
  "data_block_ok k dl es \<longleftrightarrow> 0 < k \<and> length (block_bytes k dl es) < 2 ^ 32"

lemma entry_offset_add:
  "i \<le> j \<Longrightarrow> entry_offset k dl es j = entry_offset k dl es i + length (concat (map (entry_bytes k dl es) [i..<j]))"
  by (induction j) (auto simp: entry_offset_Suc le_Suc_eq)

lemma entry_bytes_length: "3 \<le> length (entry_bytes k dl es i)"
proof -
  have "0 < length (EncodeVarint32 v)" for v using varint_first_byte [of v] by auto
  then have "1 \<le> length (EncodeVarint32 v)" for v by (simp add: Suc_le_eq)
  from this [of "of_nat (shared_at k dl es i)"] this [of "of_nat (length (fst (es ! i)) - shared_at k dl es i)"]
    this [of "of_nat (length (snd (es ! i)))"]
  show ?thesis by (auto simp: entry_bytes_def Let_def split: prod.splits)
qed

lemma entry_offset_mono: "i < j \<Longrightarrow> entry_offset k dl es i + 3 \<le> entry_offset k dl es j"
proof (induction j)
  case (Suc j)
  then show ?case using entry_bytes_length [of k dl es j] by (cases "i = j") (auto simp: entry_offset_Suc)
qed simp

lemma entry_offset_less_iff: "entry_offset k dl es i < entry_offset k dl es j \<longleftrightarrow> i < j"
  using entry_offset_mono [of i j k dl es] entry_offset_mono [of j i k dl es] by (cases i j rule: linorder_cases) auto

lemma entry_offset_le: "i \<le> j \<Longrightarrow> entry_offset k dl es i \<le> entry_offset k dl es j"
  using entry_offset_less_iff [of k dl es j i] by simp

lemma entry_offset_inj: "entry_offset k dl es i = entry_offset k dl es j \<longleftrightarrow> i = j"
  using entry_offset_less_iff [of k dl es i j] entry_offset_less_iff [of k dl es j i] by (cases i j rule: linorder_cases) auto

lemma entry_offset_small: "data_block_ok k dl es \<Longrightarrow> i \<le> length es \<Longrightarrow> entry_offset k dl es i < 2 ^ 32"
  using entry_offset_le [of i "length es" k dl es] by (auto simp: data_block_ok_def length_block_bytes)

lemma block_bytes_drop:
  assumes "i \<le> length es"
  shows "drop (entry_offset k dl es i) (block_bytes k dl es) =
    concat (map (entry_bytes k dl es) [i..<length es]) @ drop (entry_offset k dl es (length es)) (block_bytes k dl es)"
proof -
  let ?c = "\<lambda>xs. concat (map (entry_bytes k dl es) xs)"
  have "[0..<length es] = [0..<i] @ [i..<length es]" using assms by (metis upt_add_eq_append zero_le le_add_diff_inverse)
  then have "block_bytes k dl es = ?c [0..<i] @ ?c [i..<length es] @ drop (entry_offset k dl es (length es)) (block_bytes k dl es)"
    by (simp add: block_bytes_def entry_offset_def entries_bytes_def)
  then show ?thesis by (metis append_eq_conv_conj entries_bytes_def entry_offset_def)
qed

definition shared_key :: "nat \<Rightarrow> bool \<Rightarrow> (slice \<times> slice) list \<Rightarrow> nat \<Rightarrow> nat \<times> nat \<times> nat \<times> nat" where
  "shared_key k dl es i =
     (shared_at k dl es i, length (fst (es ! i)) - shared_at k dl es i, length (snd (es ! i)),
      entry_offset k dl es (Suc i) - length (snd (es ! i)) - (length (fst (es ! i)) - shared_at k dl es i))"

lemma entry_bytes_split:
  "entry_bytes k dl es i =
    EncodeVarint32 (of_nat (shared_at k dl es i)) @ EncodeVarint32 (of_nat (length (fst (es ! i)) - shared_at k dl es i))
    @ EncodeVarint32 (of_nat (length (snd (es ! i)))) @ drop (shared_at k dl es i) (fst (es ! i)) @ snd (es ! i)"
  by (simp add: entry_bytes_def Let_def split: prod.split)

text \<open>A shared prefix has been stored before in the same block.\<close>

lemma key_length_le: "i < length es \<Longrightarrow> length (fst (es ! i)) \<le> entry_offset k dl es (Suc i)"
proof (induction i)
  case 0
  then show ?case by (simp add: entry_offset_Suc entry_bytes_split shared_at_def)
next
  case (Suc i)
  have "shared_at k dl es (Suc i) \<le> length (fst (es ! i))"
    using difference_offset_le(2) [of "fst (es ! Suc i)" "fst (es ! i)"] by (simp add: shared_at_def)
  moreover have "length (fst (es ! Suc i)) - shared_at k dl es (Suc i) \<le> length (entry_bytes k dl es (Suc i))"
    by (simp add: entry_bytes_split)
  ultimately show ?case using Suc by (simp add: entry_offset_Suc)
qed

lemma DecodeEntry_block:
  assumes ok: "data_block_ok k dl es" and i: "i < length es"
  shows "DecodeEntry (block_bytes k dl es) (entry_offset k dl es i) (entry_offset k dl es (length es)) = Inr (Some (shared_key k dl es i))"
    and "slice_at (block_bytes k dl es) (entry_offset k dl es (Suc i) - length (snd (es ! i))) (length (snd (es ! i))) = Inr (snd (es ! i))"
    and "\<exists>rest. drop (entry_offset k dl es (Suc i) - length (snd (es ! i)) - (length (fst (es ! i)) - shared_at k dl es i)) (block_bytes k dl es)
      = drop (shared_at k dl es i) (fst (es ! i)) @ rest"
proof -
  let ?B = "block_bytes k dl es" and ?o = "entry_offset k dl es" and ?n = "length es" and ?s = "shared_at k dl es i"
  obtain key val where kv: "es ! i = (key, val)" by (cases "es ! i")
  have sh: "?s \<le> length key" using shared_at_le [OF i, of k dl] kv by simp
  let ?h = "EncodeVarint32 (of_nat ?s) @ EncodeVarint32 (of_nat (length key - ?s)) @ EncodeVarint32 (of_nat (length val))"
  let ?rest = "concat (map (entry_bytes k dl es) [Suc i..<?n])"
  have eb: "entry_bytes k dl es i = ?h @ drop ?s key @ val" using entry_bytes_split [of k dl es i] kv by simp
  have d: "drop (?o i) ?B = ?h @ drop ?s key @ val @ ?rest @ drop (?o ?n) ?B"
    using block_bytes_drop [of i es k dl] i eb by (simp add: upt_conv_Cons)
  have o1: "?o (Suc i) = ?o i + length ?h + (length key - ?s) + length val" using eb by (simp add: entry_offset_Suc)
  have on: "?o ?n = ?o (Suc i) + length ?rest" using entry_offset_add [of "Suc i" ?n k dl es] i by simp
  have B: "?o ?n \<le> length ?B" "?o ?n < 2 ^ 32" using ok by (simp_all add: length_block_bytes data_block_ok_def)
  have "length key < 2 ^ 32" using key_length_le [OF i, of k dl] kv on B(2) by simp
  moreover have "length val < 2 ^ 32" using o1 on B(2) by linarith
  ultimately have u: "unat (of_nat ?s :: u32) = ?s" "unat (of_nat (length key - ?s) :: u32) = length key - ?s"
    "unat (of_nat (length val) :: u32) = length val"
    using sh unat_of_nat_u32 [of ?s] unat_of_nat_u32 [of "length key - ?s"] unat_of_nat_u32 [of "length val"] by linarith+
  have lens: "?o ?n - ?o i = length (?h @ drop ?s key @ val @ ?rest)" using o1 on sh by simp
  have le: "?o i + (?o ?n - ?o i) \<le> length ?B" using B(1) o1 on by simp
  have "slice_at ?B (?o i) (?o ?n - ?o i) = Inr (take (?o ?n - ?o i) (drop (?o i) ?B))"
    using le by (simp only: slice_at_def if_True)
  also have "take (?o ?n - ?o i) (drop (?o i) ?B) = ?h @ drop ?s key @ val @ ?rest"
    unfolding d lens by simp
  finally have "DecodeEntry ?B (?o i) (?o ?n) = Inr (Some (?s, length key - ?s, length val, ?o ?n - length (drop ?s key @ val @ ?rest)))"
    using DecodeEntry_bytes [of ?B "?o i" "?o ?n" "of_nat ?s" "of_nat (length key - ?s)" "of_nat (length val)" "drop ?s key @ val @ ?rest"] u B(2) o1 on
    by simp
  moreover have "?o ?n - length (drop ?s key @ val @ ?rest) = ?o (Suc i) - length val - (length key - ?s)" using on by simp
  ultimately show "DecodeEntry ?B (?o i) (?o ?n) = Inr (Some (shared_key k dl es i))"
    using kv by (simp add: shared_key_def)
  have "drop (length ?h) (drop (?o i) ?B) = drop ?s key @ val @ ?rest @ drop (?o ?n) ?B" unfolding d by simp
  then have d1: "drop (?o (Suc i) - length val - (length key - ?s)) ?B = drop ?s key @ val @ ?rest @ drop (?o ?n) ?B"
    using o1 by (simp add: add.commute)
  then show "\<exists>rest. drop (?o (Suc i) - length (snd (es ! i)) - (length (fst (es ! i)) - ?s)) ?B = drop ?s (fst (es ! i)) @ rest"
    using kv by auto
  have "drop (length key - ?s) (drop (?o (Suc i) - length val - (length key - ?s)) ?B) = val @ ?rest @ drop (?o ?n) ?B"
    unfolding d1 by simp
  then have "drop (?o (Suc i) - length val) ?B = val @ ?rest @ drop (?o ?n) ?B" using o1 by (simp add: add.commute)
  then show "slice_at ?B (?o (Suc i) - length (snd (es ! i))) (length (snd (es ! i))) = Inr (snd (es ! i))"
    using kv o1 on B(1) by (simp add: slice_at_def)
qed

lemma nth_concat_fixed32:
  "j < length rs \<Longrightarrow> take 4 (drop (j * 4) (concat (map (\<lambda>r. EncodeFixed32 kLittleEndian (f r)) rs) @ rest)) = EncodeFixed32 kLittleEndian (f (rs ! j))"
proof (induction rs arbitrary: j)
  case (Cons r rs)
  then show ?case by (cases j) simp_all
qed simp

lemma restart_entry:
  assumes "0 < k" and "j < restart_count k es"
  shows "j * k \<le> length es" and "es \<noteq> [] \<Longrightarrow> j * k < length es"
proof -
  have "j \<le> (length es - 1) div k" using assms(2) by (simp add: restart_count_def)
  then have "j * k \<le> length es - 1" by (metis assms(1) less_eq_div_iff_mult_less_eq)
  then show "j * k \<le> length es" "es \<noteq> [] \<Longrightarrow> j * k < length es" by (simp_all add: less_le_trans Suc_le_eq [symmetric]) (cases es; simp)
qed

lemma GetRestartPoint_block:
  assumes ok: "data_block_ok k dl es" and "di_data it = Some (block_bytes k dl es)" and "di_restarts it = entry_offset k dl es (length es)"
    and "di_num_restarts it = restart_count k es" and j: "j < restart_count k es"
  shows "GetRestartPoint j it = Inr (entry_offset k dl es (j * k))"
proof -
  let ?B = "block_bytes k dl es" and ?n = "entry_offset k dl es (length es)"
  let ?c = "concat (map (\<lambda>r. EncodeFixed32 kLittleEndian (of_nat r)) (restart_offsets k dl es))"
  let ?f = "EncodeFixed32 kLittleEndian (of_nat (restart_count k es))"
  have len: "length (restart_offsets k dl es) = restart_count k es" by (simp add: restart_offsets_def)
  have nth: "restart_offsets k dl es ! j = entry_offset k dl es (j * k)" using j by (simp add: restart_offsets_def)
  have e: "drop ?n ?B = ?c @ ?f" by (simp add: block_bytes_def entry_offset_def)
  have "drop (?n + j * 4) ?B = drop (j * 4) (drop ?n ?B)" by (simp add: add.commute)
  then have "drop (?n + j * 4) ?B = drop (j * 4) (?c @ ?f)" by (simp only: e)
  then have "take 4 (drop (?n + j * 4) ?B) = EncodeFixed32 kLittleEndian (of_nat (entry_offset k dl es (j * k)))"
    using nth_concat_fixed32 [of j "restart_offsets k dl es" of_nat ?f] j len nth by simp
  moreover have "?n + j * 4 + 4 \<le> length ?B" using j by (simp add: length_block_bytes)
  moreover have "unat (of_nat (entry_offset k dl es (j * k)) :: u32) = entry_offset k dl es (j * k)"
    using entry_offset_small [OF ok restart_entry(1) [OF _ j]] ok by (simp add: data_block_ok_def unat_of_nat_u32)
  moreover have "DecodeFixed32 kLittleEndian (EncodeFixed32 kLittleEndian v) = v" for v
    using DecodeFixed32_EncodeFixed32 [of kLittleEndian kLittleEndian v "[]"] by simp
  ultimately have "and_then (slice_at ?B (?n + j * 4) 4) (\<lambda>bs. Inr (unat (DecodeFixed32 kLittleEndian bs))) = Inr (entry_offset k dl es (j * k))"
    by (simp only: slice_at_def if_True and_then_simps)
  then show ?thesis using assms(2-5) by (simp only: GetRestartPoint_def block_data_def option.case and_then_simps if_False simp_thms)
qed

section \<open>The iterator on a built block\<close>

text \<open>The cache for \<open>Prev\<close> holds consecutive entries of the block.\<close>

definition caches :: "nat \<Rightarrow> bool \<Rightarrow> (slice \<times> slice) list \<Rightarrow> slice \<Rightarrow> nat \<Rightarrow> CachedPrevEntry \<Rightarrow> bool" where
  "caches k dl es buff i e \<longleftrightarrow> i < length es \<and> ce_offset e = entry_offset k dl es i
     \<and> ce_value e = Some (entry_offset k dl es (Suc i) - length (snd (es ! i)), length (snd (es ! i)))
     \<and> ce_key_size e = length (fst (es ! i))
     \<and> (case ce_key_ptr e of
          Some key \<Rightarrow> key = fst (es ! i)
        | None \<Rightarrow> ce_key_offset e + ce_key_size e \<le> length buff \<and> take (ce_key_size e) (drop (ce_key_offset e) buff) = fst (es ! i))"

definition cache_from :: "nat \<Rightarrow> bool \<Rightarrow> (slice \<times> slice) list \<Rightarrow> nat \<Rightarrow> DataBlockIter \<Rightarrow> bool" where
  "cache_from k dl es j it \<longleftrightarrow> (\<forall>m < length (prev_entries it). caches k dl es (prev_entries_keys_buff it) (j + m) (prev_entries it ! m))"

definition prev_cache_ok :: "nat \<Rightarrow> bool \<Rightarrow> (slice \<times> slice) list \<Rightarrow> DataBlockIter \<Rightarrow> bool" where
  "prev_cache_ok k dl es it \<longleftrightarrow> (\<exists>j. cache_from k dl es j it)
     \<and> (prev_entries_idx it = - 1 \<or> 0 \<le> prev_entries_idx it \<and> prev_entries_idx it < int (length (prev_entries it)))"

definition reads :: "nat \<Rightarrow> bool \<Rightarrow> (slice \<times> slice) list \<Rightarrow> DataBlockIter \<Rightarrow> bool" where
  "reads k dl es it \<longleftrightarrow> di_data it = Some (block_bytes k dl es) \<and> di_restarts it = entry_offset k dl es (length es)
     \<and> di_num_restarts it = restart_count k es \<and> di_status it = OK \<and> di_global_seqno it = kDisableGlobalSequenceNumber
     \<and> \<not> ik_is_user_key (di_key it) \<and> IterKey_ok (di_key it)"

text \<open>The iterator stands on entry \<open>i\<close>.\<close>

definition at_entry :: "nat \<Rightarrow> bool \<Rightarrow> (slice \<times> slice) list \<Rightarrow> nat \<Rightarrow> DataBlockIter \<Rightarrow> bool" where
  "at_entry k dl es i it \<longleftrightarrow> reads k dl es it \<and> i < length es \<and> di_current it = entry_offset k dl es i
     \<and> GetKey (di_key it) = Inr (fst (es ! i))
     \<and> di_value it = Some (entry_offset k dl es (Suc i) - length (snd (es ! i)), length (snd (es ! i)))
     \<and> di_restart_index it < restart_count k es"

text \<open>The next call of \<open>ParseNextDataKey\<close> reads entry \<open>i\<close>.\<close>

definition before_entry :: "nat \<Rightarrow> bool \<Rightarrow> (slice \<times> slice) list \<Rightarrow> nat \<Rightarrow> DataBlockIter \<Rightarrow> bool" where
  "before_entry k dl es i it \<longleftrightarrow> reads k dl es it \<and> i \<le> length es \<and> (\<exists>p m. di_value it = Some (p, m) \<and> p + m = entry_offset k dl es i)
     \<and> (i mod k \<noteq> 0 \<longrightarrow> GetKey (di_key it) = Inr (fst (es ! (i - 1)))) \<and> di_restart_index it < restart_count k es"

definition off_block :: "nat \<Rightarrow> bool \<Rightarrow> (slice \<times> slice) list \<Rightarrow> DataBlockIter \<Rightarrow> bool" where
  "off_block k dl es it \<longleftrightarrow> reads k dl es it \<and> di_current it = entry_offset k dl es (length es)"

definition same_cache :: "DataBlockIter \<Rightarrow> DataBlockIter \<Rightarrow> bool" where
  "same_cache it it' \<longleftrightarrow> prev_entries it' = prev_entries it \<and> prev_entries_keys_buff it' = prev_entries_keys_buff it
     \<and> prev_entries_idx it' = prev_entries_idx it"

lemma entry_end_value: "i < length es \<Longrightarrow> length (snd (es ! i)) \<le> entry_offset k dl es (Suc i)"
  by (simp add: entry_offset_Suc entry_bytes_split)

lemma at_entry_before:
  assumes "at_entry k dl es i it"
  shows "before_entry k dl es (Suc i) it"
  using assms entry_end_value [of i es k dl] by (auto simp: at_entry_def before_entry_def)

lemma reads_restart: "data_block_ok k dl es \<Longrightarrow> reads k dl es it \<Longrightarrow> j < restart_count k es \<Longrightarrow> GetRestartPoint j it = Inr (entry_offset k dl es (j * k))"
  by (rule GetRestartPoint_block) (simp_all add: reads_def)

lemma advance_restart_ok:
  assumes ok: "data_block_ok k dl es" and it: "reads k dl es it" and "r < restart_count k es"
  shows "\<exists>r'. advance_restart it r = Inr r' \<and> r' < restart_count k es"
  using assms(3)
proof (induction "restart_count k es - r" arbitrary: r rule: less_induct)
  case less
  have n: "di_num_restarts it = restart_count k es" using it by (simp add: reads_def)
  show ?case
  proof (cases "r + 1 < restart_count k es \<and> entry_offset k dl es ((r + 1) * k) < di_current it")
    case True
    then have "restart_count k es - (r + 1) < restart_count k es - r" by (intro diff_less_mono2) simp_all
    then obtain r' where "advance_restart it (r + 1) = Inr r'" "r' < restart_count k es" using less.hyps [of "r + 1"] True by blast
    then show ?thesis using True reads_restart [OF ok it, of "r + 1"] n by (subst advance_restart.simps) simp
  next
    case False
    then show ?thesis using less.prems reads_restart [OF ok it, of "r + 1"] n by (subst advance_restart.simps) auto
  qed
qed

lemma memcpy_user_key: "memcpy_buf off d k = Inr k' \<Longrightarrow> ik_is_user_key k' = ik_is_user_key k"
  by (auto simp: memcpy_buf_def set_buf_def split: if_splits option.splits)

lemma EnlargeBuffer_user_key: "ik_is_user_key (EnlargeBufferIfNeeded n k) = ik_is_user_key k"
  by (auto simp: EnlargeBufferIfNeeded_def EnlargeBuffer_def ResetBuffer_def Let_def split: option.splits)

lemma TrimAppend_user_key: "TrimAppend s d n k = Inr k' \<Longrightarrow> ik_is_user_key k' = ik_is_user_key k"
  by (auto simp: TrimAppend_def Let_def EnlargeBuffer_user_key split: if_splits sum.splits dest!: memcpy_user_key)

lemma GetKey_size: "GetKey k = Inr key \<Longrightarrow> ik_key_size k = length key"
  using read_key_take [of "ik_key_size k" k key "ik_key_size k"] by (simp add: GetKey_def)

lemma parse_key:
  assumes ok: "data_block_ok k dl es" and it: "before_entry k dl es i it" and i: "i < length es" and sk: "shared_key k dl es i = (sh, ns, vl, p)"
  obtains key where "(if sh = 0 then and_then (slice_at (block_bytes k dl es) p ns) (\<lambda>x. SetKey x False (di_key it))
      else TrimAppend sh (drop p (block_bytes k dl es)) ns (di_key it)) = Inr key"
    and "IterKey_ok key" and "GetKey key = Inr (fst (es ! i))" and "\<not> ik_is_user_key key" and "\<not> ik_key_size (di_key it) < sh"
proof -
  let ?B = "block_bytes k dl es" and ?key = "fst (es ! i)"
  obtain rest where rest: "drop p ?B = drop sh ?key @ rest" using DecodeEntry_block(3) [OF ok i] sk by (auto simp: shared_key_def)
  have ns: "ns = length ?key - sh" "sh = shared_at k dl es i" "sh \<le> length ?key" using sk shared_at_le [OF i] by (auto simp: shared_key_def)
  have len: "length (drop p ?B) = ns + length rest" using rest ns by (metis length_append length_drop)
  have pB: "p \<le> length ?B"
    using sk entry_offset_le [of "Suc i" "length es" k dl es] i by (auto simp: shared_key_def length_block_bytes)
  have key: "IterKey_ok (di_key it)" "buf_ok (di_key it)" "\<not> ik_is_user_key (di_key it)"
    using it by (simp_all add: before_entry_def reads_def IterKey_ok_def)
  show thesis
  proof (cases "sh = 0")
    case True
    have "p + ns \<le> length ?B" using len pB True ns by simp
    then have "slice_at ?B p ns = Inr ?key" using rest True ns by (auto simp: slice_at_def)
    moreover obtain key where "SetKey ?key False (di_key it) = Inr key" "IterKey_ok key" "GetKey key = Inr ?key" "ik_is_user_key key = ik_is_user_key (di_key it)"
      using SetKeyImpl_ok [OF key(2), of ?key False] by (auto simp: SetKey_def)
    ultimately show thesis using True key(3) by (intro that [of key]) auto
  next
    case False
    then have m: "i mod k \<noteq> 0" "dl" "sh = difference_offset ?key (fst (es ! (i - 1)))" using ns(2) by (auto simp: shared_at_def split: if_splits)
    then have old: "GetKey (di_key it) = Inr (fst (es ! (i - 1)))" using it by (simp add: before_entry_def)
    have le: "sh \<le> length (fst (es ! (i - 1)))" "ns \<le> length (drop p ?B)"
      using m(3) difference_offset_le(2) [of ?key "fst (es ! (i - 1))"] len by simp_all
    obtain key where t: "TrimAppend sh (drop p ?B) ns (di_key it) = Inr key" "IterKey_ok key"
        "GetKey key = Inr (take sh (fst (es ! (i - 1))) @ take ns (drop p ?B))"
      using TrimAppend_ok [OF key(1) old le] by blast
    moreover have "take sh (fst (es ! (i - 1))) @ take ns (drop p ?B) = ?key"
      using m(3) difference_offset_take [of ?key "fst (es ! (i - 1))"] rest ns by (metis append_take_drop_id append_eq_conv_conj length_drop)
    ultimately show thesis using False TrimAppend_user_key [OF t(1)] key(3) GetKey_size [OF old] le(1) by (intro that [of key]) auto
  qed
qed

lemma ParseNextDataKey_ok:
  assumes ok: "data_block_ok k dl es" and it: "before_entry k dl es i it"
  shows "i < length es \<Longrightarrow> \<exists>it'. ParseNextDataKey None it = Inr (True, it') \<and> at_entry k dl es i it' \<and> same_cache it it'"
    and "i = length es \<Longrightarrow> \<exists>it'. ParseNextDataKey None it = Inr (False, it') \<and> off_block k dl es it' \<and> same_cache it it'"
proof -
  let ?B = "block_bytes k dl es" and ?o = "entry_offset k dl es"
  have st: "di_data it = Some ?B" "di_restarts it = ?o (length es)" "di_num_restarts it = restart_count k es"
      "di_global_seqno it = kDisableGlobalSequenceNumber" "di_restart_index it < restart_count k es" "di_status it = OK"
    using it by (simp_all add: before_entry_def reads_def)
  have nx: "NextEntryOffset it = Inr (?o i)"
    using it entry_offset_small [OF ok, of i] by (auto simp: before_entry_def NextEntryOffset_def)
  have bd: "block_data it = Inr ?B" using st by (simp add: block_data_def)
  show "\<exists>it'. ParseNextDataKey None it = Inr (False, it') \<and> off_block k dl es it' \<and> same_cache it it'" if "i = length es"
    using it that st by (auto simp: ParseNextDataKey_def nx bd before_entry_def off_block_def reads_def same_cache_def)
  assume i: "i < length es"
  obtain sh ns vl p where sk: "shared_key k dl es i = (sh, ns, vl, p)" by (metis prod_cases4)
  obtain key where key: "(if sh = 0 then and_then (slice_at ?B p ns) (\<lambda>x. SetKey x False (di_key it)) else TrimAppend sh (drop p ?B) ns (di_key it)) = Inr key"
      "IterKey_ok key" "GetKey key = Inr (fst (es ! i))" "\<not> ik_is_user_key key" "\<not> ik_key_size (di_key it) < sh"
    using ok it i sk by (rule parse_key)
  let ?it = "it\<lparr>di_current := ?o i, di_key := key, di_key_pinned := (sh = 0), di_value := Some (p + ns, vl)\<rparr>"
  have "reads k dl es ?it" using it key by (simp add: before_entry_def reads_def)
  then obtain r where r: "(if sh = 0 then advance_restart ?it (di_restart_index it) else Inr (di_restart_index it)) = Inr r" "r < restart_count k es"
    using advance_restart_ok [OF ok _ st(5), of ?it] st(5) by (cases "sh = 0") auto
  have val: "p + ns = ?o (Suc i) - length (snd (es ! i))" "vl = length (snd (es ! i))"
    using sk entry_end_value [OF i, of k dl] by (auto simp: shared_key_def entry_offset_Suc entry_bytes_split)
  have lim: "\<not> ?o (length es) \<le> ?o i" using i entry_offset_less_iff [of k dl es i "length es"] by simp
  let ?it' = "?it\<lparr>di_restart_index := r\<rparr>"
  have "DecodeEntry ?B (?o i) (?o (length es)) = Inr (Some (sh, ns, vl, p))" using DecodeEntry_block(1) [OF ok i] sk by simp
  then have "ParseNextDataKey None it = Inr (True, ?it')"
    using key(1,5) r(1) lim st
    by (simp only: ParseNextDataKey_def nx bd and_then_simps Let_def option.case if_False prod.case apply_global_seqno_def)
      (cases "sh = 0"; simp add: apply_global_seqno_def)
  moreover have "at_entry k dl es i ?it'" using it i key r(2) val by (simp add: at_entry_def before_entry_def reads_def)
  ultimately show "\<exists>it'. ParseNextDataKey None it = Inr (True, it') \<and> at_entry k dl es i it' \<and> same_cache it it'"
    by (auto simp: same_cache_def)
qed

text \<open>Where the iterator is: on entry \<open>q\<close>, or off the block if there is no such entry.\<close>

definition rests_at :: "nat \<Rightarrow> bool \<Rightarrow> (slice \<times> slice) list \<Rightarrow> int \<Rightarrow> DataBlockIter \<Rightarrow> bool" where
  "rests_at k dl es q it \<longleftrightarrow> prev_cache_ok k dl es it \<and>
     (if 0 \<le> q \<and> q < int (length es) then at_entry k dl es (nat q) it else off_block k dl es it)"

lemma prev_cache_ok_same: "prev_cache_ok k dl es it \<Longrightarrow> same_cache it it' \<Longrightarrow> prev_cache_ok k dl es it'"
  by (simp add: prev_cache_ok_def cache_from_def same_cache_def)

lemma same_cache_trans: "same_cache a b \<Longrightarrow> same_cache b c \<Longrightarrow> same_cache a c"
  by (simp add: same_cache_def)

lemma rests_at_reads: "rests_at k dl es q it \<Longrightarrow> reads k dl es it"
  by (auto simp: rests_at_def at_entry_def off_block_def split: if_splits)

lemma rests_at_Valid:
  assumes "rests_at k dl es q it"
  shows "DataBlock_Valid it \<longleftrightarrow> 0 \<le> q \<and> q < int (length es)"
proof (cases "0 \<le> q \<and> q < int (length es)")
  case True
  then have "at_entry k dl es (nat q) it" "nat q < length es" using assms by (auto simp: rests_at_def)
  then show ?thesis using True entry_offset_less_iff [of k dl es "nat q" "length es"] by (simp add: DataBlock_Valid_def at_entry_def reads_def)
next
  case False
  then show ?thesis using assms by (auto simp: rests_at_def DataBlock_Valid_def off_block_def reads_def)
qed

lemma rests_at_key_value:
  assumes ok: "data_block_ok k dl es" and it: "rests_at k dl es q it" and q: "0 \<le> q" "q < int (length es)"
  shows "DataBlock_key it = Inr (fst (es ! nat q))" and "DataBlock_value it = Inr (snd (es ! nat q))"
proof -
  have v: "DataBlock_Valid it" using rests_at_Valid [OF it] q by simp
  have at: "at_entry k dl es (nat q) it" using it q by (simp add: rests_at_def)
  then show "DataBlock_key it = Inr (fst (es ! nat q))" using v by (simp add: DataBlock_key_def at_entry_def)
  show "DataBlock_value it = Inr (snd (es ! nat q))"
    using at v DecodeEntry_block(2) [OF ok, of "nat q"] by (simp add: DataBlock_value_def at_entry_def reads_def block_data_def)
qed

text \<open>One step of a scan: the entry behind the last one that was parsed.\<close>

lemma parse_stands:
  assumes ok: "data_block_ok k dl es" and it: "before_entry k dl es i it" and c: "prev_cache_ok k dl es it"
  shows "\<exists>b it'. ParseNextDataKey None it = Inr (b, it') \<and> b = (i < length es) \<and> rests_at k dl es (int i) it'"
proof (cases "i < length es")
  case True
  then show ?thesis using ParseNextDataKey_ok(1) [OF ok it True] prev_cache_ok_same [OF c] by (auto simp: rests_at_def)
next
  case False
  then have "i = length es" using it by (simp add: before_entry_def)
  then show ?thesis using ParseNextDataKey_ok(2) [OF ok it] prev_cache_ok_same [OF c] by (auto simp: rests_at_def)
qed

lemma rests_at_before: "rests_at k dl es (int i) it \<Longrightarrow> i < length es \<Longrightarrow> before_entry k dl es (Suc i) it \<and> prev_cache_ok k dl es it"
  using at_entry_before by (simp add: rests_at_def)

lemma SeekToRestartPoint_ok:
  assumes ok: "data_block_ok k dl es" and it: "reads k dl es it" and j: "j < restart_count k es"
  shows "\<exists>it'. SeekToRestartPoint j it = Inr it' \<and> before_entry k dl es (j * k) it' \<and> same_cache it it'"
proof -
  have "IterKey_ok (IterKey_Clear (di_key it))" "ik_is_user_key (IterKey_Clear (di_key it)) = ik_is_user_key (di_key it)"
    using it by (auto simp: reads_def IterKey_ok_def IterKey_Clear_def GetKey_def read_key_def split: KeyLoc.splits if_splits)
  then show ?thesis using reads_restart [OF ok it j] it j restart_entry(1) [OF _ j] ok
    by (auto simp: SeekToRestartPoint_def before_entry_def reads_def same_cache_def data_block_ok_def)
qed

lemma SeekToRestartPoint_before:
  assumes "data_block_ok k dl es" and "rests_at k dl es q it" and "j < restart_count k es"
  shows "\<exists>it'. SeekToRestartPoint j it = Inr it' \<and> before_entry k dl es (j * k) it' \<and> prev_cache_ok k dl es it'"
  using SeekToRestartPoint_ok [OF assms(1) rests_at_reads [OF assms(2)] assms(3)] assms(2) prev_cache_ok_same by (auto simp: rests_at_def)

lemma DataBlock_Next_ok:
  assumes ok: "data_block_ok k dl es" and it: "rests_at k dl es q it" and q: "0 \<le> q" "q < int (length es)"
  shows "\<exists>it'. DataBlock_Next it = returns it' \<and> rests_at k dl es (q + 1) it'"
proof -
  have "before_entry k dl es (Suc (nat q)) it" "prev_cache_ok k dl es it"
    using rests_at_before [of k dl es "nat q" it] it q by auto
  then obtain b it' where "ParseNextDataKey None it = Inr (b, it')" "rests_at k dl es (int (Suc (nat q))) it'"
    using parse_stands [OF ok] by blast
  moreover have "int (Suc (nat q)) = q + 1" using q by simp
  ultimately show ?thesis using rests_at_Valid [OF it] q by (simp add: DataBlock_Next_def add.commute)
qed

lemma DataBlock_SeekToFirst_ok:
  assumes ok: "data_block_ok k dl es" and it: "rests_at k dl es q it"
  shows "\<exists>it'. DataBlock_SeekToFirst it = returns it' \<and> rests_at k dl es 0 it'"
proof -
  obtain it1 where it1: "SeekToRestartPoint 0 it = Inr it1" "before_entry k dl es (0 * k) it1" "prev_cache_ok k dl es it1"
    using SeekToRestartPoint_before [OF ok it restart_count_pos] by blast
  then obtain b it' where "ParseNextDataKey None it1 = Inr (b, it')" "rests_at k dl es (int (0 * k)) it'"
    using parse_stands [OF ok it1(2,3)] by blast
  then show ?thesis using it1(1) rests_at_reads [OF it] by (simp add: DataBlock_SeekToFirst_def reads_def)
qed

lemma rests_at_NextEntryOffset:
  assumes "data_block_ok k dl es" and "rests_at k dl es (int i) it" and "i < length es"
  shows "NextEntryOffset it = Inr (entry_offset k dl es (Suc i))"
  using rests_at_before [OF assms(2,3)] entry_offset_small [OF assms(1), of "Suc i"] assms(3)
  by (auto simp: before_entry_def NextEntryOffset_def)

lemma last_loop:
  assumes ok: "data_block_ok k dl es" and "before_entry k dl es i it" and "prev_cache_ok k dl es it" and "i < length es"
  shows "\<exists>it'. run_loop last_turn it = returns it' \<and> rests_at k dl es (int (length es) - 1) it'"
  using assms(2-)
proof (induction "length es - i" arbitrary: i it rule: less_induct)
  case less
  obtain it' where p: "ParseNextDataKey None it = Inr (True, it')" "rests_at k dl es (int i) it'"
    using parse_stands [OF ok less.prems(1,2)] less.prems(3) by auto
  have r: "di_restarts it' = entry_offset k dl es (length es)" using rests_at_reads [OF p(2)] by (simp add: reads_def)
  have turn: "last_turn it = Inr (Suc i < length es, it')"
    using p rests_at_NextEntryOffset [OF ok p(2) less.prems(3)] r by (simp add: last_turn_def entry_offset_less_iff)
  show ?case
  proof (cases "Suc i < length es")
    case True
    then have "length es - Suc i < length es - i" by simp
    with less.hyps [of "Suc i" it'] rests_at_before [OF p(2) less.prems(3)] True turn show ?thesis by (subst run_loop.simps) simp
  next
    case False
    then have "int i = int (length es) - 1" using less.prems(3) by simp
    then show ?thesis using p(2) turn False by (subst run_loop.simps) simp
  qed
qed

lemma num_restarts_last: "data_block_ok k dl es \<Longrightarrow> nat ((int (restart_count k es) - 1) mod 2 ^ 32) = restart_count k es - 1"
  using restart_count_pos [of k es] by (auto simp: data_block_ok_def length_block_bytes nat_diff_distrib)

lemma DataBlock_SeekToLast_ok:
  assumes ok: "data_block_ok k dl es" and it: "rests_at k dl es q it"
  shows "\<exists>it'. DataBlock_SeekToLast it = returns it' \<and> rests_at k dl es (int (length es) - 1) it'"
proof -
  let ?j = "restart_count k es - 1"
  obtain it1 where it1: "SeekToRestartPoint ?j it = Inr it1" "before_entry k dl es (?j * k) it1" "prev_cache_ok k dl es it1"
    using SeekToRestartPoint_before [OF ok it, of ?j] restart_count_pos [of k es] by auto
  have eq: "DataBlock_SeekToLast it = run_loop last_turn it1"
    using it1(1) rests_at_reads [OF it] num_restarts_last [OF ok] by (simp add: DataBlock_SeekToLast_def reads_def)
  show ?thesis
  proof (cases "es = []")
    case False
    then have "?j * k < length es" using restart_entry(2) [of k ?j es] ok restart_count_pos [of k es] by (simp add: data_block_ok_def)
    then show ?thesis using last_loop [OF ok it1(2,3)] eq by simp
  next
    case True
    then have "before_entry k dl es 0 it1" using it1(2) by (simp add: restart_count_def)
    then obtain it' where "ParseNextDataKey None it1 = Inr (False, it')" "rests_at k dl es 0 it'"
      using parse_stands [OF ok _ it1(3)] True by fastforce
    then show ?thesis using eq True by (subst (asm) run_loop.simps) (simp add: last_turn_def rests_at_def)
  qed
qed

subsection \<open>Prev\<close>

lemma restart_before_ok:
  assumes ok: "data_block_ok k dl es" and it: "reads k dl es it"
  shows "r < restart_count k es \<Longrightarrow>
    if i = 0 then restart_before it (entry_offset k dl es i) r = Inr None
    else \<exists>r'. restart_before it (entry_offset k dl es i) r = Inr (Some r') \<and> r' < restart_count k es \<and> r' * k < i"
proof (induction r)
  case 0
  then show ?case using reads_restart [OF ok it, of 0] entry_offset_less_iff [of k dl es 0 i] by (auto simp: not_le)
next
  case (Suc r)
  have p: "GetRestartPoint (Suc r) it = Inr (entry_offset k dl es (Suc r * k))" using reads_restart [OF ok it Suc.prems] .
  have le: "entry_offset k dl es (Suc r * k) \<ge> entry_offset k dl es i \<longleftrightarrow> \<not> Suc r * k < i"
    using entry_offset_less_iff [of k dl es "Suc r * k" i] by (simp only: not_less [symmetric])
  show ?case
  proof (cases "Suc r * k < i")
    case True
    then have "restart_before it (entry_offset k dl es i) (Suc r) = Inr (Some (Suc r))" "i \<noteq> 0"
      by (simp_all only: restart_before.simps p le sum.case) auto
    then show ?thesis using Suc.prems True by auto
  next
    case False
    then have "restart_before it (entry_offset k dl es i) (Suc r) = restart_before it (entry_offset k dl es i) r"
      by (simp only: restart_before.simps p le sum.case) simp
    then show ?thesis using Suc.IH Suc.prems by (simp only:) simp
  qed
qed

lemma caches_append: "caches k dl es buff i e \<Longrightarrow> caches k dl es (buff @ x) i e"
  by (auto simp: caches_def split: option.splits)

lemma cache_entry_ok:
  assumes at: "at_entry k dl es i it" and c: "cache_from k dl es j it" and len: "j + length (prev_entries it) = i"
  shows "\<exists>it'. cache_entry it = Inr it' \<and> at_entry k dl es i it' \<and> cache_from k dl es j it'
    \<and> j + length (prev_entries it') = Suc i"
proof -
  have v: "DataBlock_key it = Inr (fst (es ! i))"
    using at entry_offset_less_iff [of k dl es i "length es"] by (simp add: DataBlock_key_def DataBlock_Valid_def at_entry_def reads_def)
  show ?thesis
    using at c len
    by (cases "IsKeyPinned (di_key it)")
      (auto simp: cache_entry_def v at_entry_def reads_def cache_from_def nth_append less_Suc_eq caches_append, auto simp: caches_def)
qed

lemma prev_loop:
  assumes ok: "data_block_ok k dl es" and "before_entry k dl es m it" and "m < i" and "i \<le> length es"
    and "cache_from k dl es j it" and "j + length (prev_entries it) = m"
  shows "\<exists>it'. run_loop (prev_turn (entry_offset k dl es i)) it = returns it' \<and> at_entry k dl es (i - 1) it'
    \<and> cache_from k dl es j it' \<and> j + length (prev_entries it') = i"
  using assms(2,3,5,6)
proof (induction "i - m" arbitrary: m it rule: less_induct)
  case less
  obtain it1 where p: "ParseNextDataKey None it = Inr (True, it1)" "at_entry k dl es m it1" "same_cache it it1"
    using ParseNextDataKey_ok(1) [OF ok less.prems(1)] less.prems(2) assms(4) by auto
  obtain it2 where c: "cache_entry it1 = Inr it2" "at_entry k dl es m it2" "cache_from k dl es j it2" "j + length (prev_entries it2) = Suc m"
    using cache_entry_ok [OF p(2), of j] p(3) less.prems(3,4) by (auto simp: same_cache_def cache_from_def)
  have b: "before_entry k dl es (Suc m) it2" using c(2) by (rule at_entry_before)
  then have "NextEntryOffset it2 = Inr (entry_offset k dl es (Suc m))"
    using entry_offset_small [OF ok, of "Suc m"] by (auto simp: before_entry_def NextEntryOffset_def)
  then have turn: "prev_turn (entry_offset k dl es i) it = Inr (Suc m < i, it2)"
    using p(1) c(1) by (simp add: prev_turn_def entry_offset_less_iff)
  show ?case
  proof (cases "Suc m < i")
    case True
    then have "i - Suc m < i - m" by simp
    with less.hyps [of "Suc m" it2] b True c turn show ?thesis by (subst run_loop.simps) simp
  next
    case False
    then have "m = i - 1" using less.prems(2) by simp
    then show ?thesis using c turn False less.prems(2) by (subst run_loop.simps) simp
  qed
qed

lemma cached_Prev_ok:
  assumes it: "rests_at k dl es (int i) it" and "i < length es" and idx: "prev_entries_idx it > 0"
    and hit: "ce_offset (prev_entries it ! nat (prev_entries_idx it)) = di_current it"
  shows "\<exists>it'. cached_Prev it = Inr it' \<and> rests_at k dl es (int i - 1) it'"
proof -
  have at: "at_entry k dl es i it" and c: "prev_cache_ok k dl es it" using it assms(2) by (simp_all add: rests_at_def)
  obtain j where j: "cache_from k dl es j it" using c by (auto simp: prev_cache_ok_def)
  let ?m = "nat (prev_entries_idx it)" and ?e = "prev_entries it ! nat (prev_entries_idx it - 1)"
  have m: "?m < length (prev_entries it)" "0 < ?m" using c idx by (auto simp: prev_cache_ok_def)
  have "entry_offset k dl es (j + ?m) = entry_offset k dl es i"
    using j m(1) hit at by (simp add: cache_from_def caches_def at_entry_def)
  then have i: "j + ?m = i" by (simp add: entry_offset_inj)
  have "nat (prev_entries_idx it - 1) < length (prev_entries it)" "j + nat (prev_entries_idx it - 1) = i - 1" using m i by auto
  then have e: "caches k dl es (prev_entries_keys_buff it) (i - 1) ?e" using j by (auto simp: cache_from_def)
  then have "(case ce_key_ptr ?e of Some key \<Rightarrow> slice_at key 0 (ce_key_size ?e)
      | None \<Rightarrow> slice_at (prev_entries_keys_buff it) (ce_key_offset ?e) (ce_key_size ?e)) = Inr (fst (es ! (i - 1)))"
    by (auto simp: caches_def slice_at_def split: option.splits)
  moreover obtain key where key: "SetKey (fst (es ! (i - 1))) False (di_key it) = Inr key" "IterKey_ok key"
      "GetKey key = Inr (fst (es ! (i - 1)))" "ik_is_user_key key = ik_is_user_key (di_key it)"
    using SetKeyImpl_ok [of "di_key it" "fst (es ! (i - 1))" False] at by (auto simp: SetKey_def at_entry_def reads_def IterKey_ok_def)
  ultimately have run: "cached_Prev it = Inr (it\<lparr>prev_entries_idx := prev_entries_idx it - 1, di_key_pinned := (ce_key_ptr ?e \<noteq> None),
      di_current := ce_offset ?e, di_key := key, di_value := ce_value ?e\<rparr>)" (is "_ = Inr ?it")
    by (simp add: cached_Prev_def Let_def)
  have i0: "0 < i" using i m(2) by simp
  have "at_entry k dl es (i - 1) ?it" using at key e i0 by (simp add: at_entry_def reads_def caches_def)
  moreover have "prev_cache_ok k dl es ?it" using c j idx by (auto simp: prev_cache_ok_def cache_from_def)
  moreover have "nat (int i - 1) = i - 1" using i0 by simp
  ultimately have "rests_at k dl es (int i - 1) ?it" using i0 assms(2) by (simp add: rests_at_def)
  then show ?thesis using run by blast
qed

lemma DataBlock_Prev_ok:
  assumes ok: "data_block_ok k dl es" and it: "rests_at k dl es q it" and q: "0 \<le> q" "q < int (length es)"
  shows "\<exists>it'. DataBlock_Prev it = returns it' \<and> rests_at k dl es (q - 1) it'"
proof -
  define i where "i = nat q"
  have i: "q = int i" "i < length es" using q by (auto simp: i_def)
  have at: "at_entry k dl es i it" and c: "prev_cache_ok k dl es it" using it i by (simp_all add: rests_at_def)
  have g: "DataBlock_Valid it \<and> (prev_entries_idx it = - 1 \<or> 0 \<le> prev_entries_idx it \<and> prev_entries_idx it < int (length (prev_entries it)))"
    using rests_at_Valid [OF it] q c by (simp add: prev_cache_ok_def)
  show ?thesis
  proof (cases "prev_entries_idx it > 0 \<and> ce_offset (prev_entries it ! nat (prev_entries_idx it)) = di_current it")
    case True
    then show ?thesis using cached_Prev_ok [of k dl es i it] it i g by (auto simp: DataBlock_Prev_def)
  next
    case False
    let ?it = "it\<lparr>prev_entries_idx := - 1, prev_entries := [], prev_entries_keys_buff := []\<rparr>"
    have rd: "reads k dl es ?it" and cur: "di_current it = entry_offset k dl es i" and ri: "di_restart_index it < restart_count k es"
      using at by (simp_all add: at_entry_def reads_def)
    have eq: "DataBlock_Prev it = run_then (Some (restart_before ?it (entry_offset k dl es i) (di_restart_index it))) (\<lambda>r.
             case r of
               None \<Rightarrow> returns (?it\<lparr>di_current := di_restarts it, di_restart_index := di_num_restarts it\<rparr>)
             | Some r \<Rightarrow>
                 run_then (Some (SeekToRestartPoint r ?it)) (\<lambda>it.
                 run_then (run_loop (prev_turn (entry_offset k dl es i)) it) (\<lambda>it.
                   returns (it\<lparr>prev_entries_idx := int (length (prev_entries it)) - 1\<rparr>))))"
      using g False cur by (simp only: DataBlock_Prev_def Let_def if_False simp_thms) simp
    show ?thesis
    proof (cases "i = 0")
      case True
      then have "restart_before ?it (entry_offset k dl es i) (di_restart_index it) = Inr None" using restart_before_ok [OF ok rd ri, of i] by simp
      then show ?thesis using eq True i rd by (simp add: rests_at_def prev_cache_ok_def cache_from_def off_block_def reads_def)
    next
      case False
      obtain r where r: "restart_before ?it (entry_offset k dl es i) (di_restart_index it) = Inr (Some r)" "r < restart_count k es" "r * k < i"
        using restart_before_ok [OF ok rd ri, of i] False by auto
      obtain it1 where s: "SeekToRestartPoint r ?it = Inr it1" "before_entry k dl es (r * k) it1" "same_cache ?it it1"
        using SeekToRestartPoint_ok [OF ok rd r(2)] by blast
      obtain it2 where l: "run_loop (prev_turn (entry_offset k dl es i)) it1 = returns it2" "at_entry k dl es (i - 1) it2"
          "cache_from k dl es (r * k) it2" "r * k + length (prev_entries it2) = i"
        using prev_loop [OF ok s(2) r(3), of "r * k"] i s(3) by (auto simp: same_cache_def cache_from_def)
      have "at_entry k dl es (i - 1) (it2\<lparr>prev_entries_idx := int (length (prev_entries it2)) - 1\<rparr>)"
          "prev_cache_ok k dl es (it2\<lparr>prev_entries_idx := int (length (prev_entries it2)) - 1\<rparr>)"
        using l(2-4) r(3) by (auto simp: at_entry_def reads_def prev_cache_ok_def cache_from_def)
      moreover have "nat (int i - 1) = i - 1" using False by simp
      ultimately show ?thesis using eq r(1) s(1) l(1) i False by (simp add: rests_at_def)
    qed
  qed
qed

subsection \<open>Seek\<close>

lemma restart_key:
  assumes ok: "data_block_ok k dl es" and j: "j < restart_count k es" and es: "es \<noteq> []"
  shows "\<exists>ns vl p. DecodeEntry (block_bytes k dl es) (entry_offset k dl es (j * k)) (entry_offset k dl es (length es)) = Inr (Some (0, ns, vl, p))
    \<and> slice_at (block_bytes k dl es) p ns = Inr (fst (es ! (j * k)))"
proof -
  let ?i = "j * k" and ?B = "block_bytes k dl es"
  have k: "0 < k" using ok by (simp add: data_block_ok_def)
  have i: "?i < length es" using restart_entry(2) [OF k j es] .
  have sh: "shared_at k dl es ?i = 0" by (simp add: shared_at_def)
  let ?p = "entry_offset k dl es (Suc ?i) - length (snd (es ! ?i)) - length (fst (es ! ?i))"
  obtain rest where rest: "drop ?p ?B = fst (es ! ?i) @ rest" using DecodeEntry_block(3) [OF ok i] sh by auto
  have "?p \<le> length ?B" using entry_offset_le [of "Suc ?i" "length es" k dl es] i by (simp add: length_block_bytes)
  then have "?p + length (fst (es ! ?i)) \<le> length ?B" using arg_cong [OF rest, of length] by simp
  then have "slice_at ?B ?p (length (fst (es ! ?i))) = Inr (fst (es ! ?i))" using rest by (simp add: slice_at_def)
  then show ?thesis using DecodeEntry_block(1) [OF ok i] sh by (auto simp: shared_key_def)
qed

lemma binary_loop:
  assumes tw: "three_way icmp" and ok: "data_block_ok k dl es" and it: "reads k dl es it" and srt: "sorted_keys icmp (map fst es)"
    and "left \<le> right" and "right < restart_count k es" and "\<forall>i < left * k. icmp (fst (es ! i)) target < 0"
  shows "\<exists>l r. run_loop (binary_turn icmp target it) (left, right, False) = returns (l, r, False) \<and> l < restart_count k es
    \<and> (\<forall>i < l * k. icmp (fst (es ! i)) target < 0)"
  using assms(5-)
proof (induction "right - left" arbitrary: left right rule: less_induct)
  case less
  show ?case
  proof (cases "left < right")
    case True
    define mid where "mid = (left + right + 1) div 2"
    have mid: "left < mid" "mid \<le> right" "mid < restart_count k es" using True less.prems(2) by (auto simp: mid_def)
    have "restart_count k es * 4 < 2 ^ 32" using ok by (simp add: data_block_ok_def length_block_bytes)
    then have m: "(left + right + 1) mod 2 ^ 32 div 2 = mid" using less.prems(1,2) by (simp add: mid_def)
    have "es \<noteq> []" using mid(1,3) by (auto simp: restart_count_def)
    then obtain ns vl p where d: "DecodeEntry (block_bytes k dl es) (entry_offset k dl es (mid * k)) (entry_offset k dl es (length es)) = Inr (Some (0, ns, vl, p))"
        "slice_at (block_bytes k dl es) p ns = Inr (fst (es ! (mid * k)))"
      using restart_key [OF ok mid(3)] by blast
    let ?c = "icmp (fst (es ! (mid * k))) target"
    have turn: "binary_turn icmp target it (left, right, False) =
        Inr (True, if ?c < 0 then (mid, right, False) else if ?c > 0 then (left, mid - 1, False) else (mid, mid, False))"
      using True d it reads_restart [OF ok it mid(3)] unfolding binary_turn_def prod.case m
      by (simp add: reads_def block_data_def Let_def)
    have below: "\<forall>i < mid * k. icmp (fst (es ! i)) target < 0" if le: "?c \<le> 0"
    proof (intro allI impI)
      fix i assume i: "i < mid * k"
      have "mid * k < length es" using restart_entry(2) [OF _ mid(3) \<open>es \<noteq> []\<close>] ok by (simp add: data_block_ok_def)
      then have "icmp (fst (es ! i)) (fst (es ! (mid * k))) < 0" using sorted_keys_nth [OF srt i] i by simp
      then show "icmp (fst (es ! i)) target < 0" using le by (rule three_way.cmp_less_le_trans [OF tw])
    qed
    consider "?c < 0" | "?c > 0" | "?c = 0" by linarith
    then show ?thesis
    proof cases
      case 1
      then show ?thesis using less.hyps [of right mid] below mid less.prems turn by (subst run_loop.simps) simp
    next
      case 2
      then show ?thesis using less.hyps [of "mid - 1" left] mid less.prems turn by (subst run_loop.simps) simp
    next
      case 3
      then show ?thesis using less.hyps [of mid mid] below mid less.prems turn by (subst run_loop.simps) simp
    qed
  next
    case False
    then show ?thesis using less.prems by (subst run_loop.simps) (simp add: binary_turn_def)
  qed
qed

lemma seek_loop:
  assumes ok: "data_block_ok k dl es" and "before_entry k dl es i it" and "prev_cache_ok k dl es it"
    and "\<forall>j < i. icmp (fst (es ! j)) target < 0"
  shows "\<exists>it'. run_loop (seek_turn icmp target) it = returns it' \<and> rests_at k dl es (int (lower_bound icmp (map fst es) target)) it'"
  using assms(2-)
proof (induction "length es - i" arbitrary: i it rule: less_induct)
  case less
  obtain it' where p: "ParseNextDataKey None it = Inr (i < length es, it')" "rests_at k dl es (int i) it'"
    using parse_stands [OF ok less.prems(1,2)] by auto
  show ?case
  proof (cases "i < length es")
    case True
    let ?c = "icmp (fst (es ! i)) target"
    have "key_Compare icmp it' target = Inr ?c" using p(2) True by (simp add: key_Compare_def rests_at_def at_entry_def reads_def)
    then have turn: "seek_turn icmp target it = Inr (?c < 0, it')" using p(1) True by (simp add: seek_turn_def)
    show ?thesis
    proof (cases "?c < 0")
      case c: True
      have "\<forall>j < Suc i. icmp (fst (es ! j)) target < 0" using less.prems(3) c by (simp add: less_Suc_eq)
      moreover have "length es - Suc i < length es - i" using True by simp
      ultimately show ?thesis using less.hyps [of "Suc i" it'] rests_at_before [OF p(2) True] turn c by (subst run_loop.simps) simp
    next
      case False
      then have "lower_bound icmp (map fst es) target = i" using less.prems(3) True by (intro lower_bound_eqI) auto
      then show ?thesis using p(2) turn False by (subst run_loop.simps) simp
    qed
  next
    case False
    then have "i = length es" using less.prems(1) by (simp add: before_entry_def)
    then have "lower_bound icmp (map fst es) target = i" using less.prems(3) by (intro lower_bound_eqI) auto
    then show ?thesis using p False by (subst run_loop.simps) (simp add: seek_turn_def)
  qed
qed

lemma BinarySeek_ok:
  assumes tw: "three_way icmp" and ok: "data_block_ok k dl es" and it: "rests_at k dl es q it" and srt: "sorted_keys icmp (map fst es)"
  shows "\<exists>l it'. BinarySeek icmp target 0 (nat ((int (di_num_restarts it) - 1) mod 2 ^ 32)) it = returns (Some l, it)
    \<and> SeekToRestartPoint l it = Inr it' \<and> before_entry k dl es (l * k) it' \<and> prev_cache_ok k dl es it'
    \<and> (\<forall>i < l * k. icmp (fst (es ! i)) target < 0)"
proof -
  have n: "nat ((int (di_num_restarts it) - 1) mod 2 ^ 32) = restart_count k es - 1"
    using num_restarts_last [OF ok] rests_at_reads [OF it] by (simp add: reads_def)
  obtain l r where "run_loop (binary_turn icmp target it) (0, restart_count k es - 1, False) = returns (l, r, False)" "l < restart_count k es"
      "\<forall>i < l * k. icmp (fst (es ! i)) target < 0"
    using binary_loop [OF tw ok rests_at_reads [OF it] srt, of 0 "restart_count k es - 1" target] restart_count_pos [of k es] by auto
  then show ?thesis using SeekToRestartPoint_before [OF ok it] unfolding n BinarySeek_def by auto
qed

lemma DataBlock_Seek_ok:
  assumes tw: "three_way icmp" and ok: "data_block_ok k dl es" and it: "rests_at k dl es q it" and srt: "sorted_keys icmp (map fst es)"
  shows "\<exists>it'. DataBlock_Seek icmp target it = returns it' \<and> rests_at k dl es (int (lower_bound icmp (map fst es) target)) it'"
proof -
  obtain l it' where b: "BinarySeek icmp target 0 (nat ((int (di_num_restarts it) - 1) mod 2 ^ 32)) it = returns (Some l, it)"
      "SeekToRestartPoint l it = Inr it'" "before_entry k dl es (l * k) it'" "prev_cache_ok k dl es it'" "\<forall>i < l * k. icmp (fst (es ! i)) target < 0"
    using BinarySeek_ok [OF assms] by blast
  show ?thesis using seek_loop [where icmp = icmp and target = target, OF ok b(3-5)] b(1,2) rests_at_reads [OF it] by (simp add: DataBlock_Seek_def reads_def)
qed

text \<open>\<open>SeekForPrev\<close> seeks and steps back over the keys that are greater.\<close>

lemma back_loop_ok:
  assumes tw: "three_way icmp" and ok: "data_block_ok k dl es" and srt: "sorted_keys icmp (map fst es)"
    and "rests_at k dl es q it" and "int (upper_bound icmp (map fst es) target) \<le> q + 1" and "q < int (length es)"
  shows "\<exists>it'. back_loop icmp target it = returns it' \<and> rests_at k dl es (int (upper_bound icmp (map fst es) target) - 1) it'"
  using assms(4-)
proof (induction "nat (q + 1)" arbitrary: q it rule: less_induct)
  case less
  let ?u = "upper_bound icmp (map fst es) target"
  note ub = upper_bound_at [OF tw srt, where k = target]
  show ?case
  proof (cases "0 \<le> q")
    case False
    then have "q = int ?u - 1" using less.prems(2) by simp
    then show ?thesis using rests_at_Valid [OF less.prems(1)] less.prems(1) False by (subst back_loop.simps) simp
  next
    case True
    have q: "nat q < length (map fst es)" using True less.prems(3) by simp
    have v: "DataBlock_Valid it" using rests_at_Valid [OF less.prems(1)] True less.prems(3) by simp
    have c: "key_Compare icmp it target = Inr (icmp (map fst es ! nat q) target)"
      using less.prems(1,3) True by (simp add: key_Compare_def rests_at_def at_entry_def reads_def)
    show ?thesis
    proof (cases "q + 1 = int ?u")
      case u: True
      then have "\<not> icmp (map fst es ! nat q) target > 0" using ub(1) [of "nat q"] True by (auto simp: not_less)
      moreover have "q = int ?u - 1" using u by simp
      ultimately show ?thesis using v c less.prems(1) by (subst back_loop.simps) simp
    next
      case False
      then have gt: "icmp (map fst es ! nat q) target > 0" using ub(2) [OF _ q] less.prems(2) True by simp
      obtain it1 where p: "DataBlock_Prev it = returns it1" "rests_at k dl es (q - 1) it1"
        using DataBlock_Prev_ok [OF ok less.prems(1) True less.prems(3)] by blast
      then show ?thesis using less.hyps [of "q - 1" it1] less.prems False True gt v c by (subst back_loop.simps) simp
    qed
  qed
qed

lemma DataBlock_SeekForPrev_ok:
  assumes tw: "three_way icmp" and ok: "data_block_ok k dl es" and it: "rests_at k dl es q it" and srt: "sorted_keys icmp (map fst es)"
  shows "\<exists>it'. DataBlock_SeekForPrev icmp target it = returns it' \<and> rests_at k dl es (int (upper_bound icmp (map fst es) target) - 1) it'"
proof -
  let ?l = "lower_bound icmp (map fst es) target"
  note ub = upper_bound_at [OF tw srt, where k = target]
  obtain l it1 where b: "BinarySeek icmp target 0 (nat ((int (di_num_restarts it) - 1) mod 2 ^ 32)) it = returns (Some l, it)"
      "SeekToRestartPoint l it = Inr it1" "before_entry k dl es (l * k) it1" "prev_cache_ok k dl es it1" "\<forall>i < l * k. icmp (fst (es ! i)) target < 0"
    using BinarySeek_ok [OF assms] by blast
  obtain it2 where s: "run_loop (seek_turn icmp target) it1 = returns it2" "rests_at k dl es (int ?l) it2"
    using seek_loop [where icmp = icmp and target = target, OF ok b(3-5)] by blast
  have eq: "DataBlock_SeekForPrev icmp target it = (if \<not> DataBlock_Valid it2 then DataBlock_SeekToLast it2 else back_loop icmp target it2)"
    using b(1,2) s(1) rests_at_reads [OF it] by (simp add: DataBlock_SeekForPrev_def reads_def)
  show ?thesis
  proof (cases "DataBlock_Valid it2")
    case True
    then have "?l < length es" using rests_at_Valid [OF s(2)] by simp
    then show ?thesis using back_loop_ok [OF tw ok srt s(2)] eq True ub(4) by simp
  next
    case False
    then have "?l = length es" using rests_at_Valid [OF s(2)] lower_bound_le [of icmp "map fst es" target] by simp
    then have "\<forall>x \<in> set es. icmp (fst x) target \<le> 0"
      using lower_bound_before [of _ icmp "map fst es" target] by (fastforce simp: in_set_conv_nth)
    then have "upper_bound icmp (map fst es) target = length es" by (simp add: upper_bound_def takeWhile_eq_all_conv [THEN iffD2])
    then show ?thesis using eq False DataBlock_SeekToLast_ok [OF ok s(2)] by simp
  qed
qed

section \<open>Opening a built block\<close>

text \<open>A block is built from its entries, its contents are opened as a \<open>Block\<close>, and an iterator is made for it.\<close>

definition build_block :: "nat \<Rightarrow> bool \<Rightarrow> (slice \<times> slice) list \<Rightarrow> slice result" where
  "build_block k dl es =
     and_then (BlockBuilder_new k dl False) (\<lambda>b. and_then (add_entries es b) (\<lambda>b. and_then (BlockBuilder_Finish b) (\<lambda>(contents, _). Inr contents)))"

definition open_block :: "slice \<Rightarrow> u64 \<Rightarrow> DataBlockIter result" where
  "open_block contents global_seqno = and_then (Block_new contents global_seqno) NewDataBlockIterator"

lemma build_block_bytes:
  assumes "data_block_ok k dl es"
  shows "build_block k dl es = Inr (block_bytes k dl es)"
proof -
  have k: "0 < k" "length (block_bytes k dl es) < 2 ^ 32" using assms by (simp_all add: data_block_ok_def)
  obtain b0 where b0: "BlockBuilder_new k dl False = Inr b0" "builds k dl [] b0" using builds_new [OF k(1)] by blast
  obtain b where b: "add_entries es b0 = Inr b" "builds k dl es b" using builds_add_entries [OF b0(2) k(1), of es] by auto
  show ?thesis using b0(1) b(1) builds_Finish [OF b(2) k(2)] by (auto simp: build_block_def)
qed

lemma footer_small:
  fixes w :: u32
  assumes "unat w < 2 ^ 31"
  shows "UnPackIndexTypeAndNumRestarts w = (kDataBlockBinarySearch, w)"
proof -
  have b: "\<not> bit w n" if "n \<ge> 31" for n using not_bit_small [OF assms that] .
  have "push_bit 31 1 = (2 :: u32) ^ 31" by simp
  then have "w AND push_bit 31 1 = 0" using b [of 31] by (simp only: and_exp_eq_0_iff_not_bit) simp
  moreover have "kMaxNumRestarts = mask 31" by (simp add: kMaxNumRestarts_def mask_eq_decr_exp)
  then have "w AND kMaxNumRestarts = take_bit 31 w" by (simp only: take_bit_eq_mask)
  moreover have "take_bit 31 w = w" using b by (intro bit_word_eqI) (auto simp: bit_take_bit_iff not_le [symmetric])
  ultimately show ?thesis by (simp add: UnPackIndexTypeAndNumRestarts_def)
qed

lemma Block_new_search:
  assumes f: "DecodeFixed32 kLittleEndian (drop (length c - 4) c) = of_nat n" and n: "n < 2 ^ 30" and len: "8 \<le> length c" "(1 + n) * 4 \<le> length c"
    "length c < 2 ^ 32"
  shows "Block_new c s = Inr \<lparr>bl_data = c, bl_size = length c, restart_offset = length c - (1 + n) * 4, bl_num_restarts = n, bl_global_seqno = s\<rparr>"
proof -
  have u: "unat (of_nat n :: u32) = n" using n by (intro unat_of_nat_u32) simp
  have up: "UnPackIndexTypeAndNumRestarts (of_nat n) = (kDataBlockBinarySearch, of_nat n)" using n u by (intro footer_small) simp
  have nr: "NumRestarts c (length c) = Inr n" using len(1) by (simp add: NumRestarts_def f up u Let_def)
  have ty: "IndexType c (length c) = Inr kDataBlockBinarySearch" using len(1) by (simp add: IndexType_def f up)
  have "(1 + n) mod 2 ^ 32 = 1 + n" using n by simp
  moreover have "int (length c) - int (1 + n) * 4 = int (length c - (1 + n) * 4)" using len(2) by simp
  moreover have "int (length c - (1 + n) * 4) mod 2 ^ 32 = int (length c - (1 + n) * 4)" using len(3) by (intro mod_pos_pos_trivial) simp_all
  ultimately have "nat ((int (length c) - int ((1 + n) mod 2 ^ 32) * 4) mod 2 ^ 32) = length c - (1 + n) * 4" by (simp only: nat_int)
  moreover have "\<not> length c < 4" "\<not> length c - (1 + n) * 4 > length c - 4" using len(1) by simp_all
  ultimately show ?thesis by (simp only: Block_new_def Let_def nr ty and_then_simps DataBlockIndexType.case if_False) (simp only: Block.simps)
qed

lemma open_block_rests:
  assumes ok: "data_block_ok k dl es"
  shows "\<exists>it. open_block (block_bytes k dl es) kDisableGlobalSequenceNumber = Inr it \<and> rests_at k dl es (-1) it"
proof -
  let ?B = "block_bytes k dl es" and ?n = "restart_count k es" and ?o = "entry_offset k dl es (length es)"
  have len: "length ?B = ?o + 4 * ?n + 4" "length ?B < 2 ^ 32" "0 < ?n"
    using ok restart_count_pos by (simp_all add: length_block_bytes data_block_ok_def)
  have d: "drop (length ?B - 4) ?B = EncodeFixed32 kLittleEndian (of_nat ?n)" by (simp add: block_bytes_def)
  have f: "DecodeFixed32 kLittleEndian (drop (length ?B - 4) ?B) = of_nat ?n"
    using DecodeFixed32_EncodeFixed32 [of kLittleEndian kLittleEndian "of_nat ?n" "[]"] by (simp add: d)
  have "Block_new ?B kDisableGlobalSequenceNumber = Inr \<lparr>bl_data = ?B, bl_size = length ?B, restart_offset = length ?B - (1 + ?n) * 4,
      bl_num_restarts = ?n, bl_global_seqno = kDisableGlobalSequenceNumber\<rparr>"
    using len by (intro Block_new_search [OF f]) simp_all
  moreover have "length ?B - (1 + ?n) * 4 = ?o" using len(1) by simp
  ultimately have "Block_new ?B kDisableGlobalSequenceNumber = Inr \<lparr>bl_data = ?B, bl_size = length ?B, restart_offset = ?o, bl_num_restarts = ?n,
      bl_global_seqno = kDisableGlobalSequenceNumber\<rparr>"
    by simp
  moreover have "IterKey_ok (IterKey_init\<lparr>ik_is_user_key := False\<rparr>)"
    by (simp add: IterKey_ok_def IterKey_init_def GetKey_def read_key_def buf_ok_def ik_buf_def new_bytes_def)
  ultimately show ?thesis using len(1,3)
    by (simp add: open_block_def NewDataBlockIterator_def DataBlock_Initialize_def DataBlockIter_new_def rests_at_def prev_cache_ok_def
        cache_from_def off_block_def reads_def SetIsUserKey_def)
qed

section \<open>The contract of an iterator\<close>

text \<open>The entries of a block as a scan reads them, and the position of the iterator: how many entries a scan from there has
  behind it.\<close>

fun db_scan :: "nat \<Rightarrow> DataBlockIter \<Rightarrow> (slice \<times> slice) list" where
  "db_scan 0 it = []"
| "db_scan (Suc n) it =
     (if DataBlock_Valid it then
        case (DataBlock_key it, DataBlock_value it, DataBlock_Next it) of
          (Inr key, Inr val, Some (Inr it')) \<Rightarrow> (key, val) # db_scan n it'
        | _ \<Rightarrow> []
      else [])"

definition db_entries :: "DataBlockIter \<Rightarrow> (slice \<times> slice) list" where
  "db_entries it = (case DataBlock_SeekToFirst it of Some (Inr it') \<Rightarrow> db_scan (di_restarts it) it' | _ \<Rightarrow> [])"

definition db_pos :: "DataBlockIter \<Rightarrow> int" where
  "db_pos it = (if DataBlock_Valid it then int (length (db_entries it)) - int (length (db_scan (di_restarts it) it)) else - 1)"

definition db_ok :: "DataBlockIter \<Rightarrow> bool" where
  "db_ok it \<longleftrightarrow> (\<exists>k dl. data_block_ok k dl (db_entries it) \<and> rests_at k dl (db_entries it) (db_pos it) it)"

lemma db_scan_rests:
  "data_block_ok k dl es \<Longrightarrow> rests_at k dl es (int i) it \<Longrightarrow> length es - i \<le> n \<Longrightarrow> db_scan n it = drop i es"
proof (induction n arbitrary: i it)
  case (Suc n)
  show ?case
  proof (cases "i < length es")
    case True
    obtain it' where "DataBlock_Next it = returns it'" "rests_at k dl es (int i + 1) it'"
      using DataBlock_Next_ok [OF Suc.prems(1,2)] True by auto
    moreover have "int i + 1 = int (Suc i)" by simp
    ultimately show ?thesis
      using Suc.IH [of "Suc i" it'] Suc.prems rests_at_Valid [OF Suc.prems(2)] rests_at_key_value [OF Suc.prems(1,2)] True
      by (simp add: Cons_nth_drop_Suc)
  next
    case False
    then show ?thesis using rests_at_Valid [OF Suc.prems(2)] by simp
  qed
qed simp

lemma length_le_offset: "n \<le> entry_offset k dl es n"
proof (induction n)
  case (Suc n)
  then show ?case using entry_bytes_length [of k dl es n] by (simp add: entry_offset_Suc)
qed simp

lemma db_okI:
  assumes ok: "data_block_ok k dl es" and it: "rests_at k dl es q it"
  shows "db_ok it \<and> db_entries it = es \<and> same_place es (db_pos it) q"
proof -
  have r: "di_restarts it = entry_offset k dl es (length es)" using rests_at_reads [OF it] by (simp add: reads_def)
  have le: "length es \<le> di_restarts it" using length_le_offset [of "length es"] by (simp add: r)
  obtain it' where "DataBlock_SeekToFirst it = returns it'" "rests_at k dl es (int 0) it'" using DataBlock_SeekToFirst_ok [OF ok it] by auto
  then have es: "db_entries it = es" using db_scan_rests [OF ok, of 0 it' "di_restarts it"] le by (simp add: db_entries_def)
  show ?thesis
  proof (cases "0 \<le> q \<and> q < int (length es)")
    case True
    then have "db_scan (di_restarts it) it = drop (nat q) es" using db_scan_rests [OF ok, of "nat q" it] it le by simp
    then have "db_pos it = int (length es) - int (length es - nat q)" using True rests_at_Valid [OF it] by (simp add: db_pos_def es)
    then have "db_pos it = q" using True by linarith
    then show ?thesis using es ok it by (auto simp: db_ok_def)
  next
    case False
    then have "db_pos it = - 1" using rests_at_Valid [OF it] by (auto simp: db_pos_def)
    moreover have "rests_at k dl es (- 1) it" using it False by (auto simp: rests_at_def)
    ultimately show ?thesis using es ok False by (auto simp: db_ok_def same_place_def)
  qed
qed

lemma db_moves:
  assumes "data_block_ok k dl (db_entries it)" and "\<exists>it'. r = returns it' \<and> rests_at k dl (db_entries it) q it'"
  shows "\<exists>it'. r = returns it' \<and> db_ok it' \<and> db_entries it' = db_entries it \<and> same_place (db_entries it) (db_pos it') q"
  using assms db_okI by blast

lemma DataBlock_ops_simps [simp]:
  "io_Valid (DataBlock_ops icmp) = DataBlock_Valid" "io_status (DataBlock_ops icmp) = di_status"
  "io_key (DataBlock_ops icmp) = DataBlock_key" "io_value (DataBlock_ops icmp) = DataBlock_value"
  "io_SeekToFirst (DataBlock_ops icmp) = DataBlock_SeekToFirst" "io_SeekToLast (DataBlock_ops icmp) = DataBlock_SeekToLast"
  "io_Next (DataBlock_ops icmp) = DataBlock_Next" "io_Prev (DataBlock_ops icmp) = DataBlock_Prev"
  "io_Seek (DataBlock_ops icmp) = DataBlock_Seek icmp" "io_SeekForPrev (DataBlock_ops icmp) = DataBlock_SeekForPrev icmp"
  by (simp_all add: DataBlock_ops_def)

lemma DataBlock_internal_iterator:
  assumes tw: "three_way icmp"
  shows "internal_iterator icmp (DataBlock_ops icmp) db_entries db_pos db_ok"
proof (rule internal_iterator.intro [OF tw], unfold_locales)
  fix it target assume "db_ok it"
  then obtain k dl where ok: "data_block_ok k dl (db_entries it)" and at: "rests_at k dl (db_entries it) (db_pos it) it"
    by (auto simp: db_ok_def)
  note v = rests_at_Valid [OF at] and move = db_moves [OF ok]
  show "io_Valid (DataBlock_ops icmp) it \<longleftrightarrow> 0 \<le> db_pos it \<and> db_pos it < int (length (db_entries it))" using v by simp
  show "io_status (DataBlock_ops icmp) it = OK" using rests_at_reads [OF at] by (simp add: reads_def)
  show "io_key (DataBlock_ops icmp) it = Inr (fst (db_entries it ! nat (db_pos it)))" if "io_Valid (DataBlock_ops icmp) it"
    using rests_at_key_value(1) [OF ok at] v that by simp
  show "io_value (DataBlock_ops icmp) it = Inr (snd (db_entries it ! nat (db_pos it)))" if "io_Valid (DataBlock_ops icmp) it"
    using rests_at_key_value(2) [OF ok at] v that by simp
  show "\<exists>it'. io_SeekToFirst (DataBlock_ops icmp) it = returns it' \<and> db_ok it' \<and> db_entries it' = db_entries it
      \<and> same_place (db_entries it) (db_pos it') 0"
    using move [OF DataBlock_SeekToFirst_ok [OF ok at]] by simp
  show "\<exists>it'. io_SeekToLast (DataBlock_ops icmp) it = returns it' \<and> db_ok it' \<and> db_entries it' = db_entries it
      \<and> same_place (db_entries it) (db_pos it') (int (length (db_entries it)) - 1)"
    using move [OF DataBlock_SeekToLast_ok [OF ok at]] by simp
  show "\<exists>it'. io_Next (DataBlock_ops icmp) it = returns it' \<and> db_ok it' \<and> db_entries it' = db_entries it
      \<and> same_place (db_entries it) (db_pos it') (db_pos it + 1)" if "io_Valid (DataBlock_ops icmp) it"
    using move [OF DataBlock_Next_ok [OF ok at]] v that by simp
  show "\<exists>it'. io_Prev (DataBlock_ops icmp) it = returns it' \<and> db_ok it' \<and> db_entries it' = db_entries it
      \<and> same_place (db_entries it) (db_pos it') (db_pos it - 1)" if "io_Valid (DataBlock_ops icmp) it"
    using move [OF DataBlock_Prev_ok [OF ok at]] v that by simp
  show "\<exists>it'. io_Seek (DataBlock_ops icmp) target it = returns it' \<and> db_ok it' \<and> db_entries it' = db_entries it
      \<and> same_place (db_entries it) (db_pos it') (int (lower_bound icmp (map fst (db_entries it)) target))"
    if "sorted_keys icmp (map fst (db_entries it))"
    using move [OF DataBlock_Seek_ok [OF tw ok at that]] by simp
qed

lemma DataBlock_guarded_iterator:
  assumes tw: "three_way icmp"
  shows "guarded_iterator icmp (DataBlock_ops icmp) db_entries db_pos db_ok"
proof (rule guarded_iterator.intro, rule reversible_iterator.intro [OF DataBlock_internal_iterator [OF tw]], unfold_locales)
  fix it target assume "db_ok it"
  then obtain k dl where ok: "data_block_ok k dl (db_entries it)" and at: "rests_at k dl (db_entries it) (db_pos it) it"
    by (auto simp: db_ok_def)
  show "\<exists>it'. io_SeekForPrev (DataBlock_ops icmp) target it = returns it' \<and> db_ok it' \<and> db_entries it' = db_entries it
      \<and> same_place (db_entries it) (db_pos it') (int (upper_bound icmp (map fst (db_entries it)) target) - 1)"
    if "sorted_keys icmp (map fst (db_entries it))"
    using db_moves [OF ok DataBlock_SeekForPrev_ok [OF tw ok at that]] by simp
qed (auto simp: DataBlock_Next_def DataBlock_Prev_def DataBlock_key_def DataBlock_value_def)

interpretation data_block: guarded_iterator "InternalKeyComparator_Compare Bytewise_Compare"
    "DataBlock_ops (InternalKeyComparator_Compare Bytewise_Compare)" db_entries db_pos db_ok
  by (rule DataBlock_guarded_iterator [OF bytewise_keys.ikc.three_way_axioms])

section \<open>Arbitrary contents\<close>

text \<open>Whatever the bytes are, an entry that is decoded ends behind its start, so every loop makes progress.\<close>

lemma run_loop_total:
  fixes m :: "'s \<Rightarrow> nat"
  assumes "I s" and "\<And>s s'. I s \<Longrightarrow> body s = Inr (True, s') \<Longrightarrow> I s' \<and> m s' < m s"
    and "\<And>s s'. I s \<Longrightarrow> body s = Inr (False, s') \<Longrightarrow> Q s'"
  shows "\<exists>y. run_loop body s = Some y \<and> (\<forall>s'. y = Inr s' \<longrightarrow> Q s')"
  using assms(1)
proof (induction "m s" arbitrary: s rule: less_induct)
  case less
  show ?case
  proof (cases "\<exists>s'. body s = Inr (True, s')")
    case True
    then show ?thesis using less.hyps assms(2) [OF less.prems] by (subst run_loop.simps) auto
  next
    case False
    then show ?thesis using assms(3) [OF less.prems] by (subst run_loop.simps) (auto split: sum.splits prod.splits)
  qed
qed

lemma DecodeEntry_progress:
  assumes "DecodeEntry d p limit = Inr (Some (sh, ns, vl, p'))"
  shows "p < p'" and "p' + (ns + vl) mod 2 ^ 32 \<le> limit"
proof -
  note shorter = varint32.get_shorter [unfolded GetVarint32_def]
  obtain q where s: "slice_at d p (limit - p) = Inr q" "p + 3 \<le> limit"
    using assms by (cases "slice_at d p (limit - p)") (auto simp: DecodeEntry_def split: if_splits)
  obtain a b c e where "decode_sizes q p limit = Some (a, b, c, e)"
    using assms s by (cases "decode_sizes q p limit") (auto simp: DecodeEntry_def)
  then have q: "slice_at d p (limit - p) = Inr q" "decode_sizes q p limit = Some (sh, ns, vl, p')" "p + 3 \<le> limit"
      "\<not> limit - p' < (ns + vl) mod 2 ^ 32"
    using assms s by (auto simp: DecodeEntry_def split: if_splits)
  then have "length q = limit - p" by (auto simp: slice_at_def split: if_splits)
  then have "p < p' \<and> p' \<le> limit"
    using q(2,3) by (auto simp: decode_sizes_def less_diff_conv split: if_splits option.splits dest!: shorter)
  then show "p < p'" "p' + (ns + vl) mod 2 ^ 32 \<le> limit" using q(4) by (simp_all only: not_less le_diff_conv2 add.commute)
qed

lemma apply_global_seqno_frame:
  "apply_global_seqno it = Inr it' \<Longrightarrow> di_restarts it' = di_restarts it \<and> prev_entries it' = prev_entries it \<and> di_current it' = di_current it
    \<and> di_data it' = di_data it \<and> di_num_restarts it' = di_num_restarts it \<and> prev_entries_idx it' = prev_entries_idx it
    \<and> di_restart_index it' = di_restart_index it"
  by (auto simp: apply_global_seqno_def and_then_Inr Let_def split: if_splits)

lemma advance_restart_index: "advance_restart it r = Inr r' \<Longrightarrow> r' = r \<or> r' < di_num_restarts it"
proof (induction it r rule: advance_restart.induct)
  case (1 it r)
  then show ?case by (subst (asm) advance_restart.simps [of it r]) (auto split: if_splits sum.splits)
qed

lemma ParseNextDataKey_entry:
  assumes "NextEntryOffset it = Inr c" "block_data it = Inr d" "c < di_restarts it" "DecodeEntry d c (di_restarts it) = Inr (Some (sh, ns, vl, p))"
  shows "ParseNextDataKey None it = (if ik_key_size (di_key it) < sh then Inr (False, CorruptionError (it\<lparr>di_current := c\<rparr>))
    else and_then (if sh = 0 then and_then (slice_at d p ns) (\<lambda>k. SetKey k False (di_key it)) else TrimAppend sh (drop p d) ns (di_key it)) (\<lambda>k.
      and_then (apply_global_seqno (it\<lparr>di_current := c, di_key := k, di_key_pinned := (sh = 0)\<rparr>)) (\<lambda>it.
        and_then (if sh = 0 then advance_restart (it\<lparr>di_value := Some (p + ns, vl)\<rparr>) (di_restart_index it) else Inr (di_restart_index it)) (\<lambda>r.
          Inr (True, it\<lparr>di_value := Some (p + ns, vl), di_restart_index := r\<rparr>)))))"
  using assms by (simp add: ParseNextDataKey_def Let_def)

lemma parse_cases:
  assumes "ParseNextDataKey None it = Inr (b, it')"
  shows "\<exists>c d. NextEntryOffset it = Inr c \<and> block_data it = Inr d
    \<and> (\<not> b \<and> (it' = it\<lparr>di_current := di_restarts it, di_restart_index := di_num_restarts it\<rparr> \<or> it' = CorruptionError (it\<lparr>di_current := c\<rparr>))
       \<or> b \<and> c < di_restarts it \<and> (\<exists>sh ns vl p k it1 r. DecodeEntry d c (di_restarts it) = Inr (Some (sh, ns, vl, p))
           \<and> apply_global_seqno (it\<lparr>di_current := c, di_key := k, di_key_pinned := (sh = 0)\<rparr>) = Inr it1
           \<and> (r = di_restart_index it1 \<or> r < di_num_restarts it1) \<and> it' = it1\<lparr>di_value := Some (p + ns, vl), di_restart_index := r\<rparr>))"
proof -
  obtain c d where c: "NextEntryOffset it = Inr c" "block_data it = Inr d"
    using assms by (auto simp: ParseNextDataKey_def and_then_Inr)
  show ?thesis
  proof (cases "di_restarts it \<le> c")
    case True
    then show ?thesis using assms c by (auto simp: ParseNextDataKey_def)
  next
    case False
    then obtain e where e: "DecodeEntry d c (di_restarts it) = Inr e"
      using assms c by (auto simp: ParseNextDataKey_def and_then_Inr Let_def)
    show ?thesis
    proof (cases e)
      case None
      then show ?thesis using assms c e False by (auto simp: ParseNextDataKey_def)
    next
      case (Some t)
      obtain sh ns vl p where t: "t = (sh, ns, vl, p)" by (cases t)
      note u = ParseNextDataKey_entry [OF c _ e [unfolded Some t]]
      show ?thesis
      proof (cases "ik_key_size (di_key it) < sh")
        case True
        then show ?thesis using assms c u False by auto
      next
        case fits: False
        obtain k it1 r where r: "apply_global_seqno (it\<lparr>di_current := c, di_key := k, di_key_pinned := (sh = 0)\<rparr>) = Inr it1"
            "(if sh = 0 then advance_restart (it1\<lparr>di_value := Some (p + ns, vl)\<rparr>) (di_restart_index it1) else Inr (di_restart_index it1)) = Inr r"
            "Inr (True, it1\<lparr>di_value := Some (p + ns, vl), di_restart_index := r\<rparr>) = (Inr (b, it') :: (bool \<times> DataBlockIter) result)"
          using assms unfolding u [OF False [unfolded not_le]] if_not_P [OF fits] and_then_Inr by (elim exE conjE)
        then have "b" "it' = it1\<lparr>di_value := Some (p + ns, vl), di_restart_index := r\<rparr>" by simp_all
        moreover have "r = di_restart_index it1 \<or> r < di_num_restarts it1" using r(2) advance_restart_index by (fastforce split: if_splits)
        ultimately show ?thesis using c e Some t False r(1) by (intro exI [of _ c] exI [of _ d]) auto
      qed
    qed
  qed
qed

lemma parse_frame:
  assumes "ParseNextDataKey None it = Inr (b, it')"
  shows "di_restarts it' = di_restarts it \<and> prev_entries it' = prev_entries it \<and> di_data it' = di_data it
    \<and> di_num_restarts it' = di_num_restarts it \<and> prev_entries_idx it' = prev_entries_idx it"
    and "di_restart_index it \<le> di_num_restarts it \<Longrightarrow> di_restart_index it' \<le> di_num_restarts it'"
    and "di_restarts it < 2 ^ 32 \<Longrightarrow> di_current it' < 2 ^ 32"
  using parse_cases [OF assms] by (auto simp: CorruptionError_def dest!: apply_global_seqno_frame)

lemma parse_progress:
  assumes p: "ParseNextDataKey None it = Inr (True, it')" and small: "di_restarts it < 2 ^ 32"
  shows "NextEntryOffset it = Inr (di_current it') \<and> di_current it' < di_restarts it
    \<and> (\<exists>n. NextEntryOffset it' = Inr n \<and> di_current it' < n)"
proof -
  obtain c d sh ns vl q where c: "NextEntryOffset it = Inr c" "c < di_restarts it"
      and e: "DecodeEntry d c (di_restarts it) = Inr (Some (sh, ns, vl, q))"
      and it': "di_current it' = c" "di_value it' = Some (q + ns, vl)"
    using parse_cases [OF p] by (auto dest!: apply_global_seqno_frame)
  have "(q + ns + vl) mod 2 ^ 32 = (q + (ns + vl) mod 2 ^ 32) mod 2 ^ 32" by (simp add: mod_simps add.assoc)
  also have "\<dots> = q + (ns + vl) mod 2 ^ 32" using DecodeEntry_progress(2) [OF e] small by (intro mod_less) linarith
  finally have "(q + ns + vl) mod 2 ^ 32 = q + (ns + vl) mod 2 ^ 32" .
  then show ?thesis using c it' DecodeEntry_progress(1) [OF e] by (simp add: NextEntryOffset_def)
qed

definition db_bounded :: "DataBlockIter \<Rightarrow> bool" where
  "db_bounded it \<longleftrightarrow> di_restarts it < 2 ^ 32 \<and> sorted_wrt (<) (map ce_offset (prev_entries it))
     \<and> (\<forall>d. di_data it = Some d \<longrightarrow> length d < 2 ^ 32 \<and> 0 < di_num_restarts it) \<and> di_num_restarts it < 2 ^ 32
     \<and> di_current it < 2 ^ 32 \<and> di_restart_index it \<le> di_num_restarts it \<and> (\<forall>e \<in> set (prev_entries it). ce_offset e < 2 ^ 32)
     \<and> (prev_entries_idx it = - 1 \<or> 0 \<le> prev_entries_idx it \<and> prev_entries_idx it < int (length (prev_entries it)))"

definition bytes_ahead :: "DataBlockIter \<Rightarrow> nat" where
  "bytes_ahead it = (case NextEntryOffset it of Inl _ \<Rightarrow> 0 | Inr n \<Rightarrow> di_restarts it - n)"

definition returns_bounded :: "DataBlockIter run \<Rightarrow> bool" where
  "returns_bounded r \<longleftrightarrow> (\<exists>y. r = Some y \<and> (\<forall>it. y = Inr it \<longrightarrow> db_bounded it))"

lemma parse_bounded:
  assumes "ParseNextDataKey None it = Inr (b, it')" and "db_bounded it"
  shows "db_bounded it'" and "b \<Longrightarrow> bytes_ahead it' < bytes_ahead it"
proof -
  show "db_bounded it'" using parse_frame [OF assms(1)] assms(2) by (simp add: db_bounded_def)
  assume b: b
  then show "bytes_ahead it' < bytes_ahead it"
    using parse_progress [of it it'] parse_frame [OF assms(1)] assms by (auto simp: bytes_ahead_def db_bounded_def)
qed

lemma SeekToRestartPoint_frame:
  "SeekToRestartPoint j it = Inr it' \<Longrightarrow> di_restarts it' = di_restarts it \<and> prev_entries it' = prev_entries it
    \<and> di_data it' = di_data it \<and> di_num_restarts it' = di_num_restarts it \<and> di_current it' = di_current it
    \<and> prev_entries_idx it' = prev_entries_idx it \<and> di_restart_index it' \<le> di_num_restarts it'"
  by (auto simp: SeekToRestartPoint_def GetRestartPoint_def and_then_Inr split: if_splits)

lemma SeekToRestartPoint_bounded: "SeekToRestartPoint j it = Inr it' \<Longrightarrow> db_bounded it \<Longrightarrow> db_bounded it'"
  by (drule SeekToRestartPoint_frame) (simp add: db_bounded_def)

lemma returns_bounded_simps [simp]:
  "returns_bounded (returns it) \<longleftrightarrow> db_bounded it" "returns_bounded (fails e)"
  by (simp_all add: returns_bounded_def)

lemma returns_bounded_then:
  "returns_bounded m \<Longrightarrow> (\<And>it. db_bounded it \<Longrightarrow> returns_bounded (f it)) \<Longrightarrow> returns_bounded (run_then m f)"
  by (auto simp: returns_bounded_def run_then_def split: option.splits sum.splits)

lemma SeekToRestartPoint_then:
  assumes "db_bounded it" and "\<And>it. db_bounded it \<Longrightarrow> returns_bounded (f it)"
  shows "returns_bounded (run_then (Some (SeekToRestartPoint j it)) f)"
  using assms SeekToRestartPoint_bounded [of j it] by (cases "SeekToRestartPoint j it") auto

lemma seek_turn_returns: "db_bounded it \<Longrightarrow> returns_bounded (run_loop (seek_turn icmp target) it)"
  unfolding returns_bounded_def
  by (rule run_loop_total [where I = db_bounded and m = bytes_ahead])
    (auto simp: seek_turn_def and_then_Inr split: if_splits dest: parse_bounded)

lemma last_turn_returns: "db_bounded it \<Longrightarrow> returns_bounded (run_loop last_turn it)"
  unfolding returns_bounded_def
  by (rule run_loop_total [where I = db_bounded and m = bytes_ahead])
    (auto simp: last_turn_def and_then_Inr split: if_splits dest: parse_bounded)

lemma GetRestartPoint_index:
  assumes "GetRestartPoint j it = Inr n" and "db_bounded it"
  shows "4 * j < 2 ^ 32"
  using assms by (auto simp: GetRestartPoint_def and_then_Inr block_data_def slice_at_def db_bounded_def split: if_splits option.splits)

lemma binary_turn_step:
  assumes "binary_turn icmp target it (l, r, c) = Inr (True, l', r', c')"
  shows "l < r" and "\<exists>n. GetRestartPoint ((l + r + 1) mod 2 ^ 32 div 2) it = Inr n"
    and "(l', r') \<in> {((l + r + 1) mod 2 ^ 32 div 2, r), (l, (l + r + 1) mod 2 ^ 32 div 2 - 1),
      ((l + r + 1) mod 2 ^ 32 div 2, (l + r + 1) mod 2 ^ 32 div 2)}"
proof -
  define mid where "mid = (l + r + 1) mod 2 ^ 32 div 2"
  from assms have "l < r \<and> (\<exists>n. GetRestartPoint mid it = Inr n) \<and> (l', r') \<in> {(mid, r), (l, mid - 1), (mid, mid)}"
    unfolding binary_turn_def prod.case mid_def [symmetric]
    by (auto simp: and_then_Inr Let_def split: if_splits option.splits)
  then show "l < r" and "\<exists>n. GetRestartPoint ((l + r + 1) mod 2 ^ 32 div 2) it = Inr n"
    and "(l', r') \<in> {((l + r + 1) mod 2 ^ 32 div 2, r), (l, (l + r + 1) mod 2 ^ 32 div 2 - 1),
      ((l + r + 1) mod 2 ^ 32 div 2, (l + r + 1) mod 2 ^ 32 div 2)}"
    unfolding mid_def by blast+
qed

lemma BinarySeek_returns:
  assumes it: "db_bounded it" and "l + r + 1 < 2 ^ 32"
  shows "\<exists>y. BinarySeek icmp target l r it = Some y \<and> (\<forall>j it'. y = Inr (j, it') \<longrightarrow> db_bounded it')"
proof -
  have "\<exists>y. run_loop (binary_turn icmp target it) (l, r, False) = Some y \<and> (\<forall>s'. y = Inr s' \<longrightarrow> True)"
  proof (rule run_loop_total [where I = "\<lambda>(l, r, _). l + r + 1 < 2 ^ 32" and m = "\<lambda>(l, r, _). r - l"])
    fix s s' assume I: "case s of (l, r, _) \<Rightarrow> l + r + 1 < 2 ^ 32" and t: "binary_turn icmp target it s = Inr (True, s')"
    obtain a b c where s: "s = (a, b, c)" by (cases s)
    obtain a' b' c' where s': "s' = (a', b', c')" by (cases s')
    define mid where "mid = (a + b + 1) div 2"
    have "(a + b + 1) mod 2 ^ 32 = a + b + 1" using I s by (intro mod_less) simp
    then have st: "a < b" "\<exists>n. GetRestartPoint mid it = Inr n" "(a', b') \<in> {(mid, b), (a, mid - 1), (mid, mid)}"
      using binary_turn_step [OF t [unfolded s s']] by (simp_all only: mid_def)
    have mid: "a < mid" "mid \<le> b" "b \<le> 2 * mid" "4 * mid < 2 ^ 32" using st(1,2) GetRestartPoint_index [OF _ it] by (auto simp: mid_def)
    then have "a' + b' + 1 < 2 ^ 32 \<and> b' - a' < b - a" using st(3) by auto
    then show "(case s' of (l, r, _) \<Rightarrow> l + r + 1 < 2 ^ 32) \<and> (case s' of (l, r, _) \<Rightarrow> r - l) < (case s of (l, r, _) \<Rightarrow> r - l)"
      unfolding s s' prod.case .
  qed (use assms(2) in simp_all)
  then show ?thesis using it by (auto simp: BinarySeek_def run_then_def CorruptionError_def db_bounded_def split: sum.splits)
qed

text \<open>The loop of \<open>Prev\<close> caches entries with increasing offsets and stops before the entry at which it started.\<close>

definition filling :: "nat \<Rightarrow> DataBlockIter \<Rightarrow> bool" where
  "filling original it \<longleftrightarrow> db_bounded it
     \<and> (\<exists>n. NextEntryOffset it = Inr n \<and> n < original \<and> (\<forall>e \<in> set (prev_entries it). ce_offset e < n))"

definition went_back :: "nat \<Rightarrow> DataBlockIter \<Rightarrow> bool" where
  "went_back original it \<longleftrightarrow> db_bounded it \<and> (DataBlock_Valid it \<longrightarrow> di_current it < original)"

lemma parse_fails_invalid: "ParseNextDataKey None it = Inr (False, it') \<Longrightarrow> \<not> DataBlock_Valid it'"
  by (drule parse_cases) (auto simp: DataBlock_Valid_def CorruptionError_def)

lemma cache_entry_frame:
  "cache_entry it = Inr it' \<Longrightarrow> \<exists>e. ce_offset e = di_current it \<and> prev_entries it' = prev_entries it @ [e] \<and> di_value it' = di_value it
    \<and> di_current it' = di_current it \<and> di_restarts it' = di_restarts it \<and> di_data it' = di_data it \<and> di_num_restarts it' = di_num_restarts it
    \<and> di_restart_index it' = di_restart_index it \<and> prev_entries_idx it' = prev_entries_idx it"
  by (auto simp: cache_entry_def and_then_Inr split: if_splits)

lemma prev_turn_step:
  assumes f: "filling original it" and t: "prev_turn original it = Inr (go, it')"
  shows "if go then filling original it' \<and> bytes_ahead it' < bytes_ahead it else went_back original it'"
proof -
  obtain ok it1 where p: "ParseNextDataKey None it = Inr (ok, it1)" using t by (auto simp: prev_turn_def and_then_Inr)
  have b: "db_bounded it" "db_bounded it1" using f parse_bounded(1) [OF p] by (simp_all add: filling_def)
  show ?thesis
  proof (cases ok)
    case False
    then show ?thesis using t p b parse_fails_invalid [of it it1] by (auto simp: prev_turn_def went_back_def)
  next
    case True
    obtain it2 n where c: "cache_entry it1 = Inr it2" "NextEntryOffset it2 = Inr n" "go = (n < original)" "it' = it2"
      using t p True by (auto simp: prev_turn_def and_then_Inr)
    obtain e where e: "ce_offset e = di_current it1" "prev_entries it2 = prev_entries it1 @ [e]" "di_value it2 = di_value it1"
        "di_current it2 = di_current it1" "di_restarts it2 = di_restarts it1" "di_data it2 = di_data it1" "di_num_restarts it2 = di_num_restarts it1"
        "di_restart_index it2 = di_restart_index it1" "prev_entries_idx it2 = prev_entries_idx it1"
      using cache_entry_frame [OF c(1)] by blast
    have pr: "NextEntryOffset it = Inr (di_current it1)" "di_current it1 < n"
      using parse_progress [of it it1] p True b(1) c(2) e(3) by (auto simp: db_bounded_def NextEntryOffset_def)
    have old: "di_current it1 < original" "\<forall>x \<in> set (prev_entries it1). ce_offset x < di_current it1"
      using f pr(1) parse_frame [OF p] by (auto simp: filling_def)
    have "db_bounded it2" using b(2) e old(2) by (auto simp: db_bounded_def sorted_wrt_append)
    moreover have "bytes_ahead it2 < bytes_ahead it" 
    proof -
      have "NextEntryOffset it1 = Inr n" using c(2) e(3) by (simp add: NextEntryOffset_def)
      then have "bytes_ahead it2 = bytes_ahead it1" using c(2) e(5) by (simp add: bytes_ahead_def)
      then show ?thesis using parse_bounded(2) [OF p b(1)] True by simp
    qed
    ultimately show ?thesis using c old pr e by (auto simp: filling_def went_back_def)
  qed
qed

lemma restart_before_less:
  "restart_before it original r = Inr (Some r') \<Longrightarrow> \<exists>n. GetRestartPoint r' it = Inr n \<and> n < original"
  by (induction r) (auto split: sum.splits if_splits)

lemma GetRestartPoint_u32: "GetRestartPoint j it = Inr n \<Longrightarrow> n mod 2 ^ 32 = n"
proof -
  have "unat w mod 2 ^ 32 = unat w" for w :: u32 using unat_less_exp [of w] by (intro mod_less) simp
  then show "GetRestartPoint j it = Inr n \<Longrightarrow> n mod 2 ^ 32 = n" by (auto simp: GetRestartPoint_def and_then_Inr split: if_splits)
qed

lemma cached_Prev_frame:
  "cached_Prev it = Inr it' \<Longrightarrow> di_restarts it' = di_restarts it \<and> prev_entries it' = prev_entries it \<and> di_data it' = di_data it
    \<and> di_num_restarts it' = di_num_restarts it \<and> di_restart_index it' = di_restart_index it \<and> prev_entries_idx it' = prev_entries_idx it - 1
    \<and> di_current it' = ce_offset (prev_entries it ! nat (prev_entries_idx it - 1))"
  by (auto simp: cached_Prev_def Let_def and_then_Inr)

lemma DataBlock_Prev_back:
  assumes b: "db_bounded it"
  shows "\<exists>y. DataBlock_Prev it = Some y \<and> (\<forall>it'. y = Inr it' \<longrightarrow> went_back (di_current it) it')"
proof (cases "DataBlock_Valid it
    \<and> (prev_entries_idx it = - 1 \<or> 0 \<le> prev_entries_idx it \<and> prev_entries_idx it < int (length (prev_entries it)))")
  case False
  then show ?thesis by (auto simp: DataBlock_Prev_def)
next
  case g: True
  show ?thesis
  proof (cases "prev_entries_idx it > 0 \<and> ce_offset (prev_entries it ! nat (prev_entries_idx it)) = di_current it")
    case True
    let ?i = "nat (prev_entries_idx it)"
    have i: "nat (prev_entries_idx it - 1) < ?i" "?i < length (prev_entries it)" using True g by auto
    then have "ce_offset (prev_entries it ! nat (prev_entries_idx it - 1)) < di_current it"
      using b True sorted_wrt_nth_less [of "(<)" "map ce_offset (prev_entries it)" "nat (prev_entries_idx it - 1)" ?i] by (simp add: db_bounded_def)
    moreover have "prev_entries it ! nat (prev_entries_idx it - 1) \<in> set (prev_entries it)" using i by (intro nth_mem) simp
    ultimately have "went_back (di_current it) it'" if "cached_Prev it = Inr it'" for it'
      using cached_Prev_frame [OF that] b True by (auto simp: went_back_def db_bounded_def)
    then show ?thesis using True g by (auto simp: DataBlock_Prev_def)
  next
    case False
    let ?it = "it\<lparr>prev_entries_idx := - 1, prev_entries := [], prev_entries_keys_buff := []\<rparr>" and ?o = "di_current it"
    have eq: "DataBlock_Prev it = run_then (Some (restart_before ?it ?o (di_restart_index it))) (\<lambda>r.
             case r of
               None \<Rightarrow> returns (?it\<lparr>di_current := di_restarts it, di_restart_index := di_num_restarts it\<rparr>)
             | Some r \<Rightarrow>
                 run_then (Some (SeekToRestartPoint r ?it)) (\<lambda>it.
                 run_then (run_loop (prev_turn ?o) it) (\<lambda>it.
                   returns (it\<lparr>prev_entries_idx := int (length (prev_entries it)) - 1\<rparr>))))"
      using g False by (simp only: DataBlock_Prev_def Let_def if_False simp_thms) simp
    have b': "db_bounded ?it" using b by (simp add: db_bounded_def)
    show ?thesis
    proof (cases "\<exists>r it1. restart_before ?it ?o (di_restart_index it) = Inr (Some r) \<and> SeekToRestartPoint r ?it = Inr it1")
      case True
      then obtain r it1 where r: "restart_before ?it ?o (di_restart_index it) = Inr (Some r)" "SeekToRestartPoint r ?it = Inr it1" by blast
      obtain n where n: "GetRestartPoint r ?it = Inr n" "n < ?o" using restart_before_less [OF r(1)] by blast
      have "filling ?o it1"
        using SeekToRestartPoint_bounded [OF r(2) b'] SeekToRestartPoint_frame [OF r(2)] r(2) n GetRestartPoint_u32 [OF n(1)]
        by (auto simp: filling_def SeekToRestartPoint_def NextEntryOffset_def)
      then have "\<exists>y. run_loop (prev_turn ?o) it1 = Some y \<and> (\<forall>it'. y = Inr it' \<longrightarrow> went_back ?o it')"
        by (rule run_loop_total [where m = bytes_ahead]) (use prev_turn_step in fastforce)+
      then obtain y where y: "run_loop (prev_turn ?o) it1 = Some y" "\<forall>it'. y = Inr it' \<longrightarrow> went_back ?o it'" by blast
      have "DataBlock_Prev it = run_then (Some y) (\<lambda>it. returns (it\<lparr>prev_entries_idx := int (length (prev_entries it)) - 1\<rparr>))"
        unfolding eq r(1) run_then_simps option.case r(2) y(1) ..
      then show ?thesis using y(2) by (cases y) (auto simp: went_back_def db_bounded_def DataBlock_Valid_def)
    next
      case none: False
      show ?thesis
      proof (cases "restart_before ?it ?o (di_restart_index it)")
        case (Inr o')
        then show ?thesis using none b' eq
          by (cases o'; cases "SeekToRestartPoint (the o') ?it") (auto simp: went_back_def db_bounded_def DataBlock_Valid_def)
      qed (simp add: eq)
    qed
  qed
qed

lemma back_loop_returns:
  "db_bounded it \<Longrightarrow> returns_bounded (back_loop icmp target it)"
proof (induction "di_current it" arbitrary: it rule: less_induct)
  case less
  show ?case
  proof (cases "DataBlock_Valid it")
    case True
    obtain y where y: "DataBlock_Prev it = Some y" "\<forall>it'. y = Inr it' \<longrightarrow> went_back (di_current it) it'"
      using DataBlock_Prev_back [OF less.prems] by blast
    have "returns_bounded (back_loop icmp target it')" if "y = Inr it'" for it'
    proof (cases "DataBlock_Valid it'")
      case True
      then show ?thesis using less.hyps y(2) that by (auto simp: went_back_def)
    next
      case False
      then show ?thesis using y(2) that by (subst back_loop.simps) (auto simp: went_back_def)
    qed
    then show ?thesis using y(1) less.prems by (subst back_loop.simps) (auto split: sum.split)
  qed (use less.prems in \<open>simp add: back_loop.simps\<close>)
qed

lemma binary_seek_then:
  assumes "db_bounded it" and "di_data it \<noteq> None" and "\<And>it. db_bounded it \<Longrightarrow> returns_bounded (f it)"
  shows "returns_bounded (run_then (BinarySeek icmp target 0 (nat ((int (di_num_restarts it) - 1) mod 2 ^ 32)) it) (\<lambda>(index, it).
    case index of None \<Rightarrow> returns it | Some index \<Rightarrow> run_then (Some (SeekToRestartPoint index it)) f))"
proof -
  have "int (di_num_restarts it) - 1 < 2 ^ 32" "0 \<le> int (di_num_restarts it) - 1" using assms(1,2) by (auto simp: db_bounded_def)
  then have "nat ((int (di_num_restarts it) - 1) mod 2 ^ 32) = di_num_restarts it - 1" by simp
  moreover have "0 + (di_num_restarts it - 1) + 1 < 2 ^ 32" using assms(1,2) by (auto simp: db_bounded_def)
  ultimately obtain y where "BinarySeek icmp target 0 (nat ((int (di_num_restarts it) - 1) mod 2 ^ 32)) it = Some y" "\<forall>j it'. y = Inr (j, it') \<longrightarrow> db_bounded it'"
    using BinarySeek_returns [OF assms(1), of 0 "di_num_restarts it - 1" icmp target] by auto
  then show ?thesis using SeekToRestartPoint_then [OF _ assms(3)] by (cases y) (auto split: option.splits)
qed

lemma io_step_bounded:
  assumes b: "db_bounded it"
  shows "returns_bounded (io_step (DataBlock_ops icmp) x it)"
proof (cases "x = OpNext \<or> x = OpPrev \<or> di_data it \<noteq> None")
  case False
  then show ?thesis using b by (cases x) (simp_all add: DataBlock_SeekToFirst_def DataBlock_SeekToLast_def DataBlock_Seek_def DataBlock_SeekForPrev_def)
next
  case True
  have parse: "returns_bounded (Some (and_then (ParseNextDataKey None it) (\<lambda>(_, it). Inr it)))" if "db_bounded it" for it
    using parse_bounded(1) [of it _ _] that by (cases "ParseNextDataKey None it") (auto simp: returns_bounded_def)
  show ?thesis
  proof (cases x)
    case OpSeekToFirst
    have "DataBlock_SeekToFirst it = run_then (Some (SeekToRestartPoint 0 it)) (\<lambda>it. Some (and_then (ParseNextDataKey None it) (\<lambda>(_, it). Inr it)))"
      using True OpSeekToFirst by (cases "SeekToRestartPoint 0 it") (auto simp: DataBlock_SeekToFirst_def)
    then show ?thesis using OpSeekToFirst SeekToRestartPoint_then [OF b parse] by simp
  next
    case OpSeekToLast
    then show ?thesis using b SeekToRestartPoint_then [where f = "run_loop last_turn", OF b last_turn_returns] by (simp add: DataBlock_SeekToLast_def)
  next
    case (OpSeek t)
    then show ?thesis using b binary_seek_then [where f = "run_loop (seek_turn icmp t)", OF b _ seek_turn_returns] by (simp add: DataBlock_Seek_def)
  next
    case (OpSeekForPrev t)
    let ?f = "\<lambda>it. run_then (run_loop (seek_turn icmp t) it) (\<lambda>it. if \<not> DataBlock_Valid it then DataBlock_SeekToLast it else back_loop icmp t it)"
    have "returns_bounded (DataBlock_SeekToLast it)" if "db_bounded it" for it
      using that SeekToRestartPoint_then [where f = "run_loop last_turn", OF that last_turn_returns] by (simp add: DataBlock_SeekToLast_def)
    then have f: "returns_bounded (?f it)" if "db_bounded it" for it
      using that back_loop_returns by (intro returns_bounded_then [OF seek_turn_returns]) simp_all
    have "DataBlock_SeekForPrev icmp t it = run_then (BinarySeek icmp t 0 (nat ((int (di_num_restarts it) - 1) mod 2 ^ 32)) it) (\<lambda>(index, it).
        case index of None \<Rightarrow> returns it | Some index \<Rightarrow> run_then (Some (SeekToRestartPoint index it)) ?f)"
      using True OpSeekForPrev
      by (auto simp: DataBlock_SeekForPrev_def run_then_def split: option.splits sum.splits prod.splits intro!: arg_cong2 [where f = run_then])
    then show ?thesis using OpSeekForPrev True binary_seek_then [OF b _ f] by simp
  next
    case OpNext
    then show ?thesis using parse [OF b] by (simp add: DataBlock_Next_def)
  next
    case OpPrev
    then show ?thesis using DataBlock_Prev_back [OF b] by (auto simp: returns_bounded_def went_back_def)
  qed
qed

lemma io_run_bounded: "db_bounded it \<Longrightarrow> returns_bounded (io_run (DataBlock_ops icmp) xs it)"
  by (induction xs arbitrary: it) (auto intro: returns_bounded_then io_step_bounded)

lemma open_block_bounded:
  assumes "open_block c s = Inr it" and "length c < 2 ^ 32"
  shows "db_bounded it"
proof -
  obtain b where b: "Block_new c s = Inr b" "NewDataBlockIterator b = Inr it" using assms(1) by (auto simp: open_block_def and_then_Inr)
  have u: "unat w < 2 ^ 32" for w :: u32 using unat_less_exp [of w] by simp
  have m: "nat (x mod 2 ^ 32) < 2 ^ 32" for x :: int by (simp add: nat_less_iff)
  have nr: "NumRestarts d n = Inr r \<Longrightarrow> r < 2 ^ 32" for d n r using u by (auto simp: NumRestarts_def Let_def split: if_splits)
  have "bl_data b = c \<and> restart_offset b < 2 ^ 32 \<and> bl_num_restarts b < 2 ^ 32"
  proof (cases "length c < 4")
    case True
    then show ?thesis using b(1) by (auto simp: Block_new_def)
  next
    case False
    obtain r where r: "NumRestarts c (length c) = Inr r" using b(1) False by (auto simp: Block_new_def Let_def and_then_Inr)
    obtain t where t: "IndexType c (length c) = Inr t" using b(1) False r by (auto simp: Block_new_def Let_def and_then_Inr)
    show ?thesis
    proof (cases t)
      case kDataBlockBinarySearch
      then show ?thesis using b(1) False r t nr [OF r] m by (auto simp: Block_new_def Let_def)
    next
      case kDataBlockBinaryAndHash
      then show ?thesis using b(1) False r t nr [OF r] m by (auto simp: Block_new_def Let_def and_then_Inr split: if_splits)
    qed
  qed
  then show ?thesis using b(2) assms(2)
    by (auto simp: NewDataBlockIterator_def DataBlock_Invalidate_def DataBlock_Initialize_def DataBlockIter_new_def db_bounded_def split: if_splits)
qed

section \<open>Properties\<close>

text \<open>C15: an iterator on a data block is a cursor on its entries. The block is built from entries in increasing order of their
  keys, with any restart interval, with or without delta encoding, and opened again. Then every sequence of \<open>SeekToFirst\<close>,
  \<open>SeekToLast\<close>, \<open>Seek\<close>, \<open>SeekForPrev\<close>, \<open>Next\<close> and \<open>Prev\<close> (also where \<open>Prev\<close> answers from its cache) returns and leaves
  the iterator on the entry at which the cursor stands.\<close>

theorem DataBlockIter_refines_cursor:
  assumes "three_way icmp" "sorted_keys icmp (map fst es)" "0 < k" "length (block_bytes k dl es) < 2 ^ 32"
  shows "\<exists>contents it. build_block k dl es = Inr contents \<and> open_block contents kDisableGlobalSequenceNumber = Inr it
    \<and> (case cursor_run icmp es xs None of
         Inl e \<Rightarrow> io_run (DataBlock_ops icmp) xs it = fails e
       | Inr q \<Rightarrow> \<exists>it'. io_run (DataBlock_ops icmp) xs it = returns it' \<and> io_reads (DataBlock_ops icmp) es it' q)"
proof -
  have ok: "data_block_ok k dl es" using assms(3,4) by (simp add: data_block_ok_def)
  obtain it where it: "open_block (block_bytes k dl es) kDisableGlobalSequenceNumber = Inr it" "rests_at k dl es (-1) it"
    using open_block_rests [OF ok] by blast
  have "follows (DataBlock_ops icmp) db_entries db_pos db_ok es it None"
    using db_okI [OF ok it(2)] rests_at_Valid [OF it(2)] by (simp add: follows_def)
  then show ?thesis
    using it(1) build_block_bytes [OF ok] guarded_iterator.io_run_follows [OF DataBlock_guarded_iterator [OF assms(1)] assms(2)] by blast
qed

text \<open>C27: whatever the contents of a block are, the operations of its iterator return. For any bytes that open as a block and
  any sequence of operations, each of them ends: with a result, with a corruption in the status, with a failed assertion or
  with a read outside the block, but never in a loop without end.\<close>

theorem block_operations_return:
  assumes "open_block contents global_seqno = Inr it" "length contents < 2 ^ 32"
  shows "\<exists>y. io_run (DataBlock_ops icmp) xs it = Some y"
  using io_run_bounded [OF open_block_bounded [OF assms], of icmp xs] by (auto simp: returns_bounded_def)

text \<open>C30: the fields of the iterator stay within their C++ types. Whatever the contents, after every sequence of operations the
  offsets and restart indices, the cached offsets included, fit into \<open>uint32_t\<close>, the restart index is at most the number of
  restart points, and \<open>prev_entries_idx_\<close> is -1 or an index of the cache, as \<open>Prev\<close> asserts.\<close>

theorem block_iterator_types:
  assumes "open_block contents global_seqno = Inr it" "length contents < 2 ^ 32" "io_run (DataBlock_ops icmp) xs it = returns it'"
  shows "di_current it' < 2 ^ 32 \<and> di_restarts it' < 2 ^ 32 \<and> di_num_restarts it' < 2 ^ 32 \<and> di_restart_index it' \<le> di_num_restarts it'
    \<and> list_all (\<lambda>e. ce_offset e < 2 ^ 32) (prev_entries it')
    \<and> - 1 \<le> prev_entries_idx it' \<and> (prev_entries_idx it' = - 1 \<or> prev_entries_idx it' < int (length (prev_entries it')))"
  using io_run_bounded [OF open_block_bounded [OF assms(1,2)], of icmp xs] assms(3)
  by (auto simp: returns_bounded_def db_bounded_def list_all_iff)

text \<open>C34: the check of the restart count wraps around. A footer that announces \<open>2 ^ 30\<close> restart points passes the check, because
  four times their number is reduced to 32 bits, and the block opens without an error; then \<open>SeekToLast\<close> and \<open>Seek\<close> read
  a restart point outside the block.\<close>

theorem bad_restart_count_accepted:
  assumes "8 \<le> length contents" "length contents < 2 ^ 32" "DecodeFixed32 kLittleEndian (drop (length contents - 4) contents) = 2 ^ 30"
  shows "\<exists>it. open_block contents global_seqno = Inr it \<and> di_status it = OK
    \<and> DataBlock_SeekToLast it = fails OutOfBounds \<and> DataBlock_Seek icmp target it = fails OutOfBounds"
proof -
  let ?n = "length contents"
  let ?b = "\<lparr>bl_data = contents, bl_size = ?n, restart_offset = ?n - 4, bl_num_restarts = 2 ^ 30, bl_global_seqno = global_seqno\<rparr>"
  have up: "UnPackIndexTypeAndNumRestarts (2 ^ 30) = (kDataBlockBinarySearch, 2 ^ 30)" by (rule footer_small) simp
  have nr: "NumRestarts contents ?n = Inr (2 ^ 30)" using assms(1) by (simp only: NumRestarts_def assms(3) up Let_def) simp
  have ty: "IndexType contents ?n = Inr kDataBlockBinarySearch" using assms(1) by (simp only: IndexType_def assms(3) up) simp
  have "(int ?n - int ((1 + 2 ^ 30) mod 2 ^ 32) * 4) mod 2 ^ 32 = (int (?n - 4) - 2 ^ 32) mod 2 ^ 32" using assms(1) by simp
  also have "\<dots> = int (?n - 4) mod 2 ^ 32" by (simp only: minus_mod_self2)
  also have "\<dots> = int (?n - 4)" using assms(1,2) by (intro mod_pos_pos_trivial) simp_all
  finally have "nat ((int ?n - int ((1 + 2 ^ 30) mod 2 ^ 32) * 4) mod 2 ^ 32) = ?n - 4" by (simp only: nat_int)
  moreover have "\<not> ?n < 4" "\<not> ?n - 4 > ?n - 4" using assms(1) by simp_all
  ultimately have b: "Block_new contents global_seqno = Inr ?b"
    by (simp only: Block_new_def Let_def nr ty and_then_simps DataBlockIndexType.case if_False) (simp only: Block.simps)
  obtain it where it: "open_block contents global_seqno = Inr it" "di_data it = Some contents" "di_restarts it = ?n - 4"
      "di_num_restarts it = 2 ^ 30" "di_status it = OK"
    using b assms(1) by (simp add: open_block_def NewDataBlockIterator_def DataBlock_Initialize_def DataBlockIter_new_def)
  have rp: "GetRestartPoint j it = Inl OutOfBounds" if "1 \<le> j" "j < 2 ^ 30" for j
    using that it assms(1) by (simp add: GetRestartPoint_def block_data_def slice_at_def)
  have "binary_turn icmp target it (0, 2 ^ 30 - 1, False) = Inl OutOfBounds" using rp [of "2 ^ 29"] by (simp add: binary_turn_def)
  then have "DataBlock_Seek icmp target it = fails OutOfBounds"
    by (simp add: DataBlock_Seek_def it(2,4) BinarySeek_def run_loop.simps)
  moreover have "DataBlock_SeekToLast it = fails OutOfBounds"
    using rp [of "2 ^ 30 - 1"] by (simp add: DataBlock_SeekToLast_def it(2,4) SeekToRestartPoint_def)
  ultimately show ?thesis using it by blast
qed

text \<open>A key in a file with a global sequence number: what is read of it goes on from the key before as it stands in the buffer,
  its trailer replaced.\<close>

lemma OwnKey_user_key: "OwnKey k = Inr k' \<Longrightarrow> ik_is_user_key k' = ik_is_user_key k"
  by (auto simp: OwnKey_def Let_def Reserve_def EnlargeBuffer_user_key split: if_splits sum.splits dest!: memcpy_user_key)

lemma apply_global_seqno_ok:
  assumes k: "IterKey_ok (di_key it)" "\<not> ik_is_user_key (di_key it)" "GetKey (di_key it) = Inr key" "IsKeyPinned (di_key it) = di_key_pinned it"
    and raw: "8 \<le> length key" "GetInternalKeySeqno key = 0" "ExtractValueType key \<in> {kTypeValue, kTypeMerge, kTypeDeletion, kTypeRangeDeletion}"
    and s: "di_global_seqno it \<noteq> kDisableGlobalSequenceNumber"
  shows "\<exists>k. apply_global_seqno it = Inr (it\<lparr>di_key := k, di_key_pinned := False\<rparr>) \<and> IterKey_ok k \<and> \<not> ik_is_user_key k
    \<and> GetKey k = Inr (UpdateInternalKey key (di_global_seqno it) (ExtractValueType key))"
proof -
  have "\<exists>k1. (if di_key_pinned it then OwnKey (di_key it) else Inr (di_key it)) = Inr k1 \<and> IterKey_ok k1 \<and> GetKey k1 = Inr key \<and> \<not> IsKeyPinned k1
      \<and> \<not> ik_is_user_key k1"
    using OwnKey_ok [OF k(1,3)] OwnKey_user_key [of "di_key it"] k by (cases "di_key_pinned it") auto
  then obtain k1 where k1: "(if di_key_pinned it then OwnKey (di_key it) else Inr (di_key it)) = Inr k1" "IterKey_ok k1" "GetKey k1 = Inr key"
      "\<not> IsKeyPinned k1" "\<not> ik_is_user_key k1"
    by blast
  obtain k2 where k2: "IterKey_UpdateInternalKey (di_global_seqno it) (ExtractValueType key) k1 = Inr k2" "IterKey_ok k2"
      "GetKey k2 = Inr (UpdateInternalKey key (di_global_seqno it) (ExtractValueType key))"
    using IterKey_UpdateInternalKey_ok [OF k1(2,3,4) raw(1)] by blast
  have "\<not> ik_is_user_key k2" using k2(1) k1(5) by (auto simp: IterKey_UpdateInternalKey_def split: if_splits dest!: memcpy_user_key)
  moreover have "apply_global_seqno it = Inr (it\<lparr>di_key := k2, di_key_pinned := False\<rparr>)"
    using k raw s k1(1) k2(1) by (simp add: apply_global_seqno_def Let_def)
  ultimately show ?thesis using k2 by blast
qed

lemma parse_with_seqno:
  assumes e: "NextEntryOffset it = Inr c" "di_data it = Some d" "c < di_restarts it" "DecodeEntry d c (di_restarts it) = Inr (Some (sh, ns, vl, p))"
    and k: "IterKey_ok (di_key it)" "\<not> ik_is_user_key (di_key it)" "GetKey (di_key it) = Inr old" "sh \<le> length old"
    and raw: "p + ns \<le> length d" "raw = take sh old @ take ns (drop p d)" "8 \<le> length raw" "GetInternalKeySeqno raw = 0" "ExtractValueType raw = t"
      "t \<in> {kTypeValue, kTypeMerge, kTypeDeletion, kTypeRangeDeletion}"
    and s: "di_global_seqno it \<noteq> kDisableGlobalSequenceNumber" and one: "di_num_restarts it = 1"
  shows "\<exists>k. ParseNextDataKey None it = Inr (True, it\<lparr>di_current := c, di_key := k, di_key_pinned := False, di_value := Some (p + ns, vl)\<rparr>)
    \<and> IterKey_ok k \<and> \<not> ik_is_user_key k \<and> GetKey k = Inr (UpdateInternalKey raw (di_global_seqno it) t)"
proof -
  have "\<exists>k. (if sh = 0 then and_then (slice_at d p ns) (\<lambda>x. SetKey x False (di_key it)) else TrimAppend sh (drop p d) ns (di_key it)) = Inr k
      \<and> IterKey_ok k \<and> \<not> ik_is_user_key k \<and> GetKey k = Inr raw \<and> IsKeyPinned k = (sh = 0)"
  proof (cases "sh = 0")
    case True
    then show ?thesis using SetKeyImpl_ok [of "di_key it" raw False] raw k by (auto simp: slice_at_def SetKey_def IterKey_ok_def)
  next
    case False
    have "ns \<le> length (drop p d)" using raw(1) by simp
    then show ?thesis using False TrimAppend_ok [OF k(1,3,4), of ns "drop p d"] TrimAppend_user_key [of sh "drop p d" ns "di_key it"] raw(2) k(2) by auto
  qed
  then obtain k1 where k1: "(if sh = 0 then and_then (slice_at d p ns) (\<lambda>x. SetKey x False (di_key it)) else TrimAppend sh (drop p d) ns (di_key it)) = Inr k1"
      "IterKey_ok k1" "\<not> ik_is_user_key k1" "GetKey k1 = Inr raw" "IsKeyPinned k1 = (sh = 0)"
    by blast
  let ?it = "it\<lparr>di_current := c, di_key := k1, di_key_pinned := (sh = 0)\<rparr>"
  obtain k2 where k2: "apply_global_seqno ?it = Inr (?it\<lparr>di_key := k2, di_key_pinned := False\<rparr>)" "IterKey_ok k2" "\<not> ik_is_user_key k2"
      "GetKey k2 = Inr (UpdateInternalKey raw (di_global_seqno it) t)"
    using apply_global_seqno_ok [of ?it raw] k1 raw s by auto
  have adv: "advance_restart x r = Inr r" if "di_num_restarts x = 1" for x r using that by (simp add: advance_restart.simps)
  have "\<not> ik_key_size (di_key it) < sh" using GetKey_size [OF k(3)] k(4) by simp
  moreover have "block_data it = Inr d" using e(2) by (simp add: block_data_def)
  ultimately have "ParseNextDataKey None it = Inr (True, it\<lparr>di_current := c, di_key := k2, di_key_pinned := False, di_value := Some (p + ns, vl)\<rparr>)"
    using ParseNextDataKey_entry [OF e(1) _ e(3,4)] k1(1) k2(1) one adv by (cases "sh = 0") simp_all
  then show ?thesis using k2 by blast
qed

text \<open>C35: a global sequence number garbles delta-encoded keys. When the file has a global sequence number, the trailer of each
  key is overwritten in the buffer that the next key shares its prefix with. So if the shared prefix goes beyond the user
  key, the next key is put together with a byte of the sequence number: here user key \<open>[97, 1, 0]\<close> is read as
  \<open>[97, 1, 5]\<close>, and no assertion fails.\<close>

theorem global_seqno_garbles_keys:
  "\<exists>contents it it'. build_block 16 True [([97, 1, 0, 0, 0, 0, 0, 0, 0], []), ([97, 1, 0, 1, 0, 0, 0, 0, 0, 0, 0], [])] = Inr contents
     \<and> open_block contents 5 = Inr it
     \<and> io_run (DataBlock_ops Bytewise_Compare) [OpSeekToFirst, OpNext] it = returns it'
     \<and> DataBlock_Valid it' \<and> di_status it' = OK \<and> DataBlock_key it' = Inr [97, 1, 5, 1, 5, 0, 0, 0, 0, 0, 0]"
proof -
  let ?es = "[([97, 1, 0, 0, 0, 0, 0, 0, 0], []), ([97, 1, 0, 1, 0, 0, 0, 0, 0, 0, 0], [])] :: (slice \<times> slice) list"
  let ?k1 = "[97, 1, 0, 0, 0, 0, 0, 0, 0] :: slice" and ?k2 = "[97, 1, 5, 1, 0, 0, 0, 0, 0, 0, 0] :: slice"
  let ?B = "[0, 9, 0, 97, 1, 0, 0, 0, 0, 0, 0, 0, 3, 8, 0, 1, 0, 0, 0, 0, 0, 0, 0, 0, 0, 0, 0, 1, 0, 0, 0] :: slice"
  have b: "build_block 16 True ?es = Inr ?B" by code_simp
  have keys: "GetInternalKeySeqno ?k1 = 0" "ExtractValueType ?k1 = kTypeValue" "GetInternalKeySeqno ?k2 = 0" "ExtractValueType ?k2 = kTypeValue"
      "UpdateInternalKey ?k1 5 kTypeValue = [97, 1, 5, 0, 0, 0, 0, 0, 0]" "UpdateInternalKey ?k2 5 kTypeValue = [97, 1, 5, 1, 5, 0, 0, 0, 0, 0, 0]"
      "(5 :: u64) \<noteq> kDisableGlobalSequenceNumber" "DecodeFixed32 kLittleEndian [1, 0, 0, 0] = 1" "DecodeFixed32 kLittleEndian [0, 0, 0, 0] = 0"
    by code_simp+
  have "Block_new ?B 5 = Inr \<lparr>bl_data = ?B, bl_size = length ?B, restart_offset = length ?B - (1 + 1) * 4, bl_num_restarts = 1, bl_global_seqno = 5\<rparr>"
    by (rule Block_new_search) (simp_all add: keys)
  then obtain it where it: "open_block ?B 5 = Inr it" "di_data it = Some ?B" "di_restarts it = 23" "di_num_restarts it = 1" "di_global_seqno it = 5"
      "di_status it = OK" "di_key it = SetIsUserKey False IterKey_init"
    by (simp add: open_block_def NewDataBlockIterator_def DataBlock_Initialize_def DataBlockIter_new_def)
  have k0: "IterKey_ok (di_key it)" "\<not> ik_is_user_key (di_key it)"
    by (simp_all add: it(7) SetIsUserKey_def IterKey_ok_def IterKey_init_def GetKey_def read_key_def buf_ok_def ik_buf_def new_bytes_def)
  let ?it1 = "it\<lparr>di_key := IterKey_Clear (di_key it), di_restart_index := 0, di_value := Some (0, 0)\<rparr>"
  have s: "SeekToRestartPoint 0 it = Inr ?it1" by (simp add: SeekToRestartPoint_def GetRestartPoint_def block_data_def slice_at_def it keys)
  obtain ka where ka: "ParseNextDataKey None ?it1 = Inr (True, ?it1\<lparr>di_current := 0, di_key := ka, di_key_pinned := False, di_value := Some (3 + 9, 0)\<rparr>)"
      "IterKey_ok ka" "\<not> ik_is_user_key ka" "GetKey ka = Inr [97, 1, 5, 0, 0, 0, 0, 0, 0]"
    using parse_with_seqno [of ?it1 0 ?B 0 9 0 3 "[]" ?k1 kTypeValue] it k0 IterKey_Clear_ok [OF k0(1)] keys
    by (auto simp: NextEntryOffset_def DecodeEntry_def slice_at_def decode_sizes_def IterKey_Clear_def)
  let ?it2 = "?it1\<lparr>di_current := 0, di_key := ka, di_key_pinned := False, di_value := Some (3 + 9, 0)\<rparr>"
  obtain kb where kb: "ParseNextDataKey None ?it2 = Inr (True, ?it2\<lparr>di_current := 12, di_key := kb, di_key_pinned := False, di_value := Some (15 + 8, 0)\<rparr>)"
      "GetKey kb = Inr [97, 1, 5, 1, 5, 0, 0, 0, 0, 0, 0]"
    using parse_with_seqno [of ?it2 12 ?B 3 8 0 15 "[97, 1, 5, 0, 0, 0, 0, 0, 0]" ?k2 kTypeValue] it ka keys
    by (auto simp: NextEntryOffset_def DecodeEntry_def slice_at_def decode_sizes_def)
  have "DataBlock_SeekToFirst it = returns ?it2" using s ka(1) it(2) by (simp add: DataBlock_SeekToFirst_def)
  moreover have "DataBlock_Valid ?it2" by (simp add: DataBlock_Valid_def it)
  ultimately have "io_run (DataBlock_ops Bytewise_Compare) [OpSeekToFirst, OpNext] it
      = returns (?it2\<lparr>di_current := 12, di_key := kb, di_key_pinned := False, di_value := Some (15 + 8, 0)\<rparr>)"
    using kb(1) by (simp add: DataBlock_Next_def)
  then show ?thesis using b it kb(2) by (auto simp: DataBlock_Valid_def DataBlock_key_def)
qed

theorem DataBlockIter_refines_cursor_witness:
  "\<exists>contents it it'. build_block 2 True [([1, 2], [7]), ([1, 2, 3], [8]), ([1, 4], [9])] = Inr contents
     \<and> open_block contents kDisableGlobalSequenceNumber = Inr it
     \<and> io_run (DataBlock_ops Bytewise_Compare) [OpSeek [1, 3], OpPrev, OpPrev] it = returns it'
     \<and> DataBlock_key it' = Inr [1, 2] \<and> DataBlock_value it' = Inr [7]"
proof -
  let ?es = "[([1, 2], [7]), ([1, 2, 3], [8]), ([1, 4], [9])] :: (slice \<times> slice) list" and ?xs = "[OpSeek [1, 3], OpPrev, OpPrev]"
  have "sorted_keys Bytewise_Compare (map fst ?es)" "length (block_bytes 2 True ?es) = 29" by code_simp+
  then have "\<exists>contents it. build_block 2 True ?es = Inr contents \<and> open_block contents kDisableGlobalSequenceNumber = Inr it
    \<and> (case cursor_run Bytewise_Compare ?es ?xs None of
         Inl e \<Rightarrow> io_run (DataBlock_ops Bytewise_Compare) ?xs it = fails e
       | Inr q \<Rightarrow> \<exists>it'. io_run (DataBlock_ops Bytewise_Compare) ?xs it = returns it' \<and> io_reads (DataBlock_ops Bytewise_Compare) ?es it' q)"
    by (intro DataBlockIter_refines_cursor [OF bytewise.three_way_axioms]) simp_all
  moreover have "cursor_run Bytewise_Compare ?es ?xs None = Inr (Some 0)" by code_simp
  ultimately show ?thesis by (auto simp: io_reads_def cursor_valid_def cursor_at_def simp del: io_run.simps)
qed

theorem block_operations_return_witness:
  "\<exists>it y. open_block [200, 200, 200, 200, 1, 0, 0, 0] 0 = Inr it \<and> io_run (DataBlock_ops Bytewise_Compare) [OpSeek [1], OpSeekToLast, OpPrev] it = Some y"
proof -
  have "DecodeFixed32 kLittleEndian [1, 0, 0, 0] = 1" by code_simp
  then have "Block_new [200, 200, 200, 200, 1, 0, 0, 0] 0 = Inr \<lparr>bl_data = [200, 200, 200, 200, 1, 0, 0, 0], bl_size = 8, restart_offset = 0,
      bl_num_restarts = 1, bl_global_seqno = 0\<rparr>"
    using Block_new_search [of "[200, 200, 200, 200, 1, 0, 0, 0]" 1 0] by simp
  then have "\<exists>it. open_block [200, 200, 200, 200, 1, 0, 0, 0] 0 = Inr it"
    by (simp add: open_block_def NewDataBlockIterator_def DataBlock_Initialize_def DataBlockIter_new_def)
  then obtain it where it: "open_block [200, 200, 200, 200, 1, 0, 0, 0] 0 = Inr it" by blast
  show ?thesis using it block_operations_return [OF it, of Bytewise_Compare "[OpSeek [1], OpSeekToLast, OpPrev]"] by auto
qed

theorem block_iterator_types_witness:
  "\<exists>it it'. open_block [200, 200, 200, 200, 1, 0, 0, 0] 0 = Inr it \<and> io_run (DataBlock_ops Bytewise_Compare) [OpSeekToFirst] it = returns it'
    \<and> di_current it' < 2 ^ 32 \<and> di_restart_index it' \<le> di_num_restarts it'"
proof -
  let ?B = "[200, 200, 200, 200, 1, 0, 0, 0] :: slice"
  have d: "DecodeFixed32 kLittleEndian [1, 0, 0, 0] = 1" by code_simp
  then have "Block_new ?B 0 = Inr \<lparr>bl_data = ?B, bl_size = 8, restart_offset = 0, bl_num_restarts = 1, bl_global_seqno = 0\<rparr>"
    using Block_new_search [of ?B 1 0] by simp
  then obtain it where it: "open_block ?B 0 = Inr it" "di_data it = Some ?B" "di_restarts it = 0" "di_num_restarts it = 1"
    by (simp add: open_block_def NewDataBlockIterator_def DataBlock_Initialize_def DataBlockIter_new_def)
  have "\<exists>it'. io_run (DataBlock_ops Bytewise_Compare) [OpSeekToFirst] it = returns it'"
    using it by (simp add: DataBlock_SeekToFirst_def SeekToRestartPoint_def GetRestartPoint_def block_data_def slice_at_def
        ParseNextDataKey_def NextEntryOffset_def)
  then obtain it' where it': "io_run (DataBlock_ops Bytewise_Compare) [OpSeekToFirst] it = returns it'" by blast
  show ?thesis using block_iterator_types [OF it(1) _ it'] it(1) it' by auto
qed

theorem bad_restart_count_accepted_witness:
  "\<exists>it. open_block [0, 0, 0, 0, 0, 0, 0, 64] 0 = Inr it \<and> di_status it = OK \<and> DataBlock_SeekToLast it = fails OutOfBounds
    \<and> DataBlock_Seek Bytewise_Compare [1] it = fails OutOfBounds"
proof (rule bad_restart_count_accepted)
  show "DecodeFixed32 kLittleEndian (drop (length ([0, 0, 0, 0, 0, 0, 0, 64] :: slice) - 4) [0, 0, 0, 0, 0, 0, 0, 64]) = 2 ^ 30" by code_simp
qed simp_all

end
