(* ===== verification/LevelIterators.thy ===== *)
theory LevelIterators
  imports DataBlocks VersionStorage
begin

text \<open>
  The iterator of a level below level 0 (class \<open>LevelIterator\<close> of \<open>db/version_set.cc\<close>), which walks through the files of
  the level one after the other and opens them when it comes to them, with the search for a file by key.

  The iterator of a file comes from the table cache. It is a parameter: \<open>lv_NewIterator\<close> gives a new iterator for a
  file, in the state of some implementation \<open>ops\<close> of the iterator interface. The data blocks of \<open>DataBlocks\<close> are
  one. \<open>file_iter_\<close> is \<open>None\<close> where the sources have a null pointer. Sampling, histograms and pinning are left out.
\<close>

section \<open>Definitions\<close>

subsection \<open>The iterator\<close>

record 's LevelIterator =
  lv_flevel :: "FileMetaData list"
  lv_NewIterator :: "FileMetaData \<Rightarrow> 's"
  iterate_upper_bound :: "slice option"
  lv_file_index :: nat
  lv_file_iter :: "'s IteratorWrapper option"

definition LevelIterator_new :: "FileMetaData list \<Rightarrow> (FileMetaData \<Rightarrow> 's) \<Rightarrow> slice option \<Rightarrow> 's LevelIterator result" where
  "LevelIterator_new flevel new_iterator bound =
     (if flevel = [] then Inl AssertFailed
      else Inr \<lparr>lv_flevel = flevel, lv_NewIterator = new_iterator, iterate_upper_bound = bound, lv_file_index = length flevel, lv_file_iter = None\<rparr>)"

definition Level_Valid :: "'s LevelIterator \<Rightarrow> bool" where
  "Level_Valid s \<longleftrightarrow> (case lv_file_iter s of None \<Rightarrow> False | Some w \<Rightarrow> iw_valid w)"

definition Level_key :: "'s LevelIterator \<Rightarrow> slice result" where
  "Level_key s = (case lv_file_iter s of Some w \<Rightarrow> if iw_valid w then Inr (iw_key w) else Inl AssertFailed | None \<Rightarrow> Inl AssertFailed)"

definition Level_value :: "'s InternalIterator \<Rightarrow> 's LevelIterator \<Rightarrow> slice result" where
  "Level_value ops s =
     (case lv_file_iter s of Some w \<Rightarrow> if iw_valid w then io_value ops (iw_iter w) else Inl AssertFailed | None \<Rightarrow> Inl AssertFailed)"

definition Level_status :: "'s InternalIterator \<Rightarrow> 's LevelIterator \<Rightarrow> Status" where
  "Level_status ops s = (case lv_file_iter s of Some w \<Rightarrow> io_status ops (iw_iter w) | None \<Rightarrow> OK)"

definition file_smallest_key :: "nat \<Rightarrow> 's LevelIterator \<Rightarrow> slice result" where
  "file_smallest_key i s = (if i < length (lv_flevel s) then Inr (fm_smallest (lv_flevel s ! i)) else Inl AssertFailed)"

definition KeyReachedUpperBound :: "(slice \<Rightarrow> slice \<Rightarrow> int) \<Rightarrow> slice \<Rightarrow> 's LevelIterator \<Rightarrow> bool" where
  "KeyReachedUpperBound ucmp internal_key s \<longleftrightarrow>
     (case iterate_upper_bound s of None \<Rightarrow> False | Some bound \<Rightarrow> ucmp (ExtractUserKey internal_key) bound \<ge> 0)"

definition NewFileIterator :: "'s LevelIterator \<Rightarrow> 's result" where
  "NewFileIterator s = (if lv_file_index s < length (lv_flevel s) then Inr (lv_NewIterator s (lv_flevel s ! lv_file_index s)) else Inl AssertFailed)"

definition SetFileIterator :: "'s InternalIterator \<Rightarrow> 's option \<Rightarrow> 's LevelIterator \<Rightarrow> 's LevelIterator run" where
  "SetFileIterator ops iter s =
     (case iter of
        None \<Rightarrow> returns (s\<lparr>lv_file_iter := None\<rparr>)
      | Some it \<Rightarrow> run_then (iw_Set ops it) (\<lambda>w. returns (s\<lparr>lv_file_iter := Some w\<rparr>)))"

definition InitFileIterator :: "'s InternalIterator \<Rightarrow> nat \<Rightarrow> 's LevelIterator \<Rightarrow> 's LevelIterator run" where
  "InitFileIterator ops new_file_index s =
     (if new_file_index \<ge> length (lv_flevel s) then SetFileIterator ops None (s\<lparr>lv_file_index := new_file_index\<rparr>)
      else if (case lv_file_iter s of None \<Rightarrow> False | Some w \<Rightarrow> io_status ops (iw_iter w) \<noteq> Incomplete) \<and> new_file_index = lv_file_index s
      then returns s
      else
        let s = s\<lparr>lv_file_index := new_file_index\<rparr>
        in run_then (Some (NewFileIterator s)) (\<lambda>it. SetFileIterator ops (Some it) s))"

text \<open>A call on \<open>file_iter_\<close> that is made if there is one.\<close>

definition move_file :: "'s InternalIterator \<Rightarrow> ('s \<Rightarrow> 's run) \<Rightarrow> 's LevelIterator \<Rightarrow> 's LevelIterator run" where
  "move_file ops f s =
     (case lv_file_iter s of
        None \<Rightarrow> returns s
      | Some w \<Rightarrow> run_then (iw_move ops f w) (\<lambda>w. returns (s\<lparr>lv_file_iter := Some w\<rparr>)))"

definition skips_forward :: "'s InternalIterator \<Rightarrow> 's LevelIterator \<Rightarrow> bool" where
  "skips_forward ops s \<longleftrightarrow>
     (case lv_file_iter s of
        None \<Rightarrow> True
      | Some w \<Rightarrow> \<not> iw_valid w \<and> io_status ops (iw_iter w) = OK \<and> \<not> io_IsOutOfBound ops (iw_iter w))"

definition skips_backward :: "'s InternalIterator \<Rightarrow> 's LevelIterator \<Rightarrow> bool" where
  "skips_backward ops s \<longleftrightarrow>
     (case lv_file_iter s of None \<Rightarrow> True | Some w \<Rightarrow> \<not> iw_valid w \<and> io_status ops (iw_iter w) = OK)"

partial_function (option) SkipEmptyFileForward ::
    "(slice \<Rightarrow> slice \<Rightarrow> int) \<Rightarrow> 's InternalIterator \<Rightarrow> 's LevelIterator \<Rightarrow> 's LevelIterator run" where
  [code]: "SkipEmptyFileForward ucmp ops s =
     (if \<not> skips_forward ops s then returns s
      else if lv_file_index s \<ge> length (lv_flevel s) - 1 then SetFileIterator ops None s
      else
        case file_smallest_key (lv_file_index s + 1) s of
          Inl e \<Rightarrow> fails e
        | Inr k \<Rightarrow>
            if KeyReachedUpperBound ucmp k s then SetFileIterator ops None s
            else
              case run_then (InitFileIterator ops (lv_file_index s + 1) s) (move_file ops (io_SeekToFirst ops)) of
                None \<Rightarrow> None
              | Some (Inl e) \<Rightarrow> fails e
              | Some (Inr s') \<Rightarrow> SkipEmptyFileForward ucmp ops s')"

partial_function (option) SkipEmptyFileBackward :: "'s InternalIterator \<Rightarrow> 's LevelIterator \<Rightarrow> 's LevelIterator run" where
  [code]: "SkipEmptyFileBackward ops s =
     (if \<not> skips_backward ops s then returns s
      else if lv_file_index s = 0 then SetFileIterator ops None s
      else
        case run_then (InitFileIterator ops (lv_file_index s - 1) s) (move_file ops (io_SeekToLast ops)) of
          None \<Rightarrow> None
        | Some (Inl e) \<Rightarrow> fails e
        | Some (Inr s') \<Rightarrow> SkipEmptyFileBackward ops s')"

definition Level_Seek ::
    "(slice \<Rightarrow> slice \<Rightarrow> int) \<Rightarrow> 's InternalIterator \<Rightarrow> slice \<Rightarrow> 's LevelIterator \<Rightarrow> 's LevelIterator run" where
  "Level_Seek ucmp ops target s =
     (let new_file_index = FindFile_level ucmp (lv_flevel s) target
      in run_then (InitFileIterator ops new_file_index s) (\<lambda>s.
         run_then (move_file ops (io_Seek ops target) s) (SkipEmptyFileForward ucmp ops)))"

definition Level_SeekForPrev ::
    "(slice \<Rightarrow> slice \<Rightarrow> int) \<Rightarrow> 's InternalIterator \<Rightarrow> slice \<Rightarrow> 's LevelIterator \<Rightarrow> 's LevelIterator run" where
  "Level_SeekForPrev ucmp ops target s =
     (let new_file_index = FindFile_level ucmp (lv_flevel s) target;
          new_file_index = (if new_file_index \<ge> length (lv_flevel s) then length (lv_flevel s) - 1 else new_file_index)
      in run_then (InitFileIterator ops new_file_index s) (\<lambda>s.
         if lv_file_iter s = None then returns s
         else run_then (move_file ops (io_SeekForPrev ops target) s) (SkipEmptyFileBackward ops)))"

definition Level_SeekToFirst :: "(slice \<Rightarrow> slice \<Rightarrow> int) \<Rightarrow> 's InternalIterator \<Rightarrow> 's LevelIterator \<Rightarrow> 's LevelIterator run" where
  "Level_SeekToFirst ucmp ops s =
     run_then (InitFileIterator ops 0 s) (\<lambda>s.
     run_then (move_file ops (io_SeekToFirst ops) s) (SkipEmptyFileForward ucmp ops))"

definition Level_SeekToLast :: "'s InternalIterator \<Rightarrow> 's LevelIterator \<Rightarrow> 's LevelIterator run" where
  "Level_SeekToLast ops s =
     run_then (InitFileIterator ops (length (lv_flevel s) - 1) s) (\<lambda>s.
     run_then (move_file ops (io_SeekToLast ops) s) (SkipEmptyFileBackward ops))"

definition Level_Next :: "(slice \<Rightarrow> slice \<Rightarrow> int) \<Rightarrow> 's InternalIterator \<Rightarrow> 's LevelIterator \<Rightarrow> 's LevelIterator run" where
  "Level_Next ucmp ops s =
     (if Level_Valid s then run_then (move_file ops (io_Next ops) s) (SkipEmptyFileForward ucmp ops) else fails AssertFailed)"

definition Level_Prev :: "'s InternalIterator \<Rightarrow> 's LevelIterator \<Rightarrow> 's LevelIterator run" where
  "Level_Prev ops s = (if Level_Valid s then run_then (move_file ops (io_Prev ops) s) (SkipEmptyFileBackward ops) else fails AssertFailed)"

definition Level_ops :: "(slice \<Rightarrow> slice \<Rightarrow> int) \<Rightarrow> 's InternalIterator \<Rightarrow> 's LevelIterator InternalIterator" where
  "Level_ops ucmp ops =
     \<lparr>io_Valid = Level_Valid, io_SeekToFirst = Level_SeekToFirst ucmp ops, io_SeekToLast = Level_SeekToLast ops,
      io_Seek = Level_Seek ucmp ops, io_SeekForPrev = Level_SeekForPrev ucmp ops, io_Next = Level_Next ucmp ops,
      io_Prev = Level_Prev ops, io_key = Level_key, io_value = Level_value ops, io_status = Level_status ops, io_IsOutOfBound = (\<lambda>_. False)\<rparr>"

subsection \<open>The iterators of a version\<close>

text \<open>A child of the merging iterator is the iterator of a table or of a level: the calls go to the one or to the other.\<close>

datatype ('s, 't) version_child = TableChild 's | LevelChild 't

definition on_child :: "('s \<Rightarrow> 'a) \<Rightarrow> ('t \<Rightarrow> 'a) \<Rightarrow> ('s, 't) version_child \<Rightarrow> 'a" where
  "on_child f g c = (case c of TableChild t \<Rightarrow> f t | LevelChild l \<Rightarrow> g l)"

definition move_child :: "('s \<Rightarrow> 's run) \<Rightarrow> ('t \<Rightarrow> 't run) \<Rightarrow> ('s, 't) version_child \<Rightarrow> ('s, 't) version_child run" where
  "move_child f g c =
     (case c of
        TableChild t \<Rightarrow> run_then (f t) (\<lambda>t. returns (TableChild t))
      | LevelChild l \<Rightarrow> run_then (g l) (\<lambda>l. returns (LevelChild l)))"

definition child_ops :: "'s InternalIterator \<Rightarrow> 't InternalIterator \<Rightarrow> ('s, 't) version_child InternalIterator" where
  "child_ops a b =
     \<lparr>io_Valid = on_child (io_Valid a) (io_Valid b), io_SeekToFirst = move_child (io_SeekToFirst a) (io_SeekToFirst b),
      io_SeekToLast = move_child (io_SeekToLast a) (io_SeekToLast b), io_Seek = (\<lambda>t. move_child (io_Seek a t) (io_Seek b t)),
      io_SeekForPrev = (\<lambda>t. move_child (io_SeekForPrev a t) (io_SeekForPrev b t)), io_Next = move_child (io_Next a) (io_Next b),
      io_Prev = move_child (io_Prev a) (io_Prev b), io_key = on_child (io_key a) (io_key b), io_value = on_child (io_value a) (io_value b),
      io_status = on_child (io_status a) (io_status b), io_IsOutOfBound = on_child (io_IsOutOfBound a) (io_IsOutOfBound b)\<rparr>"

definition version_ops :: "(slice \<Rightarrow> slice \<Rightarrow> int) \<Rightarrow> 's InternalIterator \<Rightarrow> ('s, 's LevelIterator) version_child InternalIterator" where
  "version_ops ucmp ops = child_ops ops (Level_ops ucmp ops)"

text \<open>The table cache is given the level with the file.\<close>

definition AddIteratorsForLevel ::
    "(slice \<Rightarrow> slice \<Rightarrow> int) \<Rightarrow> 's InternalIterator \<Rightarrow> (nat \<Rightarrow> FileMetaData \<Rightarrow> 's) \<Rightarrow> slice option \<Rightarrow> VersionStorageInfo \<Rightarrow> nat \<Rightarrow>
     ('s, 's LevelIterator) version_child MergeIteratorBuilder \<Rightarrow> ('s, 's LevelIterator) version_child MergeIteratorBuilder run" where
  "AddIteratorsForLevel ucmp ops new_iterator bound v level b =
     (if level \<ge> num_non_empty_levels v then returns b
      else if LevelFiles v level = [] then returns b
      else if level = 0
      then mib_AddAll (version_ops ucmp ops) (map (\<lambda>f. TableChild (new_iterator 0 f)) (LevelFiles v 0)) b
      else run_then (Some (LevelIterator_new (LevelFiles v level) (new_iterator level) bound)) (\<lambda>l.
           mib_AddIterator (version_ops ucmp ops) (LevelChild l) b))"

fun add_levels ::
    "(slice \<Rightarrow> slice \<Rightarrow> int) \<Rightarrow> 's InternalIterator \<Rightarrow> (nat \<Rightarrow> FileMetaData \<Rightarrow> 's) \<Rightarrow> slice option \<Rightarrow> VersionStorageInfo \<Rightarrow> nat list \<Rightarrow>
     ('s, 's LevelIterator) version_child MergeIteratorBuilder \<Rightarrow> ('s, 's LevelIterator) version_child MergeIteratorBuilder run" where
  "add_levels ucmp ops new_iterator bound v [] b = returns b"
| "add_levels ucmp ops new_iterator bound v (level # levels) b =
     (if is_nvmcf v \<and> level = 0 then add_levels ucmp ops new_iterator bound v levels b
      else run_then (AddIteratorsForLevel ucmp ops new_iterator bound v level b) (add_levels ucmp ops new_iterator bound v levels))"

definition Version_AddIterators ::
    "(slice \<Rightarrow> slice \<Rightarrow> int) \<Rightarrow> 's InternalIterator \<Rightarrow> (nat \<Rightarrow> FileMetaData \<Rightarrow> 's) \<Rightarrow> slice option \<Rightarrow> VersionStorageInfo \<Rightarrow>
     ('s, 's LevelIterator) version_child MergeIteratorBuilder \<Rightarrow> ('s, 's LevelIterator) version_child MergeIteratorBuilder run" where
  "Version_AddIterators ucmp ops new_iterator bound v b = add_levels ucmp ops new_iterator bound v [0..<num_non_empty_levels v] b"

section \<open>The entries of a level\<close>

definition level_data :: "('s \<Rightarrow> (slice \<times> slice) list) \<Rightarrow> 's LevelIterator \<Rightarrow> nat \<Rightarrow> (slice \<times> slice) list" where
  "level_data entries s i = entries (lv_NewIterator s (lv_flevel s ! i))"

definition level_entries :: "('s \<Rightarrow> (slice \<times> slice) list) \<Rightarrow> 's LevelIterator \<Rightarrow> (slice \<times> slice) list" where
  "level_entries entries s = concat (map (level_data entries s) [0..<length (lv_flevel s)])"

definition level_offset :: "('s \<Rightarrow> (slice \<times> slice) list) \<Rightarrow> 's LevelIterator \<Rightarrow> nat \<Rightarrow> nat" where
  "level_offset entries s i = length (concat (map (level_data entries s) [0..<i]))"

text \<open>The files of a level are apart: the keys of a file are at most its largest key, and those of the files behind it greater.\<close>

definition level_files_ok ::
    "(slice \<Rightarrow> slice \<Rightarrow> int) \<Rightarrow> ('s \<Rightarrow> (slice \<times> slice) list) \<Rightarrow> ('s \<Rightarrow> bool) \<Rightarrow> 's LevelIterator \<Rightarrow> bool" where
  "level_files_ok icmp entries ok s \<longleftrightarrow> lv_flevel s \<noteq> [] \<and> iterate_upper_bound s = None
     \<and> (\<forall>j < length (lv_flevel s). ok (lv_NewIterator s (lv_flevel s ! j))
         \<and> (\<forall>e \<in> set (level_data entries s j). icmp (fst e) (fm_largest (lv_flevel s ! j)) \<le> 0)
         \<and> (\<forall>i < j. icmp (fm_largest (lv_flevel s ! i)) (fm_largest (lv_flevel s ! j)) < 0
               \<and> (\<forall>e \<in> set (level_data entries s j). icmp (fm_largest (lv_flevel s ! i)) (fst e) < 0)))"

definition same_level :: "'s LevelIterator \<Rightarrow> 's LevelIterator \<Rightarrow> bool" where
  "same_level s s' \<longleftrightarrow> lv_flevel s' = lv_flevel s \<and> lv_NewIterator s' = lv_NewIterator s \<and> iterate_upper_bound s' = iterate_upper_bound s"

text \<open>The iterator is in file \<open>i\<close> at place \<open>p\<close>; and it stands at place \<open>q\<close> of the level.\<close>

definition lv_inside ::
    "('s \<Rightarrow> (slice \<times> slice) list) \<Rightarrow> ('s \<Rightarrow> int) \<Rightarrow> ('s \<Rightarrow> bool) \<Rightarrow> nat \<Rightarrow> int \<Rightarrow> 's LevelIterator \<Rightarrow> bool" where
  "lv_inside entries pos ok i p s \<longleftrightarrow> lv_file_index s = i \<and> i < length (lv_flevel s)
     \<and> (\<exists>w. lv_file_iter s = Some w \<and> child_at entries pos ok (level_data entries s i) p w)"

definition lv_at :: "('s \<Rightarrow> (slice \<times> slice) list) \<Rightarrow> ('s \<Rightarrow> int) \<Rightarrow> ('s \<Rightarrow> bool) \<Rightarrow> int \<Rightarrow> 's LevelIterator \<Rightarrow> bool" where
  "lv_at entries pos ok q s \<longleftrightarrow>
     (if lv_file_iter s = None then \<not> (0 \<le> q \<and> q < int (length (level_entries entries s)))
      else \<exists>p. lv_inside entries pos ok (lv_file_index s) p s \<and> 0 \<le> p \<and> p < int (length (level_data entries s (lv_file_index s)))
           \<and> q = int (level_offset entries s (lv_file_index s)) + p)"

definition lv_pos :: "('s \<Rightarrow> (slice \<times> slice) list) \<Rightarrow> ('s \<Rightarrow> int) \<Rightarrow> 's LevelIterator \<Rightarrow> int" where
  "lv_pos entries pos s =
     (case lv_file_iter s of None \<Rightarrow> - 1 | Some w \<Rightarrow> int (level_offset entries s (lv_file_index s)) + pos (iw_iter w))"

definition lv_ok ::
    "(slice \<Rightarrow> slice \<Rightarrow> int) \<Rightarrow> ('s \<Rightarrow> (slice \<times> slice) list) \<Rightarrow> ('s \<Rightarrow> int) \<Rightarrow> ('s \<Rightarrow> bool) \<Rightarrow> 's LevelIterator \<Rightarrow> bool" where
  "lv_ok icmp entries pos ok s \<longleftrightarrow> level_files_ok icmp entries ok s \<and> lv_at entries pos ok (lv_pos entries pos s) s"

lemma same_level_simps:
  assumes "same_level s s'"
  shows "lv_flevel s' = lv_flevel s" and "lv_NewIterator s' = lv_NewIterator s" and "level_data entries s' = level_data entries s"
    and "level_entries entries s' = level_entries entries s" and "level_offset entries s' = level_offset entries s"
    and "level_files_ok icmp entries ok s' = level_files_ok icmp entries ok s"
proof -
  show f: "lv_flevel s' = lv_flevel s" "lv_NewIterator s' = lv_NewIterator s" using assms by (simp_all add: same_level_def)
  show d: "level_data entries s' = level_data entries s" using f by (simp add: level_data_def fun_eq_iff)
  show "level_entries entries s' = level_entries entries s" "level_offset entries s' = level_offset entries s"
    using f d by (simp_all add: level_entries_def level_offset_def [abs_def])
  show "level_files_ok icmp entries ok s' = level_files_ok icmp entries ok s"
    using assms d by (simp add: level_files_ok_def same_level_def)
qed

lemma same_level_refl [simp]: "same_level s s"
  by (simp add: same_level_def)

lemma same_level_update [simp]:
  "same_level s (s'\<lparr>lv_file_iter := x\<rparr>) = same_level s s'" "same_level s (s'\<lparr>lv_file_index := i\<rparr>) = same_level s s'"
  by (simp_all add: same_level_def)

lemma same_level_trans: "same_level a b \<Longrightarrow> same_level b c \<Longrightarrow> same_level a c"
  by (simp add: same_level_def)

lemma level_offset_Suc:
  "level_offset entries s 0 = 0" "level_offset entries s (Suc i) = level_offset entries s i + length (level_data entries s i)"
  by (simp_all add: level_offset_def)

lemma level_split:
  assumes "i < length (lv_flevel s)"
  shows "level_entries entries s = concat (map (level_data entries s) [0..<i]) @ level_data entries s i
    @ concat (map (level_data entries s) [Suc i..<length (lv_flevel s)])"
proof -
  have "[0..<length (lv_flevel s)] = [0..<i] @ i # [Suc i..<length (lv_flevel s)]"
    using assms upt_add_eq_append [of 0 i "length (lv_flevel s) - i"] by (simp add: upt_conv_Cons)
  then show ?thesis by (simp add: level_entries_def)
qed

lemma level_place:
  assumes "i < length (lv_flevel s)" and "p < length (level_data entries s i)"
  shows "level_offset entries s i + p < length (level_entries entries s)"
    and "level_entries entries s ! (level_offset entries s i + p) = level_data entries s i ! p"
  using assms(2) level_split [OF assms(1), of entries] by (simp_all add: level_offset_def nth_append)

lemma level_end: "level_offset entries s (length (lv_flevel s)) = length (level_entries entries s)"
  by (simp add: level_offset_def level_entries_def)

subsection \<open>The search for a file\<close>

lemma FindFile_level_finds:
  assumes tw: "three_way icmp" and icmp: "icmp = InternalKeyComparator_Compare ucmp"
    and f: "level_files_ok icmp entries ok s" and r: "r = FindFile_level ucmp (lv_flevel s) target"
  shows "r \<le> length (lv_flevel s)" and "\<And>i. i < r \<Longrightarrow> icmp (fm_largest (lv_flevel s ! i)) target < 0"
    and "\<And>i. r \<le> i \<Longrightarrow> i < length (lv_flevel s) \<Longrightarrow> 0 \<le> icmp (fm_largest (lv_flevel s ! i)) target"
proof -
  let ?P = "\<lambda>i. icmp (fm_largest (lv_flevel s ! i)) target < 0"
  have mono: "?P i" if "i < j" "j < length (lv_flevel s)" "?P j" for i j
    using that f three_way.cmp_less_le_trans [OF tw, of "fm_largest (lv_flevel s ! i)" "fm_largest (lv_flevel s ! j)" target]
    by (auto simp: level_files_ok_def)
  have "r \<le> 0 + length (lv_flevel s) \<and> (\<forall>i. 0 \<le> i \<and> i < 0 + length (lv_flevel s) \<longrightarrow> (?P i \<longleftrightarrow> i < r))"
    unfolding r FindFile_level_def FindFileInRange_def diff_zero icmp [symmetric]
    by (rule std_lower_bound_spec) (use mono in auto)
  then show "r \<le> length (lv_flevel s)" and "\<And>i. i < r \<Longrightarrow> ?P i"
    and "\<And>i. r \<le> i \<Longrightarrow> i < length (lv_flevel s) \<Longrightarrow> 0 \<le> icmp (fm_largest (lv_flevel s ! i)) target"
    by (auto simp: not_less [symmetric])
qed

lemma bounds_append:
  assumes "\<forall>x \<in> set a. icmp x t < 0" and "\<forall>x \<in> set c. 0 < icmp x t"
  shows "lower_bound icmp (a @ b @ c) t = length a + lower_bound icmp b t"
    and "upper_bound icmp (a @ b @ c) t = length a + upper_bound icmp b t"
proof -
  have c: "takeWhile (\<lambda>x. icmp x t < 0) c = []" "takeWhile (\<lambda>x. icmp x t \<le> 0) c = []" using assms(2) by (cases c; force)+
  have "length (takeWhile P (b @ c)) = length (takeWhile P b)" if "takeWhile P c = []" for P
    using that by (cases "\<forall>x \<in> set b. P x") (auto simp: takeWhile_append takeWhile_eq_all_conv [THEN iffD2])
  moreover have "\<forall>x \<in> set a. icmp x t \<le> 0" using assms(1) by force
  ultimately show "lower_bound icmp (a @ b @ c) t = length a + lower_bound icmp b t"
    and "upper_bound icmp (a @ b @ c) t = length a + upper_bound icmp b t"
    using assms(1) c by (simp_all add: lower_bound_def upper_bound_def takeWhile_append2)
qed

lemma level_bounds:
  assumes tw: "three_way icmp" and f: "level_files_ok icmp entries ok s" and i: "i < length (lv_flevel s)"
    and before: "\<And>j. j < i \<Longrightarrow> icmp (fm_largest (lv_flevel s ! j)) target < 0"
    and behind: "i + 1 < length (lv_flevel s) \<Longrightarrow> 0 \<le> icmp (fm_largest (lv_flevel s ! i)) target"
  shows "lower_bound icmp (map fst (level_entries entries s)) target = level_offset entries s i + lower_bound icmp (map fst (level_data entries s i)) target"
    and "upper_bound icmp (map fst (level_entries entries s)) target = level_offset entries s i + upper_bound icmp (map fst (level_data entries s i)) target"
proof -
  let ?A = "concat (map (level_data entries s) [0..<i])" and ?C = "concat (map (level_data entries s) [Suc i..<length (lv_flevel s)])"
  have "icmp (fst e) target < 0" if "j < i" "e \<in> set (level_data entries s j)" for j e
    using that before [OF that(1)] f i three_way.cmp_le_less_trans [OF tw, of "fst e" "fm_largest (lv_flevel s ! j)" target]
    by (auto simp: level_files_ok_def)
  then have a: "\<forall>x \<in> set (map fst ?A). icmp x target < 0" by auto
  have "0 < icmp (fst e) target" if "i < j" "j < length (lv_flevel s)" "e \<in> set (level_data entries s j)" for j e
  proof -
    have "icmp (fm_largest (lv_flevel s ! i)) (fst e) < 0" "icmp target (fm_largest (lv_flevel s ! i)) \<le> 0"
      using that f behind three_way.cmp_le_iff [OF tw, of target "fm_largest (lv_flevel s ! i)"] by (auto simp: level_files_ok_def)
    then show ?thesis using three_way.cmp_le_less_trans [OF tw] three_way.cmp_swap [OF tw, of target "fst e"] by blast
  qed
  then have c: "\<forall>x \<in> set (map fst ?C). 0 < icmp x target" by (auto simp: Suc_le_eq)
  show "lower_bound icmp (map fst (level_entries entries s)) target = level_offset entries s i + lower_bound icmp (map fst (level_data entries s i)) target"
    and "upper_bound icmp (map fst (level_entries entries s)) target = level_offset entries s i + upper_bound icmp (map fst (level_data entries s i)) target"
    using bounds_append [where icmp = icmp and t = target and b = "map fst (level_data entries s i)", OF a c] level_split [OF i, of entries] by (simp_all add: level_offset_def)
qed

section \<open>The iterator as a cursor on the level\<close>

definition loose :: "('s \<Rightarrow> (slice \<times> slice) list) \<Rightarrow> ('s \<Rightarrow> bool) \<Rightarrow> 's LevelIterator \<Rightarrow> bool" where
  "loose entries ok s \<longleftrightarrow> (\<forall>w. lv_file_iter s = Some w \<longrightarrow>
     lv_file_index s < length (lv_flevel s) \<and> ok (iw_iter w) \<and> entries (iw_iter w) = level_data entries s (lv_file_index s))"

lemma lv_at_loose: "lv_at entries pos ok q s \<Longrightarrow> loose entries ok s"
  by (auto simp: lv_at_def loose_def lv_inside_def child_at_def)

lemma lv_inside_loose: "lv_inside entries pos ok i p s \<Longrightarrow> loose entries ok s"
  by (auto simp: loose_def lv_inside_def child_at_def)

lemma lv_okI:
  assumes "level_files_ok icmp entries ok s" and "same_level s s'" and "lv_at entries pos ok q s'"
  shows "lv_ok icmp entries pos ok s' \<and> level_entries entries s' = level_entries entries s \<and> same_place (level_entries entries s) (lv_pos entries pos s') q"
proof (cases "lv_file_iter s'")
  case None
  then show ?thesis using assms same_level_simps [OF assms(2)] by (auto simp: lv_ok_def lv_at_def lv_pos_def same_place_def)
next
  case (Some w)
  then obtain p where "child_at entries pos ok (level_data entries s' (lv_file_index s')) p w" "0 \<le> p"
      "p < int (length (level_data entries s' (lv_file_index s')))" "q = int (level_offset entries s' (lv_file_index s')) + p"
    using assms(3) by (auto simp: lv_at_def lv_inside_def)
  then have "lv_pos entries pos s' = q" using Some by (auto simp: lv_pos_def child_at_def same_place_def)
  then show ?thesis using assms same_level_simps [OF assms(2)] by (auto simp: lv_ok_def)
qed

lemma lv_at_valid:
  assumes "lv_at entries pos ok q s"
  shows "Level_Valid s \<longleftrightarrow> 0 \<le> q \<and> q < int (length (level_entries entries s))"
proof (cases "lv_file_iter s")
  case None
  then show ?thesis using assms by (simp add: lv_at_def Level_Valid_def)
next
  case (Some w)
  then obtain p where p: "child_at entries pos ok (level_data entries s (lv_file_index s)) p w" "0 \<le> p" "lv_file_index s < length (lv_flevel s)"
      "p < int (length (level_data entries s (lv_file_index s)))" "q = int (level_offset entries s (lv_file_index s)) + p"
    using assms by (auto simp: lv_at_def lv_inside_def)
  then have "Level_Valid s" using Some by (simp add: Level_Valid_def child_at_def)
  moreover have "level_offset entries s (lv_file_index s) + nat p < length (level_entries entries s)"
    using p(2,4) by (intro level_place(1) [OF p(3)]) simp
  ultimately show ?thesis using p(2,5) by linarith
qed

context internal_iterator
begin

lemma iw_Set_ok: "ok it \<Longrightarrow> \<exists>w. iw_Set ops it = returns w \<and> iw_iter w = it"
  using key_ok [of it] status_ok [of it] by (auto simp: iw_Set_def iw_Update_def)

lemma InitFileIterator_ok:
  assumes "level_files_ok icmp entries ok s" and "loose entries ok s" and "i < length (lv_flevel s)"
  shows "\<exists>s' w. InitFileIterator ops i s = returns s' \<and> same_level s s' \<and> lv_file_index s' = i \<and> lv_file_iter s' = Some w
    \<and> ok (iw_iter w) \<and> entries (iw_iter w) = level_data entries s i"
proof (cases "(case lv_file_iter s of None \<Rightarrow> False | Some w \<Rightarrow> io_status ops (iw_iter w) \<noteq> Incomplete) \<and> i = lv_file_index s")
  case True
  then show ?thesis using assms(2,3) by (auto simp: InitFileIterator_def loose_def split: option.splits)
next
  case False
  have "ok (lv_NewIterator s (lv_flevel s ! i))" using assms(1,3) by (simp add: level_files_ok_def)
  then obtain w where "iw_Set ops (lv_NewIterator s (lv_flevel s ! i)) = returns w" "iw_iter w = lv_NewIterator s (lv_flevel s ! i)" using iw_Set_ok by blast
  then show ?thesis using assms(3) \<open>ok (lv_NewIterator s (lv_flevel s ! i))\<close>
    unfolding InitFileIterator_def if_not_P [OF False]
    by (simp add: SetFileIterator_def NewFileIterator_def Let_def level_data_def)
qed

lemma move_file_ok:
  assumes "lv_file_iter s = Some w" and "f (iw_iter w) = returns t" and "ok t" and "entries t = e" and "same_place e (pos t) q"
  shows "\<exists>w'. move_file ops f s = returns (s\<lparr>lv_file_iter := Some w'\<rparr>) \<and> child_at entries pos ok e q w'"
  using move_to [where f = f, OF assms(2-5)] assms(1) by (auto simp: move_file_def)

lemma open_and_move:
  assumes files: "level_files_ok icmp entries ok s" and "loose entries ok s" and i: "i < length (lv_flevel s)"
    and f: "\<And>t. ok t \<Longrightarrow> entries t = level_data entries s i \<Longrightarrow>
      \<exists>t'. f t = returns t' \<and> ok t' \<and> entries t' = level_data entries s i \<and> same_place (level_data entries s i) (pos t') q"
  shows "\<exists>s1 s'. InitFileIterator ops i s = returns s1 \<and> lv_file_iter s1 \<noteq> None \<and> move_file ops f s1 = returns s'
    \<and> same_level s s' \<and> lv_inside entries pos ok i q s'"
proof -
  obtain s1 w where s1: "InitFileIterator ops i s = returns s1" "same_level s s1" "lv_file_index s1 = i" "lv_file_iter s1 = Some w" "ok (iw_iter w)"
      "entries (iw_iter w) = level_data entries s i"
    using InitFileIterator_ok [OF assms(1-3)] by blast
  obtain t where t: "f (iw_iter w) = returns t" "ok t" "entries t = level_data entries s i" "same_place (level_data entries s i) (pos t) q"
    using f [OF s1(5,6)] by blast
  obtain w' where "move_file ops f s1 = returns (s1\<lparr>lv_file_iter := Some w'\<rparr>)" "child_at entries pos ok (level_data entries s i) q w'"
    using move_file_ok [where f = f, OF s1(4) t] by blast
  moreover have "lv_inside entries pos ok i q (s1\<lparr>lv_file_iter := Some w'\<rparr>)"
    using calculation(2) s1(2,3) i same_level_simps [OF s1(2)] by (auto simp: lv_inside_def level_data_def)
  ultimately show ?thesis using s1 by auto
qed

lemma skip_forward_ok:
  assumes never: "\<And>t. ok t \<Longrightarrow> \<not> io_IsOutOfBound ops t"
    and "level_files_ok icmp entries ok s" and "lv_inside entries pos ok i p s" and "0 \<le> p" and "p \<le> int (length (level_data entries s i))"
  shows "\<exists>s'. SkipEmptyFileForward ucmp ops s = returns s' \<and> same_level s s' \<and> lv_at entries pos ok (int (level_offset entries s i) + p) s'"
  using assms(2-)
proof (induction "length (lv_flevel s) - i" arbitrary: i p s rule: less_induct)
  case less
  let ?n = "length (lv_flevel s)"
  obtain w where w: "lv_file_index s = i" "i < ?n" "lv_file_iter s = Some w" "child_at entries pos ok (level_data entries s i) p w"
    using less.prems(2) by (auto simp: lv_inside_def)
  have wk: "ok (iw_iter w)" "io_status ops (iw_iter w) = OK" using w(4) status_ok by (simp_all add: child_at_def)
  have sk: "skips_forward ops s \<longleftrightarrow> p = int (length (level_data entries s i))"
    using w(3,4) wk never less.prems(3,4) by (auto simp: skips_forward_def child_at_def)
  show ?case
  proof (cases "p = int (length (level_data entries s i))")
    case False
    then show ?thesis using sk less.prems w by (subst SkipEmptyFileForward.simps) (auto simp: lv_at_def)
  next
    case True
    have off: "int (level_offset entries s i) + p = int (level_offset entries s (Suc i))" using True by (simp add: level_offset_Suc)
    show ?thesis
    proof (cases "i \<ge> ?n - 1")
      case last: True
      then have "Suc i = ?n" using w(2) by simp
      then have "int (level_offset entries s i) + p = int (length (level_entries entries s))" using off level_end [of entries s] by simp
      moreover have "level_entries entries (s\<lparr>lv_file_iter := None\<rparr>) = level_entries entries s"
        by (rule same_level_simps(4)) simp
      ultimately show ?thesis using sk True last w by (subst SkipEmptyFileForward.simps) (simp add: SetFileIterator_def lv_at_def)
    next
      case more: False
      then have i1: "i + 1 < ?n" by simp
      obtain s1 s2 where s2: "InitFileIterator ops (i + 1) s = returns s1" "move_file ops (io_SeekToFirst ops) s1 = returns s2"
          "same_level s s2" "lv_inside entries pos ok (i + 1) 0 s2"
        using open_and_move [where f = "io_SeekToFirst ops" and q = 0, OF less.prems(1) lv_inside_loose [OF less.prems(2)] i1] first_ok by metis
      note same = same_level_simps [OF s2(3)]
      have "length (lv_flevel s2) - (i + 1) < ?n - i" using i1 same(1) by simp
      then obtain s' where s': "SkipEmptyFileForward ucmp ops s2 = returns s'" "same_level s2 s'"
          "lv_at entries pos ok (int (level_offset entries s2 (i + 1)) + 0) s'"
        using less.hyps [of s2 "i + 1" 0] less.prems(1) s2(4) same by auto
      have "SkipEmptyFileForward ucmp ops s = SkipEmptyFileForward ucmp ops s2"
        using sk True more i1 w s2(1,2) less.prems(1)
        by (subst SkipEmptyFileForward.simps) (simp add: file_smallest_key_def KeyReachedUpperBound_def level_files_ok_def)
      then show ?thesis using s' same_level_trans [OF s2(3) s'(2)] off same by auto
    qed
  qed
qed

lemma skip_backward_ok:
  assumes "level_files_ok icmp entries ok s" and "lv_inside entries pos ok i p s" and "- 1 \<le> p" and "p < int (length (level_data entries s i))"
  shows "\<exists>s'. SkipEmptyFileBackward ops s = returns s' \<and> same_level s s' \<and> lv_at entries pos ok (int (level_offset entries s i) + p) s'"
  using assms
proof (induction i arbitrary: p s)
  case (0 p s)
  obtain w where w: "lv_file_index s = 0" "lv_file_iter s = Some w" "child_at entries pos ok (level_data entries s 0) p w"
    using 0(2) by (auto simp: lv_inside_def)
  have "skips_backward ops s \<longleftrightarrow> p = - 1"
    using w(2,3) status_ok [of "iw_iter w"] 0(3,4) by (auto simp: skips_backward_def child_at_def)
  then show ?case using 0 w
    by (cases "p = - 1") (subst SkipEmptyFileBackward.simps, simp add: SetFileIterator_def lv_at_def level_offset_Suc)+
next
  case (Suc i p s)
  obtain w where w: "lv_file_index s = Suc i" "Suc i < length (lv_flevel s)" "lv_file_iter s = Some w"
      "child_at entries pos ok (level_data entries s (Suc i)) p w"
    using Suc.prems(2) by (auto simp: lv_inside_def)
  have sk: "skips_backward ops s \<longleftrightarrow> p = - 1"
    using w(3,4) status_ok [of "iw_iter w"] Suc.prems(3,4) by (auto simp: skips_backward_def child_at_def)
  show ?case
  proof (cases "p = - 1")
    case False
    then show ?thesis using sk Suc.prems w by (subst SkipEmptyFileBackward.simps) (auto simp: lv_at_def)
  next
    case True
    let ?q = "int (length (level_data entries s i)) - 1"
    have i: "i < length (lv_flevel s)" using w(2) by simp
    obtain s1 s2 where s2: "InitFileIterator ops i s = returns s1" "move_file ops (io_SeekToLast ops) s1 = returns s2"
        "same_level s s2" "lv_inside entries pos ok i ?q s2"
      using open_and_move [where f = "io_SeekToLast ops" and q = ?q, OF Suc.prems(1) lv_inside_loose [OF Suc.prems(2)] i] last_ok by metis
    note same = same_level_simps [OF s2(3)]
    obtain s' where s': "SkipEmptyFileBackward ops s2 = returns s'" "same_level s2 s'" "lv_at entries pos ok (int (level_offset entries s2 i) + ?q) s'"
      using Suc.IH [of s2 ?q] Suc.prems(1) s2(4) same by auto
    have "SkipEmptyFileBackward ops s = SkipEmptyFileBackward ops s2"
      using sk True w s2(1,2) by (subst SkipEmptyFileBackward.simps) simp
    then show ?thesis using s' same_level_trans [OF s2(3) s'(2)] True same by (auto simp: level_offset_Suc algebra_simps)
  qed
qed

lemma lv_ok_cases:
  assumes "lv_ok icmp entries pos ok s"
  shows "level_files_ok icmp entries ok s" and "lv_at entries pos ok (lv_pos entries pos s) s" and "loose entries ok s"
    and "lv_flevel s \<noteq> []"
  using assms lv_at_loose by (auto simp: lv_ok_def level_files_ok_def)

lemma lv_moves:
  assumes "level_files_ok icmp entries ok s" and "\<exists>s'. r = returns s' \<and> same_level s s' \<and> lv_at entries pos ok q s'"
  shows "\<exists>s'. r = returns s' \<and> lv_ok icmp entries pos ok s' \<and> level_entries entries s' = level_entries entries s
    \<and> same_place (level_entries entries s) (lv_pos entries pos s') q"
  using assms lv_okI by blast

text \<open>A seek that ends in file \<open>i\<close>, and a step within the file, each followed by the loop over empty files.\<close>

lemma seek_then_forward:
  assumes never: "\<And>t. ok t \<Longrightarrow> \<not> io_IsOutOfBound ops t"
    and s: "level_files_ok icmp entries ok s" "loose entries ok s" and i: "i < length (lv_flevel s)"
    and f: "\<And>t. ok t \<Longrightarrow> entries t = level_data entries s i \<Longrightarrow>
      \<exists>t'. f t = returns t' \<and> ok t' \<and> entries t' = level_data entries s i \<and> same_place (level_data entries s i) (pos t') (int p)"
    and p: "p \<le> length (level_data entries s i)"
  shows "\<exists>s'. run_then (InitFileIterator ops i s) (\<lambda>s. run_then (move_file ops f s) (SkipEmptyFileForward ucmp ops)) = returns s'
    \<and> same_level s s' \<and> lv_at entries pos ok (int (level_offset entries s i + p)) s'"
proof -
  obtain s1 s2 where s2: "InitFileIterator ops i s = returns s1" "move_file ops f s1 = returns s2" "same_level s s2" "lv_inside entries pos ok i (int p) s2"
    using open_and_move [where f = f and q = "int p", OF s i f] by blast
  note same = same_level_simps [OF s2(3)]
  obtain s' where "SkipEmptyFileForward ucmp ops s2 = returns s'" "same_level s2 s'" "lv_at entries pos ok (int (level_offset entries s2 i) + int p) s'"
    using skip_forward_ok [where ucmp = ucmp, OF never _ s2(4)] s(1) p same by auto
  then show ?thesis using s2 same_level_trans [OF s2(3)] same by auto
qed

lemma seek_then_backward:
  assumes s: "level_files_ok icmp entries ok s" "loose entries ok s" and i: "i < length (lv_flevel s)"
    and f: "\<And>t. ok t \<Longrightarrow> entries t = level_data entries s i \<Longrightarrow>
      \<exists>t'. f t = returns t' \<and> ok t' \<and> entries t' = level_data entries s i \<and> same_place (level_data entries s i) (pos t') (int p - 1)"
    and p: "p \<le> length (level_data entries s i)"
  shows "\<exists>s1 s'. InitFileIterator ops i s = returns s1 \<and> lv_file_iter s1 \<noteq> None
    \<and> run_then (move_file ops f s1) (SkipEmptyFileBackward ops) = returns s'
    \<and> same_level s s' \<and> lv_at entries pos ok (int (level_offset entries s i + p) - 1) s'"
proof -
  obtain s1 s2 where s2: "InitFileIterator ops i s = returns s1" "lv_file_iter s1 \<noteq> None" "move_file ops f s1 = returns s2" "same_level s s2"
      "lv_inside entries pos ok i (int p - 1) s2"
    using open_and_move [where f = f and q = "int p - 1", OF s i f] by blast
  note same = same_level_simps [OF s2(4)]
  obtain s' where s': "SkipEmptyFileBackward ops s2 = returns s'" "same_level s2 s'" "lv_at entries pos ok (int (level_offset entries s2 i) + (int p - 1)) s'"
    using skip_backward_ok [OF _ s2(5)] s(1) p same by auto
  moreover have "int (level_offset entries s i + p) - 1 = int (level_offset entries s i) + (int p - 1)" by simp
  ultimately have "lv_at entries pos ok (int (level_offset entries s i + p) - 1) s'" using same by metis
  then show ?thesis using s2(1-3) s'(1,2) same_level_trans [OF s2(4)] by (metis run_then_simps(1))
qed

lemma step_in_file:
  assumes s: "lv_ok icmp entries pos ok s" and v: "Level_Valid s"
    and f: "\<And>t. ok t \<Longrightarrow> io_Valid ops t \<Longrightarrow> \<exists>t'. f t = returns t' \<and> ok t' \<and> entries t' = entries t \<and> same_place (entries t) (pos t') (pos t + d)"
  shows "\<exists>s' p. move_file ops f s = returns s' \<and> same_level s s' \<and> lv_inside entries pos ok (lv_file_index s) (p + d) s'
    \<and> 0 \<le> p \<and> p < int (length (level_data entries s (lv_file_index s))) \<and> lv_pos entries pos s = int (level_offset entries s (lv_file_index s)) + p"
proof -
  let ?e = "level_data entries s (lv_file_index s)"
  obtain w p where w: "lv_file_iter s = Some w" "child_at entries pos ok ?e p w" "0 \<le> p" "p < int (length ?e)" "lv_file_index s < length (lv_flevel s)"
      "lv_pos entries pos s = int (level_offset entries s (lv_file_index s)) + p"
    using lv_ok_cases(2) [OF s] v by (auto simp: lv_at_def lv_inside_def Level_Valid_def split: option.splits if_splits)
  have t: "ok (iw_iter w)" "entries (iw_iter w) = ?e" "pos (iw_iter w) = p" using w(2-4) by (auto simp: child_at_def same_place_def)
  then have "io_Valid ops (iw_iter w)" using valid_iff [OF t(1)] w(3,4) by simp
  then obtain t' where "f (iw_iter w) = returns t'" "ok t'" "entries t' = ?e" "same_place ?e (pos t') (p + d)" using f [OF t(1)] t by auto
  then obtain w' where w': "move_file ops f s = returns (s\<lparr>lv_file_iter := Some w'\<rparr>)" "child_at entries pos ok ?e (p + d) w'"
    using move_file_ok [where f = f, OF w(1)] by blast
  then have "lv_inside entries pos ok (lv_file_index s) (p + d) (s\<lparr>lv_file_iter := Some w'\<rparr>)" using w(5) by (simp add: lv_inside_def level_data_def)
  then show ?thesis using w' w(3,4,6) by auto
qed

lemma Level_Next_ok:
  assumes never: "\<And>t. ok t \<Longrightarrow> \<not> io_IsOutOfBound ops t" and s: "lv_ok icmp entries pos ok s" and v: "Level_Valid s"
  shows "\<exists>s'. Level_Next ucmp ops s = returns s' \<and> same_level s s' \<and> lv_at entries pos ok (lv_pos entries pos s + 1) s'"
proof -
  obtain s1 p where s1: "move_file ops (io_Next ops) s = returns s1" "same_level s s1" "lv_inside entries pos ok (lv_file_index s) (p + 1) s1"
      "0 \<le> p" "p < int (length (level_data entries s (lv_file_index s)))" "lv_pos entries pos s = int (level_offset entries s (lv_file_index s)) + p"
    using step_in_file [where f = "io_Next ops", OF s v next_ok] by blast
  note same = same_level_simps [OF s1(2)]
  obtain s' where "SkipEmptyFileForward ucmp ops s1 = returns s'" "same_level s1 s'"
      "lv_at entries pos ok (int (level_offset entries s1 (lv_file_index s)) + (p + 1)) s'"
    using skip_forward_ok [where ucmp = ucmp, OF never _ s1(3)] lv_ok_cases(1) [OF s] s1(4,5) same by auto
  then show ?thesis using s1 v same_level_trans [OF s1(2)] same by (auto simp: Level_Next_def algebra_simps)
qed

lemma Level_Prev_ok:
  assumes s: "lv_ok icmp entries pos ok s" and v: "Level_Valid s"
  shows "\<exists>s'. Level_Prev ops s = returns s' \<and> same_level s s' \<and> lv_at entries pos ok (lv_pos entries pos s - 1) s'"
proof -
  obtain s1 p where s1: "move_file ops (io_Prev ops) s = returns s1" "same_level s s1" "lv_inside entries pos ok (lv_file_index s) (p + - 1) s1"
      "0 \<le> p" "p < int (length (level_data entries s (lv_file_index s)))" "lv_pos entries pos s = int (level_offset entries s (lv_file_index s)) + p"
    using step_in_file [where f = "io_Prev ops" and d = "- 1", OF s v] prev_ok by auto
  note same = same_level_simps [OF s1(2)]
  obtain s' where "SkipEmptyFileBackward ops s1 = returns s'" "same_level s1 s'"
      "lv_at entries pos ok (int (level_offset entries s1 (lv_file_index s)) + (p + - 1)) s'"
    using skip_backward_ok [OF _ s1(3)] lv_ok_cases(1) [OF s] s1(4,5) same by auto
  then show ?thesis using s1 v same_level_trans [OF s1(2)] same by (auto simp: Level_Prev_def algebra_simps)
qed

lemma Level_SeekToFirst_ok:
  assumes never: "\<And>t. ok t \<Longrightarrow> \<not> io_IsOutOfBound ops t" and s: "lv_ok icmp entries pos ok s"
  shows "\<exists>s'. Level_SeekToFirst ucmp ops s = returns s' \<and> same_level s s' \<and> lv_at entries pos ok 0 s'"
proof -
  note c = lv_ok_cases [OF s]
  have "\<exists>s'. run_then (InitFileIterator ops 0 s) (\<lambda>s. run_then (move_file ops (io_SeekToFirst ops) s) (SkipEmptyFileForward ucmp ops)) = returns s'
      \<and> same_level s s' \<and> lv_at entries pos ok (int (level_offset entries s 0 + 0)) s'"
    by (rule seek_then_forward [OF never c(1,3)]) (use c(4) first_ok in fastforce)+
  then show ?thesis by (simp add: Level_SeekToFirst_def level_offset_Suc)
qed

lemma Level_SeekToLast_ok:
  assumes s: "lv_ok icmp entries pos ok s"
  shows "\<exists>s'. Level_SeekToLast ops s = returns s' \<and> same_level s s' \<and> lv_at entries pos ok (int (length (level_entries entries s)) - 1) s'"
proof -
  let ?i = "length (lv_flevel s) - 1"
  note c = lv_ok_cases [OF s]
  have i: "?i < length (lv_flevel s)" "Suc ?i = length (lv_flevel s)" using c(4) by auto
  have off: "level_offset entries s ?i + length (level_data entries s ?i) = length (level_entries entries s)"
    using level_offset_Suc(2) [of entries s ?i] level_end [of entries s] i(2) by simp
  obtain s1 s' where "InitFileIterator ops ?i s = returns s1" "run_then (move_file ops (io_SeekToLast ops) s1) (SkipEmptyFileBackward ops) = returns s'"
      "same_level s s'" "lv_at entries pos ok (int (level_offset entries s ?i + length (level_data entries s ?i)) - 1) s'"
    using seek_then_backward [where f = "io_SeekToLast ops" and p = "length (level_data entries s ?i)", OF c(1,3) i(1)] last_ok by (metis order_refl)
  then show ?thesis unfolding off by (auto simp: Level_SeekToLast_def)
qed

lemma Level_Seek_ok:
  assumes never: "\<And>t. ok t \<Longrightarrow> \<not> io_IsOutOfBound ops t" and icmp: "icmp = InternalKeyComparator_Compare ucmp"
    and s: "lv_ok icmp entries pos ok s" and srt: "sorted_keys icmp (map fst (level_entries entries s))"
  shows "\<exists>s'. Level_Seek ucmp ops target s = returns s' \<and> same_level s s'
    \<and> lv_at entries pos ok (int (lower_bound icmp (map fst (level_entries entries s)) target)) s'"
proof -
  define r where "r = FindFile_level ucmp (lv_flevel s) target"
  note c = lv_ok_cases [OF s]
  note find = FindFile_level_finds [OF three_way_axioms icmp c(1) r_def]
  show ?thesis
  proof (cases "r < length (lv_flevel s)")
    case True
    have "sorted_keys icmp (map fst (level_data entries s r))"
      using srt level_split [OF True, of entries] by (simp add: sorted_keys_def sorted_wrt_append)
    then have "\<exists>s'. run_then (InitFileIterator ops r s) (\<lambda>s. run_then (move_file ops (io_Seek ops target) s) (SkipEmptyFileForward ucmp ops)) = returns s'
        \<and> same_level s s' \<and> lv_at entries pos ok (int (level_offset entries s r + lower_bound icmp (map fst (level_data entries s r)) target)) s'"
      by (intro seek_then_forward [OF never c(1,3) True]) (use seek_ok lower_bound_le [of icmp "map fst (level_data entries s r)" target] in fastforce)+
    moreover have "lower_bound icmp (map fst (level_entries entries s)) target
        = level_offset entries s r + lower_bound icmp (map fst (level_data entries s r)) target"
      by (rule level_bounds(1) [OF three_way_axioms c(1) True]) (use find True in auto)
    ultimately show ?thesis by (simp add: Level_Seek_def r_def flip: icmp)
  next
    case False
    then have r: "r = length (lv_flevel s)" using find(1) by simp
    have "icmp (fst e) target < 0" if "j < r" "e \<in> set (level_data entries s j)" for j e
      using that find(2) [OF that(1)] c(1) r cmp_le_less_trans [of "fst e" "fm_largest (lv_flevel s ! j)" target] by (auto simp: level_files_ok_def)
    then have "\<forall>x \<in> set (map fst (level_entries entries s)). icmp x target < 0" using r by (auto simp: level_entries_def)
    then have "lower_bound icmp (map fst (level_entries entries s)) target = length (level_entries entries s)"
      by (simp add: lower_bound_def takeWhile_eq_all_conv [THEN iffD2])
    moreover have "Level_Seek ucmp ops target s = returns (s\<lparr>lv_file_index := r, lv_file_iter := None\<rparr>)"
      using r by (simp add: Level_Seek_def InitFileIterator_def SetFileIterator_def move_file_def SkipEmptyFileForward.simps skips_forward_def
          flip: icmp r_def)
    moreover have "level_entries entries (s\<lparr>lv_file_index := r, lv_file_iter := None\<rparr>) = level_entries entries s"
      by (rule same_level_simps(4)) simp
    ultimately show ?thesis by (simp add: lv_at_def)
  qed
qed

lemma Level_internal_iterator:
  assumes never: "\<And>t. ok t \<Longrightarrow> \<not> io_IsOutOfBound ops t" and icmp: "icmp = InternalKeyComparator_Compare ucmp"
  shows "internal_iterator icmp (Level_ops ucmp ops) (level_entries entries) (lv_pos entries pos) (lv_ok icmp entries pos ok)"
proof (rule internal_iterator.intro [OF three_way_axioms], unfold_locales)
  fix s target assume s: "lv_ok icmp entries pos ok s"
  note c = lv_ok_cases [OF s] and v = lv_at_valid [OF lv_ok_cases(2) [OF s]] and move = lv_moves [OF lv_ok_cases(1) [OF s]]
  show "io_Valid (Level_ops ucmp ops) s \<longleftrightarrow> 0 \<le> lv_pos entries pos s \<and> lv_pos entries pos s < int (length (level_entries entries s))"
    using v by (simp add: Level_ops_def)
  show "io_status (Level_ops ucmp ops) s = OK"
    using c(3) status_ok by (auto simp: Level_ops_def Level_status_def loose_def split: option.split)
  show "io_key (Level_ops ucmp ops) s = Inr (fst (level_entries entries s ! nat (lv_pos entries pos s)))"
      and "io_value (Level_ops ucmp ops) s = Inr (snd (level_entries entries s ! nat (lv_pos entries pos s)))"
    if "io_Valid (Level_ops ucmp ops) s"
  proof -
    let ?e = "level_data entries s (lv_file_index s)"
    have val: "Level_Valid s" using that by (simp add: Level_ops_def)
    then obtain w p where w: "lv_file_iter s = Some w" "child_at entries pos ok ?e p w" "0 \<le> p" "p < int (length ?e)"
        "lv_file_index s < length (lv_flevel s)" "lv_pos entries pos s = int (level_offset entries s (lv_file_index s)) + p"
      using c(2) by (auto simp: lv_at_def lv_inside_def Level_Valid_def split: option.splits if_splits)
    have t: "ok (iw_iter w)" "entries (iw_iter w) = ?e" "pos (iw_iter w) = p" "iw_valid w" "iw_key w = fst (?e ! nat p)"
      using w(2-4) by (auto simp: child_at_def same_place_def)
    have "nat (lv_pos entries pos s) = level_offset entries s (lv_file_index s) + nat p" using w(3,6) by simp
    moreover have "nat p < length ?e" using w(3,4) by simp
    ultimately have e: "level_entries entries s ! nat (lv_pos entries pos s) = ?e ! nat p" using level_place(2) [OF w(5)] by simp
    have "io_value ops (iw_iter w) = Inr (snd (?e ! nat p))" using value_ok [OF t(1)] valid_iff [OF t(1)] t w(3,4) by simp
    then show "io_key (Level_ops ucmp ops) s = Inr (fst (level_entries entries s ! nat (lv_pos entries pos s)))"
      and "io_value (Level_ops ucmp ops) s = Inr (snd (level_entries entries s ! nat (lv_pos entries pos s)))"
      using t w(1) e by (simp_all add: Level_ops_def Level_key_def Level_value_def)
  qed
  show "\<exists>s'. io_SeekToFirst (Level_ops ucmp ops) s = returns s' \<and> lv_ok icmp entries pos ok s' \<and> level_entries entries s' = level_entries entries s
      \<and> same_place (level_entries entries s) (lv_pos entries pos s') 0"
    using move [OF Level_SeekToFirst_ok [OF never s]] by (simp add: Level_ops_def)
  show "\<exists>s'. io_SeekToLast (Level_ops ucmp ops) s = returns s' \<and> lv_ok icmp entries pos ok s' \<and> level_entries entries s' = level_entries entries s
      \<and> same_place (level_entries entries s) (lv_pos entries pos s') (int (length (level_entries entries s)) - 1)"
    using move [OF Level_SeekToLast_ok [OF s]] by (simp add: Level_ops_def)
  show "\<exists>s'. io_Next (Level_ops ucmp ops) s = returns s' \<and> lv_ok icmp entries pos ok s' \<and> level_entries entries s' = level_entries entries s
      \<and> same_place (level_entries entries s) (lv_pos entries pos s') (lv_pos entries pos s + 1)" if "io_Valid (Level_ops ucmp ops) s"
    using move [OF Level_Next_ok [OF never s]] that by (simp add: Level_ops_def)
  show "\<exists>s'. io_Prev (Level_ops ucmp ops) s = returns s' \<and> lv_ok icmp entries pos ok s' \<and> level_entries entries s' = level_entries entries s
      \<and> same_place (level_entries entries s) (lv_pos entries pos s') (lv_pos entries pos s - 1)" if "io_Valid (Level_ops ucmp ops) s"
    using move [OF Level_Prev_ok [OF s]] that by (simp add: Level_ops_def)
  show "\<exists>s'. io_Seek (Level_ops ucmp ops) target s = returns s' \<and> lv_ok icmp entries pos ok s' \<and> level_entries entries s' = level_entries entries s
      \<and> same_place (level_entries entries s) (lv_pos entries pos s') (int (lower_bound icmp (map fst (level_entries entries s)) target))"
    if "sorted_keys icmp (map fst (level_entries entries s))"
    using move [OF Level_Seek_ok [OF never icmp s that]] by (simp add: Level_ops_def)
qed

end

context reversible_iterator
begin

lemma Level_SeekForPrev_ok:
  assumes icmp: "icmp = InternalKeyComparator_Compare ucmp"
    and s: "lv_ok icmp entries pos ok s" and srt: "sorted_keys icmp (map fst (level_entries entries s))"
  shows "\<exists>s'. Level_SeekForPrev ucmp ops target s = returns s' \<and> same_level s s'
    \<and> lv_at entries pos ok (int (upper_bound icmp (map fst (level_entries entries s)) target) - 1) s'"
proof -
  define r where "r = FindFile_level ucmp (lv_flevel s) target"
  let ?i = "if r \<ge> length (lv_flevel s) then length (lv_flevel s) - 1 else r"
  note c = lv_ok_cases [OF s]
  note find = FindFile_level_finds [OF three_way_axioms icmp c(1) r_def]
  have i: "?i < length (lv_flevel s)" using c(4) by auto
  let ?u = "upper_bound icmp (map fst (level_data entries s ?i)) target"
  have "sorted_keys icmp (map fst (level_data entries s ?i))"
    using srt level_split [OF i, of entries] by (simp add: sorted_keys_def sorted_wrt_append)
  then have f: "\<exists>t'. io_SeekForPrev ops target t = returns t' \<and> ok t' \<and> entries t' = level_data entries s ?i
      \<and> same_place (level_data entries s ?i) (pos t') (int ?u - 1)" if "ok t" "entries t = level_data entries s ?i" for t
    using seek_for_prev_ok [OF that(1)] that(2) by metis
  have "?u \<le> length (level_data entries s ?i)"
    using length_takeWhile_le [of _ "map fst (level_data entries s ?i)"] by (simp add: upper_bound_def)
  then obtain s1 s' where s': "InitFileIterator ops ?i s = returns s1" "lv_file_iter s1 \<noteq> None"
      "run_then (move_file ops (io_SeekForPrev ops target) s1) (SkipEmptyFileBackward ops) = returns s'" "same_level s s'"
      "lv_at entries pos ok (int (level_offset entries s ?i + ?u) - 1) s'"
    using seek_then_backward [where f = "io_SeekForPrev ops target" and p = ?u, OF c(1,3) i f] by blast
  have u: "upper_bound icmp (map fst (level_entries entries s)) target = level_offset entries s ?i + ?u"
    by (rule level_bounds(2) [OF three_way_axioms c(1) i]) (use find in \<open>auto split: if_splits\<close>)
  have "Level_SeekForPrev ucmp ops target s = returns s'"
    using s'(1-3) by (simp only: Level_SeekForPrev_def Let_def icmp [symmetric] r_def [symmetric] run_then_simps if_False)
  then show ?thesis unfolding u using s'(4,5) by blast
qed

lemma Level_guarded_iterator:
  assumes never: "\<And>t. ok t \<Longrightarrow> \<not> io_IsOutOfBound ops t" and icmp: "icmp = InternalKeyComparator_Compare ucmp"
  shows "guarded_iterator icmp (Level_ops ucmp ops) (level_entries entries) (lv_pos entries pos) (lv_ok icmp entries pos ok)"
proof (rule guarded_iterator.intro, rule reversible_iterator.intro [OF Level_internal_iterator [OF never icmp]], unfold_locales)
  fix s target assume s: "lv_ok icmp entries pos ok s"
  show "\<exists>s'. io_SeekForPrev (Level_ops ucmp ops) target s = returns s' \<and> lv_ok icmp entries pos ok s' \<and> level_entries entries s' = level_entries entries s
      \<and> same_place (level_entries entries s) (lv_pos entries pos s') (int (upper_bound icmp (map fst (level_entries entries s)) target) - 1)"
    if "sorted_keys icmp (map fst (level_entries entries s))"
    using lv_moves [OF lv_ok_cases(1) [OF s] Level_SeekForPrev_ok [OF icmp s that]] by (simp add: Level_ops_def)
qed (auto simp: Level_ops_def Level_Next_def Level_Prev_def Level_Valid_def Level_key_def Level_value_def split: option.splits)

end

section \<open>The iterators of a version\<close>

lemma child_simps [simp]:
  "on_child f g (TableChild t) = f t" "on_child f g (LevelChild l) = g l"
  "move_child h k (TableChild t) = run_then (h t) (\<lambda>t. returns (TableChild t))"
  "move_child h k (LevelChild l) = run_then (k l) (\<lambda>l. returns (LevelChild l))"
  by (simp_all add: on_child_def move_child_def)

lemma move_child_ok:
  assumes "\<And>t. c = TableChild t \<Longrightarrow> \<exists>t'. f t = returns t' \<and> P (TableChild t')"
    and "\<And>l. c = LevelChild l \<Longrightarrow> \<exists>l'. g l = returns l' \<and> P (LevelChild l')"
  shows "\<exists>c'. move_child f g c = returns c' \<and> P c'"
  using assms by (cases c) (fastforce simp: move_child_def)+

lemma child_guarded_iterator:
  assumes a: "guarded_iterator icmp ops1 entries1 pos1 ok1" and b: "guarded_iterator icmp ops2 entries2 pos2 ok2"
  shows "guarded_iterator icmp (child_ops ops1 ops2) (on_child entries1 entries2) (on_child pos1 pos2) (on_child ok1 ok2)"
proof -
  note r1 = guarded_iterator.axioms(1) [OF a] and r2 = guarded_iterator.axioms(1) [OF b]
  note i1 = reversible_iterator.axioms(1) [OF r1] and i2 = reversible_iterator.axioms(1) [OF r2]
  note laws = internal_iterator.valid_iff internal_iterator.status_ok internal_iterator.key_ok internal_iterator.value_ok
  note t = internal_iterator.axioms(1) [OF i1]
  show ?thesis
  proof (rule guarded_iterator.intro, rule reversible_iterator.intro, rule internal_iterator.intro [OF t], unfold_locales, unfold child_ops_def,
      simp_all only: InternalIterator.simps, goal_cases)
    case (1 s) then show ?case using laws(1) [OF i1] laws(1) [OF i2] by (cases s) simp_all
  next
    case (2 s) then show ?case using laws(2) [OF i1] laws(2) [OF i2] by (cases s) simp_all
  next
    case (3 s) then show ?case using laws(3) [OF i1] laws(3) [OF i2] by (cases s) simp_all
  next
    case (4 s) then show ?case using laws(4) [OF i1] laws(4) [OF i2] by (cases s) simp_all
  next
    case (5 s) then show ?case
      by (intro move_child_ok) (use internal_iterator.first_ok [OF i1] internal_iterator.first_ok [OF i2] in simp_all)
  next
    case (6 s) then show ?case
      by (intro move_child_ok) (use internal_iterator.last_ok [OF i1] internal_iterator.last_ok [OF i2] in simp_all)
  next
    case (7 s) then show ?case
      by (intro move_child_ok) (use internal_iterator.next_ok [OF i1] internal_iterator.next_ok [OF i2] in simp_all)
  next
    case (8 s) then show ?case
      by (intro move_child_ok) (use internal_iterator.prev_ok [OF i1] internal_iterator.prev_ok [OF i2] in simp_all)
  next
    case (9 s) then show ?case
      by (intro move_child_ok) (use internal_iterator.seek_ok [OF i1] internal_iterator.seek_ok [OF i2] in simp_all)
  next
    case (10 s) then show ?case
      by (intro move_child_ok) (use reversible_iterator.seek_for_prev_ok [OF r1] reversible_iterator.seek_for_prev_ok [OF r2] in simp_all)
  next
    case (11 s) then show ?case using guarded_iterator.step_guard [OF a] guarded_iterator.step_guard [OF b] by (cases s) simp_all
  next
    case (12 s) then show ?case using guarded_iterator.read_guard [OF a] guarded_iterator.read_guard [OF b] by (cases s) simp_all
  qed
qed

interpretation level_of_blocks: guarded_iterator "InternalKeyComparator_Compare Bytewise_Compare"
    "Level_ops Bytewise_Compare (DataBlock_ops (InternalKeyComparator_Compare Bytewise_Compare))"
    "level_entries db_entries" "lv_pos db_entries db_pos" "lv_ok (InternalKeyComparator_Compare Bytewise_Compare) db_entries db_pos db_ok"
  by (rule data_block.Level_guarded_iterator) (simp_all add: DataBlock_ops_def)

interpretation version_of_blocks: guarded_iterator "InternalKeyComparator_Compare Bytewise_Compare"
    "version_ops Bytewise_Compare (DataBlock_ops (InternalKeyComparator_Compare Bytewise_Compare))"
    "on_child db_entries (level_entries db_entries)" "on_child db_pos (lv_pos db_entries db_pos)"
    "on_child db_ok (lv_ok (InternalKeyComparator_Compare Bytewise_Compare) db_entries db_pos db_ok)"
  unfolding version_ops_def by (rule child_guarded_iterator [OF data_block.guarded_iterator_axioms level_of_blocks.guarded_iterator_axioms])

subsection \<open>What the files hold\<close>

text \<open>The table cache gives for a file a new iterator over its entries, which are sorted and lie between its bounds.\<close>

definition file_holds ::
    "(slice \<Rightarrow> slice \<Rightarrow> int) \<Rightarrow> 's InternalIterator \<Rightarrow> ('s \<Rightarrow> (slice \<times> slice) list) \<Rightarrow> ('s \<Rightarrow> bool) \<Rightarrow> (FileMetaData \<Rightarrow> 's) \<Rightarrow>
     FileMetaData \<Rightarrow> (slice \<times> slice) list \<Rightarrow> bool" where
  "file_holds ucmp ops entries ok new_iterator f e \<longleftrightarrow> ok (new_iterator f) \<and> \<not> io_Valid ops (new_iterator f) \<and> entries (new_iterator f) = e
     \<and> sorted_keys (InternalKeyComparator_Compare ucmp) (map fst e)
     \<and> list_all (\<lambda>x. InternalKeyComparator_Compare ucmp (fm_smallest f) (fst x) \<le> 0
          \<and> InternalKeyComparator_Compare ucmp (fst x) (fm_largest f) \<le> 0) e"

definition new_level :: "FileMetaData list \<Rightarrow> (FileMetaData \<Rightarrow> 's) \<Rightarrow> 's LevelIterator" where
  "new_level fs new_iterator =
     \<lparr>lv_flevel = fs, lv_NewIterator = new_iterator, iterate_upper_bound = None, lv_file_index = length fs, lv_file_iter = None\<rparr>"

lemma LevelIterator_new_level: "fs \<noteq> [] \<Longrightarrow> LevelIterator_new fs new_iterator None = Inr (new_level fs new_iterator)"
  by (simp add: LevelIterator_new_def new_level_def)

lemma sorted_wrt_concat:
  "\<forall>e \<in> set ds. sorted_wrt R e \<Longrightarrow> sorted_wrt (\<lambda>a b. \<forall>x \<in> set a. \<forall>y \<in> set b. R x y) ds \<Longrightarrow> sorted_wrt R (concat ds)"
  by (induction ds) (auto simp: sorted_wrt_append)

text \<open>The children that \<open>Version_AddIterators\<close> makes, and the entries they iterate over.\<close>

definition level_children ::
    "VersionStorageInfo \<Rightarrow> (nat \<Rightarrow> FileMetaData \<Rightarrow> 's) \<Rightarrow> nat \<Rightarrow> ('s, 's LevelIterator) version_child list" where
  "level_children v new_iterator l =
     (if is_nvmcf v \<and> l = 0 \<or> LevelFiles v l = [] then []
      else if l = 0 then map (\<lambda>f. TableChild (new_iterator 0 f)) (LevelFiles v 0)
      else [LevelChild (new_level (LevelFiles v l) (new_iterator l))])"

definition version_children :: "VersionStorageInfo \<Rightarrow> (nat \<Rightarrow> FileMetaData \<Rightarrow> 's) \<Rightarrow> ('s, 's LevelIterator) version_child list" where
  "version_children v new_iterator = concat (map (level_children v new_iterator) [0..<num_non_empty_levels v])"

definition version_holds ::
    "(slice \<Rightarrow> slice \<Rightarrow> int) \<Rightarrow> 's InternalIterator \<Rightarrow> ('s \<Rightarrow> (slice \<times> slice) list) \<Rightarrow> ('s \<Rightarrow> bool) \<Rightarrow> (nat \<Rightarrow> FileMetaData \<Rightarrow> 's) \<Rightarrow>
     VersionStorageInfo \<Rightarrow> (slice \<times> slice) list list list \<Rightarrow> bool" where
  "version_holds ucmp ops entries ok new_iterator v vdata \<longleftrightarrow> length vdata = num_levels v
     \<and> list_all (\<lambda>l. list_all2 (file_holds ucmp ops entries ok (new_iterator l)) (LevelFiles v l) (vdata ! l)
          \<and> (0 < l \<longrightarrow> level_ok ucmp (LevelFiles v l))) [0..<num_levels v]"

text \<open>The files that the iterators of the version cover: with NVM, level 0 has iterators of its own.\<close>

definition scanned :: "VersionStorageInfo \<Rightarrow> 'a list list \<Rightarrow> 'a list" where
  "scanned v vdata = concat (if is_nvmcf v then tl vdata else vdata)"

lemma mib_AddAll_append: "mib_AddAll ops (xs @ ys) b = run_then (mib_AddAll ops xs b) (mib_AddAll ops ys)"
  by (induction xs arbitrary: b) (auto simp: run_then_def split: option.splits sum.splits)

lemma add_levels_children:
  "\<forall>l \<in> set levels. l < num_non_empty_levels v \<Longrightarrow>
   add_levels ucmp ops new_iterator None v levels b
     = mib_AddAll (version_ops ucmp ops) (concat (map (level_children v new_iterator) levels)) b"
proof (induction levels arbitrary: b)
  case (Cons l levels)
  then have "AddIteratorsForLevel ucmp ops new_iterator None v l b = mib_AddAll (version_ops ucmp ops) (level_children v new_iterator l) b"
    if "\<not> (is_nvmcf v \<and> l = 0)"
    using that by (auto simp: AddIteratorsForLevel_def level_children_def LevelIterator_new_level run_then_def split: option.splits sum.splits)
  moreover have "level_children v new_iterator l = []" if "is_nvmcf v \<and> l = 0" using that by (simp add: level_children_def)
  moreover have "add_levels ucmp ops new_iterator None v levels = mib_AddAll (version_ops ucmp ops) (concat (map (level_children v new_iterator) levels))"
    using Cons by (intro ext) simp
  ultimately show ?case by (auto simp: mib_AddAll_append)
qed simp

lemma non_empty_levels_spec:
  "non_empty_levels fs n \<le> n" "non_empty_levels fs n \<le> l \<Longrightarrow> l < n \<Longrightarrow> fs ! l = []"
  by (induction n) (auto simp: le_Suc_eq less_Suc_eq split: if_splits)

lemma version_children_length: "length (version_children (UpdateNumNonEmptyLevels v) new_iterator) \<le> length (concat (vs_files v))"
proof -
  let ?n = "non_empty_levels (vs_files v) (num_levels v)" and ?c = "level_children (UpdateNumNonEmptyLevels v) new_iterator"
  have "length (?c l) \<le> length (vs_files v ! l)" for l
    by (auto simp: level_children_def LevelFiles_def UpdateNumNonEmptyLevels_def Suc_le_eq)
  then have "length (concat (map ?c [0..<?n])) \<le> length (concat (map ((!) (vs_files v)) [0..<?n]))"
    by (simp add: length_concat comp_def sum_list_mono)
  also have "map ((!) (vs_files v)) [0..<?n] = take ?n (vs_files v)"
    using non_empty_levels_spec(1) [of "vs_files v" "num_levels v"] by (intro nth_equalityI) (simp_all add: num_levels_def)
  also have "length (concat (take ?n (vs_files v))) \<le> length (concat (vs_files v))"
    by (subst (2) append_take_drop_id [of ?n, symmetric]) (simp del: append_take_drop_id)
  finally show ?thesis by (simp add: version_children_def UpdateNumNonEmptyLevels_def)
qed

context user_comparator
begin

lemma holds_between:
  assumes "level_ok ucmp fs" "list_all2 (file_holds ucmp ops entries ok new_iterator) fs data" "i < j" "j < length fs"
    and "x \<in> set (data ! j)"
  shows "InternalKeyComparator_Compare ucmp (fm_largest (fs ! i)) (fst x) < 0"
proof -
  have "InternalKeyComparator_Compare ucmp (fm_smallest (fs ! j)) (fst x) \<le> 0"
    using assms(2,4,5) by (auto simp: list_all2_conv_all_nth file_holds_def list_all_iff)
  then show ?thesis using level_okD(4) [OF assms(1,4,3)] ikc.cmp_less_le_trans by blast
qed

lemma new_level_holds:
  assumes ok: "level_ok ucmp fs" and h: "list_all2 (file_holds ucmp ops entries ok new_iterator) fs data" and ne: "fs \<noteq> []"
  shows "lv_ok (InternalKeyComparator_Compare ucmp) entries pos ok (new_level fs new_iterator)"
    and "level_entries entries (new_level fs new_iterator) = concat data"
    and "sorted_keys (InternalKeyComparator_Compare ucmp) (map fst (concat data))"
proof -
  let ?icmp = "InternalKeyComparator_Compare ucmp" and ?s = "new_level fs new_iterator"
  have len: "length data = length fs" using h by (simp add: list_all2_lengthD)
  have f: "file_holds ucmp ops entries ok new_iterator (fs ! i) (data ! i)" if "i < length fs" for i
    using h that by (simp add: list_all2_conv_all_nth)
  have d: "level_data entries ?s i = data ! i" if "i < length fs" for i
    using f [OF that] by (simp add: level_data_def new_level_def file_holds_def)
  then have "map (level_data entries ?s) [0..<length fs] = data" using len by (intro nth_equalityI) simp_all
  then show e: "level_entries entries ?s = concat data" by (simp add: level_entries_def new_level_def)
  have below: "?icmp (fst x) (fm_largest (fs ! i)) \<le> 0" if "i < length fs" "x \<in> set (data ! i)" for i x
    using f [OF that(1)] that(2) by (auto simp: file_holds_def list_all_iff)
  note above = holds_between [OF ok h]
  have "?icmp (fm_largest (fs ! i)) (fm_largest (fs ! j)) < 0" if "i < j" "j < length fs" for i j
    using level_okD(3) [OF ok that(2)] level_okD(4) [OF ok that(2,1)] ikc.cmp_less_le_trans by blast
  then have "level_files_ok ?icmp entries ok ?s"
    using ne f below above d by (auto simp: level_files_ok_def new_level_def file_holds_def)
  then show "lv_ok ?icmp entries pos ok ?s" by (simp add: lv_ok_def lv_at_def lv_pos_def new_level_def)
  have "sorted_wrt (\<lambda>a b. ?icmp (fst a) (fst b) < 0) (concat data)"
  proof (rule sorted_wrt_concat)
    show "\<forall>e \<in> set data. sorted_wrt (\<lambda>a b. ?icmp (fst a) (fst b) < 0) e"
      using f len by (auto simp: in_set_conv_nth file_holds_def sorted_keys_def sorted_wrt_map)
    show "sorted_wrt (\<lambda>a b. \<forall>x \<in> set a. \<forall>y \<in> set b. ?icmp (fst x) (fst y) < 0) data"
      using below above ikc.cmp_le_less_trans len by (auto simp: sorted_wrt_iff_nth_less) (meson less_trans)
  qed
  then show "sorted_keys ?icmp (map fst (concat data))" by (simp add: sorted_keys_def sorted_wrt_map)
qed

lemma level_children_hold:
  assumes h: "version_holds ucmp ops entries ok new_iterator v vdata" and l: "l < num_levels v"
  shows "concat (map (on_child entries (level_entries entries)) (level_children v new_iterator l))
      = (if is_nvmcf v \<and> l = 0 then [] else concat (vdata ! l))"
    and "c \<in> set (level_children v new_iterator l) \<Longrightarrow>
      on_child ok (lv_ok (InternalKeyComparator_Compare ucmp) entries pos ok) c \<and> \<not> io_Valid (version_ops ucmp ops) c
      \<and> sorted_keys (InternalKeyComparator_Compare ucmp) (map fst (on_child entries (level_entries entries) c))"
proof -
  let ?fs = "LevelFiles v l" and ?d = "vdata ! l"
  have f: "list_all2 (file_holds ucmp ops entries ok (new_iterator l)) ?fs ?d" and ok: "0 < l \<Longrightarrow> level_ok ucmp ?fs"
    using h l by (simp_all add: version_holds_def list_all_iff)
  have "map (\<lambda>f. entries (new_iterator l f)) ?fs = ?d" using f
    by (auto simp: list_all2_conv_all_nth file_holds_def intro: nth_equalityI)
  then show "concat (map (on_child entries (level_entries entries)) (level_children v new_iterator l))
      = (if is_nvmcf v \<and> l = 0 then [] else concat ?d)"
    using f ok new_level_holds(2) [OF _ f] by (auto simp: level_children_def comp_def)
  show "on_child ok (lv_ok (InternalKeyComparator_Compare ucmp) entries pos ok) c \<and> \<not> io_Valid (version_ops ucmp ops) c
      \<and> sorted_keys (InternalKeyComparator_Compare ucmp) (map fst (on_child entries (level_entries entries) c))"
    if mem: "c \<in> set (level_children v new_iterator l)"
  proof (cases "l = 0")
    case True
    then obtain f where c: "c = TableChild (new_iterator 0 f)" "f \<in> set (LevelFiles v 0)" using mem by (auto simp: level_children_def split: if_splits)
    then obtain e where "file_holds ucmp ops entries ok (new_iterator 0) f e"
      using f True unfolding list_all2_conv_all_nth in_set_conv_nth by metis
    then show ?thesis using c(1) by (simp add: file_holds_def version_ops_def child_ops_def)
  next
    case False
    then have "c = LevelChild (new_level ?fs (new_iterator l))" "?fs \<noteq> []" using mem by (auto simp: level_children_def split: if_splits)
    then show ?thesis using new_level_holds [OF ok f] False
      by (simp add: version_ops_def child_ops_def Level_ops_def) (simp add: Level_Valid_def new_level_def)
  qed
qed

lemma version_children_hold:
  assumes h: "version_holds ucmp ops entries ok new_iterator (UpdateNumNonEmptyLevels v) vdata"
  defines "cs \<equiv> version_children (UpdateNumNonEmptyLevels v) new_iterator"
  shows "concat (map (on_child entries (level_entries entries)) cs) = concat (scanned v vdata)"
    and "c \<in> set cs \<Longrightarrow>
      on_child ok (lv_ok (InternalKeyComparator_Compare ucmp) entries pos ok) c \<and> \<not> io_Valid (version_ops ucmp ops) c
      \<and> sorted_keys (InternalKeyComparator_Compare ucmp) (map fst (on_child entries (level_entries entries) c))"
proof -
  let ?v = "UpdateNumNonEmptyLevels v" and ?e = "on_child entries (level_entries entries)"
  let ?n = "non_empty_levels (vs_files v) (num_levels v)"
  have n: "num_non_empty_levels ?v = ?n" "num_levels ?v = num_levels v" "is_nvmcf ?v = is_nvmcf v" "vs_files ?v = vs_files v"
    by (simp_all add: UpdateNumNonEmptyLevels_def num_levels_def)
  have le: "?n \<le> num_levels v" by (rule non_empty_levels_spec)
  define D where "D l = (if is_nvmcf v \<and> l = 0 then [] else concat (vdata ! l))" for l
  have d: "concat (map ?e (level_children ?v new_iterator l)) = D l" if "l < num_levels v" for l
    using level_children_hold(1) [OF h] that n by (simp add: D_def)
  have empty: "D l = []" if "?n \<le> l" "l < num_levels v" for l
  proof -
    have "LevelFiles ?v l = []" using non_empty_levels_spec(2) [OF that] n(4) by (simp add: LevelFiles_def)
    then show ?thesis using d [OF that(2)] by (simp add: level_children_def)
  qed
  have len: "length vdata = num_levels v" using h n by (simp add: version_holds_def)
  have "concat (map ?e cs) = concat (map D [0..<?n])"
  proof -
    have "concat (map ?e (concat (map (level_children ?v new_iterator) ls))) = concat (map D ls)" if "\<forall>l \<in> set ls. l < num_levels v" for ls
      using that by (induction ls) (simp_all add: d)
    then show ?thesis using le n(1) by (simp add: cs_def version_children_def)
  qed
  also have "\<dots> = concat (map D [0..<num_levels v])"
  proof -
    have "[0..<num_levels v] = [0..<?n] @ [?n..<num_levels v]" using upt_add_eq_append [of 0 ?n "num_levels v - ?n"] le by simp
    moreover have "concat (map D [?n..<num_levels v]) = []" using empty by simp
    ultimately show ?thesis by simp
  qed
  also have "\<dots> = concat (scanned v vdata)"
  proof (cases vdata)
    case (Cons a vs)
    then have "[0..<num_levels v] = 0 # map Suc [0..<length vs]" using len by (simp add: upt_conv_Cons map_Suc_upt)
    moreover have "map D (map Suc [0..<length vs]) = map concat vs" using Cons by (intro nth_equalityI) (simp_all add: D_def)
    moreover have "concat (map concat vs) = concat (concat vs)" by (induction vs) simp_all
    ultimately show ?thesis using Cons by (simp add: scanned_def D_def)
  qed (use len in \<open>simp add: scanned_def\<close>)
  finally show "concat (map ?e cs) = concat (scanned v vdata)" .
  show "on_child ok (lv_ok (InternalKeyComparator_Compare ucmp) entries pos ok) c \<and> \<not> io_Valid (version_ops ucmp ops) c
      \<and> sorted_keys (InternalKeyComparator_Compare ucmp) (map fst (?e c))" if c: "c \<in> set cs"
  proof -
    obtain l where l: "l < ?n" "c \<in> set (level_children ?v new_iterator l)" using c n(1) by (auto simp: cs_def version_children_def)
    then show ?thesis using le n(2) by (intro level_children_hold(2) [OF h _ l(2)]) simp
  qed
qed

end

context internal_iterator
begin

text \<open>The builder on no child and on one.\<close>

lemma mib_built_small:
  "\<exists>b. run_then (MergeIteratorBuilder_new icmp ops prefix_mode) (mib_AddAll ops []) = returns b \<and> mib_Finish b = NullIterator"
  "\<exists>b. run_then (MergeIteratorBuilder_new icmp ops prefix_mode) (mib_AddAll ops [it]) = returns b \<and> mib_Finish b = ChildIterator it"
proof -
  obtain m where "MergingIterator_new icmp ops [] prefix_mode = returns m"
    using MergingIterator_new_fresh [of "[]" prefix_mode] by (auto simp: kMaxSizet_def)
  then show "\<exists>b. run_then (MergeIteratorBuilder_new icmp ops prefix_mode) (mib_AddAll ops []) = returns b \<and> mib_Finish b = NullIterator"
    and "\<exists>b. run_then (MergeIteratorBuilder_new icmp ops prefix_mode) (mib_AddAll ops [it]) = returns b \<and> mib_Finish b = ChildIterator it"
    by (simp_all add: MergeIteratorBuilder_new_def mib_AddIterator_def mib_Finish_def)
qed

end

text \<open>Whatever the builder gives answers as a cursor on \<open>ms\<close>; it gives no iterator only if there is nothing to iterate over.\<close>

definition scans_as ::
    "(slice \<Rightarrow> slice \<Rightarrow> int) \<Rightarrow> 's InternalIterator \<Rightarrow> (slice \<times> slice) list \<Rightarrow> merge_op list \<Rightarrow> 's BuiltIterator \<Rightarrow> bool" where
  "scans_as icmp ops ms xs it \<longleftrightarrow>
     (case it of
        MergedIterator m \<Rightarrow>
          (case cursor_run icmp ms xs None of
             Inl e \<Rightarrow> mi_run icmp ops xs m = fails e
           | Inr q \<Rightarrow> \<exists>m'. mi_run icmp ops xs m = returns m' \<and> reads_as ops ms m' q)
      | ChildIterator c \<Rightarrow>
          (case cursor_run icmp ms xs None of
             Inl e \<Rightarrow> io_run ops xs c = fails e
           | Inr q \<Rightarrow> \<exists>c'. io_run ops xs c = returns c' \<and> io_reads ops ms c' q)
      | NullIterator \<Rightarrow> ms = []
      | EmptyIterator \<Rightarrow> False)"

context guarded_iterator
begin

lemma mib_scans:
  assumes f: "\<forall>it \<in> set its. ok it \<and> \<not> io_Valid ops it" and n: "length its < kMaxSizet" and mg: "merge_of icmp (map entries its) ms"
  shows "\<exists>b. run_then (MergeIteratorBuilder_new icmp ops prefix_mode) (mib_AddAll ops its) = returns b \<and> scans_as icmp ops ms xs (mib_Finish b)"
proof -
  consider "its = []" | it where "its = [it]" | "2 \<le> length its" by (cases its; cases "tl its") auto
  then show ?thesis
  proof cases
    case 1
    then show ?thesis using mib_built_small(1) [of prefix_mode] mg by (auto simp: scans_as_def merge_of_def)
  next
    case (2 it)
    then have m: "merge_of icmp [entries it] ms" using mg by simp
    have "ms = entries it"
    proof (rule sorted_wrt_unique [where R = "\<lambda>a b. icmp (fst a) (fst b) < 0"])
      have "mset ms = mset (entries it)" using m by (simp add: merge_of_def)
      then show "set ms = set (entries it)" by (rule mset_eq_setD)
    qed (use m merge_of_asym [OF three_way_axioms] in \<open>simp_all add: merge_of_def\<close>)
    then have "follows ops entries pos ok ms it None" "sorted_keys icmp (map fst ms)"
      using 2 f mg by (simp_all add: follows_def merge_of_def sorted_keys_def sorted_wrt_map)
    then have "scans_as icmp ops ms xs (ChildIterator it)" using io_run_follows by (simp add: scans_as_def)
    then show ?thesis using mib_built_small(2) [of prefix_mode it] 2 by auto
  next
    case 3
    obtain b m where b: "run_then (MergeIteratorBuilder_new icmp ops prefix_mode) (mib_AddAll ops its) = returns b"
        "mib_Finish b = MergedIterator m" "unpositioned entries ok (map entries its) m"
      using mib_built [OF f n 3] by blast
    have "case cursor_run icmp ms xs None of
        Inl e \<Rightarrow> mi_run icmp ops xs m = fails e
      | Inr q \<Rightarrow> \<exists>m'. mi_run icmp ops xs m = returns m' \<and> stands_at icmp entries pos ok (map entries its) ms m' q"
      by (rule mi_run_simulates [where P = "\<lambda>_. True"]) (use b(3) step_ok [OF mg] in \<open>simp_all add: stands_at_def list_all_iff\<close>)
    then show ?thesis using b(1,2) stands_at_reads [OF mg] by (auto simp: scans_as_def split: sum.splits)
  qed
qed

end

section \<open>Properties\<close>

text \<open>C14: the iterator of a level is a cursor on the entries of its files. For files that are apart, with iterators of their
  tables that keep the contract, a new \<open>LevelIterator\<close> answers every sequence of operations as a cursor on the concatenated
  entries: it opens the file that a search asks for, goes on to the next or the previous file at the end of one, passes
  over empty files in both directions, and returns from each call.\<close>

theorem LevelIterator_refines_cursor:
  assumes "user_comparator ucmp" "reversible_iterator (InternalKeyComparator_Compare ucmp) ops entries pos ok"
    and "\<And>t. ok t \<Longrightarrow> \<not> io_IsOutOfBound ops t" and "fs \<noteq> []" "level_ok ucmp fs"
    and "list_all2 (file_holds ucmp ops entries ok new_iterator) fs data"
  shows "\<exists>s. LevelIterator_new fs new_iterator None = Inr s
    \<and> (case cursor_run (InternalKeyComparator_Compare ucmp) (concat data) xs None of
         Inl e \<Rightarrow> io_run (Level_ops ucmp ops) xs s = fails e
       | Inr q \<Rightarrow> \<exists>s'. io_run (Level_ops ucmp ops) xs s = returns s' \<and> io_reads (Level_ops ucmp ops) (concat data) s' q)"
proof -
  let ?icmp = "InternalKeyComparator_Compare ucmp"
  have g: "guarded_iterator ?icmp (Level_ops ucmp ops) (level_entries entries) (lv_pos entries pos) (lv_ok ?icmp entries pos ok)"
    by (rule reversible_iterator.Level_guarded_iterator [OF assms(2,3) refl])
  note new = user_comparator.new_level_holds [OF assms(1,5,6,4)]
  have "follows (Level_ops ucmp ops) (level_entries entries) (lv_pos entries pos) (lv_ok ?icmp entries pos ok) (concat data)
      (new_level fs new_iterator) None"
    using new(1,2) by (simp add: follows_def Level_ops_def Level_Valid_def) (simp add: new_level_def)
  then show ?thesis using guarded_iterator.io_run_follows [OF g new(3)] LevelIterator_new_level [OF assms(4)] by blast
qed

text \<open>C4: a scan of a version returns its live entries in order. The children that \<open>AddIterators\<close> gives to the builder, the
  tables of level 0 and an iterator for each level below, answer together as a cursor on the merge of all files; with NVM the
  files of level 0 are left to the iterators of the column family in NVM. Every call returns.\<close>

theorem version_scan_in_order:
  assumes "user_comparator ucmp" "guarded_iterator (InternalKeyComparator_Compare ucmp) ops entries pos ok"
    and "\<And>t. ok t \<Longrightarrow> \<not> io_IsOutOfBound ops t"
    and "version_holds ucmp ops entries ok new_iterator (UpdateNumNonEmptyLevels v) vdata"
    and "length (concat (vs_files v)) < kMaxSizet"
    and "merge_of (InternalKeyComparator_Compare ucmp) (scanned v vdata) ms"
  shows "\<exists>b. run_then (MergeIteratorBuilder_new (InternalKeyComparator_Compare ucmp) (version_ops ucmp ops) prefix_mode)
      (Version_AddIterators ucmp ops new_iterator None (UpdateNumNonEmptyLevels v)) = returns b
    \<and> scans_as (InternalKeyComparator_Compare ucmp) (version_ops ucmp ops) ms xs (mib_Finish b)"
proof -
  let ?icmp = "InternalKeyComparator_Compare ucmp" and ?v = "UpdateNumNonEmptyLevels v"
  let ?cs = "version_children ?v new_iterator" and ?e = "on_child entries (level_entries entries)"
  note hold = user_comparator.version_children_hold [OF assms(1,4)]
  have g: "guarded_iterator ?icmp (version_ops ucmp ops) ?e (on_child pos (lv_pos entries pos)) (on_child ok (lv_ok ?icmp entries pos ok))"
    unfolding version_ops_def
    by (rule child_guarded_iterator [OF assms(2) reversible_iterator.Level_guarded_iterator [OF guarded_iterator.axioms(1) [OF assms(2)] assms(3) refl]])
  have "Version_AddIterators ucmp ops new_iterator None ?v = mib_AddAll (version_ops ucmp ops) ?cs"
    by (simp add: Version_AddIterators_def version_children_def add_levels_children fun_eq_iff)
  moreover have "merge_of ?icmp (map ?e ?cs) ms"
    using assms(6) hold by (simp add: merge_of_def list_all_iff sorted_keys_def sorted_wrt_map)
  moreover have "length ?cs < kMaxSizet" using assms(5) version_children_length [of v new_iterator] by simp
  ultimately show ?thesis
    using guarded_iterator.mib_scans [OF g, of ?cs ms prefix_mode xs] hold(2) by simp
qed

text \<open>Tables of one block each, as an example.\<close>

definition table_between :: "slice \<Rightarrow> slice \<Rightarrow> FileMetaData" where
  "table_between a b = FileMetaData_init\<lparr>fm_smallest := a, fm_largest := b\<rparr>"

definition key_of :: "byte \<Rightarrow> slice" where
  "key_of c = InternalKey [c] 5 1"

lemma block_file_holds:
  assumes "open_block (block_bytes k dl e) kDisableGlobalSequenceNumber = Inr it" "new_iterator f = it" "data_block_ok k dl e"
    and "sorted_keys (InternalKeyComparator_Compare ucmp) (map fst e)"
    and "list_all (\<lambda>x. InternalKeyComparator_Compare ucmp (fm_smallest f) (fst x) \<le> 0 \<and> InternalKeyComparator_Compare ucmp (fst x) (fm_largest f) \<le> 0) e"
  shows "file_holds ucmp (DataBlock_ops icmp) db_entries db_ok new_iterator f e"
proof -
  have "rests_at k dl e (-1) it" using open_block_rests [OF assms(3)] assms(1) by auto
  then show ?thesis using assms(2,4,5) db_okI [OF assms(3)] rests_at_Valid [of k dl e "-1" it] by (simp add: file_holds_def DataBlock_ops_def)
qed

lemma example_blocks:
  "data_block_ok 1 False []" "data_block_ok 1 False [(key_of 97, [7]), (key_of 98, [8])]" "data_block_ok 1 False [(key_of 101, [9])]"
proof -
  have "length (block_bytes 1 False []) = 8" "length (block_bytes 1 False [(key_of 97, [7]), (key_of 98, [8])]) = 38"
      "length (block_bytes 1 False [(key_of 101, [9])]) = 21"
    by code_simp+
  then show "data_block_ok 1 False []" "data_block_ok 1 False [(key_of 97, [7]), (key_of 98, [8])]" "data_block_ok 1 False [(key_of 101, [9])]"
    by (simp_all add: data_block_ok_def)
qed

definition example_files :: "FileMetaData list" where
  "example_files = [table_between (key_of 97) (key_of 98), table_between (key_of 99) (key_of 100), table_between (key_of 101) (key_of 101)]"

definition example_data :: "(slice \<times> slice) list list" where
  "example_data = [[(key_of 97, [7]), (key_of 98, [8])], [], [(key_of 101, [9])]]"

lemma example_iterators:
  "\<exists>new_iterator. list_all2 (\<lambda>f e. open_block (block_bytes 1 False e) kDisableGlobalSequenceNumber = Inr (new_iterator f)
      \<and> file_holds Bytewise_Compare (DataBlock_ops (InternalKeyComparator_Compare Bytewise_Compare)) db_entries db_ok new_iterator f e)
    example_files example_data"
proof -
  let ?f = "\<lambda>i. example_files ! i" and ?e = "\<lambda>i. example_data ! i"
  have d: "data_block_ok 1 False (?e i)" if "i < 3" for i
    using that example_blocks by (auto simp: example_data_def less_Suc_eq numeral_3_eq_3)
  then have "\<forall>i. \<exists>it. i < 3 \<longrightarrow> open_block (block_bytes 1 False (?e i)) kDisableGlobalSequenceNumber = Inr it"
    using open_block_rests by blast
  then obtain it where it: "open_block (block_bytes 1 False (?e i)) kDisableGlobalSequenceNumber = Inr (it i)" if "i < 3" for i
    by metis
  define new_iterator where "new_iterator f = (if f = ?f 0 then it 0 else if f = ?f 1 then it 1 else it 2)" for f
  have "key_of 97 \<noteq> key_of 99" "key_of 97 \<noteq> key_of 101" "key_of 99 \<noteq> key_of 101" by code_simp+
  then have "fm_smallest (?f 0) \<noteq> fm_smallest (?f 1)" "fm_smallest (?f 0) \<noteq> fm_smallest (?f 2)" "fm_smallest (?f 1) \<noteq> fm_smallest (?f 2)"
    by (simp_all add: example_files_def table_between_def)
  then have "?f 0 \<noteq> ?f 1" "?f 0 \<noteq> ?f 2" "?f 1 \<noteq> ?f 2" by metis+
  then have n: "new_iterator (?f i) = it i" if "i < 3" for i using that by (auto simp: new_iterator_def less_Suc_eq numeral_3_eq_3 numeral_2_eq_2)
  have sorted: "list_all2 (\<lambda>f e. sorted_keys (InternalKeyComparator_Compare Bytewise_Compare) (map fst e)
      \<and> list_all (\<lambda>x. InternalKeyComparator_Compare Bytewise_Compare (fm_smallest f) (fst x) \<le> 0
          \<and> InternalKeyComparator_Compare Bytewise_Compare (fst x) (fm_largest f) \<le> 0) e) example_files example_data" by code_simp
  have len: "length example_files = 3" "length example_data = 3" by (simp_all add: example_files_def example_data_def)
  have "file_holds Bytewise_Compare (DataBlock_ops (InternalKeyComparator_Compare Bytewise_Compare)) db_entries db_ok new_iterator (?f i) (?e i)"
    if "i < 3" for i
    by (rule block_file_holds [where f = "?f i" and new_iterator = new_iterator, OF it [OF that] n [OF that] d [OF that]]) (use sorted that len in \<open>simp_all add: list_all2_conv_all_nth\<close>)
  then show ?thesis using it n by (intro exI [of _ new_iterator]) (simp add: list_all2_conv_all_nth len)
qed

theorem LevelIterator_refines_cursor_witness:
  "\<exists>new_iterator s s'. list_all2 (\<lambda>f e. open_block (block_bytes 1 False e) kDisableGlobalSequenceNumber = Inr (new_iterator f)) example_files example_data
     \<and> LevelIterator_new example_files new_iterator None = Inr s
     \<and> io_run (Level_ops Bytewise_Compare (DataBlock_ops (InternalKeyComparator_Compare Bytewise_Compare))) [OpSeek (key_of 99), OpPrev] s = returns s'
     \<and> Level_Valid s' \<and> Level_key s' = Inr (key_of 98)"
proof -
  let ?ops = "DataBlock_ops (InternalKeyComparator_Compare Bytewise_Compare)" and ?xs = "[OpSeek (key_of 99), OpPrev]"
  let ?icmp = "InternalKeyComparator_Compare Bytewise_Compare"
  obtain new_iterator where new: "list_all2 (\<lambda>f e. open_block (block_bytes 1 False e) kDisableGlobalSequenceNumber = Inr (new_iterator f)
      \<and> file_holds Bytewise_Compare ?ops db_entries db_ok new_iterator f e) example_files example_data"
    using example_iterators by blast
  have "level_ok Bytewise_Compare example_files" by code_simp
  moreover have "list_all2 (file_holds Bytewise_Compare ?ops db_entries db_ok new_iterator) example_files example_data"
    using new by (rule list_all2_mono) simp
  moreover have "example_files \<noteq> []" by (simp add: example_files_def)
  ultimately have "\<exists>s. LevelIterator_new example_files new_iterator None = Inr s
    \<and> (case cursor_run ?icmp (concat example_data) ?xs None of
         Inl e \<Rightarrow> io_run (Level_ops Bytewise_Compare ?ops) ?xs s = fails e
       | Inr q \<Rightarrow> \<exists>s'. io_run (Level_ops Bytewise_Compare ?ops) ?xs s = returns s' \<and> io_reads (Level_ops Bytewise_Compare ?ops) (concat example_data) s' q)"
    by (intro LevelIterator_refines_cursor [OF bytewise_keys.user_comparator_axioms data_block.reversible_iterator_axioms])
      (simp_all add: DataBlock_ops_def)
  moreover have "cursor_run ?icmp (concat example_data) ?xs None = Inr (Some 1)" by code_simp
  ultimately obtain s s' where "LevelIterator_new example_files new_iterator None = Inr s"
      "io_run (Level_ops Bytewise_Compare ?ops) ?xs s = returns s'" "io_reads (Level_ops Bytewise_Compare ?ops) (concat example_data) s' (Some 1)"
    by auto
  moreover have "list_all2 (\<lambda>f e. open_block (block_bytes 1 False e) kDisableGlobalSequenceNumber = Inr (new_iterator f)) example_files example_data"
    using new by (rule list_all2_mono) simp
  ultimately show ?thesis
    by (intro exI conjI) (assumption | simp add: io_reads_def cursor_valid_def cursor_at_def Level_ops_def example_data_def)+
qed

theorem version_scan_in_order_witness:
  "\<exists>new_iterator b.
     list_all2 (\<lambda>f e. open_block (block_bytes 1 False e) kDisableGlobalSequenceNumber = Inr (new_iterator f)) example_files example_data
     \<and> run_then (MergeIteratorBuilder_new (InternalKeyComparator_Compare Bytewise_Compare)
         (version_ops Bytewise_Compare (DataBlock_ops (InternalKeyComparator_Compare Bytewise_Compare))) False)
       (Version_AddIterators Bytewise_Compare (DataBlock_ops (InternalKeyComparator_Compare Bytewise_Compare)) (\<lambda>_. new_iterator) None
          (UpdateNumNonEmptyLevels \<lparr>vs_files = [[example_files ! 2], take 2 example_files, []], num_non_empty_levels = 0, is_nvmcf = False\<rparr>)) = returns b
     \<and> scans_as (InternalKeyComparator_Compare Bytewise_Compare)
         (version_ops Bytewise_Compare (DataBlock_ops (InternalKeyComparator_Compare Bytewise_Compare)))
         (concat example_data) [OpSeekToFirst, OpNext, OpNext, OpPrev] (mib_Finish b)"
proof -
  let ?ops = "DataBlock_ops (InternalKeyComparator_Compare Bytewise_Compare)" and ?xs = "[OpSeekToFirst, OpNext, OpNext, OpPrev]"
  let ?icmp = "InternalKeyComparator_Compare Bytewise_Compare"
  let ?vops = "version_ops Bytewise_Compare ?ops"
  let ?v = "\<lparr>vs_files = [[example_files ! 2], take 2 example_files, []], num_non_empty_levels = 0, is_nvmcf = False\<rparr>"
  let ?vdata = "[[example_data ! 2], take 2 example_data, []]" and ?ms = "concat example_data"
  obtain new_iterator where new: "list_all2 (\<lambda>f e. open_block (block_bytes 1 False e) kDisableGlobalSequenceNumber = Inr (new_iterator f)
      \<and> file_holds Bytewise_Compare ?ops db_entries db_ok new_iterator f e) example_files example_data"
    using example_iterators by blast
  have "level_ok Bytewise_Compare [example_files ! 0, example_files ! 1]" "level_ok Bytewise_Compare []" by code_simp+
  moreover have "UpdateNumNonEmptyLevels ?v = ?v\<lparr>num_non_empty_levels := 2\<rparr>"
    by (simp add: UpdateNumNonEmptyLevels_def num_levels_def numeral_3_eq_3 example_files_def)
  ultimately have "version_holds Bytewise_Compare ?ops db_entries db_ok (\<lambda>_. new_iterator) (UpdateNumNonEmptyLevels ?v) ?vdata"
    using new by (simp add: version_holds_def num_levels_def LevelFiles_def example_files_def example_data_def upt_rec numeral_3_eq_3)
  moreover have "merge_of ?icmp (scanned ?v ?vdata) ?ms"
    by (simp add: merge_of_def scanned_def) code_simp
  ultimately have "\<exists>b. run_then (MergeIteratorBuilder_new ?icmp ?vops False)
      (Version_AddIterators Bytewise_Compare ?ops (\<lambda>_. new_iterator) None (UpdateNumNonEmptyLevels ?v)) = returns b
    \<and> scans_as ?icmp ?vops ?ms ?xs (mib_Finish b)"
    by (intro version_scan_in_order [OF bytewise_keys.user_comparator_axioms data_block.guarded_iterator_axioms])
      (simp_all add: DataBlock_ops_def kMaxSizet_def example_files_def)
  moreover have "list_all2 (\<lambda>f e. open_block (block_bytes 1 False e) kDisableGlobalSequenceNumber = Inr (new_iterator f)) example_files example_data"
    using new by (rule list_all2_mono) simp
  ultimately show ?thesis by blast
qed

end
