(* ===== verification/Spec2Isabelle.thy ===== *)
theory Spec2Isabelle
  imports ColumnCompaction VersionBuilders IterKeys MergingIterators LogReplay BloomFilters LevelIterators
begin

text \<open>
  A verification development of MatrixKV, a RocksDB fork that keeps level 0 of a column family in non-volatile memory as a
  matrix container: a list of tables (rows) with a sorted array of keys each, which column compaction moves to level 1 one
  range of keys (a column) at a time.

  \<^bold>\<open>The parts and how they interact.\<close> A write is appended to the write-ahead log and goes to a memtable. A flush builds a row table
  (\<open>l0_table_builder.cc\<close>) in a slot of the persistent pool (\<open>persistent_sstable.h\<close>, \<open>bitmap.cc\<close>) and registers it in the table list
  (\<open>sstable_meta.cc\<close>) with hints into the next older table. A point query searches the tables from newest to oldest
  (\<open>NvmCfModule::Get\<close>); a scan merges their iterators and those of the levels below (\<open>merging_iterator.cc\<close> over \<open>util/heap.h\<close>). A column compaction merges the keys
  (\<open>keys_merge_iterator.h\<close>), picks a column and the level-1 files it meets, and records the change in a version edit
  (\<open>version_edit.cc\<close>), which the version builder (\<open>version_builder.cc\<close>) applies to the files of the current version
  (\<open>version_set.cc\<close>) and which is logged in the manifest in the format of the write-ahead log. All of them order internal keys
  (\<open>dbformat.cc\<close>) by a user comparator (\<open>comparator.cc\<close>) and store integers by \<open>coding.cc\<close>.

  \<^bold>\<open>Conventions.\<close> A \<open>uint32_t\<close> or \<open>uint64_t\<close> is a word where it may wrap around or is stored, and a natural number or an integer where
  the code uses it as an index or a size. A slice is a list of bytes. A failed assertion, an access out of bounds and a null
  pointer are values of \<open>fault\<close>; an operation that may meet one returns \<open>fault + 'a\<close>. A loop that may not end returns an option more
  (\<open>'a run\<close>), and the properties show that it returns. There is no fuel: the loops are structural, have a termination proof or are
  partial functions whose result is proved to exist. Pointers into a container are indices; an interface of the code with
  several implementations (a comparator, an iterator, a checksum routine) is a locale, interpreted by the model of the code.

  \<^bold>\<open>The theories.\<close>
  \<^item> \<open>Prelude\<close>: types, faults, the rewrite collections and facts on lists and words that several theories use.
  \<^item> \<open>Coding\<close> (\<open>util/coding.h\<close>, \<open>util/coding.cc\<close>): fixed-width and variable-width integers and length-prefixed slices. Locale
    \<open>slice_codec\<close> is the contract of a \<open>Get\<close> function and its encoding; round trips for every codec, and refusal of short input.
  \<^item> \<open>Comparator\<close> (\<open>util/comparator.cc\<close>, \<open>slice.h\<close>): locale \<open>three_way\<close>, a comparison that is a total preorder; the bytewise
    comparators keep it, and their separators and successors lie where the interface says.
  \<^item> \<open>DBFormat\<close> (\<open>db/dbformat.h\<close>, \<open>db/dbformat.cc\<close>): internal keys, packed tags, lookup keys, the internal key comparator over any user
    comparator (locales \<open>user_comparator\<close> and \<open>key_shortener\<close>). \<open>IterKeys\<close>: the class \<open>IterKey\<close> refines the key it holds.
  \<^item> \<open>BitMap\<close>, \<open>PersistentPool\<close>: the slot map with its 32-bit words as a set of slots; allocation and release of slots (locale
    \<open>slot_allocator\<close>).
  \<^item> \<open>SstableMeta\<close> (\<open>sstable_meta.cc\<close>): the doubly linked list of tables as the list from newest to oldest; lookup, deletion, choice of
    the tables for a compaction, the hints of the keys.
  \<^item> \<open>L0Table\<close> (\<open>l0_table_builder.cc\<close>): both builders; every record of a finished table is at its recorded place.
  \<^item> \<open>NvmCf\<close> (\<open>nvm_cf_mod.cc\<close>): the module: room for tables, deletion, point queries with hints, recovery from a version.
  \<^item> \<open>ColumnIterators\<close> (\<open>column_compaction_iterator.h\<close>): the iterators of one table (locales \<open>cursor\<close>, \<open>seekable_cursor\<close>).
    \<open>KeysMerge\<close> (\<open>keys_merge_iterator.h\<close>): the merge of the keys of all tables.
  \<^item> \<open>VersionEdits\<close> (\<open>db/version_edit.cc\<close>), \<open>VersionStorage\<close> (\<open>VersionStorageInfo\<close> in \<open>db/version_set.cc\<close>), \<open>VersionBuilders\<close>
    (\<open>db/version_builder.cc\<close>): the manifest records and their encoding, the searches for files that overlap a range, the
    application of edits (locale \<open>file_order\<close>).
  \<^item> \<open>ColumnCompaction\<close> (\<open>PickColumnCompaction\<close> in \<open>nvm_cf_mod.cc\<close>, \<open>column_compaction.h\<close>, \<open>nvm_option.cc\<close>, \<open>compaction.cc\<close>): the choice of a
    column, its setup and the deletions of its inputs.
  \<^item> \<open>BinaryHeap\<close> (\<open>util/heap.h\<close>, locale \<open>weak_order\<close>) and \<open>MergingIterators\<close> (\<open>table/merging_iterator.cc\<close>, \<open>iterator_wrapper.h\<close>,
    \<open>iter_heap.h\<close>, \<open>internal_iterator.h\<close>): the heap as a priority queue, and the merging iterator as a cursor on the merged entries, over any
    children that keep the contract of an iterator (locales \<open>internal_iterator\<close>, \<open>reversible_iterator\<close>, \<open>merge_side\<close>).
  \<^item> \<open>Crc32c\<close> (\<open>util/crc32c.cc\<close>, locale \<open>crc_engine\<close>) and \<open>WriteAheadLog\<close> (\<open>db/log_writer.cc\<close>, \<open>db/log_reader.cc\<close>): the checksum routines
    against the bitwise definition, and the log, read back after a crash at any byte.
  \<^item> \<open>WriteBatches\<close> (\<open>db/write_batch.cc\<close>, locale \<open>batch_handler\<close>) and \<open>LogReplay\<close> (\<open>db/db_impl_write.cc\<close>, \<open>db/db_impl_open.cc\<close>, \<open>db/write_batch.cc\<close>):
    batches as lists of records with save points, and the merge of a write group, its log record and its recovery.
  \<^item> \<open>BloomFilters\<close> (\<open>util/bloom.cc\<close>, \<open>util/dynamic_bloom.h\<close>, \<open>util/hash.cc\<close>, locale \<open>member_filter\<close>): the filters of tables and of memtables,
    with adds of several threads interleaved word by word; no key that was added is missed.
  \<^item> \<open>BlockBuilders\<close> (\<open>table/block_builder.cc\<close>, \<open>table/data_block_footer.cc\<close>) and \<open>DataBlocks\<close> (\<open>table/block.cc\<close>, \<open>table/block.h\<close>): a block as a
    function of its entries, and the iterator of a data block with its cache of previous entries as a cursor on them (locale
    \<open>guarded_iterator\<close> of \<open>MergingIterators\<close>); on arbitrary bytes every operation returns and keeps the types of the fields.
  \<^item> \<open>LevelIterators\<close> (\<open>LevelIterator\<close> and \<open>Version::AddIterators\<close> in \<open>db/version_set.cc\<close>): the iterator of a level over iterators of its
    tables, and the iterators of all levels of a version under the merging iterator.
  \<^item> This theory: a column compaction from the setup to the saved version, over \<open>ColumnCompaction\<close>, \<open>VersionEdits\<close> and
    \<open>VersionBuilders\<close>.

  \<^bold>\<open>What the properties show.\<close> For the matrix container: queries, scans and merges return the right records, slots are never
  shared, recovery rebuilds the module, and a column compaction moves exactly the keys it took. For the version files: round trips of
  the encodings, exact overlap searches, and edits that add and delete what they list. For the log: a reader gives back the
  complete records, and a group of batches comes back as the updates it was made of. For the levels below: a data block, a level
  and a version are scanned as cursors on their sorted entries, and the filters never miss a key. Properties of kind error state where the code departs from what its interface promises; the findings of the
  manifest list these places.

  \<^bold>\<open>Parameters.\<close> A user comparator and the machine instruction for the checksum are arguments with their documented laws as
  hypotheses; the bytewise comparator and a concrete instruction are the witnesses. The iterators of tables that the table cache gives out are an
  argument with the contract of an iterator; data blocks are the witness. The contents of files and of the persistent memory
  are byte lists.

  \<^bold>\<open>Not modelled.\<close>
  \<^item> Threads, mutexes and reference counts: an operation is one step, as under the mutex the code holds. So the flush job, the write
    threads, the memtables with their lock-free lists, and the schedulers of \<open>db_impl*.cc\<close> are not modelled.
  \<^item> File systems, persistent memory mapping and time: pure input and output below the byte lists.
  \<^item> The interleaved checksum routine with carry-less multiplication and the assembly for PowerPC, whose instructions the source only names.
  \<^item> The files of block-based tables around their data blocks: index blocks, the hash index of a data block, compression, properties,
    the block cache and the table cache; and the other table formats.
  \<^item> The insertion of a batch into memtables (\<open>MemTableInserter\<close>), transactions, merge operators, range tombstones above single
    records, and the user-level iterator of \<open>db_iter.cc\<close>.
  \<^item> In the level iterators: the pinning of blocks, sampling, and a scan with an upper bound, which is defined but only the scans without
    one are proved.
  \<^item> Options, statistics, tools and language bindings, which do not take part in storing or finding data.
\<close>

section \<open>A column compaction, from the choice of keys to the new version\<close>

text \<open>The live keys of level 0: those of the tables in the map of the level, from the first key index on.\<close>

definition live_of :: "SstableMetadata \<Rightarrow> (u64 \<rightharpoonup> FileMetaData) \<Rightarrow> (FileEntry \<times> nat) set" where
  "live_of m lm = {(f, j). \<exists>n g. lm n = Some g \<and> FindFile m n True = Some f
     \<and> unat (fm_first_key_index g) \<le> j \<and> j < keys_num f}"

text \<open>The version is one of an NVM column family, with the files of its levels in order.\<close>

definition column_version_ok :: "(slice \<Rightarrow> slice \<Rightarrow> int) \<Rightarrow> VersionStorageInfo \<Rightarrow> bool" where
  "column_version_ok ucmp v \<longleftrightarrow> 2 \<le> num_levels v \<and> num_non_empty_levels v \<le> num_levels v
     \<and> CheckConsistency ucmp v = Inr ()
     \<and> list_all (\<lambda>g. fm_is_nvm_level0 g \<and> fd_smallest_seqno (fm_fd g) \<le> fd_largest_seqno (fm_fd g)) (LevelFiles v 0)
     \<and> (\<forall>l < num_levels v. sorted_wrt (FileComparator ucmp l) (LevelFiles v l)
          \<and> distinct (map file_number (LevelFiles v l)) \<and> (l > 0 \<longrightarrow> level_ok ucmp (LevelFiles v l)))"

lemma level_map_new:
  "l < num_levels v \<Longrightarrow> level_map (VersionBuilder_new v) l = (\<lambda>n. find_no n (LevelFiles v l))"
  by (simp add: level_map_def VersionBuilder_new_def fun_eq_iff)

lemma builder_ok_new: "builder_ok (VersionBuilder_new v)"
  by (simp add: builder_ok_def VersionBuilder_new_def level_state_ok_def)

lemma file_number_rest [simp]: "file_number (rest_meta c i) = file_number (L0compactionfiles c ! i)"
  by (simp add: rest_meta_def Let_def GetNumber_def)

text \<open>The edit of a column compaction can be applied.\<close>

lemma column_edit_ok:
  assumes v: "column_version_ok ucmp v" and c: "item_ok m (LevelFiles v 0) c"
    and L1: "set (L1compactionfiles c) \<subseteq> set (LevelFiles v 1)"
    and del: "set (ve_deleted_files e) = (\<lambda>f. (0, filenum f)) ` set (cc_files c) \<union> (\<lambda>g. (1, file_number g)) ` set (L1compactionfiles c)"
    and dist: "distinct (ve_deleted_files e)"
    and new: "ve_new_files e = map (\<lambda>i. (0, rest_meta c i)) (filter (\<lambda>i. \<not> used_up c i) [0..<length (cc_files c)])"
  shows "edit_ok (VersionBuilder_new v) e"
proof -
  let ?b = "VersionBuilder_new v"
  have lv: "num_levels (base_vstorage ?b) = num_levels v" "1 < num_levels v" "0 < num_levels v"
    using v by (simp_all add: column_version_ok_def VersionBuilder_new_def)
  have no: "find_no (filenum (cc_files c ! i)) (LevelFiles v 0) = Some (L0compactionfiles c ! i)"
      "file_number (L0compactionfiles c ! i) = filenum (cc_files c ! i)" "fm_is_nvm_level0 (L0compactionfiles c ! i)"
    if "i < length (cc_files c)" for i
  proof -
    show f: "find_no (filenum (cc_files c ! i)) (LevelFiles v 0) = Some (L0compactionfiles c ! i)"
      using c that by (simp add: item_ok_def find_no_def)
    show "file_number (L0compactionfiles c ! i) = filenum (cc_files c ! i)" "fm_is_nvm_level0 (L0compactionfiles c ! i)"
      using find_no_SomeD [OF f] v by (auto simp: column_version_ok_def list_all_iff)
  qed
  have "0 \<le> l \<and> l < int (num_levels v) \<and> level_map ?b (nat l) n \<noteq> None" if ln: "(l, n) \<in> set (ve_deleted_files e)" for l n
  proof -
    consider i where "i < length (cc_files c)" "l = 0" "n = filenum (cc_files c ! i)" | g where "g \<in> set (LevelFiles v 1)" "l = 1" "n = file_number g"
      using ln L1 unfolding del by (auto simp: in_set_conv_nth)
    then show ?thesis
    proof cases
      case (1 i)
      then show ?thesis using no(1) lv by (simp add: level_map_new)
    next
      case (2 g)
      have "find_no n (LevelFiles v 1) \<noteq> None" unfolding find_no_None 2(3) using 2(1) by simp
      then show ?thesis using 2 lv by (simp add: level_map_new)
    qed
  qed
  moreover have "(0, file_number f) \<in> set (ve_deleted_files e) \<and> l = 0 \<and> fm_is_nvm_level0 f" if lf: "(l, f) \<in> set (ve_new_files e)" for l f
  proof -
    obtain i where i: "l = 0" "f = rest_meta c i" "i < length (cc_files c)" using lf unfolding new by auto
    then show ?thesis using no [OF i(3)] nth_mem [OF i(3)] unfolding del by (auto simp: rest_meta_def Let_def GetNumber_def)
  qed
  moreover have "distinct (map (\<lambda>(l, f). (l, file_number f)) (ve_new_files e))"
  proof -
    have "inj_on ((!) (map filenum (cc_files c))) {..<length (cc_files c)}"
      by (rule inj_on_nth) (use c in \<open>simp_all add: item_ok_def\<close>)
    then have "inj_on (\<lambda>i. file_number (L0compactionfiles c ! i)) {..<length (cc_files c)}"
      using inj_on_cong [of "{..<length (cc_files c)}" "(!) (map filenum (cc_files c))" "\<lambda>i. file_number (L0compactionfiles c ! i)"] no(2)
      by simp
    then show ?thesis unfolding new by (auto simp: distinct_map comp_def inj_on_def)
  qed
  ultimately show ?thesis using dist lv by (auto simp: edit_ok_def)
qed

lemma find_SomeD: "find P xs = Some x \<Longrightarrow> x \<in> set xs \<and> P x"
  by (auto simp: find_Some_iff)

lemma item_okD:
  assumes "item_ok m L0 c" and i: "i < length (cc_files c)"
  shows "find_no (filenum (cc_files c ! i)) L0 = Some (L0compactionfiles c ! i)"
    and "FindFile m (filenum (cc_files c ! i)) True = Some (cc_files c ! i)"
    and "unat (fm_first_key_index (L0compactionfiles c ! i) + cc_keys_num c ! i) =
      unat (fm_first_key_index (L0compactionfiles c ! i)) + unat (cc_keys_num c ! i)"
    and "unat (fm_first_key_index (L0compactionfiles c ! i)) + unat (cc_keys_num c ! i) \<le> keys_num (cc_files c ! i)"
    and "k < length (cc_files c) \<Longrightarrow> filenum (cc_files c ! k) = filenum (cc_files c ! i) \<Longrightarrow> k = i"
proof -
  show le: "unat (fm_first_key_index (L0compactionfiles c ! i)) + unat (cc_keys_num c ! i) \<le> keys_num (cc_files c ! i)"
    and "find_no (filenum (cc_files c ! i)) L0 = Some (L0compactionfiles c ! i)"
    and "FindFile m (filenum (cc_files c ! i)) True = Some (cc_files c ! i)"
    using assms by (simp_all add: item_ok_def find_no_def)
  have "keys_num (cc_files c ! i) < 2 ^ 64" using assms by (simp add: item_ok_def)
  with le show "unat (fm_first_key_index (L0compactionfiles c ! i) + cc_keys_num c ! i) =
      unat (fm_first_key_index (L0compactionfiles c ! i)) + unat (cc_keys_num c ! i)"
    by (subst unat_add_lem [symmetric]) simp
  have "distinct (map filenum (cc_files c))" using assms(1) by (simp add: item_ok_def)
  then show "k = i" if "k < length (cc_files c)" "filenum (cc_files c ! k) = filenum (cc_files c ! i)"
    using that i nth_eq_iff_index_eq [of "map filenum (cc_files c)" k i] by simp
qed

text \<open>What the edit makes of the map of level 0.\<close>

lemma column_edit_map:
  assumes c: "item_ok m L0 c"
    and del: "set (ve_deleted_files e) = (\<lambda>f. (0, filenum f)) ` set (cc_files c) \<union> (\<lambda>g. (1, file_number g)) ` set (L1compactionfiles c)"
    and new: "ve_new_files e = map (\<lambda>i. (0, rest_meta c i)) (filter (\<lambda>i. \<not> used_up c i) [0..<length (cc_files c)])"
  shows "i < length (cc_files c) \<Longrightarrow>
      edit_map e 0 lm (filenum (cc_files c ! i)) = (if used_up c i then None else Some (rest_meta c i))"
    and "n \<notin> filenum ` set (cc_files c) \<Longrightarrow> edit_map e 0 lm n = lm n"
    and "l > 0 \<Longrightarrow> new_on e l = []"
    and "l > 0 \<Longrightarrow> edit_map e l lm n = (if l = 1 \<and> n \<in> file_number ` set (L1compactionfiles c) then None else lm n)"
proof -
  have num: "file_number (L0compactionfiles c ! k) = filenum (cc_files c ! k)" if "k < length (cc_files c)" for k
    using find_no_SomeD [OF item_okD(1) [OF c that]] by simp
  have n0: "new_on e 0 = map (rest_meta c) (filter (\<lambda>i. \<not> used_up c i) [0..<length (cc_files c)])"
    unfolding new_on_def new by (simp add: filter_map comp_def)
  have fnd: "find_no n (map (rest_meta c) I) =
      (case find (\<lambda>k. filenum (cc_files c ! k) = n) I of None \<Rightarrow> None | Some k \<Rightarrow> Some (rest_meta c k))"
    if "set I \<subseteq> {..<length (cc_files c)}" for n I
    using that num by (induction I) auto
  show n1: "new_on e l = []" if "l > 0"
    using that by (simp add: new_on_def new filter_map comp_def)
  then show "edit_map e l lm n = (if l = 1 \<and> n \<in> file_number ` set (L1compactionfiles c) then None else lm n)" if "l > 0"
    using that unfolding edit_map_def del by auto
  show "edit_map e 0 lm n = lm n" if "n \<notin> filenum ` set (cc_files c)"
  proof -
    have "find (\<lambda>k. filenum (cc_files c ! k) = n) (filter (\<lambda>i. \<not> used_up c i) [0..<length (cc_files c)]) = None"
      using that by (auto simp: find_None_iff)
    then have "find_no n (new_on e 0) = None" unfolding n0 by (subst fnd) auto
    then show ?thesis unfolding edit_map_def del using that by auto
  qed
  show "edit_map e 0 lm (filenum (cc_files c ! i)) = (if used_up c i then None else Some (rest_meta c i))"
    if i: "i < length (cc_files c)"
  proof -
    let ?I = "filter (\<lambda>i. \<not> used_up c i) [0..<length (cc_files c)]"
    have "find (\<lambda>k. filenum (cc_files c ! k) = filenum (cc_files c ! i)) ?I = (if used_up c i then None else Some i)"
    proof (cases "used_up c i")
      case True
      then show ?thesis using item_okD(5) [OF c i] by (auto simp: find_None_iff)
    next
      case False
      have "i \<in> set ?I" using False i by simp
      then have "find (\<lambda>k. filenum (cc_files c ! k) = filenum (cc_files c ! i)) ?I \<noteq> None"
        unfolding find_None_iff by blast
      then obtain k where k: "find (\<lambda>k. filenum (cc_files c ! k) = filenum (cc_files c ! i)) ?I = Some k" by blast
      have "k \<in> set ?I" and "filenum (cc_files c ! k) = filenum (cc_files c ! i)"
        using find_SomeD [OF k] by simp_all
      then show ?thesis using False k item_okD(5) [OF c i] by simp
    qed
    then have "find_no (filenum (cc_files c ! i)) (new_on e 0) = (if used_up c i then None else Some (rest_meta c i))"
      unfolding n0 by (subst fnd) auto
    then show ?thesis unfolding edit_map_def del using nth_mem [OF i] by auto
  qed
qed

text \<open>The maps of the levels after the compaction.\<close>

definition column_map :: "ColumnCompactionItem \<Rightarrow> VersionStorageInfo \<Rightarrow> nat \<Rightarrow> u64 \<rightharpoonup> FileMetaData" where
  "column_map c v l n =
     (if l = 0 then
        (case find (\<lambda>i. filenum (cc_files c ! i) = n) [0..<length (cc_files c)] of
           Some i \<Rightarrow> if used_up c i then None else Some (rest_meta c i)
         | None \<Rightarrow> find_no n (LevelFiles v 0))
      else if l = 1 \<and> n \<in> file_number ` set (L1compactionfiles c) then None else find_no n (LevelFiles v l))"

lemma column_map_0:
  assumes c: "item_ok m (LevelFiles v 0) c"
  shows "i < length (cc_files c) \<Longrightarrow> column_map c v 0 (filenum (cc_files c ! i)) = (if used_up c i then None else Some (rest_meta c i))"
    and "n \<notin> filenum ` set (cc_files c) \<Longrightarrow> column_map c v 0 n = find_no n (LevelFiles v 0)"
proof -
  show "column_map c v 0 n = find_no n (LevelFiles v 0)" if "n \<notin> filenum ` set (cc_files c)"
  proof -
    have "find (\<lambda>i. filenum (cc_files c ! i) = n) [0..<length (cc_files c)] = None" using that by (auto simp: find_None_iff)
    then show ?thesis by (simp add: column_map_def)
  qed
  show "column_map c v 0 (filenum (cc_files c ! i)) = (if used_up c i then None else Some (rest_meta c i))"
    if i: "i < length (cc_files c)"
  proof -
    have "find (\<lambda>k. filenum (cc_files c ! k) = filenum (cc_files c ! i)) [0..<length (cc_files c)] \<noteq> None"
      unfolding find_None_iff using i by auto
    then obtain k where k: "find (\<lambda>k. filenum (cc_files c ! k) = filenum (cc_files c ! i)) [0..<length (cc_files c)] = Some k" by blast
    then have "k = i" using find_SomeD [OF k] by (intro item_okD(5) [OF c i]) simp_all
    then show ?thesis using k by (simp add: column_map_def)
  qed
qed

lemma column_edit_is_map:
  assumes c: "item_ok m (LevelFiles v 0) c"
    and del: "set (ve_deleted_files e) = (\<lambda>f. (0, filenum f)) ` set (cc_files c) \<union> (\<lambda>g. (1, file_number g)) ` set (L1compactionfiles c)"
    and new: "ve_new_files e = map (\<lambda>i. (0, rest_meta c i)) (filter (\<lambda>i. \<not> used_up c i) [0..<length (cc_files c)])"
  shows "edit_map e l (\<lambda>n. find_no n (LevelFiles v l)) = column_map c v l"
proof (rule ext)
  fix n
  note em = column_edit_map [OF c del new]
  consider "l > 0" | i where "l = 0" "i < length (cc_files c)" "n = filenum (cc_files c ! i)" | "l = 0" "n \<notin> filenum ` set (cc_files c)"
    by (metis gr_zeroI image_iff in_set_conv_nth)
  then show "edit_map e l (\<lambda>n. find_no n (LevelFiles v l)) n = column_map c v l n"
  proof cases
    case 1
    then show ?thesis by (subst em(4)) (simp_all add: column_map_def)
  qed (simp_all add: em(1,2) column_map_0 [OF c])
qed

lemma column_live:
  assumes c: "item_ok m (LevelFiles v 0) c"
  shows "live_of m (column_map c v 0) = live_of m (\<lambda>n. find_no n (LevelFiles v 0)) - selected c"
proof (rule set_eqI, clarify)
  have live: "(f, j) \<in> live_of m lm \<longleftrightarrow> (\<exists>g. lm (filenum f) = Some g \<and> FindFile m (filenum f) True = Some f \<and>
      unat (fm_first_key_index g) \<le> j \<and> j < keys_num f)" for lm f j
    unfolding live_of_def by (auto dest: FindFile_filenum)
  fix f j
  show "(f, j) \<in> live_of m (column_map c v 0) \<longleftrightarrow>
      (f, j) \<in> live_of m (\<lambda>n. find_no n (LevelFiles v 0)) - selected c"
  proof (cases "\<exists>i < length (cc_files c). filenum (cc_files c ! i) = filenum f")
    case False
    then have "filenum f \<notin> filenum ` set (cc_files c)" by (force simp: in_set_conv_nth)
    moreover have "(f, j) \<notin> selected c" using False by (auto simp: selected_def)
    ultimately show ?thesis by (simp add: live column_map_0 [OF c])
  next
    case True
    then obtain i where i: "i < length (cc_files c)" "filenum (cc_files c ! i) = filenum f" by blast
    note ci = item_okD [OF c i(1)]
    have sel: "(cc_files c ! i, j) \<in> selected c \<longleftrightarrow> unat (fm_first_key_index (L0compactionfiles c ! i)) \<le> j \<and>
        j < unat (fm_first_key_index (L0compactionfiles c ! i)) + unat (cc_keys_num c ! i)"
      (is "_ \<longleftrightarrow> ?R")
    proof
      assume "(cc_files c ! i, j) \<in> selected c"
      then obtain k where "k < length (cc_files c)" "cc_files c ! i = cc_files c ! k"
          "unat (fm_first_key_index (L0compactionfiles c ! k)) \<le> j"
          "j < unat (fm_first_key_index (L0compactionfiles c ! k)) + unat (cc_keys_num c ! k)"
        unfolding selected_def by blast
      moreover from this(1,2) have "k = i" by (intro ci(5)) simp_all
      ultimately show ?R by simp
    next
      assume ?R then show "(cc_files c ! i, j) \<in> selected c" using i(1) unfolding selected_def by blast
    qed
    show ?thesis
    proof (cases "f = cc_files c ! i")
      case True
      then show ?thesis using column_map_0(1) [OF c i(1)] ci(1-4) sel
        by (auto simp: live rest_meta_def Let_def used_up_def)
    next
      case False
      then show ?thesis using ci(2) i(2) by (auto simp: live)
    qed
  qed
qed

text \<open>The inputs are set up whenever the picker returns an item and no file of level 1 is under compaction already.\<close>

lemma column_setup:
  assumes uc: "user_comparator ucmp" and vok: "column_version_ok ucmp v"
    and pick: "PickColumnCompaction opts ucmp m v = Some (Inr (m', Some c))"
    and free: "list_all (\<lambda>g. \<not> being_compacted g) (L1compactionfiles c)"
  shows "\<exists>ci. SetupColumnCompactionInputs opts ucmp 1 being_compacted m v = Some (Inr (m', Some ci)) \<and> ci_item ci = c
    \<and> (\<forall>e. AddInputDeletions (ci_compaction_inputs ci) (Some c) e =
          AddInputDeletions [(0, L0compactionfiles c), (1, L1compactionfiles c)] (Some c) e)"
proof -
  have "\<exists>r. GetOverlappingInputs ucmp v 2 b e [] (- 1) True = Inr r" for b e
  proof (cases "num_non_empty_levels v \<le> 2")
    case False
    then have "level_ok ucmp (LevelFiles v 2)" using vok by (simp add: column_version_ok_def)
    then show ?thesis using False user_comparator.overlapping_search_exact [OF uc, of "LevelFiles v 2" b e]
      by (auto simp: GetOverlappingInputs_def)
  qed (simp add: GetOverlappingInputs_def)
  then obtain gp where gp: "GetOverlappingInputs ucmp v 2 b e [] (- 1) True = Inr (gp b e)" for b e by metis
  have "\<not> list_ex being_compacted (L1compactionfiles c)" using free by (simp add: list_ex_iff list_all_iff)
  then show ?thesis
    using pick by (cases "L1compactionfiles c")
      (auto simp: SetupColumnCompactionInputs_def GetRange_level_def GetRange_keys_def numeral_2_eq_2 [symmetric] gp
        AddInputDeletions_def input_deletions_def)
qed

text \<open>The builder can be saved after the edit: above level 0 it only has files of the old version.\<close>

lemma column_save_ok:
  assumes uc: "user_comparator ucmp" and vok: "column_version_ok ucmp v"
    and b: "builder_ok b'" "base_vstorage b' = v"
    and lm: "\<And>l. l < num_levels v \<Longrightarrow> level_map b' l = edit_map e l (\<lambda>n. find_no n (LevelFiles v l))"
    and new: "\<And>l. l > 0 \<Longrightarrow> new_on e l = []"
  shows "save_ok ucmp b'"
proof -
  let ?c = "InternalKeyComparator_Compare ucmp"
  have kept: "f \<in> set (LevelFiles v l)" if "f \<in> set (kept b' l)" "l < num_levels v" "l > 0" for f l
  proof (cases "f \<in> set (added_files (rb_levels b' ! l))")
    case True
    then have "find_no (file_number f) (added_files (rb_levels b' ! l)) = Some f"
      using b that by (subst find_no_distinct) (simp_all add: builder_ok_def level_state_ok_def)
    then have "edit_map e l (\<lambda>n. find_no n (LevelFiles v l)) (file_number f) = Some f"
      using fun_cong [OF lm [OF that(2)], of "file_number f"] by (simp add: level_map_def)
    then show ?thesis using new [OF that(3)] by (auto simp: edit_map_def find_no_def dest: find_SomeD split: if_splits)
  qed (use that b in \<open>simp add: kept_def\<close>)
  have lev: "?c (fm_smallest f) (fm_largest f) \<le> 0 \<and> (f \<noteq> g \<longrightarrow> ?c (fm_largest f) (fm_smallest g) < 0 \<or> ?c (fm_largest g) (fm_smallest f) < 0)"
    if fg: "f \<in> set (LevelFiles v l)" "g \<in> set (LevelFiles v l)" "l < num_levels v" "l > 0" for f g l
  proof -
    have ok: "level_ok ucmp (LevelFiles v l)" using vok that by (simp add: column_version_ok_def)
    obtain i j where ij: "i < length (LevelFiles v l)" "j < length (LevelFiles v l)" "f = LevelFiles v l ! i" "g = LevelFiles v l ! j"
      using fg(1,2) by (metis in_set_conv_nth)
    then show ?thesis using ok fg(1) unfolding level_ok_def sorted_wrt_iff_nth_less list_all_iff
      by (metis linorder_neqE_nat)
  qed
  show ?thesis
    unfolding save_ok_def b(2) using b(1) vok lev [OF kept kept] unfolding column_version_ok_def by blast
qed

lemma column_apply:
  assumes uc: "user_comparator ucmp" and vok: "column_version_ok ucmp v" and c: "item_ok m (LevelFiles v 0) c"
    and L1: "set (L1compactionfiles c) \<subseteq> set (LevelFiles v 1)"
  obtains e b' where "AddInputDeletions [(0, L0compactionfiles c), (1, L1compactionfiles c)] (Some c) VersionEdit_Clear = Inr
      (e, map (\<lambda>i. filenum (cc_files c ! i)) (filter (used_up c) [0..<length (cc_files c)]))"
    and "Builder_Apply ucmp e (VersionBuilder_new v) = Inr b'" and "save_ok ucmp b'" and "base_vstorage b' = v"
    and "\<forall>l < num_levels v. level_map b' l = column_map c v l"
proof -
  have "set (L0compactionfiles c) \<subseteq> set (LevelFiles v 0)"
    using find_no_SomeD [OF item_okD(1) [OF c]] c by (auto simp: in_set_conv_nth item_ok_def)
  then have seq: "list_all (\<lambda>g. fd_smallest_seqno (fm_fd g) \<le> fd_largest_seqno (fm_fd g)) (L0compactionfiles c)"
    using vok by (auto simp: column_version_ok_def list_all_iff)
  obtain e where e: "AddInputDeletions [(0, L0compactionfiles c), (1, L1compactionfiles c)] (Some c) VersionEdit_Clear = Inr
      (e, map (\<lambda>i. filenum (cc_files c ! i)) (filter (used_up c) [0..<length (cc_files c)]))"
    and del: "set (ve_deleted_files e) = (\<lambda>f. (0, filenum f)) ` set (cc_files c) \<union> (\<lambda>g. (1, file_number g)) ` set (L1compactionfiles c)"
    and dist: "distinct (ve_deleted_files e)"
    and new: "ve_new_files e = map (\<lambda>i. (0, rest_meta c i)) (filter (\<lambda>i. \<not> used_up c i) [0..<length (cc_files c)])"
    using AddInputDeletions_spec [OF c seq, of VersionEdit_Clear 1] by (auto simp: VersionEdit_Clear_def)
  have bv: "base_vstorage (VersionBuilder_new v) = v" by (simp add: VersionBuilder_new_def)
  moreover have "CheckConsistency ucmp v = Inr ()" using vok by (simp add: column_version_ok_def)
  ultimately obtain b' where b': "Builder_Apply ucmp e (VersionBuilder_new v) = Inr b'" "builder_ok b'" "base_vstorage b' = v"
      "\<forall>l < num_levels v. level_map b' l = edit_map e l (level_map (VersionBuilder_new v) l)"
    using Builder_Apply_ok [OF builder_ok_new column_edit_ok [OF vok c L1 del dist new], of ucmp] by auto
  then have lm: "level_map b' l = edit_map e l (\<lambda>n. find_no n (LevelFiles v l))" if "l < num_levels v" for l
    using that by (simp add: level_map_new)
  have "save_ok ucmp b'"
    by (rule column_save_ok [OF uc vok b'(2,3) lm column_edit_map(3) [OF c del new]])
  moreover have "\<forall>l < num_levels v. level_map b' l = column_map c v l"
    using lm column_edit_is_map [OF c del new] by simp
  ultimately show thesis using that e b'(1,3) by blast
qed

text \<open>A level above 0 as a set of files, and the tables with no key left.\<close>

lemma column_map_files:
  assumes "column_version_ok ucmp v" and "set (L1compactionfiles c) \<subseteq> set (LevelFiles v 1)" and l: "0 < l" "l < num_levels v"
    and find: "(\<lambda>n. find_no n fs) = column_map c v l" and dist: "distinct (map file_number fs)"
  shows "set fs = set (LevelFiles v l) - (if l = 1 then set (L1compactionfiles c) else {})"
proof (rule set_eqI)
  fix f
  have d: "distinct (map file_number (LevelFiles v l))" using assms(1) l(2) by (simp add: column_version_ok_def)
  have "f \<in> set fs \<longleftrightarrow> find_no (file_number f) fs = Some f" by (simp add: find_no_distinct [OF dist])
  also have "\<dots> \<longleftrightarrow> f \<in> set (LevelFiles v l) \<and> \<not> (l = 1 \<and> file_number f \<in> file_number ` set (L1compactionfiles c))"
    using l(1) by (simp add: fun_cong [OF find] column_map_def find_no_distinct [OF d])
  also have "\<dots> \<longleftrightarrow> f \<in> set (LevelFiles v l) - (if l = 1 then set (L1compactionfiles c) else {})"
    using d assms(2) by (auto simp: distinct_map inj_on_def)
  finally show "f \<in> set fs \<longleftrightarrow> \<dots>" .
qed

lemma column_deleted:
  assumes c: "item_ok m (LevelFiles v 0) c"
  shows "(\<lambda>i. filenum (cc_files c ! i)) ` {i. i < length (cc_files c) \<and> used_up c i} =
    {n \<in> filenum ` set (cc_files c). column_map c v 0 n = None}"
  using column_map_0(1) [OF c] by (fastforce simp: set_conv_nth split: if_splits)

text \<open>C1: a column compaction, from the choice of the keys to the new version. On a module and a version that agree, the
  setup returns the inputs of a compaction, the edit that \<open>AddInputDeletions\<close> records for it can be applied to the
  version, and the result can be saved. The live keys of level 0 are then the old ones without the keys taken: no other
  key disappears, and no key that was moved stays. Level 1 loses exactly the files that were taken as inputs, and the
  levels below keep theirs. The tables reported as deleted are those of which level 0 has no key any more. The files the
  compaction job writes join the edit as new files of level 1; here they are none.\<close>

theorem column_compaction_installs:
  assumes "user_comparator ucmp \<and> column_input_ok ucmp m v \<and> column_version_ok ucmp v
    \<and> list_all (\<lambda>g. \<not> being_compacted g) (LevelFiles v 1) \<and> is_nvmcf v0 \<and> vs_files v0 = replicate (num_levels v) []"
  shows "\<exists>m' ci e dels b' v'. SetupColumnCompactionInputs opts ucmp 1 being_compacted m v = Some (Inr (m', Some ci))
    \<and> AddInputDeletions (ci_compaction_inputs ci) (Some (ci_item ci)) VersionEdit_Clear = Inr (e, dels)
    \<and> Builder_Apply ucmp e (VersionBuilder_new v) = Inr b'
    \<and> SaveTo ucmp b' v0 = Inr v'
    \<and> live_of (nm_meta m) (\<lambda>n. find_no n (LevelFiles v' 0)) =
        live_of (nm_meta m) (\<lambda>n. find_no n (LevelFiles v 0)) - selected (ci_item ci)
    \<and> set (LevelFiles v' 1) = set (LevelFiles v 1) - set (L1compactionfiles (ci_item ci))
    \<and> (\<forall>l. 1 < l \<and> l < num_levels v \<longrightarrow> set (LevelFiles v' l) = set (LevelFiles v l))
    \<and> set dels = filenum ` set (cc_files (ci_item ci)) - file_number ` set (LevelFiles v' 0)"
proof -
  have uc: "user_comparator ucmp" and tw: "three_way ucmp" and ok: "column_input_ok ucmp m v" and vok: "column_version_ok ucmp v"
    using assms by (simp_all add: user_comparator_def)
  obtain m' c cs firsts ps n where pk: "picked ucmp opts m v m' c cs firsts ps n"
    using user_comparator.pick_column_spec [OF uc ok] by blast
  then have k: "PickColumnCompaction opts ucmp m v = Some (Inr (m', Some c))" "set (L1compactionfiles c) \<subseteq> set (LevelFiles v 1)"
    by (simp_all add: picked_def)
  then have "list_all (\<lambda>g. \<not> being_compacted g) (L1compactionfiles c)" using assms by (auto simp: list_all_iff)
  then obtain ci where ci: "SetupColumnCompactionInputs opts ucmp 1 being_compacted m v = Some (Inr (m', Some ci))" "ci_item ci = c"
      "AddInputDeletions (ci_compaction_inputs ci) (Some c) VersionEdit_Clear =
        AddInputDeletions [(0, L0compactionfiles c), (1, L1compactionfiles c)] (Some c) VersionEdit_Clear"
    using column_setup [OF uc vok k(1)] by blast
  have c: "item_ok (nm_meta m) (LevelFiles v 0) c" by (rule picked_item_ok [OF tw pk])
  have two: "2 \<le> num_levels v" using vok by (simp add: column_version_ok_def)
  obtain e b' where e: "AddInputDeletions [(0, L0compactionfiles c), (1, L1compactionfiles c)] (Some c) VersionEdit_Clear = Inr
      (e, map (\<lambda>i. filenum (cc_files c ! i)) (filter (used_up c) [0..<length (cc_files c)]))"
    and b': "Builder_Apply ucmp e (VersionBuilder_new v) = Inr b'" and sv: "save_ok ucmp b'" "base_vstorage b' = v"
    and lm: "\<forall>l < num_levels v. level_map b' l = column_map c v l"
    by (rule column_apply [OF uc vok c k(2)])
  define v' where "v' = v0\<lparr>vs_files := map (saved ucmp b') [0..<num_levels v]\<rparr>"
  have save: "SaveTo ucmp b' v0 = Inr v'"
    using user_comparator.SaveTo_ok [OF uc sv(1), of v0] assms by (simp add: v'_def sv(2))
  have find: "(\<lambda>n. find_no n (LevelFiles v' l)) = column_map c v l" and dist: "distinct (map file_number (LevelFiles v' l))"
    if "l < num_levels v" for l
    using user_comparator.saved_level(2,3) [OF uc sv(1)] that lm by (simp_all add: v'_def LevelFiles_def sv(2))
  have above: "set (LevelFiles v' l) = set (LevelFiles v l) - (if l = 1 then set (L1compactionfiles c) else {})"
    if l: "0 < l" "l < num_levels v" for l
    by (rule column_map_files [OF vok k(2) l find [OF l(2)] dist [OF l(2)]])
  note L0 = find [of 0]
  have "live_of (nm_meta m) (\<lambda>n. find_no n (LevelFiles v' 0)) = live_of (nm_meta m) (\<lambda>n. find_no n (LevelFiles v 0)) - selected c"
    using two by (subst find) (simp_all add: column_live [OF c])
  moreover have "set (map (\<lambda>i. filenum (cc_files c ! i)) (filter (used_up c) [0..<length (cc_files c)])) =
      filenum ` set (cc_files c) - file_number ` set (LevelFiles v' 0)"
  proof -
    have "column_map c v 0 n = None \<longleftrightarrow> n \<notin> file_number ` set (LevelFiles v' 0)" for n
      using fun_cong [OF find [of 0]] two by (simp flip: find_no_None)
    then show ?thesis using column_deleted [OF c] by auto
  qed
  moreover have "set (LevelFiles v' 1) = set (LevelFiles v 1) - set (L1compactionfiles c)" using above [of 1] two by simp
  moreover have "\<forall>l. 1 < l \<and> l < num_levels v \<longrightarrow> set (LevelFiles v' l) = set (LevelFiles v l)" using above by simp
  ultimately show ?thesis using ci e b' save by metis
qed

definition installed_version :: VersionStorageInfo where
  "installed_version =
     \<lparr>vs_files = [[level0_file 2 9 0, level0_file 1 5 0],
        [range_file 7 (InternalKey [98] 1 1) (InternalKey [99] 1 1), range_file 8 (InternalKey [120] 1 1) (InternalKey [121] 1 1)]],
      num_non_empty_levels = 2, is_nvmcf = True\<rparr>"

theorem column_compaction_installs_witness:
  "\<exists>m' ci e dels b' v'. SetupColumnCompactionInputs column_options Bytewise_Compare 1 (\<lambda>g. False)
       (example_module [(InternalKey [98] 9 1, [7])] [(InternalKey [97] 1 1, [8]), (InternalKey [98] 2 1, [9])])
       installed_version = Some (Inr (m', Some ci))
    \<and> AddInputDeletions (ci_compaction_inputs ci) (Some (ci_item ci)) VersionEdit_Clear = Inr (e, dels)
    \<and> Builder_Apply Bytewise_Compare e (VersionBuilder_new installed_version) = Inr b'
    \<and> SaveTo Bytewise_Compare b' \<lparr>vs_files = [[], []], num_non_empty_levels = 0, is_nvmcf = True\<rparr> = Inr v'
    \<and> set (LevelFiles v' 1) = set (LevelFiles installed_version 1) - set (L1compactionfiles (ci_item ci))"
proof -
  let ?m = "example_module [(InternalKey [98] 9 1, [7])] [(InternalKey [97] 1 1, [8]), (InternalKey [98] 2 1, [9])]"
  let ?v0 = "\<lparr>vs_files = [[], []], num_non_empty_levels = 0, is_nvmcf = True\<rparr>"
  have "column_input_ok Bytewise_Compare ?m installed_version" by code_simp
  moreover have "column_version_ok Bytewise_Compare installed_version" by code_simp
  moreover have "list_all (\<lambda>g. \<not> False) (LevelFiles installed_version 1)" by (simp add: list_all_iff)
  moreover have "is_nvmcf ?v0 \<and> vs_files ?v0 = replicate (num_levels installed_version) []" by code_simp
  ultimately have "user_comparator Bytewise_Compare \<and> column_input_ok Bytewise_Compare ?m installed_version
      \<and> column_version_ok Bytewise_Compare installed_version \<and> list_all (\<lambda>g. \<not> False) (LevelFiles installed_version 1)
      \<and> is_nvmcf ?v0 \<and> vs_files ?v0 = replicate (num_levels installed_version) []"
    using bytewise_keys.user_comparator_axioms by blast
  from column_compaction_installs [OF this, of column_options] show ?thesis
    by (elim exE conjE) (intro exI conjI)
qed

end
